(* ===== verification/Prelude.thy ===== *)
theory Prelude
  imports Complex_Main "HOL-Library.List_Lexorder" "HOL-Library.Char_ord" "HOL-Library.Multiset"
begin

text \<open>
  Shared vocabulary of the development: the values of the TypeScript program (numbers, JSON,
  strings, insertion-ordered maps), results of fallible code, and the strict-replay interface
  that every event-sourced component of the program implements.

  Strings are lists of \<^typ>\<open>char\<close>; one \<^typ>\<open>char\<close> stands for one UTF-16 code unit below
  256. Numbers that the source only counts with are \<^typ>\<open>int\<close>; numbers that the source reads
  from JSON are \<^typ>\<open>rat\<close>, because a JSON number is a finite double.
\<close>

named_theorems js_simps "evaluation rules for the JavaScript value model"
named_theorems replay_simps "unfolding of fallible steps that succeeded"

section \<open>Results\<close>

text \<open>A throwing function returns \<open>Inl\<close> of the error it throws, or \<open>Inr\<close> of its value.\<close>

fun rbind :: "'e + 'a \<Rightarrow> ('a \<Rightarrow> 'e + 'b) \<Rightarrow> 'e + 'b" where
  "rbind (Inl e) f = Inl e"
| "rbind (Inr a) f = f a"

definition require :: "bool \<Rightarrow> 'e \<Rightarrow> 'e + unit" where
  "require b e = (if b then Inr () else Inl e)"

definition ok :: "'e + 'a \<Rightarrow> bool" where
  "ok r = (case r of Inl _ \<Rightarrow> False | Inr _ \<Rightarrow> True)"

lemma rbind_Inr_iff [replay_simps]: "rbind r f = Inr b \<longleftrightarrow> (\<exists>a. r = Inr a \<and> f a = Inr b)"
  by (cases r) auto

lemma rbindE:
  assumes "rbind r f = Inr b"
  obtains a where "r = Inr a" and "f a = Inr b"
  using assms by (cases r) auto

lemma rbind_Inl_iff: "rbind r f = Inl e \<longleftrightarrow> r = Inl e \<or> (\<exists>a. r = Inr a \<and> f a = Inl e)"
  by (cases r) auto

lemma rbind_Inr_right: "rbind r Inr = r"
  by (cases r) auto

lemma require_Inr_iff [simp]: "require b e = Inr u \<longleftrightarrow> b"
  by (simp add: require_def)

lemma require_Inl_iff [simp]: "require b e = Inl e' \<longleftrightarrow> \<not> b \<and> e = e'"
  by (auto simp: require_def)

lemma ok_simps [simp]: "ok (Inr a)" "\<not> ok (Inl e)"
  by (simp_all add: ok_def)

lemma ok_iff: "ok r \<longleftrightarrow> (\<exists>a. r = Inr a)"
  by (cases r) auto

text \<open>\<open>xs.map(f)\<close> with a throwing \<open>f\<close>: the first error stops it.\<close>

fun traverse :: "('a \<Rightarrow> 'e + 'b) \<Rightarrow> 'a list \<Rightarrow> 'e + 'b list" where
  "traverse f [] = Inr []"
| "traverse f (x # xs) = rbind (f x) (\<lambda>y. rbind (traverse f xs) (\<lambda>ys. Inr (y # ys)))"

lemma traverse_Inr: "traverse f xs = Inr ys \<longleftrightarrow> list_all2 (\<lambda>x y. f x = Inr y) xs ys"
  by (induction xs arbitrary: ys) (auto simp: rbind_Inr_iff list_all2_Cons1)

lemma traverse_cong: "(\<And>x. x \<in> set xs \<Longrightarrow> f x = g x) \<Longrightarrow> traverse f xs = traverse g xs"
  by (induction xs) auto

lemma traverse_length: "traverse f xs = Inr ys \<Longrightarrow> length ys = length xs"
  by (simp add: traverse_Inr list_all2_lengthD)

section \<open>Stateful operations that throw\<close>

text \<open>
  An operation on an object: it returns the object as it is afterwards together with the error it
  throws or its value. Effects before a throw stay.
\<close>

type_synonym ('s, 'e, 'a) oper = "'s \<Rightarrow> 's \<times> ('e + 'a)"

definition op_return :: "'a \<Rightarrow> ('s, 'e, 'a) oper" where
  "op_return a = (\<lambda>s. (s, Inr a))"

definition op_throw :: "'e \<Rightarrow> ('s, 'e, 'a) oper" where
  "op_throw err = (\<lambda>s. (s, Inl err))"

definition op_lift :: "'e + 'a \<Rightarrow> ('s, 'e, 'a) oper" where
  "op_lift r = (\<lambda>s. (s, r))"

definition op_require :: "bool \<Rightarrow> 'e \<Rightarrow> ('s, 'e, unit) oper" where
  "op_require b err = op_lift (require b err)"

definition op_read :: "('s \<Rightarrow> 'a) \<Rightarrow> ('s, 'e, 'a) oper" where
  "op_read f = (\<lambda>s. (s, Inr (f s)))"

definition op_bind :: "('s, 'e, 'a) oper \<Rightarrow> ('a \<Rightarrow> ('s, 'e, 'b) oper) \<Rightarrow> ('s, 'e, 'b) oper" where
  "op_bind m f = (\<lambda>s. case m s of (s', Inl err) \<Rightarrow> (s', Inl err) | (s', Inr a) \<Rightarrow> f a s')"

text \<open>The same operation with its errors wrapped by the caller.\<close>

definition op_rethrow :: "('e \<Rightarrow> 'f) \<Rightarrow> ('s, 'e, 'a) oper \<Rightarrow> ('s, 'f, 'a) oper" where
  "op_rethrow c m = (\<lambda>s. case m s of (s', Inl err) \<Rightarrow> (s', Inl (c err)) | (s', Inr a) \<Rightarrow> (s', Inr a))"

lemma op_bind_done: "m s = (s', Inr a) \<Longrightarrow> op_bind m f s = f a s'"
  by (simp add: op_bind_def)

lemma op_bind_thrown: "m s = (s', Inl err) \<Longrightarrow> op_bind m f s = (s', Inl err)"
  by (simp add: op_bind_def)

lemma op_bindE:
  assumes "op_bind m f s = (s', Inr b)"
  obtains s1 a where "m s = (s1, Inr a)" and "f a s1 = (s', Inr b)"
  using assms by (auto simp: op_bind_def split: prod.splits sum.splits)

lemma op_bind_cases:
  assumes "op_bind m f s = (s', r)"
  obtains (thrown) err where "m s = (s', Inl err)" and "r = Inl err"
  | (passed) s1 a where "m s = (s1, Inr a)" and "f a s1 = (s', r)"
  using assms by (auto simp: op_bind_def split: prod.splits sum.splits)

lemma op_simps [simp]:
  "op_return a s = (s', r) \<longleftrightarrow> s' = s \<and> r = Inr a"
  "op_throw err s = (s', r') \<longleftrightarrow> s' = s \<and> r' = Inl err"
  "op_lift q s = (s', q') \<longleftrightarrow> s' = s \<and> q' = q"
  "op_read g s = (s', q'') \<longleftrightarrow> s' = s \<and> q'' = Inr (g s)"
  by (auto simp: op_return_def op_throw_def op_lift_def op_read_def)

lemma op_require_simps [simp]:
  "op_require b err s = (s', Inr u) \<longleftrightarrow> s' = s \<and> b"
  "op_require b err s = (s', Inl err') \<longleftrightarrow> s' = s \<and> \<not> b \<and> err' = err"
  by (auto simp: op_require_def require_def op_lift_def)

text \<open>An operation keeps a relation between the object before and after it, however it ends.\<close>

definition op_keeps :: "('s \<Rightarrow> 's \<Rightarrow> bool) \<Rightarrow> ('s, 'e, 'a) oper \<Rightarrow> bool" where
  "op_keeps R m \<longleftrightarrow> (\<forall>s. R s (fst (m s)))"

lemma op_keeps_bind:
  assumes "transp R" and "op_keeps R m" and "\<And>a. op_keeps R (f a)"
  shows "op_keeps R (op_bind m f)"
  unfolding op_keeps_def
proof
  fix s
  obtain s1 r where m: "m s = (s1, r)" by (cases "m s")
  with assms(2) have 1: "R s s1" unfolding op_keeps_def by (metis fst_conv)
  show "R s (fst (op_bind m f s))"
  proof (cases r)
    case (Inl err)
    with m 1 show ?thesis by (simp add: op_bind_def)
  next
    case (Inr a)
    have "R s1 (fst (f a s1))" using assms(3) by (simp add: op_keeps_def)
    with m Inr 1 assms(1) show ?thesis by (auto simp: op_bind_def dest: transpD)
  qed
qed

lemma op_keeps_simple:
  assumes "reflp R"
  shows "op_keeps R (op_return a)" and "op_keeps R (op_throw err)" and "op_keeps R (op_lift q)"
    and "op_keeps R (op_require b err)" and "op_keeps R (op_read g)"
  using assms by (simp_all add: op_keeps_def op_return_def op_throw_def op_lift_def op_require_def op_read_def reflpD)

section \<open>Strict replay\<close>

text \<open>
  The program rebuilds every component's state by folding a throwing step over an event list,
  stopping at the first event the step rejects.
\<close>

fun replay :: "('s \<Rightarrow> 'x \<Rightarrow> 'e + 's) \<Rightarrow> 's \<Rightarrow> 'x list \<Rightarrow> 'e + 's" where
  "replay step s [] = Inr s"
| "replay step s (x # xs) = rbind (step s x) (\<lambda>s'. replay step s' xs)"

lemma replay_append:
  "replay step s (xs @ ys) = rbind (replay step s xs) (\<lambda>s'. replay step s' ys)"
proof (induction xs arbitrary: s)
  case (Cons x xs)
  then show ?case by (cases "step s x") simp_all
qed simp

lemma replay_append_Inr:
  "replay step s (xs @ ys) = Inr t \<longleftrightarrow>
     (\<exists>m. replay step s xs = Inr m \<and> replay step m ys = Inr t)"
  by (simp add: replay_append rbind_Inr_iff)

lemma replay_snoc: "replay step s (xs @ [x]) = rbind (replay step s xs) (\<lambda>s'. step s' x)"
  by (simp add: replay_append rbind_Inr_right)

lemma replay_snoc_Inr:
  "replay step s (xs @ [x]) = Inr t \<longleftrightarrow> (\<exists>m. replay step s xs = Inr m \<and> step m x = Inr t)"
  by (simp add: replay_snoc rbind_Inr_iff)

text \<open>
  The interface every replayed component provides: what its state says about the events that
  were accepted so far. The event list is the history, oldest event first.
\<close>

locale replayed =
  fixes step :: "'s \<Rightarrow> 'x \<Rightarrow> 'e + 's"
    and start :: "'s"
    and hist :: "'x list \<Rightarrow> 's \<Rightarrow> bool"
  assumes hist_start: "hist [] start"
    and hist_step: "hist xs s \<Longrightarrow> step s x = Inr s' \<Longrightarrow> hist (xs @ [x]) s'"
begin

lemma run_hist: "replay step start xs = Inr t \<Longrightarrow> hist xs t"
proof (induction xs arbitrary: t rule: rev_induct)
  case Nil
  then show ?case using hist_start by simp
next
  case (snoc x xs)
  then show ?case by (auto simp: replay_snoc_Inr intro: hist_step)
qed

lemma run_prefix:
  assumes "replay step start (xs @ ys) = Inr t"
  obtains m where "replay step start xs = Inr m" and "replay step m ys = Inr t" and "hist xs m"
  using assms run_hist by (auto simp: replay_append_Inr)

text \<open>An event of an accepted log was accepted in a state that describes the events before it.\<close>

lemma run_event:
  assumes "replay step start (xs @ x # ys) = Inr t"
  obtains m m' where "replay step start xs = Inr m" and "hist xs m" and "step m x = Inr m'"
    and "hist (xs @ [x]) m'" and "replay step m' ys = Inr t"
proof -
  from assms obtain m where m: "replay step start xs = Inr m" "replay step m (x # ys) = Inr t" "hist xs m"
    by (rule run_prefix)
  then obtain m' where "step m x = Inr m'" "replay step m' ys = Inr t"
    by (auto simp: rbind_Inr_iff)
  then show thesis using m hist_step that by blast
qed

end

text \<open>
  A cached fold: the program keeps a fold's value together with how many events it has seen, and
  brings it up to date by folding the unseen suffix only.
\<close>

locale cached_fold =
  fixes step :: "'s \<Rightarrow> 'x \<Rightarrow> 's"
    and start :: "'s"
    and sync :: "'s \<times> nat \<Rightarrow> 'x list \<Rightarrow> 's \<times> nat"
  assumes sync_suffix: "n \<le> length evs \<Longrightarrow> sync (s, n) evs = (fold (\<lambda>x a. step a x) (drop n evs) s, length evs)"
begin

definition current :: "'s \<times> nat \<Rightarrow> 'x list \<Rightarrow> bool" where
  "current c evs \<longleftrightarrow> snd c \<le> length evs \<and> fst c = fold (\<lambda>x a. step a x) (take (snd c) evs) start"

lemma current_start: "current (start, 0) evs"
  by (simp add: current_def)

lemma current_append: "current c evs \<Longrightarrow> current c (evs @ later)"
  by (auto simp: current_def)

lemma sync_current: "current c evs \<Longrightarrow> sync c evs = (fold (\<lambda>x a. step a x) evs start, length evs)"
proof -
  assume cur: "current c evs"
  obtain s n where c: "c = (s, n)" by (cases c)
  with cur have n: "n \<le> length evs" and s: "s = fold (\<lambda>x a. step a x) (take n evs) start"
    by (auto simp: current_def)
  have "fold (\<lambda>x a. step a x) (drop n evs) s = fold (\<lambda>x a. step a x) (take n evs @ drop n evs) start"
    unfolding fold_append s by simp
  then show ?thesis using c n by (simp add: sync_suffix)
qed

lemma sync_is_current: "current c evs \<Longrightarrow> current (sync c evs) evs"
  by (simp add: sync_current current_def)

end

section \<open>Numbers\<close>

definition max_safe :: int where
  "max_safe = 2 ^ 53 - 1"

text \<open>\<open>Number.isSafeInteger\<close> of an integer, and of a finite number.\<close>

definition safe_int :: "int \<Rightarrow> bool" where
  "safe_int n \<longleftrightarrow> \<bar>n\<bar> \<le> max_safe"

definition safe_integer :: "rat \<Rightarrow> bool" where
  "safe_integer r \<longleftrightarrow> of_int \<lfloor>r\<rfloor> = r \<and> safe_int \<lfloor>r\<rfloor>"

lemma safe_integer_of_int [simp]: "safe_integer (of_int n) \<longleftrightarrow> safe_int n"
  by (simp add: safe_integer_def)

lemma safe_integerE:
  assumes "safe_integer r"
  obtains n where "r = of_int n" and "safe_int n" and "\<lfloor>r\<rfloor> = n"
  using assms by (metis floor_of_int safe_integer_def)

text \<open>A number a caller passes, before any check on it.\<close>

datatype js_number = NaN | PosInf | NegInf | Finite rat

section \<open>JSON values\<close>

text \<open>
  A value that \<open>JSON.parse\<close> can return. An object is its own properties in insertion order; its
  keys are distinct.
\<close>

datatype json =
    JNull
  | JBool bool
  | JNum rat
  | JStr string
  | JArr "json list"
  | JObj "(string \<times> json) list"

abbreviation JInt :: "int \<Rightarrow> json" where
  "JInt n \<equiv> JNum (of_int n)"

text \<open>Property read \<open>value['key']\<close>; \<open>None\<close> is \<open>undefined\<close>.\<close>

fun jget :: "json \<Rightarrow> string \<Rightarrow> json option" where
  "jget (JObj kvs) k = map_of kvs k"
| "jget _ k = None"

fun jkeys :: "json \<Rightarrow> string list" where
  "jkeys (JObj kvs) = map fst kvs"
| "jkeys _ = []"

fun join_with :: "string \<Rightarrow> string list \<Rightarrow> string" where
  "join_with sep [] = []"
| "join_with sep [s] = s"
| "join_with sep (s # t # ss) = s @ sep @ join_with sep (t # ss)"

text \<open>\<open>Object.keys(value).sort().join(',')\<close>\<close>

definition sorted_keys :: "json \<Rightarrow> string" where
  "sorted_keys v = join_with '','' (sort (jkeys v))"

text \<open>\<open>Object.keys(value).length === keys.length && keys.every(k => Object.hasOwn(value, k))\<close>\<close>

definition has_exact_keys :: "json \<Rightarrow> string list \<Rightarrow> bool" where
  "has_exact_keys v ks \<longleftrightarrow> length (jkeys v) = length ks \<and> list_all (\<lambda>k. jget v k \<noteq> None) ks"

fun is_object :: "json \<Rightarrow> bool" where
  "is_object (JObj _) = True"
| "is_object _ = False"

lemma is_object_iff: "is_object v \<longleftrightarrow> (\<exists>kvs. v = JObj kvs)"
  by (cases v) auto

section \<open>Strings\<close>

text \<open>The characters \<open>String.prototype.trim\<close> removes, among the code units below 256.\<close>

definition is_js_space :: "char \<Rightarrow> bool" where
  "is_js_space c \<longleftrightarrow> of_char c \<in> {9, 10, 11, 12, 13, 32, 160 :: nat}"

definition js_trim :: "string \<Rightarrow> string" where
  "js_trim s = rev (dropWhile is_js_space (rev (dropWhile is_js_space s)))"

lemma js_trim_nonempty_ends:
  assumes "js_trim s \<noteq> []"
  shows "\<not> is_js_space (hd (js_trim s))" and "\<not> is_js_space (last (js_trim s))"
proof -
  let ?d = "dropWhile is_js_space s"
  obtain pre where pre: "rev ?d = pre @ dropWhile is_js_space (rev ?d)"
    by (metis takeWhile_dropWhile_id)
  have ne: "dropWhile is_js_space (rev ?d) \<noteq> []"
    using assms by (simp add: js_trim_def)
  have "?d = js_trim s @ rev pre"
    by (metis js_trim_def pre rev_append rev_rev_ident)
  moreover from this assms have "?d \<noteq> []" by auto
  ultimately show "\<not> is_js_space (hd (js_trim s))"
    by (metis assms hd_append2 hd_dropWhile)
  show "\<not> is_js_space (last (js_trim s))"
    using ne by (simp add: js_trim_def last_rev hd_dropWhile)
qed

lemma js_trim_idem [simp]: "js_trim (js_trim s) = js_trim s"
proof (cases "js_trim s = []")
  case True
  have "js_trim [] = []" by (simp add: js_trim_def)
  with True show ?thesis by (simp only:)
next
  case False
  note ends = js_trim_nonempty_ends [OF False]
  have 1: "dropWhile is_js_space (js_trim s) = js_trim s"
    using ends(1) False by (cases "js_trim s") simp_all
  have "dropWhile is_js_space (rev (js_trim s)) = rev (js_trim s)"
    using ends(2) False by (cases "rev (js_trim s)") (auto simp: rev_eq_Cons_iff)
  then show ?thesis
    using 1 by (subst (1) js_trim_def) simp
qed

text \<open>The decimal digits of a number, as a template literal prints an integer.\<close>

fun nat_string :: "nat \<Rightarrow> string" where
  "nat_string n = (if n < 10 then [char_of (48 + n)] else nat_string (n div 10) @ [char_of (48 + n mod 10)])"

declare nat_string.simps [simp del]

definition int_string :: "int \<Rightarrow> string" where
  "int_string n = (if n < 0 then CHR ''-'' # nat_string (nat (- n)) else nat_string (nat n))"

text \<open>The number a string of digits prints, after the digits that \<open>a\<close> stands for.\<close>

fun digits_value :: "string \<Rightarrow> nat \<Rightarrow> nat" where
  "digits_value [] a = a"
| "digits_value (c # cs) a = digits_value cs (10 * a + (of_char c - 48))"

lemma digits_value_append: "digits_value (xs @ ys) a = digits_value ys (digits_value xs a)"
  by (induction xs a rule: digits_value.induct) auto

lemma digits_value_nat_string: "digits_value (nat_string n) 0 = n"
proof (induction n rule: nat_string.induct)
  case (1 n)
  have "of_char (char_of (48 + k) :: char) = 48 + k" if "k < 10" for k :: nat
    using that by (simp add: of_char_of)
  with 1 show ?case
    by (subst nat_string.simps) (auto simp: digits_value_append)
qed

lemma nat_string_inj: "nat_string m = nat_string n \<Longrightarrow> m = n"
  by (metis digits_value_nat_string)

text \<open>The expression \<open>^[a-z][a-z0-9]*(?:-[a-z0-9]+)*$\<close>, read left to right.\<close>

definition is_lower :: "char \<Rightarrow> bool" where
  "is_lower c \<longleftrightarrow> CHR ''a'' \<le> c \<and> c \<le> CHR ''z''"

definition is_digit :: "char \<Rightarrow> bool" where
  "is_digit c \<longleftrightarrow> CHR ''0'' \<le> c \<and> c \<le> CHR ''9''"

lemma is_digit_of: "k < 10 \<Longrightarrow> is_digit (char_of (48 + k :: nat))"
  by (auto simp: is_digit_def less_eq_char_def of_char_of)

lemma nat_string_digits: "list_all is_digit (nat_string n) \<and> nat_string n \<noteq> []"
proof (induction n rule: nat_string.induct)
  case (1 n)
  show ?case
  proof (cases "n < 10")
    case True
    then show ?thesis by (subst (1 2) nat_string.simps) (simp add: is_digit_of)
  next
    case False
    with 1 have "list_all is_digit (nat_string (n div 10))" by simp
    moreover have "is_digit (char_of (48 + n mod 10))" by (rule is_digit_of) simp
    ultimately show ?thesis using False by (subst (1 2) nat_string.simps) simp
  qed
qed

fun kebab_rest :: "bool \<Rightarrow> string \<Rightarrow> bool" where
  "kebab_rest dash [] = (\<not> dash)"
| "kebab_rest dash (c # cs) =
     (if is_lower c \<or> is_digit c then kebab_rest False cs
      else c = CHR ''-'' \<and> \<not> dash \<and> kebab_rest True cs)"

fun is_kebab :: "string \<Rightarrow> bool" where
  "is_kebab [] = False"
| "is_kebab (c # cs) = (is_lower c \<and> kebab_rest False cs)"

section \<open>Maps and sets in insertion order\<close>

text \<open>
  A JavaScript \<open>Map\<close> iterates in insertion order: writing a present key keeps its position,
  writing a new key appends, deleting removes the entry. A \<open>Set\<close> is the same without values.
\<close>

type_synonym ('k, 'v) omap = "('k \<times> 'v) list"

fun om_set :: "'k \<Rightarrow> 'v \<Rightarrow> ('k, 'v) omap \<Rightarrow> ('k, 'v) omap" where
  "om_set k v [] = [(k, v)]"
| "om_set k v ((k', v') # m) = (if k = k' then (k, v) # m else (k', v') # om_set k v m)"

definition om_del :: "'k \<Rightarrow> ('k, 'v) omap \<Rightarrow> ('k, 'v) omap" where
  "om_del k m = filter (\<lambda>p. fst p \<noteq> k) m"

abbreviation om_get :: "('k, 'v) omap \<Rightarrow> 'k \<Rightarrow> 'v option" where
  "om_get \<equiv> map_of"

definition om_keys :: "('k, 'v) omap \<Rightarrow> 'k list" where
  "om_keys m = map fst m"

definition om_wf :: "('k, 'v) omap \<Rightarrow> bool" where
  "om_wf m \<longleftrightarrow> distinct (om_keys m)"

lemma om_get_set [simp]: "om_get (om_set k v m) = (om_get m)(k \<mapsto> v)"
  by (induction k v m rule: om_set.induct) auto

lemma om_get_del [simp]: "om_get (om_del k m) = (om_get m)(k := None)"
  unfolding om_del_def by (induction m) auto

lemma om_keys_set: "om_keys (om_set k v m) = (if k \<in> set (om_keys m) then om_keys m else om_keys m @ [k])"
  by (induction k v m rule: om_set.induct) (auto simp: om_keys_def)

lemma om_keys_del: "om_keys (om_del k m) = filter (\<lambda>x. x \<noteq> k) (om_keys m)"
  by (induction m) (auto simp: om_keys_def om_del_def)

lemma om_wf_empty [simp]: "om_wf []"
  by (simp add: om_wf_def om_keys_def)

lemma om_wf_set [simp]: "om_wf m \<Longrightarrow> om_wf (om_set k v m)"
  by (simp add: om_wf_def om_keys_set)

lemma om_wf_del [simp]: "om_wf m \<Longrightarrow> om_wf (om_del k m)"
  by (simp add: om_wf_def om_keys_del)

lemma om_set_in: "om_wf m \<Longrightarrow> (k, v) \<in> set m \<longleftrightarrow> om_get m k = Some v"
  by (simp add: om_wf_def om_keys_def)

lemma om_keys_get: "k \<in> set (om_keys m) \<longleftrightarrow> om_get m k \<noteq> None"
  by (simp add: om_keys_def map_of_eq_None_iff)

text \<open>What the components rely on, stated without the representation.\<close>

locale js_map =
  fixes get :: "'m \<Rightarrow> 'k \<Rightarrow> 'v option"
    and put :: "'k \<Rightarrow> 'v \<Rightarrow> 'm \<Rightarrow> 'm"
    and del :: "'k \<Rightarrow> 'm \<Rightarrow> 'm"
    and order :: "'m \<Rightarrow> 'k list"
    and wf :: "'m \<Rightarrow> bool"
  assumes get_put: "get (put k v m) = (get m)(k \<mapsto> v)"
    and get_del: "get (del k m) = (get m)(k := None)"
    and order_put: "order (put k v m) = (if get m k = None then order m @ [k] else order m)"
    and order_del: "order (del k m) = filter (\<lambda>x. x \<noteq> k) (order m)"
    and wf_put: "wf m \<Longrightarrow> wf (put k v m)"
    and wf_del: "wf m \<Longrightarrow> wf (del k m)"
    and wf_order: "wf m \<Longrightarrow> distinct (order m) \<and> set (order m) = dom (get m)"
begin

lemma put_keeps_position: "get m k \<noteq> None \<Longrightarrow> order (put k v m) = order m"
  by (simp add: order_put)

lemma put_del_moves_to_end: "wf m \<Longrightarrow> order (put k v (del k m)) = filter (\<lambda>x. x \<noteq> k) (order m) @ [k]"
  by (simp add: order_put order_del get_del)

lemma del_absent: "wf m \<Longrightarrow> get m k = None \<Longrightarrow> order (del k m) = order m"
  using wf_order [of m] by (auto simp: order_del intro!: filter_True)

lemma length_put: "wf m \<Longrightarrow> length (order (put k v m)) = length (order m) + (if get m k = None then 1 else 0)"
  by (simp add: order_put)

end

interpretation om: js_map om_get om_set om_del om_keys om_wf
  by unfold_locales
    (auto simp: om_keys_set om_keys_del om_keys_get, auto simp: om_wf_def om_keys_def dom_map_of_conv_image_fst)

section \<open>Lists\<close>

lemma map_filter_Cons: "List.map_filter f (x # xs) = (case f x of None \<Rightarrow> List.map_filter f xs | Some y \<Rightarrow> y # List.map_filter f xs)"
  by (simp add: List.map_filter_def split: option.splits)

lemma map_filter_snoc: "List.map_filter f (xs @ [x]) = List.map_filter f xs @ (case f x of None \<Rightarrow> [] | Some y \<Rightarrow> [y])"
  by (simp add: List.map_filter_def split: option.splits)

lemma map_filter_append: "List.map_filter f (xs @ ys) = List.map_filter f xs @ List.map_filter f ys"
  by (simp add: List.map_filter_def)

text \<open>\<open>xs.splice(i, n, ...ys)\<close> for coordinates inside the list.\<close>

definition list_splice :: "nat \<Rightarrow> nat \<Rightarrow> 'a list \<Rightarrow> 'a list \<Rightarrow> 'a list" where
  "list_splice i n ys xs = take i xs @ ys @ drop (i + n) xs"

lemma length_list_splice: "i + n \<le> length xs \<Longrightarrow> length (list_splice i n ys xs) = length xs - n + length ys"
  by (simp add: list_splice_def)

lemma mset_list_splice:
  assumes "i + n \<le> length xs"
  shows "mset (list_splice i n ys xs) + mset (take n (drop i xs)) = mset xs + mset ys"
proof -
  have "xs = take i xs @ take n (drop i xs) @ drop (i + n) xs"
    by (metis append_take_drop_id drop_drop add.commute)
  then have "mset xs = mset (take i xs) + mset (take n (drop i xs)) + mset (drop (i + n) xs)"
    by (metis mset_append union_assoc)
  then show ?thesis by (simp add: list_splice_def)
qed

text \<open>\<open>xs.indexOf(x)\<close>, with \<open>None\<close> for \<open>-1\<close>.\<close>

fun index_of :: "'a list \<Rightarrow> 'a \<Rightarrow> nat option" where
  "index_of [] x = None"
| "index_of (y # ys) x = (if y = x then Some 0 else map_option Suc (index_of ys x))"

lemma index_of_Some: "index_of xs x = Some i \<Longrightarrow> i < length xs \<and> xs ! i = x"
  by (induction xs arbitrary: i) (auto split: if_splits)

lemma index_of_None [simp]: "index_of xs x = None \<longleftrightarrow> x \<notin> set xs"
  by (induction xs) auto

lemma index_of_nth: "distinct xs \<Longrightarrow> i < length xs \<Longrightarrow> index_of xs (xs ! i) = Some i"
proof (induction xs arbitrary: i)
  case (Cons y ys)
  then show ?case by (cases i) (auto simp: nth_mem)
qed simp

text \<open>Array read \<open>xs[i]\<close> with an integer index; \<open>None\<close> is \<open>undefined\<close>.\<close>

definition array_at :: "'a list \<Rightarrow> int \<Rightarrow> 'a option" where
  "array_at xs i = (if 0 \<le> i \<and> i < int (length xs) then Some (xs ! nat i) else None)"

lemma array_at_Some: "array_at xs i = Some x \<longleftrightarrow> 0 \<le> i \<and> i < int (length xs) \<and> xs ! nat i = x"
  by (auto simp: array_at_def)

lemma array_at_append: "array_at xs i = Some x \<Longrightarrow> array_at (xs @ ys) i = Some x"
  by (auto simp: array_at_Some nth_append nat_less_iff)

lemma array_at_append_left: "i < int (length xs) \<Longrightarrow> array_at (xs @ ys) i = array_at xs i"
  by (auto simp: array_at_def nth_append)

end
