(* ===== verification/Session_Types.thy ===== *)
theory Session_Types
  imports Prelude
begin

text \<open>
  The data the program stores: messages and stream chunks (\<open>packages/llm/llm/src/types.ts\<close>,
  \<open>message.ts\<close>) and the events of a session log (\<open>packages/core/session/src/types.ts\<close>).

  The source extends \<open>SessionEventMap\<close> by declaration merging: every plugin adds event types of
  its own. Here \<^typ>\<open>'p\<close> is the type of the merged payloads, so a component that reads its
  plugin's events fixes \<^typ>\<open>'p\<close>, and the session core is polymorphic in it. The optional
  \<open>surfaceOp\<close> and \<open>sourceEventSeqs\<close> fields are kept as the JSON values a stored event carries,
  because the surface fold validates them at run time.
\<close>

section \<open>Messages\<close>

type_synonym call_id = string
type_synonym message_id = string

record failure_facts =
  fail_message :: string
  fail_code :: string
  fail_status :: "int option"
  fail_retry_after :: "rat option"
  fail_request_id :: "string option"

datatype content_block =
    TextBlock string
  | ReasoningBlock string
  | ImageBlock json
  | ToolCallBlock call_id string string
  | ToolResultBlock call_id "content_block list" "bool option"

datatype finish_reason =
    FinishStop
  | FinishToolCalls
  | FinishMaxTokens
  | FinishAborted failure_facts
  | FinishError failure_facts

record token_usage =
  input_tokens :: int
  output_tokens :: int
  cache_read_tokens :: "int option"
  cache_write_tokens :: "int option"
  reasoning_tokens :: "int option"

text \<open>\<open>ReplayEnvelope\<close>: adapter-private values, with one entry per emitted block or none at all.\<close>

record replay_envelope =
  env_response :: json
  env_blocks :: "json list option"

datatype block_type = BtText | BtReasoning | BtImage | BtToolCall | BtToolResult

fun block_type_of :: "content_block \<Rightarrow> block_type" where
  "block_type_of (TextBlock _) = BtText"
| "block_type_of (ReasoningBlock _) = BtReasoning"
| "block_type_of (ImageBlock _) = BtImage"
| "block_type_of (ToolCallBlock _ _ _) = BtToolCall"
| "block_type_of (ToolResultBlock _ _ _) = BtToolResult"

datatype stream_chunk =
    BlockStart int block_type
  | TextDelta int string
  | ReasoningDelta int string
  | ToolCallDelta int call_id "string option" string
  | BlockEnd int content_block
  | UsageChunk token_usage
  | FinishChunk finish_reason "replay_envelope option"

text \<open>
  \<open>MessageSource\<close>: \<open>MergedSource\<close> stands for the kinds that plugins merge in, with their fields.
\<close>

record model_source =
  src_provider :: string
  src_model :: string
  src_replay :: "json option"

datatype message_source =
    UserSource
  | PluginSource string "(string \<times> json) list"
  | ModelSource model_source
  | ToolSource call_id
  | MergedSource string "(string \<times> json) list"

datatype message_role = SystemRole | UserRole | AssistantRole

record message =
  msg_id :: message_id
  msg_role :: message_role
  msg_content :: "content_block list"
  msg_source :: message_source

text \<open>
  The two specialisations the log stores: a model message, and a tool result, whose content is a
  one-element tuple holding a tool-result block.
\<close>

record assistant_message =
  am_id :: message_id
  am_content :: "content_block list"
  am_source :: model_source

record tool_result_message =
  trm_id :: message_id
  trm_call_id :: call_id
  trm_block_call_id :: call_id
  trm_block_content :: "content_block list"
  trm_is_error :: "bool option"

definition message_of_assistant :: "assistant_message \<Rightarrow> message" where
  "message_of_assistant m =
     \<lparr>msg_id = am_id m, msg_role = AssistantRole, msg_content = am_content m,
      msg_source = ModelSource (am_source m)\<rparr>"

definition message_of_tool_result :: "tool_result_message \<Rightarrow> message" where
  "message_of_tool_result m =
     \<lparr>msg_id = trm_id m, msg_role = UserRole,
      msg_content = [ToolResultBlock (trm_block_call_id m) (trm_block_content m) (trm_is_error m)],
      msg_source = ToolSource (trm_call_id m)\<rparr>"

text \<open>\<open>isTokenDelta\<close>: whether a chunk carries visible model output.\<close>

fun is_token_delta :: "stream_chunk \<Rightarrow> bool" where
  "is_token_delta (TextDelta _ t) = (t \<noteq> [])"
| "is_token_delta (ReasoningDelta _ t) = (t \<noteq> [])"
| "is_token_delta (ToolCallDelta _ _ n a) = (a \<noteq> [] \<or> n \<noteq> None)"
| "is_token_delta _ = False"

section \<open>Session events\<close>

type_synonym session_id = string

datatype cancel_cause = ByUser | ByParent | ByHook string | ByDisposed | ByLegacy

datatype turn_end_reason =
    TurnCompleted
  | TurnAborted cancel_cause
  | TurnBlocked
  | TurnError failure_facts
  | TurnMaxTokens
  | TurnInterrupted

datatype todo_status = TodoPending | TodoInProgress | TodoCompleted

record todo_item =
  todo_content :: string
  todo_status :: todo_status

record epoch_header =
  hdr_config :: json
  hdr_adapter_defaults :: "json option"
  hdr_system :: "string option"
  hdr_tools :: "json list option"

datatype header_reason = HeaderInitial | HeaderResume | HeaderChange

record request_context =
  ctx_provider :: string
  ctx_model :: string
  ctx_window :: "int option"

record tool_error =
  terr_name :: string
  terr_code :: string

record tool_result_data =
  tr_turn :: int
  tr_step :: int
  tr_message :: tool_result_message
  tr_error :: "tool_error option"
  tr_meta :: "json option"

text \<open>\<open>SessionEventMap\<close>, with the plugin-merged entries as \<open>PluginEvent\<close>.\<close>

datatype 'p event_data =
    TurnStart int
  | TurnEnd int turn_end_reason
  | StepStart int int
  | StepEnd int int
  | UserMessage message
  | AssistantChunk int int stream_chunk
  | AssistantMessage int int assistant_message "token_usage option" bool
  | ToolCall int int call_id string string
  | ToolResult tool_result_data
  | TodoWrite "todo_item list"
  | RequestHeader epoch_header header_reason
  | RequestContext request_context
  | EndSeed
  | PluginEvent 'p

record 'p event =
  ev_seq :: int
  ev_time :: int
  ev_data :: "'p event_data"
  ev_ignorable :: bool
  ev_surface_op :: "json option"
  ev_sources :: "json option"

abbreviation log_event :: "int \<Rightarrow> int \<Rightarrow> 'p event_data \<Rightarrow> 'p event" where
  "log_event seq time d \<equiv>
     \<lparr>ev_seq = seq, ev_time = time, ev_data = d, ev_ignorable = False, ev_surface_op = None,
      ev_sources = None\<rparr>"

text \<open>A log's events carry the consecutive seqs from 0: the position of an event is its seq.\<close>

definition contiguous :: "'p event list \<Rightarrow> bool" where
  "contiguous evs \<longleftrightarrow> map ev_seq evs = map int [0..<length evs]"

lemma contiguous_nth: "contiguous evs \<Longrightarrow> i < length evs \<Longrightarrow> ev_seq (evs ! i) = int i"
proof -
  assume "contiguous evs" and i: "i < length evs"
  then have "map ev_seq evs ! i = map int [0..<length evs] ! i"
    by (simp add: contiguous_def)
  with i show ?thesis by simp
qed

lemma contiguous_snoc: "contiguous (evs @ [e]) \<longleftrightarrow> contiguous evs \<and> ev_seq e = int (length evs)"
  by (auto simp: contiguous_def)

lemma contiguous_Nil [simp]: "contiguous []"
  by (simp add: contiguous_def)

lemma contiguous_append_left: "contiguous (xs @ ys) \<Longrightarrow> contiguous xs"
  by (induction ys rule: rev_induct) (simp_all add: contiguous_snoc flip: append_assoc)

lemma contiguous_seq_nat: "contiguous evs \<Longrightarrow> e \<in> set evs \<Longrightarrow> 0 \<le> ev_seq e \<and> ev_seq e < int (length evs)"
  by (metis contiguous_nth in_set_conv_nth of_nat_0_le_iff of_nat_less_iff)

lemma contiguous_inj: "contiguous evs \<Longrightarrow> e \<in> set evs \<Longrightarrow> e' \<in> set evs \<Longrightarrow> ev_seq e = ev_seq e' \<Longrightarrow> e = e'"
  by (metis contiguous_nth in_set_conv_nth of_nat_eq_iff)

lemma contiguous_distinct_seqs: "contiguous evs \<Longrightarrow> distinct (map ev_seq evs)"
  by (simp add: contiguous_def distinct_map)

end
