(* ===== verification/Surface.thy ===== *)
theory Surface
  imports Session_Types
begin

text \<open>
  The model-visible surface of a session log (\<open>packages/core/session/src/surface.ts\<close>): the
  validation of surface metadata, the planning and application of one event, the complete fold
  and the incremental \<open>SurfaceManager\<close>.

  Every operation that throws in the source returns \<open>surface_error + 'a\<close>, with one constructor
  per \<open>throw\<close>, tested in the order of the source.
\<close>

section \<open>Classification of events\<close>

fun is_surface_eligible_type :: "'p event_data \<Rightarrow> bool" where
  "is_surface_eligible_type (UserMessage _) = True"
| "is_surface_eligible_type (AssistantMessage _ _ _ _ _) = True"
| "is_surface_eligible_type (ToolResult _) = True"
| "is_surface_eligible_type _ = False"

definition is_surface_event :: "'p event \<Rightarrow> bool" where
  "is_surface_event e \<longleftrightarrow> is_surface_eligible_type (ev_data e) \<and> ev_surface_op e \<noteq> None"

definition is_append_surface_event :: "'p event \<Rightarrow> bool" where
  "is_append_surface_event e \<longleftrightarrow> is_surface_event e \<and> ev_surface_op e = Some (JStr ''append'')"

definition is_replacement_surface_event :: "'p event \<Rightarrow> bool" where
  "is_replacement_surface_event e \<longleftrightarrow> is_surface_event e \<and> ev_surface_op e \<noteq> Some (JStr ''append'')"

definition derive_event_message :: "'p event \<Rightarrow> message option" where
  "derive_event_message e = (case ev_data e of
      UserMessage m \<Rightarrow> Some m
    | AssistantMessage _ _ m _ _ \<Rightarrow> if am_content m = [] then None else Some (message_of_assistant m)
    | ToolResult d \<Rightarrow> Some (message_of_tool_result (tr_message d))
    | _ \<Rightarrow> None)"

section \<open>Surface metadata\<close>

datatype surface_error =
    SeqNotContiguous int int
  | IneligibleOp
  | IneligibleSources
  | MissingOp
  | InvalidOp
  | InvalidReplaceOp
  | SourcesNotArray
  | EmptySources
  | SparseSources
  | DuplicateSources
  | LaterSource int
  | MissingSources "int list"
  | StartNotFound int
  | EndNotFound int
  | StartAfterEnd int int
  | RewriteNotSingle
  | RewriteNotToolResult
  | RewriteBeyondContent

datatype surface_op = OpAppend | OpReplace int int

text \<open>\<open>isEventSeq\<close>: the value read as an event sequence, if it is one.\<close>

fun event_seq_value :: "json \<Rightarrow> int option" where
  "event_seq_value (JNum r) = (if safe_integer r \<and> 0 \<le> r then Some \<lfloor>r\<rfloor> else None)"
| "event_seq_value _ = None"

text \<open>\<open>isReplaceOp\<close>: the exact three-key replacement shape.\<close>

definition replace_op_of :: "json \<Rightarrow> surface_op option" where
  "replace_op_of v =
     (if has_exact_keys v [''op'', ''start'', ''end''] \<and> jget v ''op'' = Some (JStr ''replace'')
      then case (Option.bind (jget v ''start'') event_seq_value,
                 Option.bind (jget v ''end'') event_seq_value) of
             (Some a, Some b) \<Rightarrow> Some (OpReplace a b)
           | _ \<Rightarrow> None
      else None)"

definition surface_op_of :: "'p event \<Rightarrow> surface_error + surface_op option" where
  "surface_op_of e =
     (if \<not> is_surface_eligible_type (ev_data e) then
        if ev_surface_op e \<noteq> None then Inl IneligibleOp
        else if ev_sources e \<noteq> None then Inl IneligibleSources
        else Inr None
      else case ev_surface_op e of
        None \<Rightarrow> Inl MissingOp
      | Some v \<Rightarrow>
          if v = JStr ''append'' then Inr (Some OpAppend)
          else if \<not> is_object v then Inl InvalidOp
          else case replace_op_of v of None \<Rightarrow> Inl InvalidReplaceOp | Some op \<Rightarrow> Inr (Some op))"

text \<open>
  The source loop of \<open>assertProvenance\<close>: \<open>acc\<close> is the \<open>sources\<close> set in insertion order, \<open>late\<close> the
  first source that is not earlier than the event.
\<close>

fun read_sources :: "int \<Rightarrow> json list \<Rightarrow> int list \<Rightarrow> int option \<Rightarrow> surface_error + int list \<times> int option" where
  "read_sources seq [] acc late = Inr (acc, late)"
| "read_sources seq (v # vs) acc late = (case event_seq_value v of
      None \<Rightarrow> Inl SparseSources
    | Some n \<Rightarrow> read_sources seq vs (if n \<in> set acc then acc else acc @ [n])
                  (if late = None \<and> n \<ge> seq then Some n else late))"

fun is_assistant_message :: "'p event_data \<Rightarrow> bool" where
  "is_assistant_message (AssistantMessage _ _ _ _ _) = True"
| "is_assistant_message _ = False"

definition assert_provenance :: "'p event \<Rightarrow> int list \<Rightarrow> surface_error + unit" where
  "assert_provenance e shadowed =
     rbind
       (case ev_sources e of
          None \<Rightarrow> Inr []
        | Some (JArr raw) \<Rightarrow>
            if raw = [] \<and> \<not> is_assistant_message (ev_data e) then Inl EmptySources
            else rbind (read_sources (ev_seq e) raw [] None) (\<lambda>(sources, late).
              if length sources \<noteq> length raw then Inl DuplicateSources
              else case late of Some n \<Rightarrow> Inl (LaterSource n) | None \<Rightarrow> Inr sources)
        | Some _ \<Rightarrow> Inl SourcesNotArray)
       (\<lambda>sources.
          let missing = filter (\<lambda>q. q \<notin> set sources) shadowed
          in if missing \<noteq> [] then Inl (MissingSources missing) else Inr ())"

text \<open>\<open>isDeepEqualJson\<close>: equality of JSON values up to the order of an object's keys.\<close>

fun json_deep_eq :: "json \<Rightarrow> json \<Rightarrow> bool" where
  "json_deep_eq (JArr xs) (JArr ys) = (length xs = length ys \<and> list_all2 json_deep_eq xs ys)"
| "json_deep_eq (JObj kvs) (JObj kws) =
     (length kvs = length kws \<and>
      list_all (\<lambda>(k, v). case map_of kws k of None \<Rightarrow> False | Some w \<Rightarrow> json_deep_eq v w) kvs)"
| "json_deep_eq a b = (a = b)"

text \<open>The comparison is reflexive on objects with distinct keys.\<close>

fun json_wf :: "json \<Rightarrow> bool" where
  "json_wf (JObj kvs) = (distinct (map fst kvs) \<and> list_all (\<lambda>(k, v). json_wf v) kvs)"
| "json_wf (JArr xs) = list_all json_wf xs"
| "json_wf _ = True"

lemma json_wf_get: "json_wf v \<Longrightarrow> jget v k = Some w \<Longrightarrow> json_wf w"
  by (cases v) (auto simp: list_all_iff dest: map_of_SomeD)

lemma json_deep_eq_refl: "json_wf v \<Longrightarrow> json_deep_eq v v"
proof (induction v)
  case (JArr xs)
  then show ?case by (auto simp: list_all_iff list_all2_same)
next
  case (JObj kvs)
  have "map_of kvs k = Some v \<and> json_deep_eq v v" if kv: "(k, v) \<in> set kvs" for k v
  proof -
    have "json_wf v" using JObj.prems kv by (auto simp: list_all_iff)
    moreover have "v \<in> Basic_BNFs.snds (k, v)" by simp
    ultimately show ?thesis using JObj.IH [OF kv] JObj.prems kv by simp
  qed
  then show ?case by (auto simp: list_all_iff)
qed simp_all

fun opt_json_deep_eq :: "json option \<Rightarrow> json option \<Rightarrow> bool" where
  "opt_json_deep_eq (Some a) (Some b) = json_deep_eq a b"
| "opt_json_deep_eq a b = (a = b)"

text \<open>
  The comparison of \<open>assertToolResultRewrite\<close>: the two \<open>data\<close> objects with the result block's
  \<open>content\<close> replaced by \<open>null\<close> in both.
\<close>

definition same_but_content :: "tool_result_data \<Rightarrow> tool_result_data \<Rightarrow> bool" where
  "same_but_content a b \<longleftrightarrow>
     tr_turn a = tr_turn b \<and> tr_step a = tr_step b \<and>
     trm_id (tr_message a) = trm_id (tr_message b) \<and>
     trm_call_id (tr_message a) = trm_call_id (tr_message b) \<and>
     trm_block_call_id (tr_message a) = trm_block_call_id (tr_message b) \<and>
     trm_is_error (tr_message a) = trm_is_error (tr_message b) \<and>
     tr_error a = tr_error b \<and> opt_json_deep_eq (tr_meta a) (tr_meta b)"

definition assert_tool_result_rewrite ::
    "'p event \<Rightarrow> int list \<Rightarrow> 'p event list \<Rightarrow> int \<Rightarrow> surface_error + unit" where
  "assert_tool_result_rewrite e shadowed events base =
     (case ev_data e of
        ToolResult d \<Rightarrow>
          if length shadowed \<noteq> 1 then Inl RewriteNotSingle
          else (case map_option ev_data (array_at events (hd shadowed - base)) of
              Some (ToolResult d0) \<Rightarrow>
                if same_but_content d0 d then Inr () else Inl RewriteBeyondContent
            | _ \<Rightarrow> Inl RewriteNotToolResult)
      | _ \<Rightarrow> Inr ())"

section \<open>The fold\<close>

record fold_state =
  fs_nodes :: "int list"
  fs_generation :: nat

record replacement =
  rp_seq :: int
  rp_start :: int
  rp_end :: int
  rp_shadowed :: "int list"

text \<open>A validated transition; a replacement also carries its range of node positions.\<close>

datatype surface_plan =
    PlanAppend int
  | PlanReplace replacement nat nat

definition create_fold_state :: fold_state where
  "create_fold_state = \<lparr>fs_nodes = [], fs_generation = 0\<rparr>"

definition replacement_range :: "fold_state \<Rightarrow> int \<Rightarrow> int \<Rightarrow> surface_error + nat \<times> nat \<times> int list" where
  "replacement_range s a b =
     (case index_of (fs_nodes s) a of
        None \<Rightarrow> Inl (StartNotFound a)
      | Some i \<Rightarrow>
          (case index_of (fs_nodes s) b of
             None \<Rightarrow> Inl (EndNotFound b)
           | Some j \<Rightarrow>
               if i > j then Inl (StartAfterEnd a b)
               else Inr (i, j, take (j + 1 - i) (drop i (fs_nodes s)))))"

definition plan_surface_event ::
    "fold_state \<Rightarrow> 'p event \<Rightarrow> int \<Rightarrow> 'p event list \<Rightarrow> int \<Rightarrow> surface_error + surface_plan option" where
  "plan_surface_event s e expected events base =
     (if ev_seq e \<noteq> expected then Inl (SeqNotContiguous (ev_seq e) expected)
      else rbind (surface_op_of e) (\<lambda>op. case op of
        None \<Rightarrow> Inr None
      | Some OpAppend \<Rightarrow> rbind (assert_provenance e []) (\<lambda>_. Inr (Some (PlanAppend (ev_seq e))))
      | Some (OpReplace a b) \<Rightarrow>
          rbind (replacement_range s a b) (\<lambda>(i, j, shadowed).
          rbind (assert_provenance e shadowed) (\<lambda>_.
          rbind (assert_tool_result_rewrite e shadowed events base) (\<lambda>_.
            Inr (Some (PlanReplace
              \<lparr>rp_seq = ev_seq e, rp_start = a, rp_end = b, rp_shadowed = shadowed\<rparr> i j)))))))"

fun apply_surface_plan :: "fold_state \<Rightarrow> surface_plan option \<Rightarrow> fold_state \<times> replacement option" where
  "apply_surface_plan s None = (s, None)"
| "apply_surface_plan s (Some (PlanAppend q)) = (s\<lparr>fs_nodes := fs_nodes s @ [q]\<rparr>, None)"
| "apply_surface_plan s (Some (PlanReplace r i j)) =
     (s\<lparr>fs_nodes := list_splice i (j - i + 1) [rp_seq r] (fs_nodes s),
        fs_generation := fs_generation s + 1\<rparr>, Some r)"

definition apply_surface_event ::
    "fold_state \<Rightarrow> 'p event \<Rightarrow> int \<Rightarrow> 'p event list \<Rightarrow> int
      \<Rightarrow> surface_error + fold_state \<times> replacement option" where
  "apply_surface_event s e expected events base =
     rbind (plan_surface_event s e expected events base) (\<lambda>plan. Inr (apply_surface_plan s plan))"

text \<open>The loop body of \<open>foldSurface\<close>: the state, the next index and the replacements so far.\<close>

type_synonym fold_acc = "fold_state \<times> int \<times> replacement list"

fun surface_loop :: "'p event list \<Rightarrow> int \<Rightarrow> fold_acc \<Rightarrow> 'p event \<Rightarrow> surface_error + fold_acc" where
  "surface_loop events base (s, i, rs) e =
     rbind (apply_surface_event s e i events base) (\<lambda>(s', r).
       Inr (s', i + 1, rs @ (case r of None \<Rightarrow> [] | Some r \<Rightarrow> [r])))"

definition fold_surface :: "'p event list \<Rightarrow> surface_error + int list \<times> replacement list" where
  "fold_surface events =
     rbind (replay (surface_loop events 0) (create_fold_state, 0, []) events)
       (\<lambda>(s, _, rs). Inr (fs_nodes s, rs))"

section \<open>The incremental manager\<close>

text \<open>
  \<open>SurfaceManager\<close>. The manager holds a reference to the session's log, so its operations take the
  log as it is when they run. The source recognises the pending candidate by object identity;
  the model compares the event values, which is at least as permissive.
\<close>

record 'p surface_manager =
  sm_base :: int
  sm_state :: fold_state
  sm_last :: int
  sm_pending :: "('p event \<times> int \<times> surface_plan option) option"

definition new_surface_manager :: "int \<Rightarrow> 'p surface_manager" where
  "new_surface_manager base =
     \<lparr>sm_base = base, sm_state = create_fold_state, sm_last = base - 1, sm_pending = None\<rparr>"

text \<open>The plan \<open>_processDelta\<close> commits for one logged event: the pending one, or a fresh one.\<close>

definition delta_plan :: "'p event list \<Rightarrow> 'p surface_manager \<Rightarrow> 'p event \<Rightarrow> int \<Rightarrow> surface_error + surface_plan option" where
  "delta_plan evs m e seq =
     (case sm_pending m of
        Some (pe, expected, plan) \<Rightarrow>
          if pe = e \<and> expected = seq then Inr plan
          else plan_surface_event (sm_state m) e seq evs (sm_base m)
      | None \<Rightarrow> plan_surface_event (sm_state m) e seq evs (sm_base m))"

definition delta_step :: "'p event list \<Rightarrow> 'p surface_manager \<Rightarrow> 'p event \<Rightarrow> surface_error + 'p surface_manager" where
  "delta_step evs m e =
     (let seq = sm_last m + 1 in
      rbind (delta_plan evs m e seq) (\<lambda>plan.
        Inr (m\<lparr>sm_state := fst (apply_surface_plan (sm_state m) plan),
               sm_pending := (case sm_pending m of
                   Some (pe, expected, p) \<Rightarrow> if expected \<le> seq then None else Some (pe, expected, p)
                 | None \<Rightarrow> None),
               sm_last := seq\<rparr>)))"

text \<open>The loop of \<open>_processDelta\<close>. A throw keeps the events folded before it.\<close>

fun delta_loop :: "'p event list \<Rightarrow> 'p surface_manager \<Rightarrow> 'p event list \<Rightarrow> 'p surface_manager \<times> surface_error option" where
  "delta_loop evs m [] = (m, None)"
| "delta_loop evs m (e # es) = (case delta_step evs m e of
      Inl err \<Rightarrow> (m, Some err)
    | Inr m' \<Rightarrow> delta_loop evs m' es)"

definition process_delta :: "'p event list \<Rightarrow> 'p surface_manager \<Rightarrow> 'p surface_manager \<times> surface_error option" where
  "process_delta evs m =
     (if sm_last m < sm_base m + int (length evs) - 1
      then delta_loop evs m (drop (nat (sm_last m + 1 - sm_base m)) evs)
      else (m, None))"

definition validate_next :: "'p event list \<Rightarrow> 'p surface_manager \<Rightarrow> 'p event \<Rightarrow> 'p surface_manager \<times> surface_error option" where
  "validate_next evs m e =
     (case process_delta evs m of
        (m', Some err) \<Rightarrow> (m', Some err)
      | (m', None) \<Rightarrow>
          let expected = sm_base m' + int (length evs) in
          (case plan_surface_event (sm_state m') e expected evs (sm_base m') of
             Inl err \<Rightarrow> (m', Some err)
           | Inr plan \<Rightarrow> (m'\<lparr>sm_pending := Some (e, expected, plan)\<rparr>, None)))"

definition manager_nodes :: "'p event list \<Rightarrow> 'p surface_manager \<Rightarrow> 'p surface_manager \<times> (surface_error + int list)" where
  "manager_nodes evs m =
     (case process_delta evs m of
        (m', Some err) \<Rightarrow> (m', Inl err)
      | (m', None) \<Rightarrow> (m', Inr (fs_nodes (sm_state m'))))"

definition manager_generation :: "'p event list \<Rightarrow> 'p surface_manager \<Rightarrow> 'p surface_manager \<times> (surface_error + nat)" where
  "manager_generation evs m =
     (case process_delta evs m of
        (m', Some err) \<Rightarrow> (m', Inl err)
      | (m', None) \<Rightarrow> (m', Inr (fs_generation (sm_state m'))))"

section \<open>Provenance\<close>

text \<open>The seqs an event cites, as far as its \<open>sourceEventSeqs\<close> is a readable array.\<close>

definition cited :: "'p event \<Rightarrow> int list" where
  "cited e = (case ev_sources e of Some (JArr raw) \<Rightarrow> List.map_filter event_seq_value raw | _ \<Rightarrow> [])"

lemma event_seq_value_Some:
  "event_seq_value v = Some n \<longleftrightarrow> v = JInt n \<and> 0 \<le> n \<and> safe_int n"
  by (cases v) (auto simp: safe_integer_def)

lemma event_seq_value_JInt: "event_seq_value (JInt n) = (if 0 \<le> n \<and> safe_int n then Some n else None)"
  by simp

lemma read_sources_Inr:
  "read_sources q vs acc late = Inr (srcs, l) \<Longrightarrow>
     set srcs = set acc \<union> set (List.map_filter event_seq_value vs) \<and>
     length srcs \<le> length acc + length vs \<and>
     (length srcs = length acc + length vs \<longrightarrow> srcs = acc @ List.map_filter event_seq_value vs) \<and>
     (distinct acc \<longrightarrow> distinct srcs) \<and>
     (l = None \<longrightarrow> late = None \<and> (\<forall>n \<in> set (List.map_filter event_seq_value vs). n < q)) \<and>
     (\<forall>n \<in> set (List.map_filter event_seq_value vs). 0 \<le> n)"
proof (induction q vs acc late rule: read_sources.induct)
  case (2 q v vs acc late)
  then obtain n where n: "event_seq_value v = Some n"
    by (auto split: option.splits)
  then have "0 \<le> n" by (simp add: event_seq_value_Some)
  then show ?case
    using "2.IH" [OF n] "2.prems" n
    by (cases "n \<in> set acc"; cases "late = None \<and> q \<le> n") (auto simp: map_filter_simps)
qed (auto simp: map_filter_simps)

lemma assert_provenance_Inr:
  assumes "assert_provenance e shadowed = Inr u"
  shows "set shadowed \<subseteq> set (cited e)" and "distinct (cited e)"
    and "\<forall>n \<in> set (cited e). 0 \<le> n \<and> n < ev_seq e"
proof -
  have "set shadowed \<subseteq> set (cited e) \<and> distinct (cited e) \<and> (\<forall>n \<in> set (cited e). 0 \<le> n \<and> n < ev_seq e)"
  proof (cases "ev_sources e")
    case None
    then show ?thesis
      using assms by (auto simp: assert_provenance_def cited_def Let_def filter_empty_conv split: if_splits)
  next
    case (Some v)
    then obtain raw where v: "v = JArr raw"
      using assms by (cases v) (auto simp: assert_provenance_def)
    with Some assms obtain srcs where r: "read_sources (ev_seq e) raw [] None = Inr (srcs, None)"
      and len: "length srcs = length raw" and sub: "set shadowed \<subseteq> set srcs"
      by (auto simp: assert_provenance_def rbind_Inr_iff Let_def filter_empty_conv
          split: if_splits prod.splits option.splits)
    from read_sources_Inr [OF r] len Some v sub show ?thesis
      by (auto simp: cited_def)
  qed
  then show "set shadowed \<subseteq> set (cited e)" and "distinct (cited e)"
    and "\<forall>n \<in> set (cited e). 0 \<le> n \<and> n < ev_seq e" by auto
qed

section \<open>One transition\<close>

text \<open>What a replacement recorded by the fold satisfies, with \<open>events\<close> the log it was checked against.\<close>

definition replacement_ok :: "'p event list \<Rightarrow> int \<Rightarrow> 'p event \<Rightarrow> replacement \<Rightarrow> bool" where
  "replacement_ok events base e r \<longleftrightarrow>
     rp_seq r = ev_seq e \<and> is_replacement_surface_event e \<and>
     rp_shadowed r \<noteq> [] \<and> hd (rp_shadowed r) = rp_start r \<and> last (rp_shadowed r) = rp_end r \<and>
     set (rp_shadowed r) \<subseteq> set (cited e) \<and>
     (\<forall>d. ev_data e = ToolResult d \<longrightarrow>
        (\<exists>e0 d0. rp_shadowed r = [rp_start r] \<and> array_at events (rp_start r - base) = Some e0 \<and>
           ev_data e0 = ToolResult d0 \<and> same_but_content d0 d))"

lemma surface_op_of_None: "surface_op_of e = Inr None \<Longrightarrow> \<not> is_surface_event e"
  by (auto simp: surface_op_of_def is_surface_event_def split: if_splits option.splits)

lemma surface_op_of_append: "surface_op_of e = Inr (Some OpAppend) \<Longrightarrow> is_append_surface_event e"
  by (auto simp: surface_op_of_def is_append_surface_event_def is_surface_event_def replace_op_of_def
      split: if_splits option.splits)

lemma surface_op_of_replace:
  "surface_op_of e = Inr (Some (OpReplace a b)) \<Longrightarrow> is_replacement_surface_event e"
  by (auto simp: surface_op_of_def is_replacement_surface_event_def is_surface_event_def
      split: if_splits option.splits)

lemma append_is_surface: "is_append_surface_event e \<Longrightarrow> is_surface_event e"
  by (simp add: is_append_surface_event_def)

lemma replacement_is_surface: "is_replacement_surface_event e \<Longrightarrow> is_surface_event e"
  by (simp add: is_replacement_surface_event_def)

lemma replacement_range_Inr:
  assumes "replacement_range s a b = Inr (i, j, sh)"
  shows "i \<le> j" and "j < length (fs_nodes s)" and "sh = take (j + 1 - i) (drop i (fs_nodes s))"
    and "sh \<noteq> []" and "hd sh = a" and "last sh = b"
proof -
  from assms have i: "index_of (fs_nodes s) a = Some i" and j: "index_of (fs_nodes s) b = Some j"
    and ij: "i \<le> j" and sh: "sh = take (j + 1 - i) (drop i (fs_nodes s))"
    by (auto simp: replacement_range_def split: option.splits if_splits)
  note a = index_of_Some [OF i] and b = index_of_Some [OF j]
  have len: "length sh = j + 1 - i"
    using b ij by (simp add: sh min_def) arith
  with ij show ne: "sh \<noteq> []" by auto
  show "i \<le> j" "j < length (fs_nodes s)" "sh = take (j + 1 - i) (drop i (fs_nodes s))"
    using ij b sh by simp_all
  show "hd sh = a"
    using a b ij by (simp add: sh hd_drop_conv_nth hd_take)
  show "last sh = b"
    using a b ij len ne by (simp add: sh last_conv_nth)
qed

lemma assert_tool_result_rewrite_Inr:
  assumes "assert_tool_result_rewrite e sh events base = Inr u" and "ev_data e = ToolResult d"
  obtains n e0 d0 where "sh = [n]" and "array_at events (n - base) = Some e0"
    and "ev_data e0 = ToolResult d0" and "same_but_content d0 d"
  using assms
  by (auto simp: assert_tool_result_rewrite_def length_Suc_conv split: if_splits option.splits event_data.splits)

text \<open>The three outcomes of an accepted event.\<close>

lemma apply_surface_event_cases:
  assumes "apply_surface_event s e x events base = Inr (s', r)"
  obtains
    (skip) "\<not> is_surface_event e" "ev_seq e = x" "s' = s" "r = None"
  | (append) "is_append_surface_event e" "ev_seq e = x" "s' = s\<lparr>fs_nodes := fs_nodes s @ [x]\<rparr>" "r = None"
      "distinct (cited e)" "\<forall>n \<in> set (cited e). 0 \<le> n \<and> n < ev_seq e"
  | (replace) rp i j where "r = Some rp" "replacement_ok events base e rp" "ev_seq e = x"
      "i \<le> j" "j < length (fs_nodes s)" "rp_shadowed rp = take (j - i + 1) (drop i (fs_nodes s))"
      "s' = s\<lparr>fs_nodes := list_splice i (j - i + 1) [x] (fs_nodes s), fs_generation := fs_generation s + 1\<rparr>"
      "distinct (cited e)" "\<forall>n \<in> set (cited e). 0 \<le> n \<and> n < ev_seq e"
proof -
  from assms obtain plan where plan: "plan_surface_event s e x events base = Inr plan"
    and app: "apply_surface_plan s plan = (s', r)"
    by (auto simp: apply_surface_event_def rbind_Inr_iff)
  from plan have x: "ev_seq e = x"
    by (auto simp: plan_surface_event_def split: if_splits)
  from plan x obtain op where op: "surface_op_of e = Inr op"
    by (auto simp: plan_surface_event_def rbind_Inr_iff)
  consider "op = None" | "op = Some OpAppend" | a b where "op = Some (OpReplace a b)"
    by (metis option.exhaust surface_op.exhaust)
  then show thesis
  proof cases
    case 1
    with plan op x have "plan = None" by (auto simp: plan_surface_event_def)
    with 1 app op x skip show thesis by (auto dest: surface_op_of_None)
  next
    case 2
    with plan op x have "assert_provenance e [] = Inr ()" "plan = Some (PlanAppend x)"
      by (auto simp: plan_surface_event_def rbind_Inr_iff)
    with 2 app op x append assert_provenance_Inr(2,3) [of e "[]"] show thesis
      by (auto dest: surface_op_of_append)
  next
    case 3
    with plan op x obtain i j sh where range: "replacement_range s a b = Inr (i, j, sh)"
      and prov: "assert_provenance e sh = Inr ()"
      and rew: "assert_tool_result_rewrite e sh events base = Inr ()"
      and plan': "plan = Some (PlanReplace \<lparr>rp_seq = x, rp_start = a, rp_end = b, rp_shadowed = sh\<rparr> i j)"
      by (auto simp: plan_surface_event_def rbind_Inr_iff split: prod.splits)
    let ?rp = "\<lparr>rp_seq = x, rp_start = a, rp_end = b, rp_shadowed = sh\<rparr>"
    note rr = replacement_range_Inr [OF range]
    have "replacement_ok events base e ?rp"
      unfolding replacement_ok_def
      using x rr(4-6) surface_op_of_replace [OF op [unfolded 3]] assert_provenance_Inr(1) [OF prov]
      by (auto elim!: assert_tool_result_rewrite_Inr [OF rew])
    with app plan' x rr assert_provenance_Inr(2,3) [OF prov] replace [of ?rp i j]
    show thesis by (auto simp: Suc_diff_le)
  qed
qed

section \<open>The history of a fold\<close>

text \<open>
  What a fold over the events \<open>es\<close> has computed: the seqs are contiguous from \<open>base\<close>, every surface
  event is either on the surface or in exactly one replacement, and every replacement was
  justified.
\<close>

fun surface_history :: "'p event list \<Rightarrow> int \<Rightarrow> 'p event list \<Rightarrow> fold_acc \<Rightarrow> bool" where
  "surface_history events base es (s, i, rs) \<longleftrightarrow>
     i = base + int (length es) \<and>
     map ev_seq es = map (\<lambda>k. base + int k) [0..<length es] \<and>
     distinct (fs_nodes s) \<and>
     mset (fs_nodes s) + mset (concat (map rp_shadowed rs)) = mset (map ev_seq (filter is_surface_event es)) \<and>
     fs_generation s = length rs \<and>
     (\<forall>r \<in> set rs. \<exists>e \<in> set es. replacement_ok events base e r)"

lemma history_nodes:
  "surface_history events base es (s, i, rs) \<Longrightarrow>
     set (fs_nodes s) \<subseteq> ev_seq ` set (filter is_surface_event es)"
proof
  fix n
  assume hist: "surface_history events base es (s, i, rs)" and n: "n \<in> set (fs_nodes s)"
  from n have "n \<in># mset (fs_nodes s) + mset (concat (map rp_shadowed rs))" by simp
  also have "mset (fs_nodes s) + mset (concat (map rp_shadowed rs)) = mset (map ev_seq (filter is_surface_event es))"
    using hist unfolding surface_history.simps by blast
  finally show "n \<in> ev_seq ` set (filter is_surface_event es)" by auto
qed

lemma history_bounds:
  assumes "surface_history events base es acc" and "e \<in> set es"
  shows "base \<le> ev_seq e" and "ev_seq e < base + int (length es)"
proof -
  have "ev_seq e \<in> set (map ev_seq es)" using assms(2) by simp
  also have "map ev_seq es = map (\<lambda>k. base + int k) [0..<length es]"
    using assms(1) by (cases acc) (simp only: surface_history.simps)
  finally show "base \<le> ev_seq e" and "ev_seq e < base + int (length es)" by auto
qed

lemma history_node_bounds:
  assumes "surface_history events base es (s, i, rs)" and "n \<in> set (fs_nodes s)"
  shows "base \<le> n" and "n < i"
proof -
  obtain e where "e \<in> set es" "n = ev_seq e"
    using history_nodes [OF assms(1)] assms(2) by auto
  with history_bounds [OF assms(1)] assms(1) show "base \<le> n" "n < i" by auto
qed

lemma surface_history_step:
  assumes hist: "surface_history events base es (s, i, rs)"
    and step: "surface_loop events base (s, i, rs) e = Inr acc'"
  shows "surface_history events base (es @ [e]) acc'"
proof -
  from step obtain s' r where app: "apply_surface_event s e i events base = Inr (s', r)"
    and acc': "acc' = (s', i + 1, rs @ (case r of None \<Rightarrow> [] | Some r \<Rightarrow> [r]))"
    by (auto simp: rbind_Inr_iff)
  have fresh: "i \<notin> set (fs_nodes s)"
    using history_node_bounds [OF hist] by blast
  from app show ?thesis
  proof (cases rule: apply_surface_event_cases)
    case skip
    with hist acc' show ?thesis by auto
  next
    case append
    with hist acc' fresh append_is_surface [OF append(1)] show ?thesis by auto
  next
    case (replace rp a b)
    from replace have split: "mset (list_splice a (b - a + 1) [i] (fs_nodes s)) + mset (rp_shadowed rp)
        = mset (fs_nodes s) + {#i#}"
      using mset_list_splice [of a "b - a + 1" "fs_nodes s" "[i]"] by simp
    have "distinct (fs_nodes s)" using hist by simp
    then have "distinct (list_splice a (b - a + 1) [i] (fs_nodes s))"
      using fresh set_take_disj_set_drop_if_distinct [of "fs_nodes s" a "a + (b - a + 1)"]
      by (auto simp: list_splice_def dest: in_set_takeD in_set_dropD)
    moreover have "is_surface_event e"
      using replace(2) by (simp add: replacement_ok_def replacement_is_surface)
    moreover have "mset (list_splice a (b - a + 1) [i] (fs_nodes s)) +
        mset (concat (map rp_shadowed (rs @ [rp]))) = mset (map ev_seq (filter is_surface_event (es @ [e])))"
    proof -
      let ?c = "mset (concat (map rp_shadowed rs))"
      have "mset (list_splice a (b - a + 1) [i] (fs_nodes s)) + mset (concat (map rp_shadowed (rs @ [rp])))
          = mset (list_splice a (b - a + 1) [i] (fs_nodes s)) + mset (rp_shadowed rp) + ?c"
        by (simp only: map_append concat_append mset_append list.map concat.simps append_Nil2 ac_simps)
      also have "\<dots> = mset (fs_nodes s) + ?c + {#i#}"
        unfolding split by (simp only: ac_simps)
      also have "mset (fs_nodes s) + ?c = mset (map ev_seq (filter is_surface_event es))"
        using hist by simp
      finally show ?thesis using replace(3) \<open>is_surface_event e\<close> by simp
    qed
    moreover have "map ev_seq (es @ [e]) = map (\<lambda>k. base + int k) [0..<length (es @ [e])]"
      using hist replace(3) by simp
    moreover have "\<forall>r \<in> set (rs @ [rp]). \<exists>e \<in> set (es @ [e]). replacement_ok events base e r"
      using hist replace(2) by auto
    ultimately show ?thesis
      using hist unfolding acc' replace(1,7) by simp
  qed
qed

interpretation surface: replayed "surface_loop events base" "(create_fold_state, base, [])"
    "surface_history events base"
  for events :: "'p event list" and base
proof
  show "surface_history events base [] (create_fold_state, base, [])"
    by (simp add: create_fold_state_def)
next
  fix es s and x :: "'p event" and s'
  assume "surface_history events base es s" and "surface_loop events base s x = Inr s'"
  then show "surface_history events base (es @ [x]) s'"
    by (cases s) (simp only: surface_history_step)
qed

lemma fold_surface_Inr:
  "fold_surface events = Inr (nodes, rs) \<longleftrightarrow>
     (\<exists>s i. replay (surface_loop events 0) (create_fold_state, 0, []) events = Inr (s, i, rs) \<and> nodes = fs_nodes s)"
  by (auto simp: fold_surface_def rbind_Inr_iff)

lemma fold_surface_history:
  assumes "fold_surface events = Inr (nodes, rs)"
  obtains s where "surface_history events 0 events (s, int (length events), rs)" and "nodes = fs_nodes s"
proof -
  from assms obtain s i where r: "replay (surface_loop events 0) (create_fold_state, 0, []) events = Inr (s, i, rs)"
    and n: "nodes = fs_nodes s" by (auto simp: fold_surface_Inr)
  from surface.run_hist [OF r] have "surface_history events 0 events (s, i, rs)" .
  then show thesis using that n by auto
qed

section \<open>The manager computes the fold\<close>

abbreviation window_fold :: "int \<Rightarrow> 'p event list \<Rightarrow> 'p event list \<Rightarrow> surface_error + fold_acc" where
  "window_fold base evs es \<equiv> replay (surface_loop evs base) (create_fold_state, base, []) es"

text \<open>
  A transition consults the log only at the positions of current nodes, so a longer log gives the
  same fold of a prefix.
\<close>

lemma plan_local:
  assumes "\<And>n. n \<in> set (fs_nodes s) \<Longrightarrow> array_at evs (n - base) = array_at evs' (n - base)"
  shows "plan_surface_event s e x evs base = plan_surface_event s e x evs' base"
proof -
  have "assert_tool_result_rewrite e sh evs base = assert_tool_result_rewrite e sh evs' base"
    if "replacement_range s a b = Inr (i, j, sh)" for a b i j sh
  proof -
    have "sh \<noteq> []" and "set sh \<subseteq> set (fs_nodes s)"
      using replacement_range_Inr [OF that] by (auto dest: in_set_takeD in_set_dropD)
    then have "hd sh \<in> set (fs_nodes s)" by auto
    then show ?thesis
      using assms [of "hd sh"] by (simp add: assert_tool_result_rewrite_def split: event_data.splits)
  qed
  then have range: "rbind (replacement_range s a b) (\<lambda>(i, j, sh). rbind (assert_provenance e sh) (\<lambda>_.
        rbind (assert_tool_result_rewrite e sh evs base) (f i j sh))) =
      rbind (replacement_range s a b) (\<lambda>(i, j, sh). rbind (assert_provenance e sh) (\<lambda>_.
        rbind (assert_tool_result_rewrite e sh evs' base) (f i j sh)))" for a b and f :: "nat \<Rightarrow> nat \<Rightarrow> int list \<Rightarrow> unit \<Rightarrow> surface_error + surface_plan option"
    by (cases "replacement_range s a b") auto
  show ?thesis
  proof (cases "surface_op_of e")
    case (Inr op)
    show ?thesis
    proof (cases op)
      case (Some sop)
      show ?thesis
      proof (cases sop)
        case (OpReplace a b)
        with Some Inr range [of a b "\<lambda>i j sh _. Inr (Some (PlanReplace
            \<lparr>rp_seq = x, rp_start = a, rp_end = b, rp_shadowed = sh\<rparr> i j))"]
        show ?thesis by (simp add: plan_surface_event_def)
      qed (simp add: plan_surface_event_def Inr Some)
    qed (simp add: plan_surface_event_def Inr)
  qed (simp add: plan_surface_event_def)
qed

lemma loop_local:
  assumes "surface_history evs base es (s, i, rs)"
  shows "surface_loop (es @ ys) base (s, i, rs) e = surface_loop (es @ zs) base (s, i, rs) e"
proof -
  have "array_at (es @ ys) (n - base) = array_at (es @ zs) (n - base)" if "n \<in> set (fs_nodes s)" for n
    using history_node_bounds [OF assms that] assms by (simp add: array_at_append_left)
  then show ?thesis
    using plan_local [of s "es @ ys" base "es @ zs" e i] by (simp add: apply_surface_event_def)
qed

lemma window_fold_local: "window_fold base (es @ ys) es = window_fold base (es @ zs) es"
proof (induction es arbitrary: ys zs rule: rev_induct)
  case (snoc e es)
  have IH: "window_fold base (es @ e # ys) es = window_fold base (es @ e # zs) es"
    by (rule snoc.IH)
  show ?case
  proof (cases "window_fold base (es @ e # ys) es")
    case (Inl err)
    moreover from this IH have "window_fold base (es @ e # zs) es = Inl err" by simp
    ultimately show ?thesis by (simp add: replay_snoc)
  next
    case (Inr acc)
    obtain s i rs where acc: "acc = (s, i, rs)" by (cases acc)
    with surface.run_hist [OF Inr] have "surface_history (es @ e # ys) base es (s, i, rs)" by simp
    then have "surface_loop (es @ e # ys) base acc e = surface_loop (es @ e # zs) base acc e"
      unfolding acc by (rule loop_local)
    moreover have "window_fold base (es @ e # zs) es = Inr acc" using IH Inr by simp
    ultimately show ?thesis using Inr by (simp add: replay_snoc del: surface_loop.simps)
  qed
qed simp

lemma window_fold_take:
  "k \<le> length evs \<Longrightarrow> window_fold base (evs @ later) (take k evs) = window_fold base evs (take k evs)"
  using window_fold_local [of "take k evs" "drop k evs @ later" base "drop k evs"]
  by (simp flip: append_assoc)

text \<open>The manager has folded the first \<open>k\<close> events, and a pending plan is the plan of the next one.\<close>

definition manager_ok :: "'p event list \<Rightarrow> nat \<Rightarrow> 'p surface_manager \<Rightarrow> bool" where
  "manager_ok evs k m \<longleftrightarrow>
     k \<le> length evs \<and> sm_last m = sm_base m + int k - 1 \<and>
     (\<exists>rs. window_fold (sm_base m) evs (take k evs) = Inr (sm_state m, sm_base m + int k, rs)) \<and>
     (\<forall>pe x plan. sm_pending m = Some (pe, x, plan) \<longrightarrow>
        x = sm_base m + int k \<and> plan_surface_event (sm_state m) pe x evs (sm_base m) = Inr plan)"

lemma manager_ok_new: "manager_ok evs 0 (new_surface_manager base)"
  by (simp add: manager_ok_def new_surface_manager_def)

lemma manager_ok_grow:
  assumes "manager_ok evs k m"
  shows "manager_ok (evs @ later) k m"
proof -
  from assms obtain rs where k: "k \<le> length evs"
    and f: "window_fold (sm_base m) evs (take k evs) = Inr (sm_state m, sm_base m + int k, rs)"
    by (auto simp: manager_ok_def)
  have hist: "surface_history evs (sm_base m) (take k evs) (sm_state m, sm_base m + int k, rs)"
    using surface.run_hist [OF f] .
  have "plan_surface_event (sm_state m) pe x (evs @ later) (sm_base m) =
      plan_surface_event (sm_state m) pe x evs (sm_base m)" for pe x
  proof (rule plan_local)
    fix n
    assume "n \<in> set (fs_nodes (sm_state m))"
    then show "array_at (evs @ later) (n - sm_base m) = array_at evs (n - sm_base m)"
      using history_node_bounds [OF hist] k by (force intro: array_at_append_left)
  qed
  moreover have "window_fold (sm_base m) (evs @ later) (take k (evs @ later)) =
      Inr (sm_state m, sm_base m + int k, rs)"
    using k f window_fold_take [OF k, of later "sm_base m"] by simp
  ultimately show ?thesis
    using assms by (auto simp: manager_ok_def)
qed

lemma delta_step_ok:
  assumes ok: "manager_ok evs k m" and k: "k < length evs"
  shows "case delta_step evs m (evs ! k) of
      Inl err \<Rightarrow> window_fold (sm_base m) evs (take (Suc k) evs) = Inl err
    | Inr m' \<Rightarrow> manager_ok evs (Suc k) m' \<and> sm_base m' = sm_base m"
proof -
  from ok obtain rs where last: "sm_last m = sm_base m + int k - 1"
    and f: "window_fold (sm_base m) evs (take k evs) = Inr (sm_state m, sm_base m + int k, rs)"
    and pend: "\<And>pe x plan. sm_pending m = Some (pe, x, plan) \<Longrightarrow>
        x = sm_base m + int k \<and> plan_surface_event (sm_state m) pe x evs (sm_base m) = Inr plan"
    by (auto simp: manager_ok_def)
  have plan: "delta_plan evs m (evs ! k) (sm_base m + int k) =
      plan_surface_event (sm_state m) (evs ! k) (sm_base m + int k) evs (sm_base m)"
    using pend by (auto simp: delta_plan_def split: option.splits)
  have fold: "window_fold (sm_base m) evs (take (Suc k) evs) =
      rbind (plan_surface_event (sm_state m) (evs ! k) (sm_base m + int k) evs (sm_base m))
        (\<lambda>p. case apply_surface_plan (sm_state m) p of (s', r) \<Rightarrow>
           Inr (s', sm_base m + int k + 1, rs @ (case r of None \<Rightarrow> [] | Some r \<Rightarrow> [r])))"
    using k f
    by (cases "plan_surface_event (sm_state m) (evs ! k) (sm_base m + int k) evs (sm_base m)")
      (simp_all add: take_Suc_conv_app_nth replay_snoc apply_surface_event_def split: prod.splits)
  show ?thesis
  proof (cases "plan_surface_event (sm_state m) (evs ! k) (sm_base m + int k) evs (sm_base m)")
    case (Inl err)
    with plan fold last show ?thesis by (simp add: delta_step_def)
  next
    case (Inr p)
    obtain s' r where app: "apply_surface_plan (sm_state m) p = (s', r)" by (cases "apply_surface_plan (sm_state m) p")
    let ?m = "m\<lparr>sm_state := s', sm_pending := None, sm_last := sm_base m + int k\<rparr>"
    have clear: "(case sm_pending m of
        Some (pe, expected, p) \<Rightarrow> if expected \<le> sm_base m + int k then None else Some (pe, expected, p)
      | None \<Rightarrow> None) = None"
      using pend by (auto split: option.splits)
    have "delta_step evs m (evs ! k) = Inr ?m"
      using Inr plan last app clear by (simp add: delta_step_def Let_def cong: if_cong)
    moreover have "manager_ok evs (Suc k) ?m"
      using fold k Inr app by (auto simp: manager_ok_def)
    ultimately show ?thesis by simp
  qed
qed

lemma delta_loop_ok:
  assumes "manager_ok evs k m" and "delta_loop evs m (drop k evs) = (m', r)"
  shows "sm_base m' = sm_base m \<and>
    (case window_fold (sm_base m) evs evs of
       Inl err \<Rightarrow> r = Some err \<and> (\<exists>k'. manager_ok evs k' m')
     | Inr (s, i, rs) \<Rightarrow> r = None \<and> manager_ok evs (length evs) m' \<and> sm_state m' = s)"
  using assms
proof (induction "length evs - k" arbitrary: k m)
  case 0
  then have "k = length evs" by (simp add: manager_ok_def)
  with 0 show ?case by (auto simp: manager_ok_def)
next
  case (Suc d)
  then have k: "k < length evs" by simp
  note drop = Cons_nth_drop_Suc [OF k, symmetric]
  show ?case
  proof (cases "delta_step evs m (evs ! k)")
    case (Inl err)
    with delta_step_ok [OF Suc.prems(1) k]
    have "window_fold (sm_base m) evs (take (Suc k) evs) = Inl err" by simp
    then have "window_fold (sm_base m) evs (take (Suc k) evs @ drop (Suc k) evs) = Inl err"
      by (subst replay_append) simp
    with Inl Suc.prems drop show ?thesis by auto
  next
    case (Inr m1)
    with delta_step_ok [OF Suc.prems(1) k] have ok1: "manager_ok evs (Suc k) m1" "sm_base m1 = sm_base m"
      by auto
    have "delta_loop evs m1 (drop (Suc k) evs) = (m', r)"
      using Inr Suc.prems(2) drop by simp
    from Suc.hyps(1) [OF _ ok1(1) this] Suc.hyps(2) ok1(2) show ?thesis by simp
  qed
qed

lemma process_delta_ok:
  assumes "manager_ok evs k m" and "process_delta evs m = (m', r)"
  shows "sm_base m' = sm_base m \<and>
    (case window_fold (sm_base m) evs evs of
       Inl err \<Rightarrow> r = Some err \<and> (\<exists>k'. manager_ok evs k' m')
     | Inr (s, i, rs) \<Rightarrow> r = None \<and> manager_ok evs (length evs) m' \<and> sm_state m' = s)"
proof (cases "k < length evs")
  case True
  with assms have "delta_loop evs m (drop k evs) = (m', r)"
    by (simp add: manager_ok_def process_delta_def)
  from delta_loop_ok [OF assms(1) this] show ?thesis .
next
  case False
  with assms have "m' = m" "r = None" "k = length evs"
    by (auto simp: manager_ok_def process_delta_def)
  with assms(1) show ?thesis by (auto simp: manager_ok_def)
qed

text \<open>The managers that a client can obtain, with the log each of them refers to.\<close>

inductive manager_reach :: "int \<Rightarrow> 'p event list \<Rightarrow> 'p surface_manager \<Rightarrow> bool" where
  reach_new: "manager_reach base evs (new_surface_manager base)"
| reach_append: "manager_reach base evs m \<Longrightarrow> manager_reach base (evs @ [e]) m"
| reach_validate: "manager_reach base evs m \<Longrightarrow> manager_reach base evs (fst (validate_next evs m e))"
| reach_nodes: "manager_reach base evs m \<Longrightarrow> manager_reach base evs (fst (manager_nodes evs m))"
| reach_generation: "manager_reach base evs m \<Longrightarrow> manager_reach base evs (fst (manager_generation evs m))"

lemma process_delta_reach_ok:
  "manager_ok evs k m \<Longrightarrow> \<exists>k'. manager_ok evs k' (fst (process_delta evs m)) \<and>
     sm_base (fst (process_delta evs m)) = sm_base m"
  using process_delta_ok [of evs k m "fst (process_delta evs m)" "snd (process_delta evs m)"]
  by (auto split: sum.splits)

lemma validate_next_cases:
  assumes ok: "manager_ok evs k m"
  shows "sm_base (fst (validate_next evs m e)) = sm_base m \<and> (\<exists>k'. manager_ok evs k' (fst (validate_next evs m e))) \<and>
    snd (validate_next evs m e) =
      (case window_fold (sm_base m) (evs @ [e]) (evs @ [e]) of Inl err \<Rightarrow> Some err | Inr _ \<Rightarrow> None)"
proof -
  obtain m1 r where p: "process_delta evs m = (m1, r)" by (cases "process_delta evs m")
  note pd = process_delta_ok [OF ok p]
  have loc: "window_fold (sm_base m) (evs @ [e]) evs = window_fold (sm_base m) evs evs"
    using window_fold_local [of evs "[e]" "sm_base m" "[]"] by simp
  show ?thesis
  proof (cases "window_fold (sm_base m) evs evs")
    case (Inl err)
    with pd p loc show ?thesis by (auto simp: validate_next_def replay_snoc)
  next
    case (Inr acc)
    obtain s i rs where acc: "acc = (s, i, rs)" by (cases acc)
    from pd Inr acc have m1: "r = None" "manager_ok evs (length evs) m1" "sm_state m1 = s" "sm_base m1 = sm_base m"
      by auto
    have hist: "surface_history evs (sm_base m) evs (s, i, rs)"
      using surface.run_hist [OF Inr] acc by simp
    then have i: "i = sm_base m + int (length evs)" by simp
    have "surface_loop (evs @ [e]) (sm_base m) (s, i, rs) e = surface_loop (evs @ []) (sm_base m) (s, i, rs) e"
      by (rule loop_local [OF hist])
    then have "window_fold (sm_base m) (evs @ [e]) (evs @ [e]) = surface_loop evs (sm_base m) (s, i, rs) e"
      using loc Inr acc by (simp add: replay_snoc)
    then have fold: "window_fold (sm_base m) (evs @ [e]) (evs @ [e]) =
        rbind (apply_surface_event s e i evs (sm_base m))
          (\<lambda>(s', r). Inr (s', i + 1, rs @ (case r of None \<Rightarrow> [] | Some r \<Rightarrow> [r])))"
      by simp
    show ?thesis
    proof (cases "plan_surface_event s e i evs (sm_base m)")
      case (Inl err)
      with p m1 i fold show ?thesis
        by (auto simp: validate_next_def apply_surface_event_def)
    next
      case (Inr plan)
      have "manager_ok evs (length evs) (m1\<lparr>sm_pending := Some (e, i, plan)\<rparr>)"
        using m1 Inr i by (auto simp: manager_ok_def)
      with p m1 i fold Inr show ?thesis
        by (auto simp: validate_next_def apply_surface_event_def split: prod.splits)
    qed
  qed
qed

lemma manager_reach_ok: "manager_reach base evs m \<Longrightarrow> sm_base m = base \<and> (\<exists>k. manager_ok evs k m)"
proof (induction rule: manager_reach.induct)
  case (reach_new base evs)
  show ?case using manager_ok_new [of evs base] by (auto simp: new_surface_manager_def)
next
  case (reach_append base evs m e)
  then show ?case using manager_ok_grow by blast
next
  case (reach_validate base evs m e)
  then show ?case using validate_next_cases by blast
next
  case (reach_nodes base evs m)
  then obtain k where "manager_ok evs k m" "sm_base m = base" by auto
  from process_delta_reach_ok [OF this(1)] this(2) show ?case
    by (auto simp: manager_nodes_def split: prod.splits option.splits)
next
  case (reach_generation base evs m)
  then obtain k where "manager_ok evs k m" "sm_base m = base" by auto
  from process_delta_reach_ok [OF this(1)] this(2) show ?case
    by (auto simp: manager_generation_def split: prod.splits option.splits)
qed

lemma manager_views:
  assumes "manager_reach base evs m"
  shows "snd (manager_nodes evs m) = rbind (window_fold base evs evs) (\<lambda>(s, _, _). Inr (fs_nodes s))"
    and "snd (manager_generation evs m) = rbind (window_fold base evs evs) (\<lambda>(s, _, _). Inr (fs_generation s))"
proof -
  from manager_reach_ok [OF assms] obtain k where ok: "manager_ok evs k m" "sm_base m = base" by auto
  obtain m1 r where p: "process_delta evs m = (m1, r)" by (cases "process_delta evs m")
  note pd = process_delta_ok [OF ok(1) p, unfolded ok(2)]
  show "snd (manager_nodes evs m) = rbind (window_fold base evs evs) (\<lambda>(s, _, _). Inr (fs_nodes s))"
    using pd p by (cases "window_fold base evs evs") (auto simp: manager_nodes_def)
  show "snd (manager_generation evs m) = rbind (window_fold base evs evs) (\<lambda>(s, _, _). Inr (fs_generation s))"
    using pd p by (cases "window_fold base evs evs") (auto simp: manager_generation_def)
qed

section \<open>Properties\<close>

text \<open>A log whose third event replaces the two messages before it by a summary.\<close>

definition sample_message :: message where
  "sample_message = \<lparr>msg_id = ''m'', msg_role = UserRole, msg_content = [TextBlock ''hi''], msg_source = UserSource\<rparr>"

definition sample_surface_log :: "unit event list" where
  "sample_surface_log =
     [(log_event 0 7 (UserMessage sample_message))\<lparr>ev_surface_op := Some (JStr ''append'')\<rparr>,
      (log_event 1 7 (UserMessage sample_message))\<lparr>ev_surface_op := Some (JStr ''append'')\<rparr>,
      (log_event 2 8 (UserMessage sample_message))
        \<lparr>ev_surface_op := Some (JObj [(''op'', JStr ''replace''), (''start'', JInt 0), (''end'', JInt 1)]),
         ev_sources := Some (JArr [JInt 0, JInt 1])\<rparr>]"

lemma sample_surface_fold:
  "fold_surface sample_surface_log =
     Inr ([2], [\<lparr>rp_seq = 2, rp_start = 0, rp_end = 1, rp_shadowed = [0, 1]\<rparr>])"
  by code_simp

text \<open>
  C1: In a log the surface fold accepts, every message event is accounted for exactly once: it is
  either one node of the surface or shadowed by exactly one replacement, and no node is repeated.
\<close>

theorem surface_accounts_for_every_message:
  assumes "fold_surface events = Inr (nodes, rs)"
  shows "distinct nodes \<and>
    mset nodes + mset (concat (map rp_shadowed rs)) = mset (map ev_seq (filter is_surface_event events))"
proof -
  obtain s where h: "surface_history events 0 events (s, int (length events), rs)" and n: "nodes = fs_nodes s"
    using assms by (rule fold_surface_history)
  from h show ?thesis unfolding n surface_history.simps by blast
qed

theorem surface_accounts_for_every_message_witness:
  "distinct [2 :: int] \<and>
   mset [2] + mset (concat (map rp_shadowed [\<lparr>rp_seq = 2, rp_start = 0, rp_end = 1, rp_shadowed = [0, 1]\<rparr>])) =
     mset (map ev_seq (filter is_surface_event sample_surface_log))"
  by (rule surface_accounts_for_every_message [OF sample_surface_fold])

text \<open>
  Every replacement of an accepted log is carried by a replacement event that cites all the
  nodes it shadows; the declared bounds are the ends of a nonempty run of nodes; and when a tool
  result is replaced by a tool result, exactly one is, and only its content differs.
\<close>

theorem surface_replacements_are_justified:
  assumes "fold_surface events = Inr (nodes, rs)" and "r \<in> set rs"
  shows "\<exists>e \<in> set events. replacement_ok events 0 e r"
proof -
  obtain s where "surface_history events 0 events (s, int (length events), rs)"
    using assms(1) by (rule fold_surface_history)
  with assms(2) show ?thesis unfolding surface_history.simps by blast
qed

theorem surface_replacements_are_justified_witness:
  "\<exists>e \<in> set sample_surface_log.
     replacement_ok sample_surface_log 0 e \<lparr>rp_seq = 2, rp_start = 0, rp_end = 1, rp_shadowed = [0, 1]\<rparr>"
  by (rule surface_replacements_are_justified [OF sample_surface_fold]) simp

text \<open>
  C21: The incremental manager computes the complete fold. Whatever a client did with it before, its
  nodes are those of the fold of its log (or the fold's error), its generation counts the
  replacements, and it admits a candidate exactly when the log extended by it folds.
\<close>

theorem surface_manager_is_the_fold:
  assumes "manager_reach 0 evs m"
  shows "snd (manager_nodes evs m) = rbind (fold_surface evs) (\<lambda>(nodes, _). Inr nodes) \<and>
    snd (manager_generation evs m) = rbind (fold_surface evs) (\<lambda>(_, rs). Inr (length rs)) \<and>
    snd (validate_next evs m e) = (case fold_surface (evs @ [e]) of Inl err \<Rightarrow> Some err | Inr _ \<Rightarrow> None)"
proof -
  obtain k where ok: "manager_ok evs k m" "sm_base m = 0"
    using manager_reach_ok [OF assms] by auto
  have gen: "fs_generation s = length rs" if "window_fold 0 evs evs = Inr (s, i, rs)" for s i rs
    using surface.run_hist [OF that] by simp
  show ?thesis
    using manager_views [OF assms] validate_next_cases [OF ok(1), of e] ok(2) gen
    by (cases "window_fold 0 evs evs") (auto simp: fold_surface_def split: sum.splits)
qed

theorem surface_manager_is_the_fold_witness:
  "snd (manager_nodes sample_surface_log (new_surface_manager 0)) = Inr [2] \<and>
   snd (manager_generation sample_surface_log (new_surface_manager 0)) = Inr 1"
  using surface_manager_is_the_fold [OF reach_new, of sample_surface_log]
  by (simp add: sample_surface_fold)

end
