(* ===== verification/Session_Trace.thy ===== *)
theory Session_Trace
  imports Session_Types
begin

text \<open>
  The relational invariants of a session log (\<open>packages/core/session/src/invariant.ts\<close>): one pure
  validation of a candidate event against the trace of the log so far, and the transition that is
  applied once the event commits. The reference description is the grammar \<open>closed_turns\<close>.
\<close>

section \<open>Validation\<close>

definition TOOL_NOT_STARTED :: string where
  "TOOL_NOT_STARTED = ''TOOL_NOT_STARTED''"

definition TOOL_OUTCOME_UNKNOWN :: string where
  "TOOL_OUTCOME_UNKNOWN = ''TOOL_OUTCOME_UNKNOWN''"

record session_trace =
  tr_last_seq :: int
  tr_open_turn :: "int option"
  tr_open_step :: "int option"
  tr_next_turn :: int
  tr_next_step :: int
  tr_pending :: "call_id set"

datatype pending_change = PendingNone | PendingAdd call_id | PendingDelete call_id | PendingClear

record trace_transition =
  tt_last_seq :: int
  tt_open_turn :: "int option"
  tt_open_step :: "int option"
  tt_next_turn :: int
  tt_next_step :: int
  tt_pending :: pending_change

datatype trace_error =
    SeqNotIncreasing int int
  | NotOpenStep int int
  | TurnStillOpen int
  | UnexpectedTurn int int
  | TurnMismatch int
  | StepStillOpen int
  | UnexpectedStep int int
  | RewriteOutsideTurn
  | ResultWithoutCall call_id
  | OutsideTurn

definition fresh_trace :: session_trace where
  "fresh_trace = \<lparr>tr_last_seq = -1, tr_open_turn = None, tr_open_step = None, tr_next_turn = 1,
     tr_next_step = 1, tr_pending = {}\<rparr>"

definition require_open_step :: "session_trace \<Rightarrow> int \<Rightarrow> int \<Rightarrow> trace_error + unit" where
  "require_open_step t turn step =
     (if tr_open_turn t \<noteq> Some turn \<or> tr_open_step t \<noteq> Some step then Inl (NotOpenStep turn step)
      else Inr ())"

text \<open>The transition that changes nothing but the last seq.\<close>

definition unchanged :: "session_trace \<Rightarrow> 'p event \<Rightarrow> trace_transition" where
  "unchanged t e =
     \<lparr>tt_last_seq = ev_seq e, tt_open_turn = tr_open_turn t, tt_open_step = tr_open_step t,
      tt_next_turn = tr_next_turn t, tt_next_step = tr_next_step t, tt_pending = PendingNone\<rparr>"

definition synthetic_not_started :: "tool_result_data \<Rightarrow> bool" where
  "synthetic_not_started d \<longleftrightarrow>
     trm_is_error (tr_message d) = Some True \<and>
     map_option terr_code (tr_error d) = Some TOOL_NOT_STARTED"

definition validate_event :: "session_trace \<Rightarrow> 'p event \<Rightarrow> trace_error + trace_transition" where
  "validate_event t e =
     (if ev_seq e \<le> tr_last_seq t then Inl (SeqNotIncreasing (ev_seq e) (tr_last_seq t))
      else case ev_data e of
        TurnStart turn \<Rightarrow>
          if tr_open_turn t \<noteq> None then Inl (TurnStillOpen turn)
          else if turn \<noteq> tr_next_turn t then Inl (UnexpectedTurn (tr_next_turn t) turn)
          else Inr ((unchanged t e)\<lparr>tt_open_turn := Some turn, tt_next_step := 1\<rparr>)
      | TurnEnd turn _ \<Rightarrow>
          if tr_open_turn t \<noteq> Some turn then Inl (TurnMismatch turn)
          else if tr_open_step t \<noteq> None then Inl (StepStillOpen turn)
          else Inr ((unchanged t e)\<lparr>tt_open_turn := None, tt_next_turn := tr_next_turn t + 1\<rparr>)
      | StepStart turn step \<Rightarrow>
          if tr_open_turn t \<noteq> Some turn then Inl (TurnMismatch turn)
          else if tr_open_step t \<noteq> None then Inl (StepStillOpen step)
          else if step \<noteq> tr_next_step t then Inl (UnexpectedStep (tr_next_step t) step)
          else Inr ((unchanged t e)\<lparr>tt_open_step := Some step\<rparr>)
      | StepEnd turn step \<Rightarrow>
          rbind (require_open_step t turn step) (\<lambda>_.
            Inr ((unchanged t e)\<lparr>tt_open_step := None, tt_next_step := tr_next_step t + 1,
                   tt_pending := PendingClear\<rparr>))
      | AssistantChunk turn step _ \<Rightarrow>
          rbind (require_open_step t turn step) (\<lambda>_. Inr (unchanged t e))
      | AssistantMessage turn step _ _ _ \<Rightarrow>
          rbind (require_open_step t turn step) (\<lambda>_. Inr (unchanged t e))
      | ToolCall turn step call_id _ _ \<Rightarrow>
          rbind (require_open_step t turn step) (\<lambda>_.
            Inr ((unchanged t e)\<lparr>tt_pending := PendingAdd call_id\<rparr>))
      | ToolResult d \<Rightarrow>
          if ev_surface_op e \<noteq> Some (JStr ''append'') then
            if tr_open_turn t = None then Inl RewriteOutsideTurn else Inr (unchanged t e)
          else
            rbind (require_open_step t (tr_turn d) (tr_step d)) (\<lambda>_.
              let call_id = trm_call_id (tr_message d) in
              if call_id \<notin> tr_pending t \<and> \<not> synthetic_not_started d then Inl (ResultWithoutCall call_id)
              else Inr ((unchanged t e)\<lparr>tt_pending := PendingDelete call_id\<rparr>))
      | UserMessage _ \<Rightarrow> Inr (unchanged t e)
      | EndSeed \<Rightarrow> Inr (unchanged t e)
      | TodoWrite _ \<Rightarrow> if tr_open_turn t = None then Inl OutsideTurn else Inr (unchanged t e)
      | RequestHeader _ _ \<Rightarrow> if tr_open_turn t = None then Inl OutsideTurn else Inr (unchanged t e)
      | RequestContext _ \<Rightarrow> if tr_open_turn t = None then Inl OutsideTurn else Inr (unchanged t e)
      | PluginEvent _ \<Rightarrow> Inr (unchanged t e))"

fun change_pending :: "pending_change \<Rightarrow> call_id set \<Rightarrow> call_id set" where
  "change_pending PendingNone p = p"
| "change_pending (PendingAdd c) p = insert c p"
| "change_pending (PendingDelete c) p = p - {c}"
| "change_pending PendingClear p = {}"

definition apply_transition :: "session_trace \<Rightarrow> trace_transition \<Rightarrow> session_trace" where
  "apply_transition t tt =
     \<lparr>tr_last_seq = tt_last_seq tt, tr_open_turn = tt_open_turn tt, tr_open_step = tt_open_step tt,
      tr_next_turn = tt_next_turn tt, tr_next_step = tt_next_step tt,
      tr_pending = change_pending (tt_pending tt) (tr_pending t)\<rparr>"

text \<open>\<open>seedSession\<close>: the fold of a whole log.\<close>

definition trace_step :: "session_trace \<Rightarrow> 'p event \<Rightarrow> trace_error + session_trace" where
  "trace_step t e = rbind (validate_event t e) (\<lambda>tt. Inr (apply_transition t tt))"

definition seed_session :: "'p event list \<Rightarrow> trace_error + session_trace" where
  "seed_session evs = replay trace_step fresh_trace evs"

section \<open>The grammar of turns and steps\<close>

datatype marker = TS int | TE int | SS int int | SE int int

fun marker_of :: "'p event_data \<Rightarrow> marker option" where
  "marker_of (TurnStart n) = Some (TS n)"
| "marker_of (TurnEnd n _) = Some (TE n)"
| "marker_of (StepStart n m) = Some (SS n m)"
| "marker_of (StepEnd n m) = Some (SE n m)"
| "marker_of _ = None"

definition markers :: "'p event list \<Rightarrow> marker list" where
  "markers evs = List.map_filter (marker_of \<circ> ev_data) evs"

text \<open>\<open>steps n m\<close>: the closed steps 1 to \<open>m\<close> of turn \<open>n\<close>.\<close>

fun steps :: "int \<Rightarrow> nat \<Rightarrow> marker list" where
  "steps n 0 = []"
| "steps n (Suc m) = steps n m @ [SS n (int (Suc m)), SE n (int (Suc m))]"

text \<open>\<open>closed_turns n ms\<close>: closed turns numbered from \<open>n\<close>, with \<open>ms\<close> their numbers of steps.\<close>

fun closed_turns :: "int \<Rightarrow> nat list \<Rightarrow> marker list" where
  "closed_turns n [] = []"
| "closed_turns n (m # ms) = TS n # steps n m @ TE n # closed_turns (n + 1) ms"

text \<open>The turn and step a step-scoped event names.\<close>

fun scope_of :: "'p event \<Rightarrow> (int \<times> int) option" where
  "scope_of e = (case ev_data e of
      AssistantChunk n m _ \<Rightarrow> Some (n, m)
    | AssistantMessage n m _ _ _ \<Rightarrow> Some (n, m)
    | ToolCall n m _ _ _ \<Rightarrow> Some (n, m)
    | StepEnd n m \<Rightarrow> Some (n, m)
    | ToolResult d \<Rightarrow> if ev_surface_op e = Some (JStr ''append'') then Some (tr_turn d, tr_step d) else None
    | _ \<Rightarrow> None)"

text \<open>An event that settles the call \<open>c\<close>: an appended result for it, or the end of a step.\<close>

fun settles :: "call_id \<Rightarrow> 'p event \<Rightarrow> bool" where
  "settles c e = (case ev_data e of
      StepEnd _ _ \<Rightarrow> True
    | ToolResult d \<Rightarrow> ev_surface_op e = Some (JStr ''append'') \<and> trm_call_id (tr_message d) = c
    | _ \<Rightarrow> False)"

definition open_call :: "int option \<Rightarrow> int option \<Rightarrow> 'p event list \<Rightarrow> call_id \<Rightarrow> bool" where
  "open_call turn step evs c \<longleftrightarrow>
     (\<exists>pre e post n m name args. evs = pre @ e # post \<and> ev_data e = ToolCall n m c name args \<and>
        turn = Some n \<and> step = Some m \<and> (\<forall>x \<in> set post. \<not> settles c x))"

lemma markers_snoc: "markers (evs @ [e]) = markers evs @ (case marker_of (ev_data e) of None \<Rightarrow> [] | Some k \<Rightarrow> [k])"
  by (simp add: markers_def List.map_filter_def split: option.splits)

lemma closed_turns_snoc:
  "closed_turns n (ms @ [m]) = closed_turns n ms @ TS (n + int (length ms)) # steps (n + int (length ms)) m @ [TE (n + int (length ms))]"
  by (induction n ms rule: closed_turns.induct) (simp_all add: algebra_simps)

text \<open>What the trace says of the events behind it.\<close>

fun trace_shape :: "nat list \<Rightarrow> int option \<Rightarrow> int option \<Rightarrow> int \<Rightarrow> int \<Rightarrow> marker list \<Rightarrow> bool" where
  "trace_shape ms None step nt ns mk \<longleftrightarrow>
     nt = 1 + int (length ms) \<and> step = None \<and> mk = closed_turns 1 ms"
| "trace_shape ms (Some n) None nt ns mk \<longleftrightarrow>
     nt = 1 + int (length ms) \<and> n = nt \<and>
     (\<exists>k. ns = 1 + int k \<and> mk = closed_turns 1 ms @ TS n # steps n k)"
| "trace_shape ms (Some n) (Some m) nt ns mk \<longleftrightarrow>
     nt = 1 + int (length ms) \<and> n = nt \<and> m = ns \<and>
     (\<exists>k. ns = 1 + int k \<and> mk = closed_turns 1 ms @ TS n # steps n k @ [SS n m])"

definition trace_history :: "'p event list \<Rightarrow> session_trace \<Rightarrow> bool" where
  "trace_history evs t \<longleftrightarrow>
     (\<exists>ms. trace_shape ms (tr_open_turn t) (tr_open_step t) (tr_next_turn t) (tr_next_step t) (markers evs)) \<and>
     (\<forall>c \<in> tr_pending t. open_call (tr_open_turn t) (tr_open_step t) evs c) \<and>
     (\<forall>e \<in> set evs. ev_seq e \<le> tr_last_seq t)"

lemma open_call_snoc: "open_call turn step evs c \<Longrightarrow> \<not> settles c e \<Longrightarrow> open_call turn step (evs @ [e]) c"
  unfolding open_call_def
proof (elim exE conjE)
  fix pre x post n m name args
  assume "\<not> settles c e" "evs = pre @ x # post" "ev_data x = ToolCall n m c name args"
    "turn = Some n" "step = Some m" "\<forall>y \<in> set post. \<not> settles c y"
  then show "\<exists>pre x post n m name args. evs @ [e] = pre @ x # post \<and> ev_data x = ToolCall n m c name args \<and>
        turn = Some n \<and> step = Some m \<and> (\<forall>y \<in> set post. \<not> settles c y)"
    by (intro exI [of _ pre] exI [of _ x] exI [of _ "post @ [e]"]) auto
qed

lemma open_call_new: "ev_data e = ToolCall n m c name args \<Longrightarrow> open_call (Some n) (Some m) (evs @ [e]) c"
  unfolding open_call_def by (intro exI [of _ evs] exI [of _ e] exI [of _ "[]"]) auto

lemma open_call_closed [simp]: "\<not> open_call None step evs c" "\<not> open_call turn None evs c"
  by (simp_all add: open_call_def)

lemma validate_event_pending:
  assumes v: "validate_event t e = Inr tt"
    and pend: "\<forall>c \<in> tr_pending t. open_call (tr_open_turn t) (tr_open_step t) evs c"
  shows "\<forall>c \<in> change_pending (tt_pending tt) (tr_pending t).
    open_call (tt_open_turn tt) (tt_open_step tt) (evs @ [e]) c"
proof (cases "ev_data e")
  case (ToolCall n m c name args)
  with v have tt: "tt_pending tt = PendingAdd c" "tt_open_turn tt = Some n" "tt_open_step tt = Some m"
    "tr_open_turn t = Some n" "tr_open_step t = Some m"
    by (auto simp: validate_event_def unchanged_def require_open_step_def rbind_Inr_iff split: if_splits)
  have "open_call (Some n) (Some m) (evs @ [e]) c" using ToolCall by (rule open_call_new)
  moreover have "open_call (Some n) (Some m) (evs @ [e]) c'" if "c' \<in> tr_pending t" for c'
    using that pend tt ToolCall by (intro open_call_snoc) auto
  ultimately show ?thesis using tt by auto
qed (use v pend in \<open>auto simp: validate_event_def unchanged_def require_open_step_def rbind_Inr_iff Let_def
        split: if_splits intro: open_call_snoc\<close>)

lemma validate_event_plain:
  "validate_event t e = Inr tt \<Longrightarrow> marker_of (ev_data e) = None \<Longrightarrow>
     tt_open_turn tt = tr_open_turn t \<and> tt_open_step tt = tr_open_step t \<and>
     tt_next_turn tt = tr_next_turn t \<and> tt_next_step tt = tr_next_step t"
  by (cases "ev_data e")
    (auto simp: validate_event_def unchanged_def rbind_Inr_iff Let_def split: if_splits)

lemma validate_event_shape:
  assumes v: "validate_event t e = Inr tt"
    and shape: "trace_shape ms (tr_open_turn t) (tr_open_step t) (tr_next_turn t) (tr_next_step t) (markers evs)"
  shows "\<exists>ms. trace_shape ms (tt_open_turn tt) (tt_open_step tt) (tt_next_turn tt) (tt_next_step tt)
    (markers (evs @ [e]))"
proof (cases "marker_of (ev_data e)")
  case None
  with validate_event_plain [OF v] shape show ?thesis by (auto simp: markers_snoc)
next
  case (Some k)
  show ?thesis
  proof (cases "ev_data e")
    case (TurnStart n)
    with v shape have "trace_shape ms (tt_open_turn tt) (tt_open_step tt) (tt_next_turn tt) (tt_next_step tt)
        (markers (evs @ [e]))"
      by (auto simp: validate_event_def unchanged_def markers_snoc split: if_splits)
    then show ?thesis ..
  next
    case (TurnEnd n r)
    with v have ot: "tr_open_turn t = Some n" "tr_open_step t = None"
      and tt: "tt_open_turn tt = None" "tt_open_step tt = None" "tt_next_turn tt = tr_next_turn t + 1"
      by (auto simp: validate_event_def unchanged_def split: if_splits)
    from shape ot obtain k where "tr_next_turn t = 1 + int (length ms)" "n = 1 + int (length ms)"
      "markers evs = closed_turns 1 ms @ TS n # steps n k" by auto
    with tt TurnEnd have "trace_shape (ms @ [k]) (tt_open_turn tt) (tt_open_step tt) (tt_next_turn tt)
        (tt_next_step tt) (markers (evs @ [e]))"
      by (simp add: markers_snoc closed_turns_snoc)
    then show ?thesis ..
  next
    case (StepStart n m)
    with v have ot: "tr_open_turn t = Some n" "tr_open_step t = None" "m = tr_next_step t"
      and tt: "tt_open_turn tt = Some n" "tt_open_step tt = Some m" "tt_next_turn tt = tr_next_turn t"
        "tt_next_step tt = tr_next_step t"
      by (auto simp: validate_event_def unchanged_def split: if_splits)
    with shape StepStart have "trace_shape ms (tt_open_turn tt) (tt_open_step tt) (tt_next_turn tt)
        (tt_next_step tt) (markers (evs @ [e]))"
      by (auto simp: markers_snoc)
    then show ?thesis ..
  next
    case (StepEnd n m)
    with v have ot: "tr_open_turn t = Some n" "tr_open_step t = Some m"
      and tt: "tt_open_turn tt = Some n" "tt_open_step tt = None" "tt_next_turn tt = tr_next_turn t"
        "tt_next_step tt = tr_next_step t + 1"
      by (auto simp: validate_event_def unchanged_def require_open_step_def rbind_Inr_iff split: if_splits)
    from shape ot obtain k where "tr_next_turn t = 1 + int (length ms)" "n = tr_next_turn t" "m = tr_next_step t"
      "tr_next_step t = 1 + int k" "markers evs = closed_turns 1 ms @ TS n # steps n k @ [SS n m]" by auto
    with tt StepEnd have "trace_shape ms (tt_open_turn tt) (tt_open_step tt) (tt_next_turn tt)
        (tt_next_step tt) (markers (evs @ [e]))"
      by (auto simp: markers_snoc intro!: exI [of _ "Suc k"])
    then show ?thesis ..
  qed (use Some in simp_all)
qed

lemma trace_history_step:
  assumes hist: "trace_history evs t" and step: "trace_step t e = Inr t'"
  shows "trace_history (evs @ [e]) t'"
proof -
  from step obtain tt where v: "validate_event t e = Inr tt" and t': "t' = apply_transition t tt"
    by (auto simp: trace_step_def rbind_Inr_iff)
  from hist obtain ms where
    shape: "trace_shape ms (tr_open_turn t) (tr_open_step t) (tr_next_turn t) (tr_next_step t) (markers evs)"
    and pend: "\<forall>c \<in> tr_pending t. open_call (tr_open_turn t) (tr_open_step t) evs c"
    and seqs: "\<forall>e \<in> set evs. ev_seq e \<le> tr_last_seq t"
    by (auto simp: trace_history_def)
  have "\<forall>c \<in> tr_pending t'. open_call (tr_open_turn t') (tr_open_step t') (evs @ [e]) c"
    using validate_event_pending [OF v pend] by (simp add: t' apply_transition_def)
  moreover have "tt_last_seq tt = ev_seq e" "tr_last_seq t < ev_seq e"
    using v by (auto simp: validate_event_def unchanged_def rbind_Inr_iff Let_def
        split: if_splits event_data.splits)
  then have "\<forall>x \<in> set (evs @ [e]). ev_seq x \<le> tr_last_seq t'"
    using seqs by (auto simp: t' apply_transition_def)
  ultimately show ?thesis
    using validate_event_shape [OF v shape] by (simp add: trace_history_def t' apply_transition_def)
qed

lemma trace_history_fresh: "trace_history [] fresh_trace"
  by (auto simp: trace_history_def fresh_trace_def markers_def map_filter_simps intro: exI [of _ "[]"])

interpretation trace: replayed trace_step fresh_trace trace_history
  by unfold_locales (simp_all add: trace_history_fresh trace_history_step)

text \<open>An accepted step-scoped event is accepted inside its step.\<close>

lemma validate_event_scope:
  "validate_event t e = Inr tt \<Longrightarrow> scope_of e = Some (n, m) \<Longrightarrow>
     tr_open_turn t = Some n \<and> tr_open_step t = Some m"
  by (cases "ev_data e")
    (auto simp: validate_event_def require_open_step_def rbind_Inr_iff Let_def split: if_splits)

lemma trace_step_Inr: "trace_step t e = Inr t' \<longleftrightarrow> (\<exists>tt. validate_event t e = Inr tt \<and> t' = apply_transition t tt)"
  by (auto simp: trace_step_def rbind_Inr_iff)

lemma trace_history_open_step:
  assumes "trace_history evs t" and "tr_open_turn t = Some n" and "tr_open_step t = Some m"
  shows "markers evs \<noteq> [] \<and> last (markers evs) = SS n m"
  using assms by (auto simp: trace_history_def)

section \<open>Properties\<close>

text \<open>
  C2: In a log the invariant accepts, the turn and step markers are exactly the closed turns numbered
  consecutively from 1, each with its steps numbered consecutively from 1, followed by at most one
  open turn whose last step may be open; the trace's counters say which.
\<close>

theorem accepted_log_is_well_bracketed:
  assumes "seed_session evs = Inr t"
  shows "\<exists>ms. trace_shape ms (tr_open_turn t) (tr_open_step t) (tr_next_turn t) (tr_next_step t) (markers evs)"
  using trace.run_hist [OF assms [unfolded seed_session_def]] by (simp add: trace_history_def)

definition sample_call :: "int \<Rightarrow> unit event" where
  "sample_call q = log_event q 5 (ToolCall 1 1 ''c'' ''read'' ''{}'')"

definition sample_result :: "int \<Rightarrow> unit event" where
  "sample_result q = (log_event q 5 (ToolResult
     \<lparr>tr_turn = 1, tr_step = 1,
      tr_message = \<lparr>trm_id = ''r'', trm_call_id = ''c'', trm_block_call_id = ''c'',
        trm_block_content = [], trm_is_error = None\<rparr>,
      tr_error = None, tr_meta = None\<rparr>))\<lparr>ev_surface_op := Some (JStr ''append'')\<rparr>"

definition sample_trace_log :: "unit event list" where
  "sample_trace_log =
     [log_event 0 5 (TurnStart 1), log_event 1 5 (StepStart 1 1), sample_call 2, sample_result 3,
      log_event 4 5 (StepEnd 1 1), log_event 5 6 (TurnEnd 1 TurnCompleted), log_event 6 6 (TurnStart 2)]"

lemma sample_trace_seed:
  "seed_session sample_trace_log =
     Inr \<lparr>tr_last_seq = 6, tr_open_turn = Some 2, tr_open_step = None, tr_next_turn = 2, tr_next_step = 1,
          tr_pending = {}\<rparr>"
  by (simp add: sample_trace_log_def sample_call_def sample_result_def seed_session_def fresh_trace_def
      trace_step_def validate_event_def unchanged_def require_open_step_def apply_transition_def Let_def)

theorem accepted_log_is_well_bracketed_witness:
  "\<exists>ms. trace_shape ms (Some 2) None 2 1 (markers sample_trace_log)"
  using accepted_log_is_well_bracketed [OF sample_trace_seed] by simp

text \<open>
  Every step-scoped event of an accepted log (a chunk, an assistant message, a tool call, an
  appended tool result, a step end) lies inside the step it names: the last marker before it is
  the start of that step.
\<close>

theorem step_events_lie_in_their_step:
  assumes "seed_session (pre @ e # post) = Inr t" and "scope_of e = Some (n, m)"
  shows "markers pre \<noteq> [] \<and> last (markers pre) = SS n m"
proof -
  obtain t1 t2 where h: "trace_history pre t1" and s: "trace_step t1 e = Inr t2"
    using assms(1) unfolding seed_session_def by (rule trace.run_event)
  then show ?thesis
    using validate_event_scope [OF _ assms(2)] trace_history_open_step [OF h] by (auto simp: trace_step_Inr)
qed

lemma sample_trace_split:
  "take 2 sample_trace_log @ sample_call 2 # drop 3 sample_trace_log = sample_trace_log"
  "take 3 sample_trace_log @ sample_result 3 # drop 4 sample_trace_log = sample_trace_log"
  by (simp_all add: sample_trace_log_def)

theorem step_events_lie_in_their_step_witness: "last (markers (take 2 sample_trace_log)) = SS 1 1"
  using step_events_lie_in_their_step [of "take 2 sample_trace_log" "sample_call 2" "drop 3 sample_trace_log",
    unfolded sample_trace_split, OF sample_trace_seed, of 1 1]
  by (simp add: sample_call_def)

text \<open>
  Every appended tool result of an accepted log answers a tool call of the same step that was
  still open (no earlier result for it and no step end in between), unless it is the recovery
  result that marks a call which never started.
\<close>

theorem results_follow_their_calls:
  assumes "seed_session (pre @ e # post) = Inr t" and "ev_data e = ToolResult d"
    and "ev_surface_op e = Some (JStr ''append'')"
  shows "synthetic_not_started d \<or>
    open_call (Some (tr_turn d)) (Some (tr_step d)) pre (trm_call_id (tr_message d))"
proof -
  obtain t1 t2 where h: "trace_history pre t1" and s: "trace_step t1 e = Inr t2"
    using assms(1) unfolding seed_session_def by (rule trace.run_event)
  from s obtain tt where v: "validate_event t1 e = Inr tt" by (auto simp: trace_step_Inr)
  with assms(2,3) have "tr_open_turn t1 = Some (tr_turn d)" "tr_open_step t1 = Some (tr_step d)"
    "trm_call_id (tr_message d) \<in> tr_pending t1 \<or> synthetic_not_started d"
    by (auto simp: validate_event_def require_open_step_def rbind_Inr_iff Let_def split: if_splits)
  with h show ?thesis by (auto simp: trace_history_def)
qed

theorem results_follow_their_calls_witness: "open_call (Some 1) (Some 1) (take 3 sample_trace_log) ''c''"
  using results_follow_their_calls [of "take 3 sample_trace_log" "sample_result 3" "drop 4 sample_trace_log",
    unfolded sample_trace_split, OF sample_trace_seed]
  by (simp add: sample_result_def synthetic_not_started_def)

end
