(* ===== verification/Session_Repair.thy ===== *)
theory Session_Repair
  imports Surface Session_Trace
begin

text \<open>
  Crash recovery (\<open>packages/core/session/src/repair.ts\<close>): the scan of a stored log for the calls
  its open turn left unanswered, and the synthetic events that close that turn.
\<close>

section \<open>The scan\<close>

record repair_scan =
  rs_turn :: "int option"
  rs_step :: "int option"
  rs_calls :: "(call_id, int \<times> int option) omap"

definition start_scan :: repair_scan where
  "start_scan = \<lparr>rs_turn = None, rs_step = None, rs_calls = []\<rparr>"

text \<open>The tool-call blocks of one assistant message, each registered without a recorded start.\<close>

fun register_blocks :: "int \<Rightarrow> content_block list \<Rightarrow> (call_id, int \<times> int option) omap \<Rightarrow> (call_id, int \<times> int option) omap" where
  "register_blocks step [] calls = calls"
| "register_blocks step (ToolCallBlock c _ _ # bs) calls = register_blocks step bs (om_set c (step, None) calls)"
| "register_blocks step (_ # bs) calls = register_blocks step bs calls"

definition scan_event :: "repair_scan \<Rightarrow> 'p event \<Rightarrow> repair_scan" where
  "scan_event s e = (case ev_data e of
      TurnStart turn \<Rightarrow> s\<lparr>rs_turn := Some turn, rs_step := None, rs_calls := []\<rparr>
    | TurnEnd _ _ \<Rightarrow> s\<lparr>rs_turn := None, rs_step := None, rs_calls := []\<rparr>
    | StepStart _ step \<Rightarrow> s\<lparr>rs_step := Some step\<rparr>
    | StepEnd _ _ \<Rightarrow> s\<lparr>rs_calls := [], rs_step := None\<rparr>
    | AssistantMessage _ step m _ _ \<Rightarrow> s\<lparr>rs_calls := register_blocks step (am_content m) (rs_calls s)\<rparr>
    | ToolCall _ _ c _ _ \<Rightarrow>
        (case om_get (rs_calls s) c of
           Some (step, _) \<Rightarrow> s\<lparr>rs_calls := om_set c (step, Some (ev_seq e)) (rs_calls s)\<rparr>
         | None \<Rightarrow> s)
    | ToolResult d \<Rightarrow> s\<lparr>rs_calls := om_del (trm_call_id (tr_message d)) (rs_calls s)\<rparr>
    | _ \<Rightarrow> s)"

definition scan_log :: "'p event list \<Rightarrow> repair_scan" where
  "scan_log evs = foldl scan_event start_scan evs"

section \<open>The closers\<close>

definition outcome_unknown_text :: string where
  "outcome_unknown_text = ''The tool call was interrupted after it was recorded, but no result was durably recorded. Its outcome is unknown. Decide whether to retry from the tool semantics: retry only if the operation is read-only or idempotent; if it may have side effects, first verify external state or ask the user. Do not retry blindly.''"

definition not_started_text :: string where
  "not_started_text = ''The tool call was interrupted before the Harness recorded it as started. Retry it if it is still needed.''"

definition result_closer :: "int \<Rightarrow> int \<Rightarrow> int \<Rightarrow> call_id \<times> int \<times> int option \<Rightarrow> 'p event" where
  "result_closer turn time seq call = (case call of (c, step, call_seq) \<Rightarrow>
     \<lparr>ev_seq = seq, ev_time = time,
      ev_data = ToolResult
        \<lparr>tr_turn = turn, tr_step = step,
         tr_message =
           \<lparr>trm_id = ''interrupted-tool-result-'' @ c @ ''-'' @ int_string seq,
            trm_call_id = c, trm_block_call_id = c,
            trm_block_content =
              [TextBlock (if call_seq \<noteq> None then outcome_unknown_text else not_started_text)],
            trm_is_error = Some True\<rparr>,
         tr_error = Some
           (if call_seq \<noteq> None
            then \<lparr>terr_name = ''ToolOutcomeUnknownError'', terr_code = TOOL_OUTCOME_UNKNOWN\<rparr>
            else \<lparr>terr_name = ''ToolNotStartedError'', terr_code = TOOL_NOT_STARTED\<rparr>),
         tr_meta = None\<rparr>,
      ev_ignorable = False,
      ev_surface_op = Some (JStr ''append''),
      ev_sources = (case call_seq of Some q \<Rightarrow> Some (JArr [JInt q]) | None \<Rightarrow> None)\<rparr>)"

fun result_closers :: "int \<Rightarrow> int \<Rightarrow> int \<Rightarrow> (call_id, int \<times> int option) omap \<Rightarrow> 'p event list" where
  "result_closers turn time seq [] = []"
| "result_closers turn time seq (call # calls) =
     result_closer turn time seq call # result_closers turn time (seq + 1) calls"

definition boundary_closers :: "int \<Rightarrow> int \<Rightarrow> int \<Rightarrow> int option \<Rightarrow> 'p event list" where
  "boundary_closers turn time seq step = (case step of
      Some m \<Rightarrow> [log_event seq time (StepEnd turn m), log_event (seq + 1) time (TurnEnd turn TurnInterrupted)]
    | None \<Rightarrow> [log_event seq time (TurnEnd turn TurnInterrupted)])"

definition interrupted_turn_closers :: "'p event list \<Rightarrow> 'p event list" where
  "interrupted_turn_closers evs =
     (let s = scan_log evs in
      case rs_turn s of
        None \<Rightarrow> []
      | Some turn \<Rightarrow>
          if evs = [] then []
          else
            let seq = ev_seq (last evs) + 1; time = ev_time (last evs) in
            result_closers turn time seq (rs_calls s) @
            boundary_closers turn time (seq + int (length (rs_calls s))) (rs_step s))"

section \<open>The scan follows the trace\<close>

lemma scan_log_append: "scan_log (xs @ ys) = foldl scan_event (scan_log xs) ys"
  by (simp add: scan_log_def)

lemma scan_log_snoc: "scan_log (evs @ [e]) = scan_event (scan_log evs) e"
  by (simp add: scan_log_append)

text \<open>The calls one message registers.\<close>

definition block_calls :: "content_block list \<Rightarrow> call_id set" where
  "block_calls bs = {c. \<exists>name args. ToolCallBlock c name args \<in> set bs}"

lemma register_blocks_wf: "om_wf calls \<Longrightarrow> om_wf (register_blocks step bs calls)"
  by (induction step bs calls rule: register_blocks.induct) auto

lemma register_blocks_get:
  "om_get (register_blocks step bs calls) c = (if c \<in> block_calls bs then Some (step, None) else om_get calls c)"
  by (induction step bs calls rule: register_blocks.induct) (auto simp: block_calls_def)

definition calls_follow :: "session_trace \<Rightarrow> (call_id, int \<times> int option) omap \<Rightarrow> bool" where
  "calls_follow t calls \<longleftrightarrow> om_wf calls \<and>
     (\<forall>c m q. om_get calls c = Some (m, q) \<longrightarrow>
        tr_open_step t = Some m \<and>
        (\<forall>k. q = Some k \<longrightarrow> c \<in> tr_pending t \<and> k \<le> tr_last_seq t))"

text \<open>A repaired log is described by the trace's open turn and step, and by its calls in flight.\<close>

definition scan_history :: "'p event list \<Rightarrow> session_trace \<Rightarrow> bool" where
  "scan_history evs t \<longleftrightarrow> trace_history evs t \<and>
     rs_turn (scan_log evs) = tr_open_turn t \<and> rs_step (scan_log evs) = tr_open_step t \<and>
     calls_follow t (rs_calls (scan_log evs)) \<and>
     (evs \<noteq> [] \<longrightarrow> tr_last_seq t = ev_seq (last evs))"

lemma trace_history_no_turn: "trace_history evs t \<Longrightarrow> tr_open_turn t = None \<Longrightarrow> tr_open_step t = None"
  by (auto simp: trace_history_def)

lemma calls_follow_empty [simp]: "calls_follow t []"
  by (simp add: calls_follow_def)

lemma calls_follow_no_step:
  assumes "calls_follow t calls" and "tr_open_step t = None"
  shows "calls = []"
proof -
  have "om_get calls c = None" for c
    using assms by (cases "om_get calls c") (auto simp: calls_follow_def)
  then show ?thesis by (metis map_of_eq_empty_iff ext)
qed

lemma calls_followI:
  assumes "om_wf calls" and "\<And>c m q. om_get calls c = Some (m, q) \<Longrightarrow> tr_open_step t = Some m"
    and "\<And>c m k. om_get calls c = Some (m, Some k) \<Longrightarrow> c \<in> tr_pending t \<and> k \<le> tr_last_seq t"
  shows "calls_follow t calls"
  using assms unfolding calls_follow_def by blast

lemma calls_followD:
  assumes "calls_follow t calls"
  shows "om_wf calls" and "om_get calls c = Some (m, q) \<Longrightarrow> tr_open_step t = Some m"
    and "om_get calls c = Some (m, Some k) \<Longrightarrow> c \<in> tr_pending t \<and> k \<le> tr_last_seq t"
  using assms unfolding calls_follow_def by blast+

lemma calls_follow_mono:
  assumes "calls_follow t calls" and "tr_open_step t' = tr_open_step t"
    and "tr_pending t \<subseteq> tr_pending t'" and "tr_last_seq t \<le> tr_last_seq t'"
  shows "calls_follow t' calls"
proof (rule calls_followI)
  fix c m k
  assume "om_get calls c = Some (m, Some k)"
  from calls_followD(3) [OF assms(1) this] assms(3,4) show "c \<in> tr_pending t' \<and> k \<le> tr_last_seq t'" by auto
qed (simp_all add: assms(2) calls_followD [OF assms(1)])

lemma calls_follow_start:
  assumes "calls_follow t calls" and "om_get calls c = Some (k, q)"
    and "c \<in> tr_pending t" and "n \<le> tr_last_seq t"
  shows "calls_follow t (om_set c (k, Some n) calls)"
proof (rule calls_followI)
  fix d m q'
  assume "om_get (om_set c (k, Some n) calls) d = Some (m, q')"
  then show "tr_open_step t = Some m"
    using calls_followD(2) [OF assms(1), of d m q'] calls_followD(2) [OF assms(1,2)] by (auto split: if_splits)
next
  fix d m q'
  assume "om_get (om_set c (k, Some n) calls) d = Some (m, Some q')"
  then show "d \<in> tr_pending t \<and> q' \<le> tr_last_seq t"
    using calls_followD(3) [OF assms(1)] assms(3,4) by (auto split: if_splits)
qed (simp add: calls_followD [OF assms(1)])

lemma scan_history_step:
  assumes hist: "scan_history evs t" and step: "trace_step t e = Inr t'"
  shows "scan_history (evs @ [e]) t'"
proof -
  let ?s = "scan_log evs"
  from hist have th: "trace_history evs t"
    and turn: "rs_turn ?s = tr_open_turn t" and st: "rs_step ?s = tr_open_step t"
    and calls: "calls_follow t (rs_calls ?s)"
    by (auto simp: scan_history_def)
  from step obtain tt where v: "validate_event t e = Inr tt" and t': "t' = apply_transition t tt"
    by (auto simp: trace_step_Inr)
  have last: "tt_last_seq tt = ev_seq e" "tr_last_seq t < ev_seq e"
    using v by (auto simp: validate_event_def unchanged_def rbind_Inr_iff Let_def
        split: if_splits event_data.splits)
  have "rs_turn (scan_event ?s e) = tt_open_turn tt \<and> rs_step (scan_event ?s e) = tt_open_step tt \<and>
      calls_follow t' (rs_calls (scan_event ?s e))"
  proof (cases "ev_data e")
    case (TurnStart n)
    with v trace_history_no_turn [OF th] show ?thesis
      by (auto simp: validate_event_def unchanged_def scan_event_def split: if_splits)
  next
    case (TurnEnd n r)
    with v show ?thesis
      by (auto simp: validate_event_def unchanged_def scan_event_def split: if_splits)
  next
    case (StepStart n m)
    with v calls_follow_no_step [OF calls] turn show ?thesis
      by (auto simp: validate_event_def unchanged_def scan_event_def split: if_splits)
  next
    case (StepEnd n m)
    with v turn show ?thesis
      by (auto simp: validate_event_def unchanged_def scan_event_def require_open_step_def rbind_Inr_iff
          split: if_splits)
  next
    case (AssistantMessage n m msg u i)
    with v have tt: "tt = unchanged t e" "tr_open_step t = Some m"
      by (auto simp: validate_event_def require_open_step_def rbind_Inr_iff split: if_splits)
    have "calls_follow t' (register_blocks m (am_content msg) (rs_calls ?s))"
      using calls tt last
      by (fastforce simp: calls_follow_def register_blocks_wf register_blocks_get t' apply_transition_def
          unchanged_def split: if_splits)
    with AssistantMessage tt turn st show ?thesis by (simp add: scan_event_def unchanged_def)
  next
    case (ToolCall n m c name args)
    with v have tt: "tt = (unchanged t e)\<lparr>tt_pending := PendingAdd c\<rparr>" "tr_open_step t = Some m"
      by (auto simp: validate_event_def require_open_step_def rbind_Inr_iff split: if_splits)
    have "calls_follow t' (rs_calls (scan_event ?s e))"
    proof (cases "om_get (rs_calls ?s) c")
      case None
      with calls tt last ToolCall show ?thesis
        by (fastforce simp: calls_follow_def scan_event_def t' apply_transition_def unchanged_def)
    next
      case (Some mq)
      obtain k q where "mq = (k, q)" by (cases mq)
      with Some calls have "calls_follow t' (om_set c (k, Some (ev_seq e)) (rs_calls ?s))"
        using tt last by (intro calls_follow_start [OF calls_follow_mono])
          (auto simp: t' apply_transition_def unchanged_def)
      with Some \<open>mq = (k, q)\<close> ToolCall show ?thesis by (simp add: scan_event_def)
    qed
    with ToolCall tt turn st show ?thesis
      by (auto simp: scan_event_def unchanged_def split: option.splits)
  next
    case (ToolResult d)
    with v have tt: "tt_open_turn tt = tr_open_turn t" "tt_open_step tt = tr_open_step t"
      "tt_pending tt = PendingNone \<or> tt_pending tt = PendingDelete (trm_call_id (tr_message d))"
      by (auto simp: validate_event_def unchanged_def rbind_Inr_iff Let_def split: if_splits)
    have "calls_follow t' (rs_calls (scan_event ?s e))"
      using calls tt last ToolResult
      by (fastforce simp: calls_follow_def scan_event_def t' apply_transition_def split: if_splits)
    with ToolResult tt turn st show ?thesis by (simp add: scan_event_def)
  qed (use v turn st calls last in \<open>auto simp: validate_event_def unchanged_def scan_event_def rbind_Inr_iff
        t' apply_transition_def split: if_splits elim!: calls_follow_mono\<close>)
  moreover have "trace_history (evs @ [e]) t'" using th step by (rule trace_history_step)
  ultimately show ?thesis
    using last by (auto simp: scan_history_def scan_log_snoc t' apply_transition_def)
qed

lemma scan_history_start: "scan_history [] fresh_trace"
  using trace_history_fresh by (simp add: scan_history_def scan_log_def start_scan_def fresh_trace_def)

interpretation scan: replayed trace_step fresh_trace scan_history
  by unfold_locales (simp_all add: scan_history_start scan_history_step)

section \<open>The closers pass the trace\<close>

lemma validate_result_closer:
  assumes "tr_open_turn t = Some turn" and "tr_open_step t = Some m" and "tr_last_seq t < seq"
    and "q \<noteq> None \<Longrightarrow> c \<in> tr_pending t"
  shows "trace_step t (result_closer turn time seq (c, m, q)) =
    Inr (t\<lparr>tr_last_seq := seq, tr_pending := tr_pending t - {c}\<rparr>)"
  using assms
  by (cases q) (auto simp: trace_step_def validate_event_def result_closer_def require_open_step_def unchanged_def
      apply_transition_def synthetic_not_started_def)

lemma replay_result_closers:
  assumes "tr_open_turn t = Some turn" and "tr_last_seq t < seq" and "distinct (map fst calls)"
    and "\<forall>(c, m, q) \<in> set calls. tr_open_step t = Some m \<and> (q \<noteq> None \<longrightarrow> c \<in> tr_pending t)"
  shows "\<exists>t'. replay trace_step t (result_closers turn time seq calls :: 'p event list) = Inr t' \<and>
    tr_open_turn t' = Some turn \<and> tr_open_step t' = tr_open_step t \<and>
    tr_last_seq t' < seq + int (length calls)"
  using assms
proof (induction calls arbitrary: t seq)
  case (Cons call calls)
  obtain c m q where call: "call = (c, m, q)" by (cases call)
  let ?t = "t\<lparr>tr_last_seq := seq, tr_pending := tr_pending t - {c}\<rparr>"
  have "trace_step t (result_closer turn time seq call :: 'p event) = Inr ?t"
    unfolding call using Cons.prems call by (intro validate_result_closer) auto
  moreover have "\<exists>t'. replay trace_step ?t (result_closers turn time (seq + 1) calls :: 'p event list) = Inr t' \<and>
      tr_open_turn t' = Some turn \<and> tr_open_step t' = tr_open_step ?t \<and>
      tr_last_seq t' < (seq + 1) + int (length calls)"
  proof (rule Cons.IH)
    show "\<forall>(d, m, q) \<in> set calls. tr_open_step ?t = Some m \<and> (q \<noteq> None \<longrightarrow> d \<in> tr_pending ?t)"
      using Cons.prems(3,4) call by (force simp: image_iff)
  qed (use Cons.prems in simp_all)
  ultimately show ?case by (auto simp: algebra_simps)
qed auto

lemma replay_boundary_closers:
  assumes "tr_open_turn t = Some turn" and "tr_last_seq t < seq"
  shows "\<exists>t'. replay trace_step t (boundary_closers turn time seq (tr_open_step t) :: 'p event list) = Inr t' \<and>
    tr_open_turn t' = None"
  using assms
  by (cases "tr_open_step t") (auto simp: boundary_closers_def trace_step_def validate_event_def unchanged_def
      require_open_step_def apply_transition_def)

lemma rs_calls_alist:
  assumes "calls_follow t calls" and "(c, m, q) \<in> set calls"
  shows "tr_open_step t = Some m" and "q \<noteq> None \<Longrightarrow> c \<in> tr_pending t"
    and "q = Some k \<Longrightarrow> k \<le> tr_last_seq t"
proof -
  have get: "om_get calls c = Some (m, q)"
    using assms om_set_in calls_followD(1) by metis
  show "tr_open_step t = Some m" using calls_followD(2) [OF assms(1) get] .
  show "q \<noteq> None \<Longrightarrow> c \<in> tr_pending t" "q = Some k \<Longrightarrow> k \<le> tr_last_seq t"
    using calls_followD(3) [OF assms(1)] get by auto
qed

lemma closers_accepted:
  fixes evs :: "'p event list"
  assumes "seed_session evs = Inr t"
  shows "\<exists>t'. seed_session (evs @ interrupted_turn_closers evs) = Inr t' \<and> tr_open_turn t' = None"
proof -
  have r: "replay trace_step fresh_trace evs = Inr t" using assms by (simp add: seed_session_def)
  from scan.run_hist [OF r] have turn: "rs_turn (scan_log evs) = tr_open_turn t"
    and st: "rs_step (scan_log evs) = tr_open_step t" and calls: "calls_follow t (rs_calls (scan_log evs))"
    and last: "evs \<noteq> [] \<Longrightarrow> tr_last_seq t = ev_seq (last evs)"
    by (auto simp: scan_history_def)
  show ?thesis
  proof (cases "tr_open_turn t")
    case None
    with turn assms show ?thesis by (simp add: interrupted_turn_closers_def Let_def)
  next
    case (Some n)
    have ne: "evs \<noteq> []" using Some turn by (auto simp: scan_log_def start_scan_def)
    let ?calls = "rs_calls (scan_log evs)" and ?seq = "ev_seq (last evs) + 1" and ?time = "ev_time (last evs)"
    have "\<exists>t'. replay trace_step t (result_closers n ?time ?seq ?calls :: 'p event list) = Inr t' \<and>
        tr_open_turn t' = Some n \<and> tr_open_step t' = tr_open_step t \<and>
        tr_last_seq t' < ?seq + int (length ?calls)"
      using Some last [OF ne] calls_followD(1) [OF calls] rs_calls_alist [OF calls]
      by (intro replay_result_closers) (auto simp: om_wf_def om_keys_def)
    then obtain t1 where t1: "replay trace_step t (result_closers n ?time ?seq ?calls :: 'p event list) = Inr t1"
      "tr_open_turn t1 = Some n" "tr_open_step t1 = tr_open_step t" "tr_last_seq t1 < ?seq + int (length ?calls)"
      by auto
    from replay_boundary_closers [OF t1(2,4), of ?time] obtain t2 where
      t2: "replay trace_step t1 (boundary_closers n ?time (?seq + int (length ?calls)) (tr_open_step t) :: 'p event list) = Inr t2"
      "tr_open_turn t2 = None" unfolding t1(3) by auto
    have "interrupted_turn_closers evs = result_closers n ?time ?seq ?calls @
        boundary_closers n ?time (?seq + int (length ?calls)) (tr_open_step t)"
      using turn Some ne st by (simp add: interrupted_turn_closers_def Let_def)
    with r t1(1) t2 show ?thesis by (auto simp: seed_session_def replay_append)
  qed
qed

section \<open>The closers answer every open call\<close>

text \<open>The call ids of tool results among the closers.\<close>

definition result_ids :: "'p event list \<Rightarrow> call_id list" where
  "result_ids evs = List.map_filter (\<lambda>e. case ev_data e of ToolResult d \<Rightarrow> Some (trm_call_id (tr_message d)) | _ \<Rightarrow> None) evs"

text \<open>An event after which the call \<open>c\<close> no longer waits for a result.\<close>

fun answers :: "call_id \<Rightarrow> 'p event \<Rightarrow> bool" where
  "answers c e = (case ev_data e of
      TurnStart _ \<Rightarrow> True
    | TurnEnd _ _ \<Rightarrow> True
    | StepEnd _ _ \<Rightarrow> True
    | ToolResult d \<Rightarrow> trm_call_id (tr_message d) = c
    | _ \<Rightarrow> False)"

text \<open>A call that an assistant message requested and nothing after it answered.\<close>

definition unanswered :: "'p event list \<Rightarrow> call_id \<Rightarrow> bool" where
  "unanswered evs c \<longleftrightarrow>
     (\<exists>pre e post n m msg u i. evs = pre @ e # post \<and> ev_data e = AssistantMessage n m msg u i \<and>
        c \<in> block_calls (am_content msg) \<and> (\<forall>x \<in> set post. \<not> answers c x))"

lemma unanswered_Nil [simp]: "\<not> unanswered [] c"
  by (simp add: unanswered_def)

lemma unanswered_snoc:
  "unanswered (evs @ [e]) c \<longleftrightarrow>
     (unanswered evs c \<and> \<not> answers c e) \<or>
     (\<exists>n m msg u i. ev_data e = AssistantMessage n m msg u i \<and> c \<in> block_calls (am_content msg))"
  (is "?l \<longleftrightarrow> ?r")
proof
  assume ?l
  then obtain pre x post n m msg u i where eq: "evs @ [e] = pre @ x # post"
    and x: "ev_data x = AssistantMessage n m msg u i" "c \<in> block_calls (am_content msg)"
    and post: "\<forall>y \<in> set post. \<not> answers c y"
    by (auto simp: unanswered_def)
  show ?r
  proof (cases post rule: rev_cases)
    case Nil
    with eq x show ?thesis by auto
  next
    case (snoc ys y)
    with eq have "evs = pre @ x # ys" "y = e" by auto
    moreover from this post snoc have "\<not> answers c e" "\<forall>z \<in> set ys. \<not> answers c z" by auto
    ultimately have "unanswered evs c \<and> \<not> answers c e" using x unfolding unanswered_def by blast
    then show ?thesis ..
  qed
next
  assume ?r
  then show ?l
  proof
    assume "unanswered evs c \<and> \<not> answers c e"
    then obtain pre x post n m msg u i where "evs = pre @ x # post"
      "ev_data x = AssistantMessage n m msg u i" "c \<in> block_calls (am_content msg)"
      "\<forall>y \<in> set (post @ [e]). \<not> answers c y"
      by (auto simp: unanswered_def)
    then show ?l unfolding unanswered_def
      by (intro exI [of _ pre] exI [of _ x] exI [of _ "post @ [e]"]) auto
  next
    assume "\<exists>n m msg u i. ev_data e = AssistantMessage n m msg u i \<and> c \<in> block_calls (am_content msg)"
    then show ?l unfolding unanswered_def
      by (intro exI [of _ evs] exI [of _ e] exI [of _ "[]"]) auto
  qed
qed

lemma scan_calls_unanswered:
  "om_wf (rs_calls (scan_log evs)) \<and> (\<forall>c. om_get (rs_calls (scan_log evs)) c \<noteq> None \<longleftrightarrow> unanswered evs c)"
proof (induction evs rule: rev_induct)
  case Nil
  show ?case by (simp add: scan_log_def start_scan_def)
next
  case (snoc e evs)
  then show ?case
    by (cases "ev_data e")
      (auto simp: scan_log_snoc scan_event_def unanswered_snoc register_blocks_wf register_blocks_get
        split: option.splits if_splits)
qed

lemma result_ids_append: "result_ids (xs @ ys) = result_ids xs @ result_ids ys"
  by (simp add: result_ids_def List.map_filter_def)

lemma result_ids_closers: "result_ids (result_closers turn time seq calls) = om_keys calls"
  by (induction turn time seq calls rule: result_closers.induct)
    (auto simp: result_ids_def map_filter_simps om_keys_def result_closer_def)

lemma result_ids_boundary: "result_ids (boundary_closers turn time seq step) = []"
  by (auto simp: result_ids_def boundary_closers_def map_filter_simps split: option.split)

section \<open>The closers extend the surface\<close>

lemma apply_result_closer:
  assumes "q \<noteq> None \<Longrightarrow> 0 \<le> the q \<and> the q < seq \<and> safe_int (the q)"
  shows "apply_surface_event s (result_closer turn time seq (c, m, q)) seq events base =
    Inr (s\<lparr>fs_nodes := fs_nodes s @ [seq]\<rparr>, None)"
  using assms
  by (cases q) (auto simp: apply_surface_event_def plan_surface_event_def result_closer_def surface_op_of_def
      assert_provenance_def event_seq_value_JInt simp del: event_seq_value.simps)

lemma surface_result_closers:
  assumes "\<forall>(c, m, q) \<in> set calls. \<forall>k. q = Some k \<longrightarrow> 0 \<le> k \<and> k < seq \<and> safe_int k"
  shows "replay (surface_loop events base) (s, seq, rs) (result_closers turn time seq calls) =
    Inr (s\<lparr>fs_nodes := fs_nodes s @ map (\<lambda>k. seq + int k) [0..<length calls]\<rparr>, seq + int (length calls), rs)"
  using assms
proof (induction calls arbitrary: s seq)
  case (Cons call calls)
  obtain c m q where call: "call = (c, m, q)" by (cases call)
  have "apply_surface_event s (result_closer turn time seq call) seq events base =
      Inr (s\<lparr>fs_nodes := fs_nodes s @ [seq]\<rparr>, None)"
    unfolding call using Cons.prems call by (intro apply_result_closer) auto
  moreover have "map (\<lambda>k. seq + int k) [0..<length (call # calls)] =
      seq # map (\<lambda>k. (seq + 1) + int k) [0..<length calls]"
    by (simp add: upt_conv_Cons map_Suc_upt [symmetric] del: upt_Suc)
  moreover have "\<forall>(c, m, q) \<in> set calls. \<forall>k. q = Some k \<longrightarrow> 0 \<le> k \<and> k < seq + 1 \<and> safe_int k"
    using Cons.prems by fastforce
  ultimately show ?case
    using Cons.IH [of "seq + 1" "s\<lparr>fs_nodes := fs_nodes s @ [seq]\<rparr>"] by (simp add: algebra_simps)
qed simp

lemma surface_boundary_closers:
  "\<exists>i. replay (surface_loop events base) (s, seq, rs) (boundary_closers turn time seq step) = Inr (s, i, rs)"
  by (cases step) (auto simp: boundary_closers_def apply_surface_event_def plan_surface_event_def surface_op_of_def)

text \<open>A call seq that the scan recorded is the seq of an event of the log.\<close>

lemma scan_calls_seqs:
  "\<forall>(c, m, q) \<in> set (rs_calls (scan_log evs)). \<forall>k. q = Some k \<longrightarrow> k \<in> ev_seq ` set evs"
proof (induction evs rule: rev_induct)
  case Nil
  show ?case by (simp add: scan_log_def start_scan_def)
next
  case (snoc e evs)
  have wf: "om_wf (rs_calls (scan_log es))" for es :: "'p event list"
    using scan_calls_unanswered by blast
  have get: "om_get (rs_calls (scan_log (evs @ [e]))) c = Some (m, Some k) \<Longrightarrow>
      k = ev_seq e \<or> om_get (rs_calls (scan_log evs)) c = Some (m, Some k)" for c m k
    by (cases "ev_data e")
      (auto simp: scan_log_snoc scan_event_def register_blocks_get split: option.splits if_splits)
  show ?case
  proof clarify
    fix c m k
    assume "(c, m, Some k) \<in> set (rs_calls (scan_log (evs @ [e])))"
    then have "om_get (rs_calls (scan_log (evs @ [e]))) c = Some (m, Some k)"
      using om_set_in [OF wf] by blast
    from get [OF this] show "k \<in> ev_seq ` set (evs @ [e])"
    proof
      assume "om_get (rs_calls (scan_log evs)) c = Some (m, Some k)"
      then have "(c, m, Some k) \<in> set (rs_calls (scan_log evs))"
        using om_set_in [OF wf] by blast
      with snoc show ?thesis by fastforce
    qed simp
  qed
qed

lemma closers_on_surface:
  fixes evs :: "'p event list"
  assumes fold: "fold_surface evs = Inr (nodes, rs)" and len: "int (length evs) \<le> max_safe"
  shows "\<exists>new. fold_surface (evs @ interrupted_turn_closers evs) = Inr (nodes @ new, rs) \<and>
    length new = length (result_ids (interrupted_turn_closers evs))"
proof (cases "rs_turn (scan_log evs) = None \<or> evs = []")
  case True
  then have "interrupted_turn_closers evs = []"
    by (auto simp: interrupted_turn_closers_def Let_def split: option.splits)
  with fold show ?thesis by (simp add: result_ids_def map_filter_simps)
next
  case False
  then obtain n where n: "rs_turn (scan_log evs) = Some n" and ne: "evs \<noteq> []" by auto
  obtain s i where r: "window_fold 0 evs evs = Inr (s, i, rs)" and nodes: "nodes = fs_nodes s"
    using fold by (auto simp: fold_surface_Inr)
  from surface.run_hist [OF r] have h: "surface_history evs 0 evs (s, i, rs)" .
  then have i: "i = int (length evs)" and ms: "map ev_seq evs = map int [0..<length evs]" by simp_all
  have "ev_seq (last evs) = last (map ev_seq evs)" using ne by (simp add: last_map)
  then have last: "ev_seq (last evs) + 1 = i"
    unfolding ms using ne i by (cases evs) (simp_all add: last_map)
  define calls where "calls = rs_calls (scan_log evs)"
  let ?time = "ev_time (last evs)"
  let ?rc = "result_closers n ?time i calls :: 'p event list"
  let ?bc = "boundary_closers n ?time (i + int (length calls)) (rs_step (scan_log evs)) :: 'p event list"
  have closers: "interrupted_turn_closers evs = ?rc @ ?bc"
    using n ne last by (simp add: interrupted_turn_closers_def Let_def calls_def)
  have seqs: "\<forall>(c, m, q) \<in> set calls. \<forall>k. q = Some k \<longrightarrow> 0 \<le> k \<and> k < i \<and> safe_int k"
    using scan_calls_seqs [of evs] history_bounds [OF h] i len
    unfolding calls_def safe_int_def by fastforce
  let ?evs = "evs @ interrupted_turn_closers evs"
  let ?s = "s\<lparr>fs_nodes := fs_nodes s @ map (\<lambda>k. i + int k) [0..<length calls]\<rparr>"
  have "window_fold 0 ?evs evs = Inr (s, i, rs)"
    using window_fold_local [of evs "interrupted_turn_closers evs" 0 "[]"] r by simp
  moreover have "replay (surface_loop ?evs 0) (s, i, rs) ?rc = Inr (?s, i + int (length calls), rs)"
    by (rule surface_result_closers [OF seqs])
  moreover obtain j where "replay (surface_loop ?evs 0) (?s, i + int (length calls), rs) ?bc = Inr (?s, j, rs)"
    using surface_boundary_closers by blast
  ultimately have "window_fold 0 ?evs ?evs = Inr (?s, j, rs)"
    by (subst (2) closers) (simp add: replay_append)
  then have "fold_surface ?evs = Inr (nodes @ map (\<lambda>k. i + int k) [0..<length calls], rs)"
    by (simp add: fold_surface_def nodes)
  then show ?thesis
    by (auto simp: closers result_ids_append result_ids_closers result_ids_boundary om_keys_def)
qed

section \<open>Properties\<close>

text \<open>
  C3: Repair of any log the invariant accepts gives a log the invariant accepts, in which no turn is
  open.
\<close>

theorem repaired_log_is_accepted_and_closed:
  assumes "seed_session evs = Inr t"
  shows "\<exists>t'. seed_session (evs @ interrupted_turn_closers evs) = Inr t' \<and> tr_open_turn t' = None"
  using assms by (rule closers_accepted)

text \<open>The log of a process that died with the started call \<open>c\<close> and the unstarted call \<open>d\<close> in flight.\<close>

definition crashed_log :: "unit event list" where
  "crashed_log =
     [log_event 0 5 (TurnStart 1), log_event 1 5 (StepStart 1 1),
      (log_event 2 6 (AssistantMessage 1 1
         \<lparr>am_id = ''a'', am_content = [ToolCallBlock ''c'' ''read'' ''{}'', ToolCallBlock ''d'' ''read'' ''{}''],
          am_source = \<lparr>src_provider = ''p'', src_model = ''m'', src_replay = None\<rparr>\<rparr> None False))
        \<lparr>ev_surface_op := Some (JStr ''append'')\<rparr>,
      log_event 3 7 (ToolCall 1 1 ''c'' ''read'' ''{}'')]"

lemma crashed_log_seed:
  "seed_session crashed_log =
     Inr \<lparr>tr_last_seq = 3, tr_open_turn = Some 1, tr_open_step = Some 1, tr_next_turn = 1, tr_next_step = 1,
          tr_pending = {''c''}\<rparr>"
  by (simp add: crashed_log_def seed_session_def fresh_trace_def trace_step_def validate_event_def unchanged_def
      require_open_step_def apply_transition_def)

theorem repaired_log_is_accepted_and_closed_witness:
  "\<exists>t'. seed_session (crashed_log @ interrupted_turn_closers crashed_log) = Inr t' \<and> tr_open_turn t' = None"
  by (rule repaired_log_is_accepted_and_closed [OF crashed_log_seed])

text \<open>
  When a turn is open, the closers contain exactly one tool result for every tool call the log
  left unanswered, and none for any other call; repairing the repaired log adds nothing.
\<close>

theorem repair_answers_every_open_call:
  assumes "seed_session evs = Inr t" and "tr_open_turn t \<noteq> None"
  shows "distinct (result_ids (interrupted_turn_closers evs)) \<and>
    set (result_ids (interrupted_turn_closers evs)) = {c. unanswered evs c} \<and>
    interrupted_turn_closers (evs @ interrupted_turn_closers evs) = []"
proof -
  have r: "replay trace_step fresh_trace evs = Inr t" using assms by (simp add: seed_session_def)
  from scan.run_hist [OF r] assms(2) obtain n where turn: "rs_turn (scan_log evs) = Some n"
    by (auto simp: scan_history_def)
  then have ne: "evs \<noteq> []" by (auto simp: scan_log_def start_scan_def)
  let ?b = "boundary_closers n (ev_time (last evs)) (ev_seq (last evs) + 1 + int (length (rs_calls (scan_log evs))))
    (rs_step (scan_log evs))"
  have closers: "interrupted_turn_closers evs = result_closers n (ev_time (last evs)) (ev_seq (last evs) + 1)
      (rs_calls (scan_log evs)) @ ?b"
    using turn ne by (simp add: interrupted_turn_closers_def Let_def)
  have ids: "result_ids (interrupted_turn_closers evs) = om_keys (rs_calls (scan_log evs))"
    by (simp add: closers result_ids_append result_ids_closers result_ids_boundary)
  have "rs_turn (foldl scan_event s ?b) = None" for s
    by (auto simp: boundary_closers_def scan_event_def split: option.split)
  then have "rs_turn (scan_log (evs @ interrupted_turn_closers evs)) = None"
    by (simp add: closers scan_log_append)
  then show ?thesis
    using scan_calls_unanswered [of evs] unfolding ids om_wf_def
    by (auto simp: om_keys_get interrupted_turn_closers_def [of "evs @ _"])
qed

theorem repair_answers_every_open_call_witness:
  "set (result_ids (interrupted_turn_closers crashed_log)) = {c. unanswered crashed_log c}"
  using repair_answers_every_open_call [OF crashed_log_seed] by simp

text \<open>
  Repair keeps the surface: when the stored log folds, the repaired log folds, with the old nodes
  unchanged, no replacement added, and one appended node per synthetic result. The bound on the
  log's length is the range in which a seq is a safe integer.
\<close>

theorem repair_extends_the_surface:
  assumes "fold_surface evs = Inr (nodes, rs)" and "int (length evs) \<le> max_safe"
  shows "\<exists>new. fold_surface (evs @ interrupted_turn_closers evs) = Inr (nodes @ new, rs) \<and>
    length new = length (result_ids (interrupted_turn_closers evs))"
  using assms by (rule closers_on_surface)

lemma crashed_log_fold: "fold_surface crashed_log = Inr ([2], [])"
  by (simp add: crashed_log_def fold_surface_def apply_surface_event_def plan_surface_event_def
      surface_op_of_def assert_provenance_def create_fold_state_def)

theorem repair_extends_the_surface_witness:
  "\<exists>new. fold_surface (crashed_log @ interrupted_turn_closers crashed_log) = Inr ([2] @ new, []) \<and>
    length new = length (result_ids (interrupted_turn_closers crashed_log))"
  by (rule repair_extends_the_surface [OF crashed_log_fold]) (simp add: crashed_log_def max_safe_def)

end
