(* ===== verification/Session_Envelope.thy ===== *)
theory Session_Envelope
  imports Session_Types
begin

text \<open>
  The checks at the boundary where a session is built from stored or borrowed JSON
  (\<open>packages/core/session/src/index.ts\<close>): the session header, the envelope of a seed event, the
  shape of message events and the adapter-default markers of request headers. Values are JSON
  here; \<open>isAbsolute\<close> is the POSIX one of the standard library.
\<close>

section \<open>The session header\<close>

record session_header =
  sh_version :: int
  sh_id :: session_id
  sh_created_at :: int
  sh_cwd :: "string option"
  sh_parent :: "session_id option"
  sh_seed_length :: "int option"
  sh_subagent :: bool
  sh_delegation_depth :: "int option"
  sh_agent_preset :: "string option"

definition SESSION_FORMAT_VERSION :: int where
  "SESSION_FORMAT_VERSION = 0"

definition is_absolute :: "string \<Rightarrow> bool" where
  "is_absolute p \<longleftrightarrow> p \<noteq> [] \<and> hd p = CHR ''/''"

datatype header_error =
    HeaderNotRecord
  | HeaderVersion
  | HeaderId
  | HeaderCreatedAt
  | HeaderCwdType
  | HeaderCwdRelative
  | HeaderParent
  | HeaderSeedLength
  | HeaderOrigin
  | HeaderDelegationDepth
  | HeaderAgentPreset

text \<open>\<open>typeof v === 'number' && Number.isSafeInteger(v) && v >= 0\<close>\<close>

fun count_value :: "json \<Rightarrow> int option" where
  "count_value (JNum r) = (if safe_integer r \<and> 0 \<le> r then Some \<lfloor>r\<rfloor> else None)"
| "count_value _ = None"

fun string_value :: "json \<Rightarrow> string option" where
  "string_value (JStr s) = Some s"
| "string_value _ = None"

text \<open>An optional field: absent is fine, present must decode.\<close>

definition optional_field :: "json \<Rightarrow> string \<Rightarrow> (json \<Rightarrow> 'a option) \<Rightarrow> 'e \<Rightarrow> 'e + 'a option" where
  "optional_field v key decode err = (case jget v key of
      None \<Rightarrow> Inr None
    | Some w \<Rightarrow> (case decode w of None \<Rightarrow> Inl err | Some a \<Rightarrow> Inr (Some a)))"

definition validate_session_header :: "session_id \<Rightarrow> json \<Rightarrow> header_error + session_header" where
  "validate_session_header i v =
     (if \<not> is_object v then Inl HeaderNotRecord
      else if jget v ''version'' \<noteq> Some (JInt SESSION_FORMAT_VERSION) then Inl HeaderVersion
      else if jget v ''id'' \<noteq> Some (JStr i) then Inl HeaderId
      else case Option.bind (jget v ''createdAt'') count_value of
        None \<Rightarrow> Inl HeaderCreatedAt
      | Some created \<Rightarrow>
          rbind (optional_field v ''cwd'' string_value HeaderCwdType) (\<lambda>cwd.
          rbind (require (case cwd of None \<Rightarrow> True | Some p \<Rightarrow> is_absolute p) HeaderCwdRelative) (\<lambda>_.
          rbind (optional_field v ''parentSession'' string_value HeaderParent) (\<lambda>parent.
          rbind (optional_field v ''seedLength'' count_value HeaderSeedLength) (\<lambda>seed_length.
          rbind (optional_field v ''origin''
                   (\<lambda>w. if w = JStr ''subagent'' then Some () else None) HeaderOrigin) (\<lambda>origin.
          rbind (optional_field v ''delegationDepth'' count_value HeaderDelegationDepth) (\<lambda>depth.
          rbind (optional_field v ''agentPreset'' string_value HeaderAgentPreset) (\<lambda>preset.
            Inr \<lparr>sh_version = SESSION_FORMAT_VERSION, sh_id = i, sh_created_at = created, sh_cwd = cwd,
                 sh_parent = parent, sh_seed_length = seed_length, sh_subagent = (origin \<noteq> None),
                 sh_delegation_depth = depth, sh_agent_preset = preset\<rparr>))))))))"

text \<open>The metadata object that \<open>SessionStore.prepare\<close> builds, with absent fields left out.\<close>

definition opt_field :: "string \<Rightarrow> ('a \<Rightarrow> json) \<Rightarrow> 'a option \<Rightarrow> (string \<times> json) list" where
  "opt_field key encode a = (case a of None \<Rightarrow> [] | Some x \<Rightarrow> [(key, encode x)])"

definition header_json :: "session_header \<Rightarrow> json" where
  "header_json h = JObj
     ([(''version'', JInt (sh_version h)), (''id'', JStr (sh_id h)), (''createdAt'', JInt (sh_created_at h))] @
      opt_field ''cwd'' JStr (sh_cwd h) @ opt_field ''parentSession'' JStr (sh_parent h) @
      opt_field ''seedLength'' JInt (sh_seed_length h) @
      opt_field ''origin'' (\<lambda>_. JStr ''subagent'') (if sh_subagent h then Some () else None) @
      opt_field ''delegationDepth'' JInt (sh_delegation_depth h) @
      opt_field ''agentPreset'' JStr (sh_agent_preset h))"

section \<open>Seed events\<close>

datatype envelope_error =
    LegacyHeaderDelta
  | UnknownEnvelopeKey string
  | InvalidEnvelope
  | LacksProviderModel
  | InvalidReasoningEffort
  | InvalidAdapterDefaults
  | LacksMessage
  | WrongRole
  | InvalidSource
  | InvalidContent
  | NotModelSource
  | NotToolSource
  | NotOneResultBlock
  | MismatchedCallIds
  | LegacyFallbackReason

text \<open>\<open>typeof v === 'object' && v !== null\<close>: an object or an array.\<close>

fun is_js_object :: "json \<Rightarrow> bool" where
  "is_js_object (JObj _) = True"
| "is_js_object (JArr _) = True"
| "is_js_object _ = False"

definition nonempty_string :: "json option \<Rightarrow> bool" where
  "nonempty_string v = (case v of Some (JStr s) \<Rightarrow> s \<noteq> [] | _ \<Rightarrow> False)"

definition has_provider_model :: "json option \<Rightarrow> bool" where
  "has_provider_model v = (case v of
      None \<Rightarrow> False
    | Some w \<Rightarrow> is_js_object w \<and> nonempty_string (jget w ''provider'') \<and> nonempty_string (jget w ''model''))"

definition allowed_adapter_keys :: "string list" where
  "allowed_adapter_keys = [''reasoningEffort'', ''maxTokens'']"

fun assert_adapter_defaults :: "json option \<Rightarrow> json \<Rightarrow> envelope_error + unit" where
  "assert_adapter_defaults None config = Inr ()"
| "assert_adapter_defaults (Some (JObj kvs)) config =
     (if list_ex (\<lambda>(k, v). k \<notin> set allowed_adapter_keys) kvs
         \<or> list_ex (\<lambda>(k, v). v \<noteq> JBool True) kvs
         \<or> jget (JObj kvs) ''reasoningEffort'' = Some (JBool True) \<and> jget config ''reasoningEffort'' = None
         \<or> jget (JObj kvs) ''maxTokens'' = Some (JBool True) \<and> jget config ''maxTokens'' = None
      then Inl InvalidAdapterDefaults else Inr ())"
| "assert_adapter_defaults (Some _) config = Inl InvalidAdapterDefaults"

text \<open>\<open>record?.[key]\<close> of an event's data.\<close>

definition data_field :: "json \<Rightarrow> string \<Rightarrow> json option" where
  "data_field event key = Option.bind (jget event ''data'') (\<lambda>d. jget d key)"

definition message_types :: "string list" where
  "message_types = [''user/message'', ''assistant/message'', ''tool/result'']"

definition event_type :: "json \<Rightarrow> string" where
  "event_type event = (case jget event ''type'' of Some (JStr t) \<Rightarrow> t | _ \<Rightarrow> [])"

definition event_message :: "json \<Rightarrow> json option" where
  "event_message event =
     (if event_type event = ''user/message'' then jget event ''data'' else data_field event ''message'')"

definition assert_message_event_shape :: "json \<Rightarrow> envelope_error + unit" where
  "assert_message_event_shape event =
     (let t = event_type event in
      if t \<notin> set message_types then Inr ()
      else case event_message event of
        None \<Rightarrow> Inl LacksMessage
      | Some m \<Rightarrow>
          if \<not> is_js_object m \<or> \<not> nonempty_string (jget m ''id'') then Inl LacksMessage
          else if jget m ''role'' \<noteq> Some (JStr (if t = ''assistant/message'' then ''assistant'' else ''user''))
          then Inl WrongRole
          else case jget m ''source'' of
            None \<Rightarrow> Inl InvalidSource
          | Some src \<Rightarrow>
              if \<not> is_js_object src \<or> \<not> nonempty_string (jget src ''kind'') then Inl InvalidSource
              else case jget m ''content'' of
                Some (JArr content) \<Rightarrow>
                  if t = ''assistant/message'' then
                    if jget src ''kind'' \<noteq> Some (JStr ''model'') \<or> \<not> has_provider_model (Some src)
                    then Inl NotModelSource else Inr ()
                  else if t \<noteq> ''tool/result'' then Inr ()
                  else if jget src ''kind'' \<noteq> Some (JStr ''tool'') \<or> \<not> nonempty_string (jget src ''callId'')
                  then Inl NotToolSource
                  else (case content of
                      [block] \<Rightarrow>
                        if \<not> is_js_object block \<or> jget block ''type'' \<noteq> Some (JStr ''tool-result'')
                           \<or> (case jget block ''content'' of Some (JArr _) \<Rightarrow> False | _ \<Rightarrow> True)
                        then Inl NotOneResultBlock
                        else if jget block ''toolCallId'' \<noteq> jget src ''callId'' then Inl MismatchedCallIds
                        else Inr ()
                    | _ \<Rightarrow> Inl NotOneResultBlock)
              | _ \<Rightarrow> Inl InvalidContent)"

definition assert_current_llm_shape :: "json \<Rightarrow> envelope_error + unit" where
  "assert_current_llm_shape event =
     rbind
       (if event_type event = ''request/header'' then
          let header = (case data_field event ''header'' of Some (JObj h) \<Rightarrow> Some (JObj h) | _ \<Rightarrow> None);
              config = Option.bind header (\<lambda>h. jget h ''config'') in
          if \<not> has_provider_model config then Inl LacksProviderModel
          else if jget (the config) ''reasoningEffort'' \<noteq> None \<and> \<not> nonempty_string (jget (the config) ''reasoningEffort'')
          then Inl InvalidReasoningEffort
          else assert_adapter_defaults (Option.bind header (\<lambda>h. jget h ''adapterDefaults'')) (the config)
        else Inr ())
       (\<lambda>_. assert_message_event_shape event)"

definition envelope_keys :: "string list" where
  "envelope_keys = [''type'', ''seq'', ''time'', ''data'', ''surfaceOp'', ''sourceEventSeqs'', ''ignorable'']"

fun int_value :: "json \<Rightarrow> int option" where
  "int_value (JNum r) = (if safe_integer r then Some \<lfloor>r\<rfloor> else None)"
| "int_value _ = None"

definition assert_session_event_envelope :: "json \<Rightarrow> envelope_error + unit" where
  "assert_session_event_envelope event =
     (if jget event ''type'' = Some (JStr ''request/header-delta'') then Inl LegacyHeaderDelta
      else case find (\<lambda>k. k \<notin> set envelope_keys) (jkeys event) of
        Some k \<Rightarrow> Inl (UnknownEnvelopeKey k)
      | None \<Rightarrow>
          if Option.bind (jget event ''type'') string_value = None
             \<or> Option.bind (jget event ''seq'') count_value = None
             \<or> Option.bind (jget event ''time'') int_value = None
             \<or> jget event ''data'' = None
             \<or> jget event ''ignorable'' \<noteq> None \<and> jget event ''ignorable'' \<noteq> Some (JBool True)
          then Inl InvalidEnvelope
          else if event_type event \<in> {''request/header'', ''user/message'', ''assistant/message'', ''tool/result''}
          then assert_current_llm_shape event else Inr ())"

definition assert_supported_request_header :: "json \<Rightarrow> envelope_error + unit" where
  "assert_supported_request_header event =
     (if event_type event = ''request/header-delta'' then Inl LegacyHeaderDelta
      else if event_type event = ''request/header'' \<and>
              (case jget event ''data'' of Some (JObj d) \<Rightarrow> jget (JObj d) ''reason'' = Some (JStr ''fallback'') | _ \<Rightarrow> False)
      then Inl LegacyFallbackReason else Inr ())"

text \<open>One seed event of the constructor, up to its seq: what must hold before the surface sees it.\<close>

definition admit_seed_event :: "json \<Rightarrow> nat \<Rightarrow> envelope_error + bool" where
  "admit_seed_event event index =
     rbind (assert_session_event_envelope event) (\<lambda>_.
     rbind (assert_supported_request_header event) (\<lambda>_.
       Inr (jget event ''seq'' = Some (JInt (int index)))))"

section \<open>Facts\<close>

lemma count_value_Some: "count_value v = Some n \<longleftrightarrow> v = JInt n \<and> 0 \<le> n \<and> safe_int n"
  by (cases v) (auto simp: safe_integer_def)

definition header_ok :: "session_id \<Rightarrow> session_header \<Rightarrow> bool" where
  "header_ok i h \<longleftrightarrow>
     sh_version h = SESSION_FORMAT_VERSION \<and> sh_id h = i \<and>
     0 \<le> sh_created_at h \<and> safe_int (sh_created_at h) \<and>
     (\<forall>p. sh_cwd h = Some p \<longrightarrow> is_absolute p) \<and>
     (\<forall>n. sh_seed_length h = Some n \<longrightarrow> 0 \<le> n \<and> safe_int n) \<and>
     (\<forall>n. sh_delegation_depth h = Some n \<longrightarrow> 0 \<le> n \<and> safe_int n)"

lemma optional_count: "optional_field v key count_value err = Inr (Some n) \<Longrightarrow> 0 \<le> n \<and> safe_int n"
  by (auto simp: optional_field_def count_value_Some split: option.splits)

lemma validate_session_header_ok:
  assumes "validate_session_header i v = Inr h"
  shows "header_ok i h"
proof (cases "Option.bind (jget v ''createdAt'') count_value")
  case None
  with assms show ?thesis by (simp add: validate_session_header_def split: if_split_asm)
next
  case (Some created)
  then have "0 \<le> created \<and> safe_int created" by (auto simp: bind_eq_Some_conv count_value_Some)
  with assms Some show ?thesis
    by (auto elim!: rbindE simp: validate_session_header_def header_ok_def dest: optional_count
        split: if_split_asm option.split_asm)
qed

lemma opt_field_get: "map_of (opt_field key enc a) k = (if k = key then map_option enc a else None)"
  by (auto simp: opt_field_def split: option.splits)

lemma header_json_get:
  "jget (header_json h) ''version'' = Some (JInt (sh_version h))"
  "jget (header_json h) ''id'' = Some (JStr (sh_id h))"
  "jget (header_json h) ''createdAt'' = Some (JInt (sh_created_at h))"
  "jget (header_json h) ''cwd'' = map_option JStr (sh_cwd h)"
  "jget (header_json h) ''parentSession'' = map_option JStr (sh_parent h)"
  "jget (header_json h) ''seedLength'' = map_option JInt (sh_seed_length h)"
  "jget (header_json h) ''origin'' = (if sh_subagent h then Some (JStr ''subagent'') else None)"
  "jget (header_json h) ''delegationDepth'' = map_option JInt (sh_delegation_depth h)"
  "jget (header_json h) ''agentPreset'' = map_option JStr (sh_agent_preset h)"
  by (simp_all add: header_json_def opt_field_get map_add_def split: option.split)

lemma optional_field_encoded:
  assumes "jget v key = map_option enc a" and "\<And>x. a = Some x \<Longrightarrow> decode (enc x) = Some x"
  shows "optional_field v key decode err = Inr a"
  using assms by (cases a) (auto simp: optional_field_def)

lemma validate_header_json:
  assumes "header_ok i h"
  shows "validate_session_header i (header_json h) = Inr h"
proof -
  have "jget (header_json h) ''origin'' = map_option (\<lambda>_. JStr ''subagent'') (if sh_subagent h then Some () else None)"
    by (simp add: header_json_get)
  then have origin: "optional_field (header_json h) ''origin'' (\<lambda>w. if w = JStr ''subagent'' then Some () else None)
      HeaderOrigin = Inr (if sh_subagent h then Some () else None)"
    by (rule optional_field_encoded) simp
  have "is_object (header_json h)" by (simp add: header_json_def)
  moreover have "optional_field (header_json h) ''cwd'' string_value HeaderCwdType = Inr (sh_cwd h)"
    "optional_field (header_json h) ''parentSession'' string_value HeaderParent = Inr (sh_parent h)"
    "optional_field (header_json h) ''agentPreset'' string_value HeaderAgentPreset = Inr (sh_agent_preset h)"
    by (auto intro!: optional_field_encoded simp: header_json_get)
  moreover have "optional_field (header_json h) ''seedLength'' count_value HeaderSeedLength = Inr (sh_seed_length h)"
    "optional_field (header_json h) ''delegationDepth'' count_value HeaderDelegationDepth = Inr (sh_delegation_depth h)"
    using assms by (auto intro!: optional_field_encoded simp: header_json_get header_ok_def)
  moreover have "Option.bind (jget (header_json h) ''createdAt'') count_value = Some (sh_created_at h)"
    using assms by (simp add: header_json_get header_ok_def)
  ultimately show ?thesis
    using assms origin
    by (auto simp: validate_session_header_def header_json_get header_ok_def require_def split: option.splits)
qed

section \<open>Properties\<close>

text \<open>
  An accepted header has the current format version, the session's own id, counters that are
  non-negative safe integers and an absolute working directory; and the metadata object written
  from it validates back to the same header.
\<close>

theorem header_validates_and_round_trips:
  assumes "validate_session_header i v = Inr h"
  shows "header_ok i h \<and> validate_session_header i (header_json h) = Inr h"
  using validate_session_header_ok [OF assms] validate_header_json by blast

definition sample_header :: session_header where
  "sample_header = \<lparr>sh_version = 0, sh_id = ''s1'', sh_created_at = 5, sh_cwd = Some ''/w'', sh_parent = None,
     sh_seed_length = Some 2, sh_subagent = True, sh_delegation_depth = Some 1, sh_agent_preset = None\<rparr>"

lemma sample_header_validates: "validate_session_header ''s1'' (header_json sample_header) = Inr sample_header"
  by (rule validate_header_json)
    (simp add: header_ok_def sample_header_def SESSION_FORMAT_VERSION_def safe_int_def max_safe_def is_absolute_def)

theorem header_validates_and_round_trips_witness:
  "header_ok ''s1'' sample_header \<and> validate_session_header ''s1'' (header_json sample_header) = Inr sample_header"
  by (rule header_validates_and_round_trips [OF sample_header_validates])

text \<open>
  A stored tool-result event that the seed boundary admits carries an identified user-role message
  from a tool source with a nonempty call id, whose content is exactly one tool-result block for
  that same call id.
\<close>

theorem admitted_tool_result_is_correlated:
  assumes "admit_seed_event event index = Inr b" and "event_type event = ''tool/result''"
  shows "\<exists>m src block c cs. data_field event ''message'' = Some m \<and>
    jget m ''role'' = Some (JStr ''user'') \<and> nonempty_string (jget m ''id'') \<and>
    jget m ''source'' = Some src \<and> jget src ''kind'' = Some (JStr ''tool'') \<and>
    jget src ''callId'' = Some (JStr c) \<and> c \<noteq> [] \<and>
    jget m ''content'' = Some (JArr [block]) \<and> jget block ''type'' = Some (JStr ''tool-result'') \<and>
    jget block ''toolCallId'' = Some (JStr c) \<and> jget block ''content'' = Some (JArr cs)"
proof -
  from assms have "assert_message_event_shape event = Inr ()"
    by (auto simp: admit_seed_event_def assert_session_event_envelope_def assert_current_llm_shape_def
        rbind_Inr_iff split: if_splits option.splits)
  with assms(2) show ?thesis
    by (auto simp: assert_message_event_shape_def message_types_def event_message_def Let_def nonempty_string_def
        split: if_splits option.splits json.splits list.splits)
qed

definition sample_result_event :: json where
  "sample_result_event = JObj [(''type'', JStr ''tool/result''), (''seq'', JInt 3), (''time'', JInt 9),
     (''surfaceOp'', JStr ''append''),
     (''data'', JObj [(''turn'', JInt 1), (''step'', JInt 1), (''message'', JObj
        [(''id'', JStr ''m''), (''role'', JStr ''user''),
         (''source'', JObj [(''kind'', JStr ''tool''), (''callId'', JStr ''c'')]),
         (''content'', JArr [JObj [(''type'', JStr ''tool-result''), (''toolCallId'', JStr ''c''),
            (''content'', JArr [])]])])])]"

lemma sample_result_admitted:
  "admit_seed_event sample_result_event 3 = Inr True" "event_type sample_result_event = ''tool/result''"
  by code_simp+

theorem admitted_tool_result_is_correlated_witness:
  "\<exists>m. data_field sample_result_event ''message'' = Some m \<and> nonempty_string (jget m ''id'')"
  using admitted_tool_result_is_correlated [OF sample_result_admitted] by blast

end
