(* ===== verification/Session_Log.thy ===== *)
theory Session_Log
  imports Session_Repair Session_Envelope
begin

text \<open>
  One session object (\<open>class Session\<close> of \<open>packages/core/session/src/index.ts\<close>) and the request-header
  fold it caches (\<open>packages/core/session/src/request-header.ts\<close>): construction from a seed, append,
  the cached folds and the cached derivation of the model history, and the choice of a fork seed.
  The JSON envelope checks of the seed boundary are in theory \<open>Session_Envelope\<close>; here an event is
  already typed. \<open>Date.now()\<close> is the argument \<open>now\<close>.
\<close>

section \<open>Request headers\<close>

definition canonical_header :: "epoch_header \<Rightarrow> epoch_header" where
  "canonical_header h =
     \<lparr>hdr_config = hdr_config h,
      hdr_adapter_defaults =
        (case hdr_adapter_defaults h of
           Some d \<Rightarrow> if jget d ''reasoningEffort'' = Some (JBool True) \<or> jget d ''maxTokens'' = Some (JBool True)
                     then Some d else None
         | None \<Rightarrow> None),
      hdr_system = (case hdr_system h of Some s \<Rightarrow> if s \<noteq> [] then Some s else None | None \<Rightarrow> None),
      hdr_tools = (case hdr_tools h of Some ts \<Rightarrow> if ts \<noteq> [] then Some ts else None | None \<Rightarrow> None)\<rparr>"

definition header_step :: "epoch_header option \<Rightarrow> 'p event \<Rightarrow> epoch_header option" where
  "header_step s e = (case ev_data e of RequestHeader h _ \<Rightarrow> Some (canonical_header h) | _ \<Rightarrow> s)"

definition fold_request_header :: "'p event list \<Rightarrow> epoch_header option \<Rightarrow> epoch_header option" where
  "fold_request_header evs from_state = fold (\<lambda>e s. header_step s e) evs from_state"

definition context_step :: "request_context option \<Rightarrow> 'p event \<Rightarrow> request_context option" where
  "context_step s e = (case ev_data e of RequestContext c \<Rightarrow> Some c | _ \<Rightarrow> s)"

section \<open>The session object\<close>

record derived_cache =
  dc_messages :: "message list"
  dc_nodes :: nat
  dc_generation :: nat

record 'p session =
  ses_id :: session_id
  ses_header :: session_header
  ses_log :: "'p event list"
  ses_surface :: "'p surface_manager"
  ses_first_live :: nat
  ses_header_fold :: "epoch_header option \<times> nat"
  ses_context_fold :: "request_context option \<times> nat"
  ses_derived :: derived_cache

datatype session_error =
    SeedNotContiguous nat int
  | InvalidSeedEvent nat surface_error
  | SurfaceRejected surface_error
  | InvalidHeader header_error

definition empty_session :: "session_id \<Rightarrow> session_header \<Rightarrow> 'p session" where
  "empty_session i h =
     \<lparr>ses_id = i, ses_header = h, ses_log = [], ses_surface = new_surface_manager 0, ses_first_live = 0,
      ses_header_fold = (None, 0), ses_context_fold = (None, 0),
      ses_derived = \<lparr>dc_messages = [], dc_nodes = 0, dc_generation = 0\<rparr>\<rparr>"

text \<open>The surface metadata of an append; the compiler forbids it for log-only event types.\<close>

record surface_intent =
  si_op :: "json option"
  si_sources :: "json option"

abbreviation no_intent :: surface_intent where
  "no_intent \<equiv> \<lparr>si_op = None, si_sources = None\<rparr>"

text \<open>
  The part of \<open>append\<close> before publication: build the event and validate it. A rejected candidate
  leaves the log alone (the manager may have caught up with the log).
\<close>

definition append_candidate :: "int \<Rightarrow> 'p event_data \<Rightarrow> surface_intent \<Rightarrow> 'p session \<Rightarrow> 'p event" where
  "append_candidate now d intent s =
     \<lparr>ev_seq = int (length (ses_log s)), ev_time = now, ev_data = d, ev_ignorable = False,
      ev_surface_op = si_op intent, ev_sources = si_sources intent\<rparr>"

definition append_validate :: "'p event \<Rightarrow> 'p session \<Rightarrow> 'p session \<times> surface_error option" where
  "append_validate e s =
     (case validate_next (ses_log s) (ses_surface s) e of (m, r) \<Rightarrow> (s\<lparr>ses_surface := m\<rparr>, r))"

definition push_event :: "'p event \<Rightarrow> 'p session \<Rightarrow> 'p session" where
  "push_event e s = s\<lparr>ses_log := ses_log s @ [e]\<rparr>"

definition session_append ::
    "int \<Rightarrow> 'p event_data \<Rightarrow> surface_intent \<Rightarrow> 'p session \<Rightarrow> 'p session \<times> (session_error + 'p event)" where
  "session_append now d intent s =
     (let e = append_candidate now d intent s in
      case append_validate e s of
        (s', Some err) \<Rightarrow> (s', Inl (SurfaceRejected err))
      | (s', None) \<Rightarrow> (push_event e s', Inr e))"

text \<open>The seed loop of the constructor.\<close>

fun load_seed :: "nat \<Rightarrow> 'p event list \<Rightarrow> 'p session \<Rightarrow> session_error + 'p session" where
  "load_seed index [] s = Inr s"
| "load_seed index (e # es) s =
     (if ev_seq e \<noteq> int index then Inl (SeedNotContiguous index (ev_seq e))
      else case append_validate e s of
          (_, Some err) \<Rightarrow> Inl (InvalidSeedEvent index err)
        | (s', None) \<Rightarrow> load_seed (index + 1) es (push_event e s'))"

text \<open>
  \<open>snapshotSessionHeader\<close>: without a header a minimal one is stamped with the current time. The
  header is validated after the seed in snapshot mode and before it in restore mode, so the mode
  only decides which of two errors is thrown. The marker is appended last, by the ordinary append.
\<close>

definition snapshot_session_header :: "int \<Rightarrow> session_id \<Rightarrow> json option \<Rightarrow> header_error + session_header" where
  "snapshot_session_header now i source = validate_session_header i (case source of
      Some v \<Rightarrow> v
    | None \<Rightarrow> JObj [(''version'', JInt SESSION_FORMAT_VERSION), (''id'', JStr i), (''createdAt'', JInt now)])"

definition lift_header :: "header_error + 'a \<Rightarrow> session_error + 'a" where
  "lift_header r = (case r of Inl err \<Rightarrow> Inl (InvalidHeader err) | Inr a \<Rightarrow> Inr a)"

definition finish_session :: "int \<Rightarrow> bool \<Rightarrow> session_header \<Rightarrow> 'p session \<Rightarrow> session_error + 'p session" where
  "finish_session now seeded h s =
     (let s1 = s\<lparr>ses_first_live := length (ses_log s), ses_header := h\<rparr> in
      if seeded \<and> (ses_log s1 = [] \<or> ev_data (last (ses_log s1)) \<noteq> EndSeed)
      then (case session_append now EndSeed no_intent s1 of (s2, Inl err) \<Rightarrow> Inl err | (s2, Inr _) \<Rightarrow> Inr s2)
      else Inr s1)"

definition blank_header :: "session_id \<Rightarrow> session_header" where
  "blank_header i = \<lparr>sh_version = SESSION_FORMAT_VERSION, sh_id = i, sh_created_at = 0, sh_cwd = None,
     sh_parent = None, sh_seed_length = None, sh_subagent = False, sh_delegation_depth = None,
     sh_agent_preset = None\<rparr>"

definition new_session ::
    "bool \<Rightarrow> int \<Rightarrow> session_id \<Rightarrow> 'p event list option \<Rightarrow> json option \<Rightarrow> session_error + 'p session" where
  "new_session restore now i seed header =
     (let start = empty_session i (blank_header i);
          load = (case seed of None \<Rightarrow> Inr start | Some es \<Rightarrow> load_seed 0 es start) in
      if restore then
        rbind (lift_header (validate_session_header i (case header of Some v \<Rightarrow> v | None \<Rightarrow> JNull))) (\<lambda>h.
        rbind load (\<lambda>s. finish_session now (seed \<noteq> None) h s))
      else
        rbind load (\<lambda>s.
        rbind (lift_header (snapshot_session_header now i header)) (\<lambda>h.
          finish_session now (seed \<noteq> None) h s)))"

definition sync_header :: "epoch_header option \<times> nat \<Rightarrow> 'p event list \<Rightarrow> epoch_header option \<times> nat" where
  "sync_header c evs = (case c of (h, n) \<Rightarrow>
     if n < length evs then (fold_request_header (drop n evs) h, length evs) else (h, n))"

definition request_header :: "'p session \<Rightarrow> 'p session \<times> epoch_header option" where
  "request_header s =
     (let c = sync_header (ses_header_fold s) (ses_log s) in (s\<lparr>ses_header_fold := c\<rparr>, fst c))"

definition sync_context :: "request_context option \<times> nat \<Rightarrow> 'p event list \<Rightarrow> request_context option \<times> nat" where
  "sync_context c evs = (case c of (r, n) \<Rightarrow>
     if n < length evs then (fold (\<lambda>e a. context_step a e) (drop n evs) r, length evs) else (r, n))"

definition request_context_of :: "'p session \<Rightarrow> 'p session \<times> request_context option" where
  "request_context_of s =
     (let c = sync_context (ses_context_fold s) (ses_log s) in (s\<lparr>ses_context_fold := c\<rparr>, fst c))"

text \<open>
  \<open>deriveMessages\<close>. The two surface getters run first and throw what the fold throws; a node is a
  valid index of the log.
\<close>

definition project_nodes :: "'p event list \<Rightarrow> int list \<Rightarrow> message list" where
  "project_nodes evs nodes = List.map_filter (\<lambda>q. derive_event_message (evs ! nat q)) nodes"

definition derive_messages :: "'p session \<Rightarrow> 'p session \<times> (surface_error + message list)" where
  "derive_messages s = (case manager_nodes (ses_log s) (ses_surface s) of
      (m, Inl err) \<Rightarrow> (s\<lparr>ses_surface := m\<rparr>, Inl err)
    | (m, Inr nodes) \<Rightarrow>
        (case manager_generation (ses_log s) m of
           (m', Inl err) \<Rightarrow> (s\<lparr>ses_surface := m'\<rparr>, Inl err)
         | (m', Inr gen) \<Rightarrow>
             let c = ses_derived s;
                 c1 = (if gen \<noteq> dc_generation c then \<lparr>dc_messages = [], dc_nodes = 0, dc_generation = gen\<rparr> else c);
                 msgs = dc_messages c1 @ project_nodes (ses_log s) (drop (dc_nodes c1) nodes)
             in (s\<lparr>ses_surface := m',
                   ses_derived := c1\<lparr>dc_messages := msgs, dc_nodes := length nodes\<rparr>\<rparr>, Inr msgs)))"

section \<open>Fork seeds\<close>

datatype fork_error = InvalidBoundary int | OpenTurn int | SessionNotFound session_id | SessionNotLive session_id
  | SessionAlreadyExists session_id

fun is_turn_boundary :: "'p event_data \<Rightarrow> bool" where
  "is_turn_boundary (TurnStart _) = True"
| "is_turn_boundary (TurnEnd _ _) = True"
| "is_turn_boundary _ = False"

definition fork_seed :: "'p event list \<Rightarrow> int option \<Rightarrow> fork_error + 'p event list" where
  "fork_seed evs requested =
     (if requested = None \<and> evs = [] then Inr []
      else
        let boundary = (case requested of Some b \<Rightarrow> b | None \<Rightarrow> ev_seq (last evs)) in
        if \<not> safe_int boundary \<or> boundary < 0 then Inl (InvalidBoundary boundary)
        else if boundary \<ge> int (length evs) then Inl (InvalidBoundary boundary)
        else if ev_seq (evs ! nat boundary) \<noteq> boundary then Inl (InvalidBoundary boundary)
        else
          let prefix = take (nat boundary + 1) evs;
              marks = filter (\<lambda>e. is_turn_boundary (ev_data e)) prefix in
          case (if marks = [] then None else Some (ev_data (last marks))) of
            Some (TurnStart turn) \<Rightarrow> Inl (OpenTurn turn)
          | _ \<Rightarrow> Inr prefix)"

section \<open>The cached folds\<close>

interpretation header_cache: cached_fold header_step None sync_header
  by unfold_locales (auto simp: sync_header_def fold_request_header_def)

interpretation context_cache: cached_fold context_step None sync_context
  by unfold_locales (auto simp: sync_context_def)

section \<open>The derived history\<close>

lemma surface_growth:
  assumes "replay (surface_loop evs base) (s, i, rs) es = Inr (t, j, rs')"
  shows "fs_generation s \<le> fs_generation t \<and>
    (fs_generation s = fs_generation t \<longrightarrow> (\<exists>new. fs_nodes t = fs_nodes s @ new))"
  using assms
proof (induction es arbitrary: s i rs)
  case (Cons e es)
  then obtain s' r where app: "apply_surface_event s e i evs base = Inr (s', r)"
    and rest: "replay (surface_loop evs base) (s', i + 1, rs @ (case r of None \<Rightarrow> [] | Some r \<Rightarrow> [r])) es = Inr (t, j, rs')"
    by (auto simp: rbind_Inr_iff)
  from app have "s' = s \<or> s' = s\<lparr>fs_nodes := fs_nodes s @ [i]\<rparr> \<or> fs_generation s' = fs_generation s + 1"
    by (cases rule: apply_surface_event_cases) auto
  with Cons.IH [OF rest] show ?case by auto
qed simp

lemma project_nodes_append: "project_nodes evs (xs @ ys) = project_nodes evs xs @ project_nodes evs ys"
  by (simp add: project_nodes_def List.map_filter_def)

lemma project_nodes_grow:
  "\<forall>q \<in> set nodes. 0 \<le> q \<and> q < int (length evs) \<Longrightarrow> project_nodes (evs @ later) nodes = project_nodes evs nodes"
  by (induction nodes)
    (auto simp: project_nodes_def map_filter_simps nth_append nat_less_iff split: option.split)

text \<open>The cache holds the projection of the surface after some prefix of the log.\<close>

definition derived_ok :: "'p event list \<Rightarrow> derived_cache \<Rightarrow> bool" where
  "derived_ok evs c \<longleftrightarrow>
     (\<exists>k s rs. k \<le> length evs \<and> window_fold 0 evs (take k evs) = Inr (s, int k, rs) \<and>
        dc_generation c = fs_generation s \<and> dc_nodes c = length (fs_nodes s) \<and>
        dc_messages c = project_nodes evs (fs_nodes s))"

lemma derived_ok_start: "derived_ok evs \<lparr>dc_messages = [], dc_nodes = 0, dc_generation = 0\<rparr>"
  unfolding derived_ok_def
  by (intro exI [of _ 0]) (auto simp: create_fold_state_def project_nodes_def map_filter_simps)

lemma derived_ok_grow:
  assumes "derived_ok evs c"
  shows "derived_ok (evs @ later) c"
proof -
  from assms obtain k s rs where k: "k \<le> length evs"
    and f: "window_fold 0 evs (take k evs) = Inr (s, int k, rs)"
    and c: "dc_generation c = fs_generation s" "dc_nodes c = length (fs_nodes s)"
      "dc_messages c = project_nodes evs (fs_nodes s)"
    by (auto simp: derived_ok_def)
  from surface.run_hist [OF f] have h: "surface_history evs 0 (take k evs) (s, int k, rs)" .
  have "\<forall>q \<in> set (fs_nodes s). 0 \<le> q \<and> q < int (length evs)"
    using history_node_bounds [OF h] k by force
  then have "project_nodes (evs @ later) (fs_nodes s) = project_nodes evs (fs_nodes s)"
    by (rule project_nodes_grow)
  moreover have "window_fold 0 (evs @ later) (take k (evs @ later)) = Inr (s, int k, rs)"
    using window_fold_take [OF k, of later 0] f k by simp
  ultimately show ?thesis
    unfolding derived_ok_def using k c by (intro exI [of _ k] exI [of _ s] exI [of _ rs]) auto
qed

lemma derive_messages_correct:
  assumes reach: "manager_reach 0 (ses_log s) (ses_surface s)" and cache: "derived_ok (ses_log s) (ses_derived s)"
    and fold: "fold_surface (ses_log s) = Inr (nodes, rs)"
    and d: "derive_messages s = (s', r)"
  shows "r = Inr (project_nodes (ses_log s) nodes) \<and> ses_log s' = ses_log s \<and>
    manager_reach 0 (ses_log s') (ses_surface s') \<and> derived_ok (ses_log s') (ses_derived s')"
proof -
  let ?evs = "ses_log s"
  obtain m where m: "manager_nodes ?evs (ses_surface s) = (m, Inr nodes)"
    using manager_views(1) [OF reach] fold by (cases "manager_nodes ?evs (ses_surface s)") (auto simp: fold_surface_def rbind_Inr_iff)
  have reach1: "manager_reach 0 ?evs m" using reach_nodes [OF reach] m by simp
  from fold obtain t i where t: "window_fold 0 ?evs ?evs = Inr (t, i, rs)" "nodes = fs_nodes t"
    by (auto simp: fold_surface_Inr)
  obtain m' where m': "manager_generation ?evs m = (m', Inr (fs_generation t))"
    using manager_views(2) [OF reach1] t by (cases "manager_generation ?evs m") auto
  have reach2: "manager_reach 0 ?evs m'" using reach_generation [OF reach1] m' by simp
  from surface.run_hist [OF t(1)] have i: "i = int (length ?evs)" by simp
  define c1 where "c1 = (if fs_generation t \<noteq> dc_generation (ses_derived s)
    then \<lparr>dc_messages = [], dc_nodes = 0, dc_generation = fs_generation t\<rparr> else ses_derived s)"
  from cache obtain k u us where k: "k \<le> length ?evs"
    and f: "window_fold 0 ?evs (take k ?evs) = Inr (u, int k, us)"
    and c: "dc_generation (ses_derived s) = fs_generation u" "dc_nodes (ses_derived s) = length (fs_nodes u)"
      "dc_messages (ses_derived s) = project_nodes ?evs (fs_nodes u)"
    by (auto simp: derived_ok_def)
  have "replay (surface_loop ?evs 0) (u, int k, us) (drop k ?evs) = Inr (t, i, rs)"
    using t(1) f replay_append [of "surface_loop ?evs 0" _ "take k ?evs" "drop k ?evs"] by simp
  from surface_growth [OF this]
  have grow: "fs_generation u = fs_generation t \<Longrightarrow> \<exists>new. fs_nodes t = fs_nodes u @ new" by simp
  have msgs: "dc_messages c1 @ project_nodes ?evs (drop (dc_nodes c1) nodes) = project_nodes ?evs nodes"
  proof (cases "fs_generation t = fs_generation u")
    case True
    with grow obtain new where "nodes = fs_nodes u @ new" using t(2) by auto
    with True c show ?thesis by (simp add: c1_def project_nodes_append)
  qed (simp add: c1_def c)
  have gen: "dc_generation c1 = fs_generation t" by (simp add: c1_def)
  from d m m' msgs have r: "r = Inr (project_nodes ?evs nodes)"
    and s': "s' = s\<lparr>ses_surface := m', ses_derived := c1\<lparr>dc_messages := project_nodes ?evs nodes, dc_nodes := length nodes\<rparr>\<rparr>"
    by (auto simp: derive_messages_def Let_def c1_def)
  have "derived_ok ?evs (c1\<lparr>dc_messages := project_nodes ?evs nodes, dc_nodes := length nodes\<rparr>)"
    unfolding derived_ok_def using t gen i
    by (intro exI [of _ "length ?evs"] exI [of _ t] exI [of _ rs]) simp
  with r s' reach2 show ?thesis by simp
qed

section \<open>Reachable sessions\<close>

lemma manager_admits:
  assumes "manager_reach 0 evs m"
  shows "snd (validate_next evs m e) = None \<longleftrightarrow> ok (fold_surface (evs @ [e]))"
proof -
  obtain k where k: "manager_ok evs k m" "sm_base m = 0" using manager_reach_ok [OF assms] by auto
  show ?thesis
    using validate_next_cases [OF k(1), of e] k(2)
    by (cases "window_fold 0 (evs @ [e]) (evs @ [e])") (auto simp: fold_surface_def)
qed

definition session_ok :: "'p session \<Rightarrow> bool" where
  "session_ok s \<longleftrightarrow>
     manager_reach 0 (ses_log s) (ses_surface s) \<and> ok (fold_surface (ses_log s)) \<and>
     header_cache.current (ses_header_fold s) (ses_log s) \<and>
     context_cache.current (ses_context_fold s) (ses_log s) \<and>
     derived_ok (ses_log s) (ses_derived s) \<and> ses_first_live s \<le> length (ses_log s)"

lemma empty_session_ok: "session_ok (empty_session i h)"
  by (simp add: session_ok_def empty_session_def reach_new header_cache.current_start context_cache.current_start
      derived_ok_start fold_surface_def)

lemma append_validate_ok:
  assumes "session_ok s" and "append_validate e s = (s', r)"
  shows "session_ok s' \<and> ses_log s' = ses_log s \<and> (r = None \<longrightarrow> session_ok (push_event e s'))"
proof -
  have reach: "manager_reach 0 (ses_log s) (ses_surface s)" using assms(1) by (simp add: session_ok_def)
  obtain m where m: "validate_next (ses_log s) (ses_surface s) e = (m, r)" and s': "s' = s\<lparr>ses_surface := m\<rparr>"
    using assms(2) by (auto simp: append_validate_def split: prod.splits)
  have reach1: "manager_reach 0 (ses_log s) m" using reach_validate [OF reach, of e] m by simp
  have "r = None \<Longrightarrow> ok (fold_surface (ses_log s @ [e]))" using manager_admits [OF reach, of e] m by simp
  with assms(1) reach1 s' show ?thesis
    by (auto simp: session_ok_def push_event_def intro: reach_append header_cache.current_append
        context_cache.current_append derived_ok_grow)
qed

lemma session_append_ok:
  assumes "session_ok s" and "session_append now d intent s = (s', r)"
  shows "session_ok s'"
  using assms append_validate_ok [OF assms(1), of "append_candidate now d intent s"]
  by (auto simp: session_append_def Let_def split: prod.splits option.splits)

lemma load_seed_ok: "session_ok s \<Longrightarrow> load_seed n es s = Inr s' \<Longrightarrow> session_ok s'"
proof (induction n es s rule: load_seed.induct)
  case (2 index e es s)
  then obtain s1 where "append_validate e s = (s1, None)" "load_seed (index + 1) es (push_event e s1) = Inr s'"
    by (auto split: if_splits prod.splits option.splits)
  moreover from this(1) have "session_ok (push_event e s1)"
    using append_validate_ok "2.prems"(1) by blast
  ultimately show ?case using 2 by (auto split: if_splits)
qed simp

lemma session_ok_frame: "session_ok s \<Longrightarrow> n \<le> length (ses_log s) \<Longrightarrow> session_ok (s\<lparr>ses_first_live := n, ses_header := h\<rparr>)"
  by (simp add: session_ok_def)

lemma finish_session_ok: "session_ok s \<Longrightarrow> finish_session now seeded h s = Inr s' \<Longrightarrow> session_ok s'"
  using session_ok_frame [of s "length (ses_log s)" h]
  by (auto simp: finish_session_def Let_def split: if_splits prod.splits sum.splits dest: session_append_ok)

lemma new_session_ok:
  assumes "new_session restore now i seed header = Inr s"
  shows "session_ok s"
proof -
  have load: "session_ok x" if "(case seed of None \<Rightarrow> Inr (empty_session i (blank_header i))
      | Some es \<Rightarrow> load_seed 0 es (empty_session i (blank_header i))) = Inr x" for x :: "'a session"
    using that load_seed_ok [OF empty_session_ok] empty_session_ok by (auto split: option.splits)
  from assms obtain h x where "(case seed of None \<Rightarrow> Inr (empty_session i (blank_header i))
      | Some es \<Rightarrow> load_seed 0 es (empty_session i (blank_header i))) = Inr x"
    and "finish_session now (seed \<noteq> None) h x = Inr s"
    unfolding new_session_def Let_def by (auto elim!: rbindE split: if_split_asm)
  with load finish_session_ok show ?thesis by blast
qed

lemma request_header_ok: "session_ok s \<Longrightarrow> session_ok (fst (request_header s))"
  by (simp add: session_ok_def request_header_def Let_def header_cache.sync_is_current)

lemma request_context_ok: "session_ok s \<Longrightarrow> session_ok (fst (request_context_of s))"
  by (simp add: session_ok_def request_context_of_def Let_def context_cache.sync_is_current)

lemma derive_messages_ok:
  assumes "session_ok s" and "derive_messages s = (s', r)"
  shows "session_ok s'"
proof -
  obtain nodes rs where fold: "fold_surface (ses_log s) = Inr (nodes, rs)"
    using assms(1) by (auto simp: session_ok_def ok_iff)
  from assms(1) derive_messages_correct [OF _ _ fold assms(2)] assms(2) show ?thesis
    by (auto simp: session_ok_def derive_messages_def Let_def split: prod.splits sum.splits)
qed

text \<open>A session object as its users can obtain it.\<close>

inductive session_reach :: "'p session \<Rightarrow> bool" where
  reach_create: "new_session restore now i seed header = Inr s \<Longrightarrow> session_reach s"
| reach_log: "session_reach s \<Longrightarrow> session_append now d intent s = (s', r) \<Longrightarrow> session_reach s'"
| reach_header: "session_reach s \<Longrightarrow> session_reach (fst (request_header s))"
| reach_context: "session_reach s \<Longrightarrow> session_reach (fst (request_context_of s))"
| reach_derive: "session_reach s \<Longrightarrow> derive_messages s = (s', r) \<Longrightarrow> session_reach s'"

lemma session_reach_ok: "session_reach s \<Longrightarrow> session_ok s"
proof (induction rule: session_reach.induct)
  case (reach_create restore now i seed header s)
  then show ?case by (rule new_session_ok)
next
  case (reach_log s now d intent s' r)
  then show ?case using session_append_ok by blast
next
  case (reach_derive s s' r)
  then show ?case using derive_messages_ok by blast
qed (simp_all add: request_header_ok request_context_ok)

section \<open>Loading an accepted log\<close>

lemma fold_surface_prefix: "ok (fold_surface (xs @ ys)) \<Longrightarrow> ok (fold_surface xs)"
proof -
  assume "ok (fold_surface (xs @ ys))"
  then obtain acc where "window_fold 0 (xs @ ys) (xs @ ys) = Inr acc"
    by (auto simp: ok_iff fold_surface_def rbind_Inr_iff)
  then obtain m where "window_fold 0 (xs @ ys) xs = Inr m" by (auto simp: replay_append_Inr)
  then have "window_fold 0 xs xs = Inr m" using window_fold_local [of xs ys 0 "[]"] by simp
  then show ?thesis by (cases m) (simp add: fold_surface_def)
qed

lemma fold_surface_contiguous: "ok (fold_surface evs) \<Longrightarrow> contiguous evs"
  by (auto simp: ok_iff contiguous_def elim!: fold_surface_history)

lemma append_validate_accepts:
  assumes "session_ok s" and "ok (fold_surface (ses_log s @ [e]))"
  obtains s' where "append_validate e s = (s', None)" and "session_ok (push_event e s')"
    and "ses_log s' = ses_log s"
proof -
  obtain s' r where v: "append_validate e s = (s', r)" by (cases "append_validate e s")
  have "r = None"
    using manager_admits [of "ses_log s" "ses_surface s" e] assms v
    by (auto simp: session_ok_def append_validate_def split: prod.splits)
  with v append_validate_ok [OF assms(1) v] that show thesis by auto
qed

lemma load_seed_accepts:
  assumes "session_ok s" and "ok (fold_surface (ses_log s @ es))" and "n = length (ses_log s)"
  shows "\<exists>s'. load_seed n es s = Inr s' \<and> ses_log s' = ses_log s @ es"
  using assms
proof (induction es arbitrary: n s)
  case (Cons e es)
  have "contiguous (ses_log s @ [e])"
    using Cons.prems(2) fold_surface_prefix [of "ses_log s @ [e]" es] by (intro fold_surface_contiguous) simp
  then have seq: "ev_seq e = int n" using Cons.prems(3) by (simp add: contiguous_snoc)
  obtain s1 where v: "append_validate e s = (s1, None)" "session_ok (push_event e s1)" "ses_log s1 = ses_log s"
    using append_validate_accepts [OF Cons.prems(1)] Cons.prems(2) fold_surface_prefix [of "ses_log s @ [e]" es]
    by auto
  from Cons.IH [OF v(2)] Cons.prems(2,3) v(3) have "\<exists>s'. load_seed (n + 1) es (push_event e s1) = Inr s' \<and>
      ses_log s' = ses_log s @ e # es"
    by (simp add: push_event_def)
  with seq v(1) show ?case by simp
qed simp

lemma fold_surface_log_only:
  assumes "ok (fold_surface evs)" and "\<not> is_surface_eligible_type d"
  shows "ok (fold_surface (evs @ [log_event (int (length evs)) now d]))"
proof -
  let ?e = "log_event (int (length evs)) now d"
  from assms(1) obtain s i rs where f: "window_fold 0 evs evs = Inr (s, i, rs)"
    by (auto simp: ok_iff fold_surface_def rbind_Inr_iff)
  from surface.run_hist [OF f] have "i = int (length evs)" by simp
  then have "window_fold 0 (evs @ [?e]) (evs @ [?e]) = Inr (s, i + 1, rs)"
    using window_fold_local [of evs "[?e]" 0 "[]"] f assms(2)
    by (simp add: replay_snoc apply_surface_event_def plan_surface_event_def surface_op_of_def)
  then show ?thesis by (simp add: fold_surface_def)
qed

text \<open>A log-only event is always accepted.\<close>

lemma append_log_only:
  assumes "session_ok s" and "\<not> is_surface_eligible_type d"
  obtains s' where "session_append now d no_intent s = (s', Inr (log_event (int (length (ses_log s))) now d))"
    and "session_ok s'" and "ses_log s' = ses_log s @ [log_event (int (length (ses_log s))) now d]"
    and "ses_header s' = ses_header s" and "ses_id s' = ses_id s"
proof -
  let ?e = "log_event (int (length (ses_log s))) now d"
  have "ok (fold_surface (ses_log s @ [?e]))"
    using assms fold_surface_log_only by (auto simp: session_ok_def)
  then obtain s1 where v: "append_validate ?e s = (s1, None)" "session_ok (push_event ?e s1)" "ses_log s1 = ses_log s"
    using append_validate_accepts [OF assms(1)] by blast
  have frame: "ses_header s1 = ses_header s" "ses_id s1 = ses_id s"
    using v(1) by (auto simp: append_validate_def split: prod.splits)
  have "session_append now d no_intent s = (push_event ?e s1, Inr ?e)"
    using v(1) by (simp add: session_append_def append_candidate_def Let_def)
  with v frame that show thesis by (simp add: push_event_def)
qed

lemma session_append_frame:
  assumes "session_append now d intent s = (s', r)"
  shows "ses_header s' = ses_header s"
    and "ses_log s' = ses_log s \<or> (\<exists>e. ev_data e = d \<and> ses_log s' = ses_log s @ [e])"
  using assms by (auto simp: session_append_def append_validate_def Let_def push_event_def append_candidate_def
      split: prod.splits option.splits)

lemma new_session_accepts:
  assumes fold: "ok (fold_surface seed)" and header: "validate_session_header i v = Inr h"
  shows "\<exists>s. new_session False now i (Some seed) (Some v) = Inr s \<and>
    ses_log s = (if seed \<noteq> [] \<and> ev_data (last seed) = EndSeed then seed
                 else seed @ [log_event (int (length seed)) now EndSeed])"
proof -
  have "ok (fold_surface (ses_log (empty_session i (blank_header i)) @ seed))"
    using fold by (simp add: empty_session_def)
  from load_seed_accepts [OF empty_session_ok this] obtain s1 where
    s1: "load_seed 0 seed (empty_session i (blank_header i)) = Inr s1" "ses_log s1 = seed"
    by (auto simp: empty_session_def)
  have ok1: "session_ok s1" using load_seed_ok [OF empty_session_ok s1(1)] .
  let ?s = "s1\<lparr>ses_first_live := length seed, ses_header := h\<rparr>"
  have ok2: "session_ok ?s" using session_ok_frame [OF ok1] s1(2) by simp
  have new: "new_session False now i (Some seed) (Some v) = finish_session now True h s1"
    using s1 header by (simp add: new_session_def lift_header_def snapshot_session_header_def)
  show ?thesis
  proof (cases "seed \<noteq> [] \<and> ev_data (last seed) = EndSeed")
    case True
    with new s1(2) show ?thesis by (simp add: finish_session_def)
  next
    case False
    have cand: "append_candidate now EndSeed no_intent ?s = log_event (int (length seed)) now EndSeed"
      using s1(2) by (simp add: append_candidate_def)
    obtain s2 where "append_validate (log_event (int (length seed)) now EndSeed) ?s = (s2, None)"
      "ses_log s2 = ses_log ?s"
      using append_validate_accepts [OF ok2] fold_surface_log_only [OF fold, of EndSeed now] s1(2) by auto
    with False new s1(2) cand show ?thesis
      by (auto simp: finish_session_def session_append_def push_event_def Let_def)
  qed
qed

section \<open>Fork seeds end between turns\<close>

definition last_turn_mark :: "'p event list \<Rightarrow> 'p event_data option" where
  "last_turn_mark evs = (let marks = filter (\<lambda>e. is_turn_boundary (ev_data e)) evs in
     if marks = [] then None else Some (ev_data (last marks)))"

definition open_turn_matches :: "'p event list \<Rightarrow> session_trace \<Rightarrow> bool" where
  "open_turn_matches evs t \<longleftrightarrow>
     tr_open_turn t = (case last_turn_mark evs of Some (TurnStart n) \<Rightarrow> Some n | _ \<Rightarrow> None)"

interpretation turn_mark: replayed trace_step fresh_trace open_turn_matches
proof
  show "open_turn_matches [] fresh_trace"
    by (simp add: open_turn_matches_def last_turn_mark_def fresh_trace_def)
next
  fix evs :: "'a event list" and t t' and e :: "'a event"
  assume h: "open_turn_matches evs t" and s: "trace_step t e = Inr t'"
  from s obtain tt where v: "validate_event t e = Inr tt" and t': "t' = apply_transition t tt"
    by (auto simp: trace_step_Inr)
  show "open_turn_matches (evs @ [e]) t'"
  proof (cases "marker_of (ev_data e)")
    case None
    then have "\<not> is_turn_boundary (ev_data e)" by (cases "ev_data e") simp_all
    with h t' validate_event_plain [OF v None] show ?thesis
      by (simp add: open_turn_matches_def last_turn_mark_def apply_transition_def)
  next
    case (Some k)
    then show ?thesis
      using h v t'
      by (cases "ev_data e") (auto simp: open_turn_matches_def last_turn_mark_def apply_transition_def
          validate_event_def unchanged_def require_open_step_def rbind_Inr_iff Let_def split: if_splits)
  qed
qed

lemma fork_seed_Inr:
  assumes "fork_seed evs b = Inr seed"
  shows "(\<exists>k. seed = take k evs) \<and> (\<forall>n. last_turn_mark seed \<noteq> Some (TurnStart n))"
  using assms
  by (auto simp: fork_seed_def last_turn_mark_def Let_def split: if_splits event_data.splits option.splits
      intro: exI [of _ 0] exI [of _ "Suc (nat (the b))"])

section \<open>Properties\<close>

text \<open>
  Whatever its users do with it, a session's log carries the consecutive seqs from 0 and folds to a
  surface, and the derived history is the projection of that surface, although the session
  projects each node once and reuses its cache across calls.
\<close>

theorem session_history_is_the_surface_projection:
  assumes "session_reach s"
  shows "contiguous (ses_log s) \<and>
    (\<exists>nodes rs. fold_surface (ses_log s) = Inr (nodes, rs) \<and>
       snd (derive_messages s) = Inr (project_nodes (ses_log s) nodes))"
proof -
  have s: "session_ok s" using assms by (rule session_reach_ok)
  then obtain nodes rs where fold: "fold_surface (ses_log s) = Inr (nodes, rs)"
    by (auto simp: session_ok_def ok_iff)
  obtain s' r where d: "derive_messages s = (s', r)" by (cases "derive_messages s")
  have "contiguous (ses_log s)" using s by (simp add: session_ok_def fold_surface_contiguous)
  moreover have "r = Inr (project_nodes (ses_log s) nodes)"
    using s derive_messages_correct [OF _ _ fold d] by (simp add: session_ok_def)
  ultimately show ?thesis using fold d by simp
qed

definition sample_session :: "unit session" where
  "sample_session = (case new_session False 9 ''s1'' (Some sample_surface_log) None of Inr s \<Rightarrow> s
     | Inl _ \<Rightarrow> empty_session ''s1'' (blank_header ''s1''))"

lemma sample_session_created:
  "\<exists>s. new_session False 9 ''s1'' (Some sample_surface_log) None = Inr s \<and>
     ses_log s = sample_surface_log @ [log_event 3 9 EndSeed]"
proof -
  let ?h = "JObj [(''version'', JInt SESSION_FORMAT_VERSION), (''id'', JStr ''s1''), (''createdAt'', JInt 9)]"
  have "\<exists>h. validate_session_header ''s1'' ?h = Inr h"
    by (simp add: validate_session_header_def optional_field_def SESSION_FORMAT_VERSION_def safe_integer_def
        safe_int_def max_safe_def require_def)
  then obtain h where h: "validate_session_header ''s1'' ?h = Inr h" ..
  have "ok (fold_surface sample_surface_log)" by (simp add: sample_surface_fold)
  from new_session_accepts [OF this h, of 9] show ?thesis
    by (simp add: new_session_def snapshot_session_header_def sample_surface_log_def)
qed

lemma sample_session_reach:
  "session_reach sample_session" "ses_log sample_session = sample_surface_log @ [log_event 3 9 EndSeed]"
  using sample_session_created by (auto simp: sample_session_def intro: reach_create)

theorem session_history_is_the_surface_projection_witness:
  "contiguous (ses_log sample_session) \<and> (\<exists>msgs. snd (derive_messages sample_session) = Inr msgs)"
  using session_history_is_the_surface_projection [OF sample_session_reach(1)] by blast

text \<open>
  The cached request header and request context of a session are the folds of its whole log, however
  many events were appended since the last read.
\<close>

theorem session_caches_are_log_folds:
  assumes "session_reach s"
  shows "snd (request_header s) = fold_request_header (ses_log s) None \<and>
    snd (request_context_of s) = fold (\<lambda>e a. context_step a e) (ses_log s) None"
  using session_reach_ok [OF assms]
  by (simp add: session_ok_def request_header_def request_context_of_def Let_def fold_request_header_def
      header_cache.sync_current context_cache.sync_current)

theorem session_caches_are_log_folds_witness:
  "snd (request_header sample_session) = fold_request_header (ses_log sample_session) None"
  using session_caches_are_log_folds [OF sample_session_reach(1)] by simp

text \<open>
  C22: An append of a session commits exactly the candidate event, with the log length as its seq, at the
  end of the log; or it throws because the extended log does not fold, and the log is unchanged.
\<close>

theorem append_commits_or_leaves_the_log:
  assumes "session_reach s" and "session_append now d intent s = (s', r)"
  shows "case r of
      Inr e \<Rightarrow> ses_log s' = ses_log s @ [e] \<and> e = append_candidate now d intent s \<and>
        ok (fold_surface (ses_log s'))
    | Inl _ \<Rightarrow> ses_log s' = ses_log s \<and> \<not> ok (fold_surface (ses_log s @ [append_candidate now d intent s]))"
proof -
  have s: "session_ok s" using assms(1) by (rule session_reach_ok)
  let ?e = "append_candidate now d intent s"
  obtain s1 r1 where v: "append_validate ?e s = (s1, r1)" by (cases "append_validate ?e s")
  have eq: "ses_log s1 = ses_log s" using append_validate_ok [OF s v] by simp
  have "r1 = None \<longleftrightarrow> ok (fold_surface (ses_log s @ [?e]))"
    using manager_admits [of "ses_log s" "ses_surface s" ?e] s v
    by (auto simp: session_ok_def append_validate_def split: prod.splits)
  with assms(2) v eq show ?thesis
    by (cases r1) (auto simp: session_append_def push_event_def Let_def)
qed

theorem append_commits_or_leaves_the_log_witness:
  "case session_append 9 (TurnStart 1) no_intent sample_session of
      (s', Inr e) \<Rightarrow> ses_log s' = ses_log sample_session @ [e]
    | (s', Inl _) \<Rightarrow> ses_log s' = ses_log sample_session"
proof -
  obtain s' r where a: "session_append 9 (TurnStart 1) no_intent sample_session = (s', r)"
    by (cases "session_append 9 (TurnStart 1) no_intent sample_session")
  show ?thesis
    using append_commits_or_leaves_the_log [OF sample_session_reach(1) a] a by (auto split: sum.splits)
qed

text \<open>
  C23: A fork seed of an accepted log is a prefix of it that the invariant accepts and that ends with no
  turn open, and a child session built from it is accepted, its log being the seed followed by at
  most the end-seed marker.
\<close>

theorem forked_child_is_accepted_and_closed:
  assumes "seed_session evs = Inr t" and "ok (fold_surface evs)" and "fork_seed evs b = Inr seed"
    and "validate_session_header i v = Inr h"
  shows "(\<exists>k. seed = take k evs) \<and> (\<exists>t'. seed_session seed = Inr t' \<and> tr_open_turn t' = None) \<and>
    (\<exists>s. new_session False now i (Some seed) (Some v) = Inr s \<and>
       (ses_log s = seed \<or> ses_log s = seed @ [log_event (int (length seed)) now EndSeed]))"
proof -
  obtain k where k: "seed = take k evs" and mark: "\<forall>n. last_turn_mark seed \<noteq> Some (TurnStart n)"
    using fork_seed_Inr [OF assms(3)] by blast
  have split: "evs = seed @ drop k evs" by (simp add: k)
  have "replay trace_step fresh_trace (seed @ drop k evs) = Inr t"
    using assms(1) split by (simp add: seed_session_def)
  then obtain t' where t': "replay trace_step fresh_trace seed = Inr t'" "open_turn_matches seed t'"
    by (rule turn_mark.run_prefix)
  have "tr_open_turn t' = None"
    using t'(2) mark by (auto simp: open_turn_matches_def split: option.splits event_data.splits)
  moreover have "ok (fold_surface seed)"
    using assms(2) split fold_surface_prefix by metis
  ultimately show ?thesis
    using k t'(1) new_session_accepts [OF _ assms(4), of seed now]
    by (auto simp: seed_session_def)
qed

theorem forked_child_is_accepted_and_closed_witness:
  "\<exists>t'. seed_session (take 1 [log_event 0 5 EndSeed :: unit event]) = Inr t' \<and> tr_open_turn t' = None"
proof -
  let ?evs = "[log_event 0 5 EndSeed :: unit event, log_event 1 5 (TurnStart 1)]"
  have 1: "\<exists>t. seed_session ?evs = Inr t"
    by (simp add: seed_session_def fresh_trace_def trace_step_def validate_event_def apply_transition_def unchanged_def)
  have 2: "ok (fold_surface ?evs)"
    by (simp add: fold_surface_def apply_surface_event_def plan_surface_event_def surface_op_of_def create_fold_state_def)
  have 3: "fork_seed ?evs (Some 0) = Inr (take 1 [log_event 0 5 EndSeed :: unit event])"
    by (simp add: fork_seed_def safe_int_def max_safe_def)
  from 1 obtain t where "seed_session ?evs = Inr t" ..
  from forked_child_is_accepted_and_closed [OF this 2 3 sample_header_validates] show ?thesis by blast
qed

end
