(* ===== verification/Session_Store.thy ===== *)
theory Session_Store
  imports Session_Log
begin

text \<open>
  The session store (\<open>class SessionStore\<close> of \<open>packages/core/session/src/index.ts\<close>): the lifecycle of
  an entry from \<open>prepare\<close> and \<open>enter\<close> through its announcement, publications and detach.

  Objects are positions: a session object is its position in \<open>st_sessions\<close>, an entry object its
  position in \<open>st_entries\<close>. Listeners are arbitrary code that runs while an announcement or an append
  is being published and may call the store again. An operation that runs listeners is therefore
  split where they run, and the step relation lets every other operation happen in between:
  \<open>announce\<close> is \<open>announce_begin\<close> and \<open>announce_end\<close>; \<open>append\<close> on an attached session is
  \<open>append_begin\<close> (validation), \<open>append_commit\<close> (absent when internal dispatch vetoes) and
  \<open>append_end\<close>. \<open>st_notes\<close> records what is published, in order.
\<close>

section \<open>State\<close>

record 'p entry =
  en_id :: session_id
  en_session :: nat
  en_announced :: bool
  en_announcing :: bool
  en_appending :: bool
  en_detach_requested :: bool
  en_entered :: bool
  en_candidate :: "'p event option"

datatype notice = NoteCreated nat | NoteEvent nat int | NoteDisposed nat

fun note_entry :: "notice \<Rightarrow> nat" where
  "note_entry (NoteCreated e) = e"
| "note_entry (NoteEvent e _) = e"
| "note_entry (NoteDisposed e) = e"

record 'p store =
  st_sessions :: "'p session list"
  st_entries :: "'p entry list"
  st_store :: "(session_id, nat) omap"
  st_attached :: "(nat, nat) omap"
  st_counter :: nat
  st_notes :: "notice list"

datatype store_error =
    AlreadyExists session_id
  | AlreadyAttached
  | NotLive
  | AlreadyAnnounced
  | AppendReentered
  | AppendRejected surface_error
  | SessionFailed session_error
  | ForkFailed fork_error

definition empty_store :: "'p store" where
  "empty_store = \<lparr>st_sessions = [], st_entries = [], st_store = [], st_attached = [], st_counter = 0, st_notes = []\<rparr>"

section \<open>Operations\<close>

text \<open>The id loop of \<open>prepare\<close>; the fuel is one more than the number of live sessions.\<close>

fun mint_id :: "nat \<Rightarrow> nat \<Rightarrow> (session_id, nat) omap \<Rightarrow> (nat \<times> session_id) option" where
  "mint_id 0 counter m = None"
| "mint_id (Suc fuel) counter m =
     (let i = ''session-'' @ nat_string (counter + 1) in
      if om_get m i \<noteq> None then mint_id fuel (counter + 1) m else Some (counter + 1, i))"

record session_meta =
  meta_cwd :: "string option"
  meta_parent :: "session_id option"
  meta_created_at :: "int option"
  meta_seed_length :: "int option"
  meta_subagent :: bool
  meta_delegation_depth :: "int option"
  meta_agent_preset :: "string option"

definition meta_header :: "int \<Rightarrow> session_id \<Rightarrow> session_meta \<Rightarrow> session_header" where
  "meta_header now i m =
     \<lparr>sh_version = SESSION_FORMAT_VERSION, sh_id = i,
      sh_created_at = (case meta_created_at m of Some t \<Rightarrow> t | None \<Rightarrow> now), sh_cwd = meta_cwd m,
      sh_parent = meta_parent m, sh_seed_length = meta_seed_length m, sh_subagent = meta_subagent m,
      sh_delegation_depth = meta_delegation_depth m, sh_agent_preset = meta_agent_preset m\<rparr>"

text \<open>The two sources of a prepared session: borrowed seed and metadata, or restored storage values.\<close>

datatype 'p prepare_source = Borrowed "'p event list option" session_meta | Restored "'p event list" json

definition prepare :: "int \<Rightarrow> session_id option \<Rightarrow> 'p prepare_source \<Rightarrow> 'p store \<Rightarrow> 'p store \<times> (store_error + nat)" where
  "prepare now requested src st =
     (let (counter, i) = (case requested of
            Some i \<Rightarrow> (st_counter st, i)
          | None \<Rightarrow> the (mint_id (Suc (length (st_store st))) (st_counter st) (st_store st)));
          st1 = st\<lparr>st_counter := counter\<rparr> in
      if om_get (st_store st) i \<noteq> None then (st1, Inl (AlreadyExists i))
      else case (case src of
            Borrowed seed m \<Rightarrow> new_session False now i seed (Some (header_json (meta_header now i m)))
          | Restored seed v \<Rightarrow> new_session True now i (Some seed) (Some v)) of
        Inl err \<Rightarrow> (st1, Inl (SessionFailed err))
      | Inr s \<Rightarrow> (st1\<lparr>st_sessions := st_sessions st1 @ [s]\<rparr>, Inr (length (st_sessions st1))))"

definition enter :: "nat \<Rightarrow> 'p store \<Rightarrow> 'p store \<times> (store_error + nat)" where
  "enter s st =
     (let i = ses_id (st_sessions st ! s) in
      if om_get (st_store st) i \<noteq> None then (st, Inl (AlreadyExists i))
      else if om_get (st_attached st) s \<noteq> None then (st, Inl AlreadyAttached)
      else
        let e = length (st_entries st) in
        (st\<lparr>st_entries := st_entries st @
              [\<lparr>en_id = i, en_session = s, en_announced = False, en_announcing = False, en_appending = False,
                en_detach_requested = False, en_entered = True, en_candidate = None\<rparr>],
            st_store := om_set i e (st_store st), st_attached := om_set s e (st_attached st)\<rparr>, Inr e))"

definition update_entry :: "nat \<Rightarrow> ('p entry \<Rightarrow> 'p entry) \<Rightarrow> 'p store \<Rightarrow> 'p store" where
  "update_entry e f st = st\<lparr>st_entries := (st_entries st)[e := f (st_entries st ! e)]\<rparr>"

definition detach_entered :: "nat \<Rightarrow> 'p store \<Rightarrow> 'p store" where
  "detach_entered e st =
     (let st1 = update_entry e (\<lambda>en. en\<lparr>en_detach_requested := False\<rparr>) st; en = st_entries st1 ! e in
      if om_get (st_store st1) (en_id en) \<noteq> Some e then st1
      else st1\<lparr>st_store := om_del (en_id en) (st_store st1), st_attached := om_del (en_session en) (st_attached st1),
               st_notes := st_notes st1 @ (if en_announced en then [NoteDisposed e] else [])\<rparr>)"

text \<open>The detach capability \<open>enter\<close> returns: single-shot, deferred while a publication unwinds.\<close>

definition detach :: "nat \<Rightarrow> 'p store \<Rightarrow> 'p store" where
  "detach e st =
     (if \<not> en_entered (st_entries st ! e) then st
      else
        let st1 = update_entry e (\<lambda>en. en\<lparr>en_entered := False\<rparr>) st; en = st_entries st1 ! e in
        if en_announcing en \<or> en_appending en
        then update_entry e (\<lambda>en. en\<lparr>en_detach_requested := True\<rparr>) st1
        else detach_entered e st1)"

definition live_entry_for :: "nat \<Rightarrow> 'p store \<Rightarrow> store_error + nat" where
  "live_entry_for s st = (case om_get (st_attached st) s of
      None \<Rightarrow> Inl NotLive
    | Some e \<Rightarrow> if om_get (st_store st) (en_id (st_entries st ! e)) \<noteq> Some e then Inl NotLive else Inr e)"

definition announce_begin :: "nat \<Rightarrow> 'p store \<Rightarrow> 'p store \<times> (store_error + nat)" where
  "announce_begin s st = (case live_entry_for s st of
      Inl err \<Rightarrow> (st, Inl err)
    | Inr e \<Rightarrow>
        if en_announced (st_entries st ! e) \<or> en_announcing (st_entries st ! e) then (st, Inl AlreadyAnnounced)
        else ((update_entry e (\<lambda>en. en\<lparr>en_announced := True, en_announcing := True\<rparr>) st)
                \<lparr>st_notes := st_notes st @ [NoteCreated e]\<rparr>, Inr e))"

definition announce_end :: "nat \<Rightarrow> 'p store \<Rightarrow> 'p store" where
  "announce_end e st =
     (let st1 = update_entry e (\<lambda>en. en\<lparr>en_announcing := False\<rparr>) st; en = st_entries st1 ! e in
      if en_detach_requested en \<and> \<not> en_appending en then detach_entered e st1 else st1)"

definition append_begin ::
    "int \<Rightarrow> 'p event_data \<Rightarrow> surface_intent \<Rightarrow> nat \<Rightarrow> 'p store \<Rightarrow> 'p store \<times> (store_error + nat)" where
  "append_begin now d intent s st = (case om_get (st_attached st) s of
      None \<Rightarrow> (st, Inl NotLive)
    | Some e \<Rightarrow>
        if en_appending (st_entries st ! e) then (st, Inl AppendReentered)
        else
          let ses = st_sessions st ! s; c = append_candidate now d intent ses in
          case append_validate c ses of
            (ses', Some err) \<Rightarrow> (st\<lparr>st_sessions := (st_sessions st)[s := ses']\<rparr>, Inl (AppendRejected err))
          | (ses', None) \<Rightarrow>
              (update_entry e (\<lambda>en. en\<lparr>en_appending := True, en_candidate := Some c\<rparr>)
                 (st\<lparr>st_sessions := (st_sessions st)[s := ses']\<rparr>), Inr e))"

definition append_commit :: "nat \<Rightarrow> 'p store \<Rightarrow> 'p store" where
  "append_commit e st = (case en_candidate (st_entries st ! e) of
      None \<Rightarrow> st
    | Some c \<Rightarrow>
        let s = en_session (st_entries st ! e) in
        (update_entry e (\<lambda>en. en\<lparr>en_candidate := None\<rparr>) st)
          \<lparr>st_sessions := (st_sessions st)[s := push_event c (st_sessions st ! s)],
           st_notes := st_notes st @ [NoteEvent e (ev_seq c)]\<rparr>)"

definition append_end :: "nat \<Rightarrow> 'p store \<Rightarrow> 'p store" where
  "append_end e st =
     (let st1 = update_entry e (\<lambda>en. en\<lparr>en_appending := False, en_candidate := None\<rparr>) st; en = st_entries st1 ! e in
      if en_detach_requested en \<and> \<not> en_announcing en then detach_entered e st1 else st1)"

text \<open>Appending to a session that is in no store publishes nothing.\<close>

definition append_detached ::
    "int \<Rightarrow> 'p event_data \<Rightarrow> surface_intent \<Rightarrow> nat \<Rightarrow> 'p store \<Rightarrow> 'p store \<times> (session_error + 'p event)" where
  "append_detached now d intent s st =
     (case session_append now d intent (st_sessions st ! s) of
        (ses', r) \<Rightarrow> (st\<lparr>st_sessions := (st_sessions st)[s := ses']\<rparr>, r))"

definition get_session :: "session_id \<Rightarrow> 'p store \<Rightarrow> nat option" where
  "get_session i st = map_option (\<lambda>e. en_session (st_entries st ! e)) (om_get (st_store st) i)"

definition list_sessions :: "'p store \<Rightarrow> nat list" where
  "list_sessions st = map (\<lambda>(_, e). en_session (st_entries st ! e)) (st_store st)"

section \<open>Fork\<close>

text \<open>A fork source is a session object or an id.\<close>

datatype fork_source = ById session_id | ByObject nat

definition resolve_fork_source :: "fork_source \<Rightarrow> 'p store \<Rightarrow> fork_error + nat" where
  "resolve_fork_source src st = (case src of
      ById i \<Rightarrow> (case get_session i st of None \<Rightarrow> Inl (SessionNotFound i) | Some s \<Rightarrow> Inr s)
    | ByObject s \<Rightarrow>
        let i = ses_id (st_sessions st ! s) in
        (case get_session i st of
           None \<Rightarrow> Inl (SessionNotFound i)
         | Some s' \<Rightarrow> if s' \<noteq> s then Inl (SessionNotLive i) else Inr s))"

text \<open>\<open>fork\<close> up to the creation of its child: the prepared, not yet entered, session.\<close>

definition fork_prepare ::
    "int \<Rightarrow> fork_source \<Rightarrow> int option \<Rightarrow> session_id option \<Rightarrow> 'p store \<Rightarrow> 'p store \<times> (store_error + nat)" where
  "fork_prepare now src boundary child st =
     (if child \<noteq> None \<and> get_session (the child) st \<noteq> None
      then (st, Inl (ForkFailed (SessionAlreadyExists (the child))))
      else case rbind (resolve_fork_source src st) (\<lambda>s.
             rbind (fork_seed (ses_log (st_sessions st ! s)) boundary) (\<lambda>seed. Inr (s, seed))) of
        Inl err \<Rightarrow> (st, Inl (ForkFailed err))
      | Inr (s, seed) \<Rightarrow>
          prepare now child
            (Borrowed (Some seed)
              \<lparr>meta_cwd = sh_cwd (ses_header (st_sessions st ! s)), meta_parent = Some (ses_id (st_sessions st ! s)),
               meta_created_at = None, meta_seed_length = Some (int (length seed)), meta_subagent = False,
               meta_delegation_depth = None, meta_agent_preset = None\<rparr>) st)"

section \<open>Steps\<close>

inductive store_step :: "'p store \<Rightarrow> 'p store \<Rightarrow> bool" where
  step_prepare: "prepare now i src st = (st', r) \<Longrightarrow> store_step st st'"
| step_enter: "s < length (st_sessions st) \<Longrightarrow> enter s st = (st', r) \<Longrightarrow> store_step st st'"
| step_detach: "e < length (st_entries st) \<Longrightarrow> store_step st (detach e st)"
| step_announce_begin: "s < length (st_sessions st) \<Longrightarrow> announce_begin s st = (st', r) \<Longrightarrow> store_step st st'"
| step_announce_end: "e < length (st_entries st) \<Longrightarrow> en_announcing (st_entries st ! e) \<Longrightarrow>
    store_step st (announce_end e st)"
| step_append_begin: "s < length (st_sessions st) \<Longrightarrow> append_begin now d intent s st = (st', r) \<Longrightarrow> store_step st st'"
| step_append_commit: "e < length (st_entries st) \<Longrightarrow> store_step st (append_commit e st)"
| step_append_end: "e < length (st_entries st) \<Longrightarrow> en_appending (st_entries st ! e) \<Longrightarrow>
    store_step st (append_end e st)"
| step_append_detached: "s < length (st_sessions st) \<Longrightarrow> om_get (st_attached st) s = None \<Longrightarrow>
    append_detached now d intent s st = (st', r) \<Longrightarrow> store_step st st'"
| step_derive: "s < length (st_sessions st) \<Longrightarrow> derive_messages (st_sessions st ! s) = (ses', r) \<Longrightarrow>
    store_step st (st\<lparr>st_sessions := (st_sessions st)[s := ses']\<rparr>)"
| step_fork: "fork_prepare now src b child st = (st', r) \<Longrightarrow> store_step st st'"

inductive store_reach :: "'p store \<Rightarrow> bool" where
  reach_empty: "store_reach empty_store"
| reach_step: "store_reach st \<Longrightarrow> store_step st st' \<Longrightarrow> store_reach st'"

section \<open>The invariant\<close>

text \<open>What was published about one entry, and the event seqs among it.\<close>

definition life :: "nat \<Rightarrow> notice list \<Rightarrow> notice list" where
  "life e notes = filter (\<lambda>n. note_entry n = e) notes"

definition event_seqs :: "notice list \<Rightarrow> int list" where
  "event_seqs ns = List.map_filter (\<lambda>n. case n of NoteEvent _ q \<Rightarrow> Some q | _ \<Rightarrow> None) ns"

definition live :: "'p store \<Rightarrow> nat \<Rightarrow> bool" where
  "live st e \<longleftrightarrow> om_get (st_store st) (en_id (st_entries st ! e)) = Some e"

definition flags_ok :: "bool \<Rightarrow> 'p entry \<Rightarrow> bool" where
  "flags_ok lv en \<longleftrightarrow>
     (\<not> lv \<longrightarrow> \<not> en_announcing en \<and> \<not> en_appending en \<and> \<not> en_entered en \<and> \<not> en_detach_requested en) \<and>
     (lv \<and> \<not> en_entered en \<longrightarrow> en_detach_requested en) \<and>
     (en_detach_requested en \<longrightarrow> \<not> en_entered en \<and> (en_announcing en \<or> en_appending en)) \<and>
     (en_announcing en \<longrightarrow> en_announced en) \<and>
     (en_candidate en \<noteq> None \<longrightarrow> en_appending en)"

text \<open>
  An entry's published life: created once if announced; disposed last, exactly when announced and no
  longer live; its event seqs consecutive, up to the end of the log while it is live.
\<close>

definition life_ok :: "bool \<Rightarrow> bool \<Rightarrow> nat \<Rightarrow> nat \<Rightarrow> notice list \<Rightarrow> bool" where
  "life_ok lv announced e len ns \<longleftrightarrow>
     count_list ns (NoteCreated e) = (if announced then 1 else 0) \<and>
     (if announced \<and> \<not> lv then \<exists>ns0. ns = ns0 @ [NoteDisposed e] \<and> NoteDisposed e \<notin> set ns0
      else NoteDisposed e \<notin> set ns) \<and>
     (\<exists>b. event_seqs ns = map int [b..<b + length (event_seqs ns)] \<and> (lv \<longrightarrow> b + length (event_seqs ns) = len))"

definition entry_session :: "'p store \<Rightarrow> nat \<Rightarrow> 'p session" where
  "entry_session st e = st_sessions st ! en_session (st_entries st ! e)"

definition entry_ok :: "'p store \<Rightarrow> nat \<Rightarrow> bool" where
  "entry_ok st e \<longleftrightarrow>
     (let en = st_entries st ! e in
      en_session en < length (st_sessions st) \<and> en_id en = ses_id (entry_session st e) \<and>
      life_ok (live st e) (en_announced en) e (length (ses_log (entry_session st e))) (life e (st_notes st)) \<and>
      (\<forall>c. en_candidate en = Some c \<longrightarrow> ok (fold_surface (ses_log (entry_session st e) @ [c])) \<and> live st e))"

definition maps_ok :: "'p store \<Rightarrow> bool" where
  "maps_ok st \<longleftrightarrow> om_wf (st_store st) \<and> om_wf (st_attached st) \<and>
     (\<forall>i e. om_get (st_store st) i = Some e \<longrightarrow> e < length (st_entries st) \<and> en_id (st_entries st ! e) = i \<and>
        om_get (st_attached st) (en_session (st_entries st ! e)) = Some e) \<and>
     (\<forall>s e. om_get (st_attached st) s = Some e \<longrightarrow> e < length (st_entries st) \<and>
        en_session (st_entries st ! e) = s \<and> om_get (st_store st) (en_id (st_entries st ! e)) = Some e)"

text \<open>The invariant, with the flags of the entries in \<open>X\<close> left open.\<close>

definition store_inv :: "nat set \<Rightarrow> 'p store \<Rightarrow> bool" where
  "store_inv X st \<longleftrightarrow>
     (\<forall>s \<in> set (st_sessions st). session_ok s) \<and> maps_ok st \<and>
     (\<forall>e < length (st_entries st). entry_ok st e) \<and>
     (\<forall>e < length (st_entries st). e \<notin> X \<longrightarrow> flags_ok (live st e) (st_entries st ! e)) \<and>
     (\<forall>n \<in> set (st_notes st). note_entry n < length (st_entries st))"

lemma life_append: "life e (ns @ ms) = life e ns @ life e ms"
  by (simp add: life_def)

lemma event_seqs_append: "event_seqs (ns @ ms) = event_seqs ns @ event_seqs ms"
  by (simp add: event_seqs_def List.map_filter_def)

lemma event_seqs_simps [simp]:
  "event_seqs [] = []" "event_seqs [NoteCreated e] = []" "event_seqs [NoteDisposed e] = []"
  "event_seqs [NoteEvent e q] = [q]"
  by (simp_all add: event_seqs_def map_filter_simps)

lemma store_inv_entry: "store_inv X st \<Longrightarrow> e < length (st_entries st) \<Longrightarrow> entry_ok st e"
  by (simp add: store_inv_def)

lemma store_inv_flags: "store_inv {} st \<Longrightarrow> e < length (st_entries st) \<Longrightarrow> flags_ok (live st e) (st_entries st ! e)"
  by (simp add: store_inv_def)

lemma store_inv_close:
  "store_inv {e} st \<Longrightarrow> flags_ok (live st e) (st_entries st ! e) \<Longrightarrow> store_inv {} st"
  unfolding store_inv_def by blast

lemma update_entry_simps [simp]:
  "length (st_entries (update_entry e f st)) = length (st_entries st)"
  "st_sessions (update_entry e f st) = st_sessions st"
  "st_store (update_entry e f st) = st_store st"
  "st_attached (update_entry e f st) = st_attached st"
  "st_notes (update_entry e f st) = st_notes st"
  by (simp_all add: update_entry_def)

text \<open>Changing one entry's flags and publishing about it.\<close>

lemma store_inv_update:
  assumes inv: "store_inv {} st" and e: "e < length (st_entries st)"
    and keep: "en_id (f (st_entries st ! e)) = en_id (st_entries st ! e)"
      "en_session (f (st_entries st ! e)) = en_session (st_entries st ! e)"
    and ns: "\<forall>n \<in> set ns. note_entry n = e"
    and life: "life_ok (live st e) (en_announced (f (st_entries st ! e))) e
      (length (ses_log (entry_session st e))) (life e (st_notes st) @ ns)"
    and cand: "\<And>c. en_candidate (f (st_entries st ! e)) = Some c \<Longrightarrow>
      ok (fold_surface (ses_log (entry_session st e) @ [c])) \<and> live st e"
  shows "store_inv {e} ((update_entry e f st)\<lparr>st_notes := st_notes st @ ns\<rparr>)"
proof -
  let ?st = "(update_entry e f st)\<lparr>st_notes := st_notes st @ ns\<rparr>"
  have ids: "en_id (st_entries ?st ! k) = en_id (st_entries st ! k)"
    "en_session (st_entries ?st ! k) = en_session (st_entries st ! k)"
    if "k < length (st_entries st)" for k
    using keep e that by (auto simp: update_entry_def nth_list_update)
  have len: "length (st_entries ?st) = length (st_entries st)" by (simp add: update_entry_def)
  have same: "st_sessions ?st = st_sessions st" "st_store ?st = st_store st" "st_attached ?st = st_attached st"
    by (simp_all add: update_entry_def)
  have lv: "live ?st k = live st k" and es: "entry_session ?st k = entry_session st k"
    if "k < length (st_entries st)" for k
    using ids [OF that] same by (simp_all add: live_def entry_session_def)
  have other: "st_entries ?st ! k = st_entries st ! k" "life k (st_notes ?st) = life k (st_notes st)"
    if "k \<noteq> e" for k
    using that ns by (auto simp: update_entry_def life_append life_def filter_empty_conv)
  have "life e ns = ns" using ns by (simp add: life_def)
  then have "entry_ok ?st e"
    using life cand e ids [OF e] lv [OF e] es [OF e] same store_inv_entry [OF inv e]
    by (simp add: entry_ok_def Let_def life_append) (simp add: update_entry_def)
  moreover have "entry_ok ?st k" if "k < length (st_entries st)" "k \<noteq> e" for k
    using store_inv_entry [OF inv that(1)] lv [OF that(1)] es [OF that(1)] other [OF that(2)] same
    by (simp add: entry_ok_def Let_def)
  moreover have "maps_ok ?st"
    using inv ids by (auto simp: store_inv_def maps_ok_def same len)
  moreover have "flags_ok (live ?st k) (st_entries ?st ! k)" if "k < length (st_entries st)" "k \<noteq> e" for k
    using store_inv_flags [OF inv that(1)] lv [OF that(1)] other(1) [OF that(2)] by simp
  ultimately show ?thesis
    using inv ns e unfolding store_inv_def len same by auto
qed

lemma life_ok_detach:
  assumes "life_ok True a e len ns"
  shows "life_ok False a e len (ns @ (if a then [NoteDisposed e] else []))"
proof -
  have "event_seqs (ns @ (if a then [NoteDisposed e] else [])) = event_seqs ns"
    by (simp add: event_seqs_append)
  with assms show ?thesis by (auto simp: life_ok_def)
qed

text \<open>Removing a live entry whose publications have unwound.\<close>

lemma store_inv_detach_entered:
  assumes inv: "store_inv {e} st" and e: "e < length (st_entries st)" and lv: "live st e"
    and idle: "\<not> en_announcing (st_entries st ! e)" "\<not> en_appending (st_entries st ! e)"
      "\<not> en_entered (st_entries st ! e)" "en_candidate (st_entries st ! e) = None"
  shows "store_inv {} (detach_entered e st)"
proof -
  let ?en = "st_entries st ! e"
  let ?st = "detach_entered e st"
  have store: "st_store ?st = om_del (en_id ?en) (st_store st)"
    and att: "st_attached ?st = om_del (en_session ?en) (st_attached st)"
    and pub: "st_notes ?st = st_notes st @ (if en_announced ?en then [NoteDisposed e] else [])"
    and entries: "st_entries ?st = (st_entries st)[e := ?en\<lparr>en_detach_requested := False\<rparr>]"
    and sess: "st_sessions ?st = st_sessions st"
    using lv e by (simp_all add: detach_entered_def update_entry_def live_def Let_def)
  have maps: "maps_ok st" using inv by (simp add: store_inv_def)
  have ids: "en_id (st_entries ?st ! k) = en_id (st_entries st ! k)"
    "en_session (st_entries ?st ! k) = en_session (st_entries st ! k)"
    "en_announced (st_entries ?st ! k) = en_announced (st_entries st ! k)"
    "en_candidate (st_entries ?st ! k) = en_candidate (st_entries st ! k)" for k
    using e by (auto simp: entries nth_list_update)
  have len: "length (st_entries ?st) = length (st_entries st)" by (simp add: entries)
  have es: "entry_session ?st k = entry_session st k" for k
    by (simp add: entry_session_def ids sess)
  have lv': "live ?st k \<longleftrightarrow> live st k \<and> k \<noteq> e" if "k < length (st_entries st)" for k
    using lv by (auto simp: live_def ids store)
  have other: "st_entries ?st ! k = st_entries st ! k" "life k (st_notes ?st) = life k (st_notes st)"
    if "k \<noteq> e" for k
    using that by (auto simp: entries pub life_def)
  have "entry_ok st e" using store_inv_entry [OF inv e] .
  then have "life_ok True (en_announced ?en) e (length (ses_log (entry_session st e))) (life e (st_notes st))"
    and sid: "en_session ?en < length (st_sessions st)" "en_id ?en = ses_id (entry_session st e)"
    using lv by (auto simp: entry_ok_def Let_def)
  from life_ok_detach [OF this(1)]
  have "life_ok False (en_announced ?en) e (length (ses_log (entry_session st e))) (life e (st_notes ?st))"
    by (cases "en_announced ?en") (simp_all add: pub life_append life_def [of e "[_]"] life_def [of e "[]"])
  then have "entry_ok ?st e"
    using lv' [OF e] idle(4) sid unfolding entry_ok_def Let_def ids es sess by simp
  moreover have "entry_ok ?st k" if "k < length (st_entries st)" "k \<noteq> e" for k
    using store_inv_entry [OF inv that(1)] lv' [OF that(1)] that(2) other [OF that(2)]
    by (simp add: entry_ok_def Let_def es sess)
  moreover have "maps_ok ?st"
  proof -
    have att_e: "om_get (st_attached st) (en_session ?en) = Some e"
      using maps lv by (auto simp: maps_ok_def live_def)
    have "om_wf (st_store ?st)" "om_wf (st_attached ?st)"
      using maps by (simp_all add: maps_ok_def store att)
    moreover have "k < length (st_entries st) \<and> en_id (st_entries st ! k) = i \<and>
        om_get (st_attached ?st) (en_session (st_entries st ! k)) = Some k"
      if "om_get (st_store ?st) i = Some k" for i k
    proof -
      from that have i: "i \<noteq> en_id ?en" "om_get (st_store st) i = Some k" by (auto simp: store split: if_splits)
      with maps have k: "k < length (st_entries st)" "en_id (st_entries st ! k) = i"
        "om_get (st_attached st) (en_session (st_entries st ! k)) = Some k"
        by (auto simp: maps_ok_def)
      with i att_e have "en_session (st_entries st ! k) \<noteq> en_session ?en" by auto
      with k show ?thesis by (simp add: att)
    qed
    moreover have "k < length (st_entries st) \<and> en_session (st_entries st ! k) = s \<and>
        om_get (st_store ?st) (en_id (st_entries st ! k)) = Some k"
      if "om_get (st_attached ?st) s = Some k" for s k
    proof -
      from that have s: "s \<noteq> en_session ?en" "om_get (st_attached st) s = Some k" by (auto simp: att split: if_splits)
      with maps have k: "k < length (st_entries st)" "en_session (st_entries st ! k) = s"
        "om_get (st_store st) (en_id (st_entries st ! k)) = Some k"
        by (auto simp: maps_ok_def)
      with s lv have "en_id (st_entries st ! k) \<noteq> en_id ?en" by (auto simp: live_def)
      with k show ?thesis by (simp add: store)
    qed
    ultimately show ?thesis unfolding maps_ok_def len ids by blast
  qed
  moreover have "flags_ok (live ?st k) (st_entries ?st ! k)" if k: "k < length (st_entries st)" for k
  proof (cases "k = e")
    case True
    have "flags_ok False (?en\<lparr>en_detach_requested := False\<rparr>)"
      using idle by (simp add: flags_ok_def)
    with True e lv' [OF e] show ?thesis by (simp add: entries)
  next
    case False
    with inv k lv' [OF k] other(1) [OF False] show ?thesis by (simp add: store_inv_def)
  qed
  ultimately show ?thesis
    using inv e unfolding store_inv_def len sess by (auto simp: pub)
qed

section \<open>Every operation keeps the invariant\<close>

lemma append_validate_id [simp]: "append_validate c s = (s', r) \<Longrightarrow> ses_id s' = ses_id s"
  by (auto simp: append_validate_def split: prod.splits)

lemma session_append_id: "session_append now d intent s = (s', r) \<Longrightarrow> ses_id s' = ses_id s"
  by (auto simp: session_append_def Let_def push_event_def split: prod.splits option.splits)

lemma derive_messages_frame: "derive_messages s = (s', r) \<Longrightarrow> ses_id s' = ses_id s \<and> ses_log s' = ses_log s"
  by (auto simp: derive_messages_def Let_def split: prod.splits sum.splits)

text \<open>Replacing a session object by one with the same id and log.\<close>

lemma store_inv_session:
  assumes inv: "store_inv X st" and s: "s < length (st_sessions st)" and ok: "session_ok ses'"
    and same: "ses_id ses' = ses_id (st_sessions st ! s)" "ses_log ses' = ses_log (st_sessions st ! s)"
  shows "store_inv X (st\<lparr>st_sessions := (st_sessions st)[s := ses']\<rparr>)"
proof -
  let ?st = "st\<lparr>st_sessions := (st_sessions st)[s := ses']\<rparr>"
  have es: "ses_log (entry_session ?st e) = ses_log (entry_session st e)"
    "ses_id (entry_session ?st e) = ses_id (entry_session st e)" for e
    using s same by (auto simp: entry_session_def nth_list_update)
  have lv: "live ?st e = live st e" for e by (simp add: live_def)
  have "entry_ok ?st e = entry_ok st e" for e
    by (simp add: entry_ok_def Let_def es lv)
  moreover have "maps_ok ?st = maps_ok st" by (simp add: maps_ok_def)
  moreover have "\<forall>x \<in> set ((st_sessions st)[s := ses']). session_ok x"
    using inv ok by (auto simp: store_inv_def dest!: subsetD [OF set_update_subset_insert])
  ultimately show ?thesis using inv by (simp add: store_inv_def lv)
qed

lemma attached_entry:
  assumes "store_inv X st" and "om_get (st_attached st) s = Some e"
  shows "e < length (st_entries st)" and "en_session (st_entries st ! e) = s" and "live st e"
  using assms by (auto simp: store_inv_def maps_ok_def live_def)

lemma live_attached:
  assumes "maps_ok st" and "live st e"
  shows "om_get (st_attached st) (en_session (st_entries st ! e)) = Some e"
  using assms unfolding maps_ok_def live_def by blast

lemma flags_live:
  assumes "flags_ok lv en" and "en_announcing en \<or> en_appending en \<or> en_entered en"
  shows lv
  using assms by (auto simp: flags_ok_def)

lemma entry_life: "entry_ok st e \<Longrightarrow>
    life_ok (live st e) (en_announced (st_entries st ! e)) e (length (ses_log (entry_session st e))) (life e (st_notes st))"
  by (simp add: entry_ok_def Let_def)

lemma entry_candidate: "entry_ok st e \<Longrightarrow> en_candidate (st_entries st ! e) = Some c \<Longrightarrow>
    ok (fold_surface (ses_log (entry_session st e) @ [c])) \<and> live st e"
  by (simp add: entry_ok_def Let_def)

lemma prepare_inv:
  assumes inv: "store_inv {} st" and op: "prepare now i src st = (st', r)"
  shows "store_inv {} st'"
proof -
  have grow: "store_inv {} (st\<lparr>st_counter := c, st_sessions := st_sessions st @ [s]\<rparr>)" if "session_ok s" for c s
  proof -
    let ?st = "st\<lparr>st_counter := c, st_sessions := st_sessions st @ [s]\<rparr>"
    have "entry_ok ?st e" if "e < length (st_entries st)" for e
    proof -
      have ok: "entry_ok st e" using store_inv_entry [OF inv that] .
      then have "entry_session ?st e = entry_session st e"
        by (simp add: entry_session_def nth_append entry_ok_def Let_def)
      moreover have "live ?st e = live st e" by (simp add: live_def)
      ultimately show ?thesis using ok by (simp add: entry_ok_def Let_def)
    qed
    moreover have "maps_ok ?st" using inv by (simp add: store_inv_def maps_ok_def)
    ultimately show ?thesis using inv that by (auto simp: store_inv_def live_def)
  qed
  have same: "store_inv {} (st\<lparr>st_counter := c\<rparr>)" for c
    using inv by (simp add: store_inv_def maps_ok_def entry_ok_def entry_session_def live_def)
  from op show ?thesis
    by (auto simp: prepare_def Let_def split: prod.splits if_splits sum.splits prepare_source.splits
        intro: grow same new_session_ok)
qed

lemma enter_inv:
  assumes inv: "store_inv {} st" and s: "s < length (st_sessions st)" and op: "enter s st = (st', r)"
  shows "store_inv {} st'"
proof (cases r)
  case (Inl err)
  with op inv show ?thesis by (auto simp: enter_def Let_def split: if_splits)
next
  case (Inr e)
  let ?i = "ses_id (st_sessions st ! s)"
  from op Inr have free: "om_get (st_store st) ?i = None" "om_get (st_attached st) s = None"
    and e: "e = length (st_entries st)"
    and st': "st' = st\<lparr>st_entries := st_entries st @
        [\<lparr>en_id = ?i, en_session = s, en_announced = False, en_announcing = False, en_appending = False,
          en_detach_requested = False, en_entered = True, en_candidate = None\<rparr>],
      st_store := om_set ?i e (st_store st), st_attached := om_set s e (st_attached st)\<rparr>"
    by (auto simp: enter_def Let_def split: if_splits)
  have maps: "maps_ok st" using inv by (simp add: store_inv_def)
  have old: "st_entries st' ! k = st_entries st ! k" if "k < length (st_entries st)" for k
    using that by (simp add: st' nth_append)
  have new: "st_entries st' ! e = \<lparr>en_id = ?i, en_session = s, en_announced = False, en_announcing = False,
      en_appending = False, en_detach_requested = False, en_entered = True, en_candidate = None\<rparr>"
    by (simp add: st' e)
  have lv: "live st' k = live st k" if "k < length (st_entries st)" for k
    using that free(1) e by (auto simp: live_def old st' nth_append)
  have lve: "live st' e" by (simp add: live_def new) (simp add: st')
  have es: "entry_session st' k = entry_session st k" if "k < length (st_entries st)" for k
    using that by (simp add: entry_session_def old) (simp add: st')
  have ese: "entry_session st' e = st_sessions st ! s" by (simp add: entry_session_def new) (simp add: st')
  have "life e (st_notes st) = []"
    using inv e by (auto simp: store_inv_def life_def filter_empty_conv)
  moreover have "life_ok True False e n []" for n by (auto simp: life_ok_def intro: exI [of _ n])
  ultimately have "entry_ok st' e"
    unfolding entry_ok_def new ese Let_def using s lve by (simp add: st')
  moreover have "entry_ok st' k" if "k < length (st_entries st)" for k
    using store_inv_entry [OF inv that] unfolding entry_ok_def old [OF that] es [OF that] lv [OF that] Let_def
    by (simp add: st')
  moreover have "flags_ok (live st' e) (st_entries st' ! e)"
    using lve new by (simp add: flags_ok_def)
  moreover have "flags_ok (live st' k) (st_entries st' ! k)" if "k < length (st_entries st)" for k
    using store_inv_flags [OF inv that] by (simp add: lv [OF that] old [OF that])
  moreover have "maps_ok st'"
  proof -
    have 1: "om_wf (st_store st')" "om_wf (st_attached st')" using maps by (simp_all add: maps_ok_def st')
    have 2: "k < length (st_entries st') \<and> en_id (st_entries st' ! k) = j \<and>
        om_get (st_attached st') (en_session (st_entries st' ! k)) = Some k"
      if "om_get (st_store st') j = Some k" for j k
    proof (cases "j = ?i")
      case True
      with that have "k = e" by (simp add: st')
      with True show ?thesis unfolding new by (simp add: e) (simp add: st' e)
    next
      case False
      with that have "om_get (st_store st) j = Some k" by (simp add: st')
      with maps have k: "k < length (st_entries st)" "en_id (st_entries st ! k) = j"
        "om_get (st_attached st) (en_session (st_entries st ! k)) = Some k" by (auto simp: maps_ok_def)
      moreover from this(3) free(2) have "en_session (st_entries st ! k) \<noteq> s" by auto
      ultimately show ?thesis unfolding old [OF k(1)] by (simp add: st')
    qed
    have 3: "k < length (st_entries st') \<and> en_session (st_entries st' ! k) = j \<and>
        om_get (st_store st') (en_id (st_entries st' ! k)) = Some k"
      if "om_get (st_attached st') j = Some k" for j k
    proof (cases "j = s")
      case True
      with that have "k = e" by (simp add: st')
      with True show ?thesis unfolding new by (simp add: e) (simp add: st' e)
    next
      case False
      with that have "om_get (st_attached st) j = Some k" by (simp add: st')
      with maps have k: "k < length (st_entries st)" "en_session (st_entries st ! k) = j"
        "om_get (st_store st) (en_id (st_entries st ! k)) = Some k" by (auto simp: maps_ok_def)
      moreover from this(3) free(1) have "en_id (st_entries st ! k) \<noteq> ?i" by auto
      ultimately show ?thesis unfolding old [OF k(1)] by (simp add: st')
    qed
    from 1 2 3 show ?thesis unfolding maps_ok_def by blast
  qed
  ultimately show ?thesis
    using inv unfolding store_inv_def by (auto simp: st' e less_Suc_eq)
qed

lemma update_entry_notes: "(update_entry e f st)\<lparr>st_notes := st_notes st @ []\<rparr> = update_entry e f st"
  by (simp add: update_entry_def)

text \<open>A flag change that publishes nothing and keeps the candidate or clears it.\<close>

lemma update_flags_inv:
  assumes inv: "store_inv {} st" and e: "e < length (st_entries st)"
    and f: "en_id (f (st_entries st ! e)) = en_id (st_entries st ! e)"
      "en_session (f (st_entries st ! e)) = en_session (st_entries st ! e)"
      "en_announced (f (st_entries st ! e)) = en_announced (st_entries st ! e)"
      "en_candidate (f (st_entries st ! e)) \<in> {en_candidate (st_entries st ! e), None}"
  shows "store_inv {e} (update_entry e f st)"
proof -
  have ok: "entry_ok st e" using store_inv_entry [OF inv e] .
  have "store_inv {e} ((update_entry e f st)\<lparr>st_notes := st_notes st @ []\<rparr>)"
  proof (rule store_inv_update [where f = f, OF inv e f(1,2)])
    show "life_ok (live st e) (en_announced (f (st_entries st ! e))) e (length (ses_log (entry_session st e)))
        (life e (st_notes st) @ [])"
      using entry_life [OF ok] f(3) by simp
    show "ok (fold_surface (ses_log (entry_session st e) @ [c])) \<and> live st e"
      if "en_candidate (f (st_entries st ! e)) = Some c" for c
    proof -
      have "en_candidate (st_entries st ! e) = Some c" using that f(4) by auto
      then show ?thesis by (rule entry_candidate [OF ok])
    qed
  qed simp
  then show ?thesis by (simp only: update_entry_notes)
qed

lemma live_update [simp]:
  assumes "e < length (st_entries st)" and "en_id (f (st_entries st ! e)) = en_id (st_entries st ! e)"
  shows "live (update_entry e f st) k = live st k"
  using assms by (cases "k = e") (auto simp: live_def update_entry_def)

lemma entry_update [simp]: "e < length (st_entries st) \<Longrightarrow> st_entries (update_entry e f st) ! e = f (st_entries st ! e)"
  by (simp add: update_entry_def)

lemma detach_inv:
  assumes inv: "store_inv {} st" and e: "e < length (st_entries st)"
  shows "store_inv {} (detach e st)"
proof (cases "en_entered (st_entries st ! e)")
  case False
  with inv show ?thesis by (simp add: detach_def)
next
  case True
  let ?en = "st_entries st ! e" and ?f = "\<lambda>en. en\<lparr>en_entered := False\<rparr>"
  have fl: "flags_ok (live st e) ?en" using store_inv_flags [OF inv e] .
  then have lv: "live st e" using True by (auto intro: flags_live)
  have 1: "store_inv {e} (update_entry e ?f st)" by (rule update_flags_inv [OF inv e]) auto
  show ?thesis
  proof (cases "en_announcing ?en \<or> en_appending ?en")
    case True
    let ?g = "\<lambda>en. en\<lparr>en_entered := False, en_detach_requested := True\<rparr>"
    have "store_inv {e} (update_entry e ?g st)" by (rule update_flags_inv [OF inv e]) auto
    moreover have "flags_ok (live st e) (?g ?en)" using fl lv True by (auto simp: flags_ok_def)
    ultimately have "store_inv {} (update_entry e ?g st)" using e by (intro store_inv_close [of e]) auto
    moreover have "detach e st = update_entry e ?g st"
      using \<open>en_entered ?en\<close> True e by (simp add: detach_def update_entry_def Let_def)
    ultimately show ?thesis by simp
  next
    case False
    then have "en_candidate ?en = None" using fl by (auto simp: flags_ok_def)
    with False e lv have "store_inv {} (detach_entered e (update_entry e ?f st))"
      by (intro store_inv_detach_entered [OF 1]) auto
    with False \<open>en_entered ?en\<close> e show ?thesis by (simp add: detach_def Let_def)
  qed
qed

lemma live_entry_for_Inr: "live_entry_for s st = Inr e \<Longrightarrow> om_get (st_attached st) s = Some e"
  by (auto simp: live_entry_for_def split: option.splits if_splits)

lemma announce_begin_inv:
  assumes inv: "store_inv {} st" and op: "announce_begin s st = (st', r)"
  shows "store_inv {} st'"
proof (cases r)
  case (Inl err)
  with op inv show ?thesis by (auto simp: announce_begin_def split: sum.splits if_splits)
next
  case (Inr e)
  let ?f = "\<lambda>en. en\<lparr>en_announced := True, en_announcing := True\<rparr>"
  let ?en = "st_entries st ! e"
  from op Inr have le: "live_entry_for s st = Inr e" and fresh: "\<not> en_announced ?en" "\<not> en_announcing ?en"
    and st': "st' = (update_entry e ?f st)\<lparr>st_notes := st_notes st @ [NoteCreated e]\<rparr>"
    by (auto simp: announce_begin_def split: sum.splits if_splits)
  note att = attached_entry [OF inv live_entry_for_Inr [OF le]]
  have ent: "entry_ok st e" using store_inv_entry [OF inv att(1)] .
  have "life_ok True True e (length (ses_log (entry_session st e))) (life e (st_notes st) @ [NoteCreated e])"
    using entry_life [OF ent] att(3) fresh(1) by (auto simp: life_ok_def event_seqs_append)
  then have "store_inv {e} st'"
    unfolding st' using att ent by (intro store_inv_update [OF inv att(1)]) (auto simp: entry_ok_def Let_def)
  moreover have "flags_ok (live st e) (?f ?en)"
    using store_inv_flags [OF inv att(1)] att(3) by (auto simp: flags_ok_def)
  moreover have "live st' e = live st e" "st_entries st' ! e = ?f ?en"
    using att(1) by (auto simp: st' live_def)
  ultimately show ?thesis by (intro store_inv_close [of e]) auto
qed

lemma unwind_inv:
  assumes inv: "store_inv {} st" and e: "e < length (st_entries st)"
    and busy: "en_announcing (st_entries st ! e) \<or> en_appending (st_entries st ! e)"
    and f: "f = (\<lambda>en. en\<lparr>en_announcing := False\<rparr>) \<or> f = (\<lambda>en. en\<lparr>en_appending := False, en_candidate := None\<rparr>)"
    and st1: "st1 = update_entry e f st"
  shows "store_inv {} (if en_detach_requested (st_entries st1 ! e) \<and> \<not> en_announcing (st_entries st1 ! e) \<and>
      \<not> en_appending (st_entries st1 ! e) then detach_entered e st1 else st1)"
proof -
  let ?en = "st_entries st ! e"
  have fl: "flags_ok (live st e) ?en" using store_inv_flags [OF inv e] .
  then have lv: "live st e" using busy by (auto intro: flags_live)
  have 1: "store_inv {e} st1" unfolding st1 using f by (intro update_flags_inv [OF inv e]) auto
  have en: "st_entries st1 ! e = f ?en" "live st1 e" using f e lv by (auto simp: st1)
  show ?thesis
  proof (cases "en_detach_requested (f ?en) \<and> \<not> en_announcing (f ?en) \<and> \<not> en_appending (f ?en)")
    case True
    then have "\<not> en_entered (f ?en)" "en_candidate (f ?en) = None" using f fl by (auto simp: flags_ok_def)
    with True 1 en e have "store_inv {} (detach_entered e st1)"
      by (intro store_inv_detach_entered) (auto simp: st1)
    with True en show ?thesis by simp
  next
    case False
    then have "flags_ok (live st e) (f ?en)" using f fl lv by (auto simp: flags_ok_def)
    with 1 en lv have "store_inv {} st1" by (intro store_inv_close [of e]) auto
    with False en show ?thesis by auto
  qed
qed

lemma announce_end_inv:
  assumes "store_inv {} st" and "e < length (st_entries st)" and "en_announcing (st_entries st ! e)"
  shows "store_inv {} (announce_end e st)"
  using unwind_inv [OF assms(1,2) _ _ refl, of "\<lambda>en. en\<lparr>en_announcing := False\<rparr>"] assms
  by (simp add: announce_end_def Let_def)

lemma append_end_inv:
  assumes "store_inv {} st" and "e < length (st_entries st)" and "en_appending (st_entries st ! e)"
  shows "store_inv {} (append_end e st)"
  using unwind_inv [OF assms(1,2) _ _ refl, of "\<lambda>en. en\<lparr>en_appending := False, en_candidate := None\<rparr>"] assms
  by (simp add: append_end_def Let_def)

lemma append_begin_inv:
  assumes inv: "store_inv {} st" and s: "s < length (st_sessions st)"
    and op: "append_begin now d intent s st = (st', r)"
  shows "store_inv {} st'"
proof (cases "om_get (st_attached st) s")
  case None
  with op inv show ?thesis by (auto simp: append_begin_def)
next
  case (Some e)
  note att = attached_entry [OF inv Some]
  let ?en = "st_entries st ! e" and ?ses = "st_sessions st ! s"
  let ?c = "append_candidate now d intent ?ses"
  obtain ses' v where v: "append_validate ?c ?ses = (ses', v)" by (cases "append_validate ?c ?ses")
  have ok: "session_ok ?ses" using inv s by (simp add: store_inv_def)
  note valid = append_validate_ok [OF ok v]
  let ?st1 = "st\<lparr>st_sessions := (st_sessions st)[s := ses']\<rparr>"
  have inv1: "store_inv {} ?st1"
    using valid append_validate_id [OF v] by (intro store_inv_session [OF inv s]) auto
  show ?thesis
  proof (cases "en_appending ?en")
    case True
    with Some op inv show ?thesis by (auto simp: append_begin_def)
  next
    case idle: False
    show ?thesis
    proof (cases v)
      case (Some err)
      with idle op \<open>om_get _ s = _\<close> v inv1 show ?thesis by (auto simp: append_begin_def Let_def)
    next
      case None
      let ?f = "\<lambda>en. en\<lparr>en_appending := True, en_candidate := Some ?c\<rparr>"
      from None idle op \<open>om_get _ s = _\<close> v have st': "st' = update_entry e ?f ?st1"
        by (auto simp: append_begin_def Let_def)
      have e1: "e < length (st_entries ?st1)" using att(1) by simp
      have en1: "st_entries ?st1 ! e = ?en" by simp
      have es: "entry_session ?st1 e = ses'" using att(2) s by (simp add: entry_session_def)
      have lv: "live ?st1 e" using att(3) by (simp add: live_def)
      have "ok (fold_surface (ses_log (push_event ?c ses')))"
        using valid None unfolding session_ok_def by blast
      then have fold: "ok (fold_surface (ses_log ses' @ [?c]))" by (simp add: push_event_def)
      have ent: "entry_ok ?st1 e" using store_inv_entry [OF inv1 e1] .
      have "store_inv {e} ((update_entry e ?f ?st1)\<lparr>st_notes := st_notes ?st1 @ []\<rparr>)"
      proof (rule store_inv_update [OF inv1 e1])
        show "life_ok (live ?st1 e) (en_announced (?f (st_entries ?st1 ! e))) e
            (length (ses_log (entry_session ?st1 e))) (life e (st_notes ?st1) @ [])"
          using entry_life [OF ent] by simp
        show "ok (fold_surface (ses_log (entry_session ?st1 e) @ [x])) \<and> live ?st1 e"
          if "en_candidate (?f (st_entries ?st1 ! e)) = Some x" for x
          using that fold lv by (simp add: es)
      qed simp_all
      then have "store_inv {e} st'" unfolding st' by (simp only: update_entry_notes)
      moreover have "live st' e" "st_entries st' ! e = ?f ?en"
        using lv e1 by (simp_all add: st')
      moreover have "flags_ok True (?f ?en)"
        using store_inv_flags [OF inv att(1)] att(3) by (auto simp: flags_ok_def)
      ultimately show ?thesis by (intro store_inv_close [of e]) auto
    qed
  qed
qed

lemma push_inv:
  assumes inv: "store_inv {} st" and e: "e < length (st_entries st)" and lv: "live st e"
    and fold: "ok (fold_surface (ses_log (entry_session st e) @ [c]))"
    and cand: "en_candidate (st_entries st ! e) = None"
    and s: "s = en_session (st_entries st ! e)"
  shows "store_inv {} (st\<lparr>st_sessions := (st_sessions st)[s := push_event c (st_sessions st ! s)],
    st_notes := st_notes st @ [NoteEvent e (ev_seq c)]\<rparr>)" (is "store_inv {} ?st")
proof -
  have ent: "entry_ok st e" using store_inv_entry [OF inv e] .
  then have sl: "s < length (st_sessions st)" by (simp add: entry_ok_def Let_def s)
  let ?ses = "st_sessions st ! s"
  have ses: "entry_session st e = ?ses" by (simp add: entry_session_def s)
  have lv': "live ?st k = live st k" for k by (simp add: live_def)
  have okses: "session_ok ?ses" using inv sl by (simp add: store_inv_def)
  have okpush: "session_ok (push_event c ?ses)"
    using okses fold ses unfolding session_ok_def push_event_def
    by (auto intro: reach_append header_cache.current_append context_cache.current_append derived_ok_grow)
  have maps: "maps_ok st" using inv by (simp add: store_inv_def)
  have uniq: "k = e" if "live st k" "k < length (st_entries st)" "en_session (st_entries st ! k) = s" for k
    using live_attached [OF maps that(1)] live_attached [OF maps lv] that(3) s by (metis option.inject)
  have "contiguous (ses_log ?ses @ [c])" using fold ses by (simp add: fold_surface_contiguous)
  then have seq: "ev_seq c = int (length (ses_log ?ses))" by (simp add: contiguous_snoc)
  have life_e: "life_ok True (en_announced (st_entries st ! e)) e (length (ses_log ?ses)) (life e (st_notes st))"
    using entry_life [OF ent] lv ses by simp
  then obtain b where b: "event_seqs (life e (st_notes st)) = map int [b..<b + length (event_seqs (life e (st_notes st)))]"
    "b + length (event_seqs (life e (st_notes st))) = length (ses_log ?ses)"
    by (auto simp: life_ok_def)
  have "map int [b..<length (ses_log ?ses)] @ [int (length (ses_log ?ses))] = map int [b..<Suc (length (ses_log ?ses))]"
    using b(2) by simp
  with b seq have "event_seqs (life e (st_notes st) @ [NoteEvent e (ev_seq c)]) = map int [b..<Suc (length (ses_log ?ses))]"
    by (simp add: event_seqs_append)
  then have life': "life_ok True (en_announced (st_entries st ! e)) e (Suc (length (ses_log ?ses)))
      (life e (st_notes st) @ [NoteEvent e (ev_seq c)])"
    using life_e b(2) unfolding life_ok_def by (auto simp: event_seqs_append intro!: exI [of _ b])
  have "entry_session ?st e = push_event c ?ses" using sl s by (simp add: entry_session_def)
  then have "entry_ok ?st e"
    using ent life' lv cand sl unfolding entry_ok_def Let_def lv'
    by (simp add: life_append life_def [of e "[_]"] push_event_def ses s)
  moreover have "entry_ok ?st k" if k: "k < length (st_entries st)" "k \<noteq> e" for k
  proof -
    have entk: "entry_ok st k" using store_inv_entry [OF inv k(1)] .
    have pub: "life k (st_notes ?st) = life k (st_notes st)" using k by (simp add: life_def)
    show ?thesis
    proof (cases "en_session (st_entries st ! k) = s")
      case False
      then have "entry_session ?st k = entry_session st k" by (simp add: entry_session_def)
      with entk show ?thesis unfolding entry_ok_def Let_def lv' pub by simp
    next
      case True
      then have nl: "\<not> live st k" using uniq k by blast
      have "ses_id (entry_session ?st k) = ses_id (entry_session st k)"
        using True sl by (simp add: entry_session_def push_event_def)
      moreover have "life_ok False a k n ns = life_ok False a k m ns" for a n m ns by (simp add: life_ok_def)
      ultimately show ?thesis
        using entk nl unfolding entry_ok_def Let_def lv' pub by (auto simp: sl)
    qed
  qed
  moreover have "maps_ok ?st" using maps by (simp add: maps_ok_def)
  moreover have "\<forall>x \<in> set ((st_sessions st)[s := push_event c ?ses]). session_ok x"
    using inv okpush by (auto simp: store_inv_def dest!: subsetD [OF set_update_subset_insert])
  ultimately show ?thesis
    using inv e unfolding store_inv_def lv' by auto
qed

lemma append_commit_inv:
  assumes inv: "store_inv {} st" and e: "e < length (st_entries st)"
  shows "store_inv {} (append_commit e st)"
proof (cases "en_candidate (st_entries st ! e)")
  case None
  with inv show ?thesis by (simp add: append_commit_def)
next
  case (Some c)
  let ?f = "\<lambda>en. en\<lparr>en_candidate := None\<rparr>" and ?en = "st_entries st ! e"
  let ?st1 = "update_entry e ?f st"
  note cand = entry_candidate [OF store_inv_entry [OF inv e] Some]
  have "store_inv {e} ?st1" by (rule update_flags_inv [OF inv e]) auto
  moreover have "flags_ok True (?f ?en)" using store_inv_flags [OF inv e] cand by (auto simp: flags_ok_def)
  ultimately have inv1: "store_inv {} ?st1" using e cand by (intro store_inv_close [of e]) auto
  have "entry_session ?st1 e = entry_session st e" using e by (simp add: entry_session_def)
  then have "store_inv {} (?st1\<lparr>st_sessions := (st_sessions ?st1)[en_session ?en := push_event c (st_sessions ?st1 ! en_session ?en)],
      st_notes := st_notes ?st1 @ [NoteEvent e (ev_seq c)]\<rparr>)"
    using e cand by (intro push_inv [OF inv1]) auto
  with Some show ?thesis by (simp add: append_commit_def Let_def)
qed

lemma append_detached_inv:
  assumes inv: "store_inv {} st" and s: "s < length (st_sessions st)" and free: "om_get (st_attached st) s = None"
    and op: "append_detached now d intent s st = (st', r)"
  shows "store_inv {} st'"
proof -
  let ?ses = "st_sessions st ! s"
  obtain ses' where a: "session_append now d intent ?ses = (ses', r)"
    and st': "st' = st\<lparr>st_sessions := (st_sessions st)[s := ses']\<rparr>"
    using op by (auto simp: append_detached_def split: prod.splits)
  have ok: "session_ok ses'" using inv s session_append_ok [OF _ a] by (simp add: store_inv_def)
  have maps: "maps_ok st" using inv by (simp add: store_inv_def)
  have lv: "live st' k = live st k" for k by (simp add: st' live_def)
  have "entry_ok st' k" if k: "k < length (st_entries st)" for k
  proof -
    have entk: "entry_ok st k" using store_inv_entry [OF inv k] .
    show ?thesis
    proof (cases "en_session (st_entries st ! k) = s")
      case False
      then have "entry_session st' k = entry_session st k" by (simp add: entry_session_def st')
      with entk show ?thesis unfolding entry_ok_def Let_def lv by (simp add: st')
    next
      case True
      then have nl: "\<not> live st k" using maps free k by (auto simp: live_def maps_ok_def)
      have "ses_id (entry_session st' k) = ses_id (entry_session st k)"
        using True s session_append_id [OF a] by (simp add: entry_session_def st')
      moreover have "life_ok False b k n ns = life_ok False b k m ns" for b n m ns by (simp add: life_ok_def)
      ultimately show ?thesis
        using entk nl unfolding entry_ok_def Let_def lv by (auto simp: s st')
    qed
  qed
  moreover have "maps_ok st'" using maps by (simp add: maps_ok_def st')
  moreover have "\<forall>x \<in> set ((st_sessions st)[s := ses']). session_ok x"
    using inv ok by (auto simp: store_inv_def dest!: subsetD [OF set_update_subset_insert])
  ultimately show ?thesis using inv unfolding store_inv_def lv by (auto simp: st')
qed

lemma store_step_inv: "store_step st st' \<Longrightarrow> store_inv {} st \<Longrightarrow> store_inv {} st'"
proof (induction rule: store_step.induct)
  case (step_derive s st ses' r)
  then have "session_ok (st_sessions st ! s)" by (simp add: store_inv_def)
  then have "session_ok ses'" using derive_messages_ok [OF _ step_derive(2)] by blast
  with step_derive derive_messages_frame [OF step_derive(2)] show ?case by (intro store_inv_session) auto
next
  case (step_fork now src b child st st' r)
  then show ?case
    by (auto simp: fork_prepare_def split: if_splits sum.splits prod.splits intro: prepare_inv)
qed (auto intro: prepare_inv enter_inv detach_inv announce_begin_inv announce_end_inv append_begin_inv
    append_commit_inv append_end_inv append_detached_inv)

lemma store_reach_inv: "store_reach st \<Longrightarrow> store_inv {} st"
proof (induction rule: store_reach.induct)
  case reach_empty
  show ?case by (simp add: store_inv_def empty_store_def maps_ok_def)
qed (rule store_step_inv)

section \<open>Minted ids\<close>

lemma mint_id_taken:
  "mint_id fuel c m = None \<Longrightarrow> (\<lambda>k. ''session-'' @ nat_string k) ` {c + 1..c + fuel} \<subseteq> set (om_keys m)"
proof (induction fuel arbitrary: c)
  case (Suc fuel)
  then have taken: "om_get m (''session-'' @ nat_string (c + 1)) \<noteq> None" and rest: "mint_id fuel (c + 1) m = None"
    by (auto simp: Let_def split: if_splits)
  have "{c + 1..c + Suc fuel} = insert (c + 1) {c + 1 + 1..c + 1 + fuel}" by auto
  with Suc.IH [OF rest] taken show ?case by (auto simp: om_keys_get)
qed simp

lemma mint_id_Some: "mint_id fuel c m = Some (k, i) \<Longrightarrow> om_get m i = None \<and> c < k \<and> i = ''session-'' @ nat_string k"
  by (induction fuel c m rule: mint_id.induct) (auto simp: Let_def split: if_splits)

lemma mint_id_enough: "mint_id (Suc (length m)) c m \<noteq> None"
proof
  assume "mint_id (Suc (length m)) c m = None"
  from mint_id_taken [OF this]
  have "card ((\<lambda>k. ''session-'' @ nat_string k) ` {c + 1..c + Suc (length m)}) \<le> card (set (om_keys m))"
    by (intro card_mono) auto
  moreover have "inj_on (\<lambda>k. ''session-'' @ nat_string k) A" for A
    by (auto simp: inj_on_def dest: nat_string_inj)
  ultimately have "Suc (length m) \<le> card (set (om_keys m))" by (simp add: card_image)
  also have "\<dots> \<le> length m" using card_length [of "om_keys m"] by (simp add: om_keys_def)
  finally show False by simp
qed

section \<open>Properties\<close>

text \<open>
  C24: Whatever the listeners do while an announcement or an append is being published, each entry's
  published life is well formed: its creation is announced once, its disposal is published exactly
  when it was announced and is no longer live, once and after everything else; and the seqs
  published for it are consecutive and, while it is live, reach the end of its session's log.
\<close>

theorem entry_life_is_well_formed:
  assumes "store_reach st" and "e < length (st_entries st)"
  shows "life_ok (live st e) (en_announced (st_entries st ! e)) e (length (ses_log (entry_session st e)))
    (life e (st_notes st))"
  using entry_life [OF store_inv_entry [OF store_reach_inv [OF assms(1)] assms(2)]] .

definition sample_store :: "unit store" where
  "sample_store = fst (announce_begin 0 (fst (enter 0 (fst (prepare 5 None
     (Borrowed None \<lparr>meta_cwd = None, meta_parent = None, meta_created_at = None, meta_seed_length = None,
        meta_subagent = False, meta_delegation_depth = None, meta_agent_preset = None\<rparr>) empty_store)))))"

lemma sample_store_session:
  "new_session False 5 ''session-1'' None (Some (header_json (meta_header 5 ''session-1''
     \<lparr>meta_cwd = None, meta_parent = None, meta_created_at = None, meta_seed_length = None,
        meta_subagent = False, meta_delegation_depth = None, meta_agent_preset = None\<rparr>))) =
   Inr (empty_session ''session-1'' (meta_header 5 ''session-1''
     \<lparr>meta_cwd = None, meta_parent = None, meta_created_at = None, meta_seed_length = None,
        meta_subagent = False, meta_delegation_depth = None, meta_agent_preset = None\<rparr>))"
proof -
  let ?m = "\<lparr>meta_cwd = None, meta_parent = None, meta_created_at = None, meta_seed_length = None,
        meta_subagent = False, meta_delegation_depth = None, meta_agent_preset = None\<rparr>"
  have "validate_session_header ''session-1'' (header_json (meta_header 5 ''session-1'' ?m)) =
      Inr (meta_header 5 ''session-1'' ?m)"
    by (rule validate_header_json) (simp add: header_ok_def meta_header_def safe_int_def max_safe_def)
  then show ?thesis
    by (simp add: new_session_def snapshot_session_header_def lift_header_def finish_session_def empty_session_def)
qed

lemma sample_store_eval:
  "store_reach sample_store" "length (st_entries sample_store) = 1" "st_notes sample_store = [NoteCreated 0]"
proof -
  have one: "nat_string (Suc 0) = ''1''" by code_simp
  let ?s1 = "prepare 5 None (Borrowed None \<lparr>meta_cwd = None, meta_parent = None, meta_created_at = None,
     meta_seed_length = None, meta_subagent = False, meta_delegation_depth = None, meta_agent_preset = None\<rparr>)
     (empty_store :: unit store)"
  obtain s1 where s1: "?s1 = (s1, Inr 0)" "length (st_sessions s1) = 1" "st_entries s1 = []" "st_store s1 = []"
    "st_attached s1 = []" "st_notes s1 = []"
    by (auto simp: sample_store_session prepare_def empty_store_def Let_def one)
  then have r1: "store_reach s1" using step_prepare reach_empty reach_step by metis
  obtain s2 where s2: "enter 0 s1 = (s2, Inr 0)" "length (st_sessions s2) = 1"
    using s1 by (auto simp: enter_def Let_def)
  then have r2: "store_reach s2" using r1 s1 step_enter reach_step by (metis zero_less_one)
  have r3: "store_reach (fst (announce_begin 0 s2))"
    using r2 s2 step_announce_begin reach_step by (metis prod.collapse zero_less_one)
  show "store_reach sample_store" using r3 s1(1) s2(1) by (simp add: sample_store_def)
  show "length (st_entries sample_store) = 1" "st_notes sample_store = [NoteCreated 0]"
    using s1 s2 by (auto simp: sample_store_def enter_def announce_begin_def live_entry_for_def update_entry_def Let_def)
qed

theorem entry_life_is_well_formed_witness:
  "life_ok (live sample_store 0) (en_announced (st_entries sample_store ! 0)) 0
     (length (ses_log (entry_session sample_store 0))) (life 0 [NoteCreated 0])"
  using entry_life_is_well_formed [OF sample_store_eval(1), of 0] by (simp add: sample_store_eval)

text \<open>
  A detach requested while an entry is being announced or appended to is pending exactly until that
  publication unwinds: in every reachable state an entry that is no longer entered is either gone
  or still publishing with the detach requested, and an entry that is gone has nothing in flight.
\<close>

theorem detach_waits_for_publication:
  assumes "store_reach st" and "e < length (st_entries st)"
  shows "flags_ok (live st e) (st_entries st ! e)"
  using store_inv_flags [OF store_reach_inv [OF assms(1)] assms(2)] .

theorem detach_waits_for_publication_witness: "flags_ok (live sample_store 0) (st_entries sample_store ! 0)"
  by (rule detach_waits_for_publication) (simp_all add: sample_store_eval)

text \<open>
  Looking up a live id gives a session object with that id, attached to exactly that entry, and every
  session object of the store keeps the log invariant of its class.
\<close>

theorem store_lookup_is_consistent:
  assumes "store_reach st"
  shows "(\<forall>i s. get_session i st = Some s \<longrightarrow>
      s < length (st_sessions st) \<and> ses_id (st_sessions st ! s) = i \<and>
      om_get (st_attached st) s = om_get (st_store st) i) \<and>
    (\<forall>s \<in> set (st_sessions st). session_ok s)"
proof (intro conjI allI impI)
  have inv: "store_inv {} st" using assms by (rule store_reach_inv)
  then show "\<forall>s \<in> set (st_sessions st). session_ok s" by (simp add: store_inv_def)
  fix i s
  assume "get_session i st = Some s"
  then obtain e where e: "om_get (st_store st) i = Some e" "s = en_session (st_entries st ! e)"
    by (auto simp: get_session_def)
  with inv have en: "e < length (st_entries st)" "en_id (st_entries st ! e) = i" "om_get (st_attached st) s = Some e"
    by (auto simp: store_inv_def maps_ok_def)
  with store_inv_entry [OF inv en(1)] e show "s < length (st_sessions st)" "ses_id (st_sessions st ! s) = i"
    "om_get (st_attached st) s = om_get (st_store st) i"
    by (auto simp: entry_ok_def Let_def entry_session_def)
qed

theorem store_lookup_is_consistent_witness: "list_all session_ok (st_sessions sample_store)"
  using store_lookup_is_consistent [OF sample_store_eval(1)] by (simp add: list_all_iff)

text \<open>
  The id loop of \<open>prepare\<close> ends after at most one attempt more than there are live sessions, with an
  id that no live session has.
\<close>

theorem minted_id_is_fresh:
  "\<exists>k i. mint_id (Suc (length m)) c m = Some (k, i) \<and> om_get m i = None \<and> c < k"
  using mint_id_enough [of m c] mint_id_Some by fastforce

end
