(* ===== verification/Chunk_Rows.thy ===== *)
theory Chunk_Rows
  imports Surface
begin

text \<open>
  Storage packing of \<open>assistant/chunk\<close> delta runs (\<open>packages/core/session/src/chunk-rows.ts\<close>). Events
  and storage rows are JSON values here, because the encoder checks shapes and the decoder reads
  parsed lines.

  Integer sums of two safe integers are below 2 to the 54th, where a double is exact up to 2 to the
  53rd and otherwise rounds to the nearest even integer; \<open>double_round\<close> is that rounding, applied
  where the source adds.
\<close>

section \<open>Delta events\<close>

definition double_round :: "int \<Rightarrow> int" where
  "double_round n =
     (if \<bar>n\<bar> \<le> 2 ^ 53 \<or> even n then n else if even (n div 2) then n - 1 else n + 1)"

datatype delta_kind = TextKind | ReasoningKind | ToolKind

datatype delta_body =
    TextBody string
  | ReasoningBody string
  | ToolBody string "string option" string

fun kind_of :: "delta_body \<Rightarrow> delta_kind" where
  "kind_of (TextBody _) = TextKind"
| "kind_of (ReasoningBody _) = ReasoningKind"
| "kind_of (ToolBody _ _ _) = ToolKind"

text \<open>A run member: every field of an event whose exact shape the encoder whitelists.\<close>

record delta =
  de_seq :: int
  de_time :: int
  de_turn :: rat
  de_step :: rat
  de_index :: rat
  de_body :: delta_body

text \<open>\<open>isRecord\<close>: an object or an array.\<close>

fun is_record :: "json \<Rightarrow> bool" where
  "is_record (JObj _) = True"
| "is_record (JArr _) = True"
| "is_record _ = False"

fun num_value :: "json option \<Rightarrow> rat option" where
  "num_value (Some (JNum r)) = Some r"
| "num_value _ = None"

fun str_value :: "json option \<Rightarrow> string option" where
  "str_value (Some (JStr s)) = Some s"
| "str_value _ = None"

fun safe_value :: "json option \<Rightarrow> int option" where
  "safe_value (Some (JNum r)) = (if safe_integer r then Some \<lfloor>r\<rfloor> else None)"
| "safe_value _ = None"

text \<open>The chunk part of \<open>classify\<close>.\<close>

definition classify_chunk :: "json \<Rightarrow> delta_body option" where
  "classify_chunk c =
     (if jget c ''type'' = Some (JStr ''text-delta'') then
        (if has_exact_keys c [''type'', ''index'', ''text''] then map_option TextBody (str_value (jget c ''text'')) else None)
      else if jget c ''type'' = Some (JStr ''reasoning-delta'') then
        (if has_exact_keys c [''type'', ''index'', ''text''] then map_option ReasoningBody (str_value (jget c ''text'')) else None)
      else if jget c ''type'' = Some (JStr ''tool-call-delta'') then
        (if has_exact_keys c [''type'', ''index'', ''id'', ''argumentsDelta''] then
           (case (str_value (jget c ''id''), str_value (jget c ''argumentsDelta'')) of
              (Some i, Some a) \<Rightarrow> Some (ToolBody i None a) | _ \<Rightarrow> None)
         else if has_exact_keys c [''type'', ''index'', ''id'', ''name'', ''argumentsDelta''] then
           (case (str_value (jget c ''id''), str_value (jget c ''name''), str_value (jget c ''argumentsDelta'')) of
              (Some i, Some n, Some a) \<Rightarrow> Some (ToolBody i (Some n) a) | _ \<Rightarrow> None)
         else None)
      else None)"

text \<open>
  \<open>classify\<close>: the source returns the kind and reads the fields it has just checked from the event;
  here the fields come with it.
\<close>

definition classify :: "json \<Rightarrow> delta option" where
  "classify e =
     (if jget e ''type'' = Some (JStr ''assistant/chunk'') \<and> has_exact_keys e [''type'', ''seq'', ''time'', ''data'']
      then case (safe_value (jget e ''seq''), safe_value (jget e ''time''), jget e ''data'') of
          (Some seq, Some time, Some data) \<Rightarrow>
            if seq < 0 \<or> \<not> has_exact_keys data [''turn'', ''step'', ''chunk''] then None
            else (case (num_value (jget data ''turn''), num_value (jget data ''step''), jget data ''chunk'') of
                (Some turn, Some step, Some chunk) \<Rightarrow>
                  (case (num_value (jget chunk ''index''), classify_chunk chunk) of
                     (Some i, Some body) \<Rightarrow>
                       Some \<lparr>de_seq = seq, de_time = time, de_turn = turn, de_step = step, de_index = i, de_body = body\<rparr>
                   | _ \<Rightarrow> None)
              | _ \<Rightarrow> None)
        | _ \<Rightarrow> None
      else None)"

fun same_call :: "delta_body \<Rightarrow> delta_body \<Rightarrow> bool" where
  "same_call (ToolBody i n _) (ToolBody j m _) = (i = j \<and> n = m)"
| "same_call _ _ = True"

definition continues :: "delta \<Rightarrow> delta \<Rightarrow> bool" where
  "continues p n \<longleftrightarrow>
     de_seq n = de_seq p + 1 \<and> safe_int (double_round (de_time n - de_time p)) \<and>
     de_turn n = de_turn p \<and> de_step n = de_step p \<and> de_index n = de_index p \<and>
     same_call (de_body p) (de_body n)"

section \<open>Rows\<close>

datatype row_payload =
    TextRow "string list"
  | ReasoningRow "string list"
  | ToolRow string "string option" "string list"

record chunk_row =
  cr_seq0 :: int
  cr_time0 :: int
  cr_turn :: rat
  cr_step :: rat
  cr_index :: rat
  cr_dt :: "int list"
  cr_payload :: row_payload

fun members :: "row_payload \<Rightarrow> string list" where
  "members (TextRow ts) = ts"
| "members (ReasoningRow ts) = ts"
| "members (ToolRow _ _ as) = as"

fun body_text :: "delta_body \<Rightarrow> string" where
  "body_text (TextBody t) = t"
| "body_text (ReasoningBody t) = t"
| "body_text (ToolBody _ _ a) = a"

fun gaps :: "delta list \<Rightarrow> int list" where
  "gaps (a # b # ds) = double_round (de_time b - de_time a) # gaps (b # ds)"
| "gaps _ = []"

definition build_row :: "delta list \<Rightarrow> chunk_row" where
  "build_row run =
     (let first = hd run; texts = map (body_text \<circ> de_body) run in
      \<lparr>cr_seq0 = de_seq first, cr_time0 = de_time first, cr_turn = de_turn first, cr_step = de_step first,
       cr_index = de_index first, cr_dt = gaps run,
       cr_payload = (case de_body first of
           ToolBody i n _ \<Rightarrow> ToolRow i n texts
         | TextBody _ \<Rightarrow> TextRow texts
         | ReasoningBody _ \<Rightarrow> ReasoningRow texts)\<rparr>)"

definition row_tag :: "row_payload \<Rightarrow> string" where
  "row_tag p = (case p of TextRow _ \<Rightarrow> ''text-chunks'' | ReasoningRow _ \<Rightarrow> ''reasoning-chunks''
     | ToolRow _ _ _ \<Rightarrow> ''tool-call-chunks'')"

text \<open>The row as the JSON object that is written.\<close>

definition row_json :: "chunk_row \<Rightarrow> json" where
  "row_json r = JObj [(''type'', JStr (row_tag (cr_payload r))), (''seq0'', JInt (cr_seq0 r)), (''time0'', JInt (cr_time0 r)),
     (''data'', JObj
        ([(''turn'', JNum (cr_turn r)), (''step'', JNum (cr_step r)), (''index'', JNum (cr_index r)),
          (''dt'', JArr (map JInt (cr_dt r)))] @
         (case cr_payload r of
            ToolRow i n as \<Rightarrow> [(''id'', JStr i)] @ (case n of Some s \<Rightarrow> [(''name'', JStr s)] | None \<Rightarrow> []) @
              [(''args'', JArr (map JStr as))]
          | p \<Rightarrow> [(''texts'', JArr (map JStr (members p)))])))]"

section \<open>Packing\<close>

definition MIN_RUN :: nat where
  "MIN_RUN = 3"

record pack_state =
  pk_out :: "json list"
  pk_run :: "(json \<times> delta) list"

text \<open>The kind of the run is that of its members; an empty run has none.\<close>

definition flush :: "pack_state \<Rightarrow> pack_state" where
  "flush st =
     (let run = pk_run st in
      \<lparr>pk_out = pk_out st @ (if length run \<ge> MIN_RUN then [row_json (build_row (map snd run))] else map fst run),
       pk_run = []\<rparr>)"

definition pack_step :: "pack_state \<Rightarrow> json \<Rightarrow> pack_state" where
  "pack_step st e = (case classify e of
      None \<Rightarrow> (let st' = flush st in st'\<lparr>pk_out := pk_out st' @ [e]\<rparr>)
    | Some d \<Rightarrow>
        if pk_run st \<noteq> [] \<and> kind_of (de_body d) = kind_of (de_body (snd (last (pk_run st)))) \<and>
           continues (snd (last (pk_run st))) d
        then st\<lparr>pk_run := pk_run st @ [(e, d)]\<rparr>
        else (flush st)\<lparr>pk_run := [(e, d)]\<rparr>)"

definition pack_chunk_runs :: "json list \<Rightarrow> json list" where
  "pack_chunk_runs events = pk_out (flush (foldl pack_step \<lparr>pk_out = [], pk_run = []\<rparr> events))"

section \<open>Decoding\<close>

datatype row_error =
    RowEnvelope
  | RowSeq0
  | RowTime0
  | RowDataNotObject
  | RowDataKeys
  | RowIdName
  | RowNumbers
  | RowPayload
  | RowDt
  | RowArity
  | RowSeqRange
  | RowTimeRange

fun all_some :: "'a option list \<Rightarrow> 'a list option" where
  "all_some [] = Some []"
| "all_some (None # xs) = None"
| "all_some (Some x # xs) = map_option (Cons x) (all_some xs)"

fun array_value :: "json option \<Rightarrow> json list option" where
  "array_value (Some (JArr xs)) = Some xs"
| "array_value _ = None"

text \<open>\<open>validateRunData\<close>: the shared fields, the member payload and the gaps.\<close>

definition validate_run_data :: "json \<Rightarrow> string \<Rightarrow> row_error + rat \<times> rat \<times> rat \<times> int list \<times> string list" where
  "validate_run_data data key =
     (case (num_value (jget data ''turn''), num_value (jget data ''step''), num_value (jget data ''index'')) of
        (Some turn, Some step, Some i) \<Rightarrow>
          (case Option.bind (array_value (jget data key)) (\<lambda>xs. all_some (map (\<lambda>x. str_value (Some x)) xs)) of
             None \<Rightarrow> Inl RowPayload
           | Some payload \<Rightarrow>
               if payload = [] then Inl RowPayload
               else (case Option.bind (array_value (jget data ''dt'')) (\<lambda>xs. all_some (map (\<lambda>x. safe_value (Some x)) xs)) of
                   None \<Rightarrow> Inl RowDt
                 | Some dt \<Rightarrow>
                     if length dt + 1 \<noteq> length payload then Inl RowArity
                     else Inr (turn, step, i, dt, payload)))
      | _ \<Rightarrow> Inl RowNumbers)"

text \<open>The running member time; it must stay a safe integer.\<close>

fun times_safe :: "int \<Rightarrow> int list \<Rightarrow> bool" where
  "times_safe t [] = True"
| "times_safe t (g # gs) = (let t' = double_round (t + g) in safe_int t' \<and> times_safe t' gs)"

definition validate_row_data :: "json \<Rightarrow> string \<Rightarrow> row_error + rat \<times> rat \<times> rat \<times> int list \<times> row_payload" where
  "validate_row_data data tag =
     (if tag = ''tool-call-chunks'' then
        let with_name = has_exact_keys data [''turn'', ''step'', ''index'', ''id'', ''name'', ''dt'', ''args''] in
        if \<not> with_name \<and> \<not> has_exact_keys data [''turn'', ''step'', ''index'', ''id'', ''dt'', ''args''] then Inl RowDataKeys
        else (case str_value (jget data ''id'') of
            None \<Rightarrow> Inl RowIdName
          | Some i \<Rightarrow>
              if with_name \<and> str_value (jget data ''name'') = None then Inl RowIdName
              else rbind (validate_run_data data ''args'') (\<lambda>(turn, step, ix, dt, payload).
                Inr (turn, step, ix, dt, ToolRow i (if with_name then str_value (jget data ''name'') else None) payload)))
      else if \<not> has_exact_keys data [''turn'', ''step'', ''index'', ''dt'', ''texts''] then Inl RowDataKeys
      else rbind (validate_run_data data ''texts'') (\<lambda>(turn, step, ix, dt, payload).
        Inr (turn, step, ix, dt, if tag = ''text-chunks'' then TextRow payload else ReasoningRow payload)))"

definition validate_row :: "json \<Rightarrow> string \<Rightarrow> row_error + chunk_row" where
  "validate_row v tag =
     (if \<not> has_exact_keys v [''type'', ''seq0'', ''time0'', ''data''] then Inl RowEnvelope
      else case safe_value (jget v ''seq0'') of
        None \<Rightarrow> Inl RowSeq0
      | Some seq0 \<Rightarrow>
          if seq0 < 0 then Inl RowSeq0
          else (case safe_value (jget v ''time0'') of
            None \<Rightarrow> Inl RowTime0
          | Some time0 \<Rightarrow>
              (case jget v ''data'' of
                 None \<Rightarrow> Inl RowDataNotObject
               | Some data \<Rightarrow>
                   if \<not> is_record data then Inl RowDataNotObject
                   else rbind (validate_row_data data tag) (\<lambda>(turn, step, ix, dt, payload).
                     if \<not> safe_int (double_round (double_round (seq0 + int (length (members payload))) - 1))
                     then Inl RowSeqRange
                     else if \<not> times_safe time0 dt then Inl RowTimeRange
                     else Inr \<lparr>cr_seq0 = seq0, cr_time0 = time0, cr_turn = turn, cr_step = step, cr_index = ix,
                               cr_dt = dt, cr_payload = payload\<rparr>))))"

text \<open>One expanded member, with the key order \<open>expandRow\<close> writes.\<close>

definition body_json :: "rat \<Rightarrow> delta_body \<Rightarrow> json" where
  "body_json i b = (case b of
      TextBody t \<Rightarrow> JObj [(''type'', JStr ''text-delta''), (''index'', JNum i), (''text'', JStr t)]
    | ReasoningBody t \<Rightarrow> JObj [(''type'', JStr ''reasoning-delta''), (''index'', JNum i), (''text'', JStr t)]
    | ToolBody c n a \<Rightarrow> JObj ([(''type'', JStr ''tool-call-delta''), (''index'', JNum i), (''id'', JStr c)] @
        (case n of Some s \<Rightarrow> [(''name'', JStr s)] | None \<Rightarrow> []) @ [(''argumentsDelta'', JStr a)]))"

definition delta_event :: "delta \<Rightarrow> json" where
  "delta_event d = JObj [(''type'', JStr ''assistant/chunk''), (''seq'', JInt (de_seq d)), (''time'', JInt (de_time d)),
     (''data'', JObj [(''turn'', JNum (de_turn d)), (''step'', JNum (de_step d)),
        (''chunk'', body_json (de_index d) (de_body d))])]"

fun member_body :: "row_payload \<Rightarrow> string \<Rightarrow> delta_body" where
  "member_body (TextRow _) t = TextBody t"
| "member_body (ReasoningRow _) t = ReasoningBody t"
| "member_body (ToolRow i n _) a = ToolBody i n a"

text \<open>The loop of \<open>expandRow\<close> from member \<open>k\<close>, whose time is \<open>time\<close>; the gaps after it are \<open>dt\<close>.\<close>

fun expand_from :: "chunk_row \<Rightarrow> nat \<Rightarrow> int \<Rightarrow> int list \<Rightarrow> string list \<Rightarrow> json list" where
  "expand_from r k time dt [] = []"
| "expand_from r k time dt (m # ms) =
     delta_event \<lparr>de_seq = double_round (cr_seq0 r + int k), de_time = time, de_turn = cr_turn r, de_step = cr_step r,
       de_index = cr_index r, de_body = member_body (cr_payload r) m\<rparr> #
     expand_from r (Suc k) (case dt of [] \<Rightarrow> time | g # _ \<Rightarrow> double_round (time + g)) (tl dt) ms"

definition expand_row :: "chunk_row \<Rightarrow> json list" where
  "expand_row r = expand_from r 0 (cr_time0 r) (cr_dt r) (members (cr_payload r))"

definition row_tags :: "string list" where
  "row_tags = [''text-chunks'', ''reasoning-chunks'', ''tool-call-chunks'']"

definition decode_storage_record :: "json \<Rightarrow> row_error + json list" where
  "decode_storage_record v = (case jget v ''type'' of
      Some (JStr tag) \<Rightarrow>
        if tag \<in> set row_tags then rbind (validate_row v tag) (\<lambda>r. Inr (expand_row r)) else Inr [v]
    | _ \<Rightarrow> Inr [v])"

text \<open>Reading a stored batch: every line decoded, in order.\<close>

fun decode_all :: "json list \<Rightarrow> row_error + json list" where
  "decode_all [] = Inr []"
| "decode_all (v # vs) =
     rbind (decode_storage_record v) (\<lambda>es. rbind (decode_all vs) (\<lambda>fs. Inr (es @ fs)))"

section \<open>Exact integers\<close>

lemma safe_double_round [simp]: "safe_int (double_round n) \<longleftrightarrow> safe_int n"
  by (auto simp: safe_int_def double_round_def max_safe_def)

lemma double_round_safe: "safe_int n \<Longrightarrow> double_round n = n"
  by (simp add: safe_int_def double_round_def max_safe_def)

lemma double_round_le: "\<bar>n\<bar> \<le> 2 ^ 53 \<Longrightarrow> double_round n = n"
  by (simp add: double_round_def)

section \<open>JSON objects with exact keys\<close>

lemma exact_keys_deep_eq:
  assumes "distinct (map fst kvs)" and exact: "has_exact_keys (JObj kvs) (map fst kws)" and dk: "distinct (map fst kws)"
    and vals: "\<And>k w v. (k, w) \<in> set kws \<Longrightarrow> map_of kvs k = Some v \<Longrightarrow> json_deep_eq v w"
  shows "json_deep_eq (JObj kvs) (JObj kws)"
proof -
  have len: "length kvs = length kws" using exact by (simp add: has_exact_keys_def)
  have "set (map fst kws) \<subseteq> set (map fst kvs)"
    using exact by (auto simp: has_exact_keys_def list_all_iff map_of_eq_None_iff)
  moreover have "card (set (map fst kvs)) = card (set (map fst kws))"
    using assms(1) dk len by (metis distinct_card length_map)
  ultimately have keys: "set (map fst kvs) = set (map fst kws)"
    by (metis card_subset_eq List.finite_set)
  have "case map_of kws k of None \<Rightarrow> False | Some w \<Rightarrow> json_deep_eq v w" if kv: "(k, v) \<in> set kvs" for k v
  proof -
    have "k \<in> set (map fst kws)" using kv keys by force
    then obtain w where w: "map_of kws k = Some w" by (metis map_of_eq_None_iff option.exhaust_sel list.set_map)
    have "map_of kvs k = Some v" using kv assms(1) by simp
    with vals [OF map_of_SomeD [OF w]] w show ?thesis by simp
  qed
  with len show ?thesis by (auto simp: list_all_iff)
qed

section \<open>Whitelisted events are their delta\<close>

lemma str_value_Some: "str_value v = Some s \<longleftrightarrow> v = Some (JStr s)"
  by (cases v rule: str_value.cases) auto

lemma num_value_Some: "num_value v = Some r \<longleftrightarrow> v = Some (JNum r)"
  by (cases v rule: num_value.cases) auto

lemma safe_value_Some: "safe_value v = Some n \<longleftrightarrow> v = Some (JInt n) \<and> safe_int n"
  by (cases v rule: safe_value.cases) (auto simp: safe_integer_def)

lemma has_exact_keys_obj: "has_exact_keys v ks \<Longrightarrow> ks \<noteq> [] \<Longrightarrow> \<exists>kvs. v = JObj kvs"
  by (cases v) (auto simp: has_exact_keys_def)

definition delta_ok :: "delta \<Rightarrow> bool" where
  "delta_ok d \<longleftrightarrow> 0 \<le> de_seq d \<and> safe_int (de_seq d) \<and> safe_int (de_time d)"

lemma classify_chunk_deep_eq:
  assumes body: "classify_chunk c = Some b" and i: "jget c ''index'' = Some (JNum i)" and wf: "json_wf c"
  shows "json_deep_eq c (body_json i b)"
proof -
  from body have ex: "\<exists>ks. has_exact_keys c ks \<and> ks \<noteq> []"
    by (auto simp: classify_chunk_def split: if_splits option.splits)
  then obtain kvs where c: "c = JObj kvs" using has_exact_keys_obj by blast
  obtain kws where kws: "body_json i b = JObj kws" by (cases b) (simp_all add: body_json_def)
  have exact: "has_exact_keys c (map fst kws)" "distinct (map fst kws)"
    and get: "(k, w) \<in> set kws \<Longrightarrow> jget c k = Some w" for k w
    using body i kws
    by (auto simp: classify_chunk_def body_json_def str_value_Some split: if_splits option.splits)
  have refl: "(k, w) \<in> set kws \<Longrightarrow> json_deep_eq w w" for k w
    using kws by (auto simp: body_json_def split: delta_body.splits option.splits)
  show ?thesis
    unfolding kws c
  proof (rule exact_keys_deep_eq)
    fix k w v
    assume "(k, w) \<in> set kws" "map_of kvs k = Some v"
    with get [of k w] refl [of k w] c show "json_deep_eq v w" by simp
  qed (use wf c exact in auto)
qed

lemma classify_deep_eq:
  assumes cl: "classify e = Some d" and wf: "json_wf e"
  shows "json_deep_eq e (delta_event d)" and "delta_ok d"
proof -
  from cl obtain data chunk where type: "jget e ''type'' = Some (JStr ''assistant/chunk'')"
    and exact: "has_exact_keys e [''type'', ''seq'', ''time'', ''data'']"
    and seq: "jget e ''seq'' = Some (JInt (de_seq d))" "safe_int (de_seq d)" "0 \<le> de_seq d"
    and time: "jget e ''time'' = Some (JInt (de_time d))" "safe_int (de_time d)"
    and data: "jget e ''data'' = Some data" and dk: "has_exact_keys data [''turn'', ''step'', ''chunk'']"
    and turn: "jget data ''turn'' = Some (JNum (de_turn d))" and step: "jget data ''step'' = Some (JNum (de_step d))"
    and chunk: "jget data ''chunk'' = Some chunk" and ix: "jget chunk ''index'' = Some (JNum (de_index d))"
    and body: "classify_chunk chunk = Some (de_body d)"
    by (auto simp: classify_def num_value_Some safe_value_Some split: if_splits option.splits)
  show "delta_ok d" using seq time by (simp add: delta_ok_def)
  have wfd: "json_wf data" using json_wf_get [OF wf data] .
  have wfc: "json_wf chunk" using json_wf_get [OF wfd chunk] .
  have "json_deep_eq chunk (body_json (de_index d) (de_body d))"
    by (rule classify_chunk_deep_eq [OF body ix wfc])
  moreover obtain dkvs where d: "data = JObj dkvs" using has_exact_keys_obj [OF dk] by auto
  ultimately have deq: "json_deep_eq data (JObj [(''turn'', JNum (de_turn d)), (''step'', JNum (de_step d)),
        (''chunk'', body_json (de_index d) (de_body d))])"
    unfolding d using wfd dk turn step chunk d
    by (intro exact_keys_deep_eq) (auto simp del: map_of_eq_Some_iff)
  obtain kvs where e: "e = JObj kvs" using has_exact_keys_obj [OF exact] by auto
  show "json_deep_eq e (delta_event d)"
    unfolding e delta_event_def using wf exact type seq time data deq e
    by (intro exact_keys_deep_eq) (auto simp del: map_of_eq_Some_iff)
qed

section \<open>Rows decode to their run\<close>

definition row_ok :: "chunk_row \<Rightarrow> bool" where
  "row_ok r \<longleftrightarrow> 0 \<le> cr_seq0 r \<and> safe_int (cr_seq0 r) \<and> safe_int (cr_time0 r) \<and>
     members (cr_payload r) \<noteq> [] \<and> length (cr_dt r) + 1 = length (members (cr_payload r)) \<and>
     list_all safe_int (cr_dt r) \<and>
     safe_int (double_round (cr_seq0 r + int (length (members (cr_payload r)))) - 1) \<and>
     times_safe (cr_time0 r) (cr_dt r)"

lemma all_some_strings [simp]: "all_some (map (\<lambda>x. str_value (Some x)) (map JStr ss)) = Some ss"
  by (induction ss) auto

lemma all_some_safe: "list_all safe_int ns \<Longrightarrow> all_some (map (\<lambda>x. safe_value (Some x)) (map JInt ns)) = Some ns"
  by (induction ns) auto

lemma validate_run_data_ok:
  assumes "jget data ''turn'' = Some (JNum a)" and "jget data ''step'' = Some (JNum b)"
    and "jget data ''index'' = Some (JNum c)" and "jget data key = Some (JArr (map JStr ss))"
    and "jget data ''dt'' = Some (JArr (map JInt dt))" and "ss \<noteq> []" and "list_all safe_int dt"
    and "length dt + 1 = length ss"
  shows "validate_run_data data key = Inr (a, b, c, dt, ss)"
  using assms all_some_safe [OF assms(7)] all_some_strings [of ss]
  by (simp add: validate_run_data_def del: map_map str_value.simps safe_value.simps all_some_strings)

definition row_data_json :: "chunk_row \<Rightarrow> json" where
  "row_data_json r = JObj
        ([(''turn'', JNum (cr_turn r)), (''step'', JNum (cr_step r)), (''index'', JNum (cr_index r)),
          (''dt'', JArr (map JInt (cr_dt r)))] @
         (case cr_payload r of
            ToolRow i n as \<Rightarrow> [(''id'', JStr i)] @ (case n of Some s \<Rightarrow> [(''name'', JStr s)] | None \<Rightarrow> []) @
              [(''args'', JArr (map JStr as))]
          | p \<Rightarrow> [(''texts'', JArr (map JStr (members p)))]))"

lemma validate_row_data_json:
  assumes "row_ok r"
  shows "validate_row_data (row_data_json r) (row_tag (cr_payload r)) =
    Inr (cr_turn r, cr_step r, cr_index r, cr_dt r, cr_payload r)"
proof (cases "cr_payload r")
  case (TextRow ts)
  have "validate_run_data (row_data_json r) ''texts'' = Inr (cr_turn r, cr_step r, cr_index r, cr_dt r, ts)"
    using assms TextRow by (intro validate_run_data_ok) (auto simp: row_ok_def row_data_json_def)
  then show ?thesis
    using TextRow by (simp add: validate_row_data_def row_tag_def) (simp add: row_data_json_def has_exact_keys_def)
next
  case (ReasoningRow ts)
  have "validate_run_data (row_data_json r) ''texts'' = Inr (cr_turn r, cr_step r, cr_index r, cr_dt r, ts)"
    using assms ReasoningRow by (intro validate_run_data_ok) (auto simp: row_ok_def row_data_json_def)
  then show ?thesis
    using ReasoningRow by (simp add: validate_row_data_def row_tag_def) (simp add: row_data_json_def has_exact_keys_def)
next
  case (ToolRow i n ts)
  have run: "validate_run_data (row_data_json r) ''args'' = Inr (cr_turn r, cr_step r, cr_index r, cr_dt r, ts)"
    using assms ToolRow by (intro validate_run_data_ok) (auto simp: row_ok_def row_data_json_def split: option.split)
  have "jget (row_data_json r) ''id'' = Some (JStr i)" "jget (row_data_json r) ''name'' = map_option JStr n"
    "has_exact_keys (row_data_json r) [''turn'', ''step'', ''index'', ''id'', ''name'', ''dt'', ''args''] \<longleftrightarrow> n \<noteq> None"
    "n = None \<Longrightarrow> has_exact_keys (row_data_json r) [''turn'', ''step'', ''index'', ''id'', ''dt'', ''args'']"
    using ToolRow by (cases n; simp add: row_data_json_def has_exact_keys_def)+
  with ToolRow run show ?thesis
    by (cases n) (simp_all add: validate_row_data_def row_tag_def)
qed

lemma validate_row_json:
  assumes "row_ok r"
  shows "validate_row (row_json r) (row_tag (cr_payload r)) = Inr r"
proof -
  have "row_json r = JObj [(''type'', JStr (row_tag (cr_payload r))), (''seq0'', JInt (cr_seq0 r)),
      (''time0'', JInt (cr_time0 r)), (''data'', row_data_json r)]"
    by (simp add: row_json_def row_data_json_def)
  moreover have "is_record (row_data_json r)" by (simp add: row_data_json_def)
  moreover have "safe_int (double_round (double_round (cr_seq0 r + int (length (members (cr_payload r)))) - 1))"
    using assms by (simp add: row_ok_def)
  ultimately show ?thesis
    using assms validate_row_data_json [OF assms]
    by (simp add: validate_row_def has_exact_keys_def row_ok_def)
qed

lemma row_json_type: "jget (row_json r) ''type'' = Some (JStr (row_tag (cr_payload r)))"
  by (simp add: row_json_def)

lemma row_tag_in: "row_tag p \<in> set row_tags"
  by (cases p) (simp_all add: row_tag_def row_tags_def)

lemma decode_row_json: "row_ok r \<Longrightarrow> decode_storage_record (row_json r) = Inr (expand_row r)"
  by (simp add: decode_storage_record_def row_json_type row_tag_in validate_row_json)

fun run_ok :: "delta list \<Rightarrow> bool" where
  "run_ok [] = False"
| "run_ok [d] = delta_ok d"
| "run_ok (a # b # ds) =
     (delta_ok a \<and> kind_of (de_body a) = kind_of (de_body b) \<and> continues a b \<and> run_ok (b # ds))"

lemma run_ok_snoc:
  "run_ok ds \<Longrightarrow> delta_ok d \<Longrightarrow> kind_of (de_body d) = kind_of (de_body (last ds)) \<Longrightarrow> continues (last ds) d \<Longrightarrow>
     run_ok (ds @ [d])"
  by (induction ds rule: run_ok.induct) auto

lemma run_ok_head: "run_ok (d # ds) \<Longrightarrow> delta_ok d"
  by (cases ds) auto

lemma length_gaps: "ds \<noteq> [] \<Longrightarrow> length (gaps ds) + 1 = length ds"
  by (induction ds rule: gaps.induct) auto

lemma gap_exact: "continues a b \<Longrightarrow> double_round (de_time b - de_time a) = de_time b - de_time a"
  by (simp add: continues_def double_round_safe)

lemma run_gaps: "run_ok ds \<Longrightarrow> list_all safe_int (gaps ds) \<and> times_safe (de_time (hd ds)) (gaps ds)"
proof (induction ds rule: run_ok.induct)
  case (3 a b ds)
  then have "safe_int (de_time b)" using run_ok_head by (auto simp: delta_ok_def)
  with 3 show ?case by (simp add: gap_exact continues_def double_round_safe Let_def)
qed auto

lemma run_last_seq: "run_ok ds \<Longrightarrow> safe_int (de_seq (hd ds) + int (length ds) - 1)"
proof (induction ds rule: run_ok.induct)
  case (3 a b ds)
  then show ?case by (simp add: continues_def algebra_simps)
qed (auto simp: delta_ok_def)

lemma member_body_continues:
  "member_body p (body_text (de_body a)) = de_body a \<Longrightarrow> continues a b \<Longrightarrow>
     kind_of (de_body a) = kind_of (de_body b) \<Longrightarrow> member_body p (body_text (de_body b)) = de_body b"
  by (cases p; cases "de_body a"; cases "de_body b") (auto simp: continues_def)

lemma expand_run:
  "run_ok ds \<Longrightarrow> de_seq (hd ds) = cr_seq0 r + int k \<Longrightarrow> de_turn (hd ds) = cr_turn r \<Longrightarrow>
   de_step (hd ds) = cr_step r \<Longrightarrow> de_index (hd ds) = cr_index r \<Longrightarrow>
   member_body (cr_payload r) (body_text (de_body (hd ds))) = de_body (hd ds) \<Longrightarrow>
     expand_from r k (de_time (hd ds)) (gaps ds) (map (body_text \<circ> de_body) ds) = map delta_event ds"
proof (induction ds arbitrary: k rule: run_ok.induct)
  case (2 d)
  then show ?case by (cases d) (simp add: delta_ok_def double_round_safe)
next
  case (3 a b ds)
  have c: "continues a b" "kind_of (de_body a) = kind_of (de_body b)" "delta_ok a" "delta_ok b"
    using 3 run_ok_head by auto
  have "expand_from r (Suc k) (de_time (hd (b # ds))) (gaps (b # ds)) (map (body_text \<circ> de_body) (b # ds)) =
      map delta_event (b # ds)"
  proof (rule "3.IH")
    show "member_body (cr_payload r) (body_text (de_body (hd (b # ds)))) = de_body (hd (b # ds))"
      using 3 c member_body_continues [of "cr_payload r" a b] by simp
  qed (use 3 c in \<open>auto simp: continues_def\<close>)
  then have rest: "expand_from r (Suc k) (de_time b) (gaps (b # ds)) (map (body_text \<circ> de_body) (b # ds)) =
      map delta_event (b # ds)" by (simp only: list.sel)
  have time: "double_round (de_time a + double_round (de_time b - de_time a)) = de_time b"
    using c by (simp add: gap_exact delta_ok_def double_round_safe)
  have seq: "double_round (cr_seq0 r + int k) = de_seq a"
    using 3 c by (simp add: delta_ok_def double_round_safe)
  have first: "\<lparr>de_seq = de_seq a, de_time = de_time a, de_turn = cr_turn r, de_step = cr_step r, de_index = cr_index r,
      de_body = member_body (cr_payload r) ((body_text \<circ> de_body) a)\<rparr> = a"
    using 3 by (cases a) simp
  have "expand_from r k (de_time (hd (a # b # ds))) (gaps (a # b # ds)) (map (body_text \<circ> de_body) (a # b # ds)) =
      delta_event a # expand_from r (Suc k) (de_time b) (gaps (b # ds)) (map (body_text \<circ> de_body) (b # ds))"
    by (simp only: list.map gaps.simps expand_from.simps list.case list.sel time seq first)
  from this rest show ?case by (simp only: list.map)
qed simp

lemma build_row_ok:
  assumes "run_ok ds"
  shows "row_ok (build_row ds) \<and> expand_row (build_row ds) = map delta_event ds"
proof -
  have ne: "ds \<noteq> []" using assms by auto
  have d: "delta_ok (hd ds)" using assms run_ok_head by (cases ds) auto
  let ?r = "build_row ds"
  have mem: "members (cr_payload ?r) = map (body_text \<circ> de_body) ds"
    by (cases "de_body (hd ds)") (simp_all add: build_row_def Let_def)
  have body: "member_body (cr_payload ?r) (body_text (de_body (hd ds))) = de_body (hd ds)"
    by (cases "de_body (hd ds)") (simp_all add: build_row_def Let_def)
  have hd: "cr_seq0 ?r = de_seq (hd ds)" "cr_time0 ?r = de_time (hd ds)" "cr_turn ?r = de_turn (hd ds)"
    "cr_step ?r = de_step (hd ds)" "cr_index ?r = de_index (hd ds)" "cr_dt ?r = gaps ds"
    by (simp_all add: build_row_def Let_def)
  have last: "safe_int (de_seq (hd ds) + int (length ds) - 1)" using run_last_seq [OF assms] .
  have "\<bar>de_seq (hd ds) + int (length ds)\<bar> \<le> 2 ^ 53"
    using last d by (auto simp: safe_int_def max_safe_def delta_ok_def)
  then have "double_round (de_seq (hd ds) + int (length ds)) = de_seq (hd ds) + int (length ds)"
    by (rule double_round_le)
  then have "row_ok ?r"
    using d last run_gaps [OF assms] length_gaps [OF ne] ne unfolding row_ok_def mem hd
    by (simp add: delta_ok_def)
  moreover have "expand_row ?r = map delta_event ds"
    unfolding expand_row_def mem hd using assms body hd by (intro expand_run) simp_all
  ultimately show ?thesis ..
qed

section \<open>Packing then decoding\<close>

lemma decode_all_append:
  "decode_all (xs @ ys) = rbind (decode_all xs) (\<lambda>as. rbind (decode_all ys) (\<lambda>bs. Inr (as @ bs)))"
proof (induction xs)
  case Nil
  show ?case by (cases "decode_all ys") simp_all
next
  case (Cons x xs)
  then show ?case
    by (cases "decode_storage_record x"; cases "decode_all xs"; cases "decode_all ys") simp_all
qed

definition row_tagged :: "json \<Rightarrow> bool" where
  "row_tagged v \<longleftrightarrow> (\<exists>tag \<in> set row_tags. jget v ''type'' = Some (JStr tag))"

lemma decode_plain: "\<not> row_tagged v \<Longrightarrow> decode_storage_record v = Inr [v]"
  by (auto simp: row_tagged_def decode_storage_record_def split: option.splits json.splits)

lemma decode_all_plain: "\<forall>v \<in> set vs. \<not> row_tagged v \<Longrightarrow> decode_all vs = Inr vs"
  by (induction vs) (auto simp: decode_plain)

definition pack_ok :: "json list \<Rightarrow> pack_state \<Rightarrow> bool" where
  "pack_ok es st \<longleftrightarrow>
     (\<exists>pre fs. es = pre @ map fst (pk_run st) \<and> decode_all (pk_out st) = Inr fs \<and> list_all2 json_deep_eq pre fs) \<and>
     (\<forall>(e, d) \<in> set (pk_run st). classify e = Some d) \<and>
     (pk_run st = [] \<or> run_ok (map snd (pk_run st)))"

lemma flush_ok:
  assumes inv: "pack_ok es st" and wf: "\<forall>e \<in> set es. json_wf e \<and> \<not> row_tagged e"
  shows "pack_ok es (flush st) \<and> pk_run (flush st) = []"
proof -
  let ?run = "pk_run st"
  from inv obtain pre fs where es: "es = pre @ map fst ?run" and out: "decode_all (pk_out st) = Inr fs"
    and rel: "list_all2 json_deep_eq pre fs" by (auto simp: pack_ok_def)
  have cl: "\<forall>(e, d) \<in> set ?run. classify e = Some d" using inv by (simp add: pack_ok_def)
  have run_wf: "\<forall>e \<in> set (map fst ?run). json_wf e \<and> \<not> row_tagged e" using wf es by auto
  have "\<exists>gs. decode_all (pk_out (flush st)) = Inr (fs @ gs) \<and> list_all2 json_deep_eq (map fst ?run) gs"
  proof (cases "length ?run \<ge> MIN_RUN")
    case True
    then have "?run \<noteq> []" by (auto simp: MIN_RUN_def)
    with inv have "run_ok (map snd ?run)" by (simp add: pack_ok_def)
    from build_row_ok [OF this] have "decode_all [row_json (build_row (map snd ?run))] = Inr (map delta_event (map snd ?run))"
      by (simp add: decode_row_json)
    moreover have "json_deep_eq e (delta_event d)" if "(e, d) \<in> set ?run" for e d
      using that cl run_wf by (intro classify_deep_eq(1)) force+
    then have "list_all2 json_deep_eq (map fst ?run) (map delta_event (map snd ?run))"
      by (auto simp: list_all2_map1 list_all2_map2 list_all2_same)
    ultimately show ?thesis
      using True out by (intro exI [of _ "map delta_event (map snd ?run)"]) (simp add: flush_def Let_def decode_all_append)
  next
    case False
    have "list_all2 json_deep_eq (map fst ?run) (map fst ?run)"
      using run_wf by (auto simp: list_all2_same json_deep_eq_refl)
    moreover have "decode_all (map fst ?run) = Inr (map fst ?run)" using run_wf by (intro decode_all_plain) auto
    ultimately show ?thesis
      using False out by (intro exI [of _ "map fst ?run"]) (simp add: flush_def Let_def decode_all_append)
  qed
  then obtain gs where "decode_all (pk_out (flush st)) = Inr (fs @ gs)" "list_all2 json_deep_eq (map fst ?run) gs"
    by blast
  with rel es have "decode_all (pk_out (flush st)) = Inr (fs @ gs) \<and> list_all2 json_deep_eq es (fs @ gs)"
    by (auto intro: list_all2_appendI)
  then show ?thesis by (auto simp: pack_ok_def flush_def Let_def)
qed

lemma pack_step_ok:
  assumes inv: "pack_ok es st" and wf: "\<forall>x \<in> set (es @ [e]). json_wf x \<and> \<not> row_tagged x"
  shows "pack_ok (es @ [e]) (pack_step st e)"
proof -
  have fl: "pack_ok es (flush st)" "pk_run (flush st) = []" using flush_ok [OF inv] wf by auto
  then obtain fs where fs: "decode_all (pk_out (flush st)) = Inr fs" "list_all2 json_deep_eq es fs"
    by (auto simp: pack_ok_def)
  show ?thesis
  proof (cases "classify e")
    case None
    have "json_deep_eq e e" using wf by (simp add: json_deep_eq_refl)
    then have "list_all2 json_deep_eq (es @ [e]) (fs @ [e])" using fs(2) by (auto intro: list_all2_appendI)
    with None fs wf fl(2) show ?thesis
      by (auto simp: pack_step_def Let_def pack_ok_def decode_all_append decode_plain)
  next
    case (Some d)
    have dok: "delta_ok d" using classify_deep_eq(2) [OF Some] wf by simp
    show ?thesis
    proof (cases "pk_run st \<noteq> [] \<and> kind_of (de_body d) = kind_of (de_body (snd (last (pk_run st)))) \<and>
           continues (snd (last (pk_run st))) d")
      case True
      then have "run_ok (map snd (pk_run st) @ [d])"
        using inv dok by (intro run_ok_snoc) (auto simp: pack_ok_def last_map)
      with True Some inv show ?thesis by (auto simp: pack_step_def pack_ok_def)
    next
      case False
      with Some fl fs dok show ?thesis by (auto simp: pack_step_def pack_ok_def)
    qed
  qed
qed

lemma pack_fold_ok:
  "\<forall>x \<in> set es. json_wf x \<and> \<not> row_tagged x \<Longrightarrow> pack_ok es (foldl pack_step \<lparr>pk_out = [], pk_run = []\<rparr> es)"
proof (induction es rule: rev_induct)
  case Nil
  show ?case by (simp add: pack_ok_def)
next
  case (snoc e es)
  then show ?case by (simp add: pack_step_ok)
qed

section \<open>Properties\<close>

lemma pack_decodes:
  assumes "\<forall>e \<in> set events. json_wf e \<and> \<not> row_tagged e"
  shows "\<exists>ds. decode_all (pack_chunk_runs events) = Inr ds \<and> list_all2 json_deep_eq events ds"
proof -
  have "pack_ok events (flush (foldl pack_step \<lparr>pk_out = [], pk_run = []\<rparr> events))"
    "pk_run (flush (foldl pack_step \<lparr>pk_out = [], pk_run = []\<rparr> events)) = []"
    using flush_ok [OF pack_fold_ok [OF assms] assms] by auto
  then show ?thesis by (auto simp: pack_ok_def pack_chunk_runs_def)
qed

text \<open>
  C6: Packing loses nothing: for events that are well-formed JSON objects and carry no row tag, the
  packed batch decodes without an error to the same number of events, in order, each deeply equal
  to the original (equal up to the order of object keys).
\<close>

theorem packed_batch_decodes_to_itself:
  assumes "\<forall>e \<in> set events. json_wf e \<and> \<not> row_tagged e"
  shows "\<exists>ds. decode_all (pack_chunk_runs events) = Inr ds \<and> list_all2 json_deep_eq events ds"
  using assms by (rule pack_decodes)

definition sample_delta :: "int \<Rightarrow> string \<Rightarrow> json" where
  "sample_delta q t = delta_event \<lparr>de_seq = q, de_time = 100 - q, de_turn = 1, de_step = 1, de_index = 0, de_body = TextBody t\<rparr>"

definition sample_deltas :: "json list" where
  "sample_deltas = [sample_delta 4 ''a'', sample_delta 5 ''b'', sample_delta 6 ''c'']"

lemma sample_deltas_ok: "\<forall>e \<in> set sample_deltas. json_wf e \<and> \<not> row_tagged e"
  by (simp add: sample_deltas_def sample_delta_def delta_event_def body_json_def row_tagged_def row_tags_def)

theorem packed_batch_decodes_to_itself_witness:
  "length (pack_chunk_runs sample_deltas) = 1 \<and>
   (\<exists>ds. decode_all (pack_chunk_runs sample_deltas) = Inr ds \<and> list_all2 json_deep_eq sample_deltas ds)"
proof -
  have "length (pack_chunk_runs sample_deltas) = 1" by code_simp
  with packed_batch_decodes_to_itself [OF sample_deltas_ok] show ?thesis by blast
qed

text \<open>
  The decoder's range check adds the member count to the first seq before it subtracts one, and that
  sum rounds at the end of the safe range: a row whose first seq is the largest safe integer and
  that has two members is accepted, and its second member gets a seq that is no safe integer.
\<close>

theorem row_range_check_admits_an_unsafe_seq:
  "\<exists>v e1 e2. decode_storage_record v = Inr [e1, e2] \<and> jget v ''seq0'' = Some (JInt max_safe) \<and>
     jget e2 ''seq'' = Some (JInt (max_safe + 1)) \<and> \<not> safe_int (max_safe + 1)"
proof -
  let ?r = "\<lparr>cr_seq0 = max_safe, cr_time0 = 0, cr_turn = 1, cr_step = 1, cr_index = 0, cr_dt = [0],
     cr_payload = TextRow [''a'', ''b'']\<rparr>"
  let ?d = "\<lambda>q t. \<lparr>de_seq = q, de_time = 0, de_turn = 1, de_step = 1, de_index = 0, de_body = TextBody t\<rparr>"
  have "row_ok ?r" by (simp add: row_ok_def max_safe_def safe_int_def double_round_def)
  moreover have "expand_row ?r = [delta_event (?d max_safe ''a''), delta_event (?d (max_safe + 1) ''b'')]"
    by (simp add: expand_row_def max_safe_def double_round_def)
  ultimately have "decode_storage_record (row_json ?r) =
      Inr [delta_event (?d max_safe ''a''), delta_event (?d (max_safe + 1) ''b'')]"
    by (simp add: decode_row_json)
  moreover have "jget (row_json ?r) ''seq0'' = Some (JInt max_safe)" by (simp add: row_json_def)
  moreover have "jget (delta_event (?d (max_safe + 1) ''b'')) ''seq'' = Some (JInt (max_safe + 1))"
    by (simp add: delta_event_def)
  moreover have "\<not> safe_int (max_safe + 1)" by (simp add: safe_int_def max_safe_def)
  ultimately show ?thesis by blast
qed

end
