(* ===== verification/Inbox.thy ===== *)
theory Inbox
  imports Session_Log
begin

text \<open>
  The durable agent inbox (\<open>packages/core/agent/src/inbox.ts\<close>): two pending-message lists, every
  mutation of which is recorded as one normalized splice event, and the replay that rebuilds the
  lists from a log. The splice payload (\<open>packages/core/agent/src/types.ts\<close>) is the plugin payload
  of the session's events. \<open>splice\<close> accepts any JavaScript number as a coordinate.
\<close>

section \<open>Data\<close>

datatype inbox_target = NextTurn | NextStep

record inbox_splice =
  sp_target :: inbox_target
  sp_start :: rat
  sp_removed :: "rat option"
  sp_inserted :: "message list"
  sp_canceled :: bool

record inbox_lists =
  ib_next_turn :: "message list"
  ib_next_step :: "message list"

datatype inbox_notice = InboxInserted message | InboxDiscarded message | InboxClaimed message int

datatype inbox_error = InvalidSplice | AlreadyPending message_id | AppendFailed session_error

definition trunc :: "rat \<Rightarrow> int" where
  "trunc r = (if r < 0 then - \<lfloor>- r\<rfloor> else \<lfloor>r\<rfloor>)"

fun list_of :: "inbox_target \<Rightarrow> inbox_lists \<Rightarrow> message list" where
  "list_of NextTurn l = ib_next_turn l"
| "list_of NextStep l = ib_next_step l"

fun with_list :: "inbox_target \<Rightarrow> message list \<Rightarrow> inbox_lists \<Rightarrow> inbox_lists" where
  "with_list NextTurn ms l = l\<lparr>ib_next_turn := ms\<rparr>"
| "with_list NextStep ms l = l\<lparr>ib_next_step := ms\<rparr>"

definition empty_inbox :: inbox_lists where
  "empty_inbox = \<lparr>ib_next_turn = [], ib_next_step = []\<rparr>"

text \<open>The pending messages of both lists, in the order \<open>validate\<close> walks them.\<close>

definition pending :: "inbox_lists \<Rightarrow> message list" where
  "pending l = ib_next_turn l @ ib_next_step l"

section \<open>Validation and replay\<close>

fun first_duplicate :: "message_id set \<Rightarrow> message list \<Rightarrow> message_id option" where
  "first_duplicate ids [] = None"
| "first_duplicate ids (m # ms) =
     (if msg_id m \<in> ids then Some (msg_id m) else first_duplicate (insert (msg_id m) ids) ms)"

definition splice_coordinates :: "inbox_splice \<Rightarrow> nat \<times> nat" where
  "splice_coordinates sp = (nat \<lfloor>sp_start sp\<rfloor>, nat \<lfloor>case sp_removed sp of None \<Rightarrow> 0 | Some n \<Rightarrow> n\<rfloor>)"

definition spliced_list :: "inbox_splice \<Rightarrow> inbox_lists \<Rightarrow> message list" where
  "spliced_list sp l = (case splice_coordinates sp of (i, n) \<Rightarrow>
     list_splice i n (sp_inserted sp) (list_of (sp_target sp) l))"

definition validate_splice :: "inbox_splice \<Rightarrow> inbox_lists \<Rightarrow> inbox_error + unit" where
  "validate_splice sp l =
     (let len = of_nat (length (list_of (sp_target sp) l));
          removed = (case sp_removed sp of None \<Rightarrow> 0 | Some n \<Rightarrow> n) in
      if \<not> safe_integer (sp_start sp) \<or> sp_start sp < 0 \<or> sp_start sp > len
         \<or> \<not> safe_integer removed \<or> removed < 0 \<or> sp_start sp + removed > len
      then Inl InvalidSplice
      else case first_duplicate {} (pending (with_list (sp_target sp) (spliced_list sp l) l)) of
          Some i \<Rightarrow> Inl (AlreadyPending i)
        | None \<Rightarrow> Inr ())"

definition apply_splice :: "inbox_splice \<Rightarrow> inbox_lists \<Rightarrow> inbox_error + inbox_lists" where
  "apply_splice sp l =
     rbind (validate_splice sp l) (\<lambda>_. Inr (with_list (sp_target sp) (spliced_list sp l) l))"

text \<open>The replay loop of the constructor.\<close>

definition inbox_step :: "inbox_lists \<Rightarrow> inbox_splice event \<Rightarrow> inbox_error + inbox_lists" where
  "inbox_step l e = (case ev_data e of PluginEvent sp \<Rightarrow> apply_splice sp l | _ \<Rightarrow> Inr l)"

definition seed_offset :: "'p session \<Rightarrow> nat" where
  "seed_offset s = (case sh_seed_length (ses_header s) of None \<Rightarrow> 0 | Some n \<Rightarrow> nat n)"

definition load_inbox :: "inbox_splice session \<Rightarrow> inbox_error + inbox_lists" where
  "load_inbox s = replay inbox_step empty_inbox (drop (seed_offset s) (ses_log s))"

section \<open>Live mutation\<close>

record inbox =
  ix_session :: "inbox_splice session"
  ix_lists :: inbox_lists
  ix_notices :: "inbox_notice list"

definition new_inbox :: "inbox_splice session \<Rightarrow> inbox_error + inbox" where
  "new_inbox s = rbind (load_inbox s) (\<lambda>l. Inr \<lparr>ix_session = s, ix_lists = l, ix_notices = []\<rparr>)"

fun actual_start :: "js_number \<Rightarrow> nat \<Rightarrow> nat" where
  "actual_start NaN len = 0"
| "actual_start PosInf len = len"
| "actual_start NegInf len = 0"
| "actual_start (Finite r) len =
     (let t = trunc r in if t < 0 then nat (max (int len + t) 0) else nat (min t (int len)))"

fun actual_delete_count :: "js_number \<Rightarrow> nat \<Rightarrow> nat" where
  "actual_delete_count NaN room = 0"
| "actual_delete_count PosInf room = room"
| "actual_delete_count NegInf room = 0"
| "actual_delete_count (Finite r) room = nat (min (max (trunc r) 0) (int room))"

definition normalized_splice :: "inbox_target \<Rightarrow> nat \<Rightarrow> nat \<Rightarrow> message list \<Rightarrow> bool \<Rightarrow> inbox_splice" where
  "normalized_splice target start cnt inserted discard =
     \<lparr>sp_target = target, sp_start = of_nat start, sp_removed = (if cnt = 0 then None else Some (of_nat cnt)),
      sp_inserted = inserted, sp_canceled = (discard \<and> cnt > 0)\<rparr>"

definition mutate ::
    "int \<Rightarrow> inbox_target \<Rightarrow> js_number \<Rightarrow> js_number \<Rightarrow> message list \<Rightarrow> bool \<Rightarrow> inbox
      \<Rightarrow> inbox \<times> (inbox_error + message list)" where
  "mutate now target start delete_count inserted discard ix =
     (let ms = list_of target (ix_lists ix);
          i = actual_start start (length ms);
          n = actual_delete_count delete_count (length ms - i) in
      if n = 0 \<and> inserted = [] then (ix, Inr [])
      else
        let sp = normalized_splice target i n inserted discard in
        case validate_splice sp (ix_lists ix) of
          Inl err \<Rightarrow> (ix, Inl err)
        | Inr _ \<Rightarrow>
            (case session_append now (PluginEvent sp) no_intent (ix_session ix) of
               (s', Inl err) \<Rightarrow> (ix\<lparr>ix_session := s'\<rparr>, Inl (AppendFailed err))
             | (s', Inr _) \<Rightarrow>
                 let removed = take n (drop i ms) in
                 (\<lparr>ix_session = s',
                   ix_lists = with_list target (list_splice i n inserted ms) (ix_lists ix),
                   ix_notices = ix_notices ix @ (if discard then map InboxDiscarded removed else []) @
                     map InboxInserted inserted\<rparr>, Inr removed)))"

definition splice ::
    "int \<Rightarrow> inbox_target \<Rightarrow> js_number \<Rightarrow> js_number \<Rightarrow> message list \<Rightarrow> inbox \<Rightarrow> inbox \<times> (inbox_error + message list)" where
  "splice now target start delete_count inserted ix = mutate now target start delete_count inserted True ix"

abbreviation js_num :: "nat \<Rightarrow> js_number" where
  "js_num n \<equiv> Finite (of_nat n)"

text \<open>Two mutations in a row: the second runs only if the first did not throw.\<close>

definition and_then ::
    "inbox \<times> (inbox_error + 'a) \<Rightarrow> ('a \<Rightarrow> inbox \<Rightarrow> inbox \<times> (inbox_error + 'b)) \<Rightarrow> inbox \<times> (inbox_error + 'b)" where
  "and_then r f = (case r of (ix, Inl err) \<Rightarrow> (ix, Inl err) | (ix, Inr a) \<Rightarrow> f a ix)"

definition clear :: "int \<Rightarrow> inbox \<Rightarrow> inbox \<times> (inbox_error + unit)" where
  "clear now ix =
     and_then (splice now NextStep (js_num 0) (js_num (length (ib_next_step (ix_lists ix)))) [] ix) (\<lambda>_ ix1.
     and_then (splice now NextTurn (js_num 0) (js_num (length (ib_next_turn (ix_lists ix1)))) [] ix1) (\<lambda>_ ix2.
       (ix2, Inr ())))"

definition claim :: "int \<Rightarrow> inbox_target \<Rightarrow> int \<Rightarrow> inbox \<Rightarrow> inbox \<times> (inbox_error + message list)" where
  "claim now target turn ix =
     and_then (mutate now NextStep (js_num 0) (js_num (length (ib_next_step (ix_lists ix)))) [] False ix) (\<lambda>claimed ix1.
     and_then (if target = NextTurn then mutate now NextTurn (js_num 0) (js_num 1) [] False ix1 else (ix1, Inr []))
       (\<lambda>queued ix2.
         (ix2\<lparr>ix_notices := ix_notices ix2 @ map (\<lambda>m. InboxClaimed m turn) (claimed @ queued)\<rparr>, Inr (claimed @ queued))))"

definition append_message :: "int \<Rightarrow> inbox_target \<Rightarrow> message \<Rightarrow> inbox \<Rightarrow> inbox \<times> (inbox_error + message list)" where
  "append_message now target m ix = splice now target (js_num (length (list_of target (ix_lists ix)))) (js_num 0) [m] ix"

definition prepend_message :: "int \<Rightarrow> inbox_target \<Rightarrow> message \<Rightarrow> inbox \<Rightarrow> inbox \<times> (inbox_error + message list)" where
  "prepend_message now target m ix = splice now target (js_num 0) (js_num 0) [m] ix"

text \<open>\<open>findIndex\<close> by identity, next-turn first.\<close>

fun find_id :: "message_id \<Rightarrow> message list \<Rightarrow> nat option" where
  "find_id i [] = None"
| "find_id i (m # ms) = (if msg_id m = i then Some 0 else map_option Suc (find_id i ms))"

definition locate :: "message_id \<Rightarrow> inbox_lists \<Rightarrow> (inbox_target \<times> nat) option" where
  "locate i l = (case find_id i (ib_next_turn l) of
      Some k \<Rightarrow> Some (NextTurn, k)
    | None \<Rightarrow> (case find_id i (ib_next_step l) of Some k \<Rightarrow> Some (NextStep, k) | None \<Rightarrow> None))"

definition replace_message :: "int \<Rightarrow> message_id \<Rightarrow> message \<Rightarrow> inbox \<Rightarrow> inbox \<times> (inbox_error + bool)" where
  "replace_message now i m ix = (case locate i (ix_lists ix) of
      None \<Rightarrow> (ix, Inr False)
    | Some (target, k) \<Rightarrow> and_then (splice now target (js_num k) (js_num 1) [m] ix) (\<lambda>_ ix1. (ix1, Inr True)))"

definition remove_message :: "int \<Rightarrow> message_id \<Rightarrow> inbox \<Rightarrow> inbox \<times> (inbox_error + bool)" where
  "remove_message now i ix = (case locate i (ix_lists ix) of
      None \<Rightarrow> (ix, Inr False)
    | Some (target, k) \<Rightarrow> and_then (splice now target (js_num k) (js_num 1) [] ix) (\<lambda>_ ix1. (ix1, Inr True)))"

section \<open>One splice\<close>

lemma first_duplicate_None: "first_duplicate ids ms = None \<longleftrightarrow> distinct (map msg_id ms) \<and> set (map msg_id ms) \<inter> ids = {}"
  by (induction ids ms rule: first_duplicate.induct) auto

lemma list_of_with_list [simp]:
  "list_of t (with_list t ms l) = ms" "t \<noteq> u \<Longrightarrow> list_of u (with_list t ms l) = list_of u l"
  by (cases t; cases u; simp)+

lemma mset_pending: "mset (pending (with_list t ms l)) + mset (list_of t l) = mset (pending l) + mset ms"
  by (cases t) (simp_all add: pending_def)

definition inbox_ok :: "inbox_lists \<Rightarrow> bool" where
  "inbox_ok l \<longleftrightarrow> distinct (map msg_id (pending l))"

lemma apply_splice_ok: "apply_splice sp l = Inr l' \<Longrightarrow> inbox_ok l'"
  by (auto simp: apply_splice_def rbind_Inr_iff validate_splice_def Let_def inbox_ok_def first_duplicate_None
      split: if_splits option.splits)

interpretation inbox_replay: replayed inbox_step empty_inbox "\<lambda>_. inbox_ok"
proof
  show "inbox_ok empty_inbox" by (simp add: inbox_ok_def empty_inbox_def pending_def)
next
  fix xs :: "inbox_splice event list" and l l' and e :: "inbox_splice event"
  assume "inbox_ok l" and "inbox_step l e = Inr l'"
  then show "inbox_ok l'" by (auto simp: inbox_step_def apply_splice_ok split: event_data.splits)
qed

lemma trunc_of_int [simp]: "trunc (of_int n) = n" "trunc (of_nat k) = int k" "trunc 0 = 0" "trunc 1 = 1"
  by (auto simp: trunc_def)

lemma actual_start_le: "actual_start x len \<le> len"
  by (cases x) (auto simp: Let_def)

lemma actual_delete_count_le: "actual_delete_count x room \<le> room"
  by (cases x) auto

lemma actual_js_num [simp]: "actual_start (js_num k) len = min k len" "actual_delete_count (js_num k) room = min k room"
  by (auto simp: Let_def)

lemma normalized_coordinates [simp]: "splice_coordinates (normalized_splice t i n ms d) = (i, n)"
  by (simp add: splice_coordinates_def normalized_splice_def)

lemma spliced_normalized [simp]:
  "spliced_list (normalized_splice t i n ms d) l = list_splice i n ms (list_of t l)"
  by (simp add: spliced_list_def) (simp add: normalized_splice_def)

lemma normalized_simps [simp]:
  "sp_target (normalized_splice t i n ms d) = t" "sp_inserted (normalized_splice t i n ms d) = ms"
  by (simp_all add: normalized_splice_def)

section \<open>The live lists are the replay of the log\<close>

definition inbox_inv :: "inbox \<Rightarrow> bool" where
  "inbox_inv ix \<longleftrightarrow> session_ok (ix_session ix) \<and> seed_offset (ix_session ix) \<le> length (ses_log (ix_session ix)) \<and>
     load_inbox (ix_session ix) = Inr (ix_lists ix)"

lemma inbox_inv_distinct: "inbox_inv ix \<Longrightarrow> inbox_ok (ix_lists ix)"
  using inbox_replay.run_hist by (auto simp: inbox_inv_def load_inbox_def)

lemma new_inbox_inv:
  "session_ok s \<Longrightarrow> seed_offset s \<le> length (ses_log s) \<Longrightarrow> new_inbox s = Inr ix \<Longrightarrow> inbox_inv ix"
  by (auto simp: new_inbox_def rbind_Inr_iff inbox_inv_def)

text \<open>What a mutation did: nothing, or one accepted splice.\<close>

lemma mutate_cases:
  assumes inv: "inbox_inv ix" and m: "mutate now target start delete_count inserted discard ix = (ix', r)"
  obtains
    (idle) "ix' = ix" "r = Inr []" "inserted = []"
      "actual_delete_count delete_count (length (list_of target (ix_lists ix)) -
         actual_start start (length (list_of target (ix_lists ix)))) = 0"
  | (rejected) i n err where "ix' = ix" "r = Inl err" "i + n \<le> length (list_of target (ix_lists ix))"
      "i = actual_start start (length (list_of target (ix_lists ix)))"
      "n = actual_delete_count delete_count (length (list_of target (ix_lists ix)) - i)"
      "validate_splice (normalized_splice target i n inserted discard) (ix_lists ix) = Inl err"
  | (spliced) i n where "i + n \<le> length (list_of target (ix_lists ix))" "n > 0 \<or> inserted \<noteq> []"
      "r = Inr (take n (drop i (list_of target (ix_lists ix))))"
      "i = actual_start start (length (list_of target (ix_lists ix)))"
      "n = actual_delete_count delete_count (length (list_of target (ix_lists ix)) - i)"
      "ix_lists ix' = with_list target (list_splice i n inserted (list_of target (ix_lists ix))) (ix_lists ix)"
      "ix_notices ix' = ix_notices ix @
         (if discard then map InboxDiscarded (take n (drop i (list_of target (ix_lists ix)))) else []) @
         map InboxInserted inserted"
      "ses_log (ix_session ix') = ses_log (ix_session ix) @ [log_event (int (length (ses_log (ix_session ix)))) now
         (PluginEvent (normalized_splice target i n inserted discard))]"
      "inbox_inv ix'"
proof -
  let ?ms = "list_of target (ix_lists ix)"
  define i where "i = actual_start start (length ?ms)"
  define n where "n = actual_delete_count delete_count (length ?ms - i)"
  let ?sp = "normalized_splice target i n inserted discard"
  have i: "i \<le> length ?ms" by (simp add: i_def actual_start_le)
  have n: "n \<le> length ?ms - i" by (simp add: n_def actual_delete_count_le)
  have mut: "mutate now target start delete_count inserted discard ix =
     (if n = 0 \<and> inserted = [] then (ix, Inr [])
      else case validate_splice ?sp (ix_lists ix) of
          Inl err \<Rightarrow> (ix, Inl err)
        | Inr _ \<Rightarrow>
            (case session_append now (PluginEvent ?sp) no_intent (ix_session ix) of
               (s', Inl err) \<Rightarrow> (ix\<lparr>ix_session := s'\<rparr>, Inl (AppendFailed err))
             | (s', Inr _) \<Rightarrow>
                 (\<lparr>ix_session = s',
                   ix_lists = with_list target (list_splice i n inserted ?ms) (ix_lists ix),
                   ix_notices = ix_notices ix @ (if discard then map InboxDiscarded (take n (drop i ?ms)) else []) @
                     map InboxInserted inserted\<rparr>, Inr (take n (drop i ?ms)))))"
    by (simp only: mutate_def Let_def i_def n_def)
  show thesis
  proof (cases "n = 0 \<and> inserted = []")
    case True
    with m [unfolded mut] have "ix' = ix" and "r = Inr []" by simp_all
    show thesis
      by (rule idle [OF \<open>ix' = ix\<close> \<open>r = Inr []\<close>]) (use True in \<open>simp_all add: n_def i_def\<close>)
  next
    case False
    show thesis
    proof (cases "validate_splice ?sp (ix_lists ix)")
      case (Inl err)
      with False m [unfolded mut] rejected [of err i n] i n show thesis by (auto simp: i_def n_def)
    next
      case (Inr u)
      have ok: "session_ok (ix_session ix)" using inv by (simp add: inbox_inv_def)
      let ?e = "log_event (int (length (ses_log (ix_session ix)))) now (PluginEvent ?sp)"
      obtain s' where s': "session_append now (PluginEvent ?sp) no_intent (ix_session ix) = (s', Inr ?e)"
        "session_ok s'" "ses_log s' = ses_log (ix_session ix) @ [?e]" "ses_header s' = ses_header (ix_session ix)"
        using append_log_only [OF ok, of "PluginEvent ?sp" now] by auto
      let ?lists = "with_list target (list_splice i n inserted ?ms) (ix_lists ix)"
      have m': "ix' = \<lparr>ix_session = s', ix_lists = ?lists,
          ix_notices = ix_notices ix @ (if discard then map InboxDiscarded (take n (drop i ?ms)) else []) @
            map InboxInserted inserted\<rparr>" "r = Inr (take n (drop i ?ms))"
        using m [unfolded mut] False Inr s'(1) by auto
      have off: "seed_offset s' = seed_offset (ix_session ix)" by (simp add: seed_offset_def s'(4))
      have "load_inbox s' = Inr ?lists"
        using inv Inr by (simp add: load_inbox_def off s'(3) inbox_inv_def replay_snoc inbox_step_def apply_splice_def)
      then have "inbox_inv ix'" using inv s' off by (simp add: inbox_inv_def m')
      then show thesis
        by (rule spliced [OF _ _ m'(2) i_def n_def, rotated -1]) (use i n False m'(1) s'(3) in auto)
    qed
  qed
qed

lemma mutate_inv: "inbox_inv ix \<Longrightarrow> mutate now t a b ms d ix = (ix', r) \<Longrightarrow> inbox_inv ix'"
  by (rule mutate_cases) auto


text \<open>A pure deletion is never rejected.\<close>

lemma safe_integer_nat: "int k \<le> max_safe \<Longrightarrow> safe_integer (of_nat k)"
  by (simp add: safe_integer_def safe_int_def)

lemma list_splice_delete_distinct:
  assumes "distinct (map f (as @ xs @ bs))"
  shows "distinct (map f (as @ list_splice i n [] xs @ bs))"
proof -
  have xs: "xs = take i xs @ take n (drop i xs) @ drop (i + n) xs"
    by (metis append_take_drop_id drop_drop add.commute)
  show ?thesis
    using assms by (subst (asm) xs) (auto simp: list_splice_def)
qed

lemma deletion_accepted:
  assumes "inbox_ok l" and "i + n \<le> length (list_of t l)" and "int i \<le> max_safe" and "int n \<le> max_safe"
  shows "validate_splice (normalized_splice t i n [] d) l = Inr ()"
proof -
  have le: "(of_nat i :: rat) \<le> of_nat (length (list_of t l))" "of_nat i + of_nat n \<le> (of_nat (length (list_of t l)) :: rat)"
    using assms(2) by (simp_all flip: of_nat_add)
  have "distinct (map msg_id (pending (with_list t (list_splice i n [] (list_of t l)) l)))"
    using assms(1) list_splice_delete_distinct [of msg_id "[]" "ib_next_turn l" "ib_next_step l"]
      list_splice_delete_distinct [of msg_id "ib_next_turn l" "ib_next_step l" "[]"]
    by (cases t) (auto simp: inbox_ok_def pending_def)
  then have "first_duplicate {} (pending (with_list t (list_splice i n [] (list_of t l)) l)) = None"
    by (simp add: first_duplicate_None)
  then show ?thesis
    using le assms(3,4) safe_integer_nat [of 0]
    by (auto simp: validate_splice_def Let_def safe_integer_nat normalized_splice_def spliced_list_def splice_coordinates_def)
qed

section \<open>Operation sequences\<close>

text \<open>
  The public operations, and the appends of other components to the same log; \<open>run_op\<close> keeps
  whatever state the operation left, thrown or not.
\<close>

datatype inbox_op =
    OpClear | OpClaim inbox_target int | OpAppend inbox_target message | OpPrepend inbox_target message
  | OpReplace message_id message | OpRemove message_id
  | OpSplice inbox_target js_number js_number "message list"
  | OpForeign "inbox_splice event_data" surface_intent

fun is_splice :: "inbox_splice event_data \<Rightarrow> bool" where
  "is_splice (PluginEvent _) = True"
| "is_splice _ = False"

fun run_op :: "int \<Rightarrow> inbox_op \<Rightarrow> inbox \<Rightarrow> inbox" where
  "run_op now OpClear ix = fst (clear now ix)"
| "run_op now (OpClaim t turn) ix = fst (claim now t turn ix)"
| "run_op now (OpAppend t m) ix = fst (append_message now t m ix)"
| "run_op now (OpPrepend t m) ix = fst (prepend_message now t m ix)"
| "run_op now (OpReplace i m) ix = fst (replace_message now i m ix)"
| "run_op now (OpRemove i) ix = fst (remove_message now i ix)"
| "run_op now (OpSplice t a b ms) ix = fst (splice now t a b ms ix)"
| "run_op now (OpForeign d intent) ix =
     (if is_splice d then ix else ix\<lparr>ix_session := fst (session_append now d intent (ix_session ix))\<rparr>)"

fun run_ops :: "(int \<times> inbox_op) list \<Rightarrow> inbox \<Rightarrow> inbox" where
  "run_ops [] ix = ix"
| "run_ops ((now, p) # ps) ix = run_ops ps (run_op now p ix)"

text \<open>Every operation is a sequence of mutations, so what all mutations keep, all operations keep.\<close>

lemma inbox_step_foreign: "\<not> is_splice (ev_data e) \<Longrightarrow> inbox_step l e = Inr l"
  by (cases "ev_data e") (simp_all add: inbox_step_def)

lemma foreign_inv:
  assumes inv: "inbox_inv ix" and d: "\<not> is_splice d"
  shows "inbox_inv (ix\<lparr>ix_session := fst (session_append now d intent (ix_session ix))\<rparr>)"
proof -
  obtain s' r where a: "session_append now d intent (ix_session ix) = (s', r)"
    by (cases "session_append now d intent (ix_session ix)")
  have ok: "session_ok s'" using inv session_append_ok [OF _ a] by (simp add: inbox_inv_def)
  have off: "seed_offset s' = seed_offset (ix_session ix)"
    using session_append_frame(1) [OF a] by (simp add: seed_offset_def)
  show ?thesis
    using inv ok off d session_append_frame(2) [OF a]
    by (auto simp: a inbox_inv_def load_inbox_def replay_snoc inbox_step_foreign)
qed

lemma claim_notices_inv: "inbox_inv (ix\<lparr>ix_notices := ns\<rparr>) = inbox_inv ix"
  by (simp add: inbox_inv_def)

lemma mutate_inv_fst: "inbox_inv ix \<Longrightarrow> inbox_inv (fst (mutate now t a b ms d ix))"
  using mutate_inv by (cases "mutate now t a b ms d ix") simp

lemma splice_inv: "inbox_inv ix \<Longrightarrow> inbox_inv (fst (splice now t a b ms ix))"
  by (simp add: splice_def mutate_inv_fst)

lemma and_then_inv:
  "inbox_inv (fst r) \<Longrightarrow> (\<And>a ix. inbox_inv ix \<Longrightarrow> inbox_inv (fst (f a ix))) \<Longrightarrow> inbox_inv (fst (and_then r f))"
  by (cases r; cases "snd r") (simp_all add: and_then_def)

lemmas inbox_inv_intros = and_then_inv splice_inv mutate_inv_fst

lemma clear_inv: "inbox_inv ix \<Longrightarrow> inbox_inv (fst (clear now ix))"
  unfolding clear_def by (intro inbox_inv_intros) simp_all

lemma claim_inv: "inbox_inv ix \<Longrightarrow> inbox_inv (fst (claim now t turn ix))"
  unfolding claim_def
  by (intro inbox_inv_intros; (simp add: mutate_inv_fst claim_notices_inv)?)

lemma run_op_inv: "inbox_inv ix \<Longrightarrow> inbox_inv (run_op now p ix)"
  by (cases p)
    (auto simp: clear_inv claim_inv splice_inv foreign_inv append_message_def prepend_message_def replace_message_def
      remove_message_def split: option.splits intro!: and_then_inv)

lemma run_ops_inv: "inbox_inv ix \<Longrightarrow> inbox_inv (run_ops ps ix)"
  by (induction ps ix rule: run_ops.induct) (simp_all add: run_op_inv)

section \<open>Bookkeeping\<close>

fun inserted_by :: "inbox_notice \<Rightarrow> message option" where
  "inserted_by (InboxInserted m) = Some m"
| "inserted_by _ = None"

fun taken_by :: "inbox_notice \<Rightarrow> message option" where
  "taken_by (InboxDiscarded m) = Some m"
| "taken_by (InboxClaimed m _) = Some m"
| "taken_by _ = None"

definition inserted :: "inbox_notice list \<Rightarrow> message multiset" where
  "inserted ns = mset (List.map_filter inserted_by ns)"

definition taken :: "inbox_notice list \<Rightarrow> message multiset" where
  "taken ns = mset (List.map_filter taken_by ns)"

lemma notices_append [simp]: "inserted (xs @ ys) = inserted xs + inserted ys" "taken (xs @ ys) = taken xs + taken ys"
  by (simp_all add: inserted_def taken_def map_filter_append)

lemma notices_map [simp]:
  "inserted (map InboxInserted ms) = mset ms" "taken (map InboxInserted ms) = {#}"
  "inserted (map InboxDiscarded ms) = {#}" "taken (map InboxDiscarded ms) = mset ms"
  "inserted (map (\<lambda>m. InboxClaimed m turn) ms) = {#}" "taken (map (\<lambda>m. InboxClaimed m turn) ms) = mset ms"
  "inserted [] = {#}" "taken [] = {#}"
  by (induction ms) (simp_all add: inserted_def taken_def List.map_filter_def)

definition balanced :: "inbox \<Rightarrow> message multiset \<Rightarrow> inbox \<Rightarrow> bool" where
  "balanced ix held ix' \<longleftrightarrow>
     mset (pending (ix_lists ix')) + taken (ix_notices ix') + held + inserted (ix_notices ix) =
     mset (pending (ix_lists ix)) + taken (ix_notices ix) + inserted (ix_notices ix')"

lemma balanced_refl [simp]: "balanced ix {#} ix"
  by (simp add: balanced_def ac_simps)

lemma multiset_shift: "(a :: 'a multiset) + l = c + s \<Longrightarrow> s + t = l + m \<Longrightarrow> a + t = c + m"
proof -
  assume 1: "a + l = c + s" and 2: "s + t = l + m"
  have "count (a + t) x = count (c + m) x" for x
    using arg_cong [OF 1, of "\<lambda>m. count m x"] arg_cong [OF 2, of "\<lambda>m. count m x"] by simp
  then show "a + t = c + m" by (simp add: multiset_eq_iff)
qed

lemma balanced_trans:
  assumes "balanced ix h ix1" and "balanced ix1 h' ix2"
  shows "balanced ix (h + h') ix2"
  unfolding balanced_def
proof (rule multiset_eqI)
  fix x
  show "count (mset (pending (ix_lists ix2)) + taken (ix_notices ix2) + (h + h') + inserted (ix_notices ix)) x =
      count (mset (pending (ix_lists ix)) + taken (ix_notices ix) + inserted (ix_notices ix2)) x"
    using arg_cong [OF assms(1) [unfolded balanced_def], of "\<lambda>m. count m x"]
      arg_cong [OF assms(2) [unfolded balanced_def], of "\<lambda>m. count m x"] by simp
qed

lemma mutate_balanced:
  assumes "inbox_inv ix" and m: "mutate now t a b ms d ix = (ix', r)"
  shows "balanced ix (if d then {#} else case r of Inl _ \<Rightarrow> {#} | Inr ms \<Rightarrow> mset ms) ix'"
  using assms
proof (cases rule: mutate_cases)
  case (spliced i n)
  let ?ms = "list_of t (ix_lists ix)"
  have "mset (pending (ix_lists ix')) + mset ?ms = mset (pending (ix_lists ix)) + mset (list_splice i n ms ?ms)"
    by (simp add: spliced mset_pending)
  moreover have "mset (list_splice i n ms ?ms) + mset (take n (drop i ?ms)) = mset ?ms + mset ms"
    using spliced(1) mset_list_splice by blast
  ultimately have sum: "mset (pending (ix_lists ix')) + mset (take n (drop i ?ms)) = mset (pending (ix_lists ix)) + mset ms"
    by (rule multiset_shift)
  show ?thesis
    using arg_cong [OF sum, of "\<lambda>m. m + taken (ix_notices ix) + inserted (ix_notices ix)"]
    by (simp add: balanced_def spliced(3,7) ac_simps)
qed simp_all

lemma balanced_splice: "inbox_inv ix \<Longrightarrow> balanced ix {#} (fst (splice now t a b ms ix))"
  using mutate_balanced [of ix now t a b ms True] by (cases "splice now t a b ms ix") (simp add: splice_def)

lemma and_then_balanced:
  assumes "inbox_inv (fst r)" and "balanced ix {#} (fst r)"
    and "\<And>a ix. inbox_inv ix \<Longrightarrow> balanced ix {#} (fst (f a ix))"
  shows "balanced ix {#} (fst (and_then r f))"
  using assms balanced_trans [of ix "{#}" "fst r" "{#}"]
  by (cases r; cases "snd r") (simp_all add: and_then_def)

lemma clear_balanced: "inbox_inv ix \<Longrightarrow> balanced ix {#} (fst (clear now ix))"
  unfolding clear_def by (intro and_then_balanced balanced_splice inbox_inv_intros) simp_all

lemma replace_balanced: "inbox_inv ix \<Longrightarrow> balanced ix {#} (fst (replace_message now i m ix))"
  by (auto simp: replace_message_def balanced_splice splice_inv split: option.splits intro!: and_then_balanced)

lemma remove_balanced: "inbox_inv ix \<Longrightarrow> balanced ix {#} (fst (remove_message now i ix))"
  by (auto simp: remove_message_def balanced_splice splice_inv split: option.splits intro!: and_then_balanced)

text \<open>A pure deletion at the front of a list always succeeds.\<close>

lemma with_list_same [simp]: "with_list t (list_of t l) l = l"
  by (cases t) simp_all

lemma front_deletion:
  assumes inv: "inbox_inv ix" and small: "int (min k (length (list_of t (ix_lists ix)))) \<le> max_safe"
  obtains ix' where "mutate now t (js_num 0) (js_num k) [] d ix = (ix', Inr (take k (list_of t (ix_lists ix))))"
    and "ix_lists ix' = with_list t (drop k (list_of t (ix_lists ix))) (ix_lists ix)"
    and "ix_notices ix' = ix_notices ix @ (if d then map InboxDiscarded (take k (list_of t (ix_lists ix))) else [])"
    and "inbox_inv ix'"
    and "ses_log (ix_session ix') = ses_log (ix_session ix) @
      (if take k (list_of t (ix_lists ix)) = [] then []
       else [log_event (int (length (ses_log (ix_session ix)))) now
          (PluginEvent (normalized_splice t 0 (min k (length (list_of t (ix_lists ix)))) [] d))])"
proof -
  let ?ms = "list_of t (ix_lists ix)"
  obtain ix' r where m: "mutate now t (js_num 0) (js_num k) [] d ix = (ix', r)"
    by (cases "mutate now t (js_num 0) (js_num k) [] d ix")
  have inv': "inbox_inv ix'" using inv m by (rule mutate_inv)
  show thesis
    using inv m
  proof (cases rule: mutate_cases)
    case idle
    then have empty: "take k ?ms = []" "drop k ?ms = ?ms" by (auto simp: min_def split: if_splits)
    show thesis by (rule that [of ix]) (use m [unfolded idle(1,2)] empty inv in simp_all)
  next
    case (rejected i n err)
    then have "i = 0" "n = min k (length ?ms)" by auto
    with rejected deletion_accepted [OF inbox_inv_distinct [OF inv], of 0 n t d] small
    show thesis by (simp add: max_safe_def)
  next
    case (spliced i n)
    then have i: "i = 0" "n = min k (length ?ms)" by auto
    then have "take n (drop i ?ms) = take k ?ms" "list_splice i n [] ?ms = drop k ?ms"
      by (auto simp: list_splice_def min_def)
    moreover have "take k ?ms \<noteq> []" using spliced(2) i by auto
    ultimately show thesis using m spliced i by (intro that [of ix']) simp_all
  qed
qed

definition deletion :: "inbox_splice event \<Rightarrow> bool" where
  "deletion e \<longleftrightarrow> (\<exists>sp. ev_data e = PluginEvent sp \<and> sp_inserted sp = [] \<and> \<not> sp_canceled sp)"

lemma deletion_event: "deletion (log_event n now (PluginEvent (normalized_splice t i k [] False)))"
  by (simp add: deletion_def normalized_splice_def)

lemma front_claim:
  assumes "inbox_inv ix" and "int (min k (length (list_of t (ix_lists ix)))) \<le> max_safe"
  obtains ix' later where "mutate now t (js_num 0) (js_num k) [] False ix = (ix', Inr (take k (list_of t (ix_lists ix))))"
    and "ix_lists ix' = with_list t (drop k (list_of t (ix_lists ix))) (ix_lists ix)"
    and "ix_notices ix' = ix_notices ix" and "inbox_inv ix'"
    and "ses_log (ix_session ix') = ses_log (ix_session ix) @ later" and "\<forall>e \<in> set later. deletion e"
proof (rule front_deletion [OF assms, of now False])
  fix ix'
  assume "mutate now t (js_num 0) (js_num k) [] False ix = (ix', Inr (take k (list_of t (ix_lists ix))))"
    and "ix_lists ix' = with_list t (drop k (list_of t (ix_lists ix))) (ix_lists ix)"
    and "ix_notices ix' = ix_notices ix @ (if False then map InboxDiscarded (take k (list_of t (ix_lists ix))) else [])"
    and "inbox_inv ix'"
    and "ses_log (ix_session ix') = ses_log (ix_session ix) @
      (if take k (list_of t (ix_lists ix)) = [] then []
       else [log_event (int (length (ses_log (ix_session ix)))) now
          (PluginEvent (normalized_splice t 0 (min k (length (list_of t (ix_lists ix)))) [] False))])"
  then show thesis by (intro that) (auto simp: deletion_event split: if_splits)
qed

lemma one_small: "int (min (Suc 0) k) \<le> max_safe"
  by (simp add: max_safe_def min_def)

lemma claim_balanced:
  assumes inv: "inbox_inv ix"
  shows "balanced ix {#} (fst (claim now t turn ix))"
proof -
  obtain ix1 r where m: "mutate now NextStep (js_num 0) (js_num (length (ib_next_step (ix_lists ix)))) [] False ix = (ix1, r)"
    by (cases "mutate now NextStep (js_num 0) (js_num (length (ib_next_step (ix_lists ix)))) [] False ix")
  have inv1: "inbox_inv ix1" using inv m by (rule mutate_inv)
  have b1: "balanced ix (case r of Inl _ \<Rightarrow> {#} | Inr ms \<Rightarrow> mset ms) ix1"
    using mutate_balanced [OF inv m] by simp
  show ?thesis
  proof (cases r)
    case (Inl err)
    with b1 m show ?thesis by (simp add: claim_def and_then_def)
  next
    case (Inr step)
    obtain ix2 queued where 2: "(if t = NextTurn then mutate now NextTurn (js_num 0) (js_num 1) [] False ix1 else (ix1, Inr [])) =
        (ix2, Inr queued)" and b2: "balanced ix1 (mset queued) ix2"
    proof (cases "t = NextTurn")
      case True
      have small: "int (min 1 (length (list_of NextTurn (ix_lists ix1)))) \<le> max_safe" using one_small by simp
      obtain ix' where "mutate now NextTurn (js_num 0) (js_num 1) [] False ix1 =
          (ix', Inr (take 1 (list_of NextTurn (ix_lists ix1))))"
        by (rule front_claim [OF inv1 small])
      with True that mutate_balanced [OF inv1 this] show thesis by simp
    qed (use that [of ix1 "[]"] in simp)
    let ?ix' = "ix2\<lparr>ix_notices := ix_notices ix2 @ map (\<lambda>m. InboxClaimed m turn) (step @ queued)\<rparr>"
    have "fst (claim now t turn ix) = ?ix'"
      using m 2 Inr by (simp add: claim_def and_then_def)
    moreover have "balanced ix (mset step + mset queued) ix2" using b1 b2 balanced_trans Inr by auto
    then have "balanced ix {#} ?ix'" by (simp add: balanced_def ac_simps del: map_append)
    ultimately show ?thesis by simp
  qed
qed

lemma run_op_balanced: "inbox_inv ix \<Longrightarrow> balanced ix {#} (run_op now p ix)"
proof (cases p)
  case (OpForeign d intent)
  then show ?thesis by (simp add: balanced_def ac_simps)
qed (simp_all add: clear_balanced claim_balanced replace_balanced remove_balanced balanced_splice
  append_message_def prepend_message_def)

lemma run_ops_balanced: "inbox_inv ix \<Longrightarrow> balanced ix {#} (run_ops ps ix)"
proof (induction ps ix rule: run_ops.induct)
  case (2 now p ps ix)
  then show ?case
    using balanced_trans [OF run_op_balanced [of ix now p], of "{#}"] run_op_inv by simp
qed simp

lemma claim_outcome:
  assumes inv: "inbox_inv ix" and small: "int (length (ib_next_step (ix_lists ix))) \<le> max_safe"
  obtains ix' later where
    "claim now t turn ix =
       (ix', Inr (ib_next_step (ix_lists ix) @ (if t = NextTurn then take 1 (ib_next_turn (ix_lists ix)) else [])))"
    and "ix_lists ix' =
       \<lparr>ib_next_turn = (if t = NextTurn then drop 1 else id) (ib_next_turn (ix_lists ix)), ib_next_step = []\<rparr>"
    and "ix_notices ix' = ix_notices ix @ map (\<lambda>m. InboxClaimed m turn)
       (ib_next_step (ix_lists ix) @ (if t = NextTurn then take 1 (ib_next_turn (ix_lists ix)) else []))"
    and "ses_log (ix_session ix') = ses_log (ix_session ix) @ later" and "\<forall>e \<in> set later. deletion e"
proof -
  let ?step = "ib_next_step (ix_lists ix)" and ?turn = "ib_next_turn (ix_lists ix)"
  have "int (min (length ?step) (length (list_of NextStep (ix_lists ix)))) \<le> max_safe" using small by simp
  then obtain ix1 l1 where
    1: "mutate now NextStep (js_num 0) (js_num (length ?step)) [] False ix = (ix1, Inr ?step)"
       "ix_lists ix1 = (ix_lists ix)\<lparr>ib_next_step := []\<rparr>" "ix_notices ix1 = ix_notices ix" "inbox_inv ix1"
       "ses_log (ix_session ix1) = ses_log (ix_session ix) @ l1" "\<forall>e \<in> set l1. deletion e"
    using front_claim [OF inv, of "length ?step" NextStep now thesis] by simp
  have turn1: "ib_next_turn (ix_lists ix1) = ?turn" by (simp add: 1(2))
  obtain ix2 l2 where
    2: "(if t = NextTurn then mutate now NextTurn (js_num 0) (js_num 1) [] False ix1 else (ix1, Inr [])) =
          (ix2, Inr (if t = NextTurn then take 1 ?turn else []))"
       "ix_lists ix2 = \<lparr>ib_next_turn = (if t = NextTurn then drop 1 else id) ?turn, ib_next_step = []\<rparr>"
       "ix_notices ix2 = ix_notices ix" "ses_log (ix_session ix2) = ses_log (ix_session ix1) @ l2"
       "\<forall>e \<in> set l2. deletion e"
  proof (cases "t = NextTurn")
    case True
    have "int (min 1 (length (list_of NextTurn (ix_lists ix1)))) \<le> max_safe" using one_small by simp
    then obtain ix2 l2 where
      "mutate now NextTurn (js_num 0) (js_num 1) [] False ix1 = (ix2, Inr (take 1 ?turn))"
      "ix_lists ix2 = with_list NextTurn (drop 1 ?turn) (ix_lists ix1)" "ix_notices ix2 = ix_notices ix"
      "ses_log (ix_session ix2) = ses_log (ix_session ix1) @ l2" "\<forall>e \<in> set l2. deletion e"
      using front_claim [OF 1(4), of 1 NextTurn now thesis] turn1 1(3) by simp
    with True show thesis by (intro that [of ix2 l2]) (simp_all add: 1(2))
  next
    case False
    with 1 show thesis by (intro that [of ix1 "[]"]) simp_all
  qed
  let ?ix' = "ix2\<lparr>ix_notices := ix_notices ix2 @ map (\<lambda>m. InboxClaimed m turn)
      (?step @ (if t = NextTurn then take 1 ?turn else []))\<rparr>"
  have "claim now t turn ix = (?ix', Inr (?step @ (if t = NextTurn then take 1 ?turn else [])))"
    by (simp only: claim_def and_then_def 1(1) 2(1) prod.case sum.case)
  then show thesis using 1(5,6) 2 by (intro that [of ?ix' "l1 @ l2"]) auto
qed

section \<open>Properties\<close>

text \<open>
  C25: However an inbox came about and whatever is done to it or to its session's log, its live
  lists are exactly what replaying that log would build, no message identity is pending twice, and
  the session's log stays a valid log.
\<close>

theorem live_inbox_is_its_replay:
  assumes "session_reach s" and "seed_offset s \<le> length (ses_log s)" and "new_inbox s = Inr ix0"
    and "run_ops ps ix0 = ix"
  shows "load_inbox (ix_session ix) = Inr (ix_lists ix) \<and> distinct (map msg_id (pending (ix_lists ix))) \<and>
    ok (fold_surface (ses_log (ix_session ix)))"
proof -
  have "inbox_inv ix"
    using new_inbox_inv [OF session_reach_ok] run_ops_inv assms by blast
  then show ?thesis
    using inbox_inv_distinct [of ix] by (auto simp: inbox_inv_def inbox_ok_def session_ok_def)
qed

text \<open>
  C11: No message is lost or duplicated: over any sequence of operations, thrown or not, the pending
  messages together with those published as discarded or claimed are the messages pending at the
  start together with those published as inserted.
\<close>

theorem inbox_conserves_messages:
  assumes "session_reach s" and "seed_offset s \<le> length (ses_log s)" and "new_inbox s = Inr ix0"
    and "run_ops ps ix0 = ix"
  shows "mset (pending (ix_lists ix)) + taken (ix_notices ix) = mset (pending (ix_lists ix0)) + inserted (ix_notices ix)"
proof -
  have inv: "inbox_inv ix0" using new_inbox_inv [OF session_reach_ok] assms by blast
  have "ix_notices ix0 = []" using assms(3) by (auto simp: new_inbox_def rbind_Inr_iff)
  then show ?thesis using run_ops_balanced [OF inv, of ps] assms(4) by (simp add: balanced_def)
qed

text \<open>
  Claiming at a step boundary returns all next-step input followed by the first queued turn
  when one is requested, removes exactly those, publishes each as claimed by the turn and nothing
  as discarded, and records them as deletions that are not cancellations.
\<close>

theorem claim_takes_the_batch:
  assumes "session_reach s" and "seed_offset s \<le> length (ses_log s)" and "new_inbox s = Inr ix0"
    and "run_ops ps ix0 = ix" and "int (length (ib_next_step (ix_lists ix))) \<le> max_safe"
    and "claim now t turn ix = (ix', r)"
  shows "let batch = ib_next_step (ix_lists ix) @ (if t = NextTurn then take 1 (ib_next_turn (ix_lists ix)) else []) in
    r = Inr batch \<and>
    ix_lists ix' = \<lparr>ib_next_turn = (if t = NextTurn then drop 1 else id) (ib_next_turn (ix_lists ix)), ib_next_step = []\<rparr> \<and>
    ix_notices ix' = ix_notices ix @ map (\<lambda>m. InboxClaimed m turn) batch \<and>
    (\<exists>later. ses_log (ix_session ix') = ses_log (ix_session ix) @ later \<and>
      (\<forall>e \<in> set later. deletion e))"
proof -
  have inv: "inbox_inv ix" using new_inbox_inv [OF session_reach_ok] run_ops_inv assms(1-4) by blast
  show ?thesis
    by (rule claim_outcome [OF inv assms(5), of now t turn]) (use assms(6) in \<open>auto simp: Let_def\<close>)
qed


definition sample_prompt :: "string \<Rightarrow> message" where
  "sample_prompt i = \<lparr>msg_id = i, msg_role = UserRole, msg_content = [TextBlock ''hi''], msg_source = UserSource\<rparr>"

definition sample_ops :: "(int \<times> inbox_op) list" where
  "sample_ops = [(1, OpAppend NextTurn (sample_prompt ''a'')), (2, OpAppend NextStep (sample_prompt ''b'')),
     (3, OpReplace ''a'' (sample_prompt ''c'')), (4, OpSplice NextStep (Finite (-1)) PosInf []),
     (5, OpPrepend NextStep (sample_prompt ''d''))]"

definition sample_start :: "inbox_splice session" where
  "sample_start = (case new_session False 9 ''s1'' None None of Inr s \<Rightarrow> s
     | Inl _ \<Rightarrow> empty_session ''s1'' (blank_header ''s1''))"

definition sample_inbox :: inbox where
  "sample_inbox = \<lparr>ix_session = sample_start, ix_lists = empty_inbox, ix_notices = []\<rparr>"

lemma sample_start_created: "new_session False 9 ''s1'' None None = Inr sample_start"
  by code_simp

lemma sample_inbox_created: "new_inbox sample_start = Inr sample_inbox"
  by code_simp

lemma sample_start_reach: "session_reach sample_start" "seed_offset sample_start \<le> length (ses_log sample_start)"
  using sample_start_created by (auto intro: reach_create) code_simp

lemma sample_lists: "ix_lists (run_ops sample_ops sample_inbox) =
   \<lparr>ib_next_turn = [sample_prompt ''c''], ib_next_step = [sample_prompt ''d'']\<rparr>"
  by code_simp

theorem live_inbox_is_its_replay_witness:
  "load_inbox (ix_session (run_ops sample_ops sample_inbox)) =
     Inr \<lparr>ib_next_turn = [sample_prompt ''c''], ib_next_step = [sample_prompt ''d'']\<rparr>"
  using live_inbox_is_its_replay [OF sample_start_reach sample_inbox_created refl, of sample_ops] sample_lists by simp

theorem inbox_conserves_messages_witness:
  "mset [sample_prompt ''c'', sample_prompt ''d''] + taken (ix_notices (run_ops sample_ops sample_inbox)) =
     inserted (ix_notices (run_ops sample_ops sample_inbox))"
  using inbox_conserves_messages [OF sample_start_reach sample_inbox_created refl, of sample_ops]
  by (simp add: sample_lists pending_def) (simp add: sample_inbox_def empty_inbox_def)

theorem claim_takes_the_batch_witness:
  "snd (claim 6 NextTurn 1 (run_ops sample_ops sample_inbox)) = Inr [sample_prompt ''d'', sample_prompt ''c'']"
proof -
  obtain ix' r where c: "claim 6 NextTurn 1 (run_ops sample_ops sample_inbox) = (ix', r)"
    by (cases "claim 6 NextTurn 1 (run_ops sample_ops sample_inbox)")
  show ?thesis
    using claim_takes_the_batch [OF sample_start_reach sample_inbox_created refl _ c] c
    by (simp add: sample_lists max_safe_def)
qed

end
