(* ===== verification/Consumed_Work.thy ===== *)
theory Consumed_Work
  imports Inbox
begin

text \<open>
  How an agent log accounts for the work it consumed (\<open>packages/core/agent/src/consumed-work.ts\<close>):
  one pass over the log that finds the last closed turn answering for consumed input, and whether
  input was cancelled, unrun, after it. On the logs the trace invariant accepts, the pass computes
  the declarative account stated here turn by turn.
\<close>

section \<open>The fold\<close>

record work =
  cw_stepped :: "int set"
  cw_claimed :: "int set"
  cw_open :: "int option"
  cw_end :: "inbox_splice event option"
  cw_dropped :: bool

definition no_work :: work where
  "no_work = \<lparr>cw_stepped = {}, cw_claimed = {}, cw_open = None, cw_end = None, cw_dropped = False\<rparr>"

fun accounts_for_claim :: "turn_end_reason \<Rightarrow> bool" where
  "accounts_for_claim TurnCompleted = False"
| "accounts_for_claim TurnBlocked = True"
| "accounts_for_claim (TurnAborted _) = True"
| "accounts_for_claim TurnInterrupted = True"
| "accounts_for_claim (TurnError _) = True"
| "accounts_for_claim TurnMaxTokens = True"

definition note_splice :: "inbox_splice \<Rightarrow> work \<Rightarrow> work" where
  "note_splice sp w =
     (if sp_removed sp = None then w
      else if sp_canceled sp then w\<lparr>cw_dropped := cw_dropped w \<or> sp_inserted sp = []\<rparr>
      else case cw_open w of None \<Rightarrow> w | Some n \<Rightarrow> w\<lparr>cw_claimed := insert n (cw_claimed w)\<rparr>)"

text \<open>\<open>stepped.delete(turn) || (claimed.delete(turn) && accountsForClaim(reason))\<close>: the second set is
  only touched when the first delete finds nothing.\<close>

definition note_turn_end :: "inbox_splice event \<Rightarrow> int \<Rightarrow> turn_end_reason \<Rightarrow> work \<Rightarrow> work" where
  "note_turn_end e turn reason w =
     (let w0 = w\<lparr>cw_open := None\<rparr> in
      if turn \<in> cw_stepped w0
      then w0\<lparr>cw_stepped := cw_stepped w0 - {turn}, cw_end := Some e, cw_dropped := False\<rparr>
      else
        let w1 = w0\<lparr>cw_claimed := cw_claimed w0 - {turn}\<rparr> in
        if turn \<in> cw_claimed w0 \<and> accounts_for_claim reason then w1\<lparr>cw_end := Some e, cw_dropped := False\<rparr>
        else w1)"

definition work_step :: "work \<Rightarrow> inbox_splice event \<Rightarrow> work" where
  "work_step w e = (case ev_data e of
      TurnStart turn \<Rightarrow> w\<lparr>cw_open := Some turn\<rparr>
    | StepStart turn _ \<Rightarrow> w\<lparr>cw_stepped := insert turn (cw_stepped w)\<rparr>
    | PluginEvent sp \<Rightarrow> note_splice sp w
    | TurnEnd turn reason \<Rightarrow> note_turn_end e turn reason w
    | _ \<Rightarrow> w)"

definition fold_consumed_work :: "inbox_splice event list \<Rightarrow> inbox_splice event option \<times> bool" where
  "fold_consumed_work evs = (let w = foldl work_step no_work evs in (cw_end w, cw_dropped w))"

section \<open>The account, turn by turn\<close>

text \<open>The events since the last turn start: at a turn's end, the turn's own events.\<close>

fun is_turn_start :: "inbox_splice event \<Rightarrow> bool" where
  "is_turn_start e = (case ev_data e of TurnStart _ \<Rightarrow> True | _ \<Rightarrow> False)"

fun is_step_start :: "inbox_splice event \<Rightarrow> bool" where
  "is_step_start e = (case ev_data e of StepStart _ _ \<Rightarrow> True | _ \<Rightarrow> False)"

fun is_claim :: "inbox_splice event \<Rightarrow> bool" where
  "is_claim e = (case ev_data e of PluginEvent sp \<Rightarrow> sp_removed sp \<noteq> None \<and> \<not> sp_canceled sp | _ \<Rightarrow> False)"

fun drops_work :: "inbox_splice event \<Rightarrow> bool" where
  "drops_work e = (case ev_data e of
      PluginEvent sp \<Rightarrow> sp_removed sp \<noteq> None \<and> sp_canceled sp \<and> sp_inserted sp = [] | _ \<Rightarrow> False)"

definition turn_body :: "inbox_splice event list \<Rightarrow> inbox_splice event list" where
  "turn_body evs = rev (takeWhile (\<lambda>e. \<not> is_turn_start e) (rev evs))"

text \<open>A turn end answers for work if its turn entered a step, or took input without completing.\<close>

definition accounting :: "inbox_splice event list \<Rightarrow> inbox_splice event \<Rightarrow> bool" where
  "accounting before e = (case ev_data e of
      TurnEnd _ reason \<Rightarrow> (\<exists>b \<in> set (turn_body before). is_step_start b) \<or>
        (\<exists>b \<in> set (turn_body before). is_claim b) \<and> reason \<noteq> TurnCompleted
    | _ \<Rightarrow> False)"

definition accounting_ends :: "inbox_splice event list \<Rightarrow> nat list" where
  "accounting_ends evs = filter (\<lambda>i. accounting (take i evs) (evs ! i)) [0..<length evs]"

definition last_account :: "inbox_splice event list \<Rightarrow> inbox_splice event option" where
  "last_account evs = (if accounting_ends evs = [] then None else Some (evs ! last (accounting_ends evs)))"

definition dropped_since :: "inbox_splice event list \<Rightarrow> bool" where
  "dropped_since evs \<longleftrightarrow>
     (\<exists>j<length evs. drops_work (evs ! j) \<and> (\<forall>i \<in> set (accounting_ends evs). i < j))"

lemma turn_body_snoc: "turn_body (evs @ [e]) = (if is_turn_start e then [] else turn_body evs @ [e])"
  by (simp add: turn_body_def)

lemma accounting_ends_snoc:
  "accounting_ends (evs @ [e]) = accounting_ends evs @ (if accounting evs e then [length evs] else [])"
proof -
  have "filter (\<lambda>i. accounting (take i (evs @ [e])) ((evs @ [e]) ! i)) [0..<length evs] =
      filter (\<lambda>i. accounting (take i evs) (evs ! i)) [0..<length evs]"
    by (rule filter_cong) (auto simp: nth_append)
  then show ?thesis by (simp add: accounting_ends_def)
qed

lemma accounting_ends_less: "i \<in> set (accounting_ends evs) \<Longrightarrow> i < length evs"
  by (simp add: accounting_ends_def)

lemma last_account_snoc: "last_account (evs @ [e]) = (if accounting evs e then Some e else last_account evs)"
  using accounting_ends_less [of "last (accounting_ends evs)" evs]
  by (auto simp: last_account_def accounting_ends_snoc nth_append)

lemma dropped_since_snoc:
  "dropped_since (evs @ [e]) = (if accounting evs e then False else dropped_since evs \<or> drops_work e)"
proof -
  let ?P = "\<lambda>j. drops_work ((evs @ [e]) ! j) \<and> (\<forall>i \<in> set (accounting_ends (evs @ [e])). i < j)"
  have "dropped_since (evs @ [e]) \<longleftrightarrow> ?P (length evs) \<or> (\<exists>j<length evs. ?P j)"
    by (simp only: dropped_since_def length_append_singleton Ex_less_Suc)
  moreover have "?P (length evs) \<longleftrightarrow> drops_work e \<and> \<not> accounting evs e"
    using accounting_ends_less by (auto simp: accounting_ends_snoc simp del: drops_work.simps)
  moreover have "(\<exists>j<length evs. ?P j) \<longleftrightarrow> \<not> accounting evs e \<and> dropped_since evs"
    by (auto simp: accounting_ends_snoc nth_append dropped_since_def simp del: drops_work.simps)
  ultimately show ?thesis by auto
qed

section \<open>The fold computes the account\<close>

definition work_inv :: "inbox_splice event list \<Rightarrow> session_trace \<Rightarrow> work \<Rightarrow> bool" where
  "work_inv evs t w \<longleftrightarrow>
     cw_open w = tr_open_turn t \<and> cw_end w = last_account evs \<and> cw_dropped w = dropped_since evs \<and>
     (case tr_open_turn t of
        None \<Rightarrow> cw_stepped w = {} \<and> (\<forall>n \<in> cw_claimed w. n < tr_next_turn t)
      | Some n \<Rightarrow> n = tr_next_turn t \<and>
          cw_stepped w = (if \<exists>b \<in> set (turn_body evs). is_step_start b then {n} else {}) \<and>
          (\<forall>m \<in> cw_claimed w. m \<le> n) \<and> (n \<in> cw_claimed w \<longleftrightarrow> (\<exists>b \<in> set (turn_body evs). is_claim b)))"

lemma accounts_for_claim_iff: "accounts_for_claim r \<longleftrightarrow> r \<noteq> TurnCompleted"
  by (cases r) simp_all

lemmas work_steps = work_step_def note_splice_def note_turn_end_def accounts_for_claim_iff
lemmas account_snoc = turn_body_snoc last_account_snoc dropped_since_snoc accounting_def

text \<open>Events the account does not look at.\<close>

definition unrelated :: "inbox_splice event \<Rightarrow> bool" where
  "unrelated e \<longleftrightarrow> \<not> is_turn_start e \<and> \<not> is_step_start e \<and> \<not> is_claim e \<and> \<not> drops_work e \<and>
     (\<forall>before. \<not> accounting before e) \<and> (\<forall>w. work_step w e = w)"

lemma work_inv_unrelated:
  assumes "work_inv evs t w" and "unrelated e" and "tr_open_turn t' = tr_open_turn t" and "tr_next_turn t' = tr_next_turn t"
  shows "work_inv (evs @ [e]) t' (work_step w e)"
proof -
  have "(\<exists>b \<in> set (turn_body (evs @ [e])). is_step_start b) \<longleftrightarrow> (\<exists>b \<in> set (turn_body evs). is_step_start b)"
    "(\<exists>b \<in> set (turn_body (evs @ [e])). is_claim b) \<longleftrightarrow> (\<exists>b \<in> set (turn_body evs). is_claim b)"
    using assms(2) unfolding unrelated_def turn_body_snoc by auto
  then show ?thesis
    using assms unfolding work_inv_def unrelated_def by (simp only: last_account_snoc dropped_since_snoc if_False simp_thms)
qed

lemma validate_event_same_turn:
  "validate_event t e = Inr tt \<Longrightarrow> (\<And>n. ev_data e \<noteq> TurnStart n) \<Longrightarrow> (\<And>n r. ev_data e \<noteq> TurnEnd n r) \<Longrightarrow>
     tt_open_turn tt = tr_open_turn t \<and> tt_next_turn tt = tr_next_turn t"
  by (cases "ev_data e")
    (auto simp: validate_event_def unchanged_def require_open_step_def rbind_Inr_iff Let_def split: if_splits)

lemma work_inv_step:
  assumes inv: "work_inv evs t w" and step: "trace_step t e = Inr t'"
  shows "work_inv (evs @ [e]) t' (work_step w e)"
proof -
  from step obtain tt where v: "validate_event t e = Inr tt" and t': "t' = apply_transition t tt"
    by (auto simp: trace_step_Inr)
  show ?thesis
  proof (cases "ev_data e")
    case (TurnStart n)
    with v have "tr_open_turn t = None" "n = tr_next_turn t" "tt_open_turn tt = Some n" "tt_next_turn tt = tr_next_turn t"
      by (auto simp: validate_event_def unchanged_def split: if_splits)
    with inv t' TurnStart show ?thesis
      by (auto simp: work_inv_def work_steps account_snoc apply_transition_def)
  next
    case (TurnEnd n r)
    with v have "tr_open_turn t = Some n" "tt_open_turn tt = None" "tt_next_turn tt = tr_next_turn t + 1"
      by (auto simp: validate_event_def unchanged_def split: if_splits)
    with inv t' TurnEnd show ?thesis
      by (auto simp: work_inv_def work_steps account_snoc apply_transition_def Let_def)
  next
    case (StepStart n m)
    with v have "tr_open_turn t = Some n" "tt_open_turn tt = Some n" "tt_next_turn tt = tr_next_turn t"
      by (auto simp: validate_event_def unchanged_def split: if_splits)
    with inv t' StepStart show ?thesis
      by (auto simp: work_inv_def work_steps account_snoc apply_transition_def)
  next
    case (PluginEvent sp)
    with v have "tt_open_turn tt = tr_open_turn t" "tt_next_turn tt = tr_next_turn t"
      by (auto simp: validate_event_def unchanged_def split: if_splits)
    with inv t' PluginEvent show ?thesis
      by (auto simp: work_inv_def work_steps account_snoc apply_transition_def split: option.splits)
  qed (intro work_inv_unrelated [OF inv];
      use validate_event_same_turn [OF v] t' in \<open>simp add: unrelated_def accounting_def work_step_def apply_transition_def\<close>)+
qed

lemma fold_work_inv: "seed_session evs = Inr t \<Longrightarrow> work_inv evs t (foldl work_step no_work evs)"
proof (induction evs arbitrary: t rule: rev_induct)
  case Nil
  then show ?case
    by (auto simp: seed_session_def work_inv_def no_work_def fresh_trace_def last_account_def dropped_since_def
        accounting_ends_def)
next
  case (snoc e evs)
  then show ?case by (auto simp: seed_session_def replay_snoc_Inr intro: work_inv_step)
qed

section \<open>Property\<close>

text \<open>
  On every log the trace invariant accepts, the single pass returns the last turn end whose turn
  entered a step or took inbox input without completing, and reports a drop exactly if some
  cancellation emptied input out of the inbox after that turn end.
\<close>

theorem consumed_work_is_the_last_account:
  assumes "seed_session evs = Inr t"
  shows "fold_consumed_work evs = (last_account evs, dropped_since evs)"
  using fold_work_inv [OF assms] by (simp add: work_inv_def fold_consumed_work_def)

definition sample_work_log :: "inbox_splice event list" where
  "sample_work_log = [
     log_event 0 0 (PluginEvent (normalized_splice NextTurn 0 0 [sample_prompt ''a''] True)),
     log_event 1 0 (TurnStart 1),
     log_event 2 0 (PluginEvent (normalized_splice NextTurn 0 1 [] False)),
     log_event 3 0 (TurnEnd 1 (TurnAborted ByUser)),
     log_event 4 0 (PluginEvent (normalized_splice NextTurn 0 0 [sample_prompt ''b''] True)),
     log_event 5 0 (PluginEvent (normalized_splice NextTurn 0 1 [] True)),
     log_event 6 0 (TurnStart 2),
     log_event 7 0 (TurnEnd 2 TurnCompleted)]"

lemma sample_work_seed: "ok (seed_session sample_work_log)"
  by code_simp

theorem consumed_work_is_the_last_account_witness:
  "fold_consumed_work sample_work_log = (last_account sample_work_log, dropped_since sample_work_log) \<and>
   map_option ev_seq (cw_end (foldl work_step no_work sample_work_log)) = Some 3 \<and>
   cw_dropped (foldl work_step no_work sample_work_log)"
proof -
  obtain t where "seed_session sample_work_log = Inr t" using sample_work_seed by (auto simp: ok_iff)
  moreover have "map_option ev_seq (cw_end (foldl work_step no_work sample_work_log)) = Some 3"
    "cw_dropped (foldl work_step no_work sample_work_log)" by code_simp+
  ultimately show ?thesis using consumed_work_is_the_last_account by blast
qed

end
