(* ===== verification/Goal_Fold.thy ===== *)
theory Goal_Fold
  imports Session_Log
begin

text \<open>
  The goal domain's durable side (\<open>packages/goal/goal/src/fold.ts\<close>, \<open>domain.ts\<close>, \<open>types.ts\<close>): the strict
  decoder of \<open>goal/change\<close> events, the transition rules, the replay fold, and the lenient projection
  of \<open>index.ts\<close>. The plugin payload of the session's events is the JSON data of \<open>goal/change\<close>.
\<close>

section \<open>Data\<close>

type_synonym goal_id = string

datatype goal_phase = Active | Paused | Blocked | Completed

datatype goal_operation = GoalCreate | GoalEdit | GoalPause | GoalResume | GoalComplete | GoalBlock

record goal_ref =
  gr_id :: goal_id
  gr_revision :: int

record block_reason =
  br_code :: string
  br_message :: string

record goal_snapshot =
  g_id :: goal_id
  g_revision :: int
  g_objective :: string
  g_phase :: goal_phase
  g_reason :: "block_reason option"
  g_max_rounds :: int

datatype goal_change =
    SnapshotChange goal_operation goal_snapshot int int int
  | ClearChange goal_ref int

record goal_source =
  gsrc_id :: goal_id
  gsrc_revision :: int
  gsrc_round :: int

datatype goal_field = FRevision | FMaxRounds | FClearedRevision | FClearedAt | FCreatedAt | FUpdatedAt | FRounds

datatype goal_error =
    BadNumber goal_field
  | ReasonFields | ReasonCode | ReasonMessage
  | SnapshotNotRecord | SnapshotId | SnapshotObjective | SnapshotPhase | SnapshotFields
  | RefFields | RefId
  | BadVersion | ClearFields | BadOperation | ChangeFields | UpdatedBeforeCreated
  | BadSource
  | DefinitionChanged | NotNextRevision | CountersChanged | LacksUpdatedAt
  | EditChangesPhase | BadPause | BadResume | BadComplete | BadBlock | CreateAsTransition
  | ClearWithoutGoal | ClearBeforeUpdate | BadCreate | NoCurrentGoal
  | NotGoalChange int | NotNextRound int

section \<open>Decoding\<close>

definition positive_integer :: "json option \<Rightarrow> goal_field \<Rightarrow> goal_error + int" where
  "positive_integer v f = (case v of
      Some (JNum r) \<Rightarrow> if \<not> safe_integer r \<or> r < 1 then Inl (BadNumber f) else Inr \<lfloor>r\<rfloor>
    | _ \<Rightarrow> Inl (BadNumber f))"

definition non_negative_integer :: "json option \<Rightarrow> goal_field \<Rightarrow> goal_error + int" where
  "non_negative_integer v f = (case v of
      Some (JNum r) \<Rightarrow> if \<not> safe_integer r \<or> r < 0 then Inl (BadNumber f) else Inr \<lfloor>r\<rfloor>
    | _ \<Rightarrow> Inl (BadNumber f))"

definition is_normalized :: "string \<Rightarrow> bool" where
  "is_normalized s \<longleftrightarrow> js_trim s \<noteq> [] \<and> js_trim s = s"

definition decode_block_reason :: "json option \<Rightarrow> goal_error + block_reason" where
  "decode_block_reason v = (case v of
      Some (JObj kvs) \<Rightarrow>
        if sorted_keys (JObj kvs) \<noteq> ''code,message'' then Inl ReasonFields
        else (case jget (JObj kvs) ''code'' of
            Some (JStr code) \<Rightarrow>
              if \<not> is_kebab code then Inl ReasonCode
              else (case jget (JObj kvs) ''message'' of
                  Some (JStr msg) \<Rightarrow>
                    if \<not> is_normalized msg then Inl ReasonMessage else Inr \<lparr>br_code = code, br_message = msg\<rparr>
                | _ \<Rightarrow> Inl ReasonMessage)
          | _ \<Rightarrow> Inl ReasonCode)
    | _ \<Rightarrow> Inl ReasonFields)"

definition phase_name :: "goal_phase \<Rightarrow> string" where
  "phase_name p = (case p of Active \<Rightarrow> ''active'' | Paused \<Rightarrow> ''paused'' | Blocked \<Rightarrow> ''blocked'' | Completed \<Rightarrow> ''complete'')"

definition decode_phase :: "json option \<Rightarrow> goal_error + goal_phase" where
  "decode_phase v =
     (if v = Some (JStr ''active'') then Inr Active
      else if v = Some (JStr ''paused'') then Inr Paused
      else if v = Some (JStr ''blocked'') then Inr Blocked
      else if v = Some (JStr ''complete'') then Inr Completed
      else Inl SnapshotPhase)"

definition nonempty_string :: "json option \<Rightarrow> goal_error \<Rightarrow> goal_error + string" where
  "nonempty_string v err = (case v of Some (JStr s) \<Rightarrow> if s = [] then Inl err else Inr s | _ \<Rightarrow> Inl err)"

definition normalized_string :: "json option \<Rightarrow> goal_error \<Rightarrow> goal_error + string" where
  "normalized_string v err = (case v of Some (JStr s) \<Rightarrow> if is_normalized s then Inr s else Inl err | _ \<Rightarrow> Inl err)"

definition decode_snapshot :: "json option \<Rightarrow> goal_error + goal_snapshot" where
  "decode_snapshot mv = (case mv of
      Some (JObj kvs) \<Rightarrow>
        let v = JObj kvs in
        rbind (nonempty_string (jget v ''id'') SnapshotId) (\<lambda>i.
        rbind (normalized_string (jget v ''objective'') SnapshotObjective) (\<lambda>obj.
        rbind (decode_phase (jget v ''phase'')) (\<lambda>phase.
        rbind (require (sorted_keys v = (if phase = Blocked then ''blockedReason,id,maxGoalRounds,objective,phase,revision''
                                         else ''id,maxGoalRounds,objective,phase,revision'')) SnapshotFields) (\<lambda>_.
        rbind (positive_integer (jget v ''revision'') FRevision) (\<lambda>rv.
        rbind (positive_integer (jget v ''maxGoalRounds'') FMaxRounds) (\<lambda>cap.
        rbind (if phase = Blocked then rbind (decode_block_reason (jget v ''blockedReason'')) (\<lambda>r. Inr (Some r)) else Inr None)
          (\<lambda>reason.
            Inr \<lparr>g_id = i, g_revision = rv, g_objective = obj, g_phase = phase, g_reason = reason, g_max_rounds = cap\<rparr>)))))))
    | _ \<Rightarrow> Inl SnapshotNotRecord)"

definition decode_ref :: "json option \<Rightarrow> goal_error + goal_ref" where
  "decode_ref mv = (case mv of
      Some (JObj kvs) \<Rightarrow>
        let v = JObj kvs in
        rbind (require (sorted_keys v = ''id,revision'') RefFields) (\<lambda>_.
        rbind (nonempty_string (jget v ''id'') RefId) (\<lambda>i.
        rbind (positive_integer (jget v ''revision'') FClearedRevision) (\<lambda>rv.
          Inr \<lparr>gr_id = i, gr_revision = rv\<rparr>)))
    | _ \<Rightarrow> Inl RefFields)"

definition operation_name :: "goal_operation \<Rightarrow> string" where
  "operation_name p = (case p of GoalCreate \<Rightarrow> ''create'' | GoalEdit \<Rightarrow> ''edit'' | GoalPause \<Rightarrow> ''pause'' | GoalResume \<Rightarrow> ''resume''
     | GoalComplete \<Rightarrow> ''complete'' | GoalBlock \<Rightarrow> ''block'')"

definition decode_operation :: "json option \<Rightarrow> goal_error + goal_operation" where
  "decode_operation v =
     (if v = Some (JStr ''create'') then Inr GoalCreate
      else if v = Some (JStr ''edit'') then Inr GoalEdit
      else if v = Some (JStr ''pause'') then Inr GoalPause
      else if v = Some (JStr ''resume'') then Inr GoalResume
      else if v = Some (JStr ''complete'') then Inr GoalComplete
      else if v = Some (JStr ''block'') then Inr GoalBlock
      else Inl BadOperation)"

text \<open>\<open>Inr None\<close> is the \<open>undefined\<close> of a value that is not a goal change.\<close>

definition decode_goal_change :: "json \<Rightarrow> goal_error + goal_change option" where
  "decode_goal_change v =
     (if \<not> is_object v \<or> jget v ''kind'' \<noteq> Some (JStr ''goal/change'') then Inr None
      else
        rbind (require (jget v ''version'' = Some (JNum 1)) BadVersion) (\<lambda>_.
        if jget v ''operation'' = Some (JStr ''clear'') then
          rbind (require (sorted_keys v = ''cleared,clearedAt,kind,operation,version'') ClearFields) (\<lambda>_.
          rbind (decode_ref (jget v ''cleared'')) (\<lambda>ref.
          rbind (non_negative_integer (jget v ''clearedAt'') FClearedAt) (\<lambda>t.
            Inr (Some (ClearChange ref t)))))
        else
          rbind (decode_operation (jget v ''operation'')) (\<lambda>p.
          rbind (require (sorted_keys v = ''createdAt,goal,kind,operation,roundsStarted,updatedAt,version'') ChangeFields) (\<lambda>_.
          rbind (non_negative_integer (jget v ''createdAt'') FCreatedAt) (\<lambda>created.
          rbind (non_negative_integer (jget v ''updatedAt'') FUpdatedAt) (\<lambda>updated.
          rbind (require (\<not> updated < created) UpdatedBeforeCreated) (\<lambda>_.
          rbind (decode_snapshot (jget v ''goal'')) (\<lambda>g.
          rbind (non_negative_integer (jget v ''roundsStarted'') FRounds) (\<lambda>rounds.
            Inr (Some (SnapshotChange p g rounds created updated)))))))))))"

text \<open>A number field that is not a JSON number fails \<open>Number.isSafeInteger\<close>.\<close>

definition goal_source_of :: "message_source \<Rightarrow> goal_error + goal_source option" where
  "goal_source_of src = (case src of
      MergedSource kind attrs \<Rightarrow>
        if kind \<noteq> ''goal'' then Inr None
        else (case (map_of attrs ''goalId'', map_of attrs ''revision'', map_of attrs ''round'') of
            (Some (JStr i), Some (JNum rv), Some (JNum rnd)) \<Rightarrow>
              if i = [] \<or> \<not> safe_integer rv \<or> rv < 1 \<or> \<not> safe_integer rnd \<or> rnd < 1 then Inl BadSource
              else Inr (Some \<lparr>gsrc_id = i, gsrc_revision = \<lfloor>rv\<rfloor>, gsrc_round = \<lfloor>rnd\<rfloor>\<rparr>)
          | _ \<Rightarrow> Inl BadSource)
    | _ \<Rightarrow> Inr None)"

section \<open>The fold\<close>

record goal_state =
  gs_goal :: "goal_snapshot option"
  gs_rounds :: int
  gs_created :: "int option"
  gs_updated :: "int option"
  gs_last_ref :: "goal_ref option"
  gs_seen :: "goal_id set"

definition empty_goal_state :: goal_state where
  "empty_goal_state = \<lparr>gs_goal = None, gs_rounds = 0, gs_created = None, gs_updated = None, gs_last_ref = None, gs_seen = {}\<rparr>"

definition ref_of :: "goal_snapshot \<Rightarrow> goal_ref" where
  "ref_of g = \<lparr>gr_id = g_id g, gr_revision = g_revision g\<rparr>"

fun goal_change_ref :: "goal_change \<Rightarrow> goal_ref" where
  "goal_change_ref (ClearChange ref _) = ref"
| "goal_change_ref (SnapshotChange _ g _ _ _) = ref_of g"

definition require_same_definition :: "goal_snapshot \<Rightarrow> goal_snapshot \<Rightarrow> goal_error + unit" where
  "require_same_definition cur next =
     require (g_objective next = g_objective cur \<and> g_max_rounds next = g_max_rounds cur) DefinitionChanged"

definition require_next_revision :: "goal_snapshot \<Rightarrow> goal_ref \<Rightarrow> goal_error + unit" where
  "require_next_revision cur next = require (gr_id next = g_id cur \<and> gr_revision next = g_revision cur + 1) NotNextRevision"

definition validate_phase_change :: "goal_state \<Rightarrow> goal_operation \<Rightarrow> goal_snapshot \<Rightarrow> goal_snapshot \<Rightarrow> goal_error + unit" where
  "validate_phase_change st p cur next = (case p of
      GoalEdit \<Rightarrow> require (g_phase next = g_phase cur \<and> g_reason next = g_reason cur) EditChangesPhase
    | GoalPause \<Rightarrow> rbind (require_same_definition cur next) (\<lambda>_.
        require (g_phase cur = Active \<and> g_phase next = Paused) BadPause)
    | GoalResume \<Rightarrow> rbind (require_same_definition cur next) (\<lambda>_.
        require (g_phase cur \<in> {Active, Paused, Blocked} \<and> g_phase next = Active \<and> \<not> gs_rounds st \<ge> g_max_rounds next) BadResume)
    | GoalComplete \<Rightarrow> rbind (require_same_definition cur next) (\<lambda>_.
        require (g_phase cur \<noteq> Completed \<and> g_phase next = Completed) BadComplete)
    | GoalBlock \<Rightarrow> rbind (require_same_definition cur next) (\<lambda>_.
        require (g_phase cur = Active \<and> g_phase next = Blocked) BadBlock)
    | GoalCreate \<Rightarrow> Inl CreateAsTransition)"

definition validate_snapshot_transition ::
    "goal_state \<Rightarrow> goal_operation \<Rightarrow> goal_snapshot \<Rightarrow> int \<Rightarrow> int \<Rightarrow> int \<Rightarrow> goal_snapshot \<Rightarrow> goal_error + unit" where
  "validate_snapshot_transition st p next rounds created updated cur =
     rbind (require_next_revision cur (ref_of next)) (\<lambda>_.
     case gs_updated st of
       None \<Rightarrow> Inl LacksUpdatedAt
     | Some u \<Rightarrow>
         rbind (require (Some created = gs_created st \<and> \<not> updated < u \<and> rounds = gs_rounds st) CountersChanged) (\<lambda>_.
           validate_phase_change st p cur next))"

fun apply_goal_change :: "goal_state \<Rightarrow> goal_change \<Rightarrow> goal_error + goal_state" where
  "apply_goal_change st (ClearChange ref t) = (case gs_goal st of
      None \<Rightarrow> Inl ClearWithoutGoal
    | Some cur \<Rightarrow>
        rbind (require_next_revision cur ref) (\<lambda>_.
        case gs_updated st of
          None \<Rightarrow> Inl LacksUpdatedAt
        | Some u \<Rightarrow>
            if t < u then Inl ClearBeforeUpdate
            else Inr (st\<lparr>gs_goal := None, gs_rounds := 0, gs_created := None, gs_updated := None, gs_last_ref := Some ref\<rparr>)))"
| "apply_goal_change st (SnapshotChange p g rounds created updated) =
     rbind
       (if p = GoalCreate then
          (if g_revision g \<noteq> 1 \<or> g_phase g \<noteq> Active \<or> rounds \<noteq> 0
              \<or> (case gs_goal st of None \<Rightarrow> False | Some cur \<Rightarrow> g_phase cur \<noteq> Completed) \<or> g_id g \<in> gs_seen st
           then Inl BadCreate else Inr (st\<lparr>gs_seen := insert (g_id g) (gs_seen st)\<rparr>))
        else (case gs_goal st of
            None \<Rightarrow> Inl NoCurrentGoal
          | Some cur \<Rightarrow> rbind (validate_snapshot_transition st p g rounds created updated cur) (\<lambda>_. Inr st)))
       (\<lambda>st1. Inr (st1\<lparr>gs_goal := Some g, gs_rounds := rounds, gs_created := Some created, gs_updated := Some updated,
          gs_last_ref := Some (ref_of g)\<rparr>))"

definition admit_round :: "goal_state \<Rightarrow> int \<Rightarrow> goal_source \<Rightarrow> goal_error + goal_state" where
  "admit_round st seq src = (case gs_goal st of
      None \<Rightarrow> Inl (NotNextRound seq)
    | Some cur \<Rightarrow>
        if g_phase cur \<noteq> Active \<or> gsrc_id src \<noteq> g_id cur \<or> gsrc_revision src \<noteq> g_revision cur
           \<or> gsrc_round src \<noteq> gs_rounds st + 1 \<or> gsrc_round src > g_max_rounds cur
        then Inl (NotNextRound seq) else Inr (st\<lparr>gs_rounds := gsrc_round src\<rparr>))"

definition apply_goal_event :: "goal_state \<Rightarrow> json event \<Rightarrow> goal_error + goal_state" where
  "apply_goal_event st e = (case ev_data e of
      PluginEvent v \<Rightarrow>
        rbind (decode_goal_change v) (\<lambda>c. case c of None \<Rightarrow> Inl (NotGoalChange (ev_seq e)) | Some ch \<Rightarrow> apply_goal_change st ch)
    | UserMessage m \<Rightarrow>
        rbind (goal_source_of (msg_source m)) (\<lambda>s. case s of None \<Rightarrow> Inr st | Some src \<Rightarrow> admit_round st (ev_seq e) src)
    | _ \<Rightarrow> Inr st)"

definition fold_goal :: "json event list \<Rightarrow> goal_error + goal_state" where
  "fold_goal evs = replay apply_goal_event empty_goal_state evs"

text \<open>The projection unit: last change wins, malformed changes and everything else are skipped.\<close>

record goal_projection =
  gp_goal :: goal_snapshot
  gp_rounds :: int
  gp_created :: int
  gp_updated :: int

definition apply_goal_projection :: "goal_projection option \<Rightarrow> json event \<Rightarrow> goal_projection option" where
  "apply_goal_projection s e = (case ev_data e of
      PluginEvent v \<Rightarrow>
        (case decode_goal_change v of
           Inl _ \<Rightarrow> s
         | Inr None \<Rightarrow> s
         | Inr (Some (ClearChange _ _)) \<Rightarrow> None
         | Inr (Some (SnapshotChange _ g rounds created updated)) \<Rightarrow>
             Some \<lparr>gp_goal = g, gp_rounds = rounds, gp_created = created, gp_updated = updated\<rparr>)
    | _ \<Rightarrow> s)"

section \<open>What an accepted goal log looks like\<close>

fun change_of :: "json event \<Rightarrow> goal_change option" where
  "change_of e = (case ev_data e of PluginEvent v \<Rightarrow> (case decode_goal_change v of Inr c \<Rightarrow> c | Inl _ \<Rightarrow> None) | _ \<Rightarrow> None)"

fun round_of :: "json event \<Rightarrow> int option" where
  "round_of e = (case ev_data e of
      UserMessage m \<Rightarrow> (case goal_source_of (msg_source m) of Inr s \<Rightarrow> map_option gsrc_round s | Inl _ \<Rightarrow> None)
    | _ \<Rightarrow> None)"

fun created_id :: "goal_change \<Rightarrow> goal_id option" where
  "created_id (SnapshotChange GoalCreate g _ _ _) = Some (g_id g)"
| "created_id _ = None"

definition changes :: "json event list \<Rightarrow> goal_change list" where
  "changes evs = List.map_filter change_of evs"

definition rounds :: "json event list \<Rightarrow> int list" where
  "rounds evs = List.map_filter round_of evs"

text \<open>A later revision of goal \<open>i\<close>: a snapshot that is not a create.\<close>

fun revises :: "goal_id \<Rightarrow> goal_change \<Rightarrow> bool" where
  "revises i (SnapshotChange p g _ _ _) = (p \<noteq> GoalCreate \<and> g_id g = i)"
| "revises i (ClearChange _ _) = False"

text \<open>
  The current goal is the create event of its id followed by numbered revisions of it and by the
  rounds 1, 2, 3 and so on.
\<close>

definition goal_story :: "json event list \<Rightarrow> goal_state \<Rightarrow> goal_snapshot \<Rightarrow> bool" where
  "goal_story evs st g \<longleftrightarrow>
     (\<exists>pre e post g0 created updated0 updated.
        evs = pre @ e # post \<and> change_of e = Some (SnapshotChange GoalCreate g0 0 created updated0) \<and>
        g_id g0 = g_id g \<and> gs_created st = Some created \<and> gs_updated st = Some updated \<and> created \<le> updated \<and>
        list_all (revises (g_id g)) (changes post) \<and> g_revision g = 1 + int (length (changes post)) \<and>
        0 \<le> gs_rounds st \<and> rounds post = [1..gs_rounds st])"

definition goal_history :: "json event list \<Rightarrow> goal_state \<Rightarrow> bool" where
  "goal_history evs st \<longleftrightarrow>
     gs_seen st = set (List.map_filter created_id (changes evs)) \<and> distinct (List.map_filter created_id (changes evs)) \<and>
     gs_last_ref st = (if changes evs = [] then None else Some (goal_change_ref (last (changes evs)))) \<and>
     (case gs_goal st of
        None \<Rightarrow> gs_rounds st = 0 \<and> gs_created st = None \<and> gs_updated st = None
      | Some g \<Rightarrow> goal_story evs st g \<and> (g_phase g = Blocked \<longleftrightarrow> g_reason g \<noteq> None))"

lemma changes_snoc: "changes (evs @ [e]) = changes evs @ (case change_of e of None \<Rightarrow> [] | Some c \<Rightarrow> [c])"
  by (simp add: changes_def map_filter_snoc del: change_of.simps)

lemma rounds_snoc: "rounds (evs @ [e]) = rounds evs @ (case round_of e of None \<Rightarrow> [] | Some c \<Rightarrow> [c])"
  by (simp add: rounds_def map_filter_snoc del: round_of.simps)

lemma decode_snapshot_blocked:
  "decode_snapshot v = Inr g \<Longrightarrow> g_phase g = Blocked \<longleftrightarrow> g_reason g \<noteq> None"
  by (auto simp: decode_snapshot_def Let_def rbind_Inr_iff split: option.splits json.splits if_splits)

lemma decode_change_facts:
  assumes "decode_goal_change v = Inr (Some (SnapshotChange p g r created updated))"
  shows "g_phase g = Blocked \<longleftrightarrow> g_reason g \<noteq> None" and "created \<le> updated" and "0 \<le> r"
  using assms
  by (auto simp: decode_goal_change_def rbind_Inr_iff non_negative_integer_def dest!: decode_snapshot_blocked
      split: if_splits option.splits json.splits)

text \<open>The three kinds of accepted event.\<close>

lemma apply_goal_event_cases:
  assumes "apply_goal_event st e = Inr st'"
  obtains
    (change) v c where "ev_data e = PluginEvent v" "decode_goal_change v = Inr (Some c)" "change_of e = Some c"
      "round_of e = None" "apply_goal_change st c = Inr st'"
  | (admit) m src where "ev_data e = UserMessage m" "goal_source_of (msg_source m) = Inr (Some src)"
      "change_of e = None" "round_of e = Some (gsrc_round src)" "admit_round st (ev_seq e) src = Inr st'"
  | (other) "change_of e = None" "round_of e = None" "st' = st"
proof (cases "ev_data e")
  case (UserMessage m)
  with assms obtain src where src: "goal_source_of (msg_source m) = Inr src"
    "(case src of None \<Rightarrow> Inr st | Some s \<Rightarrow> admit_round st (ev_seq e) s) = Inr st'"
    by (auto simp: apply_goal_event_def rbind_Inr_iff)
  show thesis
  proof (cases src)
    case None
    with src UserMessage show thesis by (intro other) simp_all
  next
    case (Some s)
    with src UserMessage show thesis by (intro admit) simp_all
  qed
next
  case (PluginEvent v)
  with assms obtain c where "decode_goal_change v = Inr (Some c)" "apply_goal_change st c = Inr st'"
    by (auto simp: apply_goal_event_def rbind_Inr_iff split: option.splits)
  with PluginEvent show thesis by (intro change) simp_all
qed (use assms other in \<open>simp_all add: apply_goal_event_def\<close>)

lemma goal_story_grow:
  assumes "goal_story evs st g" and "change_of e = None" and "round_of e = None"
  shows "goal_story (evs @ [e]) st g"
proof -
  from assms(1) obtain pre c post g0 created updated0 updated where
    s: "evs = pre @ c # post" "change_of c = Some (SnapshotChange GoalCreate g0 0 created updated0)"
      "g_id g0 = g_id g" "gs_created st = Some created" "gs_updated st = Some updated" "created \<le> updated"
      "list_all (revises (g_id g)) (changes post)" "g_revision g = 1 + int (length (changes post))"
      "0 \<le> gs_rounds st" "rounds post = [1..gs_rounds st]"
    unfolding goal_story_def by blast
  have "changes (post @ [e]) = changes post" "rounds (post @ [e]) = rounds post"
    using assms(2,3) by (simp_all add: changes_snoc rounds_snoc del: change_of.simps round_of.simps)
  with s show ?thesis
    unfolding goal_story_def by (metis append.assoc append_Cons)
qed


lemma goal_story_round:
  assumes "goal_story evs st g" and "change_of e = None" and "round_of e = Some (gs_rounds st + 1)"
  shows "goal_story (evs @ [e]) (st\<lparr>gs_rounds := gs_rounds st + 1\<rparr>) g"
proof -
  from assms(1) obtain pre c post g0 created updated0 updated where
    s: "evs = pre @ c # post" "change_of c = Some (SnapshotChange GoalCreate g0 0 created updated0)"
      "g_id g0 = g_id g" "gs_created st = Some created" "gs_updated st = Some updated" "created \<le> updated"
      "list_all (revises (g_id g)) (changes post)" "g_revision g = 1 + int (length (changes post))"
      "0 \<le> gs_rounds st" "rounds post = [1..gs_rounds st]"
    unfolding goal_story_def by blast
  have "changes (post @ [e]) = changes post" "rounds (post @ [e]) = [1..gs_rounds st + 1]"
    using assms(2,3) s(9,10) by (simp_all add: changes_snoc rounds_snoc upto_rec2 del: change_of.simps round_of.simps)
  with s show ?thesis
    unfolding goal_story_def
    by (intro exI [of _ pre] exI [of _ c] exI [of _ "post @ [e]"] exI [of _ g0] exI [of _ created] exI [of _ updated0]
        exI [of _ updated]) simp
qed

lemma goal_story_revise:
  assumes "goal_story evs st g" and "change_of e = Some (SnapshotChange p g' r c u)" and "round_of e = None"
    and "p \<noteq> GoalCreate" and "g_id g' = g_id g" and "g_revision g' = g_revision g + 1" and "r = gs_rounds st"
    and "gs_created st = Some c" and "gs_updated st = Some u0" and "u0 \<le> u"
  shows "goal_story (evs @ [e]) (st\<lparr>gs_goal := Some g', gs_rounds := r, gs_created := Some c, gs_updated := Some u,
    gs_last_ref := ref\<rparr>) g'"
proof -
  from assms(1) obtain pre c0 post g0 created updated0 updated where
    s: "evs = pre @ c0 # post" "change_of c0 = Some (SnapshotChange GoalCreate g0 0 created updated0)"
      "g_id g0 = g_id g" "gs_created st = Some created" "gs_updated st = Some updated" "created \<le> updated"
      "list_all (revises (g_id g)) (changes post)" "g_revision g = 1 + int (length (changes post))"
      "0 \<le> gs_rounds st" "rounds post = [1..gs_rounds st]"
    unfolding goal_story_def by blast
  have "changes (post @ [e]) = changes post @ [SnapshotChange p g' r c u]" "rounds (post @ [e]) = rounds post"
    using assms(2,3) by (simp_all add: changes_snoc rounds_snoc del: change_of.simps round_of.simps)
  with s assms show ?thesis
    unfolding goal_story_def
    by (intro exI [of _ pre] exI [of _ c0] exI [of _ "post @ [e]"] exI [of _ g0] exI [of _ created] exI [of _ updated0]
        exI [of _ u]) simp
qed

lemma goal_story_create:
  assumes "change_of e = Some (SnapshotChange GoalCreate g 0 c u)" and "g_revision g = 1" and "c \<le> u"
  shows "goal_story (evs @ [e]) (st\<lparr>gs_goal := Some g, gs_rounds := 0, gs_created := Some c, gs_updated := Some u,
    gs_last_ref := ref\<rparr>) g"
  using assms unfolding goal_story_def
  by (intro exI [of _ evs] exI [of _ e] exI [of _ "[]"] exI [of _ g] exI [of _ c] exI [of _ u] exI [of _ u])
    (simp add: changes_def rounds_def List.map_filter_def)

lemma goal_story_frame: "goal_story evs (st\<lparr>gs_seen := x\<rparr>) g = goal_story evs st g"
  by (simp add: goal_story_def)

lemma accepted_change_history:
  assumes h: "goal_history evs st" and ev: "ev_data e = PluginEvent v" "decode_goal_change v = Inr (Some c)"
    "change_of e = Some c" "round_of e = None" and step: "apply_goal_change st c = Inr st'"
  shows "goal_history (evs @ [e]) st'"
proof (cases c)
  case (ClearChange ref t)
  with step obtain cur where "gs_goal st = Some cur"
    and st': "st' = st\<lparr>gs_goal := None, gs_rounds := 0, gs_created := None, gs_updated := None, gs_last_ref := Some ref\<rparr>"
    by (auto simp: rbind_Inr_iff split: option.splits if_splits)
  with h ev ClearChange show ?thesis
    by (simp add: goal_history_def changes_snoc map_filter_snoc del: change_of.simps)
next
  case c: (SnapshotChange p g r created updated)
  note facts = decode_change_facts [OF ev(2) [unfolded c]]
  show ?thesis
  proof (cases "p = GoalCreate")
    case True
    with step c have new: "g_revision g = 1" "r = 0" "g_id g \<notin> gs_seen st"
      and st': "st' = st\<lparr>gs_seen := insert (g_id g) (gs_seen st), gs_goal := Some g, gs_rounds := 0, gs_created := Some created,
        gs_updated := Some updated, gs_last_ref := Some (ref_of g)\<rparr>"
      by (auto split: if_splits)
    have "goal_story (evs @ [e]) st' g"
      using goal_story_create [of e g created updated evs _ "st\<lparr>gs_seen := insert (g_id g) (gs_seen st)\<rparr>"] ev(3) c True new facts(2)
      by (simp add: st')
    with h ev c True new facts st' show ?thesis
      by (auto simp: goal_history_def changes_snoc map_filter_snoc simp del: change_of.simps)
  next
    case False
    with step c obtain cur where cur: "gs_goal st = Some cur"
      and v: "validate_snapshot_transition st p g r created updated cur = Inr ()"
      and st': "st' = st\<lparr>gs_goal := Some g, gs_rounds := r, gs_created := Some created, gs_updated := Some updated,
        gs_last_ref := Some (ref_of g)\<rparr>"
      by (auto simp: rbind_Inr_iff split: option.splits)
    from v obtain u where u: "gs_updated st = Some u" "gs_created st = Some created" "u \<le> updated" "r = gs_rounds st"
      "g_id g = g_id cur" "g_revision g = g_revision cur + 1"
      by (auto simp: validate_snapshot_transition_def rbind_Inr_iff require_next_revision_def ref_of_def split: option.splits)
    have "goal_story (evs @ [e]) st' g"
      using goal_story_revise [of evs st cur e p g r created updated u] h cur ev c False u st'
      by (simp add: goal_history_def del: change_of.simps)
    moreover have "created_id c = None" using c False by (cases p) simp_all
    ultimately show ?thesis
      using h ev c facts st'
      by (auto simp: goal_history_def changes_snoc map_filter_snoc simp del: change_of.simps split: option.splits)
  qed
qed

lemma goal_history_step: "goal_history evs st \<Longrightarrow> apply_goal_event st e = Inr st' \<Longrightarrow> goal_history (evs @ [e]) st'"
proof (erule apply_goal_event_cases)
  fix v c
  assume "goal_history evs st" "ev_data e = PluginEvent v" "decode_goal_change v = Inr (Some c)" "change_of e = Some c"
    "round_of e = None" "apply_goal_change st c = Inr st'"
  then show ?thesis by (rule accepted_change_history)
next
  fix m src
  assume h: "goal_history evs st" and ev: "change_of e = None" "round_of e = Some (gsrc_round src)"
    and step: "admit_round st (ev_seq e) src = Inr st'"
  from step obtain cur where cur: "gs_goal st = Some cur" and r: "gsrc_round src = gs_rounds st + 1"
    and st': "st' = st\<lparr>gs_rounds := gs_rounds st + 1\<rparr>"
    by (auto simp: admit_round_def split: option.splits if_splits)
  have "goal_story (evs @ [e]) st' cur"
    using goal_story_round [of evs st cur e] h cur ev r st' by (simp add: goal_history_def del: change_of.simps round_of.simps)
  with h cur ev st' show ?thesis by (simp add: goal_history_def changes_snoc del: change_of.simps)
next
  assume h: "goal_history evs st" and ev: "change_of e = None" "round_of e = None" and "st' = st"
  with goal_story_grow [OF _ ev] show ?thesis
    by (auto simp: goal_history_def changes_snoc simp del: change_of.simps round_of.simps split: option.splits)
qed

interpretation goal: replayed apply_goal_event empty_goal_state goal_history
proof
  show "goal_history [] empty_goal_state"
    by (simp add: goal_history_def empty_goal_state_def changes_def List.map_filter_def)
qed (rule goal_history_step)


section \<open>The written form of a change\<close>

definition encode_snapshot :: "goal_snapshot \<Rightarrow> json" where
  "encode_snapshot g = JObj ([(''id'', JStr (g_id g)), (''revision'', JInt (g_revision g)), (''objective'', JStr (g_objective g)),
     (''phase'', JStr (phase_name (g_phase g))), (''maxGoalRounds'', JInt (g_max_rounds g))] @
     (case g_reason g of None \<Rightarrow> []
      | Some r \<Rightarrow> [(''blockedReason'', JObj [(''code'', JStr (br_code r)), (''message'', JStr (br_message r))])]))"

fun encode_change :: "goal_change \<Rightarrow> json" where
  "encode_change (SnapshotChange p g rnds created updated) =
     JObj [(''kind'', JStr ''goal/change''), (''version'', JNum 1), (''operation'', JStr (operation_name p)),
       (''goal'', encode_snapshot g), (''roundsStarted'', JInt rnds), (''createdAt'', JInt created), (''updatedAt'', JInt updated)]"
| "encode_change (ClearChange ref t) =
     JObj [(''kind'', JStr ''goal/change''), (''version'', JNum 1), (''operation'', JStr ''clear''),
       (''cleared'', JObj [(''id'', JStr (gr_id ref)), (''revision'', JInt (gr_revision ref))]), (''clearedAt'', JInt t)]"

definition wf_snapshot :: "goal_snapshot \<Rightarrow> bool" where
  "wf_snapshot g \<longleftrightarrow> g_id g \<noteq> [] \<and> 1 \<le> g_revision g \<and> g_revision g \<le> max_safe \<and> is_normalized (g_objective g) \<and>
     1 \<le> g_max_rounds g \<and> g_max_rounds g \<le> max_safe \<and>
     (case g_reason g of None \<Rightarrow> g_phase g \<noteq> Blocked
      | Some r \<Rightarrow> g_phase g = Blocked \<and> is_kebab (br_code r) \<and> is_normalized (br_message r))"

fun wf_change :: "goal_change \<Rightarrow> bool" where
  "wf_change (SnapshotChange p g rnds created updated) =
     (wf_snapshot g \<and> 0 \<le> rnds \<and> rnds \<le> max_safe \<and> 0 \<le> created \<and> created \<le> updated \<and> updated \<le> max_safe)"
| "wf_change (ClearChange ref t) =
     (gr_id ref \<noteq> [] \<and> 1 \<le> gr_revision ref \<and> gr_revision ref \<le> max_safe \<and> 0 \<le> t \<and> t \<le> max_safe)"

lemma sort_keys:
  "sorted_keys (JObj [(''code'', a), (''message'', b)]) = ''code,message''"
  "sorted_keys (JObj [(''id'', a), (''revision'', b)]) = ''id,revision''"
  "sorted_keys (JObj [(''id'', a), (''revision'', b), (''objective'', c), (''phase'', d), (''maxGoalRounds'', e)]) =
     ''id,maxGoalRounds,objective,phase,revision''"
  "sorted_keys (JObj [(''id'', a), (''revision'', b), (''objective'', c), (''phase'', d), (''maxGoalRounds'', e),
     (''blockedReason'', f)]) = ''blockedReason,id,maxGoalRounds,objective,phase,revision''"
  "sorted_keys (JObj [(''kind'', a), (''version'', b), (''operation'', c), (''cleared'', d), (''clearedAt'', e)]) =
     ''cleared,clearedAt,kind,operation,version''"
  "sorted_keys (JObj [(''kind'', a), (''version'', b), (''operation'', c), (''goal'', d), (''roundsStarted'', e),
     (''createdAt'', f), (''updatedAt'', g)]) = ''createdAt,goal,kind,operation,roundsStarted,updatedAt,version''"
  unfolding sorted_keys_def jkeys.simps list.map fst_conv by code_simp+

lemma of_int_ge_one: "\<not> (of_int n :: rat) < 1 \<longleftrightarrow> 1 \<le> n"
  by linarith

lemma positive_JInt: "1 \<le> n \<Longrightarrow> n \<le> max_safe \<Longrightarrow> positive_integer (Some (JInt n)) f = Inr n"
  by (simp add: positive_integer_def safe_int_def)

lemma non_negative_JInt: "0 \<le> n \<Longrightarrow> n \<le> max_safe \<Longrightarrow> non_negative_integer (Some (JInt n)) f = Inr n"
  by (simp add: non_negative_integer_def safe_int_def)

lemma positive_integer_Inr: "positive_integer v f = Inr n \<Longrightarrow> 1 \<le> n \<and> n \<le> max_safe"
  by (auto simp: positive_integer_def safe_int_def elim!: safe_integerE split: option.splits json.splits if_splits)

lemma non_negative_integer_Inr: "non_negative_integer v f = Inr n \<Longrightarrow> 0 \<le> n \<and> n \<le> max_safe"
  by (auto simp: non_negative_integer_def safe_int_def elim!: safe_integerE split: option.splits json.splits if_splits)

lemma decode_phase_name: "decode_phase (Some (JStr (phase_name p))) = Inr p"
  by (cases p) (simp_all add: decode_phase_def phase_name_def)

lemma decode_operation_name:
  "decode_operation (Some (JStr (operation_name p))) = Inr p" "operation_name p \<noteq> ''clear''"
  by (cases p; simp add: decode_operation_def operation_name_def)+

lemma decode_reason_encode:
  "is_kebab (br_code r) \<Longrightarrow> is_normalized (br_message r) \<Longrightarrow>
     decode_block_reason (Some (JObj [(''code'', JStr (br_code r)), (''message'', JStr (br_message r))])) = Inr r"
  by (simp add: decode_block_reason_def sort_keys)

lemma decode_snapshot_encode: "wf_snapshot g \<Longrightarrow> decode_snapshot (Some (encode_snapshot g)) = Inr g"
proof (cases "g_reason g")
  case None
  moreover assume "wf_snapshot g"
  ultimately show ?thesis
    by (simp add: wf_snapshot_def encode_snapshot_def decode_snapshot_def sort_keys nonempty_string_def normalized_string_def
        decode_phase_name positive_JInt del: of_int_le_iff) (simp add: require_def)
next
  case (Some r)
  moreover assume "wf_snapshot g"
  ultimately show ?thesis
    by (simp add: wf_snapshot_def encode_snapshot_def decode_snapshot_def sort_keys nonempty_string_def normalized_string_def
        decode_phase_name positive_JInt decode_reason_encode) (simp add: require_def)
qed

lemma decode_change_encode: "wf_change c \<Longrightarrow> decode_goal_change (encode_change c) = Inr (Some c)"
  by (cases c)
    (simp_all add: decode_goal_change_def sort_keys decode_operation_name non_negative_JInt positive_JInt
      decode_snapshot_encode decode_ref_def nonempty_string_def require_def)

lemma nonempty_string_Inr: "nonempty_string v err = Inr s \<Longrightarrow> s \<noteq> []"
  by (auto simp: nonempty_string_def split: option.splits json.splits if_splits)

lemma normalized_string_Inr: "normalized_string v err = Inr s \<Longrightarrow> is_normalized s"
  by (auto simp: normalized_string_def split: option.splits json.splits if_splits)

lemma decode_reason_wf: "decode_block_reason v = Inr r \<Longrightarrow> is_kebab (br_code r) \<and> is_normalized (br_message r)"
  by (auto simp: decode_block_reason_def split: option.splits json.splits if_splits)

lemma decode_snapshot_wf: "decode_snapshot v = Inr g \<Longrightarrow> wf_snapshot g"
  unfolding decode_snapshot_def
  by (cases v; simp; case_tac a; simp add: Let_def)
    (auto simp: wf_snapshot_def elim!: rbindE split: if_splits
      dest!: nonempty_string_Inr normalized_string_Inr positive_integer_Inr decode_reason_wf)

lemma decode_ref_wf: "decode_ref v = Inr ref \<Longrightarrow> gr_id ref \<noteq> [] \<and> 1 \<le> gr_revision ref \<and> gr_revision ref \<le> max_safe"
  by (auto simp: decode_ref_def Let_def rbind_Inr_iff dest!: positive_integer_Inr nonempty_string_Inr
      split: option.splits json.splits)

lemma decode_change_wf:
  assumes "decode_goal_change v = Inr (Some c)"
  shows "wf_change c"
proof (cases "jget v ''operation'' = Some (JStr ''clear'')")
  case True
  with assms show ?thesis
    by (auto simp: decode_goal_change_def elim!: rbindE split: if_splits dest!: decode_ref_wf non_negative_integer_Inr)
next
  case False
  with assms show ?thesis
    by (auto simp: decode_goal_change_def elim!: rbindE split: if_splits dest!: decode_snapshot_wf non_negative_integer_Inr)
qed


section \<open>Well-formed states\<close>

definition goal_state_wf :: "goal_state \<Rightarrow> bool" where
  "goal_state_wf st \<longleftrightarrow> (case gs_goal st of
      None \<Rightarrow> True
    | Some g \<Rightarrow> wf_snapshot g \<and> 0 \<le> gs_rounds st \<and> gs_rounds st \<le> max_safe \<and>
        (\<exists>c u. gs_created st = Some c \<and> gs_updated st = Some u \<and> 0 \<le> c \<and> c \<le> u \<and> u \<le> max_safe))"

lemma goal_state_wf_step:
  assumes "goal_state_wf st" and "apply_goal_event st e = Inr st'"
  shows "goal_state_wf st'"
  using assms(2)
proof (cases rule: apply_goal_event_cases)
  case (change v c)
  note wf = decode_change_wf [OF change(2)]
  show ?thesis
  proof (cases c)
    case (ClearChange ref t)
    with change(5) show ?thesis
      by (auto simp: goal_state_wf_def rbind_Inr_iff split: option.splits if_splits)
  next
    case (SnapshotChange p g r created updated)
    with change(5) obtain st1 where "st' = st1\<lparr>gs_goal := Some g, gs_rounds := r, gs_created := Some created,
        gs_updated := Some updated, gs_last_ref := Some (ref_of g)\<rparr>"
      by (auto simp: rbind_Inr_iff)
    with wf SnapshotChange show ?thesis by (simp add: goal_state_wf_def)
  qed
next
  case (admit m src)
  then obtain cur where "gs_goal st = Some cur" "st' = st\<lparr>gs_rounds := gs_rounds st + 1\<rparr>" "gs_rounds st + 1 \<le> g_max_rounds cur"
    by (auto simp: admit_round_def split: option.splits if_splits)
  with assms(1) show ?thesis by (auto simp: goal_state_wf_def wf_snapshot_def)
next
  case other
  with assms(1) show ?thesis by simp
qed

interpretation goal_wf: replayed apply_goal_event empty_goal_state "\<lambda>_. goal_state_wf"
  by unfold_locales (simp add: goal_state_wf_def empty_goal_state_def, rule goal_state_wf_step)

section \<open>The projection and the strict fold\<close>

definition since_change :: "json event list \<Rightarrow> json event list" where
  "since_change evs = rev (takeWhile (\<lambda>e. change_of e = None) (rev evs))"

lemma since_change_snoc: "since_change (evs @ [e]) = (if change_of e = None then since_change evs @ [e] else [])"
  by (simp add: since_change_def del: change_of.simps)

definition projects :: "json event list \<Rightarrow> goal_state \<Rightarrow> goal_projection option \<Rightarrow> bool" where
  "projects evs st p \<longleftrightarrow> (case gs_goal st of
      None \<Rightarrow> p = None
    | Some g \<Rightarrow> (\<exists>q. p = Some q \<and> gp_goal q = g \<and> gs_created st = Some (gp_created q) \<and> gs_updated st = Some (gp_updated q) \<and>
        gs_rounds st = gp_rounds q + int (length (rounds (since_change evs)))))"

lemma projection_other: "change_of e = None \<Longrightarrow> apply_goal_projection p e = p"
  by (auto simp: apply_goal_projection_def split: event_data.splits sum.splits option.splits)

lemma projects_step:
  assumes "projects evs st p" and "apply_goal_event st e = Inr st'"
  shows "projects (evs @ [e]) st' (apply_goal_projection p e)"
  using assms(2)
proof (cases rule: apply_goal_event_cases)
  case (change v c)
  show ?thesis
  proof (cases c)
    case (ClearChange ref t)
    with change show ?thesis
      by (auto simp: projects_def rbind_Inr_iff apply_goal_projection_def split: option.splits if_splits)
  next
    case (SnapshotChange p g r created updated)
    with change(5) obtain st1 where "st' = st1\<lparr>gs_goal := Some g, gs_rounds := r, gs_created := Some created,
        gs_updated := Some updated, gs_last_ref := Some (ref_of g)\<rparr>"
      by (auto simp: rbind_Inr_iff)
    with change(1-3) SnapshotChange show ?thesis
      by (simp add: projects_def apply_goal_projection_def since_change_snoc rounds_def List.map_filter_def del: change_of.simps)
  qed
next
  case (admit m src)
  then have "st' = st\<lparr>gs_rounds := gs_rounds st + 1\<rparr>"
    by (auto simp: admit_round_def split: option.splits if_splits)
  with admit(3,4) assms(1) show ?thesis
    by (auto simp: projects_def since_change_snoc rounds_snoc projection_other simp del: change_of.simps round_of.simps
        split: option.splits)
next
  case other
  with assms(1) show ?thesis
    by (auto simp: projects_def since_change_snoc rounds_snoc projection_other simp del: change_of.simps round_of.simps
        split: option.splits)
qed

lemma fold_projects:
  "fold_goal evs = Inr st \<Longrightarrow> projects evs st (foldl apply_goal_projection None evs)"
proof (induction evs arbitrary: st rule: rev_induct)
  case Nil
  then show ?case by (auto simp: fold_goal_def projects_def empty_goal_state_def)
next
  case (snoc e evs)
  then show ?case by (auto simp: fold_goal_def replay_snoc_Inr intro: projects_step)
qed

section \<open>Properties of the log\<close>

text \<open>
  C10: In every goal log the strict fold accepts, no goal id is created twice, and the current goal
  is one create event at revision 1 with no rounds, followed only by revisions of the same id, each
  one higher, and by admitted rounds numbered from 1 without gaps; clearing resets the counters.
\<close>

theorem accepted_goal_log_tells_its_story:
  assumes "fold_goal evs = Inr st"
  shows "goal_history evs st"
  using assms unfolding fold_goal_def by (rule goal.run_hist)

text \<open>
  The decoder and the writer agree: every change that decodes is well formed, and writing a
  well-formed change and decoding it gives it back, so decoding, writing and decoding again is
  decoding once.
\<close>

theorem goal_change_round_trips:
  "(wf_change c \<longrightarrow> decode_goal_change (encode_change c) = Inr (Some c)) \<and>
   (decode_goal_change v = Inr (Some c) \<longrightarrow> wf_change c)"
  using decode_change_encode decode_change_wf by blast

text \<open>
  On an accepted log the lenient projection shows the current goal and its timestamps exactly as
  the strict fold has them; its round counter is the one of the latest change and lags by the rounds
  admitted since.
\<close>

theorem projection_lags_by_rounds_only:
  assumes "fold_goal evs = Inr st"
  shows "projects evs st (foldl apply_goal_projection None evs)"
  by (rule fold_projects [OF assms])

definition sample_goal :: goal_snapshot where
  "sample_goal = \<lparr>g_id = ''goal-1'', g_revision = 1, g_objective = ''ship'', g_phase = Active, g_reason = None, g_max_rounds = 3\<rparr>"

definition sample_round :: "int \<Rightarrow> message" where
  "sample_round n = \<lparr>msg_id = nat_string (nat n), msg_role = UserRole, msg_content = [],
     msg_source = MergedSource ''goal'' [(''goalId'', JStr ''goal-1''), (''revision'', JInt 1), (''round'', JInt n)]\<rparr>"

definition sample_goal_log :: "json event list" where
  "sample_goal_log = [
     log_event 0 5 (PluginEvent (encode_change (SnapshotChange GoalCreate sample_goal 0 5 5))),
     log_event 1 6 (UserMessage (sample_round 1)),
     log_event 2 7 (UserMessage (sample_round 2))]"

lemma sample_goal_fold:
  "fold_goal sample_goal_log = Inr \<lparr>gs_goal = Some sample_goal, gs_rounds = 2, gs_created = Some 5, gs_updated = Some 5,
     gs_last_ref = Some (ref_of sample_goal), gs_seen = {''goal-1''}\<rparr>"
  by code_simp

theorem accepted_goal_log_tells_its_story_witness:
  "\<exists>st. fold_goal sample_goal_log = Inr st \<and> gs_rounds st = 2 \<and> goal_history sample_goal_log st"
  using accepted_goal_log_tells_its_story [OF sample_goal_fold] sample_goal_fold by simp

theorem goal_change_round_trips_witness:
  "decode_goal_change (encode_change (SnapshotChange GoalCreate sample_goal 0 5 5)) =
     Inr (Some (SnapshotChange GoalCreate sample_goal 0 5 5))"
proof -
  have "wf_change (SnapshotChange GoalCreate sample_goal 0 5 5)" by code_simp
  then show ?thesis
    using goal_change_round_trips [of "SnapshotChange GoalCreate sample_goal 0 5 5"] by blast
qed

theorem projection_lags_by_rounds_only_witness:
  "\<exists>q. foldl apply_goal_projection None sample_goal_log = Some q \<and> gp_goal q = sample_goal \<and> gp_rounds q + 2 = 2"
proof -
  have "rounds (since_change sample_goal_log) = [1, 2]" by code_simp
  then show ?thesis
    using projection_lags_by_rounds_only [OF sample_goal_fold] by (auto simp: projects_def)
qed

end
