(* ===== verification/Goal_Service.thy ===== *)
theory Goal_Service
  imports Goal_Fold
begin

text \<open>
  The goal service (\<open>class GoalService\<close> of \<open>packages/goal/goal/src/index.ts\<close>): compare-and-set
  mutations on the owning session's log, the per-session cache that folds the log incrementally, and
  the process-local activation. One exact agent and its session are modelled; \<open>gsv_live\<close> says
  whether the registry still holds that agent. \<open>now\<close> and \<open>tick\<close> are the two clock reads of a
  mutation, for the change and for its event. Emission of \<open>goal/changed\<close> is a trace.
\<close>

section \<open>State\<close>

datatype activation = Armed | Disarmed

record goal_cache =
  gc_state :: goal_state
  gc_activation :: activation
  gc_observed :: nat
  gc_pending :: "(int \<times> activation) option"

record goal_view =
  gv_goal :: goal_snapshot
  gv_rounds :: int
  gv_created :: int
  gv_updated :: int
  gv_activation :: activation

record goal_changed =
  gch_change :: goal_change
  gch_ref :: goal_ref
  gch_goal :: "goal_view option"

record goal_service =
  gsv_session :: "json session"
  gsv_cache :: "goal_cache option"
  gsv_live :: bool
  gsv_default_rounds :: int
  gsv_emitted :: "goal_changed list"

datatype goal_code =
    AgentNotLive | GoalNotFound | GoalAlreadyExists | StaleRevision | InvalidObjective | InvalidMaxRounds
  | InvalidBlockReason | InvalidEdit | InvalidTransition

datatype goal_failure =
    GoalFailure goal_code
  | FoldFailure goal_error
  | AppendFailure session_error
  | CacheLacksTimes
  | SnapshotCleared

section \<open>Request validation\<close>

definition resolve_max_rounds :: "rat \<Rightarrow> goal_failure + int" where
  "resolve_max_rounds r = (if \<not> safe_integer r \<or> r < 1 then Inl (GoalFailure InvalidMaxRounds) else Inr \<lfloor>r\<rfloor>)"

definition resolve_objective :: "string \<Rightarrow> goal_failure + string" where
  "resolve_objective s = (if js_trim s = [] then Inl (GoalFailure InvalidObjective) else Inr (js_trim s))"

definition resolve_create :: "string \<Rightarrow> rat option \<Rightarrow> int \<Rightarrow> goal_failure + string \<times> int" where
  "resolve_create objective cap default_rounds =
     rbind (resolve_objective objective) (\<lambda>obj.
     rbind (resolve_max_rounds (case cap of None \<Rightarrow> of_int default_rounds | Some r \<Rightarrow> r)) (\<lambda>n. Inr (obj, n)))"

definition resolve_block_reason :: "json \<Rightarrow> goal_failure + block_reason" where
  "resolve_block_reason reason = (case (jget reason ''code'', jget reason ''message'') of
      (Some (JStr code), Some (JStr msg)) \<Rightarrow>
        if \<not> is_kebab code \<or> js_trim msg = [] then Inl (GoalFailure InvalidBlockReason)
        else Inr \<lparr>br_code = code, br_message = js_trim msg\<rparr>
    | _ \<Rightarrow> Inl (GoalFailure InvalidBlockReason))"

section \<open>The cache\<close>

definition is_goal_change :: "json event \<Rightarrow> bool" where
  "is_goal_change e = (case ev_data e of PluginEvent _ \<Rightarrow> True | _ \<Rightarrow> False)"

text \<open>The loop of \<open>sync\<close> over the unseen events; a rejected event stops it where it stands.\<close>

fun sync_events :: "json event list \<Rightarrow> goal_cache \<Rightarrow> goal_cache \<times> goal_error option" where
  "sync_events [] c = (c, None)"
| "sync_events (e # es) c = (case apply_goal_event (gc_state c) e of
      Inl err \<Rightarrow> (c, Some err)
    | Inr st \<Rightarrow>
        sync_events es (c\<lparr>gc_state := st,
          gc_activation := (if is_goal_change e then
              (case gc_pending c of
                 Some (seq, act) \<Rightarrow> if seq = ev_seq e then act else Disarmed
               | None \<Rightarrow> Disarmed)
            else gc_activation c),
          gc_observed := gc_observed c + 1\<rparr>))"

definition sync :: "json session \<Rightarrow> goal_cache \<Rightarrow> goal_cache \<times> goal_error option" where
  "sync s c = sync_events (drop (gc_observed c) (ses_log s)) c"

text \<open>\<open>cache\<close>: the stored cache, or a fold of the whole log with activation disarmed.\<close>

definition obtain_cache :: "goal_service \<Rightarrow> goal_error + goal_cache" where
  "obtain_cache sv = (case gsv_cache sv of
      Some c \<Rightarrow> Inr c
    | None \<Rightarrow> rbind (fold_goal (ses_log (gsv_session sv))) (\<lambda>st.
        Inr \<lparr>gc_state = st, gc_activation = Disarmed, gc_observed = length (ses_log (gsv_session sv)), gc_pending = None\<rparr>))"

definition prepare_mutation :: "goal_service \<Rightarrow> goal_service \<times> (goal_failure + goal_cache)" where
  "prepare_mutation sv =
     (if \<not> gsv_live sv then (sv, Inl (GoalFailure AgentNotLive))
      else case obtain_cache sv of
          Inl err \<Rightarrow> (sv, Inl (FoldFailure err))
        | Inr c0 \<Rightarrow>
            (case sync (gsv_session sv) c0 of
               (c, Some err) \<Rightarrow> (sv\<lparr>gsv_cache := Some c\<rparr>, Inl (FoldFailure err))
             | (c, None) \<Rightarrow> (sv\<lparr>gsv_cache := Some c\<rparr>, Inr c)))"

definition view :: "goal_cache \<Rightarrow> goal_failure + goal_view option" where
  "view c = (case gs_goal (gc_state c) of
      None \<Rightarrow> Inr None
    | Some g \<Rightarrow> (case (gs_created (gc_state c), gs_updated (gc_state c)) of
        (Some created, Some updated) \<Rightarrow>
          Inr (Some \<lparr>gv_goal = g, gv_rounds = gs_rounds (gc_state c), gv_created = created, gv_updated = updated,
            gv_activation = gc_activation c\<rparr>)
      | _ \<Rightarrow> Inl CacheLacksTimes))"

section \<open>Committing\<close>

definition commit ::
    "int \<Rightarrow> goal_change \<Rightarrow> activation \<Rightarrow> goal_service \<Rightarrow> goal_cache \<Rightarrow> goal_service \<times> (goal_failure + goal_view option)" where
  "commit tick change act sv c =
     (let pending = c\<lparr>gc_pending := Some (int (length (ses_log (gsv_session sv))), act)\<rparr> in
      case session_append tick (PluginEvent (encode_change change)) no_intent (gsv_session sv) of
        (s', Inl err) \<Rightarrow> (sv\<lparr>gsv_session := s', gsv_cache := Some (pending\<lparr>gc_pending := None\<rparr>)\<rparr>, Inl (AppendFailure err))
      | (s', Inr _) \<Rightarrow>
          (case sync s' pending of
             (c', Some err) \<Rightarrow> (sv\<lparr>gsv_session := s', gsv_cache := Some (c'\<lparr>gc_pending := None\<rparr>)\<rparr>, Inl (FoldFailure err))
           | (c', None) \<Rightarrow>
               let c2 = c'\<lparr>gc_pending := None\<rparr>; sv2 = sv\<lparr>gsv_session := s', gsv_cache := Some c2\<rparr> in
               (case view c2 of
                  Inl err \<Rightarrow> (sv2, Inl err)
                | Inr v \<Rightarrow>
                    (sv2\<lparr>gsv_emitted := gsv_emitted sv2 @
                       [\<lparr>gch_change = change, gch_ref = goal_change_ref change, gch_goal = v\<rparr>]\<rparr>, Inr v))))"

text \<open>
  A mutation: prepare, decide the change from the synchronized cache, and commit it. \<open>decide\<close> is what
  each public method does between \<open>prepareMutation\<close> and \<open>commit\<close>.
\<close>

definition mutation ::
    "int \<Rightarrow> (goal_cache \<Rightarrow> goal_failure + goal_change \<times> activation) \<Rightarrow> goal_service
      \<Rightarrow> goal_service \<times> (goal_failure + goal_change \<times> goal_view option)" where
  "mutation tick decide sv = (case prepare_mutation sv of
      (sv1, Inl err) \<Rightarrow> (sv1, Inl err)
    | (sv1, Inr c) \<Rightarrow>
        (case decide c of
           Inl err \<Rightarrow> (sv1, Inl err)
         | Inr (change, act) \<Rightarrow>
             (case commit tick change act sv1 c of
                (sv2, Inl err) \<Rightarrow> (sv2, Inl err)
              | (sv2, Inr v) \<Rightarrow> (sv2, Inr (change, v)))))"

definition expect_current :: "goal_cache \<Rightarrow> goal_ref \<Rightarrow> goal_failure + goal_snapshot" where
  "expect_current c ref = (case gs_goal (gc_state c) of
      None \<Rightarrow> Inl (GoalFailure GoalNotFound)
    | Some cur \<Rightarrow>
        if gr_id ref \<noteq> g_id cur \<or> gr_revision ref \<noteq> g_revision cur then Inl (GoalFailure StaleRevision) else Inr cur)"

definition next_mutation_time :: "int \<Rightarrow> goal_cache \<Rightarrow> goal_failure + int" where
  "next_mutation_time now c = (case gs_updated (gc_state c) of None \<Rightarrow> Inl CacheLacksTimes | Some u \<Rightarrow> Inr (max now u))"

definition with_phase :: "goal_snapshot \<Rightarrow> goal_phase \<Rightarrow> goal_snapshot" where
  "with_phase cur phase = \<lparr>g_id = g_id cur, g_revision = g_revision cur + 1, g_objective = g_objective cur, g_phase = phase,
     g_reason = None, g_max_rounds = g_max_rounds cur\<rparr>"

definition commit_current ::
    "int \<Rightarrow> goal_operation \<Rightarrow> goal_snapshot \<Rightarrow> activation \<Rightarrow> goal_cache \<Rightarrow> goal_failure + goal_change \<times> activation" where
  "commit_current now p g act c = (case gs_created (gc_state c) of
      None \<Rightarrow> Inl CacheLacksTimes
    | Some created \<Rightarrow> rbind (next_mutation_time now c) (\<lambda>updated.
        Inr (SnapshotChange p g (gs_rounds (gc_state c)) created updated, act)))"

section \<open>The public methods\<close>

definition decide_create :: "int \<Rightarrow> string \<Rightarrow> string \<times> int \<Rightarrow> goal_cache \<Rightarrow> goal_failure + goal_change \<times> activation" where
  "decide_create now uuid spec c =
     (if (case gs_goal (gc_state c) of None \<Rightarrow> False | Some cur \<Rightarrow> g_phase cur \<noteq> Completed)
      then Inl (GoalFailure GoalAlreadyExists)
      else Inr (SnapshotChange GoalCreate
         \<lparr>g_id = ''goal-'' @ uuid, g_revision = 1, g_objective = fst spec, g_phase = Active, g_reason = None, g_max_rounds = snd spec\<rparr>
         0 now now, Armed))"

definition decide_edit ::
    "int \<Rightarrow> goal_ref \<Rightarrow> string option \<Rightarrow> rat option \<Rightarrow> goal_cache \<Rightarrow> goal_failure + goal_change \<times> activation" where
  "decide_edit now ref objective cap c =
     rbind (expect_current c ref) (\<lambda>cur.
     if objective = None \<and> cap = None then Inl (GoalFailure InvalidEdit)
     else
       rbind (case objective of None \<Rightarrow> Inr (g_objective cur) | Some s \<Rightarrow> resolve_objective s) (\<lambda>obj.
       rbind (case cap of None \<Rightarrow> Inr (g_max_rounds cur) | Some r \<Rightarrow> resolve_max_rounds r) (\<lambda>n.
         commit_current now GoalEdit (cur\<lparr>g_revision := g_revision cur + 1, g_objective := obj, g_max_rounds := n\<rparr>)
           (gc_activation c) c)))"

definition decide_transition ::
    "int \<Rightarrow> goal_ref \<Rightarrow> goal_operation \<Rightarrow> goal_phase list \<Rightarrow> goal_phase \<Rightarrow> activation \<Rightarrow> goal_cache
      \<Rightarrow> goal_failure + goal_change \<times> activation" where
  "decide_transition now ref p allowed phase act c =
     rbind (expect_current c ref) (\<lambda>cur.
     if g_phase cur \<notin> set allowed then Inl (GoalFailure InvalidTransition)
     else commit_current now p (with_phase cur phase) act c)"

definition decide_resume :: "int \<Rightarrow> goal_ref \<Rightarrow> goal_cache \<Rightarrow> goal_failure + goal_change \<times> activation" where
  "decide_resume now ref c =
     rbind (expect_current c ref) (\<lambda>cur.
     if g_phase cur \<notin> {Active, Paused, Blocked} then Inl (GoalFailure InvalidTransition)
     else if g_phase cur = Active \<and> gc_activation c = Armed then Inl (GoalFailure InvalidTransition)
     else if gs_rounds (gc_state c) \<ge> g_max_rounds cur then Inl (GoalFailure InvalidTransition)
     else commit_current now GoalResume (with_phase cur Active) Armed c)"

definition decide_block :: "int \<Rightarrow> goal_ref \<Rightarrow> json \<Rightarrow> goal_cache \<Rightarrow> goal_failure + goal_change \<times> activation" where
  "decide_block now ref reason c =
     rbind (expect_current c ref) (\<lambda>cur.
     if g_phase cur \<noteq> Active then Inl (GoalFailure InvalidTransition)
     else rbind (resolve_block_reason reason) (\<lambda>r.
       commit_current now GoalBlock ((with_phase cur Blocked)\<lparr>g_reason := Some r\<rparr>) Disarmed c))"

definition decide_clear :: "int \<Rightarrow> goal_ref \<Rightarrow> goal_cache \<Rightarrow> goal_failure + goal_change \<times> activation" where
  "decide_clear now ref c =
     rbind (expect_current c ref) (\<lambda>cur.
     rbind (next_mutation_time now c) (\<lambda>t.
       Inr (ClearChange \<lparr>gr_id = g_id cur, gr_revision = g_revision cur + 1\<rparr> t, Disarmed)))"

text \<open>The mutating methods; a snapshot method returns the view, \<open>clear\<close> the tombstone's ref.\<close>

datatype goal_request =
    RequestCreate string "rat option" string
  | RequestEdit goal_ref "string option" "rat option"
  | RequestPause goal_ref
  | RequestResume goal_ref
  | RequestComplete goal_ref
  | RequestBlock goal_ref json
  | RequestClear goal_ref

datatype goal_reply = ReplyView goal_view | ReplyRef goal_ref

definition snapshot_reply :: "goal_view option \<Rightarrow> goal_failure + goal_reply" where
  "snapshot_reply v = (case v of None \<Rightarrow> Inl SnapshotCleared | Some w \<Rightarrow> Inr (ReplyView w))"

fun decide :: "int \<Rightarrow> int \<Rightarrow> goal_request \<Rightarrow> goal_cache \<Rightarrow> goal_failure + goal_change \<times> activation" where
  "decide default_rounds now (RequestCreate objective cap uuid) c =
     rbind (resolve_create objective cap default_rounds) (\<lambda>spec. decide_create now uuid spec c)"
| "decide default_rounds now (RequestEdit ref objective cap) c = decide_edit now ref objective cap c"
| "decide default_rounds now (RequestPause ref) c = decide_transition now ref GoalPause [Active] Paused Disarmed c"
| "decide default_rounds now (RequestResume ref) c = decide_resume now ref c"
| "decide default_rounds now (RequestComplete ref) c =
     decide_transition now ref GoalComplete [Active, Paused, Blocked] Completed Disarmed c"
| "decide default_rounds now (RequestBlock ref reason) c = decide_block now ref reason c"
| "decide default_rounds now (RequestClear ref) c = decide_clear now ref c"

text \<open>\<open>create\<close> validates its request before it touches the cache.\<close>

fun precheck :: "int \<Rightarrow> goal_request \<Rightarrow> goal_failure + unit" where
  "precheck default_rounds (RequestCreate objective cap _) =
     rbind (resolve_create objective cap default_rounds) (\<lambda>_. Inr ())"
| "precheck _ _ = Inr ()"

definition perform :: "int \<Rightarrow> int \<Rightarrow> goal_request \<Rightarrow> goal_service \<Rightarrow> goal_service \<times> (goal_failure + goal_reply)" where
  "perform now tick req sv = (case precheck (gsv_default_rounds sv) req of
      Inl err \<Rightarrow> (sv, Inl err)
    | Inr _ \<Rightarrow>
        (case mutation tick (decide (gsv_default_rounds sv) now req) sv of
           (sv', Inl err) \<Rightarrow> (sv', Inl err)
         | (sv', Inr (ClearChange ref t, v)) \<Rightarrow> (sv', Inr (ReplyRef ref))
         | (sv', Inr (SnapshotChange _ _ _ _ _, v)) \<Rightarrow> (sv', snapshot_reply v)))"

definition get_goal :: "goal_service \<Rightarrow> goal_service \<times> (goal_failure + goal_view option)" where
  "get_goal sv = (case prepare_mutation sv of (sv1, Inl err) \<Rightarrow> (sv1, Inl err) | (sv1, Inr c) \<Rightarrow> (sv1, view c))"

definition disarm :: "goal_service \<Rightarrow> goal_service \<times> (goal_failure + goal_view option)" where
  "disarm sv = (case prepare_mutation sv of
      (sv1, Inl err) \<Rightarrow> (sv1, Inl err)
    | (sv1, Inr c) \<Rightarrow> let c' = c\<lparr>gc_activation := Disarmed\<rparr> in (sv1\<lparr>gsv_cache := Some c'\<rparr>, view c'))"

text \<open>The \<open>agent/session-start\<close> listener: it takes the cache without synchronizing it.\<close>

definition on_session_start :: "goal_service \<Rightarrow> goal_service \<times> (goal_failure + unit)" where
  "on_session_start sv = (case obtain_cache sv of
      Inl err \<Rightarrow> (sv, Inl (FoldFailure err))
    | Inr c \<Rightarrow> (sv\<lparr>gsv_cache := Some (c\<lparr>gc_activation := Disarmed\<rparr>)\<rparr>, Inr ()))"

definition new_goal_service :: "rat option \<Rightarrow> json session \<Rightarrow> goal_failure + goal_service" where
  "new_goal_service default_rounds s =
     rbind (resolve_max_rounds (case default_rounds of None \<Rightarrow> 256 | Some r \<Rightarrow> r)) (\<lambda>n.
       Inr \<lparr>gsv_session = s, gsv_cache = None, gsv_live = True, gsv_default_rounds = n, gsv_emitted = []\<rparr>)"


section \<open>The cache follows the log\<close>

definition armed_active :: "goal_cache \<Rightarrow> bool" where
  "armed_active c \<longleftrightarrow> (gc_activation c = Armed \<longrightarrow> (\<exists>g. gs_goal (gc_state c) = Some g \<and> g_phase g = Active))"

definition cache_inv :: "json event list \<Rightarrow> goal_cache \<Rightarrow> bool" where
  "cache_inv evs c \<longleftrightarrow> gc_observed c \<le> length evs \<and> fold_goal (take (gc_observed c) evs) = Inr (gc_state c) \<and> armed_active c"

definition service_inv :: "goal_service \<Rightarrow> bool" where
  "service_inv sv \<longleftrightarrow> session_ok (gsv_session sv) \<and> 1 \<le> gsv_default_rounds sv \<and> gsv_default_rounds sv \<le> max_safe \<and>
     (\<forall>c. gsv_cache sv = Some c \<longrightarrow> cache_inv (ses_log (gsv_session sv)) c \<and> gc_pending c = None)"

lemma fold_goal_snoc: "fold_goal evs = Inr st \<Longrightarrow> fold_goal (evs @ [e]) = apply_goal_event st e"
  by (simp add: fold_goal_def replay_snoc)

lemma not_change_keeps_goal:
  assumes "apply_goal_event st e = Inr st'" and "\<not> is_goal_change e"
  shows "gs_goal st' = gs_goal st"
  using assms(1)
proof (cases rule: apply_goal_event_cases)
  case (admit m src)
  then show ?thesis by (auto simp: admit_round_def split: option.splits if_splits)
qed (use assms(2) in \<open>simp_all add: is_goal_change_def\<close>)

lemma sync_events_cache:
  assumes "cache_inv evs c" and "gc_pending c = None" and "sync_events (drop (gc_observed c) evs) c = (c', r)"
  shows "cache_inv evs c' \<and> gc_pending c' = None \<and> (r = None \<longrightarrow> gc_observed c' = length evs) \<and>
    (ok (fold_goal evs) \<longrightarrow> r = None)"
  using assms
proof (induction "drop (gc_observed c) evs" arbitrary: c)
  case Nil
  then show ?case by (auto simp: cache_inv_def)
next
  case (Cons e es)
  then have n: "gc_observed c < length evs" and fold: "fold_goal (take (gc_observed c) evs) = Inr (gc_state c)"
    by (auto simp: cache_inv_def intro: leI) (metis drop_all list.distinct(1) not_le)
  from Cons(2) n have e: "evs ! gc_observed c = e" and es: "es = drop (Suc (gc_observed c)) evs"
    by (metis Cons_nth_drop_Suc list.inject)+
  have take: "take (Suc (gc_observed c)) evs = take (gc_observed c) evs @ [e]"
    using n e by (simp add: take_Suc_conv_app_nth)
  note next_fold = fold_goal_snoc [OF fold, of e, folded take]
  show ?case
  proof (cases "apply_goal_event (gc_state c) e")
    case (Inl err)
    have "\<not> ok (fold_goal evs)"
    proof
      assume "ok (fold_goal evs)"
      then obtain t where "fold_goal (take (Suc (gc_observed c)) evs @ drop (Suc (gc_observed c)) evs) = Inr t"
        by (auto simp: ok_iff)
      then show False using next_fold Inl by (auto simp: fold_goal_def replay_append_Inr simp del: append_take_drop_id)
    qed
    with Inl Cons show ?thesis by (auto simp flip: Cons(2))
  next
    case (Inr st)
    let ?c = "c\<lparr>gc_state := st, gc_activation := (if is_goal_change e then Disarmed else gc_activation c),
      gc_observed := gc_observed c + 1\<rparr>"
    have "cache_inv evs ?c"
      using n next_fold Inr Cons.prems(1) not_change_keeps_goal [OF Inr] by (auto simp: cache_inv_def armed_active_def)
    moreover have "sync_events (drop (gc_observed ?c) evs) ?c = (c', r)"
      using Cons.prems(2,3) Inr by (cases "is_goal_change e") (simp_all add: es flip: Cons(2))
    ultimately show ?thesis using Cons(1) [of ?c] Cons.prems(2) es by simp
  qed
qed

lemma obtain_cache_inv:
  assumes "service_inv sv"
  shows "case obtain_cache sv of
      Inr c \<Rightarrow> cache_inv (ses_log (gsv_session sv)) c \<and> gc_pending c = None
    | Inl _ \<Rightarrow> \<not> ok (fold_goal (ses_log (gsv_session sv)))"
  using assms
  by (cases "gsv_cache sv"; cases "fold_goal (ses_log (gsv_session sv))")
    (auto simp: obtain_cache_def service_inv_def cache_inv_def armed_active_def)

text \<open>What \<open>prepareMutation\<close> leaves: the same session, and a cache that has seen all of it.\<close>

lemma prepare_mutation_spec:
  assumes inv: "service_inv sv" and p: "prepare_mutation sv = (sv1, r)"
  shows "service_inv sv1" and "gsv_session sv1 = gsv_session sv" and "gsv_emitted sv1 = gsv_emitted sv"
    and "gsv_default_rounds sv1 = gsv_default_rounds sv"
    and "r = Inr c \<Longrightarrow> gsv_cache sv1 = Some c \<and> gc_observed c = length (ses_log (gsv_session sv)) \<and>
      fold_goal (ses_log (gsv_session sv)) = Inr (gc_state c)"
    and "r = Inl f \<Longrightarrow> ok (fold_goal (ses_log (gsv_session sv))) \<Longrightarrow> \<not> gsv_live sv \<and> f = GoalFailure AgentNotLive"
proof -
  have all: "service_inv sv1 \<and> gsv_session sv1 = gsv_session sv \<and> gsv_emitted sv1 = gsv_emitted sv \<and>
    gsv_default_rounds sv1 = gsv_default_rounds sv \<and>
    (\<forall>c. r = Inr c \<longrightarrow> gsv_cache sv1 = Some c \<and> gc_observed c = length (ses_log (gsv_session sv)) \<and>
      fold_goal (ses_log (gsv_session sv)) = Inr (gc_state c)) \<and>
    (\<forall>f. r = Inl f \<longrightarrow> ok (fold_goal (ses_log (gsv_session sv))) \<longrightarrow> \<not> gsv_live sv \<and> f = GoalFailure AgentNotLive)"
  proof (cases "gsv_live sv")
    case False
    with p inv show ?thesis by (auto simp: prepare_mutation_def)
  next
    case live: True
    show ?thesis
    proof (cases "obtain_cache sv")
      case (Inl err)
      with p inv live obtain_cache_inv [OF inv] show ?thesis by (auto simp: prepare_mutation_def)
    next
      case (Inr c0)
      with obtain_cache_inv [OF inv] have c0: "cache_inv (ses_log (gsv_session sv)) c0" "gc_pending c0 = None" by simp_all
      obtain c o' where s: "sync (gsv_session sv) c0 = (c, o')" by (cases "sync (gsv_session sv) c0")
      note spec = sync_events_cache [OF c0 s [unfolded sync_def]]
      with p inv live Inr s show ?thesis
        by (cases o') (auto simp: prepare_mutation_def service_inv_def cache_inv_def)
    qed
  qed
  then show "service_inv sv1" "gsv_session sv1 = gsv_session sv" "gsv_emitted sv1 = gsv_emitted sv"
    "gsv_default_rounds sv1 = gsv_default_rounds sv"
    "r = Inr c \<Longrightarrow> gsv_cache sv1 = Some c \<and> gc_observed c = length (ses_log (gsv_session sv)) \<and>
      fold_goal (ses_log (gsv_session sv)) = Inr (gc_state c)"
    "r = Inl f \<Longrightarrow> ok (fold_goal (ses_log (gsv_session sv))) \<Longrightarrow> \<not> gsv_live sv \<and> f = GoalFailure AgentNotLive"
    by blast+
qed

section \<open>Every decided change is admissible\<close>

text \<open>
  The inputs the service takes from its environment: a clock reading that is a safe non-negative
  integer, a fresh UUID, and a revision counter below the safe-integer limit.
\<close>

definition admissible_request :: "goal_state \<Rightarrow> int \<Rightarrow> goal_request \<Rightarrow> bool" where
  "admissible_request st now req \<longleftrightarrow> 0 \<le> now \<and> now \<le> max_safe \<and>
     (case req of RequestCreate _ _ uuid \<Rightarrow> ''goal-'' @ uuid \<notin> gs_seen st | _ \<Rightarrow> True) \<and>
     (\<forall>g. gs_goal st = Some g \<longrightarrow> g_revision g < max_safe)"

lemma resolve_objective_Inr: "resolve_objective s = Inr obj \<Longrightarrow> is_normalized obj"
  by (auto simp: resolve_objective_def is_normalized_def split: if_splits)

lemma resolve_max_rounds_Inr: "resolve_max_rounds r = Inr n \<Longrightarrow> 1 \<le> n \<and> n \<le> max_safe"
  by (auto simp: resolve_max_rounds_def safe_int_def elim!: safe_integerE split: if_splits)

lemma resolve_block_reason_Inr: "resolve_block_reason v = Inr r \<Longrightarrow> is_kebab (br_code r) \<and> is_normalized (br_message r)"
  by (auto simp: resolve_block_reason_def is_normalized_def split: option.splits json.splits if_splits)


lemma expect_current_Inr: "expect_current c ref = Inr cur \<Longrightarrow> gs_goal (gc_state c) = Some cur"
  by (auto simp: expect_current_def split: option.splits if_splits)

text \<open>The two ways a decision succeeds: a create, or a revision of the current goal.\<close>

lemma revision_admitted:
  assumes wf: "goal_state_wf st" and cur: "gs_goal st = Some cur" and g: "g_id g = g_id cur" "g_revision g = g_revision cur + 1"
    and wfg: "wf_snapshot g" and p: "p \<noteq> GoalCreate" "validate_phase_change st p cur g = Inr ()"
    and u: "gs_updated st = Some u" "u \<le> updated" "updated \<le> max_safe" and c: "gs_created st = Some created"
  shows "wf_change (SnapshotChange p g (gs_rounds st) created updated) \<and>
    (\<exists>st'. apply_goal_change st (SnapshotChange p g (gs_rounds st) created updated) = Inr st' \<and> gs_goal st' = Some g)"
  using assms
  by (auto simp: goal_state_wf_def validate_snapshot_transition_def require_next_revision_def ref_of_def require_def)

lemma with_phase_simps [simp]:
  "g_id (with_phase cur ph) = g_id cur" "g_revision (with_phase cur ph) = g_revision cur + 1"
  "g_objective (with_phase cur ph) = g_objective cur" "g_phase (with_phase cur ph) = ph"
  "g_reason (with_phase cur ph) = None" "g_max_rounds (with_phase cur ph) = g_max_rounds cur"
  by (simp_all add: with_phase_def)

lemma with_phase_wf: "wf_snapshot cur \<Longrightarrow> g_revision cur < max_safe \<Longrightarrow> ph \<noteq> Blocked \<Longrightarrow> wf_snapshot (with_phase cur ph)"
  by (auto simp: wf_snapshot_def)

lemma commit_current_Inr:
  assumes wf: "goal_state_wf (gc_state c)" and cur: "gs_goal (gc_state c) = Some cur" and now: "now \<le> max_safe"
    and g: "g_id g = g_id cur" "g_revision g = g_revision cur + 1" "wf_snapshot g"
    and p: "p \<noteq> GoalCreate" "validate_phase_change (gc_state c) p cur g = Inr ()"
  shows "\<exists>change. commit_current now p g act c = Inr (change, act) \<and> wf_change change \<and>
    (\<exists>st'. apply_goal_change (gc_state c) change = Inr st' \<and> gs_goal st' = Some g)"
proof -
  from wf cur obtain created u where t: "gs_created (gc_state c) = Some created" "gs_updated (gc_state c) = Some u"
    "u \<le> max_safe"
    by (auto simp: goal_state_wf_def)
  have "wf_change (SnapshotChange p g (gs_rounds (gc_state c)) created (max now u)) \<and>
    (\<exists>st'. apply_goal_change (gc_state c) (SnapshotChange p g (gs_rounds (gc_state c)) created (max now u)) = Inr st' \<and> gs_goal st' = Some g)"
    using revision_admitted [OF wf cur g p t(2) _ _ t(1), of "max now u"] t(3) now by simp
  then show ?thesis by (simp add: commit_current_def next_mutation_time_def t)
qed

text \<open>What a decision is: one of the service's error codes, or a change the strict fold accepts.\<close>

definition good_decision :: "goal_cache \<Rightarrow> goal_failure + goal_change \<times> activation \<Rightarrow> bool" where
  "good_decision c r \<longleftrightarrow> (case r of
      Inl f \<Rightarrow> \<exists>code. f = GoalFailure code
    | Inr (change, act) \<Rightarrow> wf_change change \<and> (\<exists>st'. apply_goal_change (gc_state c) change = Inr st' \<and>
        (act = Armed \<longrightarrow> (\<exists>g. gs_goal st' = Some g \<and> g_phase g = Active))))"

lemma good_commit_current:
  assumes "goal_state_wf (gc_state c)" and "gs_goal (gc_state c) = Some cur" and "now \<le> max_safe"
    and "g_id g = g_id cur" and "g_revision g = g_revision cur + 1" and "wf_snapshot g"
    and "p \<noteq> GoalCreate" and "validate_phase_change (gc_state c) p cur g = Inr ()"
    and "act = Armed \<Longrightarrow> g_phase g = Active"
  shows "good_decision c (commit_current now p g act c)"
  using commit_current_Inr [OF assms(1-8), of act] assms(9) by (auto simp: good_decision_def)

lemma good_expect:
  assumes "\<And>cur. gs_goal (gc_state c) = Some cur \<Longrightarrow> good_decision c (f cur)"
  shows "good_decision c (rbind (expect_current c ref) f)"
  using assms by (auto simp: expect_current_def good_decision_def split: option.splits if_splits)

lemma good_failure [simp]: "good_decision c (Inl (GoalFailure code))"
  by (simp add: good_decision_def)

lemma good_rbind:
  assumes "\<And>f. r = Inl f \<Longrightarrow> \<exists>code. f = GoalFailure code" and "\<And>a. r = Inr a \<Longrightarrow> good_decision c (k a)"
  shows "good_decision c (rbind r k)"
  using assms by (cases r) (auto simp: good_decision_def)

lemma good_if: "(b \<Longrightarrow> good_decision c x) \<Longrightarrow> (\<not> b \<Longrightarrow> good_decision c y) \<Longrightarrow> good_decision c (if b then x else y)"
  by simp

lemma resolve_objective_Inl: "resolve_objective s = Inl f \<Longrightarrow> \<exists>code. f = GoalFailure code"
  by (auto simp: resolve_objective_def split: if_splits)

lemma resolve_max_rounds_Inl: "resolve_max_rounds r = Inl f \<Longrightarrow> \<exists>code. f = GoalFailure code"
  by (auto simp: resolve_max_rounds_def split: if_splits)

lemma resolve_block_reason_Inl: "resolve_block_reason v = Inl f \<Longrightarrow> \<exists>code. f = GoalFailure code"
  by (auto simp: resolve_block_reason_def split: option.splits json.splits if_splits)

lemma resolve_create_Inl: "resolve_create objective cap d = Inl f \<Longrightarrow> \<exists>code. f = GoalFailure code"
  by (auto simp: resolve_create_def rbind_Inl_iff dest: resolve_objective_Inl resolve_max_rounds_Inl)

lemma validate_phase_simps [simp]:
  "validate_phase_change st GoalEdit cur next = require (g_phase next = g_phase cur \<and> g_reason next = g_reason cur) EditChangesPhase"
  "validate_phase_change st GoalPause cur (with_phase cur ph) = require (g_phase cur = Active \<and> ph = Paused) BadPause"
  "validate_phase_change st GoalResume cur (with_phase cur ph) =
     require (g_phase cur \<in> {Active, Paused, Blocked} \<and> ph = Active \<and> \<not> gs_rounds st \<ge> g_max_rounds cur) BadResume"
  "validate_phase_change st GoalComplete cur (with_phase cur ph) = require (g_phase cur \<noteq> Completed \<and> ph = Completed) BadComplete"
  "validate_phase_change st GoalBlock cur ((with_phase cur ph)\<lparr>g_reason := r\<rparr>) = require (g_phase cur = Active \<and> ph = Blocked) BadBlock"
  by (simp_all add: validate_phase_change_def require_same_definition_def require_def)

lemma decide_good:
  assumes wf: "goal_state_wf (gc_state c)" and armed: "armed_active c" and adm: "admissible_request (gc_state c) now req"
    and d: "1 \<le> d" "d \<le> max_safe"
  shows "good_decision c (decide d now req c)"
proof -
  have now: "0 \<le> now" "now \<le> max_safe" using adm by (simp_all add: admissible_request_def)
  have cur: "wf_snapshot cur" "g_revision cur < max_safe" if "gs_goal (gc_state c) = Some cur" for cur
    using that wf adm by (auto simp: goal_state_wf_def admissible_request_def)
  show ?thesis
  proof (cases req)
    case (RequestCreate objective cap uuid)
    show ?thesis
    proof (cases "resolve_create objective cap d")
      case (Inl f)
      with RequestCreate resolve_create_Inl show ?thesis by fastforce
    next
      case (Inr spec)
      then have "is_normalized (fst spec)" "1 \<le> snd spec" "snd spec \<le> max_safe"
        using d by (auto simp: resolve_create_def rbind_Inr_iff dest!: resolve_objective_Inr resolve_max_rounds_Inr)
      moreover have "''goal-'' @ uuid \<notin> gs_seen (gc_state c)" using adm RequestCreate by (simp add: admissible_request_def)
      ultimately show ?thesis
        using RequestCreate Inr now by (auto simp: decide_create_def good_decision_def wf_snapshot_def split: option.splits)
    qed
  next
    case (RequestEdit ref objective cap)
    have "good_decision c (decide_edit now ref objective cap c)"
      unfolding decide_edit_def
    proof (rule good_expect)
      fix g
      assume g: "gs_goal (gc_state c) = Some g"
      have "wf_snapshot (g\<lparr>g_revision := g_revision g + 1, g_objective := obj, g_max_rounds := n\<rparr>)"
        if "is_normalized obj" "1 \<le> n" "n \<le> max_safe" for obj n
        using that cur [OF g] by (auto simp: wf_snapshot_def split: option.splits)
      moreover have "gc_activation c = Armed \<Longrightarrow> g_phase g = Active" using armed g by (simp add: armed_active_def)
      ultimately have "good_decision c (commit_current now GoalEdit
          (g\<lparr>g_revision := g_revision g + 1, g_objective := obj, g_max_rounds := n\<rparr>) (gc_activation c) c)"
        if "is_normalized obj" "1 \<le> n" "n \<le> max_safe" for obj n
        using that by (intro good_commit_current [OF wf g now(2)]) simp_all
      moreover have "is_normalized (g_objective g)" "1 \<le> g_max_rounds g" "g_max_rounds g \<le> max_safe"
        using cur [OF g] by (simp_all add: wf_snapshot_def)
      ultimately show "good_decision c (if objective = None \<and> cap = None then Inl (GoalFailure InvalidEdit)
         else rbind (case objective of None \<Rightarrow> Inr (g_objective g) | Some s \<Rightarrow> resolve_objective s) (\<lambda>obj.
           rbind (case cap of None \<Rightarrow> Inr (g_max_rounds g) | Some r \<Rightarrow> resolve_max_rounds r) (\<lambda>n.
             commit_current now GoalEdit (g\<lparr>g_revision := g_revision g + 1, g_objective := obj, g_max_rounds := n\<rparr>)
               (gc_activation c) c)))"
        by (intro good_if good_rbind good_failure)
          (auto split: option.splits dest: resolve_objective_Inr resolve_max_rounds_Inr intro: resolve_objective_Inl resolve_max_rounds_Inl)
    qed
    with RequestEdit show ?thesis by simp
  next
    case (RequestPause ref)
    then show ?thesis
      by (auto simp: decide_transition_def intro!: good_expect good_commit_current wf now with_phase_wf dest: cur)
  next
    case (RequestResume ref)
    then show ?thesis
      by (auto simp: decide_resume_def intro!: good_expect good_commit_current wf now with_phase_wf dest: cur)
  next
    case (RequestComplete ref)
    then show ?thesis
      by (auto simp: decide_transition_def intro!: good_expect good_commit_current wf now with_phase_wf dest: cur)
  next
    case (RequestBlock ref reason)
    have "wf_snapshot ((with_phase g Blocked)\<lparr>g_reason := Some r\<rparr>)"
      if "gs_goal (gc_state c) = Some g" "resolve_block_reason reason = Inr r" for g r
      using cur [OF that(1)] resolve_block_reason_Inr [OF that(2)] by (auto simp: wf_snapshot_def)
    with RequestBlock show ?thesis
      by (auto simp: decide_block_def intro!: good_expect good_rbind good_commit_current wf now resolve_block_reason_Inl)
  next
    case (RequestClear ref)
    have "good_decision c (decide_clear now ref c)"
      unfolding decide_clear_def
    proof (rule good_expect)
      fix g
      assume g: "gs_goal (gc_state c) = Some g"
      with wf obtain created u where "gs_created (gc_state c) = Some created" "gs_updated (gc_state c) = Some u"
        "0 \<le> u" "u \<le> max_safe"
        by (auto simp: goal_state_wf_def)
      with cur [OF g] now g show "good_decision c (rbind (next_mutation_time now c) (\<lambda>t.
          Inr (ClearChange \<lparr>gr_id = g_id g, gr_revision = g_revision g + 1\<rparr> t, Disarmed)))"
        by (auto simp: next_mutation_time_def good_decision_def wf_snapshot_def require_next_revision_def require_def)
    qed
    with RequestClear show ?thesis by simp
  qed
qed

section \<open>What a mutation does\<close>

lemma view_of_wf:
  assumes "goal_state_wf (gc_state c)" and "gs_goal (gc_state c) = Some g"
  obtains v where "view c = Inr (Some v)" and "gv_goal v = g" and "gv_rounds v = gs_rounds (gc_state c)"
    and "gs_created (gc_state c) = Some (gv_created v)" and "gs_updated (gc_state c) = Some (gv_updated v)"
    and "gv_activation v = gc_activation c"
proof -
  from assms obtain cr u where "gs_created (gc_state c) = Some cr" "gs_updated (gc_state c) = Some u"
    by (auto simp: goal_state_wf_def)
  with assms(2) show thesis
    by (intro that [of "\<lparr>gv_goal = g, gv_rounds = gs_rounds (gc_state c), gv_created = cr, gv_updated = u,
        gv_activation = gc_activation c\<rparr>"]) (simp_all add: view_def)
qed

lemma commit_spec:
  assumes inv: "service_inv sv" and cache: "gsv_cache sv = Some c" "gc_observed c = length (ses_log (gsv_session sv))"
    "fold_goal (ses_log (gsv_session sv)) = Inr (gc_state c)"
    and wf: "wf_change change" and step: "apply_goal_change (gc_state c) change = Inr st'"
    and armed: "act = Armed \<Longrightarrow> \<exists>g. gs_goal st' = Some g \<and> g_phase g = Active"
  obtains sv' c' v where "commit tick change act sv c = (sv', Inr v)" and "service_inv sv'"
    and "gsv_cache sv' = Some c'" and "gc_state c' = st'" and "gc_activation c' = act" and "view c' = Inr v"
    and "ses_log (gsv_session sv') = ses_log (gsv_session sv) @
      [log_event (int (length (ses_log (gsv_session sv)))) tick (PluginEvent (encode_change change))]"
    and "fold_goal (ses_log (gsv_session sv')) = Inr st'"
proof -
  let ?log = "ses_log (gsv_session sv)"
  let ?e = "log_event (int (length ?log)) tick (PluginEvent (encode_change change)) :: json event"
  have ok: "session_ok (gsv_session sv)" using inv by (simp add: service_inv_def)
  obtain s' where s': "session_append tick (PluginEvent (encode_change change)) no_intent (gsv_session sv) = (s', Inr ?e)"
    "session_ok s'" "ses_log s' = ?log @ [?e]"
    by (rule append_log_only [OF ok, of "PluginEvent (encode_change change)" tick]) simp_all
  have ev: "apply_goal_event (gc_state c) ?e = Inr st'"
    using step decode_change_encode [OF wf] by (simp add: apply_goal_event_def)
  then have fold': "fold_goal (ses_log s') = Inr st'" using fold_goal_snoc [OF cache(3)] s'(3) by simp
  then have wf': "goal_state_wf st'" unfolding fold_goal_def by (rule goal_wf.run_hist)
  let ?c = "c\<lparr>gc_state := st', gc_activation := act, gc_observed := gc_observed c + 1, gc_pending := None\<rparr>"
  have sync: "sync s' (c\<lparr>gc_pending := Some (int (length ?log), act)\<rparr>) =
      (?c\<lparr>gc_pending := Some (int (length ?log), act)\<rparr>, None)"
    using ev s'(3) cache(2) by (simp add: sync_def is_goal_change_def)
  obtain v where v: "view ?c = Inr v"
  proof (cases "gs_goal st'")
    case None
    then show thesis using that by (simp add: view_def)
  next
    case (Some g)
    with wf' that show thesis by (auto simp: view_def goal_state_wf_def)
  qed
  let ?sv = "sv\<lparr>gsv_session := s', gsv_cache := Some ?c, gsv_emitted := gsv_emitted sv @
      [\<lparr>gch_change = change, gch_ref = goal_change_ref change, gch_goal = v\<rparr>]\<rparr>"
  have "commit tick change act sv c = (?sv, Inr v)"
    using s'(1) sync v by (simp add: commit_def)
  moreover have "service_inv ?sv"
    using inv s' cache fold' armed by (auto simp: service_inv_def cache_inv_def armed_active_def)
  ultimately show thesis using v s'(3) fold' by (intro that [of ?sv v ?c]) simp_all
qed

text \<open>What the caller is told, against the state the log then folds to.\<close>

fun reports :: "goal_reply \<Rightarrow> goal_state \<Rightarrow> activation \<Rightarrow> bool" where
  "reports (ReplyView v) st act = (gs_goal st = Some (gv_goal v) \<and> gv_rounds v = gs_rounds st \<and>
     gs_created st = Some (gv_created v) \<and> gs_updated st = Some (gv_updated v) \<and> gv_activation v = act)"
| "reports (ReplyRef ref) st act = (gs_goal st = None \<and> gs_last_ref st = Some ref \<and> act = Disarmed)"

lemma apply_change_goal:
  "apply_goal_change st (SnapshotChange p g r c u) = Inr st' \<Longrightarrow> gs_goal st' = Some g"
  "apply_goal_change st (ClearChange ref t) = Inr st' \<Longrightarrow> gs_goal st' = None \<and> gs_last_ref st' = Some ref"
  by (auto simp: rbind_Inr_iff split: option.splits if_splits)

definition mutated ::
    "json event list \<Rightarrow> int \<Rightarrow> goal_service \<Rightarrow> goal_reply \<Rightarrow> bool" where
  "mutated evs tick sv' reply \<longleftrightarrow>
     (\<exists>change st st' c'. fold_goal evs = Inr st \<and> apply_goal_change st change = Inr st' \<and>
        ses_log (gsv_session sv') = evs @ [log_event (int (length evs)) tick (PluginEvent (encode_change change))] \<and>
        fold_goal (ses_log (gsv_session sv')) = Inr st' \<and> gsv_cache sv' = Some c' \<and> gc_state c' = st' \<and>
        reports reply st' (gc_activation c'))"

lemma decide_clear_disarms: "decide d now req c = Inr (ClearChange ref t, act) \<Longrightarrow> act = Disarmed"
  by (cases req) (auto simp: decide_clear_def decide_create_def decide_edit_def decide_transition_def decide_resume_def
      decide_block_def commit_current_def rbind_Inr_iff split: if_splits option.splits)

lemma perform_spec:
  assumes inv: "service_inv sv"
    and adm: "\<And>st. fold_goal (ses_log (gsv_session sv)) = Inr st \<Longrightarrow> admissible_request st now req"
    and p: "perform now tick req sv = (sv', r)"
  shows "service_inv sv' \<and>
    (case r of
       Inr reply \<Rightarrow> mutated (ses_log (gsv_session sv)) tick sv' reply
     | Inl f \<Rightarrow> gsv_session sv' = gsv_session sv \<and>
         (ok (fold_goal (ses_log (gsv_session sv))) \<longrightarrow> (\<exists>code. f = GoalFailure code)))"
proof (cases "precheck (gsv_default_rounds sv) req")
  case (Inl f)
  then have "\<exists>code. f = GoalFailure code"
    by (cases req) (auto simp: rbind_Inl_iff dest: resolve_create_Inl)
  with Inl p inv show ?thesis by (auto simp: perform_def)
next
  case pre: (Inr u)
  obtain sv1 r1 where prep: "prepare_mutation sv = (sv1, r1)" by (cases "prepare_mutation sv")
  note spec = prepare_mutation_spec [OF inv prep]
  show ?thesis
  proof (cases r1)
    case (Inl f)
    with p pre prep spec show ?thesis by (auto simp: perform_def mutation_def)
  next
    case c: (Inr c)
    from spec(5) [OF c] have cache: "gsv_cache sv1 = Some c" "gc_observed c = length (ses_log (gsv_session sv1))"
      "fold_goal (ses_log (gsv_session sv1)) = Inr (gc_state c)" using spec(2) by simp_all
    have wf: "goal_state_wf (gc_state c)" using cache(3) unfolding fold_goal_def by (rule goal_wf.run_hist)
    have armed: "armed_active c" using spec(1) cache(1) by (auto simp: service_inv_def cache_inv_def)
    have good: "good_decision c (decide (gsv_default_rounds sv) now req c)"
      using decide_good [OF wf armed adm] cache(3) spec(2) inv by (simp add: service_inv_def)
    show ?thesis
    proof (cases "decide (gsv_default_rounds sv) now req c")
      case (Inl f)
      with good have "\<exists>code. f = GoalFailure code" by (simp add: good_decision_def)
      with Inl p pre prep c spec show ?thesis by (auto simp: perform_def mutation_def)
    next
      case (Inr d)
      obtain change act where d: "d = (change, act)" by (cases d)
      from good Inr d obtain st' where g: "wf_change change" "apply_goal_change (gc_state c) change = Inr st'"
        "act = Armed \<Longrightarrow> \<exists>g. gs_goal st' = Some g \<and> g_phase g = Active"
        by (auto simp: good_decision_def)
      obtain sv2 c2 v where 2: "commit tick change act sv1 c = (sv2, Inr v)" "service_inv sv2" "gsv_cache sv2 = Some c2"
        "gc_state c2 = st'" "gc_activation c2 = act" "view c2 = Inr v"
        "ses_log (gsv_session sv2) = ses_log (gsv_session sv1) @
          [log_event (int (length (ses_log (gsv_session sv1)))) tick (PluginEvent (encode_change change))]"
        "fold_goal (ses_log (gsv_session sv2)) = Inr st'"
        by (rule commit_spec [OF spec(1) cache g])
      have wf2: "goal_state_wf (gc_state c2)" using 2(4,8) goal_wf.run_hist by (auto simp: fold_goal_def)
      have "\<exists>reply. r = Inr reply \<and> sv' = sv2 \<and> reports reply st' act"
      proof (cases change)
        case (SnapshotChange pp gg rr cc uu)
        have "gs_goal (gc_state c2) = Some gg" using apply_change_goal(1) [OF g(2) [unfolded SnapshotChange]] 2(4) by simp
        from view_of_wf [OF wf2 this] obtain w where "view c2 = Inr (Some w)" "gv_goal w = gg"
          "gv_rounds w = gs_rounds (gc_state c2)" "gs_created (gc_state c2) = Some (gv_created w)"
          "gs_updated (gc_state c2) = Some (gv_updated w)" "gv_activation w = gc_activation c2" .
        note w = this
        have "perform now tick req sv = (sv2, snapshot_reply v)"
          using pre prep c Inr d 2(1) SnapshotChange by (simp add: perform_def mutation_def)
        with p w(1) 2(6) have "r = Inr (ReplyView w)" "sv' = sv2" by (simp_all add: snapshot_reply_def)
        then show ?thesis using w \<open>gs_goal (gc_state c2) = Some gg\<close> 2(4,5) by simp
      next
        case (ClearChange ref t)
        have "gs_goal st' = None \<and> gs_last_ref st' = Some ref" by (rule apply_change_goal(2) [OF g(2) [unfolded ClearChange]])
        moreover have "perform now tick req sv = (sv2, Inr (ReplyRef ref))"
          using pre prep c Inr d 2(1) ClearChange by (simp add: perform_def mutation_def)
        moreover have "act = Disarmed" using Inr d ClearChange decide_clear_disarms by simp
        ultimately show ?thesis using p by simp
      qed
      then obtain reply where reply: "r = Inr reply" "sv' = sv2" "reports reply st' act" by blast
      have "mutated (ses_log (gsv_session sv)) tick sv2 reply"
        unfolding mutated_def
        using 2(3,4,5,7,8) g(2) cache(3) reply(3) unfolding spec(2)
        by (intro exI [of _ change] exI [of _ "gc_state c"] exI [of _ st'] exI [of _ c2]) (simp only: simp_thms)
      then show ?thesis using 2(2) reply(1,2) by (simp only: sum.case simp_thms)
    qed
  qed
qed

section \<open>Everything that can happen to a goal service\<close>

text \<open>
  Its methods, appends of other components to the session's log, and the agent leaving or entering
  the registry. The environment's part is \<open>admissible_request\<close>.
\<close>

inductive service_reach :: "goal_service \<Rightarrow> bool" where
  reach_new: "session_reach s \<Longrightarrow> new_goal_service d s = Inr sv \<Longrightarrow> service_reach sv"
| reach_perform: "service_reach sv \<Longrightarrow>
    (\<And>st. fold_goal (ses_log (gsv_session sv)) = Inr st \<Longrightarrow> admissible_request st now req) \<Longrightarrow>
    perform now tick req sv = (sv', r) \<Longrightarrow> service_reach sv'"
| reach_get: "service_reach sv \<Longrightarrow> get_goal sv = (sv', r) \<Longrightarrow> service_reach sv'"
| reach_disarm: "service_reach sv \<Longrightarrow> disarm sv = (sv', r) \<Longrightarrow> service_reach sv'"
| reach_start: "service_reach sv \<Longrightarrow> on_session_start sv = (sv', q) \<Longrightarrow> service_reach sv'"
| reach_append: "service_reach sv \<Longrightarrow> session_append now e intent (gsv_session sv) = (s', a) \<Longrightarrow>
    service_reach (sv\<lparr>gsv_session := s'\<rparr>)"
| reach_live: "service_reach sv \<Longrightarrow> service_reach (sv\<lparr>gsv_live := b\<rparr>)"

lemma cache_inv_grow: "cache_inv evs c \<Longrightarrow> cache_inv (evs @ [e]) c"
  by (simp add: cache_inv_def)

lemma service_inv_disarmed:
  assumes "service_inv sv" and "cache_inv (ses_log (gsv_session sv)) c" and "gc_pending c = None"
  shows "service_inv (sv\<lparr>gsv_cache := Some (c\<lparr>gc_activation := Disarmed\<rparr>)\<rparr>)"
  using assms by (simp add: service_inv_def cache_inv_def armed_active_def)

lemma service_reach_inv: "service_reach sv \<Longrightarrow> service_inv sv"
proof (induction rule: service_reach.induct)
  case (reach_new s d sv)
  then show ?case
    by (auto simp: new_goal_service_def rbind_Inr_iff service_inv_def session_reach_ok dest: resolve_max_rounds_Inr)
next
  case (reach_perform sv now req tick sv' r)
  then show ?case using perform_spec by blast
next
  case (reach_get sv sv' r)
  then show ?case using prepare_mutation_spec(1) by (auto simp: get_goal_def split: prod.splits sum.splits)
next
  case (reach_disarm sv sv' r)
  obtain sv1 r1 where p: "prepare_mutation sv = (sv1, r1)" by (cases "prepare_mutation sv")
  note spec = prepare_mutation_spec [OF reach_disarm.IH p]
  show ?case
  proof (cases r1)
    case (Inl f)
    with p spec(1) reach_disarm show ?thesis by (simp add: disarm_def)
  next
    case (Inr c)
    with p reach_disarm have "sv' = sv1\<lparr>gsv_cache := Some (c\<lparr>gc_activation := Disarmed\<rparr>)\<rparr>" by (auto simp: disarm_def Let_def)
    then show ?thesis
      using service_inv_disarmed [OF spec(1), of c] spec(1) spec(5) [OF Inr] by (simp add: service_inv_def)
  qed
next
  case (reach_start sv sv' q)
  then show ?case
    using obtain_cache_inv [OF reach_start.IH] service_inv_disarmed
    by (auto simp: on_session_start_def split: sum.splits)
next
  case (reach_append sv now e intent s' a)
  then have "session_ok s'" using session_append_ok by (auto simp: service_inv_def)
  with reach_append show ?case
    using session_append_frame(2) [OF reach_append.hyps(2)] cache_inv_grow by (auto simp: service_inv_def)
next
  case (reach_live sv b)
  then show ?case by (simp add: service_inv_def)
qed

section \<open>Properties\<close>

text \<open>
  C26: However a goal service came about, an admissible request either throws one of the service's
  error codes and leaves the session's log alone, or appends exactly one goal change that the strict
  fold accepts; the cache then holds the fold of the new log, and the reply shows that state. A log
  the strict fold accepts therefore stays accepted.
\<close>

theorem goal_mutations_are_admitted:
  assumes "service_reach sv" and "fold_goal (ses_log (gsv_session sv)) = Inr st" and "admissible_request st now req"
    and "perform now tick req sv = (sv', r)"
  shows "case r of
      Inr reply \<Rightarrow> mutated (ses_log (gsv_session sv)) tick sv' reply
    | Inl f \<Rightarrow> ses_log (gsv_session sv') = ses_log (gsv_session sv) \<and> (\<exists>code. f = GoalFailure code)"
  using perform_spec [OF service_reach_inv [OF assms(1)] _ assms(4)] assms(2,3)
  by (auto split: sum.splits)

text \<open>
  A read of a live agent's goal shows what the whole log folds to, and only ever shows an armed
  goal that is in the active phase; a service without a live agent refuses.
\<close>

theorem goal_reads_show_the_fold:
  assumes "service_reach sv" and "fold_goal (ses_log (gsv_session sv)) = Inr st"
  shows "case snd (get_goal sv) of
      Inl f \<Rightarrow> \<not> gsv_live sv \<and> f = GoalFailure AgentNotLive
    | Inr None \<Rightarrow> gs_goal st = None
    | Inr (Some v) \<Rightarrow> gs_goal st = Some (gv_goal v) \<and> gv_rounds v = gs_rounds st \<and> gs_created st = Some (gv_created v) \<and>
        gs_updated st = Some (gv_updated v) \<and> (gv_activation v = Armed \<longrightarrow> g_phase (gv_goal v) = Active)"
proof -
  obtain sv1 r where p: "prepare_mutation sv = (sv1, r)" by (cases "prepare_mutation sv")
  note spec = prepare_mutation_spec [OF service_reach_inv [OF assms(1)] p]
  show ?thesis
  proof (cases r)
    case (Inl f)
    with spec(6) [OF Inl] assms(2) p show ?thesis by (simp add: get_goal_def)
  next
    case (Inr c)
    then have c: "gc_state c = st" "cache_inv (ses_log (gsv_session sv1)) c"
      using spec(1) spec(5) [OF Inr] assms(2) by (auto simp: service_inv_def)
    have wf: "goal_state_wf st" using assms(2) goal_wf.run_hist by (auto simp: fold_goal_def)
    show ?thesis
    proof (cases "gs_goal st")
      case None
      with Inr p c show ?thesis by (simp add: get_goal_def view_def)
    next
      case (Some g)
      obtain v where "view c = Inr (Some v)" "gv_goal v = g" "gv_rounds v = gs_rounds (gc_state c)"
        "gs_created (gc_state c) = Some (gv_created v)" "gs_updated (gc_state c) = Some (gv_updated v)"
        "gv_activation v = gc_activation c"
        by (rule view_of_wf [of c g]) (use wf c Some in auto)
      with Inr p c Some show ?thesis by (auto simp: get_goal_def cache_inv_def armed_active_def)
    qed
  qed
qed


definition sample_goal_session :: "json session" where
  "sample_goal_session = (case new_session False 9 ''s1'' None None of Inr s \<Rightarrow> s
     | Inl _ \<Rightarrow> empty_session ''s1'' (blank_header ''s1''))"

definition sample_service :: goal_service where
  "sample_service = \<lparr>gsv_session = sample_goal_session, gsv_cache = None, gsv_live = True, gsv_default_rounds = 256, gsv_emitted = []\<rparr>"

definition sample_created :: goal_service where
  "sample_created = fst (perform 20 21 (RequestCreate '' ship '' None ''u1'') sample_service)"

lemma sample_service_reach: "service_reach sample_service"
proof -
  have "new_session False 9 ''s1'' None None = Inr sample_goal_session" by code_simp
  moreover have "new_goal_service None sample_goal_session = Inr sample_service"
    by (simp add: new_goal_service_def resolve_max_rounds_def safe_integer_def safe_int_def max_safe_def sample_service_def)
  ultimately show ?thesis by (intro reach_new reach_create)
qed

lemma sample_service_fold: "fold_goal (ses_log (gsv_session sample_service)) = Inr empty_goal_state"
  by code_simp

lemma sample_create_admissible: "admissible_request empty_goal_state 20 (RequestCreate '' ship '' None ''u1'')"
  by (simp add: admissible_request_def max_safe_def empty_goal_state_def)

lemma sample_created_reach: "service_reach sample_created"
  by (rule reach_perform [OF sample_service_reach, where now = 20 and tick = 21 and req = "RequestCreate '' ship '' None ''u1''"
        and r = "snd (perform 20 21 (RequestCreate '' ship '' None ''u1'') sample_service)"])
    (auto simp: sample_created_def sample_service_fold sample_create_admissible)

theorem goal_mutations_are_admitted_witness:
  "\<exists>reply. snd (perform 20 21 (RequestCreate '' ship '' None ''u1'') sample_service) = Inr reply \<and>
     mutated (ses_log (gsv_session sample_service)) 21 sample_created reply"
proof -
  have "ok (snd (perform 20 21 (RequestCreate '' ship '' None ''u1'') sample_service))" by code_simp
  then obtain reply where "perform 20 21 (RequestCreate '' ship '' None ''u1'') sample_service = (sample_created, Inr reply)"
    by (metis ok_iff prod.collapse sample_created_def)
  with goal_mutations_are_admitted [OF sample_service_reach sample_service_fold sample_create_admissible this]
  show ?thesis by simp
qed

theorem goal_reads_show_the_fold_witness:
  "case snd (get_goal sample_created) of
     Inr (Some v) \<Rightarrow> g_objective (gv_goal v) = ''ship'' \<and> gv_activation v = Armed \<and> g_phase (gv_goal v) = Active
   | _ \<Rightarrow> False"
proof -
  obtain st where st: "fold_goal (ses_log (gsv_session sample_created)) = Inr st" "map_option g_objective (gs_goal st) = Some ''ship''"
  proof -
    have "case fold_goal (ses_log (gsv_session sample_created)) of Inr st \<Rightarrow> map_option g_objective (gs_goal st) = Some ''ship'' | _ \<Rightarrow> False"
      by code_simp
    then show thesis using that by (auto split: sum.splits)
  qed
  have "case snd (get_goal sample_created) of Inr (Some v) \<Rightarrow> gv_activation v = Armed | _ \<Rightarrow> False" by code_simp
  then show ?thesis
    using goal_reads_show_the_fold [OF sample_created_reach st(1)] st(2) by (auto split: sum.splits option.splits)
qed

end
