(* ===== verification/Surface_Edit.thy ===== *)
theory Surface_Edit
  imports Session_Log
begin

text \<open>
  What an append does to the surface of a session (\<open>packages/core/session/src/index.ts\<close>, \<open>surface.ts\<close>),
  as the components that rewrite history use it: a log-only event leaves the nodes alone, a replacement of a
  run of nodes that cites it puts its own node in the place of the run, and neither is ever rejected.
\<close>

definition surface_nodes :: "'p event list \<Rightarrow> int list" where
  "surface_nodes evs = (case fold_surface evs of Inr (nodes, _) \<Rightarrow> nodes | Inl _ \<Rightarrow> [])"

lemma surface_nodes_fold: "window_fold 0 evs evs = Inr (t, i, rs) \<Longrightarrow> surface_nodes evs = fs_nodes t"
  by (simp add: surface_nodes_def fold_surface_def)

lemma fold_obtain:
  assumes "ok (fold_surface evs)"
  obtains t rs where "window_fold 0 evs evs = Inr (t, int (length evs), rs)" and "surface_nodes evs = fs_nodes t"
    and "surface_history evs 0 evs (t, int (length evs), rs)"
proof -
  from assms obtain t i rs where t: "window_fold 0 evs evs = Inr (t, i, rs)"
    by (auto simp: ok_iff fold_surface_def rbind_Inr_iff)
  from surface.run_hist [OF t] have "i = int (length evs)" and "surface_history evs 0 evs (t, i, rs)" by simp_all
  with t that surface_nodes_fold [OF t] show thesis by auto
qed

definition nodes_known :: "'p event list \<Rightarrow> bool" where
  "nodes_known evs \<longleftrightarrow> contiguous evs \<and> distinct (surface_nodes evs) \<and>
     (\<forall>q \<in> set (surface_nodes evs). 0 \<le> q \<and> q < int (length evs))"

lemma fold_nodes_known:
  assumes "ok (fold_surface evs)"
  shows "nodes_known evs"
proof -
  obtain t rs where t: "window_fold 0 evs evs = Inr (t, int (length evs), rs)" "surface_nodes evs = fs_nodes t"
    and h: "surface_history evs 0 evs (t, int (length evs), rs)"
    using assms by (rule fold_obtain)
  then show ?thesis
    using history_node_bounds [OF h] fold_surface_contiguous [OF assms] by (simp add: nodes_known_def)
qed

lemma session_fold_ok: "session_ok s \<Longrightarrow> ok (fold_surface (ses_log s))"
  by (simp add: session_ok_def)

lemma session_nodes_known: "session_ok s \<Longrightarrow> nodes_known (ses_log s)"
  by (intro fold_nodes_known session_fold_ok)

text \<open>The nodes of a log that grew by one event are those of the last planned transition.\<close>

lemma fold_snoc:
  assumes "window_fold 0 evs evs = Inr (t, i, rs)" and "apply_surface_event t e i (evs @ [e]) 0 = Inr (t', r)"
  shows "ok (fold_surface (evs @ [e]))" and "surface_nodes (evs @ [e]) = fs_nodes t'"
proof -
  have "window_fold 0 (evs @ [e]) evs = Inr (t, i, rs)"
    using window_fold_local [of evs "[e]" 0 "[]"] assms(1) by simp
  then have w: "window_fold 0 (evs @ [e]) (evs @ [e]) = Inr (t', i + 1, rs @ (case r of None \<Rightarrow> [] | Some r \<Rightarrow> [r]))"
    using assms(2) by (simp add: replay_snoc)
  then show "ok (fold_surface (evs @ [e]))" by (simp add: fold_surface_def)
  show "surface_nodes (evs @ [e]) = fs_nodes t'" using surface_nodes_fold [OF w] .
qed

lemma fold_snocE:
  assumes "ok (fold_surface (evs @ [e]))"
  obtains t t' r where "apply_surface_event t e (int (length evs)) (evs @ [e]) 0 = Inr (t', r)"
    and "surface_nodes evs = fs_nodes t" and "surface_nodes (evs @ [e]) = fs_nodes t'" and "ok (fold_surface evs)"
proof -
  have pre: "ok (fold_surface evs)" using assms by (rule fold_surface_prefix)
  then obtain t rs where t: "window_fold 0 evs evs = Inr (t, int (length evs), rs)" "surface_nodes evs = fs_nodes t"
    by (rule fold_obtain)
  obtain u rs' where u: "window_fold 0 (evs @ [e]) (evs @ [e]) = Inr (u, int (length (evs @ [e])), rs')"
      "surface_nodes (evs @ [e]) = fs_nodes u"
    using assms by (rule fold_obtain)
  have "window_fold 0 (evs @ [e]) evs = Inr (t, int (length evs), rs)"
    using window_fold_local [of evs "[e]" 0 "[]"] t(1) by simp
  with u(1) obtain r where "apply_surface_event t e (int (length evs)) (evs @ [e]) 0 = Inr (u, r)"
    by (auto simp: replay_snoc rbind_Inr_iff)
  with t(2) u(2) pre that show thesis by blast
qed

lemma surface_nodes_log_only:
  assumes "ok (fold_surface evs)" and "\<not> is_surface_eligible_type d"
  shows "surface_nodes (evs @ [log_event (int (length evs)) now d]) = surface_nodes evs"
proof -
  obtain t rs where t: "window_fold 0 evs evs = Inr (t, int (length evs), rs)" "surface_nodes evs = fs_nodes t"
    using assms(1) by (rule fold_obtain)
  then show ?thesis
    using fold_snoc(2) [OF t(1), of "log_event (int (length evs)) now d" t None] assms(2)
    by (simp add: apply_surface_event_def plan_surface_event_def surface_op_of_def)
qed

section \<open>Meters\<close>

text \<open>
  What the components that shrink the surface ask of the token meter: the priced surface of a log, which may
  fail, and the price of one message. The nodes are those of the surface, in order, and a node's price is
  that of the message its event derives.
\<close>

type_synonym priced = "(int \<times> int) list"

record ('p, 'e) meter =
  measure_nodes :: "'p event list \<Rightarrow> 'e + priced"
  estimate_message :: "message \<Rightarrow> int"

locale surface_meter =
  fixes mtr :: "('p, 'e) meter"
  assumes nodes_measured: "ok (fold_surface evs) \<Longrightarrow> measure_nodes mtr evs = Inr nodes \<Longrightarrow> map fst nodes = surface_nodes evs"
    and prices_nonneg: "ok (fold_surface evs) \<Longrightarrow> measure_nodes mtr evs = Inr nodes \<Longrightarrow> list_all (\<lambda>p. 0 \<le> snd p) nodes"
    and prices_estimated: "ok (fold_surface evs) \<Longrightarrow> measure_nodes mtr evs = Inr nodes \<Longrightarrow>
      list_all (\<lambda>(q, n). \<forall>m. derive_event_message (evs ! nat q) = Some m \<longrightarrow> n = estimate_message mtr m) nodes"

section \<open>Replacements\<close>

lemma read_sources_ints:
  "distinct (acc @ xs) \<Longrightarrow> \<forall>x \<in> set xs. 0 \<le> x \<and> x < seq \<and> safe_int x \<Longrightarrow>
     read_sources seq (map JInt xs) acc None = Inr (acc @ xs, None)"
proof (induction xs arbitrary: acc)
  case (Cons x xs)
  then have "event_seq_value (JInt x) = Some x" by (simp add: event_seq_value_JInt)
  moreover have "x \<notin> set acc" "\<not> x \<ge> seq" using Cons.prems by auto
  ultimately show ?case using Cons.IH [of "acc @ [x]"] Cons.prems by (simp del: event_seq_value.simps)
qed simp

definition replace_intent :: "int \<Rightarrow> int \<Rightarrow> int list \<Rightarrow> surface_intent" where
  "replace_intent a b sources =
     \<lparr>si_op = Some (JObj [(''op'', JStr ''replace''), (''start'', JInt a), (''end'', JInt b)]),
      si_sources = Some (JArr (map JInt sources))\<rparr>"

lemma replace_op_intent:
  "0 \<le> a \<Longrightarrow> safe_int a \<Longrightarrow> 0 \<le> b \<Longrightarrow> safe_int b \<Longrightarrow>
     replace_op_of (JObj [(''op'', JStr ''replace''), (''start'', JInt a), (''end'', JInt b)]) = Some (OpReplace a b)"
  by (simp add: replace_op_of_def has_exact_keys_def event_seq_value_JInt del: event_seq_value.simps)

lemma fold_replace:
  assumes fold: "ok (fold_surface evs)" and nodes: "surface_nodes evs = pre @ mid @ post" and mid: "mid \<noteq> []"
    and e: "ev_seq e = int (length evs)" "is_surface_eligible_type (ev_data e)"
      "ev_surface_op e = si_op (replace_intent (hd mid) (last mid) sources)"
      "ev_sources e = si_sources (replace_intent (hd mid) (last mid) sources)"
    and srcs: "distinct sources" "\<forall>q \<in> set sources. 0 \<le> q \<and> q < int (length evs)" "set mid \<subseteq> set sources"
    and small: "int (length evs) \<le> max_safe"
    and rewrite: "assert_tool_result_rewrite e mid (evs @ [e]) 0 = Inr ()"
  shows "ok (fold_surface (evs @ [e]))" and "surface_nodes (evs @ [e]) = pre @ [int (length evs)] @ post"
proof -
  let ?n = "int (length evs)"
  obtain t rs where t: "window_fold 0 evs evs = Inr (t, ?n, rs)" "surface_nodes evs = fs_nodes t"
    using fold by (rule fold_obtain)
  have fs: "fs_nodes t = pre @ mid @ post" using t(2) nodes by simp
  have dist: "distinct (pre @ mid @ post)" using fold_nodes_known [OF fold] nodes by (simp add: nodes_known_def)
  have safe: "0 \<le> q \<and> safe_int q" if "q \<in> set sources" for q
    using that srcs(2) small by (force simp: safe_int_def)
  have ends: "hd mid \<in> set sources" "last mid \<in> set sources" using mid srcs(3) by auto
  have idx: "index_of (fs_nodes t) (hd mid) = Some (length pre)" "index_of (fs_nodes t) (last mid) = Some (length pre + (length mid - 1))"
    using index_of_nth [OF dist, of "length pre"] index_of_nth [OF dist, of "length pre + (length mid - 1)"] mid t(2) nodes
    by (simp_all add: nth_append hd_conv_nth last_conv_nth trans_less_add1 del: distinct_append)
  have run: "take (length pre + (length mid - 1) + 1 - length pre) (drop (length pre) (fs_nodes t)) = mid"
    using mid by (simp add: fs)
  have range: "replacement_range t (hd mid) (last mid) = Inr (length pre, length pre + (length mid - 1), mid)"
    unfolding replacement_range_def idx option.case run by simp
  have op: "surface_op_of e = Inr (Some (OpReplace (hd mid) (last mid)))"
    using e(2,3) replace_op_intent safe ends by (simp add: surface_op_of_def replace_intent_def)
  have "read_sources ?n (map JInt sources) [] None = Inr (sources, None)"
    using read_sources_ints [of "[]" sources ?n] srcs safe by simp
  then have prov: "assert_provenance e mid = Inr ()"
    using e mid srcs(3) by (auto simp: assert_provenance_def replace_intent_def Let_def filter_empty_conv)
  let ?rp = "\<lparr>rp_seq = ?n, rp_start = hd mid, rp_end = last mid, rp_shadowed = mid\<rparr>"
  have "plan_surface_event t e ?n (evs @ [e]) 0 = Inr (Some (PlanReplace ?rp (length pre) (length pre + (length mid - 1))))"
    by (simp add: plan_surface_event_def e(1) op range prov rewrite)
  then have "apply_surface_event t e ?n (evs @ [e]) 0 =
      Inr (t\<lparr>fs_nodes := list_splice (length pre) (length mid - 1 + 1) [?n] (fs_nodes t), fs_generation := fs_generation t + 1\<rparr>, Some ?rp)"
    by (simp add: apply_surface_event_def)
  from fold_snoc [OF t(1) this] show "ok (fold_surface (evs @ [e]))" and "surface_nodes (evs @ [e]) = pre @ [?n] @ post"
    using mid by (simp_all add: list_splice_def fs)
qed

text \<open>An append that the fold accepts commits the event.\<close>

lemma append_accepted:
  assumes "session_ok s" and "ok (fold_surface (ses_log s @ [append_candidate now d intent s]))"
  obtains s' where "session_append now d intent s = (s', Inr (append_candidate now d intent s))" and "session_ok s'"
    and "ses_log s' = ses_log s @ [append_candidate now d intent s]"
proof -
  let ?e = "append_candidate now d intent s"
  obtain s1 where v: "append_validate ?e s = (s1, None)" "session_ok (push_event ?e s1)" "ses_log s1 = ses_log s"
    using assms by (rule append_validate_accepts)
  then show thesis by (intro that [of "push_event ?e s1"]) (simp_all add: session_append_def Let_def push_event_def)
qed

lemma append_replacement:
  assumes s: "session_ok s" and nodes: "surface_nodes (ses_log s) = pre @ mid @ post" and mid: "mid \<noteq> []"
    and d: "is_surface_eligible_type d"
    and srcs: "distinct sources" "\<forall>q \<in> set sources. 0 \<le> q \<and> q < int (length (ses_log s))" "set mid \<subseteq> set sources"
    and small: "int (length (ses_log s)) \<le> max_safe"
    and rewrite: "\<And>e. ev_data e = d \<Longrightarrow> assert_tool_result_rewrite e mid (ses_log s @ [e]) 0 = Inr ()"
  obtains s' e where "session_append now d (replace_intent (hd mid) (last mid) sources) s = (s', Inr e)" and "session_ok s'"
    and "ses_log s' = ses_log s @ [e]" and "ev_seq e = int (length (ses_log s))" and "ev_data e = d"
    and "ev_surface_op e = si_op (replace_intent (hd mid) (last mid) sources)"
    and "surface_nodes (ses_log s') = pre @ [int (length (ses_log s))] @ post"
proof -
  let ?intent = "replace_intent (hd mid) (last mid) sources"
  let ?e = "append_candidate now d ?intent s"
  have "ok (fold_surface (ses_log s @ [?e]))" and n: "surface_nodes (ses_log s @ [?e]) = pre @ [int (length (ses_log s))] @ post"
    using fold_replace [OF session_fold_ok [OF s] nodes mid, of ?e sources] srcs small rewrite [of ?e] d
    by (simp_all add: append_candidate_def)
  with s obtain s' where "session_append now d ?intent s = (s', Inr ?e)" "session_ok s'" "ses_log s' = ses_log s @ [?e]"
    by (meson append_accepted)
  with n that show thesis by (simp add: append_candidate_def)
qed

end
