(* ===== verification/Tool_Pairing.thy ===== *)
theory Tool_Pairing
  imports Surface_Edit
begin

text \<open>
  Tool-pairing balance over a session surface (\<open>packages/compaction/compaction/src/tool-pairing.ts\<close>):
  which cuts between surface nodes are crossed by no unanswered tool call, computed incrementally
  and cached per session and surface generation.
\<close>

section \<open>The cache\<close>

record balance_entry =
  bc_generation :: nat
  bc_cuts :: "bool list"
  bc_index :: "(int, nat) omap"
  bc_open :: int

datatype pairing_error =
    PairingCorrupt int
  | ResultWithoutOpenCall int
  | SeqNotOnSurface int
  | SurfaceUnreadable surface_error

fun block_is_call :: "content_block \<Rightarrow> bool" where
  "block_is_call (ToolCallBlock _ _ _) = True"
| "block_is_call _ = False"

definition event_delta :: "'p event \<Rightarrow> int" where
  "event_delta e = (case ev_data e of
      AssistantMessage _ _ m _ _ \<Rightarrow> int (length (filter block_is_call (am_content m)))
    | ToolResult _ \<Rightarrow> -1
    | _ \<Rightarrow> 0)"

definition event_for_seq :: "'p event list \<Rightarrow> int \<Rightarrow> pairing_error + 'p event" where
  "event_for_seq evs seq = (case array_at evs seq of
      None \<Rightarrow> Inl (PairingCorrupt seq)
    | Some e \<Rightarrow> if ev_seq e \<noteq> seq then Inl (PairingCorrupt seq) else Inr e)"

text \<open>The loop over the unseen tail: the cuts after each sequence, and the open calls at the end.\<close>

fun scan_tail :: "'p event list \<Rightarrow> int \<Rightarrow> int list \<Rightarrow> pairing_error + bool list \<times> int" where
  "scan_tail evs n [] = Inr ([], n)"
| "scan_tail evs n (seq # seqs) =
     rbind (event_for_seq evs seq) (\<lambda>e.
       let n' = n + event_delta e in
       if n' < 0 then Inl (ResultWithoutOpenCall seq)
       else rbind (scan_tail evs n' seqs) (\<lambda>(cuts, m). Inr ((n' = 0) # cuts, m)))"

fun index_tail :: "nat \<Rightarrow> int list \<Rightarrow> (int, nat) omap \<Rightarrow> (int, nat) omap" where
  "index_tail i [] m = m"
| "index_tail i (seq # seqs) m = index_tail (i + 1) seqs (om_set seq i m)"

definition extend_cache :: "'p event list \<Rightarrow> balance_entry \<Rightarrow> int list \<Rightarrow> pairing_error + balance_entry" where
  "extend_cache evs c seqs =
     (let processed = length (bc_cuts c) - 1; tail = drop processed seqs in
      rbind (scan_tail evs (bc_open c) tail) (\<lambda>(cuts, n).
        Inr (c\<lparr>bc_index := index_tail processed tail (bc_index c), bc_cuts := bc_cuts c @ cuts, bc_open := n\<rparr>)))"

definition empty_balance :: "nat \<Rightarrow> balance_entry" where
  "empty_balance generation = \<lparr>bc_generation = generation, bc_cuts = [True], bc_index = [], bc_open = 0\<rparr>"

text \<open>\<open>balanceCache\<close> on the surface it read; a throw leaves the stored cache as it was.\<close>

definition balance_of ::
    "'p event list \<Rightarrow> int list \<Rightarrow> nat \<Rightarrow> balance_entry option \<Rightarrow> pairing_error + balance_entry" where
  "balance_of evs seqs generation cached = (case cached of
      None \<Rightarrow> extend_cache evs (empty_balance generation) seqs
    | Some c \<Rightarrow>
        if bc_generation c \<noteq> generation \<or> length (bc_cuts c) - 1 > length seqs
        then extend_cache evs (empty_balance generation) seqs
        else if length (bc_cuts c) - 1 < length seqs then extend_cache evs c seqs
        else Inr c)"

definition surface_view :: "'p session \<Rightarrow> 'p session \<times> (surface_error + int list \<times> nat)" where
  "surface_view s = (case manager_nodes (ses_log s) (ses_surface s) of
      (m, Inl err) \<Rightarrow> (s\<lparr>ses_surface := m\<rparr>, Inl err)
    | (m, Inr nodes) \<Rightarrow>
        (case manager_generation (ses_log s) m of
           (m', Inl err) \<Rightarrow> (s\<lparr>ses_surface := m'\<rparr>, Inl err)
         | (m', Inr gen) \<Rightarrow> (s\<lparr>ses_surface := m'\<rparr>, Inr (nodes, gen))))"

text \<open>A session with the cache entry that the module keeps for it.\<close>

record 'p metered =
  mt_session :: "'p session"
  mt_balance :: "balance_entry option"

definition balance_cache :: "'p metered \<Rightarrow> 'p metered \<times> (pairing_error + balance_entry)" where
  "balance_cache mt = (case surface_view (mt_session mt) of
      (s, Inl err) \<Rightarrow> (mt\<lparr>mt_session := s\<rparr>, Inl (SurfaceUnreadable err))
    | (s, Inr (nodes, gen)) \<Rightarrow>
        (case balance_of (ses_log s) nodes gen (mt_balance mt) of
           Inl err \<Rightarrow> (mt\<lparr>mt_session := s\<rparr>, Inl err)
         | Inr c \<Rightarrow> (mt\<lparr>mt_session := s, mt_balance := Some c\<rparr>, Inr c)))"

definition cut_balance :: "balance_entry \<Rightarrow> int \<Rightarrow> nat \<Rightarrow> pairing_error + bool" where
  "cut_balance c seq offset = (case om_get (bc_index c) seq of
      None \<Rightarrow> Inl (SeqNotOnSurface seq)
    | Some i \<Rightarrow> if i + offset < length (bc_cuts c) then Inr (bc_cuts c ! (i + offset)) else Inl (SeqNotOnSurface seq))"

definition balanced_at :: "nat \<Rightarrow> 'p metered \<Rightarrow> int \<Rightarrow> 'p metered \<times> (pairing_error + bool)" where
  "balanced_at offset mt seq = (case balance_cache mt of
      (mt', Inl err) \<Rightarrow> (mt', Inl err)
    | (mt', Inr c) \<Rightarrow> (mt', cut_balance c seq offset))"

definition balanced_before :: "'p metered \<Rightarrow> int \<Rightarrow> 'p metered \<times> (pairing_error + bool)" where
  "balanced_before mt seq = balanced_at 0 mt seq"

definition balanced_after :: "'p metered \<Rightarrow> int \<Rightarrow> 'p metered \<times> (pairing_error + bool)" where
  "balanced_after mt seq = balanced_at 1 mt seq"

section \<open>Open calls\<close>

text \<open>How many calls are open after the nodes, and whether no result precedes its call.\<close>

definition node_delta :: "'p event list \<Rightarrow> int \<Rightarrow> int" where
  "node_delta evs q = event_delta (evs ! nat q)"

definition open_calls :: "'p event list \<Rightarrow> int list \<Rightarrow> int" where
  "open_calls evs nodes = sum_list (map (node_delta evs) nodes)"

definition paired :: "'p event list \<Rightarrow> int list \<Rightarrow> bool" where
  "paired evs nodes \<longleftrightarrow> list_all (\<lambda>k. 0 \<le> open_calls evs (take k nodes)) [0..<Suc (length nodes)]"

lemma open_calls_append [simp]: "open_calls evs (xs @ ys) = open_calls evs xs + open_calls evs ys"
  by (simp add: open_calls_def)

lemma open_calls_Nil [simp]: "open_calls evs [] = 0"
  by (simp add: open_calls_def)

lemma paired_iff: "paired evs nodes \<longleftrightarrow> (\<forall>k \<le> length nodes. 0 \<le> open_calls evs (take k nodes))"
  by (auto simp: paired_def list_all_iff less_Suc_eq_le)

lemma paired_append_left: "paired evs (xs @ ys) \<Longrightarrow> paired evs xs"
  unfolding paired_iff
proof (intro allI impI)
  fix k
  assume "\<forall>k \<le> length (xs @ ys). 0 \<le> open_calls evs (take k (xs @ ys))" and "k \<le> length xs"
  then show "0 \<le> open_calls evs (take k xs)" by (auto dest: spec [of _ k])
qed

lemma paired_snoc: "paired evs (xs @ [q]) \<longleftrightarrow> paired evs xs \<and> 0 \<le> open_calls evs (xs @ [q])"
proof -
  have "(\<forall>k \<le> Suc (length xs). 0 \<le> open_calls evs (take k (xs @ [q]))) \<longleftrightarrow>
      (\<forall>k \<le> length xs. 0 \<le> open_calls evs (take k (xs @ [q]))) \<and> 0 \<le> open_calls evs (take (Suc (length xs)) (xs @ [q]))"
    by (auto simp: le_Suc_eq)
  then show ?thesis by (simp add: paired_iff)
qed

definition cuts_of :: "'p event list \<Rightarrow> int list \<Rightarrow> bool list" where
  "cuts_of evs nodes = map (\<lambda>k. open_calls evs (take k nodes) = 0) [0..<Suc (length nodes)]"

lemma cuts_of_Nil [simp]: "cuts_of evs [] = [True]"
  by (simp add: cuts_of_def)

lemma length_cuts_of [simp]: "length (cuts_of evs nodes) = Suc (length nodes)"
  by (simp add: cuts_of_def)

lemma cuts_of_snoc: "cuts_of evs (xs @ [q]) = cuts_of evs xs @ [open_calls evs (xs @ [q]) = 0]"
  unfolding cuts_of_def by (simp del: upt_Suc add: upt_Suc_append [of 0 "Suc (length xs)"])

lemma cuts_of_nth: "k \<le> length nodes \<Longrightarrow> cuts_of evs nodes ! k \<longleftrightarrow> open_calls evs (take k nodes) = 0"
  by (simp add: cuts_of_def nth_append del: upt_Suc)


section \<open>The scan computes them\<close>

lemma drop_cuts: "drop (Suc (length xs)) (cuts_of evs (xs @ q # ys)) =
    (open_calls evs (xs @ [q]) = 0) # drop (Suc (Suc (length xs))) (cuts_of evs (xs @ q # ys))"
proof -
  have "Suc (length xs) < length (cuts_of evs (xs @ q # ys))" by simp
  then show ?thesis by (simp add: Cons_nth_drop_Suc [symmetric] cuts_of_nth)
qed

lemma scan_tail_spec:
  assumes "contiguous evs" and "\<forall>q \<in> set ys. 0 \<le> q \<and> q < int (length evs)" and "paired evs xs"
  shows "scan_tail evs (open_calls evs xs) ys =
      Inr (drop (Suc (length xs)) (cuts_of evs (xs @ ys)), open_calls evs (xs @ ys)) \<and> paired evs (xs @ ys) \<or>
    (\<exists>q. scan_tail evs (open_calls evs xs) ys = Inl (ResultWithoutOpenCall q)) \<and> \<not> paired evs (xs @ ys)"
  using assms
proof (induction ys arbitrary: xs)
  case (Cons q ys)
  have e: "event_for_seq evs q = Inr (evs ! nat q)"
    using Cons.prems(1,2) by (auto simp: event_for_seq_def array_at_def contiguous_nth)
  have n: "open_calls evs xs + event_delta (evs ! nat q) = open_calls evs (xs @ [q])"
    by (simp add: open_calls_def node_delta_def)
  show ?case
  proof (cases "open_calls evs (xs @ [q]) < 0")
    case True
    then have "\<not> paired evs (xs @ [q])" by (simp add: paired_snoc)
    then have "\<not> paired evs (xs @ q # ys)" using paired_append_left [of evs "xs @ [q]" ys] by auto
    with True e n show ?thesis by simp
  next
    case False
    then have "paired evs (xs @ [q])" using Cons.prems(3) by (simp add: paired_snoc)
    from Cons.IH [of "xs @ [q]", OF Cons.prems(1) _ this] Cons.prems(2) e n False drop_cuts [of xs evs q ys] show ?thesis
      by auto
  qed
qed simp

lemma index_of_append: "index_of (xs @ ys) q = (case index_of xs q of Some i \<Rightarrow> Some i | None \<Rightarrow> map_option (\<lambda>i. length xs + i) (index_of ys q))"
  by (induction xs) (cases "index_of ys q"; auto simp del: index_of_None split: option.splits)+

lemma index_of_fresh: "q \<notin> set xs \<Longrightarrow> index_of xs q = None"
  by simp

lemma index_tail_get:
  "om_get m = index_of xs \<Longrightarrow> distinct (xs @ ys) \<Longrightarrow> om_get (index_tail (length xs) ys m) = index_of (xs @ ys)"
proof (induction ys arbitrary: xs m)
  case (Cons q ys)
  have "index_of xs q = None" using Cons.prems(2) by simp
  then have "om_get (om_set q (length xs) m) = index_of (xs @ [q])"
    using Cons.prems(1) by (auto simp: fun_eq_iff index_of_append simp del: index_of_None split: option.splits)
  from Cons.IH [OF this] Cons.prems(2) show ?case by simp
qed simp

definition represents :: "'p event list \<Rightarrow> int list \<Rightarrow> balance_entry \<Rightarrow> bool" where
  "represents evs nodes c \<longleftrightarrow> bc_cuts c = cuts_of evs nodes \<and> bc_open c = open_calls evs nodes \<and>
     om_get (bc_index c) = index_of nodes \<and> paired evs nodes"

lemma represents_empty: "represents evs [] (empty_balance g)"
  by (auto simp: represents_def empty_balance_def fun_eq_iff paired_def)

lemma gen_empty: "bc_generation (empty_balance g) = g"
  by (simp add: empty_balance_def)

lemma extend_cache_spec:
  assumes "contiguous evs" and "\<forall>q \<in> set (xs @ ys). 0 \<le> q \<and> q < int (length evs)" and "distinct (xs @ ys)"
    and rep: "represents evs xs c"
  shows "case extend_cache evs c (xs @ ys) of
      Inr c' \<Rightarrow> represents evs (xs @ ys) c' \<and> bc_generation c' = bc_generation c
    | Inl _ \<Rightarrow> \<not> paired evs (xs @ ys)"
proof -
  have len: "length (bc_cuts c) - Suc 0 = length xs" using rep by (simp add: represents_def)
  have cuts: "bc_cuts c @ drop (Suc (length xs)) (cuts_of evs (xs @ ys)) = cuts_of evs (xs @ ys)"
  proof -
    have "take (Suc (length xs)) (cuts_of evs (xs @ ys)) = cuts_of evs xs"
      by (rule nth_equalityI) (auto simp: cuts_of_nth)
    then show ?thesis using rep by (metis append_take_drop_id represents_def)
  qed
  have index: "om_get (index_tail (length xs) ys (bc_index c)) = index_of (xs @ ys)"
    using index_tail_get [OF _ assms(3)] rep by (simp add: represents_def)
  have "paired evs xs" and n: "bc_open c = open_calls evs xs" using rep by (simp_all add: represents_def)
  from scan_tail_spec [OF assms(1) _ this(1), of ys] assms(2) show ?thesis
    using cuts index by (auto simp: extend_cache_def len n Let_def represents_def)
qed

lemma represents_grow:
  assumes "represents evs nodes c" and "\<forall>q \<in> set nodes. 0 \<le> q \<and> q < int (length evs)"
  shows "represents (evs @ later) nodes c"
proof -
  have "open_calls (evs @ later) (take k nodes) = open_calls evs (take k nodes)" for k
  proof -
    have "map (node_delta (evs @ later)) (take k nodes) = map (node_delta evs) (take k nodes)"
      using assms(2) by (auto simp: node_delta_def nth_append nat_less_iff dest!: in_set_takeD)
    then show ?thesis by (simp only: open_calls_def)
  qed
  note eq = this
  from eq [of "length nodes"] have "open_calls (evs @ later) nodes = open_calls evs nodes" by simp
  with assms(1) eq show ?thesis by (simp only: represents_def cuts_of_def paired_def)
qed

section \<open>The cache over a session's life\<close>

definition balance_ok :: "'p event list \<Rightarrow> balance_entry \<Rightarrow> bool" where
  "balance_ok evs c \<longleftrightarrow>
     (\<exists>k s rs. k \<le> length evs \<and> window_fold 0 evs (take k evs) = Inr (s, int k, rs) \<and>
        bc_generation c = fs_generation s \<and> represents evs (fs_nodes s) c)"

lemma balance_ok_grow:
  assumes "balance_ok evs c"
  shows "balance_ok (evs @ later) c"
proof -
  from assms obtain k s rs where k: "k \<le> length evs" and f: "window_fold 0 evs (take k evs) = Inr (s, int k, rs)"
    and c: "bc_generation c = fs_generation s" "represents evs (fs_nodes s) c"
    by (auto simp: balance_ok_def)
  from surface.run_hist [OF f] have h: "surface_history evs 0 (take k evs) (s, int k, rs)" .
  have "\<forall>q \<in> set (fs_nodes s). 0 \<le> q \<and> q < int (length evs)"
    using history_node_bounds [OF h] k by force
  then have "represents (evs @ later) (fs_nodes s) c" using c(2) represents_grow by blast
  moreover have "window_fold 0 (evs @ later) (take k (evs @ later)) = Inr (s, int k, rs)"
    using window_fold_take [OF k, of later 0] f k by simp
  ultimately show ?thesis
    unfolding balance_ok_def using k c by (intro exI [of _ k] exI [of _ s] exI [of _ rs]) auto
qed

lemma balance_of_spec:
  assumes fold: "window_fold 0 evs evs = Inr (t, i, rs)" and cached: "\<And>c. cached = Some c \<Longrightarrow> balance_ok evs c"
    and contig: "contiguous evs"
  shows "case balance_of evs (fs_nodes t) (fs_generation t) cached of
      Inr c \<Rightarrow> represents evs (fs_nodes t) c \<and> bc_generation c = fs_generation t
    | Inl _ \<Rightarrow> \<not> paired evs (fs_nodes t)"
proof -
  from surface.run_hist [OF fold] have h: "surface_history evs 0 evs (t, i, rs)" .
  then have i: "i = int (length evs)" and dist: "distinct (fs_nodes t)" by simp_all
  have nodes: "\<forall>q \<in> set (fs_nodes t). 0 \<le> q \<and> q < int (length evs)"
    using history_node_bounds [OF h] i by force
  have fresh: "case extend_cache evs (empty_balance (fs_generation t)) (fs_nodes t) of
      Inr c \<Rightarrow> represents evs (fs_nodes t) c \<and> bc_generation c = fs_generation t
    | Inl _ \<Rightarrow> \<not> paired evs (fs_nodes t)"
    using extend_cache_spec [OF contig, of "[]" "fs_nodes t" "empty_balance (fs_generation t)"] nodes dist
      represents_empty [of evs "fs_generation t"] gen_empty [of "fs_generation t"]
    by (auto split: sum.splits)
  show ?thesis
  proof (cases cached)
    case None
    with fresh show ?thesis by (simp add: balance_of_def)
  next
    case (Some c)
    show ?thesis
    proof (cases "bc_generation c = fs_generation t")
      case False
      with Some fresh show ?thesis by (simp add: balance_of_def)
    next
      case gen: True
      from cached [OF Some] obtain k u us where f: "window_fold 0 evs (take k evs) = Inr (u, int k, us)"
        and c: "bc_generation c = fs_generation u" "represents evs (fs_nodes u) c"
        by (auto simp: balance_ok_def)
      have "replay (surface_loop evs 0) (u, int k, us) (drop k evs) = Inr (t, i, rs)"
        using fold f replay_append [of "surface_loop evs 0" _ "take k evs" "drop k evs"] by simp
      from surface_growth [OF this] gen c obtain ys where ys: "fs_nodes t = fs_nodes u @ ys" by auto
      have len: "length (bc_cuts c) - Suc 0 = length (fs_nodes u)" using c(2) by (simp add: represents_def)
      show ?thesis
      proof (cases "ys = []")
        case True
        with Some gen len ys c show ?thesis by (simp add: balance_of_def)
      next
        case False
        then have "balance_of evs (fs_nodes t) (fs_generation t) cached = extend_cache evs c (fs_nodes u @ ys)"
          using Some gen len ys by (simp add: balance_of_def)
        with extend_cache_spec [OF contig, of "fs_nodes u" ys c] nodes dist c gen ys show ?thesis
          by (simp split: sum.splits)
      qed
    qed
  qed
qed

text \<open>What reading the surface leaves and returns.\<close>

lemma surface_view_spec:
  assumes "session_ok s"
  obtains s' t rs where "surface_view s = (s', Inr (fs_nodes t, fs_generation t))" and "session_ok s'"
    and "ses_log s' = ses_log s" and "ses_id s' = ses_id s" and "ses_header s' = ses_header s"
    and "window_fold 0 (ses_log s) (ses_log s) = Inr (t, int (length (ses_log s)), rs)"
proof -
  let ?evs = "ses_log s"
  have reach: "manager_reach 0 ?evs (ses_surface s)" using assms by (simp add: session_ok_def)
  from assms obtain t i rs where t: "window_fold 0 ?evs ?evs = Inr (t, i, rs)"
    by (auto simp: session_ok_def ok_iff fold_surface_def rbind_Inr_iff)
  from surface.run_hist [OF t] have i: "i = int (length ?evs)" by simp
  obtain m where m: "manager_nodes ?evs (ses_surface s) = (m, Inr (fs_nodes t))"
    using manager_views(1) [OF reach] t by (cases "manager_nodes ?evs (ses_surface s)") auto
  have reach1: "manager_reach 0 ?evs m" using reach_nodes [OF reach] m by simp
  obtain m' where m': "manager_generation ?evs m = (m', Inr (fs_generation t))"
    using manager_views(2) [OF reach1] t by (cases "manager_generation ?evs m") auto
  have reach2: "manager_reach 0 ?evs m'" using reach_generation [OF reach1] m' by simp
  have "surface_view s = (s\<lparr>ses_surface := m'\<rparr>, Inr (fs_nodes t, fs_generation t))"
    by (simp add: surface_view_def m m')
  moreover have "session_ok (s\<lparr>ses_surface := m'\<rparr>)" using assms reach2 by (simp add: session_ok_def)
  ultimately show thesis using t i by (intro that [of "s\<lparr>ses_surface := m'\<rparr>" t rs]) simp_all
qed

definition metered_ok :: "'p metered \<Rightarrow> bool" where
  "metered_ok mt \<longleftrightarrow> session_ok (mt_session mt) \<and> (\<forall>c. mt_balance mt = Some c \<longrightarrow> balance_ok (ses_log (mt_session mt)) c)"

lemma session_ok_contiguous: "session_ok s \<Longrightarrow> contiguous (ses_log s)"
  by (simp add: session_ok_def fold_surface_contiguous)

lemma balance_cache_spec:
  assumes "metered_ok mt"
  obtains mt' r t rs where "balance_cache mt = (mt', r)" and "metered_ok mt'" and "ses_log (mt_session mt') = ses_log (mt_session mt)"
    and "window_fold 0 (ses_log (mt_session mt)) (ses_log (mt_session mt)) = Inr (t, int (length (ses_log (mt_session mt))), rs)"
    and "case r of Inr c \<Rightarrow> represents (ses_log (mt_session mt)) (fs_nodes t) c
      | Inl _ \<Rightarrow> \<not> paired (ses_log (mt_session mt)) (fs_nodes t)"
proof -
  let ?evs = "ses_log (mt_session mt)"
  have ok: "session_ok (mt_session mt)" using assms by (simp add: metered_ok_def)
  from surface_view_spec [OF ok] obtain s' t rs where v: "surface_view (mt_session mt) = (s', Inr (fs_nodes t, fs_generation t))"
    "session_ok s'" "ses_log s' = ?evs" and t: "window_fold 0 ?evs ?evs = Inr (t, int (length ?evs), rs)"
    by blast
  have spec: "case balance_of ?evs (fs_nodes t) (fs_generation t) (mt_balance mt) of
      Inr c \<Rightarrow> represents ?evs (fs_nodes t) c \<and> bc_generation c = fs_generation t
    | Inl _ \<Rightarrow> \<not> paired ?evs (fs_nodes t)"
    by (rule balance_of_spec [OF t _ session_ok_contiguous [OF ok]]) (use assms in \<open>simp add: metered_ok_def\<close>)
  show thesis
  proof (cases "balance_of ?evs (fs_nodes t) (fs_generation t) (mt_balance mt)")
    case (Inl err)
    with v spec assms t show thesis
      by (intro that [of "mt\<lparr>mt_session := s'\<rparr>" "Inl err" t rs]) (simp_all add: balance_cache_def metered_ok_def)
  next
    case (Inr c)
    with spec t have "balance_ok ?evs c" unfolding balance_ok_def
      by (intro exI [of _ "length ?evs"] exI [of _ t] exI [of _ rs]) simp
    with Inr v spec t show thesis
      by (intro that [of "mt\<lparr>mt_session := s', mt_balance := Some c\<rparr>" "Inr c" t rs]) (simp_all add: balance_cache_def metered_ok_def)
  qed
qed

text \<open>The surface of a log, and the two cuts around one of its nodes.\<close>

definition cut_open :: "'p event list \<Rightarrow> int \<Rightarrow> nat \<Rightarrow> pairing_error + bool" where
  "cut_open evs seq offset = (case index_of (surface_nodes evs) seq of
      None \<Rightarrow> Inl (SeqNotOnSurface seq)
    | Some i \<Rightarrow> Inr (open_calls evs (take (i + offset) (surface_nodes evs)) = 0))"

lemma cut_balance_spec:
  assumes "represents evs (surface_nodes evs) c" and "offset \<le> 1"
  shows "cut_balance c seq offset = cut_open evs seq offset"
proof (cases "index_of (surface_nodes evs) seq")
  case None
  with assms show ?thesis by (simp add: cut_balance_def cut_open_def represents_def del: index_of_None)
next
  case (Some i)
  then have "i < length (surface_nodes evs)" using index_of_Some by fast
  with Some assms show ?thesis by (simp add: cut_balance_def cut_open_def represents_def cuts_of_nth)
qed

lemma balanced_at_spec:
  assumes "metered_ok mt" and "offset \<le> 1" and "balanced_at offset mt seq = (mt', r)"
  shows "metered_ok mt' \<and> ses_log (mt_session mt') = ses_log (mt_session mt) \<and>
    (if paired (ses_log (mt_session mt)) (surface_nodes (ses_log (mt_session mt)))
     then r = cut_open (ses_log (mt_session mt)) seq offset else \<not> ok r)"
proof -
  from balance_cache_spec [OF assms(1)] obtain mt1 q t rs where b: "balance_cache mt = (mt1, q)" "metered_ok mt1"
    "ses_log (mt_session mt1) = ses_log (mt_session mt)"
    and t: "window_fold 0 (ses_log (mt_session mt)) (ses_log (mt_session mt)) = Inr (t, int (length (ses_log (mt_session mt))), rs)"
    and spec: "case q of Inr c \<Rightarrow> represents (ses_log (mt_session mt)) (fs_nodes t) c
      | Inl _ \<Rightarrow> \<not> paired (ses_log (mt_session mt)) (fs_nodes t)"
    by blast
  note nodes = surface_nodes_fold [OF t]
  show ?thesis
  proof (cases q)
    case (Inl err)
    with b spec nodes assms(3) show ?thesis by (auto simp: balanced_at_def)
  next
    case (Inr c)
    then have rep: "represents (ses_log (mt_session mt)) (surface_nodes (ses_log (mt_session mt))) c"
      using spec nodes by simp
    with Inr b assms(3) cut_balance_spec [OF rep assms(2), of seq] show ?thesis
      by (auto simp: balanced_at_def represents_def)
  qed
qed

text \<open>Replacing a balanced span by a node without calls keeps the surface paired.\<close>

lemma open_calls_take_append:
  "open_calls evs (take k (xs @ ys)) = (if k \<le> length xs then open_calls evs (take k xs)
     else open_calls evs xs + open_calls evs (take (k - length xs) ys))"
  by simp

lemma paired_replace:
  assumes p: "paired evs (xs @ mid @ ys)" and before: "open_calls evs xs = 0" and after: "open_calls evs (xs @ mid) = 0"
    and q: "node_delta evs q = 0"
  shows "paired evs (xs @ q # ys) \<and> open_calls evs (xs @ q # ys) = open_calls evs (xs @ mid @ ys)"
proof -
  have mid: "open_calls evs mid = 0" using before after by simp
  have one: "open_calls evs [q] = 0" using q by (simp add: open_calls_def)
  have cons: "open_calls evs (q # zs) = open_calls evs zs" for zs using q by (simp add: open_calls_def)
  have "0 \<le> open_calls evs (take k (xs @ q # ys))" if "k \<le> length (xs @ q # ys)" for k
  proof (cases "k \<le> length xs")
    case True
    then show ?thesis using paired_append_left [OF p] by (simp add: paired_iff)
  next
    case False
    define j where "j = k - length xs - 1"
    have "take (length (xs @ mid) + j) (xs @ mid @ ys) = xs @ mid @ take j ys" by simp
    moreover have "length (xs @ mid) + j \<le> length (xs @ mid @ ys)" using that False by (simp add: j_def)
    ultimately have "0 \<le> open_calls evs (xs @ mid @ take j ys)" using p unfolding paired_iff by metis
    then have "0 \<le> open_calls evs (take j ys)" using before mid by simp
    moreover have "take k (xs @ q # ys) = xs @ q # take j ys" using False by (simp add: j_def take_Cons')
    ultimately show ?thesis using before cons by simp
  qed
  then show ?thesis using before mid cons by (simp add: paired_iff)
qed

section \<open>The balance module's answers\<close>

text \<open>A session in use together with the module's cache entry for it.\<close>

inductive metered_reach :: "'p metered \<Rightarrow> bool" where
  metered_new: "session_reach s \<Longrightarrow> metered_reach \<lparr>mt_session = s, mt_balance = None\<rparr>"
| metered_append: "metered_reach mt \<Longrightarrow> session_append now d intent (mt_session mt) = (s, r) \<Longrightarrow>
    metered_reach (mt\<lparr>mt_session := s\<rparr>)"
| metered_header: "metered_reach mt \<Longrightarrow> metered_reach (mt\<lparr>mt_session := fst (request_header (mt_session mt))\<rparr>)"
| metered_context: "metered_reach mt \<Longrightarrow> metered_reach (mt\<lparr>mt_session := fst (request_context_of (mt_session mt))\<rparr>)"
| metered_derive: "metered_reach mt \<Longrightarrow> derive_messages (mt_session mt) = (s, r) \<Longrightarrow> metered_reach (mt\<lparr>mt_session := s\<rparr>)"
| metered_before: "metered_reach mt \<Longrightarrow> metered_reach (fst (balanced_before mt seq))"
| metered_after: "metered_reach mt \<Longrightarrow> metered_reach (fst (balanced_after mt seq))"

lemma metered_ok_session:
  assumes "metered_ok mt" and "session_ok s" and "ses_log s = ses_log (mt_session mt) @ later"
  shows "metered_ok (mt\<lparr>mt_session := s\<rparr>)"
  using assms balance_ok_grow by (auto simp: metered_ok_def)

lemma metered_ok_append:
  assumes "metered_ok mt" and "session_append now d intent (mt_session mt) = (s, r)"
  shows "metered_ok (mt\<lparr>mt_session := s\<rparr>)"
proof -
  have "session_ok s" using assms session_append_ok by (auto simp: metered_ok_def)
  moreover obtain later where "ses_log s = ses_log (mt_session mt) @ later"
    using session_append_frame(2) [OF assms(2)] by auto
  ultimately show ?thesis using metered_ok_session [OF assms(1)] by blast
qed

lemma derive_messages_log: "derive_messages s = (s', r) \<Longrightarrow> ses_log s' = ses_log s"
  by (auto simp: derive_messages_def Let_def split: prod.splits sum.splits)

lemma metered_ok_at: "metered_ok mt \<Longrightarrow> offset \<le> 1 \<Longrightarrow> metered_ok (fst (balanced_at offset mt seq))"
  using balanced_at_spec [of mt offset seq "fst (balanced_at offset mt seq)" "snd (balanced_at offset mt seq)"] by simp

lemma metered_reach_ok: "metered_reach mt \<Longrightarrow> metered_ok mt"
proof (induction rule: metered_reach.induct)
  case (metered_new s)
  then show ?case by (simp add: metered_ok_def session_reach_ok)
next
  case (metered_append mt now d intent s r)
  then show ?case using metered_ok_append by blast
next
  case (metered_header mt)
  have "session_ok (fst (request_header (mt_session mt)))"
    using metered_header.IH by (simp add: metered_ok_def request_header_ok)
  then show ?case
    by (rule metered_ok_session [OF metered_header.IH, of _ "[]"]) (simp add: request_header_def Let_def)
next
  case (metered_context mt)
  have "session_ok (fst (request_context_of (mt_session mt)))"
    using metered_context.IH by (simp add: metered_ok_def request_context_ok)
  then show ?case
    by (rule metered_ok_session [OF metered_context.IH, of _ "[]"]) (simp add: request_context_of_def Let_def)
next
  case (metered_derive mt s r)
  have "session_ok s" using metered_derive.IH derive_messages_ok [OF _ metered_derive.hyps(2)] by (simp add: metered_ok_def)
  then show ?case
    by (rule metered_ok_session [OF metered_derive.IH, of _ "[]"]) (simp add: derive_messages_log [OF metered_derive.hyps(2)])
qed (simp_all add: balanced_before_def balanced_after_def metered_ok_at)

text \<open>
  C28: However many events, rewrites and questions lie between two calls, the cached answers of the balance
  module are those of a fresh count over the current surface: a cut is balanced exactly when every tool call
  before it has its result, a sequence that is not on the surface is an error, and every question is an error
  exactly when some result precedes its call.
\<close>

theorem cached_balance_counts_open_calls:
  assumes "metered_reach mt"
  shows "let evs = ses_log (mt_session mt) in
    (if paired evs (surface_nodes evs)
     then snd (balanced_before mt seq) = cut_open evs seq 0 \<and> snd (balanced_after mt seq) = cut_open evs seq 1
     else \<not> ok (snd (balanced_before mt seq)) \<and> \<not> ok (snd (balanced_after mt seq)))"
proof -
  have m: "metered_ok mt" using assms by (rule metered_reach_ok)
  have at: "if paired (ses_log (mt_session mt)) (surface_nodes (ses_log (mt_session mt)))
      then snd (balanced_at offset mt seq) = cut_open (ses_log (mt_session mt)) seq offset
      else \<not> ok (snd (balanced_at offset mt seq))" if "offset \<le> 1" for offset
    using balanced_at_spec [OF m that, of seq "fst (balanced_at offset mt seq)" "snd (balanced_at offset mt seq)"] by simp
  show ?thesis using at [of 0] at [of 1] by (simp add: balanced_before_def balanced_after_def Let_def split: if_splits)
qed

theorem cached_balance_counts_open_calls_witness:
  "snd (balanced_before \<lparr>mt_session = sample_session, mt_balance = None\<rparr> 2) = Inr True \<and>
   snd (balanced_after \<lparr>mt_session = sample_session, mt_balance = None\<rparr> 1) = Inl (SeqNotOnSurface 1)"
proof -
  let ?mt = "\<lparr>mt_session = sample_session, mt_balance = None\<rparr>" and ?evs = "sample_surface_log @ [log_event 3 9 EndSeed]"
  have r: "metered_reach ?mt"
    by (rule metered_new) (rule sample_session_reach(1))
  have "paired ?evs (surface_nodes ?evs)" and "cut_open ?evs 2 0 = Inr True" and "cut_open ?evs 1 1 = Inl (SeqNotOnSurface 1)"
    by code_simp+
  with cached_balance_counts_open_calls [OF r, of 2] cached_balance_counts_open_calls [OF r, of 1] sample_session_reach(2)
  show ?thesis by (simp add: Let_def)
qed

end
