(* ===== verification/Compaction_Log.thy ===== *)
theory Compaction_Log
  imports Surface
begin

text \<open>
  The compaction events of a session log and the invariant over them
  (\<open>packages/compaction/compaction/src/types.ts\<close>, \<open>checkpoint.ts\<close>, \<open>invariant.ts\<close>): brackets of start,
  at most one summary and end, each owned by the open turn or by none, that no turn boundary crosses.
  The plugin payload of the session's events is the compaction vocabulary.
\<close>

section \<open>Vocabulary\<close>

type_synonym compaction_id = string
type_synonym command_id = string

record compaction_lifecycle =
  cl_id :: compaction_id
  cl_command :: "command_id option"
  cl_turn :: "int option"

record compaction_summary =
  cs_id :: compaction_id
  cs_command :: "command_id option"
  cs_summary :: "content_block list"
  cs_range :: "int \<times> int"
  cs_shadowed :: "int list"
  cs_tokens :: rat
  cs_provider :: string
  cs_model :: string
  cs_max_tokens :: "int option"
  cs_usage :: "token_usage option"
  cs_raw_output :: "content_block list option"
  cs_stream_call :: bool

datatype compaction_event =
    CompactionStart compaction_lifecycle
  | CompactionSummary compaction_summary
  | CompactionEnd compaction_lifecycle "string option"
  | CompactionPrune "int \<times> int" "int list" rat

definition compact_checkpoint_source :: "compaction_id \<Rightarrow> command_id option \<Rightarrow> message_source" where
  "compact_checkpoint_source i cmd = PluginSource ''compact''
     ((''compactionId'', JStr i) # (case cmd of None \<Rightarrow> [] | Some c \<Rightarrow> [(''sourceCommandId'', JStr c)]))"

fun is_compact_checkpoint_source :: "message_source \<Rightarrow> bool" where
  "is_compact_checkpoint_source (PluginSource plugin _) = (plugin = ''compact'')"
| "is_compact_checkpoint_source _ = False"

section \<open>The trace\<close>

record compaction_trace =
  ct_id :: compaction_id
  ct_command :: "command_id option"
  ct_start_seq :: int
  ct_turn :: "int option"
  ct_summarized :: bool

record bracket_trace =
  bt_turn :: "int option"
  bt_open :: "compaction_trace option"

datatype bracket_error =
    EmptyCompactionId
  | EmptyCommandId
  | CommandMismatch
  | CheckpointId
  | NoOpenCompaction
  | IdMismatch
  | StillCompacting
  | StandaloneInsideTurn
  | OutsideAnyTurn
  | WrongTurn
  | OwnerMismatch
  | SummaryRepeated
  | EmptyShadow
  | RangeMismatch
  | BadShadowCount
  | NotSummarized
  | TurnBoundaryInside

datatype bracket_transition = OpenBracket compaction_trace | MarkSummarized compaction_trace | CloseBracket | SeedBoundary

definition fresh_bracket :: bracket_trace where
  "fresh_bracket = \<lparr>bt_turn = None, bt_open = None\<rparr>"

definition validate_ids :: "compaction_id \<Rightarrow> command_id option \<Rightarrow> bracket_error + unit" where
  "validate_ids i cmd = rbind (require (i \<noteq> []) EmptyCompactionId) (\<lambda>_. require (cmd \<noteq> Some []) EmptyCommandId)"

definition validate_command :: "command_id option \<Rightarrow> command_id option \<Rightarrow> bracket_error + unit" where
  "validate_command cmd expected =
     rbind (require (cmd \<noteq> Some []) EmptyCommandId) (\<lambda>_. require (cmd = expected) CommandMismatch)"

definition source_field :: "message_source \<Rightarrow> string \<Rightarrow> json option" where
  "source_field src k = (case src of PluginSource _ attrs \<Rightarrow> map_of attrs k | _ \<Rightarrow> None)"

text \<open>An identity is a non-empty string.\<close>

definition id_value :: "json option \<Rightarrow> bracket_error \<Rightarrow> bracket_error + string" where
  "id_value v err = (case v of Some (JStr s) \<Rightarrow> if s = [] then Inl err else Inr s | _ \<Rightarrow> Inl err)"

definition validate_checkpoint :: "bracket_trace \<Rightarrow> message_source \<Rightarrow> bracket_error + unit" where
  "validate_checkpoint t src =
     rbind (id_value (source_field src ''compactionId'') EmptyCompactionId) (\<lambda>i.
     rbind (case source_field src ''sourceCommandId'' of
         None \<Rightarrow> Inr None
       | Some v \<Rightarrow> rbind (id_value (Some v) EmptyCommandId) (\<lambda>c. Inr (Some c))) (\<lambda>cmd.
     case bt_open t of
       None \<Rightarrow> Inl NoOpenCompaction
     | Some ct \<Rightarrow> if i \<noteq> ct_id ct then Inl IdMismatch else validate_command cmd (ct_command ct)))"

definition validate_owner :: "int option \<Rightarrow> int option \<Rightarrow> bracket_error + unit" where
  "validate_owner owner open_turn = (case owner of
      None \<Rightarrow> if open_turn \<noteq> None then Inl StandaloneInsideTurn else Inr ()
    | Some n \<Rightarrow> (case open_turn of None \<Rightarrow> Inl OutsideAnyTurn | Some m \<Rightarrow> if n \<noteq> m then Inl WrongTurn else Inr ()))"

definition is_turn_event :: "'p event \<Rightarrow> bool" where
  "is_turn_event e = (case ev_data e of TurnStart _ \<Rightarrow> True | TurnEnd _ _ \<Rightarrow> True | _ \<Rightarrow> False)"

definition validate_turn_boundary :: "bracket_trace \<Rightarrow> 'p event \<Rightarrow> bracket_error + unit" where
  "validate_turn_boundary t e = (if \<not> is_turn_event e \<or> bt_open t = None then Inr () else Inl TurnBoundaryInside)"

definition apply_turn_boundary :: "bracket_trace \<Rightarrow> 'p event \<Rightarrow> bracket_trace" where
  "apply_turn_boundary t e = (case ev_data e of
      TurnStart n \<Rightarrow> t\<lparr>bt_turn := Some n\<rparr>
    | TurnEnd _ _ \<Rightarrow> t\<lparr>bt_turn := None\<rparr>
    | _ \<Rightarrow> t)"

definition validate_start :: "bracket_trace \<Rightarrow> int \<Rightarrow> compaction_lifecycle \<Rightarrow> bracket_error + bracket_transition" where
  "validate_start t seq c =
     rbind (validate_ids (cl_id c) (cl_command c)) (\<lambda>_.
     rbind (require (bt_open t = None) StillCompacting) (\<lambda>_.
     rbind (validate_owner (cl_turn c) (bt_turn t)) (\<lambda>_.
       Inr (OpenBracket \<lparr>ct_id = cl_id c, ct_command = cl_command c, ct_start_seq = seq, ct_turn = cl_turn c,
         ct_summarized = False\<rparr>))))"

definition validate_summary :: "bracket_trace \<Rightarrow> compaction_summary \<Rightarrow> bracket_error + bracket_transition" where
  "validate_summary t s =
     rbind (validate_ids (cs_id s) (cs_command s)) (\<lambda>_.
     case bt_open t of
       None \<Rightarrow> Inl NoOpenCompaction
     | Some ct \<Rightarrow>
         if cs_id s \<noteq> ct_id ct then Inl IdMismatch
         else
           rbind (validate_command (cs_command s) (ct_command ct)) (\<lambda>_.
           rbind (validate_owner (ct_turn ct) (bt_turn t)) (\<lambda>_.
           rbind (require (\<not> ct_summarized ct) SummaryRepeated) (\<lambda>_.
           rbind (require (cs_shadowed s \<noteq> []) EmptyShadow) (\<lambda>_.
           rbind (require (hd (cs_shadowed s) = fst (cs_range s) \<and> last (cs_shadowed s) = snd (cs_range s)) RangeMismatch) (\<lambda>_.
           rbind (require (safe_integer (cs_tokens s) \<and> \<not> cs_tokens s < 0) BadShadowCount) (\<lambda>_.
             Inr (MarkSummarized ct))))))))"

definition validate_end :: "bracket_trace \<Rightarrow> compaction_lifecycle \<Rightarrow> string option \<Rightarrow> bracket_error + bracket_transition" where
  "validate_end t c err =
     rbind (validate_ids (cl_id c) (cl_command c)) (\<lambda>_.
     case bt_open t of
       None \<Rightarrow> Inl NoOpenCompaction
     | Some ct \<Rightarrow>
         if cl_id c \<noteq> ct_id ct then Inl IdMismatch
         else
           rbind (validate_command (cl_command c) (ct_command ct)) (\<lambda>_.
           if cl_turn c \<noteq> ct_turn ct then Inl OwnerMismatch
           else
             rbind (validate_owner (ct_turn ct) (bt_turn t)) (\<lambda>_.
             if err = None \<and> \<not> ct_summarized ct then Inl NotSummarized else Inr CloseBracket)))"

definition validate_compaction_event :: "bracket_trace \<Rightarrow> compaction_event event \<Rightarrow> bracket_error + bracket_transition option" where
  "validate_compaction_event t e = (case ev_data e of
      EndSeed \<Rightarrow> Inr (Some SeedBoundary)
    | UserMessage m \<Rightarrow>
        if is_replacement_surface_event e \<and> is_compact_checkpoint_source (msg_source m)
        then rbind (validate_checkpoint t (msg_source m)) (\<lambda>_. Inr None) else Inr None
    | PluginEvent (CompactionStart c) \<Rightarrow> rbind (validate_start t (ev_seq e) c) (\<lambda>tr. Inr (Some tr))
    | PluginEvent (CompactionSummary s) \<Rightarrow> rbind (validate_summary t s) (\<lambda>tr. Inr (Some tr))
    | PluginEvent (CompactionEnd c err) \<Rightarrow> rbind (validate_end t c err) (\<lambda>tr. Inr (Some tr))
    | _ \<Rightarrow> Inr None)"

fun apply_compaction_transition :: "bracket_transition \<Rightarrow> compaction_trace option" where
  "apply_compaction_transition (OpenBracket ct) = Some (ct\<lparr>ct_summarized := False\<rparr>)"
| "apply_compaction_transition (MarkSummarized ct) = Some (ct\<lparr>ct_summarized := True\<rparr>)"
| "apply_compaction_transition CloseBracket = None"
| "apply_compaction_transition SeedBoundary = None"

definition commit_event :: "bracket_trace \<Rightarrow> compaction_event event \<Rightarrow> bracket_transition option \<Rightarrow> bracket_trace" where
  "commit_event t e tr = apply_turn_boundary (case tr of None \<Rightarrow> t | Some x \<Rightarrow> t\<lparr>bt_open := apply_compaction_transition x\<rparr>) e"

text \<open>One published event: validated before the commit, applied after it.\<close>

definition live_step :: "bracket_trace \<Rightarrow> compaction_event event \<Rightarrow> bracket_error + bracket_trace" where
  "live_step t e =
     rbind (validate_turn_boundary t e) (\<lambda>_.
     rbind (validate_compaction_event t e) (\<lambda>tr. Inr (commit_event t e tr)))"

section \<open>Seeding from a log\<close>

text \<open>The loop of \<open>inheritedOrphanStartSeqs\<close>.\<close>

fun orphan_step :: "int set \<times> int option \<Rightarrow> compaction_event event \<Rightarrow> int set \<times> int option" where
  "orphan_step (stale, opened) e = (case ev_data e of
      PluginEvent (CompactionStart _) \<Rightarrow> (stale, Some (ev_seq e))
    | PluginEvent (CompactionEnd _ _) \<Rightarrow> (stale, None)
    | EndSeed \<Rightarrow> (case opened of Some q \<Rightarrow> insert q stale | None \<Rightarrow> stale, None)
    | _ \<Rightarrow> (stale, opened))"

definition inherited_orphan_start_seqs :: "compaction_event event list \<Rightarrow> int set" where
  "inherited_orphan_start_seqs evs = fst (foldl orphan_step ({}, None) evs)"

definition seed_step :: "int set \<Rightarrow> bracket_trace \<Rightarrow> compaction_event event \<Rightarrow> bracket_error + bracket_trace" where
  "seed_step stale t e =
     rbind (if (case bt_open t of None \<Rightarrow> True | Some ct \<Rightarrow> ct_start_seq ct \<notin> stale) then validate_turn_boundary t e else Inr ()) (\<lambda>_.
     rbind (validate_compaction_event t e) (\<lambda>tr. Inr (commit_event t e tr)))"

definition seed_brackets :: "compaction_event event list \<Rightarrow> bracket_error + bracket_trace" where
  "seed_brackets evs = replay (seed_step (inherited_orphan_start_seqs evs)) fresh_bracket evs"

section \<open>What an accepted log looks like\<close>

definition starts_bracket :: "compaction_event event \<Rightarrow> compaction_lifecycle option" where
  "starts_bracket e = (case ev_data e of PluginEvent (CompactionStart c) \<Rightarrow> Some c | _ \<Rightarrow> None)"

definition summarizes :: "compaction_event event \<Rightarrow> compaction_summary option" where
  "summarizes e = (case ev_data e of PluginEvent (CompactionSummary s) \<Rightarrow> Some s | _ \<Rightarrow> None)"

definition ends_bracket :: "compaction_event event \<Rightarrow> bool" where
  "ends_bracket e = (case ev_data e of PluginEvent (CompactionEnd _ _) \<Rightarrow> True | EndSeed \<Rightarrow> True | _ \<Rightarrow> False)"

text \<open>Events inside a bracket: no second start, no end, no turn boundary; summaries carry its identity.\<close>

definition inside_bracket :: "compaction_lifecycle \<Rightarrow> compaction_event event \<Rightarrow> bool" where
  "inside_bracket c e \<longleftrightarrow> starts_bracket e = None \<and> \<not> ends_bracket e \<and> \<not> is_turn_event e \<and>
     (case summarizes e of None \<Rightarrow> True | Some s \<Rightarrow> cs_id s = cl_id c \<and> cs_command s = cl_command c \<and> cs_shadowed s \<noteq> [])"

definition open_bracket :: "compaction_event event list \<Rightarrow> compaction_trace \<Rightarrow> bool" where
  "open_bracket evs ct \<longleftrightarrow> (\<exists>pre s mid c. evs = pre @ s # mid \<and> starts_bracket s = Some c \<and> ev_seq s = ct_start_seq ct \<and>
     cl_id c = ct_id ct \<and> cl_command c = ct_command ct \<and> cl_turn c = ct_turn ct \<and>
     list_all (inside_bracket c) mid \<and> length (List.map_filter summarizes mid) = (if ct_summarized ct then 1 else 0))"

definition bracket_history :: "compaction_event event list \<Rightarrow> bracket_trace \<Rightarrow> bool" where
  "bracket_history evs t \<longleftrightarrow> (case bt_open t of None \<Rightarrow> True | Some ct \<Rightarrow> open_bracket evs ct \<and> ct_turn ct = bt_turn t)"

section \<open>The live invariant describes the log\<close>

lemma open_bracket_begin:
  "starts_bracket e = Some c \<Longrightarrow> open_bracket (evs @ [e])
     \<lparr>ct_id = cl_id c, ct_command = cl_command c, ct_start_seq = ev_seq e, ct_turn = cl_turn c, ct_summarized = False\<rparr>"
  unfolding open_bracket_def by (intro exI [of _ evs] exI [of _ e] exI [of _ "[]"] exI [of _ c]) (simp add: map_filter_simps)

lemma open_bracket_extend:
  assumes "open_bracket evs ct" and "starts_bracket e = None" and "\<not> ends_bracket e" and "\<not> is_turn_event e"
    and "summarizes e = None"
  shows "open_bracket (evs @ [e]) ct"
proof -
  from assms(1) obtain pre s mid c where o: "evs = pre @ s # mid" "starts_bracket s = Some c" "ev_seq s = ct_start_seq ct"
    "cl_id c = ct_id ct" "cl_command c = ct_command ct" "cl_turn c = ct_turn ct" "list_all (inside_bracket c) mid"
    "length (List.map_filter summarizes mid) = (if ct_summarized ct then 1 else 0)"
    by (auto simp: open_bracket_def)
  have "inside_bracket c e" using assms by (simp add: inside_bracket_def)
  with o assms(5) show ?thesis unfolding open_bracket_def
    by (intro exI [of _ pre] exI [of _ s] exI [of _ "mid @ [e]"] exI [of _ c]) (simp add: map_filter_snoc)
qed

lemma open_bracket_summarize:
  assumes "open_bracket evs ct" and sum: "summarizes e = Some x" and "\<not> ct_summarized ct" and "cs_id x = ct_id ct"
    and "cs_command x = ct_command ct" and "cs_shadowed x \<noteq> []"
  shows "open_bracket (evs @ [e]) (ct\<lparr>ct_summarized := True\<rparr>)"
proof -
  from assms(1) obtain pre s mid c where o: "evs = pre @ s # mid" "starts_bracket s = Some c" "ev_seq s = ct_start_seq ct"
    "cl_id c = ct_id ct" "cl_command c = ct_command ct" "cl_turn c = ct_turn ct" "list_all (inside_bracket c) mid"
    "length (List.map_filter summarizes mid) = (if ct_summarized ct then 1 else 0)"
    by (auto simp: open_bracket_def)
  have "inside_bracket c e" using assms(4-) o sum
    by (auto simp: inside_bracket_def summarizes_def starts_bracket_def ends_bracket_def is_turn_event_def
        split: event_data.splits compaction_event.splits)
  with o assms(3) sum show ?thesis unfolding open_bracket_def
    by (intro exI [of _ pre] exI [of _ s] exI [of _ "mid @ [e]"] exI [of _ c]) (simp add: map_filter_snoc)
qed

lemmas bracket_readers = starts_bracket_def summarizes_def ends_bracket_def is_turn_event_def

lemma validate_owner_ok [simp]: "validate_owner o1 o2 = Inr () \<longleftrightarrow> o1 = o2"
  by (auto simp: validate_owner_def split: option.splits)

lemma validate_command_ok: "validate_command c d = Inr () \<longleftrightarrow> c = d \<and> c \<noteq> Some []"
  by (auto simp: validate_command_def require_def rbind_Inr_iff)

lemma require_ok [simp]: "require b err = Inr () \<longleftrightarrow> b"
  by (simp add: require_def)

lemma validate_start_ok: "validate_start t q c = Inr tr \<longleftrightarrow> cl_id c \<noteq> [] \<and> cl_command c \<noteq> Some [] \<and> bt_open t = None \<and>
    cl_turn c = bt_turn t \<and> tr = OpenBracket \<lparr>ct_id = cl_id c, ct_command = cl_command c, ct_start_seq = q,
      ct_turn = cl_turn c, ct_summarized = False\<rparr>"
  by (auto simp: validate_start_def validate_ids_def rbind_Inr_iff)

lemma validate_summary_ok: "validate_summary t x = Inr tr \<longleftrightarrow> (\<exists>ct. bt_open t = Some ct \<and> cs_id x \<noteq> [] \<and> cs_command x \<noteq> Some [] \<and>
    cs_id x = ct_id ct \<and> cs_command x = ct_command ct \<and> ct_turn ct = bt_turn t \<and> \<not> ct_summarized ct \<and> cs_shadowed x \<noteq> [] \<and>
    hd (cs_shadowed x) = fst (cs_range x) \<and> last (cs_shadowed x) = snd (cs_range x) \<and> safe_integer (cs_tokens x) \<and>
    0 \<le> cs_tokens x \<and> tr = MarkSummarized ct)"
  by (cases "bt_open t") (auto simp: validate_summary_def validate_ids_def validate_command_ok rbind_Inr_iff)

lemma validate_end_ok: "validate_end t c err = Inr tr \<longleftrightarrow> (\<exists>ct. bt_open t = Some ct \<and> cl_id c \<noteq> [] \<and> cl_command c \<noteq> Some [] \<and>
    cl_id c = ct_id ct \<and> cl_command c = ct_command ct \<and> cl_turn c = ct_turn ct \<and> ct_turn ct = bt_turn t \<and>
    (err = None \<longrightarrow> ct_summarized ct) \<and> tr = CloseBracket)"
  by (cases "bt_open t") (auto simp: validate_end_def validate_ids_def validate_command_ok rbind_Inr_iff)

lemma validate_turn_boundary_ok: "validate_turn_boundary t e = Inr () \<longleftrightarrow> is_turn_event e \<longrightarrow> bt_open t = None"
  by (auto simp: validate_turn_boundary_def)

lemma turn_unchanged: "\<not> is_turn_event e \<Longrightarrow> apply_turn_boundary t e = t"
  by (auto simp: apply_turn_boundary_def is_turn_event_def split: event_data.splits)

lemma open_after [simp]: "bt_open (apply_turn_boundary t e) = bt_open t"
  by (auto simp: apply_turn_boundary_def split: event_data.splits)

lemma compaction_event_cases:
  assumes "validate_compaction_event t e = Inr tr"
  obtains (seed) "ev_data e = EndSeed" and "tr = Some SeedBoundary"
  | (start) c where "ev_data e = PluginEvent (CompactionStart c)" and "cl_id c \<noteq> []" and "cl_command c \<noteq> Some []"
      and "bt_open t = None" and "cl_turn c = bt_turn t"
      and "tr = Some (OpenBracket \<lparr>ct_id = cl_id c, ct_command = cl_command c, ct_start_seq = ev_seq e, ct_turn = cl_turn c,
        ct_summarized = False\<rparr>)"
  | (summary) x ct where "ev_data e = PluginEvent (CompactionSummary x)" and "bt_open t = Some ct" and "cs_id x = ct_id ct"
      and "cs_command x = ct_command ct" and "ct_turn ct = bt_turn t" and "\<not> ct_summarized ct" and "cs_shadowed x \<noteq> []"
      and "tr = Some (MarkSummarized ct)"
  | (close) c err ct where "ev_data e = PluginEvent (CompactionEnd c err)" and "bt_open t = Some ct" and "cl_id c = ct_id ct"
      and "cl_command c = ct_command ct" and "cl_turn c = ct_turn ct" and "ct_turn ct = bt_turn t"
      and "err = None \<longrightarrow> ct_summarized ct" and "tr = Some CloseBracket"
  | (other) "starts_bracket e = None" and "summarizes e = None" and "\<not> ends_bracket e" and "tr = None"
proof (cases "ev_data e")
  case (PluginEvent p)
  then show thesis
  proof (cases p)
    case (CompactionStart c)
    with PluginEvent assms show thesis
      by (intro start) (auto simp: validate_compaction_event_def rbind_Inr_iff validate_start_ok)
  next
    case (CompactionSummary x)
    with PluginEvent assms obtain ct where "bt_open t = Some ct" "cs_id x = ct_id ct" "cs_command x = ct_command ct"
      "ct_turn ct = bt_turn t" "\<not> ct_summarized ct" "cs_shadowed x \<noteq> []" "tr = Some (MarkSummarized ct)"
      by (auto simp: validate_compaction_event_def rbind_Inr_iff validate_summary_ok)
    with PluginEvent CompactionSummary show thesis by (intro summary) auto
  next
    case (CompactionEnd c err)
    with PluginEvent assms obtain ct where "bt_open t = Some ct" "cl_id c = ct_id ct" "cl_command c = ct_command ct"
      "cl_turn c = ct_turn ct" "ct_turn ct = bt_turn t" "err = None \<longrightarrow> ct_summarized ct" "tr = Some CloseBracket"
      by (auto simp: validate_compaction_event_def rbind_Inr_iff validate_end_ok)
    with PluginEvent CompactionEnd show thesis by (intro close) auto
  next
    case CompactionPrune
    with PluginEvent assms show thesis by (intro other) (auto simp: validate_compaction_event_def bracket_readers)
  qed
next
  case (UserMessage m)
  with assms show thesis
    by (intro other) (auto simp: validate_compaction_event_def bracket_readers rbind_Inr_iff split: if_splits)
qed (use assms in \<open>auto intro: seed other simp: validate_compaction_event_def bracket_readers\<close>)

lemma live_step_Inr: "live_step t e = Inr t' \<longleftrightarrow> (is_turn_event e \<longrightarrow> bt_open t = None) \<and>
    (\<exists>tr. validate_compaction_event t e = Inr tr \<and> t' = commit_event t e tr)"
  by (auto simp: live_step_def rbind_Inr_iff validate_turn_boundary_ok)

lemma bracket_history_step:
  assumes h: "bracket_history evs t" and s: "live_step t e = Inr t'"
  shows "bracket_history (evs @ [e]) t'"
proof -
  from s obtain tr where v: "validate_compaction_event t e = Inr tr" and t': "t' = commit_event t e tr"
    and turn: "is_turn_event e \<longrightarrow> bt_open t = None"
    by (auto simp: live_step_Inr)
  from v show ?thesis
  proof (cases rule: compaction_event_cases)
    case seed
    with t' show ?thesis by (simp add: bracket_history_def commit_event_def)
  next
    case (start c)
    then have "\<not> is_turn_event e" by (simp add: is_turn_event_def)
    with start t' open_bracket_begin [of e c evs] show ?thesis
      by (simp add: bracket_history_def commit_event_def turn_unchanged starts_bracket_def)
  next
    case (summary x ct)
    then have "\<not> is_turn_event e" by (simp add: is_turn_event_def)
    moreover have "open_bracket (evs @ [e]) (ct\<lparr>ct_summarized := True\<rparr>)"
      by (rule open_bracket_summarize) (use h summary in \<open>simp_all add: bracket_history_def summarizes_def\<close>)
    ultimately show ?thesis using summary t' by (simp add: bracket_history_def commit_event_def turn_unchanged)
  next
    case close
    with t' show ?thesis by (simp add: bracket_history_def commit_event_def)
  next
    case other
    show ?thesis
    proof (cases "bt_open t")
      case None
      with other t' show ?thesis by (simp add: bracket_history_def commit_event_def)
    next
      case (Some ct)
      with turn have "\<not> is_turn_event e" by simp
      with Some h other t' show ?thesis
        by (simp add: bracket_history_def commit_event_def turn_unchanged open_bracket_extend)
    qed
  qed
qed

interpretation bracket: replayed live_step fresh_bracket bracket_history
  by unfold_locales (simp add: bracket_history_def fresh_bracket_def, rule bracket_history_step)

section \<open>Reopening a log\<close>

text \<open>Events that a restart appends behind a crash: repairs of the open turn, nothing of a compaction.\<close>

definition plain_event :: "compaction_event event \<Rightarrow> bool" where
  "plain_event e \<longleftrightarrow> starts_bracket e = None \<and> summarizes e = None \<and> \<not> ends_bracket e \<and>
     (case ev_data e of UserMessage m \<Rightarrow> \<not> (is_replacement_surface_event e \<and> is_compact_checkpoint_source (msg_source m)) | _ \<Rightarrow> True)"

text \<open>
  A durable log over any number of lives: events that the live invariant accepted, and restarts, which
  repair the open turn and mark the boundary even when a bracket is still open.
\<close>

inductive durable :: "compaction_event event list \<Rightarrow> bracket_trace \<Rightarrow> bool" where
  durable_empty: "durable [] fresh_bracket"
| durable_live: "durable evs t \<Longrightarrow> live_step t e = Inr t' \<Longrightarrow> durable (evs @ [e]) t'"
| durable_restart: "durable evs t \<Longrightarrow> list_all plain_event tail \<Longrightarrow> ev_data b = EndSeed \<Longrightarrow>
    durable (evs @ tail @ [b]) \<lparr>bt_turn = bt_turn (foldl apply_turn_boundary t tail), bt_open = None\<rparr>"

lemma plain_valid: "plain_event e \<Longrightarrow> validate_compaction_event t e = Inr None"
  by (auto simp: plain_event_def validate_compaction_event_def bracket_readers split: event_data.splits compaction_event.splits)

lemma plain_orphan: "plain_event e \<Longrightarrow> orphan_step p e = p"
  by (cases p) (auto simp: plain_event_def bracket_readers split: event_data.splits compaction_event.splits)

lemma plain_orphans: "list_all plain_event tail \<Longrightarrow> foldl orphan_step p tail = p"
  by (induction tail) (simp_all add: plain_orphan)

lemma live_seed: "live_step t e = Inr t' \<Longrightarrow> seed_step stale t e = Inr t'"
  by (auto simp: live_step_def seed_step_def rbind_Inr_iff)

lemma plain_seed:
  "list_all plain_event tail \<Longrightarrow> \<forall>ct. bt_open t = Some ct \<longrightarrow> ct_start_seq ct \<in> stale \<Longrightarrow>
     replay (seed_step stale) t tail = Inr (foldl apply_turn_boundary t tail)"
proof (induction tail arbitrary: t)
  case (Cons e tail)
  then have "seed_step stale t e = Inr (apply_turn_boundary t e)"
    by (cases "bt_open t") (auto simp: seed_step_def plain_valid commit_event_def validate_turn_boundary_def)
  with Cons show ?case by simp
qed simp

lemma open_foldl [simp]: "bt_open (foldl apply_turn_boundary t tail) = bt_open t"
  by (induction tail arbitrary: t) simp_all

lemma live_orphan:
  assumes "live_step t e = Inr t'"
  shows "orphan_step (stale, map_option ct_start_seq (bt_open t)) e =
    (if ev_data e = EndSeed then (case bt_open t of Some ct \<Rightarrow> insert (ct_start_seq ct) stale | None \<Rightarrow> stale) else stale,
     map_option ct_start_seq (bt_open t'))"
proof -
  from assms obtain tr where v: "validate_compaction_event t e = Inr tr" and t': "t' = commit_event t e tr"
    by (auto simp: live_step_Inr)
  from v show ?thesis
    by (cases rule: compaction_event_cases)
      (use t' in \<open>auto simp: commit_event_def bracket_readers split: event_data.splits compaction_event.splits option.splits\<close>)
qed

lemma durable_replays:
  assumes "durable evs t"
  shows "snd (foldl orphan_step ({}, None) evs) = map_option ct_start_seq (bt_open t) \<and>
    (\<forall>stale. inherited_orphan_start_seqs evs \<subseteq> stale \<longrightarrow> replay (seed_step stale) fresh_bracket evs = Inr t)"
  using assms
proof induction
  case durable_empty
  then show ?case by (simp add: fresh_bracket_def)
next
  case (durable_live evs t e t')
  obtain st where f: "foldl orphan_step ({}, None) evs = (st, map_option ct_start_seq (bt_open t))"
    using durable_live.IH by (cases "foldl orphan_step ({}, None) evs") simp
  have sub: "inherited_orphan_start_seqs evs \<subseteq> inherited_orphan_start_seqs (evs @ [e])"
    using live_orphan [OF durable_live.hyps(2), of st] f by (auto simp: inherited_orphan_start_seqs_def split: option.splits)
  have "replay (seed_step stale) fresh_bracket (evs @ [e]) = Inr t'" if "inherited_orphan_start_seqs (evs @ [e]) \<subseteq> stale" for stale
    using that sub durable_live.IH live_seed [OF durable_live.hyps(2), of stale] by (auto simp: replay_snoc)
  moreover have "snd (foldl orphan_step ({}, None) (evs @ [e])) = map_option ct_start_seq (bt_open t')"
    using live_orphan [OF durable_live.hyps(2), of st] f by simp
  ultimately show ?case by blast
next
  case (durable_restart evs t tail b)
  obtain st where f: "foldl orphan_step ({}, None) evs = (st, map_option ct_start_seq (bt_open t))"
    using durable_restart.IH by (cases "foldl orphan_step ({}, None) evs") simp
  have g: "foldl orphan_step ({}, None) (evs @ tail @ [b]) =
      (case bt_open t of Some ct \<Rightarrow> insert (ct_start_seq ct) st | None \<Rightarrow> st, None)"
    using f durable_restart.hyps by (simp add: plain_orphans split: option.splits)
  have "replay (seed_step stale) fresh_bracket (evs @ tail @ [b]) =
      Inr \<lparr>bt_turn = bt_turn (foldl apply_turn_boundary t tail), bt_open = None\<rparr>"
    if st: "inherited_orphan_start_seqs (evs @ tail @ [b]) \<subseteq> stale" for stale
  proof -
    have *: "\<forall>ct. bt_open t = Some ct \<longrightarrow> ct_start_seq ct \<in> stale" "inherited_orphan_start_seqs evs \<subseteq> stale"
      using st f g by (auto simp: inherited_orphan_start_seqs_def split: option.splits)
    have "replay (seed_step stale) fresh_bracket (evs @ tail) = Inr (foldl apply_turn_boundary t tail)"
      using * durable_restart.IH durable_restart.hyps plain_seed by (simp add: replay_append)
    moreover have "seed_step stale (foldl apply_turn_boundary t tail) b =
        Inr \<lparr>bt_turn = bt_turn (foldl apply_turn_boundary t tail), bt_open = None\<rparr>"
      using durable_restart.hyps(3)
      by (simp add: seed_step_def validate_turn_boundary_def is_turn_event_def validate_compaction_event_def commit_event_def
        apply_turn_boundary_def)
    ultimately show ?thesis by (simp add: replay_snoc flip: append_assoc)
  qed
  with g show ?case by simp
qed

section \<open>Properties\<close>

text \<open>
  The end of a compaction, in a log that the live invariant accepted, closes the bracket of its own
  identity, command and turn: its start stands before it, nothing between them is another start, an end, a
  session boundary or a turn boundary, every summary between them carries the same identity, and there is
  at most one summary, and exactly one when the compaction ended without an error.
\<close>

theorem compaction_end_closes_its_bracket:
  assumes "replay live_step fresh_bracket (evs @ e # later) = Inr t"
    and "ev_data e = PluginEvent (CompactionEnd c err)"
  shows "\<exists>pre s mid. evs = pre @ s # mid \<and> starts_bracket s = Some c \<and> list_all (inside_bracket c) mid \<and>
    length (List.map_filter summarizes mid) \<le> 1 \<and> (err = None \<longrightarrow> length (List.map_filter summarizes mid) = 1)"
proof -
  from assms(1) obtain m m' where h: "bracket_history evs m" and s: "live_step m e = Inr m'"
    by (rule bracket.run_event)
  from s assms(2) obtain ct where ct: "bt_open m = Some ct" "cl_id c = ct_id ct" "cl_command c = ct_command ct"
    "cl_turn c = ct_turn ct" "err = None \<longrightarrow> ct_summarized ct"
    by (auto simp: live_step_Inr validate_compaction_event_def rbind_Inr_iff validate_end_ok)
  from h ct(1) obtain pre s mid d where o: "evs = pre @ s # mid" "starts_bracket s = Some d" "cl_id d = ct_id ct"
    "cl_command d = ct_command ct" "cl_turn d = ct_turn ct" "list_all (inside_bracket d) mid"
    "length (List.map_filter summarizes mid) = (if ct_summarized ct then 1 else 0)"
    by (auto simp: bracket_history_def open_bracket_def)
  moreover have "d = c" using o ct by (cases c; cases d) simp
  ultimately show ?thesis using ct(5) by (intro exI [of _ pre] exI [of _ s] exI [of _ mid]) simp
qed

definition sample_compaction_log :: "compaction_event event list" where
  "sample_compaction_log =
     (let c = \<lparr>cl_id = ''c1'', cl_command = None, cl_turn = Some 1\<rparr> in
     [log_event 0 10 (TurnStart 1),
      log_event 1 11 (PluginEvent (CompactionStart c)),
      log_event 2 12 (PluginEvent (CompactionSummary \<lparr>cs_id = ''c1'', cs_command = None, cs_summary = [TextBlock ''s''],
        cs_range = (0, 0), cs_shadowed = [0], cs_tokens = 5, cs_provider = ''p'', cs_model = ''m'', cs_max_tokens = None,
        cs_usage = None, cs_raw_output = None, cs_stream_call = False\<rparr>)),
      log_event 3 13 (PluginEvent (CompactionEnd c None)),
      log_event 4 14 (PluginEvent (CompactionStart c))])"

theorem compaction_end_closes_its_bracket_witness:
  "\<exists>pre s mid. take 3 sample_compaction_log = pre @ s # mid \<and>
     starts_bracket s = Some \<lparr>cl_id = ''c1'', cl_command = None, cl_turn = Some 1\<rparr> \<and>
     list_all (inside_bracket \<lparr>cl_id = ''c1'', cl_command = None, cl_turn = Some 1\<rparr>) mid \<and>
     length (List.map_filter summarizes mid) = 1"
proof -
  have "ok (replay live_step fresh_bracket sample_compaction_log)" by code_simp
  then obtain t where "replay live_step fresh_bracket sample_compaction_log = Inr t"
    by (auto simp: ok_def split: sum.splits)
  moreover have "sample_compaction_log = take 3 sample_compaction_log @ sample_compaction_log ! 3 # drop 4 sample_compaction_log"
    by (simp add: sample_compaction_log_def Let_def)
  ultimately have "replay live_step fresh_bracket (take 3 sample_compaction_log @ sample_compaction_log ! 3 # drop 4 sample_compaction_log) = Inr t"
    by simp
  moreover have "ev_data (sample_compaction_log ! 3) = PluginEvent (CompactionEnd \<lparr>cl_id = ''c1'', cl_command = None, cl_turn = Some 1\<rparr> None)"
    by (simp add: sample_compaction_log_def Let_def)
  ultimately show ?thesis using compaction_end_closes_its_bracket by blast
qed

text \<open>
  C9: A log written by any number of lives of a session always reopens: seeding accepts every log that
  consists of live-accepted events and restarts, even one that crashed inside a bracket whose turn the
  restart then closed, and it reaches exactly the state that the live invariant had.
\<close>

theorem durable_log_always_reopens:
  assumes "durable evs t"
  shows "seed_brackets evs = Inr t"
  using durable_replays [OF assms] by (simp add: seed_brackets_def)

theorem durable_log_always_reopens_witness:
  "seed_brackets (sample_compaction_log @ [log_event 5 15 (TurnEnd 1 TurnInterrupted)] @ [log_event 6 16 EndSeed]) =
     Inr fresh_bracket"
proof -
  have live: "durable (take k sample_compaction_log) t \<Longrightarrow> k < length sample_compaction_log \<Longrightarrow>
      live_step t (sample_compaction_log ! k) = Inr t' \<Longrightarrow> durable (take (Suc k) sample_compaction_log) t'" for k t t'
    by (simp add: take_Suc_conv_app_nth durable_live)
  let ?ct = "\<lparr>ct_id = ''c1'', ct_command = None, ct_start_seq = 1, ct_turn = Some 1, ct_summarized = False\<rparr>"
  have "durable (take 0 sample_compaction_log) fresh_bracket" by (simp add: durable_empty)
  then have "durable (take (Suc 0) sample_compaction_log) \<lparr>bt_turn = Some 1, bt_open = None\<rparr>" by (rule live) code_simp+
  then have "durable (take (Suc (Suc 0)) sample_compaction_log) \<lparr>bt_turn = Some 1, bt_open = Some ?ct\<rparr>" by (rule live) code_simp+
  then have "durable (take (Suc (Suc (Suc 0))) sample_compaction_log) \<lparr>bt_turn = Some 1, bt_open = Some (?ct\<lparr>ct_summarized := True\<rparr>)\<rparr>"
    by (rule live) code_simp+
  then have "durable (take (Suc (Suc (Suc (Suc 0)))) sample_compaction_log) \<lparr>bt_turn = Some 1, bt_open = None\<rparr>" by (rule live) code_simp+
  then have "durable (take (Suc (Suc (Suc (Suc (Suc 0))))) sample_compaction_log) \<lparr>bt_turn = Some 1, bt_open = Some (?ct\<lparr>ct_start_seq := 4\<rparr>)\<rparr>"
    by (rule live) code_simp+
  then have "durable sample_compaction_log \<lparr>bt_turn = Some 1, bt_open = Some (?ct\<lparr>ct_start_seq := 4\<rparr>)\<rparr>"
    by (simp add: sample_compaction_log_def Let_def)
  from durable_restart [OF this, of "[log_event 5 15 (TurnEnd 1 TurnInterrupted)]" "log_event 6 16 EndSeed"]
  have "durable (sample_compaction_log @ [log_event 5 15 (TurnEnd 1 TurnInterrupted)] @ [log_event 6 16 EndSeed]) fresh_bracket"
    by (simp add: plain_event_def bracket_readers apply_turn_boundary_def fresh_bracket_def)
  then show ?thesis by (rule durable_log_always_reopens)
qed

end
