(* ===== verification/Assembler.thy ===== *)
theory Assembler
  imports Session_Types
begin

text \<open>
  The chunk-to-message assembler (\<open>packages/llm/llm/src/assembler.ts\<close>): the one algorithm that turns a
  stream of chunks, with blocks interleaved by index, into the blocks of an assistant message.
\<close>

section \<open>State\<close>

record partial_block =
  pb_type :: block_type
  pb_text :: string
  pb_call_id :: "call_id option"
  pb_call_name :: "string option"
  pb_arguments :: string
  pb_block :: "content_block option"

record assembler =
  as_partials :: "(int, partial_block) omap"
  as_order :: "int list"
  as_usage :: "token_usage option"
  as_finish :: "finish_reason option"
  as_replay :: "replay_envelope option"

datatype assemble_error = IncompleteBlock block_type | NoPartial int

definition new_assembler :: assembler where
  "new_assembler = \<lparr>as_partials = [], as_order = [], as_usage = None, as_finish = None, as_replay = None\<rparr>"

definition blank_partial :: "block_type \<Rightarrow> partial_block" where
  "blank_partial t = \<lparr>pb_type = t, pb_text = [], pb_call_id = None, pb_call_name = None, pb_arguments = [], pb_block = None\<rparr>"

section \<open>Operations\<close>

definition ensure :: "int \<Rightarrow> block_type \<Rightarrow> assembler \<Rightarrow> assembler \<times> partial_block" where
  "ensure i t a = (case om_get (as_partials a) i of
      Some p \<Rightarrow> (a, p)
    | None \<Rightarrow> (a\<lparr>as_partials := om_set i (blank_partial t) (as_partials a), as_order := as_order a @ [i]\<rparr>, blank_partial t))"

text \<open>Write a changed partial back: the code mutates the object the map holds.\<close>

definition store_partial :: "int \<Rightarrow> partial_block \<Rightarrow> assembler \<Rightarrow> assembler" where
  "store_partial i p a = a\<lparr>as_partials := om_set i p (as_partials a)\<rparr>"

fun push :: "stream_chunk \<Rightarrow> assembler \<Rightarrow> assembler" where
  "push (BlockStart i t) a =
     (if om_get (as_partials a) i = None
      then a\<lparr>as_order := as_order a @ [i], as_partials := om_set i (blank_partial t) (as_partials a)\<rparr> else a)"
| "push (TextDelta i s) a = (case ensure i BtText a of (a', p) \<Rightarrow>
     if pb_block p \<noteq> None then a' else store_partial i (p\<lparr>pb_text := pb_text p @ s\<rparr>) a')"
| "push (ReasoningDelta i s) a = (case ensure i BtReasoning a of (a', p) \<Rightarrow>
     if pb_block p \<noteq> None then a' else store_partial i (p\<lparr>pb_text := pb_text p @ s\<rparr>) a')"
| "push (ToolCallDelta i c n args) a = (case ensure i BtToolCall a of (a', p) \<Rightarrow>
     if pb_block p \<noteq> None then a'
     else store_partial i (p\<lparr>pb_call_id := Some c,
       pb_call_name := (case n of Some nm \<Rightarrow> if nm \<noteq> [] then Some nm else pb_call_name p | None \<Rightarrow> pb_call_name p),
       pb_arguments := pb_arguments p @ args\<rparr>) a')"
| "push (BlockEnd i b) a = (case ensure i (block_type_of b) a of (a', p) \<Rightarrow>
     if pb_block p \<noteq> None then a' else store_partial i (p\<lparr>pb_block := Some b\<rparr>) a')"
| "push (UsageChunk u) a = a\<lparr>as_usage := Some u\<rparr>"
| "push (FinishChunk r e) a = a\<lparr>as_finish := Some r, as_replay := e\<rparr>"

definition push_all :: "stream_chunk list \<Rightarrow> assembler" where
  "push_all cs = fold push cs new_assembler"

definition assemble_block :: "partial_block \<Rightarrow> int \<Rightarrow> assemble_error + content_block" where
  "assemble_block p i = (case pb_block p of
      Some b \<Rightarrow> Inr b
    | None \<Rightarrow>
        (case pb_type p of
           BtText \<Rightarrow> Inr (TextBlock (pb_text p))
         | BtReasoning \<Rightarrow> Inr (ReasoningBlock (pb_text p))
         | BtToolCall \<Rightarrow> Inr (ToolCallBlock (case pb_call_id p of Some c \<Rightarrow> c | None \<Rightarrow> ''call-'' @ int_string i)
             (case pb_call_name p of Some n \<Rightarrow> n | None \<Rightarrow> []) (pb_arguments p))
         | t \<Rightarrow> Inl (IncompleteBlock t)))"

definition must_get :: "int \<Rightarrow> assembler \<Rightarrow> assemble_error + partial_block" where
  "must_get i a = (case om_get (as_partials a) i of Some p \<Rightarrow> Inr p | None \<Rightarrow> Inl (NoPartial i))"

definition finish_of :: "assembler \<Rightarrow> finish_reason" where
  "finish_of a = (case as_finish a of Some r \<Rightarrow> r | None \<Rightarrow> FinishStop)"

fun is_tool_call :: "content_block \<Rightarrow> bool" where
  "is_tool_call (ToolCallBlock _ _ _) = True"
| "is_tool_call _ = False"

fun is_max_tokens :: "finish_reason \<Rightarrow> bool" where
  "is_max_tokens FinishMaxTokens = True"
| "is_max_tokens _ = False"

text \<open>\<open>xs.filter((_, position) => kept[position])\<close>\<close>

definition keep_by :: "bool list \<Rightarrow> 'a list \<Rightarrow> 'a list" where
  "keep_by kept xs = map fst (filter snd (zip xs kept))"

definition assembled :: "assembler \<Rightarrow> assemble_error + content_block list \<times> replay_envelope option" where
  "assembled a =
     rbind (traverse (\<lambda>i. rbind (must_get i a) (\<lambda>p. assemble_block p i)) (as_order a)) (\<lambda>every.
       let kept = (if is_max_tokens (finish_of a) then Some (map (\<lambda>b. \<not> is_tool_call b) every) else None);
           blocks = (case kept of None \<Rightarrow> every | Some ks \<Rightarrow> keep_by ks every);
           envelope = as_replay a in
       case envelope of
         None \<Rightarrow> Inr (blocks, None)
       | Some env \<Rightarrow>
           (case env_blocks env of
              None \<Rightarrow> Inr (blocks, Some env)
            | Some entries \<Rightarrow>
                if length entries \<noteq> length every then Inr (blocks, None)
                else (case kept of
                    None \<Rightarrow> Inr (blocks, Some env)
                  | Some ks \<Rightarrow>
                      if length blocks = length every then Inr (blocks, Some env)
                      else Inr (blocks, Some \<lparr>env_response = env_response env, env_blocks = Some (keep_by ks entries)\<rparr>))))"

definition blocks :: "assembler \<Rightarrow> assemble_error + content_block list" where
  "blocks a = rbind (assembled a) (\<lambda>r. Inr (fst r))"

definition replay_state :: "assembler \<Rightarrow> assemble_error + replay_envelope option" where
  "replay_state a = rbind (assembled a) (\<lambda>r. Inr (snd r))"

fun prose_text :: "content_block \<Rightarrow> string option" where
  "prose_text (TextBlock s) = Some s"
| "prose_text (ReasoningBlock s) = Some s"
| "prose_text _ = None"

definition partial_type :: "partial_block \<Rightarrow> block_type" where
  "partial_type p = (case pb_block p of Some b \<Rightarrow> block_type_of b | None \<Rightarrow> pb_type p)"

definition interrupted_block :: "assembler \<Rightarrow> int \<Rightarrow> assemble_error + content_block option" where
  "interrupted_block a i =
     rbind (must_get i a) (\<lambda>p.
       if partial_type p \<noteq> BtText \<and> partial_type p \<noteq> BtReasoning then Inr None
       else rbind (assemble_block p i) (\<lambda>b. Inr (Some b)))"

definition keeps_interrupted :: "content_block option \<Rightarrow> bool" where
  "keeps_interrupted b = (case b of None \<Rightarrow> False
     | Some c \<Rightarrow> (case prose_text c of None \<Rightarrow> False | Some s \<Rightarrow> js_trim s \<noteq> []))"

definition interrupted_blocks :: "assembler \<Rightarrow> assemble_error + content_block list" where
  "interrupted_blocks a =
     rbind (traverse (interrupted_block a) (as_order a)) (\<lambda>bs. Inr (List.map_filter id (filter keeps_interrupted bs)))"

text \<open>\<open>message\<close>: the identity is a fresh UUID.\<close>

definition assembled_message :: "message_id \<Rightarrow> message_source \<Rightarrow> assembler \<Rightarrow> assemble_error + message" where
  "assembled_message uuid source a =
     rbind (blocks a) (\<lambda>bs. Inr \<lparr>msg_id = uuid, msg_role = AssistantRole, msg_content = bs, msg_source = source\<rparr>)"

section \<open>What a stream means\<close>

text \<open>The declarative reading of a stream, index by index.\<close>

fun index_of_chunk :: "stream_chunk \<Rightarrow> int option" where
  "index_of_chunk (BlockStart i _) = Some i"
| "index_of_chunk (TextDelta i _) = Some i"
| "index_of_chunk (ReasoningDelta i _) = Some i"
| "index_of_chunk (ToolCallDelta i _ _ _) = Some i"
| "index_of_chunk (BlockEnd i _) = Some i"
| "index_of_chunk (UsageChunk _) = None"
| "index_of_chunk (FinishChunk _ _) = None"

fun opens_as :: "stream_chunk \<Rightarrow> block_type" where
  "opens_as (BlockStart _ t) = t"
| "opens_as (TextDelta _ _) = BtText"
| "opens_as (ReasoningDelta _ _) = BtReasoning"
| "opens_as (ToolCallDelta _ _ _ _) = BtToolCall"
| "opens_as (BlockEnd _ b) = block_type_of b"
| "opens_as _ = BtText"

fun chunk_text :: "stream_chunk \<Rightarrow> string" where
  "chunk_text (TextDelta _ s) = s"
| "chunk_text (ReasoningDelta _ s) = s"
| "chunk_text _ = []"

fun chunk_arguments :: "stream_chunk \<Rightarrow> string" where
  "chunk_arguments (ToolCallDelta _ _ _ args) = args"
| "chunk_arguments _ = []"

fun chunk_call_id :: "stream_chunk \<Rightarrow> call_id option" where
  "chunk_call_id (ToolCallDelta _ c _ _) = Some c"
| "chunk_call_id _ = None"

fun chunk_call_name :: "stream_chunk \<Rightarrow> string option" where
  "chunk_call_name (ToolCallDelta _ _ (Some n) _) = (if n \<noteq> [] then Some n else None)"
| "chunk_call_name _ = None"

fun chunk_end :: "stream_chunk \<Rightarrow> content_block option" where
  "chunk_end (BlockEnd _ b) = Some b"
| "chunk_end _ = None"

definition of_index :: "int \<Rightarrow> stream_chunk list \<Rightarrow> stream_chunk list" where
  "of_index i cs = filter (\<lambda>c. index_of_chunk c = Some i) cs"

text \<open>The indices, in the order they first appear.\<close>

definition indices :: "stream_chunk list \<Rightarrow> int list" where
  "indices cs = rev (remdups (rev (List.map_filter index_of_chunk cs)))"

definition last_some :: "'a list \<Rightarrow> 'a option" where
  "last_some xs = (if xs = [] then None else Some (last xs))"

text \<open>
  A block of the stream: what the first block-end of its index says, or else what its first chunk
  opened, filled with all deltas.
\<close>

definition stream_block :: "int \<Rightarrow> stream_chunk list \<Rightarrow> assemble_error + content_block" where
  "stream_block i cs = (case List.map_filter chunk_end cs of
      b # _ \<Rightarrow> Inr b
    | [] \<Rightarrow>
        (case opens_as (hd cs) of
           BtText \<Rightarrow> Inr (TextBlock (concat (map chunk_text cs)))
         | BtReasoning \<Rightarrow> Inr (ReasoningBlock (concat (map chunk_text cs)))
         | BtToolCall \<Rightarrow> Inr (ToolCallBlock
             (case last_some (List.map_filter chunk_call_id cs) of Some c \<Rightarrow> c | None \<Rightarrow> ''call-'' @ int_string i)
             (case last_some (List.map_filter chunk_call_name cs) of Some n \<Rightarrow> n | None \<Rightarrow> [])
             (concat (map chunk_arguments cs)))
         | t \<Rightarrow> Inl (IncompleteBlock t)))"

definition stream_blocks :: "stream_chunk list \<Rightarrow> assemble_error + content_block list" where
  "stream_blocks cs = traverse (\<lambda>i. stream_block i (of_index i cs)) (indices cs)"


section \<open>The assembler computes it\<close>

text \<open>The effect of one chunk on the partial of its own index.\<close>

definition feed :: "stream_chunk \<Rightarrow> partial_block \<Rightarrow> partial_block" where
  "feed c p = (if pb_block p \<noteq> None then p
     else p\<lparr>pb_text := pb_text p @ chunk_text c,
       pb_call_id := (case chunk_call_id c of Some i \<Rightarrow> Some i | None \<Rightarrow> pb_call_id p),
       pb_call_name := (case chunk_call_name c of Some n \<Rightarrow> Some n | None \<Rightarrow> pb_call_name p),
       pb_arguments := pb_arguments p @ chunk_arguments c, pb_block := chunk_end c\<rparr>)"

definition partial_of :: "stream_chunk list \<Rightarrow> partial_block" where
  "partial_of cs = fold feed cs (blank_partial (opens_as (hd cs)))"

lemma push_unindexed:
  "index_of_chunk c = None \<Longrightarrow> as_order (push c a) = as_order a \<and> as_partials (push c a) = as_partials a"
  by (cases c) simp_all

lemma push_indexed:
  assumes "index_of_chunk c = Some i"
  shows "as_order (push c a) = (if om_get (as_partials a) i = None then as_order a @ [i] else as_order a)"
    and "om_get (as_partials (push c a)) = (om_get (as_partials a))(i \<mapsto>
      feed c (case om_get (as_partials a) i of Some p \<Rightarrow> p | None \<Rightarrow> blank_partial (opens_as c)))"
  using assms
  by (cases c; cases "om_get (as_partials a) i";
      auto simp: ensure_def store_partial_def feed_def blank_partial_def fun_eq_iff split: option.splits)+

lemma feed_closed: "pb_block p \<noteq> None \<Longrightarrow> fold feed cs p = p"
  by (induction cs) (simp_all add: feed_def)

lemma last_some_Cons: "last_some (x # xs) = Some (case last_some xs of None \<Rightarrow> x | Some y \<Rightarrow> y)"
  by (simp add: last_some_def)

lemma last_some_Nil: "last_some [] = None"
  by (simp add: last_some_def)

lemma fold_feed_open:
  assumes "pb_block p = None" and "List.map_filter chunk_end cs = []"
  shows "fold feed cs p = p\<lparr>pb_text := pb_text p @ concat (map chunk_text cs),
    pb_call_id := (case last_some (List.map_filter chunk_call_id cs) of Some i \<Rightarrow> Some i | None \<Rightarrow> pb_call_id p),
    pb_call_name := (case last_some (List.map_filter chunk_call_name cs) of Some n \<Rightarrow> Some n | None \<Rightarrow> pb_call_name p),
    pb_arguments := pb_arguments p @ concat (map chunk_arguments cs)\<rparr>"
  using assms
  by (induction cs arbitrary: p)
    (auto simp: feed_def map_filter_Cons last_some_Cons last_some_Nil List.map_filter_simps(2) split: option.splits)

lemma fold_feed_end:
  "pb_block p = None \<Longrightarrow> List.map_filter chunk_end cs = b # bs \<Longrightarrow> pb_block (fold feed cs p) = Some b"
proof (induction cs arbitrary: p)
  case (Cons c cs)
  show ?case
  proof (cases "chunk_end c")
    case None
    then have "pb_block (feed c p) = None" using Cons.prems(1) by (simp add: feed_def)
    with Cons None show ?thesis by (simp add: map_filter_Cons)
  next
    case (Some b')
    then have "pb_block (feed c p) = Some b'" using Cons.prems(1) by (simp add: feed_def)
    with Cons.prems Some show ?thesis by (simp add: map_filter_Cons feed_closed)
  qed
qed (simp add: List.map_filter_def)

lemma assemble_partial_of: "assemble_block (partial_of cs) i = stream_block i cs"
proof (cases "List.map_filter chunk_end cs")
  case Nil
  have "pb_block (partial_of cs) = None"
    unfolding partial_of_def using Nil by (subst fold_feed_open) (simp_all add: blank_partial_def)
  with Nil show ?thesis
    unfolding partial_of_def
    by (subst fold_feed_open)
      (auto simp: fold_feed_open assemble_block_def stream_block_def blank_partial_def split: block_type.splits option.splits)
next
  case (Cons b bs)
  then have "pb_block (partial_of cs) = Some b"
    unfolding partial_of_def by (intro fold_feed_end) (simp_all add: blank_partial_def)
  with Cons show ?thesis by (simp add: assemble_block_def stream_block_def)
qed

definition assembler_inv :: "stream_chunk list \<Rightarrow> assembler \<Rightarrow> bool" where
  "assembler_inv cs a \<longleftrightarrow> as_order a = indices cs \<and>
     (\<forall>i. om_get (as_partials a) i = (if of_index i cs = [] then None else Some (partial_of (of_index i cs)))) \<and>
     as_finish a = last_some (List.map_filter (\<lambda>c. case c of FinishChunk r _ \<Rightarrow> Some r | _ \<Rightarrow> None) cs)"

lemma of_index_snoc: "of_index i (cs @ [c]) = of_index i cs @ (if index_of_chunk c = Some i then [c] else [])"
  by (simp add: of_index_def)

lemma partial_of_snoc: "cs \<noteq> [] \<Longrightarrow> partial_of (cs @ [c]) = feed c (partial_of cs)"
  by (simp add: partial_of_def)

lemma set_indices: "i \<in> set (indices cs) \<longleftrightarrow> of_index i cs \<noteq> []"
  by (auto simp: indices_def of_index_def List.map_filter_def filter_empty_conv image_iff)

lemma indices_snoc:
  "indices (cs @ [c]) = (case index_of_chunk c of None \<Rightarrow> indices cs
     | Some i \<Rightarrow> if i \<in> set (indices cs) then indices cs else indices cs @ [i])"
  by (simp add: indices_def map_filter_snoc split: option.splits)

lemma last_some_snoc: "last_some (xs @ [x]) = Some x"
  by (simp add: last_some_def)

lemma assembler_inv_step: "assembler_inv cs a \<Longrightarrow> assembler_inv (cs @ [c]) (push c a)"
proof -
  assume inv: "assembler_inv cs a"
  have fin: "as_finish (push c a) = (case c of FinishChunk r _ \<Rightarrow> Some r | _ \<Rightarrow> as_finish a)"
    by (cases c) (auto simp: ensure_def store_partial_def split: option.splits)
  show ?thesis
  proof (cases "index_of_chunk c")
    case None
    with inv push_unindexed [OF None, of a] fin show ?thesis
      by (cases c) (simp_all add: assembler_inv_def indices_snoc of_index_snoc map_filter_snoc last_some_snoc)
  next
    case (Some i)
    then have plain: "(case c of FinishChunk r _ \<Rightarrow> Some r | _ \<Rightarrow> None) = None" by (cases c) simp_all
    have "as_order (push c a) = indices (cs @ [c])"
      using inv push_indexed(1) [OF Some, of a] by (simp add: assembler_inv_def indices_snoc Some set_indices)
    moreover have "om_get (as_partials (push c a)) j =
        (if of_index j (cs @ [c]) = [] then None else Some (partial_of (of_index j (cs @ [c]))))" for j
      using inv push_indexed(2) [OF Some, of a]
      by (cases "j = i"; cases "of_index i cs = []")
        (auto simp: assembler_inv_def of_index_snoc Some partial_of_snoc, auto simp: partial_of_def)
    moreover have "as_finish (push c a) = as_finish a"
      unfolding fin using Some by (cases c) simp_all
    ultimately show ?thesis using inv plain by (simp add: assembler_inv_def map_filter_snoc)
  qed
qed

lemma push_all_inv: "assembler_inv cs (push_all cs)"
proof (induction cs rule: rev_induct)
  case Nil
  then show ?case
    by (simp add: push_all_def assembler_inv_def new_assembler_def indices_def of_index_def List.map_filter_def last_some_def)
next
  case (snoc c cs)
  then show ?case using assembler_inv_step by (simp add: push_all_def)
qed

lemma assemble_all: "traverse (\<lambda>i. rbind (must_get i (push_all cs)) (\<lambda>p. assemble_block p i)) (as_order (push_all cs)) = stream_blocks cs"
proof -
  have inv: "assembler_inv cs (push_all cs)" by (rule push_all_inv)
  have "rbind (must_get i (push_all cs)) (\<lambda>p. assemble_block p i) = stream_block i (of_index i cs)" if "i \<in> set (indices cs)" for i
    using that inv by (simp add: must_get_def assembler_inv_def set_indices assemble_partial_of)
  moreover have "as_order (push_all cs) = indices cs" using inv by (simp add: assembler_inv_def)
  ultimately show ?thesis by (simp only: stream_blocks_def) (rule traverse_cong, simp)
qed


section \<open>Truncation and replay metadata\<close>

lemma keep_by_map: "keep_by (map p xs) xs = filter p xs"
  unfolding keep_by_def by (induction xs) auto

lemma keep_by_length: "length xs = length ys \<Longrightarrow> length (keep_by ks xs) = length (keep_by ks ys)"
proof (induction xs ys arbitrary: ks rule: list_induct2)
  case (Cons x xs y ys)
  then show ?case by (cases ks) (auto simp: keep_by_def)
qed (simp add: keep_by_def)

definition stream_finish :: "stream_chunk list \<Rightarrow> finish_reason" where
  "stream_finish cs = (case last_some (List.map_filter (\<lambda>c. case c of FinishChunk r _ \<Rightarrow> Some r | _ \<Rightarrow> None) cs) of
      Some r \<Rightarrow> r | None \<Rightarrow> FinishStop)"

definition executable_blocks :: "finish_reason \<Rightarrow> content_block list \<Rightarrow> content_block list" where
  "executable_blocks r bs = (if is_max_tokens r then filter (\<lambda>b. \<not> is_tool_call b) bs else bs)"

lemma finish_of_push_all: "finish_of (push_all cs) = stream_finish cs"
  using push_all_inv [of cs] by (simp add: finish_of_def stream_finish_def assembler_inv_def)

lemma assembled_push_all:
  "assembled (push_all cs) = rbind (stream_blocks cs) (\<lambda>every. Inr (executable_blocks (stream_finish cs) every,
     (case as_replay (push_all cs) of
        None \<Rightarrow> None
      | Some env \<Rightarrow> (case env_blocks env of
          None \<Rightarrow> Some env
        | Some entries \<Rightarrow>
            if length entries \<noteq> length every then None
            else if is_max_tokens (stream_finish cs) \<and> (\<exists>b \<in> set every. is_tool_call b)
              then Some \<lparr>env_response = env_response env, env_blocks = Some (keep_by (map (\<lambda>b. \<not> is_tool_call b) every) entries)\<rparr>
              else Some env))))"
proof (cases "stream_blocks cs")
  case (Inr every)
  have "length (filter (\<lambda>b. \<not> is_tool_call b) every) = length every \<longleftrightarrow> \<not> (\<exists>b \<in> set every. is_tool_call b)"
    by (metis filter_True length_filter_less less_irrefl)
  with Inr show ?thesis
    by (simp add: assembled_def assemble_all finish_of_push_all executable_blocks_def keep_by_map Let_def split: option.splits)
qed (simp add: assembled_def assemble_all)

lemma blocks_push_all: "blocks (push_all cs) = rbind (stream_blocks cs) (\<lambda>bs. Inr (executable_blocks (stream_finish cs) bs))"
  by (cases "stream_blocks cs") (simp_all add: blocks_def assembled_push_all)

section \<open>Interruption\<close>

definition finished_prose :: "content_block \<Rightarrow> bool" where
  "finished_prose b = (case prose_text b of None \<Rightarrow> False | Some s \<Rightarrow> js_trim s \<noteq> [])"

definition prose_of :: "stream_chunk list \<Rightarrow> content_block list" where
  "prose_of cs = filter finished_prose
     (List.map_filter (\<lambda>i. case stream_block i (of_index i cs) of Inr b \<Rightarrow> Some b | Inl _ \<Rightarrow> None) (indices cs))"

lemma prose_text_type: "prose_text b \<noteq> None \<longleftrightarrow> block_type_of b = BtText \<or> block_type_of b = BtReasoning"
  by (cases b) simp_all

lemma interrupted_block_push:
  assumes "i \<in> set (indices cs)"
  shows "\<exists>ob. interrupted_block (push_all cs) i = Inr ob \<and>
    (if keeps_interrupted ob then ob else None) =
    (case stream_block i (of_index i cs) of Inr b \<Rightarrow> if finished_prose b then Some b else None | Inl _ \<Rightarrow> None)"
proof -
  let ?p = "partial_of (of_index i cs)"
  have p: "must_get i (push_all cs) = Inr ?p"
    using push_all_inv [of cs] assms by (simp add: must_get_def assembler_inv_def set_indices)
  have b: "stream_block i (of_index i cs) = assemble_block ?p i" by (simp add: assemble_partial_of)
  show ?thesis
  proof (cases "pb_block ?p")
    case None
    then show ?thesis
      by (cases "pb_type ?p")
        (auto simp: interrupted_block_def p b partial_type_def assemble_block_def keeps_interrupted_def finished_prose_def)
  next
    case (Some c)
    then show ?thesis
      using prose_text_type [of c]
      by (cases "prose_text c")
        (auto simp: interrupted_block_def p b partial_type_def assemble_block_def keeps_interrupted_def finished_prose_def)
  qed
qed

lemma traverse_interrupted:
  assumes "\<forall>i \<in> set is. \<exists>ob. f i = Inr ob \<and> (if keeps_interrupted ob then ob else None) = g i"
  shows "\<exists>obs. traverse f is = Inr obs \<and> List.map_filter id (filter keeps_interrupted obs) = List.map_filter g is"
  using assms
proof (induction "is")
  case (Cons i "is")
  from Cons.prems obtain ob where ob: "f i = Inr ob" "(if keeps_interrupted ob then ob else None) = g i"
    by auto
  from Cons.prems have "\<forall>i \<in> set is. \<exists>ob. f i = Inr ob \<and> (if keeps_interrupted ob then ob else None) = g i" by simp
  from Cons.IH [OF this] obtain obs where obs: "traverse f is = Inr obs"
    "List.map_filter id (filter keeps_interrupted obs) = List.map_filter g is" by blast
  note o = obs ob
  have "List.map_filter id (filter keeps_interrupted (ob # obs)) = List.map_filter g (i # is)"
    using o(2,4) by (cases ob) (auto simp: map_filter_Cons keeps_interrupted_def split: if_splits)
  moreover have "traverse f (i # is) = Inr (ob # obs)" using o by simp
  ultimately show ?case by blast
qed (simp add: List.map_filter_def)

lemma filter_map_filter:
  "filter q (List.map_filter (\<lambda>i. case h i of Inr b \<Rightarrow> Some b | Inl _ \<Rightarrow> None) is) =
   List.map_filter (\<lambda>i. case h i of Inr b \<Rightarrow> if q b then Some b else None | Inl _ \<Rightarrow> None) is"
proof (induction "is")
  case (Cons i "is")
  then show ?case by (cases "h i") (simp_all add: map_filter_Cons)
qed (simp add: List.map_filter_def)

lemma interrupted_push_all: "interrupted_blocks (push_all cs) = Inr (prose_of cs)"
proof -
  let ?g = "\<lambda>i. case stream_block i (of_index i cs) of Inr b \<Rightarrow> if finished_prose b then Some b else None | Inl _ \<Rightarrow> None"
  have "\<forall>i \<in> set (indices cs). \<exists>ob. interrupted_block (push_all cs) i = Inr ob \<and>
      (if keeps_interrupted ob then ob else None) = ?g i"
    using interrupted_block_push by blast
  from traverse_interrupted [OF this] obtain obs where
    "traverse (interrupted_block (push_all cs)) (indices cs) = Inr obs"
    "List.map_filter id (filter keeps_interrupted obs) = List.map_filter ?g (indices cs)" by blast
  moreover have "as_order (push_all cs) = indices cs" using push_all_inv [of cs] by (simp add: assembler_inv_def)
  moreover have "prose_of cs = List.map_filter ?g (indices cs)"
    unfolding prose_of_def by (rule filter_map_filter)
  ultimately show ?thesis by (simp add: interrupted_blocks_def)
qed

section \<open>Properties\<close>

text \<open>
  C27: However the blocks of a stream are interleaved, the assembler emits one block per index in the
  order the indices first appear: the content of the index's first block-end, or else its opening
  type filled with the concatenated deltas of that index; a stream cut by the token limit loses
  exactly its tool calls, and an unclosed block of another type is the only error. After an
  interruption the assembler never throws and keeps exactly the non-blank text and reasoning blocks.
\<close>

theorem assembler_reads_the_stream:
  "blocks (push_all cs) = rbind (stream_blocks cs) (\<lambda>bs. Inr (executable_blocks (stream_finish cs) bs)) \<and>
   interrupted_blocks (push_all cs) = Inr (prose_of cs)"
  using blocks_push_all interrupted_push_all by blast

text \<open>
  The replay metadata always fits the emitted blocks: when it has per-block entries there is
  exactly one for every emitted block.
\<close>

theorem replay_entries_fit_the_blocks:
  assumes "blocks (push_all cs) = Inr bs" and "replay_state (push_all cs) = Inr (Some env)" and "env_blocks env = Some entries"
  shows "length entries = length bs"
proof -
  from assms(1) obtain every where every: "stream_blocks cs = Inr every" "bs = executable_blocks (stream_finish cs) every"
    by (auto simp: blocks_push_all rbind_Inr_iff)
  have len: "length (keep_by (map (\<lambda>b. \<not> is_tool_call b) every) es) = length (filter (\<lambda>b. \<not> is_tool_call b) every)"
    if "length es = length every" for es :: "json list"
    using keep_by_length [OF that] by (simp add: keep_by_map)
  have "\<not> (\<exists>b \<in> set every. is_tool_call b) \<Longrightarrow> filter (\<lambda>b. \<not> is_tool_call b) every = every" by simp
  then show ?thesis
    using assms(2,3) every len
    by (auto simp: replay_state_def assembled_push_all executable_blocks_def split: option.splits if_splits)
qed

definition sample_stream :: "stream_chunk list" where
  "sample_stream = [BlockStart 0 BtText, TextDelta 0 ''a'', ToolCallDelta 1 ''c1'' (Some ''run'') ''{'', TextDelta 0 ''b'',
     ToolCallDelta 1 ''c1'' None ''}'', BlockEnd 0 (TextBlock ''ab''), TextDelta 0 ''late'',
     FinishChunk FinishMaxTokens (Some \<lparr>env_response = JNull, env_blocks = Some [JInt 1, JInt 2]\<rparr>)]"

theorem replay_entries_fit_the_blocks_witness:
  "blocks (push_all sample_stream) = Inr [TextBlock ''ab''] \<and>
   replay_state (push_all sample_stream) = Inr (Some \<lparr>env_response = JNull, env_blocks = Some [JInt 1]\<rparr>) \<and>
   length [JInt 1] = length [TextBlock ''ab'']"
proof -
  have b: "blocks (push_all sample_stream) = Inr [TextBlock ''ab'']" by code_simp
  have r: "replay_state (push_all sample_stream) = Inr (Some \<lparr>env_response = JNull, env_blocks = Some [JInt 1]\<rparr>)" by code_simp
  show ?thesis using b r replay_entries_fit_the_blocks [OF b r] by simp
qed

end
