(* ===== verification/Request_Header.thy ===== *)
theory Request_Header
  imports Session_Log
begin

text \<open>
  Equality of request headers (\<open>callConfigEquals\<close> of \<open>packages/llm/llm/src/call-config.ts\<close>, \<open>headerEquals\<close> of
  \<open>packages/core/session/src/request-header.ts\<close>): what decides whether a header is a change. The agent driver and
  the token meter share it. A configuration is the JSON object the log stores.
\<close>

definition call_config_equals :: "json \<Rightarrow> json \<Rightarrow> bool" where
  "call_config_equals a b \<longleftrightarrow> list_all (\<lambda>k. jget a k = jget b k)
     [''provider'', ''model'', ''reasoningEffort'', ''temperature'', ''maxTokens'', ''stop'']"

text \<open>\<open>header.adapterDefaults?.[key]\<close>\<close>

definition default_flag :: "epoch_header \<Rightarrow> string \<Rightarrow> json option" where
  "default_flag h k = (case hdr_adapter_defaults h of None \<Rightarrow> None | Some d \<Rightarrow> jget d k)"

definition header_equals :: "epoch_header \<Rightarrow> epoch_header \<Rightarrow> bool" where
  "header_equals a b \<longleftrightarrow> call_config_equals (hdr_config a) (hdr_config b) \<and>
     default_flag a ''reasoningEffort'' = default_flag b ''reasoningEffort'' \<and>
     default_flag a ''maxTokens'' = default_flag b ''maxTokens'' \<and> hdr_system a = hdr_system b \<and>
     (case hdr_tools a of None \<Rightarrow> [] | Some ts \<Rightarrow> ts) = (case hdr_tools b of None \<Rightarrow> [] | Some ts \<Rightarrow> ts)"

lemma header_equals_refl [simp]: "header_equals h h"
  by (simp add: header_equals_def call_config_equals_def)

end
