(* ===== verification/Token_Meter.thy ===== *)
theory Token_Meter
  imports Surface_Edit Compaction_Log Assembler Request_Header
begin

text \<open>
  The token meter (\<open>packages/llm/token-meter/src\<close>): the heuristic prices (\<open>estimate.ts\<close>), the priced surface
  (\<open>surface-fold.ts\<close>) and the replay state that \<open>measure\<close> keeps per session (\<open>index.ts\<close>). The length of
  a value's JSON text is the argument \<open>jl\<close>.
\<close>

section \<open>Prices\<close>

definition ceil4 :: "nat \<Rightarrow> int" where
  "ceil4 n = int ((n + 3) div 4)"

definition image_json :: "json \<Rightarrow> json" where
  "image_json attachment = JObj [(''type'', JStr ''image''), (''attachment'', attachment)]"

fun estimate_content :: "(json \<Rightarrow> nat) \<Rightarrow> content_block list \<Rightarrow> int"
  and estimate_block :: "(json \<Rightarrow> nat) \<Rightarrow> content_block \<Rightarrow> int" where
  "estimate_content jl [] = 0"
| "estimate_content jl (b # bs) = estimate_block jl b + estimate_content jl bs"
| "estimate_block jl (TextBlock s) = ceil4 (length s) + 4"
| "estimate_block jl (ReasoningBlock s) = ceil4 (length s) + 4"
| "estimate_block jl (ToolCallBlock _ name args) = ceil4 (length name) + ceil4 (length args) + 4"
| "estimate_block jl (ToolResultBlock _ content _) = estimate_content jl content + 4"
| "estimate_block jl (ImageBlock a) = 4 + ceil4 (jl (image_json a))"

definition message_price :: "(json \<Rightarrow> nat) \<Rightarrow> message \<Rightarrow> int" where
  "message_price jl m = estimate_content jl (msg_content m) + 4"

definition estimate_system_tokens :: "epoch_header option \<Rightarrow> int" where
  "estimate_system_tokens h = (case Option.bind h hdr_system of None \<Rightarrow> 0 | Some s \<Rightarrow> ceil4 (length s) + 4)"

definition estimate_tools_tokens :: "(json \<Rightarrow> nat) \<Rightarrow> epoch_header option \<Rightarrow> int" where
  "estimate_tools_tokens jl h = (case Option.bind h hdr_tools of
     None \<Rightarrow> 0 | Some ts \<Rightarrow> if ts = [] then 0 else ceil4 (jl (JArr ts)) + 4)"

definition estimate_header :: "(json \<Rightarrow> nat) \<Rightarrow> epoch_header option \<Rightarrow> int" where
  "estimate_header jl h = estimate_system_tokens h + estimate_tools_tokens jl h"

section \<open>The priced surface\<close>

datatype meter_error =
    StepNested int
  | StepUnmatched int
  | InvalidRange int
  | MessageOutsideStep int
  | SourcesUnreadable int
  | SourceNotEarlier int int
  | SourceRepeated int int
  | SourceNotChunk int int
  | SourceOtherStep int int
  | SourceUnassembled assemble_error

definition event_price :: "(json \<Rightarrow> nat) \<Rightarrow> 'p event \<Rightarrow> int" where
  "event_price jl e = (case derive_event_message e of None \<Rightarrow> 0 | Some m \<Rightarrow> message_price jl m)"

text \<open>The next surface and the signed change of its total; the event's own price is \<open>event_price\<close>.\<close>

definition fold_surface_tokens :: "(json \<Rightarrow> nat) \<Rightarrow> priced \<Rightarrow> 'p event \<Rightarrow> meter_error + priced \<times> int" where
  "fold_surface_tokens jl nodes e =
     (let tokens = event_price jl e in
      if ev_surface_op e = Some (JStr ''append'') then Inr (nodes @ [(ev_seq e, tokens)], tokens)
      else case Option.bind (ev_surface_op e) replace_op_of of
        Some (OpReplace a b) \<Rightarrow>
          (case (index_of (map fst nodes) a, index_of (map fst nodes) b) of
             (Some i, Some j) \<Rightarrow>
               if i > j then Inl (InvalidRange (ev_seq e))
               else Inr (list_splice i (j - i + 1) [(ev_seq e, tokens)] nodes,
                 tokens - sum_list (map snd (take (j + 1 - i) (drop i nodes))))
           | _ \<Rightarrow> Inl (InvalidRange (ev_seq e)))
      | _ \<Rightarrow> Inl (InvalidRange (ev_seq e)))"

section \<open>Replay\<close>

datatype baseline = BaselineNone | BaselineEstimated int | BaselineUsage int token_usage

fun baseline_tokens :: "baseline \<Rightarrow> int" where
  "baseline_tokens BaselineNone = 0"
| "baseline_tokens (BaselineEstimated n) = n"
| "baseline_tokens (BaselineUsage n _) = n"

record anchor =
  an_header :: "epoch_header option"
  an_surface :: int
  an_baseline :: baseline

record meter_state =
  ms_consumed :: nat
  ms_header :: "epoch_header option"
  ms_surface :: priced
  ms_tokens :: int
  ms_step :: "(int \<times> int \<times> int) option"
  ms_anchor :: "anchor option"

definition fresh_meter :: meter_state where
  "fresh_meter = \<lparr>ms_consumed = 0, ms_header = None, ms_surface = [], ms_tokens = 0, ms_step = None, ms_anchor = None\<rparr>"

definition opt_count :: "int option \<Rightarrow> int" where
  "opt_count x = (case x of None \<Rightarrow> 0 | Some n \<Rightarrow> n)"

definition usage_tokens :: "token_usage \<Rightarrow> int" where
  "usage_tokens u = input_tokens u + opt_count (cache_read_tokens u) + opt_count (cache_write_tokens u) + output_tokens u"

lemma fresh_meter_fields [simp]:
  "ms_consumed fresh_meter = 0" "ms_header fresh_meter = None" "ms_surface fresh_meter = []" "ms_tokens fresh_meter = 0"
  "ms_step fresh_meter = None" "ms_anchor fresh_meter = None"
  by (simp_all add: fresh_meter_def)

text \<open>The loop of \<open>_estimateProviderAssistant\<close> over the cited seqs.\<close>

fun push_sources :: "'p event list \<Rightarrow> int \<Rightarrow> int \<Rightarrow> int \<Rightarrow> int list \<Rightarrow> int list \<Rightarrow> assembler \<Rightarrow> meter_error + assembler" where
  "push_sources evs at_seq turn step seen [] a = Inr a"
| "push_sources evs at_seq turn step seen (seq # seqs) a =
     (if seq \<ge> at_seq then Inl (SourceNotEarlier at_seq seq)
      else if seq \<in> set seen then Inl (SourceRepeated at_seq seq)
      else case map_option ev_data (array_at evs seq) of
        Some (AssistantChunk t s chunk) \<Rightarrow>
          if t \<noteq> turn \<or> s \<noteq> step then Inl (SourceOtherStep at_seq seq)
          else push_sources evs at_seq turn step (seq # seen) seqs (push chunk a)
      | _ \<Rightarrow> Inl (SourceNotChunk at_seq seq))"

definition estimate_provider_assistant ::
    "(json \<Rightarrow> nat) \<Rightarrow> 'p event list \<Rightarrow> 'p event \<Rightarrow> int \<Rightarrow> int \<Rightarrow> int \<Rightarrow> meter_error + int" where
  "estimate_provider_assistant jl evs e turn step stored = (case ev_sources e of
      None \<Rightarrow> Inr stored
    | Some (JArr vs) \<Rightarrow>
        (if list_all (\<lambda>v. event_seq_value v \<noteq> None) vs
         then rbind (push_sources evs (ev_seq e) turn step [] (List.map_filter event_seq_value vs) new_assembler) (\<lambda>a.
           case blocks a of
             Inl err \<Rightarrow> Inl (SourceUnassembled err)
           | Inr content \<Rightarrow> Inr (if content = [] then 0 else estimate_content jl content + 4))
         else Inl (SourcesUnreadable (ev_seq e)))
    | Some _ \<Rightarrow> Inl (SourcesUnreadable (ev_seq e)))"

definition next_step :: "'p event \<Rightarrow> meter_state \<Rightarrow> meter_error + (int \<times> int \<times> int) option" where
  "next_step e st = (case ev_data e of
      StepStart turn step \<Rightarrow> if ms_step st \<noteq> None then Inl (StepNested (ev_seq e)) else Inr (Some (turn, step, ms_tokens st))
    | StepEnd turn step \<Rightarrow>
        (case ms_step st of
           Some (t, s, _) \<Rightarrow> if t = turn \<and> s = step then Inr None else Inl (StepUnmatched (ev_seq e))
         | None \<Rightarrow> Inl (StepUnmatched (ev_seq e)))
    | _ \<Rightarrow> Inr (ms_step st))"

definition next_anchor ::
    "(json \<Rightarrow> nat) \<Rightarrow> 'p event list \<Rightarrow> 'p event \<Rightarrow> epoch_header option \<Rightarrow> meter_state \<Rightarrow> meter_error + anchor option" where
  "next_anchor jl evs e header st = (case ev_data e of
      AssistantMessage turn step m usage _ \<Rightarrow>
        (case ms_step st of
           None \<Rightarrow> Inl (MessageOutsideStep (ev_seq e))
         | Some (t, s, before) \<Rightarrow>
             if t \<noteq> turn \<or> s \<noteq> step then Inl (MessageOutsideStep (ev_seq e))
             else
               (case usage of
                  Some u \<Rightarrow>
                    if header \<noteq> None then
                      rbind (estimate_provider_assistant jl evs e turn step (event_price jl e)) (\<lambda>assistant.
                        let surface = before + assistant; provider = usage_tokens u; estimated = estimate_header jl header + surface in
                        Inr (Some \<lparr>an_header = header, an_surface = surface,
                          an_baseline = (if provider \<ge> estimated then BaselineUsage provider u else BaselineEstimated estimated)\<rparr>))
                    else Inr (Some \<lparr>an_header = header, an_surface = before + event_price jl e,
                      an_baseline = BaselineEstimated (estimate_header jl header + (before + event_price jl e))\<rparr>)
                | None \<Rightarrow> Inr (Some \<lparr>an_header = header, an_surface = before + event_price jl e,
                    an_baseline = BaselineEstimated (estimate_header jl header + (before + event_price jl e))\<rparr>)))
    | _ \<Rightarrow> Inr (ms_anchor st))"

text \<open>\<open>_foldEvent\<close>, with the count of consumed events that the loop of \<open>_sync\<close> advances after it.\<close>

definition meter_event :: "(json \<Rightarrow> nat) \<Rightarrow> 'p event list \<Rightarrow> meter_state \<Rightarrow> 'p event \<Rightarrow> meter_error + meter_state" where
  "meter_event jl evs st e =
     (let header = (case ev_data e of RequestHeader h _ \<Rightarrow> Some (canonical_header h) | _ \<Rightarrow> ms_header st) in
      rbind (next_step e st) (\<lambda>step.
      rbind (if is_surface_event e then fold_surface_tokens jl (ms_surface st) e else Inr (ms_surface st, 0)) (\<lambda>(nodes, delta).
      rbind (next_anchor jl evs e header st) (\<lambda>anchor.
        Inr \<lparr>ms_consumed = ms_consumed st + 1, ms_header = header, ms_surface = nodes, ms_tokens = ms_tokens st + delta,
          ms_step = step, ms_anchor = anchor\<rparr>))))"

fun sync_loop :: "(json \<Rightarrow> nat) \<Rightarrow> 'p event list \<Rightarrow> meter_state \<Rightarrow> 'p event list \<Rightarrow> meter_state \<times> meter_error option" where
  "sync_loop jl evs st [] = (st, None)"
| "sync_loop jl evs st (e # es) = (case meter_event jl evs st e of
      Inl err \<Rightarrow> (st, Some err) | Inr st' \<Rightarrow> sync_loop jl evs st' es)"

definition meter_sync :: "(json \<Rightarrow> nat) \<Rightarrow> 'p event list \<Rightarrow> meter_state \<Rightarrow> meter_state \<times> meter_error option" where
  "meter_sync jl evs st = sync_loop jl evs st (drop (ms_consumed st) evs)"

record measurement =
  mm_revision :: nat
  mm_baseline :: baseline
  mm_delta :: int
  mm_total :: int
  mm_surface :: int
  mm_nodes :: priced

definition optional_header_equals :: "epoch_header option \<Rightarrow> epoch_header option \<Rightarrow> bool" where
  "optional_header_equals a b = (case (a, b) of (Some x, Some y) \<Rightarrow> header_equals x y | (None, None) \<Rightarrow> True | _ \<Rightarrow> False)"

definition measurement_of :: "(json \<Rightarrow> nat) \<Rightarrow> epoch_header option \<Rightarrow> meter_state \<Rightarrow> measurement" where
  "measurement_of jl request st =
     (let header = (case request of None \<Rightarrow> ms_header st | Some h \<Rightarrow> Some (canonical_header h));
          (base, delta) = (case ms_anchor st of
             Some an \<Rightarrow>
               if optional_header_equals (an_header an) header then (an_baseline an, ms_tokens st - an_surface an)
               else if header = None \<and> ms_tokens st = 0 then (BaselineNone, 0)
               else (BaselineEstimated (estimate_header jl header + ms_tokens st), 0)
           | None \<Rightarrow>
               if header = None \<and> ms_tokens st = 0 then (BaselineNone, 0)
               else (BaselineEstimated (estimate_header jl header + ms_tokens st), 0))
      in \<lparr>mm_revision = ms_consumed st, mm_baseline = base, mm_delta = delta, mm_total = max 0 (baseline_tokens base + delta),
          mm_surface = ms_tokens st, mm_nodes = ms_surface st\<rparr>)"

definition measure :: "(json \<Rightarrow> nat) \<Rightarrow> 'p event list \<Rightarrow> epoch_header option \<Rightarrow> meter_state \<Rightarrow> meter_state \<times> (meter_error + measurement)" where
  "measure jl evs request st = (case meter_sync jl evs st of
      (st', Some err) \<Rightarrow> (st', Inl err)
    | (st', None) \<Rightarrow> (st', Inr (measurement_of jl request st')))"


section \<open>Prices are bounds from below\<close>

lemma ceil4_nonneg [simp]: "0 \<le> ceil4 n"
  by (simp add: ceil4_def)

lemma estimate_nonneg: "0 \<le> estimate_content jl bs" "0 \<le> estimate_block jl b"
  by (induction bs and b rule: estimate_content_estimate_block.induct) simp_all

lemma message_price_pos: "4 \<le> message_price jl m"
  by (simp add: message_price_def estimate_nonneg)

lemma event_price_nonneg: "0 \<le> event_price jl e"
  using message_price_pos by (auto simp: event_price_def split: option.splits intro: order_trans [OF _ message_price_pos])

section \<open>Replay in parts\<close>

lemma sync_loop_append:
  "sync_loop jl evs st (xs @ ys) = (case sync_loop jl evs st xs of
     (st', Some err) \<Rightarrow> (st', Some err) | (st', None) \<Rightarrow> sync_loop jl evs st' ys)"
  by (induction xs arbitrary: st) (auto split: sum.splits)

lemma meter_event_consumed: "meter_event jl evs st e = Inr st' \<Longrightarrow> ms_consumed st' = ms_consumed st + 1"
  by (auto simp: meter_event_def Let_def rbind_Inr_iff)

lemma sync_loop_consumed:
  "sync_loop jl evs st xs = (st', r) \<Longrightarrow> ms_consumed st \<le> ms_consumed st' \<and> ms_consumed st' \<le> ms_consumed st + length xs \<and>
     (r = None \<longrightarrow> ms_consumed st' = ms_consumed st + length xs)"
proof (induction xs arbitrary: st)
  case (Cons x xs)
  show ?case
  proof (cases "meter_event jl evs st x")
    case (Inr st1)
    with Cons.IH [of st1] Cons.prems meter_event_consumed [OF Inr] show ?thesis by auto
  qed (use Cons.prems in auto)
qed simp

text \<open>A stopped loop stops again at the same event.\<close>

lemma sync_loop_resume:
  "sync_loop jl evs st xs = (st', r) \<Longrightarrow> sync_loop jl evs st' (drop (ms_consumed st' - ms_consumed st) xs) = (st', r)"
proof (induction xs arbitrary: st)
  case (Cons x xs)
  show ?case
  proof (cases "meter_event jl evs st x")
    case (Inr st1)
    with Cons.prems have "sync_loop jl evs st1 xs = (st', r)" by simp
    with Cons.IH [OF this] sync_loop_consumed [OF this] meter_event_consumed [OF Inr] show ?thesis
      by (simp add: Suc_diff_le drop_Cons')
  qed (use Cons.prems in auto)
qed simp

text \<open>An event's fold reads the log only before the event.\<close>

lemma push_sources_grow:
  "e \<le> int (length evs) \<Longrightarrow> push_sources (evs @ more_evs) e turn step seen seqs a = push_sources evs e turn step seen seqs a"
  by (induction seqs arbitrary: seen a) (auto simp: array_at_append_left split: option.splits event_data.splits)

lemma estimate_assistant_grow:
  "ev_seq e \<le> int (length evs) \<Longrightarrow>
     estimate_provider_assistant jl (evs @ more_evs) e turn step stored = estimate_provider_assistant jl evs e turn step stored"
  by (simp add: estimate_provider_assistant_def push_sources_grow split: option.split json.split)

lemma next_anchor_grow:
  "ev_seq e \<le> int (length evs) \<Longrightarrow> next_anchor jl (evs @ more_evs) e header st = next_anchor jl evs e header st"
  by (cases "ev_data e") (simp_all add: next_anchor_def estimate_assistant_grow split: option.split)

lemma meter_event_grow:
  "ev_seq e \<le> int (length evs) \<Longrightarrow> meter_event jl (evs @ more_evs) st e = meter_event jl evs st e"
  by (simp add: meter_event_def next_anchor_grow)

lemma sync_loop_grow:
  "\<forall>e \<in> set xs. ev_seq e \<le> int (length evs) \<Longrightarrow> sync_loop jl (evs @ more_evs) st xs = sync_loop jl evs st xs"
  by (induction xs arbitrary: st) (auto simp: meter_event_grow split: sum.splits)

lemma contiguous_le: "contiguous evs \<Longrightarrow> e \<in> set evs \<Longrightarrow> ev_seq e \<le> int (length evs)"
  using contiguous_seq_nat by fastforce

lemma meter_sync_fresh: "meter_sync jl evs fresh_meter = sync_loop jl evs fresh_meter evs"
  by (simp add: meter_sync_def fresh_meter_def)

lemma meter_sync_snoc:
  assumes "contiguous (evs @ [e])"
  shows "meter_sync jl (evs @ [e]) fresh_meter = (case meter_sync jl evs fresh_meter of
      (st, Some err) \<Rightarrow> (st, Some err)
    | (st, None) \<Rightarrow> (case meter_event jl (evs @ [e]) st e of Inl err \<Rightarrow> (st, Some err) | Inr st' \<Rightarrow> (st', None)))"
proof -
  have "sync_loop jl (evs @ [e]) fresh_meter evs = sync_loop jl evs fresh_meter evs"
    using assms contiguous_append_left [OF assms] by (intro sync_loop_grow ballI contiguous_le)
  then show ?thesis by (simp add: meter_sync_fresh sync_loop_append split: option.splits prod.splits sum.splits)
qed

text \<open>
  The states the service's cache can hold for a session whose log is \<open>evs\<close>: it starts fresh, it is synced
  with the log as it is, and the log grows.
\<close>

inductive meter_cached :: "(json \<Rightarrow> nat) \<Rightarrow> 'p event list \<Rightarrow> meter_state \<Rightarrow> bool" for jl :: "json \<Rightarrow> nat" where
  cached_new: "meter_cached jl evs fresh_meter"
| cached_sync: "meter_cached jl evs st \<Longrightarrow> meter_cached jl evs (fst (meter_sync jl evs st))"
| cached_grow: "meter_cached jl evs st \<Longrightarrow> meter_cached jl (evs @ es) st"

lemma sync_after_prefix:
  assumes "contiguous (evs @ es)" and "meter_sync jl evs fresh_meter = (st, r)"
  shows "meter_sync jl (evs @ es) st = meter_sync jl (evs @ es) fresh_meter"
proof -
  have run: "sync_loop jl (evs @ es) fresh_meter evs = (st, r)"
    using assms contiguous_append_left [OF assms(1)] by (simp add: meter_sync_fresh sync_loop_grow contiguous_le)
  have n: "ms_consumed st \<le> length evs" and full: "r = None \<longrightarrow> ms_consumed st = length evs"
    using sync_loop_consumed [OF run] by (auto simp: fresh_meter_def)
  have "sync_loop jl (evs @ es) st (drop (ms_consumed st) evs) = (st, r)"
    using sync_loop_resume [OF run] by (simp add: fresh_meter_def)
  with run n show ?thesis by (simp add: meter_sync_def [of _ _ st] meter_sync_fresh sync_loop_append)
qed

lemma cached_prefix:
  "meter_cached jl evs st \<Longrightarrow> contiguous evs \<Longrightarrow>
     \<exists>pre es r. evs = pre @ es \<and> (meter_sync jl pre fresh_meter = (st, r))"
proof (induction rule: meter_cached.induct)
  case (cached_new evs)
  have "meter_sync jl [] fresh_meter = (fresh_meter, None)" by (simp add: meter_sync_fresh)
  then show ?case by fastforce
next
  case (cached_sync evs st)
  then obtain pre es r where "evs = pre @ es" "meter_sync jl pre fresh_meter = (st, r)" by auto
  with sync_after_prefix [of pre es jl st r] cached_sync.prems
  have "meter_sync jl evs fresh_meter = (fst (meter_sync jl evs st), snd (meter_sync jl evs fresh_meter))" by simp
  then show ?case by (metis append_Nil2)
next
  case (cached_grow evs st es)
  with contiguous_append_left show ?case by (metis append.assoc)
qed

lemma cached_sync_replay: "meter_cached jl evs st \<Longrightarrow> contiguous evs \<Longrightarrow> meter_sync jl evs st = meter_sync jl evs fresh_meter"
  using cached_prefix sync_after_prefix by metis

section \<open>The priced surface is the session's surface\<close>

definition node_prices :: "(json \<Rightarrow> nat) \<Rightarrow> 'p event list \<Rightarrow> int list \<Rightarrow> priced" where
  "node_prices jl evs = map (\<lambda>q. (q, event_price jl (evs ! nat q)))"

definition priced_surface :: "(json \<Rightarrow> nat) \<Rightarrow> 'p event list \<Rightarrow> priced" where
  "priced_surface jl evs = node_prices jl evs (surface_nodes evs)"

definition surface_price :: "(json \<Rightarrow> nat) \<Rightarrow> 'p event list \<Rightarrow> int" where
  "surface_price jl evs = sum_list (map snd (priced_surface jl evs))"

lemma fst_node_prices [simp]: "map fst (node_prices jl evs qs) = qs"
  by (simp add: node_prices_def comp_def)

lemma node_prices_append: "node_prices jl evs (xs @ ys) = node_prices jl evs xs @ node_prices jl evs ys"
  by (simp add: node_prices_def)

lemma node_prices_grow:
  "\<forall>q \<in> set qs. 0 \<le> q \<and> q < int (length evs) \<Longrightarrow> node_prices jl (evs @ es) qs = node_prices jl evs qs"
  by (auto simp: node_prices_def nth_append nat_less_iff)

lemma node_prices_last [simp]: "node_prices jl (evs @ [e]) [int (length evs)] = [(int (length evs), event_price jl e)]"
  by (simp add: node_prices_def)

lemma node_prices_nonneg: "list_all (\<lambda>p. 0 \<le> snd p) (node_prices jl evs qs)"
  by (simp add: node_prices_def list_all_iff event_price_nonneg)

lemma priced_surface_grow:
  assumes "ok (fold_surface evs)"
  shows "node_prices jl (evs @ es) (surface_nodes evs) = priced_surface jl evs"
  using fold_nodes_known [OF assms] by (simp add: priced_surface_def node_prices_grow nodes_known_def)

lemma fold_tokens_append:
  "ev_surface_op e = Some (JStr ''append'') \<Longrightarrow>
     fold_surface_tokens jl nodes e = Inr (nodes @ [(ev_seq e, event_price jl e)], event_price jl e)"
  by (simp add: fold_surface_tokens_def Let_def)

lemma fold_tokens_replace:
  assumes "replacement_range t a b = Inr (i, j, shadowed)" and "fs_nodes t = map fst nodes"
    and "ev_surface_op e = Some v" "v \<noteq> JStr ''append''" "replace_op_of v = Some (OpReplace a b)"
  shows "fold_surface_tokens jl nodes e =
      Inr (list_splice i (j - i + 1) [(ev_seq e, event_price jl e)] nodes,
        event_price jl e - sum_list (map snd (take (j + 1 - i) (drop i nodes))))"
  using assms by (auto simp: replacement_range_def fold_surface_tokens_def Let_def split: option.splits if_splits simp del: index_of_None)

lemma splice_prices:
  assumes "i \<le> j" and "j < length xs" and "length xs = length ps"
  shows "sum_list (map snd (list_splice i (j - i + 1) [(q, n :: int)] ps)) = sum_list (map snd ps) + n - sum_list (map snd (take (j + 1 - i) (drop i ps)))"
proof -
  have "ps = take i ps @ take (j + 1 - i) (drop i ps) @ drop (j + 1) ps"
    using assms by (metis append_take_drop_id drop_drop le_add_diff_inverse2 le_add1 le_trans)
  then have "sum_list (map snd ps) = sum_list (map snd (take i ps)) + sum_list (map snd (take (j + 1 - i) (drop i ps))) +
      sum_list (map snd (drop (j + 1) ps))"
    by (metis add.assoc map_append sum_list.append)
  then show ?thesis using assms by (simp add: list_splice_def)
qed

text \<open>One event: the priced surface follows the surface, and the change of its total is the fold's delta.\<close>

lemma fold_tokens_follow:
  assumes grown: "ok (fold_surface (evs @ [e]))" and e: "is_surface_event e"
  shows "fold_surface_tokens jl (priced_surface jl evs) e =
      Inr (priced_surface jl (evs @ [e]), surface_price jl (evs @ [e]) - surface_price jl evs)"
proof -
  let ?n = "int (length evs)"
  obtain t t' r where a: "apply_surface_event t e ?n (evs @ [e]) 0 = Inr (t', r)"
    and t: "surface_nodes evs = fs_nodes t" "surface_nodes (evs @ [e]) = fs_nodes t'" and fold: "ok (fold_surface evs)"
    using grown by (rule fold_snocE)
  have seq: "ev_seq e = ?n" using fold_surface_contiguous [OF grown] by (simp add: contiguous_snoc)
  have old: "node_prices jl (evs @ [e]) (fs_nodes t) = priced_surface jl evs"
    using priced_surface_grow [OF fold, of jl "[e]"] t(1) by simp
  from a obtain plan where p: "plan_surface_event t e ?n (evs @ [e]) 0 = Inr plan" "apply_surface_plan t plan = (t', r)"
    by (auto simp: apply_surface_event_def rbind_Inr_iff)
  from p(1) e obtain op where op: "surface_op_of e = Inr (Some op)"
    by (auto simp: plan_surface_event_def rbind_Inr_iff surface_op_of_def is_surface_event_def split: if_splits option.splits)
  show ?thesis
  proof (cases op)
    case OpAppend
    with op have "ev_surface_op e = Some (JStr ''append'')"
      by (auto simp: surface_op_of_def replace_op_of_def split: if_splits option.splits)
    moreover have "surface_nodes (evs @ [e]) = fs_nodes t @ [?n]"
      using p op OpAppend t(2) seq by (auto simp: plan_surface_event_def rbind_Inr_iff)
    ultimately show ?thesis
      using old by (simp add: fold_tokens_append seq priced_surface_def [of _ "evs @ [e]"] surface_price_def node_prices_append)
  next
    case (OpReplace x y)
    with op obtain v where v: "ev_surface_op e = Some v" "v \<noteq> JStr ''append''" "replace_op_of v = Some (OpReplace x y)"
      by (auto simp: surface_op_of_def split: if_splits option.splits)
    from p op OpReplace obtain i j shadowed where rr: "replacement_range t x y = Inr (i, j, shadowed)"
      and new: "surface_nodes (evs @ [e]) = list_splice i (j - i + 1) [?n] (fs_nodes t)"
      using t(2) seq by (auto simp: plan_surface_event_def rbind_Inr_iff)
    have ij: "i \<le> j" "j < length (fs_nodes t)"
      using rr by (auto simp: replacement_range_def dest: index_of_Some split: option.splits if_splits)
    have ps: "priced_surface jl (evs @ [e]) = list_splice i (j - i + 1) [(?n, event_price jl e)] (priced_surface jl evs)"
      unfolding priced_surface_def [of _ "evs @ [e]"] new old [symmetric] by (simp add: list_splice_def node_prices_def take_map drop_map)
    have "fold_surface_tokens jl (priced_surface jl evs) e = Inr (priced_surface jl (evs @ [e]),
        event_price jl e - sum_list (map snd (take (j + 1 - i) (drop i (priced_surface jl evs)))))"
      using fold_tokens_replace [OF rr _ v, of "priced_surface jl evs" jl] t(1) unfolding ps by (simp add: priced_surface_def seq)
    moreover have "length (fs_nodes t) = length (priced_surface jl evs)"
      using t(1) by (simp add: priced_surface_def node_prices_def)
    ultimately show ?thesis
      using splice_prices [OF ij, of "priced_surface jl evs" ?n "event_price jl e"] by (simp add: surface_price_def [of _ "evs @ [e]"] ps surface_price_def [of _ evs])
  qed
qed

lemma log_only_follow:
  assumes grown: "ok (fold_surface (evs @ [e]))" and e: "\<not> is_surface_event e"
  shows "priced_surface jl (evs @ [e]) = priced_surface jl evs"
proof -
  obtain t t' r where a: "apply_surface_event t e (int (length evs)) (evs @ [e]) 0 = Inr (t', r)"
    and t: "surface_nodes evs = fs_nodes t" "surface_nodes (evs @ [e]) = fs_nodes t'" and fold: "ok (fold_surface evs)"
    using grown by (rule fold_snocE)
  then have "t' = t"
    using e by (auto simp: apply_surface_event_def plan_surface_event_def rbind_Inr_iff surface_op_of_def is_surface_event_def
        split: if_splits option.splits)
  with t priced_surface_grow [OF fold, of jl "[e]"] show ?thesis by (simp add: priced_surface_def)
qed

text \<open>What a replay that was not stopped has computed.\<close>

definition meter_follows :: "(json \<Rightarrow> nat) \<Rightarrow> 'p event list \<Rightarrow> meter_state \<Rightarrow> bool" where
  "meter_follows jl evs st \<longleftrightarrow> ms_consumed st = length evs \<and> ms_surface st = priced_surface jl evs \<and> ms_tokens st = surface_price jl evs"

lemma meter_event_follows:
  assumes "ok (fold_surface (evs @ [e]))" and "meter_follows jl evs st" and "meter_event jl log_evs st e = Inr st'"
  shows "meter_follows jl (evs @ [e]) st'"
  using assms fold_tokens_follow [OF assms(1)] log_only_follow [OF assms(1)]
  by (auto simp: meter_follows_def meter_event_def Let_def rbind_Inr_iff surface_price_def split: if_splits)

lemma meter_sync_follows:
  "ok (fold_surface evs) \<Longrightarrow> meter_sync jl evs fresh_meter = (st, None) \<Longrightarrow> meter_follows jl evs st"
proof (induction evs arbitrary: st rule: rev_induct)
  case Nil
  then show ?case
    by (auto simp: meter_sync_def meter_follows_def fresh_meter_def surface_price_def priced_surface_def node_prices_def
        surface_nodes_def fold_surface_def create_fold_state_def)
next
  case (snoc e evs)
  from snoc.prems(1) have "contiguous (evs @ [e])" by (rule fold_surface_contiguous)
  from snoc.prems(2) [unfolded meter_sync_snoc [OF this]] obtain st0 where
    "meter_sync jl evs fresh_meter = (st0, None)" "meter_event jl (evs @ [e]) st0 e = Inr st"
    by (auto split: prod.splits option.splits sum.splits)
  with snoc.IH fold_surface_prefix [OF snoc.prems(1)] meter_event_follows [OF snoc.prems(1)] show ?case by blast
qed

section \<open>When the meter stops\<close>

text \<open>The provenance of a message with provider usage is readable.\<close>

definition sources_priced :: "(json \<Rightarrow> nat) \<Rightarrow> 'p event list \<Rightarrow> 'p event \<Rightarrow> bool" where
  "sources_priced jl evs e = (case ev_data e of
      AssistantMessage turn step _ (Some _) _ \<Rightarrow> ok (estimate_provider_assistant jl evs e turn step (event_price jl e))
    | _ \<Rightarrow> True)"

text \<open>The open step of the replay is the open step of the session trace.\<close>

definition step_agrees :: "meter_state \<Rightarrow> session_trace \<Rightarrow> bool" where
  "step_agrees st t \<longleftrightarrow> (case ms_step st of None \<Rightarrow> tr_open_step t = None
     | Some (n, m, _) \<Rightarrow> tr_open_turn t = Some n \<and> tr_open_step t = Some m)"

lemma step_agrees_step:
  assumes "step_agrees st t" and "trace_step t e = Inr t'"
  shows "\<exists>step. next_step e st = Inr step \<and> step_agrees (st\<lparr>ms_step := step\<rparr>) t'"
proof -
  from assms(2) obtain tt where v: "validate_event t e = Inr tt" and t': "t' = apply_transition t tt"
    by (auto simp: trace_step_Inr)
  show ?thesis
  proof (cases "marker_of (ev_data e)")
    case None
    then have "next_step e st = Inr (ms_step st)" by (cases "ev_data e") (simp_all add: next_step_def)
    with validate_event_plain [OF v None] assms(1) show ?thesis by (auto simp: step_agrees_def t' apply_transition_def split: option.splits)
  next
    case (Some k)
    with v assms(1) show ?thesis
      by (cases "ev_data e") (auto simp: validate_event_def unchanged_def require_open_step_def rbind_Inr_iff step_agrees_def
          next_step_def t' apply_transition_def split: if_splits option.splits)
  qed
qed

lemma anchor_accepts:
  assumes "step_agrees st t" and "trace_step t e = Inr t'" and "sources_priced jl log_evs e"
  shows "\<exists>an. next_anchor jl log_evs e header st = Inr an"
proof (cases "ev_data e")
  case (AssistantMessage turn step m usage x)
  with assms(2) have "tr_open_turn t = Some turn" "tr_open_step t = Some step"
    using validate_event_scope [of t e _ turn step] by (auto simp: trace_step_Inr)
  with assms(1) obtain before where "ms_step st = Some (turn, step, before)"
    by (auto simp: step_agrees_def split: option.splits)
  with AssistantMessage assms(3) show ?thesis
    by (auto simp: next_anchor_def sources_priced_def ok_iff Let_def split: option.splits)
qed (simp_all add: next_anchor_def)

lemma meter_event_accepts:
  assumes "step_agrees st t" and "trace_step t e = Inr t'" and "ok (fold_surface (evs @ [e]))" and "meter_follows jl evs st"
    and "sources_priced jl log_evs e"
  shows "\<exists>st'. meter_event jl log_evs st e = Inr st' \<and> step_agrees st' t'"
proof -
  obtain step where step: "next_step e st = Inr step" "step_agrees (st\<lparr>ms_step := step\<rparr>) t'"
    using step_agrees_step [OF assms(1,2)] by blast
  let ?h = "case ev_data e of RequestHeader h _ \<Rightarrow> Some (canonical_header h) | _ \<Rightarrow> ms_header st"
  obtain an where an: "next_anchor jl log_evs e ?h st = Inr an"
    using anchor_accepts [OF assms(1,2,5)] by blast
  obtain nodes delta where "(if is_surface_event e then fold_surface_tokens jl (ms_surface st) e else Inr (ms_surface st, 0)) = Inr (nodes, delta)"
    using fold_tokens_follow [OF assms(3), of jl] assms(4) by (cases "is_surface_event e") (auto simp: meter_follows_def)
  then show ?thesis
    using step an by (simp add: meter_event_def Let_def step_agrees_def)
qed

lemma meter_accepts:
  "ok (fold_surface evs) \<Longrightarrow> seed_session evs = Inr t \<Longrightarrow> \<forall>e \<in> set evs. sources_priced jl evs e \<Longrightarrow>
     \<exists>st. meter_sync jl evs fresh_meter = (st, None) \<and> step_agrees st t"
proof (induction evs arbitrary: t rule: rev_induct)
  case Nil
  then show ?case by (auto simp: meter_sync_def fresh_meter_def step_agrees_def seed_session_def fresh_trace_def)
next
  case (snoc e evs)
  have contig: "contiguous (evs @ [e])" using snoc.prems(1) by (rule fold_surface_contiguous)
  have fold: "ok (fold_surface evs)" using snoc.prems(1) by (rule fold_surface_prefix)
  from snoc.prems(2) obtain t0 where t0: "seed_session evs = Inr t0" "trace_step t0 e = Inr t"
    by (auto simp: seed_session_def replay_snoc_Inr)
  have "sources_priced jl evs x" if "x \<in> set evs" for x
  proof -
    have "ev_seq x \<le> int (length evs)" using contig that contiguous_append_left contiguous_le by blast
    then have "sources_priced jl (evs @ [e]) x = sources_priced jl evs x"
      by (simp add: sources_priced_def estimate_assistant_grow split: event_data.split option.split)
    with snoc.prems(3) that show ?thesis by simp
  qed
  with snoc.IH [OF fold t0(1)] obtain st where st: "meter_sync jl evs fresh_meter = (st, None)" "step_agrees st t0" by blast
  have "\<exists>st'. meter_event jl (evs @ [e]) st e = Inr st' \<and> step_agrees st' t"
    using meter_event_accepts [OF st(2) t0(2) snoc.prems(1) meter_sync_follows [OF fold st(1)]] snoc.prems(3) by simp
  with st(1) show ?case by (auto simp: meter_sync_snoc [OF contig])
qed

section \<open>The reading is never below the full heuristic price\<close>

lemma header_equals_price:
  "optional_header_equals a b \<Longrightarrow> estimate_header jl a = estimate_header jl b"
  by (cases a; cases b) (auto simp: optional_header_equals_def header_equals_def estimate_header_def estimate_system_tokens_def
      estimate_tools_tokens_def split: option.splits)

definition anchored :: "(json \<Rightarrow> nat) \<Rightarrow> anchor option \<Rightarrow> bool" where
  "anchored jl a \<longleftrightarrow> (case a of None \<Rightarrow> True
     | Some an \<Rightarrow> estimate_header jl (an_header an) + an_surface an \<le> baseline_tokens (an_baseline an))"

lemma next_anchor_anchored:
  "anchored jl (ms_anchor st) \<Longrightarrow> next_anchor jl evs e header st = Inr an \<Longrightarrow> anchored jl an"
  by (cases "ev_data e") (auto simp: next_anchor_def anchored_def Let_def rbind_Inr_iff split: option.splits if_splits)

lemma meter_event_anchored: "anchored jl (ms_anchor st) \<Longrightarrow> meter_event jl evs st e = Inr st' \<Longrightarrow> anchored jl (ms_anchor st')"
  by (auto simp: meter_event_def Let_def rbind_Inr_iff dest!: next_anchor_anchored)

lemma sync_loop_anchored: "anchored jl (ms_anchor st) \<Longrightarrow> anchored jl (ms_anchor (fst (sync_loop jl evs st xs)))"
  by (induction xs arbitrary: st) (auto simp: meter_event_anchored split: sum.split)

lemma estimate_header_None: "estimate_header jl None = 0"
  by (simp add: estimate_header_def estimate_system_tokens_def estimate_tools_tokens_def)

lemma measurement_above_price:
  assumes "anchored jl (ms_anchor st)"
  shows "estimate_header jl (case request of None \<Rightarrow> ms_header st | Some h \<Rightarrow> Some (canonical_header h)) + ms_tokens st
       \<le> mm_total (measurement_of jl request st)"
proof -
  define h where "h = (case request of None \<Rightarrow> ms_header st | Some h \<Rightarrow> Some (canonical_header h))"
  have "estimate_header jl h + ms_tokens st \<le> mm_total (measurement_of jl request st)"
  proof (cases "\<exists>an. ms_anchor st = Some an \<and> optional_header_equals (an_header an) h")
    case True
    then obtain an where an: "ms_anchor st = Some an" "optional_header_equals (an_header an) h" by blast
    with assms header_equals_price [OF an(2), of jl] show ?thesis
      by (simp add: measurement_of_def Let_def anchored_def flip: h_def)
  next
    case False
    then show ?thesis
      by (cases "ms_anchor st") (auto simp: measurement_of_def Let_def estimate_header_None simp flip: h_def)
  qed
  then show ?thesis by (simp add: h_def)
qed

lemma meter_event_header: "meter_event jl evs st e = Inr st' \<Longrightarrow> ms_header st' = header_step (ms_header st) e"
  by (auto simp: meter_event_def Let_def rbind_Inr_iff header_step_def)

lemma sync_loop_header: "sync_loop jl evs st xs = (st', None) \<Longrightarrow> ms_header st' = fold_request_header xs (ms_header st)"
  by (induction xs arbitrary: st) (auto simp: fold_request_header_def dest: meter_event_header split: sum.splits)

text \<open>The envelope a measurement is about: the one given, or the newest of the log.\<close>

definition effective_header :: "'p event list \<Rightarrow> epoch_header option \<Rightarrow> epoch_header option" where
  "effective_header evs request = (case request of None \<Rightarrow> fold_request_header evs None | Some h \<Rightarrow> Some (canonical_header h))"

section \<open>The interface\<close>

type_synonym 'p log_meter = "('p, meter_error) meter"

definition token_meter :: "(json \<Rightarrow> nat) \<Rightarrow> 'p log_meter" where
  "token_meter jl = \<lparr>measure_nodes = (\<lambda>evs. rbind (snd (measure jl evs None fresh_meter)) (\<lambda>m. Inr (mm_nodes m))),
     estimate_message = message_price jl\<rparr>"

lemma token_meter_price: "estimate_message (token_meter jl) = message_price jl"
  by (simp add: token_meter_def)

lemma measure_Inr: "snd (measure jl evs request st) = Inr m \<longleftrightarrow>
    (\<exists>st'. meter_sync jl evs st = (st', None) \<and> m = measurement_of jl request st')"
  by (auto simp: measure_def split: prod.splits option.splits)

lemma measurement_fields [simp]: "mm_nodes (measurement_of jl request st) = ms_surface st"
  "mm_surface (measurement_of jl request st) = ms_tokens st" "mm_revision (measurement_of jl request st) = ms_consumed st"
  by (simp_all add: measurement_of_def Let_def split: prod.split)

lemma token_meter_nodes:
  "ok (fold_surface evs) \<Longrightarrow> measure_nodes (token_meter jl) evs = Inr nodes \<Longrightarrow> nodes = priced_surface jl evs"
  by (auto simp: token_meter_def rbind_Inr_iff measure_Inr dest: meter_sync_follows simp: meter_follows_def)

lemma derived_price: "derive_event_message e = Some m \<Longrightarrow> event_price jl e = message_price jl m"
  by (simp add: event_price_def)

interpretation token_meter: surface_meter "token_meter jl"
proof
  fix evs :: "'a event list" and nodes
  assume "ok (fold_surface evs)" and "measure_nodes (token_meter jl) evs = Inr nodes"
  then have n: "nodes = priced_surface jl evs" by (rule token_meter_nodes)
  show "map fst nodes = surface_nodes evs" by (simp add: n priced_surface_def)
  show "list_all (\<lambda>p. 0 \<le> snd p) nodes" by (simp add: n priced_surface_def node_prices_nonneg)
  show "list_all (\<lambda>(q, n). \<forall>m. derive_event_message (evs ! nat q) = Some m \<longrightarrow> n = estimate_message (token_meter jl) m) nodes"
    by (auto simp: n priced_surface_def node_prices_def list_all_iff derived_price token_meter_def)
qed

section \<open>Properties\<close>

text \<open>
  The service's incremental cache is transparent: whatever was measured before, and however the log grew in
  between, measuring a session gives the value or the error of a replay of its whole log from nothing, and
  leaves the same state behind. An event the replay rejects is rejected again by every later measurement.
\<close>

theorem cached_measurement_is_a_replay:
  assumes "meter_cached jl evs st" and "contiguous evs"
  shows "measure jl evs request st = measure jl evs request fresh_meter"
  by (simp add: measure_def cached_sync_replay [OF assms])

definition sample_meter_log :: "unit event list" where
  "sample_meter_log = [log_event 0 5 (TurnStart 1), log_event 1 5 (StepStart 1 1),
     (log_event 2 5 (UserMessage sample_message))\<lparr>ev_surface_op := Some (JStr ''append'')\<rparr>, log_event 3 6 (StepEnd 1 1)]"

theorem cached_measurement_is_a_replay_witness:
  "measure (\<lambda>_. 0) sample_meter_log None (fst (meter_sync (\<lambda>_. 0) (take 2 sample_meter_log) fresh_meter)) =
   measure (\<lambda>_. 0) sample_meter_log None fresh_meter"
proof -
  have "meter_cached (\<lambda>_. 0) (take 2 sample_meter_log @ drop 2 sample_meter_log)
      (fst (meter_sync (\<lambda>_. 0) (take 2 sample_meter_log) fresh_meter))"
    by (intro meter_cached.intros)
  moreover have "contiguous sample_meter_log" by code_simp
  ultimately show ?thesis using cached_measurement_is_a_replay by fastforce
qed

text \<open>
  C12: On a log that the session's surface and turn invariants accept, with readable provenance wherever the
  provider reported usage, measuring succeeds: the nodes are the session's surface in order, each with the
  estimator's price of its message, the surface total is their sum, the revision is the length of the log, and
  the total is at least the heuristic price of the effective envelope and the surface.
\<close>

theorem measurement_prices_the_surface:
  assumes "ok (fold_surface evs)" and "seed_session evs = Inr t" and "\<forall>e \<in> set evs. sources_priced jl evs e"
    and "meter_cached jl evs st"
  shows "\<exists>m. snd (measure jl evs request st) = Inr m \<and> map fst (mm_nodes m) = surface_nodes evs \<and>
    list_all (\<lambda>(q, n). n = event_price jl (evs ! nat q) \<and> 0 \<le> n) (mm_nodes m) \<and>
    mm_surface m = sum_list (map snd (mm_nodes m)) \<and> mm_revision m = length evs \<and>
    estimate_header jl (effective_header evs request) + mm_surface m \<le> mm_total m"
proof -
  obtain s where s: "meter_sync jl evs fresh_meter = (s, None)" using meter_accepts [OF assms(1-3)] by blast
  have m: "snd (measure jl evs request st) = Inr (measurement_of jl request s)"
    using s by (simp add: measure_Inr cached_sync_replay [OF assms(4) fold_surface_contiguous [OF assms(1)]])
  have f: "meter_follows jl evs s" using meter_sync_follows [OF assms(1) s] .
  have "anchored jl (ms_anchor fresh_meter)" by (simp add: anchored_def)
  with sync_loop_anchored [of jl fresh_meter evs evs] s have "anchored jl (ms_anchor s)" by (simp add: meter_sync_fresh)
  moreover have "ms_header s = fold_request_header evs None"
    using sync_loop_header [of jl evs fresh_meter evs s] s by (simp add: meter_sync_fresh)
  ultimately have "estimate_header jl (effective_header evs request) + ms_tokens s \<le> mm_total (measurement_of jl request s)"
    using measurement_above_price [of jl s request] by (simp add: effective_header_def split: option.splits)
  with m f show ?thesis
    by (auto simp: meter_follows_def surface_price_def priced_surface_def node_prices_def list_all_iff event_price_nonneg comp_def)
qed

theorem measurement_prices_the_surface_witness:
  "\<exists>m. snd (measure (\<lambda>_. 0) sample_meter_log None fresh_meter) = Inr m \<and> map fst (mm_nodes m) = [2]"
proof -
  have "ok (fold_surface sample_meter_log)" by code_simp
  moreover have "\<exists>t. seed_session sample_meter_log = Inr t"
    by (simp add: sample_meter_log_def seed_session_def fresh_trace_def trace_step_def validate_event_def unchanged_def
        require_open_step_def apply_transition_def)
  moreover have "\<forall>e \<in> set sample_meter_log. sources_priced (\<lambda>_. 0) sample_meter_log e"
    by (simp add: sample_meter_log_def sources_priced_def)
  moreover have "surface_nodes sample_meter_log = [2]" by code_simp
  ultimately show ?thesis
    using measurement_prices_the_surface [OF _ _ _ cached_new, of sample_meter_log _ "\<lambda>_. 0" None] by metis
qed

end
