(* ===== verification/Token_Projection.thy ===== *)
theory Token_Projection
  imports Token_Meter
begin

text \<open>
  The projections of the token meter (\<open>surface-projection.ts\<close>, \<open>usage-projection.ts\<close>,
  \<open>breakdown-projection.ts\<close> of \<open>packages/llm/token-meter/src\<close>): folds of constant size over the log, which
  replace the meter's priced surface by one running total and the shadow prices that the rewriting components
  log just before each replacement.
\<close>

section \<open>The surface total\<close>

record price_claim =
  pcl_start :: int
  pcl_end :: int
  pcl_tokens :: rat

datatype projection_error = ClaimMismatch int

text \<open>The shadow price an event states.\<close>

definition claim_of :: "compaction_event event \<Rightarrow> price_claim option" where
  "claim_of e = (case ev_data e of
      PluginEvent (CompactionSummary s) \<Rightarrow>
        Some \<lparr>pcl_start = fst (cs_range s), pcl_end = snd (cs_range s), pcl_tokens = cs_tokens s\<rparr>
    | PluginEvent (CompactionPrune r _ n) \<Rightarrow> Some \<lparr>pcl_start = fst r, pcl_end = snd r, pcl_tokens = n\<rparr>
    | _ \<Rightarrow> None)"

definition replaced_range :: "'p event \<Rightarrow> (int \<times> int) option" where
  "replaced_range e = (case Option.bind (ev_surface_op e) replace_op_of of Some (OpReplace a b) \<Rightarrow> Some (a, b) | _ \<Rightarrow> None)"

definition fold_surface_projection ::
    "(json \<Rightarrow> nat) \<Rightarrow> price_claim option \<Rightarrow> compaction_event event \<Rightarrow> projection_error + rat \<times> price_claim option" where
  "fold_surface_projection jl claim e = (case claim_of e of
      Some c \<Rightarrow> Inr (0, Some c)
    | None \<Rightarrow>
        if \<not> is_surface_event e then Inr (0, None)
        else if ev_surface_op e = Some (JStr ''append'') then Inr (of_int (event_price jl e), None)
        else (case claim of
            None \<Rightarrow> Inr (0, None)
          | Some c \<Rightarrow>
              if replaced_range e \<noteq> Some (pcl_start c, pcl_end c) then Inl (ClaimMismatch (ev_seq e))
              else Inr (of_int (event_price jl e) - pcl_tokens c, None)))"

section \<open>Context composition\<close>

record breakdown =
  bd_system :: int
  bd_tools :: int
  bd_messages :: rat
  bd_claim :: "price_claim option"

definition breakdown_init :: breakdown where
  "breakdown_init = \<lparr>bd_system = 0, bd_tools = 0, bd_messages = 0, bd_claim = None\<rparr>"

definition breakdown_apply :: "(json \<Rightarrow> nat) \<Rightarrow> breakdown \<Rightarrow> compaction_event event \<Rightarrow> projection_error + breakdown" where
  "breakdown_apply jl s e = rbind (fold_surface_projection jl (bd_claim s) e) (\<lambda>(delta, claim).
     let (sys, tools) = (case ev_data e of
         RequestHeader h _ \<Rightarrow> (estimate_system_tokens (Some (canonical_header h)), estimate_tools_tokens jl (Some (canonical_header h)))
       | _ \<Rightarrow> (bd_system s, bd_tools s))
     in if sys = bd_system s \<and> tools = bd_tools s \<and> delta = 0 \<and> claim = None \<and> bd_claim s = None then Inr s
        else Inr \<lparr>bd_system = sys, bd_tools = tools, bd_messages = bd_messages s + delta, bd_claim = claim\<rparr>)"

section \<open>Context occupancy\<close>

record pressure =
  pr_window :: "int option"
  pr_pressure :: "int option"
  pr_surface :: rat
  pr_sampled :: "rat option"
  pr_claim :: "price_claim option"

record pressure_view =
  pv_window :: "int option"
  pv_pressure :: "int option"
  pv_projected :: "rat option"

definition pressure_init :: pressure where
  "pressure_init = \<lparr>pr_window = None, pr_pressure = None, pr_surface = 0, pr_sampled = None, pr_claim = None\<rparr>"

definition pressure_from :: "token_usage \<Rightarrow> int" where
  "pressure_from u = input_tokens u + opt_count (cache_read_tokens u) + opt_count (cache_write_tokens u)"

definition usage_of :: "'p event \<Rightarrow> token_usage option" where
  "usage_of e = (case ev_data e of
      AssistantChunk _ _ (UsageChunk u) \<Rightarrow> Some u
    | AssistantMessage _ _ _ u _ \<Rightarrow> u
    | _ \<Rightarrow> None)"

definition pressure_apply :: "(json \<Rightarrow> nat) \<Rightarrow> pressure \<Rightarrow> compaction_event event \<Rightarrow> projection_error + pressure" where
  "pressure_apply jl s e = rbind (fold_surface_projection jl (pr_claim s) e) (\<lambda>(delta, claim).
     let s1 = (case ev_data e of
           RequestContext c \<Rightarrow> if ctx_window c \<noteq> pr_window s then s\<lparr>pr_window := ctx_window c\<rparr> else s
         | _ \<Rightarrow> s);
         s2 = (case usage_of e of
           None \<Rightarrow> s1
         | Some u \<Rightarrow>
             if Some (pressure_from u) \<noteq> pr_pressure s1 \<or> pr_sampled s1 \<noteq> Some (pr_surface s1)
             then s1\<lparr>pr_pressure := Some (pressure_from u), pr_sampled := Some (pr_surface s1)\<rparr> else s1);
         s3 = (if delta \<noteq> 0 then s2\<lparr>pr_surface := pr_surface s2 + delta\<rparr> else s2)
     in Inr (if pr_claim s = None \<and> claim = None then s3 else s3\<lparr>pr_claim := claim\<rparr>))"

definition pressure_view_of :: "pressure \<Rightarrow> pressure_view" where
  "pressure_view_of s = \<lparr>pv_window = pr_window s, pv_pressure = pr_pressure s,
     pv_projected = (case (pr_pressure s, pr_sampled s) of
         (Some p, Some q) \<Rightarrow> Some (max 0 (of_int p + pr_surface s - q)) | _ \<Rightarrow> None)\<rparr>"

section \<open>Cumulative usage\<close>

record usage_buckets =
  ub_input :: int
  ub_output :: int
  ub_read :: int
  ub_write :: int

record usage_state =
  us_totals :: usage_buckets
  us_last :: "(int \<times> int \<times> usage_buckets) option"

definition zero_buckets :: usage_buckets where
  "zero_buckets = \<lparr>ub_input = 0, ub_output = 0, ub_read = 0, ub_write = 0\<rparr>"

definition buckets_from :: "token_usage \<Rightarrow> usage_buckets" where
  "buckets_from u = \<lparr>ub_input = input_tokens u, ub_output = output_tokens u, ub_read = opt_count (cache_read_tokens u),
     ub_write = opt_count (cache_write_tokens u)\<rparr>"

definition add_replacing :: "usage_buckets \<Rightarrow> usage_buckets option \<Rightarrow> usage_buckets \<Rightarrow> usage_buckets" where
  "add_replacing totals prev new =
     (let old = (\<lambda>f. case prev of None \<Rightarrow> 0 | Some b \<Rightarrow> f b) in
      \<lparr>ub_input = ub_input totals - old ub_input + ub_input new, ub_output = ub_output totals - old ub_output + ub_output new,
       ub_read = ub_read totals - old ub_read + ub_read new, ub_write = ub_write totals - old ub_write + ub_write new\<rparr>)"

definition usage_init :: usage_state where
  "usage_init = \<lparr>us_totals = zero_buckets, us_last = None\<rparr>"

text \<open>The report an event carries: turn, step and usage.\<close>

definition usage_report :: "'p event \<Rightarrow> ((int \<times> int) \<times> usage_buckets) option" where
  "usage_report e = (case ev_data e of
      AssistantChunk n m (UsageChunk u) \<Rightarrow> Some ((n, m), buckets_from u)
    | AssistantMessage n m _ (Some u) _ \<Rightarrow> Some ((n, m), buckets_from u)
    | _ \<Rightarrow> None)"

definition usage_apply :: "usage_state \<Rightarrow> 'p event \<Rightarrow> usage_state" where
  "usage_apply s e = (case usage_report e of
      None \<Rightarrow> s
    | Some ((n, m), b) \<Rightarrow>
        let prev = (case us_last s of Some (n', m', b') \<Rightarrow> if n' = n \<and> m' = m then Some b' else None | None \<Rightarrow> None) in
        if prev = Some b then s else \<lparr>us_totals = add_replacing (us_totals s) prev b, us_last = Some (n, m, b)\<rparr>)"

definition usage_totals :: "'p event list \<Rightarrow> usage_buckets" where
  "usage_totals evs = us_totals (fold (\<lambda>e s. usage_apply s e) evs usage_init)"

section \<open>Logs whose replacements are metered\<close>

text \<open>
  An event of a log is metered when it is no replacement, or the event just before it states the exact range
  it replaces and the price of the nodes in that range.
\<close>

definition range_price :: "(json \<Rightarrow> nat) \<Rightarrow> 'p event list \<Rightarrow> int \<Rightarrow> int \<Rightarrow> int" where
  "range_price jl evs a b = (let ns = surface_nodes evs in
     case (index_of ns a, index_of ns b) of
       (Some i, Some j) \<Rightarrow> sum_list (map snd (node_prices jl evs (take (j + 1 - i) (drop i ns))))
     | _ \<Rightarrow> 0)"

definition metered_at :: "(json \<Rightarrow> nat) \<Rightarrow> compaction_event event list \<Rightarrow> compaction_event event \<Rightarrow> bool" where
  "metered_at jl evs e \<longleftrightarrow> (if is_replacement_surface_event e
     then (case replaced_range e of None \<Rightarrow> False
       | Some (a, b) \<Rightarrow> evs \<noteq> [] \<and>
           claim_of (last evs) = Some \<lparr>pcl_start = a, pcl_end = b, pcl_tokens = of_int (range_price jl evs a b)\<rparr>)
     else True)"

definition fully_metered :: "(json \<Rightarrow> nat) \<Rightarrow> compaction_event event list \<Rightarrow> bool" where
  "fully_metered jl evs \<longleftrightarrow> list_all (\<lambda>k. metered_at jl (take k evs) (evs ! k)) [0..<length evs]"

lemma fully_metered_snoc: "fully_metered jl (evs @ [e]) \<longleftrightarrow> fully_metered jl evs \<and> metered_at jl evs e"
  by (auto simp: fully_metered_def list_all_iff nth_append)

definition armed :: "compaction_event event list \<Rightarrow> price_claim option" where
  "armed evs = (if evs = [] then None else claim_of (last evs))"

lemma armed_snoc [simp]: "armed (evs @ [e]) = claim_of e"
  by (simp add: armed_def)

lemma armed_Nil [simp]: "armed [] = None"
  by (simp add: armed_def)

lemma claim_not_surface: "claim_of e = Some c \<Longrightarrow> \<not> is_surface_event e"
  by (cases "ev_data e") (simp_all add: claim_of_def is_surface_event_def)

lemma replacement_range_price:
  assumes "ok (fold_surface (evs @ [e]))" and "is_replacement_surface_event e"
  shows "\<exists>a b. replaced_range e = Some (a, b) \<and>
    surface_price jl (evs @ [e]) - surface_price jl evs = event_price jl e - range_price jl evs a b"
proof -
  have e: "is_surface_event e" "ev_surface_op e \<noteq> Some (JStr ''append'')"
    using assms(2) by (simp_all add: is_replacement_surface_event_def)
  have f: "fold_surface_tokens jl (priced_surface jl evs) e =
      Inr (priced_surface jl (evs @ [e]), surface_price jl (evs @ [e]) - surface_price jl evs)"
    using fold_tokens_follow [OF assms(1) e(1)] .
  have n: "map fst (priced_surface jl evs) = surface_nodes evs" by (simp add: priced_surface_def)
  from f e(2) obtain a b i j where r: "Option.bind (ev_surface_op e) replace_op_of = Some (OpReplace a b)"
    "index_of (surface_nodes evs) a = Some i" "index_of (surface_nodes evs) b = Some j"
    "surface_price jl (evs @ [e]) - surface_price jl evs =
       event_price jl e - sum_list (map snd (take (j + 1 - i) (drop i (priced_surface jl evs))))"
    unfolding fold_surface_tokens_def Let_def n
    by (auto split: option.splits surface_op.splits if_splits simp del: index_of_None)
  moreover have "take (j + 1 - i) (drop i (priced_surface jl evs)) =
      node_prices jl evs (take (j + 1 - i) (drop i (surface_nodes evs)))"
    by (simp add: priced_surface_def node_prices_def take_map drop_map)
  ultimately show ?thesis
    by (intro exI [of _ a] exI [of _ b]) (simp add: replaced_range_def range_price_def)
qed

text \<open>One event of a metered log moves the projection's total exactly as the surface's price moves.\<close>

lemma projection_step:
  assumes "ok (fold_surface (evs @ [e]))" and "metered_at jl evs e"
  shows "fold_surface_projection jl (armed evs) e =
    Inr (of_int (surface_price jl (evs @ [e]) - surface_price jl evs), claim_of e)"
proof (cases "is_surface_event e")
  case False
  then have "surface_price jl (evs @ [e]) = surface_price jl evs"
    using log_only_follow [OF assms(1)] by (simp add: surface_price_def)
  with False show ?thesis by (simp add: fold_surface_projection_def split: option.split)
next
  case True
  then have c: "claim_of e = None" using claim_not_surface by (cases "claim_of e") auto
  show ?thesis
  proof (cases "ev_surface_op e = Some (JStr ''append'')")
    case append: True
    then have "surface_price jl (evs @ [e]) - surface_price jl evs = event_price jl e"
      using fold_tokens_follow [OF assms(1) True, of jl] by (simp add: fold_tokens_append)
    with append True c show ?thesis by (simp add: fold_surface_projection_def)
  next
    case False
    with True have r: "is_replacement_surface_event e" by (simp add: is_replacement_surface_event_def)
    from replacement_range_price [OF assms(1) r, of jl] obtain a b where ab: "replaced_range e = Some (a, b)"
      "surface_price jl (evs @ [e]) - surface_price jl evs = event_price jl e - range_price jl evs a b" by blast
    with assms(2) r have "armed evs = Some \<lparr>pcl_start = a, pcl_end = b, pcl_tokens = of_int (range_price jl evs a b)\<rparr>"
      by (simp add: metered_at_def armed_def)
    with ab c True False show ?thesis by (simp add: fold_surface_projection_def)
  qed
qed

lemma surface_price_Nil [simp]: "surface_price jl [] = 0"
  by (simp add: surface_price_def priced_surface_def node_prices_def surface_nodes_def fold_surface_def create_fold_state_def)

definition breakdown_of :: "(json \<Rightarrow> nat) \<Rightarrow> compaction_event event list \<Rightarrow> breakdown" where
  "breakdown_of jl evs = (let h = fold_request_header evs None in
     \<lparr>bd_system = estimate_system_tokens h, bd_tools = estimate_tools_tokens jl h, bd_messages = of_int (surface_price jl evs),
      bd_claim = armed evs\<rparr>)"

lemma fold_header_snoc: "fold_request_header (evs @ [e]) h = header_step (fold_request_header evs h) e"
  by (simp add: fold_request_header_def)

lemma breakdown_step:
  assumes "ok (fold_surface (evs @ [e]))" and "metered_at jl evs e"
  shows "breakdown_apply jl (breakdown_of jl evs) e = Inr (breakdown_of jl (evs @ [e]))"
  using projection_step [OF assms]
  by (cases "ev_data e") (auto simp: breakdown_apply_def breakdown_of_def Let_def fold_header_snoc header_step_def)

lemma breakdown_run:
  "ok (fold_surface evs) \<Longrightarrow> fully_metered jl evs \<Longrightarrow> replay (breakdown_apply jl) breakdown_init evs = Inr (breakdown_of jl evs)"
proof (induction evs rule: rev_induct)
  case Nil
  then show ?case
    by (simp add: breakdown_init_def breakdown_of_def fold_request_header_def estimate_system_tokens_def estimate_tools_tokens_def)
next
  case (snoc e evs)
  then show ?case
    using fold_surface_prefix [of evs "[e]"] by (simp add: replay_snoc fully_metered_snoc breakdown_step)
qed

text \<open>The newest usage sample of a log: its pressure, and the price of the surface just before it.\<close>

definition newest_sample :: "(json \<Rightarrow> nat) \<Rightarrow> 'p event list \<Rightarrow> (int \<times> int) option" where
  "newest_sample jl evs = fold (\<lambda>k s. case usage_of (evs ! k) of
       Some u \<Rightarrow> Some (pressure_from u, surface_price jl (take k evs)) | None \<Rightarrow> s) [0..<length evs] None"

lemma newest_sample_snoc:
  "newest_sample jl (evs @ [e]) = (case usage_of e of
     Some u \<Rightarrow> Some (pressure_from u, surface_price jl evs) | None \<Rightarrow> newest_sample jl evs)"
proof -
  let ?f = "\<lambda>xs k s. case usage_of (xs ! k) of Some u \<Rightarrow> Some (pressure_from u, surface_price jl (take k xs)) | None \<Rightarrow> s"
  have "fold (?f (evs @ [e])) [0..<length evs] None = fold (?f evs) [0..<length evs] None"
    by (rule fold_cong) (auto simp: nth_append split: option.split intro!: ext)
  then show ?thesis by (simp add: newest_sample_def split: option.split)
qed

definition newest_context :: "'p event list \<Rightarrow> request_context option" where
  "newest_context evs = fold (\<lambda>e s. context_step s e) evs None"

definition pressure_of :: "(json \<Rightarrow> nat) \<Rightarrow> compaction_event event list \<Rightarrow> pressure" where
  "pressure_of jl evs =
     \<lparr>pr_window = Option.bind (newest_context evs) ctx_window, pr_pressure = map_option fst (newest_sample jl evs),
      pr_surface = of_int (surface_price jl evs), pr_sampled = map_option (\<lambda>p. of_int (snd p)) (newest_sample jl evs),
      pr_claim = armed evs\<rparr>"

lemma newest_context_snoc: "newest_context (evs @ [e]) = context_step (newest_context evs) e"
  by (simp add: newest_context_def)

lemma projected_view:
  "pv_projected (pressure_view_of \<lparr>pr_window = w, pr_pressure = map_option fst x, pr_surface = of_int n,
      pr_sampled = map_option (\<lambda>p. of_int (snd p)) x, pr_claim = c\<rparr>) =
     (case x of None \<Rightarrow> None | Some (p, q) \<Rightarrow> Some (of_int (max 0 (p + n - q))))"
proof (cases x)
  case (Some pq)
  have "max 0 (rat_of_int p + rat_of_int n - rat_of_int q) = of_int (max 0 (p + n - q))" for p q :: int
    by (simp add: max_def flip: of_int_add of_int_diff)
  with Some show ?thesis by (cases pq) (simp add: pressure_view_of_def)
qed (simp add: pressure_view_of_def)

lemma usage_of_context: "ev_data e = RequestContext c \<Longrightarrow> usage_of e = None"
  by (simp add: usage_of_def)

lemma pressure_step:
  assumes "ok (fold_surface (evs @ [e]))" and "metered_at jl evs e"
  shows "pressure_apply jl (pressure_of jl evs) e = Inr (pressure_of jl (evs @ [e]))"
proof (cases "\<exists>c. ev_data e = RequestContext c")
  case True
  then obtain c where c: "ev_data e = RequestContext c" by blast
  then show ?thesis
    using projection_step [OF assms] usage_of_context [OF c]
    by (auto simp: pressure_apply_def pressure_of_def Let_def newest_context_snoc newest_sample_snoc context_step_def)
next
  case False
  then have c: "context_step s e = s" for s by (cases "ev_data e") (simp_all add: context_step_def)
  have d: "(case ev_data e of RequestContext c \<Rightarrow> f c | _ \<Rightarrow> x) = x" for f x using False by (cases "ev_data e") simp_all
  show ?thesis
    using projection_step [OF assms]
    by (cases "usage_of e") (auto simp: pressure_apply_def pressure_of_def Let_def newest_context_snoc newest_sample_snoc c d)
qed

lemma pressure_run:
  "ok (fold_surface evs) \<Longrightarrow> fully_metered jl evs \<Longrightarrow> replay (pressure_apply jl) pressure_init evs = Inr (pressure_of jl evs)"
proof (induction evs rule: rev_induct)
  case Nil
  then show ?case by (simp add: pressure_init_def pressure_of_def newest_context_def newest_sample_def)
next
  case (snoc e evs)
  then show ?case
    using fold_surface_prefix [of evs "[e]"] by (simp add: replay_snoc fully_metered_snoc pressure_step)
qed

section \<open>Usage counts every step once\<close>

text \<open>The newest report of each step.\<close>

definition step_usage :: "'p event list \<Rightarrow> (int \<times> int) \<rightharpoonup> usage_buckets" where
  "step_usage evs = fold (\<lambda>e f. case usage_report e of Some (k, b) \<Rightarrow> f(k \<mapsto> b) | None \<Rightarrow> f) evs Map.empty"

lemma step_usage_snoc:
  "step_usage (evs @ [e]) = (case usage_report e of Some (k, b) \<Rightarrow> (step_usage evs)(k \<mapsto> b) | None \<Rightarrow> step_usage evs)"
  by (simp add: step_usage_def split: option.split)

definition bucket_sum :: "((int \<times> int) \<rightharpoonup> usage_buckets) \<Rightarrow> (usage_buckets \<Rightarrow> int) \<Rightarrow> int" where
  "bucket_sum f g = (\<Sum>k\<in>dom f. g (the (f k)))"

definition counts :: "usage_buckets \<Rightarrow> ((int \<times> int) \<rightharpoonup> usage_buckets) \<Rightarrow> bool" where
  "counts u f \<longleftrightarrow> ub_input u = bucket_sum f ub_input \<and> ub_output u = bucket_sum f ub_output \<and>
     ub_read u = bucket_sum f ub_read \<and> ub_write u = bucket_sum f ub_write"

lemma bucket_sum_upd:
  assumes "finite (dom f)"
  shows "bucket_sum (f(k \<mapsto> b)) g = bucket_sum f g - (case f k of None \<Rightarrow> 0 | Some b' \<Rightarrow> g b') + g b"
proof -
  have new: "bucket_sum (f(k \<mapsto> b)) g = g b + (\<Sum>x\<in>dom f - {k}. g (the (f x)))"
    using assms by (simp add: bucket_sum_def sum.insert_remove)
  have old: "bucket_sum f g = (case f k of None \<Rightarrow> 0 | Some b' \<Rightarrow> g b') + (\<Sum>x\<in>dom f - {k}. g (the (f x)))"
    using assms by (cases "k \<in> dom f") (auto simp: bucket_sum_def sum.remove dom_def split: option.split)
  show ?thesis using new old by simp
qed

text \<open>The place of the last report: a step before the one that is open or next.\<close>

definition report_place :: "session_trace \<Rightarrow> int \<Rightarrow> int \<Rightarrow> bool" where
  "report_place t n m \<longleftrightarrow> n < tr_next_turn t \<or> n = tr_next_turn t \<and> tr_open_turn t = Some n \<and>
     (m < tr_next_step t \<or> m = tr_next_step t \<and> tr_open_step t = Some m)"

text \<open>What holds of the fold along a log that the session trace accepts.\<close>

definition usage_inv :: "'p event list \<Rightarrow> session_trace \<Rightarrow> usage_state \<Rightarrow> bool" where
  "usage_inv evs t s \<longleftrightarrow> finite (dom (step_usage evs)) \<and> counts (us_totals s) (step_usage evs) \<and>
     (case us_last s of None \<Rightarrow> step_usage evs = Map.empty
      | Some (n, m, b) \<Rightarrow> step_usage evs (n, m) = Some b \<and>
          (\<forall>(n', m') \<in> dom (step_usage evs). n' < n \<or> n' = n \<and> m' \<le> m) \<and>
          report_place t n m)"

lemma usage_scope: "usage_report e = Some (k, b) \<Longrightarrow> scope_of e = Some k \<and> marker_of (ev_data e) = None"
  by (cases "ev_data e") (auto simp: usage_report_def split: stream_chunk.splits option.splits)

lemma no_report_marker: "marker_of (ev_data e) = Some k \<Longrightarrow> usage_report e = None"
  by (cases "ev_data e") (simp_all add: usage_report_def)

lemma counts_upd:
  assumes "finite (dom f)" and "counts u f" and "prev = f k"
  shows "counts (add_replacing u prev b) (f(k \<mapsto> b))"
  using assms by (simp add: counts_def add_replacing_def Let_def bucket_sum_upd split: option.split)

lemma report_place_step:
  assumes "trace_history evs t" and "trace_step t e = Inr t'" and "report_place t n m"
  shows "report_place t' n m"
proof -
  from assms(2) obtain tt where v: "validate_event t e = Inr tt" and t': "t' = apply_transition t tt"
    by (auto simp: trace_step_Inr)
  show ?thesis
  proof (cases "marker_of (ev_data e)")
    case None
    with validate_event_plain [OF v None] assms(3) show ?thesis by (simp add: report_place_def t' apply_transition_def)
  next
    case (Some k)
    with v assms(3) show ?thesis
      by (cases "ev_data e") (auto simp: validate_event_def unchanged_def require_open_step_def rbind_Inr_iff report_place_def
          t' apply_transition_def split: if_splits)
  qed
qed

lemma trace_open_numbers:
  "trace_history evs t \<Longrightarrow> tr_open_turn t = Some n \<Longrightarrow> n = tr_next_turn t"
  "trace_history evs t \<Longrightarrow> tr_open_turn t = Some n \<Longrightarrow> tr_open_step t = Some m \<Longrightarrow> m = tr_next_step t"
proof -
  assume h: "trace_history evs t" "tr_open_turn t = Some n"
  show "n = tr_next_turn t" using h by (cases "tr_open_step t") (auto simp: trace_history_def)
  show "m = tr_next_step t" if "tr_open_step t = Some m" using h that by (auto simp: trace_history_def)
qed

text \<open>A step that is open can only have reported last.\<close>

lemma open_step_reports_last:
  assumes i: "usage_inv evs t s" and nums: "n = tr_next_turn t" "m = tr_next_step t" and k: "(n, m) \<in> dom (step_usage evs)"
  shows "\<exists>b. us_last s = Some (n, m, b)"
proof (cases "us_last s")
  case None
  with i k show ?thesis by (simp add: usage_inv_def)
next
  case (Some l)
  then obtain n' m' b' where l: "us_last s = Some (n', m', b')" by (cases l) auto
  with i k have "n < n' \<or> n = n' \<and> m \<le> m'" "report_place t n' m'" by (fastforce simp: usage_inv_def)+
  with nums have "n = n' \<and> m = m'" by (auto simp: report_place_def)
  with l show ?thesis by simp
qed

lemma usage_inv_report:
  assumes h: "trace_history evs t" and i: "usage_inv evs t s" and e: "usage_report e = Some ((n, m), b)"
    and place: "tr_open_turn t = Some n" "tr_open_step t = Some m"
  shows "usage_inv (evs @ [e]) t (usage_apply s e)"
proof -
  let ?f = "step_usage evs"
  let ?prev = "case us_last s of Some (n', m', b') \<Rightarrow> if n' = n \<and> m' = m then Some b' else None | None \<Rightarrow> None"
  have nums: "n = tr_next_turn t" "m = tr_next_step t" using trace_open_numbers [OF h place(1)] place(2) by simp_all
  have prev: "?prev = ?f (n, m)"
  proof (cases "(n, m) \<in> dom ?f")
    case True
    with open_step_reports_last [OF i nums] i show ?thesis by (auto simp: usage_inv_def)
  next
    case False
    with i show ?thesis by (cases "us_last s") (auto simp: usage_inv_def domIff)
  qed
  have below: "\<forall>(n', m') \<in> dom ?f. n' < n \<or> n' = n \<and> m' \<le> m"
  proof (cases "us_last s")
    case (Some l)
    then obtain x y z where l: "us_last s = Some (x, y, z)" by (cases l) auto
    with i have "\<forall>(n', m') \<in> dom ?f. n' < x \<or> n' = x \<and> m' \<le> y" "report_place t x y" by (simp_all add: usage_inv_def)
    moreover from this(2) nums have "x < n \<or> x = n \<and> y \<le> m" by (auto simp: report_place_def)
    ultimately show ?thesis by (intro ballI) (smt (verit) case_prodE case_prodI2 prod.inject)
  qed (use i in \<open>simp add: usage_inv_def\<close>)
  have f: "step_usage (evs @ [e]) = ?f((n, m) \<mapsto> b)" using e by (simp add: step_usage_snoc)
  have a: "usage_apply s e = (if ?prev = Some b then s else \<lparr>us_totals = add_replacing (us_totals s) ?prev b, us_last = Some (n, m, b)\<rparr>)"
    using e by (simp add: usage_apply_def Let_def)
  show ?thesis
  proof (cases "?f (n, m) = Some b")
    case True
    then have "?f((n, m) \<mapsto> b) = ?f" by (simp add: fun_upd_idem)
    with f have "step_usage (evs @ [e]) = ?f" by simp
    then have "usage_inv (evs @ [e]) t s = usage_inv evs t s" unfolding usage_inv_def by (rule arg_cong)
    with i a prev True show ?thesis by simp
  next
    case False
    have "report_place t n m" using nums place by (simp add: report_place_def)
    with False i a prev f below counts_upd [of ?f "us_totals s" "?f (n, m)" "(n, m)" b] show ?thesis
      by (simp add: usage_inv_def)
  qed
qed

lemma usage_inv_step:
  assumes h: "trace_history evs t" and i: "usage_inv evs t s" and step: "trace_step t e = Inr t'"
  shows "usage_inv (evs @ [e]) t' (usage_apply s e)"
proof (cases "usage_report e")
  case None
  then have "usage_apply s e = s" "step_usage (evs @ [e]) = step_usage evs"
    by (simp_all add: usage_apply_def step_usage_snoc)
  with i report_place_step [OF h step] show ?thesis
    by (cases "us_last s") (auto simp: usage_inv_def)
next
  case (Some r)
  then obtain n m b where r: "usage_report e = Some ((n, m), b)" by (cases r) auto
  from step obtain tt where v: "validate_event t e = Inr tt" and t': "t' = apply_transition t tt"
    by (auto simp: trace_step_Inr)
  have plain: "scope_of e = Some (n, m)" "marker_of (ev_data e) = None" using usage_scope [OF r] by simp_all
  have "usage_inv (evs @ [e]) t (usage_apply s e)"
    using usage_inv_report [OF h i r] validate_event_scope [OF v plain(1)] by simp
  moreover have "report_place t' x y = report_place t x y" for x y
    using validate_event_plain [OF v plain(2)] by (simp add: report_place_def t' apply_transition_def)
  ultimately show ?thesis by (simp add: usage_inv_def cong: option.case_cong)
qed

lemma usage_run:
  "seed_session evs = Inr t \<Longrightarrow> usage_inv evs t (fold (\<lambda>e s. usage_apply s e) evs usage_init)"
proof (induction evs arbitrary: t rule: rev_induct)
  case Nil
  then show ?case
    by (simp add: usage_inv_def usage_init_def step_usage_def counts_def zero_buckets_def bucket_sum_def)
next
  case (snoc e evs)
  then obtain t0 where "seed_session evs = Inr t0" "trace_step t0 e = Inr t"
    by (auto simp: seed_session_def replay_snoc_Inr)
  with usage_inv_step [OF trace.run_hist snoc.IH] show ?case by (simp add: seed_session_def)
qed

section \<open>Properties\<close>

text \<open>
  C13: The projections of constant size are exact. On a log whose every replacement is metered, neither
  projection ever fails, and after every event the composition's message figure and the occupancy's running
  total are the price of the session's surface, the envelope figures are those of the newest request header, and
  the projected occupancy is the newest sampled pressure plus what the surface gained or lost since the sample.
\<close>

theorem projections_track_the_surface_price:
  assumes "ok (fold_surface evs)" and "fully_metered jl evs"
  shows "\<exists>b p. replay (breakdown_apply jl) breakdown_init evs = Inr b \<and> replay (pressure_apply jl) pressure_init evs = Inr p \<and>
    bd_messages b = of_int (surface_price jl evs) \<and> pr_surface p = of_int (surface_price jl evs) \<and>
    bd_system b + bd_tools b = estimate_header jl (fold_request_header evs None) \<and>
    pv_projected (pressure_view_of p) = (case newest_sample jl evs of None \<Rightarrow> None
      | Some (sample, before) \<Rightarrow> Some (of_int (max 0 (sample + surface_price jl evs - before))))"
proof (intro exI conjI)
  show "replay (breakdown_apply jl) breakdown_init evs = Inr (breakdown_of jl evs)" by (rule breakdown_run [OF assms])
  show "replay (pressure_apply jl) pressure_init evs = Inr (pressure_of jl evs)" by (rule pressure_run [OF assms])
qed (simp_all add: breakdown_of_def pressure_of_def Let_def estimate_header_def projected_view)

definition sample_projection_log :: "compaction_event event list" where
  "sample_projection_log =
     [(log_event 0 5 (UserMessage sample_message))\<lparr>ev_surface_op := Some (JStr ''append'')\<rparr>,
      log_event 1 5 (PluginEvent (CompactionPrune (0, 0) [0] 9)),
      (log_event 2 5 (UserMessage (sample_message\<lparr>msg_content := []\<rparr>)))\<lparr>ev_surface_op := si_op (replace_intent 0 0 [0]),
         ev_sources := si_sources (replace_intent 0 0 [0])\<rparr>]"

theorem projections_track_the_surface_price_witness:
  "\<exists>b. replay (breakdown_apply (\<lambda>_. 0)) breakdown_init sample_projection_log = Inr b \<and> bd_messages b = 4"
proof -
  have "ok (fold_surface sample_projection_log)" by code_simp
  moreover have "fully_metered (\<lambda>_. 0) sample_projection_log" by code_simp
  moreover have "surface_price (\<lambda>_. 0) sample_projection_log = 4" by code_simp
  ultimately show ?thesis using projections_track_the_surface_price [of sample_projection_log "\<lambda>_. 0"] by auto
qed

text \<open>
  Cumulative usage counts every step exactly once. On a log that the session trace accepts, each of the four
  totals is the sum, over the steps that reported usage, of the step's newest report, however many early samples
  the step's stream delivered.
\<close>

theorem usage_counts_each_step_once:
  assumes "seed_session evs = Inr t"
  shows "counts (usage_totals evs) (step_usage evs)"
  using usage_run [OF assms] by (simp add: usage_inv_def usage_totals_def)

definition sample_usage_log :: "unit event list" where
  "sample_usage_log = (let u = (\<lambda>i. \<lparr>input_tokens = i, output_tokens = 1, cache_read_tokens = None, cache_write_tokens = Some 2,
        reasoning_tokens = None\<rparr>) in
     [log_event 0 5 (TurnStart 1), log_event 1 5 (StepStart 1 1), log_event 2 5 (AssistantChunk 1 1 (UsageChunk (u 3))),
      log_event 3 5 (AssistantChunk 1 1 (UsageChunk (u 8))), log_event 4 6 (StepEnd 1 1)])"

theorem usage_counts_each_step_once_witness:
  "counts (usage_totals sample_usage_log) (step_usage sample_usage_log) \<and> ub_input (usage_totals sample_usage_log) = 8"
proof -
  have "\<exists>t. seed_session sample_usage_log = Inr t"
    by (simp add: sample_usage_log_def seed_session_def fresh_trace_def trace_step_def validate_event_def unchanged_def
        require_open_step_def apply_transition_def)
  moreover have "ub_input (usage_totals sample_usage_log) = 8" by code_simp
  ultimately show ?thesis using usage_counts_each_step_once by blast
qed

end
