(* ===== verification/Compaction_Region.thy ===== *)
theory Compaction_Region
  imports Tool_Pairing Token_Projection
begin

text \<open>
  The basic compaction backend: the choice of a range to compact and the log-recorded transaction
  (\<open>packages/compaction/compaction-basic/src/region.ts\<close>) with the response side of its default summarizer
  (\<open>summarizer.ts\<close>). A transaction opens its bracket synchronously (\<open>compact_open\<close>), waits for the
  summarizer while anybody may append to the session, and finishes synchronously (\<open>compact_finish\<close>).
  The token meter is the interface of theory \<open>Surface_Edit\<close>, which theory \<open>Token_Meter\<close> provides; the summarizer,
  the clock and the identities are arguments.
\<close>

section \<open>The summarizer's response\<close>

fun content_has_image :: "content_block list \<Rightarrow> bool" and block_has_image :: "content_block \<Rightarrow> bool" where
  "content_has_image [] = False"
| "content_has_image (b # bs) = (block_has_image b \<or> content_has_image bs)"
| "block_has_image (ImageBlock _) = True"
| "block_has_image (ToolResultBlock _ content _) = content_has_image content"
| "block_has_image (TextBlock _) = False"
| "block_has_image (ReasoningBlock _) = False"
| "block_has_image (ToolCallBlock _ _ _) = False"

datatype summary_error =
    FinishedWith failure_facts
  | TruncatedSummary
  | ImageSummary
  | BlankSummary
  | UnassembledSummary assemble_error

fun finish_error :: "finish_reason \<Rightarrow> summary_error option" where
  "finish_error (FinishError f) = Some (FinishedWith f)"
| "finish_error (FinishAborted f) = Some (FinishedWith f)"
| "finish_error FinishMaxTokens = Some TruncatedSummary"
| "finish_error _ = None"

fun block_text :: "content_block \<Rightarrow> string option" where
  "block_text (TextBlock s) = Some s"
| "block_text _ = None"

definition summary_text :: "content_block list \<Rightarrow> summary_error + content_block list" where
  "summary_text bs = (if content_has_image bs then Inl ImageSummary else Inr (filter (\<lambda>b. block_text b \<noteq> None) bs))"

record summary_result =
  sr_summary :: "content_block list"
  sr_provider :: string
  sr_model :: string
  sr_max_tokens :: "int option"
  sr_usage :: "token_usage option"
  sr_raw_output :: "content_block list option"
  sr_stream_call :: bool

text \<open>\<open>summarizeWithLlm\<close> from the model's stream on: fold the chunks, reject what is no checkpoint.\<close>

definition summarize_stream :: "string \<Rightarrow> string \<Rightarrow> int \<Rightarrow> stream_chunk list \<Rightarrow> summary_error + summary_result" where
  "summarize_stream provider model max_tokens chunks =
     (let a = push_all chunks in
      case finish_error (finish_of a) of
        Some err \<Rightarrow> Inl err
      | None \<Rightarrow>
          (case blocks a of
             Inl err \<Rightarrow> Inl (UnassembledSummary err)
           | Inr raw \<Rightarrow>
               rbind (summary_text raw) (\<lambda>summary.
                 if list_all (\<lambda>b. case block_text b of Some s \<Rightarrow> js_trim s = [] | None \<Rightarrow> True) summary then Inl BlankSummary
                 else Inr \<lparr>sr_summary = summary, sr_provider = provider, sr_model = model, sr_max_tokens = Some max_tokens,
                   sr_usage = as_usage a, sr_raw_output = Some raw, sr_stream_call = True\<rparr>)))"

definition checkpoint_preamble :: string where
  "checkpoint_preamble = ''This is an automatically generated checkpoint condensing an earlier span of the conversation to free up context. Treat the captured context as established background and build on it without restating it. Continue the task directly from the messages that follow, without acknowledging this checkpoint.''"

definition newline :: string where
  "newline = [CHR 0x0A]"

definition frame_summary :: "content_block list \<Rightarrow> content_block list" where
  "frame_summary summary =
     [TextBlock (checkpoint_preamble @ newline @ newline @ ''<compacted-summary>'')] @ summary @ [TextBlock ''</compacted-summary>'']"

section \<open>Range selection\<close>

datatype region_error =
    MeterMismatch
  | StartNotOnSurface int
  | EndNotOnSurface int
  | SpanReversed int int
  | StartSplitsPair int
  | EndSplitsPair int
  | PairingFailed pairing_error
  | SurfaceFailed surface_error
  | LockHeld
  | TurnOpen
  | NoOpenTurn
  | SignalAborted
  | ChangedBeforeSummary
  | SurfaceRewritten
  | SpanInvalid region_error
  | SpanReplaced
  | SpanRepriced
  | SummaryFailed summary_error
  | NotSmaller int int
  | AppendFailed session_error
  | MeterFailed meter_error

type_synonym compactor = "compaction_event metered"
type_synonym region_meter = "(compaction_event, meter_error) meter"
type_synonym 'a task = "(compactor, region_error, 'a) oper"

definition event_log :: "compactor \<Rightarrow> compaction_event event list" where
  "event_log mt = ses_log (mt_session mt)"

definition read_nodes :: "int list task" where
  "read_nodes mt = (case manager_nodes (ses_log (mt_session mt)) (ses_surface (mt_session mt)) of
      (m, Inl err) \<Rightarrow> (mt\<lparr>mt_session := (mt_session mt)\<lparr>ses_surface := m\<rparr>\<rparr>, Inl (SurfaceFailed err))
    | (m, Inr nodes) \<Rightarrow> (mt\<lparr>mt_session := (mt_session mt)\<lparr>ses_surface := m\<rparr>\<rparr>, Inr nodes))"

definition ask_balanced :: "nat \<Rightarrow> int \<Rightarrow> bool task" where
  "ask_balanced offset seq mt = (case balanced_at offset mt seq of
      (mt', Inl err) \<Rightarrow> (mt', Inl (PairingFailed err)) | (mt', Inr b) \<Rightarrow> (mt', Inr b))"

definition task_append :: "int \<Rightarrow> compaction_event event_data \<Rightarrow> surface_intent \<Rightarrow> compaction_event event task" where
  "task_append now d intent mt = (case session_append now d intent (mt_session mt) of
      (s, Inl err) \<Rightarrow> (mt\<lparr>mt_session := s\<rparr>, Inl (AppendFailed err)) | (s, Inr e) \<Rightarrow> (mt\<lparr>mt_session := s\<rparr>, Inr e))"

text \<open>The retention loop from the newest node: \<open>k\<close> nodes are left to visit.\<close>

fun retain_from :: "priced \<Rightarrow> int \<Rightarrow> int \<Rightarrow> nat \<Rightarrow> nat \<Rightarrow> nat" where
  "retain_from nodes retain acc keep 0 = keep"
| "retain_from nodes retain acc keep (Suc k) =
     (let acc' = acc + snd (nodes ! k) in if acc' \<ge> retain then k else retain_from nodes retain acc' k k)"

fun retreat_to_balance :: "int list \<Rightarrow> nat \<Rightarrow> nat task" where
  "retreat_to_balance nodes 0 = op_return 0"
| "retreat_to_balance nodes (Suc k) =
     op_bind (ask_balanced 0 (nodes ! Suc k)) (\<lambda>b. if b then op_return (Suc k) else retreat_to_balance nodes k)"

definition select_compactable_range :: "priced \<Rightarrow> int \<Rightarrow> (int \<times> int) option task" where
  "select_compactable_range measured retain =
     (if measured = [] then op_return None
      else op_bind read_nodes (\<lambda>nodes.
        if nodes \<noteq> map fst measured then op_throw MeterMismatch
        else
          let keep = retain_from measured retain 0 (length measured) (length measured) in
          if keep = 0 then op_return None
          else op_bind (retreat_to_balance nodes keep) (\<lambda>k.
            if k = 0 then op_return None else op_return (Some (nodes ! 0, nodes ! (k - 1))))))"

section \<open>Entry state\<close>

record entry_state =
  es_turn :: "int option"
  es_start :: "compaction_event event option"
  es_seed :: "int option"

text \<open>The backward scan: each fact is known once its newest event was seen.\<close>

record entry_scan =
  sc_turn :: "int option option"
  sc_start :: "compaction_event event option option"
  sc_seed :: "int option"

definition scan_entry :: "compaction_event event \<Rightarrow> entry_scan \<Rightarrow> entry_scan" where
  "scan_entry e s =
     \<lparr>sc_turn = (case sc_turn s of Some x \<Rightarrow> Some x
        | None \<Rightarrow> (case ev_data e of TurnStart n \<Rightarrow> Some (Some n) | TurnEnd _ _ \<Rightarrow> Some None | _ \<Rightarrow> None)),
      sc_start = (case sc_start s of Some x \<Rightarrow> Some x
        | None \<Rightarrow> (case ev_data e of PluginEvent (CompactionStart _) \<Rightarrow> Some (Some e)
            | PluginEvent (CompactionEnd _ _) \<Rightarrow> Some None | _ \<Rightarrow> None)),
      sc_seed = (case sc_seed s of Some x \<Rightarrow> Some x
        | None \<Rightarrow> if ev_data e = EndSeed then Some (ev_seq e) else None)\<rparr>"

definition scan_done :: "entry_scan \<Rightarrow> bool" where
  "scan_done s \<longleftrightarrow> sc_turn s \<noteq> None \<and> sc_start s \<noteq> None \<and> sc_seed s \<noteq> None"

fun scan_back :: "compaction_event event list \<Rightarrow> entry_scan \<Rightarrow> entry_scan" where
  "scan_back [] s = s"
| "scan_back (e # es) s = (let s' = scan_entry e s in if scan_done s' then s' else scan_back es s')"

definition inspect_entry_state :: "compaction_event event list \<Rightarrow> entry_state" where
  "inspect_entry_state evs =
     (let s = scan_back (rev evs) \<lparr>sc_turn = None, sc_start = None, sc_seed = None\<rparr> in
      \<lparr>es_turn = (case sc_turn s of None \<Rightarrow> None | Some t \<Rightarrow> t),
       es_start = (case sc_start s of None \<Rightarrow> None | Some e \<Rightarrow> e), es_seed = sc_seed s\<rparr>)"

definition compaction_inactive :: "entry_state \<Rightarrow> bool" where
  "compaction_inactive st \<longleftrightarrow> (case es_start st of None \<Rightarrow> True
     | Some e \<Rightarrow> (case es_seed st of None \<Rightarrow> False | Some q \<Rightarrow> q > ev_seq e))"

definition assert_no_active_compaction :: "unit task" where
  "assert_no_active_compaction =
     op_bind (op_read (\<lambda>mt. inspect_entry_state (event_log mt))) (\<lambda>st. op_require (compaction_inactive st) LockHeld)"

section \<open>The transaction\<close>

record surface_span =
  sp_start :: int
  sp_end :: int
  sp_start_idx :: nat
  sp_end_idx :: nat
  sp_shadowed :: "int list"

definition validate_surface_region :: "int \<Rightarrow> int \<Rightarrow> surface_span task" where
  "validate_surface_region a b =
     op_bind read_nodes (\<lambda>nodes.
       case index_of nodes a of
         None \<Rightarrow> op_throw (StartNotOnSurface a)
       | Some i \<Rightarrow>
           (case index_of nodes b of
              None \<Rightarrow> op_throw (EndNotOnSurface b)
            | Some j \<Rightarrow>
                if i > j then op_throw (SpanReversed a b)
                else
                  op_bind (ask_balanced 0 (nodes ! i)) (\<lambda>before.
                  op_bind (op_require before (StartSplitsPair a)) (\<lambda>_.
                  op_bind (ask_balanced 1 (nodes ! j)) (\<lambda>after.
                  op_bind (op_require after (EndSplitsPair b)) (\<lambda>_.
                    op_return \<lparr>sp_start = a, sp_end = b, sp_start_idx = i, sp_end_idx = j,
                      sp_shadowed = take (j + 1 - i) (drop i nodes)\<rparr>))))))"

text \<open>\<open>meter.measure(session).nodes\<close>: the meter's cache does not show, so it reads the log.\<close>

definition read_meter :: "region_meter \<Rightarrow> priced task" where
  "read_meter mtr mt = (mt, map_sum MeterFailed id (measure_nodes mtr (event_log mt)))"

record summarization_input =
  si_system :: "string option"
  si_tools :: "json list option"
  si_messages :: "message list"

definition build_input :: "int list \<Rightarrow> summarization_input task" where
  "build_input shadowed mt = (case request_header (mt_session mt) of (s, h) \<Rightarrow>
     (mt\<lparr>mt_session := s\<rparr>, Inr
       \<lparr>si_system = Option.bind h hdr_system, si_tools = Option.bind h hdr_tools,
        si_messages = List.map_filter (\<lambda>q. derive_event_message (ses_log s ! nat q)) shadowed\<rparr>))"

record prepared =
  pc_span :: surface_span
  pc_measured :: priced
  pc_selected :: priced
  pc_tokens :: int
  pc_input :: summarization_input

definition span_slice :: "surface_span \<Rightarrow> priced \<Rightarrow> priced" where
  "span_slice sp xs = take (sp_end_idx sp + 1 - sp_start_idx sp) (drop (sp_start_idx sp) xs)"

definition prepare_compaction :: "region_meter \<Rightarrow> surface_span \<Rightarrow> prepared task" where
  "prepare_compaction mtr sp =
     op_bind (read_meter mtr) (\<lambda>measured.
     let selected = span_slice sp measured in
     op_bind (op_require (map fst selected = sp_shadowed sp) ChangedBeforeSummary) (\<lambda>_.
     op_bind (build_input (sp_shadowed sp)) (\<lambda>input.
       op_return \<lparr>pc_span = sp, pc_measured = measured, pc_selected = selected, pc_tokens = sum_list (map snd selected),
         pc_input = input\<rparr>)))"

record transaction_options =
  to_standalone :: bool
  to_whole_surface :: bool
  to_command :: "command_id option"

record open_compaction =
  oc_lifecycle :: compaction_lifecycle
  oc_start :: "compaction_event event"
  oc_prepared :: "region_error + prepared"

text \<open>Everything up to the first wait: the checks, the opening marker, and the priced snapshot.\<close>

definition compact_open ::
    "region_meter \<Rightarrow> transaction_options \<Rightarrow> bool \<Rightarrow> compaction_id \<Rightarrow> int \<Rightarrow> int \<Rightarrow> int \<Rightarrow> open_compaction task" where
  "compact_open mtr opts aborted uuid now a b =
     op_bind (op_require (\<not> (to_standalone opts \<and> aborted)) SignalAborted) (\<lambda>_.
     op_bind (validate_surface_region a b) (\<lambda>sp.
     op_bind (op_read (\<lambda>mt. inspect_entry_state (event_log mt))) (\<lambda>st.
     op_bind (op_require (compaction_inactive st) LockHeld) (\<lambda>_.
     op_bind (if to_standalone opts then op_require (es_turn st = None) TurnOpen
              else op_require (es_turn st \<noteq> None) NoOpenTurn) (\<lambda>_.
     let c = \<lparr>cl_id = uuid, cl_command = to_command opts, cl_turn = (if to_standalone opts then None else es_turn st)\<rparr> in
     op_bind (task_append now (PluginEvent (CompactionStart c)) no_intent) (\<lambda>e.
     \<lambda>mt. case prepare_compaction mtr sp mt of
       (mt', r) \<Rightarrow> (mt', Inr \<lparr>oc_lifecycle = c, oc_start = e, oc_prepared = r\<rparr>)))))))"

definition checkpoint_message :: "message_id \<Rightarrow> compaction_lifecycle \<Rightarrow> summary_result \<Rightarrow> message" where
  "checkpoint_message mid c r =
     \<lparr>msg_id = mid, msg_role = UserRole, msg_content = frame_summary (sr_summary r),
      msg_source = compact_checkpoint_source (cl_id c) (cl_command c)\<rparr>"

definition summarize_compaction ::
    "region_meter \<Rightarrow> message_id \<Rightarrow> compaction_lifecycle \<Rightarrow> prepared \<Rightarrow> summary_error + summary_result
      \<Rightarrow> region_error + summary_result \<times> message" where
  "summarize_compaction mtr mid c p outcome = (case outcome of
      Inl err \<Rightarrow> Inl (SummaryFailed err)
    | Inr r \<Rightarrow>
        let m = checkpoint_message mid c r in
        if estimate_message mtr m \<ge> pc_tokens p then Inl (NotSmaller (estimate_message mtr m) (pc_tokens p)) else Inr (r, m))"

definition assert_whole_surface_unchanged :: "region_meter \<Rightarrow> prepared \<Rightarrow> unit task" where
  "assert_whole_surface_unchanged mtr p =
     op_bind (read_meter mtr) (\<lambda>current.
       op_require (current = pc_measured p) SurfaceRewritten)"

definition assert_selected_span_stable :: "region_meter \<Rightarrow> prepared \<Rightarrow> unit task" where
  "assert_selected_span_stable mtr p =
     op_bind (\<lambda>mt. case validate_surface_region (sp_start (pc_span p)) (sp_end (pc_span p)) mt of
         (mt', Inl err) \<Rightarrow> (mt', Inl (SpanInvalid err)) | (mt', Inr sp) \<Rightarrow> (mt', Inr sp)) (\<lambda>current.
     op_bind (op_require (sp_shadowed current = sp_shadowed (pc_span p)) SpanReplaced) (\<lambda>_.
     op_bind (read_meter mtr) (\<lambda>measured.
       op_require (span_slice current measured = pc_selected p) SpanRepriced)))"

record compaction_result =
  cr_id :: compaction_id
  cr_command :: "command_id option"
  cr_start_seq :: int
  cr_summary_seq :: int
  cr_end_seq :: int
  cr_summary :: "content_block list"
  cr_range :: "int \<times> int"
  cr_shadowed :: "int list"
  cr_tokens :: int

definition summary_event :: "compaction_lifecycle \<Rightarrow> prepared \<Rightarrow> summary_result \<Rightarrow> compaction_event event_data" where
  "summary_event c p r = PluginEvent (CompactionSummary
     \<lparr>cs_id = cl_id c, cs_command = cl_command c, cs_summary = sr_summary r,
      cs_range = (sp_start (pc_span p), sp_end (pc_span p)), cs_shadowed = sp_shadowed (pc_span p),
      cs_tokens = of_int (pc_tokens p), cs_provider = sr_provider r, cs_model = sr_model r,
      cs_max_tokens = sr_max_tokens r, cs_usage = sr_usage r, cs_raw_output = sr_raw_output r,
      cs_stream_call = sr_stream_call r\<rparr>)"

text \<open>
  \<open>commitCompactionBody\<close>: the result still lacks the seq of the closing event. \<open>clock\<close> gives the time of the
  finish's successive appends.
\<close>

definition commit_compaction_body ::
    "(nat \<Rightarrow> int) \<Rightarrow> open_compaction \<Rightarrow> prepared \<Rightarrow> summary_result \<Rightarrow> message \<Rightarrow> compaction_result task" where
  "commit_compaction_body clock oc p r m =
     (let c = oc_lifecycle oc; sp = pc_span p in
      op_bind (task_append (clock 0) (summary_event c p r) no_intent) (\<lambda>e.
      op_bind (task_append (clock 1) (UserMessage m)
         (replace_intent (sp_start sp) (sp_end sp) ([ev_seq (oc_start oc), ev_seq e] @ sp_shadowed sp))) (\<lambda>_.
        op_return \<lparr>cr_id = cl_id c, cr_command = cl_command c, cr_start_seq = ev_seq (oc_start oc), cr_summary_seq = ev_seq e,
          cr_end_seq = 0, cr_summary = sr_summary r, cr_range = (sp_start sp, sp_end sp), cr_shadowed = sp_shadowed sp,
          cr_tokens = pc_tokens p\<rparr>)))"

datatype failure_stage = StageSummary | StageCommit

record transaction_failure =
  tf_error :: region_error
  tf_stage :: failure_stage

text \<open>The body of the \<open>try\<close> up to the closing append; an error carries the stage it was thrown in.\<close>

definition staged :: "failure_stage \<Rightarrow> 'a task \<Rightarrow> (compactor, transaction_failure, 'a) oper" where
  "staged stage m mt = (case m mt of
      (mt', Inl err) \<Rightarrow> (mt', Inl \<lparr>tf_error = err, tf_stage = stage\<rparr>) | (mt', Inr a) \<Rightarrow> (mt', Inr a))"

definition compact_body ::
    "region_meter \<Rightarrow> transaction_options \<Rightarrow> bool \<Rightarrow> message_id \<Rightarrow> (nat \<Rightarrow> int) \<Rightarrow> open_compaction \<Rightarrow> summary_error + summary_result
      \<Rightarrow> (compactor, transaction_failure, compaction_result) oper" where
  "compact_body mtr opts aborted mid clock oc outcome =
     op_bind (staged StageSummary (op_lift (oc_prepared oc))) (\<lambda>p.
     op_bind (staged StageSummary (op_lift (summarize_compaction mtr mid (oc_lifecycle oc) p outcome))) (\<lambda>(r, m).
     op_bind (staged StageSummary (op_require (\<not> (to_standalone opts \<and> aborted)) SignalAborted)) (\<lambda>_.
     op_bind (staged StageSummary
        (if to_whole_surface opts then assert_whole_surface_unchanged mtr p else assert_selected_span_stable mtr p)) (\<lambda>_.
       staged StageCommit (commit_compaction_body clock oc p r m)))))"

record compaction_outcome =
  co_closed :: bool
  co_result :: "transaction_failure + compaction_result"

text \<open>The whole \<open>try\<close> and its \<open>catch\<close>: exactly one attempt to close. \<open>error_chain\<close> prints an error.\<close>

definition compact_finish ::
    "region_meter \<Rightarrow> transaction_options \<Rightarrow> (region_error \<Rightarrow> string) \<Rightarrow> bool \<Rightarrow> message_id \<Rightarrow> (nat \<Rightarrow> int) \<Rightarrow> open_compaction
      \<Rightarrow> summary_error + summary_result \<Rightarrow> compactor \<Rightarrow> compactor \<times> compaction_outcome" where
  "compact_finish mtr opts error_chain aborted mid clock oc outcome mt =
     (case compact_body mtr opts aborted mid clock oc outcome mt of
        (mt1, Inr pending) \<Rightarrow>
          (case task_append (clock 2) (PluginEvent (CompactionEnd (oc_lifecycle oc) None)) no_intent mt1 of
             (mt2, Inl err) \<Rightarrow> (mt2, \<lparr>co_closed = False, co_result = Inl \<lparr>tf_error = err, tf_stage = StageCommit\<rparr>\<rparr>)
           | (mt2, Inr e) \<Rightarrow> (mt2, \<lparr>co_closed = True, co_result = Inr (pending\<lparr>cr_end_seq := ev_seq e\<rparr>)\<rparr>))
      | (mt1, Inl failure) \<Rightarrow>
          (case task_append (clock 2) (PluginEvent (CompactionEnd (oc_lifecycle oc) (Some (error_chain (tf_error failure))))) no_intent mt1 of
             (mt2, Inl err) \<Rightarrow> (mt2, \<lparr>co_closed = False, co_result = Inl \<lparr>tf_error = err, tf_stage = StageCommit\<rparr>\<rparr>)
           | (mt2, Inr _) \<Rightarrow> (mt2, \<lparr>co_closed = True, co_result = Inl failure\<rparr>)))"

datatype compaction_failure =
    ManualCommit region_error
  | ManualChanged region_error
  | ManualSummary region_error
  | ManualPersistence string
  | ManualAborted
  | AutomaticFailure region_error

fun is_surface_changed :: "region_error \<Rightarrow> bool" where
  "is_surface_changed ChangedBeforeSummary = True"
| "is_surface_changed SurfaceRewritten = True"
| "is_surface_changed (SpanInvalid _) = True"
| "is_surface_changed SpanReplaced = True"
| "is_surface_changed SpanRepriced = True"
| "is_surface_changed _ = False"

definition manual_failure :: "transaction_failure \<Rightarrow> compaction_failure" where
  "manual_failure f =
     (if tf_stage f = StageCommit then ManualCommit (tf_error f)
      else if is_surface_changed (tf_error f) then ManualChanged (tf_error f) else ManualSummary (tf_error f))"

text \<open>
  What the caller of the transaction gets: \<open>flushed\<close> is the outcome of the durability checkpoint, which
  only a closed attempt with a checkpoint runs.
\<close>

definition settle_compaction ::
    "transaction_options \<Rightarrow> bool \<Rightarrow> (string + unit) option \<Rightarrow> compaction_outcome \<Rightarrow> compaction_failure + compaction_result" where
  "settle_compaction opts aborted flushed co =
     (let flush_failure = (case flushed of Some (Inl err) \<Rightarrow> if co_closed co then Some err else None | _ \<Rightarrow> None) in
      if to_standalone opts \<and> aborted then Inl ManualAborted
      else case co_result co of
        Inl f \<Rightarrow> Inl (if to_standalone opts then manual_failure f else AutomaticFailure (tf_error f))
      | Inr r \<Rightarrow> (case flush_failure of Some err \<Rightarrow> Inl (ManualPersistence err) | None \<Rightarrow> Inr r))"


section \<open>Reads are views of the log\<close>

text \<open>
  The session and the balance cache change when they are read, the log does not. On a session whose results
  follow their calls, a read computes a function of the log.
\<close>

definition steady :: "compactor \<Rightarrow> bool" where
  "steady mt \<longleftrightarrow> metered_ok mt \<and> paired (event_log mt) (surface_nodes (event_log mt))"

definition log_kept :: "compactor \<Rightarrow> compactor \<Rightarrow> bool" where
  "log_kept mt mt' \<longleftrightarrow> (metered_ok mt \<longrightarrow> metered_ok mt' \<and> event_log mt' = event_log mt)"

definition reads :: "'a task \<Rightarrow> (compaction_event event list \<Rightarrow> region_error + 'a) \<Rightarrow> bool" where
  "reads m f \<longleftrightarrow> (\<forall>mt. steady mt \<longrightarrow> (\<exists>mt'. m mt = (mt', f (event_log mt)) \<and> steady mt' \<and> event_log mt' = event_log mt))"

lemma log_kept_order: "reflp log_kept" "transp log_kept"
  by (auto simp: log_kept_def reflp_def transp_def)

lemma readsE:
  assumes "reads m f" and "steady mt"
  obtains mt' where "m mt = (mt', f (event_log mt))" and "steady mt'" and "event_log mt' = event_log mt"
  using assms by (auto simp: reads_def)

lemma reads_simple:
  "reads (op_return a) (\<lambda>_. Inr a)" "reads (op_throw err) (\<lambda>_. Inl err)" "reads (op_lift q) (\<lambda>_. q)"
  "reads (op_require b err) (\<lambda>_. require b err)" "reads (op_read (\<lambda>mt. g (event_log mt))) (\<lambda>evs. Inr (g evs))"
  by (auto simp: reads_def op_require_def)

lemma reads_bind:
  assumes "reads m f" and "\<And>a. reads (g a) (h a)"
  shows "reads (op_bind m g) (\<lambda>evs. rbind (f evs) (\<lambda>a. h a evs))"
  unfolding reads_def
proof (intro allI impI)
  fix mt
  assume "steady mt"
  with assms(1) obtain mt1 where m: "m mt = (mt1, f (event_log mt))" "steady mt1" "event_log mt1 = event_log mt"
    by (rule readsE)
  show "\<exists>mt'. op_bind m g mt = (mt', rbind (f (event_log mt)) (\<lambda>a. h a (event_log mt))) \<and> steady mt' \<and> event_log mt' = event_log mt"
  proof (cases "f (event_log mt)")
    case (Inl err)
    with m show ?thesis by (simp add: op_bind_def)
  next
    case (Inr a)
    obtain mt2 where "g a mt1 = (mt2, h a (event_log mt1))" "steady mt2" "event_log mt2 = event_log mt1"
      using assms(2) m(2) by (rule readsE)
    with m Inr show ?thesis by (simp add: op_bind_def)
  qed
qed

lemma reads_map_error:
  assumes "reads m f"
  shows "reads (\<lambda>mt. case m mt of (mt', Inl err) \<Rightarrow> (mt', Inl (c err)) | (mt', Inr a) \<Rightarrow> (mt', Inr a))
    (\<lambda>evs. case f evs of Inl err \<Rightarrow> Inl (c err) | Inr a \<Rightarrow> Inr a)"
  using assms by (fastforce simp: reads_def split: sum.splits)

lemma metered_nodes_known: "metered_ok mt \<Longrightarrow> nodes_known (event_log mt)"
  by (simp add: metered_ok_def event_log_def session_nodes_known)

lemma read_nodes_spec:
  assumes "metered_ok mt"
  obtains mt' where "read_nodes mt = (mt', Inr (surface_nodes (event_log mt)))" and "metered_ok mt'" and "event_log mt' = event_log mt"
proof -
  let ?s = "mt_session mt"
  have ok: "session_ok ?s" using assms by (simp add: metered_ok_def)
  then have reach: "manager_reach 0 (ses_log ?s) (ses_surface ?s)" by (simp add: session_ok_def)
  from ok obtain s' t rs where t: "window_fold 0 (ses_log ?s) (ses_log ?s) = Inr (t, int (length (ses_log ?s)), rs)"
    using surface_view_spec by blast
  obtain m where m: "manager_nodes (ses_log ?s) (ses_surface ?s) = (m, Inr (fs_nodes t))"
    using manager_views(1) [OF reach] t by (cases "manager_nodes (ses_log ?s) (ses_surface ?s)") auto
  let ?s1 = "?s\<lparr>ses_surface := m\<rparr>"
  have "session_ok ?s1" using ok reach_nodes [OF reach] m by (simp add: session_ok_def)
  then have "metered_ok (mt\<lparr>mt_session := ?s1\<rparr>)" by (rule metered_ok_session [OF assms, of _ "[]"]) simp
  then show thesis
    using m surface_nodes_fold [OF t] by (intro that [of "mt\<lparr>mt_session := ?s1\<rparr>"]) (simp_all add: read_nodes_def event_log_def)
qed

lemma log_kept_reads:
  "op_keeps log_kept read_nodes" "offset \<le> 1 \<Longrightarrow> op_keeps log_kept (ask_balanced offset seq)"
proof -
  show "op_keeps log_kept read_nodes"
    unfolding op_keeps_def log_kept_def using read_nodes_spec by (metis fst_conv)
  show "op_keeps log_kept (ask_balanced offset seq)" if "offset \<le> 1"
  proof -
    have "metered_ok (fst (ask_balanced offset seq mt)) \<and> event_log (fst (ask_balanced offset seq mt)) = event_log mt"
      if mt: "metered_ok mt" for mt
    proof -
      have fst: "fst (ask_balanced offset seq mt) = fst (balanced_at offset mt seq)"
        by (simp add: ask_balanced_def split: prod.splits sum.splits)
      from balanced_at_spec [OF mt \<open>offset \<le> 1\<close>, of seq "fst (balanced_at offset mt seq)" "snd (balanced_at offset mt seq)"]
      show ?thesis by (simp add: fst event_log_def)
    qed
    then show ?thesis by (simp add: op_keeps_def log_kept_def)
  qed
qed

lemma reads_nodes: "reads read_nodes (\<lambda>evs. Inr (surface_nodes evs))"
  unfolding reads_def
proof (intro allI impI)
  fix mt
  assume mt: "steady mt"
  then have "metered_ok mt" by (simp add: steady_def)
  then obtain mt' where "read_nodes mt = (mt', Inr (surface_nodes (event_log mt)))" "metered_ok mt'" "event_log mt' = event_log mt"
    by (rule read_nodes_spec)
  with mt show "\<exists>mt'. read_nodes mt = (mt', Inr (surface_nodes (event_log mt))) \<and> steady mt' \<and> event_log mt' = event_log mt"
    by (auto simp: steady_def)
qed

definition cut_answer :: "nat \<Rightarrow> int \<Rightarrow> compaction_event event list \<Rightarrow> region_error + bool" where
  "cut_answer offset seq evs = (case cut_open evs seq offset of Inl err \<Rightarrow> Inl (PairingFailed err) | Inr b \<Rightarrow> Inr b)"

lemma reads_ask:
  assumes "offset \<le> 1"
  shows "reads (ask_balanced offset seq) (cut_answer offset seq)"
  unfolding reads_def
proof (intro allI impI)
  fix mt
  assume mt: "steady mt"
  then have m: "metered_ok mt" by (simp add: steady_def)
  from balanced_at_spec [OF m assms, of seq "fst (balanced_at offset mt seq)" "snd (balanced_at offset mt seq)"] mt
  have b: "snd (balanced_at offset mt seq) = cut_open (event_log mt) seq offset" "metered_ok (fst (balanced_at offset mt seq))"
    "event_log (fst (balanced_at offset mt seq)) = event_log mt"
    by (simp_all add: steady_def event_log_def split: if_splits)
  obtain mt' r where at: "balanced_at offset mt seq = (mt', r)" by (cases "balanced_at offset mt seq")
  with b mt show "\<exists>mt'. ask_balanced offset seq mt = (mt', cut_answer offset seq (event_log mt)) \<and> steady mt' \<and> event_log mt' = event_log mt"
    by (intro exI [of _ mt']) (auto simp: ask_balanced_def cut_answer_def steady_def split: sum.splits)
qed


section \<open>Selection\<close>

fun retreat_of :: "compaction_event event list \<Rightarrow> int list \<Rightarrow> nat \<Rightarrow> region_error + nat" where
  "retreat_of evs nodes 0 = Inr 0"
| "retreat_of evs nodes (Suc k) =
     rbind (cut_answer 0 (nodes ! Suc k) evs) (\<lambda>b. if b then Inr (Suc k) else retreat_of evs nodes k)"

lemma reads_if: "(c \<Longrightarrow> reads m f) \<Longrightarrow> (\<not> c \<Longrightarrow> reads m' g) \<Longrightarrow> reads (if c then m else m') (\<lambda>evs. if c then f evs else g evs)"
  by simp

lemma reads_retreat: "reads (retreat_to_balance nodes k) (\<lambda>evs. retreat_of evs nodes k)"
proof (induction k)
  case 0
  show ?case using reads_simple(1) by simp
next
  case (Suc k)
  have "reads (if b then op_return (Suc k) else retreat_to_balance nodes k) (\<lambda>evs. if b then Inr (Suc k) else retreat_of evs nodes k)" for b
    using Suc reads_simple(1) by (intro reads_if) auto
  from reads_bind [OF reads_ask this, of 0 "nodes ! Suc k"] show ?case by simp
qed

lemma cut_answer_nth:
  assumes "nodes_known evs" and "i < length (surface_nodes evs)"
  shows "cut_answer offset (surface_nodes evs ! i) evs = Inr (open_calls evs (take (i + offset) (surface_nodes evs)) = 0)"
  using assms by (simp add: cut_answer_def cut_open_def nodes_known_def index_of_nth)

lemma retreat_of_spec:
  assumes "nodes_known evs"
  shows "k < length (surface_nodes evs) \<Longrightarrow> \<exists>r. retreat_of evs (surface_nodes evs) k = Inr r \<and> r \<le> k \<and>
    (r = 0 \<or> open_calls evs (take r (surface_nodes evs)) = 0) \<and>
    (\<forall>i. r < i \<and> i \<le> k \<longrightarrow> open_calls evs (take i (surface_nodes evs)) \<noteq> 0)"
proof (induction k)
  case (Suc k)
  then obtain r where r: "retreat_of evs (surface_nodes evs) k = Inr r" "r \<le> k"
    "r = 0 \<or> open_calls evs (take r (surface_nodes evs)) = 0"
    "\<forall>i. r < i \<and> i \<le> k \<longrightarrow> open_calls evs (take i (surface_nodes evs)) \<noteq> 0"
    by auto
  note cut = cut_answer_nth [OF assms Suc.prems, of 0]
  show ?case
  proof (cases "open_calls evs (take (Suc k) (surface_nodes evs)) = 0")
    case True
    with cut show ?thesis by simp
  next
    case False
    with cut have "retreat_of evs (surface_nodes evs) (Suc k) = Inr r" using r(1) by simp
    with r False show ?thesis by (intro exI [of _ r]) (auto simp: le_Suc_eq)
  qed
qed simp

definition tail_price :: "priced \<Rightarrow> nat \<Rightarrow> int" where
  "tail_price xs k = sum_list (map snd (drop k xs))"

lemma tail_price_step: "k < length xs \<Longrightarrow> tail_price xs k = tail_price xs (Suc k) + snd (xs ! k)"
  by (simp add: tail_price_def flip: Cons_nth_drop_Suc)

lemma tail_price_mono:
  assumes "list_all (\<lambda>p. 0 \<le> snd p) xs" and "i \<le> j"
  shows "tail_price xs j \<le> tail_price xs i"
proof -
  have "drop i xs = take (j - i) (drop i xs) @ drop j xs"
    using assms(2) by (metis append_take_drop_id drop_drop le_add_diff_inverse2)
  then have "tail_price xs i = sum_list (map snd (take (j - i) (drop i xs))) + tail_price xs j"
    unfolding tail_price_def by (metis map_append sum_list_append)
  moreover have "0 \<le> sum_list (map snd (take (j - i) (drop i xs)))"
    by (rule sum_list_nonneg) (use assms(1) in \<open>auto simp: list_all_iff dest!: in_set_takeD in_set_dropD\<close>)
  ultimately show ?thesis by simp
qed

lemma retain_from_spec:
  "k \<le> length xs \<Longrightarrow> retain_from xs retain (tail_price xs k) keep k = r \<Longrightarrow> 0 < k \<Longrightarrow>
     r < k \<and> (r = 0 \<or> retain \<le> tail_price xs r) \<and> (\<forall>i. r < i \<and> i < k \<longrightarrow> tail_price xs i < retain)"
proof (induction k arbitrary: keep)
  case (Suc k)
  have step: "tail_price xs (Suc k) + snd (xs ! k) = tail_price xs k" using Suc.prems(1) by (simp add: tail_price_step)
  show ?case
  proof (cases "retain \<le> tail_price xs k")
    case True
    with Suc.prems step show ?thesis by auto
  next
    case small: False
    with Suc.prems step have r: "retain_from xs retain (tail_price xs k) k k = r" by simp
    show ?thesis
    proof (cases k)
      case 0
      with r show ?thesis by simp
    next
      case (Suc k')
      with Suc.IH [OF _ r] Suc.prems(1) small show ?thesis by (auto simp: less_Suc_eq)
    qed
  qed
qed simp

text \<open>A proper balanced prefix of the surface that leaves the retained tail behind it.\<close>

definition compactable :: "compaction_event event list \<Rightarrow> priced \<Rightarrow> int \<Rightarrow> nat \<Rightarrow> bool" where
  "compactable evs measured retain k \<longleftrightarrow> 0 < k \<and> k < length (surface_nodes evs) \<and>
     open_calls evs (take k (surface_nodes evs)) = 0 \<and> retain \<le> tail_price measured k"

definition selects :: "compaction_event event list \<Rightarrow> priced \<Rightarrow> int \<Rightarrow> (int \<times> int) option \<Rightarrow> bool" where
  "selects evs measured retain r = (case r of
      None \<Rightarrow> \<forall>k. \<not> compactable evs measured retain k
    | Some (a, b) \<Rightarrow> (\<exists>k. compactable evs measured retain k \<and> (\<forall>i. compactable evs measured retain i \<longrightarrow> i \<le> k) \<and>
        a = surface_nodes evs ! 0 \<and> b = surface_nodes evs ! (k - 1)))"

lemma select_spec:
  assumes mt: "steady mt" and fst: "map fst measured = surface_nodes (event_log mt)" and pos: "list_all (\<lambda>p. 0 \<le> snd p) measured"
  shows "\<exists>mt' r. select_compactable_range measured retain mt = (mt', Inr r) \<and> steady mt' \<and> event_log mt' = event_log mt \<and>
    selects (event_log mt) measured retain r"
proof (cases "measured = []")
  case True
  with fst mt show ?thesis by (simp add: select_compactable_range_def selects_def compactable_def)
next
  case False
  let ?evs = "event_log mt" and ?nodes = "surface_nodes (event_log mt)" and ?n = "length measured"
  have known: "nodes_known ?evs" using mt metered_nodes_known by (simp add: steady_def)
  have len: "length ?nodes = ?n" using fst by (metis length_map)
  from reads_nodes mt obtain mt1 where n: "read_nodes mt = (mt1, Inr ?nodes)" and mt1: "steady mt1" "event_log mt1 = ?evs"
    by (rule readsE)
  define keep where "keep = retain_from measured retain 0 ?n ?n"
  have keep: "keep < ?n \<and> (keep = 0 \<or> retain \<le> tail_price measured keep) \<and> (\<forall>i. keep < i \<and> i < ?n \<longrightarrow> tail_price measured i < retain)"
    using False by (intro retain_from_spec) (simp_all add: keep_def tail_price_def)
  have sel: "select_compactable_range measured retain mt =
      (if keep = 0 then op_return None
       else op_bind (retreat_to_balance ?nodes keep) (\<lambda>k. if k = 0 then op_return None else op_return (Some (?nodes ! 0, ?nodes ! (k - 1))))) mt1"
    using False fst by (simp add: select_compactable_range_def op_bind_done [where m = read_nodes, OF n] keep_def Let_def)
  show ?thesis
  proof (cases "keep = 0")
    case True
    with keep len have "\<not> compactable ?evs measured retain k" for k by (auto simp: compactable_def)
    with True sel mt1 show ?thesis by (simp add: op_return_def selects_def)
  next
    case False
    from reads_retreat mt1(1) obtain mt2 where q: "retreat_to_balance ?nodes keep mt1 = (mt2, retreat_of (event_log mt1) ?nodes keep)"
      and mt2: "steady mt2" "event_log mt2 = event_log mt1"
      by (rule readsE)
    from retreat_of_spec [OF known, of keep] keep len obtain r where r: "retreat_of ?evs ?nodes keep = Inr r" "r \<le> keep"
      "r = 0 \<or> open_calls ?evs (take r ?nodes) = 0" "\<forall>i. r < i \<and> i \<le> keep \<longrightarrow> open_calls ?evs (take i ?nodes) \<noteq> 0"
      by auto
    have upper: "i \<le> r" if i: "compactable ?evs measured retain i" for i
    proof (rule ccontr)
      assume "\<not> i \<le> r"
      then show False
      proof (cases "i \<le> keep")
        case True
        then show False using i r(4) \<open>\<not> i \<le> r\<close> by (auto simp: compactable_def)
      next
        case False
        then have "tail_price measured i < retain"
          using conjunct2 [OF conjunct2 [OF keep], rule_format, of i] i len by (simp add: compactable_def)
        then show False using i by (simp add: compactable_def)
      qed
    qed
    have "select_compactable_range measured retain mt = (mt2, Inr (if r = 0 then None else Some (?nodes ! 0, ?nodes ! (r - 1))))"
      using sel False q r(1) mt1(2) by (simp add: op_bind_def op_return_def)
    moreover have "selects ?evs measured retain (if r = 0 then None else Some (?nodes ! 0, ?nodes ! (r - 1)))"
    proof (cases "r = 0")
      case True
      then show ?thesis using upper by (auto simp: selects_def compactable_def)
    next
      case nz: False
      have "retain \<le> tail_price measured r"
        using keep False tail_price_mono [OF pos r(2)] by auto
      then have "compactable ?evs measured retain r" using nz r keep len by (auto simp: compactable_def)
      with nz upper show ?thesis by (auto simp: selects_def)
    qed
    ultimately show ?thesis using mt1 mt2 by auto
  qed
qed


section \<open>The backward scan agrees with the forward trace\<close>

definition blank_scan :: entry_scan where
  "blank_scan = \<lparr>sc_turn = None, sc_start = None, sc_seed = None\<rparr>"

lemma scan_entry_done: "scan_done s \<Longrightarrow> scan_entry e s = s"
  by (cases s) (auto simp: scan_done_def scan_entry_def)

lemma fold_scan_done: "scan_done s \<Longrightarrow> fold scan_entry es s = s"
  by (induction es) (simp_all add: scan_entry_done)

lemma scan_back_fold: "scan_back es s = fold scan_entry es s"
  by (induction es s rule: scan_back.induct) (simp_all add: Let_def fold_scan_done)

lemma scan_entry_parts:
  "sc_turn (scan_entry e s) = (case sc_turn s of Some x \<Rightarrow> Some x | None \<Rightarrow> sc_turn (scan_entry e blank_scan))"
  "sc_start (scan_entry e s) = (case sc_start s of Some x \<Rightarrow> Some x | None \<Rightarrow> sc_start (scan_entry e blank_scan))"
  "sc_seed (scan_entry e s) = (case sc_seed s of Some x \<Rightarrow> Some x | None \<Rightarrow> sc_seed (scan_entry e blank_scan))"
  by (simp_all add: scan_entry_def blank_scan_def split: option.splits)

lemma fold_first:
  assumes "\<And>e s. f (scan_entry e s) = (case f s of Some x \<Rightarrow> Some x | None \<Rightarrow> f (scan_entry e blank_scan))"
    and "f blank_scan = None"
  shows "f (fold scan_entry es s) = (case f s of Some x \<Rightarrow> Some x | None \<Rightarrow> f (fold scan_entry es blank_scan))"
proof (induction es arbitrary: s)
  case Nil
  show ?case using assms(2) by (simp split: option.splits)
next
  case (Cons e es)
  show ?case using Cons [of "scan_entry e s"] Cons [of "scan_entry e blank_scan"] assms(1) [of e s]
    by (simp split: option.splits)
qed

lemma blank_scan_parts [simp]: "sc_turn blank_scan = None" "sc_start blank_scan = None" "sc_seed blank_scan = None"
  by (simp_all add: blank_scan_def)

lemmas fold_scan_parts =
  fold_first [where f = sc_turn, OF scan_entry_parts(1) blank_scan_parts(1)]
  fold_first [where f = sc_start, OF scan_entry_parts(2) blank_scan_parts(2)]
  fold_first [where f = sc_seed, OF scan_entry_parts(3) blank_scan_parts(3)]

lemma inspect_scan: "inspect_entry_state evs =
    (let s = fold scan_entry (rev evs) blank_scan in
     \<lparr>es_turn = (case sc_turn s of None \<Rightarrow> None | Some t \<Rightarrow> t), es_start = (case sc_start s of None \<Rightarrow> None | Some e \<Rightarrow> e), es_seed = sc_seed s\<rparr>)"
  by (simp add: inspect_entry_state_def scan_back_fold blank_scan_def)

text \<open>The scan of a log that grew by one event.\<close>

lemma inspect_snoc:
  "es_turn (inspect_entry_state (evs @ [e])) =
     (case ev_data e of TurnStart n \<Rightarrow> Some n | TurnEnd _ _ \<Rightarrow> None | _ \<Rightarrow> es_turn (inspect_entry_state evs))"
  "es_start (inspect_entry_state (evs @ [e])) =
     (case ev_data e of PluginEvent (CompactionStart _) \<Rightarrow> Some e | PluginEvent (CompactionEnd _ _) \<Rightarrow> None
      | _ \<Rightarrow> es_start (inspect_entry_state evs))"
  "es_seed (inspect_entry_state (evs @ [e])) = (if ev_data e = EndSeed then Some (ev_seq e) else es_seed (inspect_entry_state evs))"
proof -
  have new: "sc_turn (scan_entry e blank_scan) = (case ev_data e of TurnStart n \<Rightarrow> Some (Some n) | TurnEnd _ _ \<Rightarrow> Some None | _ \<Rightarrow> None)"
    "sc_start (scan_entry e blank_scan) = (case ev_data e of PluginEvent (CompactionStart _) \<Rightarrow> Some (Some e)
            | PluginEvent (CompactionEnd _ _) \<Rightarrow> Some None | _ \<Rightarrow> None)"
    "sc_seed (scan_entry e blank_scan) = (if ev_data e = EndSeed then Some (ev_seq e) else None)"
    by (simp_all add: scan_entry_def blank_scan_def)
  note parts = fold_scan_parts [where es = "rev evs" and s = "scan_entry e blank_scan", unfolded new]
  show "es_turn (inspect_entry_state (evs @ [e])) =
     (case ev_data e of TurnStart n \<Rightarrow> Some n | TurnEnd _ _ \<Rightarrow> None | _ \<Rightarrow> es_turn (inspect_entry_state evs))"
    by (simp add: inspect_scan Let_def parts(1) split: event_data.splits)
  show "es_start (inspect_entry_state (evs @ [e])) =
     (case ev_data e of PluginEvent (CompactionStart _) \<Rightarrow> Some e | PluginEvent (CompactionEnd _ _) \<Rightarrow> None
      | _ \<Rightarrow> es_start (inspect_entry_state evs))"
    by (simp add: inspect_scan Let_def parts(2) split: event_data.splits compaction_event.splits)
  show "es_seed (inspect_entry_state (evs @ [e])) = (if ev_data e = EndSeed then Some (ev_seq e) else es_seed (inspect_entry_state evs))"
    by (simp add: inspect_scan Let_def parts(3))
qed

lemma inspect_Nil [simp]: "inspect_entry_state [] = \<lparr>es_turn = None, es_start = None, es_seed = None\<rparr>"
  by (simp add: inspect_entry_state_def)

definition scan_agrees :: "compaction_event event list \<Rightarrow> bracket_trace \<Rightarrow> bool" where
  "scan_agrees evs t \<longleftrightarrow> es_turn (inspect_entry_state evs) = bt_turn t \<and>
     (compaction_inactive (inspect_entry_state evs) \<longleftrightarrow> bt_open t = None)"

lemma inspect_bounds:
  "contiguous evs \<Longrightarrow> es_seed (inspect_entry_state evs) = Some q \<Longrightarrow> q < int (length evs)"
  "contiguous evs \<Longrightarrow> es_start (inspect_entry_state evs) = Some e \<Longrightarrow> ev_seq e < int (length evs)"
proof -
  show "contiguous evs \<Longrightarrow> es_seed (inspect_entry_state evs) = Some q \<Longrightarrow> q < int (length evs)"
  proof (induction evs rule: rev_induct)
    case (snoc x evs)
    then show ?case by (cases "ev_data x = EndSeed") (auto simp: inspect_snoc(3) contiguous_snoc)
  qed simp
  show "contiguous evs \<Longrightarrow> es_start (inspect_entry_state evs) = Some e \<Longrightarrow> ev_seq e < int (length evs)"
  proof (induction evs rule: rev_induct)
    case (snoc x evs)
    have "es_start (inspect_entry_state evs) = Some e \<or> e = x"
      using snoc.prems(2) by (simp add: inspect_snoc(2) split: event_data.splits compaction_event.splits)
    then show ?case using snoc by (auto simp: contiguous_snoc)
  qed simp
qed

lemma inactive_seed:
  assumes "contiguous (evs @ [e])" and "ev_data e = EndSeed"
  shows "compaction_inactive (inspect_entry_state (evs @ [e]))"
proof (cases "es_start (inspect_entry_state evs)")
  case None
  with assms(2) show ?thesis by (simp add: compaction_inactive_def inspect_snoc)
next
  case (Some s)
  then have "ev_seq s < int (length evs)" using assms(1) by (intro inspect_bounds(2)) (simp_all add: contiguous_snoc)
  with Some assms show ?thesis by (simp add: compaction_inactive_def inspect_snoc contiguous_snoc)
qed

lemma inspect_other:
  assumes "starts_bracket e = None" and "\<not> ends_bracket e"
  shows "es_start (inspect_entry_state (evs @ [e])) = es_start (inspect_entry_state evs)"
    and "es_seed (inspect_entry_state (evs @ [e])) = es_seed (inspect_entry_state evs)"
  unfolding inspect_snoc using assms
  by (simp_all add: starts_bracket_def ends_bracket_def split: event_data.splits compaction_event.splits)

lemma inspect_plain: "list_all plain_event tail \<Longrightarrow>
    es_start (inspect_entry_state (evs @ tail)) = es_start (inspect_entry_state evs) \<and>
    es_seed (inspect_entry_state (evs @ tail)) = es_seed (inspect_entry_state evs)"
proof (induction tail rule: rev_induct)
  case (snoc e tail)
  then show ?case using inspect_other [of e "evs @ tail"] by (simp add: plain_event_def)
qed simp

lemma inspect_turn_step:
  "es_turn (inspect_entry_state evs) = bt_turn t \<Longrightarrow> es_turn (inspect_entry_state (evs @ [e])) = bt_turn (apply_turn_boundary t e)"
  unfolding inspect_snoc by (simp add: apply_turn_boundary_def split: event_data.splits)

lemma inspect_turn:
  "es_turn (inspect_entry_state evs) = bt_turn t \<Longrightarrow>
     es_turn (inspect_entry_state (evs @ tail)) = bt_turn (foldl apply_turn_boundary t tail)"
proof (induction tail rule: rev_induct)
  case (snoc e tail)
  then show ?case using inspect_turn_step [of "evs @ tail" _ e] by simp
qed simp

lemma scan_agrees_live:
  assumes ok: "scan_agrees evs t" and s: "live_step t e = Inr t'" and contig: "contiguous (evs @ [e])"
  shows "scan_agrees (evs @ [e]) t'"
proof -
  from s obtain tr where v: "validate_compaction_event t e = Inr tr" and t': "t' = commit_event t e tr"
    by (auto simp: live_step_Inr)
  have turn: "es_turn (inspect_entry_state (evs @ [e])) = bt_turn t'"
  proof -
    have "bt_turn t' = bt_turn (apply_turn_boundary t e)"
      by (auto simp: t' commit_event_def apply_turn_boundary_def split: event_data.splits option.splits)
    then show ?thesis using ok inspect_turn [of evs t "[e]"] by (simp add: scan_agrees_def)
  qed
  from v have "compaction_inactive (inspect_entry_state (evs @ [e])) \<longleftrightarrow> bt_open t' = None"
  proof (cases rule: compaction_event_cases)
    case seed
    with t' inactive_seed [OF contig] show ?thesis by (simp add: commit_event_def)
  next
    case (start c)
    then have "es_start (inspect_entry_state (evs @ [e])) = Some e" by (simp add: inspect_snoc)
    moreover have "es_seed (inspect_entry_state (evs @ [e])) = es_seed (inspect_entry_state evs)"
      using start by (simp add: inspect_snoc)
    moreover have "ev_seq e = int (length evs)" using contig by (simp add: contiguous_snoc)
    ultimately show ?thesis using start t' inspect_bounds(1) [of evs] contig
      by (fastforce simp: compaction_inactive_def commit_event_def contiguous_snoc split: option.splits)
  next
    case (summary x ct)
    then have "inspect_entry_state (evs @ [e]) = inspect_entry_state evs" by (simp add: inspect_snoc)
    with summary ok t' show ?thesis by (simp add: scan_agrees_def commit_event_def)
  next
    case (close c err ct)
    then have "es_start (inspect_entry_state (evs @ [e])) = None" by (simp add: inspect_snoc)
    with close t' show ?thesis by (simp add: compaction_inactive_def commit_event_def)
  next
    case other
    then have "es_start (inspect_entry_state (evs @ [e])) = es_start (inspect_entry_state evs)"
      "es_seed (inspect_entry_state (evs @ [e])) = es_seed (inspect_entry_state evs)"
      by (simp_all add: inspect_other)
    then have "compaction_inactive (inspect_entry_state (evs @ [e])) = compaction_inactive (inspect_entry_state evs)"
      unfolding compaction_inactive_def by (simp only:)
    with other ok t' show ?thesis by (simp add: scan_agrees_def commit_event_def)
  qed
  with turn show ?thesis by (simp add: scan_agrees_def)
qed

lemma durable_scan_agrees: "durable evs t \<Longrightarrow> contiguous evs \<Longrightarrow> scan_agrees evs t"
proof (induction rule: durable.induct)
  case durable_empty
  then show ?case by (simp add: scan_agrees_def compaction_inactive_def fresh_bracket_def)
next
  case (durable_live evs t e t')
  then show ?case using scan_agrees_live contiguous_append_left by blast
next
  case (durable_restart evs t tail b)
  have ok: "scan_agrees evs t" using durable_restart.IH durable_restart.prems contiguous_append_left by blast
  then have "es_turn (inspect_entry_state (evs @ tail @ [b])) = bt_turn (foldl apply_turn_boundary t (tail @ [b]))"
    by (intro inspect_turn) (simp add: scan_agrees_def)
  moreover have "compaction_inactive (inspect_entry_state ((evs @ tail) @ [b]))"
    using durable_restart by (intro inactive_seed) simp_all
  ultimately show ?case
    using durable_restart.hyps by (simp add: scan_agrees_def apply_turn_boundary_def)
qed


section \<open>Valid regions\<close>

definition region_of :: "int \<Rightarrow> int \<Rightarrow> compaction_event event list \<Rightarrow> region_error + surface_span" where
  "region_of a b evs =
     (let nodes = surface_nodes evs in
      case index_of nodes a of
        None \<Rightarrow> Inl (StartNotOnSurface a)
      | Some i \<Rightarrow>
          (case index_of nodes b of
             None \<Rightarrow> Inl (EndNotOnSurface b)
           | Some j \<Rightarrow>
               if i > j then Inl (SpanReversed a b)
               else
                 rbind (cut_answer 0 (nodes ! i) evs) (\<lambda>before.
                 rbind (require before (StartSplitsPair a)) (\<lambda>_.
                 rbind (cut_answer 1 (nodes ! j) evs) (\<lambda>after.
                 rbind (require after (EndSplitsPair b)) (\<lambda>_.
                   Inr \<lparr>sp_start = a, sp_end = b, sp_start_idx = i, sp_end_idx = j,
                     sp_shadowed = take (j + 1 - i) (drop i nodes)\<rparr>))))))"

definition region_ok :: "compaction_event event list \<Rightarrow> surface_span \<Rightarrow> bool" where
  "region_ok evs sp \<longleftrightarrow> (\<exists>pre post. surface_nodes evs = pre @ sp_shadowed sp @ post \<and> sp_shadowed sp \<noteq> [] \<and>
     hd (sp_shadowed sp) = sp_start sp \<and> last (sp_shadowed sp) = sp_end sp \<and>
     sp_start_idx sp = length pre \<and> sp_end_idx sp + 1 = length pre + length (sp_shadowed sp) \<and>
     open_calls evs pre = 0 \<and> open_calls evs (pre @ sp_shadowed sp) = 0)"

lemma reads_validate: "reads (validate_surface_region a b) (region_of a b)"
proof -
  let ?chk = "\<lambda>nodes i j evs. rbind (cut_answer 0 (nodes ! i) evs) (\<lambda>before. rbind (require before (StartSplitsPair a)) (\<lambda>_.
      rbind (cut_answer 1 (nodes ! j) evs) (\<lambda>after. rbind (require after (EndSplitsPair b)) (\<lambda>_.
        Inr \<lparr>sp_start = a, sp_end = b, sp_start_idx = i, sp_end_idx = j, sp_shadowed = take (j + 1 - i) (drop i nodes)\<rparr>))))"
  have chk: "reads (op_bind (ask_balanced 0 (nodes ! i)) (\<lambda>before. op_bind (op_require before (StartSplitsPair a)) (\<lambda>_.
      op_bind (ask_balanced 1 (nodes ! j)) (\<lambda>after. op_bind (op_require after (EndSplitsPair b)) (\<lambda>_.
        op_return \<lparr>sp_start = a, sp_end = b, sp_start_idx = i, sp_end_idx = j, sp_shadowed = take (j + 1 - i) (drop i nodes)\<rparr>)))))
      (?chk nodes i j)" for nodes i j
    by (intro reads_bind reads_ask reads_simple) simp_all
  let ?H = "\<lambda>nodes evs. case index_of nodes a of None \<Rightarrow> Inl (StartNotOnSurface a)
      | Some i \<Rightarrow> (case index_of nodes b of None \<Rightarrow> Inl (EndNotOnSurface b)
          | Some j \<Rightarrow> if i > j then Inl (SpanReversed a b) else ?chk nodes i j evs)"
  have "reads (case index_of nodes a of None \<Rightarrow> op_throw (StartNotOnSurface a)
      | Some i \<Rightarrow> (case index_of nodes b of None \<Rightarrow> op_throw (EndNotOnSurface b)
          | Some j \<Rightarrow> if i > j then op_throw (SpanReversed a b) else
              op_bind (ask_balanced 0 (nodes ! i)) (\<lambda>before. op_bind (op_require before (StartSplitsPair a)) (\<lambda>_.
              op_bind (ask_balanced 1 (nodes ! j)) (\<lambda>after. op_bind (op_require after (EndSplitsPair b)) (\<lambda>_.
              op_return \<lparr>sp_start = a, sp_end = b, sp_start_idx = i, sp_end_idx = j, sp_shadowed = take (j + 1 - i) (drop i nodes)\<rparr>))))))
      (?H nodes)" for nodes
    using chk by (cases "index_of nodes a"; cases "index_of nodes b") (auto simp del: index_of_None intro: reads_simple(2))
  from reads_bind [OF reads_nodes this] show ?thesis
    by (simp only: validate_surface_region_def region_of_def [abs_def] Let_def rbind.simps)
qed

lemma nodes_split:
  assumes "i \<le> j" and "j < length xs"
  shows "xs = take i xs @ take (j + 1 - i) (drop i xs) @ drop (j + 1) xs" and "length (take (j + 1 - i) (drop i xs)) = j + 1 - i"
    and "hd (take (j + 1 - i) (drop i xs)) = xs ! i" and "last (take (j + 1 - i) (drop i xs)) = xs ! j"
    and "take i xs @ take (j + 1 - i) (drop i xs) = take (j + 1) xs"
proof -
  have app: "take i xs @ take (j + 1 - i) (drop i xs) = take (j + 1) xs"
    using assms by (metis le_add_diff_inverse le_Suc_eq Suc_eq_plus1 take_add)
  then show "take i xs @ take (j + 1 - i) (drop i xs) = take (j + 1) xs" .
  show "xs = take i xs @ take (j + 1 - i) (drop i xs) @ drop (j + 1) xs"
    using app by (metis append.assoc append_take_drop_id)
  show len: "length (take (j + 1 - i) (drop i xs)) = j + 1 - i" using assms by simp
  show "hd (take (j + 1 - i) (drop i xs)) = xs ! i" using assms by (simp add: hd_drop_conv_nth)
  have "take (j + 1 - i) (drop i xs) \<noteq> []" using assms by simp
  then show "last (take (j + 1 - i) (drop i xs)) = xs ! j"
    using assms len by (simp add: last_conv_nth)
qed

lemma region_of_ok:
  assumes known: "nodes_known evs" and r: "region_of a b evs = Inr sp"
  shows "region_ok evs sp" and "sp_start sp = a" and "sp_end sp = b"
proof -
  let ?nodes = "surface_nodes evs"
  from r obtain i j where i: "index_of ?nodes a = Some i" and j: "index_of ?nodes b = Some j" and ij: "i \<le> j"
    and cuts: "cut_answer 0 (?nodes ! i) evs = Inr True" "cut_answer 1 (?nodes ! j) evs = Inr True"
    and sp: "sp = \<lparr>sp_start = a, sp_end = b, sp_start_idx = i, sp_end_idx = j, sp_shadowed = take (j + 1 - i) (drop i ?nodes)\<rparr>"
    by (auto simp: region_of_def Let_def rbind_Inr_iff split: option.splits if_splits)
  have at: "i < length ?nodes" "?nodes ! i = a" "j < length ?nodes" "?nodes ! j = b"
    using index_of_Some [OF i] index_of_Some [OF j] by auto
  note split = nodes_split [OF ij at(3)]
  have "open_calls evs (take i ?nodes) = 0" "open_calls evs (take (j + 1) ?nodes) = 0"
    using cuts cut_answer_nth [OF known at(1), of 0] cut_answer_nth [OF known at(3), of 1] by simp_all
  then have "surface_nodes evs = take i ?nodes @ sp_shadowed sp @ drop (j + 1) ?nodes \<and> sp_shadowed sp \<noteq> [] \<and>
      hd (sp_shadowed sp) = sp_start sp \<and> last (sp_shadowed sp) = sp_end sp \<and> sp_start_idx sp = length (take i ?nodes) \<and>
      sp_end_idx sp + 1 = length (take i ?nodes) + length (sp_shadowed sp) \<and>
      open_calls evs (take i ?nodes) = 0 \<and> open_calls evs (take i ?nodes @ sp_shadowed sp) = 0"
    using split at ij by (auto simp: sp)
  then show "region_ok evs sp" unfolding region_ok_def by blast
  show "sp_start sp = a" "sp_end sp = b" by (simp_all add: sp)
qed

lemma log_kept_validate: "op_keeps log_kept (validate_surface_region a b)"
  unfolding validate_surface_region_def
  by (intro op_keeps_bind log_kept_order log_kept_reads)
    (auto intro!: op_keeps_bind log_kept_order log_kept_reads op_keeps_simple split: option.splits)

text \<open>A surface with an unanswerable result has no valid region.\<close>

lemma unpaired_ask:
  assumes "metered_ok mt" and "\<not> paired (event_log mt) (surface_nodes (event_log mt))" and "offset \<le> 1"
  shows "\<exists>mt' err. ask_balanced offset seq mt = (mt', Inl err)"
  using balanced_at_spec [OF assms(1,3), of seq "fst (balanced_at offset mt seq)" "snd (balanced_at offset mt seq)"] assms(2)
  by (cases "balanced_at offset mt seq") (auto simp: ask_balanced_def event_log_def ok_def split: sum.splits)

lemma validate_steady:
  assumes mt: "metered_ok mt" and v: "validate_surface_region a b mt = (mt', Inr sp)"
  shows "steady mt" and "steady mt'" and "event_log mt' = event_log mt" and "region_of a b (event_log mt) = Inr sp"
proof -
  show st: "steady mt"
  proof (rule ccontr)
    assume "\<not> steady mt"
    then have un: "\<not> paired (event_log mt) (surface_nodes (event_log mt))" using mt by (simp add: steady_def)
    obtain mt1 where n: "read_nodes mt = (mt1, Inr (surface_nodes (event_log mt)))" "metered_ok mt1" "event_log mt1 = event_log mt"
      using mt by (rule read_nodes_spec)
    have "\<forall>q. \<exists>p. ask_balanced 0 q mt1 = (fst p, Inl (snd p))"
      using unpaired_ask [OF n(2)] n(3) un by (metis fst_conv le0 le_numeral_extra(3) less_one linorder_not_less snd_conv zero_le_one)
    then obtain F where "ask_balanced 0 q mt1 = (fst (F q), Inl (snd (F q)))" for q by metis
    with v n(1) show False
      by (auto simp: validate_surface_region_def op_bind_def split: option.splits if_splits)
  qed
  from reads_validate st obtain mt2 where "validate_surface_region a b mt = (mt2, region_of a b (event_log mt))"
    "steady mt2" "event_log mt2 = event_log mt" by (rule readsE)
  with v show "steady mt'" "event_log mt' = event_log mt" "region_of a b (event_log mt) = Inr sp" by auto
qed


section \<open>Appends of the transaction\<close>

lemma open_calls_grow:
  assumes "\<forall>q \<in> set nodes. 0 \<le> q \<and> q < int (length evs)"
  shows "open_calls (evs @ later) nodes = open_calls evs nodes"
proof -
  have "map (node_delta (evs @ later)) nodes = map (node_delta evs) nodes"
    using assms by (auto simp: node_delta_def nth_append nat_less_iff)
  then show ?thesis by (simp only: open_calls_def)
qed

lemma paired_grow:
  assumes "\<forall>q \<in> set nodes. 0 \<le> q \<and> q < int (length evs)"
  shows "paired (evs @ later) nodes \<longleftrightarrow> paired evs nodes"
proof -
  have "open_calls (evs @ later) (take k nodes) = open_calls evs (take k nodes)" for k
    using assms by (intro open_calls_grow) (auto dest: in_set_takeD)
  then show ?thesis by (simp add: paired_iff)
qed

lemma metered_session: "metered_ok mt \<Longrightarrow> session_ok (mt_session mt)"
  by (simp add: metered_ok_def)

lemma append_log_event:
  assumes mt: "metered_ok mt" and d: "\<not> is_surface_eligible_type d"
  obtains mt' where "task_append now d no_intent mt = (mt', Inr (log_event (int (length (event_log mt))) now d))"
    and "metered_ok mt'" and "event_log mt' = event_log mt @ [log_event (int (length (event_log mt))) now d]"
    and "surface_nodes (event_log mt') = surface_nodes (event_log mt)"
proof -
  obtain s where s: "session_append now d no_intent (mt_session mt) = (s, Inr (log_event (int (length (event_log mt))) now d))"
    "session_ok s" "ses_log s = event_log mt @ [log_event (int (length (event_log mt))) now d]"
    using append_log_only [OF metered_session [OF mt] d, of now] by (auto simp: event_log_def)
  have "metered_ok (mt\<lparr>mt_session := s\<rparr>)" using metered_ok_append [OF mt s(1)] .
  moreover have "surface_nodes (ses_log s) = surface_nodes (event_log mt)"
    using surface_nodes_log_only [OF session_fold_ok [OF metered_session [OF mt]] d, of now] s(3) by (simp add: event_log_def)
  ultimately show thesis
    using s by (intro that [of "mt\<lparr>mt_session := s\<rparr>"]) (simp_all add: task_append_def event_log_def)
qed

lemma steady_log_event:
  assumes st: "steady mt" and "metered_ok mt'" and "event_log mt' = event_log mt @ [e]"
    and "surface_nodes (event_log mt') = surface_nodes (event_log mt)"
  shows "steady mt'"
proof -
  have "nodes_known (event_log mt)" using st metered_nodes_known by (simp add: steady_def)
  then have "paired (event_log mt @ [e]) (surface_nodes (event_log mt))"
    using st by (subst paired_grow) (simp_all add: nodes_known_def steady_def)
  with assms show ?thesis by (simp add: steady_def)
qed

lemma append_checkpoint:
  assumes mt: "metered_ok mt" and nodes: "surface_nodes (event_log mt) = pre @ mid @ post" and mid: "mid \<noteq> []"
    and srcs: "distinct sources" "\<forall>q \<in> set sources. 0 \<le> q \<and> q < int (length (event_log mt))" "set mid \<subseteq> set sources"
    and small: "int (length (event_log mt)) \<le> max_safe"
  obtains mt' u where "task_append now (UserMessage m) (replace_intent (hd mid) (last mid) sources) mt = (mt', Inr u)"
    and "metered_ok mt'" and "event_log mt' = event_log mt @ [u]" and "ev_seq u = int (length (event_log mt))"
    and "ev_data u = UserMessage m" and "is_replacement_surface_event u"
    and "ev_surface_op u = si_op (replace_intent (hd mid) (last mid) sources)"
    and "surface_nodes (event_log mt') = pre @ [int (length (event_log mt))] @ post"
proof -
  obtain s u where s: "session_append now (UserMessage m) (replace_intent (hd mid) (last mid) sources) (mt_session mt) = (s, Inr u)"
    "session_ok s" "ses_log s = ses_log (mt_session mt) @ [u]" "ev_seq u = int (length (ses_log (mt_session mt)))"
    "ev_data u = UserMessage m" "ev_surface_op u = si_op (replace_intent (hd mid) (last mid) sources)"
    "surface_nodes (ses_log s) = pre @ [int (length (ses_log (mt_session mt)))] @ post"
    by (rule append_replacement [OF metered_session [OF mt], of pre mid post "UserMessage m" sources now])
      (use assms in \<open>simp_all add: event_log_def assert_tool_result_rewrite_def\<close>)
  have "metered_ok (mt\<lparr>mt_session := s\<rparr>)" using metered_ok_append [OF mt s(1)] .
  with s show thesis
    by (intro that [of "mt\<lparr>mt_session := s\<rparr>" u])
      (simp_all add: task_append_def event_log_def is_replacement_surface_event_def is_surface_event_def replace_intent_def)
qed

section \<open>Opening\<close>

definition prepared_for :: "region_meter \<Rightarrow> compaction_event event list \<Rightarrow> prepared \<Rightarrow> bool" where
  "prepared_for mtr evs p \<longleftrightarrow> region_ok evs (pc_span p) \<and> measure_nodes mtr evs = Inr (pc_measured p) \<and>
     pc_selected p = span_slice (pc_span p) (pc_measured p) \<and> pc_tokens p = sum_list (map snd (pc_selected p))"

text \<open>The snapshot of a span: prepared, or the meter's own failure.\<close>

definition snapshot_of ::
    "region_meter \<Rightarrow> compaction_event event list \<Rightarrow> surface_span \<Rightarrow> region_error + prepared \<Rightarrow> bool" where
  "snapshot_of mtr evs sp r \<longleftrightarrow> (case r of
      Inl err \<Rightarrow> (\<exists>e. measure_nodes mtr evs = Inl e \<and> err = MeterFailed e)
    | Inr p \<Rightarrow> prepared_for mtr evs p \<and> pc_span p = sp)"

lemma region_ok_grow:
  assumes "region_ok evs sp" and "nodes_known evs" and "surface_nodes (evs @ later) = surface_nodes evs"
  shows "region_ok (evs @ later) sp"
proof -
  from assms(1) obtain pre post where r: "surface_nodes evs = pre @ sp_shadowed sp @ post" "sp_shadowed sp \<noteq> []"
    "hd (sp_shadowed sp) = sp_start sp" "last (sp_shadowed sp) = sp_end sp" "sp_start_idx sp = length pre"
    "sp_end_idx sp + 1 = length pre + length (sp_shadowed sp)" "open_calls evs pre = 0" "open_calls evs (pre @ sp_shadowed sp) = 0"
    by (auto simp: region_ok_def)
  have "open_calls (evs @ later) pre = open_calls evs pre" "open_calls (evs @ later) (pre @ sp_shadowed sp) = open_calls evs (pre @ sp_shadowed sp)"
    by (rule open_calls_grow; use assms(2) r(1) in \<open>auto simp: nodes_known_def\<close>)+
  with r assms(3) show ?thesis unfolding region_ok_def by (intro exI [of _ pre] exI [of _ post]) simp
qed

lemma build_input_spec:
  assumes "metered_ok mt"
  obtains mt' i where "build_input sh mt = (mt', Inr i)" and "metered_ok mt'" and "event_log mt' = event_log mt"
proof -
  have "session_ok (fst (request_header (mt_session mt)))" using assms request_header_ok metered_session by blast
  then have "metered_ok (mt\<lparr>mt_session := fst (request_header (mt_session mt))\<rparr>)"
    by (rule metered_ok_session [OF assms, of _ "[]"]) (simp add: request_header_def Let_def)
  moreover have "ses_log (fst (request_header (mt_session mt))) = ses_log (mt_session mt)"
    by (simp add: request_header_def Let_def)
  ultimately show thesis
    by (cases "request_header (mt_session mt)") (auto simp: build_input_def event_log_def intro: that)
qed

lemma span_slice_fst: "map fst (span_slice sp xs) = take (sp_end_idx sp + 1 - sp_start_idx sp) (drop (sp_start_idx sp) (map fst xs))"
  by (simp add: span_slice_def take_map drop_map)

lemma region_slice: "region_ok evs sp \<Longrightarrow> take (sp_end_idx sp + 1 - sp_start_idx sp) (drop (sp_start_idx sp) (surface_nodes evs)) = sp_shadowed sp"
  by (auto simp: region_ok_def)

section \<open>Finishing\<close>

text \<open>The span still is a balanced run of the surface of the log.\<close>

definition replaceable :: "compaction_event event list \<Rightarrow> surface_span \<Rightarrow> bool" where
  "replaceable evs sp \<longleftrightarrow> paired evs (surface_nodes evs) \<and> (\<exists>pre post. surface_nodes evs = pre @ sp_shadowed sp @ post \<and>
     sp_shadowed sp \<noteq> [] \<and> hd (sp_shadowed sp) = sp_start sp \<and> last (sp_shadowed sp) = sp_end sp \<and>
     open_calls evs pre = 0 \<and> open_calls evs (pre @ sp_shadowed sp) = 0)"

lemma region_replaceable: "region_ok evs sp \<Longrightarrow> paired evs (surface_nodes evs) \<Longrightarrow> replaceable evs sp"
  by (auto simp: region_ok_def replaceable_def)

lemma map_error_fst: "fst (case m of (s, Inl err) \<Rightarrow> (s, Inl (c err)) | (s, Inr a) \<Rightarrow> (s, Inr a)) = fst m"
  by (cases m) (simp split: sum.splits)

lemma log_kept_meter: "op_keeps log_kept (read_meter mtr)"
  by (simp add: op_keeps_def read_meter_def log_kept_def)

lemma log_kept_stable:
  "op_keeps log_kept (assert_whole_surface_unchanged mtr p)" "op_keeps log_kept (assert_selected_span_stable mtr p)"
proof -
  show "op_keeps log_kept (assert_whole_surface_unchanged mtr p)"
    unfolding assert_whole_surface_unchanged_def by (intro op_keeps_bind log_kept_order op_keeps_simple log_kept_meter)
  have "op_keeps log_kept (\<lambda>mt. case validate_surface_region a b mt of
      (mt', Inl err) \<Rightarrow> (mt', Inl (SpanInvalid err)) | (mt', Inr sp) \<Rightarrow> (mt', Inr sp))" for a b
    using log_kept_validate [of a b] by (simp add: op_keeps_def map_error_fst)
  then show "op_keeps log_kept (assert_selected_span_stable mtr p)"
    unfolding assert_selected_span_stable_def by (intro op_keeps_bind log_kept_order op_keeps_simple log_kept_meter)
qed

lemma staged_Inr: "staged stage m mt = (mt', Inr a) \<longleftrightarrow> m mt = (mt', Inr a)"
  by (auto simp: staged_def split: prod.splits sum.splits)

lemma staged_Inl: "staged stage m mt = (mt', Inl f) \<longleftrightarrow> m mt = (mt', Inl (tf_error f)) \<and> tf_stage f = stage"
  by (cases f) (auto simp: staged_def split: prod.splits sum.splits)

text \<open>The three events a successful finish adds, and the surface it leaves.\<close>

definition committed ::
    "compaction_event event list \<Rightarrow> open_compaction \<Rightarrow> prepared \<Rightarrow> summary_result \<Rightarrow> message
      \<Rightarrow> compaction_event event \<Rightarrow> compaction_event event \<Rightarrow> bool" where
  "committed evs oc p r m s u \<longleftrightarrow>
     ev_data s = summary_event (oc_lifecycle oc) p r \<and> ev_data u = UserMessage m \<and> is_replacement_surface_event u \<and>
     ev_seq u = int (length evs) + 1 \<and> replaced_range u = Some (sp_start (pc_span p), sp_end (pc_span p)) \<and>
     (\<exists>pre post. surface_nodes evs = pre @ sp_shadowed (pc_span p) @ post \<and> sp_shadowed (pc_span p) \<noteq> [] \<and>
        surface_nodes (evs @ [s, u]) = pre @ [ev_seq u] @ post \<and> paired (evs @ [s, u]) (pre @ [ev_seq u] @ post))"

lemma commit_body_spec:
  assumes mt: "metered_ok mt" and rep: "replaceable (event_log mt) (pc_span p)"
    and start: "\<forall>q \<in> set (sp_shadowed (pc_span p)). q < ev_seq (oc_start oc)"
      "0 \<le> ev_seq (oc_start oc)" "ev_seq (oc_start oc) < int (length (event_log mt))"
    and small: "int (length (event_log mt)) < max_safe"
  obtains mt' s u where "commit_compaction_body clock oc p r m mt = (mt', Inr
      \<lparr>cr_id = cl_id (oc_lifecycle oc), cr_command = cl_command (oc_lifecycle oc), cr_start_seq = ev_seq (oc_start oc),
       cr_summary_seq = int (length (event_log mt)), cr_end_seq = 0, cr_summary = sr_summary r,
       cr_range = (sp_start (pc_span p), sp_end (pc_span p)), cr_shadowed = sp_shadowed (pc_span p), cr_tokens = pc_tokens p\<rparr>)"
    and "metered_ok mt'" and "event_log mt' = event_log mt @ [s, u]" and "committed (event_log mt) oc p r m s u"
proof -
  let ?n = "int (length (event_log mt))" and ?sh = "sp_shadowed (pc_span p)"
  from rep obtain pre post where nodes: "surface_nodes (event_log mt) = pre @ ?sh @ post" and sh: "?sh \<noteq> []"
    "hd ?sh = sp_start (pc_span p)" "last ?sh = sp_end (pc_span p)" and bal: "open_calls (event_log mt) pre = 0"
    "open_calls (event_log mt) (pre @ ?sh) = 0" and pair: "paired (event_log mt) (pre @ ?sh @ post)"
    by (auto simp: replaceable_def)
  have known: "distinct (pre @ ?sh @ post)" "\<forall>q \<in> set (pre @ ?sh @ post). 0 \<le> q \<and> q < ?n"
    using metered_nodes_known [OF mt] nodes by (simp_all add: nodes_known_def)
  let ?d = "summary_event (oc_lifecycle oc) p r"
  let ?s = "log_event ?n (clock 0) ?d"
  obtain mt1 where a1: "task_append (clock 0) ?d no_intent mt = (mt1, Inr ?s)" "metered_ok mt1" "event_log mt1 = event_log mt @ [?s]"
    "surface_nodes (event_log mt1) = surface_nodes (event_log mt)"
    using append_log_event [OF mt, of ?d "clock 0"] by (auto simp: summary_event_def)
  let ?srcs = "[ev_seq (oc_start oc), ?n] @ ?sh"
  have srcs: "distinct ?srcs" "\<forall>q \<in> set ?srcs. 0 \<le> q \<and> q < int (length (event_log mt1))" "set ?sh \<subseteq> set ?srcs"
    using known start a1(3) by auto
  have small1: "int (length (event_log mt1)) \<le> max_safe" using small a1(3) by simp
  obtain mt2 u where a2: "task_append (clock 1) (UserMessage m) (replace_intent (hd ?sh) (last ?sh) ?srcs) mt1 = (mt2, Inr u)"
    "metered_ok mt2" "event_log mt2 = event_log mt1 @ [u]" "ev_seq u = int (length (event_log mt1))" "ev_data u = UserMessage m"
    "is_replacement_surface_event u" "surface_nodes (event_log mt2) = pre @ [int (length (event_log mt1))] @ post"
    "ev_surface_op u = si_op (replace_intent (hd ?sh) (last ?sh) ?srcs)"
    by (rule append_checkpoint [OF a1(2) _ sh(1) srcs, of pre post "clock 1" m]) (use a1(4) nodes small1 in simp_all)
  let ?evs = "event_log mt @ [?s, u]"
  have u: "ev_seq u = ?n + 1" using a2(4) a1(3) by simp
  have "node_delta ?evs (?n + 1) = 0"
    using a2(5) by (simp add: node_delta_def nth_append nat_add_distrib event_delta_def)
  moreover have "open_calls ?evs pre = 0" "open_calls ?evs (pre @ ?sh) = 0" "paired ?evs (pre @ ?sh @ post)"
    using bal pair known(2) by (subst open_calls_grow paired_grow; auto)+
  ultimately have "paired ?evs (pre @ [ev_seq u] @ post)"
    using paired_replace [of ?evs pre ?sh post "?n + 1"] u by simp
  moreover have "replaced_range u = Some (hd ?sh, last ?sh)"
  proof -
    have "hd ?sh \<in> set ?sh" "last ?sh \<in> set ?sh" using sh(1) by simp_all
    moreover have "0 \<le> q \<and> safe_int q" if "q \<in> set ?sh" for q
    proof -
      from known(2) that have "0 \<le> q \<and> q < ?n" by simp
      with small show ?thesis by (simp add: safe_int_def)
    qed
    ultimately have "0 \<le> hd ?sh \<and> safe_int (hd ?sh)" "0 \<le> last ?sh \<and> safe_int (last ?sh)" by blast+
    then show ?thesis using a2(8) by (simp add: replaced_range_def replace_intent_def replace_op_intent)
  qed
  ultimately have "committed (event_log mt) oc p r m ?s u"
    using sh(2,3) nodes sh(1) a1(3) a2(3-7) u unfolding committed_def
    by (intro conjI, simp_all) (rule exI [of _ pre], rule exI [of _ post], simp add: add.commute)
  then show thesis
    using a1 a2 sh by (intro that [of mt2 ?s u]) (simp_all add: commit_compaction_body_def Let_def op_bind_def op_return_def)
qed

definition finished ::
    "compaction_event event list \<Rightarrow> open_compaction \<Rightarrow> region_meter \<Rightarrow> message_id \<Rightarrow> summary_error + summary_result
      \<Rightarrow> compaction_event event list \<Rightarrow> transaction_failure + compaction_result \<Rightarrow> bool" where
  "finished evs oc mtr mid outcome evs' result \<longleftrightarrow> (case result of
      Inl f \<Rightarrow> tf_stage f = StageSummary \<and> evs' = evs
    | Inr res \<Rightarrow> (\<exists>p r s u. oc_prepared oc = Inr p \<and> outcome = Inr r \<and> evs' = evs @ [s, u] \<and>
        committed evs oc p r (checkpoint_message mid (oc_lifecycle oc) r) s u \<and> replaceable evs (pc_span p) \<and>
        estimate_message mtr (checkpoint_message mid (oc_lifecycle oc) r) < pc_tokens p \<and>
        cr_shadowed res = sp_shadowed (pc_span p) \<and> cr_tokens res = pc_tokens p \<and> cr_start_seq res = ev_seq (oc_start oc) \<and>
        cr_summary_seq res = int (length evs)))"

lemma metered_fold_ok: "metered_ok mt \<Longrightarrow> ok (fold_surface (event_log mt))"
  unfolding event_log_def by (rule session_fold_ok [OF metered_session])

lemma read_meter_Inr: "read_meter mtr mt = (mt', Inr nodes) \<longleftrightarrow> mt' = mt \<and> measure_nodes mtr (event_log mt) = Inr nodes"
  by (cases "measure_nodes mtr (event_log mt)") (auto simp: read_meter_def)

section \<open>The transaction with a lawful meter\<close>

locale compaction_meter = surface_meter mtr for mtr :: region_meter
begin

lemma prepare_spec:
  assumes mt: "metered_ok mt" and r: "region_ok (event_log mt) sp" 
  obtains mt' r where "prepare_compaction mtr sp mt = (mt', r)" and "metered_ok mt'" and "event_log mt' = event_log mt"
    and "snapshot_of mtr (event_log mt) sp r"
proof (cases "measure_nodes mtr (event_log mt)")
  case (Inl err)
  then have "prepare_compaction mtr sp mt = (mt, Inl (MeterFailed err))"
    by (simp add: prepare_compaction_def op_bind_def read_meter_def)
  with Inl mt that show thesis by (simp add: snapshot_of_def)
next
  case (Inr m)
  let ?m = m
  have "map fst ?m = surface_nodes (event_log mt)" using nodes_measured [OF metered_fold_ok [OF mt] Inr] .
  then have fst: "map fst (span_slice sp ?m) = sp_shadowed sp" using region_slice [OF r] by (simp only: span_slice_fst)
  obtain mt' i where b: "build_input (sp_shadowed sp) mt = (mt', Inr i)" "metered_ok mt'" "event_log mt' = event_log mt"
    using mt by (rule build_input_spec)
  let ?p = "\<lparr>pc_span = sp, pc_measured = ?m, pc_selected = span_slice sp ?m, pc_tokens = sum_list (map snd (span_slice sp ?m)),
    pc_input = i\<rparr>"
  have "prepare_compaction mtr sp mt = (mt', Inr ?p)"
    using fst b(1) Inr by (simp add: prepare_compaction_def op_bind_def read_meter_def op_require_def op_lift_def op_return_def require_def Let_def)
  with b r Inr that show thesis by (simp add: prepared_for_def snapshot_of_def)
qed

lemma compact_open_spec:
  assumes mt: "metered_ok mt" and run: "compact_open mtr opts aborted uuid now a b mt = (mt', Inr oc)"
  obtains sp where "steady mt" and "compaction_inactive (inspect_entry_state (event_log mt))"
    and "if to_standalone opts then es_turn (inspect_entry_state (event_log mt)) = None
         else es_turn (inspect_entry_state (event_log mt)) \<noteq> None"
    and "oc_lifecycle oc = \<lparr>cl_id = uuid, cl_command = to_command opts, cl_turn = es_turn (inspect_entry_state (event_log mt))\<rparr>"
    and "oc_start oc = log_event (int (length (event_log mt))) now (PluginEvent (CompactionStart (oc_lifecycle oc)))"
    and "event_log mt' = event_log mt @ [oc_start oc]" and "metered_ok mt'"
    and "surface_nodes (event_log mt') = surface_nodes (event_log mt)"
    and "snapshot_of mtr (event_log mt') sp (oc_prepared oc)" and "region_ok (event_log mt) sp" and "sp_start sp = a" and "sp_end sp = b"
proof -
  let ?st = "inspect_entry_state (event_log mt)"
  define c where "c = \<lparr>cl_id = uuid, cl_command = to_command opts, cl_turn = (if to_standalone opts then None else es_turn ?st)\<rparr>"
  from run obtain sp mt1 where v: "validate_surface_region a b mt = (mt1, Inr sp)"
    by (auto simp: compact_open_def elim!: op_bindE)
  note steady = validate_steady [OF mt v]
  have mt1: "metered_ok mt1" using steady(2) by (simp add: steady_def)
  have guards: "compaction_inactive ?st" "if to_standalone opts then es_turn ?st = None else es_turn ?st \<noteq> None"
    using run v steady(3) by (auto simp: compact_open_def elim!: op_bindE split: if_splits)
  then have turn: "cl_turn c = es_turn ?st" by (auto simp: c_def split: if_splits)
  let ?e = "log_event (int (length (event_log mt))) now (PluginEvent (CompactionStart c))"
  obtain mt2 where app: "task_append now (PluginEvent (CompactionStart c)) no_intent mt1 = (mt2, Inr ?e)" "metered_ok mt2"
    "event_log mt2 = event_log mt @ [?e]" "surface_nodes (event_log mt2) = surface_nodes (event_log mt)"
    using append_log_event [OF mt1, of "PluginEvent (CompactionStart c)" now] steady(3) by auto
  note r = region_of_ok [OF metered_nodes_known [OF mt] steady(4)]
  have "region_ok (event_log mt @ [?e]) sp"
    using region_ok_grow [OF r(1) metered_nodes_known [OF mt], of "[?e]"] app(3,4) by simp
  then obtain mt3 q where p: "prepare_compaction mtr sp mt2 = (mt3, q)" "metered_ok mt3" "event_log mt3 = event_log mt2"
    "snapshot_of mtr (event_log mt2) sp q"
    using prepare_spec [OF app(2), of sp] app(3) by metis
  have "mt' = mt3 \<and> oc = \<lparr>oc_lifecycle = c, oc_start = ?e, oc_prepared = q\<rparr>"
    using run v app(1) p(1) steady(3)
    by (auto simp: compact_open_def c_def Let_def elim!: op_bindE split: if_splits)
  with steady guards turn app p r show thesis
    by (intro that [of sp]) (simp_all add: c_def)
qed

lemma stable_spec:
  assumes mt: "metered_ok mt" and p: "prepared_for mtr evs p" and evs: "nodes_known evs" "paired evs (surface_nodes evs)"
    and grown: "event_log mt = evs @ gap"
    and s: "(if whole then assert_whole_surface_unchanged mtr p else assert_selected_span_stable mtr p) mt = (mt', Inr ())"
  shows "metered_ok mt'" and "event_log mt' = event_log mt" and "replaceable (event_log mt) (pc_span p)"
proof -
  have "op_keeps log_kept (if whole then assert_whole_surface_unchanged mtr p else assert_selected_span_stable mtr p)"
    using log_kept_stable by simp
  with s mt have "log_kept mt mt'" unfolding op_keeps_def by (metis fst_conv)
  with mt show "metered_ok mt'" "event_log mt' = event_log mt" by (simp_all add: log_kept_def)
  show "replaceable (event_log mt) (pc_span p)"
  proof (cases whole)
    case True
    with s have "measure_nodes mtr (event_log mt) = Inr (pc_measured p)"
      by (auto simp: assert_whole_surface_unchanged_def read_meter_Inr elim!: op_bindE)
    moreover have "measure_nodes mtr evs = Inr (pc_measured p)" using p by (simp add: prepared_for_def)
    moreover have fold: "ok (fold_surface (evs @ gap))" using metered_fold_ok [OF mt] grown by simp
    ultimately have same: "surface_nodes (evs @ gap) = surface_nodes evs"
      using nodes_measured [OF fold] nodes_measured [OF fold_surface_prefix [OF fold]] grown by fastforce
    have "paired (evs @ gap) (surface_nodes evs)" using evs by (subst paired_grow) (simp_all add: nodes_known_def)
    moreover have "region_ok (evs @ gap) (pc_span p)"
      using region_ok_grow [OF _ evs(1) same] p by (simp add: prepared_for_def)
    ultimately show ?thesis using same grown by (simp add: region_replaceable)
  next
    case False
    with s obtain mt1 sp where v: "validate_surface_region (sp_start (pc_span p)) (sp_end (pc_span p)) mt = (mt1, Inr sp)"
      and sh: "sp_shadowed sp = sp_shadowed (pc_span p)"
      by (auto simp: assert_selected_span_stable_def elim!: op_bindE split: prod.splits sum.splits)
    note steady = validate_steady [OF mt v] and r = region_of_ok [OF metered_nodes_known [OF mt] validate_steady(4) [OF mt v]]
    have "replaceable (event_log mt) sp" using region_replaceable r(1) steady(1) by (simp add: steady_def)
    with sh r(2,3) show ?thesis by (simp add: replaceable_def)
  qed
qed

lemma body_spec:
  assumes mt: "metered_ok mt" and snap: "snapshot_of mtr evs sp (oc_prepared oc)"
    and evs: "nodes_known evs" "paired evs (surface_nodes evs)" and grown: "event_log mt = evs @ gap"
    and start: "\<forall>q \<in> set (sp_shadowed sp). q < ev_seq (oc_start oc)"
      "0 \<le> ev_seq (oc_start oc)" "ev_seq (oc_start oc) < int (length (event_log mt))"
    and small: "int (length (event_log mt)) < max_safe"
    and run: "compact_body mtr opts aborted mid clock oc outcome mt = (mt', result)"
  shows "metered_ok mt' \<and> finished (event_log mt) oc mtr mid outcome (event_log mt') result"
proof (cases "oc_prepared oc")
  case (Inl err)
  with run mt show ?thesis by (auto simp: compact_body_def op_bind_def op_lift_def staged_def finished_def)
next
  case p: (Inr p)
  with snap have p': "prepared_for mtr evs p" "pc_span p = sp" by (simp_all add: snapshot_of_def)
  show ?thesis
proof (cases "summarize_compaction mtr mid (oc_lifecycle oc) p outcome")
  case (Inl err)
  with run p mt show ?thesis
    by (auto simp: compact_body_def op_bind_def op_lift_def staged_def finished_def)
next
  case (Inr rm)
  then obtain r where rm: "outcome = Inr r" "rm = (r, checkpoint_message mid (oc_lifecycle oc) r)"
    "estimate_message mtr (checkpoint_message mid (oc_lifecycle oc) r) < pc_tokens p"
    by (auto simp: summarize_compaction_def Let_def split: sum.splits if_splits)
  let ?stable = "if to_whole_surface opts then assert_whole_surface_unchanged mtr p else assert_selected_span_stable mtr p"
  show ?thesis
  proof (cases "to_standalone opts \<and> aborted")
    case True
    with run p Inr mt rm show ?thesis
      by (auto simp: compact_body_def op_bind_def op_lift_def op_require_def require_def staged_def finished_def)
  next
    case False
    obtain mt1 q where st: "?stable mt = (mt1, q)" by (cases "?stable mt")
    have body: "compact_body mtr opts aborted mid clock oc outcome mt =
        (case q of Inl err \<Rightarrow> (mt1, Inl \<lparr>tf_error = err, tf_stage = StageSummary\<rparr>)
         | Inr _ \<Rightarrow> staged StageCommit (commit_compaction_body clock oc p r (checkpoint_message mid (oc_lifecycle oc) r)) mt1)"
      using False p Inr rm st
      by (simp add: compact_body_def op_bind_def op_lift_def op_require_def require_def staged_def split: sum.splits)
    have kept: "metered_ok mt1 \<and> event_log mt1 = event_log mt"
    proof -
      have "op_keeps log_kept ?stable" using log_kept_stable by simp
      then have "log_kept mt (fst (?stable mt))" by (simp only: op_keeps_def)
      with st mt show ?thesis by (simp add: log_kept_def)
    qed
    show ?thesis
    proof (cases q)
      case (Inl err)
      with body run kept show ?thesis by (auto simp: finished_def)
    next
      case (Inr v)
      with st have "?stable mt = (mt1, Inr ())" by simp
      note stable = stable_spec [OF mt p'(1) evs grown this]
      obtain mt2 s u where c: "commit_compaction_body clock oc p r (checkpoint_message mid (oc_lifecycle oc) r) mt1 = (mt2, Inr
          \<lparr>cr_id = cl_id (oc_lifecycle oc), cr_command = cl_command (oc_lifecycle oc), cr_start_seq = ev_seq (oc_start oc),
           cr_summary_seq = int (length (event_log mt1)), cr_end_seq = 0, cr_summary = sr_summary r,
           cr_range = (sp_start (pc_span p), sp_end (pc_span p)), cr_shadowed = sp_shadowed (pc_span p), cr_tokens = pc_tokens p\<rparr>)"
        "metered_ok mt2" "event_log mt2 = event_log mt1 @ [s, u]"
        "committed (event_log mt1) oc p r (checkpoint_message mid (oc_lifecycle oc) r) s u"
        by (rule commit_body_spec [of mt1 p oc clock r "checkpoint_message mid (oc_lifecycle oc) r"]) (use stable kept start small p'(2) in simp_all)
      from body run Inr c(1) have "mt' = mt2" and "result = Inr
          \<lparr>cr_id = cl_id (oc_lifecycle oc), cr_command = cl_command (oc_lifecycle oc), cr_start_seq = ev_seq (oc_start oc),
           cr_summary_seq = int (length (event_log mt1)), cr_end_seq = 0, cr_summary = sr_summary r,
           cr_range = (sp_start (pc_span p), sp_end (pc_span p)), cr_shadowed = sp_shadowed (pc_span p), cr_tokens = pc_tokens p\<rparr>"
        by (simp_all add: staged_def)
      with c kept rm stable p show ?thesis by (auto simp: finished_def)
    qed
  qed
qed
qed

lemma span_price:
  assumes "ok (fold_surface evs)" and "prepared_for mtr evs p"
  shows "0 \<le> pc_tokens p" and "pc_tokens p \<le> tail_price (pc_measured p) 0"
proof -
  let ?xs = "pc_measured p" and ?i = "sp_start_idx (pc_span p)"
  let ?k = "sp_end_idx (pc_span p) + 1 - ?i"
  have pos: "list_all (\<lambda>p. 0 \<le> snd p) ?xs" using prices_nonneg [OF assms(1)] assms(2) by (simp add: prepared_for_def)
  have part: "0 \<le> sum_list (map snd ys)" if "set ys \<subseteq> set ?xs" for ys
    by (rule sum_list_nonneg) (use pos that in \<open>auto simp: list_all_iff\<close>)
  have tok: "pc_tokens p = sum_list (map snd (take ?k (drop ?i ?xs)))" using assms(2) by (simp add: prepared_for_def span_slice_def)
  show "0 \<le> pc_tokens p" unfolding tok by (rule part) (auto dest: in_set_takeD in_set_dropD)
  have "?xs = take ?i ?xs @ take ?k (drop ?i ?xs) @ drop (?i + ?k) ?xs"
    by (metis append_take_drop_id drop_drop add.commute)
  then have "tail_price ?xs 0 = sum_list (map snd (take ?i ?xs)) + pc_tokens p + sum_list (map snd (drop (?i + ?k) ?xs))"
    unfolding tail_price_def tok by (metis add.assoc drop0 map_append sum_list_append)
  moreover have "0 \<le> sum_list (map snd (take ?i ?xs))" "0 \<le> sum_list (map snd (drop (?i + ?k) ?xs))"
    by (intro part set_take_subset set_drop_subset)+
  ultimately show "pc_tokens p \<le> tail_price ?xs 0" by simp
qed

text \<open>What a run of both halves does, collected for the properties.\<close>

lemma transaction_spec:
  assumes reach: "metered_ok mt0" "metered_ok mt2"
    and run: "compact_open mtr opts aborted uuid now a b mt0 = (mt1, Inr oc)"
    and grown: "event_log mt2 = event_log mt1 @ gap" and small: "int (length (event_log mt2)) < max_safe"
    and fin: "compact_finish mtr opts error_chain aborted' mid clock oc outcome mt2 = (mt3, co)"
  obtains sp evs e where "snapshot_of mtr (event_log mt1) sp (oc_prepared oc)" and "event_log mt1 = event_log mt0 @ [oc_start oc]"
    and "ev_data (oc_start oc) = PluginEvent (CompactionStart (oc_lifecycle oc))"
    and "cl_id (oc_lifecycle oc) = uuid" and "cl_command (oc_lifecycle oc) = to_command opts"
    and "cl_turn (oc_lifecycle oc) = es_turn (inspect_entry_state (event_log mt0))"
    and "compaction_inactive (inspect_entry_state (event_log mt0))"
    and "sp_start sp = a" and "sp_end sp = b" and "metered_ok mt1"
    and "finished (event_log mt2) oc mtr mid outcome evs (co_result co)"
    and "event_log mt3 = evs @ [e]" and "surface_nodes (event_log mt3) = surface_nodes evs" and "nodes_known evs" and "co_closed co"
    and "ev_data e = PluginEvent (CompactionEnd (oc_lifecycle oc)
          (case co_result co of Inl f \<Rightarrow> Some (error_chain (tf_error f)) | Inr _ \<Rightarrow> None))"
    and "case co_result co of Inl f \<Rightarrow> True | Inr res \<Rightarrow> cr_end_seq res = ev_seq e"
proof -
  from compact_open_spec [OF reach(1) run] obtain sp where o: "steady mt0" "compaction_inactive (inspect_entry_state (event_log mt0))"
    "oc_lifecycle oc = \<lparr>cl_id = uuid, cl_command = to_command opts, cl_turn = es_turn (inspect_entry_state (event_log mt0))\<rparr>"
    "oc_start oc = log_event (int (length (event_log mt0))) now (PluginEvent (CompactionStart (oc_lifecycle oc)))"
    "event_log mt1 = event_log mt0 @ [oc_start oc]" "metered_ok mt1" "surface_nodes (event_log mt1) = surface_nodes (event_log mt0)"
    "snapshot_of mtr (event_log mt1) sp (oc_prepared oc)" "region_ok (event_log mt0) sp" "sp_start sp = a" "sp_end sp = b" by blast
  have known0: "nodes_known (event_log mt0)" by (rule metered_nodes_known [OF reach(1)])
  have start: "\<forall>q \<in> set (sp_shadowed sp). q < ev_seq (oc_start oc)" "0 \<le> ev_seq (oc_start oc)"
    "ev_seq (oc_start oc) < int (length (event_log mt2))"
    using o(4,5,9) known0 grown by (auto simp: region_ok_def nodes_known_def)
  have pair1: "paired (event_log mt1) (surface_nodes (event_log mt1))"
    using steady_log_event [OF o(1,6,5,7)] by (simp add: steady_def)
  obtain mt' result where body: "compact_body mtr opts aborted' mid clock oc outcome mt2 = (mt', result)"
    by (cases "compact_body mtr opts aborted' mid clock oc outcome mt2")
  from body_spec [OF reach(2) o(8) metered_nodes_known [OF o(6)] pair1 grown start small body]
  have b: "metered_ok mt'" "finished (event_log mt2) oc mtr mid outcome (event_log mt') result" by auto
  define err where "err = (case result of Inl f \<Rightarrow> Some (error_chain (tf_error f)) | Inr _ \<Rightarrow> None)"
  obtain mt'' where c: "task_append (clock 2) (PluginEvent (CompactionEnd (oc_lifecycle oc) err)) no_intent mt' =
      (mt'', Inr (log_event (int (length (event_log mt'))) (clock 2) (PluginEvent (CompactionEnd (oc_lifecycle oc) err))))"
    "event_log mt'' = event_log mt' @ [log_event (int (length (event_log mt'))) (clock 2) (PluginEvent (CompactionEnd (oc_lifecycle oc) err))]"
    "surface_nodes (event_log mt'') = surface_nodes (event_log mt')"
    using append_log_event [OF b(1), of "PluginEvent (CompactionEnd (oc_lifecycle oc) err)" "clock 2"] by auto
  have co: "mt3 = mt'' \<and> co_closed co \<and> co_result co =
      map_sum id (\<lambda>r. r\<lparr>cr_end_seq := int (length (event_log mt'))\<rparr>) result"
    using fin body c(1) by (cases result) (auto simp: compact_finish_def err_def)
  have fin': "finished (event_log mt2) oc mtr mid outcome (event_log mt') (co_result co)"
    using b(2) co by (cases result) (simp_all add: finished_def)
  show thesis
    by (rule that [of sp "event_log mt'" "log_event (int (length (event_log mt'))) (clock 2) (PluginEvent (CompactionEnd (oc_lifecycle oc) err))"])
      (use o c co fin' metered_nodes_known [OF b(1)] in \<open>auto simp: err_def split: sum.splits\<close>)
qed

end

interpretation compaction: compaction_meter "token_meter jl" ..


section \<open>The transaction and the log invariant\<close>

lemma plain_keeps_open:
  "list_all plain_event gap \<Longrightarrow> bt_open t = Some ct \<Longrightarrow> replay live_step t gap = Inr t2 \<Longrightarrow> t2 = t"
proof (induction gap)
  case (Cons e gap)
  then obtain t1 where s: "live_step t e = Inr t1" and r: "replay live_step t1 gap = Inr t2"
    by (auto simp: rbind_Inr_iff)
  have "t1 = t" using s Cons.prems by (auto simp: live_step_Inr plain_valid commit_event_def turn_unchanged)
  with r Cons show ?case by simp
qed simp

lemma durable_replay: "durable evs t \<Longrightarrow> replay live_step t es = Inr t' \<Longrightarrow> durable (evs @ es) t'"
proof (induction es arbitrary: evs t)
  case (Cons e es)
  then obtain t1 where "live_step t e = Inr t1" "replay live_step t1 es = Inr t'" by (auto simp: rbind_Inr_iff)
  with Cons.IH [of "evs @ [e]" t1] Cons.prems(1) show ?case by (simp add: durable_live)
qed simp

definition opened :: "open_compaction \<Rightarrow> bool \<Rightarrow> compaction_trace" where
  "opened oc summarized = \<lparr>ct_id = cl_id (oc_lifecycle oc), ct_command = cl_command (oc_lifecycle oc),
     ct_start_seq = ev_seq (oc_start oc), ct_turn = cl_turn (oc_lifecycle oc), ct_summarized = summarized\<rparr>"

definition identified :: "compaction_lifecycle \<Rightarrow> bool" where
  "identified c \<longleftrightarrow> cl_id c \<noteq> [] \<and> cl_command c \<noteq> Some []"

lemma live_start:
  assumes "identified (oc_lifecycle oc)" and "ev_data (oc_start oc) = PluginEvent (CompactionStart (oc_lifecycle oc))"
    and "bt_open t = None" and "cl_turn (oc_lifecycle oc) = bt_turn t"
  shows "live_step t (oc_start oc) = Inr (t\<lparr>bt_open := Some (opened oc False)\<rparr>)"
  using assms by (auto simp: live_step_Inr validate_compaction_event_def rbind_Inr_iff validate_start_ok is_turn_event_def
      commit_event_def opened_def identified_def apply_turn_boundary_def)

lemma live_end:
  assumes "identified (oc_lifecycle oc)" and "ev_data e = PluginEvent (CompactionEnd (oc_lifecycle oc) err)"
    and "bt_open t = Some (opened oc b)" and "cl_turn (oc_lifecycle oc) = bt_turn t" and "err = None \<longrightarrow> b"
  shows "live_step t e = Inr (t\<lparr>bt_open := None\<rparr>)"
  using assms by (auto simp: live_step_Inr validate_compaction_event_def rbind_Inr_iff validate_end_ok is_turn_event_def
      commit_event_def opened_def identified_def apply_turn_boundary_def)

lemma live_summary:
  assumes "identified (oc_lifecycle oc)" and "ev_data s = summary_event (oc_lifecycle oc) p r"
    and "bt_open t = Some (opened oc False)" and "cl_turn (oc_lifecycle oc) = bt_turn t"
    and "sp_shadowed (pc_span p) \<noteq> []" and "hd (sp_shadowed (pc_span p)) = sp_start (pc_span p)"
    and "last (sp_shadowed (pc_span p)) = sp_end (pc_span p)" and "0 \<le> pc_tokens p" and "safe_int (pc_tokens p)"
  shows "live_step t s = Inr (t\<lparr>bt_open := Some (opened oc True)\<rparr>)"
  using assms by (auto simp: live_step_Inr validate_compaction_event_def rbind_Inr_iff validate_summary_ok is_turn_event_def
      commit_event_def opened_def identified_def apply_turn_boundary_def summary_event_def)

lemma live_checkpoint:
  assumes "identified (oc_lifecycle oc)" and "ev_data u = UserMessage (checkpoint_message mid (oc_lifecycle oc) r)"
    and "bt_open t = Some (opened oc b)"
  shows "live_step t u = Inr t"
proof -
  have "validate_checkpoint t (compact_checkpoint_source (cl_id (oc_lifecycle oc)) (cl_command (oc_lifecycle oc))) = Inr ()"
    using assms(1,3) by (auto simp: validate_checkpoint_def compact_checkpoint_source_def source_field_def id_value_def
        validate_command_ok identified_def opened_def split: option.splits)
  then have "validate_compaction_event t u = Inr None"
    using assms(2) by (simp add: validate_compaction_event_def checkpoint_message_def)
  then show ?thesis
    using assms(2) by (simp add: live_step_def validate_turn_boundary_def is_turn_event_def commit_event_def apply_turn_boundary_def)
qed

text \<open>The events of the second half are accepted one after the other.\<close>

lemma finish_replays:
  assumes ident: "identified (oc_lifecycle oc)" and open_t: "bt_open t = Some (opened oc False)"
    and owner: "cl_turn (oc_lifecycle oc) = bt_turn t"
    and fin: "finished evs oc mtr mid outcome evs' result"
    and tok: "\<And>p. oc_prepared oc = Inr p \<Longrightarrow> 0 \<le> pc_tokens p \<and> safe_int (pc_tokens p)"
    and e: "ev_data e = PluginEvent (CompactionEnd (oc_lifecycle oc)
          (case result of Inl f \<Rightarrow> Some (error_chain (tf_error f)) | Inr _ \<Rightarrow> None))"
  shows "\<exists>es. evs' @ [e] = evs @ es \<and> replay live_step t es = Inr (t\<lparr>bt_open := None\<rparr>)"
proof (cases result)
  case (Inl f)
  then have "live_step t e = Inr (t\<lparr>bt_open := None\<rparr>)"
    using e owner open_t by (intro live_end [OF ident]) auto
  with Inl fin show ?thesis by (intro exI [of _ "[e]"]) (simp add: finished_def)
next
  case (Inr res)
  let ?t = "t\<lparr>bt_open := Some (opened oc True)\<rparr>"
  from fin Inr obtain p r s u where f: "evs' = evs @ [s, u]" "replaceable evs (pc_span p)"
    "committed evs oc p r (checkpoint_message mid (oc_lifecycle oc) r) s u" "oc_prepared oc = Inr p"
    by (auto simp: finished_def)
  have "live_step t s = Inr ?t"
    using live_summary [OF ident, of s p r t] f(2,3) tok [OF f(4)] open_t owner by (auto simp: committed_def replaceable_def)
  moreover have "live_step ?t u = Inr ?t"
    using f(3) by (intro live_checkpoint [OF ident, where mid = mid and r = r and b = True]) (auto simp: committed_def)
  moreover have "live_step ?t e = Inr (?t\<lparr>bt_open := None\<rparr>)"
    using e Inr owner by (intro live_end [OF ident, where b = True]) auto
  ultimately show ?thesis using f(1) by (intro exI [of _ "[s, u, e]"]) simp
qed

section \<open>Reachable sessions\<close>

definition ok_kept :: "compactor \<Rightarrow> compactor \<Rightarrow> bool" where
  "ok_kept mt mt' \<longleftrightarrow> (metered_ok mt \<longrightarrow> metered_ok mt')"

lemma ok_kept_order: "reflp ok_kept" "transp ok_kept"
  by (auto simp: ok_kept_def reflp_def transp_def)

lemma ok_kept_log: "op_keeps log_kept m \<Longrightarrow> op_keeps ok_kept m"
  by (simp add: op_keeps_def log_kept_def ok_kept_def)

lemma ok_kept_append: "op_keeps ok_kept (task_append now d intent)"
  unfolding op_keeps_def ok_kept_def
proof (intro allI impI)
  fix mt :: compactor
  assume "metered_ok mt"
  from metered_ok_append [OF this, of now d intent] show "metered_ok (fst (task_append now d intent mt))"
    by (cases "session_append now d intent (mt_session mt)") (auto simp: task_append_def split: sum.splits)
qed

lemma ok_kept_input: "op_keeps ok_kept (build_input sh)"
  unfolding op_keeps_def ok_kept_def using build_input_spec by (metis fst_conv)

lemma ok_kept_prepare: "op_keeps ok_kept (prepare_compaction mtr sp)"
  unfolding prepare_compaction_def Let_def
  by (intro op_keeps_bind ok_kept_order ok_kept_input op_keeps_simple ok_kept_log [OF log_kept_meter])

lemma ok_kept_staged: "op_keeps ok_kept m \<Longrightarrow> op_keeps ok_kept (staged stage m)"
  by (simp add: op_keeps_def staged_def map_error_fst split: prod.splits sum.splits)

lemma ok_kept_open: "op_keeps ok_kept (compact_open mtr opts aborted uuid now a b)"
proof -
  have "op_keeps ok_kept (\<lambda>mt. case prepare_compaction mtr sp mt of (mt', r) \<Rightarrow> (mt', Inr (f r)))" for sp and f :: "_ \<Rightarrow> open_compaction"
    using ok_kept_prepare [of mtr sp] by (simp add: op_keeps_def split: prod.splits) (metis fst_conv)
  then show ?thesis
    unfolding compact_open_def Let_def
    by (intro op_keeps_bind ok_kept_order ok_kept_append op_keeps_simple ok_kept_log [OF log_kept_validate])
      (auto intro!: op_keeps_bind ok_kept_order ok_kept_append op_keeps_simple split: if_splits)
qed

lemma ok_kept_body: "op_keeps ok_kept (compact_body mtr opts aborted mid clock oc outcome)"
proof -
  have commit: "op_keeps ok_kept (commit_compaction_body clock oc p r m)" for p r m
    unfolding commit_compaction_body_def Let_def by (intro op_keeps_bind ok_kept_order ok_kept_append op_keeps_simple)
  have stable: "op_keeps ok_kept (if whole then assert_whole_surface_unchanged mtr p else assert_selected_span_stable mtr p)" for whole p
    by (cases whole) (simp_all add: ok_kept_log log_kept_stable)
  show ?thesis
    unfolding compact_body_def split_def
    by (intro op_keeps_bind ok_kept_order ok_kept_staged op_keeps_simple commit stable)
qed

lemma ok_kept_finish:
  assumes "metered_ok mt" and "compact_finish mtr opts error_chain aborted mid clock oc outcome mt = (mt', co)"
  shows "metered_ok mt'"
proof -
  obtain mt1 r where b: "compact_body mtr opts aborted mid clock oc outcome mt = (mt1, r)"
    by (cases "compact_body mtr opts aborted mid clock oc outcome mt")
  then have mt1: "metered_ok mt1" using ok_kept_body assms(1) unfolding op_keeps_def ok_kept_def by (metis fst_conv)
  have "metered_ok (fst (task_append now d no_intent mt1))" for now d
    using ok_kept_append mt1 by (simp add: op_keeps_def ok_kept_def)
  with assms(2) b show ?thesis
    by (fastforce simp: compact_finish_def split: sum.splits prod.splits dest: arg_cong [where f = fst])
qed

lemmas ok_kept_reads = ok_kept_log [OF log_kept_reads(1)] ok_kept_log [OF log_kept_reads(2)]

lemma ok_kept_select: "op_keeps ok_kept (select_compactable_range measured retain)"
proof -
  have retreat: "op_keeps ok_kept (retreat_to_balance nodes k)" for nodes k
  proof (induction k)
    case (Suc k)
    have "op_keeps ok_kept (if b then op_return (Suc k) else retreat_to_balance nodes k)" for b
      using Suc by (simp add: op_keeps_simple ok_kept_order)
    then show ?case by (simp add: op_keeps_bind ok_kept_order ok_kept_reads)
  qed (simp add: op_keeps_simple ok_kept_order)
  have finish: "op_keeps ok_kept (op_bind (retreat_to_balance nodes keep) (\<lambda>k. if k = 0 then op_return None else op_return (Some (f k))))"
    for nodes keep and f :: "nat \<Rightarrow> int \<times> int"
    by (intro op_keeps_bind ok_kept_order retreat) (simp add: op_keeps_simple ok_kept_order)
  then show ?thesis
    unfolding select_compactable_range_def Let_def
    by (auto intro!: op_keeps_bind ok_kept_order ok_kept_reads op_keeps_simple)
qed

text \<open>A session under compaction as its users can bring it about.\<close>

inductive compactor_reach :: "compactor \<Rightarrow> bool" where
  comp_session: "metered_reach mt \<Longrightarrow> compactor_reach mt"
| comp_append: "compactor_reach mt \<Longrightarrow> session_append now d intent (mt_session mt) = (s, r) \<Longrightarrow>
    compactor_reach (mt\<lparr>mt_session := s\<rparr>)"
| comp_derive: "compactor_reach mt \<Longrightarrow> derive_messages (mt_session mt) = (s, r) \<Longrightarrow> compactor_reach (mt\<lparr>mt_session := s\<rparr>)"
| comp_select: "compactor_reach mt \<Longrightarrow> select_compactable_range measured retain mt = (mt', q) \<Longrightarrow> compactor_reach mt'"
| comp_open: "compactor_reach mt \<Longrightarrow> compact_open mtr opts aborted uuid now a b mt = (mt', v) \<Longrightarrow> compactor_reach mt'"
| comp_finish: "compactor_reach mt \<Longrightarrow> compact_finish mtr opts error_chain aborted mid clock oc outcome mt = (mt', co) \<Longrightarrow>
    compactor_reach mt'"

lemma keeps_result: "op_keeps ok_kept m \<Longrightarrow> metered_ok mt \<Longrightarrow> m mt = (mt', r) \<Longrightarrow> metered_ok mt'"
  unfolding op_keeps_def ok_kept_def by (metis fst_conv)

lemma compactor_reach_ok: "compactor_reach mt \<Longrightarrow> metered_ok mt"
proof (induction rule: compactor_reach.induct)
  case (comp_session mt)
  then show ?case by (rule metered_reach_ok)
next
  case (comp_append mt now d intent s r)
  then show ?case using metered_ok_append by blast
next
  case (comp_derive mt s r)
  have "session_ok s" using comp_derive.IH derive_messages_ok [OF _ comp_derive.hyps(2)] by (simp add: metered_ok_def)
  then show ?case
    by (rule metered_ok_session [OF comp_derive.IH, of _ "[]"]) (simp add: derive_messages_log [OF comp_derive.hyps(2)])
next
  case comp_select
  then show ?case using keeps_result [OF ok_kept_select] by blast
next
  case comp_open
  then show ?case using keeps_result [OF ok_kept_open] by blast
next
  case comp_finish
  then show ?case using ok_kept_finish by blast
qed

end
