(* ===== verification/Compaction_Outcome.thy ===== *)
theory Compaction_Outcome
  imports Compaction_Region
begin

text \<open>
  What a compaction does for the session (\<open>packages/compaction/compaction-basic/src/region.ts\<close>), over the model of
  theory \<open>Compaction_Region\<close> with the token meter of theory \<open>Token_Meter\<close>: the choice of the range, the transaction
  that replaces it, its place in the log invariant, and the price of the surface it leaves.
\<close>

section \<open>Properties\<close>

text \<open>A concrete session: two user messages on the surface, and a meter that prices every node at 100.\<close>

text \<open>A message the estimator prices at 244 tokens.\<close>

definition demo_message :: message where
  "demo_message = sample_message\<lparr>msg_content := replicate 60 (TextBlock [])\<rparr>"

definition demo_append :: "compaction_event session \<Rightarrow> compaction_event session" where
  "demo_append s = fst (session_append 1 (UserMessage demo_message) \<lparr>si_op = Some (JStr ''append''), si_sources = None\<rparr> s)"

definition demo_session :: "compaction_event session" where
  "demo_session = demo_append (demo_append (projr (new_session False 0 ''s1'' None None)))"

definition demo_compactor :: compactor where
  "demo_compactor = \<lparr>mt_session = demo_session, mt_balance = None\<rparr>"

abbreviation demo_meter :: region_meter where
  "demo_meter \<equiv> token_meter (\<lambda>_. 0)"

definition demo_options :: transaction_options where
  "demo_options = \<lparr>to_standalone = True, to_whole_surface = False, to_command = None\<rparr>"

definition demo_summary :: "summary_error + summary_result" where
  "demo_summary = summarize_stream ''p'' ''m'' 99 [TextDelta 0 ''short'', FinishChunk FinishStop None]"

lemma demo_reach: "metered_reach demo_compactor"
proof -
  have "\<exists>s. new_session False 0 ''s1'' None None = Inr (s :: compaction_event session)"
  proof -
    have "isl (new_session False 0 ''s1'' None None :: session_error + compaction_event session) = False" by code_simp
    then show ?thesis by (cases "new_session False 0 ''s1'' None None :: session_error + compaction_event session") auto
  qed
  then have "session_reach (projr (new_session False 0 ''s1'' None None :: session_error + compaction_event session))"
    by (auto intro: reach_create)
  then have "session_reach demo_session"
    unfolding demo_session_def demo_append_def by (rule reach_log [OF reach_log [OF _ surjective_pairing] surjective_pairing])
  then show ?thesis unfolding demo_compactor_def by (rule metered_new)
qed

text \<open>
  The range chosen for compaction is the longest proper prefix of the surface that splits no call from
  its result and leaves at least the retained token budget behind it; no range is chosen exactly when there
  is no such prefix. Choosing leaves the log alone.
\<close>

theorem selected_range_is_the_longest_balanced_prefix:
  assumes "compactor_reach mt" and "paired (event_log mt) (surface_nodes (event_log mt))"
    and "map fst measured = surface_nodes (event_log mt)" and "list_all (\<lambda>p. 0 \<le> snd p) measured"
  shows "\<exists>mt' r. select_compactable_range measured retain mt = (mt', Inr r) \<and> event_log mt' = event_log mt \<and>
    selects (event_log mt) measured retain r"
proof -
  have "steady mt" using assms(1,2) compactor_reach_ok by (simp add: steady_def)
  from select_spec [OF this assms(3,4), of retain] show ?thesis by blast
qed

theorem selected_range_is_the_longest_balanced_prefix_witness:
  "\<exists>mt' r. select_compactable_range [(0, 60), (1, 60)] 50 demo_compactor = (mt', Inr r) \<and>
     event_log mt' = event_log demo_compactor \<and> selects (event_log demo_compactor) [(0, 60), (1, 60)] 50 r"
proof -
  have "paired (event_log demo_compactor) (surface_nodes (event_log demo_compactor))"
    and "map fst [(0 :: int, 60 :: int), (1, 60)] = surface_nodes (event_log demo_compactor)"
    and "list_all (\<lambda>p. 0 \<le> snd p) [(0 :: int, 60 :: int), (1, 60)]"
    by code_simp+
  from selected_range_is_the_longest_balanced_prefix [OF comp_session [OF demo_reach] this, of 50] show ?thesis .
qed

text \<open>
  The backward scan that guards a compaction agrees with the forward trace of the log invariant on every
  durable log, crashes and restarts included: it finds the turn the trace has open, and it lets a compaction
  start exactly when the trace has no open bracket.
\<close>

theorem entry_scan_agrees_with_the_trace:
  assumes "durable evs t" and "contiguous evs"
  shows "es_turn (inspect_entry_state evs) = bt_turn t \<and> (compaction_inactive (inspect_entry_state evs) \<longleftrightarrow> bt_open t = None)"
  using durable_scan_agrees [OF assms] by (simp add: scan_agrees_def)

theorem entry_scan_agrees_with_the_trace_witness:
  "es_turn (inspect_entry_state [log_event 0 5 (TurnStart 4)]) = Some 4 \<and>
   compaction_inactive (inspect_entry_state [log_event 0 5 (TurnStart 4)])"
proof -
  have "durable ([] @ [log_event 0 5 (TurnStart 4)]) \<lparr>bt_turn = Some 4, bt_open = None\<rparr>"
    by (rule durable_live [OF durable_empty]) code_simp
  then have "durable [log_event 0 5 (TurnStart 4)] \<lparr>bt_turn = Some 4, bt_open = None\<rparr>" by simp
  from entry_scan_agrees_with_the_trace [OF this] show ?thesis by (simp add: contiguous_def)
qed



lemma demo_open: "\<exists>mt1 oc. compact_open demo_meter demo_options False ''c1'' 5 0 1 demo_compactor = (mt1, Inr oc)"
proof -
  have "ok (snd (compact_open demo_meter demo_options False ''c1'' 5 0 1 demo_compactor))" by code_simp
  then show ?thesis
    by (cases "compact_open demo_meter demo_options False ''c1'' 5 0 1 demo_compactor") (auto simp: ok_def split: sum.splits)
qed

definition demo_opened :: compactor where
  "demo_opened = fst (compact_open demo_meter demo_options False ''c1'' 5 0 1 demo_compactor)"

definition demo_transaction :: open_compaction where
  "demo_transaction = projr (snd (compact_open demo_meter demo_options False ''c1'' 5 0 1 demo_compactor))"

lemma demo_run: "compact_open demo_meter demo_options False ''c1'' 5 0 1 demo_compactor = (demo_opened, Inr demo_transaction)"
  using demo_open by (auto simp: demo_opened_def demo_transaction_def)

lemma demo_opened_reach: "compactor_reach demo_opened"
  using comp_open [OF comp_session [OF demo_reach] demo_run] .

lemma demo_small: "int (length (event_log demo_opened)) < max_safe"
  by code_simp

definition demo_finish :: "compactor \<times> compaction_outcome" where
  "demo_finish = compact_finish demo_meter demo_options (\<lambda>_. ''failed'') False ''m9'' int demo_transaction demo_summary demo_opened"

lemma demo_finish_run: "compact_finish demo_meter demo_options (\<lambda>_. ''failed'') False ''m9'' int demo_transaction demo_summary demo_opened =
    (fst demo_finish, snd demo_finish)"
  by (simp add: demo_finish_def)


text \<open>
  The transaction respects the log invariant: on a durable log, with nothing of another compaction appended
  while the summarizer runs, the invariant accepts its start, its summary, its checkpoint and its end, on
  success and on failure, and the log is left durable with no open bracket.
\<close>

theorem compaction_keeps_the_log_durable:
  assumes "compactor_reach mt0" and "compactor_reach mt2"
    and "compact_open (token_meter jl) opts aborted uuid now a b mt0 = (mt1, Inr oc)"
    and "event_log mt2 = event_log mt1 @ gap" and "int (length (event_log mt2)) < max_safe"
    and "compact_finish (token_meter jl) opts error_chain aborted' mid clock oc outcome mt2 = (mt3, co)"
    and "durable (event_log mt0) t0" and "uuid \<noteq> []" and "to_command opts \<noteq> Some []"
    and "safe_int (surface_price jl (event_log mt1))"
    and "list_all plain_event gap" and "\<And>t1. live_step t0 (oc_start oc) = Inr t1 \<Longrightarrow> ok (replay live_step t1 gap)"
  shows "\<exists>t3. durable (event_log mt3) t3 \<and> bt_open t3 = None"
proof (rule compaction.transaction_spec [OF compactor_reach_ok [OF assms(1)] compactor_reach_ok [OF assms(2)] assms(3-6)])
  fix sp evs e
  assume t: "snapshot_of (token_meter jl) (event_log mt1) sp (oc_prepared oc)" "event_log mt1 = event_log mt0 @ [oc_start oc]"
      "ev_data (oc_start oc) = PluginEvent (CompactionStart (oc_lifecycle oc))"
      "cl_id (oc_lifecycle oc) = uuid" "cl_command (oc_lifecycle oc) = to_command opts"
      "cl_turn (oc_lifecycle oc) = es_turn (inspect_entry_state (event_log mt0))"
      "compaction_inactive (inspect_entry_state (event_log mt0))"
      "finished (event_log mt2) oc (token_meter jl) mid outcome evs (co_result co)" "event_log mt3 = evs @ [e]" "metered_ok mt1"
      "ev_data e = PluginEvent (CompactionEnd (oc_lifecycle oc)
          (case co_result co of Inl f \<Rightarrow> Some (error_chain (tf_error f)) | Inr _ \<Rightarrow> None))"
  have ident: "identified (oc_lifecycle oc)" using t(4,5) assms(8,9) by (simp add: identified_def)
  have "contiguous (event_log mt0)"
    using metered_nodes_known [OF compactor_reach_ok [OF assms(1)]] by (simp add: nodes_known_def)
  with durable_scan_agrees [OF assms(7)] t(6,7) have t0: "bt_open t0 = None" "cl_turn (oc_lifecycle oc) = bt_turn t0"
    by (simp_all add: scan_agrees_def)
  let ?open = "\<lambda>b. t0\<lparr>bt_open := Some (opened oc b)\<rparr>"
  have start: "live_step t0 (oc_start oc) = Inr (?open False)"
    using live_start [OF ident t(3) t0] .
  with assms(12) obtain t2 where t2: "replay live_step (?open False) gap = Inr t2" by (auto simp: ok_iff)
  with plain_keeps_open [OF assms(11) _ t2, of "opened oc False"] have "t2 = ?open False" by simp
  with t2 have gap: "replay live_step (?open False) gap = Inr (?open False)" by simp
  have "durable (event_log mt0 @ [oc_start oc]) (?open False)" using assms(7) start by (rule durable_live)
  from durable_replay [OF this gap] have dur: "durable (event_log mt2) (?open False)"
    by (simp add: assms(4) t(2))
  have tok: "0 \<le> pc_tokens p \<and> safe_int (pc_tokens p)" if p: "oc_prepared oc = Inr p" for p
  proof -
    have pf: "prepared_for (token_meter jl) (event_log mt1) p" using t(1) p by (simp add: snapshot_of_def)
    note fold = metered_fold_ok [OF t(10)]
    have "tail_price (pc_measured p) 0 = surface_price jl (event_log mt1)"
      using token_meter_nodes [OF fold] pf by (simp add: prepared_for_def surface_price_def tail_price_def)
    with compaction.span_price [OF fold pf] assms(10) show ?thesis by (auto simp: safe_int_def)
  qed
  from finish_replays [OF ident _ _ t(8) tok t(11), of "?open False"] t0 t(9) obtain es where
    "event_log mt3 = event_log mt2 @ es" "replay live_step (?open False) es = Inr (?open False\<lparr>bt_open := None\<rparr>)" by auto
  with durable_replay [OF dur] show ?thesis by (intro exI [of _ "?open False\<lparr>bt_open := None\<rparr>"]) simp
qed

theorem compaction_keeps_the_log_durable_witness:
  "\<exists>t3. durable (event_log (fst demo_finish)) t3 \<and> bt_open t3 = None"
proof -
  have "durable (event_log demo_compactor) fresh_bracket"
  proof -
    have "replay live_step fresh_bracket (event_log demo_compactor) = Inr fresh_bracket" by code_simp
    from durable_replay [OF durable_empty this] show ?thesis by simp
  qed
  moreover have "safe_int (surface_price (\<lambda>_. 0) (event_log demo_opened))" and "to_command demo_options \<noteq> Some []"
    by code_simp+
  ultimately show ?thesis
    by (intro compaction_keeps_the_log_durable [OF comp_session [OF demo_reach] demo_opened_reach demo_run
        append_Nil2 [symmetric] demo_small demo_finish_run]) (simp_all add: ok_def)
qed

section \<open>The price of the surface\<close>

abbreviation nodes_price :: "(json \<Rightarrow> nat) \<Rightarrow> 'p event list \<Rightarrow> int list \<Rightarrow> int" where
  "nodes_price jl evs qs \<equiv> sum_list (map snd (node_prices jl evs qs))"

lemma surface_price_nodes: "surface_price jl evs = nodes_price jl evs (surface_nodes evs)"
  by (simp add: surface_price_def priced_surface_def)

lemma nodes_price_append: "nodes_price jl evs (xs @ ys) = nodes_price jl evs xs + nodes_price jl evs ys"
  by (simp add: node_prices_append)

lemma log_only_nodes: "ok (fold_surface (evs @ [e])) \<Longrightarrow> \<not> is_surface_event e \<Longrightarrow> surface_nodes (evs @ [e]) = surface_nodes evs"
  using log_only_follow [of evs e "\<lambda>_. 0"] by (metis fst_node_prices priced_surface_def)

text \<open>The snapshot's price is that of its nodes, in every later log.\<close>

lemma snapshot_price:
  assumes "prepared_for (token_meter jl) evs p" and "ok (fold_surface evs)"
  shows "pc_tokens p = nodes_price jl (evs @ gap) (sp_shadowed (pc_span p))"
proof -
  let ?sp = "pc_span p"
  have r: "region_ok evs ?sp" and m: "pc_measured p = priced_surface jl evs"
    and tok: "pc_tokens p = sum_list (map snd (span_slice ?sp (pc_measured p)))"
    using assms token_meter_nodes [OF assms(2)] by (simp_all add: prepared_for_def)
  have "span_slice ?sp (priced_surface jl evs) = node_prices jl evs (sp_shadowed ?sp)"
    using region_slice [OF r] by (simp add: span_slice_def priced_surface_def node_prices_def take_map drop_map)
  moreover have "\<forall>q \<in> set (sp_shadowed ?sp). 0 \<le> q \<and> q < int (length evs)"
    using r fold_nodes_known [OF assms(2)] by (auto simp: region_ok_def nodes_known_def)
  ultimately show ?thesis using tok m by (simp add: node_prices_grow)
qed

lemma run_price:
  assumes "ok (fold_surface evs)" and "surface_nodes evs = pre @ mid @ post" and "mid \<noteq> []"
  shows "range_price jl evs (hd mid) (last mid) = nodes_price jl evs mid"
proof -
  have d: "distinct (pre @ mid @ post)" using fold_nodes_known [OF assms(1)] assms(2) by (simp add: nodes_known_def)
  have "index_of (surface_nodes evs) (hd mid) = Some (length pre)"
    "index_of (surface_nodes evs) (last mid) = Some (length pre + (length mid - 1))"
    using index_of_nth [OF d, of "length pre"] index_of_nth [OF d, of "length pre + (length mid - 1)"] assms(2,3)
    by (simp_all add: nth_append hd_conv_nth last_conv_nth trans_less_add1 del: distinct_append)
  moreover have "take (length pre + (length mid - 1) + 1 - length pre) (drop (length pre) (surface_nodes evs)) = mid"
    using assms(2,3) by simp
  ultimately show ?thesis unfolding range_price_def Let_def by simp
qed

text \<open>Committing a checkpoint: the log stays metered, and the surface's price moves by the two prices.\<close>

lemma commit_price:
  assumes fold: "ok (fold_surface (evs @ [s, u, e]))" and c: "committed evs oc p r m s u" and e: "\<not> is_surface_event e"
    and tok: "pc_tokens p = nodes_price jl evs (sp_shadowed (pc_span p))" and rep: "replaceable evs (pc_span p)"
  shows "surface_price jl (evs @ [s, u, e]) = surface_price jl evs - pc_tokens p + message_price jl m"
    and "fully_metered jl (evs @ [s, u, e]) = fully_metered jl evs"
proof -
  let ?sp = "pc_span p" and ?sh = "sp_shadowed (pc_span p)"
  have f2: "ok (fold_surface (evs @ [s, u]))" and f1: "ok (fold_surface (evs @ [s]))" and f0: "ok (fold_surface evs)"
    using fold fold_surface_prefix [of "evs @ [s, u]" "[e]"] fold_surface_prefix [of "evs @ [s]" "[u, e]"]
      fold_surface_prefix [of evs "[s, u, e]"] by simp_all
  have s: "\<not> is_surface_event s" "claim_of s = Some \<lparr>pcl_start = sp_start ?sp, pcl_end = sp_end ?sp, pcl_tokens = of_int (pc_tokens p)\<rparr>"
    using c by (simp_all add: committed_def summary_event_def is_surface_event_def claim_of_def)
  have u: "is_replacement_surface_event u" "replaced_range u = Some (sp_start ?sp, sp_end ?sp)" "event_price jl u = message_price jl m"
    using c by (simp_all add: committed_def event_price_def derive_event_message_def)
  obtain pre post where n: "surface_nodes evs = pre @ ?sh @ post" "?sh \<noteq> []" "hd ?sh = sp_start ?sp" "last ?sh = sp_end ?sp"
    using rep by (auto simp: replaceable_def)
  have n1: "surface_nodes (evs @ [s]) = pre @ ?sh @ post" using log_only_nodes [OF f1 s(1)] n(1) by simp
  have p1: "priced_surface jl (evs @ [s]) = priced_surface jl evs" using log_only_follow [OF f1 s(1)] .
  have "nodes_price jl (evs @ [s]) ?sh = nodes_price jl evs ?sh"
    using fold_nodes_known [OF f0] n(1) by (simp add: node_prices_grow nodes_known_def)
  then have rp: "range_price jl (evs @ [s]) (sp_start ?sp) (sp_end ?sp) = pc_tokens p"
    using run_price [OF f1 n1 n(2), of jl] n(3,4) tok by simp
  have "surface_price jl ((evs @ [s]) @ [u]) - surface_price jl (evs @ [s]) = message_price jl m - pc_tokens p"
    using replacement_range_price [of "evs @ [s]" u jl] f2 u rp by auto
  moreover have "priced_surface jl ((evs @ [s, u]) @ [e]) = priced_surface jl (evs @ [s, u])"
    by (rule log_only_follow) (use fold e in simp_all)
  ultimately show "surface_price jl (evs @ [s, u, e]) = surface_price jl evs - pc_tokens p + message_price jl m"
    using p1 by (simp add: surface_price_def)
  have "metered_at jl evs s" "metered_at jl (evs @ [s, u]) e"
    using s(1) e by (simp_all add: metered_at_def is_replacement_surface_event_def)
  moreover have "metered_at jl (evs @ [s]) u" using u s(2) rp by (simp add: metered_at_def)
  ultimately show "fully_metered jl (evs @ [s, u, e]) = fully_metered jl evs"
    using fully_metered_snoc [of jl "evs @ [s, u]" e] fully_metered_snoc [of jl "evs @ [s]" u] fully_metered_snoc [of jl evs s] by simp
qed

text \<open>
  A successful compaction makes progress and keeps the accounts straight: the surface's price drops by the
  span's price and rises by the checkpoint's, which is strictly less; and the log is fully metered after it exactly when it was before, so the
  projections of constant size stay exact.
\<close>

theorem compaction_shrinks_the_surface_price:
  assumes "compactor_reach mt0" and "compactor_reach mt2"
    and "compact_open (token_meter jl) opts aborted uuid now a b mt0 = (mt1, Inr oc)"
    and "event_log mt2 = event_log mt1 @ gap" and "int (length (event_log mt2)) < max_safe"
    and "compact_finish (token_meter jl) opts error_chain aborted' mid clock oc outcome mt2 = (mt3, co)"
    and "co_result co = Inr res"
  shows "surface_price jl (event_log mt3) < surface_price jl (event_log mt2) \<and>
    (fully_metered jl (event_log mt3) \<longleftrightarrow> fully_metered jl (event_log mt2))"
proof (rule compaction.transaction_spec [OF compactor_reach_ok [OF assms(1)] compactor_reach_ok [OF assms(2)] assms(3-6)])
  fix sp evs e
  assume t: "snapshot_of (token_meter jl) (event_log mt1) sp (oc_prepared oc)"
      "finished (event_log mt2) oc (token_meter jl) mid outcome evs (co_result co)" "event_log mt3 = evs @ [e]" "metered_ok mt1"
      "ev_data e = PluginEvent (CompactionEnd (oc_lifecycle oc)
          (case co_result co of Inl f \<Rightarrow> Some (error_chain (tf_error f)) | Inr _ \<Rightarrow> None))"
  let ?m = "\<lambda>r. checkpoint_message mid (oc_lifecycle oc) r"
  from t(2) assms(7) obtain p r s u where f: "oc_prepared oc = Inr p" "evs = event_log mt2 @ [s, u]"
    "committed (event_log mt2) oc p r (?m r) s u" "replaceable (event_log mt2) (pc_span p)" "message_price jl (?m r) < pc_tokens p"
    by (auto simp: finished_def token_meter_def)
  have "prepared_for (token_meter jl) (event_log mt1) p" using t(1) f(1) by (simp add: snapshot_of_def)
  from snapshot_price [OF this metered_fold_ok [OF t(4)], of gap]
  have tok: "pc_tokens p = nodes_price jl (event_log mt2) (sp_shadowed (pc_span p))" by (simp add: assms(4))
  have log: "event_log mt3 = event_log mt2 @ [s, u, e]" using t(3) f(2) by simp
  have "metered_ok mt3" using ok_kept_finish [OF compactor_reach_ok [OF assms(2)] assms(6)] .
  then have fold: "ok (fold_surface (event_log mt2 @ [s, u, e]))" using metered_fold_ok [of mt3] log by simp
  have e: "\<not> is_surface_event e" using t(5) by (simp add: is_surface_event_def)
  from commit_price [OF fold f(3) e tok f(4)] f(5) log show ?thesis by simp
qed

theorem compaction_shrinks_the_surface_price_witness:
  "surface_price (\<lambda>_. 0) (event_log (fst demo_finish)) < surface_price (\<lambda>_. 0) (event_log demo_opened)"
proof -
  have "ok (co_result (snd demo_finish))" by code_simp
  then obtain res where "co_result (snd demo_finish) = Inr res" by (auto simp: ok_iff)
  from compaction_shrinks_the_surface_price [OF comp_session [OF demo_reach] demo_opened_reach demo_run
      append_Nil2 [symmetric] demo_small demo_finish_run this] show ?thesis by blast
qed

end
