(* ===== verification/Result_Pruner.thy ===== *)
theory Result_Pruner
  imports Compaction_Outcome
begin

text \<open>
  The tool-result pruner (\<open>packages/compaction/compaction-tool-result-pruner/src/index.ts\<close>, \<open>config.ts\<close>):
  the model-free pass that replaces the middle of every over-budget tool result on the surface. A text is a
  list of code units below 256, so its code points are its characters.
\<close>

section \<open>Configuration\<close>

record prune_config =
  pr_threshold :: int
  pr_head :: int
  pr_tail :: int

definition prune_marker :: string where
  "prune_marker = newline @ newline @ ''[... tool result middle pruned ...]'' @ newline @ newline"

definition prune_defaults :: prune_config where
  "prune_defaults = \<lparr>pr_threshold = 8192, pr_head = 4096, pr_tail = 1024\<rparr>"

datatype prune_config_error =
    UnknownKey string
  | NotPositive string
  | NotNonNegative string
  | BudgetExceeded

text \<open>A configured number, or the default when the key is absent; a value that is no integer is rejected.\<close>

definition configured :: "(string \<times> json) list \<Rightarrow> string \<Rightarrow> int \<Rightarrow> json" where
  "configured kvs k d = (case map_of kvs k of Some v \<Rightarrow> if v = JNull then JInt d else v | None \<Rightarrow> JInt d)"

definition integer_where :: "(int \<Rightarrow> bool) \<Rightarrow> 'e \<Rightarrow> json \<Rightarrow> 'e + int" where
  "integer_where P err v = (case v of
      JNum r \<Rightarrow> if of_int \<lfloor>r\<rfloor> = r \<and> P \<lfloor>r\<rfloor> then Inr \<lfloor>r\<rfloor> else Inl err
    | _ \<Rightarrow> Inl err)"

definition resolve_prune_config :: "(string \<times> json) list \<Rightarrow> prune_config_error + prune_config" where
  "resolve_prune_config kvs =
     (case filter (\<lambda>k. k \<notin> {''thresholdChars'', ''headChars'', ''tailChars''}) (map fst kvs) of
        k # _ \<Rightarrow> Inl (UnknownKey k)
      | [] \<Rightarrow>
          rbind (integer_where (\<lambda>n. n > 0) (NotPositive ''thresholdChars'') (configured kvs ''thresholdChars'' (pr_threshold prune_defaults))) (\<lambda>threshold.
          rbind (integer_where (\<lambda>n. n \<ge> 0) (NotNonNegative ''headChars'') (configured kvs ''headChars'' (pr_head prune_defaults))) (\<lambda>head.
          rbind (integer_where (\<lambda>n. n \<ge> 0) (NotNonNegative ''tailChars'') (configured kvs ''tailChars'' (pr_tail prune_defaults))) (\<lambda>tail.
            if head + int (length prune_marker) + tail > threshold then Inl BudgetExceeded
            else Inr \<lparr>pr_threshold = threshold, pr_head = head, pr_tail = tail\<rparr>))))"

definition prune_config_ok :: "prune_config \<Rightarrow> bool" where
  "prune_config_ok cfg \<longleftrightarrow> 0 < pr_threshold cfg \<and> 0 \<le> pr_head cfg \<and> 0 \<le> pr_tail cfg \<and>
     pr_head cfg + int (length prune_marker) + pr_tail cfg \<le> pr_threshold cfg"

lemma resolved_config_ok: "resolve_prune_config kvs = Inr cfg \<Longrightarrow> prune_config_ok cfg"
  by (auto simp: resolve_prune_config_def prune_config_ok_def rbind_Inr_iff integer_where_def
      split: list.splits json.splits if_splits)

section \<open>Content\<close>

fun measure_content :: "content_block list \<Rightarrow> int" where
  "measure_content [] = 0"
| "measure_content (TextBlock s # bs) = int (length s) + measure_content bs"
| "measure_content (_ # bs) = measure_content bs"

datatype prune_error =
    NoRemovedSpan
  | NotReduced int
  | PruneSession region_error

text \<open>The loop of \<open>pruneContent\<close>: \<open>removed\<close> are the ends of the removed span, \<open>consumed\<close> the characters before the block.\<close>

fun prune_blocks :: "int \<times> int \<Rightarrow> int \<Rightarrow> bool \<Rightarrow> content_block list \<Rightarrow> content_block list \<times> bool" where
  "prune_blocks removed consumed inserted [] = ([], inserted)"
| "prune_blocks removed consumed inserted (TextBlock s # bs) =
     (let block_end = consumed + int (length s);
          head_end = min (int (length s)) (max 0 (fst removed - consumed));
          tail_start = min (int (length s)) (max 0 (snd removed - consumed));
          marks = (consumed < snd removed \<and> block_end > fst removed) \<and> \<not> inserted;
          s' = take (nat head_end) s @ (if marks then prune_marker else []) @ drop (nat tail_start) s in
      case prune_blocks removed block_end (inserted \<or> marks) bs of
        (rest, found) \<Rightarrow> (if s' \<noteq> [] then TextBlock s' # rest else rest, found))"
| "prune_blocks removed consumed inserted (b # bs) =
     (case prune_blocks removed consumed inserted bs of (rest, found) \<Rightarrow> (b # rest, found))"

definition prune_content :: "prune_config \<Rightarrow> content_block list \<Rightarrow> prune_error + content_block list option" where
  "prune_content cfg bs =
     (let total = measure_content bs in
      if total \<le> pr_threshold cfg then Inr None
      else case prune_blocks (pr_head cfg, total - pr_tail cfg) 0 False bs of
        (pruned, found) \<Rightarrow>
          if \<not> found then Inl NoRemovedSpan
          else let after = measure_content pruned in
            if after > pr_threshold cfg \<or> after \<ge> total then Inl (NotReduced after) else Inr (Some pruned))"

section \<open>What pruning keeps\<close>

definition text_of :: "content_block list \<Rightarrow> string" where
  "text_of bs = concat (List.map_filter block_text bs)"

definition rich_blocks :: "content_block list \<Rightarrow> content_block list" where
  "rich_blocks bs = filter (\<lambda>b. block_text b = None) bs"

lemma text_of_simps [simp]:
  "text_of [] = []" "text_of (TextBlock s # bs) = s @ text_of bs" "block_text b = None \<Longrightarrow> text_of (b # bs) = text_of bs"
  by (simp_all add: text_of_def List.map_filter_simps)

lemma rich_simps [simp]:
  "rich_blocks [] = []" "rich_blocks (TextBlock s # bs) = rich_blocks bs" "block_text b = None \<Longrightarrow> rich_blocks (b # bs) = b # rich_blocks bs"
  by (simp_all add: rich_blocks_def)

lemma measure_text: "measure_content bs = int (length (text_of bs))"
  by (induction bs rule: measure_content.induct) simp_all

lemma block_text_None: "block_text b = None \<longleftrightarrow> (\<nexists>s. b = TextBlock s)"
  by (cases b) auto

text \<open>Once the marker stands, only the tail of the text is kept.\<close>

lemma prune_after_marker:
  "h < c \<Longrightarrow> h < e \<Longrightarrow> prune_blocks (h, e) c True bs = (bs', found) \<Longrightarrow>
     found \<and> rich_blocks bs' = rich_blocks bs \<and> text_of bs' = drop (nat (e - c)) (text_of bs)"
proof (induction bs arbitrary: c bs')
  case (Cons b bs)
  show ?case
  proof (cases "\<exists>s. b = TextBlock s")
    case True
    then obtain s where b: "b = TextBlock s" by blast
    obtain rest where r: "prune_blocks (h, e) (c + int (length s)) True bs = (rest, found)"
      using Cons.prems(3) b by (auto simp: Let_def split: prod.splits)
    from Cons.IH [OF _ Cons.prems(2) r] Cons.prems(1)
    have IH: "found" "rich_blocks rest = rich_blocks bs" "text_of rest = drop (nat (e - (c + int (length s)))) (text_of bs)" by auto
    let ?s = "drop (nat (min (int (length s)) (max 0 (e - c)))) s"
    have bs': "bs' = (if ?s \<noteq> [] then TextBlock ?s # rest else rest)"
      using Cons.prems b r by (auto simp: Let_def)
    have "?s = drop (nat (e - c)) s" by (cases "e - c \<le> int (length s)") (auto simp: min_def max_def)
    moreover have "nat (e - (c + int (length s))) = nat (e - c) - length s" by simp
    moreover have "text_of bs' = ?s @ text_of rest" "rich_blocks bs' = rich_blocks rest" by (simp_all add: bs')
    ultimately show ?thesis using IH b by simp
  next
    case False
    then obtain rest where r: "prune_blocks (h, e) c True bs = (rest, found)" "bs' = b # rest"
      using Cons.prems(3) by (cases b) (auto split: prod.splits)
    with Cons.IH [OF Cons.prems(1,2) r(1)] False show ?thesis by (simp add: block_text_None)
  qed
qed simp

text \<open>Before the marker, the head of the text is kept, and the marker comes with the first removed character.\<close>

lemma prune_before_marker:
  "c \<le> h \<Longrightarrow> h < e \<Longrightarrow> prune_blocks (h, e) c False bs = (bs', found) \<Longrightarrow>
     rich_blocks bs' = rich_blocks bs \<and> (found \<longleftrightarrow> h < c + int (length (text_of bs))) \<and>
     text_of bs' = (if found then take (nat (h - c)) (text_of bs) @ prune_marker @ drop (nat (e - c)) (text_of bs) else text_of bs)"
proof (induction bs arbitrary: c bs')
  case (Cons b bs)
  show ?case
  proof (cases "\<exists>s. b = TextBlock s")
    case True
    then obtain s where b: "b = TextBlock s" by blast
    define marks where "marks \<longleftrightarrow> h < c + int (length s)"
    obtain rest where r: "prune_blocks (h, e) (c + int (length s)) marks bs = (rest, found)"
      using Cons.prems b by (auto simp: Let_def marks_def split: prod.splits)
    let ?s = "take (nat (min (int (length s)) (max 0 (h - c)))) s @ (if marks then prune_marker else []) @
      drop (nat (min (int (length s)) (max 0 (e - c)))) s"
    have "bs' = (if ?s \<noteq> [] then TextBlock ?s # rest else rest)"
      using Cons.prems b r by (auto simp: Let_def marks_def)
    then have bs': "text_of bs' = ?s @ text_of rest" "rich_blocks bs' = rich_blocks rest" by simp_all
    have ends: "take (nat (min (int (length s)) (max 0 (h - c)))) s = take (nat (h - c)) s"
      "drop (nat (min (int (length s)) (max 0 (e - c)))) s = drop (nat (e - c)) s"
      using Cons.prems by (auto simp: min_def max_def)
    show ?thesis
    proof (cases marks)
      case True
      with r have "prune_blocks (h, e) (c + int (length s)) True bs = (rest, found)" by simp
      from prune_after_marker [OF _ Cons.prems(2) this] True
      have "found" "rich_blocks rest = rich_blocks bs" "text_of rest = drop (nat (e - (c + int (length s)))) (text_of bs)"
        by (auto simp: marks_def)
      moreover have "nat (h - c) \<le> length s" "nat (e - (c + int (length s))) = nat (e - c) - length s"
        using True Cons.prems by (auto simp: marks_def)
      ultimately show ?thesis using bs' ends True b by (simp add: marks_def)
    next
      case False
      with r have "prune_blocks (h, e) (c + int (length s)) False bs = (rest, found)" by simp
      from Cons.IH [OF _ Cons.prems(2) this] False
      have IH: "rich_blocks rest = rich_blocks bs" "found \<longleftrightarrow> h < c + int (length s) + int (length (text_of bs))"
        "text_of rest = (if found then take (nat (h - (c + int (length s)))) (text_of bs) @ prune_marker @
          drop (nat (e - (c + int (length s)))) (text_of bs) else text_of bs)"
        by (auto simp: marks_def)
      have n: "nat (h - (c + int (length s))) = nat (h - c) - length s" "nat (e - (c + int (length s))) = nat (e - c) - length s"
        "length s \<le> nat (h - c)" "length s \<le> nat (e - c)"
        using False Cons.prems by (auto simp: marks_def)
      show ?thesis using bs' ends False b IH n by (simp add: add.assoc)
    qed
  next
    case False
    then obtain rest where r: "prune_blocks (h, e) c False bs = (rest, found)" "bs' = b # rest"
      using Cons.prems(3) by (cases b) (auto split: prod.splits)
    with Cons.IH [OF Cons.prems(1,2) r(1)] False show ?thesis by (simp add: block_text_None)
  qed
qed simp

lemma prune_content_spec:
  assumes cfg: "prune_config_ok cfg"
  shows "prune_content cfg bs = Inr None \<and> measure_content bs \<le> pr_threshold cfg \<or>
    (\<exists>out. prune_content cfg bs = Inr (Some out) \<and> pr_threshold cfg < measure_content bs \<and> rich_blocks out = rich_blocks bs \<and>
       text_of out = take (nat (pr_head cfg)) (text_of bs) @ prune_marker @
         drop (length (text_of bs) - nat (pr_tail cfg)) (text_of bs) \<and>
       measure_content out = pr_head cfg + int (length prune_marker) + pr_tail cfg \<and> measure_content out \<le> pr_threshold cfg)"
proof (cases "measure_content bs \<le> pr_threshold cfg")
  case True
  then show ?thesis by (simp add: prune_content_def Let_def)
next
  case False
  let ?t = "measure_content bs" and ?T = "text_of bs"
  have c: "0 \<le> pr_head cfg" "0 \<le> pr_tail cfg" "pr_head cfg + int (length prune_marker) + pr_tail cfg \<le> pr_threshold cfg"
    using cfg by (simp_all add: prune_config_ok_def)
  obtain out found where p: "prune_blocks (pr_head cfg, ?t - pr_tail cfg) 0 False bs = (out, found)"
    by (cases "prune_blocks (pr_head cfg, ?t - pr_tail cfg) 0 False bs")
  have gap: "pr_head cfg < ?t - pr_tail cfg" using False c by simp
  from prune_before_marker [OF c(1) gap p]
  have out: "rich_blocks out = rich_blocks bs" "found \<longleftrightarrow> pr_head cfg < int (length ?T)"
    "text_of out = (if found then take (nat (pr_head cfg)) ?T @ prune_marker @ drop (nat (?t - pr_tail cfg)) ?T else ?T)" by auto
  have len: "?t = int (length ?T)" by (rule measure_text)
  have found: found using out(2) gap c(2) len by simp
  have cut: "nat (?t - pr_tail cfg) = length ?T - nat (pr_tail cfg)" using len c(2) by simp
  have m: "measure_content out = pr_head cfg + int (length prune_marker) + pr_tail cfg"
    using out(3) found gap c len unfolding measure_text by (simp add: cut)
  then have "prune_content cfg bs = Inr (Some out)"
    using p found False c by (simp add: prune_content_def Let_def)
  with False out found m c cut show ?thesis by simp
qed


section \<open>One pass over a session\<close>










section \<open>The pass rewrites results in place\<close>



text \<open>The objects among the metadata of the tool results have distinct keys, as JSON objects do.\<close>

definition metas_wf :: "tool_result_data \<Rightarrow> bool" where
  "metas_wf d \<longleftrightarrow> (case tr_meta d of Some m \<Rightarrow> json_wf m | None \<Rightarrow> True)"

definition results_of :: "compaction_event event list \<Rightarrow> (int \<times> tool_result_data) list \<Rightarrow> bool" where
  "results_of evs cs \<longleftrightarrow> distinct (map fst cs) \<and> (\<forall>(q, d) \<in> set cs. q \<in> set (surface_nodes evs) \<and>
     ev_data (evs ! nat q) = ToolResult d \<and> metas_wf d)"









lemma results_of_tail: "results_of evs (c # cs) \<Longrightarrow> results_of evs cs"
  by (auto simp: results_of_def)


section \<open>Properties\<close>

text \<open>
  Under every configuration that resolves, a tool result within the threshold is left alone, and any other
  keeps its rich blocks in order and its text as the configured head, the marker and the configured tail,
  exactly that many characters, within the threshold; the guards behind the loop never throw.
\<close>

theorem pruned_content_is_head_marker_tail:
  assumes "resolve_prune_config kvs = Inr cfg"
  shows "case prune_content cfg bs of
      Inl _ \<Rightarrow> False
    | Inr None \<Rightarrow> measure_content bs \<le> pr_threshold cfg
    | Inr (Some out) \<Rightarrow> pr_threshold cfg < measure_content bs \<and> rich_blocks out = rich_blocks bs \<and>
        text_of out = take (nat (pr_head cfg)) (text_of bs) @ prune_marker @
          drop (length (text_of bs) - nat (pr_tail cfg)) (text_of bs) \<and>
        measure_content out = pr_head cfg + int (length prune_marker) + pr_tail cfg \<and> measure_content out \<le> pr_threshold cfg"
  using prune_content_spec [OF resolved_config_ok [OF assms], of bs] by auto

definition small_config :: prune_config where
  "small_config = \<lparr>pr_threshold = 45, pr_head = 3, pr_tail = 2\<rparr>"

lemma small_config_resolves:
  "resolve_prune_config [(''thresholdChars'', JInt 45), (''headChars'', JInt 3), (''tailChars'', JInt 2)] = Inr small_config"
  by code_simp

theorem pruned_content_is_head_marker_tail_witness:
  "case prune_content small_config [TextBlock (replicate 46 CHR ''a''), ImageBlock JNull] of
     Inr (Some out) \<Rightarrow> measure_content out = 44 \<and> rich_blocks out = [ImageBlock JNull] | _ \<Rightarrow> False"
proof -
  let ?bs = "[TextBlock (replicate 46 CHR ''a''), ImageBlock JNull]"
  have "prune_content small_config ?bs \<noteq> Inr None" "length prune_marker = 39" "pr_head small_config = 3" "pr_tail small_config = 2"
    by code_simp+
  with pruned_content_is_head_marker_tail [OF small_config_resolves, of ?bs] show ?thesis
    by (auto simp: rich_blocks_def split: sum.splits option.splits)
qed











end
