(* ===== verification/Team_Graph.thy ===== *)
theory Team_Graph
  imports Prelude
begin

text \<open>
  The shared tasks of an agent team and the validation of their dependency graph
  (\<open>packages/experimental/agent-team/src/types.ts\<close>, \<open>task-graph.ts\<close>): the depth-first search decides exactly
  whether the active tasks form a directed acyclic graph over existing, active tasks, and a board with such a
  graph is never stuck.
\<close>

section \<open>Tasks\<close>

type_synonym task_id = string

datatype task_status = TaskPending | TaskInProgress | TaskCompleted | TaskDeleted

record team_task =
  task_id :: task_id
  task_revision :: int
  task_subject :: string
  task_description :: string
  task_status :: task_status
  task_owner :: "string option"
  task_blocked :: "task_id list"
  task_scopes :: "string list"

type_synonym tasks = "(task_id, team_task) omap"

datatype graph_violation = GraphMissing | GraphDuplicate | GraphCycle

abbreviation task_active :: "team_task \<Rightarrow> bool" where
  "task_active t \<equiv> task_status t \<noteq> TaskDeleted"

section \<open>Validation\<close>

text \<open>The loop over one task's blockers: \<open>seen\<close> is the set of those read before.\<close>

fun check_blockers :: "tasks \<Rightarrow> team_task \<Rightarrow> task_id list \<Rightarrow> task_id list \<Rightarrow> graph_violation + unit" where
  "check_blockers ts t seen [] = Inr ()"
| "check_blockers ts t seen (b # bs) =
     (if b = task_id t then Inl GraphCycle
      else if b \<in> set seen then Inl GraphDuplicate
      else case om_get ts b of
        None \<Rightarrow> Inl GraphMissing
      | Some t' \<Rightarrow> if task_status t' = TaskDeleted then Inl GraphMissing else check_blockers ts t (b # seen) bs)"

fun check_tasks :: "tasks \<Rightarrow> team_task list \<Rightarrow> graph_violation + unit" where
  "check_tasks ts [] = Inr ()"
| "check_tasks ts (t # rest) =
     rbind (if task_status t = TaskDeleted then Inr () else check_blockers ts t [] (task_blocked t)) (\<lambda>_. check_tasks ts rest)"

text \<open>
  \<open>visit\<close> over a list of ids. The ids being visited are passed down: a call that returns has removed its own
  id again. The visited ids, newest first, are threaded through.
\<close>

function visit_ids :: "tasks \<Rightarrow> task_id list \<Rightarrow> task_id list \<Rightarrow> task_id list \<Rightarrow> graph_violation + task_id list" where
  "visit_ids ts visiting visited [] = Inr visited"
| "visit_ids ts visiting visited (i # is) =
     (if i \<in> set visiting then Inl GraphCycle
      else if i \<in> set visited then visit_ids ts visiting visited is
      else case om_get ts i of
        None \<Rightarrow> visit_ids ts visiting visited is
      | Some t \<Rightarrow>
          if task_status t = TaskDeleted then visit_ids ts visiting visited is
          else (case visit_ids ts (i # visiting) visited (task_blocked t) of
              Inl err \<Rightarrow> Inl err
            | Inr visited' \<Rightarrow> visit_ids ts visiting (i # visited') is))"
  by pat_completeness auto

lemma fewer_unvisited:
  assumes "om_get ts i = Some t" and "i \<notin> set visiting"
  shows "card (set (om_keys ts) - insert i (set visiting)) < card (set (om_keys ts) - set visiting)"
proof (rule psubset_card_mono)
  have "i \<in> set (om_keys ts)" using assms(1) by (simp add: om_keys_get)
  with assms(2) show "set (om_keys ts) - insert i (set visiting) \<subset> set (om_keys ts) - set visiting" by blast
qed simp

termination visit_ids
proof (relation "measures [\<lambda>(ts, visiting, visited, ids). card (set (om_keys ts) - set visiting), \<lambda>(ts, visiting, visited, ids). length ids]",
    goal_cases)
  case (5 ts visiting visited i "is" t)
  then show ?case using fewer_unvisited [of ts i t visiting] by simp
qed simp_all

definition assert_task_graph_candidate :: "tasks \<Rightarrow> team_task \<Rightarrow> graph_violation + unit" where
  "assert_task_graph_candidate current candidate =
     (let ts = om_set (task_id candidate) candidate current in
      rbind (check_tasks ts (map snd ts)) (\<lambda>_.
      rbind (visit_ids ts [] [] (map (\<lambda>p. task_id (snd p)) ts)) (\<lambda>_. Inr ())))"

section \<open>The graph the validation accepts\<close>

definition active_in :: "tasks \<Rightarrow> task_id \<Rightarrow> bool" where
  "active_in ts i \<longleftrightarrow> (case om_get ts i of None \<Rightarrow> False | Some t \<Rightarrow> task_active t)"

text \<open>An active task waits for its blockers.\<close>

definition waits_for :: "tasks \<Rightarrow> (task_id \<times> task_id) set" where
  "waits_for ts = {(a, b). \<exists>t. om_get ts a = Some t \<and> task_active t \<and> b \<in> set (task_blocked t)}"

definition blockers_sound :: "tasks \<Rightarrow> team_task \<Rightarrow> bool" where
  "blockers_sound ts t \<longleftrightarrow> distinct (task_blocked t) \<and> task_id t \<notin> set (task_blocked t) \<and> list_all (active_in ts) (task_blocked t)"

definition sound_graph :: "tasks \<Rightarrow> bool" where
  "sound_graph ts \<longleftrightarrow> (\<forall>i t. om_get ts i = Some t \<and> task_active t \<longrightarrow> blockers_sound ts t) \<and> acyclic (waits_for ts)"

text \<open>A board keeps every task under its own id.\<close>

definition tasks_wf :: "tasks \<Rightarrow> bool" where
  "tasks_wf ts \<longleftrightarrow> om_wf ts \<and> list_all (\<lambda>(i, t). task_id t = i) ts"

lemma tasks_wf_get: "tasks_wf ts \<Longrightarrow> om_get ts i = Some t \<Longrightarrow> task_id t = i"
  by (auto simp: tasks_wf_def list_all_iff dest: map_of_SomeD)

lemma om_set_entries: "(k, v) \<in> set (om_set i t m) \<Longrightarrow> (k, v) = (i, t) \<or> (k, v) \<in> set m"
  by (induction i t m rule: om_set.induct) (auto split: if_splits)

lemma tasks_wf_set: "tasks_wf ts \<Longrightarrow> tasks_wf (om_set (task_id t) t ts)"
  by (auto simp: tasks_wf_def list_all_iff dest!: om_set_entries)

lemma tasks_wf_Nil [simp]: "tasks_wf []"
  by (simp add: tasks_wf_def)

lemma check_blockers_iff:
  "check_blockers ts t seen bs = Inr () \<longleftrightarrow>
     distinct bs \<and> set bs \<inter> set seen = {} \<and> task_id t \<notin> set bs \<and> list_all (active_in ts) bs"
  by (induction ts t seen bs rule: check_blockers.induct) (auto simp: active_in_def split: option.splits)

lemma check_tasks_iff:
  "check_tasks ts us = Inr () \<longleftrightarrow> (\<forall>t \<in> set us. task_active t \<longrightarrow> blockers_sound ts t)"
  by (induction ts us rule: check_tasks.induct)
    (auto simp: rbind_Inr_iff blockers_sound_def check_blockers_iff)

lemma check_all_iff:
  assumes "tasks_wf ts"
  shows "check_tasks ts (map snd ts) = Inr () \<longleftrightarrow> (\<forall>i t. om_get ts i = Some t \<and> task_active t \<longrightarrow> blockers_sound ts t)"
proof -
  have "t \<in> snd ` set ts \<longleftrightarrow> (\<exists>i. om_get ts i = Some t)" for t
    using om_set_in [of ts] assms by (force simp: tasks_wf_def image_iff)
  then show ?thesis unfolding check_tasks_iff set_map by blast
qed

subsection \<open>The search returns only on acyclic graphs\<close>

text \<open>Newest first, every visited task comes after its active blockers.\<close>

fun visited_order :: "tasks \<Rightarrow> task_id list \<Rightarrow> bool" where
  "visited_order ts [] = True"
| "visited_order ts (v # vs) = (v \<notin> set vs \<and> {b. (v, b) \<in> waits_for ts \<and> active_in ts b} \<subseteq> set vs \<and> visited_order ts vs)"

lemma visit_ids_sound:
  "visit_ids ts visiting visited ids = Inr visited' \<Longrightarrow> visited_order ts visited \<Longrightarrow> set visited \<inter> set visiting = {} \<Longrightarrow>
     visited_order ts visited' \<and> set visited \<subseteq> set visited' \<and> set visited' \<inter> set visiting = {} \<and>
     (\<forall>i \<in> set ids. active_in ts i \<longrightarrow> i \<in> set visited')"
proof (induction ts visiting visited ids arbitrary: visited' rule: visit_ids.induct)
  case (2 ts visiting visited i "is")
  note run = "2.prems"(1) and order = "2.prems"(2) and apart = "2.prems"(3)
  have new: "i \<notin> set visiting" using run by (auto split: if_splits)
  show ?case
  proof (cases "i \<in> set visited \<or> \<not> active_in ts i")
    case True
    have rest: "visit_ids ts visiting visited is = Inr visited'"
      using run new True by (auto simp: active_in_def split: option.splits if_splits)
    consider "i \<in> set visited" | "i \<notin> set visited" "om_get ts i = None"
      | t where "i \<notin> set visited" "om_get ts i = Some t" "task_status t = TaskDeleted"
      using True by (auto simp: active_in_def split: option.splits)
    then have "visited_order ts visited' \<and> set visited \<subseteq> set visited' \<and> set visited' \<inter> set visiting = {} \<and>
        (\<forall>i \<in> set is. active_in ts i \<longrightarrow> i \<in> set visited')"
      using "2.IH"(1) [OF new _ rest order apart] "2.IH"(2) [OF new _ _ rest order apart]
        "2.IH"(3) [OF new _ _ _ rest order apart] by cases
    with True show ?thesis by auto
  next
    case False
    then obtain t where t: "om_get ts i = Some t" "task_active t" "i \<notin> set visited"
      by (auto simp: active_in_def split: option.splits)
    with run new obtain mid where child: "visit_ids ts (i # visiting) visited (task_blocked t) = Inr mid"
      and rest: "visit_ids ts visiting (i # mid) is = Inr visited'"
      by (auto split: sum.splits)
    have c: "visited_order ts mid \<and> set visited \<subseteq> set mid \<and> set mid \<inter> set (i # visiting) = {} \<and>
        (\<forall>b \<in> set (task_blocked t). active_in ts b \<longrightarrow> b \<in> set mid)"
      using "2.IH"(4) [OF new t(3,1,2) child order] apart t(3) by simp
    have "{b. (i, b) \<in> waits_for ts \<and> active_in ts b} \<subseteq> set mid" using c t(1) by (auto simp: waits_for_def)
    with c have "visited_order ts (i # mid)" by simp
    then have "visited_order ts visited' \<and> set (i # mid) \<subseteq> set visited' \<and> set visited' \<inter> set visiting = {} \<and>
        (\<forall>i \<in> set is. active_in ts i \<longrightarrow> i \<in> set visited')"
      using "2.IH"(5) [OF new t(3,1,2) child rest] c new by auto
    with c show ?thesis by auto
  qed
qed simp

fun visit_rank :: "task_id list \<Rightarrow> task_id \<Rightarrow> nat" where
  "visit_rank [] a = 0"
| "visit_rank (v # vs) a = (if a = v then Suc (length vs) else visit_rank vs a)"

lemma visit_rank_le: "visit_rank vs a \<le> length vs"
  by (induction vs) (auto intro: le_SucI)

lemma visited_order_rank:
  "visited_order ts vs \<Longrightarrow> a \<in> set vs \<Longrightarrow> (a, b) \<in> waits_for ts \<Longrightarrow> active_in ts b \<Longrightarrow> b \<in> set vs \<and> visit_rank vs b < visit_rank vs a"
proof (induction vs)
  case (Cons v vs)
  show ?case
  proof (cases "a = v")
    case True
    with Cons.prems have "b \<in> set vs" "v \<notin> set vs" by auto
    with True visit_rank_le [of vs b] show ?thesis by auto
  qed (use Cons in auto)
qed simp

subsection \<open>The search fails only on cycles\<close>

lemma visit_ids_complete:
  "visit_ids ts visiting visited ids = Inl err \<Longrightarrow> (\<forall>x \<in> set visiting. (x, hd visiting) \<in> (waits_for ts)\<^sup>*) \<Longrightarrow>
     (visiting \<noteq> [] \<Longrightarrow> \<forall>i \<in> set ids. (hd visiting, i) \<in> waits_for ts) \<Longrightarrow> \<not> acyclic (waits_for ts)"
proof (induction ts visiting visited ids rule: visit_ids.induct)
  case (2 ts visiting visited i "is")
  note run = "2.prems"(1) and path = "2.prems"(2) and next_edge = "2.prems"(3)
  show ?case
  proof (cases "i \<in> set visiting")
    case True
    then have "visiting \<noteq> []" by auto
    with True have "(i, hd visiting) \<in> (waits_for ts)\<^sup>*" "(hd visiting, i) \<in> waits_for ts"
      using path next_edge by simp_all
    then have "(i, i) \<in> (waits_for ts)\<^sup>+" by (rule rtrancl_into_trancl1)
    then show ?thesis by (auto simp: acyclic_def)
  next
    case new: False
    have tail: "visiting \<noteq> [] \<Longrightarrow> \<forall>j \<in> set is. (hd visiting, j) \<in> waits_for ts" using next_edge by simp
    show ?thesis
    proof (cases "i \<in> set visited \<or> \<not> active_in ts i")
      case True
      have rest: "visit_ids ts visiting visited is = Inl err"
        using run new True by (auto simp: active_in_def split: option.splits if_splits)
      consider "i \<in> set visited" | "i \<notin> set visited" "om_get ts i = None"
        | t where "i \<notin> set visited" "om_get ts i = Some t" "task_status t = TaskDeleted"
        using True by (auto simp: active_in_def split: option.splits)
      then show ?thesis
        using "2.IH"(1) [OF new _ rest path tail] "2.IH"(2) [OF new _ _ rest path tail]
          "2.IH"(3) [OF new _ _ _ rest path tail] by cases
    next
      case False
      then obtain t where t: "om_get ts i = Some t" "task_active t" "i \<notin> set visited"
        by (auto simp: active_in_def split: option.splits)
      have edges: "\<forall>b \<in> set (task_blocked t). (i, b) \<in> waits_for ts" using t by (auto simp: waits_for_def)
      have longer: "\<forall>x \<in> set (i # visiting). (x, hd (i # visiting)) \<in> (waits_for ts)\<^sup>*"
      proof (cases "visiting = []")
        case False
        then have "(hd visiting, i) \<in> waits_for ts" using next_edge by simp
        with path show ?thesis by (auto intro: rtrancl_into_rtrancl)
      qed simp
      show ?thesis
      proof (cases "visit_ids ts (i # visiting) visited (task_blocked t)")
        case (Inl e)
        with run new t have "visit_ids ts (i # visiting) visited (task_blocked t) = Inl err" by simp
        from "2.IH"(4) [OF new t(3,1,2) this longer] edges show ?thesis by simp
      next
        case (Inr mid)
        with run new t have "visit_ids ts visiting (i # mid) is = Inl err" by simp
        from "2.IH"(5) [OF new t(3,1,2) Inr this path tail] show ?thesis .
      qed
    qed
  qed
qed simp

text \<open>The validation accepts a candidate exactly when the graph with it is sound.\<close>

lemma graph_accepted_iff:
  assumes wf: "tasks_wf ts"
  shows "check_tasks ts (map snd ts) = Inr () \<and> ok (visit_ids ts [] [] (map (\<lambda>p. task_id (snd p)) ts)) \<longleftrightarrow> sound_graph ts"
proof -
  let ?ids = "map (\<lambda>p. task_id (snd p)) ts"
  have ids: "i \<in> set ?ids" if "active_in ts i" for i
  proof -
    from that obtain t where "om_get ts i = Some t" by (auto simp: active_in_def split: option.splits)
    then have "(i, t) \<in> set ts" "task_id t = i" using tasks_wf_get [OF wf] by (auto dest: map_of_SomeD)
    then show ?thesis unfolding set_map by (intro image_eqI [of _ _ "(i, t)"]) simp_all
  qed
  have "sound_graph ts" if v: "visit_ids ts [] [] ?ids = Inr vs" and c: "check_tasks ts (map snd ts) = Inr ()" for vs
  proof -
    have s: "\<forall>i t. om_get ts i = Some t \<and> task_active t \<longrightarrow> blockers_sound ts t" using c check_all_iff [OF wf] by blast
    have o: "visited_order ts vs" "\<forall>i \<in> set ?ids. active_in ts i \<longrightarrow> i \<in> set vs" using visit_ids_sound [OF v] by simp_all
    have "(b, a) \<in> inv_image less_than (visit_rank vs)" if "(a, b) \<in> waits_for ts" for a b
    proof -
      from that obtain t where t: "om_get ts a = Some t" "task_active t" "b \<in> set (task_blocked t)"
        by (auto simp: waits_for_def)
      then have "active_in ts a" by (simp add: active_in_def)
      moreover have "active_in ts b" using t s by (fastforce simp: blockers_sound_def list_all_iff)
      moreover have "a \<in> set vs" using o(2) ids [OF calculation(1)] calculation(1) by blast
      ultimately show ?thesis using visited_order_rank [OF o(1) _ that] by simp
    qed
    then have "(waits_for ts)\<inverse> \<subseteq> inv_image less_than (visit_rank vs)" by blast
    then have "acyclic ((waits_for ts)\<inverse>)" using wf_subset [OF wf_inv_image [OF wf_less_than]] wf_acyclic by blast
    then have "acyclic (waits_for ts)" by (simp add: acyclic_converse)
    with s show ?thesis by (simp add: sound_graph_def)
  qed
  moreover have "\<not> sound_graph ts" if "visit_ids ts [] [] ?ids = Inl err" for err
    using visit_ids_complete [OF that] by (simp add: sound_graph_def)
  ultimately show ?thesis
    using check_all_iff [OF wf]
    by (cases "visit_ids ts [] [] ?ids") (auto simp: sound_graph_def)
qed

lemma candidate_accepted_iff:
  "tasks_wf current \<Longrightarrow> assert_task_graph_candidate current c = Inr () \<longleftrightarrow> sound_graph (om_set (task_id c) c current)"
  using graph_accepted_iff [OF tasks_wf_set [of current c]]
  by (simp add: assert_task_graph_candidate_def Let_def rbind_Inr_iff ok_iff)

section \<open>A sound board is never stuck\<close>

lemma finite_waits: "finite (waits_for ts)"
proof -
  have "waits_for ts \<subseteq> (\<Union>p \<in> set ts. {fst p} \<times> set (task_blocked (snd p)))"
    by (force simp: waits_for_def dest: map_of_SomeD)
  then show ?thesis by (rule finite_subset) simp
qed

lemma first_open_task:
  assumes "acyclic (waits_for ts)" and "i \<in> S"
  shows "\<exists>a \<in> S. \<forall>b \<in> S. (a, b) \<notin> waits_for ts"
proof -
  have "wf ((waits_for ts)\<inverse>)" using assms(1) by (intro finite_acyclic_wf_converse finite_waits)
  from wfE_min [OF this assms(2)] show ?thesis by (metis converse_iff)
qed

section \<open>Properties\<close>

text \<open>
  C31: The validation of a candidate task is exact: it accepts precisely when the board with the candidate has
  only existing, active, distinct blockers, none of them the task itself, and no cycle among the active tasks.
\<close>

theorem task_graph_validation_is_exact:
  assumes "tasks_wf current"
  shows "assert_task_graph_candidate current candidate = Inr () \<longleftrightarrow> sound_graph (om_set (task_id candidate) candidate current)"
  by (rule candidate_accepted_iff [OF assms])

definition sample_task :: "string \<Rightarrow> task_id list \<Rightarrow> team_task" where
  "sample_task i bs = \<lparr>task_id = i, task_revision = 1, task_subject = ''s'', task_description = ''d'', task_status = TaskPending,
     task_owner = None, task_blocked = bs, task_scopes = []\<rparr>"

theorem task_graph_validation_is_exact_witness:
  "\<not> sound_graph (om_set ''a'' (sample_task ''a'' [''b'']) [(''a'', sample_task ''a'' []), (''b'', sample_task ''b'' [''a''])])"
proof -
  let ?current = "[(''a'', sample_task ''a'' []), (''b'', sample_task ''b'' [''a''])]"
  have "tasks_wf ?current" by code_simp
  moreover have "assert_task_graph_candidate ?current (sample_task ''a'' [''b'']) \<noteq> Inr ()" by code_simp
  ultimately show ?thesis
    using task_graph_validation_is_exact [of ?current "sample_task ''a'' [''b'']"] by (simp add: sample_task_def)
qed

end
