(* ===== verification/Team_Fold.thy ===== *)
theory Team_Fold
  imports Team_Graph Inbox
begin

text \<open>
  The durable records of an agent team and their strict replay (\<open>packages/experimental/agent-team/src/types.ts\<close>,
  \<open>fold.ts\<close>): the roster, the shared tasks and the mailbox that the log of the team's Lead holds. A payload is
  typed here; of the schemas only what the types do not say is checked.
\<close>

section \<open>Records\<close>

datatype member_phase = PhaseProvisioning | PhaseActive | PhaseFailed

datatype member_context = ContextFresh | ContextFork

record team_member =
  mb_id :: session_id
  mb_name :: string
  mb_description :: string
  mb_provider :: string
  mb_context :: member_context
  mb_phase :: member_phase
  mb_error :: "string option"

datatype delivery = DeliverQuiet | DeliverWakeup

record team_message =
  qm_id :: string
  qm_sender :: session_id
  qm_sender_name :: string
  qm_target :: session_id
  qm_delivery :: delivery
  qm_content :: "content_block list"

datatype team_body =
    TeamMember team_member
  | TeamTask team_task
  | MessageQueued team_message
  | MessageDelivered string session_id

record team_record =
  rec_version :: int
  rec_team :: session_id
  rec_body :: team_body

text \<open>The plugin events of a session that hosts a team: team records, and splices of the agent's inbox.\<close>

datatype team_payload = TeamRecord team_record | InboxRecord inbox_splice

section \<open>Schemas\<close>

definition seq_number :: "json option \<Rightarrow> rat \<Rightarrow> bool" where
  "seq_number v least \<longleftrightarrow> (case v of Some (JNum r) \<Rightarrow> safe_integer r \<and> least \<le> r | _ \<Rightarrow> False)"

definition image_attachment :: "json \<Rightarrow> bool" where
  "image_attachment v \<longleftrightarrow> is_object v \<and>
     list_all (\<lambda>k. k \<in> {''attachmentId'', ''mediaType'', ''bytes'', ''width'', ''height'', ''name''}) (jkeys v) \<and>
     (case jget v ''attachmentId'' of Some (JStr s) \<Rightarrow> s \<noteq> [] | _ \<Rightarrow> False) \<and>
     jget v ''mediaType'' \<in> Some ` JStr ` {''image/png'', ''image/jpeg'', ''image/webp'', ''image/gif''} \<and>
     seq_number (jget v ''bytes'') 0 \<and> seq_number (jget v ''width'') 1 \<and> seq_number (jget v ''height'') 1 \<and>
     (case jget v ''name'' of None \<Rightarrow> True | Some (JStr _) \<Rightarrow> True | _ \<Rightarrow> False)"

fun content_valid :: "content_block list \<Rightarrow> bool" and block_valid :: "content_block \<Rightarrow> bool" where
  "content_valid [] = True"
| "content_valid (b # bs) = (block_valid b \<and> content_valid bs)"
| "block_valid (TextBlock _) = True"
| "block_valid (ReasoningBlock _) = True"
| "block_valid (ImageBlock a) = image_attachment a"
| "block_valid (ToolCallBlock i _ _) = (i \<noteq> [])"
| "block_valid (ToolResultBlock i content _) = (i \<noteq> [] \<and> content_valid content)"

text \<open>\<open>numericTaskIdPattern\<close>: the number after \<open>task-\<close>, when the rest is digits.\<close>

definition task_prefix :: string where
  "task_prefix = ''task-''"

definition task_number :: "task_id \<Rightarrow> nat option" where
  "task_number i = (let rest = drop 5 i in
     if take 5 i = task_prefix \<and> rest \<noteq> [] \<and> list_all is_digit rest then Some (digits_value rest 0) else None)"

definition task_id_valid :: "task_id \<Rightarrow> bool" where
  "task_id_valid i \<longleftrightarrow> i \<noteq> [] \<and> (case task_number i of None \<Rightarrow> True | Some n \<Rightarrow> int n \<le> max_safe)"

fun body_valid :: "team_body \<Rightarrow> bool" where
  "body_valid (TeamMember m) = (mb_id m \<noteq> [])"
| "body_valid (TeamTask t) = (task_id_valid (task_id t) \<and> 1 \<le> task_revision t \<and> task_revision t \<le> max_safe \<and>
     task_owner t \<noteq> Some [] \<and> list_all task_id_valid (task_blocked t))"
| "body_valid (MessageQueued m) = (qm_id m \<noteq> [] \<and> qm_sender m \<noteq> [] \<and> qm_target m \<noteq> [] \<and> content_valid (qm_content m))"
| "body_valid (MessageDelivered i target) = (i \<noteq> [] \<and> target \<noteq> [])"

section \<open>Replay\<close>

datatype team_fold_error =
    PersistedInvalid
  | UnsupportedVersion int
  | NameReused string
  | MustBeginProvisioning string
  | IdentityChanged session_id
  | InvalidPhase member_phase member_phase
  | MustBeginAtOne task_id
  | RevisionGap task_id
  | GraphRejected graph_violation
  | QueuedTwice string
  | DeliveredUnqueued string
  | TargetChanged string
  | DeliveredTwice string

record team_state =
  ts_id :: session_id
  ts_members :: "(session_id, team_member) omap"
  ts_names :: "(string, session_id) omap"
  ts_tasks :: tasks
  ts_messages :: "(string, team_message) omap"
  ts_delivered :: "string list"
  ts_next :: int

definition empty_team :: "session_id \<Rightarrow> team_state" where
  "empty_team lead = \<lparr>ts_id = lead, ts_members = [], ts_names = [], ts_tasks = [], ts_messages = [], ts_delivered = [], ts_next = 1\<rparr>"

definition apply_member :: "team_member \<Rightarrow> team_state \<Rightarrow> team_fold_error + team_state" where
  "apply_member m st =
     (if (case om_get (ts_names st) (mb_name m) of None \<Rightarrow> False | Some i \<Rightarrow> i \<noteq> mb_id m) then Inl (NameReused (mb_name m))
      else case om_get (ts_members st) (mb_id m) of
        None \<Rightarrow>
          if mb_phase m \<noteq> PhaseProvisioning then Inl (MustBeginProvisioning (mb_name m))
          else Inr (st\<lparr>ts_names := om_set (mb_name m) (mb_id m) (ts_names st), ts_members := om_set (mb_id m) m (ts_members st)\<rparr>)
      | Some prior \<Rightarrow>
          if mb_name prior \<noteq> mb_name m \<or> mb_provider prior \<noteq> mb_provider m \<or> mb_context prior \<noteq> mb_context m
          then Inl (IdentityChanged (mb_id m))
          else if mb_phase prior \<noteq> PhaseProvisioning \<or> mb_phase m = PhaseProvisioning
          then Inl (InvalidPhase (mb_phase prior) (mb_phase m))
          else Inr (st\<lparr>ts_members := om_set (mb_id m) m (ts_members st)\<rparr>))"

definition next_number :: "task_id \<Rightarrow> int \<Rightarrow> int" where
  "next_number i n = (case task_number i of None \<Rightarrow> n
     | Some k \<Rightarrow> max n (if int k = max_safe then int k else int k + 1))"

definition apply_task :: "team_task \<Rightarrow> team_state \<Rightarrow> team_fold_error + team_state" where
  "apply_task t st =
     rbind (case om_get (ts_tasks st) (task_id t) of
         None \<Rightarrow> require (task_revision t = 1) (MustBeginAtOne (task_id t))
       | Some prior \<Rightarrow> require (task_revision t = task_revision prior + 1) (RevisionGap (task_id t))) (\<lambda>_.
     case assert_task_graph_candidate (ts_tasks st) t of
       Inl v \<Rightarrow> Inl (GraphRejected v)
     | Inr _ \<Rightarrow> Inr (st\<lparr>ts_next := next_number (task_id t) (ts_next st), ts_tasks := om_set (task_id t) t (ts_tasks st)\<rparr>))"

definition apply_queued :: "team_message \<Rightarrow> team_state \<Rightarrow> team_fold_error + team_state" where
  "apply_queued m st =
     (if om_get (ts_messages st) (qm_id m) \<noteq> None then Inl (QueuedTwice (qm_id m))
      else Inr (st\<lparr>ts_messages := om_set (qm_id m) m (ts_messages st)\<rparr>))"

definition apply_delivered :: "string \<Rightarrow> session_id \<Rightarrow> team_state \<Rightarrow> team_fold_error + team_state" where
  "apply_delivered i target st = (case om_get (ts_messages st) i of
      None \<Rightarrow> Inl (DeliveredUnqueued i)
    | Some m \<Rightarrow>
        if qm_target m \<noteq> target then Inl (TargetChanged i)
        else if i \<in> set (ts_delivered st) then Inl (DeliveredTwice i)
        else Inr (st\<lparr>ts_delivered := ts_delivered st @ [i]\<rparr>))"

fun apply_body :: "team_body \<Rightarrow> team_state \<Rightarrow> team_fold_error + team_state" where
  "apply_body (TeamMember m) st = apply_member m st"
| "apply_body (TeamTask t) st = apply_task t st"
| "apply_body (MessageQueued m) st = apply_queued m st"
| "apply_body (MessageDelivered i target) st = apply_delivered i target st"

definition apply_record :: "team_record \<Rightarrow> team_state \<Rightarrow> team_fold_error + team_state" where
  "apply_record r st =
     (if \<not> (0 \<le> rec_version r \<and> rec_version r \<le> max_safe \<and> rec_team r \<noteq> []) then Inl PersistedInvalid
      else if rec_version r \<noteq> 1 then
        if rec_team r \<noteq> ts_id st then Inr st else Inl (UnsupportedVersion (rec_version r))
      else if \<not> body_valid (rec_body r) then Inl PersistedInvalid
      else if rec_team r \<noteq> ts_id st then Inr st
      else apply_body (rec_body r) st)"

definition apply_team_event :: "team_state \<Rightarrow> team_payload event \<Rightarrow> team_fold_error + team_state" where
  "apply_team_event st e = (case ev_data e of PluginEvent (TeamRecord r) \<Rightarrow> apply_record r st | _ \<Rightarrow> Inr st)"

definition fold_team :: "session_id \<Rightarrow> team_payload event list \<Rightarrow> team_fold_error + team_state" where
  "fold_team lead evs = replay apply_team_event (empty_team lead) evs"

section \<open>What the replayed state says\<close>

text \<open>The records of the log that concern this team, oldest first.\<close>

definition team_bodies :: "session_id \<Rightarrow> team_payload event list \<Rightarrow> team_body list" where
  "team_bodies lead evs = List.map_filter (\<lambda>e. case ev_data e of
     PluginEvent (TeamRecord r) \<Rightarrow> if rec_version r = 1 \<and> rec_team r = lead then Some (rec_body r) else None | _ \<Rightarrow> None) evs"

definition task_history :: "task_id \<Rightarrow> team_body list \<Rightarrow> team_task list" where
  "task_history i bs = List.map_filter (\<lambda>b. case b of TeamTask t \<Rightarrow> if task_id t = i then Some t else None | _ \<Rightarrow> None) bs"

definition member_history :: "session_id \<Rightarrow> team_body list \<Rightarrow> team_member list" where
  "member_history i bs = List.map_filter (\<lambda>b. case b of TeamMember m \<Rightarrow> if mb_id m = i then Some m else None | _ \<Rightarrow> None) bs"

text \<open>A task's revisions count from 1; its newest snapshot is current.\<close>

definition task_story :: "team_task list \<Rightarrow> team_task option \<Rightarrow> bool" where
  "task_story h t \<longleftrightarrow> map task_revision h = map int [1..<Suc (length h)] \<and> t = (if h = [] then None else Some (last h))"

text \<open>A member is provisioned, and settles at most once, keeping its identity.\<close>

definition same_member :: "team_member \<Rightarrow> team_member \<Rightarrow> bool" where
  "same_member a b \<longleftrightarrow> mb_name a = mb_name b \<and> mb_provider a = mb_provider b \<and> mb_context a = mb_context b"

definition member_story :: "team_member list \<Rightarrow> team_member option \<Rightarrow> bool" where
  "member_story h m \<longleftrightarrow> (case h of
      [] \<Rightarrow> m = None
    | [a] \<Rightarrow> m = Some a \<and> mb_phase a = PhaseProvisioning
    | [a, b] \<Rightarrow> m = Some b \<and> mb_phase a = PhaseProvisioning \<and> mb_phase b \<noteq> PhaseProvisioning \<and> same_member a b
    | _ \<Rightarrow> False)"

definition queued_ids :: "team_body list \<Rightarrow> string list" where
  "queued_ids bs = List.map_filter (\<lambda>b. case b of MessageQueued m \<Rightarrow> Some (qm_id m) | _ \<Rightarrow> None) bs"

definition delivered_ids :: "team_body list \<Rightarrow> string list" where
  "delivered_ids bs = List.map_filter (\<lambda>b. case b of MessageDelivered i _ \<Rightarrow> Some i | _ \<Rightarrow> None) bs"

definition numbers_below :: "tasks \<Rightarrow> int \<Rightarrow> bool" where
  "numbers_below ts n \<longleftrightarrow> 1 \<le> n \<and> n \<le> max_safe \<and>
     (\<forall>i t k. om_get ts i = Some t \<and> task_number i = Some k \<longrightarrow> int k < n \<or> int k = max_safe)"

definition names_exact :: "team_state \<Rightarrow> bool" where
  "names_exact st \<longleftrightarrow> (\<forall>n i. om_get (ts_names st) n = Some i \<longleftrightarrow> (\<exists>m. om_get (ts_members st) i = Some m \<and> mb_name m = n)) \<and>
     (\<forall>i m. om_get (ts_members st) i = Some m \<longrightarrow> mb_id m = i)"

definition tasks_told :: "team_body list \<Rightarrow> team_state \<Rightarrow> bool" where
  "tasks_told bs st \<longleftrightarrow> (\<forall>i. task_story (task_history i bs) (om_get (ts_tasks st) i)) \<and>
     tasks_wf (ts_tasks st) \<and> sound_graph (ts_tasks st) \<and> numbers_below (ts_tasks st) (ts_next st)"

definition members_told :: "team_body list \<Rightarrow> team_state \<Rightarrow> bool" where
  "members_told bs st \<longleftrightarrow> (\<forall>i. member_story (member_history i bs) (om_get (ts_members st) i)) \<and>
     om_wf (ts_members st) \<and> names_exact st"

definition mail_told :: "team_body list \<Rightarrow> team_state \<Rightarrow> bool" where
  "mail_told bs st \<longleftrightarrow> om_wf (ts_messages st) \<and> om_keys (ts_messages st) = queued_ids bs \<and> ts_delivered st = delivered_ids bs \<and>
     (\<forall>i m. om_get (ts_messages st) i = Some m \<longrightarrow> qm_id m = i \<and> MessageQueued m \<in> set bs) \<and>
     (\<forall>i target. MessageDelivered i target \<in> set bs \<longrightarrow> (\<exists>m. om_get (ts_messages st) i = Some m \<and> qm_target m = target)) \<and>
     distinct (delivered_ids bs)"

definition team_history :: "session_id \<Rightarrow> team_payload event list \<Rightarrow> team_state \<Rightarrow> bool" where
  "team_history lead evs st \<longleftrightarrow> ts_id st = lead \<and> list_all body_valid (team_bodies lead evs) \<and>
     tasks_told (team_bodies lead evs) st \<and> members_told (team_bodies lead evs) st \<and> mail_told (team_bodies lead evs) st"

lemma histories_snoc:
  "task_history i (bs @ [b]) = task_history i bs @ (case b of TeamTask t \<Rightarrow> if task_id t = i then [t] else [] | _ \<Rightarrow> [])"
  "member_history i (bs @ [b]) = member_history i bs @ (case b of TeamMember m \<Rightarrow> if mb_id m = i then [m] else [] | _ \<Rightarrow> [])"
  "queued_ids (bs @ [b]) = queued_ids bs @ (case b of MessageQueued m \<Rightarrow> [qm_id m] | _ \<Rightarrow> [])"
  "delivered_ids (bs @ [b]) = delivered_ids bs @ (case b of MessageDelivered j _ \<Rightarrow> [j] | _ \<Rightarrow> [])"
  by (cases b; simp add: task_history_def member_history_def queued_ids_def delivered_ids_def map_filter_snoc)+

lemma team_bodies_snoc:
  "team_bodies lead (evs @ [e]) = team_bodies lead evs @ (case ev_data e of
     PluginEvent (TeamRecord r) \<Rightarrow> if rec_version r = 1 \<and> rec_team r = lead then [rec_body r] else [] | _ \<Rightarrow> [])"
  by (auto simp: team_bodies_def map_filter_snoc split: event_data.split team_payload.split)

lemma delivered_ids_in: "i \<in> set (delivered_ids bs) \<longleftrightarrow> (\<exists>target. MessageDelivered i target \<in> set bs)"
proof (induction bs rule: rev_induct)
  case (snoc b bs)
  then show ?case by (cases b) (auto simp: histories_snoc)
qed (simp add: delivered_ids_def map_filter_simps)

subsection \<open>One record\<close>

lemma apply_task_Inr:
  "apply_task t st = Inr st' \<longleftrightarrow>
     (case om_get (ts_tasks st) (task_id t) of None \<Rightarrow> task_revision t = 1 | Some prior \<Rightarrow> task_revision t = task_revision prior + 1) \<and>
     assert_task_graph_candidate (ts_tasks st) t = Inr () \<and>
     st' = st\<lparr>ts_next := next_number (task_id t) (ts_next st), ts_tasks := om_set (task_id t) t (ts_tasks st)\<rparr>"
  by (auto simp: apply_task_def rbind_Inr_iff split: option.splits sum.splits)

lemma next_number_bounds:
  "task_id_valid i \<Longrightarrow> 1 \<le> n \<Longrightarrow> n \<le> max_safe \<Longrightarrow> n \<le> next_number i n \<and> next_number i n \<le> max_safe \<and>
     (\<forall>k. task_number i = Some k \<longrightarrow> int k < next_number i n \<or> int k = max_safe)"
  by (auto simp: next_number_def task_id_valid_def split: option.splits)

lemma task_story_new: "task_story h None \<Longrightarrow> task_revision t = 1 \<Longrightarrow> task_story (h @ [t]) (Some t)"
  by (auto simp: task_story_def split: if_splits)

lemma task_story_next:
  "task_story h (Some prior) \<Longrightarrow> task_revision t = task_revision prior + 1 \<Longrightarrow> task_story (h @ [t]) (Some t)"
proof -
  assume h: "task_story h (Some prior)" and t: "task_revision t = task_revision prior + 1"
  then have ne: "h \<noteq> []" and prior: "prior = last h" and revs: "map task_revision h = map int [1..<Suc (length h)]"
    by (auto simp: task_story_def split: if_splits)
  have "task_revision (last h) = last (map task_revision h)" using ne by (simp add: last_map)
  also have "\<dots> = int (length h)" unfolding revs using ne by (cases "length h") (simp_all add: last_map)
  finally have "task_revision t = int (length h) + 1" using t prior by simp
  with revs show ?thesis by (simp add: task_story_def)
qed

lemma tasks_told_step:
  assumes h: "tasks_told bs st" and t: "apply_task t st = Inr st'" and valid: "task_id_valid (task_id t)"
  shows "tasks_told (bs @ [TeamTask t]) st'"
proof -
  let ?ts = "ts_tasks st" and ?i = "task_id t"
  from t have revision: "case om_get ?ts ?i of None \<Rightarrow> task_revision t = 1 | Some prior \<Rightarrow> task_revision t = task_revision prior + 1"
    and graph: "assert_task_graph_candidate ?ts t = Inr ()"
    and st': "st' = st\<lparr>ts_next := next_number ?i (ts_next st), ts_tasks := om_set ?i t ?ts\<rparr>"
    by (simp_all add: apply_task_Inr)
  have story: "task_story (task_history i bs) (om_get ?ts i)" for i using h by (simp add: tasks_told_def)
  have wf: "tasks_wf ?ts" and below: "numbers_below ?ts (ts_next st)" using h by (simp_all add: tasks_told_def)
  have "task_story (task_history ?i bs @ [t]) (Some t)"
    using story [of ?i] revision task_story_new task_story_next by (cases "om_get ?ts ?i") simp_all
  moreover have "numbers_below (om_set ?i t ?ts) (next_number ?i (ts_next st))"
  proof -
    have b: "1 \<le> ts_next st" "ts_next st \<le> max_safe"
      "\<And>i u k. om_get ?ts i = Some u \<Longrightarrow> task_number i = Some k \<Longrightarrow> int k < ts_next st \<or> int k = max_safe"
      using below by (auto simp: numbers_below_def)
    note n = next_number_bounds [OF valid b(1,2)]
    have "int k < next_number ?i (ts_next st) \<or> int k = max_safe"
      if "om_get (om_set ?i t ?ts) i = Some u" "task_number i = Some k" for i u k
    proof (cases "i = ?i")
      case True
      with n that(2) show ?thesis by blast
    next
      case False
      with that(1) have "om_get ?ts i = Some u" by simp
      from b(3) [OF this that(2)] n show ?thesis by auto
    qed
    moreover have "1 \<le> next_number ?i (ts_next st)" "next_number ?i (ts_next st) \<le> max_safe" using n b(1) by simp_all
    ultimately show ?thesis unfolding numbers_below_def by blast
  qed
  ultimately show ?thesis
    using story tasks_wf_set [OF wf, of t] candidate_accepted_iff [OF wf, of t] graph
    by (simp add: tasks_told_def st' histories_snoc)
qed

lemma apply_member_Inr:
  "apply_member m st = Inr st' \<longleftrightarrow>
     (om_get (ts_names st) (mb_name m) = None \<or> om_get (ts_names st) (mb_name m) = Some (mb_id m)) \<and>
     (case om_get (ts_members st) (mb_id m) of
        None \<Rightarrow> mb_phase m = PhaseProvisioning \<and>
          st' = st\<lparr>ts_names := om_set (mb_name m) (mb_id m) (ts_names st), ts_members := om_set (mb_id m) m (ts_members st)\<rparr>
      | Some prior \<Rightarrow> same_member prior m \<and> mb_phase prior = PhaseProvisioning \<and> mb_phase m \<noteq> PhaseProvisioning \<and>
          st' = st\<lparr>ts_members := om_set (mb_id m) m (ts_members st)\<rparr>)"
  by (auto simp: apply_member_def same_member_def split: option.splits if_splits)

lemma member_story_None: "member_story h None \<longleftrightarrow> h = []"
  by (auto simp: member_story_def split: list.splits)

lemma member_story_open: "member_story h (Some a) \<Longrightarrow> mb_phase a = PhaseProvisioning \<Longrightarrow> h = [a]"
  by (auto simp: member_story_def split: list.splits)

lemma members_told_step:
  assumes h: "members_told bs st" and m: "apply_member m st = Inr st'"
  shows "members_told (bs @ [TeamMember m]) st'"
proof -
  let ?ms = "ts_members st" and ?i = "mb_id m" and ?n = "mb_name m"
  have story: "member_story (member_history i bs) (om_get ?ms i)" for i using h by (simp add: members_told_def)
  have wf: "om_wf ?ms" and exact: "names_exact st" using h by (simp_all add: members_told_def)
  have named: "om_get (ts_names st) ?n = None \<or> om_get (ts_names st) ?n = Some ?i" using m by (simp add: apply_member_Inr)
  show ?thesis
  proof (cases "om_get ?ms ?i")
    case None
    with m have st': "mb_phase m = PhaseProvisioning"
      "st' = st\<lparr>ts_names := om_set ?n ?i (ts_names st), ts_members := om_set ?i m ?ms\<rparr>" by (auto simp: apply_member_Inr)
    have fresh: "om_get (ts_names st) ?n = None" using named None exact by (auto simp: names_exact_def)
    have names: "om_get (ts_names st) n = Some i \<longleftrightarrow> (\<exists>x. om_get ?ms i = Some x \<and> mb_name x = n)"
      and ids: "om_get ?ms i = Some x \<Longrightarrow> mb_id x = i" for n i x
      using exact by (simp_all add: names_exact_def)
    have unnamed: "om_get ?ms i = Some x \<Longrightarrow> mb_name x \<noteq> ?n" for i x
      using fresh names [of ?n i] by auto
    have "om_get (ts_names st') n = Some i \<longleftrightarrow> (\<exists>x. om_get (ts_members st') i = Some x \<and> mb_name x = n)" for n i
      using names [of n i] unnamed [of i] None by (auto simp: st'(2))
    then have "names_exact st'" using ids unfolding names_exact_def by (simp add: st'(2))
    moreover have "member_story (member_history ?i bs @ [m]) (Some m)"
      using story [of ?i] None st'(1) by (simp add: member_story_None) (simp add: member_story_def)
    ultimately show ?thesis using story wf by (simp add: members_told_def st'(2) histories_snoc)
  next
    case (Some prior)
    with m have p: "same_member prior m" "mb_phase prior = PhaseProvisioning" "mb_phase m \<noteq> PhaseProvisioning"
      "st' = st\<lparr>ts_members := om_set ?i m ?ms\<rparr>" by (auto simp: apply_member_Inr)
    have "member_history ?i bs = [prior]" using story [of ?i] Some p(2) by (intro member_story_open) simp_all
    then have "member_story (member_history ?i bs @ [m]) (Some m)" using p by (simp add: member_story_def)
    moreover have "names_exact st'"
    proof -
      have same: "mb_name m = mb_name prior" using p(1) by (simp add: same_member_def)
      have "(\<exists>x. om_get (om_set ?i m ?ms) i = Some x \<and> mb_name x = n) \<longleftrightarrow> (\<exists>x. om_get ?ms i = Some x \<and> mb_name x = n)" for i n
        using Some same by auto
      with exact show ?thesis unfolding names_exact_def p(4) by simp
    qed
    ultimately show ?thesis using story wf by (simp add: members_told_def p(4) histories_snoc)
  qed
qed

lemma mail_told_queued:
  assumes "mail_told bs st" and "apply_queued m st = Inr st'"
  shows "mail_told (bs @ [MessageQueued m]) st'"
proof -
  have new: "om_get (ts_messages st) (qm_id m) = None"
    and st': "st' = st\<lparr>ts_messages := om_set (qm_id m) m (ts_messages st)\<rparr>"
    using assms(2) by (auto simp: apply_queued_def split: if_splits)
  have unqueued: "qm_id m \<notin> set (om_keys (ts_messages st))" using new by (simp add: om_keys_get)
  have sent: "\<exists>x. om_get (ts_messages st') i = Some x \<and> qm_target x = target"
    if "MessageDelivered i target \<in> set bs" for i target
  proof -
    from that assms(1) obtain x where "om_get (ts_messages st) i = Some x" "qm_target x = target"
      unfolding mail_told_def by blast
    with new show ?thesis by (auto simp: st')
  qed
  show ?thesis
    using assms(1) sent unqueued unfolding mail_told_def
    by (auto simp: st' histories_snoc om_keys_set)
qed

lemma mail_told_delivered:
  assumes "mail_told bs st" and "apply_delivered i target st = Inr st'"
  shows "mail_told (bs @ [MessageDelivered i target]) st'"
  using assms by (auto simp: mail_told_def apply_delivered_def histories_snoc split: option.splits if_splits)

text \<open>The parts of the state that a record leaves alone keep their story.\<close>

lemma told_cong:
  "(\<And>i. task_history i bs' = task_history i bs) \<Longrightarrow> ts_tasks st' = ts_tasks st \<Longrightarrow> ts_next st' = ts_next st \<Longrightarrow>
     tasks_told bs' st' = tasks_told bs st"
  "(\<And>i. member_history i bs' = member_history i bs) \<Longrightarrow> ts_members st' = ts_members st \<Longrightarrow> ts_names st' = ts_names st \<Longrightarrow>
     members_told bs' st' = members_told bs st"
  by (simp_all add: tasks_told_def members_told_def names_exact_def)

lemma mail_told_other:
  assumes "mail_told bs st" and "(\<nexists>m. b = MessageQueued m) \<and> (\<nexists>i target. b = MessageDelivered i target)"
    and "ts_messages st' = ts_messages st" and "ts_delivered st' = ts_delivered st"
  shows "mail_told (bs @ [b]) st'"
  using assms by (cases b) (auto simp: mail_told_def histories_snoc)

lemma body_step:
  assumes "tasks_told bs st \<and> members_told bs st \<and> mail_told bs st" and "body_valid b" and "apply_body b st = Inr st'"
  shows "tasks_told (bs @ [b]) st' \<and> members_told (bs @ [b]) st' \<and> mail_told (bs @ [b]) st' \<and> ts_id st' = ts_id st"
proof (cases b)
  case (TeamMember m)
  with assms(3) have a: "apply_member m st = Inr st'" by simp
  then have "ts_tasks st' = ts_tasks st" "ts_next st' = ts_next st" "ts_messages st' = ts_messages st"
    "ts_delivered st' = ts_delivered st" "ts_id st' = ts_id st"
    by (auto simp: apply_member_Inr split: option.splits)
  note same = this
  have "tasks_told (bs @ [b]) st'"
    using assms(1) same told_cong(1) [of "bs @ [b]" bs st' st] by (simp add: histories_snoc TeamMember)
  moreover have "mail_told (bs @ [b]) st'"
    using assms(1) same by (intro mail_told_other [of bs st]) (simp_all add: TeamMember)
  ultimately show ?thesis using assms(1) members_told_step [OF _ a] same TeamMember by simp
next
  case (TeamTask t)
  with assms(2,3) have a: "apply_task t st = Inr st'" "task_id_valid (task_id t)" by simp_all
  then have "ts_members st' = ts_members st" "ts_names st' = ts_names st" "ts_messages st' = ts_messages st"
    "ts_delivered st' = ts_delivered st" "ts_id st' = ts_id st"
    by (auto simp: apply_task_Inr)
  note same = this
  have "members_told (bs @ [b]) st'"
    using assms(1) same told_cong(2) [of "bs @ [b]" bs st' st] by (simp add: histories_snoc TeamTask)
  moreover have "mail_told (bs @ [b]) st'"
    using assms(1) same by (intro mail_told_other [of bs st]) (simp_all add: TeamTask)
  ultimately show ?thesis using assms(1) tasks_told_step [OF _ a] same TeamTask by simp
next
  case (MessageQueued m)
  with assms(3) have a: "apply_queued m st = Inr st'" by simp
  then have "ts_tasks st' = ts_tasks st" "ts_next st' = ts_next st" "ts_members st' = ts_members st" "ts_names st' = ts_names st"
    "ts_id st' = ts_id st"
    by (auto simp: apply_queued_def split: if_splits)
  note same = this
  have "tasks_told (bs @ [b]) st'" "members_told (bs @ [b]) st'"
    using assms(1) same told_cong [of "bs @ [b]" bs st' st] by (simp_all add: histories_snoc MessageQueued)
  then show ?thesis using assms(1) mail_told_queued [OF _ a] same MessageQueued by simp
next
  case (MessageDelivered i target)
  with assms(3) have a: "apply_delivered i target st = Inr st'" by simp
  then have "ts_tasks st' = ts_tasks st" "ts_next st' = ts_next st" "ts_members st' = ts_members st" "ts_names st' = ts_names st"
    "ts_id st' = ts_id st"
    by (auto simp: apply_delivered_def split: if_splits option.splits)
  note same = this
  have "tasks_told (bs @ [b]) st'" "members_told (bs @ [b]) st'"
    using assms(1) same told_cong [of "bs @ [b]" bs st' st] by (simp_all add: histories_snoc MessageDelivered)
  then show ?thesis using assms(1) mail_told_delivered [OF _ a] same MessageDelivered by simp
qed

lemma team_history_step:
  assumes h: "team_history lead evs st" and s: "apply_team_event st e = Inr st'"
  shows "team_history lead (evs @ [e]) st'"
proof (cases "\<exists>r. ev_data e = PluginEvent (TeamRecord r) \<and> rec_version r = 1 \<and> rec_team r = lead")
  case True
  then obtain r where r: "ev_data e = PluginEvent (TeamRecord r)" "rec_version r = 1" "rec_team r = lead" by blast
  with h s have "body_valid (rec_body r)" "apply_body (rec_body r) st = Inr st'"
    by (auto simp: apply_team_event_def apply_record_def team_history_def split: if_splits)
  with body_step [of "team_bodies lead evs" st "rec_body r" st'] h r show ?thesis
    by (simp add: team_history_def team_bodies_snoc)
next
  case False
  then have "team_bodies lead (evs @ [e]) = team_bodies lead evs"
    by (auto simp: team_bodies_snoc split: event_data.splits team_payload.splits)
  moreover have "st' = st"
    using s False h by (auto simp: apply_team_event_def apply_record_def team_history_def split: event_data.splits team_payload.splits if_splits)
  ultimately show ?thesis using h by (simp add: team_history_def)
qed

lemma team_history_start: "team_history lead [] (empty_team lead)"
  by (simp add: team_history_def empty_team_def team_bodies_def map_filter_simps tasks_told_def members_told_def mail_told_def
      task_history_def member_history_def queued_ids_def delivered_ids_def om_keys_def task_story_def member_story_def names_exact_def
      sound_graph_def waits_for_def numbers_below_def max_safe_def acyclic_def)

interpretation team: replayed apply_team_event "empty_team lead" "team_history lead"
  by unfold_locales (simp_all add: team_history_start team_history_step)

end
