(* ===== verification/Team_Board.thy ===== *)
theory Team_Board
  imports Team_Fold
begin

text \<open>
  The shared task board of an agent team (\<open>packages/experimental/agent-team/src/task-board.ts\<close>, \<open>validation.ts\<close>,
  \<open>journal.ts\<close>, and \<open>resolveActiveMember\<close> of \<open>roster.ts\<close>): every command folds the Lead's log, checks the
  request against it and appends one task record to the same log. The journal runs the commands of one team one
  after the other, so a command is one operation on the Lead's session; whether the flush succeeds is an argument.
\<close>

section \<open>Input normalization\<close>

datatype team_error =
    TaskLimit
  | TaskNotFound
  | StaleRevision
  | TaskIsDeleted
  | Unauthorized
  | AlreadyClaimed
  | TaskBlocked
  | InvalidTransition
  | InvalidArgument
  | DependencyCycle
  | InvalidWriteScope
  | LeadRequired
  | MemberNotFound
  | HasDependents
  | ReplayFailed team_fold_error
  | AppendFailed session_error
  | FlushFailed string

definition required_text :: "string \<Rightarrow> nat \<Rightarrow> team_error + string" where
  "required_text v most = (let t = js_trim v in
     if t = [] then Inl InvalidArgument else if length t > most then Inl InvalidArgument else Inr t)"

fun split_slash :: "string \<Rightarrow> string list" where
  "split_slash [] = [[]]"
| "split_slash (c # cs) = (if c = CHR ''/'' then [] # split_slash cs
     else case split_slash cs of [] \<Rightarrow> [[c]] | w # ws \<Rightarrow> (c # w) # ws)"

definition is_letter :: "char \<Rightarrow> bool" where
  "is_letter c \<longleftrightarrow> is_lower c \<or> CHR ''A'' \<le> c \<and> c \<le> CHR ''Z''"

definition drive_prefix :: "string \<Rightarrow> bool" where
  "drive_prefix s \<longleftrightarrow> (case s of c # d # _ \<Rightarrow> is_letter c \<and> d = CHR '':'' | _ \<Rightarrow> False)"

definition normal_scope :: "string \<Rightarrow> string" where
  "normal_scope v =
     (let slashed = map (\<lambda>c. if c = CHR 0x5C then CHR ''/'' else c) v;
          undotted = (if take 2 slashed = ''./'' then drop 2 slashed else slashed)
      in rev (dropWhile (\<lambda>c. c = CHR ''/'') (rev undotted)))"

definition bad_scope :: "string \<Rightarrow> bool" where
  "bad_scope s \<longleftrightarrow> s = [] \<or> take 1 s = ''/'' \<or> drive_prefix s \<or>
     list_ex (\<lambda>w. w = [] \<or> w = ''.'' \<or> w = ''..'') (split_slash s)"

definition write_scope :: "string \<Rightarrow> team_error + string" where
  "write_scope v = (let s = normal_scope v in if bad_scope s then Inl InvalidWriteScope else Inr s)"

text \<open>\<open>[...new Set(values)]\<close>\<close>

definition as_set :: "'a list \<Rightarrow> 'a list" where
  "as_set xs = rev (remdups (rev xs))"

definition write_scopes :: "string list \<Rightarrow> team_error + string list" where
  "write_scopes vs = rbind (traverse write_scope vs) (\<lambda>ss. Inr (as_set ss))"

definition starts_with :: "string \<Rightarrow> string \<Rightarrow> bool" where
  "starts_with s p \<longleftrightarrow> take (length p) s = p"

definition scopes_overlap :: "string \<Rightarrow> string \<Rightarrow> bool" where
  "scopes_overlap l r \<longleftrightarrow> l = r \<or> starts_with l (r @ ''/'') \<or> starts_with r (l @ ''/'')"

section \<open>Commands\<close>

record create_request =
  cr_subject :: string
  cr_description :: string
  cr_blocked :: "task_id list option"
  cr_scopes :: "string list option"

datatype task_action =
  ActClaim | ActRelease | ActEdit | ActSetDependencies | ActComplete | ActReopen | ActReassign | ActDelete

record update_request =
  ur_task :: task_id
  ur_expected :: int
  ur_action :: task_action
  ur_subject :: "string option"
  ur_description :: "string option"
  ur_blocked :: "task_id list option"
  ur_scopes :: "string list option"
  ur_owner :: "string option"

datatype team_role = RoleLead | RoleTeammate

record team_task_view =
  tv_id :: task_id
  tv_revision :: int
  tv_subject :: string
  tv_description :: string
  tv_status :: task_status
  tv_blocked :: "task_id list"
  tv_scopes :: "string list"
  tv_owner_name :: "string option"
  tv_ready :: bool
  tv_warnings :: "string list"

fun dependencies_loop :: "tasks \<Rightarrow> task_id option \<Rightarrow> task_id list \<Rightarrow> task_id list \<Rightarrow> team_error + task_id list" where
  "dependencies_loop ts self seen [] = Inr seen"
| "dependencies_loop ts self seen (i # is) =
     (if self = Some i then Inl DependencyCycle
      else if i \<in> set seen then Inl InvalidArgument
      else case om_get ts i of
        None \<Rightarrow> Inl TaskNotFound
      | Some t \<Rightarrow> if task_status t = TaskDeleted then Inl TaskNotFound else dependencies_loop ts self (seen @ [i]) is)"

definition dependencies :: "tasks \<Rightarrow> task_id option \<Rightarrow> task_id list \<Rightarrow> team_error + task_id list" where
  "dependencies ts self vs = dependencies_loop ts self [] vs"

fun graph_error :: "graph_violation \<Rightarrow> team_error" where
  "graph_error GraphMissing = TaskNotFound"
| "graph_error GraphDuplicate = InvalidArgument"
| "graph_error GraphCycle = DependencyCycle"

definition assert_task_graph :: "tasks \<Rightarrow> team_task \<Rightarrow> team_error + unit" where
  "assert_task_graph ts t = (case assert_task_graph_candidate ts t of Inl v \<Rightarrow> Inl (graph_error v) | Inr u \<Rightarrow> Inr u)"

definition task_ready :: "tasks \<Rightarrow> team_task \<Rightarrow> bool" where
  "task_ready ts t \<longleftrightarrow> list_all (\<lambda>i. map_option task_status (om_get ts i) = Some TaskCompleted) (task_blocked t)"

definition without_owner :: "team_task \<Rightarrow> team_task" where
  "without_owner t = t\<lparr>task_owner := None\<rparr>"

definition owner_name :: "session_id \<Rightarrow> team_state \<Rightarrow> team_task \<Rightarrow> string option" where
  "owner_name lead st t = (case task_owner t of
      None \<Rightarrow> None
    | Some i \<Rightarrow> if i = lead then Some ''lead'' else map_option mb_name (om_get (ts_members st) i))"

definition scope_warnings :: "tasks \<Rightarrow> team_task \<Rightarrow> string list" where
  "scope_warnings ts t = as_set (map (\<lambda>o'. ''write scopes overlap with '' @ task_id o')
     (filter (\<lambda>o'. task_id o' \<noteq> task_id t \<and> task_status o' = TaskInProgress \<and>
        list_ex (\<lambda>l. list_ex (scopes_overlap l) (task_scopes o')) (task_scopes t)) (map snd ts)))"

definition task_view :: "session_id \<Rightarrow> team_state \<Rightarrow> team_task \<Rightarrow> team_task_view" where
  "task_view lead st t =
     \<lparr>tv_id = task_id t, tv_revision = task_revision t, tv_subject = task_subject t, tv_description = task_description t,
      tv_status = task_status t, tv_blocked = task_blocked t, tv_scopes = task_scopes t,
      tv_owner_name = owner_name lead st t, tv_ready = (task_status t = TaskPending \<and> task_ready (ts_tasks st) t),
      tv_warnings = scope_warnings (ts_tasks st) t\<rparr>"

definition resolve_active_member :: "session_id \<Rightarrow> team_state \<Rightarrow> string \<Rightarrow> team_error + session_id \<times> string" where
  "resolve_active_member lead st raw = (let name = js_trim raw in
     if name = ''lead'' then Inr (lead, name)
     else case (case om_get (ts_names st) name of None \<Rightarrow> None | Some i \<Rightarrow> om_get (ts_members st) i) of
       None \<Rightarrow> Inl MemberNotFound
     | Some m \<Rightarrow> if mb_phase m \<noteq> PhaseActive then Inl MemberNotFound else Inr (mb_id m, name))"

subsection \<open>The journal\<close>

type_synonym 'a board = "(team_payload session, team_error, 'a) oper"

definition journal_state :: "team_state board" where
  "journal_state s = (s, case fold_team (ses_id s) (ses_log s) of Inl err \<Rightarrow> Inl (ReplayFailed err) | Inr st \<Rightarrow> Inr st)"

definition append_and_flush :: "int \<Rightarrow> string option \<Rightarrow> team_body \<Rightarrow> unit board" where
  "append_and_flush now flush b s =
     (case session_append now (PluginEvent (TeamRecord \<lparr>rec_version = 1, rec_team = ses_id s, rec_body = b\<rparr>)) no_intent s of
        (s', Inl err) \<Rightarrow> (s', Inl (AppendFailed err))
      | (s', Inr _) \<Rightarrow> (s', case flush of Some err \<Rightarrow> Inl (FlushFailed err) | None \<Rightarrow> Inr ()))"

subsection \<open>create, get, list\<close>

definition minted_task_id :: "team_state \<Rightarrow> task_id" where
  "minted_task_id st = task_prefix @ int_string (ts_next st)"

definition new_task :: "nat \<Rightarrow> create_request \<Rightarrow> team_state \<Rightarrow> team_error + team_task" where
  "new_task most req st =
     (let ts = ts_tasks st; i = minted_task_id st in
      if length (filter (\<lambda>p. task_active (snd p)) ts) \<ge> most then Inl TaskLimit
      else if om_get ts i \<noteq> None then Inl TaskLimit
      else
        rbind (required_text (cr_subject req) 200) (\<lambda>subject.
        rbind (required_text (cr_description req) 16384) (\<lambda>description.
        rbind (dependencies ts None (case cr_blocked req of None \<Rightarrow> [] | Some is \<Rightarrow> is)) (\<lambda>bs.
        rbind (write_scopes (case cr_scopes req of None \<Rightarrow> [] | Some ss \<Rightarrow> ss)) (\<lambda>ss.
        let t = \<lparr>task_id = i, task_revision = 1, task_subject = subject, task_description = description,
                 task_status = TaskPending, task_owner = None, task_blocked = bs, task_scopes = ss\<rparr> in
        rbind (assert_task_graph ts t) (\<lambda>_. Inr t))))))"

definition board_create :: "int \<Rightarrow> string option \<Rightarrow> nat \<Rightarrow> create_request \<Rightarrow> team_task_view board" where
  "board_create now flush most req =
     op_bind journal_state (\<lambda>st.
     op_bind (op_lift (new_task most req st)) (\<lambda>t.
     op_bind (append_and_flush now flush (TeamTask t)) (\<lambda>_.
     op_read (\<lambda>s. task_view (ses_id s) st t))))"

definition board_get :: "task_id \<Rightarrow> team_task_view board" where
  "board_get i =
     op_bind journal_state (\<lambda>st.
     case om_get (ts_tasks st) i of None \<Rightarrow> op_throw TaskNotFound | Some t \<Rightarrow> op_read (\<lambda>s. task_view (ses_id s) st t))"

definition board_list :: "team_task_view list board" where
  "board_list =
     op_bind journal_state (\<lambda>st.
     op_read (\<lambda>s. map (task_view (ses_id s) st) (filter task_active (map snd (ts_tasks st)))))"

subsection \<open>update\<close>

definition claimed :: "session_id \<Rightarrow> tasks \<Rightarrow> team_task \<Rightarrow> team_error + team_task" where
  "claimed caller ts t =
     (if task_owner t \<noteq> None \<and> task_owner t \<noteq> Some caller then Inl AlreadyClaimed
      else if task_status t \<noteq> TaskPending \<or> \<not> task_ready ts t then Inl TaskBlocked
      else Inr (t\<lparr>task_status := TaskInProgress, task_owner := Some caller\<rparr>))"

definition edited :: "update_request \<Rightarrow> team_task \<Rightarrow> team_error + team_task" where
  "edited req t =
     (if ur_subject req = None \<and> ur_description req = None \<and> ur_scopes req = None then Inl InvalidArgument
      else
        rbind (case ur_subject req of None \<Rightarrow> Inr (task_subject t) | Some v \<Rightarrow> required_text v 200) (\<lambda>subject.
        rbind (case ur_description req of None \<Rightarrow> Inr (task_description t) | Some v \<Rightarrow> required_text v 16384) (\<lambda>description.
        rbind (case ur_scopes req of None \<Rightarrow> Inr (task_scopes t) | Some vs \<Rightarrow> write_scopes vs) (\<lambda>ss.
        Inr (t\<lparr>task_subject := subject, task_description := description, task_scopes := ss\<rparr>)))))"

definition reassigned :: "session_id \<Rightarrow> update_request \<Rightarrow> team_state \<Rightarrow> team_task \<Rightarrow> team_error + team_task" where
  "reassigned lead req st t =
     (if task_status t \<noteq> TaskPending \<and> task_status t \<noteq> TaskInProgress then Inl InvalidTransition
      else if ur_owner req = None \<or> js_trim (the (ur_owner req)) = [] then Inr (without_owner (t\<lparr>task_status := TaskPending\<rparr>))
      else if \<not> task_ready (ts_tasks st) t then Inl TaskBlocked
      else rbind (resolve_active_member lead st (the (ur_owner req))) (\<lambda>(i, _).
        Inr (t\<lparr>task_status := TaskInProgress, task_owner := Some i\<rparr>)))"

definition removed :: "tasks \<Rightarrow> team_task \<Rightarrow> team_error + team_task" where
  "removed ts t =
     (if list_ex (\<lambda>o'. task_active o' \<and> task_id o' \<noteq> task_id t \<and> task_id t \<in> set (task_blocked o')) (map snd ts)
      then Inl HasDependents else Inr (t\<lparr>task_status := TaskDeleted\<rparr>))"

definition transition :: "session_id \<Rightarrow> session_id \<Rightarrow> team_role \<Rightarrow> update_request \<Rightarrow> team_state \<Rightarrow> team_task \<Rightarrow> team_error + team_task" where
  "transition lead caller role req st t =
     (let authorize = require (role = RoleLead \<or> task_owner t = Some caller) Unauthorized in
      case ur_action req of
        ActClaim \<Rightarrow> claimed caller (ts_tasks st) t
      | ActRelease \<Rightarrow>
          rbind authorize (\<lambda>_.
          rbind (require (task_status t = TaskInProgress) InvalidTransition) (\<lambda>_. Inr (without_owner (t\<lparr>task_status := TaskPending\<rparr>))))
      | ActEdit \<Rightarrow> rbind authorize (\<lambda>_. edited req t)
      | ActSetDependencies \<Rightarrow>
          rbind authorize (\<lambda>_. case ur_blocked req of
              None \<Rightarrow> Inl InvalidArgument
            | Some vs \<Rightarrow> rbind (dependencies (ts_tasks st) (Some (task_id t)) vs) (\<lambda>bs. Inr (t\<lparr>task_blocked := bs\<rparr>)))
      | ActComplete \<Rightarrow>
          rbind authorize (\<lambda>_.
          rbind (require (task_status t = TaskInProgress) InvalidTransition) (\<lambda>_. Inr (t\<lparr>task_status := TaskCompleted\<rparr>)))
      | ActReopen \<Rightarrow>
          rbind authorize (\<lambda>_.
          rbind (require (task_status t = TaskCompleted) InvalidTransition) (\<lambda>_. Inr (without_owner (t\<lparr>task_status := TaskPending\<rparr>))))
      | ActReassign \<Rightarrow> rbind (require (role = RoleLead) LeadRequired) (\<lambda>_. reassigned lead req st t)
      | ActDelete \<Rightarrow> rbind authorize (\<lambda>_. removed (ts_tasks st) t))"

definition updated_task ::
    "session_id \<Rightarrow> session_id \<Rightarrow> team_role \<Rightarrow> update_request \<Rightarrow> team_state \<Rightarrow> team_error + team_task" where
  "updated_task lead caller role req st =
     (case om_get (ts_tasks st) (ur_task req) of
        None \<Rightarrow> Inl TaskNotFound
      | Some t \<Rightarrow>
          if task_revision t \<noteq> ur_expected req then Inl StaleRevision
          else if task_status t = TaskDeleted then Inl TaskIsDeleted
          else
            rbind (transition lead caller role req st t) (\<lambda>n.
            let t' = n\<lparr>task_revision := task_revision t + 1\<rparr> in
            rbind (assert_task_graph (ts_tasks st) t') (\<lambda>_. Inr t')))"

definition board_update :: "int \<Rightarrow> string option \<Rightarrow> session_id \<Rightarrow> team_role \<Rightarrow> update_request \<Rightarrow> team_task_view board" where
  "board_update now flush caller role req =
     op_bind journal_state (\<lambda>st.
     op_bind (\<lambda>s. (s, updated_task (ses_id s) caller role req st)) (\<lambda>t.
     op_bind (append_and_flush now flush (TeamTask t)) (\<lambda>_.
     op_read (\<lambda>s. task_view (ses_id s) st t))))"

section \<open>What a command does to the log\<close>

datatype board_command = CreateTask nat create_request | UpdateTask session_id team_role update_request

fun run_command :: "int \<Rightarrow> string option \<Rightarrow> board_command \<Rightarrow> team_task_view board" where
  "run_command now flush (CreateTask most req) = board_create now flush most req"
| "run_command now flush (UpdateTask caller role req) = board_update now flush caller role req"

text \<open>The task a command is about to record.\<close>

fun command_task :: "session_id \<Rightarrow> board_command \<Rightarrow> team_state \<Rightarrow> team_error + team_task" where
  "command_task lead (CreateTask most req) st = new_task most req st"
| "command_task lead (UpdateTask caller role req) st = updated_task lead caller role req st"

fun command_caller :: "board_command \<Rightarrow> session_id option" where
  "command_caller (CreateTask most req) = None"
| "command_caller (UpdateTask caller role req) = Some caller"

definition team_event :: "int \<Rightarrow> team_body \<Rightarrow> team_payload session \<Rightarrow> team_payload event" where
  "team_event now b s =
     log_event (int (length (ses_log s))) now (PluginEvent (TeamRecord \<lparr>rec_version = 1, rec_team = ses_id s, rec_body = b\<rparr>))"

definition commits :: "int \<Rightarrow> team_body \<Rightarrow> team_payload session \<Rightarrow> team_payload session \<Rightarrow> bool" where
  "commits now b s s' \<longleftrightarrow> ses_log s' = ses_log s @ [team_event now b s] \<and> ses_id s' = ses_id s \<and> session_ok s'"

lemma append_and_flush_commits:
  assumes "session_ok s" and "append_and_flush now flush b s = (s', r)"
  shows "commits now b s s'" and "r = (case flush of Some err \<Rightarrow> Inl (FlushFailed err) | None \<Rightarrow> Inr ())"
proof -
  let ?d = "PluginEvent (TeamRecord \<lparr>rec_version = 1, rec_team = ses_id s, rec_body = b\<rparr>)"
  have "\<not> is_surface_eligible_type ?d" by simp
  from append_log_only [OF assms(1) this, of now] obtain s1
    where "session_append now ?d no_intent s = (s1, Inr (log_event (int (length (ses_log s))) now ?d))" "session_ok s1"
      "ses_log s1 = ses_log s @ [log_event (int (length (ses_log s))) now ?d]" "ses_id s1 = ses_id s" by blast
  with assms(2) show "commits now b s s'" "r = (case flush of Some err \<Rightarrow> Inl (FlushFailed err) | None \<Rightarrow> Inr ())"
    by (simp_all add: append_and_flush_def commits_def team_event_def)
qed

lemma run_command_cases:
  assumes "session_ok s" and "run_command now flush c s = (s', r)"
  obtains (rejected) err where "s' = s" and "r = Inl err"
    and "\<And>st. fold_team (ses_id s) (ses_log s) = Inr st \<Longrightarrow> command_task (ses_id s) c st = Inl err"
  | (committed) st t where "fold_team (ses_id s) (ses_log s) = Inr st" and "command_task (ses_id s) c st = Inr t"
    and "commits now (TeamTask t) s s'"
    and "r = (case flush of Some err \<Rightarrow> Inl (FlushFailed err) | None \<Rightarrow> Inr (task_view (ses_id s) st t))"
proof (cases "fold_team (ses_id s) (ses_log s)")
  case (Inl err)
  with assms(2) rejected [of "ReplayFailed err"] show thesis
    by (cases c) (simp_all add: board_create_def board_update_def op_bind_def journal_state_def)
next
  case (Inr st)
  note st = Inr
  let ?run = "\<lambda>t. op_bind (append_and_flush now flush (TeamTask t)) (\<lambda>_. op_read (\<lambda>s. task_view (ses_id s) st t)) s"
  have run: "(case command_task (ses_id s) c st of Inl err \<Rightarrow> (s, Inl err) | Inr t \<Rightarrow> ?run t) = (s', r)"
    using assms(2) st by (cases c) (simp_all add: board_create_def board_update_def op_bind_def journal_state_def op_lift_def split: sum.splits)
  show thesis
  proof (cases "command_task (ses_id s) c st")
    case (Inl err)
    with run rejected [of err] st show thesis by simp
  next
    case (Inr t)
    obtain s1 q where a: "append_and_flush now flush (TeamTask t) s = (s1, q)" by (cases "append_and_flush now flush (TeamTask t) s")
    note c = append_and_flush_commits [OF assms(1) a]
    have "s' = s1 \<and> r = (case flush of Some err \<Rightarrow> Inl (FlushFailed err) | None \<Rightarrow> Inr (task_view (ses_id s) st t))"
      using run Inr a c by (cases flush) (auto simp: op_bind_def op_read_def commits_def)
    with committed [OF st Inr] c(1) show thesis by simp
  qed
qed

section \<open>What a foldable log says\<close>

lemma folded_history: "fold_team lead evs = Inr st \<Longrightarrow> team_history lead evs st"
  unfolding fold_team_def by (rule team.run_hist)

lemma in_task_history: "t \<in> set (task_history i bs) \<longleftrightarrow> TeamTask t \<in> set bs \<and> task_id t = i"
proof (induction bs rule: rev_induct)
  case (snoc b bs)
  then show ?case by (cases b) (auto simp: histories_snoc)
qed (simp add: task_history_def map_filter_simps)

lemma in_member_history: "m \<in> set (member_history i bs) \<longleftrightarrow> TeamMember m \<in> set bs \<and> mb_id m = i"
proof (induction bs rule: rev_induct)
  case (snoc b bs)
  then show ?case by (cases b) (auto simp: histories_snoc)
qed (simp add: member_history_def map_filter_simps)

lemma length_map_filter: "length (List.map_filter f xs) \<le> length xs"
  by (induction xs) (auto simp: map_filter_Cons split: option.splits)

lemma told_task:
  assumes h: "team_history lead evs st" and t: "om_get (ts_tasks st) i = Some t"
  shows "task_id t = i" and "body_valid (TeamTask t)" and "task_revision t = int (length (task_history i (team_bodies lead evs)))"
    and "task_revision t \<le> int (length evs)"
proof -
  let ?h = "task_history i (team_bodies lead evs)"
  have "task_story ?h (Some t)" using h t unfolding team_history_def tasks_told_def by metis
  then have ne: "?h \<noteq> []" and last: "t = last ?h" and revs: "map task_revision ?h = map int [1..<Suc (length ?h)]"
    by (auto simp: task_story_def split: if_splits)
  then have "t \<in> set ?h" by simp
  with h show "task_id t = i" "body_valid (TeamTask t)"
    unfolding team_history_def list_all_iff in_task_history by blast+
  have "task_revision t = last (map task_revision ?h)" using ne last by (simp add: last_map)
  also have "\<dots> = int (length ?h)" unfolding revs using ne by (cases "length ?h") (simp_all add: last_map)
  finally show rev: "task_revision t = int (length ?h)" .
  have "length ?h \<le> length (team_bodies lead evs)" unfolding task_history_def by (rule length_map_filter)
  moreover have "length (team_bodies lead evs) \<le> length evs" unfolding team_bodies_def by (rule length_map_filter)
  ultimately show "task_revision t \<le> int (length evs)" using rev by simp
qed

lemma told_member:
  assumes h: "team_history lead evs st" and m: "om_get (ts_members st) i = Some m"
  shows "mb_id m = i" and "i \<noteq> []"
proof -
  let ?h = "member_history i (team_bodies lead evs)"
  have "member_story ?h (Some m)" using h m unfolding team_history_def members_told_def by metis
  then have "m \<in> set ?h" by (auto simp: member_story_def split: list.splits)
  then have "TeamMember m \<in> set (team_bodies lead evs)" "mb_id m = i" by (simp_all add: in_member_history)
  moreover from this h have "body_valid (TeamMember m)" unfolding team_history_def list_all_iff by blast
  ultimately show "mb_id m = i" "i \<noteq> []" by auto
qed

lemma told_board:
  "team_history lead evs st \<Longrightarrow> tasks_wf (ts_tasks st) \<and> sound_graph (ts_tasks st) \<and> numbers_below (ts_tasks st) (ts_next st)"
  by (simp add: team_history_def tasks_told_def)

section \<open>What a command records\<close>

lemma minted_number: "0 \<le> ts_next st \<Longrightarrow> task_number (minted_task_id st) = Some (nat (ts_next st))"
  using nat_string_digits [of "nat (ts_next st)"]
  by (simp add: minted_task_id_def task_number_def task_prefix_def int_string_def digits_value_nat_string)

text \<open>The id of a new task is unused, unless the numbers are exhausted.\<close>

lemma minted_fresh:
  assumes "numbers_below (ts_tasks st) (ts_next st)" and "ts_next st < max_safe"
  shows "om_get (ts_tasks st) (minted_task_id st) = None"
proof (rule ccontr)
  have n: "1 \<le> ts_next st" using assms(1) by (simp add: numbers_below_def)
  assume "om_get (ts_tasks st) (minted_task_id st) \<noteq> None"
  then obtain t where "om_get (ts_tasks st) (minted_task_id st) = Some t" by blast
  moreover have "task_number (minted_task_id st) = Some (nat (ts_next st))" using n by (intro minted_number) simp
  ultimately have "int (nat (ts_next st)) < ts_next st \<or> int (nat (ts_next st)) = max_safe"
    using assms(1) unfolding numbers_below_def by blast
  with n assms(2) show False by simp
qed

lemma dependencies_loop_Inr:
  "dependencies_loop ts self seen is = Inr bs \<Longrightarrow>
     bs = seen @ is \<and> distinct is \<and> set is \<inter> set seen = {} \<and> (\<forall>i. self = Some i \<longrightarrow> i \<notin> set is) \<and> list_all (active_in ts) is"
  by (induction ts self seen "is" rule: dependencies_loop.induct)
    (auto simp: active_in_def split: if_splits option.splits)

lemma dependencies_Inr:
  "dependencies ts self is = Inr bs \<Longrightarrow>
     bs = is \<and> distinct is \<and> (\<forall>i. self = Some i \<longrightarrow> i \<notin> set is) \<and> list_all (active_in ts) is"
  using dependencies_loop_Inr [of ts self "[]" "is" bs] by (simp add: dependencies_def)

lemma assert_task_graph_Inr: "assert_task_graph ts t = Inr () \<longleftrightarrow> assert_task_graph_candidate ts t = Inr ()"
  by (auto simp: assert_task_graph_def split: sum.splits)

lemma resolve_Inr:
  "resolve_active_member lead st raw = Inr (i, n) \<Longrightarrow>
     i = lead \<or> (\<exists>j m. om_get (ts_members st) j = Some m \<and> mb_id m = i \<and> mb_phase m = PhaseActive)"
  by (auto simp: resolve_active_member_def Let_def split: if_splits option.splits)

lemmas transition_defs = transition_def claimed_def edited_def reassigned_def removed_def without_owner_def Let_def
  rbind_Inr_iff

lemma transition_frame:
  assumes "transition lead caller role req st t = Inr n"
  shows "task_id n = task_id t" and "task_revision n = task_revision t"
    and "task_blocked n = task_blocked t \<or> (\<exists>vs. dependencies (ts_tasks st) (Some (task_id t)) vs = Inr (task_blocked n))"
    and "task_owner n \<in> {None, task_owner t, Some caller, Some lead} \<or>
      (\<exists>j m. om_get (ts_members st) j = Some m \<and> task_owner n = Some (mb_id m))"
  using assms by (cases "ur_action req"; auto simp: transition_defs split: if_splits option.splits prod.splits dest: resolve_Inr)+

lemma active_valid:
  assumes "team_history lead evs st" and "list_all (active_in (ts_tasks st)) bs"
  shows "list_all task_id_valid bs"
  unfolding list_all_iff
proof
  fix b assume "b \<in> set bs"
  with assms(2) obtain t where "om_get (ts_tasks st) b = Some t" by (auto simp: list_all_iff active_in_def split: option.splits)
  from told_task(1,2) [OF assms(1) this] show "task_id_valid b" by simp
qed

lemma command_task_sound:
  assumes h: "team_history lead evs st" and c: "command_task lead c st = Inr t"
    and ids: "lead \<noteq> []" "command_caller c \<noteq> Some []" and room: "int (length evs) < max_safe"
  shows "body_valid (TeamTask t)" and "assert_task_graph_candidate (ts_tasks st) t = Inr ()"
    and "case om_get (ts_tasks st) (task_id t) of None \<Rightarrow> task_revision t = 1 | Some prior \<Rightarrow> task_revision t = task_revision prior + 1"
proof -
  have "body_valid (TeamTask t) \<and> assert_task_graph_candidate (ts_tasks st) t = Inr () \<and>
    (case om_get (ts_tasks st) (task_id t) of None \<Rightarrow> task_revision t = 1 | Some prior \<Rightarrow> task_revision t = task_revision prior + 1)"
  proof (cases c)
    case (CreateTask most req)
    with c obtain bs where t: "om_get (ts_tasks st) (minted_task_id st) = None" "task_id t = minted_task_id st" "task_revision t = 1"
      "task_owner t = None" "dependencies (ts_tasks st) None (case cr_blocked req of None \<Rightarrow> [] | Some is \<Rightarrow> is) = Inr bs"
      "task_blocked t = bs" "assert_task_graph_candidate (ts_tasks st) t = Inr ()"
      by (auto simp: new_task_def Let_def rbind_Inr_iff assert_task_graph_Inr split: if_splits)
    have "numbers_below (ts_tasks st) (ts_next st)" using told_board [OF h] by blast
    then have "task_id_valid (minted_task_id st)"
      using minted_number [of st] by (simp add: task_id_valid_def numbers_below_def) (simp add: minted_task_id_def task_prefix_def)
    moreover have "list_all task_id_valid bs" using dependencies_Inr [OF t(5)] active_valid [OF h] by simp
    ultimately show ?thesis using t by (simp add: max_safe_def)
  next
    case (UpdateTask caller role req)
    with c obtain p n where p: "om_get (ts_tasks st) (ur_task req) = Some p" and n: "transition lead caller role req st p = Inr n"
      and t: "t = n\<lparr>task_revision := task_revision p + 1\<rparr>" and g: "assert_task_graph_candidate (ts_tasks st) t = Inr ()"
      by (auto simp: updated_task_def Let_def rbind_Inr_iff assert_task_graph_Inr split: if_splits option.splits)
    note told = told_task [OF h p] and fr = transition_frame [OF n]
    have "list_all task_id_valid (task_blocked n)"
      using fr(3) told(2) dependencies_Inr active_valid [OF h] by fastforce
    moreover have "task_owner n \<noteq> Some []"
      using fr(4) told(2) ids UpdateTask told_member [OF h] by auto
    ultimately show ?thesis using t g p told fr room by simp
  qed
  then show "body_valid (TeamTask t)" "assert_task_graph_candidate (ts_tasks st) t = Inr ()"
    "case om_get (ts_tasks st) (task_id t) of None \<Rightarrow> task_revision t = 1 | Some prior \<Rightarrow> task_revision t = task_revision prior + 1"
    by blast+
qed

text \<open>The team state after a task record.\<close>

definition with_task :: "team_task \<Rightarrow> team_state \<Rightarrow> team_state" where
  "with_task t st = st\<lparr>ts_next := next_number (task_id t) (ts_next st), ts_tasks := om_set (task_id t) t (ts_tasks st)\<rparr>"

lemma committed_fold:
  assumes st: "fold_team (ses_id s) (ses_log s) = Inr st" and c: "command_task (ses_id s) c st = Inr t"
    and ids: "ses_id s \<noteq> []" "command_caller c \<noteq> Some []" and room: "int (length (ses_log s)) < max_safe"
    and commit: "commits now (TeamTask t) s s'"
  shows "fold_team (ses_id s') (ses_log s') = Inr (with_task t st)"
proof -
  note h = folded_history [OF st]
  note sound = command_task_sound [OF h c ids room]
  have "ts_id st = ses_id s" using h by (simp add: team_history_def)
  moreover have "apply_task t st = Inr (with_task t st)" using sound(2,3) by (simp add: apply_task_Inr with_task_def)
  ultimately have "apply_team_event st (team_event now (TeamTask t) s) = Inr (with_task t st)"
    using sound(1) ids(1) by (simp add: apply_team_event_def team_event_def apply_record_def max_safe_def)
  with st commit show ?thesis by (simp add: fold_team_def commits_def replay_snoc_Inr)
qed

section \<open>Write scopes\<close>

lemma split_slash_ne [simp]: "split_slash s \<noteq> []"
  by (induction s) (auto split: list.splits)

lemma split_slash_segments: "w \<in> set (split_slash s) \<Longrightarrow> CHR ''/'' \<notin> set w"
  by (induction s arbitrary: w) (auto split: list.splits if_splits)

text \<open>Joining the segments gives the path back, so a path is its segments.\<close>

fun join_slash :: "string list \<Rightarrow> string" where
  "join_slash [] = []"
| "join_slash [w] = w"
| "join_slash (w # v # ws) = w @ CHR ''/'' # join_slash (v # ws)"

lemma join_split: "join_slash (split_slash s) = s"
proof (induction s)
  case (Cons c cs)
  obtain w ws where w: "split_slash cs = w # ws" by (cases "split_slash cs") auto
  with Cons show ?case by (cases ws) auto
qed simp

lemma split_slash_append: "split_slash (s @ CHR ''/'' # r) = split_slash s @ split_slash r"
proof (induction s)
  case (Cons c cs)
  obtain w ws where "split_slash cs = w # ws" by (cases "split_slash cs") auto
  with Cons show ?case by auto
qed simp

definition below_or_same :: "string list \<Rightarrow> string list \<Rightarrow> bool" where
  "below_or_same inner outer \<longleftrightarrow> take (length outer) inner = outer"

lemma starts_with_path: "l = r \<or> starts_with l (r @ ''/'') \<longleftrightarrow> below_or_same (split_slash l) (split_slash r)"
proof
  assume "l = r \<or> starts_with l (r @ ''/'')"
  then show "below_or_same (split_slash l) (split_slash r)"
  proof
    assume "starts_with l (r @ ''/'')"
    then have "l = (r @ ''/'') @ drop (length (r @ ''/'')) l"
      unfolding starts_with_def by (metis append_take_drop_id)
    then obtain x where "l = r @ CHR ''/'' # x" by simp
    then show ?thesis by (simp add: split_slash_append below_or_same_def)
  qed (simp add: below_or_same_def)
next
  assume "below_or_same (split_slash l) (split_slash r)"
  then obtain ws where ws: "split_slash l = split_slash r @ ws"
    unfolding below_or_same_def by (metis append_take_drop_id)
  have "join_slash (vs @ w # ws) = join_slash vs @ CHR ''/'' # join_slash (w # ws)" if "vs \<noteq> []" for vs w ws
    using that by (induction vs rule: join_slash.induct) simp_all
  with ws have "l = r \<or> (\<exists>x. l = r @ CHR ''/'' # x)"
    by (cases ws) (metis append_Nil2 join_split, metis join_split split_slash_ne)
  then show "l = r \<or> starts_with l (r @ ''/'')" by (auto simp: starts_with_def)
qed

lemma normal_scope_ends: "set (normal_scope v) \<subseteq> - {CHR 0x5C}" "normal_scope v \<noteq> [] \<Longrightarrow> last (normal_scope v) \<noteq> CHR ''/''"
proof -
  let ?s = "map (\<lambda>c. if c = CHR 0x5C then CHR ''/'' else c) v"
  let ?u = "if take 2 ?s = ''./'' then drop 2 ?s else ?s"
  have "set ?u \<subseteq> set ?s" by (auto dest: in_set_dropD)
  moreover have "CHR 0x5C \<notin> set ?s" by auto
  moreover have "set (normal_scope v) \<subseteq> set ?u"
    unfolding normal_scope_def Let_def by (auto dest: set_dropWhileD)
  ultimately show "set (normal_scope v) \<subseteq> - {CHR 0x5C}" by blast
  assume "normal_scope v \<noteq> []"
  then show "last (normal_scope v) \<noteq> CHR ''/''"
    unfolding normal_scope_def Let_def last_rev rev_is_Nil_conv
    using hd_dropWhile [of "\<lambda>c. c = CHR ''/''"] by auto
qed

lemma write_scope_idem: "write_scope v = Inr s \<Longrightarrow> write_scope s = Inr s"
proof -
  assume v: "write_scope v = Inr s"
  then have s: "s = normal_scope v" and good: "\<not> bad_scope s"
    by (auto simp: write_scope_def Let_def split: if_splits)
  have chars: "map (\<lambda>c. if c = CHR 0x5C then CHR ''/'' else c) s = s"
    using normal_scope_ends(1) [of v] s by (auto intro!: map_idI)
  have "take 2 s \<noteq> ''./''"
  proof
    assume "take 2 s = ''./''"
    then have "s = ''.'' @ CHR ''/'' # drop 2 s" using append_take_drop_id [of 2 s] by simp
    then have "split_slash s = split_slash ''.'' @ split_slash (drop 2 s)" by (metis split_slash_append)
    then have "''.'' \<in> set (split_slash s)" by simp
    with good show False by (auto simp: bad_scope_def list_ex_iff)
  qed
  moreover have "s \<noteq> []" using good by (auto simp: bad_scope_def)
  moreover have "last s \<noteq> CHR ''/''" using normal_scope_ends(2) s calculation(2) by metis
  ultimately have "normal_scope s = s"
    unfolding normal_scope_def chars Let_def by (cases s rule: rev_cases) auto
  with good show ?thesis by (simp add: write_scope_def)
qed

section \<open>Boards kept by the commands\<close>

definition text_ok :: "string \<Rightarrow> nat \<Rightarrow> bool" where
  "text_ok s most \<longleftrightarrow> s \<noteq> [] \<and> length s \<le> most \<and> js_trim s = s"

text \<open>What every task the commands record is like.\<close>

definition board_task :: "team_task \<Rightarrow> bool" where
  "board_task t \<longleftrightarrow> text_ok (task_subject t) 200 \<and> text_ok (task_description t) 16384 \<and>
     distinct (task_scopes t) \<and> list_all (\<lambda>s. write_scope s = Inr s) (task_scopes t) \<and>
     (task_status t = TaskPending \<longrightarrow> task_owner t = None) \<and>
     (task_status t = TaskInProgress \<or> task_status t = TaskCompleted \<longrightarrow> task_owner t \<noteq> None)"

lemma required_text_Inr: "required_text v most = Inr t \<Longrightarrow> text_ok t most"
  by (auto simp: required_text_def text_ok_def Let_def split: if_splits)

lemma traverse_from: "traverse f xs = Inr ys \<Longrightarrow> y \<in> set ys \<Longrightarrow> \<exists>x \<in> set xs. f x = Inr y"
  by (induction xs arbitrary: ys) (auto simp: rbind_Inr_iff)

lemma write_scopes_Inr: "write_scopes vs = Inr ss \<Longrightarrow> distinct ss \<and> list_all (\<lambda>s. write_scope s = Inr s) ss"
proof -
  assume "write_scopes vs = Inr ss"
  then obtain ys where ys: "traverse write_scope vs = Inr ys" "ss = rev (remdups (rev ys))"
    by (auto simp: write_scopes_def as_set_def rbind_Inr_iff)
  then have "write_scope s = Inr s" if "s \<in> set ss" for s
    using traverse_from [OF ys(1), of s] that write_scope_idem by auto
  with ys(2) show ?thesis by (simp add: list_all_iff)
qed

lemma board_task_status:
  "board_task t \<Longrightarrow> board_task (t\<lparr>task_status := TaskInProgress, task_owner := Some i\<rparr>)"
  "board_task t \<Longrightarrow> board_task (without_owner (t\<lparr>task_status := TaskPending\<rparr>))"
  "board_task t \<Longrightarrow> task_status t = TaskInProgress \<Longrightarrow> board_task (t\<lparr>task_status := TaskCompleted\<rparr>)"
  "board_task t \<Longrightarrow> board_task (t\<lparr>task_status := TaskDeleted\<rparr>)"
  "board_task t \<Longrightarrow> board_task (t\<lparr>task_blocked := bs\<rparr>)"
  "board_task t \<Longrightarrow> board_task (t\<lparr>task_revision := n\<rparr>)"
  by (simp_all add: board_task_def without_owner_def)

lemma edited_board_task:
  assumes "edited req t = Inr n" and "board_task t"
  shows "board_task n"
proof -
  from assms(1) obtain u d ss where n: "n = t\<lparr>task_subject := u, task_description := d, task_scopes := ss\<rparr>"
    and u: "(case ur_subject req of None \<Rightarrow> Inr (task_subject t) | Some v \<Rightarrow> required_text v 200) = Inr u"
    and d: "(case ur_description req of None \<Rightarrow> Inr (task_description t) | Some v \<Rightarrow> required_text v 16384) = Inr d"
    and ss: "(case ur_scopes req of None \<Rightarrow> Inr (task_scopes t) | Some vs \<Rightarrow> write_scopes vs) = Inr ss"
    by (auto simp: edited_def rbind_Inr_iff split: if_splits)
  have "text_ok u 200" using u assms(2) required_text_Inr by (auto simp: board_task_def split: option.splits)
  moreover have "text_ok d 16384" using d assms(2) required_text_Inr by (auto simp: board_task_def split: option.splits)
  moreover have "distinct ss \<and> list_all (\<lambda>s. write_scope s = Inr s) ss"
    using ss assms(2) write_scopes_Inr by (cases "ur_scopes req") (simp_all add: board_task_def)
  ultimately show ?thesis using assms(2) by (simp add: n board_task_def)
qed

lemma transition_board_task:
  assumes n: "transition lead caller role req st t = Inr n" and t: "board_task t"
  shows "board_task n"
proof (cases "ur_action req")
  case ActEdit
  with n t show ?thesis by (auto simp: transition_def Let_def rbind_Inr_iff intro: edited_board_task)
next
  case ActReassign
  with n t show ?thesis
    by (auto simp: transition_def reassigned_def Let_def rbind_Inr_iff split: if_splits intro: board_task_status)
qed (use n t in \<open>auto simp: transition_def claimed_def removed_def Let_def rbind_Inr_iff
  split: if_splits option.splits intro: board_task_status\<close>)

definition active_count :: "tasks \<Rightarrow> nat" where
  "active_count ts = length (filter (\<lambda>p. task_active (snd p)) ts)"

text \<open>A sum over the values of a map, after a write.\<close>

definition om_total :: "('v \<Rightarrow> nat) \<Rightarrow> ('k, 'v) omap \<Rightarrow> nat" where
  "om_total f m = sum_list (map (\<lambda>p. f (snd p)) m)"

lemma om_total_set: "om_total f (om_set k v m) + (case om_get m k of None \<Rightarrow> 0 | Some w \<Rightarrow> f w) = om_total f m + f v"
  by (induction k v m rule: om_set.induct) (auto simp: om_total_def)

lemma active_count_total: "active_count ts = om_total (\<lambda>t. if task_active t then 1 else 0) ts"
  by (induction ts) (auto simp: active_count_def om_total_def)

lemma active_count_set:
  "active_count (om_set i t ts) + (case om_get ts i of None \<Rightarrow> 0 | Some p \<Rightarrow> if task_active p then 1 else 0)
     = active_count ts + (if task_active t then 1 else 0)"
  unfolding active_count_total by (rule om_total_set)

lemma command_board_task:
  assumes c: "command_task lead c st = Inr t" and board: "\<And>i p. om_get (ts_tasks st) i = Some p \<Longrightarrow> board_task p \<and> task_id p = i"
    and few: "active_count (ts_tasks st) \<le> most" and limit: "\<And>m req. c = CreateTask m req \<Longrightarrow> m = most"
  shows "board_task t" and "active_count (om_set (task_id t) t (ts_tasks st)) \<le> most"
proof -
  have "board_task t \<and> active_count (om_set (task_id t) t (ts_tasks st)) \<le> most"
  proof (cases c)
    case (CreateTask m req)
    with c limit have "active_count (ts_tasks st) < most" "om_get (ts_tasks st) (task_id t) = None"
      by (auto simp: new_task_def Let_def rbind_Inr_iff active_count_def split: if_splits)
    then have "active_count (om_set (task_id t) t (ts_tasks st)) \<le> most"
      using active_count_set [of "task_id t" t "ts_tasks st"] by (simp split: if_splits)
    moreover have "board_task t"
      using c CreateTask
      by (auto simp: new_task_def Let_def rbind_Inr_iff board_task_def split: if_splits dest: required_text_Inr write_scopes_Inr)
    ultimately show ?thesis by blast
  next
    case (UpdateTask caller role req)
    with c obtain p n where p: "om_get (ts_tasks st) (ur_task req) = Some p" "task_active p"
      and n: "transition lead caller role req st p = Inr n" and t: "t = n\<lparr>task_revision := task_revision p + 1\<rparr>"
      by (auto simp: updated_task_def Let_def rbind_Inr_iff split: if_splits option.splits)
    have "board_task t" using transition_board_task [OF n] board p(1) by (simp add: t board_task_def)
    moreover have "active_count (om_set (task_id t) t (ts_tasks st)) \<le> most"
      using active_count_set [of "task_id t" t "ts_tasks st"] few p board [OF p(1)] transition_frame(1) [OF n]
      by (simp add: t split: if_splits)
    ultimately show ?thesis by blast
  qed
  then show "board_task t" "active_count (om_set (task_id t) t (ts_tasks st)) \<le> most" by simp_all
qed

text \<open>
  The Lead's session as the team can have it: it starts without records of this team; then commands run, and
  anything else happens that records no task and leaves the log foldable (conversation, members, messages).
\<close>

inductive team_log :: "nat \<Rightarrow> team_payload session \<Rightarrow> bool" for most :: nat where
  team_start: "session_ok s \<Longrightarrow> ses_id s \<noteq> [] \<Longrightarrow> team_bodies (ses_id s) (ses_log s) = [] \<Longrightarrow>
     fold_team (ses_id s) (ses_log s) = Inr st \<Longrightarrow> team_log most s"
| team_command: "team_log most s \<Longrightarrow> run_command now flush c s = (s', r) \<Longrightarrow> command_caller c \<noteq> Some [] \<Longrightarrow>
     (\<And>m req. c = CreateTask m req \<Longrightarrow> m = most) \<Longrightarrow> int (length (ses_log s)) < max_safe \<Longrightarrow> team_log most s'"
| team_other: "team_log most s \<Longrightarrow> session_ok s' \<Longrightarrow> ses_id s' = ses_id s \<Longrightarrow> ses_log s' = ses_log s @ evs \<Longrightarrow>
     (\<And>t. TeamTask t \<notin> set (team_bodies (ses_id s) evs)) \<Longrightarrow> fold_team (ses_id s') (ses_log s') = Inr st \<Longrightarrow> team_log most s'"

definition board_ok :: "nat \<Rightarrow> team_state \<Rightarrow> bool" where
  "board_ok most st \<longleftrightarrow> (\<forall>i t. om_get (ts_tasks st) i = Some t \<longrightarrow> board_task t) \<and> active_count (ts_tasks st) \<le> most"

lemma team_bodies_append: "team_bodies lead (xs @ ys) = team_bodies lead xs @ team_bodies lead ys"
  by (simp add: team_bodies_def map_filter_append)

lemma apply_other_tasks:
  assumes "apply_team_event st e = Inr st'" and "\<And>t. TeamTask t \<notin> set (team_bodies (ts_id st) [e])"
  shows "ts_tasks st' = ts_tasks st \<and> ts_id st' = ts_id st"
proof (cases "\<exists>r. ev_data e = PluginEvent (TeamRecord r) \<and> rec_version r = 1 \<and> rec_team r = ts_id st")
  case True
  then obtain r where r: "ev_data e = PluginEvent (TeamRecord r)" "rec_version r = 1" "rec_team r = ts_id st" by blast
  with assms(1) have "apply_body (rec_body r) st = Inr st'"
    by (auto simp: apply_team_event_def apply_record_def split: if_splits)
  moreover have "team_bodies (ts_id st) [e] = [rec_body r]" using r by (simp add: team_bodies_def map_filter_simps)
  then have "rec_body r \<noteq> TeamTask t" for t using assms(2) [of t] by auto
  ultimately show ?thesis
    by (cases "rec_body r")
      (auto simp: apply_member_Inr apply_queued_def apply_delivered_def split: option.splits if_splits)
next
  case False
  with assms(1) have "st' = st"
    by (auto simp: apply_team_event_def apply_record_def split: event_data.splits team_payload.splits if_splits)
  then show ?thesis by simp
qed

lemma replay_other_tasks:
  "replay apply_team_event st evs = Inr st' \<Longrightarrow> (\<And>t. TeamTask t \<notin> set (team_bodies (ts_id st) evs)) \<Longrightarrow> ts_tasks st' = ts_tasks st"
proof (induction evs arbitrary: st)
  case (Cons e evs)
  have split: "team_bodies (ts_id st) (e # evs) = team_bodies (ts_id st) [e] @ team_bodies (ts_id st) evs"
    using team_bodies_append [of "ts_id st" "[e]" evs] by simp
  from Cons.prems(1) obtain m where m: "apply_team_event st e = Inr m" "replay apply_team_event m evs = Inr st'"
    by (auto simp: rbind_Inr_iff)
  with apply_other_tasks [OF m(1)] Cons.prems(2) split have "ts_tasks m = ts_tasks st" "ts_id m = ts_id st" by auto
  moreover from this Cons.prems(2) split have "\<And>t. TeamTask t \<notin> set (team_bodies (ts_id m) evs)" by auto
  ultimately show ?case using Cons.IH [OF m(2)] by simp
qed simp

lemma team_log_ok:
  "team_log most s \<Longrightarrow> session_ok s \<and> ses_id s \<noteq> [] \<and> (\<exists>st. fold_team (ses_id s) (ses_log s) = Inr st \<and> board_ok most st)"
proof (induction rule: team_log.induct)
  case (team_start s st)
  then have "team_history (ses_id s) (ses_log s) st" by (simp add: folded_history)
  with team_start(3) have "om_get (ts_tasks st) i = None" for i
    by (auto simp: team_history_def tasks_told_def task_history_def map_filter_simps task_story_def)
  then have "ts_tasks st = []" by (metis list.set_intros(1) map_of_eq_empty_iff ext)
  with team_start show ?case by (auto simp: board_ok_def active_count_def)
next
  case (team_command s now flush c s' r)
  then obtain st where st: "session_ok s" "ses_id s \<noteq> []" "fold_team (ses_id s) (ses_log s) = Inr st" "board_ok most st" by blast
  note told = told_task [OF folded_history [OF st(3)]]
  from st(1) team_command.hyps(2) show ?case
  proof (cases rule: run_command_cases)
    case (rejected err)
    with st show ?thesis by auto
  next
    case (committed st' t)
    with st(3) have t: "command_task (ses_id s) c st = Inr t" by simp
    have "fold_team (ses_id s') (ses_log s') = Inr (with_task t st)"
      by (rule committed_fold [OF st(3) t st(2) team_command.hyps(3) team_command.hyps(5) committed(3)])
    moreover have "board_ok most (with_task t st)"
      using command_board_task [OF t, of most] st(4) told(1) team_command.hyps(4)
      by (auto simp: board_ok_def with_task_def split: if_splits)
    ultimately show ?thesis using committed(3) st(2) by (auto simp: commits_def)
  qed
next
  case (team_other s s' evs st')
  then obtain st where st: "fold_team (ses_id s) (ses_log s) = Inr st" "board_ok most st" "ses_id s \<noteq> []" by blast
  then have i: "ts_id st = ses_id s" using folded_history by (auto simp: team_history_def)
  have "replay apply_team_event st evs = Inr st'"
    using team_other.hyps(3,4,6) st(1) by (simp add: fold_team_def replay_append)
  from replay_other_tasks [OF this] team_other.hyps(5) i have "ts_tasks st' = ts_tasks st" by simp
  with st team_other show ?case by (auto simp: board_ok_def)
qed

section \<open>Revisions only grow\<close>

lemma task_history_append: "task_history i (xs @ ys) = task_history i xs @ task_history i ys"
  by (simp add: task_history_def map_filter_append)

lemma revision_grows:
  assumes a: "fold_team lead xs = Inr a" and b: "fold_team lead (xs @ ys) = Inr b" and t: "om_get (ts_tasks a) i = Some t"
  obtains u where "om_get (ts_tasks b) i = Some u" and "task_revision t \<le> task_revision u"
proof -
  let ?h = "task_history i (team_bodies lead xs)" and ?g = "task_history i (team_bodies lead (xs @ ys))"
  have longer: "length ?h \<le> length ?g" by (simp add: team_bodies_append task_history_append)
  have "task_story ?h (Some t)"
    using folded_history [OF a] t unfolding team_history_def tasks_told_def by metis
  then have "?h \<noteq> []" by (auto simp: task_story_def split: if_splits)
  with longer have "?g \<noteq> []" by auto
  moreover have "task_story ?g (om_get (ts_tasks b) i)"
    using folded_history [OF b] unfolding team_history_def tasks_told_def by blast
  ultimately obtain u where u: "om_get (ts_tasks b) i = Some u" by (auto simp: task_story_def)
  with longer told_task(3) [OF folded_history [OF a] t] told_task(3) [OF folded_history [OF b] u] that show thesis by simp
qed

section \<open>Progress\<close>

definition task_open :: "team_task \<Rightarrow> bool" where
  "task_open t \<longleftrightarrow> task_status t = TaskPending \<or> task_status t = TaskInProgress"

text \<open>The commands an open task still needs: a claim and a completion.\<close>

fun status_work :: "task_status \<Rightarrow> nat" where
  "status_work TaskPending = 2"
| "status_work TaskInProgress = 1"
| "status_work TaskCompleted = 0"
| "status_work TaskDeleted = 0"

definition board_work :: "tasks \<Rightarrow> nat" where
  "board_work ts = om_total (\<lambda>t. status_work (task_status t)) ts"

lemma ready_open_task:
  assumes g: "sound_graph ts" and o: "om_get ts i = Some t" "task_open t"
  obtains j u where "om_get ts j = Some u" and "task_open u" and "task_ready ts u"
proof -
  let ?S = "{j. \<exists>u. om_get ts j = Some u \<and> task_open u}"
  have "acyclic (waits_for ts)" using g by (simp add: sound_graph_def)
  moreover have "i \<in> ?S" using o by blast
  ultimately have "\<exists>a \<in> ?S. \<forall>b \<in> ?S. (a, b) \<notin> waits_for ts" by (rule first_open_task)
  then obtain j where j: "j \<in> ?S" "\<forall>b \<in> ?S. (j, b) \<notin> waits_for ts" ..
  from j(1) obtain u where u: "om_get ts j = Some u" "task_open u" by blast
  have active: "task_active u" using u(2) by (auto simp: task_open_def)
  with g u have "blockers_sound ts u" unfolding sound_graph_def by blast
  have "map_option task_status (om_get ts b) = Some TaskCompleted" if b: "b \<in> set (task_blocked u)" for b
  proof -
    have "active_in ts b" using \<open>blockers_sound ts u\<close> b by (auto simp: blockers_sound_def list_all_iff)
    then obtain v where v: "om_get ts b = Some v" "task_active v" by (auto simp: active_in_def split: option.splits)
    have "(j, b) \<in> waits_for ts" using u active b by (auto simp: waits_for_def)
    with j(2) v have "\<not> task_open v" by blast
    with v show ?thesis by (cases "task_status v") (simp_all add: task_open_def)
  qed
  then have "task_ready ts u" by (simp add: task_ready_def list_all_iff)
  with u that show thesis by blast
qed

text \<open>A task that stays active with the same blockers keeps the graph.\<close>

lemma sound_graph_same_edges:
  assumes wf: "tasks_wf ts" and g: "sound_graph ts" and p: "om_get ts (task_id p) = Some p" "task_active p"
    and n: "task_id n = task_id p" "task_active n" "task_blocked n = task_blocked p"
  shows "sound_graph (om_set (task_id n) n ts)" and "active_in (om_set (task_id n) n ts) j = active_in ts j"
proof -
  let ?ts = "om_set (task_id n) n ts"
  have active: "active_in ?ts = active_in ts" using p n by (auto simp: active_in_def fun_eq_iff)
  have "waits_for ?ts = waits_for ts" using p n by (auto simp: waits_for_def split: if_splits)
  moreover have "blockers_sound ?ts u = blockers_sound ts u" for u by (simp add: blockers_sound_def active)
  moreover have "blockers_sound ?ts n = blockers_sound ts p" unfolding blockers_sound_def active using n by simp
  ultimately show "sound_graph ?ts" using g p n unfolding sound_graph_def by auto
  show "active_in ?ts j = active_in ts j" by (simp add: active)
qed

definition lead_update :: "session_id \<Rightarrow> team_task \<Rightarrow> task_action \<Rightarrow> board_command" where
  "lead_update lead t act = UpdateTask lead RoleLead
     \<lparr>ur_task = task_id t, ur_expected = task_revision t, ur_action = act, ur_subject = None, ur_description = None,
      ur_blocked = None, ur_scopes = None, ur_owner = None\<rparr>"

lemma lead_update_recorded:
  assumes h: "team_history lead evs st" and p: "om_get (ts_tasks st) i = Some p" and open': "task_open p"
    and n: "transition lead lead RoleLead \<lparr>ur_task = i, ur_expected = task_revision p, ur_action = act, ur_subject = None,
      ur_description = None, ur_blocked = None, ur_scopes = None, ur_owner = None\<rparr> st p = Inr n"
    and same: "task_active n" "task_blocked n = task_blocked p"
  shows "command_task lead (lead_update lead p act) st = Inr (n\<lparr>task_revision := task_revision p + 1\<rparr>)"
proof -
  let ?n = "n\<lparr>task_revision := task_revision p + 1\<rparr>"
  have i: "task_id p = i" by (rule told_task(1) [OF h p])
  have active: "task_active p" using open' by (auto simp: task_open_def)
  have wf: "tasks_wf (ts_tasks st)" and g: "sound_graph (ts_tasks st)" using told_board [OF h] by simp_all
  have "sound_graph (om_set (task_id ?n) ?n (ts_tasks st))"
    using sound_graph_same_edges(1) [OF wf g, of p ?n] p i active same transition_frame(1) [OF n] by simp
  then have "assert_task_graph (ts_tasks st) ?n = Inr ()"
    by (simp add: assert_task_graph_Inr candidate_accepted_iff [OF wf])
  with p n i active show ?thesis by (simp add: lead_update_def updated_task_def Let_def)
qed

text \<open>A ready open task can be claimed or completed by the Lead.\<close>

lemma lead_step:
  assumes h: "team_history lead evs st" and b: "board_ok most st" and p: "om_get (ts_tasks st) i = Some p"
    and open': "task_open p" and ready: "task_ready (ts_tasks st) p"
  obtains act n where "command_task lead (lead_update lead p act) st = Inr n"
    and "task_id n = i" and "task_active n" and "task_blocked n = task_blocked p"
    and "status_work (task_status n) < status_work (task_status p)"
proof (cases "task_status p")
  case TaskPending
  with b p have "task_owner p = None" by (auto simp: board_ok_def board_task_def)
  with lead_update_recorded [OF h p open', of ActClaim] told_task(1) [OF h p] TaskPending ready that show thesis
    by (simp add: transition_def claimed_def Let_def)
next
  case TaskInProgress
  with lead_update_recorded [OF h p open', of ActComplete] told_task(1) [OF h p] that show thesis
    by (simp add: transition_def Let_def require_def)
qed (use open' in \<open>simp_all add: task_open_def\<close>)

fun run_commands :: "int \<Rightarrow> board_command list \<Rightarrow> unit board" where
  "run_commands now [] = op_return ()"
| "run_commands now (c # cs) = op_bind (run_command now None c) (\<lambda>_. run_commands now cs)"

lemma run_recorded:
  assumes ok: "session_ok s" and st: "fold_team (ses_id s) (ses_log s) = Inr st" and t: "command_task (ses_id s) c st = Inr t"
  obtains s' where "run_command now None c s = (s', Inr (task_view (ses_id s) st t))" and "commits now (TeamTask t) s s'"
proof -
  obtain s' r where run: "run_command now None c s = (s', r)" by (cases "run_command now None c s")
  from ok run show thesis
  proof (cases rule: run_command_cases)
    case (rejected err)
    with st t show thesis by auto
  next
    case (committed st' t')
    with st t have "st' = st" "t' = t" by auto
    with committed(3,4) run that show thesis by simp
  qed
qed

lemma lead_step_run:
  assumes l: "team_log most s" and st: "fold_team (ses_id s) (ses_log s) = Inr st" and o: "om_get (ts_tasks st) i = Some t" "task_open t"
    and room: "int (length (ses_log s)) < max_safe"
  obtains c v s' st' where "run_command now None c s = (s', Inr v)" and "team_log most s'"
    and "fold_team (ses_id s') (ses_log s') = Inr st'" and "board_work (ts_tasks st') < board_work (ts_tasks st)"
    and "\<forall>j. active_in (ts_tasks st') j = active_in (ts_tasks st) j" and "length (ses_log s') = Suc (length (ses_log s))"
proof -
  note h = folded_history [OF st]
  from team_log_ok [OF l] st have ok: "session_ok s" and id: "ses_id s \<noteq> []" and b: "board_ok most st" by auto
  have wf: "tasks_wf (ts_tasks st)" and g: "sound_graph (ts_tasks st)" using told_board [OF h] by simp_all
  obtain j p where p: "om_get (ts_tasks st) j = Some p" "task_open p" "task_ready (ts_tasks st) p"
    using ready_open_task [OF g o] by blast
  obtain act n where n: "command_task (ses_id s) (lead_update (ses_id s) p act) st = Inr n"
    "task_id n = j" "task_active n" "task_blocked n = task_blocked p" "status_work (task_status n) < status_work (task_status p)"
    using lead_step [OF h b p] by blast
  let ?c = "lead_update (ses_id s) p act"
  obtain s' where run: "run_command now None ?c s = (s', Inr (task_view (ses_id s) st n))" and c: "commits now (TeamTask n) s s'"
    using run_recorded [OF ok st n(1)] by blast
  have caller: "command_caller ?c \<noteq> Some []" "\<And>m req. ?c = CreateTask m req \<Longrightarrow> m = most"
    using id by (simp_all add: lead_update_def)
  have st': "fold_team (ses_id s') (ses_log s') = Inr (with_task n st)"
    by (rule committed_fold [OF st n(1) id caller(1) room c])
  have "board_work (ts_tasks (with_task n st)) < board_work (ts_tasks st)"
    using om_total_set [of "\<lambda>t. status_work (task_status t)" j n "ts_tasks st"] p(1) n(2,5)
    by (simp add: board_work_def with_task_def)
  moreover have "active_in (ts_tasks (with_task n st)) i = active_in (ts_tasks st) i" for i
    using sound_graph_same_edges(2) [OF wf g, of p n i] p(1,2) n(2,3,4) told_task(1) [OF h p(1)]
    by (simp add: with_task_def task_open_def) (auto simp: task_open_def)
  moreover have "length (ses_log s') = Suc (length (ses_log s))" using c by (simp add: commits_def)
  ultimately show thesis using that [OF run team_command [OF l run caller room] st'] by simp
qed

lemma no_work_no_open: "board_work ts = 0 \<Longrightarrow> om_get ts i = Some t \<Longrightarrow> \<not> task_open t"
  by (induction ts) (auto simp: board_work_def om_total_def task_open_def split: if_splits)

lemma lead_finishes:
  assumes "team_log most s" and "fold_team (ses_id s) (ses_log s) = Inr st"
    and "int (length (ses_log s) + board_work (ts_tasks st)) < max_safe"
  shows "\<exists>cs s' st'. run_commands now cs s = (s', Inr ()) \<and> fold_team (ses_id s') (ses_log s') = Inr st' \<and>
    (\<forall>i. active_in (ts_tasks st') i = active_in (ts_tasks st) i) \<and> (\<forall>i t. om_get (ts_tasks st') i = Some t \<longrightarrow> \<not> task_open t)"
  using assms
proof (induction "board_work (ts_tasks st)" arbitrary: s st rule: less_induct)
  case less
  show ?case
  proof (cases "\<exists>i t. om_get (ts_tasks st) i = Some t \<and> task_open t")
    case False
    with less.prems(2) have "run_commands now [] s = (s, Inr ()) \<and> fold_team (ses_id s) (ses_log s) = Inr st \<and>
      (\<forall>i. active_in (ts_tasks st) i = active_in (ts_tasks st) i) \<and> (\<forall>i t. om_get (ts_tasks st) i = Some t \<longrightarrow> \<not> task_open t)"
      by (simp add: op_return_def)
    then show ?thesis by blast
  next
    case True
    then obtain i t where o: "om_get (ts_tasks st) i = Some t" "task_open t" by blast
    have room: "int (length (ses_log s)) < max_safe" using less.prems(3) by simp
    obtain c v s1 st1 where c: "run_command now None c s = (s1, Inr v)" "team_log most s1"
      "fold_team (ses_id s1) (ses_log s1) = Inr st1" "board_work (ts_tasks st1) < board_work (ts_tasks st)"
      "\<forall>j. active_in (ts_tasks st1) j = active_in (ts_tasks st) j" "length (ses_log s1) = Suc (length (ses_log s))"
      by (rule lead_step_run [OF less.prems(1,2) o room, where now = now])
    have "int (length (ses_log s1) + board_work (ts_tasks st1)) < max_safe" using c(4,6) less.prems(3) by simp
    from less.hyps [OF c(4,2,3) this] obtain cs s' st' where d: "run_commands now cs s1 = (s', Inr ())"
      "fold_team (ses_id s') (ses_log s') = Inr st'" "\<forall>i. active_in (ts_tasks st') i = active_in (ts_tasks st1) i"
      "\<forall>i t. om_get (ts_tasks st') i = Some t \<longrightarrow> \<not> task_open t" by blast
    have "run_commands now (c # cs) s = (s', Inr ())" using c(1) d(1) by (simp add: op_bind_def)
    with d(2,3,4) c(5) show ?thesis by (intro exI [of _ "c # cs"] exI [of _ s'] exI [of _ st'] conjI) simp_all
  qed
qed

end
