(* ===== verification/Team_Outcome.thy ===== *)
theory Team_Outcome
  imports Team_Board
begin

text \<open>
  What the theories \<open>Team_Fold\<close> and \<open>Team_Board\<close> guarantee together: the replayed team state, the effect of a
  command on the Lead's log, the tasks a board can hold, and that a board can always be finished.
\<close>

section \<open>A sample team\<close>

definition demo_lead :: "team_payload session" where
  "demo_lead = (case new_session False 9 ''lead'' None None of Inr s \<Rightarrow> s | Inl _ \<Rightarrow> empty_session [] (blank_header []))"

definition demo_create :: "string \<Rightarrow> task_id list \<Rightarrow> board_command" where
  "demo_create subject bs = CreateTask 8 \<lparr>cr_subject = subject, cr_description = '' why '', cr_blocked = Some bs,
     cr_scopes = Some [''./src/'', ''src'']\<rparr>"

definition demo_two :: "team_payload session" where
  "demo_two = fst (run_commands 10 [demo_create ''ship'' [], demo_create ''test'' [''task-1'']] demo_lead)"

definition demo_update :: "task_id \<Rightarrow> int \<Rightarrow> task_action \<Rightarrow> update_request" where
  "demo_update i n act = \<lparr>ur_task = i, ur_expected = n, ur_action = act, ur_subject = None, ur_description = None,
     ur_blocked = None, ur_scopes = None, ur_owner = None\<rparr>"

definition demo_claim :: board_command where
  "demo_claim = UpdateTask ''m1'' RoleTeammate (demo_update ''task-1'' 1 ActClaim)"

definition demo_claimed :: "team_payload session" where
  "demo_claimed = fst (run_command 11 None demo_claim demo_two)"

lemma demo_lead_ok: "session_ok demo_lead"
proof -
  have "new_session False 9 ''lead'' None None = Inr demo_lead" by code_simp
  then show ?thesis by (rule new_session_ok)
qed

lemma demo_lead_log: "team_log 8 demo_lead"
proof -
  have "fold_team (ses_id demo_lead) (ses_log demo_lead) = Inr (empty_team ''lead'')"
    "ses_id demo_lead \<noteq> []" "team_bodies (ses_id demo_lead) (ses_log demo_lead) = []" by code_simp+
  then show ?thesis by (intro team_start [OF demo_lead_ok])
qed

lemma run_commands_log:
  "team_log most s \<Longrightarrow> run_commands now cs s = (s', r) \<Longrightarrow> list_all (\<lambda>c. command_caller c \<noteq> Some [] \<and>
     (case c of CreateTask m _ \<Rightarrow> m = most | _ \<Rightarrow> True)) cs \<Longrightarrow> int (length (ses_log s) + length cs) \<le> max_safe \<Longrightarrow> team_log most s'"
proof (induction cs arbitrary: s)
  case (Cons c cs)
  obtain s1 q where c: "run_command now None c s = (s1, q)" by (cases "run_command now None c s")
  have s1: "team_log most s1"
    by (rule team_command [OF Cons.prems(1) c]) (use Cons.prems(3,4) in \<open>auto split: board_command.splits\<close>)
  from team_log_ok [OF Cons.prems(1)] have "length (ses_log s1) \<le> Suc (length (ses_log s))"
    using c by (auto elim!: run_command_cases simp: commits_def)
  with Cons.prems s1 c Cons.IH [OF s1] show ?case by (cases q) (auto simp: op_bind_def)
qed (simp add: op_return_def)

lemma demo_two_log: "team_log 8 demo_two"
proof -
  let ?cs = "[demo_create ''ship'' [], demo_create ''test'' [''task-1'']]"
  have "length (ses_log demo_lead) = 0" by code_simp
  then show ?thesis
    using run_commands_log [OF demo_lead_log, of 10 ?cs demo_two "snd (run_commands 10 ?cs demo_lead)"]
    by (simp add: demo_two_def demo_create_def max_safe_def del: run_commands.simps)
qed

section \<open>Properties\<close>

text \<open>
  Every log the team fold accepts tells its story: the records of this team are valid; the revisions of each
  task count from 1 and its newest record is current; the graph of the active tasks is sound; task numbers grow;
  every member is provisioned, keeps its identity and settles at most once, and names are unique; every message
  is queued once and delivered at most once, to the member it was queued for.
\<close>

theorem team_replay_tells_the_story:
  assumes "fold_team lead evs = Inr st"
  shows "team_history lead evs st"
  using assms unfolding fold_team_def by (rule team.run_hist)

theorem team_replay_tells_the_story_witness:
  "\<exists>st. team_history ''lead'' (ses_log demo_two) st \<and> map_option task_revision (om_get (ts_tasks st) ''task-1'') = Some 1 \<and> ts_next st = 3"
proof -
  have "case fold_team ''lead'' (ses_log demo_two) of Inl _ \<Rightarrow> False
    | Inr st \<Rightarrow> map_option task_revision (om_get (ts_tasks st) ''task-1'') = Some 1 \<and> ts_next st = 3" by code_simp
  then obtain st where "fold_team ''lead'' (ses_log demo_two) = Inr st"
    "map_option task_revision (om_get (ts_tasks st) ''task-1'') = Some 1 \<and> ts_next st = 3" by (auto split: sum.splits)
  with team_replay_tells_the_story show ?thesis by blast
qed

text \<open>
  C14: A command on a team's board either fails and leaves the Lead's session alone, or appends exactly one task
  record, after which the log still folds, to the state with that task in it; a failing flush is reported after
  the record was appended.
\<close>

theorem board_commands_keep_the_log_foldable:
  assumes "team_log most s" and "command_caller c \<noteq> Some []" and "int (length (ses_log s)) < max_safe"
    and "run_command now flush c s = (s', r)"
  shows "(s' = s \<and> \<not> ok r) \<or>
    (\<exists>st t. commits now (TeamTask t) s s' \<and> fold_team (ses_id s) (ses_log s) = Inr st \<and>
       fold_team (ses_id s') (ses_log s') = Inr (with_task t st) \<and>
       r = (case flush of Some err \<Rightarrow> Inl (FlushFailed err) | None \<Rightarrow> Inr (task_view (ses_id s) st t)))"
proof -
  from team_log_ok [OF assms(1)] have s: "session_ok s" "ses_id s \<noteq> []" by simp_all
  from s(1) assms(4) show ?thesis
  proof (cases rule: run_command_cases)
    case (committed st t)
    with committed_fold [OF committed(1,2) s(2) assms(2,3) committed(3)] show ?thesis by blast
  qed simp
qed

theorem board_commands_keep_the_log_foldable_witness:
  "\<exists>st. fold_team (ses_id demo_claimed) (ses_log demo_claimed) = Inr st \<and> length (ses_log demo_claimed) = Suc (length (ses_log demo_two))"
proof -
  have "command_caller demo_claim \<noteq> Some []" "int (length (ses_log demo_two)) < max_safe" by code_simp+
  moreover have "ok (snd (run_command 11 None demo_claim demo_two))" by code_simp
  ultimately show ?thesis
    using board_commands_keep_the_log_foldable [OF demo_two_log, of demo_claim 11 None demo_claimed "snd (run_command 11 None demo_claim demo_two)"]
    by (auto simp: demo_claimed_def commits_def)
qed

text \<open>
  C30: On a board kept by the commands every task is well formed - trimmed texts within their limits, normal write
  scopes without duplicates, an owner exactly while it is in progress or completed - and at most the configured
  number of tasks is active.
\<close>

theorem board_tasks_are_well_formed:
  assumes "team_log most s"
  shows "\<exists>st. fold_team (ses_id s) (ses_log s) = Inr st \<and> list_all (\<lambda>p. board_task (snd p)) (ts_tasks st) \<and>
    active_count (ts_tasks st) \<le> most"
proof -
  from team_log_ok [OF assms] obtain st where st: "fold_team (ses_id s) (ses_log s) = Inr st" "board_ok most st" by blast
  have "om_wf (ts_tasks st)" using told_board [OF folded_history [OF st(1)]] by (simp add: tasks_wf_def)
  with st(2) have "list_all (\<lambda>p. board_task (snd p)) (ts_tasks st)" by (auto simp: board_ok_def list_all_iff om_set_in)
  with st show ?thesis by (auto simp: board_ok_def)
qed

theorem board_tasks_are_well_formed_witness:
  "\<exists>st. fold_team (ses_id demo_two) (ses_log demo_two) = Inr st \<and> list_all (\<lambda>p. board_task (snd p)) (ts_tasks st)"
  using board_tasks_are_well_formed [OF demo_two_log] by blast

text \<open>
  A revision is updated at most once: after an update of a task was recorded, every later update of the same
  task that expects the same revision is refused as stale and changes nothing, whatever happened in between.
\<close>

theorem one_update_per_revision:
  assumes "team_log most s" and "int (length (ses_log s)) < max_safe" and "caller \<noteq> []"
    and "run_command now flush (UpdateTask caller role req) s = (s', r)" and "s' \<noteq> s"
    and "team_log most s2" and "ses_id s2 = ses_id s'" and "ses_log s2 = ses_log s' @ evs"
    and "ur_task req2 = ur_task req" and "ur_expected req2 = ur_expected req"
  shows "run_command now2 flush2 (UpdateTask caller2 role2 req2) s2 = (s2, Inl StaleRevision)"
proof -
  from team_log_ok [OF assms(1)] have s: "session_ok s" "ses_id s \<noteq> []" by simp_all
  from team_log_ok [OF assms(6)] obtain st2 where st2: "fold_team (ses_id s2) (ses_log s2) = Inr st2" by blast
  from s(1) assms(4) obtain st t where st: "fold_team (ses_id s) (ses_log s) = Inr st"
    and t: "command_task (ses_id s) (UpdateTask caller role req) st = Inr t" and c: "commits now (TeamTask t) s s'"
    by (cases rule: run_command_cases) (use assms(5) in simp_all)
  from t obtain p n where p: "om_get (ts_tasks st) (ur_task req) = Some p" and rev: "task_revision p = ur_expected req"
    and n: "transition (ses_id s) caller role req st p = Inr n" "t = n\<lparr>task_revision := task_revision p + 1\<rparr>"
    by (auto simp: updated_task_def Let_def rbind_Inr_iff split: option.splits if_splits)
  have id: "task_id t = ur_task req"
    using transition_frame(1) [OF n(1)] told_task(1) [OF folded_history [OF st] p] by (simp add: n(2))
  have "fold_team (ses_id s') (ses_log s') = Inr (with_task t st)"
    by (rule committed_fold [OF st t s(2) _ assms(2) c]) (use assms(3) in simp)
  then obtain u where u: "om_get (ts_tasks st2) (ur_task req) = Some u" "task_revision t \<le> task_revision u"
    using revision_grows [of "ses_id s'" "ses_log s'" "with_task t st" evs st2 "ur_task req" t] st2 assms(7,8) id
    by (auto simp: with_task_def)
  then have "task_revision u \<noteq> ur_expected req2" using rev n(2) assms(10) by simp
  with u(1) st2 assms(9) show ?thesis
    by (simp add: board_update_def op_bind_def journal_state_def updated_task_def)
qed

theorem one_update_per_revision_witness:
  "run_command 12 None (UpdateTask ''m2'' RoleTeammate (demo_update ''task-1'' 1 ActClaim)) demo_claimed = (demo_claimed, Inl StaleRevision)"
proof (rule one_update_per_revision [OF demo_two_log])
  show "run_command 11 None (UpdateTask ''m1'' RoleTeammate (demo_update ''task-1'' 1 ActClaim)) demo_two =
      (demo_claimed, snd (run_command 11 None demo_claim demo_two))"
    by (simp add: demo_claimed_def demo_claim_def)
  show "team_log 8 demo_claimed"
    by (rule team_command [OF demo_two_log, of 11 None demo_claim _ "snd (run_command 11 None demo_claim demo_two)"])
      (simp_all add: demo_claimed_def demo_claim_def, code_simp)
  have "length (ses_log demo_claimed) \<noteq> length (ses_log demo_two)" by code_simp
  then show "demo_claimed \<noteq> demo_two" by auto
  show "int (length (ses_log demo_two)) < max_safe" by code_simp
  show "ses_log demo_claimed = ses_log demo_claimed @ []" by simp
qed simp_all

text \<open>
  C15: A board is never stuck: from every reachable board the Lead alone can issue commands that all succeed and
  leave every active task completed, deleting none and adding none.
\<close>

theorem lead_can_finish_the_board:
  assumes "team_log most s" and "fold_team (ses_id s) (ses_log s) = Inr st"
    and "int (length (ses_log s) + board_work (ts_tasks st)) < max_safe"
  shows "\<exists>cs s' st'. run_commands now cs s = (s', Inr ()) \<and> fold_team (ses_id s') (ses_log s') = Inr st' \<and>
    (\<forall>i. active_in (ts_tasks st') i = active_in (ts_tasks st) i) \<and> (\<forall>i t. om_get (ts_tasks st') i = Some t \<longrightarrow> \<not> task_open t)"
  by (rule lead_finishes [OF assms])

theorem lead_can_finish_the_board_witness:
  "\<exists>cs s' st'. run_commands 12 cs demo_two = (s', Inr ()) \<and> fold_team (ses_id s') (ses_log s') = Inr st' \<and>
    active_in (ts_tasks st') ''task-2'' \<and> \<not> Option.is_none (om_get (ts_tasks st') ''task-2'')"
proof -
  have "case fold_team (ses_id demo_two) (ses_log demo_two) of Inl _ \<Rightarrow> False
    | Inr st \<Rightarrow> int (length (ses_log demo_two) + board_work (ts_tasks st)) < max_safe \<and> active_in (ts_tasks st) ''task-2''" by code_simp
  then obtain st where st: "fold_team (ses_id demo_two) (ses_log demo_two) = Inr st"
    "int (length (ses_log demo_two) + board_work (ts_tasks st)) < max_safe" "active_in (ts_tasks st) ''task-2''"
    by (auto split: sum.splits)
  from lead_can_finish_the_board [OF demo_two_log st(1,2), of 12] st(3) show ?thesis
    by (fastforce simp: active_in_def Option.is_none_def split: option.splits)
qed

text \<open>
  The textual overlap test of two write scopes is the path test: one is the other, or lies below it, comparing
  whole path segments.
\<close>

theorem scope_overlap_compares_segments:
  "scopes_overlap l r \<longleftrightarrow> below_or_same (split_slash l) (split_slash r) \<or> below_or_same (split_slash r) (split_slash l)"
  unfolding scopes_overlap_def starts_with_path [symmetric] by blast

end
