(* ===== verification/Agent_Log.thy ===== *)
theory Agent_Log
  imports Session_Log
begin

text \<open>
  What a component that appends to a session's log relies on: which appends the session accepts, and how an
  accepted append moves the trace of the log invariant. The inbox, the tool-call scheduler and the agent driver
  share these facts.
\<close>

section \<open>Accepted appends\<close>

abbreviation append_intent :: "int list option \<Rightarrow> surface_intent" where
  "append_intent qs \<equiv> \<lparr>si_op = Some (JStr ''append''), si_sources = map_option (\<lambda>xs. JArr (map JInt xs)) qs\<rparr>"

definition surface_event :: "int \<Rightarrow> int \<Rightarrow> 'p event_data \<Rightarrow> int list option \<Rightarrow> 'p event" where
  "surface_event seq now d qs =
     (log_event seq now d)\<lparr>ev_surface_op := Some (JStr ''append''), ev_sources := map_option (\<lambda>xs. JArr (map JInt xs)) qs\<rparr>"

lemma read_int_sources:
  "\<forall>q \<in> set qs. 0 \<le> q \<and> q < seq \<and> q \<le> max_safe \<Longrightarrow> distinct (acc @ qs) \<Longrightarrow>
     read_sources seq (map JInt qs) acc None = Inr (acc @ qs, None)"
  by (induction qs arbitrary: acc) (auto simp: safe_int_def)

definition sources_ok :: "'p event_data \<Rightarrow> nat \<Rightarrow> int list option \<Rightarrow> bool" where
  "sources_ok d len qs \<longleftrightarrow> (case qs of None \<Rightarrow> True
     | Some xs \<Rightarrow> distinct xs \<and> (\<forall>q \<in> set xs. 0 \<le> q \<and> q < int len \<and> q \<le> max_safe) \<and> (xs \<noteq> [] \<or> is_assistant_message d))"

lemma surface_event_provenance:
  "sources_ok d n qs \<Longrightarrow> assert_provenance (surface_event (int n) now d qs) [] = Inr ()"
  using read_int_sources [of _ "int n" "[]"]
  by (auto simp: sources_ok_def assert_provenance_def surface_event_def split: option.splits)

lemma fold_surface_appended:
  assumes "ok (fold_surface evs)" and "is_surface_eligible_type d" and "sources_ok d (length evs) qs"
  shows "ok (fold_surface (evs @ [surface_event (int (length evs)) now d qs]))"
proof -
  let ?e = "surface_event (int (length evs)) now d qs"
  from assms(1) obtain s i rs where f: "window_fold 0 evs evs = Inr (s, i, rs)"
    by (auto simp: ok_iff fold_surface_def rbind_Inr_iff)
  from surface.run_hist [OF f] have i: "i = int (length evs)" by simp
  have "surface_op_of ?e = Inr (Some OpAppend)" using assms(2) by (simp add: surface_op_of_def surface_event_def)
  then have "plan_surface_event s ?e i (evs @ [?e]) 0 = Inr (Some (PlanAppend i))"
    using surface_event_provenance [OF assms(3), of now] i by (simp add: plan_surface_event_def) (simp add: surface_event_def)
  then have "ok (window_fold 0 (evs @ [?e]) (evs @ [?e]))"
    using window_fold_local [of evs "[?e]" 0 "[]"] f by (simp add: replay_snoc apply_surface_event_def ok_iff)
  then show ?thesis by (auto simp: fold_surface_def ok_iff)
qed

text \<open>The append of a surface event with readable sources succeeds.\<close>

lemma append_surface:
  assumes ok: "session_ok s" and d: "is_surface_eligible_type d" and src: "sources_ok d (length (ses_log s)) qs"
  obtains s' where "session_append now d (append_intent qs) s = (s', Inr (surface_event (int (length (ses_log s))) now d qs))"
    and "session_ok s'" and "ses_log s' = ses_log s @ [surface_event (int (length (ses_log s))) now d qs]"
    and "ses_header s' = ses_header s" and "ses_id s' = ses_id s"
proof -
  let ?e = "surface_event (int (length (ses_log s))) now d qs"
  have "ok (fold_surface (ses_log s @ [?e]))"
    using ok d src fold_surface_appended by (auto simp: session_ok_def)
  then obtain s1 where v: "append_validate ?e s = (s1, None)" "session_ok (push_event ?e s1)" "ses_log s1 = ses_log s"
    using append_validate_accepts [OF ok] by blast
  have frame: "ses_header s1 = ses_header s" "ses_id s1 = ses_id s"
    using v(1) by (auto simp: append_validate_def split: prod.splits)
  have "append_candidate now d (append_intent qs) s = ?e" by (simp add: append_candidate_def surface_event_def)
  then have "session_append now d (append_intent qs) s = (push_event ?e s1, Inr ?e)"
    using v(1) by (simp add: session_append_def Let_def)
  with v frame that show thesis by (simp add: push_event_def)
qed

section \<open>The trace behind a log\<close>

text \<open>
  The trace of a log up to its last seq, which is below the next seq. \<open>move\<close> is what appending a payload with a
  surface operation does to it.
\<close>

definition trace_view :: "session_trace \<Rightarrow> session_trace" where
  "trace_view t = t\<lparr>tr_last_seq := 0\<rparr>"

definition log_at :: "'p event list \<Rightarrow> session_trace \<Rightarrow> bool" where
  "log_at evs v \<longleftrightarrow> (\<exists>t. seed_session evs = Inr t \<and> tr_last_seq t < int (length evs) \<and> trace_view t = v)"

definition move :: "session_trace \<Rightarrow> 'p event_data \<Rightarrow> bool \<Rightarrow> trace_error + session_trace" where
  "move v d appended =
     rbind (trace_step v ((log_event 1 0 d)\<lparr>ev_surface_op := if appended then Some (JStr ''append'') else None\<rparr>))
       (\<lambda>t. Inr (trace_view t))"

lemma trace_view_simps [simp]:
  "tr_open_turn (trace_view t) = tr_open_turn t" "tr_open_step (trace_view t) = tr_open_step t"
  "tr_next_turn (trace_view t) = tr_next_turn t" "tr_next_step (trace_view t) = tr_next_step t"
  "tr_pending (trace_view t) = tr_pending t" "tr_last_seq (trace_view t) = 0" "trace_view (trace_view t) = trace_view t"
  by (simp_all add: trace_view_def)

lemma trace_view_eq:
  "trace_view t = v \<longleftrightarrow> tr_last_seq v = 0 \<and> tr_open_turn v = tr_open_turn t \<and> tr_open_step v = tr_open_step t \<and>
     tr_next_turn v = tr_next_turn t \<and> tr_next_step v = tr_next_step t \<and> tr_pending v = tr_pending t"
  by (cases t; cases v) (auto simp: trace_view_def)

text \<open>The validation looks at the seq only to compare it with the last one.\<close>

lemma validate_event_view:
  assumes "tr_last_seq t < ev_seq e" and "ev_data e = d" and "ev_surface_op e = (if appended then Some (JStr ''append'') else None)"
  shows "map_sum id trace_view (trace_step t e) = move (trace_view t) d appended"
  using assms
  by (cases d) (auto simp: move_def trace_step_def validate_event_def unchanged_def require_open_step_def apply_transition_def Let_def
      trace_view_def split: option.splits)

lemma log_at_snoc:
  assumes v: "log_at evs v" and m: "move v d appended = Inr v'"
    and e: "ev_seq e = int (length evs)" "ev_data e = d" "ev_surface_op e = (if appended then Some (JStr ''append'') else None)"
  shows "log_at (evs @ [e]) v'"
proof -
  from v obtain t where t: "seed_session evs = Inr t" "tr_last_seq t < int (length evs)" "trace_view t = v"
    by (auto simp: log_at_def)
  with validate_event_view [of t e d appended] e m obtain t' where t': "trace_step t e = Inr t'" "trace_view t' = v'"
    by (cases "trace_step t e") auto
  then have "tr_last_seq t' = ev_seq e"
    by (auto simp: trace_step_Inr validate_event_def unchanged_def apply_transition_def rbind_Inr_iff Let_def
        split: if_splits event_data.splits)
  with t t' e show ?thesis by (auto simp: log_at_def seed_session_def replay_snoc_Inr)
qed

text \<open>The append of a log-only event, and of a surface event, that the trace allows.\<close>

lemma append_log_only_at:
  assumes "session_ok s" and "log_at (ses_log s) v" and "\<not> is_surface_eligible_type d" and "move v d False = Inr v'"
  obtains s' where "session_append now d no_intent s = (s', Inr (log_event (int (length (ses_log s))) now d))"
    and "session_ok s'" and "log_at (ses_log s') v'" and "ses_log s' = ses_log s @ [log_event (int (length (ses_log s))) now d]"
    and "ses_header s' = ses_header s" and "ses_id s' = ses_id s"
proof -
  obtain s' where s': "session_append now d no_intent s = (s', Inr (log_event (int (length (ses_log s))) now d))"
    "session_ok s'" "ses_log s' = ses_log s @ [log_event (int (length (ses_log s))) now d]"
    "ses_header s' = ses_header s" "ses_id s' = ses_id s"
    using append_log_only [OF assms(1,3)] by blast
  have "log_at (ses_log s') v'" unfolding s'(3) by (rule log_at_snoc [OF assms(2,4)]) simp_all
  with s' that show thesis by blast
qed

lemma append_surface_at:
  assumes "session_ok s" and "log_at (ses_log s) v" and "is_surface_eligible_type d" and "sources_ok d (length (ses_log s)) qs"
    and "move v d True = Inr v'"
  obtains s' where "session_append now d (append_intent qs) s = (s', Inr (surface_event (int (length (ses_log s))) now d qs))"
    and "session_ok s'" and "log_at (ses_log s') v'" and "ses_log s' = ses_log s @ [surface_event (int (length (ses_log s))) now d qs]"
    and "ses_header s' = ses_header s" and "ses_id s' = ses_id s"
proof -
  obtain s' where s': "session_append now d (append_intent qs) s = (s', Inr (surface_event (int (length (ses_log s))) now d qs))"
    "session_ok s'" "ses_log s' = ses_log s @ [surface_event (int (length (ses_log s))) now d qs]"
    "ses_header s' = ses_header s" "ses_id s' = ses_id s"
    using append_surface [OF assms(1,3,4)] by blast
  have "log_at (ses_log s') v'" unfolding s'(3) by (rule log_at_snoc [OF assms(2,5)]) (simp_all add: surface_event_def)
  with s' that show thesis by blast
qed

section \<open>Moves\<close>

text \<open>A trace view with a turn and a step open, and with these calls pending.\<close>

definition in_step :: "int \<Rightarrow> int \<Rightarrow> int \<Rightarrow> int \<Rightarrow> call_id set \<Rightarrow> session_trace" where
  "in_step turn step nt ns calls = \<lparr>tr_last_seq = 0, tr_open_turn = Some turn, tr_open_step = Some step, tr_next_turn = nt,
     tr_next_step = ns, tr_pending = calls\<rparr>"

definition in_turn :: "int \<Rightarrow> int \<Rightarrow> int \<Rightarrow> call_id set \<Rightarrow> session_trace" where
  "in_turn turn nt ns calls = \<lparr>tr_last_seq = 0, tr_open_turn = Some turn, tr_open_step = None, tr_next_turn = nt,
     tr_next_step = ns, tr_pending = calls\<rparr>"

definition no_turn :: "int \<Rightarrow> int \<Rightarrow> call_id set \<Rightarrow> session_trace" where
  "no_turn nt ns calls = \<lparr>tr_last_seq = 0, tr_open_turn = None, tr_open_step = None, tr_next_turn = nt, tr_next_step = ns,
     tr_pending = calls\<rparr>"

lemmas move_defs = move_def trace_step_def validate_event_def unchanged_def require_open_step_def apply_transition_def
  trace_view_def in_step_def in_turn_def no_turn_def

text \<open>What the driver's own events do.\<close>

lemma driver_moves [simp]:
  "move (no_turn nt ns calls) (TurnStart nt) False = Inr (in_turn nt nt 1 calls)"
  "move (in_turn turn nt ns calls) (TurnEnd turn reason) False = Inr (no_turn (nt + 1) ns calls)"
  "move (in_turn turn nt ns calls) (StepStart turn ns) False = Inr (in_step turn ns nt ns calls)"
  "move (in_step turn step nt ns calls) (StepEnd turn step) False = Inr (in_turn turn nt (ns + 1) {})"
  "move (in_step turn step nt ns calls) (AssistantChunk turn step c) False = Inr (in_step turn step nt ns calls)"
  "move (in_step turn step nt ns calls) (AssistantMessage turn step m u i) True = Inr (in_step turn step nt ns calls)"
  "move (in_step turn step nt ns calls) (UserMessage um) True = Inr (in_step turn step nt ns calls)"
  "move (in_step turn step nt ns calls) (RequestHeader h r) False = Inr (in_step turn step nt ns calls)"
  "move (in_step turn step nt ns calls) (RequestContext x) False = Inr (in_step turn step nt ns calls)"
  "move (in_step turn step nt ns calls) (ToolCall turn step k n a) False = Inr (in_step turn step nt ns (insert k calls))"
  by (simp_all add: move_defs)

lemma result_move:
  "tr_turn d = turn \<Longrightarrow> tr_step d = step \<Longrightarrow> trm_call_id (tr_message d) \<in> calls \<Longrightarrow>
     move (in_step turn step nt ns calls) (ToolResult d) True = Inr (in_step turn step nt ns (calls - {trm_call_id (tr_message d)}))"
  by (simp add: move_defs Let_def)

section \<open>Background appends\<close>

text \<open>
  What others append while an agent works, outside the conversation markers: plugin records and user messages
  anywhere, todo lists and rewritten tool results while a turn is open.
\<close>

fun background :: "bool \<Rightarrow> 'p event_data \<Rightarrow> bool" where
  "background turn (PluginEvent _) = True"
| "background turn (UserMessage _) = True"
| "background turn (TodoWrite _) = turn"
| "background turn (ToolResult _) = turn"
| "background turn _ = False"

fun is_tool_result :: "'p event_data \<Rightarrow> bool" where
  "is_tool_result (ToolResult _) = True"
| "is_tool_result _ = False"

text \<open>A tool result in the background rewrites an earlier one: it is not appended to the conversation.\<close>

definition quiet_event :: "bool \<Rightarrow> 'p event \<Rightarrow> bool" where
  "quiet_event turn e \<longleftrightarrow> background turn (ev_data e) \<and> (is_tool_result (ev_data e) \<longrightarrow> ev_surface_op e \<noteq> Some (JStr ''append''))"

lemma background_weaken: "background turn d \<Longrightarrow> turn \<longrightarrow> turn' \<Longrightarrow> background turn' d"
  by (cases d) auto

lemma quiet_step:
  assumes "quiet_event (tr_open_turn t \<noteq> None) e" and "tr_last_seq t < ev_seq e"
  shows "trace_step t e = Inr (t\<lparr>tr_last_seq := ev_seq e\<rparr>)"
  using assms
  by (cases "ev_data e") (simp_all add: quiet_event_def trace_step_def validate_event_def unchanged_def apply_transition_def)

lemma log_at_quiet_snoc:
  assumes v: "log_at evs v" and q: "quiet_event turn e" and seq: "ev_seq e = int (length evs)" and turn: "turn \<longrightarrow> tr_open_turn v \<noteq> None"
  shows "log_at (evs @ [e]) v"
proof -
  from v obtain t where t: "seed_session evs = Inr t" "tr_last_seq t < int (length evs)" "trace_view t = v" by (auto simp: log_at_def)
  have "tr_open_turn t = tr_open_turn v" using t(3) by (auto simp: trace_view_def)
  then have "quiet_event (tr_open_turn t \<noteq> None) e" using q turn background_weaken by (auto simp: quiet_event_def)
  then have "trace_step t e = Inr (t\<lparr>tr_last_seq := ev_seq e\<rparr>)" by (rule quiet_step) (simp add: t(2) seq)
  with t seq show ?thesis by (auto simp: log_at_def seed_session_def replay_snoc_Inr trace_view_def)
qed

lemma log_at_view: "log_at evs v \<Longrightarrow> tr_last_seq v = 0"
  by (auto simp: log_at_def)

lemma log_at_quiet:
  "log_at evs v \<Longrightarrow> list_all (quiet_event turn) later \<Longrightarrow> contiguous (evs @ later) \<Longrightarrow> turn \<longrightarrow> tr_open_turn v \<noteq> None \<Longrightarrow>
     log_at (evs @ later) v"
proof (induction later rule: rev_induct)
  case (snoc e later)
  have c: "contiguous ((evs @ later) @ [e])" using snoc.prems(3) by simp
  then have seq: "ev_seq e = int (length (evs @ later))" and c': "contiguous (evs @ later)" by (simp_all only: contiguous_snoc)
  have q: "quiet_event turn e" "list_all (quiet_event turn) later" using snoc.prems(2) by simp_all
  have "log_at (evs @ later) v" by (rule snoc.IH [OF snoc.prems(1) q(2) c' snoc.prems(4)])
  then have "log_at ((evs @ later) @ [e]) v" by (rule log_at_quiet_snoc [OF _ q(1) seq snoc.prems(4)])
  then show ?case by simp
qed simp

text \<open>Growth of a session by background events only.\<close>

definition quiet_growth :: "bool \<Rightarrow> 'p session \<Rightarrow> 'p session \<Rightarrow> bool" where
  "quiet_growth turn s s' \<longleftrightarrow> session_ok s' \<and> ses_header s' = ses_header s \<and>
     (\<exists>later. ses_log s' = ses_log s @ later \<and> list_all (quiet_event turn) later)"

lemma quiet_growth_refl [simp]: "session_ok s \<Longrightarrow> quiet_growth turn s s"
  by (simp add: quiet_growth_def)

lemma quiet_growth_trans: "quiet_growth turn a b \<Longrightarrow> quiet_growth turn b c \<Longrightarrow> quiet_growth turn a c"
  by (auto simp: quiet_growth_def)

lemma quiet_growth_at:
  assumes "quiet_growth turn s s'" and "log_at (ses_log s) v" and "turn \<longrightarrow> tr_open_turn v \<noteq> None"
  shows "log_at (ses_log s') v"
proof -
  from assms(1) obtain later where l: "ses_log s' = ses_log s @ later" "list_all (quiet_event turn) later" "session_ok s'"
    by (auto simp: quiet_growth_def)
  have "contiguous (ses_log s')" using l(3) fold_surface_contiguous by (auto simp: session_ok_def)
  with log_at_quiet [OF assms(2) l(2) _ assms(3)] l(1) show ?thesis by simp
qed

text \<open>What an append does to the log, whatever its outcome.\<close>

lemma session_append_effect:
  assumes "session_append now d intent s = (s', r)"
  shows "case r of Inl _ \<Rightarrow> ses_log s' = ses_log s | Inr e \<Rightarrow> e = append_candidate now d intent s \<and> ses_log s' = ses_log s @ [e]"
  using assms by (auto simp: session_append_def append_validate_def Let_def push_event_def split: prod.splits option.splits)

definition quiet_intent :: "bool \<Rightarrow> 'p event_data \<Rightarrow> surface_intent \<Rightarrow> bool" where
  "quiet_intent turn d intent \<longleftrightarrow> background turn d \<and> (is_tool_result d \<longrightarrow> si_op intent \<noteq> Some (JStr ''append''))"

lemma quiet_growth_append:
  assumes "session_ok s" and "quiet_intent turn d intent"
  shows "quiet_growth turn s (fst (session_append now d intent s))"
proof -
  obtain s' r where a: "session_append now d intent s = (s', r)" by (cases "session_append now d intent s")
  note e = session_append_effect [OF a] and ok = session_append_ok [OF assms(1) a] and h = session_append_frame(1) [OF a]
  have "quiet_event turn (append_candidate now d intent s)"
    using assms(2) by (auto simp: quiet_event_def quiet_intent_def append_candidate_def)
  then show ?thesis using e ok h by (cases r) (auto simp: quiet_growth_def a)
qed

end
