(* ===== verification/Tool_Schedule.thy ===== *)
theory Tool_Schedule
  imports Agent_Log Inbox
begin

text \<open>
  The scheduler of one assistant step's tool calls (\<open>packages/core/agent-loop/src/tool-calls.ts\<close>): exclusive calls
  are barriers, parallel calls share a bounded pool, and results are recorded in model order. The functions await
  the tool runtime and a cancellation signal, so they are modelled as one transition function: the control state
  says where \<open>executeToolCalls\<close> stands, and an input is what the runtime, the signal or another component does next.
  \<open>None\<close> is an input that cannot happen in that state.
\<close>

section \<open>Calls and outcomes\<close>

record tool_call =
  tc_id :: call_id
  tc_name :: string
  tc_args :: string

text \<open>The part of a \<open>ToolExecutionResult\<close> that the scheduler reads.\<close>

record tool_outcome =
  to_content :: "content_block list"
  to_error :: bool
  to_info :: "tool_error option"
  to_meta :: "json option"
  to_contexts :: "message list"
  to_concludes :: bool

text \<open>A settled call waiting for its turn: \<open>PostStage\<close> still needs post-execute.\<close>

datatype stage = PostStage tool_outcome | FinalStage tool_outcome

datatype prepare_outcome = Dispatched | Ready stage

datatype schedule_failure = RuntimeFailure string | ContextRejected inbox_error | ToolAppendFailed session_error | Uncommitted

datatype schedule_at =
    AtClassify
  | AtFill
  | AtPrepare
  | AtCommit
  | AtRace
  | AtSkip
  | AtDrain
  | AtReturned
  | AtThrown

record tool_run =
  tx_inbox :: inbox
  tx_turn :: int
  tx_step :: int
  tx_plan :: "tool_call list"
  tx_cap :: nat
  tx_signal :: bool
  tx_next :: nat
  tx_concluded :: bool
  tx_parallel :: bool
  tx_slots :: "stage option list"
  tx_seqs :: "int list"
  tx_start :: nat
  tx_started :: nat
  tx_committed :: nat
  tx_aborted :: bool
  tx_group_concluded :: bool
  tx_failure :: "schedule_failure option"
  tx_flight :: "nat list"
  tx_settled :: "nat list"
  tx_at :: schedule_at

datatype tool_input =
    Advance
  | Classified bool
  | Prepared prepare_outcome
  | Settled nat "string + stage"
  | Picked nat
  | Completed tool_outcome message_id
  | Failed string
  | SkippedResult message_id
  | SignalAborted
  | Elsewhere inbox_op

section \<open>Appending\<close>

definition append_tool_call :: "int \<Rightarrow> int \<Rightarrow> int \<Rightarrow> tool_call \<Rightarrow> inbox \<Rightarrow> inbox \<times> (session_error + int)" where
  "append_tool_call now turn step c ix =
     (case session_append now (ToolCall turn step (tc_id c) (tc_name c) (tc_args c)) no_intent (ix_session ix) of
        (s', Inl err) \<Rightarrow> (ix\<lparr>ix_session := s'\<rparr>, Inl err)
      | (s', Inr e) \<Rightarrow> (ix\<lparr>ix_session := s'\<rparr>, Inr (ev_seq e)))"

definition result_data :: "int \<Rightarrow> int \<Rightarrow> tool_call \<Rightarrow> tool_outcome \<Rightarrow> message_id \<Rightarrow> tool_result_data" where
  "result_data turn step c r mid =
     \<lparr>tr_turn = turn, tr_step = step,
      tr_message = \<lparr>trm_id = mid, trm_call_id = tc_id c, trm_block_call_id = tc_id c, trm_block_content = to_content r,
        trm_is_error = Some (to_error r)\<rparr>,
      tr_error = to_info r, tr_meta = to_meta r\<rparr>"

definition append_tool_result ::
    "int \<Rightarrow> int \<Rightarrow> int \<Rightarrow> tool_call \<Rightarrow> tool_outcome \<Rightarrow> message_id \<Rightarrow> int \<Rightarrow> inbox \<Rightarrow> inbox \<times> (session_error + unit)" where
  "append_tool_result now turn step c r mid call_seq ix =
     (case session_append now (ToolResult (result_data turn step c r mid)) (append_intent (Some [call_seq])) (ix_session ix) of
        (s', Inl err) \<Rightarrow> (ix\<lparr>ix_session := s'\<rparr>, Inl err)
      | (s', Inr _) \<Rightarrow> (ix\<lparr>ix_session := s'\<rparr>, Inr ()))"

definition TOOL_ABORTED_BEFORE_DISPATCH :: string where
  "TOOL_ABORTED_BEFORE_DISPATCH = ''ABORTED_BEFORE_DISPATCH''"

definition skipped_outcome :: tool_outcome where
  "skipped_outcome = \<lparr>to_content = [TextBlock ''Error: tool call aborted before dispatch''], to_error = True,
     to_info = Some \<lparr>terr_name = ''AbortError'', terr_code = TOOL_ABORTED_BEFORE_DISPATCH\<rparr>, to_meta = None,
     to_contexts = [], to_concludes = False\<rparr>"

definition append_skipped :: "int \<Rightarrow> int \<Rightarrow> int \<Rightarrow> tool_call \<Rightarrow> message_id \<Rightarrow> inbox \<Rightarrow> inbox \<times> (session_error + unit)" where
  "append_skipped now turn step c mid ix =
     (case append_tool_call now turn step c ix of
        (ix1, Inl err) \<Rightarrow> (ix1, Inl err)
      | (ix1, Inr q) \<Rightarrow> append_tool_result now turn step c skipped_outcome mid q ix1)"

fun accept_contexts :: "int \<Rightarrow> message list \<Rightarrow> inbox \<Rightarrow> inbox \<times> (inbox_error + unit)" where
  "accept_contexts now [] ix = (ix, Inr ())"
| "accept_contexts now (m # ms) ix = and_then (append_message now NextStep m ix) (\<lambda>_. accept_contexts now ms)"

section \<open>The transitions\<close>

definition start_tools :: "inbox \<Rightarrow> int \<Rightarrow> int \<Rightarrow> tool_call list \<Rightarrow> nat \<Rightarrow> bool \<Rightarrow> tool_run" where
  "start_tools ix turn step plan cap signal =
     \<lparr>tx_inbox = ix, tx_turn = turn, tx_step = step, tx_plan = plan, tx_cap = cap, tx_signal = signal, tx_next = 0,
      tx_concluded = False, tx_parallel = False, tx_slots = [], tx_seqs = [], tx_start = 0, tx_started = 0,
      tx_committed = 0, tx_aborted = False, tx_group_concluded = False, tx_failure = None, tx_flight = [],
      tx_settled = [], tx_at = AtClassify\<rparr>"

text \<open>The calls of the running group: one exclusive call, or all remaining ones.\<close>

definition tool_group :: "tool_run \<Rightarrow> tool_call list" where
  "tool_group r = (if tx_parallel r then drop (tx_next r) (tx_plan r) else take 1 (drop (tx_next r) (tx_plan r)))"

definition begin_group :: "bool \<Rightarrow> tool_run \<Rightarrow> tool_run" where
  "begin_group par r =
     (let n = length (tool_group (r\<lparr>tx_parallel := par\<rparr>)) in
      r\<lparr>tx_parallel := par, tx_slots := replicate n None, tx_seqs := replicate n (-1), tx_start := 0, tx_started := 0,
        tx_committed := 0, tx_aborted := tx_signal r, tx_group_concluded := False, tx_failure := None, tx_flight := [],
        tx_settled := [], tx_at := AtFill\<rparr>)"

text \<open>The first failure is kept; started dispatches settle before it is thrown.\<close>

definition fail_with :: "schedule_failure \<Rightarrow> tool_run \<Rightarrow> tool_run" where
  "fail_with f r = r\<lparr>tx_failure := (case tx_failure r of None \<Rightarrow> Some f | Some f0 \<Rightarrow> Some f0), tx_at := AtDrain\<rparr>"

definition can_fill :: "tool_run \<Rightarrow> bool" where
  "can_fill r \<longleftrightarrow> \<not> tx_aborted r \<and> tx_start r < length (tool_group r) \<and> length (tx_flight r) < tx_cap r"

text \<open>Whether the mode of the next call is read again before it starts.\<close>

definition reclassifies :: "tool_run \<Rightarrow> bool" where
  "reclassifies r \<longleftrightarrow> tx_start r > 0 \<and> tx_parallel r"

definition start_call :: "int \<Rightarrow> tool_run \<Rightarrow> tool_run" where
  "start_call now r =
     (case append_tool_call now (tx_turn r) (tx_step r) (tool_group r ! tx_start r) (tx_inbox r) of
        (ix, Inl err) \<Rightarrow> fail_with (ToolAppendFailed err) (r\<lparr>tx_inbox := ix\<rparr>)
      | (ix, Inr q) \<Rightarrow> r\<lparr>tx_inbox := ix, tx_seqs := (tx_seqs r)[tx_start r := q], tx_started := tx_started r + 1,
          tx_at := AtPrepare\<rparr>)"

text \<open>
  The end of \<open>runGroup\<close> and the rest of the loop body of \<open>executeToolCalls\<close>. After an abort the calls not started
  are the rest of the group followed by the rest of the plan: the plan from the first of them.
\<close>

definition close_group :: "tool_run \<Rightarrow> tool_run" where
  "close_group r =
     (let r' = r\<lparr>tx_next := tx_next r + tx_started r, tx_concluded := (tx_concluded r \<or> tx_group_concluded r)\<rparr> in
      if tx_aborted r then r'\<lparr>tx_at := AtSkip\<rparr>
      else if tx_committed r \<noteq> tx_started r then r\<lparr>tx_failure := Some Uncommitted, tx_at := AtThrown\<rparr>
      else r'\<lparr>tx_at := AtClassify\<rparr>)"

definition after_fill :: "tool_run \<Rightarrow> tool_run" where
  "after_fill r = (if tx_flight r \<noteq> [] then r\<lparr>tx_at := AtRace\<rparr> else close_group r)"

definition fill_step :: "int \<Rightarrow> tool_input \<Rightarrow> tool_run \<Rightarrow> tool_run option" where
  "fill_step now inp r = (case inp of
      Advance \<Rightarrow> if \<not> can_fill r then Some (after_fill r) else if reclassifies r then None else Some (start_call now r)
    | Classified par \<Rightarrow> if can_fill r \<and> reclassifies r then Some (if par then start_call now r else after_fill r) else None
    | _ \<Rightarrow> None)"

definition prepare_step :: "tool_input \<Rightarrow> tool_run \<Rightarrow> tool_run option" where
  "prepare_step inp r = (case inp of
      Prepared p \<Rightarrow>
        (case tx_failure r of
           Some f \<Rightarrow> Some (fail_with f r)
         | None \<Rightarrow>
             let r' = (case p of
                 Dispatched \<Rightarrow> r\<lparr>tx_flight := tx_flight r @ [tx_start r]\<rparr>
               | Ready s \<Rightarrow> r\<lparr>tx_slots := (tx_slots r)[tx_start r := Some s]\<rparr>)
             in Some (r'\<lparr>tx_start := tx_start r + 1, tx_at := AtCommit\<rparr>))
    | Failed msg \<Rightarrow> Some (fail_with (RuntimeFailure msg) r)
    | _ \<Rightarrow> None)"

definition ready_slot :: "tool_run \<Rightarrow> stage option" where
  "ready_slot r = (if tx_committed r < length (tool_group r) then tx_slots r ! tx_committed r else None)"

text \<open>One round of \<open>commitReady\<close>: the completed outcome is the one finalize or finish returned.\<close>

definition commit_result :: "int \<Rightarrow> tool_outcome \<Rightarrow> message_id \<Rightarrow> tool_run \<Rightarrow> tool_run" where
  "commit_result now res mid r =
     (case append_tool_result now (tx_turn r) (tx_step r) (tool_group r ! tx_committed r) res mid
             (tx_seqs r ! tx_committed r) (tx_inbox r) of
        (ix, Inl err) \<Rightarrow> fail_with (ToolAppendFailed err) (r\<lparr>tx_inbox := ix\<rparr>)
      | (ix, Inr _) \<Rightarrow>
          (case accept_contexts now (to_contexts res) ix of
             (ix', Inl err) \<Rightarrow> fail_with (ContextRejected err) (r\<lparr>tx_inbox := ix'\<rparr>)
           | (ix', Inr _) \<Rightarrow> r\<lparr>tx_inbox := ix', tx_group_concluded := (tx_group_concluded r \<or> to_concludes res),
               tx_committed := tx_committed r + 1\<rparr>))"

definition commit_step :: "int \<Rightarrow> tool_input \<Rightarrow> tool_run \<Rightarrow> tool_run option" where
  "commit_step now inp r = (case ready_slot r of
      Some _ \<Rightarrow> (case inp of
          Completed res mid \<Rightarrow> Some (commit_result now res mid r)
        | Failed msg \<Rightarrow> Some (fail_with (RuntimeFailure msg) r)
        | _ \<Rightarrow> None)
    | None \<Rightarrow> (case inp of
          Advance \<Rightarrow> Some (case tx_failure r of
              Some f \<Rightarrow> fail_with f r
            | None \<Rightarrow> r\<lparr>tx_aborted := (tx_aborted r \<or> tx_signal r), tx_at := AtFill\<rparr>)
        | _ \<Rightarrow> None))"

definition race_step :: "tool_input \<Rightarrow> tool_run \<Rightarrow> tool_run option" where
  "race_step inp r = (case inp of
      Picked i \<Rightarrow>
        if i \<in> set (tx_flight r) \<and> i \<in> set (tx_settled r) then
          let r' = r\<lparr>tx_flight := remove1 i (tx_flight r)\<rparr> in
          Some (case tx_failure r of Some f \<Rightarrow> fail_with f r' | None \<Rightarrow> r'\<lparr>tx_at := AtCommit\<rparr>)
        else None
    | _ \<Rightarrow> None)"

definition skip_step :: "int \<Rightarrow> tool_input \<Rightarrow> tool_run \<Rightarrow> tool_run option" where
  "skip_step now inp r = (case inp of
      SkippedResult mid \<Rightarrow>
        if tx_next r < length (tx_plan r) then
          Some (case append_skipped now (tx_turn r) (tx_step r) (tx_plan r ! tx_next r) mid (tx_inbox r) of
              (ix, Inl err) \<Rightarrow> r\<lparr>tx_inbox := ix, tx_failure := Some (ToolAppendFailed err), tx_at := AtThrown\<rparr>
            | (ix, Inr _) \<Rightarrow> r\<lparr>tx_inbox := ix, tx_next := tx_next r + 1\<rparr>)
        else None
    | Advance \<Rightarrow> if length (tx_plan r) \<le> tx_next r then Some (r\<lparr>tx_at := AtReturned\<rparr>) else None
    | _ \<Rightarrow> None)"

definition main_step :: "int \<Rightarrow> tool_input \<Rightarrow> tool_run \<Rightarrow> tool_run option" where
  "main_step now inp r = (case tx_at r of
      AtClassify \<Rightarrow> (case inp of
          Classified par \<Rightarrow> if tx_next r < length (tx_plan r) then Some (begin_group par r) else None
        | Advance \<Rightarrow> if length (tx_plan r) \<le> tx_next r then Some (r\<lparr>tx_at := AtReturned\<rparr>) else None
        | _ \<Rightarrow> None)
    | AtFill \<Rightarrow> fill_step now inp r
    | AtPrepare \<Rightarrow> prepare_step inp r
    | AtCommit \<Rightarrow> commit_step now inp r
    | AtRace \<Rightarrow> race_step inp r
    | AtSkip \<Rightarrow> skip_step now inp r
    | AtDrain \<Rightarrow> (case inp of
          Advance \<Rightarrow> if set (tx_flight r) \<subseteq> set (tx_settled r) then Some (r\<lparr>tx_at := AtThrown\<rparr>) else None
        | _ \<Rightarrow> None)
    | _ \<Rightarrow> None)"

text \<open>
  What other components do to the inbox and the log meanwhile; todo lists and rewritten results belong to an open
  turn.
\<close>

fun others_may :: "bool \<Rightarrow> inbox_op \<Rightarrow> bool" where
  "others_may turn (OpForeign d intent) = quiet_intent turn d intent"
| "others_may turn _ = True"

definition settle_call :: "nat \<Rightarrow> string + stage \<Rightarrow> tool_run \<Rightarrow> tool_run" where
  "settle_call i res r =
     (case res of
        Inr s \<Rightarrow> r\<lparr>tx_slots := (tx_slots r)[i := Some s], tx_settled := i # tx_settled r\<rparr>
      | Inl msg \<Rightarrow> r\<lparr>tx_failure := (case tx_failure r of None \<Rightarrow> Some (RuntimeFailure msg) | Some f \<Rightarrow> Some f),
          tx_settled := i # tx_settled r\<rparr>)"

definition tool_step :: "int \<Rightarrow> tool_input \<Rightarrow> tool_run \<Rightarrow> tool_run option" where
  "tool_step now inp r = (case inp of
      SignalAborted \<Rightarrow> Some (r\<lparr>tx_signal := True\<rparr>)
    | Elsewhere p \<Rightarrow> if others_may True p then Some (r\<lparr>tx_inbox := run_op now p (tx_inbox r)\<rparr>) else None
    | Settled i res \<Rightarrow>
        if i \<in> set (tx_flight r) \<and> i \<notin> set (tx_settled r) then Some (settle_call i res r) else None
    | _ \<Rightarrow> main_step now inp r)"

fun run_tools :: "(int \<times> tool_input) list \<Rightarrow> tool_run \<Rightarrow> tool_run option" where
  "run_tools [] r = Some r"
| "run_tools ((now, inp) # rest) r = (case tool_step now inp r of None \<Rightarrow> None | Some r' \<Rightarrow> run_tools rest r')"

section \<open>Inbox operations are background\<close>

lemma mutate_quiet:
  assumes inv: "inbox_inv ix" and m: "mutate now t a b ms d ix = (ix', r)"
  shows "quiet_growth turn (ix_session ix) (ix_session ix')"
  using inv m
proof (cases rule: mutate_cases)
  case (spliced i n)
  have "ses_header (ix_session ix') = ses_header (ix_session ix)"
    using m by (auto simp: mutate_def Let_def split: if_splits sum.splits prod.splits dest: session_append_frame(1))
  with spliced show ?thesis by (auto simp: quiet_growth_def inbox_inv_def quiet_event_def)
qed (use inv in \<open>auto simp: inbox_inv_def\<close>)

definition quiet_op :: "bool \<Rightarrow> (inbox \<Rightarrow> inbox \<times> 'r) \<Rightarrow> bool" where
  "quiet_op turn f \<longleftrightarrow> (\<forall>ix. inbox_inv ix \<longrightarrow> inbox_inv (fst (f ix)) \<and> quiet_growth turn (ix_session ix) (ix_session (fst (f ix))))"

lemma quiet_mutate: "quiet_op turn (mutate now t a b ms d)"
  unfolding quiet_op_def using mutate_quiet mutate_inv by (metis prod.collapse)

lemma quiet_splice: "quiet_op turn (splice now t a b ms)"
  using quiet_mutate by (simp add: quiet_op_def splice_def)

lemma quiet_done: "quiet_op turn (\<lambda>ix. (ix, r))"
  by (simp add: quiet_op_def inbox_inv_def)

lemma quiet_and_then:
  assumes f: "quiet_op turn f" and g: "\<And>a. quiet_op turn (g a)"
  shows "quiet_op turn (\<lambda>ix. and_then (f ix) g)"
  unfolding quiet_op_def
proof (intro allI impI)
  fix ix assume ix: "inbox_inv ix"
  with f have 1: "inbox_inv (fst (f ix))" "quiet_growth turn (ix_session ix) (ix_session (fst (f ix)))"
    by (simp_all add: quiet_op_def)
  show "inbox_inv (fst (and_then (f ix) g)) \<and> quiet_growth turn (ix_session ix) (ix_session (fst (and_then (f ix) g)))"
  proof (cases "snd (f ix)")
    case (Inl err)
    with 1 show ?thesis by (cases "f ix") (simp add: and_then_def)
  next
    case (Inr a)
    from g [of a] 1(1) have "inbox_inv (fst (g a (fst (f ix))))"
      "quiet_growth turn (ix_session (fst (f ix))) (ix_session (fst (g a (fst (f ix)))))"
      by (simp_all add: quiet_op_def)
    with 1 quiet_growth_trans Inr show ?thesis by (cases "f ix") (auto simp: and_then_def)
  qed
qed

lemma quiet_append_message: "quiet_op turn (append_message now t m)"
  using quiet_splice by (simp add: quiet_op_def append_message_def)

lemma quiet_prepend_message: "quiet_op turn (prepend_message now t m)"
  using quiet_splice by (simp add: quiet_op_def prepend_message_def)

lemma quiet_at:
  assumes "\<And>ix0. quiet_op turn (f ix0)"
  shows "quiet_op turn (\<lambda>ix. f ix ix)"
  using assms by (simp add: quiet_op_def)

lemma quiet_clear: "quiet_op turn (clear now)"
proof -
  have "quiet_op turn (\<lambda>ix. and_then (splice now NextStep (js_num 0) (js_num (length (ib_next_step (ix_lists ix0)))) [] ix)
     (\<lambda>_ ix1. and_then (splice now NextTurn (js_num 0) (js_num (length (ib_next_turn (ix_lists ix1)))) [] ix1) (\<lambda>_ ix2. (ix2, Inr ()))))" for ix0
    by (intro quiet_and_then quiet_splice quiet_done quiet_at [of turn "\<lambda>ix0 ix1. and_then (splice now NextTurn (js_num 0)
      (js_num (length (ib_next_turn (ix_lists ix0)))) [] ix1) (\<lambda>_ ix2. (ix2, Inr ()))"])
  from quiet_at [OF this] show ?thesis by (simp add: clear_def [abs_def])
qed

lemma quiet_claim: "quiet_op turn (claim now t n)"
proof -
  have last: "quiet_op turn (\<lambda>ix2. (ix2\<lparr>ix_notices := ix_notices ix2 @ ns\<rparr>, r))" for ns :: "inbox_notice list" and r :: "inbox_error + message list"
    by (simp add: quiet_op_def inbox_inv_def)
  have cond: "quiet_op turn (\<lambda>ix1. if t = NextTurn then mutate now NextTurn (js_num 0) (js_num 1) [] False ix1 else (ix1, Inr []))"
    by (cases "t = NextTurn") (simp_all add: quiet_mutate quiet_done)
  have "quiet_op turn (\<lambda>ix. and_then (mutate now NextStep (js_num 0) (js_num (length (ib_next_step (ix_lists ix0)))) [] False ix)
     (\<lambda>claimed ix1. and_then (if t = NextTurn then mutate now NextTurn (js_num 0) (js_num 1) [] False ix1 else (ix1, Inr []))
       (\<lambda>queued ix2. (ix2\<lparr>ix_notices := ix_notices ix2 @ map (\<lambda>m. InboxClaimed m n) (claimed @ queued)\<rparr>, Inr (claimed @ queued)))))" for ix0
    by (intro quiet_and_then quiet_mutate cond last)
  from quiet_at [OF this] show ?thesis by (simp add: claim_def [abs_def])
qed

lemma quiet_located:
  assumes "\<And>t k. quiet_op turn (g t k)"
  shows "quiet_op turn (\<lambda>ix. case locate i (ix_lists ix) of None \<Rightarrow> (ix, Inr False)
    | Some (target, k) \<Rightarrow> and_then (g target k ix) (\<lambda>_ ix1. (ix1, Inr True)))"
proof -
  have "quiet_op turn (\<lambda>ix. case loc of None \<Rightarrow> (ix, Inr False) | Some (target, k) \<Rightarrow> and_then (g target k ix) (\<lambda>_ ix1. (ix1, Inr True)))" for loc
    by (cases loc) (auto intro!: quiet_done quiet_and_then assms)
  from quiet_at [of turn "\<lambda>ix0 ix. case locate i (ix_lists ix0) of None \<Rightarrow> (ix, Inr False)
    | Some (target, k) \<Rightarrow> and_then (g target k ix) (\<lambda>_ ix1. (ix1, Inr True))", OF this] show ?thesis .
qed

lemma run_op_quiet:
  assumes "inbox_inv ix" and "others_may turn p"
  shows "inbox_inv (run_op now p ix) \<and> quiet_growth turn (ix_session ix) (ix_session (run_op now p ix))"
proof (cases p)
  case (OpForeign d intent)
  show ?thesis
  proof (cases "is_splice d")
    case False
    from OpForeign assms have "quiet_growth turn (ix_session ix) (fst (session_append now d intent (ix_session ix)))"
      by (intro quiet_growth_append) (simp_all add: inbox_inv_def)
    with OpForeign False foreign_inv [OF assms(1) False, of now intent] show ?thesis by simp
  qed (use OpForeign assms in \<open>simp add: inbox_inv_def\<close>)
qed (use assms quiet_clear quiet_claim quiet_append_message quiet_prepend_message quiet_splice
    quiet_located [of turn "\<lambda>t k. splice now t (js_num k) (js_num 1) ms" for ms] in
    \<open>auto simp: quiet_op_def replace_message_def remove_message_def\<close>)

lemma accept_contexts_quiet: "quiet_op turn (accept_contexts now ms)"
proof (induction ms)
  case Nil
  then show ?case using quiet_done by simp
next
  case (Cons m ms)
  then show ?case using quiet_and_then [OF quiet_append_message Cons.IH] by simp
qed

section \<open>Calls and answers in the log\<close>

definition call_of :: "'p event \<Rightarrow> (call_id \<times> int) option" where
  "call_of e = (case ev_data e of ToolCall _ _ c _ _ \<Rightarrow> Some (c, ev_seq e) | _ \<Rightarrow> None)"

definition answer_of :: "'p event \<Rightarrow> (call_id \<times> json option) option" where
  "answer_of e = (case ev_data e of
     ToolResult d \<Rightarrow> if ev_surface_op e = Some (JStr ''append'') then Some (trm_call_id (tr_message d), ev_sources e) else None
   | _ \<Rightarrow> None)"

definition calls_of :: "'p event list \<Rightarrow> (call_id \<times> int) list" where
  "calls_of evs = List.map_filter call_of evs"

definition answers_of :: "'p event list \<Rightarrow> (call_id \<times> json option) list" where
  "answers_of evs = List.map_filter answer_of evs"

text \<open>The answer a recorded call gets: it names the call and cites its event.\<close>

definition answer_to :: "call_id \<times> int \<Rightarrow> call_id \<times> json option" where
  "answer_to p = (fst p, Some (JArr [JInt (snd p)]))"

text \<open>
  Of the plan the first \<open>k\<close> calls are recorded, in order, and the first \<open>m\<close> of those are answered, in order, each
  answer citing its own call.
\<close>

definition plan_logged :: "nat \<Rightarrow> tool_call list \<Rightarrow> 'p event list \<Rightarrow> nat \<Rightarrow> nat \<Rightarrow> bool" where
  "plan_logged n0 plan evs k m \<longleftrightarrow> n0 \<le> length evs \<and> m \<le> k \<and> k \<le> length plan \<and>
     map fst (calls_of (drop n0 evs)) = map tc_id (take k plan) \<and>
     answers_of (drop n0 evs) = map answer_to (take m (calls_of (drop n0 evs))) \<and>
     (\<forall>p \<in> set (calls_of (drop n0 evs)). 0 \<le> snd p \<and> snd p < int (length evs))"

definition open_ids :: "tool_call list \<Rightarrow> nat \<Rightarrow> nat \<Rightarrow> call_id set" where
  "open_ids plan m k = tc_id ` set (take (k - m) (drop m plan))"

definition tool_world :: "nat \<Rightarrow> int \<Rightarrow> int \<Rightarrow> call_id set \<Rightarrow> inbox \<Rightarrow> int \<Rightarrow> int \<Rightarrow> tool_call list \<Rightarrow> nat \<Rightarrow> nat \<Rightarrow> bool" where
  "tool_world n0 nt ns others ix turn step plan k m \<longleftrightarrow> inbox_inv ix \<and>
     plan_logged n0 plan (ses_log (ix_session ix)) k m \<and>
     log_at (ses_log (ix_session ix)) (in_step turn step nt ns (others \<union> open_ids plan m k))"

lemma quiet_marks: "quiet_event turn e \<Longrightarrow> call_of e = None \<and> answer_of e = None"
  by (cases "ev_data e") (auto simp: quiet_event_def call_of_def answer_of_def)

lemma quiet_none: "list_all (quiet_event turn) evs \<Longrightarrow> calls_of evs = [] \<and> answers_of evs = []"
  by (induction evs) (auto simp: calls_of_def answers_of_def map_filter_simps map_filter_Cons quiet_marks)

lemma marks_append:
  "calls_of (xs @ ys) = calls_of xs @ calls_of ys" "answers_of (xs @ ys) = answers_of xs @ answers_of ys"
  by (simp_all add: calls_of_def answers_of_def map_filter_append)

lemma plan_logged_quiet:
  "plan_logged n0 plan evs k m \<Longrightarrow> list_all (quiet_event turn) later \<Longrightarrow> plan_logged n0 plan (evs @ later) k m"
  using quiet_none [of turn later] by (auto simp: plan_logged_def marks_append)

lemma tool_world_quiet:
  assumes w: "tool_world n0 nt ns others ix turn step plan k m" and ix': "inbox_inv ix'"
    and q: "quiet_growth True (ix_session ix) (ix_session ix')"
  shows "tool_world n0 nt ns others ix' turn step plan k m"
proof -
  from q obtain later where l: "ses_log (ix_session ix') = ses_log (ix_session ix) @ later" "list_all (quiet_event True) later"
    by (auto simp: quiet_growth_def)
  have "log_at (ses_log (ix_session ix')) (in_step turn step nt ns (others \<union> open_ids plan m k))"
    by (rule quiet_growth_at [OF q]) (use w in \<open>simp_all add: tool_world_def in_step_def\<close>)
  with w ix' plan_logged_quiet [OF _ l(2)] l(1) show ?thesis by (simp add: tool_world_def)
qed

lemma open_ids_call: "m \<le> k \<Longrightarrow> k < length plan \<Longrightarrow> open_ids plan m (Suc k) = insert (tc_id (plan ! k)) (open_ids plan m k)"
  by (simp add: open_ids_def Suc_diff_le take_Suc_conv_app_nth)

lemma open_ids_result:
  assumes "m < k" and "k \<le> length plan" and "distinct (map tc_id plan)"
  shows "tc_id (plan ! m) \<in> open_ids plan m k" and "open_ids plan (Suc m) k = open_ids plan m k - {tc_id (plan ! m)}"
proof -
  have split: "take (k - m) (drop m plan) = plan ! m # take (k - Suc m) (drop (Suc m) plan)"
    using assms(1,2) by (metis Cons_nth_drop_Suc Suc_diff_Suc less_le_trans take_Suc_Cons)
  then show "tc_id (plan ! m) \<in> open_ids plan m k" by (simp add: open_ids_def)
  have "distinct (map tc_id (plan ! m # take (k - Suc m) (drop (Suc m) plan)))"
    unfolding split [symmetric] using assms(3) by (simp add: take_map drop_map [symmetric] take_map [symmetric])
  then show "open_ids plan (Suc m) k = open_ids plan m k - {tc_id (plan ! m)}" by (auto simp: open_ids_def split)
qed

lemma call_recorded:
  assumes w: "tool_world n0 nt ns others ix turn step plan k m" and k: "k < length plan"
  obtains ix' where "append_tool_call now turn step (plan ! k) ix = (ix', Inr (int (length (ses_log (ix_session ix)))))"
    and "tool_world n0 nt ns others ix' turn step plan (Suc k) m"
    and "calls_of (drop n0 (ses_log (ix_session ix'))) =
      calls_of (drop n0 (ses_log (ix_session ix))) @ [(tc_id (plan ! k), int (length (ses_log (ix_session ix))))]"
    and "length (ses_log (ix_session ix')) = Suc (length (ses_log (ix_session ix)))"
proof -
  let ?s = "ix_session ix" and ?c = "plan ! k"
  let ?d = "ToolCall turn step (tc_id ?c) (tc_name ?c) (tc_args ?c) :: inbox_splice event_data"
  have ok: "session_ok ?s" and at: "log_at (ses_log ?s) (in_step turn step nt ns (others \<union> open_ids plan m k))"
    and p: "plan_logged n0 plan (ses_log ?s) k m" and inv: "inbox_inv ix"
    using w by (simp_all add: tool_world_def inbox_inv_def)
  have mv: "move (in_step turn step nt ns (others \<union> open_ids plan m k)) ?d False =
      Inr (in_step turn step nt ns (others \<union> open_ids plan m (Suc k)))"
    using p k by (simp add: open_ids_call plan_logged_def)
  have "\<not> is_surface_eligible_type ?d" by simp
  from append_log_only_at [OF ok at this mv] obtain s' where
    s': "session_append now ?d no_intent ?s = (s', Inr (log_event (int (length (ses_log ?s))) now ?d))" "session_ok s'"
      "log_at (ses_log s') (in_step turn step nt ns (others \<union> open_ids plan m (Suc k)))"
      "ses_log s' = ses_log ?s @ [log_event (int (length (ses_log ?s))) now ?d]" by blast
  let ?ix = "ix\<lparr>ix_session := s'\<rparr>"
  have a: "append_tool_call now turn step ?c ix = (?ix, Inr (int (length (ses_log ?s))))"
    by (simp add: append_tool_call_def s'(1))
  have "inbox_inv ?ix" using foreign_inv [OF inv, of ?d now no_intent] s'(1) by simp
  moreover have n0: "n0 \<le> length (ses_log ?s)" using p by (simp add: plan_logged_def)
  have c: "calls_of (drop n0 (ses_log s')) = calls_of (drop n0 (ses_log ?s)) @ [(tc_id ?c, int (length (ses_log ?s)))]"
    "answers_of (drop n0 (ses_log s')) = answers_of (drop n0 (ses_log ?s))"
    using n0 by (simp_all add: s'(4) marks_append) (simp_all add: calls_of_def answers_of_def map_filter_simps call_of_def answer_of_def)
  have "length (calls_of (drop n0 (ses_log ?s))) = k" using p k by (auto simp: plan_logged_def dest: arg_cong [of _ _ length])
  then have "plan_logged n0 plan (ses_log s') (Suc k) m"
    using p k c by (auto simp: plan_logged_def take_Suc_conv_app_nth s'(4))
  ultimately have "tool_world n0 nt ns others ?ix turn step plan (Suc k) m" using s'(3) by (simp add: tool_world_def)
  with a c(1) s'(4) that show thesis by simp
qed

lemma result_recorded:
  assumes w: "tool_world n0 nt ns others ix turn step plan k m" and m: "m < k" and d: "distinct (map tc_id plan)"
    and apart: "others \<inter> tc_id ` set plan = {}" and q: "q = snd (calls_of (drop n0 (ses_log (ix_session ix))) ! m)"
    and a: "append_tool_result now turn step (plan ! m) res mid q ix = (ix', r)"
  shows "tool_world n0 nt ns others ix' turn step plan k (if r = Inr () then Suc m else m)"
    and "calls_of (drop n0 (ses_log (ix_session ix'))) = calls_of (drop n0 (ses_log (ix_session ix)))"
proof -
  let ?s = "ix_session ix" and ?c = "plan ! m"
  let ?r = "result_data turn step ?c res mid" and ?calls = "calls_of (drop n0 (ses_log (ix_session ix)))"
  let ?d = "ToolResult ?r :: inbox_splice event_data"
  let ?e = "surface_event (int (length (ses_log ?s))) now ?d (Some [q])"
  have at: "log_at (ses_log ?s) (in_step turn step nt ns (others \<union> open_ids plan m k))"
    and p: "plan_logged n0 plan (ses_log ?s) k m" and inv: "inbox_inv ix"
    using w by (simp_all add: tool_world_def)
  then have k: "k \<le> length plan" and n0: "n0 \<le> length (ses_log ?s)" and len: "length ?calls = k"
    by (auto simp: plan_logged_def dest: arg_cong [of _ _ length])
  have call: "fst (?calls ! m) = tc_id ?c"
  proof -
    have "map fst ?calls ! m = map tc_id (take k plan) ! m" using p by (simp only: plan_logged_def)
    then show ?thesis using m k len by simp
  qed
  have "tc_id ?c \<in> others \<union> open_ids plan m k" using open_ids_result(1) [OF m k d] by simp
  then have mv: "move (in_step turn step nt ns (others \<union> open_ids plan m k)) ?d True =
      Inr (in_step turn step nt ns ((others \<union> open_ids plan m k) - {tc_id ?c}))"
    by (subst result_move) (simp_all add: result_data_def)
  have "tc_id ?c \<in> tc_id ` set plan" using m k by (intro imageI nth_mem) simp
  then have same: "(others \<union> open_ids plan m k) - {tc_id ?c} = others \<union> open_ids plan (Suc m) k"
    using open_ids_result(2) [OF m k d] apart by blast
  obtain s' ar where sa: "session_append now ?d (append_intent (Some [q])) ?s = (s', ar)"
    by (cases "session_append now ?d (append_intent (Some [q])) ?s")
  let ?ix = "ix\<lparr>ix_session := s'\<rparr>"
  have inv': "inbox_inv ?ix" using foreign_inv [OF inv, of ?d now "append_intent (Some [q])"] sa by simp
  have "tool_world n0 nt ns others ix' turn step plan k (if r = Inr () then Suc m else m) \<and>
    calls_of (drop n0 (ses_log (ix_session ix'))) = ?calls"
  proof (cases ar)
    case (Inl err)
    then have "ix' = ?ix" "r \<noteq> Inr ()" using a sa by (auto simp: append_tool_result_def)
    moreover have "ses_log s' = ses_log ?s" using session_append_effect [OF sa] Inl by simp
    ultimately show ?thesis using w inv' by (simp add: tool_world_def)
  next
    case (Inr e)
    then have ix': "ix' = ?ix" "r = Inr ()" using a sa by (auto simp: append_tool_result_def)
    have "append_candidate now ?d (append_intent (Some [q])) ?s = ?e" by (simp add: append_candidate_def surface_event_def)
    with session_append_effect [OF sa] Inr have l: "ses_log s' = ses_log ?s @ [?e]" by simp
    have at': "log_at (ses_log s') (in_step turn step nt ns (others \<union> open_ids plan (Suc m) k))"
      unfolding l by (rule log_at_snoc [OF at mv [unfolded same]]) (simp_all add: surface_event_def)
    have c: "calls_of (drop n0 (ses_log s')) = ?calls"
      "answers_of (drop n0 (ses_log s')) = answers_of (drop n0 (ses_log ?s)) @ [(tc_id ?c, Some (JArr [JInt q]))]"
      using n0 by (simp_all add: l marks_append)
        (simp_all add: calls_of_def answers_of_def map_filter_simps call_of_def answer_of_def surface_event_def result_data_def)
    have "answer_to (?calls ! m) = (tc_id ?c, Some (JArr [JInt q]))" using call q by (simp add: answer_to_def)
    then have "plan_logged n0 plan (ses_log s') k (Suc m)"
      using p m k c len by (auto simp: plan_logged_def take_Suc_conv_app_nth l)
    then show ?thesis using at' c(1) inv' by (simp add: tool_world_def ix')
  qed
  then show "tool_world n0 nt ns others ix' turn step plan k (if r = Inr () then Suc m else m)"
    and "calls_of (drop n0 (ses_log (ix_session ix'))) = ?calls" by blast+
qed

section \<open>The scheduler's invariant\<close>

fun active :: "schedule_at \<Rightarrow> bool" where
  "active AtFill = True"
| "active AtPrepare = True"
| "active AtCommit = True"
| "active AtRace = True"
| "active _ = False"

fun failed_at :: "schedule_at \<Rightarrow> bool" where
  "failed_at AtDrain = True"
| "failed_at AtThrown = True"
| "failed_at _ = False"

definition done_calls :: "tool_run \<Rightarrow> nat" where
  "done_calls r = tx_next r + (if active (tx_at r) then tx_started r else 0)"

definition done_results :: "tool_run \<Rightarrow> nat" where
  "done_results r = tx_next r + (if active (tx_at r) then tx_committed r else 0)"

text \<open>The running group: what its slots, its pool and its counters say of one another.\<close>

definition group_inv :: "tool_run \<Rightarrow> bool" where
  "group_inv r \<longleftrightarrow> tx_next r < length (tx_plan r) \<and>
     length (tx_slots r) = length (tool_group r) \<and> length (tx_seqs r) = length (tool_group r) \<and>
     tx_committed r \<le> tx_start r \<and> tx_started r \<le> length (tool_group r) \<and>
     tx_started r = tx_start r + (if tx_at r = AtPrepare then 1 else 0) \<and>
     (\<forall>i < length (tool_group r). tx_slots r ! i \<noteq> None \<longrightarrow> i < tx_start r)"

definition pool_inv :: "tool_run \<Rightarrow> bool" where
  "pool_inv r \<longleftrightarrow> distinct (tx_flight r) \<and> (\<forall>i \<in> set (tx_flight r) \<union> set (tx_settled r). i < tx_start r) \<and> length (tx_flight r) \<le> tx_cap r \<and>
     (tx_at r = AtPrepare \<longrightarrow> length (tx_flight r) < tx_cap r) \<and> (tx_at r = AtRace \<longrightarrow> tx_flight r \<noteq> []) \<and>
     (tx_failure r \<noteq> None \<longrightarrow> tx_flight r \<noteq> []) \<and>
     (tx_failure r = None \<longrightarrow> (\<forall>i < tx_start r. tx_slots r ! i \<noteq> None \<or> i \<in> set (tx_flight r) \<and> i \<notin> set (tx_settled r))) \<and>
     (tx_failure r = None \<and> tx_at r \<noteq> AtCommit \<longrightarrow> tx_committed r < tx_start r \<longrightarrow> tx_committed r \<in> set (tx_flight r))"

definition seqs_inv :: "nat \<Rightarrow> tool_run \<Rightarrow> bool" where
  "seqs_inv n0 r \<longleftrightarrow> (\<forall>i < tx_started r.
     tx_seqs r ! i = snd (calls_of (drop n0 (ses_log (ix_session (tx_inbox r)))) ! (tx_next r + i)))"

text \<open>An exclusive call runs alone.\<close>

definition pool_size :: "tool_run \<Rightarrow> nat" where
  "pool_size r = (if tx_parallel r then tx_cap r else min 1 (tx_cap r))"

definition tool_inv :: "nat \<Rightarrow> int \<Rightarrow> int \<Rightarrow> call_id set \<Rightarrow> tool_run \<Rightarrow> bool" where
  "tool_inv n0 nt ns others r \<longleftrightarrow> tx_next r \<le> length (tx_plan r) \<and> length (tx_flight r) \<le> pool_size r \<and>
     tx_failure r \<noteq> Some Uncommitted \<and> (failed_at (tx_at r) \<longrightarrow> tx_failure r \<noteq> None) \<and>
     (active (tx_at r) \<longrightarrow> group_inv r \<and> pool_inv r \<and> seqs_inv n0 r) \<and>
     (\<exists>k m. tool_world n0 nt ns others (tx_inbox r) (tx_turn r) (tx_step r) (tx_plan r) k m \<and>
        (\<not> failed_at (tx_at r) \<longrightarrow> k = done_calls r \<and> m = done_results r)) \<and>
     (tx_at r = AtReturned \<longrightarrow> tx_next r = length (tx_plan r))"

abbreviation tool_log :: "tool_run \<Rightarrow> inbox_splice event list" where
  "tool_log r \<equiv> ses_log (ix_session (tx_inbox r))"

lemma tool_group_nth: "i < length (tool_group r) \<Longrightarrow> tool_group r ! i = tx_plan r ! (tx_next r + i)"
  by (auto simp: tool_group_def)

lemma tool_group_length: "length (tool_group r) \<le> length (tx_plan r) - tx_next r"
  by (simp add: tool_group_def)

lemma tool_group_update [simp]:
  "tool_group (r\<lparr>tx_inbox := a\<rparr>) = tool_group r" "tool_group (r\<lparr>tx_slots := b\<rparr>) = tool_group r"
  "tool_group (r\<lparr>tx_seqs := c\<rparr>) = tool_group r" "tool_group (r\<lparr>tx_start := d\<rparr>) = tool_group r"
  "tool_group (r\<lparr>tx_started := e\<rparr>) = tool_group r" "tool_group (r\<lparr>tx_committed := d\<rparr>) = tool_group r"
  "tool_group (r\<lparr>tx_aborted := f\<rparr>) = tool_group r" "tool_group (r\<lparr>tx_group_concluded := f\<rparr>) = tool_group r"
  "tool_group (r\<lparr>tx_failure := g\<rparr>) = tool_group r" "tool_group (r\<lparr>tx_flight := h\<rparr>) = tool_group r"
  "tool_group (r\<lparr>tx_settled := h\<rparr>) = tool_group r" "tool_group (r\<lparr>tx_at := k\<rparr>) = tool_group r"
  "tool_group (r\<lparr>tx_signal := f\<rparr>) = tool_group r" "tool_group (r\<lparr>tx_concluded := f\<rparr>) = tool_group r"
  by (simp_all add: tool_group_def)

lemma fail_with_simps [simp]:
  "tx_at (fail_with f r) = AtDrain" "tx_inbox (fail_with f r) = tx_inbox r" "tx_plan (fail_with f r) = tx_plan r"
  "tx_next (fail_with f r) = tx_next r" "tx_turn (fail_with f r) = tx_turn r" "tx_step (fail_with f r) = tx_step r"
  "tx_flight (fail_with f r) = tx_flight r" "tx_parallel (fail_with f r) = tx_parallel r" "tx_cap (fail_with f r) = tx_cap r" "tx_settled (fail_with f r) = tx_settled r"
  "tx_started (fail_with f r) = tx_started r" "tx_committed (fail_with f r) = tx_committed r"
  "tx_failure (fail_with f r) = Some (case tx_failure r of None \<Rightarrow> f | Some f0 \<Rightarrow> f0)"
  by (simp_all add: fail_with_def split: option.splits)

text \<open>Failing keeps the invariant: nothing is asserted of the group any more.\<close>

lemma fail_inv:
  assumes "tool_inv n0 nt ns others r0"
    and "tx_next r = tx_next r0" "tx_plan r = tx_plan r0" "tx_cap r = tx_cap r0" "tx_parallel r = tx_parallel r0" "tx_failure r = tx_failure r0"
    and "length (tx_flight r) \<le> length (tx_flight r0)" and "f \<noteq> Uncommitted"
    and "tool_world n0 nt ns others (tx_inbox r) (tx_turn r) (tx_step r) (tx_plan r) k m"
  shows "tool_inv n0 nt ns others (fail_with f r)"
  using assms by (auto simp: tool_inv_def pool_size_def split: option.splits)

lemma tool_inv_active:
  assumes "tool_inv n0 nt ns others r" and "active (tx_at r)"
  shows "group_inv r" and "pool_inv r" and "seqs_inv n0 r" and "tx_next r \<le> length (tx_plan r)"
    and "tool_world n0 nt ns others (tx_inbox r) (tx_turn r) (tx_step r) (tx_plan r) (tx_next r + tx_started r) (tx_next r + tx_committed r)"
    and "length (tx_flight r) \<le> tx_cap r" and "tx_failure r \<noteq> Some Uncommitted"
proof -
  have "\<not> failed_at (tx_at r)" using assms(2) by (cases "tx_at r") simp_all
  with assms show "group_inv r" and "pool_inv r" and "seqs_inv n0 r" and "tx_next r \<le> length (tx_plan r)"
    and "tool_world n0 nt ns others (tx_inbox r) (tx_turn r) (tx_step r) (tx_plan r) (tx_next r + tx_started r) (tx_next r + tx_committed r)"
    and "length (tx_flight r) \<le> tx_cap r" and "tx_failure r \<noteq> Some Uncommitted"
    by (simp_all add: tool_inv_def done_calls_def done_results_def pool_size_def split: if_splits)
qed

text \<open>What re-establishes the invariant inside a group.\<close>

lemma tool_inv_activeI:
  assumes "active (tx_at r)" and "group_inv r" and "pool_inv r" and "seqs_inv n0 r" and "tx_next r \<le> length (tx_plan r)"
    and "tool_world n0 nt ns others (tx_inbox r) (tx_turn r) (tx_step r) (tx_plan r) (tx_next r + tx_started r) (tx_next r + tx_committed r)"
    and "tx_failure r \<noteq> Some Uncommitted"
  shows "tool_inv n0 nt ns others r"
proof -
  have "\<not> failed_at (tx_at r)" "tx_at r \<noteq> AtReturned" using assms(1) by (cases "tx_at r"; simp)+
  moreover have "length (tx_flight r) \<le> pool_size r"
  proof (cases "tx_parallel r")
    case False
    then have "length (tool_group r) \<le> 1" by (simp add: tool_group_def)
    moreover have "\<forall>i \<in> set (tx_flight r). i < tx_start r" "tx_start r \<le> length (tool_group r)" "distinct (tx_flight r)"
      using assms(2,3) by (simp_all add: group_inv_def pool_inv_def)
    ultimately have "set (tx_flight r) \<subseteq> {0}" "distinct (tx_flight r)" by (force simp: less_Suc_eq)+
    then have "length (tx_flight r) \<le> 1" using card_mono [of "{0}" "set (tx_flight r)"] by (simp add: distinct_card)
    then show ?thesis using assms(3) False by (simp add: pool_size_def pool_inv_def)
  qed (use assms(3) in \<open>simp add: pool_size_def pool_inv_def\<close>)
  ultimately show ?thesis using assms by (simp add: tool_inv_def done_calls_def done_results_def)
qed

lemma start_call_inv:
  assumes inv: "tool_inv n0 nt ns others r" and fill: "tx_at r = AtFill" "can_fill r"
  shows "tool_inv n0 nt ns others (start_call now r)"
proof -
  let ?k = "tx_next r + tx_started r" and ?m = "tx_next r + tx_committed r"
  have act: "active (tx_at r)" using fill(1) by simp
  note i = tool_inv_active [OF inv act]
  have started: "tx_started r = tx_start r" "tx_start r < length (tool_group r)"
    using i(1) fill by (simp_all add: group_inv_def can_fill_def)
  then have nth: "tool_group r ! tx_start r = tx_plan r ! ?k" and k: "?k < length (tx_plan r)"
    using tool_group_nth [of "tx_start r" r] tool_group_length [of r] by simp_all
  obtain ix' where a: "append_tool_call now (tx_turn r) (tx_step r) (tx_plan r ! ?k) (tx_inbox r) = (ix', Inr (int (length (tool_log r))))"
    and w': "tool_world n0 nt ns others ix' (tx_turn r) (tx_step r) (tx_plan r) (Suc ?k) ?m"
    and calls: "calls_of (drop n0 (ses_log (ix_session ix'))) =
      calls_of (drop n0 (tool_log r)) @ [(tc_id (tx_plan r ! ?k), int (length (tool_log r)))]"
    by (rule call_recorded [OF i(5) k])
  let ?r = "r\<lparr>tx_inbox := ix', tx_seqs := (tx_seqs r)[tx_start r := int (length (tool_log r))], tx_started := tx_started r + 1,
      tx_at := AtPrepare\<rparr>"
  have r': "start_call now r = ?r" by (simp add: start_call_def nth a)
  have n: "length (calls_of (drop n0 (tool_log r))) = ?k"
    using i(5) k by (auto simp: tool_world_def plan_logged_def dest: arg_cong [of _ _ length])
  have "group_inv ?r" using i(1) started fill by (auto simp: group_inv_def)
  moreover have "pool_inv ?r" using i(2) fill by (auto simp: pool_inv_def can_fill_def)
  moreover have "seqs_inv n0 ?r"
    using i(1,3) started n by (auto simp: seqs_inv_def calls nth_append less_Suc_eq group_inv_def)
  ultimately show ?thesis unfolding r' by (intro tool_inv_activeI) (use i(4,7) w' in simp_all)
qed

lemma prepare_cases:
  "prepare_step inp r = Some r' \<Longrightarrow> tx_failure r \<noteq> Some Uncommitted \<Longrightarrow>
     (\<exists>f. r' = fail_with f r \<and> f \<noteq> Uncommitted) \<or>
     tx_failure r = None \<and>
       (r' = r\<lparr>tx_flight := tx_flight r @ [tx_start r], tx_start := tx_start r + 1, tx_at := AtCommit\<rparr> \<or>
        (\<exists>st. r' = r\<lparr>tx_slots := (tx_slots r)[tx_start r := Some st], tx_start := tx_start r + 1, tx_at := AtCommit\<rparr>))"
  by (cases inp; cases "tx_failure r") (auto simp: prepare_step_def Let_def split: prepare_outcome.splits)

lemma prepared_call_inv:
  assumes inv: "tool_inv n0 nt ns others r" and at': "tx_at r = AtPrepare" and s: "prepare_step inp r = Some r'"
  shows "tool_inv n0 nt ns others r'"
proof -
  have act: "active (tx_at r)" using at' by simp
  note i = tool_inv_active [OF inv act]
  have counts: "tx_started r = Suc (tx_start r)" "tx_start r < length (tx_slots r)" using i(1) at' by (auto simp: group_inv_def)
  consider (fails) f where "r' = fail_with f r" "f \<noteq> Uncommitted"
    | (dispatched) "tx_failure r = None" "r' = r\<lparr>tx_flight := tx_flight r @ [tx_start r], tx_start := tx_start r + 1, tx_at := AtCommit\<rparr>"
    | (ready) st where "tx_failure r = None" "r' = r\<lparr>tx_slots := (tx_slots r)[tx_start r := Some st], tx_start := tx_start r + 1, tx_at := AtCommit\<rparr>"
    using prepare_cases [OF s i(7)] by (elim disjE exE conjE)
  then show ?thesis
  proof cases
    case fails
    then show ?thesis using fail_inv [OF inv _ _ _ _ _ _ _ i(5)] by simp
  next
    case dispatched
    have "group_inv r'" using i(1) counts by (auto simp: group_inv_def dispatched(2) at' less_Suc_eq)
    moreover have "pool_inv r'"
      using i(2) counts dispatched(1) by (auto simp: pool_inv_def dispatched(2) at' less_Suc_eq)
    moreover have "seqs_inv n0 r'" using i(3) by (simp add: seqs_inv_def dispatched(2))
    ultimately show ?thesis by (intro tool_inv_activeI) (use i in \<open>simp_all add: dispatched(2)\<close>)
  next
    case ready
    have "group_inv r'" using i(1) counts by (auto simp: group_inv_def ready(2) at' less_Suc_eq nth_list_update)
    moreover have "pool_inv r'"
      using i(2) counts ready(1) by (auto simp: pool_inv_def ready(2) at' less_Suc_eq nth_list_update)
    moreover have "seqs_inv n0 r'" using i(3) by (simp add: seqs_inv_def ready(2))
    ultimately show ?thesis by (intro tool_inv_activeI) (use i in \<open>simp_all add: ready(2)\<close>)
  qed
qed

lemma calls_of_growth:
  assumes "quiet_growth turn s s'" and "n0 \<le> length (ses_log s)"
  shows "calls_of (drop n0 (ses_log s')) = calls_of (drop n0 (ses_log s))"
proof -
  from assms(1) obtain later where "ses_log s' = ses_log s @ later" "list_all (quiet_event turn) later" by (auto simp: quiet_growth_def)
  then show ?thesis using assms(2) quiet_none [of turn later] by (simp add: marks_append)
qed

text \<open>A result is recorded for the oldest unanswered call of the group.\<close>

lemma commit_result_inv:
  assumes inv: "tool_inv n0 nt ns others r" and at': "tx_at r = AtCommit" and slot: "ready_slot r = Some st"
    and d: "distinct (map tc_id (tx_plan r))" and apart: "others \<inter> tc_id ` set (tx_plan r) = {}"
  shows "tool_inv n0 nt ns others (commit_result now res mid r)"
proof -
  let ?k = "tx_next r + tx_started r" and ?m = "tx_next r + tx_committed r"
  have act: "active (tx_at r)" using at' by simp
  note i = tool_inv_active [OF inv act]
  have c: "tx_committed r < length (tool_group r)" "tx_slots r ! tx_committed r \<noteq> None"
    using slot by (auto simp: ready_slot_def split: if_splits)
  then have start: "tx_committed r < tx_start r" "tx_started r = tx_start r" using i(1) at' by (auto simp: group_inv_def)
  have nth: "tool_group r ! tx_committed r = tx_plan r ! ?m" by (rule tool_group_nth [OF c(1)])
  have seq: "tx_seqs r ! tx_committed r = snd (calls_of (drop n0 (tool_log r)) ! ?m)" using i(3) start by (simp add: seqs_inv_def)
  have m: "?m < ?k" using start by simp
  obtain ix1 q1 where a: "append_tool_result now (tx_turn r) (tx_step r) (tx_plan r ! ?m) res mid (tx_seqs r ! tx_committed r) (tx_inbox r) = (ix1, q1)"
    by (cases "append_tool_result now (tx_turn r) (tx_step r) (tx_plan r ! ?m) res mid (tx_seqs r ! tx_committed r) (tx_inbox r)")
  note w1 = result_recorded [OF i(5) m d apart seq a]
  show ?thesis
  proof (cases q1)
    case (Inl err)
    then have "commit_result now res mid r = fail_with (ToolAppendFailed err) (r\<lparr>tx_inbox := ix1\<rparr>)" by (simp add: commit_result_def nth a)
    then show ?thesis using fail_inv [OF inv, of "r\<lparr>tx_inbox := ix1\<rparr>"] w1(1) Inl by simp
  next
    case (Inr u)
    obtain ix2 q2 where acc: "accept_contexts now (to_contexts res) ix1 = (ix2, q2)" by (cases "accept_contexts now (to_contexts res) ix1")
    have quiet: "inbox_inv ix2" "quiet_growth True (ix_session ix1) (ix_session ix2)"
      using accept_contexts_quiet [of True now "to_contexts res"] w1(1) acc by (auto simp: quiet_op_def tool_world_def)
    have w2: "tool_world n0 nt ns others ix2 (tx_turn r) (tx_step r) (tx_plan r) ?k (Suc ?m)"
      by (rule tool_world_quiet [OF _ quiet]) (use w1(1) Inr in simp)
    have calls2: "calls_of (drop n0 (ses_log (ix_session ix2))) = calls_of (drop n0 (tool_log r))"
      using calls_of_growth [OF quiet(2)] w1 by (simp add: tool_world_def plan_logged_def)
    show ?thesis
    proof (cases q2)
      case (Inl err)
      then have "commit_result now res mid r = fail_with (ContextRejected err) (r\<lparr>tx_inbox := ix2\<rparr>)"
        using Inr by (simp add: commit_result_def nth a acc)
      then show ?thesis using fail_inv [OF inv, of "r\<lparr>tx_inbox := ix2\<rparr>"] w2 by simp
    next
      case (Inr u')
      let ?r = "r\<lparr>tx_inbox := ix2, tx_group_concluded := (tx_group_concluded r \<or> to_concludes res), tx_committed := tx_committed r + 1\<rparr>"
      have r': "commit_result now res mid r = ?r" using Inr \<open>q1 = Inr u\<close> by (simp add: commit_result_def nth a acc)
      have "group_inv ?r" using i(1) start at' by (auto simp: group_inv_def)
      moreover have "pool_inv ?r" using i(2) at' by (auto simp: pool_inv_def)
      moreover have "seqs_inv n0 ?r" using i(3) calls2 by (simp add: seqs_inv_def)
      ultimately show ?thesis unfolding r' by (intro tool_inv_activeI) (use i(4,7) w2 at' in simp_all)
    qed
  qed
qed

text \<open>A group closes with every started call answered: the last check of \<open>runGroup\<close> never fires.\<close>

lemma idle_group_is_committed:
  assumes "group_inv r" and "pool_inv r" and "tx_at r = AtFill" and "tx_flight r = []"
  shows "tx_committed r = tx_started r" and "tx_failure r = None"
  using assms by (auto simp: group_inv_def pool_inv_def)

lemma after_fill_inv:
  assumes inv: "tool_inv n0 nt ns others r" and at': "tx_at r = AtFill"
  shows "tool_inv n0 nt ns others (after_fill r)"
proof -
  have act: "active (tx_at r)" using at' by simp
  note i = tool_inv_active [OF inv act]
  show ?thesis
  proof (cases "tx_flight r = []")
    case False
    have "group_inv (r\<lparr>tx_at := AtRace\<rparr>)" using i(1) at' by (auto simp: group_inv_def)
    moreover have "pool_inv (r\<lparr>tx_at := AtRace\<rparr>)" using i(2) at' False by (auto simp: pool_inv_def)
    moreover have "seqs_inv n0 (r\<lparr>tx_at := AtRace\<rparr>)" using i(3) by (simp add: seqs_inv_def)
    ultimately have "tool_inv n0 nt ns others (r\<lparr>tx_at := AtRace\<rparr>)" by (intro tool_inv_activeI) (use i in simp_all)
    then show ?thesis using False by (simp add: after_fill_def)
  next
    case True
    note idle = idle_group_is_committed [OF i(1,2) at' True]
    have le: "tx_next r + tx_started r \<le> length (tx_plan r)"
      using i(1) tool_group_length [of r] i(4) by (auto simp: group_inv_def)
    show ?thesis
      using i(5) le True idle by (auto simp: after_fill_def close_group_def Let_def tool_inv_def done_calls_def done_results_def)
  qed
qed

lemma begin_group_inv:
  assumes inv: "tool_inv n0 nt ns others r" and at': "tx_at r = AtClassify" and more': "tx_next r < length (tx_plan r)"
  shows "tool_inv n0 nt ns others (begin_group par r)"
proof -
  let ?r = "begin_group par r"
  have g: "tool_group ?r = tool_group (r\<lparr>tx_parallel := par\<rparr>)" by (simp add: begin_group_def Let_def tool_group_def)
  have w: "tool_world n0 nt ns others (tx_inbox r) (tx_turn r) (tx_step r) (tx_plan r) (tx_next r) (tx_next r)"
    using inv at' by (auto simp: tool_inv_def done_calls_def done_results_def)
  have "group_inv ?r" unfolding group_inv_def g using more' by (simp add: begin_group_def Let_def)
  moreover have "pool_inv ?r" by (simp add: pool_inv_def begin_group_def Let_def)
  moreover have "seqs_inv n0 ?r" by (simp add: seqs_inv_def begin_group_def Let_def)
  ultimately show ?thesis by (intro tool_inv_activeI) (use w more' in \<open>simp_all add: begin_group_def Let_def\<close>)
qed

lemma commit_leave_inv:
  assumes inv: "tool_inv n0 nt ns others r" and at': "tx_at r = AtCommit" and slot: "ready_slot r = None" and ok: "tx_failure r = None"
  shows "tool_inv n0 nt ns others (r\<lparr>tx_aborted := (tx_aborted r \<or> tx_signal r), tx_at := AtFill\<rparr>)"
proof -
  let ?r = "r\<lparr>tx_aborted := (tx_aborted r \<or> tx_signal r), tx_at := AtFill\<rparr>"
  have act: "active (tx_at r)" using at' by simp
  note i = tool_inv_active [OF inv act]
  have "group_inv ?r" using i(1) at' by (auto simp: group_inv_def)
  moreover have "pool_inv ?r"
    using i(1,2) ok slot at' by (auto simp: pool_inv_def ready_slot_def group_inv_def split: if_splits)
  moreover have "seqs_inv n0 ?r" using i(3) by (simp add: seqs_inv_def)
  ultimately show ?thesis by (intro tool_inv_activeI) (use i in simp_all)
qed

lemma race_inv:
  assumes inv: "tool_inv n0 nt ns others r" and at': "tx_at r = AtRace" and s: "race_step inp r = Some r'"
  shows "tool_inv n0 nt ns others r'"
proof -
  have act: "active (tx_at r)" using at' by simp
  note i = tool_inv_active [OF inv act]
  obtain j where j: "inp = Picked j" "j \<in> set (tx_flight r)" "j \<in> set (tx_settled r)"
    using s by (cases inp) (auto simp: race_step_def split: if_splits)
  show ?thesis
  proof (cases "tx_failure r")
    case (Some f)
    then have "r' = fail_with f (r\<lparr>tx_flight := remove1 j (tx_flight r)\<rparr>)" using s j by (simp add: race_step_def)
    moreover have "f \<noteq> Uncommitted" using Some i(7) by simp
    ultimately show ?thesis using i(5) by (auto intro!: fail_inv [OF inv] simp: length_remove1)
  next
    case None
    then have r': "r' = r\<lparr>tx_flight := remove1 j (tx_flight r), tx_at := AtCommit\<rparr>" using s j by (simp add: race_step_def)
    have "group_inv r'" using i(1) at' by (auto simp: group_inv_def r')
    moreover have "pool_inv r'"
      using i(2) None at' j by (auto simp: pool_inv_def r' length_remove1 dest: set_remove1_subset [THEN subsetD])
    moreover have "seqs_inv n0 r'" using i(3) by (simp add: seqs_inv_def r')
    ultimately show ?thesis by (intro tool_inv_activeI) (use i in \<open>simp_all add: r'\<close>)
  qed
qed

lemma tool_inv_settled_call:
  assumes inv: "tool_inv n0 nt ns others r" and j: "j \<in> set (tx_flight r)"
  shows "tool_inv n0 nt ns others (settle_call j res r)"
proof -
  let ?r = "settle_call j res r"
  have frame: "tx_at ?r = tx_at r" "tx_next ?r = tx_next r" "tx_plan ?r = tx_plan r" "tx_inbox ?r = tx_inbox r" "tx_turn ?r = tx_turn r"
    "tx_step ?r = tx_step r" "tx_started ?r = tx_started r" "tx_committed ?r = tx_committed r" "tx_flight ?r = tx_flight r"
    "pool_size ?r = pool_size r" "tx_cap ?r = tx_cap r" "tx_seqs ?r = tx_seqs r" "tx_failure r \<noteq> Some Uncommitted \<longrightarrow> tx_failure ?r \<noteq> Some Uncommitted"
    "tx_failure r \<noteq> None \<longrightarrow> tx_failure ?r \<noteq> None"
    by (cases res; auto simp: settle_call_def pool_size_def split: option.splits)+
  have act: "group_inv ?r \<and> pool_inv ?r \<and> seqs_inv n0 ?r" if "active (tx_at r)"
  proof -
    note i = tool_inv_active [OF inv that]
    have "j < tx_start r" using i(2) j by (auto simp: pool_inv_def)
    then have "group_inv ?r" using i(1) by (cases res) (auto simp: settle_call_def group_inv_def nth_list_update)
    moreover have "pool_inv ?r"
    proof (cases res)
      case (Inl msg)
      then have "tx_failure ?r \<noteq> None" by (simp add: settle_call_def split: option.splits)
      moreover have "tx_settled ?r = j # tx_settled r" "tx_start ?r = tx_start r" using Inl by (simp_all add: settle_call_def)
      ultimately show ?thesis using i(2) j \<open>j < tx_start r\<close> by (auto simp: pool_inv_def frame)
    next
      case (Inr st)
      then have e: "tx_settled ?r = j # tx_settled r" "tx_start ?r = tx_start r" "tx_failure ?r = tx_failure r"
        "tx_slots ?r = (tx_slots r)[j := Some st]" by (simp_all add: settle_call_def)
      have "j < length (tx_slots r)" using i(1) \<open>j < tx_start r\<close> by (auto simp: group_inv_def)
      then have "\<forall>i < tx_start r. (tx_slots r ! i \<noteq> None \<or> i \<in> set (tx_flight r) \<and> i \<notin> set (tx_settled r)) \<longrightarrow>
          (tx_slots r)[j := Some st] ! i \<noteq> None \<or> i \<in> set (tx_flight r) \<and> i \<notin> set (j # tx_settled r)"
        by (simp add: nth_list_update)
      then show ?thesis using i(2) \<open>j < tx_start r\<close> unfolding pool_inv_def frame e set_simps by blast
    qed
    moreover have "seqs_inv n0 ?r" using i(3) by (simp add: seqs_inv_def frame)
    ultimately show ?thesis by blast
  qed
  have counts: "done_calls ?r = done_calls r" "done_results ?r = done_results r" by (simp_all add: done_calls_def done_results_def frame)
  show ?thesis using inv act frame(13,14) unfolding tool_inv_def frame(1-12) counts by (simp; blast)
qed

lemma signal_inv: "tool_inv n0 nt ns others r \<Longrightarrow> tool_inv n0 nt ns others (r\<lparr>tx_signal := True\<rparr>)"
proof -
  let ?r = "r\<lparr>tx_signal := True\<rparr>"
  have same: "group_inv ?r = group_inv r" "pool_inv ?r = pool_inv r" "seqs_inv n0 ?r = seqs_inv n0 r"
    "done_calls ?r = done_calls r" "done_results ?r = done_results r" "pool_size ?r = pool_size r"
    by (simp_all add: pool_size_def group_inv_def pool_inv_def seqs_inv_def done_calls_def done_results_def)
  assume "tool_inv n0 nt ns others r"
  then show ?thesis unfolding tool_inv_def same by simp
qed

lemma tool_inv_quiet:
  assumes inv: "tool_inv n0 nt ns others r" and q: "inbox_inv ix" "quiet_growth True (ix_session (tx_inbox r)) (ix_session ix)"
  shows "tool_inv n0 nt ns others (r\<lparr>tx_inbox := ix\<rparr>)"
proof -
  let ?r = "r\<lparr>tx_inbox := ix\<rparr>"
  obtain k m where w: "tool_world n0 nt ns others (tx_inbox r) (tx_turn r) (tx_step r) (tx_plan r) k m"
    and km: "\<not> failed_at (tx_at r) \<longrightarrow> k = done_calls r \<and> m = done_results r"
    using inv unfolding tool_inv_def by (elim conjE exE)
  have w': "tool_world n0 nt ns others ix (tx_turn r) (tx_step r) (tx_plan r) k m" by (rule tool_world_quiet [OF w q])
  have c: "calls_of (drop n0 (ses_log (ix_session ix))) = calls_of (drop n0 (tool_log r))"
    using calls_of_growth [OF q(2)] w by (simp add: tool_world_def plan_logged_def)
  have same: "group_inv ?r = group_inv r" "pool_inv ?r = pool_inv r" "seqs_inv n0 ?r = seqs_inv n0 r"
    "done_calls ?r = done_calls r" "done_results ?r = done_results r" "pool_size ?r = pool_size r"
    using c by (simp_all add: pool_size_def group_inv_def pool_inv_def seqs_inv_def done_calls_def done_results_def)
  show ?thesis using inv w' km unfolding tool_inv_def same by (simp; blast)
qed

lemma elsewhere_inv:
  assumes inv: "tool_inv n0 nt ns others r" and p: "others_may True p"
  shows "tool_inv n0 nt ns others (r\<lparr>tx_inbox := run_op now p (tx_inbox r)\<rparr>)"
proof -
  have "inbox_inv (tx_inbox r)" using inv by (auto simp: tool_inv_def tool_world_def)
  from run_op_quiet [OF this p] tool_inv_quiet [OF inv] show ?thesis by blast
qed

lemma skip_inv:
  assumes inv: "tool_inv n0 nt ns others r" and at': "tx_at r = AtSkip" and s: "skip_step now inp r = Some r'"
    and d: "distinct (map tc_id (tx_plan r))" and apart: "others \<inter> tc_id ` set (tx_plan r) = {}"
  shows "tool_inv n0 nt ns others r'"
proof -
  have next': "tx_next r \<le> length (tx_plan r)" and flight: "length (tx_flight r) \<le> pool_size r" and ok: "tx_failure r \<noteq> Some Uncommitted"
    and w: "tool_world n0 nt ns others (tx_inbox r) (tx_turn r) (tx_step r) (tx_plan r) (tx_next r) (tx_next r)"
    using inv at' by (auto simp: tool_inv_def done_calls_def done_results_def)
  consider "inp = Advance" "length (tx_plan r) \<le> tx_next r" "r' = r\<lparr>tx_at := AtReturned\<rparr>"
    | mid where "inp = SkippedResult mid" "tx_next r < length (tx_plan r)"
    using s by (cases inp) (auto simp: skip_step_def split: if_splits)
  then show ?thesis
  proof cases
    case 1
    then show ?thesis using w next' flight ok by (auto simp: tool_inv_def done_calls_def done_results_def pool_size_def)
  next
    case 2
    let ?k = "tx_next r" and ?calls = "calls_of (drop n0 (tool_log r))"
    obtain ix1 where a: "append_tool_call now (tx_turn r) (tx_step r) (tx_plan r ! ?k) (tx_inbox r) = (ix1, Inr (int (length (tool_log r))))"
      and w1: "tool_world n0 nt ns others ix1 (tx_turn r) (tx_step r) (tx_plan r) (Suc ?k) ?k"
      and calls: "calls_of (drop n0 (ses_log (ix_session ix1))) = ?calls @ [(tc_id (tx_plan r ! ?k), int (length (tool_log r)))]"
      by (rule call_recorded [OF w 2(2)])
    have "length ?calls = ?k" using w 2(2) by (auto simp: tool_world_def plan_logged_def dest: arg_cong [of _ _ length])
    then have q: "int (length (tool_log r)) = snd (calls_of (drop n0 (ses_log (ix_session ix1))) ! ?k)" by (simp add: calls nth_append)
    obtain ix2 q2 where b: "append_tool_result now (tx_turn r) (tx_step r) (tx_plan r ! ?k) skipped_outcome mid (int (length (tool_log r))) ix1 = (ix2, q2)"
      by (cases "append_tool_result now (tx_turn r) (tx_step r) (tx_plan r ! ?k) skipped_outcome mid (int (length (tool_log r))) ix1")
    note w2 = result_recorded(1) [OF w1 lessI d apart q b]
    have sk: "append_skipped now (tx_turn r) (tx_step r) (tx_plan r ! ?k) mid (tx_inbox r) = (ix2, q2)" by (simp add: append_skipped_def a b)
    show ?thesis
    proof (cases q2)
      case (Inl err)
      then have "r' = r\<lparr>tx_inbox := ix2, tx_failure := Some (ToolAppendFailed err), tx_at := AtThrown\<rparr>" using s 2 sk by (simp add: skip_step_def)
      then show ?thesis using w2 Inl next' flight by (auto simp: tool_inv_def pool_size_def)
    next
      case (Inr u)
      then have "r' = r\<lparr>tx_inbox := ix2, tx_next := ?k + 1\<rparr>" using s 2 sk by (simp add: skip_step_def)
      then show ?thesis using w2 Inr 2(2) flight ok at' by (auto simp: tool_inv_def done_calls_def done_results_def pool_size_def)
    qed
  qed
qed

section \<open>Every schedule keeps it\<close>

lemma fill_inv:
  assumes inv: "tool_inv n0 nt ns others r" and at': "tx_at r = AtFill" and s: "fill_step now inp r = Some r'"
  shows "tool_inv n0 nt ns others r'"
proof -
  have "r' = after_fill r \<or> can_fill r \<and> r' = start_call now r"
    using s by (cases inp) (auto simp: fill_step_def split: if_splits)
  then show ?thesis using after_fill_inv [OF inv at'] start_call_inv [OF inv at'] by blast
qed

lemma commit_inv:
  assumes inv: "tool_inv n0 nt ns others r" and at': "tx_at r = AtCommit" and s: "commit_step now inp r = Some r'"
    and d: "distinct (map tc_id (tx_plan r))" and apart: "others \<inter> tc_id ` set (tx_plan r) = {}"
  shows "tool_inv n0 nt ns others r'"
proof -
  have act: "active (tx_at r)" using at' by simp
  note i = tool_inv_active [OF inv act]
  have fails: "f \<noteq> Uncommitted \<Longrightarrow> tool_inv n0 nt ns others (fail_with f r)" for f
    by (rule fail_inv [OF inv _ _ _ _ _ _ _ i(5)]) simp_all
  show ?thesis
  proof (cases "ready_slot r")
    case None
    then have "r' = (case tx_failure r of Some f \<Rightarrow> fail_with f r
        | None \<Rightarrow> r\<lparr>tx_aborted := (tx_aborted r \<or> tx_signal r), tx_at := AtFill\<rparr>)"
      using s by (cases inp) (simp_all add: commit_step_def)
    then show ?thesis using fails i(7) commit_leave_inv [OF inv at' None] by (cases "tx_failure r") auto
  next
    case (Some st)
    then have "(\<exists>res mid. r' = commit_result now res mid r) \<or> (\<exists>msg. r' = fail_with (RuntimeFailure msg) r)"
      using s by (cases inp) (auto simp: commit_step_def)
    then show ?thesis using fails commit_result_inv [OF inv at' Some d apart] by auto
  qed
qed

lemma tool_inv_move:
  assumes "tool_inv n0 nt ns others r" and "\<not> active k" and "\<not> failed_at k \<or> tx_failure r \<noteq> None" and "k \<noteq> AtReturned \<or> tx_next r = length (tx_plan r)"
    and "\<not> active (tx_at r)" and "failed_at (tx_at r) \<longrightarrow> failed_at k"
  shows "tool_inv n0 nt ns others (r\<lparr>tx_at := k\<rparr>)"
  using assms by (auto simp: tool_inv_def done_calls_def done_results_def pool_size_def)

lemma main_inv:
  assumes inv: "tool_inv n0 nt ns others r" and s: "main_step now inp r = Some r'"
    and d: "distinct (map tc_id (tx_plan r))" and apart: "others \<inter> tc_id ` set (tx_plan r) = {}"
  shows "tool_inv n0 nt ns others r'"
proof (cases "tx_at r")
  case AtClassify
  then have "(\<exists>par. tx_next r < length (tx_plan r) \<and> r' = begin_group par r) \<or> length (tx_plan r) \<le> tx_next r \<and> r' = r\<lparr>tx_at := AtReturned\<rparr>"
    using s by (cases inp) (auto simp: main_step_def split: if_splits)
  moreover have "tx_next r \<le> length (tx_plan r)" using inv by (simp add: tool_inv_def)
  ultimately show ?thesis using begin_group_inv [OF inv AtClassify] tool_inv_move [OF inv, of AtReturned] AtClassify by auto
next
  case AtDrain
  then have "r' = r\<lparr>tx_at := AtThrown\<rparr>" using s by (cases inp) (auto simp: main_step_def split: if_splits)
  moreover have "tx_failure r \<noteq> None" using inv AtDrain by (simp add: tool_inv_def)
  ultimately show ?thesis using tool_inv_move [OF inv, of AtThrown] AtDrain by simp
qed (use s fill_inv [OF inv] prepared_call_inv [OF inv] commit_inv [OF inv _ _ d apart] race_inv [OF inv] skip_inv [OF inv _ _ d apart]
    in \<open>simp_all add: main_step_def\<close>)

lemma tool_step_inv:
  assumes inv: "tool_inv n0 nt ns others r" and s: "tool_step now inp r = Some r'"
    and d: "distinct (map tc_id (tx_plan r))" and apart: "others \<inter> tc_id ` set (tx_plan r) = {}"
  shows "tool_inv n0 nt ns others r'"
proof (cases "(\<exists>i res. inp = Settled i res) \<or> inp = SignalAborted \<or> (\<exists>p. inp = Elsewhere p)")
  case True
  then show ?thesis using s tool_inv_settled_call [OF inv] signal_inv [OF inv] elsewhere_inv [OF inv]
    by (auto simp: tool_step_def split: if_splits)
next
  case False
  then have "main_step now inp r = Some r'" using s by (cases inp) (simp_all add: tool_step_def)
  then show ?thesis by (rule main_inv [OF inv _ d apart])
qed

end
