(* ===== verification/Agent_Request.thy ===== *)
theory Agent_Request
  imports Agent_Log Inbox Request_Header
begin

text \<open>
  How the agent driver composes a request (\<open>buildRequest\<close> of \<open>packages/core/agent-loop/src/agent.ts\<close>): the
  configuration it proposes, the header and the context it records in the log, and the equality that decides
  whether a header is a change. A configuration is the JSON object the log stores.
\<close>

section \<open>Configurations\<close>

text \<open>The route and the limits an agent is created with.\<close>

record agent_options =
  ao_provider :: "string option"
  ao_model :: "string option"
  ao_max_tokens :: "int option"

text \<open>\<open>delete value[key]\<close>\<close>

fun jdel :: "string \<Rightarrow> json \<Rightarrow> json" where
  "jdel k (JObj kvs) = JObj (filter (\<lambda>p. fst p \<noteq> k) kvs)"
| "jdel k v = v"

definition request_proposal :: "epoch_header \<Rightarrow> json" where
  "request_proposal h =
     (if hdr_adapter_defaults h = None then hdr_config h
      else let c = (if default_flag h ''reasoningEffort'' = Some (JBool True) then jdel ''reasoningEffort'' (hdr_config h) else hdr_config h)
        in if default_flag h ''maxTokens'' = Some (JBool True) then jdel ''maxTokens'' c else c)"

text \<open>An explicit effort is kept only on the very route it was chosen for.\<close>

definition restored_effort :: "string \<Rightarrow> string \<Rightarrow> epoch_header option \<Rightarrow> json option" where
  "restored_effort provider model persisted = (case persisted of None \<Rightarrow> None
     | Some h \<Rightarrow>
         if jget (hdr_config h) ''provider'' = Some (JStr provider) \<and> jget (hdr_config h) ''model'' = Some (JStr model) \<and>
            default_flag h ''reasoningEffort'' \<noteq> Some (JBool True)
         then jget (hdr_config h) ''reasoningEffort'' else None)"

definition declared_config :: "agent_options \<Rightarrow> epoch_header option \<Rightarrow> json" where
  "declared_config opts persisted =
     (let provider = (case ao_provider opts of Some p \<Rightarrow> p | None \<Rightarrow> []);
          model = (case ao_model opts of Some m \<Rightarrow> m | None \<Rightarrow> [])
      in JObj ([(''provider'', JStr provider), (''model'', JStr model)]
        @ (case restored_effort provider model persisted of None \<Rightarrow> [] | Some e \<Rightarrow> [(''reasoningEffort'', e)])
        @ (case ao_max_tokens opts of None \<Rightarrow> [] | Some n \<Rightarrow> [(''maxTokens'', JInt n)])))"

text \<open>\<open>None\<close> is the type error of a loop that has logged no header it could fold.\<close>

definition seed_config :: "agent_options \<Rightarrow> bool \<Rightarrow> epoch_header option \<Rightarrow> json option" where
  "seed_config opts logged persisted =
     (if logged then map_option request_proposal persisted else Some (declared_config opts persisted))"

fun truthy :: "json option \<Rightarrow> bool" where
  "truthy (Some (JStr s)) = (s \<noteq> [])"
| "truthy _ = False"

definition has_route :: "json \<Rightarrow> bool" where
  "has_route c \<longleftrightarrow> truthy (jget c ''provider'') \<and> truthy (jget c ''model'')"

section \<open>Recording\<close>

text \<open>What an adapter resolved for the exact model.\<close>

record prepared_llm =
  pl_config :: json
  pl_defaults :: json
  pl_window :: "int option"

definition new_header :: "json \<Rightarrow> prepared_llm option \<Rightarrow> string \<Rightarrow> json list \<Rightarrow> epoch_header" where
  "new_header config call system tools = canonical_header
     \<lparr>hdr_config = config, hdr_adapter_defaults = map_option pl_defaults call,
      hdr_system = (if system \<noteq> [] then Some system else None), hdr_tools = (if tools \<noteq> [] then Some tools else None)\<rparr>"

definition log_request_header :: "int \<Rightarrow> bool \<Rightarrow> epoch_header \<Rightarrow> 'p session \<Rightarrow> 'p session \<times> (session_error + unit)" where
  "log_request_header now logged h s =
     (case request_header s of (s1, baseline) \<Rightarrow>
        let record' = (\<lambda>reason. case session_append now (RequestHeader h reason) no_intent s1 of
              (s2, Inl err) \<Rightarrow> (s2, Inl err) | (s2, Inr _) \<Rightarrow> (s2, Inr ())) in
        if \<not> logged then record' (if baseline = None then HeaderInitial else HeaderResume)
        else (case baseline of
            None \<Rightarrow> record' HeaderChange
          | Some b \<Rightarrow> if \<not> header_equals b h then record' HeaderChange else (s1, Inr ())))"

text \<open>The strings \<open>config.provider\<close> and \<open>config.model\<close> of a configuration with a route.\<close>

definition config_text :: "json \<Rightarrow> string \<Rightarrow> string" where
  "config_text c k = (case jget c k of Some (JStr s) \<Rightarrow> s | _ \<Rightarrow> [])"

definition context_for :: "json \<Rightarrow> prepared_llm option \<Rightarrow> request_context" where
  "context_for config call = \<lparr>ctx_provider = config_text config ''provider'', ctx_model = config_text config ''model'',
     ctx_window = (case call of None \<Rightarrow> None | Some p \<Rightarrow> pl_window p)\<rparr>"

definition log_request_context :: "int \<Rightarrow> request_context \<Rightarrow> 'p session \<Rightarrow> 'p session \<times> (session_error + unit)" where
  "log_request_context now c s =
     (case request_context_of s of (s1, previous) \<Rightarrow>
        if previous = Some c then (s1, Inr ())
        else (case session_append now (RequestContext c) no_intent s1 of
            (s2, Inl err) \<Rightarrow> (s2, Inl err) | (s2, Inr _) \<Rightarrow> (s2, Inr ())))"

record llm_request =
  rq_config :: json
  rq_messages :: "message list"
  rq_system :: "string option"
  rq_tools :: "json list option"
  rq_session :: session_id

definition bind_request :: "session_id \<Rightarrow> epoch_header \<Rightarrow> message list \<Rightarrow> llm_request" where
  "bind_request sid h ms = \<lparr>rq_config = hdr_config h, rq_messages = ms, rq_system = hdr_system h, rq_tools = hdr_tools h,
     rq_session = sid\<rparr>"

section \<open>What the recording leaves in the log\<close>

abbreviation header_synced :: "'p session \<Rightarrow> 'p session" where
  "header_synced s \<equiv> s\<lparr>ses_header_fold := sync_header (ses_header_fold s) (ses_log s)\<rparr>"

abbreviation context_synced :: "'p session \<Rightarrow> 'p session" where
  "context_synced s \<equiv> s\<lparr>ses_context_fold := sync_context (ses_context_fold s) (ses_log s)\<rparr>"

lemma request_header_reads:
  "session_ok s \<Longrightarrow> request_header s = (header_synced s, fold_request_header (ses_log s) None)"
  by (simp add: session_ok_def request_header_def Let_def fold_request_header_def header_cache.sync_current)

lemma request_context_reads:
  "session_ok s \<Longrightarrow> request_context_of s = (context_synced s, fold (\<lambda>e a. context_step a e) (ses_log s) None)"
  by (simp add: session_ok_def request_context_of_def Let_def context_cache.sync_current)

lemma canonical_header_idem [simp]: "canonical_header (canonical_header h) = canonical_header h"
  by (auto simp: canonical_header_def split: option.splits)

text \<open>A log-only append inside a step: it succeeds, and the step stays open.\<close>

definition logs_one :: "'p session \<Rightarrow> 'p session \<Rightarrow> 'p event \<Rightarrow> bool" where
  "logs_one s s' e \<longleftrightarrow> session_ok s' \<and> ses_log s' = ses_log s @ [e] \<and> ses_header s' = ses_header s \<and> ses_id s' = ses_id s"

lemma log_in_step:
  assumes "session_ok s" and "log_at (ses_log s) v" and "\<not> is_surface_eligible_type d" and "move v d False = Inr v'"
  shows "\<exists>s'. session_append now d no_intent s = (s', Inr (log_event (int (length (ses_log s))) now d)) \<and>
    logs_one s s' (log_event (int (length (ses_log s))) now d) \<and> log_at (ses_log s') v'"
  by (rule append_log_only_at [OF assms]) (auto simp: logs_one_def)

text \<open>
  Recording a header cannot fail inside a step. The log then folds to a header equal to the recorded one; it is
  untouched when the loop had already logged an equal one.
\<close>

definition header_kept :: "bool \<Rightarrow> epoch_header \<Rightarrow> 'p session \<Rightarrow> bool" where
  "header_kept logged h s \<longleftrightarrow> logged \<and> (case fold_request_header (ses_log s) None of None \<Rightarrow> False | Some b \<Rightarrow> header_equals b h)"

definition appended :: "'p session \<times> (session_error + 'p event) \<Rightarrow> 'p session \<times> (session_error + unit)" where
  "appended p = (fst p, map_sum id (\<lambda>_. ()) (snd p))"

lemma log_request_header_cases:
  assumes "session_ok s"
  shows "header_kept logged h s \<Longrightarrow> log_request_header now logged h s = (header_synced s, Inr ())"
    and "\<not> header_kept logged h s \<Longrightarrow> \<exists>reason. log_request_header now logged h s =
      appended (session_append now (RequestHeader h reason) no_intent (header_synced s))"
proof -
  have one: "(case session_append now (RequestHeader h reason) no_intent t of (s2, Inl err) \<Rightarrow> (s2, Inl err) | (s2, Inr _) \<Rightarrow> (s2, Inr ())) =
      appended (session_append now (RequestHeader h reason) no_intent t)" for reason and t :: "'a session"
    by (simp add: appended_def split: prod.split sum.split)
  show "log_request_header now logged h s = (header_synced s, Inr ())" if "header_kept logged h s"
    using that assms by (auto simp: log_request_header_def header_kept_def request_header_reads Let_def split: option.splits)
  show "\<exists>reason. log_request_header now logged h s = appended (session_append now (RequestHeader h reason) no_intent (header_synced s))"
    if "\<not> header_kept logged h s"
    using that assms unfolding log_request_header_def request_header_reads [OF assms] Let_def one prod.case
    by (cases "fold_request_header (ses_log s) None") (auto simp: header_kept_def)
qed

lemma log_request_header_at:
  assumes s: "session_ok s" and at': "log_at (ses_log s) (in_step turn step nt ns calls)"
  shows "\<exists>s'. log_request_header now logged (canonical_header h) s = (s', Inr ()) \<and> session_ok s' \<and>
    log_at (ses_log s') (in_step turn step nt ns calls) \<and> ses_header s' = ses_header s \<and> ses_id s' = ses_id s \<and>
    (\<exists>b. fold_request_header (ses_log s') None = Some b \<and> header_equals b (canonical_header h)) \<and>
    (if header_kept logged (canonical_header h) s then ses_log s' = ses_log s
     else \<exists>reason. ses_log s' = ses_log s @ [log_event (int (length (ses_log s))) now (RequestHeader (canonical_header h) reason)])"
proof (cases "header_kept logged (canonical_header h) s")
  case True
  have "session_ok (header_synced s)" using request_header_ok [OF s] request_header_reads [OF s] by simp
  with True at' show ?thesis using log_request_header_cases(1) [OF s True]
    by (auto simp: header_kept_def split: option.splits)
next
  case False
  let ?s = "header_synced s"
  have ok: "session_ok ?s" using request_header_ok [OF s] request_header_reads [OF s] by simp
  have at1: "log_at (ses_log ?s) (in_step turn step nt ns calls)" using at' by simp
  obtain reason where r: "log_request_header now logged (canonical_header h) s =
      appended (session_append now (RequestHeader (canonical_header h) reason) no_intent ?s)"
    using log_request_header_cases(2) [OF s False] by blast
  let ?d = "RequestHeader (canonical_header h) reason"
  have "\<exists>s'. session_append now ?d no_intent ?s = (s', Inr (log_event (int (length (ses_log ?s))) now ?d)) \<and>
      logs_one ?s s' (log_event (int (length (ses_log ?s))) now ?d) \<and> log_at (ses_log s') (in_step turn step nt ns calls)"
    by (rule log_in_step [OF ok at1]) simp_all
  then show ?thesis using r False by (auto simp: appended_def logs_one_def fold_request_header_def header_step_def)
qed

lemma log_request_context_at:
  assumes s: "session_ok s" and at': "log_at (ses_log s) (in_step turn step nt ns calls)"
  shows "\<exists>s'. log_request_context now c s = (s', Inr ()) \<and> session_ok s' \<and>
    log_at (ses_log s') (in_step turn step nt ns calls) \<and> ses_header s' = ses_header s \<and> ses_id s' = ses_id s \<and>
    fold (\<lambda>e a. context_step a e) (ses_log s') None = Some c \<and>
    fold_request_header (ses_log s') None = fold_request_header (ses_log s) None \<and>
    (if fold (\<lambda>e a. context_step a e) (ses_log s) None = Some c then ses_log s' = ses_log s
     else ses_log s' = ses_log s @ [log_event (int (length (ses_log s))) now (RequestContext c)])"
proof -
  let ?s = "context_synced s" and ?d = "RequestContext c :: 'a event_data"
  have ok: "session_ok ?s" using request_context_ok [OF s] request_context_reads [OF s] by simp
  have at1: "log_at (ses_log ?s) (in_step turn step nt ns calls)" using at' by simp
  have "\<exists>s'. session_append now ?d no_intent ?s = (s', Inr (log_event (int (length (ses_log ?s))) now ?d)) \<and>
      logs_one ?s s' (log_event (int (length (ses_log ?s))) now ?d) \<and> log_at (ses_log s') (in_step turn step nt ns calls)"
    by (rule log_in_step [OF ok at1]) simp_all
  then show ?thesis using s ok at'
    by (cases "fold (\<lambda>e a. context_step a e) (ses_log s) None = Some c")
      (auto simp: log_request_context_def request_context_reads logs_one_def fold_request_header_def header_step_def context_step_def)
qed

end
