(* ===== verification/Runtime_Context.thy ===== *)
theory Runtime_Context
  imports Surface_Edit
begin

text \<open>
  Which runtime-context snapshot the model still sees (\<open>packages/core/agent-loop/src/runtime-context.ts\<close>): restored
  once from the log and its surface, then followed event by event. The message id of a new snapshot is an argument.
\<close>

section \<open>The projection\<close>

definition SOURCE :: string where
  "SOURCE = ''@deepseek-ai/dsh-system-prompt''"

definition CLEARED :: string where
  "CLEARED = ''Current runtime context: none. Earlier runtime-context snapshots no longer apply.''"

definition is_owned :: "message \<Rightarrow> bool" where
  "is_owned m = (case msg_source m of PluginSource plugin _ \<Rightarrow> plugin = SOURCE | _ \<Rightarrow> False)"

definition snapshot_text :: "message \<Rightarrow> string option" where
  "snapshot_text m = (case msg_content m of [TextBlock t] \<Rightarrow> Some t | _ \<Rightarrow> None)"

text \<open>\<open>undefined\<close>, \<open>null\<close> and the retained snapshot.\<close>

datatype retained = NeverSent | NoneRetained | Retained int "string option"

fun owned_message :: "'p event_data \<Rightarrow> message option" where
  "owned_message (UserMessage m) = (if is_owned m then Some m else None)"
| "owned_message _ = None"

text \<open>The constructor's scan, from the last event backwards.\<close>

fun restore_scan :: "int list \<Rightarrow> 'p event list \<Rightarrow> retained \<Rightarrow> retained" where
  "restore_scan nodes [] r = r"
| "restore_scan nodes (e # es) r =
     (case owned_message (ev_data e) of
        None \<Rightarrow> restore_scan nodes es r
      | Some m \<Rightarrow>
          if ev_seq e \<in> set nodes then Retained (ev_seq e) (snapshot_text m)
          else restore_scan nodes es (if r = NeverSent then NoneRetained else r))"

definition restore_context :: "int list \<Rightarrow> 'p event list \<Rightarrow> retained" where
  "restore_context nodes evs = restore_scan nodes (List.rev evs) NeverSent"

definition cites :: "'p event \<Rightarrow> int \<Rightarrow> bool" where
  "cites e q = (case ev_sources e of Some (JArr raw) \<Rightarrow> JInt q \<in> set raw | _ \<Rightarrow> False)"

text \<open>The listener.\<close>

definition retain_step :: "retained \<Rightarrow> 'p event \<Rightarrow> retained" where
  "retain_step r e =
     (case owned_message (ev_data e) of
        Some m \<Rightarrow> Retained (ev_seq e) (snapshot_text m)
      | None \<Rightarrow>
          (case r of
             Retained q t \<Rightarrow> if is_replacement_surface_event e \<and> cites e q then NoneRetained else r
           | _ \<Rightarrow> r))"

definition snapshot_message :: "message_id \<Rightarrow> string \<Rightarrow> json list \<Rightarrow> message" where
  "snapshot_message mid text sections = \<lparr>msg_id = mid, msg_role = UserRole, msg_content = [TextBlock text],
     msg_source = PluginSource SOURCE
       (if sections = [] then [] else [(''form'', JStr ''snapshot''), (''sections'', JArr sections)])\<rparr>"

definition project_context :: "message_id \<Rightarrow> string \<Rightarrow> json list \<Rightarrow> retained \<Rightarrow> message option" where
  "project_context mid current sections r =
     (if r = NeverSent \<and> current = [] then None
      else
        let snapshot = (if current = [] then CLEARED else current) in
        if (case r of Retained _ t \<Rightarrow> t = Some snapshot | _ \<Rightarrow> False) then None
        else Some (snapshot_message mid snapshot sections))"

section \<open>What is retained is shown\<close>

definition shows_snapshot :: "'p event list \<Rightarrow> int list \<Rightarrow> int \<Rightarrow> string option \<Rightarrow> bool" where
  "shows_snapshot evs nodes q t \<longleftrightarrow> q \<in> set nodes \<and> 0 \<le> q \<and> q < int (length evs) \<and>
     (\<exists>m. owned_message (ev_data (evs ! nat q)) = Some m \<and> t = snapshot_text m)"

definition retained_ok :: "'p event list \<Rightarrow> int list \<Rightarrow> retained \<Rightarrow> bool" where
  "retained_ok evs nodes r = (case r of
      NeverSent \<Rightarrow> (\<forall>e \<in> set evs. owned_message (ev_data e) = None)
    | NoneRetained \<Rightarrow> True
    | Retained q t \<Rightarrow> shows_snapshot evs nodes q t)"

lemma restore_scan_ok:
  assumes "contiguous (List.rev es @ later)" and "retained_ok later nodes r" and "\<forall>q t. r \<noteq> Retained q t"
  shows "retained_ok (List.rev es @ later) nodes (restore_scan nodes es r)"
  using assms
proof (induction es arbitrary: r later)
  case (Cons e es)
  have c: "contiguous (List.rev es @ (e # later))" using Cons.prems(1) by simp
  then have seq: "ev_seq e = int (length es)" using contiguous_nth [of "List.rev es @ (e # later)" "length es"] by (simp add: nth_append)
  show ?case
  proof (cases "owned_message (ev_data e)")
    case None
    have "retained_ok (e # later) nodes r" using Cons.prems(2,3) None by (cases r) (auto simp: retained_ok_def)
    from Cons.IH [OF c this Cons.prems(3)] None show ?thesis by simp
  next
    case (Some m)
    have "shows_snapshot (List.rev es @ (e # later)) nodes (ev_seq e) (snapshot_text m)" if "ev_seq e \<in> set nodes"
      using that seq Some by (simp add: shows_snapshot_def nth_append)
    moreover have "retained_ok (List.rev es @ (e # later)) nodes (restore_scan nodes es NoneRetained)"
      by (rule Cons.IH [OF c]) (simp_all add: retained_ok_def)
    ultimately show ?thesis using Some Cons.prems(3) by (cases r) (auto simp: retained_ok_def)
  qed
qed simp

lemma restore_context_ok: "contiguous evs \<Longrightarrow> retained_ok evs nodes (restore_context nodes evs)"
  using restore_scan_ok [of "List.rev evs" "[]" nodes NeverSent] by (simp add: restore_context_def retained_ok_def)

lemma cited_cites: "q \<in> set (cited e) \<Longrightarrow> cites e q"
proof -
  assume q: "q \<in> set (cited e)"
  then have "\<exists>raw. ev_sources e = Some (JArr raw) \<and> q \<in> set (List.map_filter event_seq_value raw)"
    by (cases "ev_sources e") (auto simp: cited_def split: json.splits)
  then obtain raw where raw: "ev_sources e = Some (JArr raw)" "q \<in> set (List.map_filter event_seq_value raw)" by blast
  then obtain v where "v \<in> set raw" "event_seq_value v = Some q" by (auto simp: map_filter_def)
  then show ?thesis using raw(1) by (simp add: event_seq_value_Some cites_def)
qed

lemma list_splice_keeps: "q \<in> set xs \<Longrightarrow> q \<notin> set (take n (drop i xs)) \<Longrightarrow> q \<in> set (list_splice i n ys xs)"
proof -
  assume q: "q \<in> set xs" and out: "q \<notin> set (take n (drop i xs))"
  have "set xs = set (take i xs) \<union> set (drop i xs)" by (metis append_take_drop_id set_append)
  moreover have "set (drop i xs) = set (take n (drop i xs)) \<union> set (drop n (drop i xs))" by (metis append_take_drop_id set_append)
  ultimately show ?thesis using q out by (auto simp: list_splice_def add.commute)
qed

text \<open>What one event does to the surface: its own node joins it, and nothing leaves it but what it cites.\<close>

lemma surface_snoc:
  assumes "ok (fold_surface (evs @ [e]))"
  shows "ev_seq e = int (length evs)"
    and "is_surface_event e \<Longrightarrow> ev_seq e \<in> set (surface_nodes (evs @ [e]))"
    and "q \<in> set (surface_nodes evs) \<Longrightarrow> q \<in> set (surface_nodes (evs @ [e])) \<or> is_replacement_surface_event e \<and> cites e q"
proof -
  from assms obtain t' i' rs' where w: "window_fold 0 (evs @ [e]) (evs @ [e]) = Inr (t', i', rs')"
    by (auto simp: ok_iff fold_surface_def rbind_Inr_iff)
  then obtain t i rs where pre: "window_fold 0 (evs @ [e]) evs = Inr (t, i, rs)"
    and last: "surface_loop (evs @ [e]) 0 (t, i, rs) e = Inr (t', i', rs')"
    by (auto simp: replay_snoc_Inr)
  have pre': "window_fold 0 evs evs = Inr (t, i, rs)" using window_fold_local [of evs "[e]" 0 "[]"] pre by simp
  from last obtain r where app: "apply_surface_event t e i (evs @ [e]) 0 = Inr (t', r)" by (auto simp: rbind_Inr_iff)
  have i: "i = int (length evs)" using surface.run_hist [OF pre'] by simp
  note nodes = surface_nodes_fold [OF pre'] surface_nodes_fold [OF w]
  show "ev_seq e = int (length evs)" using app i by (cases rule: apply_surface_event_cases) simp_all
  show "ev_seq e \<in> set (surface_nodes (evs @ [e]))" if "is_surface_event e"
    using app that by (cases rule: apply_surface_event_cases) (auto simp: nodes list_splice_def)
  show "q \<in> set (surface_nodes (evs @ [e])) \<or> is_replacement_surface_event e \<and> cites e q" if "q \<in> set (surface_nodes evs)"
    using app
  proof (cases rule: apply_surface_event_cases)
    case (replace rp k j)
    show ?thesis
    proof (cases "q \<in> set (rp_shadowed rp)")
      case True
      then show ?thesis using replace(2) cited_cites by (auto simp: replacement_ok_def)
    next
      case False
      then show ?thesis using that replace(6,7) list_splice_keeps [of q "fs_nodes t" "j - k + 1" k] by (simp add: nodes)
    qed
  qed (use that in \<open>auto simp: nodes\<close>)
qed

lemma owned_is_surface:
  assumes "ok (fold_surface (evs @ [e]))" and "owned_message (ev_data e) = Some m"
  shows "is_surface_event e"
proof -
  have el: "is_surface_eligible_type (ev_data e)" using assms(2) by (cases "ev_data e") simp_all
  from assms(1) obtain t i t' r where "apply_surface_event t e i (evs @ [e]) 0 = Inr (t', r)"
    by (auto simp: ok_iff fold_surface_def rbind_Inr_iff replay_snoc_Inr)
  then obtain oper where "surface_op_of e = Inr oper" by (auto simp: rbind_Inr_iff apply_surface_event_def plan_surface_event_def split: if_splits)
  then have "ev_surface_op e \<noteq> None" using el by (auto simp: surface_op_of_def split: option.splits)
  with el show ?thesis by (simp add: is_surface_event_def)
qed

lemma retain_step_ok:
  assumes fold: "ok (fold_surface (evs @ [e]))" and r: "retained_ok evs (surface_nodes evs) r"
  shows "retained_ok (evs @ [e]) (surface_nodes (evs @ [e])) (retain_step r e)"
proof (cases "owned_message (ev_data e)")
  case (Some m)
  have "shows_snapshot (evs @ [e]) (surface_nodes (evs @ [e])) (ev_seq e) (snapshot_text m)"
    using surface_snoc(1) [OF fold] surface_snoc(2) [OF fold owned_is_surface [OF fold Some]] Some by (simp add: shows_snapshot_def)
  then show ?thesis using Some by (simp add: retain_step_def retained_ok_def)
next
  case None
  show ?thesis
  proof (cases r)
    case (Retained q t)
    then have q: "shows_snapshot evs (surface_nodes evs) q t" using r by (simp add: retained_ok_def)
    then have "nat q < length evs" by (auto simp: shows_snapshot_def)
    then show ?thesis using q None Retained surface_snoc(3) [OF fold, of q]
      by (auto simp: retained_ok_def retain_step_def shows_snapshot_def nth_append)
  qed (use r None in \<open>auto simp: retained_ok_def retain_step_def\<close>)
qed

definition track_context :: "'p event list \<Rightarrow> 'p event list \<Rightarrow> retained" where
  "track_context seed later = fold (\<lambda>e r. retain_step r e) later (restore_context (surface_nodes seed) seed)"

lemma track_context_ok:
  "ok (fold_surface (seed @ later)) \<Longrightarrow> retained_ok (seed @ later) (surface_nodes (seed @ later)) (track_context seed later)"
proof (induction later rule: rev_induct)
  case Nil
  then show ?case using restore_context_ok [OF fold_surface_contiguous, of seed] by (simp add: track_context_def)
next
  case (snoc e later)
  then have "ok (fold_surface (seed @ later))" using fold_surface_prefix [of "seed @ later" "[e]"] by simp
  from retain_step_ok [of "seed @ later" e, OF _ snoc.IH [OF this]] snoc.prems show ?case by (simp add: track_context_def)
qed

text \<open>
  Whatever the log was when the loop started and whatever was appended since, replacements included: the
  loop stays silent about the runtime context only when no snapshot was ever sent and there is nothing to say, or
  when a snapshot with exactly this text is a node of the model's surface.\<close>

theorem silence_means_the_context_is_shown:
  assumes fold: "ok (fold_surface (seed @ later))" and p: "project_context mid current sections (track_context seed later) = None"
  shows "current = [] \<and> (\<forall>e \<in> set (seed @ later). owned_message (ev_data e) = None) \<or>
    (\<exists>q \<in> set (surface_nodes (seed @ later)). \<exists>m. owned_message (ev_data ((seed @ later) ! nat q)) = Some m \<and>
       snapshot_text m = Some (if current = [] then CLEARED else current))"
  using track_context_ok [OF fold] p
  by (cases "track_context seed later") (auto simp: retained_ok_def project_context_def shows_snapshot_def Let_def split: if_splits)

definition sample_context_log :: "unit event list" where
  "sample_context_log =
     [(log_event 0 5 (UserMessage (snapshot_message ''m'' ''cwd: /a'' [])))\<lparr>ev_surface_op := Some (JStr ''append'')\<rparr>,
      (log_event 1 6 (UserMessage (snapshot_message ''n'' ''cwd: /b'' [JStr ''cwd'']))) \<lparr>ev_surface_op := Some (JStr ''append'')\<rparr>]"

theorem silence_means_the_context_is_shown_witness:
  "\<exists>q \<in> set (surface_nodes sample_context_log). \<exists>m. owned_message (ev_data (sample_context_log ! nat q)) = Some m \<and>
     snapshot_text m = Some ''cwd: /b''"
proof -
  have log: "take 1 sample_context_log @ drop 1 sample_context_log = sample_context_log" by simp
  have fold: "ok (fold_surface sample_context_log)" by code_simp
  have silent: "project_context ''p'' ''cwd: /b'' [] (track_context (take 1 sample_context_log) (drop 1 sample_context_log)) = None" by code_simp
  show ?thesis
    using silence_means_the_context_is_shown [OF _ silent, unfolded log, OF fold] by simp
qed

end
