(* ===== verification/Agent_Loop.thy ===== *)
theory Agent_Loop
  imports Tool_Schedule Agent_Request Runtime_Context Assembler
begin

text \<open>
  The agent driver (\<open>class ReactLoopAgent\<close> of \<open>packages/core/agent-loop/src/agent.ts\<close>). Each \<open>await\<close> of \<open>kick\<close>,
  \<open>turn\<close>, \<open>preStep\<close>, \<open>step\<close> and \<open>buildRequest\<close> is a control point; the code between two awaits is one transition,
  taken on what the awaited call returned. Between transitions anybody may use the public operations. The text of
  an error (\<open>errorChain\<close>) is the argument \<open>chain\<close>.
\<close>

section \<open>State\<close>

datatype agent_phase =
    Idle int
  | Maintenance "cancel_cause option" int bool
  | Running "cancel_cause option" int int bool

record prompt_assembly =
  pa_system :: string
  pa_tools :: "json list"
  pa_context :: string
  pa_sections :: "json list"

datatype loop_error =
    Cancelled cancel_cause
  | AppendRejected session_error
  | InboxRejected inbox_error
  | SurfaceBroken surface_error
  | BadStream assemble_error
  | LlmError failure_facts
  | NoRoute
  | NoHeader
  | SchedulerFailed schedule_failure
  | Thrown string

text \<open>Where the driver waits, with the locals of the suspended calls; \<open>ends\<close> is \<open>turnEnds\<close>.\<close>

datatype agent_pc =
    NoDriver
  | AtTurn
  | AtExit
  | AtAssemble "turn_end_reason option" "message list"
  | AtDecide "turn_end_reason option" "message list" prompt_assembly
  | AtPropose "turn_end_reason option" prompt_assembly "message list" json
  | AtPrepareCall "turn_end_reason option" prompt_assembly "message list" json
  | AtStream "turn_end_reason option" prompt_assembly llm_request assembler "int list"
  | AtRequestError "turn_end_reason option" prompt_assembly failure_facts
  | AtTools "turn_end_reason option" tool_run
  | AtStopping turn_end_reason

record agent =
  ag_id :: session_id
  ag_options :: agent_options
  ag_inbox :: inbox
  ag_phase :: agent_phase
  ag_header_logged :: bool
  ag_retained :: retained
  ag_errors :: "(int \<times> int \<times> loop_error) list"
  ag_pc :: agent_pc

abbreviation agent_session :: "agent \<Rightarrow> inbox_splice session" where
  "agent_session a \<equiv> ix_session (ag_inbox a)"

abbreviation agent_log :: "agent \<Rightarrow> inbox_splice event list" where
  "agent_log a \<equiv> ses_log (agent_session a)"

fun abort_of :: "agent_phase \<Rightarrow> cancel_cause option" where
  "abort_of (Idle _) = None"
| "abort_of (Maintenance ab _ _) = ab"
| "abort_of (Running ab _ _ _) = ab"

fun turn_of :: "agent_phase \<Rightarrow> int" where
  "turn_of (Idle n) = n"
| "turn_of (Maintenance _ n _) = n"
| "turn_of (Running _ n _ _) = n"

fun step_of :: "agent_phase \<Rightarrow> int" where
  "step_of (Running _ _ k _) = k"
| "step_of _ = 0"

fun is_idle :: "agent_phase \<Rightarrow> bool" where
  "is_idle (Idle _) = True"
| "is_idle _ = False"

abbreviation agent_aborted :: "agent \<Rightarrow> cancel_cause option" where
  "agent_aborted a \<equiv> abort_of (ag_phase a)"

fun with_turn :: "int \<Rightarrow> agent_phase \<Rightarrow> agent_phase" where
  "with_turn n (Running ab _ k w) = Running ab n k w"
| "with_turn n p = p"

fun with_step :: "int \<Rightarrow> agent_phase \<Rightarrow> agent_phase" where
  "with_step k (Running ab n _ w) = Running ab n k w"
| "with_step k p = p"

definition has_pending :: "agent \<Rightarrow> bool" where
  "has_pending a \<longleftrightarrow> pending (ix_lists (ag_inbox a)) \<noteq> []"

fun turn_started :: "'p event_data \<Rightarrow> int option" where
  "turn_started (TurnStart n) = Some n"
| "turn_started _ = None"

definition last_turn_started :: "'p event list \<Rightarrow> int" where
  "last_turn_started evs = (case List.map_filter (\<lambda>e. turn_started (ev_data e)) evs of [] \<Rightarrow> 0 | n # ns \<Rightarrow> last (n # ns))"

definition new_agent :: "session_id \<Rightarrow> agent_options \<Rightarrow> inbox_splice session \<Rightarrow> inbox_error + agent" where
  "new_agent i opts s = rbind (new_inbox s) (\<lambda>ix. Inr
     \<lparr>ag_id = i, ag_options = opts, ag_inbox = ix, ag_phase = Idle (last_turn_started (ses_log s)),
      ag_header_logged = False, ag_retained = restore_context (surface_nodes (ses_log s)) (ses_log s),
      ag_errors = [], ag_pc = NoDriver\<rparr>)"

section \<open>Appending\<close>

text \<open>An append, with the runtime-context listener that hears it.\<close>

definition with_inbox :: "inbox \<Rightarrow> agent \<Rightarrow> agent" where
  "with_inbox ix a = a\<lparr>ag_inbox := ix,
     ag_retained := fold (\<lambda>e r. retain_step r e) (drop (length (agent_log a)) (ses_log (ix_session ix))) (ag_retained a)\<rparr>"

definition agent_append :: "int \<Rightarrow> inbox_splice event_data \<Rightarrow> surface_intent \<Rightarrow> agent \<Rightarrow> agent \<times> (session_error + int)" where
  "agent_append now d intent a =
     (case session_append now d intent (agent_session a) of
        (s, Inl err) \<Rightarrow> (with_inbox ((ag_inbox a)\<lparr>ix_session := s\<rparr>) a, Inl err)
      | (s, Inr e) \<Rightarrow> (with_inbox ((ag_inbox a)\<lparr>ix_session := s\<rparr>) a, Inr (ev_seq e)))"

definition emit_error :: "loop_error \<Rightarrow> agent \<Rightarrow> agent" where
  "emit_error err a = a\<lparr>ag_errors := ag_errors a @ [(turn_of (ag_phase a), step_of (ag_phase a), err)]\<rparr>"

definition failure_of :: "(loop_error \<Rightarrow> string) \<Rightarrow> loop_error \<Rightarrow> failure_facts" where
  "failure_of chain err = (case err of LlmError f \<Rightarrow> f
     | _ \<Rightarrow> \<lparr>fail_message = chain err, fail_code = ''UNKNOWN'', fail_status = None, fail_retry_after = None, fail_request_id = None\<rparr>)"

section \<open>The ends of a turn\<close>

text \<open>\<open>turn/end\<close> in the outer \<open>finally\<close>; whether it was recorded.\<close>

definition close_turn :: "int \<Rightarrow> turn_end_reason \<Rightarrow> agent \<Rightarrow> agent \<times> bool" where
  "close_turn now reason a = (case agent_append now (TurnEnd (turn_of (ag_phase a)) reason) no_intent a of
      (a1, Inl err) \<Rightarrow> (emit_error (AppendRejected err) a1, False)
    | (a1, Inr _) \<Rightarrow> (a1, True))"

text \<open>\<open>turn\<close> rejects: \<open>kick\<close> contains the error and leaves the loop.\<close>

definition turn_fails :: "(loop_error \<Rightarrow> string) \<Rightarrow> int \<Rightarrow> loop_error \<Rightarrow> agent \<Rightarrow> agent" where
  "turn_fails chain now err a =
     (case agent_aborted a of
        Some cause \<Rightarrow> (fst (close_turn now (TurnAborted cause) a))\<lparr>ag_pc := AtExit\<rparr>
      | None \<Rightarrow> (fst (close_turn now (TurnError (failure_of chain err)) (emit_error err a)))\<lparr>ag_pc := AtExit\<rparr>)"

definition turn_returns_false :: "int \<Rightarrow> turn_end_reason \<Rightarrow> agent \<Rightarrow> agent" where
  "turn_returns_false now reason a = (fst (close_turn now reason a))\<lparr>ag_pc := AtExit\<rparr>"

text \<open>The loop of \<open>turn\<close> is left by \<open>break\<close>: with work pending the same driver goes on.\<close>

definition turn_breaks :: "int \<Rightarrow> turn_end_reason \<Rightarrow> agent \<Rightarrow> agent" where
  "turn_breaks now reason a = (case close_turn now reason a of
      (a1, False) \<Rightarrow> a1\<lparr>ag_pc := AtExit\<rparr>
    | (a1, True) \<Rightarrow>
        if has_pending a1 then a1\<lparr>ag_phase := Running None (turn_of (ag_phase a1)) 0 False, ag_pc := AtTurn\<rparr>
        else a1\<lparr>ag_pc := AtExit\<rparr>)"

section \<open>The head of the loop\<close>

definition loop_head ::
    "(loop_error \<Rightarrow> string) \<Rightarrow> int \<Rightarrow> turn_end_reason option \<Rightarrow> inbox_target \<Rightarrow> agent \<Rightarrow> agent" where
  "loop_head chain now ends target a = (case agent_aborted a of
      Some cause \<Rightarrow> turn_fails chain now (Cancelled cause) a
    | None \<Rightarrow>
        (case claim now target (turn_of (ag_phase a)) (ag_inbox a) of
           (ix, Inl err) \<Rightarrow> turn_fails chain now (InboxRejected err) (with_inbox ix a)
         | (ix, Inr ms) \<Rightarrow> (with_inbox ix a)\<lparr>ag_pc := AtAssemble ends ms\<rparr>))"

text \<open>\<open>turn\<close> up to its first await.\<close>

definition enter_turn :: "(loop_error \<Rightarrow> string) \<Rightarrow> int \<Rightarrow> agent \<Rightarrow> agent" where
  "enter_turn chain now a = (case agent_aborted a of
      Some cause \<Rightarrow> a\<lparr>ag_pc := AtExit\<rparr>
    | None \<Rightarrow>
        let turn = turn_of (ag_phase a) + 1 in
        (case agent_append now (TurnStart turn) no_intent a of
           (a1, Inl err) \<Rightarrow> (emit_error (AppendRejected err) a1)\<lparr>ag_pc := AtExit\<rparr>
         | (a1, Inr _) \<Rightarrow> loop_head chain now None NextTurn (a1\<lparr>ag_phase := with_turn turn (ag_phase a1)\<rparr>)))"

section \<open>A step\<close>

text \<open>The end of the step's \<open>try\<close>: \<open>step/end\<close> in its \<open>finally\<close>, then what the loop does with the outcome.\<close>

definition close_step ::
    "(loop_error \<Rightarrow> string) \<Rightarrow> int \<Rightarrow> turn_end_reason option \<Rightarrow> loop_error + turn_end_reason option \<Rightarrow> agent \<Rightarrow> agent" where
  "close_step chain now ends res a =
     (case agent_append now (StepEnd (turn_of (ag_phase a)) (step_of (ag_phase a))) no_intent a of
        (a1, Inl err) \<Rightarrow> turn_fails chain now (AppendRejected err) a1
      | (a1, Inr _) \<Rightarrow>
          (case res of
             Inl err \<Rightarrow> turn_fails chain now err a1
           | Inr step_end \<Rightarrow>
               let ends' = (if ends = Some TurnMaxTokens then ends else step_end) in
               (case agent_aborted a1 of
                  Some cause \<Rightarrow> turn_fails chain now (Cancelled cause) a1
                | None \<Rightarrow>
                    (case ends' of
                       Some reason \<Rightarrow>
                         if ib_next_step (ix_lists (ag_inbox a1)) = [] then a1\<lparr>ag_pc := AtStopping reason\<rparr>
                         else loop_head chain now ends' NextStep a1
                     | None \<Rightarrow> loop_head chain now None NextStep a1))))"

text \<open>\<open>step\<close> from the head of its retry loop to the first await of \<open>buildRequest\<close>: the proposal the waterfall starts from.\<close>

definition begin_request ::
    "(loop_error \<Rightarrow> string) \<Rightarrow> int \<Rightarrow> turn_end_reason option \<Rightarrow> prompt_assembly \<Rightarrow> agent \<Rightarrow> agent" where
  "begin_request chain now ends asm a =
     (case derive_messages (agent_session a) of
        (s, Inl err) \<Rightarrow> close_step chain now ends (Inl (SurfaceBroken err)) (a\<lparr>ag_inbox := (ag_inbox a)\<lparr>ix_session := s\<rparr>\<rparr>)
      | (s, Inr ms) \<Rightarrow>
          (case request_header s of
             (s1, persisted) \<Rightarrow>
               let a1 = a\<lparr>ag_inbox := (ag_inbox a)\<lparr>ix_session := s1\<rparr>\<rparr> in
               (case seed_config (ag_options a) (ag_header_logged a) persisted of
                  None \<Rightarrow> close_step chain now ends (Inl NoHeader) a1
                | Some seed \<Rightarrow> a1\<lparr>ag_pc := AtPropose ends asm ms seed\<rparr>)))"

fun append_users :: "int \<Rightarrow> message list \<Rightarrow> agent \<Rightarrow> agent \<times> (session_error + unit)" where
  "append_users now [] a = (a, Inr ())"
| "append_users now (m # ms) a = (case agent_append now (UserMessage m) (append_intent None) a of
     (a1, Inl err) \<Rightarrow> (a1, Inl err) | (a1, Inr _) \<Rightarrow> append_users now ms a1)"

text \<open>A step is entered with these messages.\<close>

definition enter_step ::
    "(loop_error \<Rightarrow> string) \<Rightarrow> int \<Rightarrow> turn_end_reason option \<Rightarrow> prompt_assembly \<Rightarrow> message list \<Rightarrow> agent \<Rightarrow> agent" where
  "enter_step chain now ends asm ms a =
     (let step = step_of (ag_phase a) + 1 in
      case agent_append now (StepStart (turn_of (ag_phase a)) step) no_intent a of
        (a1, Inl err) \<Rightarrow> turn_fails chain now (AppendRejected err) a1
      | (a1, Inr _) \<Rightarrow>
          (case append_users now ms (a1\<lparr>ag_phase := with_step step (ag_phase a1)\<rparr>) of
             (a2, Inl err) \<Rightarrow> close_step chain now ends (Inl (AppendRejected err)) a2
           | (a2, Inr _) \<Rightarrow> begin_request chain now ends asm a2))"

definition decided ::
    "(loop_error \<Rightarrow> string) \<Rightarrow> int \<Rightarrow> turn_end_reason option \<Rightarrow> prompt_assembly \<Rightarrow> message list option \<Rightarrow> agent \<Rightarrow> agent" where
  "decided chain now ends asm decision a = (case agent_aborted a of
      Some cause \<Rightarrow> turn_fails chain now (Cancelled cause) a
    | None \<Rightarrow>
        (case decision of
           None \<Rightarrow> turn_returns_false now TurnBlocked a
         | Some ms \<Rightarrow>
             if ends \<noteq> None \<and> ms = [] then turn_breaks now (the ends) a
             else if step_of (ag_phase a) = 0 \<and> ms = [] then turn_returns_false now TurnCompleted a
             else enter_step chain now ends asm ms a))"

section \<open>Building the request\<close>

definition agent_with_session :: "inbox_splice session \<Rightarrow> agent \<Rightarrow> agent" where
  "agent_with_session s a = with_inbox ((ag_inbox a)\<lparr>ix_session := s\<rparr>) a"

text \<open>The rest of \<open>buildRequest\<close> once the adapter is known, and the call of the stream.\<close>

definition send_request ::
    "(loop_error \<Rightarrow> string) \<Rightarrow> int \<Rightarrow> turn_end_reason option \<Rightarrow> prompt_assembly \<Rightarrow> message list \<Rightarrow> json \<Rightarrow> prepared_llm option \<Rightarrow> agent \<Rightarrow> agent" where
  "send_request chain now ends asm ms config call a =
     (let h = new_header config call (pa_system asm) (pa_tools asm) in
      case log_request_header now (ag_header_logged a) h (agent_session a) of
        (s, Inl err) \<Rightarrow> close_step chain now ends (Inl (AppendRejected err)) (agent_with_session s a)
      | (s, Inr _) \<Rightarrow>
          (case log_request_context now (context_for config call) s of
             (s1, Inl err) \<Rightarrow> close_step chain now ends (Inl (AppendRejected err)) ((agent_with_session s1 a)\<lparr>ag_header_logged := True\<rparr>)
           | (s1, Inr _) \<Rightarrow> (agent_with_session s1 a)\<lparr>ag_header_logged := True,
               ag_pc := AtStream ends asm (bind_request (ses_id s1) h ms) new_assembler []\<rparr>))"

definition prepared_call ::
    "(loop_error \<Rightarrow> string) \<Rightarrow> int \<Rightarrow> turn_end_reason option \<Rightarrow> prompt_assembly \<Rightarrow> message list \<Rightarrow> json \<Rightarrow> prepared_llm option \<Rightarrow> agent \<Rightarrow> agent" where
  "prepared_call chain now ends asm ms proposed call a = (case agent_aborted a of
      Some cause \<Rightarrow> close_step chain now ends (Inl (Cancelled cause)) a
    | None \<Rightarrow> send_request chain now ends asm ms (case call of None \<Rightarrow> proposed | Some p \<Rightarrow> pl_config p) call a)"

definition proposed ::
    "(loop_error \<Rightarrow> string) \<Rightarrow> int \<Rightarrow> turn_end_reason option \<Rightarrow> prompt_assembly \<Rightarrow> message list \<Rightarrow> json \<Rightarrow> agent \<Rightarrow> agent" where
  "proposed chain now ends asm ms config a = (case agent_aborted a of
      Some cause \<Rightarrow> close_step chain now ends (Inl (Cancelled cause)) a
    | None \<Rightarrow>
        if \<not> has_route config then close_step chain now ends (Inl NoRoute) a
        else a\<lparr>ag_pc := AtPrepareCall ends asm ms config\<rparr>)"

section \<open>The stream\<close>

definition model_source_of :: "llm_request \<Rightarrow> json option \<Rightarrow> model_source" where
  "model_source_of req env = \<lparr>src_provider = config_text (rq_config req) ''provider'',
     src_model = config_text (rq_config req) ''model'', src_replay = env\<rparr>"

definition envelope_json :: "replay_envelope \<Rightarrow> json" where
  "envelope_json env = JObj ((''response'', env_response env) #
     (case env_blocks env of None \<Rightarrow> [] | Some bs \<Rightarrow> [(''blocks'', JArr bs)]))"

definition append_assistant ::
    "int \<Rightarrow> assistant_message \<Rightarrow> token_usage option \<Rightarrow> bool \<Rightarrow> int list \<Rightarrow> agent \<Rightarrow> agent \<times> (session_error + int)" where
  "append_assistant now m usage interrupted seqs a =
     agent_append now (AssistantMessage (turn_of (ag_phase a)) (step_of (ag_phase a)) m usage interrupted) (append_intent (Some seqs)) a"

text \<open>The stream throws, or the signal is found aborted while it is read: what was received in full is kept.\<close>

definition stream_fails ::
    "(loop_error \<Rightarrow> string) \<Rightarrow> int \<Rightarrow> turn_end_reason option \<Rightarrow> llm_request \<Rightarrow> assembler \<Rightarrow> int list \<Rightarrow> message_id \<Rightarrow> loop_error \<Rightarrow> agent \<Rightarrow> agent" where
  "stream_fails chain now ends req asb seqs mid err a =
     (if agent_aborted a = None then close_step chain now ends (Inl err) a
      else (case interrupted_blocks asb of
          Inl bad \<Rightarrow> close_step chain now ends (Inl (BadStream bad)) a
        | Inr content \<Rightarrow>
            if content = [] then close_step chain now ends (Inl err) a
            else (case append_assistant now \<lparr>am_id = mid, am_content = content, am_source = model_source_of req None\<rparr>
                         (as_usage asb) True seqs a of
                (a1, Inl bad) \<Rightarrow> close_step chain now ends (Inl (AppendRejected bad)) a1
              | (a1, Inr _) \<Rightarrow> close_step chain now ends (Inl err) a1)))"

definition read_chunk ::
    "(loop_error \<Rightarrow> string) \<Rightarrow> int \<Rightarrow> turn_end_reason option \<Rightarrow> prompt_assembly \<Rightarrow> llm_request \<Rightarrow> assembler \<Rightarrow> int list \<Rightarrow>
      stream_chunk \<Rightarrow> message_id \<Rightarrow> agent \<Rightarrow> agent" where
  "read_chunk chain now ends asm req asb seqs c mid a = (case agent_aborted a of
      Some cause \<Rightarrow> stream_fails chain now ends req asb seqs mid (Cancelled cause) a
    | None \<Rightarrow>
        (case agent_append now (AssistantChunk (turn_of (ag_phase a)) (step_of (ag_phase a)) c) no_intent a of
           (a1, Inl err) \<Rightarrow> stream_fails chain now ends req asb seqs mid (AppendRejected err) a1
         | (a1, Inr q) \<Rightarrow> a1\<lparr>ag_pc := AtStream ends asm req (push c asb) (seqs @ [q])\<rparr>))"

text \<open>The tool calls of the finished message, in order.\<close>

definition planned_calls :: "content_block list \<Rightarrow> tool_call list" where
  "planned_calls bs = List.map_filter (\<lambda>b. case b of ToolCallBlock c n args \<Rightarrow> Some \<lparr>tc_id = c, tc_name = n, tc_args = args\<rparr> | _ \<Rightarrow> None) bs"

definition message_done ::
    "(loop_error \<Rightarrow> string) \<Rightarrow> int \<Rightarrow> nat \<Rightarrow> turn_end_reason option \<Rightarrow> finish_reason \<Rightarrow> content_block list \<Rightarrow> agent \<Rightarrow> agent" where
  "message_done chain now cap ends finish content a =
     (if finish = FinishMaxTokens then close_step chain now ends (Inr (Some TurnMaxTokens)) a
      else if planned_calls content = [] then close_step chain now ends (Inr (Some TurnCompleted)) a
      else a\<lparr>ag_pc := AtTools ends (start_tools (ag_inbox a) (turn_of (ag_phase a)) (step_of (ag_phase a)) (planned_calls content) cap
             (agent_aborted a \<noteq> None))\<rparr>)"

definition stream_finished ::
    "(loop_error \<Rightarrow> string) \<Rightarrow> int \<Rightarrow> nat \<Rightarrow> turn_end_reason option \<Rightarrow> prompt_assembly \<Rightarrow> llm_request \<Rightarrow> assembler \<Rightarrow> int list \<Rightarrow>
      message_id \<Rightarrow> agent \<Rightarrow> agent" where
  "stream_finished chain now cap ends asm req asb seqs mid a = (case finish_of asb of
      FinishError f \<Rightarrow> a\<lparr>ag_pc := AtRequestError ends asm f\<rparr>
    | FinishAborted f \<Rightarrow> a\<lparr>ag_pc := AtRequestError ends asm f\<rparr>
    | finish \<Rightarrow>
        (case assembled asb of
           Inl bad \<Rightarrow> close_step chain now ends (Inl (BadStream bad)) a
         | Inr (content, env) \<Rightarrow>
             (case append_assistant now
                  \<lparr>am_id = mid, am_content = content, am_source = model_source_of req (map_option envelope_json env)\<rparr>
                  (as_usage asb) False seqs a of
                (a1, Inl err) \<Rightarrow> close_step chain now ends (Inl (AppendRejected err)) a1
              | (a1, Inr _) \<Rightarrow> message_done chain now cap ends finish content a1)))"

definition end_stream ::
    "(loop_error \<Rightarrow> string) \<Rightarrow> int \<Rightarrow> nat \<Rightarrow> turn_end_reason option \<Rightarrow> prompt_assembly \<Rightarrow> llm_request \<Rightarrow> assembler \<Rightarrow> int list \<Rightarrow>
      message_id \<Rightarrow> agent \<Rightarrow> agent" where
  "end_stream chain now cap ends asm req asb seqs mid a = (case agent_aborted a of
      Some cause \<Rightarrow> stream_fails chain now ends req asb seqs mid (Cancelled cause) a
    | None \<Rightarrow> stream_finished chain now cap ends asm req asb seqs mid a)"

definition error_decided ::
    "(loop_error \<Rightarrow> string) \<Rightarrow> int \<Rightarrow> turn_end_reason option \<Rightarrow> prompt_assembly \<Rightarrow> failure_facts \<Rightarrow> bool \<Rightarrow> agent \<Rightarrow> agent" where
  "error_decided chain now ends asm f retry a = (case agent_aborted a of
      Some cause \<Rightarrow> close_step chain now ends (Inl (Cancelled cause)) a
    | None \<Rightarrow> if retry then begin_request chain now ends asm a else close_step chain now ends (Inl (LlmError f)) a)"

section \<open>Waking\<close>

text \<open>One driver at a time: a wake behind maintenance or an aborted activity is latched.\<close>

definition wake_driver :: "(loop_error \<Rightarrow> string) \<Rightarrow> int \<Rightarrow> bool \<Rightarrow> agent \<Rightarrow> agent" where
  "wake_driver chain now after_abort a = (case ag_phase a of
      Idle n \<Rightarrow> enter_turn chain now (a\<lparr>ag_phase := Running None n 0 False\<rparr>)
    | Maintenance ab n w \<Rightarrow> if ab \<noteq> Some ByDisposed then a\<lparr>ag_phase := Maintenance ab n True\<rparr> else a
    | Running ab n k w \<Rightarrow> if ab \<noteq> Some ByDisposed \<and> after_abort then a\<lparr>ag_phase := Running ab n k True\<rparr> else a)"

definition send :: "(loop_error \<Rightarrow> string) \<Rightarrow> int \<Rightarrow> message \<Rightarrow> inbox_target \<Rightarrow> bool \<Rightarrow> agent \<Rightarrow> agent" where
  "send chain now m target wakeup a =
     (let after_abort = (wakeup \<and> \<not> is_idle (ag_phase a) \<and> agent_aborted a \<noteq> None);
          resolved = (if after_abort then NextTurn else target) in
      case splice now resolved PosInf (js_num 0) [m] (ag_inbox a) of
        (ix, Inl _) \<Rightarrow> with_inbox ix a
      | (ix, Inr _) \<Rightarrow> if wakeup then wake_driver chain now after_abort (with_inbox ix a) else with_inbox ix a)"

definition followup :: "(loop_error \<Rightarrow> string) \<Rightarrow> int \<Rightarrow> message \<Rightarrow> agent \<Rightarrow> agent" where
  "followup chain now m a = send chain now m NextTurn True a"

definition steer :: "(loop_error \<Rightarrow> string) \<Rightarrow> int \<Rightarrow> message \<Rightarrow> agent \<Rightarrow> agent" where
  "steer chain now m a = send chain now m NextStep True a"

definition inject :: "(loop_error \<Rightarrow> string) \<Rightarrow> int \<Rightarrow> message \<Rightarrow> agent \<Rightarrow> agent" where
  "inject chain now m a = send chain now m NextStep False a"

fun drop_wake :: "agent_phase \<Rightarrow> agent_phase" where
  "drop_wake (Maintenance ab n _) = Maintenance ab n False"
| "drop_wake (Running ab n k _) = Running ab n k False"
| "drop_wake p = p"

text \<open>Only the first abort of a controller counts.\<close>

fun abort_phase :: "cancel_cause \<Rightarrow> agent_phase \<Rightarrow> agent_phase" where
  "abort_phase c (Maintenance None n w) = Maintenance (Some c) n w"
| "abort_phase c (Running None n k w) = Running (Some c) n k w"
| "abort_phase c p = p"

definition cancel :: "int \<Rightarrow> cancel_cause \<Rightarrow> bool \<Rightarrow> agent \<Rightarrow> agent" where
  "cancel now cause keep_inbox a =
     (if keep_inbox then a\<lparr>ag_phase := abort_phase cause (ag_phase a)\<rparr>
      else (case clear now (ag_inbox a) of
          (ix, Inl _) \<Rightarrow> with_inbox ix a
        | (ix, Inr _) \<Rightarrow> (with_inbox ix a)\<lparr>ag_phase := abort_phase cause (drop_wake (ag_phase a))\<rparr>))"

definition begin_maintenance :: "agent \<Rightarrow> agent option" where
  "begin_maintenance a = (case ag_phase a of Idle n \<Rightarrow> Some (a\<lparr>ag_phase := Maintenance None n False\<rparr>) | _ \<Rightarrow> None)"

definition end_maintenance :: "(loop_error \<Rightarrow> string) \<Rightarrow> int \<Rightarrow> agent \<Rightarrow> agent option" where
  "end_maintenance chain now a = (case ag_phase a of
      Maintenance ab n w \<Rightarrow>
        let a1 = a\<lparr>ag_phase := Idle n\<rparr> in
        Some (if w \<and> has_pending a1 then wake_driver chain now False a1 else a1)
    | _ \<Rightarrow> None)"

text \<open>The \<open>finally\<close> of \<open>kick\<close>.\<close>

definition driver_exits :: "(loop_error \<Rightarrow> string) \<Rightarrow> int \<Rightarrow> agent \<Rightarrow> agent" where
  "driver_exits chain now a = (case ag_phase a of
      Running ab n k w \<Rightarrow>
        let a1 = a\<lparr>ag_phase := Idle n, ag_pc := NoDriver\<rparr> in
        if w \<and> has_pending a1 then wake_driver chain now False a1 else a1
    | _ \<Rightarrow> a)"

section \<open>The transitions\<close>

datatype agent_input =
    Go
  | Assembled prompt_assembly message_id
  | Decided "message list option"
  | DecidedByDefault
  | Proposed json
  | CallPrepared "prepared_llm option"
  | Chunk stream_chunk message_id
  | StreamEnd message_id
  | ErrorDecision bool
  | ToolMove tool_input
  | Threw loop_error message_id
  | Send message inbox_target bool
  | Cancel cancel_cause bool
  | BeginMaintenance
  | EndMaintenance
  | Others inbox_op

fun throwable :: "loop_error \<Rightarrow> bool" where
  "throwable (LlmError _) = True"
| "throwable (Thrown _) = True"
| "throwable _ = False"

definition assembled_prompt ::
    "(loop_error \<Rightarrow> string) \<Rightarrow> int \<Rightarrow> turn_end_reason option \<Rightarrow> message list \<Rightarrow> prompt_assembly \<Rightarrow> message_id \<Rightarrow> agent \<Rightarrow> agent" where
  "assembled_prompt chain now ends claimed asm mid a = (case agent_aborted a of
      Some cause \<Rightarrow> turn_fails chain now (Cancelled cause) a
    | None \<Rightarrow> a\<lparr>ag_pc := AtDecide ends
        (claimed @ (case project_context mid (pa_context asm) (pa_sections asm) (ag_retained a) of None \<Rightarrow> [] | Some m \<Rightarrow> [m])) asm\<rparr>)"

definition stopping_done :: "(loop_error \<Rightarrow> string) \<Rightarrow> int \<Rightarrow> turn_end_reason \<Rightarrow> agent \<Rightarrow> agent" where
  "stopping_done chain now reason a = (case agent_aborted a of
      Some cause \<Rightarrow> turn_fails chain now (Cancelled cause) a
    | None \<Rightarrow> if ib_next_step (ix_lists (ag_inbox a)) = [] then turn_breaks now reason a
        else loop_head chain now (Some reason) NextStep a)"

definition tools_move :: "int \<Rightarrow> turn_end_reason option \<Rightarrow> tool_run \<Rightarrow> tool_input \<Rightarrow> agent \<Rightarrow> agent option" where
  "tools_move now ends r inp a = (case inp of
      SignalAborted \<Rightarrow> None
    | Elsewhere _ \<Rightarrow> None
    | _ \<Rightarrow> (case tool_step now inp (r\<lparr>tx_inbox := ag_inbox a, tx_signal := (agent_aborted a \<noteq> None)\<rparr>) of
          None \<Rightarrow> None
        | Some r' \<Rightarrow> Some ((with_inbox (tx_inbox r') a)\<lparr>ag_pc := AtTools ends r'\<rparr>)))"

definition tools_done :: "(loop_error \<Rightarrow> string) \<Rightarrow> int \<Rightarrow> turn_end_reason option \<Rightarrow> tool_run \<Rightarrow> agent \<Rightarrow> agent option" where
  "tools_done chain now ends r a = (case tx_at r of
      AtReturned \<Rightarrow> Some (close_step chain now ends (Inr (if tx_concluded r then Some TurnCompleted else None)) a)
    | AtThrown \<Rightarrow> (case tx_failure r of
          Some f \<Rightarrow> Some (close_step chain now ends (Inl (SchedulerFailed f)) a)
        | None \<Rightarrow> None)
    | _ \<Rightarrow> None)"

definition driver_step :: "(loop_error \<Rightarrow> string) \<Rightarrow> nat \<Rightarrow> int \<Rightarrow> agent_input \<Rightarrow> agent \<Rightarrow> agent option" where
  "driver_step chain cap now inp a = (case ag_pc a of
      NoDriver \<Rightarrow> None
    | AtTurn \<Rightarrow> if inp = Go then Some (enter_turn chain now a) else None
    | AtExit \<Rightarrow> if inp = Go then Some (driver_exits chain now a) else None
    | AtAssemble ends ms \<Rightarrow> (case inp of
          Assembled asm mid \<Rightarrow> Some (assembled_prompt chain now ends ms asm mid a)
        | Threw e mid \<Rightarrow> Some (turn_fails chain now e a)
        | _ \<Rightarrow> None)
    | AtDecide ends ms asm \<Rightarrow> (case inp of
          Decided d \<Rightarrow> Some (decided chain now ends asm d a)
        | DecidedByDefault \<Rightarrow> Some (decided chain now ends asm (Some ms) a)
        | Threw e mid \<Rightarrow> Some (turn_fails chain now e a)
        | _ \<Rightarrow> None)
    | AtPropose ends asm ms seed \<Rightarrow> (case inp of
          Proposed c \<Rightarrow> Some (proposed chain now ends asm ms c a)
        | Threw e mid \<Rightarrow> Some (close_step chain now ends (Inl e) a)
        | _ \<Rightarrow> None)
    | AtPrepareCall ends asm ms c \<Rightarrow> (case inp of
          CallPrepared p \<Rightarrow> Some (prepared_call chain now ends asm ms c p a)
        | Threw e mid \<Rightarrow> Some (close_step chain now ends (Inl e) a)
        | _ \<Rightarrow> None)
    | AtStream ends asm req asb seqs \<Rightarrow> (case inp of
          Chunk c mid \<Rightarrow> Some (read_chunk chain now ends asm req asb seqs c mid a)
        | StreamEnd mid \<Rightarrow> Some (end_stream chain now cap ends asm req asb seqs mid a)
        | Threw e mid \<Rightarrow> Some (stream_fails chain now ends req asb seqs mid e a)
        | _ \<Rightarrow> None)
    | AtRequestError ends asm f \<Rightarrow> (case inp of
          ErrorDecision retry \<Rightarrow> Some (error_decided chain now ends asm f retry a)
        | Threw e mid \<Rightarrow> Some (close_step chain now ends (Inl e) a)
        | _ \<Rightarrow> None)
    | AtTools ends r \<Rightarrow> (case inp of
          ToolMove t \<Rightarrow> tools_move now ends r t a
        | Go \<Rightarrow> tools_done chain now ends r a
        | _ \<Rightarrow> None)
    | AtStopping reason \<Rightarrow> (case inp of
          Go \<Rightarrow> Some (stopping_done chain now reason a)
        | Threw e mid \<Rightarrow> Some (turn_fails chain now e a)
        | _ \<Rightarrow> None))"

fun turn_is_open :: "agent_pc \<Rightarrow> bool" where
  "turn_is_open NoDriver = False"
| "turn_is_open AtTurn = False"
| "turn_is_open AtExit = False"
| "turn_is_open _ = True"

definition agent_step :: "(loop_error \<Rightarrow> string) \<Rightarrow> nat \<Rightarrow> int \<Rightarrow> agent_input \<Rightarrow> agent \<Rightarrow> agent option" where
  "agent_step chain cap now inp a = (case inp of
      Send m target wakeup \<Rightarrow> Some (send chain now m target wakeup a)
    | Cancel cause keep_inbox \<Rightarrow> Some (cancel now cause keep_inbox a)
    | BeginMaintenance \<Rightarrow> begin_maintenance a
    | EndMaintenance \<Rightarrow> end_maintenance chain now a
    | Others p \<Rightarrow> if others_may (turn_is_open (ag_pc a)) p then Some (with_inbox (run_op now p (ag_inbox a)) a) else None
    | Threw e mid \<Rightarrow> if throwable e then driver_step chain cap now inp a else None
    | _ \<Rightarrow> driver_step chain cap now inp a)"

fun run_agent :: "(loop_error \<Rightarrow> string) \<Rightarrow> nat \<Rightarrow> (int \<times> agent_input) list \<Rightarrow> agent \<Rightarrow> agent option" where
  "run_agent chain cap [] a = Some a"
| "run_agent chain cap ((now, inp) # rest) a =
     (case agent_step chain cap now inp a of None \<Rightarrow> None | Some a' \<Rightarrow> run_agent chain cap rest a')"

end
