(* ===== verification/Tool_Outcome.thy ===== *)
theory Tool_Outcome
  imports Tool_Schedule
begin

text \<open>
  What \<open>executeToolCalls\<close> guarantees of every run: its end, its pool, and the calls and answers it leaves in the log.
\<close>

section \<open>Runs\<close>

lemma tool_step_frame:
  assumes "tool_step now inp r = Some r'"
  shows "tx_plan r' = tx_plan r \<and> tx_cap r' = tx_cap r \<and> tx_turn r' = tx_turn r \<and> tx_step r' = tx_step r"
proof -
  have start: "tx_plan (start_call now q) = tx_plan q \<and> tx_cap (start_call now q) = tx_cap q \<and>
      tx_turn (start_call now q) = tx_turn q \<and> tx_step (start_call now q) = tx_step q" for q
    by (simp add: start_call_def split: prod.split sum.split)
  have close: "tx_plan (after_fill q) = tx_plan q \<and> tx_cap (after_fill q) = tx_cap q \<and>
      tx_turn (after_fill q) = tx_turn q \<and> tx_step (after_fill q) = tx_step q" for q
    by (simp add: after_fill_def close_group_def Let_def)
  have commit: "tx_plan (commit_result now res mid q) = tx_plan q \<and> tx_cap (commit_result now res mid q) = tx_cap q \<and>
      tx_turn (commit_result now res mid q) = tx_turn q \<and> tx_step (commit_result now res mid q) = tx_step q" for q res mid
    by (simp add: commit_result_def split: prod.split sum.split)
  show ?thesis using assms
    by (cases inp; cases "tx_at r")
      (auto simp: tool_step_def settle_call_def main_step_def fill_step_def prepare_step_def commit_step_def race_step_def
        skip_step_def begin_group_def Let_def start close commit split: if_splits sum.splits option.splits prod.splits prepare_outcome.splits)
qed

lemma run_tools_inv:
  assumes "run_tools inputs r = Some r'" and "tool_inv n0 nt ns others r"
    and "distinct (map tc_id (tx_plan r))" and "others \<inter> tc_id ` set (tx_plan r) = {}"
  shows "tool_inv n0 nt ns others r' \<and> tx_plan r' = tx_plan r \<and> tx_cap r' = tx_cap r \<and> tx_turn r' = tx_turn r \<and> tx_step r' = tx_step r"
  using assms
proof (induction inputs r rule: run_tools.induct)
  case (2 now inp inputs r)
  then obtain r1 where r1: "tool_step now inp r = Some r1" "run_tools inputs r1 = Some r'" by (auto split: option.splits)
  note frame = tool_step_frame [OF r1(1)] and inv = tool_step_inv [OF "2.prems"(2) r1(1) "2.prems"(3,4)]
  show ?case using "2.IH" [OF r1(1,2) inv] frame "2.prems"(3,4) by simp
qed simp

section \<open>Termination\<close>

text \<open>The inputs that move the scheduler; the others are arrivals from outside, which may come any time.\<close>

fun progress :: "tool_input \<Rightarrow> bool" where
  "progress SignalAborted = False"
| "progress (Elsewhere _) = False"
| "progress _ = True"

fun at_weight :: "schedule_at \<Rightarrow> nat" where
  "at_weight AtPrepare = 8"
| "at_weight AtCommit = 3"
| "at_weight AtClassify = 3"
| "at_weight AtFill = 2"
| "at_weight AtRace = 1"
| "at_weight AtSkip = 1"
| "at_weight AtDrain = 1"
| "at_weight AtReturned = 0"
| "at_weight AtThrown = 0"

definition launched :: "tool_run \<Rightarrow> nat" where
  "launched r = tx_next r + (if active (tx_at r) \<or> failed_at (tx_at r) then tx_started r else 0)"

definition potential :: "tool_run \<Rightarrow> nat" where
  "potential r = 10 * (length (tx_plan r) - launched r) + 3 * length (tx_flight r) +
     length (filter (\<lambda>i. i \<notin> set (tx_settled r)) (tx_flight r)) + (tx_started r - tx_committed r) +
     at_weight (tx_at r) + (if active (tx_at r) \<and> tx_started r > 0 then 2 else 0)"

lemma fail_potential:
  assumes "active (tx_at r)" and "at_weight (tx_at r) > 1 \<or> length (tx_flight r') < length (tx_flight r)"
    and "length (tx_flight r') \<le> length (tx_flight r)"
    and "length (filter (\<lambda>i. i \<notin> set (tx_settled r')) (tx_flight r')) \<le> length (filter (\<lambda>i. i \<notin> set (tx_settled r)) (tx_flight r))"
    and "tx_plan r' = tx_plan r" "tx_next r' = tx_next r" "tx_started r' = tx_started r" "tx_committed r' = tx_committed r"
  shows "potential (fail_with f r') < potential r"
proof -
  have "launched (fail_with f r') = launched r" using assms by (simp add: launched_def)
  then show ?thesis using assms by (cases "tx_at r") (auto simp: potential_def)
qed

lemma after_fill_potential:
  assumes inv: "tool_inv n0 nt ns others r" and at': "tx_at r = AtFill" and cap: "tx_cap r > 0" and stop: "\<not> can_fill r \<or> tx_start r > 0"
  shows "potential (after_fill r) < potential r"
proof -
  have act: "active (tx_at r)" using at' by simp
  note i = tool_inv_active [OF inv act]
  have started: "tx_started r = tx_start r" "tool_group r \<noteq> []"
    using i(1) at' by (auto simp: group_inv_def tool_group_def)
  show ?thesis
  proof (cases "tx_flight r = []")
    case False
    then show ?thesis using at' by (simp add: after_fill_def potential_def launched_def)
  next
    case True
    note idle = idle_group_is_committed [OF i(1,2) at' True]
    have "tx_started r > 0" if "\<not> tx_aborted r"
      using that stop started cap True by (cases "tx_start r") (auto simp: can_fill_def)
    then show ?thesis using at' True idle by (auto simp: after_fill_def close_group_def Let_def potential_def launched_def)
  qed
qed

lemma start_call_potential:
  assumes inv: "tool_inv n0 nt ns others r" and at': "tx_at r = AtFill" and fill: "can_fill r"
  shows "potential (start_call now r) < potential r"
proof -
  have act: "active (tx_at r)" using at' by simp
  note i = tool_inv_active [OF inv act]
  have room: "tx_next r + tx_started r < length (tx_plan r)" "tx_committed r \<le> tx_started r"
    using i(1) at' fill tool_group_length [of r] by (auto simp: group_inv_def can_fill_def)
  obtain ix q where a: "append_tool_call now (tx_turn r) (tx_step r) (tool_group r ! tx_start r) (tx_inbox r) = (ix, q)"
    by (cases "append_tool_call now (tx_turn r) (tx_step r) (tool_group r ! tx_start r) (tx_inbox r)")
  show ?thesis
  proof (cases q)
    case (Inl err)
    have "potential (fail_with (ToolAppendFailed err) (r\<lparr>tx_inbox := ix\<rparr>)) < potential r" by (rule fail_potential) (simp_all add: at')
    then show ?thesis by (simp add: start_call_def a Inl)
  next
    case (Inr n)
    then show ?thesis using room at' by (simp add: start_call_def a potential_def launched_def)
  qed
qed

lemma prepare_potential:
  assumes inv: "tool_inv n0 nt ns others r" and at': "tx_at r = AtPrepare" and s: "prepare_step inp r = Some r'"
  shows "potential r' < potential r"
proof -
  have "tx_failure r \<noteq> Some Uncommitted" using inv by (simp add: tool_inv_def)
  from prepare_cases [OF s this] show ?thesis
  proof (elim disjE exE conjE)
    fix f assume "r' = fail_with f r"
    then show ?thesis using fail_potential [of r r f] at' by simp
  qed (use at' in \<open>simp_all add: potential_def launched_def\<close>)
qed

lemma commit_potential:
  assumes inv: "tool_inv n0 nt ns others r" and at': "tx_at r = AtCommit" and s: "commit_step now inp r = Some r'"
  shows "potential r' < potential r"
proof -
  have act: "active (tx_at r)" using at' by simp
  note i = tool_inv_active [OF inv act]
  have fails: "potential (fail_with f (r\<lparr>tx_inbox := ix\<rparr>)) < potential r" for f ix by (rule fail_potential) (simp_all add: at')
  have fails': "potential (fail_with f r) < potential r" for f by (rule fail_potential) (simp_all add: at')
  show ?thesis
  proof (cases "ready_slot r")
    case None
    then have "r' = (case tx_failure r of Some f \<Rightarrow> fail_with f r
        | None \<Rightarrow> r\<lparr>tx_aborted := (tx_aborted r \<or> tx_signal r), tx_at := AtFill\<rparr>)"
      using s by (cases inp) (simp_all add: commit_step_def)
    then show ?thesis using fails' at' by (cases "tx_failure r") (auto simp: potential_def launched_def)
  next
    case (Some st)
    then have "tx_committed r < tx_started r"
      using i(1) at' by (auto simp: group_inv_def ready_slot_def split: if_splits)
    then have next': "potential (r\<lparr>tx_inbox := ix, tx_group_concluded := b, tx_committed := Suc (tx_committed r)\<rparr>) < potential r" for ix b
      using at' by (simp add: potential_def launched_def)
    have "potential (commit_result now res mid r) < potential r" for res mid
      unfolding commit_result_def using fails next' by (simp split: prod.split sum.split)
    then show ?thesis using s fails' Some by (cases inp) (auto simp: commit_step_def)
  qed
qed

lemma race_potential:
  assumes at': "tx_at r = AtRace" and s: "race_step inp r = Some r'"
  shows "potential r' < potential r"
proof -
  obtain j where j: "inp = Picked j" "j \<in> set (tx_flight r)" "j \<in> set (tx_settled r)"
    using s by (cases inp) (auto simp: race_step_def split: if_splits)
  let ?r = "r\<lparr>tx_flight := remove1 j (tx_flight r)\<rparr>"
  have len: "length (tx_flight r) = Suc (length (remove1 j (tx_flight r)))" using length_pos_if_in_set [OF j(2)] j(2) by (simp add: length_remove1)
  have same: "filter (\<lambda>i. i \<notin> set (tx_settled r)) (remove1 j (tx_flight r)) = filter (\<lambda>i. i \<notin> set (tx_settled r)) (tx_flight r)"
    using j(3) by (simp add: filter_remove1 remove1_idem)
  have "potential (fail_with f ?r) < potential r" for f by (rule fail_potential) (simp_all add: at' len same)
  then show ?thesis using s j len same at' by (cases "tx_failure r") (auto simp: race_step_def potential_def launched_def)
qed

lemma skip_potential:
  assumes at': "tx_at r = AtSkip" and s: "skip_step now inp r = Some r'"
  shows "potential r' < potential r"
  using assms by (cases inp) (auto simp: skip_step_def potential_def launched_def split: if_splits prod.splits sum.splits)

lemma filter_shrinks:
  "i \<in> set xs \<Longrightarrow> i \<notin> S \<Longrightarrow> length (filter (\<lambda>k. k \<noteq> i \<and> k \<notin> S) xs) < length (filter (\<lambda>k. k \<notin> S) xs)"
proof (induction xs)
  case (Cons x xs)
  have "length (filter (\<lambda>k. k \<noteq> i \<and> k \<notin> S) xs) \<le> length (filter (\<lambda>k. k \<notin> S) xs)" by (induction xs) auto
  with Cons show ?case by auto
qed simp

lemma settled_potential:
  assumes "i \<in> set (tx_flight r)" and "i \<notin> set (tx_settled r)"
  shows "potential (settle_call i res r) < potential r"
proof -
  show ?thesis using filter_shrinks [OF assms]
    by (cases res) (simp_all add: settle_call_def potential_def launched_def)
qed

lemma begin_potential:
  "tx_at r = AtClassify \<Longrightarrow> tx_next r < length (tx_plan r) \<Longrightarrow> potential (begin_group par r) < potential r"
  by (simp add: begin_group_def Let_def potential_def launched_def)

lemma fill_potential:
  assumes inv: "tool_inv n0 nt ns others r" and at': "tx_at r = AtFill" and cap: "tx_cap r > 0" and s: "fill_step now inp r = Some r'"
  shows "potential r' < potential r"
proof -
  have "(\<not> can_fill r \<or> tx_start r > 0) \<and> r' = after_fill r \<or> can_fill r \<and> r' = start_call now r"
    using s by (cases inp) (auto simp: fill_step_def reclassifies_def split: if_splits)
  then show ?thesis using after_fill_potential [OF inv at' cap] start_call_potential [OF inv at'] by blast
qed

lemma main_potential:
  assumes inv: "tool_inv n0 nt ns others r" and cap: "tx_cap r > 0" and s: "main_step now inp r = Some r'"
  shows "potential r' < potential r"
proof (cases "tx_at r")
  case AtClassify
  then have "(\<exists>par. tx_next r < length (tx_plan r) \<and> r' = begin_group par r) \<or> r' = r\<lparr>tx_at := AtReturned\<rparr>"
    using s by (cases inp) (auto simp: main_step_def split: if_splits)
  moreover have "potential (r\<lparr>tx_at := AtReturned\<rparr>) < potential r" using AtClassify by (simp add: potential_def launched_def)
  ultimately show ?thesis using begin_potential [OF AtClassify] by blast
next
  case AtDrain
  then have "r' = r\<lparr>tx_at := AtThrown\<rparr>" using s by (cases inp) (auto simp: main_step_def split: if_splits)
  then show ?thesis using AtDrain by (simp add: potential_def launched_def)
qed (use s fill_potential [OF inv _ cap] prepare_potential [OF inv] commit_potential [OF inv] race_potential skip_potential
    in \<open>simp_all add: main_step_def\<close>)

lemma step_potential:
  assumes inv: "tool_inv n0 nt ns others r" and cap: "tx_cap r > 0" and s: "tool_step now inp r = Some r'"
  shows "potential r' + (if progress inp then 1 else 0) \<le> potential r"
proof (cases inp)
  case (Settled i res)
  then show ?thesis using s settled_potential [of i r res] by (auto simp: tool_step_def split: if_splits)
next
  case SignalAborted
  then show ?thesis using s by (auto simp: tool_step_def potential_def launched_def)
next
  case (Elsewhere p)
  then show ?thesis using s by (auto simp: tool_step_def potential_def launched_def split: if_splits)
qed (use s main_potential [OF inv cap, of now inp r'] in \<open>auto simp: tool_step_def\<close>)

lemma run_potential:
  assumes "run_tools inputs r = Some r'" and "tool_inv n0 nt ns others r" and "tx_cap r > 0"
    and "distinct (map tc_id (tx_plan r))" and "others \<inter> tc_id ` set (tx_plan r) = {}"
  shows "potential r' + length (filter (\<lambda>p. progress (snd p)) inputs) \<le> potential r"
  using assms
proof (induction inputs r rule: run_tools.induct)
  case (2 now inp inputs r)
  then obtain r1 where r1: "tool_step now inp r = Some r1" "run_tools inputs r1 = Some r'" by (auto split: option.splits)
  note inv = tool_step_inv [OF "2.prems"(2) r1(1) "2.prems"(4,5)]
  note ih = "2.IH" [OF r1(1,2) inv] and pot = step_potential [OF "2.prems"(2,3) r1(1)]
  show ?case using ih pot tool_step_frame [OF r1(1)] "2.prems"(3,4,5) by (simp split: if_splits)
qed simp

text \<open>A run that has neither returned nor thrown can go on.\<close>

lemma run_goes_on:
  assumes inv: "tool_inv n0 nt ns others r" and "tx_at r \<noteq> AtReturned" and "tx_at r \<noteq> AtThrown"
  shows "\<exists>inp. progress inp \<and> tool_step now inp r \<noteq> None"
proof (cases "tx_at r")
  case AtClassify
  then show ?thesis
    by (cases "tx_next r < length (tx_plan r)")
      (auto intro: exI [of _ "Classified True"] exI [of _ Advance] simp: tool_step_def main_step_def)
next
  case AtFill
  then show ?thesis
    by (cases "can_fill r \<and> reclassifies r")
      (auto intro: exI [of _ "Classified True"] exI [of _ Advance] simp: tool_step_def main_step_def fill_step_def)
next
  case AtPrepare
  then show ?thesis by (auto intro!: exI [of _ "Failed []"] simp: tool_step_def main_step_def prepare_step_def)
next
  case AtCommit
  then show ?thesis
    by (cases "ready_slot r")
      (auto intro: exI [of _ "Failed []"] exI [of _ Advance] simp: tool_step_def main_step_def commit_step_def)
next
  case AtRace
  then have "tx_flight r \<noteq> []" using tool_inv_active(2) [OF inv] by (simp add: pool_inv_def)
  then obtain i where i: "i \<in> set (tx_flight r)" by (cases "tx_flight r") auto
  show ?thesis
  proof (cases "i \<in> set (tx_settled r)")
    case True
    then show ?thesis using i AtRace by (auto intro!: exI [of _ "Picked i"] simp: tool_step_def main_step_def race_step_def Let_def)
  next
    case False
    then show ?thesis using i by (auto intro!: exI [of _ "Settled i (Inl [])"] simp: tool_step_def)
  qed
next
  case AtSkip
  then show ?thesis
    by (cases "tx_next r < length (tx_plan r)")
      (auto intro: exI [of _ "SkippedResult []"] exI [of _ Advance] simp: tool_step_def main_step_def skip_step_def)
next
  case AtDrain
  show ?thesis
  proof (cases "set (tx_flight r) \<subseteq> set (tx_settled r)")
    case True
    then show ?thesis using AtDrain by (auto intro!: exI [of _ Advance] simp: tool_step_def main_step_def)
  next
    case False
    then obtain i where "i \<in> set (tx_flight r)" "i \<notin> set (tx_settled r)" by auto
    then show ?thesis by (auto intro!: exI [of _ "Settled i (Inl [])"] simp: tool_step_def)
  qed
qed (use assms in simp_all)

section \<open>The start\<close>

lemma seed_last_seq: "contiguous evs \<Longrightarrow> seed_session evs = Inr t \<Longrightarrow> tr_last_seq t < int (length evs)"
proof (induction evs arbitrary: t rule: rev_induct)
  case Nil
  then show ?case by (auto simp: seed_session_def fresh_trace_def)
next
  case (snoc e evs)
  then obtain t0 where "seed_session evs = Inr t0" "trace_step t0 e = Inr t" by (auto simp: seed_session_def replay_snoc_Inr)
  then have "tr_last_seq t = ev_seq e"
    by (auto simp: trace_step_Inr validate_event_def unchanged_def apply_transition_def rbind_Inr_iff Let_def
        split: if_splits event_data.splits)
  then show ?case using snoc.prems(1) by (simp add: contiguous_snoc)
qed

text \<open>The step the calls belong to is open in the log, and their ids are new in it.\<close>

definition step_open :: "inbox \<Rightarrow> int \<Rightarrow> int \<Rightarrow> tool_call list \<Rightarrow> bool" where
  "step_open ix turn step plan \<longleftrightarrow> (case seed_session (ses_log (ix_session ix)) of
     Inl _ \<Rightarrow> False
   | Inr t \<Rightarrow> tr_open_turn t = Some turn \<and> tr_open_step t = Some step \<and> tr_pending t \<inter> tc_id ` set plan = {} \<and> distinct (map tc_id plan))"

lemma start_inv:
  assumes ix: "inbox_inv ix" and o': "step_open ix turn step plan" and t: "seed_session (ses_log (ix_session ix)) = Inr t"
  shows "tool_inv (length (ses_log (ix_session ix))) (tr_next_turn t) (tr_next_step t) (tr_pending t) (start_tools ix turn step plan cap signal)"
    and "distinct (map tc_id plan)" and "tr_pending t \<inter> tc_id ` set plan = {}"
proof -
  let ?log = "ses_log (ix_session ix)"
  have open': "tr_open_turn t = Some turn" "tr_open_step t = Some step" and apart: "tr_pending t \<inter> tc_id ` set plan = {}"
    and d: "distinct (map tc_id plan)"
    using o' t by (simp_all add: step_open_def)
  have "contiguous ?log" using ix fold_surface_contiguous by (auto simp: inbox_inv_def session_ok_def)
  then have last: "tr_last_seq t < int (length ?log)" by (rule seed_last_seq [OF _ t])
  have "trace_view t = in_step turn step (tr_next_turn t) (tr_next_step t) (tr_pending t)"
    using open' by (simp add: trace_view_eq in_step_def)
  then have "log_at ?log (in_step turn step (tr_next_turn t) (tr_next_step t) (tr_pending t \<union> open_ids plan 0 0))"
    using t last by (simp add: log_at_def open_ids_def)
  then have "tool_world (length ?log) (tr_next_turn t) (tr_next_step t) (tr_pending t) ix turn step plan 0 0"
    using ix by (simp add: tool_world_def plan_logged_def calls_of_def answers_of_def map_filter_simps)
  then show "tool_inv (length ?log) (tr_next_turn t) (tr_next_step t) (tr_pending t) (start_tools ix turn step plan cap signal)"
    by (simp add: tool_inv_def start_tools_def done_calls_def done_results_def pool_size_def)
  from d apart show "distinct (map tc_id plan)" and "tr_pending t \<inter> tc_id ` set plan = {}" .
qed

lemma start_tools_simps [simp]:
  "tx_plan (start_tools ix turn step plan cap signal) = plan" "tx_turn (start_tools ix turn step plan cap signal) = turn"
  "tx_step (start_tools ix turn step plan cap signal) = step" "tx_cap (start_tools ix turn step plan cap signal) = cap"
  "potential (start_tools ix turn step plan cap signal) = 10 * length plan + 3"
  by (simp_all add: start_tools_def potential_def launched_def)

lemma reached:
  assumes ix: "inbox_inv ix" and o': "step_open ix turn step plan" and t: "seed_session (ses_log (ix_session ix)) = Inr t"
    and run: "run_tools inputs (start_tools ix turn step plan cap signal) = Some r"
  shows "tool_inv (length (ses_log (ix_session ix))) (tr_next_turn t) (tr_next_step t) (tr_pending t) r"
    and "tx_plan r = plan" "tx_cap r = cap" "tx_turn r = turn" "tx_step r = step"
  using run_tools_inv [OF run start_inv(1) [OF ix o' t]] start_inv(2,3) [OF ix o' t] by simp_all

lemma step_open_seed: "step_open ix turn step plan \<Longrightarrow> \<exists>t. seed_session (ses_log (ix_session ix)) = Inr t"
  by (auto simp: step_open_def split: sum.splits)

section \<open>Every run\<close>

text \<open>
  Cancelled or not, failed or not, a schedule of tool calls leaves a log the trace invariant accepts, inside
  the step it started in; the calls that were pending before stay pending, and once it has returned none of its own
  calls is.\<close>

theorem tool_runs_keep_the_log_accepted:
  assumes ix: "inbox_inv ix" and o': "step_open ix turn step plan"
    and run: "run_tools inputs (start_tools ix turn step plan cap signal) = Some r"
    and t0: "seed_session (ses_log (ix_session ix)) = Inr t0"
  shows "\<exists>t. seed_session (tool_log r) = Inr t \<and> tr_open_turn t = Some turn \<and> tr_open_step t = Some step \<and>
    tr_pending t0 \<subseteq> tr_pending t \<and> tr_pending t - tr_pending t0 \<subseteq> tc_id ` set plan \<and>
    (tx_at r = AtReturned \<longrightarrow> tr_pending t = tr_pending t0)"
proof -
  note inv = reached(1) [OF ix o' t0 run] and frame = reached(2,4,5) [OF ix o' t0 run]
  obtain k m where w: "tool_world (length (ses_log (ix_session ix))) (tr_next_turn t0) (tr_next_step t0) (tr_pending t0) (tx_inbox r) turn step plan k m"
    and km: "\<not> failed_at (tx_at r) \<longrightarrow> k = done_calls r \<and> m = done_results r"
    using inv unfolding tool_inv_def frame by (elim conjE exE)
  from w obtain u where u: "seed_session (tool_log r) = Inr u"
    "trace_view u = in_step turn step (tr_next_turn t0) (tr_next_step t0) (tr_pending t0 \<union> open_ids plan m k)"
    by (auto simp: tool_world_def log_at_def)
  have open': "tr_open_turn u = Some turn" "tr_open_step u = Some step" "tr_pending u = tr_pending t0 \<union> open_ids plan m k"
    using u(2) by (simp_all add: trace_view_eq in_step_def)
  have "open_ids plan m k \<subseteq> tc_id ` set plan"
    by (auto simp: open_ids_def dest!: in_set_takeD in_set_dropD)
  moreover have "open_ids plan m k = {}" if "tx_at r = AtReturned"
    using km that by (simp add: done_calls_def done_results_def open_ids_def)
  ultimately show ?thesis using u(1) open' by auto
qed

text \<open>
  C32: In every run, whatever the order in which the tools settle, the calls recorded since the start are a
  prefix of the model's calls in the model's order, and the results are a prefix of those, each for its call and
  citing its call's event; once the run has returned, every call of the model has its call and its result, the
  skipped ones included.\<close>

theorem tool_runs_follow_the_model_order:
  assumes ix: "inbox_inv ix" and o': "step_open ix turn step plan"
    and run: "run_tools inputs (start_tools ix turn step plan cap signal) = Some r"
  shows "let later = drop (length (ses_log (ix_session ix))) (tool_log r); calls = calls_of later; answers = answers_of later in
    map fst calls = take (length calls) (map tc_id plan) \<and> answers = map answer_to (take (length answers) calls) \<and>
    length answers \<le> length calls \<and> length calls \<le> length plan \<and>
    (tx_at r = AtReturned \<longrightarrow> length calls = length plan \<and> length answers = length plan)"
proof -
  let ?later = "drop (length (ses_log (ix_session ix))) (tool_log r)"
  obtain t where t: "seed_session (ses_log (ix_session ix)) = Inr t" using step_open_seed [OF o'] ..
  note inv = reached(1) [OF ix o' t run] and frame = reached(2) [OF ix o' t run]
  obtain k m where w: "plan_logged (length (ses_log (ix_session ix))) plan (tool_log r) k m"
    and km: "\<not> failed_at (tx_at r) \<longrightarrow> k = done_calls r \<and> m = done_results r"
    and fin: "tx_at r = AtReturned \<longrightarrow> tx_next r = length plan"
    using inv unfolding tool_inv_def tool_world_def frame by (elim conjE exE)
  have len: "length (calls_of ?later) = k" "length (answers_of ?later) = m"
    using w by (auto simp: plan_logged_def dest: arg_cong [of _ _ length])
  have "k = length plan" "m = length plan" if "tx_at r = AtReturned"
    using km fin that by (simp_all add: done_calls_def done_results_def)
  with w len show ?thesis by (simp add: Let_def plan_logged_def take_map)
qed


text \<open>
  C34: With room for at least one call in the pool, a run makes at most ten moves per planned call and three more,
  whatever arrives in between, and as long as it has neither returned nor thrown another move is possible.\<close>

theorem tool_runs_end:
  assumes ix: "inbox_inv ix" and o': "step_open ix turn step plan" and cap: "0 < cap"
    and run: "run_tools inputs (start_tools ix turn step plan cap signal) = Some r"
  shows "length (filter (\<lambda>p. progress (snd p)) inputs) \<le> 10 * length plan + 3 \<and>
    (tx_at r = AtReturned \<or> tx_at r = AtThrown \<or> (\<exists>inp. progress inp \<and> tool_step now inp r \<noteq> None))"
proof -
  obtain t0 where t0: "seed_session (ses_log (ix_session ix)) = Inr t0" using step_open_seed [OF o'] ..
  note s = start_inv [OF ix o' t0]
  have "length (filter (\<lambda>p. progress (snd p)) inputs) \<le> 10 * length plan + 3"
    using run_potential [OF run s(1)] s(2,3) cap by simp
  then show ?thesis using run_goes_on [OF reached(1) [OF ix o' t0 run]] by blast
qed

section \<open>A run\<close>

text \<open>
  Three parallel calls with room for two: the second settles first, the run is cancelled before the third starts.
\<close>

definition sample_plan :: "tool_call list" where
  "sample_plan = [\<lparr>tc_id = ''a'', tc_name = ''read'', tc_args = ''{}''\<rparr>, \<lparr>tc_id = ''b'', tc_name = ''read'', tc_args = ''{}''\<rparr>,
     \<lparr>tc_id = ''c'', tc_name = ''write'', tc_args = ''{}''\<rparr>]"

definition sample_done :: tool_outcome where
  "sample_done = \<lparr>to_content = [TextBlock ''ok''], to_error = False, to_info = None, to_meta = None,
     to_contexts = [sample_prompt ''x''], to_concludes = False\<rparr>"

definition sample_step_inbox :: inbox where
  "sample_step_inbox = run_ops [(1, OpForeign (TurnStart 1) no_intent), (2, OpForeign (StepStart 1 1) no_intent)] sample_inbox"

definition sample_inputs :: "(int \<times> tool_input) list" where
  "sample_inputs = map (Pair 3)
     [Classified True, Advance, Prepared Dispatched, Advance, Classified True, Prepared Dispatched, Advance, Advance,
      Settled 1 (Inr (FinalStage sample_done)), Picked 1, Advance, Classified False, Settled 0 (Inr (PostStage sample_done)),
      SignalAborted, Picked 0, Completed sample_done ''r1'', Completed (sample_done\<lparr>to_contexts := []\<rparr>) ''r2'', Advance, Advance,
      SkippedResult ''r3'', Advance]"

definition sample_run :: tool_run where
  "sample_run = (case run_tools sample_inputs (start_tools sample_step_inbox 1 1 sample_plan 2 False) of Some r \<Rightarrow> r
     | None \<Rightarrow> start_tools sample_step_inbox 1 1 sample_plan 2 False)"

lemma sample_step_ready: "inbox_inv sample_step_inbox"
  unfolding sample_step_inbox_def
  by (rule run_ops_inv, rule new_inbox_inv [OF session_reach_ok [OF sample_start_reach(1)] sample_start_reach(2) sample_inbox_created])

lemma sample_step_open: "step_open sample_step_inbox 1 1 sample_plan"
  by code_simp

lemma sample_step_seed:
  "seed_session (ses_log (ix_session sample_step_inbox)) =
     Inr \<lparr>tr_last_seq = 1, tr_open_turn = Some 1, tr_open_step = Some 1, tr_next_turn = 1, tr_next_step = 1, tr_pending = {}\<rparr>"
  by code_simp

lemma sample_run_runs: "run_tools sample_inputs (start_tools sample_step_inbox 1 1 sample_plan 2 False) = Some sample_run"
  by code_simp

lemma sample_run_returned: "tx_at sample_run = AtReturned"
  by code_simp

theorem tool_runs_keep_the_log_accepted_witness:
  "\<exists>t. seed_session (tool_log sample_run) = Inr t \<and> tr_open_step t = Some 1 \<and> tr_pending t = {}"
  using tool_runs_keep_the_log_accepted [OF sample_step_ready sample_step_open sample_run_runs sample_step_seed]
  by (auto simp: sample_run_returned)

theorem tool_runs_follow_the_model_order_witness:
  "map fst (calls_of (drop 2 (tool_log sample_run))) = [''a'', ''b'', ''c''] \<and>
   map fst (answers_of (drop 2 (tool_log sample_run))) = [''a'', ''b'', ''c'']"
proof -
  have len: "length (ses_log (ix_session sample_step_inbox)) = 2" by code_simp
  have ids: "map tc_id sample_plan = [''a'', ''b'', ''c'']" "length sample_plan = 3" by code_simp+
  show ?thesis
    using tool_runs_follow_the_model_order [OF sample_step_ready sample_step_open sample_run_runs]
    by (auto simp: Let_def sample_run_returned len ids answer_to_def map_map comp_def)
qed


theorem tool_runs_end_witness: "length (filter (\<lambda>p. progress (snd p)) sample_inputs) \<le> 33"
proof -
  have "length sample_plan = 3" by code_simp
  then show ?thesis
    using tool_runs_end [OF sample_step_ready sample_step_open _ sample_run_runs] by simp
qed

end
