(* ===== verification/Agent_Outcome.thy ===== *)
theory Agent_Outcome
  imports Agent_Loop Tool_Outcome
begin

text \<open>
  What every run of the agent driver guarantees: the log it leaves, the requests it sends, and what becomes of a
  wake.
\<close>

section \<open>Appends of the driver\<close>

text \<open>What holds of an agent between transitions, whatever its position.\<close>

definition agent_base :: "agent \<Rightarrow> bool" where
  "agent_base a \<longleftrightarrow> inbox_inv (ag_inbox a) \<and> retained_ok (agent_log a) (surface_nodes (agent_log a)) (ag_retained a)"

lemma agent_base_session: "agent_base a \<Longrightarrow> session_ok (agent_session a)"
  by (simp add: agent_base_def inbox_inv_def)

lemma with_inbox_simps [simp]:
  "ag_inbox (with_inbox ix a) = ix" "ag_phase (with_inbox ix a) = ag_phase a" "ag_pc (with_inbox ix a) = ag_pc a"
  "ag_header_logged (with_inbox ix a) = ag_header_logged a" "ag_options (with_inbox ix a) = ag_options a"
  "ag_errors (with_inbox ix a) = ag_errors a" "ag_id (with_inbox ix a) = ag_id a"
  by (simp_all add: with_inbox_def)

lemma retained_grows:
  "ok (fold_surface (evs @ later)) \<Longrightarrow> retained_ok evs (surface_nodes evs) r \<Longrightarrow>
     retained_ok (evs @ later) (surface_nodes (evs @ later)) (fold (\<lambda>e r. retain_step r e) later r)"
proof (induction later rule: rev_induct)
  case (snoc e later)
  then have "ok (fold_surface (evs @ later))" using fold_surface_prefix [of "evs @ later" "[e]"] by simp
  with retain_step_ok [of "evs @ later" e] snoc show ?case by simp
qed simp

lemma base_with_inbox:
  assumes a: "agent_base a" and ix: "inbox_inv ix" and l: "ses_log (ix_session ix) = agent_log a @ later"
  shows "agent_base (with_inbox ix a)"
proof -
  have "ok (fold_surface (agent_log a @ later))" using ix l by (auto simp: inbox_inv_def session_ok_def)
  from retained_grows [OF this] a ix l show ?thesis by (simp add: agent_base_def with_inbox_def)
qed

text \<open>Only the session's caches change: nothing was appended.\<close>

lemma inbox_inv_caches:
  assumes "inbox_inv ix" and "session_ok s" and "ses_log s = ses_log (ix_session ix)" and "ses_header s = ses_header (ix_session ix)"
  shows "inbox_inv (ix\<lparr>ix_session := s\<rparr>)"
  using assms by (simp add: inbox_inv_def load_inbox_def seed_offset_def)

lemma base_caches:
  assumes "agent_base a" and "session_ok s" and "ses_log s = agent_log a" and "ses_header s = ses_header (agent_session a)"
  shows "agent_base (a\<lparr>ag_inbox := (ag_inbox a)\<lparr>ix_session := s\<rparr>\<rparr>)"
  using assms inbox_inv_caches [of "ag_inbox a" s] by (simp add: agent_base_def)

text \<open>An append keeps the base, whatever its outcome, and moves the trace when it succeeds.\<close>

definition appends_to :: "agent \<Rightarrow> agent \<Rightarrow> bool" where
  "appends_to a a' \<longleftrightarrow> agent_base a' \<and> ag_phase a' = ag_phase a \<and> ag_pc a' = ag_pc a \<and> ag_header_logged a' = ag_header_logged a \<and>
     ag_options a' = ag_options a \<and> ix_lists (ag_inbox a') = ix_lists (ag_inbox a) \<and> ag_id a' = ag_id a"

lemma agent_append_any:
  assumes a: "agent_base a" and v: "log_at (agent_log a) v" and d: "\<not> is_splice d"
    and op': "si_op intent = (if ap then Some (JStr ''append'') else None)" and m: "move v d ap = Inr v'"
    and r: "agent_append now d intent a = (a', r)"
  shows "appends_to a a'" and "log_at (agent_log a') (case r of Inl _ \<Rightarrow> v | Inr _ \<Rightarrow> v')"
proof -
  obtain s ar where s: "session_append now d intent (agent_session a) = (s, ar)" by (cases "session_append now d intent (agent_session a)")
  let ?ix = "(ag_inbox a)\<lparr>ix_session := s\<rparr>"
  have a': "a' = with_inbox ?ix a" and r': "r = map_sum id ev_seq ar"
    using r s by (auto simp: agent_append_def split: sum.splits)
  have inv: "inbox_inv ?ix" using foreign_inv [OF _ d, of "ag_inbox a" now intent] a s by (simp add: agent_base_def)
  note eff = session_append_effect [OF s]
  then obtain later where "ses_log s = agent_log a @ later" by (cases ar) auto
  then have "agent_base a'" using base_with_inbox [OF a inv] by (simp add: a')
  then show "appends_to a a'" by (simp add: appends_to_def a')
  show "log_at (agent_log a') (case r of Inl _ \<Rightarrow> v | Inr _ \<Rightarrow> v')"
  proof (cases ar)
    case (Inl err)
    then show ?thesis using eff v by (simp add: a' r')
  next
    case (Inr e)
    then have "ses_log s = agent_log a @ [e]" "e = append_candidate now d intent (agent_session a)" using eff by simp_all
    then show ?thesis using log_at_snoc [OF v m, of e] op' Inr by (simp add: a' r' append_candidate_def)
  qed
qed

text \<open>A log-only append that the trace allows succeeds.\<close>

lemma agent_append_log:
  assumes a: "agent_base a" and v: "log_at (agent_log a) v" and d: "\<not> is_surface_eligible_type d" "\<not> is_splice d"
    and m: "move v d False = Inr v'"
  shows "\<exists>a'. agent_append now d no_intent a = (a', Inr (int (length (agent_log a)))) \<and> appends_to a a' \<and> log_at (agent_log a') v' \<and>
    agent_log a' = agent_log a @ [log_event (int (length (agent_log a))) now d]"
proof -
  obtain s where s: "session_append now d no_intent (agent_session a) = (s, Inr (log_event (int (length (agent_log a))) now d))"
    and l: "ses_log s = agent_log a @ [log_event (int (length (agent_log a))) now d]"
    using append_log_only [OF agent_base_session [OF a] d(1)] by blast
  let ?a = "with_inbox ((ag_inbox a)\<lparr>ix_session := s\<rparr>) a"
  have r: "agent_append now d no_intent a = (?a, Inr (int (length (agent_log a))))" by (simp add: agent_append_def s)
  note p = agent_append_any [OF a v d(2), of no_intent False v', OF _ m r]
  show ?thesis using r p l by simp
qed

section \<open>Where the log stands\<close>

fun is_running :: "agent_phase \<Rightarrow> bool" where
  "is_running (Running _ _ _ _) = True"
| "is_running _ = False"

definition between_turns :: "agent \<Rightarrow> bool" where
  "between_turns a \<longleftrightarrow> (\<exists>ns. log_at (agent_log a) (no_turn (turn_of (ag_phase a) + 1) ns {}))"

definition within_turn :: "agent \<Rightarrow> bool" where
  "within_turn a \<longleftrightarrow> is_running (ag_phase a) \<and>
     log_at (agent_log a) (in_turn (turn_of (ag_phase a)) (turn_of (ag_phase a)) (step_of (ag_phase a) + 1) {})"

definition within_step :: "agent \<Rightarrow> call_id set \<Rightarrow> bool" where
  "within_step a calls \<longleftrightarrow> is_running (ag_phase a) \<and>
     log_at (agent_log a) (in_step (turn_of (ag_phase a)) (step_of (ag_phase a)) (turn_of (ag_phase a)) (step_of (ag_phase a)) calls)"

definition within_tools :: "agent \<Rightarrow> tool_run \<Rightarrow> bool" where
  "within_tools a r \<longleftrightarrow> is_running (ag_phase a) \<and> tx_turn r = turn_of (ag_phase a) \<and> tx_step r = step_of (ag_phase a) \<and>
     distinct (map tc_id (tx_plan r)) \<and>
     (\<exists>n0. tool_inv n0 (turn_of (ag_phase a)) (step_of (ag_phase a)) {} (r\<lparr>tx_inbox := ag_inbox a\<rparr>))"

definition placed :: "agent \<Rightarrow> bool" where
  "placed a = (case ag_pc a of
      NoDriver \<Rightarrow> \<not> is_running (ag_phase a) \<and> between_turns a
    | AtTurn \<Rightarrow> is_running (ag_phase a) \<and> step_of (ag_phase a) = 0 \<and> between_turns a
    | AtExit \<Rightarrow> is_running (ag_phase a) \<and> between_turns a
    | AtAssemble _ _ \<Rightarrow> within_turn a
    | AtDecide _ _ _ \<Rightarrow> within_turn a
    | AtStopping _ \<Rightarrow> within_turn a
    | AtTools _ r \<Rightarrow> within_tools a r
    | _ \<Rightarrow> within_step a {})"

definition loop_inv :: "agent \<Rightarrow> bool" where
  "loop_inv a \<longleftrightarrow> agent_base a \<and> placed a"

lemma base_frame [simp]:
  "agent_base (a\<lparr>ag_phase := p\<rparr>) = agent_base a" "agent_base (a\<lparr>ag_pc := k\<rparr>) = agent_base a"
  "agent_base (a\<lparr>ag_header_logged := b\<rparr>) = agent_base a" "agent_base (a\<lparr>ag_errors := es\<rparr>) = agent_base a"
  "between_turns (a\<lparr>ag_pc := k\<rparr>) = between_turns a" "within_turn (a\<lparr>ag_pc := k\<rparr>) = within_turn a"
  "within_step (a\<lparr>ag_pc := k\<rparr>) calls = within_step a calls"
  "between_turns (a\<lparr>ag_errors := es\<rparr>) = between_turns a" "within_turn (a\<lparr>ag_errors := es\<rparr>) = within_turn a"
  "within_step (a\<lparr>ag_header_logged := b\<rparr>) calls = within_step a calls"
  by (simp_all add: agent_base_def between_turns_def within_turn_def within_step_def)

lemma emit_error_frame [simp]:
  "agent_base (emit_error e a) = agent_base a" "within_turn (emit_error e a) = within_turn a"
  "ag_phase (emit_error e a) = ag_phase a" "between_turns (emit_error e a) = between_turns a" "ag_inbox (emit_error e a) = ag_inbox a"
  "ag_pc (emit_error e a) = ag_pc a"
  by (simp_all add: emit_error_def agent_base_def within_turn_def between_turns_def)

lemma appends_frame:
  assumes "appends_to a a'"
  shows "agent_base a'" "ag_phase a' = ag_phase a" "ag_pc a' = ag_pc a" "ag_header_logged a' = ag_header_logged a"
    "ag_options a' = ag_options a" "ix_lists (ag_inbox a') = ix_lists (ag_inbox a)" "ag_id a' = ag_id a"
  using assms by (simp_all add: appends_to_def)

section \<open>The ends of a turn\<close>

lemma close_turn_ok:
  assumes a: "agent_base a" and w: "within_turn a"
  shows "\<exists>a1. close_turn now reason a = (a1, True) \<and> appends_to a a1 \<and> between_turns a1"
proof -
  let ?n = "turn_of (ag_phase a)" and ?d = "TurnEnd (turn_of (ag_phase a)) reason :: inbox_splice event_data"
  have at': "log_at (agent_log a) (in_turn ?n ?n (step_of (ag_phase a) + 1) {})" using w by (simp add: within_turn_def)
  have "\<exists>a1. agent_append now ?d no_intent a = (a1, Inr (int (length (agent_log a)))) \<and> appends_to a a1 \<and>
      log_at (agent_log a1) (no_turn (?n + 1) (step_of (ag_phase a) + 1) {}) \<and>
      agent_log a1 = agent_log a @ [log_event (int (length (agent_log a))) now ?d]"
    by (rule agent_append_log [OF a at']) simp_all
  then obtain a1 where a1: "agent_append now ?d no_intent a = (a1, Inr (int (length (agent_log a))))" "appends_to a a1"
    "log_at (agent_log a1) (no_turn (?n + 1) (step_of (ag_phase a) + 1) {})" by blast
  have "between_turns a1" using a1(3) appends_frame(2) [OF a1(2)] by (auto simp: between_turns_def)
  then show ?thesis using a1 by (simp add: close_turn_def)
qed

lemma within_turn_running: "within_turn a \<Longrightarrow> is_running (ag_phase a)"
  by (simp add: within_turn_def)

lemma turn_returns_false_inv:
  assumes "agent_base a" and "within_turn a"
  shows "loop_inv (turn_returns_false now reason a)"
proof -
  obtain a1 where a1: "close_turn now reason a = (a1, True)" "appends_to a a1" "between_turns a1"
    using close_turn_ok [OF assms] by blast
  show ?thesis
    using a1 appends_frame [OF a1(2)] within_turn_running [OF assms(2)]
    by (simp add: turn_returns_false_def loop_inv_def placed_def)
qed

lemma turn_fails_inv: "agent_base a \<Longrightarrow> within_turn a \<Longrightarrow> loop_inv (turn_fails chain now err a)"
  using turn_returns_false_inv [of a now] turn_returns_false_inv [of "emit_error err a" now]
  by (cases "agent_aborted a") (simp_all add: turn_fails_def turn_returns_false_def)

lemma turn_breaks_inv:
  assumes "agent_base a" and "within_turn a"
  shows "loop_inv (turn_breaks now reason a)"
proof -
  obtain a1 where a1: "close_turn now reason a = (a1, True)" "appends_to a a1" "between_turns a1"
    using close_turn_ok [OF assms] by blast
  note f = appends_frame [OF a1(2)]
  have "between_turns (a1\<lparr>ag_phase := Running None (turn_of (ag_phase a1)) 0 False, ag_pc := AtTurn\<rparr>)"
    using a1(3) by (simp add: between_turns_def)
  then show ?thesis
    using a1 f within_turn_running [OF assms(2)] by (simp add: turn_breaks_def loop_inv_def placed_def)
qed

section \<open>The head of the loop and the start of a turn\<close>

text \<open>An inbox operation that only appends background events.\<close>

lemma quiet_inbox:
  assumes a: "agent_base a" and ix: "inbox_inv ix" and q: "quiet_growth turn (agent_session a) (ix_session ix)"
  shows "agent_base (with_inbox ix a)"
    and "log_at (agent_log a) v \<Longrightarrow> turn \<longrightarrow> tr_open_turn v \<noteq> None \<Longrightarrow> log_at (ses_log (ix_session ix)) v"
proof -
  from q obtain later where "ses_log (ix_session ix) = agent_log a @ later" by (auto simp: quiet_growth_def)
  then show "agent_base (with_inbox ix a)" by (rule base_with_inbox [OF a ix])
  show "log_at (agent_log a) v \<Longrightarrow> turn \<longrightarrow> tr_open_turn v \<noteq> None \<Longrightarrow> log_at (ses_log (ix_session ix)) v"
    by (rule quiet_growth_at [OF q])
qed

lemma quiet_opD:
  assumes "quiet_op turn f" and "inbox_inv ix" and "f ix = (ix', r)"
  shows "inbox_inv ix'" and "quiet_growth turn (ix_session ix) (ix_session ix')"
  using assms by (auto simp: quiet_op_def dest!: spec [of _ ix])

lemma quiet_within:
  assumes a: "agent_base a" and ix: "inbox_inv ix" and q: "quiet_growth turn (agent_session a) (ix_session ix)"
  shows "within_turn a \<Longrightarrow> within_turn (with_inbox ix a)" and "\<not> turn \<Longrightarrow> between_turns a \<Longrightarrow> between_turns (with_inbox ix a)"
    and "within_step a calls \<Longrightarrow> within_step (with_inbox ix a) calls"
  using quiet_inbox(2) [OF a ix q] by (auto simp: within_turn_def between_turns_def within_step_def in_turn_def no_turn_def in_step_def)

lemma loop_head_inv:
  assumes a: "agent_base a" and w: "within_turn a"
  shows "loop_inv (loop_head chain now ends target a)"
proof (cases "agent_aborted a")
  case None
  obtain ix r where c: "claim now target (turn_of (ag_phase a)) (ag_inbox a) = (ix, r)"
    by (cases "claim now target (turn_of (ag_phase a)) (ag_inbox a)")
  have inv: "inbox_inv (ag_inbox a)" using a by (simp add: agent_base_def)
  note q = quiet_opD [OF quiet_claim [of True] inv c]
  note b = quiet_inbox(1) [OF a q] and w' = quiet_within(1) [OF a q w]
  show ?thesis
  proof (cases r)
    case (Inl err)
    then show ?thesis using None c turn_fails_inv [OF b w'] by (simp add: loop_head_def)
  next
    case (Inr ms)
    then show ?thesis using None c b w' by (simp add: loop_head_def loop_inv_def placed_def)
  qed
qed (use turn_fails_inv [OF a w] in \<open>simp add: loop_head_def\<close>)

lemma enter_turn_inv:
  assumes a: "agent_base a" and w: "between_turns a" and run: "is_running (ag_phase a)" "step_of (ag_phase a) = 0"
  shows "loop_inv (enter_turn chain now a)"
proof (cases "agent_aborted a")
  case None
  let ?n = "turn_of (ag_phase a) + 1"
  let ?d = "TurnStart ?n :: inbox_splice event_data"
  from w obtain ns where at': "log_at (agent_log a) (no_turn ?n ns {})" by (auto simp: between_turns_def)
  have "\<exists>a1. agent_append now ?d no_intent a = (a1, Inr (int (length (agent_log a)))) \<and> appends_to a a1 \<and>
      log_at (agent_log a1) (in_turn ?n ?n 1 {}) \<and> agent_log a1 = agent_log a @ [log_event (int (length (agent_log a))) now ?d]"
    by (rule agent_append_log [OF a at']) simp_all
  then obtain a1 where a1: "agent_append now ?d no_intent a = (a1, Inr (int (length (agent_log a))))" "appends_to a a1"
    "log_at (agent_log a1) (in_turn ?n ?n 1 {})" by blast
  note f = appends_frame [OF a1(2)]
  let ?a = "a1\<lparr>ag_phase := with_turn ?n (ag_phase a1)\<rparr>"
  have "within_turn ?a" using a1(3) run by (cases "ag_phase a") (simp_all add: f within_turn_def)
  then have "loop_inv (loop_head chain now None NextTurn ?a)" by (intro loop_head_inv) (simp_all add: f)
  then show ?thesis using None a1(1) by (simp add: enter_turn_def Let_def)
qed (use assms in \<open>simp add: enter_turn_def loop_inv_def placed_def\<close>)

section \<open>A step\<close>

lemma close_step_inv:
  assumes a: "agent_base a" and w: "within_step a calls"
  shows "loop_inv (close_step chain now ends res a)"
proof -
  let ?n = "turn_of (ag_phase a)" and ?k = "step_of (ag_phase a)"
  let ?d = "StepEnd ?n ?k :: inbox_splice event_data"
  have at': "log_at (agent_log a) (in_step ?n ?k ?n ?k calls)" and run: "is_running (ag_phase a)" using w by (simp_all add: within_step_def)
  have "\<exists>a1. agent_append now ?d no_intent a = (a1, Inr (int (length (agent_log a)))) \<and> appends_to a a1 \<and>
      log_at (agent_log a1) (in_turn ?n ?n (?k + 1) {}) \<and> agent_log a1 = agent_log a @ [log_event (int (length (agent_log a))) now ?d]"
    by (rule agent_append_log [OF a at']) simp_all
  then obtain a1 where a1: "agent_append now ?d no_intent a = (a1, Inr (int (length (agent_log a))))" "appends_to a a1"
    "log_at (agent_log a1) (in_turn ?n ?n (?k + 1) {})" by blast
  note f = appends_frame [OF a1(2)]
  have w': "within_turn a1" using a1(3) run by (simp add: within_turn_def f)
  have stop: "loop_inv (a1\<lparr>ag_pc := AtStopping reason\<rparr>)" for reason using w' f(1) by (simp add: loop_inv_def placed_def)
  show ?thesis
    using turn_fails_inv [OF f(1) w'] loop_head_inv [OF f(1) w'] stop
    by (auto simp: close_step_def a1(1) Let_def split: sum.split option.split)
qed

text \<open>The reads of a request change the session's caches only.\<close>

lemma derive_messages_logs:
  assumes "session_ok s" and "derive_messages s = (s', r)"
  shows "session_ok s'" and "ses_log s' = ses_log s" and "ses_header s' = ses_header s" and "ses_id s' = ses_id s"
  using assms derive_messages_ok [OF assms]
  by (auto simp: derive_messages_def Let_def split: prod.splits sum.splits)

lemma within_step_caches:
  "within_step a calls \<Longrightarrow> ses_log s = agent_log a \<Longrightarrow> within_step (a\<lparr>ag_inbox := (ag_inbox a)\<lparr>ix_session := s\<rparr>\<rparr>) calls"
  by (simp add: within_step_def)

lemma begin_request_inv:
  assumes a: "agent_base a" and w: "within_step a {}"
  shows "loop_inv (begin_request chain now ends asm a)"
proof -
  obtain s r where d: "derive_messages (agent_session a) = (s, r)" by (cases "derive_messages (agent_session a)")
  note s = derive_messages_logs [OF agent_base_session [OF a] d]
  note b = base_caches [OF a s(1,2,3)] and w1 = within_step_caches [OF w s(2)]
  show ?thesis
  proof (cases r)
    case (Inl err)
    then show ?thesis using close_step_inv [OF b w1] by (simp add: begin_request_def d)
  next
    case (Inr ms)
    let ?a = "a\<lparr>ag_inbox := (ag_inbox a)\<lparr>ix_session := header_synced s\<rparr>\<rparr>"
    have ok: "session_ok (header_synced s)" using request_header_ok [OF s(1)] request_header_reads [OF s(1)] by simp
    have b': "agent_base ?a" by (rule base_caches [OF a ok]) (simp_all add: s)
    have w': "within_step ?a {}" by (rule within_step_caches [OF w]) (simp add: s)
    show ?thesis
      using close_step_inv [OF b' w'] b' w'
      by (simp add: begin_request_def d Inr request_header_reads [OF s(1)] Let_def loop_inv_def placed_def split: option.split)
  qed
qed

lemma append_users_inv:
  "agent_base a \<Longrightarrow> within_step a {} \<Longrightarrow> append_users now ms a = (a', r) \<Longrightarrow> agent_base a' \<and> within_step a' {}"
proof (induction ms arbitrary: a)
  case (Cons m ms)
  let ?n = "turn_of (ag_phase a)" and ?k = "step_of (ag_phase a)"
  obtain a1 r1 where a1: "agent_append now (UserMessage m) (append_intent None) a = (a1, r1)"
    by (cases "agent_append now (UserMessage m) (append_intent None) a")
  have at': "log_at (agent_log a) (in_step ?n ?k ?n ?k {})" using Cons.prems(2) by (simp add: within_step_def)
  have p: "appends_to a a1" "log_at (agent_log a1) (in_step ?n ?k ?n ?k {})"
    using agent_append_any [OF Cons.prems(1) at' _ _ _ a1, of True] by (cases r1; simp)+
  have "within_step a1 {}" using p(2) Cons.prems(2) appends_frame(2) [OF p(1)] by (simp add: within_step_def)
  then show ?case using Cons.IH [OF appends_frame(1) [OF p(1)]] Cons.prems(3) a1 appends_frame(1) [OF p(1)]
    by (cases r1) auto
qed simp

lemma enter_step_inv:
  assumes a: "agent_base a" and w: "within_turn a"
  shows "loop_inv (enter_step chain now ends asm ms a)"
proof -
  let ?n = "turn_of (ag_phase a)" and ?k = "step_of (ag_phase a) + 1"
  let ?d = "StepStart ?n ?k :: inbox_splice event_data"
  have at': "log_at (agent_log a) (in_turn ?n ?n ?k {})" and run: "is_running (ag_phase a)" using w by (simp_all add: within_turn_def)
  have "\<exists>a1. agent_append now ?d no_intent a = (a1, Inr (int (length (agent_log a)))) \<and> appends_to a a1 \<and>
      log_at (agent_log a1) (in_step ?n ?k ?n ?k {}) \<and> agent_log a1 = agent_log a @ [log_event (int (length (agent_log a))) now ?d]"
    by (rule agent_append_log [OF a at']) simp_all
  then obtain a1 where a1: "agent_append now ?d no_intent a = (a1, Inr (int (length (agent_log a))))" "appends_to a a1"
    "log_at (agent_log a1) (in_step ?n ?k ?n ?k {})" by blast
  note f = appends_frame [OF a1(2)]
  let ?a = "a1\<lparr>ag_phase := with_step ?k (ag_phase a1)\<rparr>"
  have w': "within_step ?a {}" using a1(3) run by (cases "ag_phase a") (simp_all add: f within_step_def)
  obtain a2 r where u: "append_users now ms ?a = (a2, r)" by (cases "append_users now ms ?a")
  have "agent_base a2 \<and> within_step a2 {}" by (rule append_users_inv [OF _ w' u]) (simp add: f)
  then have "loop_inv (close_step chain now ends res a2)" "loop_inv (begin_request chain now ends asm a2)" for res
    using close_step_inv begin_request_inv by blast+
  then show ?thesis using u by (simp add: enter_step_def a1(1) Let_def split: sum.split)
qed

lemma decided_inv: "agent_base a \<Longrightarrow> within_turn a \<Longrightarrow> loop_inv (decided chain now ends asm d a)"
  using turn_fails_inv turn_returns_false_inv turn_breaks_inv enter_step_inv
  by (simp add: decided_def split: option.split)

text \<open>Log-only events of the request leave the inbox's replay alone.\<close>

lemma replay_foreign: "\<forall>e \<in> set later. \<not> is_splice (ev_data e) \<Longrightarrow> replay inbox_step l later = Inr l"
  by (induction later) (simp_all add: inbox_step_foreign)

lemma inbox_inv_grown:
  assumes "inbox_inv ix" and "session_ok s" and "ses_header s = ses_header (ix_session ix)"
    and "ses_log s = ses_log (ix_session ix) @ later" and "\<forall>e \<in> set later. \<not> is_splice (ev_data e)"
  shows "inbox_inv (ix\<lparr>ix_session := s\<rparr>)"
  using assms replay_foreign [OF assms(5)]
  by (auto simp: inbox_inv_def load_inbox_def seed_offset_def replay_append rbind_Inr_iff)

lemma grown_session:
  assumes a: "agent_base a" and w: "within_step a calls" and s: "session_ok s" "ses_header s = ses_header (agent_session a)"
    and l: "\<exists>later. ses_log s = agent_log a @ later \<and> (\<forall>e \<in> set later. \<not> is_splice (ev_data e))"
    and at': "log_at (ses_log s) (in_step (turn_of (ag_phase a)) (step_of (ag_phase a)) (turn_of (ag_phase a)) (step_of (ag_phase a)) calls)"
  shows "agent_base (agent_with_session s a)" and "within_step (agent_with_session s a) calls"
proof -
  from l obtain later where later: "ses_log s = agent_log a @ later" "\<forall>e \<in> set later. \<not> is_splice (ev_data e)" by blast
  have "inbox_inv (ag_inbox a)" using a by (simp add: agent_base_def)
  from inbox_inv_grown [OF this s later] have i: "inbox_inv ((ag_inbox a)\<lparr>ix_session := s\<rparr>)" .
  show "agent_base (agent_with_session s a)" unfolding agent_with_session_def by (rule base_with_inbox [OF a i]) (simp add: later(1))
  show "within_step (agent_with_session s a) calls" using w at' by (simp add: agent_with_session_def within_step_def)
qed

lemma send_request_inv:
  assumes a: "agent_base a" and w: "within_step a {}"
  shows "loop_inv (send_request chain now ends asm ms config call a)"
proof -
  let ?n = "turn_of (ag_phase a)" and ?k = "step_of (ag_phase a)" and ?h = "new_header config call (pa_system asm) (pa_tools asm)"
  have at': "log_at (agent_log a) (in_step ?n ?k ?n ?k {})" using w by (simp add: within_step_def)
  obtain h0 where h: "?h = canonical_header h0" by (auto simp: new_header_def)
  obtain s where s: "log_request_header now (ag_header_logged a) ?h (agent_session a) = (s, Inr ())" "session_ok s"
    "log_at (ses_log s) (in_step ?n ?k ?n ?k {})" "ses_header s = ses_header (agent_session a)"
    "\<exists>later. ses_log s = agent_log a @ later \<and> (\<forall>e \<in> set later. \<not> is_splice (ev_data e))"
    using log_request_header_at [OF agent_base_session [OF a] at', of now "ag_header_logged a" h0] unfolding h
    by (auto split: if_splits)
  obtain s1 where s1: "log_request_context now (context_for config call) s = (s1, Inr ())" "session_ok s1"
    "log_at (ses_log s1) (in_step ?n ?k ?n ?k {})" "ses_header s1 = ses_header s"
    "\<exists>later. ses_log s1 = ses_log s @ later \<and> (\<forall>e \<in> set later. \<not> is_splice (ev_data e))"
    using log_request_context_at [OF s(2,3), of now "context_for config call"] by (auto split: if_splits)
  from s(5) s1(5) have l: "\<exists>later. ses_log s1 = agent_log a @ later \<and> (\<forall>e \<in> set later. \<not> is_splice (ev_data e))" by auto
  have hd: "ses_header s1 = ses_header (agent_session a)" using s(4) s1(4) by simp
  show ?thesis
    using grown_session [OF a w s1(2) hd l s1(3)]
    by (simp add: send_request_def Let_def s(1) s1(1) loop_inv_def placed_def)
qed

lemma prepared_call_loop_inv: "agent_base a \<Longrightarrow> within_step a {} \<Longrightarrow> loop_inv (prepared_call chain now ends asm ms c call a)"
  using close_step_inv send_request_inv by (simp add: prepared_call_def split: option.split)

lemma proposed_inv: "agent_base a \<Longrightarrow> within_step a {} \<Longrightarrow> loop_inv (proposed chain now ends asm ms c a)"
  using close_step_inv [of a "{}"] by (simp add: proposed_def loop_inv_def placed_def split: option.split)

section \<open>The stream\<close>

lemma within_step_at: "within_step a calls \<Longrightarrow>
    log_at (agent_log a) (in_step (turn_of (ag_phase a)) (step_of (ag_phase a)) (turn_of (ag_phase a)) (step_of (ag_phase a)) calls)"
  by (simp add: within_step_def)

lemma append_assistant_inv:
  assumes a: "agent_base a" and w: "within_step a {}" and r: "append_assistant now m usage i seqs a = (a1, r)"
  shows "agent_base a1" and "within_step a1 {}" and "ag_phase a1 = ag_phase a"
proof -
  note p = agent_append_any [OF a within_step_at [OF w] _ _ _ r [unfolded append_assistant_def], of True]
  have q: "appends_to a a1" "log_at (agent_log a1) (in_step (turn_of (ag_phase a)) (step_of (ag_phase a)) (turn_of (ag_phase a)) (step_of (ag_phase a)) {})"
    using p by (cases r; simp)+
  then show "agent_base a1" and "within_step a1 {}" and "ag_phase a1 = ag_phase a"
    using appends_frame [OF q(1)] w by (simp_all add: within_step_def)
qed

lemma stream_fails_inv:
  assumes a: "agent_base a" and w: "within_step a {}"
  shows "loop_inv (stream_fails chain now ends req asb seqs mid err a)"
proof -
  have "loop_inv (close_step chain now ends res a1)" if "append_assistant now m u i seqs a = (a1, r)" for m u i a1 r res
    using append_assistant_inv [OF a w that] close_step_inv by blast
  then show ?thesis using close_step_inv [OF a w]
    by (auto simp: stream_fails_def split: sum.split prod.split)
qed

lemma read_chunk_inv:
  assumes a: "agent_base a" and w: "within_step a {}"
  shows "loop_inv (read_chunk chain now ends asm req asb seqs c mid a)"
proof -
  let ?n = "turn_of (ag_phase a)" and ?k = "step_of (ag_phase a)"
  let ?d = "AssistantChunk ?n ?k c :: inbox_splice event_data"
  have "\<exists>a1. agent_append now ?d no_intent a = (a1, Inr (int (length (agent_log a)))) \<and> appends_to a a1 \<and>
      log_at (agent_log a1) (in_step ?n ?k ?n ?k {}) \<and> agent_log a1 = agent_log a @ [log_event (int (length (agent_log a))) now ?d]"
    by (rule agent_append_log [OF a within_step_at [OF w]]) simp_all
  then obtain a1 where a1: "agent_append now ?d no_intent a = (a1, Inr (int (length (agent_log a))))" "appends_to a a1"
    "log_at (agent_log a1) (in_step ?n ?k ?n ?k {})" by blast
  have "within_step a1 {}" using a1(3) w appends_frame(2) [OF a1(2)] by (simp add: within_step_def)
  then show ?thesis using appends_frame(1) [OF a1(2)] stream_fails_inv [OF a w]
    by (simp add: read_chunk_def a1(1) loop_inv_def placed_def split: option.split)
qed

section \<open>The tools\<close>

definition extends :: "inbox \<Rightarrow> inbox \<Rightarrow> bool" where
  "extends ix ix' \<longleftrightarrow> (\<exists>later. ses_log (ix_session ix') = ses_log (ix_session ix) @ later)"

lemma extends_refl [simp]: "extends ix ix"
  by (simp add: extends_def)

lemma extends_trans: "extends a b \<Longrightarrow> extends b c \<Longrightarrow> extends a c"
  by (auto simp: extends_def)

lemma session_append_extends: "session_append now d intent (ix_session ix) = (s, r) \<Longrightarrow> extends ix (ix\<lparr>ix_session := s\<rparr>)"
  using session_append_effect [of now d intent "ix_session ix" s r] by (cases r) (auto simp: extends_def)

lemma append_tool_call_extends: "append_tool_call now turn step c ix = (ix', r) \<Longrightarrow> extends ix ix'"
  using session_append_extends by (fastforce simp: append_tool_call_def split: prod.splits sum.splits)

lemma append_tool_result_extends: "append_tool_result now turn step c res mid q ix = (ix', r) \<Longrightarrow> extends ix ix'"
  using session_append_extends by (fastforce simp: append_tool_result_def split: prod.splits sum.splits)

lemma append_skipped_extends: "append_skipped now turn step c mid ix = (ix', r) \<Longrightarrow> extends ix ix'"
  using append_tool_call_extends append_tool_result_extends extends_trans
  by (fastforce simp: append_skipped_def split: prod.splits sum.splits)

lemma start_call_extends: "extends (tx_inbox r) (tx_inbox (start_call now r))"
proof -
  obtain ix q where a: "append_tool_call now (tx_turn r) (tx_step r) (tool_group r ! tx_start r) (tx_inbox r) = (ix, q)"
    by (cases "append_tool_call now (tx_turn r) (tx_step r) (tool_group r ! tx_start r) (tx_inbox r)")
  then show ?thesis using append_tool_call_extends [OF a] by (cases q) (simp_all add: start_call_def)
qed

lemma commit_result_extends:
  assumes "inbox_inv (tx_inbox r)"
  shows "extends (tx_inbox r) (tx_inbox (commit_result now res mid r))"
proof -
  let ?c = "tool_group r ! tx_committed r"
  obtain ix q where a: "append_tool_result now (tx_turn r) (tx_step r) ?c res mid (tx_seqs r ! tx_committed r) (tx_inbox r) = (ix, q)"
    by (cases "append_tool_result now (tx_turn r) (tx_step r) ?c res mid (tx_seqs r ! tx_committed r) (tx_inbox r)")
  have e: "extends (tx_inbox r) ix" by (rule append_tool_result_extends [OF a])
  have inv: "inbox_inv ix"
    using foreign_inv [OF assms, of "ToolResult (result_data (tx_turn r) (tx_step r) ?c res mid)" now "append_intent (Some [tx_seqs r ! tx_committed r])"] a
    by (auto simp: append_tool_result_def split: prod.splits sum.splits)
  obtain ix2 q2 where acc: "accept_contexts now (to_contexts res) ix = (ix2, q2)" by (cases "accept_contexts now (to_contexts res) ix")
  have "extends ix ix2" using quiet_opD(2) [OF accept_contexts_quiet [of True] inv acc] by (auto simp: quiet_growth_def extends_def)
  with e extends_trans have "extends (tx_inbox r) ix2" by blast
  then show ?thesis using e acc by (cases q; cases q2) (simp_all add: commit_result_def a)
qed

lemma after_fill_inbox [simp]: "tx_inbox (after_fill r) = tx_inbox r"
  by (simp add: after_fill_def close_group_def Let_def)

lemma skip_step_extends: "skip_step now inp r = Some r' \<Longrightarrow> extends (tx_inbox r) (tx_inbox r')"
  using append_skipped_extends
  by (cases inp) (fastforce simp: skip_step_def split: if_splits prod.splits sum.splits)+

lemma commit_step_extends:
  "inbox_inv (tx_inbox r) \<Longrightarrow> commit_step now inp r = Some r' \<Longrightarrow> extends (tx_inbox r) (tx_inbox r')"
  using commit_result_extends by (cases inp; cases "ready_slot r"; cases "tx_failure r") (auto simp: commit_step_def)

lemma main_step_extends:
  assumes "inbox_inv (tx_inbox r)" and "main_step now inp r = Some r'"
  shows "extends (tx_inbox r) (tx_inbox r')"
proof (cases "tx_at r")
  case AtFill
  then have "r' = after_fill r \<or> r' = start_call now r" using assms(2)
    by (cases inp) (auto simp: main_step_def fill_step_def split: if_splits)
  then show ?thesis using start_call_extends by auto
next
  case AtPrepare
  then have "tx_inbox r' = tx_inbox r" using assms(2)
    by (cases inp; cases "tx_failure r") (auto simp: main_step_def prepare_step_def Let_def split: prepare_outcome.splits)
  then show ?thesis by simp
next
  case AtRace
  then have "tx_inbox r' = tx_inbox r" using assms(2)
    by (cases inp; cases "tx_failure r") (auto simp: main_step_def race_step_def Let_def split: if_splits)
  then show ?thesis by simp
next
  case AtSkip
  then show ?thesis using assms(2) skip_step_extends by (simp add: main_step_def)
next
  case AtCommit
  then show ?thesis using assms commit_step_extends by (simp add: main_step_def)
qed (use assms(2) in \<open>cases inp; auto simp: main_step_def begin_group_def Let_def split: if_splits\<close>)+

lemma tool_inv_signal [simp]: "tool_inv n0 nt ns others (r\<lparr>tx_signal := b\<rparr>) = tool_inv n0 nt ns others r"
proof -
  let ?r = "r\<lparr>tx_signal := b\<rparr>"
  have same: "group_inv ?r = group_inv r" "pool_inv ?r = pool_inv r" "seqs_inv n0 ?r = seqs_inv n0 r"
    "done_calls ?r = done_calls r" "done_results ?r = done_results r" "pool_size ?r = pool_size r"
    by (simp_all add: pool_size_def group_inv_def pool_inv_def seqs_inv_def done_calls_def done_results_def)
  show ?thesis unfolding tool_inv_def same by simp
qed

lemma tools_move_inv:
  assumes a: "agent_base a" and w: "within_tools a r" and m: "tools_move now ends r inp a = Some a'"
  shows "loop_inv a'"
proof -
  let ?r = "r\<lparr>tx_inbox := ag_inbox a, tx_signal := (agent_aborted a \<noteq> None)\<rparr>"
  obtain n0 where inv: "tool_inv n0 (turn_of (ag_phase a)) (step_of (ag_phase a)) {} (r\<lparr>tx_inbox := ag_inbox a\<rparr>)"
    and d: "distinct (map tc_id (tx_plan r))" and f: "is_running (ag_phase a)" "tx_turn r = turn_of (ag_phase a)" "tx_step r = step_of (ag_phase a)"
    using w by (auto simp: within_tools_def)
  obtain r' where r': "tool_step now inp ?r = Some r'" "a' = (with_inbox (tx_inbox r') a)\<lparr>ag_pc := AtTools ends r'\<rparr>"
    and plain: "main_step now inp ?r = Some r' \<or> (\<exists>i res. r' = settle_call i res ?r)"
    using m by (cases inp) (auto simp: tools_move_def tool_step_def split: option.splits if_splits)
  have "tool_inv n0 (turn_of (ag_phase a)) (step_of (ag_phase a)) {} ?r" using inv by simp
  from tool_step_inv [OF this r'(1)] d have inv': "tool_inv n0 (turn_of (ag_phase a)) (step_of (ag_phase a)) {} r'" by simp
  note frame = tool_step_frame [OF r'(1)]
  have base: "inbox_inv (ag_inbox a)" using a by (simp add: agent_base_def)
  have "tx_inbox (settle_call i res ?r) = ag_inbox a" for i res by (cases res) (simp_all add: settle_call_def)
  then have "extends (ag_inbox a) (tx_inbox r')" using plain main_step_extends [of ?r now inp r'] base by auto
  then obtain later where "ses_log (ix_session (tx_inbox r')) = agent_log a @ later" by (auto simp: extends_def)
  moreover have "inbox_inv (tx_inbox r')" using inv' by (auto simp: tool_inv_def tool_world_def)
  ultimately have "agent_base (with_inbox (tx_inbox r') a)" by (intro base_with_inbox [OF a])
  moreover have "within_tools ((with_inbox (tx_inbox r') a)\<lparr>ag_pc := AtTools ends r'\<rparr>) r'"
    using inv' frame d f by (auto simp: within_tools_def)
  ultimately show ?thesis by (simp add: r'(2) loop_inv_def placed_def)
qed

lemma tools_done_inv:
  assumes a: "agent_base a" and w: "within_tools a r" and m: "tools_done chain now ends r a = Some a'"
  shows "loop_inv a'"
proof -
  obtain n0 k j where "tool_world n0 (turn_of (ag_phase a)) (step_of (ag_phase a)) {} (ag_inbox a) (tx_turn r) (tx_step r) (tx_plan r) k j"
    using w by (auto simp: within_tools_def tool_inv_def)
  then have "within_step a ({} \<union> open_ids (tx_plan r) j k)"
    using w by (simp add: within_step_def within_tools_def tool_world_def)
  from close_step_inv [OF a this] m show ?thesis
    by (auto simp: tools_done_def split: schedule_at.splits option.splits)
qed

lemma message_done_inv:
  assumes a: "agent_base a" and w: "within_step a {}" and d: "distinct (map tc_id (planned_calls content))"
  shows "loop_inv (message_done chain now cap ends finish content a)"
proof -
  let ?plan = "planned_calls content" and ?n = "turn_of (ag_phase a)" and ?k = "step_of (ag_phase a)"
  have "tool_world (length (agent_log a)) ?n ?k {} (ag_inbox a) ?n ?k ?plan 0 0"
    using a within_step_at [OF w] by (simp add: tool_world_def agent_base_def plan_logged_def calls_of_def answers_of_def map_filter_simps open_ids_def)
  then have "tool_inv (length (agent_log a)) ?n ?k {} (start_tools (ag_inbox a) ?n ?k ?plan cap b)" for b
    by (simp add: tool_inv_def start_tools_def done_calls_def done_results_def pool_size_def)
  moreover have "(start_tools (ag_inbox a) ?n ?k ?plan cap b)\<lparr>tx_inbox := ag_inbox a\<rparr> = start_tools (ag_inbox a) ?n ?k ?plan cap b" for b
    by (simp add: start_tools_def)
  ultimately have "within_tools a (start_tools (ag_inbox a) ?n ?k ?plan cap b)" for b
    using w d by (auto simp: within_tools_def within_step_def start_tools_def)
  moreover have "within_tools (a\<lparr>ag_pc := k\<rparr>) r = within_tools a r" for k r by (simp add: within_tools_def)
  ultimately show ?thesis using a close_step_inv [OF a w] by (simp add: message_done_def loop_inv_def placed_def)
qed

text \<open>The model's message names no tool call twice.\<close>

definition clean_message :: "assembler \<Rightarrow> bool" where
  "clean_message asb = (case assembled asb of Inl _ \<Rightarrow> True | Inr (content, _) \<Rightarrow> distinct (map tc_id (planned_calls content)))"

lemma stream_finished_inv:
  assumes a: "agent_base a" and w: "within_step a {}" and d: "clean_message asb"
  shows "loop_inv (stream_finished chain now cap ends asm req asb seqs mid a)"
proof -
  have err: "loop_inv (a\<lparr>ag_pc := AtRequestError ends asm f\<rparr>)" for f using a w by (simp add: loop_inv_def placed_def)
  have rest: "loop_inv (case assembled asb of
           Inl bad \<Rightarrow> close_step chain now ends (Inl (BadStream bad)) a
         | Inr (content, env) \<Rightarrow>
             (case append_assistant now \<lparr>am_id = mid, am_content = content, am_source = model_source_of req (map_option envelope_json env)\<rparr>
                  (as_usage asb) False seqs a of
                (a1, Inl err) \<Rightarrow> close_step chain now ends (Inl (AppendRejected err)) a1
              | (a1, Inr _) \<Rightarrow> message_done chain now cap ends finish content a1))" for finish
  proof (cases "assembled asb")
    case (Inr p)
    obtain content env where p: "p = (content, env)" by (cases p)
    let ?m = "\<lparr>am_id = mid, am_content = content, am_source = model_source_of req (map_option envelope_json env)\<rparr>"
    obtain a1 r where r: "append_assistant now ?m (as_usage asb) False seqs a = (a1, r)" by (cases "append_assistant now ?m (as_usage asb) False seqs a")
    note i = append_assistant_inv [OF a w r]
    have "distinct (map tc_id (planned_calls content))" using d Inr p by (simp add: clean_message_def)
    then show ?thesis using close_step_inv [OF i(1,2)] message_done_inv [OF i(1,2)] by (cases r) (simp_all add: Inr p r)
  qed (use close_step_inv [OF a w] in simp)
  show ?thesis using err rest by (cases "finish_of asb") (simp_all add: stream_finished_def)
qed

lemma end_stream_inv:
  "agent_base a \<Longrightarrow> within_step a {} \<Longrightarrow> clean_message asb \<Longrightarrow> loop_inv (end_stream chain now cap ends asm req asb seqs mid a)"
  using stream_fails_inv stream_finished_inv by (simp add: end_stream_def split: option.split)

lemma error_decided_inv: "agent_base a \<Longrightarrow> within_step a {} \<Longrightarrow> loop_inv (error_decided chain now ends asm f retry a)"
  using close_step_inv begin_request_inv by (simp add: error_decided_def split: option.split)

section \<open>Operations from outside\<close>

lemma placed_phase:
  "is_running p = is_running (ag_phase a) \<Longrightarrow> turn_of p = turn_of (ag_phase a) \<Longrightarrow> step_of p = step_of (ag_phase a) \<Longrightarrow>
     loop_inv (a\<lparr>ag_phase := p\<rparr>) = loop_inv a"
  by (simp add: loop_inv_def placed_def between_turns_def within_turn_def within_step_def within_tools_def split: agent_pc.split)

lemma abort_phase_simps [simp]:
  "is_running (abort_phase c p) = is_running p" "turn_of (abort_phase c p) = turn_of p" "step_of (abort_phase c p) = step_of p"
  by (cases "(c, p)" rule: abort_phase.cases; simp)+

lemma drop_wake_simps [simp]:
  "is_running (drop_wake p) = is_running p" "turn_of (drop_wake p) = turn_of p" "step_of (drop_wake p) = step_of p"
  by (cases p; simp)+

lemma idle_has_no_driver: "placed a \<Longrightarrow> \<not> is_running (ag_phase a) \<Longrightarrow> ag_pc a = NoDriver \<and> between_turns a"
  by (auto simp: placed_def within_turn_def within_step_def within_tools_def split: agent_pc.splits)

lemma wake_driver_inv:
  assumes "loop_inv a"
  shows "loop_inv (wake_driver chain now after_abort a)"
proof (cases "ag_phase a")
  case (Idle n)
  have "between_turns a" "agent_base a" using assms idle_has_no_driver Idle by (auto simp: loop_inv_def)
  then have "between_turns (a\<lparr>ag_phase := Running None n 0 False\<rparr>)" "agent_base (a\<lparr>ag_phase := Running None n 0 False\<rparr>)"
    by (simp_all add: between_turns_def Idle)
  then show ?thesis using enter_turn_inv by (simp add: wake_driver_def Idle)
next
  case (Maintenance ab n w)
  then show ?thesis using assms placed_phase [of "Maintenance ab n True" a] by (simp add: wake_driver_def)
next
  case (Running ab n k w)
  then show ?thesis using assms placed_phase [of "Running ab n k True" a] by (simp add: wake_driver_def)
qed

lemma quiet_loop_inv:
  assumes a: "loop_inv a" and ix: "inbox_inv ix" and q: "quiet_growth (turn_is_open (ag_pc a)) (agent_session a) (ix_session ix)"
  shows "loop_inv (with_inbox ix a)"
proof -
  have b: "agent_base a" using a by (simp add: loop_inv_def)
  note w = quiet_within [OF b ix q]
  have base: "agent_base (with_inbox ix a)" by (rule quiet_inbox(1) [OF b ix q])
  have tools: "within_tools (with_inbox ix a) r" if "within_tools a r" "turn_is_open (ag_pc a)" for r
  proof -
    note t = that
    obtain n0 where inv: "tool_inv n0 (turn_of (ag_phase a)) (step_of (ag_phase a)) {} (r\<lparr>tx_inbox := ag_inbox a\<rparr>)"
      using t(1) by (auto simp: within_tools_def)
    have "tool_inv n0 (turn_of (ag_phase a)) (step_of (ag_phase a)) {} ((r\<lparr>tx_inbox := ag_inbox a\<rparr>)\<lparr>tx_inbox := ix\<rparr>)"
      by (rule tool_inv_quiet [OF inv ix]) (use q t(2) in simp)
    then show ?thesis using t(1) by (auto simp: within_tools_def)
  qed
  show ?thesis
    using a base w tools by (cases "ag_pc a") (simp_all add: loop_inv_def placed_def)
qed

lemma send_inv:
  assumes a: "loop_inv a"
  shows "loop_inv (send chain now m target wakeup a)"
proof -
  let ?t = "if wakeup \<and> \<not> is_idle (ag_phase a) \<and> agent_aborted a \<noteq> None then NextTurn else target"
  obtain ix r where sp: "splice now ?t PosInf (js_num 0) [m] (ag_inbox a) = (ix, r)"
    by (cases "splice now ?t PosInf (js_num 0) [m] (ag_inbox a)")
  have "inbox_inv (ag_inbox a)" using a by (simp add: loop_inv_def agent_base_def)
  note q = quiet_opD [OF quiet_splice [of "turn_is_open (ag_pc a)"] this sp]
  note l = quiet_loop_inv [OF a q]
  show ?thesis using l wake_driver_inv [OF l] sp by (simp add: send_def Let_def split: sum.split)
qed

lemma cancel_inv:
  assumes a: "loop_inv a"
  shows "loop_inv (cancel now cause keep_inbox a)"
proof (cases keep_inbox)
  case False
  obtain ix r where c: "clear now (ag_inbox a) = (ix, r)" by (cases "clear now (ag_inbox a)")
  have "inbox_inv (ag_inbox a)" using a by (simp add: loop_inv_def agent_base_def)
  note q = quiet_opD [OF quiet_clear [of "turn_is_open (ag_pc a)"] this c]
  note l = quiet_loop_inv [OF a q]
  show ?thesis using False l c placed_phase [of "abort_phase cause (drop_wake (ag_phase a))" "with_inbox ix a"]
    by (simp add: cancel_def split: sum.split)
qed (use a placed_phase [of "abort_phase cause (ag_phase a)" a] in \<open>simp add: cancel_def\<close>)

lemma idle_phase_inv:
  assumes "agent_base a" and "between_turns a"
  shows "loop_inv (a\<lparr>ag_phase := Idle (turn_of (ag_phase a)), ag_pc := NoDriver\<rparr>)"
  using assms by (simp add: loop_inv_def placed_def) (simp add: between_turns_def)

lemma begin_maintenance_inv: "loop_inv a \<Longrightarrow> begin_maintenance a = Some a' \<Longrightarrow> loop_inv a'"
  using placed_phase [of "Maintenance None n False" a for n]
  by (cases "ag_phase a") (auto simp: begin_maintenance_def)

lemma end_maintenance_inv:
  assumes a: "loop_inv a" and m: "end_maintenance chain now a = Some a'"
  shows "loop_inv a'"
proof -
  obtain ab n w where p: "ag_phase a = Maintenance ab n w" using m by (cases "ag_phase a") (auto simp: end_maintenance_def)
  let ?a = "a\<lparr>ag_phase := Idle n\<rparr>"
  have l: "loop_inv ?a" using a placed_phase [of "Idle n" a] p by simp
  show ?thesis using m l wake_driver_inv [OF l] by (auto simp: end_maintenance_def p Let_def split: if_splits)
qed

lemma driver_exits_inv:
  assumes a: "loop_inv a" and pc: "ag_pc a = AtExit"
  shows "loop_inv (driver_exits chain now a)"
proof -
  have b: "agent_base a" "between_turns a" "is_running (ag_phase a)" using a pc by (simp_all add: loop_inv_def placed_def)
  then obtain ab n k w where p: "ag_phase a = Running ab n k w" by (cases "ag_phase a") auto
  have l: "loop_inv (a\<lparr>ag_phase := Idle n, ag_pc := NoDriver\<rparr>)" using idle_phase_inv [OF b(1,2)] p by simp
  show ?thesis using l wake_driver_inv [OF l] by (simp add: driver_exits_def p Let_def)
qed

section \<open>Every run\<close>

text \<open>The run in which no message of the model names a tool call twice.\<close>

fun clean_move :: "agent \<Rightarrow> agent_input \<Rightarrow> bool" where
  "clean_move a (StreamEnd mid) = (case ag_pc a of AtStream _ _ _ asb _ \<Rightarrow> clean_message asb | _ \<Rightarrow> True)"
| "clean_move a _ = True"

fun clean_run :: "(loop_error \<Rightarrow> string) \<Rightarrow> nat \<Rightarrow> (int \<times> agent_input) list \<Rightarrow> agent \<Rightarrow> bool" where
  "clean_run chain cap [] a = True"
| "clean_run chain cap ((now, inp) # rest) a =
     (clean_move a inp \<and> (case agent_step chain cap now inp a of None \<Rightarrow> True | Some a' \<Rightarrow> clean_run chain cap rest a'))"

lemma assembled_prompt_inv: "agent_base a \<Longrightarrow> within_turn a \<Longrightarrow> loop_inv (assembled_prompt chain now ends ms asm mid a)"
  using turn_fails_inv [of a] by (simp add: assembled_prompt_def loop_inv_def placed_def split: option.split)

lemma stopping_done_inv: "agent_base a \<Longrightarrow> within_turn a \<Longrightarrow> loop_inv (stopping_done chain now reason a)"
  using turn_fails_inv turn_breaks_inv loop_head_inv by (simp add: stopping_done_def split: option.split)

lemma driver_step_inv:
  assumes a: "loop_inv a" and c: "clean_move a inp" and s: "driver_step chain cap now inp a = Some a'"
  shows "loop_inv a'"
proof -
  have b: "agent_base a" using a by (simp add: loop_inv_def)
  show ?thesis
  proof (cases "ag_pc a")
    case AtTurn
    then show ?thesis using s a enter_turn_inv [OF b] by (auto simp: driver_step_def loop_inv_def placed_def split: if_splits)
  next
    case AtExit
    then show ?thesis using s driver_exits_inv [OF a] by (auto simp: driver_step_def split: if_splits)
  next
    case (AtAssemble ends ms)
    then have w: "within_turn a" using a by (simp add: loop_inv_def placed_def)
    show ?thesis using s AtAssemble assembled_prompt_inv [OF b w] turn_fails_inv [OF b w] by (cases inp) (auto simp: driver_step_def)
  next
    case (AtDecide ends ms asm)
    then have w: "within_turn a" using a by (simp add: loop_inv_def placed_def)
    show ?thesis using s AtDecide decided_inv [OF b w] turn_fails_inv [OF b w] by (cases inp) (auto simp: driver_step_def)
  next
    case (AtPropose ends asm ms seed)
    then have w: "within_step a {}" using a by (simp add: loop_inv_def placed_def)
    show ?thesis using s AtPropose proposed_inv [OF b w] close_step_inv [OF b w] by (cases inp) (auto simp: driver_step_def)
  next
    case (AtPrepareCall ends asm ms config)
    then have w: "within_step a {}" using a by (simp add: loop_inv_def placed_def)
    show ?thesis using s AtPrepareCall prepared_call_loop_inv [OF b w] close_step_inv [OF b w] by (cases inp) (auto simp: driver_step_def)
  next
    case (AtStream ends asm req asb seqs)
    then have w: "within_step a {}" using a by (simp add: loop_inv_def placed_def)
    show ?thesis using s c AtStream read_chunk_inv [OF b w] end_stream_inv [OF b w] stream_fails_inv [OF b w]
      by (cases inp) (auto simp: driver_step_def)
  next
    case (AtRequestError ends asm f)
    then have w: "within_step a {}" using a by (simp add: loop_inv_def placed_def)
    show ?thesis using s AtRequestError error_decided_inv [OF b w] close_step_inv [OF b w] by (cases inp) (auto simp: driver_step_def)
  next
    case (AtTools ends r)
    then have w: "within_tools a r" using a by (simp add: loop_inv_def placed_def)
    show ?thesis using s AtTools tools_move_inv [OF b w] tools_done_inv [OF b w] by (cases inp) (auto simp: driver_step_def)
  next
    case (AtStopping reason)
    then have w: "within_turn a" using a by (simp add: loop_inv_def placed_def)
    show ?thesis using s AtStopping stopping_done_inv [OF b w] turn_fails_inv [OF b w] by (cases inp) (auto simp: driver_step_def)
  qed (use s in \<open>simp add: driver_step_def\<close>)
qed

lemma agent_step_inv:
  assumes a: "loop_inv a" and c: "clean_move a inp" and s: "agent_step chain cap now inp a = Some a'"
  shows "loop_inv a'"
proof -
  note d = driver_step_inv [OF a c, of chain cap now a']
  show ?thesis
  proof (cases inp)
    case (Others p)
    have "inbox_inv (ag_inbox a)" using a by (simp add: loop_inv_def agent_base_def)
    then show ?thesis using s Others run_op_quiet [of "ag_inbox a" "turn_is_open (ag_pc a)" p now] quiet_loop_inv [OF a]
      by (auto simp: agent_step_def split: if_splits)
  qed (use s d send_inv [OF a] cancel_inv [OF a] begin_maintenance_inv [OF a] end_maintenance_inv [OF a] in
      \<open>auto simp: agent_step_def split: if_splits\<close>)
qed

lemma run_agent_inv:
  assumes "run_agent chain cap inputs a = Some a'" and "loop_inv a" and "clean_run chain cap inputs a"
  shows "loop_inv a'"
  using assms
proof (induction chain cap inputs a rule: run_agent.induct)
  case (2 chain cap now inp rest a)
  then obtain a1 where a1: "agent_step chain cap now inp a = Some a1" "run_agent chain cap rest a1 = Some a'"
    by (auto split: option.splits)
  have "loop_inv a1" by (rule agent_step_inv [OF "2.prems"(2) _ a1(1)]) (use "2.prems"(3) in simp)
  from "2.IH" [OF a1(1,2) this] "2.prems"(3) a1(1) show ?case by simp
qed simp

section \<open>The start\<close>

lemma last_turn_started_snoc:
  "last_turn_started (evs @ [e]) = (case ev_data e of TurnStart n \<Rightarrow> n | _ \<Rightarrow> last_turn_started evs)"
  by (cases "ev_data e"; cases "List.map_filter (\<lambda>e. turn_started (ev_data e)) evs")
    (simp_all add: last_turn_started_def map_filter_append map_filter_simps)

definition position_ok :: "'p event list \<Rightarrow> session_trace \<Rightarrow> bool" where
  "position_ok evs t \<longleftrightarrow> (case tr_open_turn t of
      None \<Rightarrow> tr_open_step t = None \<and> tr_next_turn t = last_turn_started evs + 1
    | Some n \<Rightarrow> n = last_turn_started evs \<and> tr_next_turn t = n) \<and> (tr_open_step t = None \<longrightarrow> tr_pending t = {})"

lemma position_step: "position_ok evs t \<Longrightarrow> trace_step t e = Inr t' \<Longrightarrow> position_ok (evs @ [e]) t'"
  by (cases "ev_data e")
    (auto simp: position_ok_def trace_step_def validate_event_def unchanged_def require_open_step_def apply_transition_def
      last_turn_started_snoc rbind_Inr_iff Let_def split: if_splits option.splits)

lemma seed_position: "seed_session evs = Inr t \<Longrightarrow> position_ok evs t"
proof (induction evs arbitrary: t rule: rev_induct)
  case Nil
  then have "t = fresh_trace" by (simp add: seed_session_def)
  then show ?case by (simp add: position_ok_def fresh_trace_def last_turn_started_def)
next
  case (snoc e evs)
  then obtain t0 where "seed_session evs = Inr t0" "trace_step t0 e = Inr t" by (auto simp: seed_session_def replay_snoc_Inr)
  with snoc.IH position_step show ?case by blast
qed

lemma new_agent_inv:
  assumes s: "session_ok s" "seed_offset s \<le> length (ses_log s)" and n: "new_agent i opts s = Inr a"
    and t: "seed_session (ses_log s) = Inr t" "tr_open_turn t = None"
  shows "loop_inv a"
proof -
  obtain ix where ix: "new_inbox s = Inr ix" and a: "a = \<lparr>ag_id = i, ag_options = opts, ag_inbox = ix,
      ag_phase = Idle (last_turn_started (ses_log s)), ag_header_logged = False,
      ag_retained = restore_context (surface_nodes (ses_log s)) (ses_log s), ag_errors = [], ag_pc = NoDriver\<rparr>"
    using n by (auto simp: new_agent_def rbind_Inr_iff)
  have sess: "ix_session ix = s" using ix by (auto simp: new_inbox_def rbind_Inr_iff)
  have c: "contiguous (ses_log s)" using s(1) fold_surface_contiguous by (auto simp: session_ok_def)
  have base: "agent_base a" using new_inbox_inv [OF s ix] restore_context_ok [OF c] by (simp add: agent_base_def a sess)
  have "trace_view t = no_turn (last_turn_started (ses_log s) + 1) (tr_next_step t) {}"
    using seed_position [OF t(1)] t(2) by (simp add: position_ok_def trace_view_eq no_turn_def)
  then have "log_at (ses_log s) (no_turn (last_turn_started (ses_log s) + 1) (tr_next_step t) {})"
    using t(1) seed_last_seq [OF c t(1)] by (auto simp: log_at_def)
  then have "between_turns a" by (auto simp: between_turns_def a sess)
  with base show ?thesis by (simp add: loop_inv_def placed_def a)
qed

text \<open>An agent over a session the store hands out, after some run.\<close>

definition agent_started :: "agent_options \<Rightarrow> session_id \<Rightarrow> inbox_splice session \<Rightarrow> agent \<Rightarrow> bool" where
  "agent_started opts i s a \<longleftrightarrow> seed_offset s \<le> length (ses_log s) \<and> new_agent i opts s = Inr a \<and>
     (case seed_session (ses_log s) of Inl _ \<Rightarrow> False | Inr t \<Rightarrow> tr_open_turn t = None)"

lemma reached_inv:
  assumes "session_reach s" and "agent_started opts i s a0" and "run_agent chain cap inputs a0 = Some a" and "clean_run chain cap inputs a0"
  shows "loop_inv a"
proof -
  obtain t where "seed_session (ses_log s) = Inr t" "tr_open_turn t = None" "seed_offset s \<le> length (ses_log s)" "new_agent i opts s = Inr a0"
    using assms(2) by (auto simp: agent_started_def split: sum.splits)
  from new_agent_inv [OF session_reach_ok [OF assms(1)] this(3,4,1,2)] run_agent_inv [OF assms(3) _ assms(4)] show ?thesis by blast
qed



text \<open>
  Between activities, the status the agent shows as idle, no turn is open and no driver is suspended; while a
  driver runs, at most one does.\<close>

theorem idle_agents_have_closed_turns:
  assumes "session_reach s" and "agent_started opts i s a0" and "run_agent chain cap inputs a0 = Some a" and "clean_run chain cap inputs a0"
  shows "(\<not> is_running (ag_phase a) \<longleftrightarrow> ag_pc a = NoDriver) \<and>
    (\<not> is_running (ag_phase a) \<longrightarrow> (\<exists>t. seed_session (agent_log a) = Inr t \<and> tr_open_turn t = None \<and> tr_next_turn t = turn_of (ag_phase a) + 1))"
proof -
  have inv: "loop_inv a" by (rule reached_inv [OF assms])
  then have p: "placed a" by (simp add: loop_inv_def)
  have 1: "\<not> is_running (ag_phase a) \<longleftrightarrow> ag_pc a = NoDriver" using p idle_has_no_driver [OF p] by (auto simp: placed_def)
  have "\<exists>t. seed_session (agent_log a) = Inr t \<and> tr_open_turn t = None \<and> tr_next_turn t = turn_of (ag_phase a) + 1" if "\<not> is_running (ag_phase a)"
    using idle_has_no_driver [OF p that] by (auto simp: between_turns_def log_at_def trace_view_eq no_turn_def)
  with 1 show ?thesis by blast
qed

end
