(* ===== verification/Agent_Wake.thy ===== *)
theory Agent_Wake
  imports Agent_Outcome
begin

text \<open>
  What the agent driver's requests record, and what becomes of a wake that finds the driver busy
  (\<open>wakeDriver\<close> and \<open>kick\<close> of \<open>packages/core/agent-loop/src/agent.ts\<close>).
\<close>

section \<open>Requests\<close>

text \<open>
  When a request is sent, the log says under which header: its last request header has the configuration, the
  system prompt and the tools of the request, its last request context the route, and the messages are those read
  at the start of the step's request.\<close>

theorem requests_are_recorded:
  assumes reach: "session_reach s" "agent_started opts i s a0" "run_agent chain cap inputs a0 = Some a" "clean_run chain cap inputs a0"
    and pc: "ag_pc a = AtPrepareCall ends asm ms config" and live: "agent_aborted a = None"
    and step: "agent_step chain cap now (CallPrepared call) a = Some a'"
  shows "\<exists>req h c. ag_pc a' = AtStream ends asm req new_assembler [] \<and> rq_messages req = ms \<and>
    fold_request_header (agent_log a') None = Some h \<and> call_config_equals (hdr_config h) (rq_config req) \<and>
    hdr_system h = rq_system req \<and> (case hdr_tools h of None \<Rightarrow> [] | Some ts \<Rightarrow> ts) = (case rq_tools req of None \<Rightarrow> [] | Some ts \<Rightarrow> ts) \<and>
    fold (\<lambda>e c. context_step c e) (agent_log a') None = Some c \<and>
    ctx_provider c = config_text (rq_config req) ''provider'' \<and> ctx_model c = config_text (rq_config req) ''model''"
proof -
  have "loop_inv a" by (rule reached_inv [OF reach])
  then have a: "agent_base a" and w: "within_step a {}" using pc by (simp_all add: loop_inv_def placed_def)
  define cfg where "cfg = (case call of None \<Rightarrow> config | Some p \<Rightarrow> pl_config p)"
  define h where "h = new_header cfg call (pa_system asm) (pa_tools asm)"
  obtain h0 where h0: "h = canonical_header h0" by (auto simp: h_def new_header_def)
  note at' = within_step_at [OF w]
  obtain s1 b where s1: "log_request_header now (ag_header_logged a) h (agent_session a) = (s1, Inr ())" "session_ok s1"
    "log_at (ses_log s1) (in_step (turn_of (ag_phase a)) (step_of (ag_phase a)) (turn_of (ag_phase a)) (step_of (ag_phase a)) {})"
    "fold_request_header (ses_log s1) None = Some b" "header_equals b h"
    using log_request_header_at [OF agent_base_session [OF a] at', of now "ag_header_logged a" h0] unfolding h0 by blast
  obtain s2 where s2: "log_request_context now (context_for cfg call) s1 = (s2, Inr ())"
    "fold (\<lambda>e c. context_step c e) (ses_log s2) None = Some (context_for cfg call)"
    "fold_request_header (ses_log s2) None = fold_request_header (ses_log s1) None"
    using log_request_context_at [OF s1(2,3), of now "context_for cfg call"] by blast
  have a': "a' = (agent_with_session s2 a)\<lparr>ag_header_logged := True, ag_pc := AtStream ends asm (bind_request (ses_id s2) h ms) new_assembler []\<rparr>"
    using step pc live s1(1) s2(1)
    by (simp add: agent_step_def driver_step_def prepared_call_def send_request_def Let_def cfg_def [symmetric] h_def [symmetric])
  have "hdr_config h = cfg" by (simp add: h_def new_header_def canonical_header_def)
  then show ?thesis
    using s1(4,5) s2(2,3) by (simp add: a' agent_with_session_def bind_request_def header_equals_def context_for_def)
qed

section \<open>Latched wakes\<close>

fun latched :: "agent_phase \<Rightarrow> bool" where
  "latched (Idle _) = False"
| "latched (Maintenance _ _ w) = w"
| "latched (Running _ _ _ w) = w"

definition flags :: "agent_phase \<Rightarrow> bool \<times> cancel_cause option \<times> bool" where
  "flags p = (is_running p, abort_of p, latched p)"

lemma flags_move [simp]: "flags (with_turn n p) = flags p" "flags (with_step n p) = flags p"
  by (cases p; simp add: flags_def)+

lemma append_phase [simp]: "agent_append now d intent a = (a', r) \<Longrightarrow> ag_phase a' = ag_phase a"
  by (auto simp: agent_append_def split: prod.splits sum.splits)

lemma close_turn_phase: "ag_phase (fst (close_turn now reason a)) = ag_phase a"
  by (auto simp: close_turn_def dest: append_phase split: prod.split sum.split)

text \<open>The driver's own moves keep the abort and the latch, but for a live driver that goes on to another turn.\<close>

definition keeps_flags :: "agent \<Rightarrow> agent \<Rightarrow> bool" where
  "keeps_flags a a' \<longleftrightarrow> flags (ag_phase a') = flags (ag_phase a) \<or>
     (agent_aborted a = None \<and> (\<exists>n. ag_phase a' = Running None n 0 False))"

lemma keeps_same: "flags (ag_phase a') = flags (ag_phase a) \<Longrightarrow> keeps_flags a a'"
  by (simp add: keeps_flags_def)

lemma keeps_trans: "flags (ag_phase b) = flags (ag_phase a) \<Longrightarrow> keeps_flags b c \<Longrightarrow> keeps_flags a c"
  by (auto simp: keeps_flags_def flags_def)

lemma turn_fails_flags: "ag_phase (turn_fails chain now err a) = ag_phase a"
  by (simp add: turn_fails_def close_turn_phase split: option.split)

lemma turn_returns_false_flags: "ag_phase (turn_returns_false now reason a) = ag_phase a"
  by (simp add: turn_returns_false_def close_turn_phase)

lemma turn_breaks_flags: "agent_aborted a = None \<Longrightarrow> keeps_flags a (turn_breaks now reason a)"
  using close_turn_phase [of now reason a]
  by (cases "close_turn now reason a"; cases "snd (close_turn now reason a)") (auto simp: turn_breaks_def keeps_flags_def)

lemma loop_head_flags: "ag_phase (loop_head chain now ends target a) = ag_phase a"
  by (simp add: loop_head_def turn_fails_flags split: option.split prod.split sum.split)

lemma enter_turn_flags: "flags (ag_phase (enter_turn chain now a)) = flags (ag_phase a)"
  by (auto simp: enter_turn_def Let_def loop_head_flags dest: append_phase split: option.split prod.split sum.split)

lemma close_step_flags: "ag_phase (close_step chain now ends res a) = ag_phase a"
  by (auto simp: close_step_def Let_def turn_fails_flags loop_head_flags dest: append_phase split: option.split prod.split sum.split)

lemma begin_request_flags: "ag_phase (begin_request chain now ends asm a) = ag_phase a"
  by (simp add: begin_request_def Let_def close_step_flags split: option.split prod.split sum.split)

lemma append_users_phase: "ag_phase (fst (append_users now ms a)) = ag_phase a"
  by (induction now ms a rule: append_users.induct) (auto dest: append_phase split: prod.split sum.split)

lemma enter_step_flags: "flags (ag_phase (enter_step chain now ends asm ms a)) = flags (ag_phase a)"
proof -
  obtain a1 r where 1: "agent_append now (StepStart (turn_of (ag_phase a)) (step_of (ag_phase a) + 1)) no_intent a = (a1, r)"
    by (cases "agent_append now (StepStart (turn_of (ag_phase a)) (step_of (ag_phase a) + 1)) no_intent a")
  let ?a = "a1\<lparr>ag_phase := with_step (step_of (ag_phase a) + 1) (ag_phase a1)\<rparr>"
  obtain a2 r2 where 2: "append_users now ms ?a = (a2, r2)" by (cases "append_users now ms ?a")
  have "ag_phase a2 = ag_phase ?a" using append_users_phase [of now ms ?a] 2 by simp
  then show ?thesis using append_phase [OF 1] 2
    by (cases r; cases r2) (simp_all add: enter_step_def Let_def 1 turn_fails_flags close_step_flags begin_request_flags)
qed

lemma decided_flags: "keeps_flags a (decided chain now ends asm d a)"
  using turn_breaks_flags [of a now "the ends"]
  by (auto simp: decided_def keeps_same turn_fails_flags turn_returns_false_flags enter_step_flags split: option.split)

lemma send_request_flags: "ag_phase (send_request chain now ends asm ms c call a) = ag_phase a"
  by (simp add: send_request_def Let_def close_step_flags agent_with_session_def split: prod.split sum.split)

lemma append_assistant_phase: "append_assistant now m u i qs a = (a1, r) \<Longrightarrow> ag_phase a1 = ag_phase a"
  unfolding append_assistant_def by (rule append_phase)

lemma stream_fails_flags: "ag_phase (stream_fails chain now ends req asb seqs mid err a) = ag_phase a"
  by (auto simp: stream_fails_def close_step_flags dest: append_assistant_phase split: prod.split sum.split)

lemma read_chunk_flags: "ag_phase (read_chunk chain now ends asm req asb seqs c mid a) = ag_phase a"
  by (auto simp: read_chunk_def stream_fails_flags dest: append_phase split: option.split prod.split sum.split)

lemma message_done_flags: "ag_phase (message_done chain now cap ends finish content a) = ag_phase a"
  by (simp add: message_done_def close_step_flags)

lemma end_stream_flags: "ag_phase (end_stream chain now cap ends asm req asb seqs mid a) = ag_phase a"
  by (auto simp: end_stream_def stream_finished_def stream_fails_flags message_done_flags close_step_flags dest: append_assistant_phase
      split: option.split finish_reason.split prod.split sum.split)

lemma stopping_done_flags: "keeps_flags a (stopping_done chain now reason a)"
  using turn_breaks_flags [of a now reason]
  by (auto simp: stopping_done_def keeps_same turn_fails_flags loop_head_flags split: option.split)

lemma tools_move_flags: "tools_move now ends r inp a = Some a' \<Longrightarrow> ag_phase a' = ag_phase a"
  by (cases inp) (auto simp: tools_move_def split: option.splits)

lemma tools_done_flags: "tools_done chain now ends r a = Some a' \<Longrightarrow> ag_phase a' = ag_phase a"
  by (auto simp: tools_done_def close_step_flags split: schedule_at.splits option.splits)

lemma assembled_prompt_flags: "ag_phase (assembled_prompt chain now ends ms asm mid a) = ag_phase a"
  by (simp add: assembled_prompt_def turn_fails_flags split: option.split)

lemma request_flags:
  "ag_phase (proposed chain now ends asm ms c a) = ag_phase a"
  "ag_phase (prepared_call chain now ends asm ms c call a) = ag_phase a"
  "ag_phase (error_decided chain now ends asm f retry a) = ag_phase a"
  by (simp_all add: proposed_def prepared_call_def error_decided_def close_step_flags send_request_flags begin_request_flags split: option.split)

lemmas driver_flags = turn_fails_flags assembled_prompt_flags request_flags close_step_flags read_chunk_flags end_stream_flags
  stream_fails_flags enter_turn_flags

lemma driver_step_flags:
  assumes "driver_step chain cap now inp a = Some a'" and "ag_pc a \<noteq> AtExit"
  shows "keeps_flags a a'"
  using assms decided_flags [of a] stopping_done_flags [of a]
  by (cases "ag_pc a"; cases inp)
    (auto simp: driver_step_def keeps_same driver_flags dest: tools_move_flags tools_done_flags split: if_splits)

text \<open>A running driver's latch is only ever set behind an abort.\<close>

definition latch_ok :: "agent \<Rightarrow> bool" where
  "latch_ok a \<longleftrightarrow> (is_running (ag_phase a) \<and> latched (ag_phase a) \<longrightarrow> agent_aborted a \<noteq> None)"

lemma keeps_flags_latch: "keeps_flags a a' \<Longrightarrow> latch_ok a \<Longrightarrow> latch_ok a'"
  by (auto simp: keeps_flags_def flags_def latch_ok_def)

lemma fresh_driver_latch: "latch_ok (enter_turn chain now (a\<lparr>ag_phase := Running None n 0 False\<rparr>))"
  using enter_turn_flags [of chain now "a\<lparr>ag_phase := Running None n 0 False\<rparr>"] by (simp add: latch_ok_def flags_def)

lemma wake_driver_latch: "latch_ok a \<Longrightarrow> after_abort \<longrightarrow> agent_aborted a \<noteq> None \<Longrightarrow> latch_ok (wake_driver chain now after_abort a)"
  using fresh_driver_latch [of chain now _ a] by (cases "ag_phase a") (simp_all add: wake_driver_def latch_ok_def)

lemma send_latch:
  assumes "latch_ok a"
  shows "latch_ok (send chain now m target wakeup a)"
proof -
  let ?after = "wakeup \<and> \<not> is_idle (ag_phase a) \<and> agent_aborted a \<noteq> None"
  obtain ix r where sp: "splice now (if ?after then NextTurn else target) PosInf (js_num 0) [m] (ag_inbox a) = (ix, r)"
    by (cases "splice now (if ?after then NextTurn else target) PosInf (js_num 0) [m] (ag_inbox a)")
  have l: "latch_ok (with_inbox ix a)" using assms by (simp add: latch_ok_def)
  have "latch_ok (wake_driver chain now ?after (with_inbox ix a))" by (rule wake_driver_latch [OF l]) simp
  then show ?thesis unfolding send_def Let_def sp using l by (cases wakeup) (simp_all split: sum.split)
qed

lemma cancel_latch: "latch_ok a \<Longrightarrow> latch_ok (cancel now cause keep_inbox a)"
  by (cases "ag_phase a"; cases "agent_aborted a") (auto simp: cancel_def latch_ok_def split: prod.split sum.split)

lemma agent_step_latch:
  assumes l: "latch_ok a" and s: "agent_step chain cap now inp a = Some a'"
  shows "latch_ok a'"
proof -
  have idle: "latch_ok (x\<lparr>ag_phase := Idle n\<rparr>)" "latch_ok (x\<lparr>ag_phase := Idle n, ag_pc := k\<rparr>)" for x n k by (simp_all add: latch_ok_def)
  have wake: "latch_ok (wake_driver chain now False x)" if "latch_ok x" for x by (rule wake_driver_latch [OF that]) simp
  have d: "latch_ok a'" if "driver_step chain cap now inp a = Some a'"
  proof (cases "ag_pc a = AtExit")
    case True
    then have "a' = driver_exits chain now a" using that by (auto simp: driver_step_def split: if_splits)
    then show ?thesis using l wake idle by (auto simp: driver_exits_def Let_def split: agent_phase.split)
  next
    case False
    from keeps_flags_latch [OF driver_step_flags [OF that False] l] show ?thesis .
  qed
  show ?thesis
    using s d send_latch [OF l] cancel_latch [OF l] wake idle l
    by (cases inp)
      (auto simp: agent_step_def begin_maintenance_def end_maintenance_def Let_def latch_ok_def split: agent_phase.splits if_splits)
qed

lemma run_agent_latch: "run_agent chain cap inputs a = Some a' \<Longrightarrow> latch_ok a \<Longrightarrow> latch_ok a'"
proof (induction chain cap inputs a rule: run_agent.induct)
  case (2 chain cap now inp rest a)
  then show ?case using agent_step_latch by (auto split: option.splits)
qed simp

lemma new_agent_latch: "agent_started opts i s a \<Longrightarrow> latch_ok a"
  by (auto simp: agent_started_def new_agent_def rbind_Inr_iff latch_ok_def)

text \<open>
  C16: A wake latched behind maintenance or behind an aborted driver is not lost: whatever happens next, short of
  a cancellation that clears the inbox, it stays latched, or the activity ends; and then the next turn is opened if
  anything is pending.\<close>

theorem latched_wakes_survive:
  assumes reach: "session_reach s" "agent_started opts i s a0" "run_agent chain cap inputs a0 = Some a" "clean_run chain cap inputs a0"
    and wake: "latched (ag_phase a)" and step: "agent_step chain cap now inp a = Some a'"
    and kept: "\<forall>cause. inp \<noteq> Cancel cause False"
  shows "latched (ag_phase a') \<or>
    (\<exists>b. ag_inbox b = ag_inbox a \<and> ag_phase b = Idle (turn_of (ag_phase a)) \<and> ag_pc b = NoDriver \<and>
       (if has_pending a then a' = enter_turn chain now (b\<lparr>ag_phase := Running None (turn_of (ag_phase a)) 0 False\<rparr>) else a' = b))"
proof -
  have l: "latch_ok a" by (rule run_agent_latch [OF reach(3) new_agent_latch [OF reach(2)]])
  have "placed a" using reached_inv [OF reach] by (simp add: loop_inv_def)
  then have idle: "\<not> is_running (ag_phase a) \<Longrightarrow> ag_pc a = NoDriver" using idle_has_no_driver by blast
  have d: ?thesis if s: "driver_step chain cap now inp a = Some a'"
  proof (cases "ag_pc a = AtExit")
    case True
    then have a': "a' = driver_exits chain now a" using s by (auto simp: driver_step_def split: if_splits)
    show ?thesis
    proof (cases "ag_phase a")
      case (Running ab n k w)
      let ?b = "a\<lparr>ag_phase := Idle n, ag_pc := NoDriver\<rparr>"
      have "if has_pending a then a' = enter_turn chain now (?b\<lparr>ag_phase := Running None n 0 False\<rparr>) else a' = ?b"
        using wake Running by (simp add: a' driver_exits_def wake_driver_def has_pending_def)
      then show ?thesis by (intro disjI2 exI [of _ ?b]) (simp add: Running)
    qed (use wake in \<open>simp_all add: a' driver_exits_def\<close>)
  next
    case False
    have "keeps_flags a a'" by (rule driver_step_flags [OF s False])
    moreover have "is_running (ag_phase a) \<Longrightarrow> agent_aborted a \<noteq> None" using l wake by (simp add: latch_ok_def)
    moreover have "ag_pc a \<noteq> NoDriver" using s by (auto simp: driver_step_def)
    then have "is_running (ag_phase a)" using idle by blast
    ultimately show ?thesis using wake by (cases "ag_phase a") (auto simp: keeps_flags_def flags_def)
  qed
  show ?thesis
  proof (cases inp)
    case (Send m target wakeup)
    then show ?thesis using step wake
      by (cases "ag_phase a") (auto simp: agent_step_def send_def Let_def wake_driver_def split: prod.split sum.split)
  next
    case (Cancel cause keep_inbox)
    then show ?thesis using step wake kept by (cases "(cause, ag_phase a)" rule: abort_phase.cases) (auto simp: agent_step_def cancel_def)
  next
    case BeginMaintenance
    then show ?thesis using step wake by (cases "ag_phase a") (auto simp: agent_step_def begin_maintenance_def)
  next
    case EndMaintenance
    then obtain ab n where p: "ag_phase a = Maintenance ab n True" using step wake
      by (cases "ag_phase a") (auto simp: agent_step_def end_maintenance_def)
    let ?b = "a\<lparr>ag_phase := Idle n\<rparr>"
    have "if has_pending a then a' = enter_turn chain now (?b\<lparr>ag_phase := Running None n 0 False\<rparr>) else a' = ?b"
      using EndMaintenance step by (auto simp: agent_step_def end_maintenance_def p wake_driver_def has_pending_def Let_def)
    then show ?thesis using idle by (intro disjI2 exI [of _ ?b]) (simp add: p)
  next
    case (Others p)
    then show ?thesis using step wake by (auto simp: agent_step_def split: if_splits)
  qed (use step d in \<open>auto simp: agent_step_def split: if_splits\<close>)
qed

text \<open>
  C35: Between the moment a turn's last check for pending input has found none and the moment its driver has left the
  loop, a wake goes unheard: the driver is still running and not aborted, so nothing is latched, and it then leaves
  with the message in the inbox and nobody to claim it.
\<close>

theorem wake_in_the_exit_gap_is_unheard:
  assumes reach: "session_reach s" "agent_started opts i s a0" "run_agent chain cap inputs a0 = Some a" "clean_run chain cap inputs a0"
    and pc: "ag_pc a = AtExit" and live: "agent_aborted a = None"
    and sent: "agent_step chain cap now (Send m target True) a = Some b" and left: "agent_step chain cap later Go b = Some c"
  shows "ag_phase c = Idle (turn_of (ag_phase a)) \<and> ag_pc c = NoDriver \<and> ag_inbox c = ag_inbox b \<and>
    ag_inbox b = fst (splice now target PosInf (js_num 0) [m] (ag_inbox a))"
proof -
  have "placed a" using reached_inv [OF reach] by (simp add: loop_inv_def)
  then obtain n k w where p: "ag_phase a = Running None n k w" using pc live by (cases "ag_phase a") (auto simp: placed_def)
  have "latch_ok a" by (rule run_agent_latch [OF reach(3) new_agent_latch [OF reach(2)]])
  then have w: "\<not> w" by (simp add: latch_ok_def p)
  obtain ix r where sp: "splice now target PosInf (js_num 0) [m] (ag_inbox a) = (ix, r)"
    by (cases "splice now target PosInf (js_num 0) [m] (ag_inbox a)")
  have b: "b = with_inbox ix a" using sent sp by (cases r) (simp_all add: agent_step_def send_def p wake_driver_def)
  then show ?thesis using left w sp pc by (auto simp: agent_step_def driver_step_def driver_exits_def p)
qed

section \<open>A run\<close>

text \<open>
  A prompt, one step that streams a text and a tool call, the tool, a second step that completes; then a second
  prompt arrives in the exit gap.
\<close>

definition sample_chain :: "loop_error \<Rightarrow> string" where
  "sample_chain err = ''error''"

definition sample_options :: agent_options where
  "sample_options = \<lparr>ao_provider = Some ''p'', ao_model = Some ''m'', ao_max_tokens = None\<rparr>"

definition sample_agent :: agent where
  "sample_agent = (case new_agent ''s1'' sample_options sample_start of Inr a \<Rightarrow> a
     | Inl _ \<Rightarrow> \<lparr>ag_id = [], ag_options = sample_options, ag_inbox = sample_inbox, ag_phase = Idle 0, ag_header_logged = False,
         ag_retained = NeverSent, ag_errors = [], ag_pc = NoDriver\<rparr>)"

definition sample_assembly :: prompt_assembly where
  "sample_assembly = \<lparr>pa_system = ''be brief'', pa_tools = [], pa_context = ''cwd: /a'', pa_sections = [JStr ''cwd'']\<rparr>"

definition sample_config :: json where
  "sample_config = JObj [(''provider'', JStr ''p''), (''model'', JStr ''m'')]"

definition sample_to_request :: "(int \<times> agent_input) list" where
  "sample_to_request = [(1, Send (sample_prompt ''a'') NextTurn True), (2, Assembled sample_assembly ''x1''), (3, DecidedByDefault),
     (4, Proposed sample_config)]"

definition sample_rest :: "(int \<times> agent_input) list" where
  "sample_rest = [(5, CallPrepared None), (6, Chunk (BlockEnd 0 (ToolCallBlock ''c'' ''read'' [])) []), (7, StreamEnd ''m1''),
     (8, ToolMove (Classified False)), (9, ToolMove Advance), (10, ToolMove (tool_input.Prepared Dispatched)), (11, ToolMove Advance),
     (12, ToolMove Advance), (13, ToolMove (Settled 0 (Inr (FinalStage sample_done)))), (14, ToolMove (Picked 0)),
     (15, ToolMove (Completed sample_done ''r1'')), (16, ToolMove Advance), (17, ToolMove Advance), (18, ToolMove Advance), (19, Go),
     (20, Assembled sample_assembly ''x2''), (21, DecidedByDefault), (22, Proposed sample_config), (23, CallPrepared None),
     (24, Chunk (TextDelta 0 ''ok'') []), (25, StreamEnd ''m2''), (26, Go)]"

definition sample_at :: "(int \<times> agent_input) list \<Rightarrow> agent" where
  "sample_at inputs = (case run_agent sample_chain 2 inputs sample_agent of Some a \<Rightarrow> a | None \<Rightarrow> sample_agent)"

lemma sample_agent_started: "agent_started sample_options ''s1'' sample_start sample_agent"
  by code_simp

definition sample_check :: "(agent \<Rightarrow> bool) \<Rightarrow> (int \<times> agent_input) list \<Rightarrow> bool" where
  "sample_check P inputs = (case run_agent sample_chain 2 inputs sample_agent of Some a \<Rightarrow> P a | None \<Rightarrow> False)"

lemma sample_checked: "sample_check P inputs \<Longrightarrow> run_agent sample_chain 2 inputs sample_agent = Some (sample_at inputs) \<and> P (sample_at inputs)"
  by (auto simp: sample_check_def sample_at_def split: option.splits)

lemma sample_request_checked:
  "sample_check (\<lambda>a. (case ag_pc a of AtPrepareCall None asm ms c \<Rightarrow> asm = sample_assembly \<and> c = sample_config | _ \<Rightarrow> False) \<and>
     agent_aborted a = None) sample_to_request"
  "clean_run sample_chain 2 sample_to_request sample_agent"
  by code_simp+

lemma sample_exit_checked:
  "sample_check (\<lambda>a. ag_pc a = AtExit \<and> ag_phase a = Running None 1 2 False \<and>
     pending (ix_lists (fst (splice 27 NextTurn PosInf (js_num 0) [sample_prompt ''z''] (ag_inbox a)))) = [sample_prompt ''z'']) (sample_to_request @ sample_rest)"
  "clean_run sample_chain 2 (sample_to_request @ sample_rest) sample_agent"
  by code_simp+

lemmas sample_exit_reach = sample_start_reach(1) sample_agent_started sample_checked [OF sample_exit_checked(1), THEN conjunct1] sample_exit_checked(2)
lemmas sample_request_reach = sample_start_reach(1) sample_agent_started sample_checked [OF sample_request_checked(1), THEN conjunct1] sample_request_checked(2)

theorem requests_are_recorded_witness:
  "\<exists>a' h. agent_step sample_chain 2 5 (CallPrepared None) (sample_at sample_to_request) = Some a' \<and>
     fold_request_header (agent_log a') None = Some h"
proof -
  let ?a = "sample_at sample_to_request"
  have "(case ag_pc ?a of AtPrepareCall None asm ms c \<Rightarrow> asm = sample_assembly \<and> c = sample_config | _ \<Rightarrow> False)" and live: "agent_aborted ?a = None"
    using sample_checked [OF sample_request_checked(1)] by blast+
  then obtain ms where pc: "ag_pc ?a = AtPrepareCall None sample_assembly ms sample_config"
    by (auto split: agent_pc.splits option.splits)
  have "\<exists>a'. agent_step sample_chain 2 5 (CallPrepared None) ?a = Some a'" by (simp add: agent_step_def driver_step_def pc)
  then obtain a' where a': "agent_step sample_chain 2 5 (CallPrepared None) ?a = Some a'" ..
  from requests_are_recorded [OF sample_request_reach pc live a'] a' show ?thesis by blast
qed

definition sample_to_latch :: "(int \<times> agent_input) list" where
  "sample_to_latch = [(1, Send (sample_prompt ''a'') NextTurn True), (2, Cancel ByUser True), (3, Send (sample_prompt ''b'') NextTurn True),
     (4, Threw (Thrown ''gone'') [])]"

lemma sample_latch_checked:
  "sample_check (\<lambda>a. ag_pc a = AtExit \<and> ag_phase a = Running (Some ByUser) 1 0 True \<and> has_pending a) sample_to_latch"
  "clean_run sample_chain 2 sample_to_latch sample_agent"
  by code_simp+

theorem latched_wakes_survive_witness:
  "\<exists>b. ag_phase b = Idle 1 \<and> driver_exits sample_chain 5 (sample_at sample_to_latch) =
     enter_turn sample_chain 5 (b\<lparr>ag_phase := Running None 1 0 False\<rparr>)"
proof -
  let ?a = "sample_at sample_to_latch" and ?a' = "driver_exits sample_chain 5 (sample_at sample_to_latch)"
  have a: "run_agent sample_chain 2 sample_to_latch sample_agent = Some ?a" "ag_pc ?a = AtExit" "ag_phase ?a = Running (Some ByUser) 1 0 True" "has_pending ?a"
    using sample_checked [OF sample_latch_checked(1)] by blast+
  have step: "agent_step sample_chain 2 5 Go ?a = Some ?a'" by (simp add: agent_step_def driver_step_def a)
  have wake: "latched (ag_phase ?a)" by (simp add: a)
  have "has_pending (?a\<lparr>ag_phase := Idle 1, ag_pc := NoDriver\<rparr>)" using a(4) by (simp add: has_pending_def)
  then have "?a' = enter_turn sample_chain 5 ((?a\<lparr>ag_phase := Idle 1, ag_pc := NoDriver\<rparr>)\<lparr>ag_phase := Running None 1 0 False\<rparr>)"
    by (simp add: driver_exits_def wake_driver_def a)
  then have "flags (ag_phase ?a') = (True, None, False)" by (simp only: enter_turn_flags) (simp add: flags_def)
  then have "\<not> latched (ag_phase ?a')" by (simp add: flags_def)
  with latched_wakes_survive [OF sample_start_reach(1) sample_agent_started a(1) sample_latch_checked(2) wake step] a show ?thesis by auto
qed

theorem wake_in_the_exit_gap_is_unheard_witness:
  "\<exists>c :: agent. ag_phase c = Idle 1 \<and> ag_pc c = NoDriver \<and> pending (ix_lists (ag_inbox c)) = [sample_prompt ''z'']"
proof -
  let ?a = "sample_at (sample_to_request @ sample_rest)"
  let ?b = "send sample_chain 27 (sample_prompt ''z'') NextTurn True ?a"
  have a: "ag_pc ?a = AtExit" "ag_phase ?a = Running None 1 2 False"
    "pending (ix_lists (fst (splice 27 NextTurn PosInf (js_num 0) [sample_prompt ''z''] (ag_inbox ?a)))) = [sample_prompt ''z'']"
    using sample_checked [OF sample_exit_checked(1)] by blast+
  have sent: "agent_step sample_chain 2 27 (Send (sample_prompt ''z'') NextTurn True) ?a = Some ?b" by (simp add: agent_step_def)
  have "ag_pc ?b = AtExit" by (simp add: send_def wake_driver_def Let_def a split: prod.split sum.split)
  then have left: "agent_step sample_chain 2 28 Go ?b = Some (driver_exits sample_chain 28 ?b)" by (simp add: agent_step_def driver_step_def)
  have live: "agent_aborted ?a = None" by (simp add: a)
  note u = wake_in_the_exit_gap_is_unheard [OF sample_exit_reach a(1) live sent left]
  have one: "turn_of (ag_phase ?a) = 1" by (simp add: a)
  have "ag_phase (driver_exits sample_chain 28 ?b) = Idle 1" using u by (simp add: one)
  moreover have "ag_pc (driver_exits sample_chain 28 ?b) = NoDriver" using u by simp
  moreover have "pending (ix_lists (ag_inbox (driver_exits sample_chain 28 ?b))) = [sample_prompt ''z'']" using u a(3) by simp
  ultimately show ?thesis by blast
qed


theorem idle_agents_have_closed_turns_witness: "is_running (ag_phase (sample_at (sample_to_request @ sample_rest)))"
  using idle_agents_have_closed_turns [OF sample_exit_reach] sample_checked [OF sample_exit_checked(1)] by auto

end
