(* ===== verification/Utf8.thy ===== *)
theory Utf8
  imports Prelude "HOL-Library.Word"
begin

text \<open>
  UTF-8 as \<open>TextEncoder\<close> and \<open>TextDecoder\<close> of the language's standard library compute it. A text is the list of its
  code points; a lone surrogate is a code point that is no scalar value and is written as U+FFFD. The decoder is the
  non-fatal one: malformed bytes become U+FFFD, and one leading byte order mark is dropped.
\<close>

unbundle bit_operations_syntax

type_synonym byte = "8 word"

definition scalar :: "nat \<Rightarrow> bool" where
  "scalar c \<longleftrightarrow> c < 0xD800 \<or> 0xE000 \<le> c \<and> c < 0x110000"

section \<open>Encoding\<close>

text \<open>A continuation byte carries six bits.\<close>

definition tail_byte :: "nat \<Rightarrow> byte" where
  "tail_byte c = of_nat (0x80 + c mod 64)"

definition utf8_char :: "nat \<Rightarrow> byte list" where
  "utf8_char c =
     (if c < 0x80 then [of_nat c]
      else if c < 0x800 then [of_nat (0xC0 + c div 64), tail_byte c]
      else if c < 0x10000 then [of_nat (0xE0 + c div 4096), tail_byte (c div 64), tail_byte c]
      else [of_nat (0xF0 + c div 262144), tail_byte (c div 4096), tail_byte (c div 64), tail_byte c])"

definition utf8_encode :: "nat list \<Rightarrow> byte list" where
  "utf8_encode cs = concat (map (\<lambda>c. utf8_char (if scalar c then c else 0xFFFD)) cs)"

section \<open>Decoding\<close>

text \<open>What a byte at the start of a sequence asks for: a code point, or more bytes, the first within bounds.\<close>

datatype lead = Point nat | Need nat nat nat nat

definition lead_of :: "nat \<Rightarrow> lead" where
  "lead_of b =
     (if b < 0x80 then Point b
      else if 0xC2 \<le> b \<and> b \<le> 0xDF then Need 1 (b - 0xC0) 0x80 0xBF
      else if 0xE0 \<le> b \<and> b \<le> 0xEF then Need 2 (b - 0xE0) (if b = 0xE0 then 0xA0 else 0x80) (if b = 0xED then 0x9F else 0xBF)
      else if 0xF0 \<le> b \<and> b \<le> 0xF4 then Need 3 (b - 0xF0) (if b = 0xF0 then 0x90 else 0x80) (if b = 0xF4 then 0x8F else 0xBF)
      else Point 0xFFFD)"

text \<open>The decoder between two bytes: the bytes still needed, the bits read, the bounds of the next byte.\<close>

fun decode_more :: "nat \<Rightarrow> nat \<Rightarrow> nat \<Rightarrow> nat \<Rightarrow> byte list \<Rightarrow> nat list" where
  "decode_more n c lo hi [] = (if n = 0 then [] else [0xFFFD])"
| "decode_more n c lo hi (b # bs) =
     (if n = 0 then
        (case lead_of (unat b) of Point p \<Rightarrow> p # decode_more 0 0 0x80 0xBF bs | Need m d l h \<Rightarrow> decode_more m d l h bs)
      else if unat b < lo \<or> hi < unat b then
        0xFFFD # (case lead_of (unat b) of Point p \<Rightarrow> p # decode_more 0 0 0x80 0xBF bs | Need m d l h \<Rightarrow> decode_more m d l h bs)
      else if n = 1 then (c * 64 + unat b mod 64) # decode_more 0 0 0x80 0xBF bs
      else decode_more (n - 1) (c * 64 + unat b mod 64) 0x80 0xBF bs)"

abbreviation decode_units :: "byte list \<Rightarrow> nat list" where
  "decode_units \<equiv> decode_more 0 0 0x80 0xBF"

text \<open>\<open>BOM\<close> is the encoding of U+FEFF.\<close>

definition byte_order_mark :: "byte list" where
  "byte_order_mark = [0xEF, 0xBB, 0xBF]"

definition utf8_decode :: "byte list \<Rightarrow> nat list" where
  "utf8_decode bs = decode_units (if take 3 bs = byte_order_mark then drop 3 bs else bs)"

section \<open>Decoding inverts encoding\<close>

lemma unat_byte: "n < 256 \<Longrightarrow> unat (of_nat n :: byte) = n"
  by (simp add: unat_of_nat)

lemma unat_tail_byte [simp]: "unat (tail_byte c) = 0x80 + c mod 64"
proof -
  have "c mod 64 < 64" by simp
  then show ?thesis by (simp add: tail_byte_def unat_byte del: of_nat_add)
qed

lemma utf8_char_neq [simp]: "utf8_char c \<noteq> []"
  by (simp add: utf8_char_def)

lemma utf8_char_length: "length (utf8_char c) = (if c < 0x80 then 1 else if c < 0x800 then 2 else if c < 0x10000 then 3 else 4)"
  by (simp add: utf8_char_def)

lemma tail_bits [simp]: "(0x80 + c mod 64) mod 64 = c mod 64" "\<not> 63 < c mod 64" for c :: nat
  using mod_mult_self4 [of 64 2 "c mod 64"] mod_less_divisor [of 64 c] by (simp_all add: not_less less_Suc_eq_le [symmetric])

text \<open>The digits of a code point in base 64.\<close>

lemma base64_two: "c = c div 64 * 64 + c mod 64" for c :: nat
  by simp

lemma base64_three: "c = (c div 4096 * 64 + c div 64 mod 64) * 64 + c mod 64" for c :: nat
  using base64_two [of c] base64_two [of "c div 64"] div_mult2_eq [of c 64 64] by simp

lemma base64_four: "c = ((c div 262144 * 64 + c div 4096 mod 64) * 64 + c div 64 mod 64) * 64 + c mod 64" for c :: nat
  using base64_three [of c] base64_two [of "c div 4096"] div_mult2_eq [of c 4096 64] by simp

lemma base64_digit: "x mod 64 < 64" for x :: nat
  by simp

lemma three_byte_digits:
  "c = (d * 64 + m) * 64 + r \<Longrightarrow> m < 64 \<Longrightarrow> r < 64 \<Longrightarrow> 0x800 \<le> c \<Longrightarrow> c < 0x10000 \<Longrightarrow> c < 0xD800 \<or> 0xE000 \<le> c \<Longrightarrow>
     d < 16 \<and> (d = 0 \<longrightarrow> 32 \<le> m) \<and> (d = 13 \<longrightarrow> m < 32)" for c :: nat
  by (intro conjI impI; elim disjE; simp)

lemma four_byte_digits:
  "c = ((d * 64 + k) * 64 + m) * 64 + r \<Longrightarrow> k < 64 \<Longrightarrow> m < 64 \<Longrightarrow> r < 64 \<Longrightarrow> 0x10000 \<le> c \<Longrightarrow> c < 0x110000 \<Longrightarrow>
     d < 5 \<and> (d = 0 \<longrightarrow> 16 \<le> k) \<and> (d = 4 \<longrightarrow> k < 16)" for c :: nat
  by (intro conjI impI; simp)

lemma decode_char:
  assumes "scalar c" shows "decode_units (utf8_char c @ bs) = c # decode_units bs"
proof -
  consider "c < 0x80" | "0x80 \<le> c" "c < 0x800" | "0x800 \<le> c" "c < 0x10000" "c < 0xD800 \<or> 0xE000 \<le> c"
    | "0x10000 \<le> c" "c < 0x110000"
    using assms by (force simp: scalar_def)
  then show ?thesis
  proof cases
    case 1
    then show ?thesis by (simp add: utf8_char_def lead_of_def unat_byte)
  next
    case 2
    note c = base64_two [of c] base64_digit [of c]
    have d: "2 \<le> c div 64" "c div 64 < 32" using 2 c by linarith+
    then have u: "unat (of_nat (0xC0 + c div 64) :: byte) = 0xC0 + c div 64" by (intro unat_byte) simp
    have l: "lead_of (0xC0 + c div 64) = Need 1 (c div 64) 0x80 0xBF" using d by (simp add: lead_of_def)
    have e: "utf8_char c = [of_nat (0xC0 + c div 64), tail_byte c]" using 2 by (simp add: utf8_char_def)
    show ?thesis by (simp add: e u l del: of_nat_add)
  next
    case 3
    let ?d = "c div 4096" and ?m = "c div 64 mod 64"
    note c = base64_three [of c] base64_digit [of c] base64_digit [of "c div 64"]
    have d: "?d < 16" "?d = 0 \<Longrightarrow> 32 \<le> ?m" "?d = 13 \<Longrightarrow> ?m < 32" using three_byte_digits [OF c(1,3,2) 3] by blast+
    then have u: "unat (of_nat (0xE0 + ?d) :: byte) = 0xE0 + ?d" by (intro unat_byte) simp
    have l: "lead_of (0xE0 + ?d) = Need 2 ?d (if ?d = 0 then 0xA0 else 0x80) (if ?d = 13 then 0x9F else 0xBF)"
      using d(1) by (simp add: lead_of_def)
    have e: "utf8_char c = [of_nat (0xE0 + ?d), tail_byte (c div 64), tail_byte c]" using 3 by (simp add: utf8_char_def)
    have b: "\<not> 0x80 + ?m < (if ?d = 0 then 0xA0 else 0x80)" "\<not> (if ?d = 13 then 0x9F else 0xBF) < 0x80 + ?m" using d(2,3) c(3) by auto
    show ?thesis using c(1) [symmetric] by (simp add: e u l b del: of_nat_add)
  next
    case 4
    let ?d = "c div 262144" and ?k = "c div 4096 mod 64" and ?m = "c div 64 mod 64"
    note c = base64_four [of c] base64_digit [of c] base64_digit [of "c div 64"] base64_digit [of "c div 4096"]
    have d: "?d < 5" "?d = 0 \<Longrightarrow> 16 \<le> ?k" "?d = 4 \<Longrightarrow> ?k < 16" using four_byte_digits [OF c(1,4,3,2) 4] by blast+
    then have u: "unat (of_nat (0xF0 + ?d) :: byte) = 0xF0 + ?d" by (intro unat_byte) simp
    have l: "lead_of (0xF0 + ?d) = Need 3 ?d (if ?d = 0 then 0x90 else 0x80) (if ?d = 4 then 0x8F else 0xBF)"
      using d(1) by (simp add: lead_of_def)
    have e: "utf8_char c = [of_nat (0xF0 + ?d), tail_byte (c div 4096), tail_byte (c div 64), tail_byte c]"
      using 4 by (simp add: utf8_char_def)
    have b: "\<not> 0x80 + ?k < (if ?d = 0 then 0x90 else 0x80)" "\<not> (if ?d = 4 then 0x8F else 0xBF) < 0x80 + ?k" using d(2,3) c(4) by auto
    show ?thesis using c(1) [symmetric] by (simp add: e u l b del: of_nat_add)
  qed
qed

lemma utf8_encode_simps [simp]:
  "utf8_encode [] = []" "utf8_encode (c # cs) = utf8_char (if scalar c then c else 0xFFFD) @ utf8_encode cs"
  "utf8_encode (cs @ ds) = utf8_encode cs @ utf8_encode ds"
  by (simp_all add: utf8_encode_def)

lemma decode_units_encode: "list_all scalar cs \<Longrightarrow> decode_units (utf8_encode cs @ bs) = cs @ decode_units bs"
  by (induction cs) (simp_all add: decode_char)

text \<open>The decoder drops a leading byte order mark: a leading U+FEFF of the text.\<close>

definition without_mark :: "nat list \<Rightarrow> nat list" where
  "without_mark cs = (case cs of c # r \<Rightarrow> if c = 0xFEFF then r else cs | [] \<Rightarrow> [])"

lemma mark_encoding: "byte_order_mark = utf8_char 0xFEFF"
  by (simp add: byte_order_mark_def utf8_char_def tail_byte_def)

lemma decode_encode: 
  assumes "list_all scalar cs" shows "utf8_decode (utf8_encode cs) = without_mark cs"
proof -
  have d: "decode_units (utf8_encode cs) = cs" using decode_units_encode [OF assms, of "[]"] by simp
  show ?thesis
  proof (cases "take 3 (utf8_encode cs) = byte_order_mark")
    case True
    then have e: "utf8_encode cs = byte_order_mark @ drop 3 (utf8_encode cs)" by (metis append_take_drop_id)
    have "decode_units (byte_order_mark @ drop 3 (utf8_encode cs)) = 0xFEFF # decode_units (drop 3 (utf8_encode cs))"
      unfolding mark_encoding by (rule decode_char) (simp add: scalar_def)
    then have "cs = 0xFEFF # decode_units (drop 3 (utf8_encode cs))" using d e by simp
    then have "without_mark cs = decode_units (drop 3 (utf8_encode cs))" unfolding without_mark_def by (cases cs) auto
    then show ?thesis using True by (simp add: utf8_decode_def)
  next
    case False
    have "cs = [] \<or> hd cs \<noteq> 0xFEFF"
    proof (rule ccontr)
      assume "\<not> ?thesis"
      then obtain r where "cs = 0xFEFF # r" by (cases cs) auto
      then show False using False by (simp add: mark_encoding scalar_def utf8_char_length)
    qed
    then have "without_mark cs = cs" by (cases cs) (auto simp: without_mark_def)
    with False d show ?thesis by (simp add: utf8_decode_def)
  qed
qed

end
