(* ===== verification/Output_Retention.thy ===== *)
theory Output_Retention
  imports Utf8
begin

text \<open>
  Bounded tool output (\<open>packages/util/output-retention/src/index.ts\<close>): \<open>ItemRetainer\<close> keeps the first units of a
  stream, \<open>TextRetainer\<close> a prefix and a suffix of a byte stream fed in chunks, cut at UTF-8 boundaries.
\<close>

section \<open>Results and budgets\<close>

datatype omitted = NoneOmitted | ExactOmitted int | UnknownOmitted

record push_decision =
  pd_kept :: bool
  pd_truncated :: bool

text \<open>\<open>assertBudget\<close>, which returns the budget it has checked.\<close>

definition assert_budget :: "js_number \<Rightarrow> string \<Rightarrow> string + int" where
  "assert_budget v name =
     (case v of Finite r \<Rightarrow> if of_int \<lfloor>r\<rfloor> = r \<and> 0 \<le> r then Inr \<lfloor>r\<rfloor> else Inl (name @ '' must be a non-negative integer'')
      | _ \<Rightarrow> Inl (name @ '' must be a non-negative integer''))"

lemma assert_budget_nonneg: "assert_budget v name = Inr n \<Longrightarrow> 0 \<le> n"
  by (auto simp: assert_budget_def split: js_number.splits if_splits)

section \<open>Items\<close>

record 'a item_retainer =
  ir_max :: int
  ir_items :: "'a list"
  ir_seen :: int
  ir_omitted :: int

definition new_item_retainer :: "js_number \<Rightarrow> string + 'a item_retainer" where
  "new_item_retainer max_items = rbind (assert_budget max_items ''maxItems'')
     (\<lambda>n. Inr \<lparr>ir_max = n, ir_items = [], ir_seen = 0, ir_omitted = 0\<rparr>)"

definition item_push :: "'a \<Rightarrow> 'a item_retainer \<Rightarrow> 'a item_retainer \<times> push_decision" where
  "item_push x r =
     (let r1 = r\<lparr>ir_seen := ir_seen r + 1\<rparr>
      in if int (length (ir_items r1)) < ir_max r1
         then (r1\<lparr>ir_items := ir_items r1 @ [x]\<rparr>, \<lparr>pd_kept = True, pd_truncated = False\<rparr>)
         else (r1\<lparr>ir_omitted := ir_omitted r1 + 1\<rparr>, \<lparr>pd_kept = False, pd_truncated = True\<rparr>))"

record 'a retained_items =
  ri_items :: "'a list"
  ri_truncated :: bool
  ri_seen :: int
  ri_kept :: int
  ri_omitted :: omitted

definition item_finish :: "'a item_retainer \<Rightarrow> 'a retained_items" where
  "item_finish r =
     (let truncated = 0 < ir_omitted r
      in \<lparr>ri_items = ir_items r, ri_truncated = truncated, ri_seen = ir_seen r, ri_kept = int (length (ir_items r)),
          ri_omitted = (if truncated then ExactOmitted (ir_omitted r) else NoneOmitted)\<rparr>)"

section \<open>Cuts at UTF-8 boundaries\<close>

text \<open>\<open>(b & 0xc0) === 0x80\<close>\<close>

definition continuation :: "byte \<Rightarrow> bool" where
  "continuation b \<longleftrightarrow> b AND 0xC0 = 0x80"

function scan_back :: "byte list \<Rightarrow> int \<Rightarrow> int" where
  "scan_back bs i = (if 0 \<le> i \<and> continuation (bs ! nat i) \<and> int (length bs) - i \<le> 3 then scan_back bs (i - 1) else i)"
  by pat_completeness auto
termination by (relation "measure (\<lambda>(bs, i). nat (i + 1))") auto

declare scan_back.simps [simp del]

definition expected_length :: "byte \<Rightarrow> int" where
  "expected_length b =
     (if b < 0x80 then 1 else if b < 0xE0 then 2 else if b < 0xF0 then 3 else if b < 0xF8 then 4 else 0)"

definition trim_trailing :: "byte list \<Rightarrow> byte list" where
  "trim_trailing bs =
     (let i = scan_back bs (int (length bs) - 1)
      in if i < 0 then bs
         else let expected = expected_length (bs ! nat i)
              in if expected = 0 then bs else if int (length bs) - i < expected then take (nat i) bs else bs)"

definition trim_leading :: "byte list \<Rightarrow> byte list" where
  "trim_leading bs = dropWhile continuation bs"

section \<open>Texts\<close>

datatype text_strategy = Head js_number | Tail js_number | HeadTail js_number js_number

record text_retainer =
  rt_prefix_cap :: int
  rt_suffix_cap :: int
  rt_prefix_chunks :: "byte list list"
  rt_prefix_held :: int
  rt_suffix_chunks :: "byte list list"
  rt_suffix_held :: int
  rt_total :: int

definition empty_retainer :: "int \<Rightarrow> int \<Rightarrow> text_retainer" where
  "empty_retainer p s = \<lparr>rt_prefix_cap = p, rt_suffix_cap = s, rt_prefix_chunks = [], rt_prefix_held = 0,
     rt_suffix_chunks = [], rt_suffix_held = 0, rt_total = 0\<rparr>"

fun new_text_retainer :: "text_strategy \<Rightarrow> string + text_retainer" where
  "new_text_retainer (Head n) = rbind (assert_budget n ''maxBytes'') (\<lambda>p. Inr (empty_retainer p 0))"
| "new_text_retainer (Tail n) = rbind (assert_budget n ''maxBytes'') (\<lambda>s. Inr (empty_retainer 0 s))"
| "new_text_retainer (HeadTail h t) = rbind (assert_budget h ''headBytes'')
     (\<lambda>p. rbind (assert_budget t ''tailBytes'') (\<lambda>s. Inr (empty_retainer p s)))"

datatype chunk = Bytes "byte list" | Text "nat list"

fun chunk_bytes :: "chunk \<Rightarrow> byte list" where
  "chunk_bytes (Bytes bs) = bs"
| "chunk_bytes (Text cs) = utf8_encode cs"

definition omitted_at :: "text_retainer \<Rightarrow> int \<Rightarrow> int" where
  "omitted_at r n = (let prefix_len = min n (rt_prefix_cap r); suffix_len = min (n - prefix_len) (rt_suffix_cap r)
     in n - prefix_len - suffix_len)"

definition push_prefix :: "byte list \<Rightarrow> text_retainer \<Rightarrow> text_retainer" where
  "push_prefix bs r =
     (let room = rt_prefix_cap r - rt_prefix_held r; n = max 0 (min room (int (length bs)))
      in if 0 < n then r\<lparr>rt_prefix_chunks := rt_prefix_chunks r @ [take (nat n) bs], rt_prefix_held := rt_prefix_held r + n\<rparr>
         else r)"

text \<open>The loop drops the chunks that have slid out of the window; the rest of the code trims the first one left.\<close>

fun slide :: "int \<Rightarrow> byte list list \<Rightarrow> int \<Rightarrow> byte list list \<times> int" where
  "slide cap [] held = ([], held)"
| "slide cap (c # cs) held =
     (if cap \<le> held - int (length c) then slide cap cs (held - int (length c)) else (c # cs, held))"

fun trim_head :: "int \<Rightarrow> byte list list \<times> int \<Rightarrow> byte list list \<times> int" where
  "trim_head cap ([], held) = ([], held)"
| "trim_head cap (c # cs, held) = (if cap < held then (drop (nat (held - cap)) c # cs, held - (held - cap)) else (c # cs, held))"

definition push_suffix :: "byte list \<Rightarrow> text_retainer \<Rightarrow> text_retainer" where
  "push_suffix bs r =
     (if 0 < rt_suffix_cap r
      then (case trim_head (rt_suffix_cap r) (slide (rt_suffix_cap r) (rt_suffix_chunks r @ [bs]) (rt_suffix_held r + int (length bs))) of
              (cs, held) \<Rightarrow> r\<lparr>rt_suffix_chunks := cs, rt_suffix_held := held\<rparr>)
      else r)"

definition text_push :: "chunk \<Rightarrow> text_retainer \<Rightarrow> text_retainer \<times> push_decision" where
  "text_push ch r =
     (let bs = chunk_bytes ch; before = rt_total r; r1 = r\<lparr>rt_total := rt_total r + int (length bs)\<rparr>;
          r2 = push_suffix bs (push_prefix bs r1);
          dropped = omitted_at r2 before < omitted_at r2 (rt_total r2)
      in (r2, \<lparr>pd_kept = (\<not> dropped), pd_truncated = (0 < omitted_at r2 (rt_total r2))\<rparr>))"

record retained_text =
  rx_text :: "nat list"
  rx_truncated :: bool
  rx_omitted :: omitted

text \<open>\<open>bytes.subarray(k)\<close>: a negative start counts from the end.\<close>

definition subarray_from :: "int \<Rightarrow> 'a list \<Rightarrow> 'a list" where
  "subarray_from k xs = drop (nat (if k < 0 then max 0 (int (length xs) + k) else k)) xs"

definition text_finish :: "text_retainer \<Rightarrow> retained_text" where
  "text_finish r =
     (let prefix_len = min (rt_total r) (rt_prefix_cap r); suffix_len = min (rt_total r - prefix_len) (rt_suffix_cap r);
          prefix = concat (rt_prefix_chunks r);
          suffix = subarray_from (rt_suffix_held r - suffix_len) (concat (rt_suffix_chunks r));
          budget = omitted_at r (rt_total r);
          (kept_prefix, kept_suffix) = (if 0 < budget then (trim_trailing prefix, trim_leading suffix) else (prefix, suffix));
          txt = (if 0 < budget then utf8_decode kept_prefix @ utf8_decode kept_suffix else utf8_decode (concat [prefix, suffix]));
          left_out = rt_total r - int (length kept_prefix) - int (length kept_suffix);
          truncated = 0 < left_out
      in \<lparr>rx_text = txt, rx_truncated = truncated, rx_omitted = (if truncated then ExactOmitted left_out else NoneOmitted)\<rparr>)"

section \<open>Notices\<close>

datatype budget_limit = Limit int | SplitLimit int int

record retention_notice =
  rn_scope :: string
  rn_strategy :: string
  rn_unit :: string
  rn_limit :: budget_limit
  rn_kept :: int
  rn_omitted :: omitted

fun describe_omitted :: "omitted \<Rightarrow> string \<Rightarrow> string" where
  "describe_omitted NoneOmitted u = []"
| "describe_omitted (ExactOmitted n) u = ''Omitted '' @ int_string n @ '' '' @ u @ ''.''"
| "describe_omitted UnknownOmitted u = ''More '' @ u @ '' were omitted.''"

definition format_retention_notice :: "retention_notice \<Rightarrow> (retention_notice \<Rightarrow> string) \<Rightarrow> string" where
  "format_retention_notice n recovery =
     join_with '' '' (filter (\<lambda>part. part \<noteq> []) [describe_omitted (rn_omitted n) (rn_unit n), recovery n])"


section \<open>Lemmas: the cuts\<close>

lemma continuation_bytes: "list_all (\<lambda>n. continuation (of_nat n) = (0x80 \<le> n \<and> n < 0xC0)) [0..<256]"
  by code_simp

lemma continuation_iff: "continuation b \<longleftrightarrow> 0x80 \<le> unat b \<and> unat b < 0xC0"
proof -
  have "unat b < 256" using unsigned_less [of b] by simp
  then have "unat b \<in> set [0..<256]" by simp
  then have "continuation (of_nat (unat b)) = (0x80 \<le> unat b \<and> unat b < 0xC0)"
    using continuation_bytes unfolding list_all_iff by (rule bspec [rotated])
  then show ?thesis by simp
qed

lemma continuation_tail [simp]: "continuation (tail_byte c)"
  by (simp add: continuation_iff)

lemma expected_unat:
  "expected_length b = (if unat b < 0x80 then 1 else if unat b < 0xE0 then 2 else if unat b < 0xF0 then 3 else if unat b < 0xF8 then 4 else 0)"
  by (simp add: expected_length_def word_less_nat_alt)

text \<open>An encoded character is its first byte, which tells the length, and continuation bytes.\<close>

lemma utf8_char_shape:
  assumes "scalar c"
  obtains b ts where "utf8_char c = b # ts" "\<not> continuation b" "list_all continuation ts" "expected_length b = int (Suc (length ts))" "length ts \<le> 3"
proof -
  have lead: "unat (of_nat n :: byte) = n" if "n < 256" for n using that by (rule unat_byte)
  consider "c < 0x80" | "0x80 \<le> c" "c < 0x800" | "0x800 \<le> c" "c < 0x10000" | "0x10000 \<le> c" "c < 0x110000"
    using assms by (force simp: scalar_def)
  then show ?thesis
  proof cases
    case 1
    then show ?thesis by (intro that [of "of_nat c" "[]"]) (simp_all add: utf8_char_def continuation_iff expected_unat lead)
  next
    case 2
    then have "c div 64 < 32" by (simp add: div_less_iff_less_mult)
    with 2 show ?thesis by (intro that [of "of_nat (0xC0 + c div 64)" "[tail_byte c]"])
        (simp_all add: utf8_char_def continuation_iff expected_unat lead del: of_nat_add)
  next
    case 3
    then have "c div 4096 < 16" by (simp add: div_less_iff_less_mult)
    with 3 show ?thesis by (intro that [of "of_nat (0xE0 + c div 4096)" "[tail_byte (c div 64), tail_byte c]"])
        (simp_all add: utf8_char_def continuation_iff expected_unat lead del: of_nat_add)
  next
    case 4
    then have "c div 262144 < 8" by (simp add: div_less_iff_less_mult)
    with 4 show ?thesis by (intro that [of "of_nat (0xF0 + c div 262144)" "[tail_byte (c div 4096), tail_byte (c div 64), tail_byte c]"])
        (simp_all add: utf8_char_def continuation_iff expected_unat lead del: of_nat_add)
  qed
qed

text \<open>The scan stops on the last byte that is no continuation.\<close>

lemma scan_back_stops:
  assumes b: "\<not> continuation b" and ts: "list_all continuation ts" "length ts \<le> 3" and k: "k \<le> length ts"
  shows "scan_back (xs @ b # ts) (int (length xs) + int k) = int (length xs)"
  using k
proof (induction k)
  case 0
  then show ?case using b by (simp add: scan_back.simps nth_append)
next
  case (Suc k)
  then have "continuation ((xs @ b # ts) ! nat (int (length xs) + int (Suc k)))"
    using ts(1) by (simp add: nth_append list_all_length nat_add_distrib)
  moreover have "int (length (xs @ b # ts)) - (int (length xs) + int (Suc k)) \<le> 3" using ts(2) by simp
  ultimately show ?case using Suc by (subst scan_back.simps) (simp add: algebra_simps)
qed

lemma trim_trailing_partial:
  assumes "\<not> continuation b" "list_all continuation ts" "length ts \<le> 3" "0 < expected_length b"
  shows "trim_trailing (xs @ b # ts) = (if int (Suc (length ts)) < expected_length b then xs else xs @ b # ts)"
proof -
  have "scan_back (xs @ b # ts) (int (length (xs @ b # ts)) - 1) = int (length xs)"
    using scan_back_stops [OF assms(1-3) order.refl, of xs] by (simp add: algebra_simps)
  then show ?thesis using assms(4) by (simp add: trim_trailing_def Let_def)
qed

lemma trim_trailing_encoded:
  assumes cs: "list_all scalar cs" shows "trim_trailing (utf8_encode cs) = utf8_encode cs"
proof (cases cs rule: rev_cases)
  case Nil
  then show ?thesis by (simp add: trim_trailing_def scan_back.simps)
next
  case (snoc ds d)
  then have d: "scalar d" using cs by simp
  then obtain b ts where "utf8_char d = b # ts" "\<not> continuation b" "list_all continuation ts" "expected_length b = int (Suc (length ts))" "length ts \<le> 3"
    by (rule utf8_char_shape)
  then show ?thesis using trim_trailing_partial [of b ts "utf8_encode ds"] d by (simp add: snoc)
qed

lemma trim_trailing_cut:
  assumes cs: "list_all scalar cs" and c: "scalar c" and m: "m < length (utf8_char c)"
  shows "trim_trailing (utf8_encode cs @ take m (utf8_char c)) = utf8_encode cs"
proof (cases m)
  case 0
  then show ?thesis using cs by (simp add: trim_trailing_encoded)
next
  case (Suc n)
  obtain b ts where "utf8_char c = b # ts" "\<not> continuation b" "list_all continuation ts" "expected_length b = int (Suc (length ts))" "length ts \<le> 3"
    by (rule utf8_char_shape [OF c])
  moreover from this have "list_all continuation (take n ts)" by (auto simp: list_all_iff dest: in_set_takeD)
  ultimately show ?thesis using m trim_trailing_partial [of b "take n ts" "utf8_encode cs"] by (simp add: Suc)
qed

lemma trim_leading_cut:
  assumes q: "list_all continuation q" and cs: "list_all scalar cs"
  shows "trim_leading (q @ utf8_encode cs) = utf8_encode cs"
proof -
  have "dropWhile continuation (utf8_encode cs) = utf8_encode cs"
  proof (cases cs)
    case (Cons c ds)
    then have c: "scalar c" using cs by simp
    then obtain b ts where "utf8_char c = b # ts" "\<not> continuation b" by (rule utf8_char_shape)
    then show ?thesis using c by (simp add: Cons)
  qed simp
  then show ?thesis using q by (simp add: trim_leading_def dropWhile_append list_all_iff)
qed

section \<open>Lemmas: the accumulator\<close>

lemma slide_suffix:
  assumes "slide cap cs held = (cs', h)" "held = int (length (concat cs))"
  shows "h = int (length (concat cs')) \<and> (\<exists>d. concat cs = d @ concat cs') \<and> (cap \<le> held \<longrightarrow> cap \<le> h) \<and>
     (held < cap \<longrightarrow> h = held) \<and> (case cs' of [] \<Rightarrow> True | c # _ \<Rightarrow> h - int (length c) < cap)"
  using assms
proof (induction cap cs held rule: slide.induct)
  case (2 cap c cs held)
  show ?case
  proof (cases "cap \<le> held - int (length c)")
    case True
    have "slide cap cs (held - int (length c)) = (cs', h)" "held - int (length c) = int (length (concat cs))" using "2.prems" True by simp_all
    from "2.IH" [OF True this] obtain d where "concat cs = d @ concat cs'" and rest: "h = int (length (concat cs'))" "cap \<le> h"
      "case cs' of [] \<Rightarrow> True | c # _ \<Rightarrow> h - int (length c) < cap"
      using True by blast
    then have "concat (c # cs) = (c @ d) @ concat cs'" by simp
    then show ?thesis using rest True by fastforce
  qed (use "2.prems" in auto)
qed auto

lemma trim_head_slide:
  assumes cap: "0 < cap" and t: "trim_head cap (slide cap cs (int (length (concat cs)))) = (cs', h)"
  shows "concat cs' = drop (length (concat cs) - nat cap) (concat cs) \<and> h = int (length (concat cs'))"
proof -
  obtain cs1 h1 where sl: "slide cap cs (int (length (concat cs))) = (cs1, h1)" by fastforce
  from slide_suffix [OF sl refl] obtain d where d: "concat cs = d @ concat cs1" and h1: "h1 = int (length (concat cs1))" and
    long: "cap \<le> int (length (concat cs)) \<Longrightarrow> cap \<le> h1" and short: "int (length (concat cs)) < cap \<Longrightarrow> h1 = int (length (concat cs))" and
    first: "case cs1 of [] \<Rightarrow> True | c # _ \<Rightarrow> h1 - int (length c) < cap"
    by blast
  show ?thesis
  proof (cases "cap < h1")
    case True
    then obtain c r where cs1: "cs1 = c # r" using h1 cap by (cases cs1) simp_all
    have n: "nat (h1 - cap) = length (concat cs1) - nat cap" using h1 cap by arith
    have "nat (h1 - cap) \<le> length c" using first cap by (simp add: cs1)
    then have "concat (drop (nat (h1 - cap)) c # r) = drop (nat (h1 - cap)) (concat cs1)" by (simp add: cs1)
    also have "\<dots> = drop (length (concat cs) - nat cap) (concat cs)" unfolding n using True h1 by (simp add: d)
    finally have kept: "concat (drop (nat (h1 - cap)) c # r) = drop (length (concat cs) - nat cap) (concat cs)" .
    have r: "cs' = drop (nat (h1 - cap)) c # r" "h = cap" using t True by (auto simp: sl cs1)
    have "int (length (drop (length (concat cs) - nat cap) (concat cs))) = cap" using True h1 cap by (simp add: d)
    with kept show ?thesis by (simp only: r)
  next
    case False
    then have eq: "cs' = cs1" "h = h1" using t by (cases cs1; simp add: sl)+
    have "length (concat cs) - nat cap = length d"
    proof (cases "cap \<le> int (length (concat cs))")
      case True
      then have "h1 = cap" using long False by simp
      then show ?thesis using h1 by (simp add: d)
    next
      case shorter: False
      then have "d = []" using short h1 by (simp add: d)
      then show ?thesis using shorter by simp
    qed
    then show ?thesis using h1 by (simp add: eq d)
  qed
qed

text \<open>After the stream \<open>S\<close> the two sides hold its first and its last bytes.\<close>

definition holds :: "int \<Rightarrow> int \<Rightarrow> byte list \<Rightarrow> text_retainer \<Rightarrow> bool" where
  "holds p s S r \<longleftrightarrow> rt_prefix_cap r = p \<and> rt_suffix_cap r = s \<and> 0 \<le> p \<and> 0 \<le> s \<and> rt_total r = int (length S) \<and>
     concat (rt_prefix_chunks r) = take (nat p) S \<and> rt_prefix_held r = int (length (take (nat p) S)) \<and>
     concat (rt_suffix_chunks r) = drop (length S - nat s) S \<and> rt_suffix_held r = int (length (drop (length S - nat s) S))"

lemma empty_holds: "0 \<le> p \<Longrightarrow> 0 \<le> s \<Longrightarrow> holds p s [] (empty_retainer p s)"
  by (simp add: holds_def empty_retainer_def)

lemma new_text_retainer_empty: "new_text_retainer st = Inr r \<Longrightarrow> \<exists>p s. r = empty_retainer p s \<and> 0 \<le> p \<and> 0 \<le> s"
  by (cases st) (auto simp: rbind_Inr_iff dest: assert_budget_nonneg)

lemma holds_caps: "holds p s S r \<Longrightarrow> rt_prefix_cap r = p \<and> rt_suffix_cap r = s \<and> 0 \<le> p \<and> 0 \<le> s"
  by (simp add: holds_def)

lemma push_prefix_holds:
  assumes h: "holds p s S r" and r1: "r1 = push_prefix bs (r\<lparr>rt_total := rt_total r + int (length bs)\<rparr>)"
  shows "rt_prefix_cap r1 = p" "rt_suffix_cap r1 = s" "rt_total r1 = int (length (S @ bs))"
    "concat (rt_prefix_chunks r1) = take (nat p) (S @ bs)" "rt_prefix_held r1 = int (length (take (nat p) (S @ bs)))"
    "rt_suffix_chunks r1 = rt_suffix_chunks r" "rt_suffix_held r1 = rt_suffix_held r"
proof -
  define n where "n = min (nat p - length S) (length bs)"
  have p: "0 \<le> p" using h by (simp add: holds_def)
  have n: "max 0 (min (p - int (length (take (nat p) S))) (int (length bs))) = int n" using p by (simp add: n_def)
  have bs: "take (nat p) (S @ bs) = take (nat p) S @ take n bs" by (simp add: n_def min_def)
  have len: "length (take n bs) = n" by (simp add: n_def)
  have f: "rt_prefix_cap r = p" "rt_prefix_held r = int (length (take (nat p) S))" "concat (rt_prefix_chunks r) = take (nat p) S"
    "rt_suffix_cap r = s" "rt_total r = int (length S)"
    using h by (simp_all add: holds_def)
  have e: "r1 = (let r' = r\<lparr>rt_total := int (length (S @ bs))\<rparr> in if 0 < n
      then r'\<lparr>rt_prefix_chunks := rt_prefix_chunks r @ [take n bs], rt_prefix_held := int (length (take (nat p) S)) + int n\<rparr> else r')"
    by (simp add: r1 push_prefix_def f n Let_def del: length_take)
  show "rt_prefix_cap r1 = p" "rt_suffix_cap r1 = s" "rt_total r1 = int (length (S @ bs))"
    "rt_suffix_chunks r1 = rt_suffix_chunks r" "rt_suffix_held r1 = rt_suffix_held r"
    by (simp_all add: e f Let_def)
  show "concat (rt_prefix_chunks r1) = take (nat p) (S @ bs)" unfolding bs by (cases "0 < n") (simp_all add: e f Let_def)
  have "length (take (nat p) (S @ bs)) = length (take (nat p) S) + n" unfolding bs by (simp only: length_append len)
  then show "rt_prefix_held r1 = int (length (take (nat p) (S @ bs)))" by (simp add: e f Let_def del: length_take)
qed

lemma window_extends: "drop (length (drop (length S - k) S @ bs) - k) (drop (length S - k) S @ bs) = drop (length (S @ bs) - k) (S @ bs)"
proof -
  have "drop (length S - k) S @ bs = drop (length S - k) (S @ bs)" by simp
  moreover have "length (drop (length S - k) (S @ bs)) - k + (length S - k) = length (S @ bs) - k" by simp
  ultimately show ?thesis by (simp only: drop_drop)
qed

lemma text_push_holds:
  assumes h: "holds p s S r" shows "holds p s (S @ chunk_bytes c) (fst (text_push c r))"
proof -
  define bs where "bs = chunk_bytes c"
  define r1 where "r1 = push_prefix bs (r\<lparr>rt_total := rt_total r + int (length bs)\<rparr>)"
  have f: "rt_prefix_cap r1 = p" "rt_suffix_cap r1 = s" "rt_total r1 = int (length (S @ bs))" "concat (rt_prefix_chunks r1) = take (nat p) (S @ bs)"
    "rt_prefix_held r1 = int (length (take (nat p) (S @ bs)))" "rt_suffix_chunks r1 = rt_suffix_chunks r" "rt_suffix_held r1 = rt_suffix_held r"
    by (rule push_prefix_holds [OF h r1_def])+
  have pushed: "fst (text_push c r) = push_suffix bs r1" by (simp add: text_push_def Let_def bs_def r1_def)
  have c: "0 \<le> p" "0 \<le> s" and w: "concat (rt_suffix_chunks r) = drop (length S - nat s) S" "rt_suffix_held r = int (length (drop (length S - nat s) S))"
    using h by (simp_all add: holds_def)
  have "holds p s (S @ bs) (push_suffix bs r1)"
  proof (cases "0 < s")
    case True
    have held: "rt_suffix_held r1 + int (length bs) = int (length (concat (rt_suffix_chunks r1 @ [bs])))" by (simp add: f w)
    obtain cs' k where t: "trim_head s (slide s (rt_suffix_chunks r1 @ [bs]) (rt_suffix_held r1 + int (length bs))) = (cs', k)" by fastforce
    then have "concat cs' = drop (length (concat (rt_suffix_chunks r1 @ [bs])) - nat s) (concat (rt_suffix_chunks r1 @ [bs])) \<and> k = int (length (concat cs'))"
      unfolding held by (rule trim_head_slide [OF True])
    moreover have "concat (rt_suffix_chunks r1 @ [bs]) = drop (length S - nat s) S @ bs" by (simp add: f w)
    ultimately have "concat cs' = drop (length (S @ bs) - nat s) (S @ bs)" "k = int (length (drop (length (S @ bs) - nat s) (S @ bs)))"
      by (simp_all only: window_extends)
    then show ?thesis using True c f(1-5) t by (simp add: push_suffix_def holds_def del: length_take length_drop length_append)
  next
    case False
    then have "s = 0" using c by simp
    then show ?thesis using c f w by (simp add: push_suffix_def holds_def)
  qed
  then show ?thesis by (simp add: pushed bs_def)
qed

abbreviation text_run :: "chunk list \<Rightarrow> text_retainer \<Rightarrow> text_retainer" where
  "text_run chunks r \<equiv> fold (\<lambda>c r. fst (text_push c r)) chunks r"

lemma text_run_holds:
  "holds p s S r \<Longrightarrow> holds p s (S @ concat (map chunk_bytes chunks)) (text_run chunks r)"
proof (induction chunks arbitrary: S r)
  case (Cons c chunks)
  show ?case using Cons.IH [OF text_push_holds [OF Cons.prems]] by simp
qed simp

section \<open>What is kept\<close>

text \<open>The result on the whole stream, for the two caps.\<close>

definition retain_whole :: "nat \<Rightarrow> nat \<Rightarrow> byte list \<Rightarrow> retained_text" where
  "retain_whole p s S =
     (if length S \<le> p + s then \<lparr>rx_text = utf8_decode S, rx_truncated = False, rx_omitted = NoneOmitted\<rparr>
      else let kp = trim_trailing (take p S); ks = trim_leading (drop (length S - s) S)
        in \<lparr>rx_text = utf8_decode kp @ utf8_decode ks, rx_truncated = True,
            rx_omitted = ExactOmitted (int (length S - length kp - length ks))\<rparr>)"

lemma trim_lengths: "length (trim_trailing bs) \<le> length bs" "length (trim_leading bs) \<le> length bs"
  by (simp_all add: trim_trailing_def trim_leading_def Let_def length_dropWhile_le)

lemma omitted_at_caps: "0 \<le> rt_prefix_cap r \<Longrightarrow> 0 \<le> rt_suffix_cap r \<Longrightarrow> 0 \<le> n \<Longrightarrow>
    omitted_at r n = max 0 (n - rt_prefix_cap r - rt_suffix_cap r)"
  by (simp add: omitted_at_def Let_def min_def max_def)

lemma text_finish_holds:
  assumes h: "holds p s S r" shows "text_finish r = retain_whole (nat p) (nat s) S"
proof -
  have c: "0 \<le> p" "0 \<le> s" and f: "rt_prefix_cap r = p" "rt_suffix_cap r = s" "rt_total r = int (length S)"
    "concat (rt_prefix_chunks r) = take (nat p) S" "concat (rt_suffix_chunks r) = drop (length S - nat s) S"
    "rt_suffix_held r = int (length S - (length S - nat s))"
    using h by (simp_all add: holds_def)
  have om: "omitted_at r (int (length S)) = max 0 (int (length S) - p - s)" using omitted_at_caps [of r "int (length S)"] c by (simp add: f)
  show ?thesis
  proof (cases "length S \<le> nat p + nat s")
    case True
    define A where "A = take (nat p) S"
    define B where "B = subarray_from (rt_suffix_held r - min (rt_total r - min (rt_total r) p) s) (concat (rt_suffix_chunks r))"
    have start: "rt_suffix_held r - min (rt_total r - min (rt_total r) p) s = int (min (length S) (nat p) - (length S - nat s))"
      unfolding f using True c by arith
    have "min (length S) (nat p) - (length S - nat s) + (length S - nat s) = min (length S) (nat p)" using True by simp
    then have "B = drop (min (length S) (nat p)) S" unfolding B_def start by (simp add: f(5) subarray_from_def)
    then have AB: "A @ B = S" by (simp add: A_def min_def)
    have zero: "omitted_at r (int (length S)) = 0" using True c by (simp add: om)
    have "int (length S) - int (length A) - int (length B) = 0" by (simp flip: AB)
    then have "text_finish r = \<lparr>rx_text = utf8_decode S, rx_truncated = False, rx_omitted = NoneOmitted\<rparr>"
      using AB by (simp add: text_finish_def Let_def zero f(1-4) B_def [symmetric, unfolded f(1-3)] A_def [symmetric])
    then show ?thesis using True by (simp add: retain_whole_def)
  next
    case False
    then have "int (length S - (length S - nat s)) - min (int (length S) - min (int (length S)) p) s = 0" using c by arith
    moreover have "0 < max 0 (int (length S) - p - s)" using False c by linarith
    moreover have k: "length (trim_trailing (take (nat p) S)) \<le> nat p" "length (trim_leading (drop (length S - nat s) S)) \<le> nat s"
      using trim_lengths(1) [of "take (nat p) S"] trim_lengths(2) [of "drop (length S - nat s) S"] by auto
    moreover have "int (length S) - int (length (trim_trailing (take (nat p) S))) - int (length (trim_leading (drop (length S - nat s) S))) =
       int (length S - length (trim_trailing (take (nat p) S)) - length (trim_leading (drop (length S - nat s) S)))"
      using False k by linarith
    moreover have "0 < length S - length (trim_trailing (take (nat p) S)) - length (trim_leading (drop (length S - nat s) S))"
      using False k by linarith
    ultimately show ?thesis using False by (simp add: text_finish_def f om subarray_from_def retain_whole_def Let_def)
  qed
qed

lemma text_push_decision:
  assumes h: "holds p s S r"
  shows "snd (text_push c r) = \<lparr>pd_kept = (chunk_bytes c = [] \<or> length (S @ chunk_bytes c) \<le> nat p + nat s),
    pd_truncated = (\<not> length (S @ chunk_bytes c) \<le> nat p + nat s)\<rparr>"
proof -
  note h' = text_push_holds [OF h, of c]
  have c: "0 \<le> p" "0 \<le> s" "rt_total r = int (length S)" using h by (simp_all add: holds_def)
  define r' where "r' = fst (text_push c r)"
  have f: "rt_prefix_cap r' = p" "rt_suffix_cap r' = s" "rt_total r' = int (length (S @ chunk_bytes c))" using h' by (simp_all add: holds_def r'_def)
  have "snd (text_push c r) = \<lparr>pd_kept = (\<not> omitted_at r' (int (length S)) < omitted_at r' (rt_total r')), pd_truncated = (0 < omitted_at r' (rt_total r'))\<rparr>"
    by (simp add: text_push_def Let_def r'_def c(3))
  also have "\<dots> = \<lparr>pd_kept = (chunk_bytes c = [] \<or> length (S @ chunk_bytes c) \<le> nat p + nat s),
    pd_truncated = (\<not> length (S @ chunk_bytes c) \<le> nat p + nat s)\<rparr>"
    using c f by (auto simp: omitted_at_caps)
  finally show ?thesis .
qed

text \<open>
  C19: Whatever the chunks, the retainer ends with the result of cutting the whole stream at once, never holds more than its
  two caps, and the truncation a push reports is that of the result up to there.
\<close>

theorem retention_reads_the_whole_stream:
  assumes new: "new_text_retainer strategy = Inr r0" and p: "p = nat (rt_prefix_cap r0)" and s: "s = nat (rt_suffix_cap r0)"
    and S: "S = concat (map chunk_bytes chunks)"
  shows "text_finish (text_run chunks r0) = retain_whole p s S \<and>
     length (concat (rt_prefix_chunks (text_run chunks r0))) \<le> p \<and> length (concat (rt_suffix_chunks (text_run chunks r0))) \<le> s \<and>
     pd_truncated (snd (text_push c (text_run chunks r0))) = rx_truncated (text_finish (text_run (chunks @ [c]) r0))"
proof -
  obtain p' s' where e: "r0 = empty_retainer p' s'" "0 \<le> p'" "0 \<le> s'" using new_text_retainer_empty [OF new] by blast
  have h: "holds p' s' S (text_run chunks r0)" using text_run_holds [OF empty_holds [OF e(2,3)], of chunks] by (simp add: e(1) S)
  have ps: "p = nat p'" "s = nat s'" by (simp_all add: p s e(1) empty_retainer_def)
  have "text_finish (text_run (chunks @ [c]) r0) = retain_whole p s (S @ chunk_bytes c)"
    using text_finish_holds [OF text_push_holds [OF h, of c]] by (simp add: ps)
  moreover have "rx_truncated (retain_whole p s (S @ chunk_bytes c)) = (\<not> length (S @ chunk_bytes c) \<le> p + s)"
    by (simp add: retain_whole_def Let_def)
  ultimately show ?thesis using text_finish_holds [OF h] text_push_decision [OF h, of c] h by (simp add: ps holds_def)
qed

text \<open>Cutting an encoded text: whole characters and a part of one.\<close>

lemma take_encoded:
  assumes "list_all scalar cs" "n \<le> length (utf8_encode cs)"
  shows "\<exists>k m. k \<le> length cs \<and> take n (utf8_encode cs) = utf8_encode (take k cs) @ (if k < length cs then take m (utf8_char (cs ! k)) else []) \<and>
    (k < length cs \<longrightarrow> m < length (utf8_char (cs ! k)))"
  using assms
proof (induction cs arbitrary: n)
  case (Cons c cs)
  show ?case
  proof (cases "n < length (utf8_char c)")
    case True
    then show ?thesis using Cons.prems by (intro exI [of _ 0] exI [of _ n]) simp
  next
    case False
    then have "n - length (utf8_char c) \<le> length (utf8_encode cs)" "list_all scalar cs" using Cons.prems by simp_all
    from Cons.IH [OF this(2,1)] obtain k m where "k \<le> length cs"
      "take (n - length (utf8_char c)) (utf8_encode cs) = utf8_encode (take k cs) @ (if k < length cs then take m (utf8_char (cs ! k)) else [])"
      "k < length cs \<longrightarrow> m < length (utf8_char (cs ! k))"
      by blast
    then show ?thesis using False Cons.prems by (intro exI [of _ "Suc k"] exI [of _ m]) simp
  qed
qed simp

lemma drop_encoded:
  assumes "list_all scalar cs" "n \<le> length (utf8_encode cs)"
  shows "\<exists>j q. j \<le> length cs \<and> drop n (utf8_encode cs) = q @ utf8_encode (drop j cs) \<and> list_all continuation q \<and>
    (q = [] \<or> 0 < j \<and> length q < length (utf8_char (cs ! (j - 1))))"
  using assms
proof (induction cs arbitrary: n)
  case (Cons c cs)
  show ?case
  proof (cases "n < length (utf8_char c)")
    case True
    show ?thesis
    proof (cases n)
      case 0
      then show ?thesis by (intro exI [of _ 0] exI [of _ "[]"]) simp
    next
      case (Suc l)
      have c: "scalar c" using Cons.prems by simp
      obtain b ts where u: "utf8_char c = b # ts" "list_all continuation ts" by (rule utf8_char_shape [OF c])
      then have "list_all continuation (drop l ts)" by (auto simp: list_all_iff dest: in_set_dropD)
      then show ?thesis using True c u(1) by (intro exI [of _ 1] exI [of _ "drop n (utf8_char c)"]) (simp add: Suc)
    qed
  next
    case False
    then have "n - length (utf8_char c) \<le> length (utf8_encode cs)" "list_all scalar cs" using Cons.prems by simp_all
    from Cons.IH [OF this(2,1)] obtain j q where j: "j \<le> length cs" "drop (n - length (utf8_char c)) (utf8_encode cs) = q @ utf8_encode (drop j cs)"
      "list_all continuation q" "q = [] \<or> 0 < j \<and> length q < length (utf8_char (cs ! (j - 1)))"
      by blast
    then show ?thesis using False Cons.prems by (intro exI [of _ "Suc j"] exI [of _ q]) (auto simp: nth_Cons')
  qed
qed simp

lemma list_all_take_drop: "list_all P xs \<Longrightarrow> list_all P (take k xs) \<and> list_all P (drop k xs)"
  by (auto simp: list_all_iff dest: in_set_takeD in_set_dropD)

lemma encoded_split: "length (utf8_encode cs) = length (utf8_encode (take k cs)) + length (utf8_encode (drop k cs))"
  by (metis append_take_drop_id length_append utf8_encode_simps(3))

text \<open>The first \<open>p\<close> bytes keep a longest run of whole characters, and so do the last \<open>s\<close>.\<close>

lemma trimmed_prefix:
  assumes cs: "list_all scalar cs" and p: "p \<le> length (utf8_encode cs)"
  obtains k where "k \<le> length cs" "trim_trailing (take p (utf8_encode cs)) = utf8_encode (take k cs)" "length (utf8_encode (take k cs)) \<le> p"
    "k < length cs \<longrightarrow> p < length (utf8_encode (take (Suc k) cs))"
proof -
  have "\<exists>k m. k \<le> length cs \<and> take p (utf8_encode cs) = utf8_encode (take k cs) @ (if k < length cs then take m (utf8_char (cs ! k)) else []) \<and>
    (k < length cs \<longrightarrow> m < length (utf8_char (cs ! k)))"
    by (rule take_encoded [OF cs p])
  then obtain k m where k: "k \<le> length cs" and t: "take p (utf8_encode cs) = utf8_encode (take k cs) @ (if k < length cs then take m (utf8_char (cs ! k)) else [])"
    and m: "k < length cs \<longrightarrow> m < length (utf8_char (cs ! k))"
    by blast
  have sc: "list_all scalar (take k cs)" using list_all_take_drop [OF cs] by blast
  have len: "p = length (utf8_encode (take k cs)) + length (if k < length cs then take m (utf8_char (cs ! k)) else [])"
    using arg_cong [OF t, of length] p by (simp only: length_append) simp
  show ?thesis
  proof (cases "k < length cs")
    case True
    have c: "scalar (cs ! k)" using cs True by (simp add: list_all_length)
    have "take (Suc k) cs = take k cs @ [cs ! k]" using True by (rule take_Suc_conv_app_nth)
    then have "p < length (utf8_encode (take (Suc k) cs))" using len m True c by simp
    moreover have "trim_trailing (take p (utf8_encode cs)) = utf8_encode (take k cs)"
      using trim_trailing_cut [OF sc c] m True by (simp add: t)
    ultimately show ?thesis using k len True by (intro that [of k]) simp_all
  next
    case False
    then have "trim_trailing (take p (utf8_encode cs)) = utf8_encode (take k cs)" using trim_trailing_encoded [OF sc] by (simp add: t)
    then show ?thesis using k len False by (intro that [of k]) simp_all
  qed
qed

lemma trimmed_suffix:
  assumes cs: "list_all scalar cs" and s: "s \<le> length (utf8_encode cs)"
  obtains j where "j \<le> length cs" "trim_leading (drop (length (utf8_encode cs) - s) (utf8_encode cs)) = utf8_encode (drop j cs)"
    "length (utf8_encode (drop j cs)) \<le> s" "0 < j \<longrightarrow> s < length (utf8_encode (drop (j - 1) cs))"
proof -
  let ?n = "length (utf8_encode cs) - s"
  have "\<exists>j q. j \<le> length cs \<and> drop ?n (utf8_encode cs) = q @ utf8_encode (drop j cs) \<and> list_all continuation q \<and>
    (q = [] \<or> 0 < j \<and> length q < length (utf8_char (cs ! (j - 1))))"
    by (rule drop_encoded [OF cs]) simp
  then obtain j q where j: "j \<le> length cs" and d: "drop ?n (utf8_encode cs) = q @ utf8_encode (drop j cs)" and q: "list_all continuation q"
    and short: "q = [] \<or> 0 < j \<and> length q < length (utf8_char (cs ! (j - 1)))"
    by blast
  have len: "s = length q + length (utf8_encode (drop j cs))" using arg_cong [OF d, of length] s by simp
  have "list_all scalar (drop j cs)" using list_all_take_drop [OF cs] by blast
  then have t: "trim_leading (drop ?n (utf8_encode cs)) = utf8_encode (drop j cs)" using trim_leading_cut [OF q] by (simp add: d)
  have "s < length (utf8_encode (drop (j - 1) cs))" if "0 < j"
  proof -
    have "drop (j - 1) cs = cs ! (j - 1) # drop j cs" using that j by (metis Suc_pred' Cons_nth_drop_Suc Suc_le_lessD)
    moreover have "scalar (cs ! (j - 1))" using cs that j by (simp add: list_all_length)
    moreover have "length q < length (utf8_char (cs ! (j - 1)))" using short by auto
    ultimately show ?thesis using len by simp
  qed
  then show ?thesis using j t len by (intro that [of j]) simp_all
qed

text \<open>
  C36: Of a UTF-8 stream the retainer keeps the longest prefix and suffix of whole characters within the caps, or everything
  when it fits; the omitted count is the exact number of bytes in between. Each kept part loses a byte order mark it starts with.
\<close>

theorem kept_text_is_whole_characters:
  assumes new: "new_text_retainer strategy = Inr r0" and p: "p = nat (rt_prefix_cap r0)" and s: "s = nat (rt_suffix_cap r0)"
    and S: "concat (map chunk_bytes chunks) = utf8_encode cs" "list_all scalar cs"
  shows "if length (utf8_encode cs) \<le> p + s
    then rx_text (text_finish (text_run chunks r0)) = without_mark cs \<and> rx_omitted (text_finish (text_run chunks r0)) = NoneOmitted
    else (\<exists>k j. k \<le> j \<and> j \<le> length cs \<and>
      rx_text (text_finish (text_run chunks r0)) = without_mark (take k cs) @ without_mark (drop j cs) \<and>
      rx_omitted (text_finish (text_run chunks r0)) = ExactOmitted (int (length (utf8_encode (take (j - k) (drop k cs))))) \<and>
      length (utf8_encode (take k cs)) \<le> p \<and> p < length (utf8_encode (take (Suc k) cs)) \<and>
      length (utf8_encode (drop j cs)) \<le> s \<and> s < length (utf8_encode (drop (j - 1) cs)))"
proof -
  obtain p' s' where e: "r0 = empty_retainer p' s'" "0 \<le> p'" "0 \<le> s'" using new_text_retainer_empty [OF new] by blast
  have ps: "p = nat p'" "s = nat s'" by (simp_all add: p s e(1) empty_retainer_def)
  have fin: "text_finish (text_run chunks r0) = retain_whole p s (utf8_encode cs)"
    using text_finish_holds [OF text_run_holds [OF empty_holds [OF e(2,3)], of chunks]] by (simp add: e(1) ps S)
  show ?thesis
  proof (cases "length (utf8_encode cs) \<le> p + s")
    case True
    then show ?thesis using decode_encode [OF S(2)] by (simp add: fin retain_whole_def)
  next
    case False
    obtain k where k: "k \<le> length cs" "trim_trailing (take p (utf8_encode cs)) = utf8_encode (take k cs)" "length (utf8_encode (take k cs)) \<le> p"
      "k < length cs \<longrightarrow> p < length (utf8_encode (take (Suc k) cs))"
      using trimmed_prefix [OF S(2), of p] False by auto
    obtain j where j: "j \<le> length cs" "trim_leading (drop (length (utf8_encode cs) - s) (utf8_encode cs)) = utf8_encode (drop j cs)"
      "length (utf8_encode (drop j cs)) \<le> s" "0 < j \<longrightarrow> s < length (utf8_encode (drop (j - 1) cs))"
      using trimmed_suffix [OF S(2), of s] False by auto
    have kj: "k \<le> j"
    proof (rule ccontr)
      assume "\<not> k \<le> j"
      then have "length (utf8_encode (take j cs)) \<le> length (utf8_encode (take k cs))"
        using encoded_split [of "take k cs" j] by (simp add: min_def)
      then show False using encoded_split [of cs j] k(3) j(3) False by linarith
    qed
    have len: "length (utf8_encode cs) = length (utf8_encode (take k cs)) + length (utf8_encode (take (j - k) (drop k cs))) + length (utf8_encode (drop j cs))"
      using encoded_split [of cs k] encoded_split [of "drop k cs" "j - k"] kj by simp
    have ends: "k < length cs" "0 < j" using False k(1,3) j(3) by (auto intro: ccontr)
    have dec: "utf8_decode (utf8_encode (take k cs)) = without_mark (take k cs)" "utf8_decode (utf8_encode (drop j cs)) = without_mark (drop j cs)"
      using list_all_take_drop [OF S(2)] by (auto intro: decode_encode)
    have "retain_whole p s (utf8_encode cs) = \<lparr>rx_text = without_mark (take k cs) @ without_mark (drop j cs), rx_truncated = True,
        rx_omitted = ExactOmitted (int (length (utf8_encode cs) - length (utf8_encode (take k cs)) - length (utf8_encode (drop j cs))))\<rparr>"
      using False by (simp add: retain_whole_def k(2) j(2) dec)
    also have "length (utf8_encode cs) - length (utf8_encode (take k cs)) - length (utf8_encode (drop j cs)) = length (utf8_encode (take (j - k) (drop k cs)))"
      using len by simp
    finally have "text_finish (text_run chunks r0) = \<lparr>rx_text = without_mark (take k cs) @ without_mark (drop j cs), rx_truncated = True,
        rx_omitted = ExactOmitted (int (length (utf8_encode (take (j - k) (drop k cs)))))\<rparr>"
      by (simp only: fin)
    then show ?thesis using False kj j k ends by auto
  qed
qed

section \<open>Items\<close>

abbreviation item_run :: "'a list \<Rightarrow> 'a item_retainer \<Rightarrow> 'a item_retainer" where
  "item_run xs r \<equiv> fold (\<lambda>x r. fst (item_push x r)) xs r"

text \<open>
  The item retainer keeps the first units, in order, and counts the others exactly.
\<close>

theorem item_retainer_keeps_the_first:
  assumes new: "new_item_retainer max_items = Inr r0" and n: "n = nat (ir_max r0)"
  shows "item_finish (item_run xs r0) = \<lparr>ri_items = take n xs, ri_truncated = (n < length xs), ri_seen = int (length xs),
    ri_kept = int (min n (length xs)), ri_omitted = (if n < length xs then ExactOmitted (int (length xs - n)) else NoneOmitted)\<rparr>"
proof -
  obtain m where m: "0 \<le> m" "r0 = \<lparr>ir_max = m, ir_items = [], ir_seen = 0, ir_omitted = 0\<rparr>"
    using new by (auto simp: new_item_retainer_def rbind_Inr_iff dest: assert_budget_nonneg)
  have "item_run xs r0 = \<lparr>ir_max = m, ir_items = take (nat m) xs, ir_seen = int (length xs), ir_omitted = int (length xs - nat m)\<rparr>"
  proof (induction xs rule: rev_induct)
    case (snoc x xs)
    have "int (length (take (nat m) xs)) < m \<longleftrightarrow> length xs < nat m" using m(1) by auto
    then show ?case using snoc m(1) by (auto simp: item_push_def Let_def)
  qed (simp add: m(2))
  then show ?thesis by (auto simp: item_finish_def Let_def n m(2) min_def)
qed

section \<open>Samples\<close>

definition retention_stream :: "chunk list" where
  "retention_stream = [Text [0x61, 0xE9], Bytes [0xE2, 0x82], Bytes [0xAC, 0x62], Text [0xFEFF, 0x63]]"

definition sample_text :: "nat list" where
  "sample_text = [0x61, 0xE9, 0x20AC, 0x62, 0xFEFF, 0x63]"

lemma retention_stream_encodes: "concat (map chunk_bytes retention_stream) = utf8_encode sample_text" "list_all scalar sample_text"
  by (simp_all add: retention_stream_def sample_text_def utf8_char_def tail_byte_def scalar_def)

lemma sample_retainer: "new_text_retainer (HeadTail (Finite 2) (Finite 5)) = Inr (empty_retainer 2 5)"
  by (simp add: assert_budget_def)

theorem retention_reads_the_whole_stream_witness:
  "text_finish (text_run retention_stream (empty_retainer 2 5)) = retain_whole 2 5 (concat (map chunk_bytes retention_stream)) \<and>
   pd_truncated (snd (text_push (Bytes []) (text_run retention_stream (empty_retainer 2 5)))) =
     rx_truncated (text_finish (text_run (retention_stream @ [Bytes []]) (empty_retainer 2 5)))"
  using retention_reads_the_whole_stream [OF sample_retainer refl refl refl, of retention_stream "Bytes []"] by (simp add: empty_retainer_def)

theorem kept_text_is_whole_characters_witness:
  "\<exists>k j. k \<le> j \<and> rx_text (text_finish (text_run retention_stream (empty_retainer 2 5))) = without_mark (take k sample_text) @ without_mark (drop j sample_text)"
proof -
  have "\<not> length (utf8_encode sample_text) \<le> nat 2 + nat 5" by (simp add: sample_text_def utf8_char_def scalar_def)
  then show ?thesis using kept_text_is_whole_characters [OF sample_retainer refl refl retention_stream_encodes] by (auto simp: empty_retainer_def)
qed

theorem item_retainer_keeps_the_first_witness:
  "ri_items (item_finish (item_run [''a'', ''b'', ''c''] \<lparr>ir_max = 2, ir_items = [], ir_seen = 0, ir_omitted = 0\<rparr>)) = take 2 [''a'', ''b'', ''c'']"
proof -
  have "new_item_retainer (Finite 2) = Inr \<lparr>ir_max = 2, ir_items = [], ir_seen = 0, ir_omitted = 0\<rparr>"
    by (simp add: new_item_retainer_def assert_budget_def)
  from item_retainer_keeps_the_first [OF this refl, of "[''a'', ''b'', ''c'']"] show ?thesis by simp
qed

text \<open>A byte order mark at the start of the kept suffix is lost and not counted as omitted.\<close>

lemma suffix_mark_is_dropped:
  "text_finish (text_run retention_stream (empty_retainer 2 4)) = \<lparr>rx_text = [0x61, 0x63], rx_truncated = True, rx_omitted = ExactOmitted 6\<rparr>"
proof -
  have "text_finish (text_run retention_stream (empty_retainer 2 4)) = retain_whole 2 4 (utf8_encode sample_text)"
    using text_finish_holds [OF text_run_holds [OF empty_holds [of 2 4]], of retention_stream] by (simp add: retention_stream_encodes)
  also have "utf8_encode sample_text = [0x61, 0xC3, 0xA9, 0xE2, 0x82, 0xAC, 0x62, 0xEF, 0xBB, 0xBF, 0x63]"
    by (simp add: sample_text_def utf8_char_def tail_byte_def scalar_def)
  finally show ?thesis
    by (simp add: retain_whole_def trim_trailing_def trim_leading_def scan_back.simps continuation_iff expected_unat utf8_decode_def byte_order_mark_def lead_of_def)
qed

end
