(* ===== verification/Js_Double.thy ===== *)
theory Js_Double
  imports Prelude "HOL-Library.Log_Nat"
begin

text \<open>
  The rounding of a real result to a JavaScript number: binary64, to nearest, ties to even. The value of a number is
  kept as a rational; results beyond the largest finite double are not rounded to infinity here, the places that use
  the rounding cap them.
\<close>

definition round_half_even :: "rat \<Rightarrow> int" where
  "round_half_even x = (let f = \<lfloor>x\<rfloor>; d = x - of_int f in
     if d < 1 / 2 then f else if 1 / 2 < d then f + 1 else if even f then f else f + 1)"

text \<open>The exponent of a positive number: \<open>2 powi binade x \<le> x < 2 powi (binade x + 1)\<close>.\<close>

definition binade :: "rat \<Rightarrow> int" where
  "binade x = (case quotient_of x of (n, d) \<Rightarrow>
     let e = int (floorlog 2 (nat n)) - int (floorlog 2 (nat d)) in if 2 powi e \<le> x then e else e - 1)"

text \<open>The distance of neighbouring doubles around a number; below the normal range it no longer shrinks.\<close>

definition spacing :: "rat \<Rightarrow> rat" where
  "spacing x = 2 powi (max (binade x) (-1022) - 52)"

definition js_double :: "rat \<Rightarrow> rat" where
  "js_double x =
     (if x = 0 then 0 else if 0 < x then of_int (round_half_even (x / spacing x)) * spacing x
      else - (of_int (round_half_even (- x / spacing (- x))) * spacing (- x)))"

lemma round_half_even_nonneg: "0 \<le> x \<Longrightarrow> 0 \<le> round_half_even x"
  by (auto simp: round_half_even_def Let_def zero_le_floor)

lemma round_half_even_int [simp]: "round_half_even (of_int n) = n"
  by (simp add: round_half_even_def Let_def)

lemma spacing_pos: "0 < spacing x"
  by (simp add: spacing_def)

lemma js_double_zero [simp]: "js_double 0 = 0"
  by (simp add: js_double_def)

lemma js_double_nonneg: "0 \<le> x \<Longrightarrow> 0 \<le> js_double x"
  using spacing_pos [of x] by (auto simp: js_double_def intro!: mult_nonneg_nonneg round_half_even_nonneg)

lemma floorlog_samples: "floorlog 2 (Suc 0) = 1" "floorlog 2 2 = 2" "floorlog 2 10 = 4" "floorlog 2 500 = 9" "floorlog 2 100 = 7"
  by (simp_all add: compute_floorlog)

lemma js_double_tenth: "js_double (1 / 10) = 3602879701896397 / 2 ^ 55"
proof -
  have "quotient_of (1 / 10) = (1, 10)" by code_simp
  then have "binade (1 / 10) = -4" by (simp add: binade_def floorlog_samples power_int_def power_one_over)
  then have s: "spacing (1 / 10) = 1 / 2 ^ 56" by (simp add: spacing_def power_int_def power_one_over divide_simps)
  have "\<lfloor>36028797018963968 / 5 :: rat\<rfloor> = 7205759403792793" by (simp add: floor_eq_iff)
  then show ?thesis by (simp add: js_double_def s round_half_even_def Let_def)
qed

text \<open>The exponent is the right one, so a rounded number is at most half a step away.\<close>

lemma floorlog_power: "0 < k \<Longrightarrow> 2 powi (int (floorlog 2 (nat k)) - 1) \<le> (of_int k :: rat) \<and> (of_int k :: rat) < 2 powi int (floorlog 2 (nat k))"
proof -
  assume k: "0 < k"
  let ?f = "floorlog 2 (nat k)"
  have b: "2 ^ (?f - 1) \<le> nat k" "nat k < 2 ^ ?f" using floorlog_bounds [of "nat k" 2] k by auto
  have f: "int ?f - 1 = int (?f - 1)" using k by (simp add: floorlog_def)
  have "(2 :: int) ^ (?f - 1) \<le> k" "k < 2 ^ ?f" using b k by (simp_all add: nat_le_iff zless_nat_eq_int_zless nat_less_iff le_nat_iff)
  then have "(of_int (2 ^ (?f - 1)) :: rat) \<le> of_int k" "(of_int k :: rat) < of_int (2 ^ ?f)" by (simp_all only: of_int_le_iff of_int_less_iff)
  then show ?thesis by (simp add: f)
qed

lemma binade_bounds:
  assumes "0 < x" shows "2 powi (binade x) \<le> x" "x < 2 powi (binade x + 1)"
proof -
  obtain n d where q: "quotient_of x = (n, d)" by fastforce
  have d: "0 < d" using quotient_of_denom_pos [OF q] .
  have x: "x = of_int n / of_int d" using quotient_of_div [OF q] .
  have n: "0 < n" using assms d by (simp add: x zero_less_divide_iff)
  define a b where "a = int (floorlog 2 (nat n))" and "b = int (floorlog 2 (nat d))"
  have bn: "2 powi (a - 1) \<le> (of_int n :: rat)" "(of_int n :: rat) < 2 powi a" and bd: "2 powi (b - 1) \<le> (of_int d :: rat)" "(of_int d :: rat) < 2 powi b"
    using floorlog_power [OF n] floorlog_power [OF d] by (simp_all add: a_def b_def)
  have "x < 2 powi a / 2 powi (b - 1)" unfolding x using bn bd d n by (intro frac_less) simp_all
  moreover have "a - (b - 1) = a - b + 1" by simp
  ultimately have up: "x < 2 powi (a - b + 1)" by (simp add: power_int_diff [symmetric])
  have "2 powi (a - 1) / 2 powi b < x" unfolding x using bn bd d by (intro frac_less2) simp_all
  then have lo: "2 powi (a - b - 1) < x" by (simp add: power_int_diff [symmetric] algebra_simps)
  have e: "binade x = (if 2 powi (a - b) \<le> x then a - b else a - b - 1)" by (simp add: binade_def q Let_def a_def b_def)
  show "2 powi (binade x) \<le> x" using lo by (simp add: e)
  show "x < 2 powi (binade x + 1)" using up by (simp add: e)
qed

lemma round_half_even_near: "\<bar>of_int (round_half_even x) - x\<bar> \<le> 1 / 2"
  by (auto simp: round_half_even_def Let_def abs_if) linarith+

lemma js_double_near: 
  assumes "0 < x" shows "\<bar>js_double x - x\<bar> \<le> spacing x / 2"
proof -
  have "\<bar>js_double x - x\<bar> = \<bar>of_int (round_half_even (x / spacing x)) - x / spacing x\<bar> * spacing x"
  proof -
    have "(of_int (round_half_even (x / spacing x)) - x / spacing x) * spacing x = js_double x - x"
      using assms spacing_pos [of x] by (simp add: js_double_def left_diff_distrib)
    then show ?thesis using spacing_pos [of x] by (metis abs_mult abs_of_pos)
  qed
  also have "\<dots> \<le> 1 / 2 * spacing x" using spacing_pos [of x] by (intro mult_right_mono round_half_even_near) simp
  finally show ?thesis by simp
qed

end
