(* ===== verification/Retry_Policy.thy ===== *)
theory Retry_Policy
  imports Js_Double
begin

text \<open>
  The retry policy of a provider route (\<open>packages/llm/llm/src/retry-policy.ts\<close>): its configuration, the resolution of
  defaults, and the local delay (\<open>packages/llm/llm-retry/src/index.ts\<close>). A configuration is given by the keys of the
  object and the values of the known ones.
\<close>

section \<open>Configurations\<close>

record backoff_config =
  bc_keys :: "string list"
  bc_initial :: "js_number option"
  bc_max :: "js_number option"
  bc_jitter :: "js_number option"

record policy_config =
  pc_keys :: "string list"
  pc_mode :: string
  pc_max_retries :: "js_number option"
  pc_codes :: "string list option"
  pc_backoff :: "backoff_config option"

record backoff =
  bo_initial :: rat
  bo_max :: rat
  bo_jitter :: rat

datatype retry_policy = NormalPolicy int "string list" backoff | AlwaysPolicy backoff

datatype policy_error =
    UnknownKey string string
  | BadInitialDelay string
  | BadMaxDelay string
  | InitialAboveMax string
  | BadJitter string
  | BadMaxRetries string
  | NoCodes string
  | EmptyCode string
  | RepeatedCode string
  | BadMode string

section \<open>Resolution\<close>

definition MAX_TIMER_DELAY_MS :: rat where
  "MAX_TIMER_DELAY_MS = 2147483647"

definition DEFAULT_MAX_RETRIES :: js_number where
  "DEFAULT_MAX_RETRIES = Finite 5"

definition DEFAULT_RETRYABLE_CODES :: "string list" where
  "DEFAULT_RETRYABLE_CODES = [''EMPTY_RESPONSE'', ''RATE_LIMIT'', ''SERVER'', ''TIMEOUT'', ''TRANSPORT'']"

fun validate_keys :: "string list \<Rightarrow> string list \<Rightarrow> string \<Rightarrow> policy_error + unit" where
  "validate_keys [] allowed path = Inr ()"
| "validate_keys (k # ks) allowed path = (if k \<notin> set allowed then Inl (UnknownKey path k) else validate_keys ks allowed path)"

definition BACKOFF_KEYS :: "string list" where
  "BACKOFF_KEYS = [''initialDelayMs'', ''maxDelayMs'', ''jitterRatio'']"

definition POLICY_KEYS :: "string list" where
  "POLICY_KEYS = [''mode'', ''maxRetries'', ''retryableCodes'', ''backoff'']"

text \<open>\<open>value ?? fallback\<close>\<close>

definition or_default :: "'a option \<Rightarrow> 'a \<Rightarrow> 'a" where
  "or_default v d = (case v of None \<Rightarrow> d | Some x \<Rightarrow> x)"

text \<open>A finite number within bounds.\<close>

definition finite_where :: "js_number \<Rightarrow> (rat \<Rightarrow> bool) \<Rightarrow> 'e \<Rightarrow> 'e + rat" where
  "finite_where v p err = (case v of Finite r \<Rightarrow> if p r then Inr r else Inl err | _ \<Rightarrow> Inl err)"

definition resolve_backoff :: "backoff_config option \<Rightarrow> string \<Rightarrow> policy_error + backoff" where
  "resolve_backoff config path =
     rbind (case config of None \<Rightarrow> Inr () | Some c \<Rightarrow> validate_keys (bc_keys c) BACKOFF_KEYS path) (\<lambda>_.
     rbind (finite_where (or_default (Option.bind config bc_initial) (Finite 500)) (\<lambda>r. 0 < r \<and> r \<le> MAX_TIMER_DELAY_MS) (BadInitialDelay path)) (\<lambda>initial.
     rbind (finite_where (or_default (Option.bind config bc_max) (Finite 10000)) (\<lambda>r. 0 < r \<and> r \<le> MAX_TIMER_DELAY_MS) (BadMaxDelay path)) (\<lambda>most.
     if most < initial then Inl (InitialAboveMax path)
     else rbind (finite_where (or_default (Option.bind config bc_jitter) (Finite (js_double (1 / 10)))) (\<lambda>r. 0 \<le> r \<and> r \<le> 1) (BadJitter path)) (\<lambda>jitter.
     Inr \<lparr>bo_initial = initial, bo_max = most, bo_jitter = jitter\<rparr>))))"

definition resolve_normal :: "policy_config \<Rightarrow> string \<Rightarrow> policy_error + retry_policy" where
  "resolve_normal c path =
     rbind (validate_keys (pc_keys c) POLICY_KEYS path) (\<lambda>_.
     let codes = or_default (pc_codes c) DEFAULT_RETRYABLE_CODES in
     rbind (finite_where (or_default (pc_max_retries c) DEFAULT_MAX_RETRIES) (\<lambda>r. safe_integer r \<and> 0 \<le> r) (BadMaxRetries path)) (\<lambda>n.
     if codes = [] then Inl (NoCodes path)
     else if list_ex (\<lambda>code. code = []) codes then Inl (EmptyCode path)
     else if \<not> distinct codes then Inl (RepeatedCode path)
     else rbind (resolve_backoff (pc_backoff c) (path @ ''.backoff'')) (\<lambda>b. Inr (NormalPolicy \<lfloor>n\<rfloor> codes b))))"

definition resolve_always :: "policy_config \<Rightarrow> string \<Rightarrow> policy_error + retry_policy" where
  "resolve_always c path =
     rbind (validate_keys (pc_keys c) POLICY_KEYS path) (\<lambda>_.
     rbind (resolve_backoff (pc_backoff c) (path @ ''.backoff'')) (\<lambda>b. Inr (AlwaysPolicy b)))"

definition resolve_retry_policy :: "policy_config option \<Rightarrow> string \<Rightarrow> policy_error + retry_policy" where
  "resolve_retry_policy config path =
     (case config of
        None \<Rightarrow> rbind (resolve_backoff None (path @ ''.backoff'')) (\<lambda>b. Inr (NormalPolicy 5 DEFAULT_RETRYABLE_CODES b))
      | Some c \<Rightarrow> if pc_mode c = ''normal'' then resolve_normal c path
          else if pc_mode c = ''always'' then resolve_always c path else Inl (BadMode path))"

fun policy_backoff :: "retry_policy \<Rightarrow> backoff" where
  "policy_backoff (NormalPolicy _ _ b) = b"
| "policy_backoff (AlwaysPolicy b) = b"

section \<open>The local delay\<close>

text \<open>
  \<open>2 ** 1024\<close> is infinite, and then the cap decides; a finite product above the largest double is above the cap as well.
\<close>

definition exponential_delay :: "backoff \<Rightarrow> int \<Rightarrow> rat" where
  "exponential_delay b retry = (let exponent = min (retry - 1) 1024 in
     if exponent = 1024 then bo_max b else min (js_double (bo_initial b * 2 powi exponent)) (bo_max b))"

definition jitter_factor :: "backoff \<Rightarrow> rat \<Rightarrow> rat" where
  "jitter_factor b random = js_double (js_double (1 - bo_jitter b) + js_double (js_double (2 * bo_jitter b) * random))"

definition local_delay :: "backoff \<Rightarrow> int \<Rightarrow> rat \<Rightarrow> rat" where
  "local_delay b retry random = min (js_double (exponential_delay b retry * jitter_factor b random)) (bo_max b)"

section \<open>Resolved policies are well formed\<close>

definition backoff_ok :: "backoff \<Rightarrow> bool" where
  "backoff_ok b \<longleftrightarrow> 0 < bo_initial b \<and> bo_initial b \<le> bo_max b \<and> bo_max b \<le> MAX_TIMER_DELAY_MS \<and> 0 \<le> bo_jitter b \<and> bo_jitter b \<le> 1"

fun policy_ok :: "retry_policy \<Rightarrow> bool" where
  "policy_ok (NormalPolicy n codes b) \<longleftrightarrow> 0 \<le> n \<and> safe_int n \<and> codes \<noteq> [] \<and> [] \<notin> set codes \<and> distinct codes \<and> backoff_ok b"
| "policy_ok (AlwaysPolicy b) \<longleftrightarrow> backoff_ok b"

lemma policy_backoff_ok: "policy_ok p \<Longrightarrow> backoff_ok (policy_backoff p)"
  by (cases p) auto

lemma finite_where_Inr: "finite_where v p err = Inr r \<longleftrightarrow> v = Finite r \<and> p r"
  by (auto simp: finite_where_def split: js_number.splits)

lemma resolve_backoff_ok: "resolve_backoff c path = Inr b \<Longrightarrow> backoff_ok b"
  by (auto simp: resolve_backoff_def rbind_Inr_iff finite_where_Inr backoff_ok_def split: if_splits)

lemma validate_keys_Inr: "validate_keys ks allowed path = Inr u \<longleftrightarrow> set ks \<subseteq> set allowed"
  by (induction ks) auto

text \<open>
  A resolved policy is well formed: positive delays in order and within the timer range, a jitter ratio between 0
  and 1, a non-negative safe retry limit and distinct non-empty codes; a configuration with a key the policy does not
  know never resolves.
\<close>

theorem resolved_policy_is_well_formed:
  assumes "resolve_retry_policy config path = Inr p"
  shows "policy_ok p \<and> (case config of None \<Rightarrow> p = NormalPolicy 5 DEFAULT_RETRYABLE_CODES \<lparr>bo_initial = 500, bo_max = 10000, bo_jitter = js_double (1 / 10)\<rparr>
     | Some c \<Rightarrow> set (pc_keys c) \<subseteq> set POLICY_KEYS \<and> pc_mode c = (case p of NormalPolicy _ _ _ \<Rightarrow> ''normal'' | AlwaysPolicy _ \<Rightarrow> ''always''))"
proof (cases config)
  case None
  have jit: "0 \<le> js_double (1 / 10)" "js_double (1 / 10) \<le> 1" by (simp_all add: js_double_tenth)
  have "p = NormalPolicy 5 DEFAULT_RETRYABLE_CODES \<lparr>bo_initial = 500, bo_max = 10000, bo_jitter = js_double (1 / 10)\<rparr>"
    using assms by (auto simp: None resolve_retry_policy_def resolve_backoff_def rbind_Inr_iff finite_where_Inr or_default_def split: if_splits)
  then show ?thesis using jit by (simp add: None backoff_ok_def MAX_TIMER_DELAY_MS_def DEFAULT_RETRYABLE_CODES_def safe_int_def max_safe_def)
next
  case (Some c)
  have normal: "policy_ok p \<and> set (pc_keys c) \<subseteq> set POLICY_KEYS \<and> (\<exists>n codes b. p = NormalPolicy n codes b)" if "resolve_normal c path = Inr p"
    using that by (auto simp: resolve_normal_def rbind_Inr_iff finite_where_Inr Let_def validate_keys_Inr list_ex_iff safe_integer_def
        dest: resolve_backoff_ok split: if_splits)
  have always: "policy_ok p \<and> set (pc_keys c) \<subseteq> set POLICY_KEYS \<and> (\<exists>b. p = AlwaysPolicy b)" if "resolve_always c path = Inr p"
    using that by (auto simp: resolve_always_def rbind_Inr_iff validate_keys_Inr dest: resolve_backoff_ok)
  show ?thesis
    using assms normal always by (auto simp: Some resolve_retry_policy_def split: if_splits)
qed

section \<open>Delays\<close>

lemma exponential_delay_bounds: "backoff_ok b \<Longrightarrow> 0 \<le> exponential_delay b retry \<and> exponential_delay b retry \<le> bo_max b"
  by (auto simp: exponential_delay_def Let_def backoff_ok_def intro!: js_double_nonneg)

lemma jitter_factor_nonneg: "backoff_ok b \<Longrightarrow> 0 \<le> random \<Longrightarrow> 0 \<le> jitter_factor b random"
  by (auto simp: jitter_factor_def backoff_ok_def intro!: js_double_nonneg add_nonneg_nonneg mult_nonneg_nonneg)

lemma local_delay_bounds: "backoff_ok b \<Longrightarrow> 0 \<le> random \<Longrightarrow> 0 \<le> local_delay b retry random \<and> local_delay b retry random \<le> bo_max b"
  using exponential_delay_bounds [of b retry] jitter_factor_nonneg [of b random]
  by (auto simp: local_delay_def backoff_ok_def intro!: js_double_nonneg)

theorem resolved_policy_is_well_formed_witness:
  "policy_ok (NormalPolicy 2 [''SERVER''] \<lparr>bo_initial = 100, bo_max = 10000, bo_jitter = 0\<rparr>)"
proof -
  have "resolve_retry_policy (Some \<lparr>pc_keys = [''mode'', ''maxRetries'', ''retryableCodes'', ''backoff''], pc_mode = ''normal'',
      pc_max_retries = Some (Finite 2), pc_codes = Some [''SERVER''],
      pc_backoff = Some \<lparr>bc_keys = [''initialDelayMs'', ''jitterRatio''], bc_initial = Some (Finite 100), bc_max = None, bc_jitter = Some (Finite 0)\<rparr>\<rparr>) ''p''
    = Inr (NormalPolicy 2 [''SERVER''] \<lparr>bo_initial = 100, bo_max = 10000, bo_jitter = 0\<rparr>)"
    by code_simp
  from resolved_policy_is_well_formed [OF this] show ?thesis by simp
qed

end
