(* ===== verification/Llm_Retry.thy ===== *)
theory Llm_Retry
  imports Retry_Policy Agent_Log
begin

text \<open>
  Retried model requests (\<open>packages/llm/llm-retry/src\<close>): the recovery of a failed request that records a retry, waits and
  records its start (\<open>index.ts\<close>), and the checks the companion plugin makes on those records (\<open>invariant.ts\<close>,
  \<open>history.ts\<close>). Inputs: the abort signals, the downstream recovery, the random sample, the identifier drawn for a new
  chain, and \<open>stringify\<close>, which stands for \<open>JSON.stringify\<close> of the policy array.
\<close>

section \<open>Records\<close>

datatype retry_mode = ModeNormal int | ModeAlways

record llm_retry_data =
  rd_id :: string
  rd_turn :: int
  rd_step :: int
  rd_provider :: string
  rd_mode :: retry_mode
  rd_policy_key :: string
  rd_retry :: int
  rd_delay :: rat
  rd_failure :: failure_facts

record retry_started_data =
  rs_id :: string
  rs_turn :: int
  rs_step :: int
  rs_retry :: int

datatype 'x retry_payload = RetryScheduled llm_retry_data | RetryStarted retry_started_data | OtherPlugin 'x

fun scheduled_of :: "'x retry_payload event \<Rightarrow> llm_retry_data option" where
  "scheduled_of e = (case ev_data e of PluginEvent (RetryScheduled r) \<Rightarrow> Some r | _ \<Rightarrow> None)"

fun started_of :: "'x retry_payload event \<Rightarrow> retry_started_data option" where
  "started_of e = (case ev_data e of PluginEvent (RetryStarted r) \<Rightarrow> Some r | _ \<Rightarrow> None)"

declare scheduled_of.simps [simp del] started_of.simps [simp del]

abbreviation scheduled :: "'x retry_payload event list \<Rightarrow> llm_retry_data list" where
  "scheduled evs \<equiv> List.map_filter scheduled_of evs"

abbreviation started :: "'x retry_payload event list \<Rightarrow> retry_started_data list" where
  "started evs \<equiv> List.map_filter started_of evs"

section \<open>Reading the log\<close>

definition find_last :: "('a \<Rightarrow> bool) \<Rightarrow> 'a list \<Rightarrow> 'a option" where
  "find_last P xs = List.find P (List.rev xs)"

fun turn_mark :: "'x event_data \<Rightarrow> bool" where
  "turn_mark (TurnStart _) = True"
| "turn_mark (TurnEnd _ _) = True"
| "turn_mark _ = False"

fun step_mark :: "'x event_data \<Rightarrow> bool" where
  "step_mark (StepStart _ _) = True"
| "step_mark (StepEnd _ _) = True"
| "step_mark _ = False"

definition last_open_turn :: "'x event list \<Rightarrow> int option" where
  "last_open_turn evs = (case find_last (\<lambda>e. turn_mark (ev_data e)) evs of
     None \<Rightarrow> None | Some e \<Rightarrow> (case ev_data e of TurnStart n \<Rightarrow> Some n | _ \<Rightarrow> None))"

definition last_open_step :: "'x event list \<Rightarrow> (int \<times> int) option" where
  "last_open_step evs = (case find_last (\<lambda>e. step_mark (ev_data e)) evs of
     None \<Rightarrow> None | Some e \<Rightarrow> (case ev_data e of StepStart n k \<Rightarrow> Some (n, k) | _ \<Rightarrow> None))"

text \<open>The part of the log after the last event with a property.\<close>

definition after_last :: "('a \<Rightarrow> bool) \<Rightarrow> 'a list \<Rightarrow> 'a list" where
  "after_last P xs = List.rev (takeWhile (\<lambda>x. \<not> P x) (List.rev xs))"

fun is_header :: "'x event_data \<Rightarrow> bool" where
  "is_header (RequestHeader _ _) = True"
| "is_header _ = False"

definition provider_for_open_step :: "'x event list \<Rightarrow> int \<Rightarrow> int \<Rightarrow> string option" where
  "provider_for_open_step evs turn step =
     (let starts = (\<lambda>e. ev_data e = StepStart turn step) in
      if \<not> list_ex starts evs \<or> list_ex (\<lambda>e. case ev_data e of StepEnd _ _ \<Rightarrow> True | TurnEnd _ _ \<Rightarrow> True | _ \<Rightarrow> False) (after_last starts evs)
      then None
      else (case find_last (\<lambda>e. is_header (ev_data e)) evs of
          None \<Rightarrow> None
        | Some e \<Rightarrow> (case ev_data e of RequestHeader h _ \<Rightarrow> (case jget (hdr_config h) ''provider'' of Some (JStr p) \<Rightarrow> Some p | _ \<Rightarrow> None) | _ \<Rightarrow> None)))"

definition in_chain :: "int \<Rightarrow> int \<Rightarrow> string \<Rightarrow> string \<Rightarrow> llm_retry_data \<Rightarrow> bool" where
  "in_chain turn step provider key r \<longleftrightarrow> rd_turn r = turn \<and> rd_step r = step \<and> rd_provider r = provider \<and> rd_policy_key r = key"

definition prior_retry :: "'x retry_payload event list \<Rightarrow> int \<Rightarrow> int \<Rightarrow> string \<Rightarrow> string \<Rightarrow> llm_retry_data option" where
  "prior_retry evs turn step provider key = find_last (in_chain turn step provider key) (scheduled evs)"

section \<open>Recovery\<close>

definition policy_json :: "retry_policy \<Rightarrow> json" where
  "policy_json p = (case p of
     AlwaysPolicy b \<Rightarrow> JArr [JStr ''always'', JNum (bo_initial b), JNum (bo_max b), JNum (bo_jitter b)]
   | NormalPolicy n codes b \<Rightarrow> JArr [JStr ''normal'', JNum (of_int n), JArr (map JStr (sort codes)), JNum (bo_initial b), JNum (bo_max b), JNum (bo_jitter b)])"

record request_error =
  re_turn :: int
  re_step :: int
  re_provider :: string
  re_failure :: failure_facts
  re_policy :: "retry_policy option"

text \<open>What the next recovery answers, when it is awaited.\<close>

datatype downstream = DownDecision bool | DownError

text \<open>
  \<open>Delegated\<close> is the result of the next recovery, \<open>NoAction\<close> is \<open>undefined\<close>, \<open>Waiting\<close> the state after the retry is
  recorded.
\<close>

datatype recovery = Delegated | NoAction | RetryNow | Waiting llm_retry_data | AppendFails session_error

text \<open>The delay, or none when a bounded policy leaves the failure to others.\<close>

definition retry_delay :: "retry_policy \<Rightarrow> failure_facts \<Rightarrow> int \<Rightarrow> rat \<Rightarrow> rat option" where
  "retry_delay p f retry random =
     (case fail_retry_after f of
        None \<Rightarrow> Some (local_delay (policy_backoff p) retry random)
      | Some r \<Rightarrow>
          if 0 < r then
            if bo_max (policy_backoff p) < r then
              (case p of NormalPolicy _ _ _ \<Rightarrow> None | AlwaysPolicy _ \<Rightarrow> Some (local_delay (policy_backoff p) retry random))
            else Some r
          else Some (local_delay (policy_backoff p) retry random))"

fun policy_mode :: "retry_policy \<Rightarrow> retry_mode" where
  "policy_mode (NormalPolicy n _ _) = ModeNormal n"
| "policy_mode (AlwaysPolicy _) = ModeAlways"

fun exhausted :: "retry_policy \<Rightarrow> int \<Rightarrow> bool" where
  "exhausted (NormalPolicy n _ _) previous \<longleftrightarrow> n \<le> previous"
| "exhausted (AlwaysPolicy _) previous \<longleftrightarrow> False"

definition backoff_wait :: "int \<Rightarrow> bool \<Rightarrow> llm_retry_data \<Rightarrow> 'x retry_payload session \<Rightarrow> 'x retry_payload session \<times> recovery" where
  "backoff_wait now aborted r s =
     (if aborted then (s, NoAction)
      else case session_append now (PluginEvent (RetryScheduled r)) no_intent s of
          (s', Inl err) \<Rightarrow> (s', AppendFails err)
        | (s', Inr _) \<Rightarrow> (s', Waiting r))"

definition schedule_retry ::
    "(json \<Rightarrow> string) \<Rightarrow> int \<Rightarrow> bool \<Rightarrow> string \<Rightarrow> rat \<Rightarrow> retry_policy \<Rightarrow> request_error \<Rightarrow> 'x retry_payload session \<Rightarrow>
      'x retry_payload session \<times> recovery" where
  "schedule_retry stringify now aborted uuid random p rq s =
     (let key = stringify (policy_json p);
          prior = prior_retry (ses_log s) (re_turn rq) (re_step rq) (re_provider rq) key;
          previous = (case prior of None \<Rightarrow> 0 | Some r \<Rightarrow> rd_retry r) in
      if exhausted p previous then (s, Delegated)
      else case retry_delay p (re_failure rq) (previous + 1) random of
          None \<Rightarrow> (s, Delegated)
        | Some delay \<Rightarrow>
            backoff_wait now aborted
              \<lparr>rd_id = (case prior of None \<Rightarrow> uuid | Some r \<Rightarrow> rd_id r), rd_turn = re_turn rq, rd_step = re_step rq,
               rd_provider = re_provider rq, rd_mode = policy_mode p, rd_policy_key = key, rd_retry = previous + 1,
               rd_delay = delay, rd_failure = re_failure rq\<rparr> s)"

text \<open>\<open>early\<close> and \<open>late\<close>: whether the signals are aborted at the entry, and after the downstream recovery.\<close>

definition recover ::
    "(json \<Rightarrow> string) \<Rightarrow> int \<Rightarrow> bool \<Rightarrow> downstream \<Rightarrow> bool \<Rightarrow> string \<Rightarrow> rat \<Rightarrow> request_error \<Rightarrow> 'x retry_payload session \<Rightarrow>
      'x retry_payload session \<times> recovery" where
  "recover stringify now early down late uuid random rq s =
     (case re_policy rq of
        None \<Rightarrow> (s, Delegated)
      | Some (AlwaysPolicy b) \<Rightarrow>
          if early then (s, NoAction)
          else if late then (s, NoAction)
          else if down = DownDecision True then (s, RetryNow)
          else schedule_retry stringify now late uuid random (AlwaysPolicy b) rq s
      | Some (NormalPolicy n codes b) \<Rightarrow>
          if fail_code (re_failure rq) \<notin> set codes then (s, Delegated)
          else schedule_retry stringify now late uuid random (NormalPolicy n codes b) rq s)"

text \<open>The rest of \<open>backoff\<close>, when the delay has elapsed or was cancelled.\<close>

definition after_wait :: "int \<Rightarrow> bool \<Rightarrow> llm_retry_data \<Rightarrow> 'x retry_payload session \<Rightarrow> 'x retry_payload session \<times> recovery" where
  "after_wait now elapsed r s =
     (if \<not> elapsed then (s, NoAction)
      else case session_append now (PluginEvent (RetryStarted \<lparr>rs_id = rd_id r, rs_turn = rd_turn r, rs_step = rd_step r, rs_retry = rd_retry r\<rparr>))
          no_intent s of
          (s', Inl err) \<Rightarrow> (s', AppendFails err)
        | (s', Inr _) \<Rightarrow> (s', RetryNow))"

section \<open>The companion's checks\<close>

datatype retry_fault =
    FailureMessage | FailureCode | FailureStatus | FailureDelay | FailureRequestId
  | RetryIdEmpty | RetryNumber | ProviderEmpty | PolicyKeyEmpty | RetryLimit | DelayRange
  | NoOpenTurn | OtherTurn | NoOpenStep | OtherStep | OtherProvider | RetryGap | RetryIdChanged | RetryIdTaken
  | NoAttempt | OtherAttempt | StartedTwice

definition validate_failure :: "failure_facts \<Rightarrow> retry_fault + unit" where
  "validate_failure f =
     rbind (require (fail_message f \<noteq> []) FailureMessage) (\<lambda>_.
     rbind (require (fail_code f \<noteq> []) FailureCode) (\<lambda>_.
     rbind (require (case fail_status f of None \<Rightarrow> True | Some n \<Rightarrow> 100 \<le> n \<and> n \<le> 599) FailureStatus) (\<lambda>_.
     rbind (require (case fail_retry_after f of None \<Rightarrow> True | Some r \<Rightarrow> 0 < r) FailureDelay) (\<lambda>_.
     require (case fail_request_id f of None \<Rightarrow> True | Some i \<Rightarrow> i \<noteq> []) FailureRequestId))))"

definition validate_position :: "'x retry_payload event list \<Rightarrow> llm_retry_data \<Rightarrow> retry_fault + unit" where
  "validate_position evs r =
     (case last_open_turn evs of
        None \<Rightarrow> Inl NoOpenTurn
      | Some n \<Rightarrow>
          rbind (require (rd_turn r = n) OtherTurn) (\<lambda>_.
          case last_open_step evs of
            None \<Rightarrow> Inl NoOpenStep
          | Some (t, k) \<Rightarrow>
              rbind (require (rd_step r = k \<and> rd_turn r = t) OtherStep) (\<lambda>_.
              require (provider_for_open_step evs (rd_turn r) (rd_step r) = Some (rd_provider r)) OtherProvider)))"

definition validate_chain :: "'x retry_payload event list \<Rightarrow> llm_retry_data \<Rightarrow> retry_fault + unit" where
  "validate_chain evs r =
     (let prior = prior_retry evs (rd_turn r) (rd_step r) (rd_provider r) (rd_policy_key r) in
      rbind (require (rd_retry r = (case prior of None \<Rightarrow> 0 | Some q \<Rightarrow> rd_retry q) + 1) RetryGap) (\<lambda>_.
      rbind (require (case prior of None \<Rightarrow> True | Some q \<Rightarrow> rd_id q = rd_id r) RetryIdChanged) (\<lambda>_.
      require (prior \<noteq> None \<or> \<not> (list_ex (\<lambda>q. rd_id q = rd_id r) (scheduled evs) \<or> list_ex (\<lambda>q. rs_id q = rd_id r) (started evs))) RetryIdTaken)))"

definition validate_retry :: "'x retry_payload event list \<Rightarrow> llm_retry_data \<Rightarrow> retry_fault + unit" where
  "validate_retry evs r =
     rbind (require (rd_id r \<noteq> []) RetryIdEmpty) (\<lambda>_.
     rbind (validate_failure (rd_failure r)) (\<lambda>_.
     rbind (require (safe_int (rd_retry r) \<and> 1 \<le> rd_retry r) RetryNumber) (\<lambda>_.
     rbind (require (rd_provider r \<noteq> []) ProviderEmpty) (\<lambda>_.
     rbind (require (rd_policy_key r \<noteq> []) PolicyKeyEmpty) (\<lambda>_.
     rbind (require (case rd_mode r of ModeAlways \<Rightarrow> True | ModeNormal n \<Rightarrow> safe_int n \<and> 1 \<le> n \<and> rd_retry r \<le> n) RetryLimit) (\<lambda>_.
     rbind (require (0 \<le> rd_delay r \<and> rd_delay r \<le> MAX_TIMER_DELAY_MS) DelayRange) (\<lambda>_.
     rbind (validate_position evs r) (\<lambda>_. validate_chain evs r))))))))"

definition validate_started :: "'x retry_payload event list \<Rightarrow> retry_started_data \<Rightarrow> retry_fault + unit" where
  "validate_started evs b =
     rbind (require (rs_id b \<noteq> []) RetryIdEmpty) (\<lambda>_.
     case find_last (\<lambda>r. rd_id r = rs_id b \<and> rd_retry r = rs_retry b) (scheduled evs) of
       None \<Rightarrow> Inl NoAttempt
     | Some r \<Rightarrow>
         rbind (require (rd_turn r = rs_turn b \<and> rd_step r = rs_step b) OtherAttempt) (\<lambda>_.
         require (\<not> list_ex (\<lambda>q. rs_id q = rs_id b \<and> rs_retry q = rs_retry b) (started evs)) StartedTwice))"

definition validate_retry_event :: "'x retry_payload event list \<Rightarrow> 'x retry_payload event \<Rightarrow> retry_fault + unit" where
  "validate_retry_event evs e = (case ev_data e of
     PluginEvent (RetryScheduled r) \<Rightarrow> validate_retry evs r
   | PluginEvent (RetryStarted b) \<Rightarrow> validate_started evs b
   | _ \<Rightarrow> Inr ())"

fun validate_from :: "'x retry_payload event list \<Rightarrow> 'x retry_payload event list \<Rightarrow> retry_fault + unit" where
  "validate_from before [] = Inr ()"
| "validate_from before (e # es) = rbind (validate_retry_event before e) (\<lambda>_. validate_from (before @ [e]) es)"

definition validate_session :: "'x retry_payload event list \<Rightarrow> retry_fault + unit" where
  "validate_session evs = validate_from [] evs"

section \<open>Runs\<close>

text \<open>
  One agent: its session, and the retry the step in progress is waiting for. Other components append while it waits;
  the loop reports one failure at a time, for the step that is open.
\<close>

record 'x retry_state =
  rt_session :: "'x retry_payload session"
  rt_wait :: "llm_retry_data option"

datatype 'x retry_input =
    Elsewhere int "'x retry_payload event_data" surface_intent
  | Fails int request_error bool downstream bool string rat
  | WaitEnds int bool

fun retry_step :: "(json \<Rightarrow> string) \<Rightarrow> 'x retry_input \<Rightarrow> 'x retry_state \<Rightarrow> 'x retry_state option" where
  "retry_step stringify (Elsewhere now d intent) st = Some (st\<lparr>rt_session := fst (session_append now d intent (rt_session st))\<rparr>)"
| "retry_step stringify (Fails now rq early down late uuid random) st =
     (if rt_wait st \<noteq> None then None
      else case recover stringify now early down late uuid random rq (rt_session st) of
          (s, Waiting r) \<Rightarrow> Some (st\<lparr>rt_session := s, rt_wait := Some r\<rparr>)
        | (s, _) \<Rightarrow> Some (st\<lparr>rt_session := s\<rparr>))"
| "retry_step stringify (WaitEnds now elapsed) st =
     (case rt_wait st of None \<Rightarrow> None
      | Some r \<Rightarrow> Some (st\<lparr>rt_session := fst (after_wait now elapsed r (rt_session st)), rt_wait := None\<rparr>))"

definition retry_event :: "'x retry_payload event_data \<Rightarrow> bool" where
  "retry_event d \<longleftrightarrow> (case d of PluginEvent (RetryScheduled _) \<Rightarrow> True | PluginEvent (RetryStarted _) \<Rightarrow> True | _ \<Rightarrow> False)"

text \<open>What the rest of the system guarantees of an input.\<close>

fun admissible :: "'x retry_input \<Rightarrow> 'x retry_state \<Rightarrow> bool" where
  "admissible (Elsewhere now d intent) st \<longleftrightarrow> \<not> retry_event d"
| "admissible (Fails now rq early down late uuid random) st \<longleftrightarrow>
     (let evs = ses_log (rt_session st) in
      last_open_turn evs = Some (re_turn rq) \<and> last_open_step evs = Some (re_turn rq, re_step rq) \<and>
      provider_for_open_step evs (re_turn rq) (re_step rq) = Some (re_provider rq) \<and> re_provider rq \<noteq> [] \<and>
      validate_failure (re_failure rq) = Inr () \<and> (case re_policy rq of None \<Rightarrow> True | Some p \<Rightarrow> policy_ok p) \<and>
      uuid \<noteq> [] \<and> uuid \<notin> rd_id ` set (scheduled evs) \<and> 0 \<le> random \<and> random \<le> 1 \<and> int (length evs) < max_safe)"
| "admissible (WaitEnds now elapsed) st \<longleftrightarrow> True"

fun run_retry :: "(json \<Rightarrow> string) \<Rightarrow> 'x retry_input list \<Rightarrow> 'x retry_state \<Rightarrow> 'x retry_state option" where
  "run_retry stringify [] st = Some st"
| "run_retry stringify (i # is) st = (if admissible i st then Option.bind (retry_step stringify i st) (run_retry stringify is) else None)"

section \<open>Lemmas\<close>

lemma find_last_filter: "find_last P xs = (if filter P xs = [] then None else Some (last (filter P xs)))"
  by (induction xs rule: rev_induct) (auto simp: find_last_def)

lemma find_last_Some: "find_last P xs = Some x \<Longrightarrow> x \<in> set xs \<and> P x"
  by (auto simp: find_last_def find_Some_iff in_set_conv_nth rev_nth intro!: exI [of _ "length xs - Suc _"])

lemma find_last_None: "find_last P xs = None \<longleftrightarrow> (\<forall>x\<in>set xs. \<not> P x)"
  by (auto simp: find_last_def find_None_iff)

lemma validate_from_append: "validate_from before (xs @ ys) = rbind (validate_from before xs) (\<lambda>_. validate_from (before @ xs) ys)"
proof (induction xs arbitrary: before)
  case (Cons x xs)
  then show ?case by (cases "validate_retry_event before x") auto
qed simp

lemma validate_session_snoc: "validate_session (evs @ [e]) = Inr () \<longleftrightarrow> validate_session evs = Inr () \<and> validate_retry_event evs e = Inr ()"
  by (simp add: validate_session_def validate_from_append rbind_Inr_iff)

definition chain_of :: "llm_retry_data \<Rightarrow> int \<times> int \<times> string \<times> string" where
  "chain_of r = (rd_turn r, rd_step r, rd_provider r, rd_policy_key r)"

lemma in_chain_iff: "in_chain t k p key = (\<lambda>r. chain_of r = (t, k, p, key))"
  by (auto simp: in_chain_def chain_of_def fun_eq_iff)

text \<open>
  What the checks keep of the records: the retries of a chain are numbered from 1, an identifier names one chain, and a
  start has its attempt.
\<close>

definition numbered :: "llm_retry_data list \<Rightarrow> bool" where
  "numbered rs \<longleftrightarrow> map rd_retry rs = map (\<lambda>i. int i + 1) [0..<length rs]"

definition chains_ok :: "llm_retry_data list \<Rightarrow> retry_started_data list \<Rightarrow> bool" where
  "chains_ok rs bs \<longleftrightarrow>
     (\<forall>c. numbered (filter (\<lambda>r. chain_of r = c) rs)) \<and>
     (\<forall>q\<in>set rs. \<forall>r\<in>set rs. rd_id q = rd_id r \<longleftrightarrow> chain_of q = chain_of r) \<and>
     (\<forall>r\<in>set rs. rd_id r \<noteq> [] \<and> (case rd_mode r of ModeAlways \<Rightarrow> True | ModeNormal n \<Rightarrow> rd_retry r \<le> n)) \<and>
     (\<forall>b\<in>set bs. \<exists>r\<in>set rs. rd_id r = rs_id b \<and> rd_retry r = rs_retry b)"

lemma numbered_snoc: "numbered rs \<Longrightarrow> rd_retry r = int (length rs) + 1 \<Longrightarrow> numbered (rs @ [r])"
  by (simp add: numbered_def)

lemma numbered_last: "numbered rs \<Longrightarrow> rs \<noteq> [] \<Longrightarrow> rd_retry (last rs) = int (length rs)"
proof -
  assume n: "numbered rs" and ne: "rs \<noteq> []"
  have "rd_retry (last rs) = last (map rd_retry rs)" using ne by (simp add: last_map)
  also have "map rd_retry rs = map (\<lambda>i. int i + 1) [0..<length rs]" using n by (simp only: numbered_def)
  also have "last \<dots> = int (length rs)" using ne by (simp add: last_map last_conv_nth) (cases rs, simp_all)
  finally show ?thesis .
qed

lemma numbered_bound: "numbered rs \<Longrightarrow> r \<in> set rs \<Longrightarrow> 1 \<le> rd_retry r \<and> rd_retry r \<le> int (length rs)"
proof -
  assume "numbered rs" "r \<in> set rs"
  then have "rd_retry r \<in> set (map (\<lambda>i. int i + 1) [0..<length rs])" unfolding numbered_def by (metis imageI list.set_map)
  then show ?thesis by auto
qed

lemma previous_is_count:
  assumes "chains_ok rs bs"
  shows "(case find_last (\<lambda>r. chain_of r = c) rs of None \<Rightarrow> 0 | Some q \<Rightarrow> rd_retry q) = int (length (filter (\<lambda>r. chain_of r = c) rs))"
proof (cases "filter (\<lambda>r. chain_of r = c) rs = []")
  case False
  have "numbered (filter (\<lambda>r. chain_of r = c) rs)" using assms unfolding chains_ok_def by blast
  from numbered_last [OF this False] False show ?thesis by (simp add: find_last_filter)
qed (simp add: find_last_filter)

lemma chains_ok_schedule:
  assumes ok: "chains_ok rs bs" and prior: "prior = find_last (\<lambda>q. chain_of q = chain_of r) rs"
    and retry: "rd_retry r = (case prior of None \<Rightarrow> 0 | Some q \<Rightarrow> rd_retry q) + 1"
    and same: "\<And>q. prior = Some q \<Longrightarrow> rd_id q = rd_id r" and new: "prior = None \<Longrightarrow> rd_id r \<notin> rd_id ` set rs"
    and i: "rd_id r \<noteq> []" and m: "case rd_mode r of ModeAlways \<Rightarrow> True | ModeNormal n \<Rightarrow> rd_retry r \<le> n"
  shows "chains_ok (rs @ [r]) bs" "\<And>b. b \<in> set bs \<Longrightarrow> rs_id b = rd_id r \<Longrightarrow> rs_retry b \<noteq> rd_retry r"
proof -
  let ?chain = "filter (\<lambda>q. chain_of q = chain_of r) rs"
  have n: "rd_retry r = int (length ?chain) + 1" using previous_is_count [OF ok] retry by (simp add: prior)
  have ids: "rd_id q = rd_id r \<longleftrightarrow> chain_of q = chain_of r" if q: "q \<in> set rs" for q
  proof (cases prior)
    case None
    then have "chain_of q \<noteq> chain_of r" using q by (simp add: prior find_last_None)
    moreover have "rd_id q \<noteq> rd_id r" using new [OF None] q by (metis imageI)
    ultimately show ?thesis by simp
  next
    case (Some p)
    then have p: "p \<in> set rs" "chain_of p = chain_of r" "rd_id p = rd_id r"
      using find_last_Some [OF Some [unfolded prior]] same [OF Some] by simp_all
    then show ?thesis using ok q unfolding chains_ok_def by metis
  qed
  have old: "numbered (filter (\<lambda>q. chain_of q = c) rs)" for c using ok unfolding chains_ok_def by blast
  have "numbered (filter (\<lambda>q. chain_of q = c) (rs @ [r]))" for c
    using old [of c] n by (cases "chain_of r = c") (simp_all add: numbered_snoc)
  then show "chains_ok (rs @ [r]) bs"
    using ok ids i m unfolding chains_ok_def by (auto simp: eq_commute)
  show "rs_retry b \<noteq> rd_retry r" if b: "b \<in> set bs" "rs_id b = rd_id r" for b
  proof -
    obtain q where q: "q \<in> set rs" "rd_id q = rs_id b" "rd_retry q = rs_retry b" using ok b(1) unfolding chains_ok_def by metis
    then have "q \<in> set ?chain" using ids b(2) by simp
    moreover have "numbered ?chain" using ok unfolding chains_ok_def by blast
    ultimately have "rd_retry q \<le> int (length ?chain)" using numbered_bound by blast
    then show ?thesis using n q by simp
  qed
qed

lemma validate_retry_parts:
  assumes "validate_retry evs r = Inr ()"
  shows "rd_id r \<noteq> []" "case rd_mode r of ModeAlways \<Rightarrow> True | ModeNormal n \<Rightarrow> rd_retry r \<le> n" "validate_chain evs r = Inr ()"
  using assms by (auto simp: validate_retry_def rbind_Inr_iff split: retry_mode.splits)

lemma validate_chain_iff:
  "validate_chain evs r = Inr () \<longleftrightarrow>
     (let prior = find_last (\<lambda>q. chain_of q = chain_of r) (scheduled evs) in
      rd_retry r = (case prior of None \<Rightarrow> 0 | Some q \<Rightarrow> rd_retry q) + 1 \<and> (\<forall>q. prior = Some q \<longrightarrow> rd_id q = rd_id r) \<and>
      (prior = None \<longrightarrow> rd_id r \<notin> rd_id ` set (scheduled evs) \<and> rd_id r \<notin> rs_id ` set (started evs)))"
proof -
  have "prior_retry evs (rd_turn r) (rd_step r) (rd_provider r) (rd_policy_key r) = find_last (\<lambda>q. chain_of q = chain_of r) (scheduled evs)"
    by (simp add: prior_retry_def in_chain_iff chain_of_def [of r])
  moreover have taken: "list_ex (\<lambda>q. rd_id q = rd_id r) (scheduled evs) \<longleftrightarrow> rd_id r \<in> rd_id ` set (scheduled evs)"
    "list_ex (\<lambda>q. rs_id q = rd_id r) (started evs) \<longleftrightarrow> rd_id r \<in> rs_id ` set (started evs)"
    unfolding list_ex_iff image_iff by metis+
  ultimately show ?thesis
    by (cases "find_last (\<lambda>q. chain_of q = chain_of r) (scheduled evs)") (simp_all add: validate_chain_def rbind_Inr_iff taken)
qed

lemma snoc_records:
  "scheduled (evs @ [e]) = scheduled evs @ (case scheduled_of e of None \<Rightarrow> [] | Some r \<Rightarrow> [r])"
  "started (evs @ [e]) = started evs @ (case started_of e of None \<Rightarrow> [] | Some b \<Rightarrow> [b])"
  by (rule map_filter_snoc)+

lemma event_kinds:
  obtains (retry) r where "ev_data e = PluginEvent (RetryScheduled r)" "scheduled_of e = Some r" "started_of e = None"
  | (start) b where "ev_data e = PluginEvent (RetryStarted b)" "scheduled_of e = None" "started_of e = Some b"
  | (other) "\<not> retry_event (ev_data e)" "scheduled_of e = None" "started_of e = None" "validate_retry_event evs e = Inr ()"
proof (cases "ev_data e")
  case (PluginEvent p)
  then show ?thesis
    by (cases p) (simp_all add: retry other start retry_event_def scheduled_of.simps started_of.simps validate_retry_event_def)
qed (simp_all add: other retry_event_def scheduled_of.simps started_of.simps validate_retry_event_def)

lemma valid_chains: "validate_session evs = Inr () \<Longrightarrow> chains_ok (scheduled evs) (started evs)"
proof (induction evs rule: rev_induct)
  case (snoc e evs)
  then have IH: "chains_ok (scheduled evs) (started evs)" and v: "validate_retry_event evs e = Inr ()" by (simp_all add: validate_session_snoc)
  show ?case
  proof (cases rule: event_kinds [where e = e and evs = evs])
    case (retry r)
    have "validate_retry evs r = Inr ()" using v retry by (simp add: validate_retry_event_def)
    note p = validate_retry_parts [OF this]
    have "chains_ok (scheduled evs @ [r]) (started evs)"
      using p(3) unfolding validate_chain_iff Let_def by (intro chains_ok_schedule(1) [OF IH refl _ _ _ p(1,2)]) blast+
    then show ?thesis by (simp add: snoc_records retry)
  next
    case (start b)
    then obtain r where "find_last (\<lambda>r. rd_id r = rs_id b \<and> rd_retry r = rs_retry b) (scheduled evs) = Some r"
      using v by (auto simp: validate_retry_event_def validate_started_def rbind_Inr_iff split: option.splits)
    from find_last_Some [OF this] show ?thesis using IH by (auto simp: snoc_records start chains_ok_def)
  next
    case other
    then show ?thesis using IH by (simp add: snoc_records)
  qed
qed (simp add: chains_ok_def numbered_def List.map_filter_def)

section \<open>The records the plugin writes\<close>

lemma append_record:
  assumes a: "session_append now (PluginEvent p) no_intent s = (s', r)"
  shows "ses_log s' = ses_log s \<or> (\<exists>e. ev_data e = PluginEvent p \<and> ses_log s' = ses_log s @ [e] \<and> r = Inr e)"
  using session_append_effect [OF a] by (cases r) (auto simp: append_candidate_def)

text \<open>What a recovery leaves: the log as it was, or the log with the record it waits for.\<close>

definition wait_recorded :: "(json \<Rightarrow> string) \<Rightarrow> string \<Rightarrow> rat \<Rightarrow> request_error \<Rightarrow> 'x retry_payload event list \<Rightarrow> retry_policy \<Rightarrow> llm_retry_data \<Rightarrow> bool" where
  "wait_recorded stringify uuid random rq evs p r \<longleftrightarrow>
     (let key = stringify (policy_json p); prior = prior_retry evs (re_turn rq) (re_step rq) (re_provider rq) key;
          previous = (case prior of None \<Rightarrow> 0 | Some q \<Rightarrow> rd_retry q) in
      re_policy rq = Some p \<and> \<not> exhausted p previous \<and> retry_delay p (re_failure rq) (previous + 1) random = Some (rd_delay r) \<and>
      rd_id r = (case prior of None \<Rightarrow> uuid | Some q \<Rightarrow> rd_id q) \<and> rd_turn r = re_turn rq \<and> rd_step r = re_step rq \<and>
      rd_provider r = re_provider rq \<and> rd_mode r = policy_mode p \<and> rd_policy_key r = key \<and> rd_retry r = previous + 1 \<and>
      rd_failure r = re_failure rq)"

lemma recover_effect:
  assumes "recover stringify now early down late uuid random rq s = (s', out)"
  shows "case out of
      Waiting r \<Rightarrow> (\<exists>p e. wait_recorded stringify uuid random rq (ses_log s) p r \<and> ev_data e = PluginEvent (RetryScheduled r) \<and>
        ses_log s' = ses_log s @ [e])
    | _ \<Rightarrow> ses_log s' = ses_log s"
proof -
  have backoff: "case out of Waiting q \<Rightarrow> q = r \<and> (\<exists>e. ev_data e = PluginEvent (RetryScheduled r) \<and> ses_log s' = ses_log s @ [e]) | _ \<Rightarrow> ses_log s' = ses_log s"
    if "backoff_wait now late r s = (s', out)" for r
  proof (cases late)
    case False
    obtain s1 a where a: "session_append now (PluginEvent (RetryScheduled r)) no_intent s = (s1, a)" by fastforce
    then show ?thesis using that False session_append_effect [OF a]
      by (cases a) (auto simp: backoff_wait_def append_candidate_def)
  qed (use that in \<open>auto simp: backoff_wait_def\<close>)
  have schedule: "case out of
      Waiting r \<Rightarrow> (\<exists>e. wait_recorded stringify uuid random rq (ses_log s) p r \<and> ev_data e = PluginEvent (RetryScheduled r) \<and> ses_log s' = ses_log s @ [e])
    | _ \<Rightarrow> ses_log s' = ses_log s" if "schedule_retry stringify now late uuid random p rq s = (s', out)" "re_policy rq = Some p" for p
  proof -
    define key where "key = stringify (policy_json p)"
    define prior where "prior = prior_retry (ses_log s) (re_turn rq) (re_step rq) (re_provider rq) key"
    define previous where "previous = (case prior of None \<Rightarrow> 0 | Some r \<Rightarrow> rd_retry r)"
    have sc: "schedule_retry stringify now late uuid random p rq s =
        (if exhausted p previous then (s, Delegated)
         else case retry_delay p (re_failure rq) (previous + 1) random of None \<Rightarrow> (s, Delegated)
           | Some delay \<Rightarrow> backoff_wait now late
              \<lparr>rd_id = (case prior of None \<Rightarrow> uuid | Some r \<Rightarrow> rd_id r), rd_turn = re_turn rq, rd_step = re_step rq,
               rd_provider = re_provider rq, rd_mode = policy_mode p, rd_policy_key = key, rd_retry = previous + 1,
               rd_delay = delay, rd_failure = re_failure rq\<rparr> s)"
      unfolding schedule_retry_def Let_def key_def prior_def previous_def by (rule refl)
    show ?thesis
    proof (cases "exhausted p previous \<or> retry_delay p (re_failure rq) (previous + 1) random = None")
      case True
      then show ?thesis using that sc by (auto split: if_splits)
    next
      case False
      then obtain delay where d: "retry_delay p (re_failure rq) (previous + 1) random = Some delay" by auto
      define r where "r = \<lparr>rd_id = (case prior of None \<Rightarrow> uuid | Some r \<Rightarrow> rd_id r), rd_turn = re_turn rq, rd_step = re_step rq,
               rd_provider = re_provider rq, rd_mode = policy_mode p, rd_policy_key = key, rd_retry = previous + 1,
               rd_delay = delay, rd_failure = re_failure rq\<rparr>"
      have "backoff_wait now late r s = (s', out)"
        using that(1) False d by (simp add: sc r_def)
      moreover have "wait_recorded stringify uuid random rq (ses_log s) p r"
        unfolding wait_recorded_def Let_def key_def [symmetric] prior_def [symmetric] previous_def [symmetric]
        using False d that(2) by (simp add: r_def)
      ultimately show ?thesis using backoff [of r] by (cases out) auto
    qed
  qed
  show ?thesis
  proof (cases "re_policy rq")
    case (Some p)
    have "out \<in> {Delegated, NoAction, RetryNow} \<and> s' = s \<or> schedule_retry stringify now late uuid random p rq s = (s', out)"
      using assms by (cases p) (auto simp: recover_def Some split: if_splits)
    then show ?thesis using schedule [of p] Some by (cases out) auto
  qed (use assms in \<open>auto simp: recover_def\<close>)
qed

lemma retry_delay_bounds:
  assumes p: "policy_ok p" and random: "0 \<le> random" and d: "retry_delay p f n random = Some delay"
  shows "0 \<le> delay \<and> delay \<le> bo_max (policy_backoff p)"
  using d local_delay_bounds [OF policy_backoff_ok [OF p] random, of n]
  by (auto simp: retry_delay_def split: option.splits if_splits retry_policy.splits)

lemma scheduled_length: "length (scheduled evs) \<le> length evs"
  by (simp add: List.map_filter_def)

lemma wait_recorded_validates:
  assumes w: "wait_recorded stringify uuid random rq (ses_log s) p r" and v: "validate_session (ses_log s) = Inr ()"
    and adm: "admissible (Fails now rq early down late uuid random) \<lparr>rt_session = s, rt_wait = None\<rparr>" and key: "\<And>v. stringify v \<noteq> []"
  shows "validate_retry (ses_log s) r = Inr ()"
proof -
  define prior where "prior = find_last (\<lambda>q. chain_of q = chain_of r) (scheduled (ses_log s))"
  have f: "re_policy rq = Some p" "rd_turn r = re_turn rq" "rd_step r = re_step rq" "rd_provider r = re_provider rq" "rd_mode r = policy_mode p"
    "rd_policy_key r = stringify (policy_json p)" "rd_failure r = re_failure rq"
    using w by (simp_all add: wait_recorded_def Let_def)
  have "prior_retry (ses_log s) (re_turn rq) (re_step rq) (re_provider rq) (stringify (policy_json p)) = prior"
    by (simp add: prior_retry_def in_chain_iff prior_def chain_of_def [of r] f)
  then have g: "rd_retry r = (case prior of None \<Rightarrow> 0 | Some q \<Rightarrow> rd_retry q) + 1" "rd_id r = (case prior of None \<Rightarrow> uuid | Some q \<Rightarrow> rd_id q)"
    "\<not> exhausted p (rd_retry r - 1)" "retry_delay p (re_failure rq) (rd_retry r) random = Some (rd_delay r)"
    using w by (simp_all add: wait_recorded_def Let_def)
  have a: "last_open_turn (ses_log s) = Some (re_turn rq)" "last_open_step (ses_log s) = Some (re_turn rq, re_step rq)"
    "provider_for_open_step (ses_log s) (re_turn rq) (re_step rq) = Some (re_provider rq)" "re_provider rq \<noteq> []"
    "validate_failure (re_failure rq) = Inr ()" "policy_ok p" "uuid \<noteq> []" "uuid \<notin> rd_id ` set (scheduled (ses_log s))" "0 \<le> random"
    "int (length (ses_log s)) < max_safe"
    using adm by (simp_all add: Let_def f(1))
  note ok = valid_chains [OF v]
  have n: "rd_retry r = int (length (filter (\<lambda>q. chain_of q = chain_of r) (scheduled (ses_log s)))) + 1"
    using previous_is_count [OF ok, of "chain_of r"] g(1) by (simp add: prior_def)
  moreover have "length (filter (\<lambda>q. chain_of q = chain_of r) (scheduled (ses_log s))) \<le> length (ses_log s)"
    using scheduled_length [of "ses_log s"] by (meson le_trans length_filter_le)
  ultimately have number: "safe_int (rd_retry r)" "1 \<le> rd_retry r" using a(10) by (simp_all add: safe_int_def)
  have old: "q \<in> set (scheduled (ses_log s)) \<and> rd_id q = rd_id r" if "prior = Some q" for q
    using find_last_Some [OF that [unfolded prior_def]] g(2) that by simp
  have fresh: "rd_id r = uuid \<and> uuid \<notin> rd_id ` set (scheduled (ses_log s)) \<and> uuid \<notin> rs_id ` set (started (ses_log s))" if "prior = None"
  proof -
    have "rs_id b \<in> rd_id ` set (scheduled (ses_log s))" if "b \<in> set (started (ses_log s))" for b using ok that unfolding chains_ok_def by (metis imageI)
    then show ?thesis using g(2) that a(8) by auto
  qed
  have i: "rd_id r \<noteq> []"
  proof (cases prior)
    case (Some q)
    then show ?thesis using old [OF Some] ok unfolding chains_ok_def by metis
  qed (use fresh a(7) in simp)
  have limit: "case rd_mode r of ModeAlways \<Rightarrow> True | ModeNormal n \<Rightarrow> safe_int n \<and> 1 \<le> n \<and> rd_retry r \<le> n"
    using g(3) a(6) number(2) by (cases p) (auto simp: f(5))
  have delay: "0 \<le> rd_delay r \<and> rd_delay r \<le> MAX_TIMER_DELAY_MS"
    using retry_delay_bounds [OF a(6,9) g(4)] policy_backoff_ok [OF a(6)] by (auto simp: backoff_ok_def)
  have chain: "validate_chain (ses_log s) r = Inr ()"
    unfolding validate_chain_iff Let_def prior_def [symmetric] using g(1) old fresh by blast
  show ?thesis
    using i number limit delay chain a key by (simp add: validate_retry_def validate_position_def f require_def)
qed

section \<open>The records pass the checks\<close>

text \<open>
  The invariant of a run: the log passes the checks, the attempt waited for is in the log and not started; and every
  record was made by a policy.
\<close>

definition made_by :: "(json \<Rightarrow> string) \<Rightarrow> retry_policy \<Rightarrow> llm_retry_data \<Rightarrow> bool" where
  "made_by stringify p r \<longleftrightarrow> policy_ok p \<and> rd_policy_key r = stringify (policy_json p) \<and> rd_mode r = policy_mode p \<and>
     0 \<le> rd_delay r \<and> rd_delay r \<le> bo_max (policy_backoff p)"

definition retry_inv :: "(json \<Rightarrow> string) \<Rightarrow> llm_retry_data set \<Rightarrow> 'x retry_state \<Rightarrow> bool" where
  "retry_inv stringify old st \<longleftrightarrow>
     (let evs = ses_log (rt_session st) in
      validate_session evs = Inr () \<and> (\<forall>r\<in>set (scheduled evs) - old. \<exists>p. made_by stringify p r) \<and>
      (case rt_wait st of None \<Rightarrow> True
       | Some r \<Rightarrow> r \<in> set (scheduled evs) \<and> (\<forall>b\<in>set (started evs). rs_id b = rd_id r \<longrightarrow> rs_retry b \<noteq> rd_retry r)))"

lemma retry_inv_same_log: "retry_inv stringify old st \<Longrightarrow> ses_log s = ses_log (rt_session st) \<Longrightarrow> retry_inv stringify old (st\<lparr>rt_session := s\<rparr>)"
  by (simp add: retry_inv_def)

lemma retry_inv_elsewhere:
  assumes inv: "retry_inv stringify old st" and d: "\<not> retry_event d"
  shows "retry_inv stringify old (st\<lparr>rt_session := fst (session_append now d intent (rt_session st))\<rparr>)"
proof -
  obtain s' a where a: "session_append now d intent (rt_session st) = (s', a)" by fastforce
  show ?thesis
  proof (cases a)
    case (Inl err)
    then show ?thesis using retry_inv_same_log [OF inv] session_append_effect [OF a] by (simp add: a)
  next
    case (Inr e)
    then have e: "ev_data e = d" "ses_log s' = ses_log (rt_session st) @ [e]" using session_append_effect [OF a] by (simp_all add: append_candidate_def)
    show ?thesis
    proof (cases rule: event_kinds [where e = e and evs = "ses_log (rt_session st)"])
      case other
      then show ?thesis using inv by (cases "rt_wait st") (simp_all add: retry_inv_def Let_def a e validate_session_snoc snoc_records)
    qed (use d in \<open>simp_all add: e retry_event_def\<close>)
  qed
qed

lemma retry_inv_schedule:
  assumes inv: "retry_inv stringify old st" and w: "wait_recorded stringify uuid random rq (ses_log (rt_session st)) p r"
    and adm: "admissible (Fails now rq early down late uuid random) st" and none: "rt_wait st = None" and key: "\<And>v. stringify v \<noteq> []"
    and e: "ev_data e = PluginEvent (RetryScheduled r)" "ses_log s' = ses_log (rt_session st) @ [e]"
  shows "retry_inv stringify old (st\<lparr>rt_session := s', rt_wait := Some r\<rparr>)"
proof -
  let ?evs = "ses_log (rt_session st)"
  have v: "validate_session ?evs = Inr ()" and made: "\<forall>r\<in>set (scheduled ?evs) - old. \<exists>p. made_by stringify p r"
    using inv by (simp_all add: retry_inv_def Let_def)
  have adm': "admissible (Fails now rq early down late uuid random) \<lparr>rt_session = rt_session st, rt_wait = None\<rparr>" using adm by simp
  have vr: "validate_retry ?evs r = Inr ()" by (rule wait_recorded_validates [OF w v adm' key])
  note p = validate_retry_parts [OF vr]
  have new: "\<forall>b\<in>set (started ?evs). rs_id b = rd_id r \<longrightarrow> rs_retry b \<noteq> rd_retry r"
    using p(3) unfolding validate_chain_iff Let_def
    by (intro ballI impI chains_ok_schedule(2) [OF valid_chains [OF v] refl _ _ _ p(1,2)]) blast+
  have w': "re_policy rq = Some p" "rd_policy_key r = stringify (policy_json p)" "rd_mode r = policy_mode p"
    "\<exists>n. retry_delay p (re_failure rq) n random = Some (rd_delay r)"
    using w by (auto simp: wait_recorded_def Let_def)
  have ok: "policy_ok p" "0 \<le> random" using adm by (simp_all add: Let_def w'(1))
  obtain n where n: "retry_delay p (re_failure rq) n random = Some (rd_delay r)" using w'(4) by blast
  have "made_by stringify p r" using retry_delay_bounds [OF ok n] by (simp add: made_by_def ok w')
  moreover have "scheduled_of e = Some r" "started_of e = None" "validate_retry_event ?evs e = Inr ()"
    using vr by (simp_all add: scheduled_of.simps started_of.simps validate_retry_event_def e(1))
  ultimately show ?thesis using v made new by (auto simp: retry_inv_def Let_def e(2) validate_session_snoc snoc_records)
qed

lemma retry_inv_started:
  assumes inv: "retry_inv stringify old st" and wait: "rt_wait st = Some r"
    and b: "b = \<lparr>rs_id = rd_id r, rs_turn = rd_turn r, rs_step = rd_step r, rs_retry = rd_retry r\<rparr>"
    and e: "ev_data e = PluginEvent (RetryStarted b)" "ses_log s' = ses_log (rt_session st) @ [e]"
  shows "retry_inv stringify old (st\<lparr>rt_session := s', rt_wait := None\<rparr>)"
proof -
  let ?evs = "ses_log (rt_session st)"
  have v: "validate_session ?evs = Inr ()" and made: "\<forall>r\<in>set (scheduled ?evs) - old. \<exists>p. made_by stringify p r" and
    r: "r \<in> set (scheduled ?evs)" "\<forall>b\<in>set (started ?evs). rs_id b = rd_id r \<longrightarrow> rs_retry b \<noteq> rd_retry r"
    using inv by (simp_all add: retry_inv_def Let_def wait)
  note ok = valid_chains [OF v]
  obtain q where q: "find_last (\<lambda>q. rd_id q = rd_id r \<and> rd_retry q = rd_retry r) (scheduled ?evs) = Some q"
    using r(1) find_last_None [of _ "scheduled ?evs"] by (metis (mono_tags, lifting) option.exhaust)
  from find_last_Some [OF q] have "chain_of q = chain_of r" using ok r(1) unfolding chains_ok_def by metis
  moreover have "rd_id r \<noteq> []" using ok r(1) unfolding chains_ok_def by metis
  moreover have "\<not> list_ex (\<lambda>b. rs_id b = rd_id r \<and> rs_retry b = rd_retry r) (started ?evs)" using r(2) by (auto simp: list_ex_iff)
  ultimately have "validate_started ?evs b = Inr ()" using q by (simp add: validate_started_def b chain_of_def require_def)
  then show ?thesis using v made
    by (simp add: retry_inv_def Let_def e scheduled_of.simps started_of.simps validate_session_snoc validate_retry_event_def snoc_records)
qed

lemma retry_inv_step:
  assumes inv: "retry_inv stringify old st" and step: "retry_step stringify i st = Some st'" and adm: "admissible i st"
    and key: "\<And>v. stringify v \<noteq> []"
  shows "retry_inv stringify old st'"
proof (cases i)
  case (Elsewhere now d intent)
  then show ?thesis using retry_inv_elsewhere [OF inv, of d] step adm by auto
next
  case (Fails now rq early down late uuid random)
  obtain s' out where r: "recover stringify now early down late uuid random rq (rt_session st) = (s', out)" by fastforce
  note f = recover_effect [OF r]
  have none: "rt_wait st = None" using step by (simp add: Fails split: if_splits)
  show ?thesis
  proof (cases "\<exists>q. out = Waiting q")
    case True
    then obtain q where q: "out = Waiting q" by blast
    then obtain p e where w: "wait_recorded stringify uuid random rq (ses_log (rt_session st)) p q" "ev_data e = PluginEvent (RetryScheduled q)"
      "ses_log s' = ses_log (rt_session st) @ [e]"
      using f by auto
    from retry_inv_schedule [OF inv w(1) adm [unfolded Fails] none key w(2,3)] show ?thesis using step none by (simp add: Fails r q)
  next
    case False
    then have "st' = st\<lparr>rt_session := s'\<rparr>" "ses_log s' = ses_log (rt_session st)" using step none f by (cases out; simp add: Fails r)+
    then show ?thesis using retry_inv_same_log [OF inv] by simp
  qed
next
  case (WaitEnds now elapsed)
  then obtain r where wait: "rt_wait st = Some r" using step by (cases "rt_wait st") auto
  then have st': "st' = st\<lparr>rt_session := fst (after_wait now elapsed r (rt_session st)), rt_wait := None\<rparr>" using step by (simp add: WaitEnds)
  define b where "b = \<lparr>rs_id = rd_id r, rs_turn = rd_turn r, rs_step = rd_step r, rs_retry = rd_retry r\<rparr>"
  have idle: "retry_inv stringify old (st\<lparr>rt_session := s, rt_wait := None\<rparr>)" if "ses_log s = ses_log (rt_session st)" for s
    using inv that by (simp add: retry_inv_def Let_def)
  obtain s' a where a: "session_append now (PluginEvent (RetryStarted b)) no_intent (rt_session st) = (s', a)" by fastforce
  show ?thesis
  proof (cases "elapsed \<and> (\<exists>e. a = Inr e)")
    case True
    then obtain e where e: "a = Inr e" "ev_data e = PluginEvent (RetryStarted b)" "ses_log s' = ses_log (rt_session st) @ [e]"
      using session_append_effect [OF a] by (auto simp: append_candidate_def)
    from retry_inv_started [OF inv wait b_def e(2,3)] show ?thesis using True a e(1) by (simp add: st' after_wait_def b_def)
  next
    case False
    then have "ses_log (fst (after_wait now elapsed r (rt_session st))) = ses_log (rt_session st)"
      using a session_append_effect [OF a] by (cases a) (auto simp: after_wait_def b_def)
    from idle [OF this] show ?thesis by (simp add: st')
  qed
qed

lemma run_retry_inv:
  "retry_inv stringify old st \<Longrightarrow> run_retry stringify is st = Some st' \<Longrightarrow> (\<And>v. stringify v \<noteq> []) \<Longrightarrow> retry_inv stringify old st'"
proof (induction "is" arbitrary: st)
  case (Cons i "is")
  then obtain st1 where "admissible i st" "retry_step stringify i st = Some st1" "run_retry stringify is st1 = Some st'"
    by (auto simp: bind_eq_Some_conv split: if_splits)
  then show ?case using Cons.IH retry_inv_step [OF Cons.prems(1)] Cons.prems(3) by blast
qed simp


text \<open>Policies with different limits have different keys, as different arrays have different JSON texts.\<close>

definition key_tells_mode :: "(json \<Rightarrow> string) \<Rightarrow> bool" where
  "key_tells_mode stringify \<longleftrightarrow> (\<forall>p q. policy_ok p \<and> policy_ok q \<and> stringify (policy_json p) = stringify (policy_json q) \<longrightarrow> policy_mode p = policy_mode q)"

text \<open>
  In a log that starts without retries a bounded policy never schedules more than its limit of retries for one step
  and provider, and no retry waits longer than the maximal delay of the policy that made it.
\<close>

theorem normal_retries_are_bounded:
  assumes run: "run_retry stringify is \<lparr>rt_session = s, rt_wait = None\<rparr> = Some st" and start: "scheduled (ses_log s) = []" "started (ses_log s) = []"
    and key: "\<And>v. stringify v \<noteq> []" "key_tells_mode stringify" and p: "policy_ok (NormalPolicy n codes b)"
  shows "length (filter (in_chain turn step provider (stringify (policy_json (NormalPolicy n codes b)))) (scheduled (ses_log (rt_session st)))) \<le> nat n \<and>
    (\<forall>r\<in>set (scheduled (ses_log (rt_session st))). \<exists>p. made_by stringify p r)"
proof -
  let ?evs = "ses_log (rt_session st)" and ?c = "(turn, step, provider, stringify (policy_json (NormalPolicy n codes b)))"
  have "validate_session evs = Inr ()" if "scheduled evs = []" "started evs = []" for evs :: "'a retry_payload event list"
    using that
  proof (induction evs rule: rev_induct)
    case (snoc e evs)
    then show ?case
      by (cases rule: event_kinds [where e = e and evs = evs]) (simp_all add: snoc_records validate_session_snoc)
  qed (simp add: validate_session_def)
  then have "retry_inv stringify {} \<lparr>rt_session = s, rt_wait = None\<rparr>" using start by (simp add: retry_inv_def)
  from run_retry_inv [OF this run key(1)] have v: "validate_session ?evs = Inr ()" and made: "\<forall>r\<in>set (scheduled ?evs). \<exists>p. made_by stringify p r"
    by (simp_all add: retry_inv_def Let_def)
  note ok = valid_chains [OF v]
  let ?chain = "filter (\<lambda>r. chain_of r = ?c) (scheduled ?evs)"
  have num: "numbered ?chain" using ok unfolding chains_ok_def by blast
  have "length ?chain \<le> nat n"
  proof (cases "?chain = []")
    case False
    then have "last ?chain \<in> set ?chain" by (rule last_in_set)
    then have r: "last ?chain \<in> set (scheduled ?evs)" "chain_of (last ?chain) = ?c" by (simp_all only: set_filter mem_Collect_eq)
    obtain q where "made_by stringify q (last ?chain)" using made r(1) by blast
    then have q: "policy_ok q" "rd_mode (last ?chain) = policy_mode q" "stringify (policy_json q) = rd_policy_key (last ?chain)"
      by (simp_all add: made_by_def)
    moreover have "rd_policy_key (last ?chain) = stringify (policy_json (NormalPolicy n codes b))"
      using r(2) unfolding chain_of_def by (simp only: prod.inject)
    ultimately have "policy_mode q = policy_mode (NormalPolicy n codes b)" using key(2) p unfolding key_tells_mode_def by metis
    then have m: "rd_mode (last ?chain) = ModeNormal n" by (simp only: q(2) policy_mode.simps)
    have "case rd_mode (last ?chain) of ModeAlways \<Rightarrow> True | ModeNormal n \<Rightarrow> rd_retry (last ?chain) \<le> n"
      using ok r(1) unfolding chains_ok_def by blast
    then have "rd_retry (last ?chain) \<le> n" by (simp only: m retry_mode.case)
    then show ?thesis using numbered_last [OF num False] by linarith
  qed simp
  then show ?thesis using made by (simp add: in_chain_iff)
qed

section \<open>Samples\<close>

text \<open>A text of the policy array that tells the mode and the limit.\<close>

definition sample_key :: "json \<Rightarrow> string" where
  "sample_key v = (case v of JArr (JStr t # JNum n # _) \<Rightarrow> t @ (if t = ''normal'' then int_string \<lfloor>n\<rfloor> else []) | _ \<Rightarrow> ''-'')"

definition retry_text :: "json \<Rightarrow> string" where
  "retry_text v = CHR ''['' # sample_key v"

lemma retry_text_tells_mode: "key_tells_mode retry_text"
proof -
  have "m = n" if "int_string m = int_string n" "0 \<le> m" "0 \<le> n" for m n
    using that by (auto simp: int_string_def dest: nat_string_inj)
  then have "policy_mode p = policy_mode q" if "policy_ok p" "policy_ok q" "sample_key (policy_json p) = sample_key (policy_json q)" for p q
    using that by (cases p; cases q) (auto simp: sample_key_def policy_json_def)
  then show ?thesis by (auto simp: key_tells_mode_def retry_text_def)
qed

definition sample_retry_session :: "unit retry_payload session" where
  "sample_retry_session = fold (\<lambda>d s. fst (session_append 0 d no_intent s))
     [TurnStart 1, StepStart 1 1,
      RequestHeader \<lparr>hdr_config = JObj [(''provider'', JStr ''p'')], hdr_adapter_defaults = None, hdr_system = None, hdr_tools = None\<rparr> HeaderInitial]
     (empty_session ''s'' (blank_header ''s''))"

definition sample_policy :: retry_policy where
  "sample_policy = NormalPolicy 2 [''SERVER''] \<lparr>bo_initial = 100, bo_max = 1000, bo_jitter = 0\<rparr>"

definition sample_failure :: request_error where
  "sample_failure = \<lparr>re_turn = 1, re_step = 1, re_provider = ''p'',
     re_failure = \<lparr>fail_message = ''busy'', fail_code = ''SERVER'', fail_status = Some 503, fail_retry_after = Some 250, fail_request_id = None\<rparr>,
     re_policy = Some sample_policy\<rparr>"

definition sample_retries :: "unit retry_input list" where
  "sample_retries =
     [Fails 1 sample_failure False DownError False ''r1'' (1 / 2), Elsewhere 2 (TodoWrite []) no_intent, WaitEnds 3 True,
      Fails 4 sample_failure False DownError False ''r2'' (1 / 2), WaitEnds 5 True,
      Fails 6 sample_failure False DownError False ''r3'' (1 / 2)]"

lemma sample_retries_run:
  "case run_retry retry_text sample_retries \<lparr>rt_session = sample_retry_session, rt_wait = None\<rparr> of None \<Rightarrow> False
   | Some st \<Rightarrow> map rd_retry (scheduled (ses_log (rt_session st))) = [1, 2] \<and> length (started (ses_log (rt_session st))) = 2"
  "scheduled (ses_log sample_retry_session) = []" "started (ses_log sample_retry_session) = []"
  by code_simp+

lemma sample_retries_end:
  obtains st where "run_retry retry_text sample_retries \<lparr>rt_session = sample_retry_session, rt_wait = None\<rparr> = Some st"
    "map rd_retry (scheduled (ses_log (rt_session st))) = [1, 2]"
  using sample_retries_run(1) by (auto split: option.splits)


theorem normal_retries_are_bounded_witness:
  "\<exists>st. run_retry retry_text sample_retries \<lparr>rt_session = sample_retry_session, rt_wait = None\<rparr> = Some st \<and>
     length (filter (in_chain 1 1 ''p'' (retry_text (policy_json sample_policy))) (scheduled (ses_log (rt_session st)))) \<le> 2"
proof -
  obtain st where st: "run_retry retry_text sample_retries \<lparr>rt_session = sample_retry_session, rt_wait = None\<rparr> = Some st"
    by (rule sample_retries_end)
  have nonempty: "retry_text v \<noteq> []" for v by (simp add: retry_text_def)
  have p: "policy_ok (NormalPolicy 2 [''SERVER''] \<lparr>bo_initial = 100, bo_max = 1000, bo_jitter = 0\<rparr>)" by code_simp
  from normal_retries_are_bounded [OF st sample_retries_run(2,3) nonempty retry_text_tells_mode p, of 1 1 "''p''"] st
  show ?thesis by (simp add: sample_policy_def)
qed

end
