(* ===== verification/Utc_Time.thy ===== *)
theory Utc_Time
  imports Prelude
begin

text \<open>
  What the scheduler uses of the language's \<open>Date\<close>: UTC calendar fields of an instant and back, \<open>toISOString\<close>, and
  \<open>Date.parse\<close> of the strings it prints. An instant is the number of milliseconds since 1970 in the proleptic
  Gregorian calendar.
\<close>

section \<open>Days\<close>

text \<open>Years count from March here, in cycles of 400 years; a year is \<open>start_of\<close> its number days into the cycle.\<close>

definition start_of :: "int \<Rightarrow> int" where
  "start_of y = 365 * y + y div 4 - y div 100"

definition make_day :: "int \<Rightarrow> int \<Rightarrow> int \<Rightarrow> int" where
  "make_day year month day =
     (let ym = year + month div 12; m = month mod 12 + 1; y = (if m \<le> 2 then ym - 1 else ym);
          mp = (if 2 < m then m - 3 else m + 9)
      in (y div 400) * 146097 + start_of (y mod 400) + (153 * mp + 2) div 5 + day - 1 - 719468)"

definition year_of_cycle :: "int \<Rightarrow> int" where
  "year_of_cycle n =
     (let c = min 3 (n div 36524); r = n - 36524 * c; q = min 24 (r div 1461); s = r - 1461 * q; y = min 3 (s div 365)
      in 100 * c + 4 * q + y)"

definition civil_of_day :: "int \<Rightarrow> int \<times> int \<times> int" where
  "civil_of_day days =
     (let z = days + 719468; cycle = z div 146097; n = z mod 146097; yc = year_of_cycle n; doy = n - start_of yc;
          mp = (5 * doy + 2) div 153; d = doy - (153 * mp + 2) div 5 + 1; m = (if mp < 10 then mp + 3 else mp - 9)
      in (yc + 400 * cycle + (if m \<le> 2 then 1 else 0), m, d))"

lemma year_of_cycle_bounds:
  assumes "0 \<le> n" "n < 146097"
  shows "0 \<le> year_of_cycle n" "year_of_cycle n < 400" "0 \<le> n - start_of (year_of_cycle n)" "n - start_of (year_of_cycle n) \<le> 365"
proof -
  define c where "c = min 3 (n div 36524)"
  define r where "r = n - 36524 * c"
  define q where "q = min 24 (r div 1461)"
  define s where "s = r - 1461 * q"
  define y where "y = min 3 (s div 365)"
  have c: "0 \<le> c" "c \<le> 3" "0 \<le> r" "r \<le> 36524" "c < 3 \<longrightarrow> r < 36524" using assms by (auto simp: c_def r_def min_def)
  have q: "0 \<le> q" "q \<le> 24" "0 \<le> s" "s \<le> 1460" using c by (auto simp: q_def s_def min_def)
  have q24: "q = 24 \<longrightarrow> s \<le> 1460 \<and> (c < 3 \<longrightarrow> s < 1460)" using c q by (auto simp: s_def)
  have y: "0 \<le> y" "y \<le> 3" "0 \<le> s - 365 * y" "s - 365 * y \<le> 365" "y < 3 \<longrightarrow> s - 365 * y < 365" using q by (auto simp: y_def min_def)
  have yc: "year_of_cycle n = 100 * c + 4 * q + y" by (simp add: year_of_cycle_def Let_def c_def r_def q_def s_def y_def)
  have q': "(100 * c + 4 * q + y) div 4 = 25 * c + q" using y by simp
  have c': "(100 * c + 4 * q + y) div 100 = c" using q y by simp
  have st: "start_of (100 * c + 4 * q + y) = 36524 * c + 1461 * q + 365 * y" unfolding start_of_def q' c' by simp
  show "0 \<le> year_of_cycle n" "year_of_cycle n < 400" using c q y by (simp_all add: yc)
  have n: "n - start_of (year_of_cycle n) = s - 365 * y" by (simp add: yc st s_def r_def)
  then show "0 \<le> n - start_of (year_of_cycle n)" "n - start_of (year_of_cycle n) \<le> 365" using y by simp_all
qed

lemma month_split:
  fixes doy :: int
  assumes "0 \<le> doy" "doy \<le> 365" "mp = (5 * doy + 2) div 153" "t = (153 * mp + 2) div 5"
  shows "0 \<le> mp \<and> mp \<le> 11 \<and> t \<le> doy \<and> doy - t \<le> 30"
proof -
  have mp: "153 * mp \<le> 5 * doy + 2" "5 * doy + 2 < 153 * mp + 153" unfolding assms(3) by simp_all
  have "5 * t \<le> 153 * mp + 2" "153 * mp + 2 < 5 * t + 5" unfolding assms(4) by simp_all
  with mp assms(1,2) show ?thesis by linarith
qed

lemma civil_of_day_spec:
  obtains y m d where "civil_of_day days = (y, m, d)" "make_day y (m - 1) d = days" "1 \<le> m" "m \<le> 12" "1 \<le> d" "d \<le> 31"
    "-719162 \<le> days \<Longrightarrow> 1 \<le> y" "days \<le> 2932896 \<Longrightarrow> y \<le> 9999"
proof -
  define z where "z = days + 719468"
  define cycle where "cycle = z div 146097"
  define n where "n = z mod 146097"
  define yc where "yc = year_of_cycle n"
  define doy where "doy = n - start_of yc"
  define mp where "mp = (5 * doy + 2) div 153"
  define t where "t = (153 * mp + 2) div 5"
  define m where "m = (if mp < 10 then mp + 3 else mp - 9)"
  define y where "y = yc + 400 * cycle + (if m \<le> 2 then 1 else 0)"
  have zn: "z = cycle * 146097 + n" "0 \<le> n" "n < 146097" by (simp_all add: cycle_def n_def)
  have yc: "0 \<le> yc" "yc < 400" "0 \<le> doy" "doy \<le> 365" using year_of_cycle_bounds [OF zn(2,3)] by (simp_all add: yc_def doy_def)
  have mp: "0 \<le> mp" "mp \<le> 11" "t \<le> doy" "doy - t \<le> 30" using month_split [OF yc(3,4) mp_def t_def] by simp_all
  have civil: "civil_of_day days = (y, m, doy - t + 1)"
    unfolding civil_of_day_def Let_def y_def m_def t_def mp_def doy_def yc_def n_def cycle_def z_def by (rule refl)
  have m: "1 \<le> m" "m \<le> 12" "(m - 1) div 12 = 0" "(m - 1) mod 12 = m - 1" "m \<le> 2 \<longleftrightarrow> 10 \<le> mp" "(if 2 < m then m - 3 else m + 9) = mp"
    using mp by (simp_all add: m_def)
  have y': "(if m \<le> 2 then y - 1 else y) = yc + 400 * cycle" by (simp add: y_def)
  have "(yc + 400 * cycle) div 400 = cycle" "(yc + 400 * cycle) mod 400 = yc" using yc by simp_all
  moreover have m1: "m - 1 + 1 = m" by simp
  ultimately have "make_day y (m - 1) (doy - t + 1) = cycle * 146097 + start_of yc + t + (doy - t + 1) - 1 - 719468"
    by (simp only: make_day_def Let_def m(3,4,6) m1 add_0_right y' t_def)
  also have "\<dots> = days" using zn(1) by (simp add: doy_def z_def)
  finally have day: "make_day y (m - 1) (doy - t + 1) = days" .
  have low: "1 \<le> y" if "-719162 \<le> days"
  proof -
    have z: "306 \<le> z" using that by (simp add: z_def)
    then have c: "0 \<le> cycle" "cycle = 0 \<longrightarrow> 306 \<le> n" using zn by linarith+
    show ?thesis
    proof (cases "cycle = 0 \<and> yc = 0")
      case True
      then have "306 \<le> doy" using c by (simp add: doy_def start_of_def)
      then have "10 \<le> mp" unfolding mp_def by simp
      then show ?thesis using True m(5) by (simp add: y_def)
    next
      case False
      then have "1 \<le> cycle \<or> 1 \<le> yc" using c(1) yc(1) by linarith
      then have "1 \<le> yc + 400 * cycle" using c(1) yc(1) by linarith
      then show ?thesis by (simp add: y_def)
    qed
  qed
  have high: "y \<le> 9999" if "days \<le> 2932896"
  proof -
    have "z \<le> 3652364" using that by (simp add: z_def)
    then have c: "cycle \<le> 24" "cycle = 24 \<longrightarrow> n \<le> 146036" using zn by linarith+
    show ?thesis
    proof (cases "cycle = 24 \<and> yc = 399")
      case True
      then have "doy \<le> 305" using c by (simp add: doy_def start_of_def)
      then have "mp < 10" unfolding mp_def by simp
      then show ?thesis using True m(5) by (simp add: y_def)
    next
      case False
      then have "yc + 400 * cycle \<le> 9998" using c(1) yc(2) by linarith
      then show ?thesis by (simp add: y_def)
    qed
  qed
  show ?thesis by (rule that [OF civil day m(1,2) _ _ low high]) (use mp in simp_all)
qed

section \<open>Instants\<close>

record utc_fields =
  uf_year :: int
  uf_month :: int
  uf_day :: int
  uf_hour :: int
  uf_minute :: int
  uf_second :: int
  uf_milli :: int

definition DAY_MS :: int where
  "DAY_MS = 86400000"

definition fields_of :: "int \<Rightarrow> utc_fields" where
  "fields_of e = (case civil_of_day (e div DAY_MS) of (y, m, d) \<Rightarrow>
     let t = e mod DAY_MS in
     \<lparr>uf_year = y, uf_month = m, uf_day = d, uf_hour = t div 3600000, uf_minute = t div 60000 mod 60,
      uf_second = t div 1000 mod 60, uf_milli = t mod 1000\<rparr>)"

definition instant_of :: "utc_fields \<Rightarrow> int" where
  "instant_of f = make_day (uf_year f) (uf_month f - 1) (uf_day f) * DAY_MS + uf_hour f * 3600000 + uf_minute f * 60000 +
     uf_second f * 1000 + uf_milli f"

lemma day_parts: "t = t div 3600000 * 3600000 + t div 60000 mod 60 * 60000 + t div 1000 mod 60 * 1000 + t mod 1000" for t :: int
proof -
  have "t = t div 1000 * 1000 + t mod 1000" "t div 1000 = t div 60000 * 60 + t div 1000 mod 60" "t div 60000 = t div 3600000 * 60 + t div 60000 mod 60"
    using zdiv_zmult2_eq [of 60 t 1000] zdiv_zmult2_eq [of 60 t 60000] by simp_all
  then show ?thesis by linarith
qed

lemma instant_of_fields: "instant_of (fields_of e) = e"
proof -
  obtain y m d where c: "civil_of_day (e div DAY_MS) = (y, m, d)" "make_day y (m - 1) d = e div DAY_MS" by (rule civil_of_day_spec [of "e div DAY_MS"])
  define t where "t = e mod DAY_MS"
  have "instant_of (fields_of e) = e div DAY_MS * DAY_MS + t div 3600000 * 3600000 + t div 60000 mod 60 * 60000 + t div 1000 mod 60 * 1000 + t mod 1000"
    unfolding instant_of_def fields_of_def c(1) Let_def t_def [symmetric] by (simp add: c(2))
  moreover have "e = e div DAY_MS * DAY_MS + t" by (simp add: t_def)
  ultimately show ?thesis using day_parts [of t] by linarith
qed

text \<open>The instants of four-digit years.\<close>

definition MIN_FOUR_DIGIT_YEAR_MS :: int where
  "MIN_FOUR_DIGIT_YEAR_MS = -62135596800000"

definition MAX_FOUR_DIGIT_YEAR_MS :: int where
  "MAX_FOUR_DIGIT_YEAR_MS = 253402300799999"

definition four_digit_year :: "int \<Rightarrow> bool" where
  "four_digit_year e \<longleftrightarrow> MIN_FOUR_DIGIT_YEAR_MS \<le> e \<and> e \<le> MAX_FOUR_DIGIT_YEAR_MS"

definition fields_ok :: "utc_fields \<Rightarrow> bool" where
  "fields_ok f \<longleftrightarrow> 1 \<le> uf_year f \<and> uf_year f \<le> 9999 \<and> 1 \<le> uf_month f \<and> uf_month f \<le> 12 \<and> 1 \<le> uf_day f \<and> uf_day f \<le> 31 \<and>
     0 \<le> uf_hour f \<and> uf_hour f \<le> 23 \<and> 0 \<le> uf_minute f \<and> uf_minute f \<le> 59 \<and> 0 \<le> uf_second f \<and> uf_second f \<le> 59 \<and>
     0 \<le> uf_milli f \<and> uf_milli f \<le> 999"

lemma fields_of_ok: "four_digit_year e \<Longrightarrow> fields_ok (fields_of e)"
proof -
  assume e: "four_digit_year e"
  have days: "-719162 \<le> e div DAY_MS" "e div DAY_MS \<le> 2932896"
    using e zdiv_mono1 [of MIN_FOUR_DIGIT_YEAR_MS e DAY_MS] zdiv_mono1 [of e MAX_FOUR_DIGIT_YEAR_MS DAY_MS]
    by (simp_all add: four_digit_year_def MIN_FOUR_DIGIT_YEAR_MS_def MAX_FOUR_DIGIT_YEAR_MS_def DAY_MS_def)
  obtain y m d where c: "civil_of_day (e div DAY_MS) = (y, m, d)" "1 \<le> m" "m \<le> 12" "1 \<le> d" "d \<le> 31" "1 \<le> y" "y \<le> 9999"
    using civil_of_day_spec [of "e div DAY_MS"] days by metis
  have t: "0 \<le> e mod DAY_MS" "e mod DAY_MS < 86400000" by (simp_all add: DAY_MS_def)
  then have h: "0 \<le> e mod DAY_MS div 3600000" "e mod DAY_MS div 3600000 \<le> 23" by (simp_all add: pos_imp_zdiv_nonneg_iff)
  have m: "x mod 60 \<le> 59" "x mod 1000 \<le> 999" for x :: int using pos_mod_bound [of 60 x] pos_mod_bound [of 1000 x] by linarith+
  show ?thesis using c(2-) h by (simp add: fields_ok_def fields_of_def Let_def c(1) m)
qed

lemma make_day_range:
  assumes "1 \<le> y" "y \<le> 9999" "1 \<le> m" "m \<le> 12" "1 \<le> d" "d \<le> 31"
  shows "-719162 \<le> make_day y (m - 1) d" "make_day y (m - 1) d \<le> 2932896"
proof -
  define v where "v = (if m \<le> 2 then y - 1 else y)"
  define mp where "mp = (if 2 < m then m - 3 else m + 9)"
  define c where "c = v div 400"
  define r where "r = v mod 400"
  define t where "t = (153 * mp + 2) div 5"
  have m: "(m - 1) div 12 = 0" "(m - 1) mod 12 + 1 = m" using assms(3,4) by simp_all
  have day: "make_day y (m - 1) d = c * 146097 + start_of r + t + d - 1 - 719468"
    unfolding make_day_def Let_def m v_def c_def r_def t_def mp_def by simp
  have v: "0 \<le> v" "v \<le> 9999" "v = 0 \<longrightarrow> 10 \<le> mp" "v = 9999 \<longrightarrow> mp \<le> 9" "0 \<le> mp" "mp \<le> 11"
    using assms by (auto simp: v_def mp_def)
  have vr: "v = c * 400 + r" "0 \<le> r" "r < 400" by (simp_all add: c_def r_def)
  have cr: "0 \<le> c" "c \<le> 24" "c = 24 \<longrightarrow> r \<le> 399" "c = 0 \<and> r = 0 \<longrightarrow> 10 \<le> mp" "c = 24 \<and> r = 399 \<longrightarrow> mp \<le> 9"
    using vr v by auto
  have t: "5 * t \<le> 153 * mp + 2" "153 * mp + 2 < 5 * t + 5" by (simp_all add: t_def)
  have s: "start_of r = 365 * r + r div 4 - r div 100" by (simp add: start_of_def)
  have q: "0 \<le> r div 4" "r div 4 \<le> 99" "0 \<le> r div 100" "r div 100 \<le> 3" "r = 0 \<longrightarrow> r div 4 = 0 \<and> r div 100 = 0" "r = 399 \<longrightarrow> r div 100 = 3"
    using vr by auto
  show "-719162 \<le> make_day y (m - 1) d"
  proof (cases "c = 0 \<and> r = 0")
    case True
    then show ?thesis using cr t q s assms(5) by (simp add: day)
  next
    case False
    then have "1 \<le> c \<or> 1 \<le> r" using cr vr by linarith
    then show ?thesis
    proof
      assume "1 \<le> c"
      then show ?thesis using t q s assms(5) vr(2) v(5) unfolding day by linarith
    next
      assume "1 \<le> r"
      then show ?thesis using cr(1) t q s assms(5) v(5) unfolding day by linarith
    qed
  qed
  show "make_day y (m - 1) d \<le> 2932896"
  proof (cases "c = 24 \<and> r = 399")
    case True
    then have "mp \<le> 9" "r div 4 \<le> 99" "r div 100 = 3" using cr q by simp_all
    then show ?thesis using True t s assms(6) by (simp add: day)
  next
    case False
    then have "c \<le> 23 \<or> r \<le> 398" using cr vr by linarith
    then show ?thesis
    proof
      assume "c \<le> 23"
      then show ?thesis using t q s assms(6) vr(3) v(6) unfolding day by linarith
    next
      assume "r \<le> 398"
      then show ?thesis using cr(2) t q s assms(6) v(6) unfolding day by linarith
    qed
  qed
qed

lemma fields_ok_instant:
  assumes "fields_ok f" shows "four_digit_year (instant_of f)"
proof -
  note b = assms [unfolded fields_ok_def]
  note d = make_day_range [of "uf_year f" "uf_month f" "uf_day f"]
  show ?thesis using b d
    by (simp add: four_digit_year_def MIN_FOUR_DIGIT_YEAR_MS_def MAX_FOUR_DIGIT_YEAR_MS_def instant_of_def DAY_MS_def)
qed

section \<open>Strings\<close>

text \<open>A number with leading zeros up to \<open>n\<close> digits.\<close>

definition padded :: "nat \<Rightarrow> int \<Rightarrow> string" where
  "padded n k = replicate (n - length (nat_string (nat k))) (CHR ''0'') @ nat_string (nat k)"

text \<open>\<open>new Date(e).toISOString()\<close>: years outside four digits are printed with a sign and six digits.\<close>

definition year_text :: "int \<Rightarrow> string" where
  "year_text y = (if 0 \<le> y \<and> y \<le> 9999 then padded 4 y else (if y < 0 then CHR ''-'' else CHR ''+'') # padded 6 \<bar>y\<bar>)"

definition iso_string :: "int \<Rightarrow> string" where
  "iso_string e = (let f = fields_of e in
     year_text (uf_year f) @ ''-'' @ padded 2 (uf_month f) @ ''-'' @ padded 2 (uf_day f) @ ''T'' @ padded 2 (uf_hour f) @ '':'' @
     padded 2 (uf_minute f) @ '':'' @ padded 2 (uf_second f) @ ''.'' @ padded 3 (uf_milli f) @ ''Z'')"

text \<open>The digits of a string at a position, and their value.\<close>

definition field :: "string \<Rightarrow> nat \<Rightarrow> nat \<Rightarrow> string" where
  "field s i n = take n (drop i s)"

definition field_value :: "string \<Rightarrow> nat \<Rightarrow> nat \<Rightarrow> int" where
  "field_value s i n = int (digits_value (field s i n) 0)"

text \<open>The expression \<open>UTC_INSTANT\<close>, and the fields \<open>Date.parse\<close> reads from a string that matches.\<close>

definition utc_shape :: "string \<Rightarrow> bool" where
  "utc_shape s \<longleftrightarrow> length s = 24 \<and>
     list_all is_digit (field s 0 4 @ field s 5 2 @ field s 8 2 @ field s 11 2 @ field s 14 2 @ field s 17 2 @ field s 20 3) \<and>
     s ! 4 = CHR ''-'' \<and> s ! 7 = CHR ''-'' \<and> s ! 10 = CHR ''T'' \<and> s ! 13 = CHR '':'' \<and> s ! 16 = CHR '':'' \<and> s ! 19 = CHR ''.'' \<and> s ! 23 = CHR ''Z''"

definition utc_read :: "string \<Rightarrow> utc_fields" where
  "utc_read s = \<lparr>uf_year = field_value s 0 4, uf_month = field_value s 5 2, uf_day = field_value s 8 2, uf_hour = field_value s 11 2,
     uf_minute = field_value s 14 2, uf_second = field_value s 17 2, uf_milli = field_value s 20 3\<rparr>"

definition utc_instant :: "string \<Rightarrow> bool" where
  "utc_instant s \<longleftrightarrow> utc_shape s \<and> fields_ok (utc_read s)"

definition date_parse :: "string \<Rightarrow> int" where
  "date_parse s = instant_of (utc_read s)"

lemma utc_instant_year: "utc_instant s \<Longrightarrow> four_digit_year (date_parse s)"
  by (simp add: utc_instant_def date_parse_def fields_ok_instant)

lemma nat_string_length: "k < 10 ^ n \<Longrightarrow> 0 < n \<Longrightarrow> length (nat_string k) \<le> n"
proof (induction n arbitrary: k)
  case (Suc n)
  show ?case
  proof (cases "k < 10")
    case False
    then have "0 < n" using Suc.prems by (cases n) auto
    moreover have "k div 10 < 10 ^ n" using Suc.prems by (simp add: div_less_iff_less_mult mult.commute)
    ultimately have "length (nat_string (k div 10)) \<le> n" using Suc.IH by blast
    then show ?thesis using False by (subst nat_string.simps) simp
  qed (subst nat_string.simps, simp)
qed simp

lemma padded_facts:
  assumes "0 \<le> k" "k < 10 ^ n" "0 < n"
  shows "length (padded n k) = n" "list_all is_digit (padded n k)" "int (digits_value (padded n k) 0) = k"
proof -
  have "nat k < 10 ^ n" using assms by (simp add: nat_less_iff)
  then have l: "length (nat_string (nat k)) \<le> n" using nat_string_length assms(3) by blast
  then show "length (padded n k) = n" by (simp add: padded_def)
  show "list_all is_digit (padded n k)" using nat_string_digits by (auto simp: padded_def list_all_iff is_digit_def)
  have "digits_value (replicate i (CHR ''0'')) 0 = 0" for i by (induction i) auto
  then show "int (digits_value (padded n k) 0) = k" using assms(1) by (simp add: padded_def digits_value_append digits_value_nat_string)
qed

lemma iso_string_read:
  assumes "fields_ok f"
  defines "s \<equiv> padded 4 (uf_year f) @ ''-'' @ padded 2 (uf_month f) @ ''-'' @ padded 2 (uf_day f) @ ''T'' @ padded 2 (uf_hour f) @ '':'' @
     padded 2 (uf_minute f) @ '':'' @ padded 2 (uf_second f) @ ''.'' @ padded 3 (uf_milli f) @ ''Z''"
  shows "utc_shape s" "utc_read s = f"
proof -
  note b = assms(1) [unfolded fields_ok_def]
  note p = padded_facts [of "uf_year f" 4] padded_facts [of "uf_month f" 2] padded_facts [of "uf_day f" 2] padded_facts [of "uf_hour f" 2]
    padded_facts [of "uf_minute f" 2] padded_facts [of "uf_second f" 2] padded_facts [of "uf_milli f" 3]
  have l: "length (padded 4 (uf_year f)) = 4" "length (padded 2 (uf_month f)) = 2" "length (padded 2 (uf_day f)) = 2" "length (padded 2 (uf_hour f)) = 2"
    "length (padded 2 (uf_minute f)) = 2" "length (padded 2 (uf_second f)) = 2" "length (padded 3 (uf_milli f)) = 3"
    using b by (simp_all add: p)
  have fs: "field s 0 4 = padded 4 (uf_year f)" "field s 5 2 = padded 2 (uf_month f)" "field s 8 2 = padded 2 (uf_day f)"
    "field s 11 2 = padded 2 (uf_hour f)" "field s 14 2 = padded 2 (uf_minute f)" "field s 17 2 = padded 2 (uf_second f)" "field s 20 3 = padded 3 (uf_milli f)"
    by (simp_all add: field_def s_def l)
  have v: "int (digits_value (padded 4 (uf_year f)) 0) = uf_year f" "int (digits_value (padded 2 (uf_month f)) 0) = uf_month f"
    "int (digits_value (padded 2 (uf_day f)) 0) = uf_day f" "int (digits_value (padded 2 (uf_hour f)) 0) = uf_hour f"
    "int (digits_value (padded 2 (uf_minute f)) 0) = uf_minute f" "int (digits_value (padded 2 (uf_second f)) 0) = uf_second f"
    "int (digits_value (padded 3 (uf_milli f)) 0) = uf_milli f"
    using b by (simp_all add: p)
  have d: "list_all is_digit (padded 4 (uf_year f))" "list_all is_digit (padded 2 (uf_month f))" "list_all is_digit (padded 2 (uf_day f))"
    "list_all is_digit (padded 2 (uf_hour f))" "list_all is_digit (padded 2 (uf_minute f))" "list_all is_digit (padded 2 (uf_second f))"
    "list_all is_digit (padded 3 (uf_milli f))"
    using b by (simp_all add: p)
  show "utc_read s = f" by (simp add: utc_read_def field_value_def fs v)
  have "length s = 24" by (simp add: s_def l)
  moreover have "s ! 4 = CHR ''-''" "s ! 7 = CHR ''-''" "s ! 10 = CHR ''T''" "s ! 13 = CHR '':''" "s ! 16 = CHR '':''" "s ! 19 = CHR ''.''" "s ! 23 = CHR ''Z''"
    by (simp_all add: s_def nth_append l)
  ultimately show "utc_shape s" unfolding utc_shape_def fs by (simp add: d)
qed

lemma iso_string_round_trip:
  assumes "four_digit_year e" shows "utc_instant (iso_string e)" "date_parse (iso_string e) = e"
proof -
  note ok = fields_of_ok [OF assms]
  have "year_text (uf_year (fields_of e)) = padded 4 (uf_year (fields_of e))" using ok by (simp add: year_text_def fields_ok_def)
  then have r: "utc_shape (iso_string e)" "utc_read (iso_string e) = fields_of e"
    using iso_string_read [OF ok] by (simp_all add: iso_string_def Let_def)
  then show "utc_instant (iso_string e)" "date_parse (iso_string e) = e" using ok by (simp_all add: utc_instant_def date_parse_def instant_of_fields)
qed

lemma iso_string_inj: "four_digit_year a \<Longrightarrow> four_digit_year b \<Longrightarrow> iso_string a = iso_string b \<Longrightarrow> a = b"
  by (metis iso_string_round_trip(2))

lemma fields_samples:
  "fields_of 0 = \<lparr>uf_year = 1970, uf_month = 1, uf_day = 1, uf_hour = 0, uf_minute = 0, uf_second = 0, uf_milli = 0\<rparr>"
  "fields_of 951825599999 = \<lparr>uf_year = 2000, uf_month = 2, uf_day = 29, uf_hour = 11, uf_minute = 59, uf_second = 59, uf_milli = 999\<rparr>"
  "fields_of 4107542400000 = \<lparr>uf_year = 2100, uf_month = 3, uf_day = 1, uf_hour = 0, uf_minute = 0, uf_second = 0, uf_milli = 0\<rparr>"
  by code_simp+

end
