(* ===== verification/Schedule_Domain.thy ===== *)
theory Schedule_Domain
  imports Utc_Time Session_Log
begin

text \<open>
  Reminders (\<open>packages/schedule/schedule/src/domain.ts\<close>): the strict decoding of the durable changes, their replay, the
  arithmetic of fixed-rate occurrences, the validation of a new rule and the framing of a due reminder. A target is
  kept as its instant; the log holds its canonical UTC text. The time zone database is a parameter: \<open>canon\<close> resolves
  a name, \<open>project\<close> gives the local fields and the offset of an instant.
\<close>

section \<open>Records and changes\<close>

type_synonym schedule_id = string

datatype schedule_rule = AfterRule int | AtRule | EveryRule int

record schedule_record =
  sr_id :: schedule_id
  sr_prompt :: string
  sr_rule :: schedule_rule
  sr_at :: int

datatype schedule_change = ChangeCreate schedule_record | ChangeDelete schedule_id | ChangeDispatch schedule_id "int option"

datatype schedule_log_error =
    BadScheduleId | BadInstant | BadAfter | BadAt | BadEvery | BadKind | BadChange | BadVersion | BadCreate | BadDelete | BadDispatch
  | BadOperation | BadSeedLength | AcceptedRange | IntervalRange | BeforeTarget | OccurrenceRange | OneShotAccepted | EveryUnaccepted
  | IdReused | DeleteInactive | DispatchInactive

datatype schedule_input_error = InvalidPrompt | InvalidRule | InvalidTimeZone | NotFuture | TimeOutOfRange | FrequencyTooHigh

definition MIN_EVERY_INTERVAL_SECONDS :: int where
  "MIN_EVERY_INTERVAL_SECONDS = 300"

section \<open>The texts of the log\<close>

fun record_json :: "schedule_record \<Rightarrow> json" where
  "record_json r = (case sr_rule r of
     AfterRule n \<Rightarrow> JObj [(''id'', JStr (sr_id r)), (''kind'', JStr ''after''), (''prompt'', JStr (sr_prompt r)), (''afterSeconds'', JInt n),
       (''scheduledAt'', JStr (iso_string (sr_at r)))]
   | AtRule \<Rightarrow> JObj [(''id'', JStr (sr_id r)), (''kind'', JStr ''at''), (''prompt'', JStr (sr_prompt r)), (''scheduledAt'', JStr (iso_string (sr_at r)))]
   | EveryRule n \<Rightarrow> JObj [(''id'', JStr (sr_id r)), (''kind'', JStr ''every''), (''prompt'', JStr (sr_prompt r)), (''everySeconds'', JInt n),
       (''scheduledAt'', JStr (iso_string (sr_at r)))])"

fun change_json :: "schedule_change \<Rightarrow> json" where
  "change_json (ChangeCreate r) = JObj [(''version'', JInt 1), (''operation'', JStr ''create''), (''schedule'', record_json r)]"
| "change_json (ChangeDelete i) = JObj [(''version'', JInt 1), (''operation'', JStr ''delete''), (''id'', JStr i)]"
| "change_json (ChangeDispatch i None) = JObj [(''version'', JInt 1), (''operation'', JStr ''dispatch''), (''id'', JStr i)]"
| "change_json (ChangeDispatch i (Some t)) =
     JObj [(''version'', JInt 1), (''operation'', JStr ''dispatch''), (''id'', JStr i), (''acceptedAt'', JStr (iso_string t))]"

section \<open>Decoding\<close>

definition trimmed_text :: "json option \<Rightarrow> string option" where
  "trimmed_text v = (case v of Some (JStr s) \<Rightarrow> if s \<noteq> [] \<and> js_trim s = s then Some s else None | _ \<Rightarrow> None)"

definition decode_id :: "json option \<Rightarrow> schedule_log_error + schedule_id" where
  "decode_id v = (case trimmed_text v of Some s \<Rightarrow> Inr s | None \<Rightarrow> Inl BadScheduleId)"

definition decode_instant :: "json option \<Rightarrow> schedule_log_error + int" where
  "decode_instant v = (case v of
     Some (JStr s) \<Rightarrow> if utc_instant s \<and> iso_string (date_parse s) = s then Inr (date_parse s) else Inl BadInstant
   | _ \<Rightarrow> Inl BadInstant)"

definition decode_safe :: "json option \<Rightarrow> (int \<Rightarrow> bool) \<Rightarrow> int option" where
  "decode_safe v p = (case v of Some (JNum r) \<Rightarrow> if safe_integer r \<and> p \<lfloor>r\<rfloor> then Some \<lfloor>r\<rfloor> else None | _ \<Rightarrow> None)"

definition finish_record :: "json \<Rightarrow> string \<Rightarrow> schedule_rule \<Rightarrow> schedule_log_error + schedule_record" where
  "finish_record v prompt rule =
     rbind (decode_id (jget v ''id'')) (\<lambda>i. rbind (decode_instant (jget v ''scheduledAt'')) (\<lambda>t.
     Inr \<lparr>sr_id = i, sr_prompt = prompt, sr_rule = rule, sr_at = t\<rparr>))"

definition decode_after :: "json \<Rightarrow> schedule_log_error + schedule_record" where
  "decode_after v =
     (if \<not> has_exact_keys v [''id'', ''kind'', ''prompt'', ''afterSeconds'', ''scheduledAt''] then Inl BadAfter
      else case trimmed_text (jget v ''prompt'') of None \<Rightarrow> Inl BadAfter
        | Some prompt \<Rightarrow> (case decode_safe (jget v ''afterSeconds'') (\<lambda>n. 0 < n) of None \<Rightarrow> Inl BadAfter
            | Some n \<Rightarrow> finish_record v prompt (AfterRule n)))"

definition decode_at :: "json \<Rightarrow> schedule_log_error + schedule_record" where
  "decode_at v =
     (if \<not> has_exact_keys v [''id'', ''kind'', ''prompt'', ''scheduledAt''] then Inl BadAt
      else case trimmed_text (jget v ''prompt'') of None \<Rightarrow> Inl BadAt | Some prompt \<Rightarrow> finish_record v prompt AtRule)"

definition decode_every :: "json \<Rightarrow> schedule_log_error + schedule_record" where
  "decode_every v =
     (if \<not> has_exact_keys v [''id'', ''kind'', ''prompt'', ''everySeconds'', ''scheduledAt''] then Inl BadEvery
      else case trimmed_text (jget v ''prompt'') of None \<Rightarrow> Inl BadEvery
        | Some prompt \<Rightarrow> (case decode_safe (jget v ''everySeconds'') (\<lambda>n. MIN_EVERY_INTERVAL_SECONDS \<le> n \<and> safe_int (n * 1000)) of
              None \<Rightarrow> Inl BadEvery
            | Some n \<Rightarrow> finish_record v prompt (EveryRule n)))"

definition decode_record :: "json option \<Rightarrow> schedule_log_error + schedule_record" where
  "decode_record v = (case v of
     Some w \<Rightarrow> if \<not> is_object w then Inl BadKind
       else if jget w ''kind'' = Some (JStr ''after'') then decode_after w
       else if jget w ''kind'' = Some (JStr ''at'') then decode_at w
       else if jget w ''kind'' = Some (JStr ''every'') then decode_every w
       else Inl BadKind
   | None \<Rightarrow> Inl BadKind)"

definition decode_dispatch :: "json \<Rightarrow> schedule_log_error + schedule_change" where
  "decode_dispatch v =
     (if has_exact_keys v [''version'', ''operation'', ''id''] then
        rbind (decode_id (jget v ''id'')) (\<lambda>i. Inr (ChangeDispatch i None))
      else if has_exact_keys v [''version'', ''operation'', ''id'', ''acceptedAt''] then
        rbind (decode_id (jget v ''id'')) (\<lambda>i. rbind (decode_instant (jget v ''acceptedAt'')) (\<lambda>t. Inr (ChangeDispatch i (Some t))))
      else Inl BadDispatch)"

definition decode_change :: "json \<Rightarrow> schedule_log_error + schedule_change" where
  "decode_change v =
     (if \<not> is_object v then Inl BadChange
      else if jget v ''version'' \<noteq> Some (JInt 1) then Inl BadVersion
      else if jget v ''operation'' = Some (JStr ''create'') then
        (if \<not> has_exact_keys v [''version'', ''operation'', ''schedule''] then Inl BadCreate
         else rbind (decode_record (jget v ''schedule'')) (\<lambda>r. Inr (ChangeCreate r)))
      else if jget v ''operation'' = Some (JStr ''delete'') then
        (if \<not> has_exact_keys v [''version'', ''operation'', ''id''] then Inl BadDelete
         else rbind (decode_id (jget v ''id'')) (\<lambda>i. Inr (ChangeDelete i)))
      else if jget v ''operation'' = Some (JStr ''dispatch'') then decode_dispatch v
      else Inl BadOperation)"

section \<open>Fixed-rate occurrences\<close>

record every_occurrence =
  eo_at :: int
  eo_next :: "int option"

definition resolve_every :: "int \<Rightarrow> int \<Rightarrow> int \<Rightarrow> schedule_log_error + every_occurrence" where
  "resolve_every target seconds accepted =
     (let interval = seconds * 1000 in
      if \<not> (safe_int accepted \<and> four_digit_year accepted) then Inl AcceptedRange
      else if \<not> (safe_int interval \<and> 0 < interval) then Inl IntervalRange
      else if accepted < target then Inl BeforeTarget
      else let steps = (accepted - target) div interval; occurrence = target + steps * interval in
        if \<not> (safe_int occurrence \<and> target \<le> occurrence \<and> occurrence \<le> accepted) then Inl OccurrenceRange
        else let following = occurrence + interval in
          Inr \<lparr>eo_at = occurrence,
            eo_next = (if \<not> safe_int following \<or> MAX_FOUR_DIGIT_YEAR_MS < following then None else Some following)\<rparr>)"

definition dispatched :: "schedule_record \<Rightarrow> int option \<Rightarrow> schedule_log_error + schedule_record option" where
  "dispatched r accepted =
     (case sr_rule r of
        EveryRule n \<Rightarrow> (case accepted of None \<Rightarrow> Inl EveryUnaccepted
          | Some t \<Rightarrow> rbind (resolve_every (sr_at r) n t) (\<lambda>o'. Inr (map_option (\<lambda>t. r\<lparr>sr_at := t\<rparr>) (eo_next o'))))
      | _ \<Rightarrow> if accepted \<noteq> None then Inl OneShotAccepted else Inr None)"

section \<open>Replay\<close>

text \<open>The active map in insertion order, and the ids ever created in first-use order.\<close>

record schedules =
  sc_active :: "(schedule_id, schedule_record) omap"
  sc_seen :: "schedule_id list"

definition no_schedules :: schedules where
  "no_schedules = \<lparr>sc_active = [], sc_seen = []\<rparr>"

datatype 'x schedule_payload = ScheduleChange json | ForeignPayload 'x

fun apply_change :: "schedules \<Rightarrow> schedule_change \<Rightarrow> schedule_log_error + schedules" where
  "apply_change st (ChangeCreate r) =
     (if sr_id r \<in> set (sc_seen st) then Inl IdReused
      else Inr \<lparr>sc_active = om_set (sr_id r) r (sc_active st), sc_seen = sc_seen st @ [sr_id r]\<rparr>)"
| "apply_change st (ChangeDelete i) =
     (if om_get (sc_active st) i = None then Inl DeleteInactive else Inr (st\<lparr>sc_active := om_del i (sc_active st)\<rparr>))"
| "apply_change st (ChangeDispatch i accepted) =
     (case om_get (sc_active st) i of
        None \<Rightarrow> Inl DispatchInactive
      | Some r \<Rightarrow> rbind (dispatched r accepted) (\<lambda>next'. Inr (case next' of
            None \<Rightarrow> st\<lparr>sc_active := om_del i (sc_active st)\<rparr>
          | Some r' \<Rightarrow> st\<lparr>sc_active := om_set i r' (sc_active st)\<rparr>)))"

fun schedule_event :: "schedules \<Rightarrow> 'x schedule_payload event \<Rightarrow> schedule_log_error + schedules" where
  "schedule_event st e = (case ev_data e of
     PluginEvent (ScheduleChange v) \<Rightarrow> rbind (decode_change v) (apply_change st)
   | _ \<Rightarrow> Inr st)"

definition fold_schedules :: "'x schedule_payload event list \<Rightarrow> int \<Rightarrow> schedule_log_error + schedules" where
  "fold_schedules evs seed_length =
     (if \<not> safe_int seed_length \<or> seed_length < 0 \<or> int (length evs) < seed_length then Inl BadSeedLength
      else replay schedule_event no_schedules (drop (nat seed_length) evs))"

definition active_schedules :: "schedules \<Rightarrow> schedule_record list" where
  "active_schedules st = map snd (sc_active st)"

section \<open>New rules\<close>

definition schedule_number :: "nat \<Rightarrow> schedule_id" where
  "schedule_number n = ''schedule-'' @ nat_string n"

text \<open>The loop tries numbers from one above the count of used ids; one of the first \<open>fuel\<close> is free.\<close>

fun next_free :: "nat \<Rightarrow> schedule_id list \<Rightarrow> nat \<Rightarrow> schedule_id option" where
  "next_free 0 seen n = None"
| "next_free (Suc fuel) seen n = (if schedule_number n \<in> set seen then next_free fuel seen (Suc n) else Some (schedule_number n))"

definition allocate_id :: "schedules \<Rightarrow> schedule_id option" where
  "allocate_id st = (let size = length (remdups (sc_seen st)) in next_free (size + 1) (sc_seen st) (size + 1))"

definition future_instant :: "int \<Rightarrow> int \<Rightarrow> schedule_input_error + int" where
  "future_instant epoch now =
     (if \<not> (safe_int now \<and> safe_int epoch \<and> four_digit_year epoch) then Inl TimeOutOfRange
      else if epoch \<le> now then Inl NotFuture else Inr epoch)"

definition create_after :: "schedule_id \<Rightarrow> string \<Rightarrow> rat \<Rightarrow> int \<Rightarrow> schedule_input_error + schedule_record" where
  "create_after i prompt seconds now =
     (let p = js_trim prompt in
      if p = [] then Inl InvalidPrompt
      else if \<not> (safe_integer seconds \<and> 0 < seconds) then Inl InvalidRule
      else rbind (future_instant (now + \<lfloor>seconds\<rfloor> * 1000) now) (\<lambda>t.
        Inr \<lparr>sr_id = i, sr_prompt = p, sr_rule = AfterRule \<lfloor>seconds\<rfloor>, sr_at = t\<rparr>))"

definition create_every :: "schedule_id \<Rightarrow> string \<Rightarrow> rat \<Rightarrow> int \<Rightarrow> schedule_input_error + schedule_record" where
  "create_every i prompt seconds now =
     (let p = js_trim prompt in
      if p = [] then Inl InvalidPrompt
      else if \<not> safe_integer seconds then Inl InvalidRule
      else if \<lfloor>seconds\<rfloor> < MIN_EVERY_INTERVAL_SECONDS then Inl FrequencyTooHigh
      else rbind (future_instant (now + \<lfloor>seconds\<rfloor> * 1000) now) (\<lambda>t.
        Inr \<lparr>sr_id = i, sr_prompt = p, sr_rule = EveryRule \<lfloor>seconds\<rfloor>, sr_at = t\<rparr>))"

subsection \<open>Absolute targets\<close>

text \<open>The fields of a text must be those of the instant they name, or the date or the time does not exist.\<close>

definition calendar_epoch :: "utc_fields \<Rightarrow> schedule_input_error + int" where
  "calendar_epoch f = (if fields_of (instant_of f) = f then Inr (instant_of f) else Inl InvalidRule)"

definition digits_at :: "string \<Rightarrow> nat \<Rightarrow> nat \<Rightarrow> bool" where
  "digits_at s i n \<longleftrightarrow> length (field s i n) = n \<and> list_all is_digit (field s i n)"

text \<open>\<open>(?:\.(\d{1,3}))?\<close> at the start of a text: the milliseconds and the rest, for every way to match.\<close>

definition fraction :: "string \<Rightarrow> (int \<times> string) option" where
  "fraction s = (case s of
     c # r \<Rightarrow> if c = CHR ''.'' then
         (let ds = takeWhile is_digit r in
          if 1 \<le> length ds \<and> length ds \<le> 3 then Some (int (digits_value (ds @ replicate (3 - length ds) (CHR ''0'')) 0), drop (length ds) r) else None)
       else Some (0, s)
   | [] \<Rightarrow> Some (0, []))"

definition date_shape :: "string \<Rightarrow> bool" where
  "date_shape s \<longleftrightarrow> digits_at s 0 4 \<and> field s 4 1 = ''-'' \<and> digits_at s 5 2 \<and> field s 7 1 = ''-'' \<and> digits_at s 8 2"

definition time_shape :: "string \<Rightarrow> nat \<Rightarrow> bool" where
  "time_shape s i \<longleftrightarrow> digits_at s i 2 \<and> field s (i + 2) 1 = '':'' \<and> digits_at s (i + 3) 2 \<and> field s (i + 5) 1 = '':'' \<and> digits_at s (i + 6) 2"

definition read_fields :: "string \<Rightarrow> string \<Rightarrow> nat \<Rightarrow> int \<Rightarrow> utc_fields" where
  "read_fields d t i milli = \<lparr>uf_year = field_value d 0 4, uf_month = field_value d 5 2, uf_day = field_value d 8 2, uf_hour = field_value t i 2,
     uf_minute = field_value t (i + 3) 2, uf_second = field_value t (i + 6) 2, uf_milli = milli\<rparr>"

definition clock_ok :: "utc_fields \<Rightarrow> bool" where
  "clock_ok f \<longleftrightarrow> uf_year f \<noteq> 0 \<and> uf_hour f \<le> 23 \<and> uf_minute f \<le> 59 \<and> uf_second f \<le> 59"

definition parse_offset :: "string \<Rightarrow> int \<Rightarrow> schedule_input_error + int" where
  "parse_offset z local =
     (if z = ''Z'' then Inr local
      else if length z = 6 \<and> (hd z = CHR ''+'' \<or> hd z = CHR ''-'') \<and> digits_at z 1 2 \<and> field z 3 1 = '':'' \<and> digits_at z 4 2 then
        (let h = field_value z 1 2; m = field_value z 4 2 in
         if 23 < h \<or> 59 < m \<or> (hd z = CHR ''-'' \<and> h = 0 \<and> m = 0) then Inl InvalidRule
         else Inr (local - (if hd z = CHR ''+'' then 1 else -1) * (h * 60 + m) * 60000))
      else Inl InvalidRule)"

definition zone_shape :: "string \<Rightarrow> bool" where
  "zone_shape z \<longleftrightarrow> z = ''Z'' \<or> (length z = 6 \<and> (hd z = CHR ''+'' \<or> hd z = CHR ''-'') \<and> digits_at z 1 2 \<and> field z 3 1 = '':'' \<and> digits_at z 4 2)"

definition parse_offset_instant :: "string \<Rightarrow> schedule_input_error + int" where
  "parse_offset_instant s =
     (if \<not> (date_shape s \<and> field s 10 1 = ''T'' \<and> time_shape s 11) then Inl InvalidRule
      else case fraction (drop 19 s) of None \<Rightarrow> Inl InvalidRule
        | Some (milli, z) \<Rightarrow>
            if \<not> zone_shape z then Inl InvalidRule
            else let f = read_fields s s 11 milli in
              if \<not> clock_ok f then Inl InvalidRule else rbind (calendar_epoch f) (parse_offset z))"

definition parse_local_at :: "string \<Rightarrow> string \<Rightarrow> schedule_input_error + utc_fields" where
  "parse_local_at d t =
     (if \<not> (date_shape d \<and> length d = 10 \<and> time_shape t 0) then Inl InvalidRule
      else case fraction (drop 8 t) of
          Some (milli, []) \<Rightarrow>
            (let f = read_fields d t 0 milli in if \<not> clock_ok f then Inl InvalidRule else rbind (calendar_epoch f) (\<lambda>_. Inr f))
        | _ \<Rightarrow> Inl InvalidRule)"

text \<open>\<open>IANA_ZONE\<close>: segments of name characters, at least two, the first starting with a letter.\<close>

definition zone_char :: "char \<Rightarrow> bool" where
  "zone_char c \<longleftrightarrow> is_lower c \<or> (CHR ''A'' \<le> c \<and> c \<le> CHR ''Z'') \<or> is_digit c \<or> c \<in> set ''_+.-''"

fun zone_segments :: "string \<Rightarrow> string list" where
  "zone_segments [] = [[]]"
| "zone_segments (c # cs) = (if c = CHR ''/'' then [] # zone_segments cs
     else (case zone_segments cs of s # ss \<Rightarrow> (c # s) # ss | [] \<Rightarrow> [[c]]))"

definition iana_zone :: "string \<Rightarrow> bool" where
  "iana_zone z \<longleftrightarrow> (let ss = zone_segments z in 2 \<le> length ss \<and> list_all (\<lambda>s. s \<noteq> [] \<and> list_all zone_char s) ss \<and>
     (is_lower (hd z) \<or> (CHR ''A'' \<le> hd z \<and> hd z \<le> CHR ''Z'')))"

definition canonicalize_zone :: "(string \<Rightarrow> string option) \<Rightarrow> string \<Rightarrow> schedule_input_error + string" where
  "canonicalize_zone canon z =
     (if z = [] \<or> js_trim z \<noteq> z \<or> (z \<noteq> ''UTC'' \<and> \<not> iana_zone z) then Inl InvalidTimeZone
      else case canon z of None \<Rightarrow> Inl InvalidTimeZone
        | Some c \<Rightarrow> if c \<noteq> ''UTC'' \<and> \<not> iana_zone c then Inl InvalidTimeZone else Inr c)"

text \<open>The local fields and the offset of an instant, when the formatter gives a usable offset.\<close>

type_synonym zone_projection = "string \<Rightarrow> int \<Rightarrow> (utc_fields \<times> int) option"

definition local_projection :: "zone_projection \<Rightarrow> string \<Rightarrow> int \<Rightarrow> schedule_input_error + utc_fields \<times> int" where
  "local_projection project zone epoch = (case project zone epoch of None \<Rightarrow> Inl InvalidTimeZone | Some p \<Rightarrow> Inr p)"

definition sample_points :: "int \<Rightarrow> int list" where
  "sample_points local = map (\<lambda>delta. min MAX_FOUR_DIGIT_YEAR_MS (max MIN_FOUR_DIGIT_YEAR_MS (local + delta)))
     [-172800000, -86400000, 0, 86400000, 172800000]"

text \<open>\<open>offsets\<close> is a set in insertion order.\<close>

definition add_offset :: "int list \<Rightarrow> int \<Rightarrow> int list" where
  "add_offset os x = (if x \<in> set os then os else os @ [x])"

text \<open>The loop over the offsets: the candidates, and whether one was out of range.\<close>

fun zone_candidates :: "zone_projection \<Rightarrow> string \<Rightarrow> utc_fields \<Rightarrow> int \<Rightarrow> int list \<Rightarrow> schedule_input_error + int list \<times> bool" where
  "zone_candidates project zone f local [] = Inr ([], False)"
| "zone_candidates project zone f local (x # os) =
     (let candidate = local - x in
      if \<not> four_digit_year candidate then rbind (zone_candidates project zone f local os) (\<lambda>(cs, _). Inr (cs, True))
      else rbind (local_projection project zone candidate) (\<lambda>(g, _).
           rbind (zone_candidates project zone f local os) (\<lambda>(cs, out). Inr (if g = f then candidate # cs else cs, out))))"

definition resolve_local :: "zone_projection \<Rightarrow> utc_fields \<Rightarrow> string \<Rightarrow> schedule_input_error + int" where
  "resolve_local project f zone =
     rbind (calendar_epoch f) (\<lambda>local.
     rbind (traverse (\<lambda>e. rbind (local_projection project zone e) (\<lambda>p. Inr (snd p))) (sample_points local)) (\<lambda>os.
     rbind (zone_candidates project zone f local (fold (\<lambda>x acc. add_offset acc x) os [])) (\<lambda>(cs, out).
     case sort cs of c # _ \<Rightarrow> Inr c | [] \<Rightarrow> if out then Inl TimeOutOfRange else Inl InvalidRule)))"

text \<open>The \<open>at\<close> selector of a caller: a text, or an object.\<close>

definition at_target :: "(string \<Rightarrow> string option) \<Rightarrow> zone_projection \<Rightarrow> json \<Rightarrow> schedule_input_error + int" where
  "at_target canon project at' =
     (case at' of
        JStr s \<Rightarrow> parse_offset_instant s
      | JObj kvs \<Rightarrow>
          if \<not> has_exact_keys at' [''date'', ''time'', ''time_zone''] then Inl InvalidRule
          else (case (jget at' ''date'', jget at' ''time'') of
              (Some (JStr d), Some (JStr t)) \<Rightarrow> (case jget at' ''time_zone'' of
                  Some (JStr z) \<Rightarrow> rbind (parse_local_at d t) (\<lambda>f. rbind (canonicalize_zone canon z) (resolve_local project f))
                | _ \<Rightarrow> Inl InvalidTimeZone)
            | _ \<Rightarrow> Inl InvalidRule)
      | _ \<Rightarrow> Inl InvalidRule)"

definition create_at ::
    "(string \<Rightarrow> string option) \<Rightarrow> zone_projection \<Rightarrow> schedule_id \<Rightarrow> string \<Rightarrow> json \<Rightarrow> int \<Rightarrow> schedule_input_error + schedule_record" where
  "create_at canon project i prompt at' now =
     (let p = js_trim prompt in
      if p = [] then Inl InvalidPrompt
      else rbind (at_target canon project at') (\<lambda>target. rbind (future_instant target now) (\<lambda>t.
        Inr \<lparr>sr_id = i, sr_prompt = p, sr_rule = AtRule, sr_at = t\<rparr>)))"

section \<open>Views and framing\<close>

datatype schedule_state = Scheduled | Overdue

definition schedule_view :: "schedule_record \<Rightarrow> int \<Rightarrow> schedule_record \<times> schedule_state" where
  "schedule_view r now = (r, if sr_at r \<le> now then Overdue else Scheduled)"

section \<open>Decoding and encoding\<close>

definition stripped :: "string \<Rightarrow> bool" where
  "stripped s \<longleftrightarrow> s \<noteq> [] \<and> js_trim s = s"

fun rule_ok :: "schedule_rule \<Rightarrow> bool" where
  "rule_ok (AfterRule n) \<longleftrightarrow> 0 < n \<and> safe_int n"
| "rule_ok AtRule \<longleftrightarrow> True"
| "rule_ok (EveryRule n) \<longleftrightarrow> MIN_EVERY_INTERVAL_SECONDS \<le> n \<and> safe_int (n * 1000)"

definition record_ok :: "schedule_record \<Rightarrow> bool" where
  "record_ok r \<longleftrightarrow> stripped (sr_id r) \<and> stripped (sr_prompt r) \<and> rule_ok (sr_rule r) \<and> four_digit_year (sr_at r)"

fun change_ok :: "schedule_change \<Rightarrow> bool" where
  "change_ok (ChangeCreate r) \<longleftrightarrow> record_ok r"
| "change_ok (ChangeDelete i) \<longleftrightarrow> stripped i"
| "change_ok (ChangeDispatch i t) \<longleftrightarrow> stripped i \<and> (case t of None \<Rightarrow> True | Some t \<Rightarrow> four_digit_year t)"

lemma decode_id_Inr: "decode_id v = Inr i \<longleftrightarrow> v = Some (JStr i) \<and> stripped i"
  by (auto simp: decode_id_def trimmed_text_def stripped_def split: option.splits json.splits if_splits)

lemma trimmed_text_Some: "trimmed_text v = Some p \<longleftrightarrow> v = Some (JStr p) \<and> stripped p"
  by (auto simp: trimmed_text_def stripped_def split: option.splits json.splits if_splits)

lemma decode_instant_Inr: "decode_instant v = Inr t \<longleftrightarrow> four_digit_year t \<and> v = Some (JStr (iso_string t))"
proof
  assume "decode_instant v = Inr t"
  then show "four_digit_year t \<and> v = Some (JStr (iso_string t))"
    by (auto simp: decode_instant_def dest!: utc_instant_year split: option.splits json.splits if_splits)
next
  assume "four_digit_year t \<and> v = Some (JStr (iso_string t))"
  then show "decode_instant v = Inr t" by (simp add: decode_instant_def iso_string_round_trip)
qed


lemma decode_safe_Some: "decode_safe v p = Some n \<longleftrightarrow> v = Some (JInt n) \<and> safe_int n \<and> p n"
  by (auto simp: decode_safe_def split: option.splits json.splits if_splits elim!: safe_integerE)

lemma finish_record_Inr:
  "finish_record v q rule = Inr r \<longleftrightarrow>
    jget v ''id'' = Some (JStr (sr_id r)) \<and> stripped (sr_id r) \<and> jget v ''scheduledAt'' = Some (JStr (iso_string (sr_at r))) \<and>
    four_digit_year (sr_at r) \<and> sr_prompt r = q \<and> sr_rule r = rule"
  by (cases r) (auto simp: finish_record_def rbind_Inr_iff decode_id_Inr decode_instant_Inr)

lemma scaled_safe: "MIN_EVERY_INTERVAL_SECONDS \<le> n \<Longrightarrow> safe_int (n * 1000) \<Longrightarrow> safe_int n"
  by (simp add: safe_int_def MIN_EVERY_INTERVAL_SECONDS_def)

lemma decode_record_ok: "decode_record v = Inr r \<Longrightarrow> record_ok r"
  by (auto simp: decode_record_def decode_after_def decode_at_def decode_every_def record_ok_def finish_record_Inr trimmed_text_Some
      decode_safe_Some split: option.splits if_splits)

lemma decode_change_ok: "decode_change v = Inr c \<Longrightarrow> change_ok c"
  by (auto simp: decode_change_def decode_dispatch_def rbind_Inr_iff decode_id_Inr decode_instant_Inr dest: decode_record_ok split: if_splits)

lemma decode_record_json:
  assumes "record_ok r" shows "decode_record (Some (record_json r)) = Inr r"
proof (cases "sr_rule r")
  case (AfterRule n)
  with assms have s: "decode_safe (Some (JInt n)) (\<lambda>n. 0 < n) = Some n" by (simp add: decode_safe_Some record_ok_def)
  with assms AfterRule show ?thesis
    by (simp add: decode_record_def decode_after_def has_exact_keys_def finish_record_Inr record_ok_def trimmed_text_def stripped_def)
next
  case AtRule
  with assms show ?thesis
    by (simp add: decode_record_def decode_at_def has_exact_keys_def finish_record_Inr record_ok_def trimmed_text_def stripped_def)
next
  case (EveryRule n)
  with assms have s: "decode_safe (Some (JInt n)) (\<lambda>n. MIN_EVERY_INTERVAL_SECONDS \<le> n \<and> safe_int (n * 1000)) = Some n"
    by (simp add: decode_safe_Some record_ok_def scaled_safe)
  with assms EveryRule show ?thesis
    by (simp add: decode_record_def decode_every_def has_exact_keys_def finish_record_Inr record_ok_def trimmed_text_def stripped_def)
qed

lemma decode_change_json: "change_ok c \<Longrightarrow> decode_change (change_json c) = Inr c"
  by (cases c rule: change_json.cases)
    (auto simp: decode_change_def decode_dispatch_def has_exact_keys_def decode_record_json rbind_Inr_iff decode_id_Inr decode_instant_Inr
      simp del: record_json.simps)

section \<open>Fixed-rate decisions\<close>

lemma resolve_every_Inr:
  assumes "resolve_every target n accepted = Inr d"
  shows "four_digit_year accepted" "0 < n" "target \<le> eo_at d" "eo_at d \<le> accepted" "accepted < eo_at d + n * 1000"
    "(eo_at d - target) mod (n * 1000) = 0"
    "eo_next d = (if MAX_FOUR_DIGIT_YEAR_MS < eo_at d + n * 1000 then None else Some (eo_at d + n * 1000))"
proof -
  define occ where "occ = target + (accepted - target) div (n * 1000) * (n * 1000)"
  have e: "resolve_every target n accepted =
     (if \<not> (safe_int accepted \<and> four_digit_year accepted) then Inl AcceptedRange
      else if \<not> (safe_int (n * 1000) \<and> 0 < n * 1000) then Inl IntervalRange
      else if accepted < target then Inl BeforeTarget
      else if \<not> (safe_int occ \<and> target \<le> occ \<and> occ \<le> accepted) then Inl OccurrenceRange
      else Inr \<lparr>eo_at = occ, eo_next = (if \<not> safe_int (occ + n * 1000) \<or> MAX_FOUR_DIGIT_YEAR_MS < occ + n * 1000 then None else Some (occ + n * 1000))\<rparr>)"
    unfolding resolve_every_def Let_def occ_def by (rule refl)
  have at_occ: "eo_at d = occ" and c: "four_digit_year accepted" "safe_int (n * 1000)" "0 < n" "target \<le> accepted"
    and d: "eo_next d = (if \<not> safe_int (eo_at d + n * 1000) \<or> MAX_FOUR_DIGIT_YEAR_MS < eo_at d + n * 1000 then None else Some (eo_at d + n * 1000))"
      "target \<le> eo_at d" "eo_at d \<le> accepted" "safe_int (eo_at d)"
    using assms unfolding e by (auto split: if_splits)
  note d = at_occ [unfolded occ_def] d
  let ?i = "n * 1000"
  have m: "(accepted - target) mod ?i < ?i" "(accepted - target) div ?i * ?i + (accepted - target) mod ?i = accepted - target"
    using c(3) by (simp, intro div_mult_mod_eq)
  then have next_due: "accepted < eo_at d + ?i" using d(1) by linarith
  have "safe_int (eo_at d + ?i)" if "eo_at d + ?i \<le> MAX_FOUR_DIGIT_YEAR_MS"
    using that c(1) next_due by (auto simp: safe_int_def max_safe_def four_digit_year_def MIN_FOUR_DIGIT_YEAR_MS_def MAX_FOUR_DIGIT_YEAR_MS_def abs_le_iff)
  then have nx: "eo_next d = (if MAX_FOUR_DIGIT_YEAR_MS < eo_at d + n * 1000 then None else Some (eo_at d + n * 1000))"
    unfolding d(2) by (auto simp: not_less)
  show "four_digit_year accepted" "0 < n" "target \<le> eo_at d" "eo_at d \<le> accepted" by (fact c d)+
  show "accepted < eo_at d + ?i" by (fact next_due)
  show "(eo_at d - target) mod ?i = 0" by (simp add: d(1))
  show "eo_next d = (if MAX_FOUR_DIGIT_YEAR_MS < eo_at d + n * 1000 then None else Some (eo_at d + n * 1000))" by (fact nx)
qed

lemma resolve_every_defined:
  assumes "four_digit_year accepted" "rule_ok (EveryRule n)" "four_digit_year target" "target \<le> accepted"
  shows "ok (resolve_every target n accepted)"
proof -
  let ?i = "n * 1000"
  have safe: "safe_int e" if "four_digit_year e" for e
    using that by (simp add: safe_int_def max_safe_def four_digit_year_def MIN_FOUR_DIGIT_YEAR_MS_def MAX_FOUR_DIGIT_YEAR_MS_def abs_le_iff)
  have i: "0 < ?i" using assms(2) by (simp add: MIN_EVERY_INTERVAL_SECONDS_def)
  let ?o = "target + (accepted - target) div ?i * ?i"
  have s: "0 \<le> (accepted - target) div ?i * ?i" using assms(4) i by (simp add: pos_imp_zdiv_nonneg_iff)
  moreover have "(accepted - target) div ?i * ?i + (accepted - target) mod ?i = accepted - target" by (rule div_mult_mod_eq)
  moreover have "0 \<le> (accepted - target) mod ?i" using i by simp
  ultimately have o': "target \<le> ?o" "?o \<le> accepted" by linarith+
  then have "four_digit_year ?o" using assms(1,3) unfolding four_digit_year_def by linarith
  then have "safe_int ?o" by (rule safe)
  then show ?thesis using o' i assms(2,4) safe [OF assms(1)] assms(1)
    unfolding resolve_every_def Let_def by (simp only: if_True if_False) simp
qed

lemma dispatched_Inr:
  assumes "dispatched r t = Inr (Some r')" and "record_ok r"
  shows "record_ok r'" "sr_id r' = sr_id r" "sr_prompt r' = sr_prompt r" "sr_rule r' = sr_rule r" "sr_at r < sr_at r'"
proof -
  obtain n a d where d: "sr_rule r = EveryRule n" "t = Some a" "resolve_every (sr_at r) n a = Inr d" "map_option (\<lambda>t. r\<lparr>sr_at := t\<rparr>) (eo_next d) = Some r'"
    using assms(1) by (auto simp: dispatched_def rbind_Inr_iff split: schedule_rule.splits option.splits if_splits)
  note e = resolve_every_Inr [OF d(3)]
  have r': "r' = r\<lparr>sr_at := eo_at d + n * 1000\<rparr>" "eo_at d + n * 1000 \<le> MAX_FOUR_DIGIT_YEAR_MS" using d(4) e(7) by (auto split: if_splits)
  have "sr_at r < eo_at d + n * 1000" using e(2,3) by simp
  then show "record_ok r'" "sr_id r' = sr_id r" "sr_prompt r' = sr_prompt r" "sr_rule r' = sr_rule r" "sr_at r < sr_at r'"
    using assms(2) r' by (simp_all add: record_ok_def four_digit_year_def)
qed

section \<open>The life of a reminder\<close>

text \<open>What the replayed changes make of one id, forgetting all others.\<close>

datatype reminder = Unborn | Live schedule_record | Gone

fun fate_step :: "schedule_id \<Rightarrow> reminder \<Rightarrow> schedule_change \<Rightarrow> reminder" where
  "fate_step i fate (ChangeCreate r) = (if sr_id r = i then Live r else fate)"
| "fate_step i fate (ChangeDelete j) = (if j = i then Gone else fate)"
| "fate_step i fate (ChangeDispatch j t) = (if j = i then (case fate of
     Live r \<Rightarrow> (case dispatched r t of Inr (Some r') \<Rightarrow> Live r' | _ \<Rightarrow> Gone) | _ \<Rightarrow> fate) else fate)"

definition fate :: "schedule_id \<Rightarrow> schedule_change list \<Rightarrow> reminder" where
  "fate i cs = foldl (fate_step i) Unborn cs"

definition created :: "schedule_change list \<Rightarrow> schedule_id list" where
  "created cs = List.map_filter (\<lambda>c. case c of ChangeCreate r \<Rightarrow> Some (sr_id r) | _ \<Rightarrow> None) cs"

definition reminder_of :: "schedules \<Rightarrow> schedule_id \<Rightarrow> reminder" where
  "reminder_of st i = (case om_get (sc_active st) i of Some r \<Rightarrow> Live r | None \<Rightarrow> if i \<in> set (sc_seen st) then Gone else Unborn)"

definition is_live :: "reminder \<Rightarrow> bool" where
  "is_live x \<longleftrightarrow> (case x of Live _ \<Rightarrow> True | _ \<Rightarrow> False)"

definition schedules_ok :: "schedules \<Rightarrow> bool" where
  "schedules_ok st \<longleftrightarrow> om_wf (sc_active st) \<and> distinct (sc_seen st) \<and>
     om_keys (sc_active st) = filter (\<lambda>i. om_get (sc_active st) i \<noteq> None) (sc_seen st) \<and>
     (\<forall>i r. om_get (sc_active st) i = Some r \<longrightarrow> sr_id r = i \<and> record_ok r)"

definition change_history :: "schedule_change list \<Rightarrow> schedules \<Rightarrow> bool" where
  "change_history cs st \<longleftrightarrow> schedules_ok st \<and> list_all change_ok cs \<and> sc_seen st = created cs \<and> (\<forall>i. reminder_of st i = fate i cs)"

lemma seen_active: "schedules_ok st \<Longrightarrow> om_get (sc_active st) i = Some r \<Longrightarrow> i \<in> set (sc_seen st)"
proof -
  assume ok: "schedules_ok st" and g: "om_get (sc_active st) i = Some r"
  then have "i \<in> set (om_keys (sc_active st))" by (simp add: om_keys_get)
  then show ?thesis using ok by (simp add: schedules_ok_def)
qed

lemma keys_del: "schedules_ok st \<Longrightarrow> schedules_ok (st\<lparr>sc_active := om_del i (sc_active st)\<rparr>)"
  by (auto simp: schedules_ok_def om_keys_del intro!: filter_cong)

lemma keys_put:
  assumes "schedules_ok st" "om_get (sc_active st) i = Some r" "sr_id r' = i" "record_ok r'"
  shows "schedules_ok (st\<lparr>sc_active := om_set i r' (sc_active st)\<rparr>)"
proof -
  have "i \<in> set (om_keys (sc_active st))" using assms(2) by (simp add: om_keys_get)
  moreover have "filter (\<lambda>j. om_get (sc_active st) j \<noteq> None) xs = filter (\<lambda>j. j = i \<or> om_get (sc_active st) j \<noteq> None) xs" for xs
    using assms(2) by (auto intro!: filter_cong)
  ultimately show ?thesis using assms by (auto simp: schedules_ok_def om_keys_set intro!: filter_cong)
qed

lemma keys_new:
  assumes "schedules_ok st" "record_ok r" "sr_id r \<notin> set (sc_seen st)"
  shows "schedules_ok \<lparr>sc_active = om_set (sr_id r) r (sc_active st), sc_seen = sc_seen st @ [sr_id r]\<rparr>"
proof -
  have "om_get (sc_active st) (sr_id r) = None" using assms seen_active by (metis option.exhaust)
  moreover have "filter (\<lambda>j. j \<noteq> sr_id r \<longrightarrow> om_get (sc_active st) j \<noteq> None) (sc_seen st) = filter (\<lambda>j. om_get (sc_active st) j \<noteq> None) (sc_seen st)"
    using assms(3) by (auto intro!: filter_cong)
  ultimately show ?thesis using assms by (auto simp: schedules_ok_def om_keys_set om_keys_get)
qed

lemma trimmed_text_ends: "s \<noteq> [] \<Longrightarrow> \<not> is_js_space (hd s) \<Longrightarrow> \<not> is_js_space (last s) \<Longrightarrow> js_trim s = s"
proof -
  assume s: "s \<noteq> []" "\<not> is_js_space (hd s)" "\<not> is_js_space (last s)"
  then have "dropWhile is_js_space s = s" "dropWhile is_js_space (rev s) = rev s"
    by (simp_all add: dropWhile_eq_self_iff hd_rev)
  then show ?thesis by (simp add: js_trim_def)
qed

lemma created_snoc: "created (cs @ [c]) = created cs @ (case c of ChangeCreate r \<Rightarrow> [sr_id r] | _ \<Rightarrow> [])"
  by (simp add: created_def map_filter_snoc split: schedule_change.split)

lemma fate_snoc: "fate i (cs @ [c]) = fate_step i (fate i cs) c"
  by (simp add: fate_def)

lemma apply_change_history:
  assumes h: "change_history cs st" and c: "change_ok c" and a: "apply_change st c = Inr st'"
  shows "change_history (cs @ [c]) st'"
proof -
  have ok: "schedules_ok st" and cs: "list_all change_ok cs" "sc_seen st = created cs" and l: "reminder_of st i = fate i cs" for i
    using h by (simp_all add: change_history_def)
  have "schedules_ok st' \<and> sc_seen st' = created (cs @ [c]) \<and> (\<forall>i. reminder_of st' i = fate_step i (reminder_of st i) c)"
  proof (cases c)
    case (ChangeCreate r)
    then have r: "sr_id r \<notin> set (sc_seen st)" "st' = \<lparr>sc_active = om_set (sr_id r) r (sc_active st), sc_seen = sc_seen st @ [sr_id r]\<rparr>"
      using a by (auto split: if_splits)
    then show ?thesis using keys_new [OF ok] c ChangeCreate by (auto simp: created_snoc cs reminder_of_def)
  next
    case (ChangeDelete i)
    then obtain r where r: "om_get (sc_active st) i = Some r" "st' = st\<lparr>sc_active := om_del i (sc_active st)\<rparr>"
      using a by (auto split: if_splits)
    then show ?thesis using keys_del [OF ok] ChangeDelete seen_active [OF ok r(1)] by (auto simp: created_snoc cs reminder_of_def)
  next
    case (ChangeDispatch i t)
    then obtain r nx where r: "om_get (sc_active st) i = Some r" "dispatched r t = Inr nx"
      "st' = (case nx of None \<Rightarrow> st\<lparr>sc_active := om_del i (sc_active st)\<rparr> | Some r' \<Rightarrow> st\<lparr>sc_active := om_set i r' (sc_active st)\<rparr>)"
      using a by (auto simp: rbind_Inr_iff split: option.splits)
    have i: "i \<in> set (sc_seen st)" by (rule seen_active [OF ok r(1)])
    have rok: "record_ok r" "sr_id r = i" using ok r(1) by (simp_all add: schedules_ok_def)
    show ?thesis
    proof (cases nx)
      case None
      then show ?thesis using keys_del [OF ok] r i ChangeDispatch by (auto simp: created_snoc cs reminder_of_def)
    next
      case (Some r')
      note d = dispatched_Inr [OF r(2) [unfolded Some] rok(1)]
      show ?thesis using keys_put [OF ok r(1) _ d(1)] d(2) rok(2) r i ChangeDispatch Some by (auto simp: created_snoc cs reminder_of_def)
    qed
  qed
  then show ?thesis using c cs l by (simp add: change_history_def fate_snoc)
qed

fun decoded_change :: "'x schedule_payload event \<Rightarrow> schedule_change option" where
  "decoded_change e = (case ev_data e of
     PluginEvent (ScheduleChange v) \<Rightarrow> (case decode_change v of Inr c \<Rightarrow> Some c | Inl _ \<Rightarrow> None) | _ \<Rightarrow> None)"

definition changes_of :: "'x schedule_payload event list \<Rightarrow> schedule_change list" where
  "changes_of evs = List.map_filter decoded_change evs"

lemma schedule_event_cases:
  assumes "schedule_event st e = Inr st'"
  obtains "decoded_change e = None" "st' = st" | c where "decoded_change e = Some c" "change_ok c" "apply_change st c = Inr st'"
proof (cases "ev_data e")
  case (PluginEvent p)
  show ?thesis
  proof (cases p)
    case (ScheduleChange v)
    then obtain c where "decode_change v = Inr c" "apply_change st c = Inr st'" using assms PluginEvent by (auto simp: rbind_Inr_iff)
    then show ?thesis using that(2) [of c] ScheduleChange PluginEvent decode_change_ok by simp
  qed (use that(1) assms PluginEvent in auto)
qed (use that(1) assms in auto)

interpretation schedule_log: replayed schedule_event no_schedules "\<lambda>evs. change_history (changes_of evs)"
proof unfold_locales
  show "change_history (changes_of []) no_schedules"
    by (simp add: change_history_def schedules_ok_def no_schedules_def changes_of_def created_def fate_def reminder_of_def om_keys_def List.map_filter_def)
next
  fix xs :: "'a schedule_payload event list" and x :: "'a schedule_payload event" and s s'
  assume h: "change_history (changes_of xs) s" and x: "schedule_event s x = Inr s'"
  from x show "change_history (changes_of (xs @ [x])) s'"
    using h by (cases rule: schedule_event_cases) (auto simp: changes_of_def map_filter_snoc intro: apply_change_history simp del: decoded_change.simps)
qed

lemma fold_schedules_history: "fold_schedules evs n = Inr st \<Longrightarrow> change_history (changes_of (drop (nat n) evs)) st"
  by (auto simp: fold_schedules_def intro: schedule_log.run_hist split: if_splits)

lemma fold_schedules_snoc:
  "fold_schedules evs n = Inr st \<Longrightarrow> fold_schedules (evs @ [e]) n = schedule_event st e"
  by (auto simp: fold_schedules_def replay_snoc split: if_splits)

lemma fold_schedules_foreign:
  "fold_schedules evs n = Inr st \<Longrightarrow> decoded_change e = None \<Longrightarrow> (\<forall>v. ev_data e \<noteq> PluginEvent (ScheduleChange v)) \<Longrightarrow>
   fold_schedules (evs @ [e]) n = Inr st"
  by (simp add: fold_schedules_snoc split: event_data.split schedule_payload.split)

section \<open>Allocated ids\<close>

lemma schedule_number_inj: "schedule_number m = schedule_number n \<Longrightarrow> m = n"
  by (simp add: schedule_number_def nat_string_inj)

lemma next_free_Some: "next_free fuel seen n = Some i \<Longrightarrow> i \<notin> set seen \<and> (\<exists>m\<ge>n. i = schedule_number m)"
  by (induction fuel seen n rule: next_free.induct) (auto split: if_splits intro: Suc_leD)

lemma next_free_None: "next_free fuel seen n = None \<Longrightarrow> schedule_number ` {n..<n + fuel} \<subseteq> set seen"
proof (induction fuel seen n rule: next_free.induct)
  case (2 fuel seen n)
  then have n: "schedule_number n \<in> set seen" "schedule_number ` {Suc n..<Suc n + fuel} \<subseteq> set seen" by (auto split: if_splits)
  have "{n..<n + Suc fuel} = insert n {Suc n..<Suc n + fuel}" by auto
  then show ?case using n by simp
qed simp

lemma schedule_number_ok: "stripped (schedule_number n)"
proof -
  have d: "nat_string n \<noteq> []" "is_digit (last (nat_string n))" using nat_string_digits [of n] by (auto simp: list_all_iff)
  then have "\<not> is_js_space (last (schedule_number n))" "\<not> is_js_space (hd (schedule_number n))"
    by (auto simp: schedule_number_def is_js_space_def is_digit_def less_eq_char_def)
  then show ?thesis by (simp add: stripped_def trimmed_text_ends schedule_number_def)
qed

lemma allocate_id_fresh:
  obtains i where "allocate_id st = Some i" "i \<notin> set (sc_seen st)" "stripped i"
proof (cases "allocate_id st")
  case None
  let ?k = "length (remdups (sc_seen st))"
  have "schedule_number ` {?k + 1..<?k + 1 + (?k + 1)} \<subseteq> set (sc_seen st)"
    using None by (intro next_free_None) (simp add: allocate_id_def Let_def)
  then have "card (schedule_number ` {?k + 1..<?k + 1 + (?k + 1)}) \<le> ?k"
    by (metis List.finite_set card_mono length_remdups_card_conv)
  moreover have "card (schedule_number ` {?k + 1..<?k + 1 + (?k + 1)}) = ?k + 1"
    by (subst card_image) (auto intro: inj_onI schedule_number_inj)
  ultimately show ?thesis by simp
next
  case (Some i)
  then show ?thesis using next_free_Some [of _ "sc_seen st" _ i] schedule_number_ok that unfolding allocate_id_def Let_def by blast
qed

section \<open>Accepted rules\<close>

lemma future_instant_Inr: "future_instant e now = Inr t \<longleftrightarrow> t = e \<and> safe_int now \<and> safe_int e \<and> four_digit_year e \<and> now < e"
  by (auto simp: future_instant_def)

lemma trimmed_ok: "js_trim s \<noteq> [] \<Longrightarrow> stripped (js_trim s)"
  by (simp add: stripped_def)

lemma create_after_ok:
  assumes "create_after i prompt n now = Inr r" "stripped i"
  shows "record_ok r" "sr_id r = i" "now < sr_at r" "sr_at r = now + \<lfloor>n\<rfloor> * 1000"
  using assms by (auto simp: create_after_def Let_def rbind_Inr_iff future_instant_Inr record_ok_def trimmed_ok elim!: safe_integerE split: if_splits)

lemma create_every_ok:
  assumes "create_every i prompt n now = Inr r" "stripped i" "four_digit_year now"
  shows "record_ok r" "sr_id r = i" "now < sr_at r" "sr_at r = now + \<lfloor>n\<rfloor> * 1000"
proof -
  have p: "js_trim prompt \<noteq> []" "MIN_EVERY_INTERVAL_SECONDS \<le> \<lfloor>n\<rfloor>"
      "four_digit_year (now + \<lfloor>n\<rfloor> * 1000)" "safe_int now" "now < now + \<lfloor>n\<rfloor> * 1000"
    and r: "r = \<lparr>sr_id = i, sr_prompt = js_trim prompt, sr_rule = EveryRule \<lfloor>n\<rfloor>, sr_at = now + \<lfloor>n\<rfloor> * 1000\<rparr>"
    using assms(1) by (auto simp: create_every_def Let_def rbind_Inr_iff future_instant_Inr split: if_splits)
  show "record_ok r" "sr_id r = i" "now < sr_at r" "sr_at r = now + \<lfloor>n\<rfloor> * 1000"
    using p assms(2,3) by (simp_all add: r record_ok_def trimmed_ok safe_int_def max_safe_def four_digit_year_def MIN_FOUR_DIGIT_YEAR_MS_def
      MAX_FOUR_DIGIT_YEAR_MS_def MIN_EVERY_INTERVAL_SECONDS_def)
qed

lemma create_at_ok:
  assumes "create_at canon project i prompt sel now = Inr r" "stripped i"
  shows "record_ok r" "sr_id r = i" "now < sr_at r" "at_target canon project sel = Inr (sr_at r)"
  using assms by (auto simp: create_at_def Let_def rbind_Inr_iff future_instant_Inr record_ok_def trimmed_ok split: if_splits)

section \<open>Local times\<close>

definition sampled_offsets :: "zone_projection \<Rightarrow> string \<Rightarrow> utc_fields \<Rightarrow> int set" where
  "sampled_offsets project zone f = {x. \<exists>e g. e \<in> set (sample_points (instant_of f)) \<and> project zone e = Some (g, x)}"

definition reads_as :: "zone_projection \<Rightarrow> string \<Rightarrow> int \<Rightarrow> utc_fields \<Rightarrow> int \<Rightarrow> bool" where
  "reads_as project zone e f x \<longleftrightarrow> four_digit_year e \<and> project zone e = Some (f, x)"

lemma zone_candidates_Inr:
  "zone_candidates project zone f t os = Inr (cs, out) \<Longrightarrow>
   set cs = {e. four_digit_year e \<and> (\<exists>x y. x \<in> set os \<and> e = t - x \<and> project zone e = Some (f, y))}"
proof (induction os arbitrary: cs out)
  case (Cons x os)
  show ?case
  proof (cases "four_digit_year (t - x)")
    case False
    then obtain out' where "zone_candidates project zone f t os = Inr (cs, out')" using Cons.prems by (auto simp: Let_def rbind_Inr_iff)
    then show ?thesis using Cons.IH False by auto
  next
    case True
    then obtain g y cs' where p: "project zone (t - x) = Some (g, y)" "zone_candidates project zone f t os = Inr (cs', out)"
      "cs = (if g = f then (t - x) # cs' else cs')"
      using Cons.prems by (auto simp: Let_def rbind_Inr_iff local_projection_def split: option.splits)
    show ?thesis unfolding p(3) using Cons.IH [OF p(2)] p(1) True by auto
  qed
qed simp

lemma zone_candidates_Inl: "zone_candidates project zone f t os = Inl e \<Longrightarrow> e = InvalidTimeZone"
  by (induction os) (auto simp: Let_def rbind_Inl_iff local_projection_def split: option.splits if_splits)

lemma offset_set: "set (fold (\<lambda>x acc. add_offset acc x) os acc) = set acc \<union> set os"
  by (induction os arbitrary: acc) (auto simp: add_offset_def)

lemma traverse_samples:
  "traverse (\<lambda>e. rbind (local_projection project zone e) (\<lambda>p. Inr (snd p))) es = Inr os \<Longrightarrow>
   set os = {x. \<exists>e g. e \<in> set es \<and> project zone e = Some (g, x)}"
proof (induction es arbitrary: os)
  case (Cons e es)
  then obtain g x os' where "project zone e = Some (g, x)" "os = x # os'" "set os' = {x. \<exists>e g. e \<in> set es \<and> project zone e = Some (g, x)}"
    by (auto simp: rbind_Inr_iff local_projection_def split: option.splits)
  then show ?case by auto
qed simp

lemma traverse_samples_error:
  "traverse (\<lambda>e. rbind (local_projection project zone e) (\<lambda>p. Inr (snd p))) es = Inl e \<Longrightarrow> e = InvalidTimeZone"
  by (induction es) (auto simp: rbind_Inl_iff local_projection_def split: option.splits)

lemma resolve_local_candidates:
  assumes "fields_of (instant_of f) = f" "resolve_local project f zone = r" "r \<noteq> Inl InvalidTimeZone"
  obtains cs out where "r = (case sort cs of c # _ \<Rightarrow> Inr c | [] \<Rightarrow> if out then Inl TimeOutOfRange else Inl InvalidRule)"
    "set cs = {e. four_digit_year e \<and> (\<exists>x y. x \<in> sampled_offsets project zone f \<and> e = instant_of f - x \<and> project zone e = Some (f, y))}"
proof -
  define ps where "ps = traverse (\<lambda>e. rbind (local_projection project zone e) (\<lambda>p. Inr (snd p))) (sample_points (instant_of f))"
  have r: "r = rbind ps (\<lambda>os. rbind (zone_candidates project zone f (instant_of f) (fold (\<lambda>x acc. add_offset acc x) os [])) (\<lambda>(cs, out).
     case sort cs of c # _ \<Rightarrow> Inr c | [] \<Rightarrow> if out then Inl TimeOutOfRange else Inl InvalidRule))"
    using assms(2) by (simp add: resolve_local_def calendar_epoch_def assms(1) ps_def)
  obtain os where os: "ps = Inr os"
    using assms(3) traverse_samples_error [of project zone "sample_points (instant_of f)"] r by (cases ps) (auto simp: ps_def)
  define zs where "zs = zone_candidates project zone f (instant_of f) (fold (\<lambda>x acc. add_offset acc x) os [])"
  obtain cs out where z: "zs = Inr (cs, out)"
    using assms(3) zone_candidates_Inl [of project zone f "instant_of f"] r by (cases zs) (auto simp: os zs_def)
  have "set cs = {e. four_digit_year e \<and> (\<exists>x y. x \<in> set os \<and> e = instant_of f - x \<and> project zone e = Some (f, y))}"
    using zone_candidates_Inr [OF z [unfolded zs_def]] by (simp add: offset_set)
  moreover have "set os = sampled_offsets project zone f"
    using traverse_samples [OF os [unfolded ps_def]] by (simp add: sampled_offsets_def)
  moreover have "r = (case sort cs of c # _ \<Rightarrow> Inr c | [] \<Rightarrow> if out then Inl TimeOutOfRange else Inl InvalidRule)"
    using r z by (simp add: os zs_def)
  ultimately show ?thesis using that by metis
qed

section \<open>Properties\<close>

text \<open>
  The decoder accepts a change exactly when it is well formed, and reads every well-formed change back from the
  object the plugin appends.
\<close>

theorem schedule_changes_round_trip:
  "(\<exists>v. decode_change v = Inr c) = change_ok c \<and> (decode_change (change_json c) = Inr c) = change_ok c"
  using decode_change_json decode_change_ok by metis

text \<open>
  When a fixed-rate reminder is due, the decision picks the latest occurrence on the grid of its creation that is
  not after the clock, and the dispatch moves it to the next one, which is later than the clock, or ends it when that
  one has no four-digit year.
\<close>

theorem every_decision_takes_the_latest_occurrence:
  assumes r: "record_ok r" and n: "sr_rule r = EveryRule n" and now: "four_digit_year now" and due: "sr_at r \<le> now"
  shows "\<exists>d k. resolve_every (sr_at r) n now = Inr d \<and> 0 \<le> k \<and> eo_at d = sr_at r + k * (n * 1000) \<and> eo_at d \<le> now \<and>
    now < eo_at d + n * 1000 \<and>
    dispatched r (Some now) = Inr (if MAX_FOUR_DIGIT_YEAR_MS < eo_at d + n * 1000 then None else Some (r\<lparr>sr_at := eo_at d + n * 1000\<rparr>))"
proof -
  have "ok (resolve_every (sr_at r) n now)" using resolve_every_defined now due r n by (simp add: record_ok_def)
  then obtain d where d: "resolve_every (sr_at r) n now = Inr d" by (auto simp: ok_iff)
  note e = resolve_every_Inr [OF d]
  obtain k where k: "eo_at d - sr_at r = k * (n * 1000)" using e(6) by (metis mod_0_imp_dvd dvd_def mult.commute)
  then have "0 \<le> k * (n * 1000)" "0 < n * 1000" using e(2,3) by linarith+
  then have "0 \<le> k" by (metis zero_le_mult_iff not_less)
  moreover have "dispatched r (Some now) = Inr (if MAX_FOUR_DIGIT_YEAR_MS < eo_at d + n * 1000 then None else Some (r\<lparr>sr_at := eo_at d + n * 1000\<rparr>))"
    using e(7) by (simp add: dispatched_def n d)
  ultimately show ?thesis using d k e(4,5) by (intro exI [of _ d] exI [of _ k]) simp
qed

text \<open>
  C18: An accepted log gives every reminder the life its own changes describe, whatever other reminders do: it is
  created at most once, a deleted or finished one never returns, and the active reminders are listed in the order of
  their creation.
\<close>

theorem schedule_fold_tells_each_life:
  fixes evs :: "'x schedule_payload event list"
  assumes fold: "fold_schedules evs n = Inr st"
  defines "cs \<equiv> changes_of (drop (nat n) evs)"
  shows "distinct (created cs) \<and> map sr_id (active_schedules st) = filter (\<lambda>i. is_live (fate i cs)) (created cs) \<and>
    map Live (active_schedules st) = map (\<lambda>i. fate i cs) (filter (\<lambda>i. is_live (fate i cs)) (created cs)) \<and>
    list_all record_ok (active_schedules st)"
proof (intro conjI)
  have h: "schedules_ok st" "sc_seen st = created cs" "reminder_of st i = fate i cs" for i
    using fold_schedules_history [OF fold] by (simp_all add: change_history_def cs_def)
  have live: "is_live (fate i cs) \<longleftrightarrow> om_get (sc_active st) i \<noteq> None" for i
    by (simp add: h(3) [symmetric] reminder_of_def is_live_def split: option.splits)
  have wf: "om_wf (sc_active st)" using h(1) by (simp add: schedules_ok_def)
  have get: "om_get (sc_active st) i = Some r" if "(i, r) \<in> set (sc_active st)" for i r
    using that om_set_in [OF wf] by blast
  then have ids: "sr_id r = i" "record_ok r" "fate i cs = Live r" if "(i, r) \<in> set (sc_active st)" for i r
    using get [OF that] h(1) h(3) [of i, symmetric] by (simp_all add: schedules_ok_def reminder_of_def)
  show "distinct (created cs)" using h(1,2) by (simp add: schedules_ok_def)
  have keys: "om_keys (sc_active st) = filter (\<lambda>i. is_live (fate i cs)) (created cs)"
    using h(1) by (simp add: schedules_ok_def live h(2))
  have m: "map sr_id (active_schedules st) = om_keys (sc_active st)"
    by (auto simp: active_schedules_def om_keys_def ids(1))
  then show "map sr_id (active_schedules st) = filter (\<lambda>i. is_live (fate i cs)) (created cs)" by (simp add: keys)
  show "map Live (active_schedules st) = map (\<lambda>i. fate i cs) (filter (\<lambda>i. is_live (fate i cs)) (created cs))"
    unfolding keys [symmetric] by (auto simp: active_schedules_def om_keys_def ids(3))
  show "list_all record_ok (active_schedules st)" by (auto simp: active_schedules_def list_all_iff ids(2))
qed

text \<open>
  A local date and time resolves to an instant that the time zone shows as exactly these fields, the first one among
  those that have an offset found within two days; a real local time is called nonexistent only when there is none.
\<close>

theorem local_time_resolves_to_its_first_instant:
  assumes lawful: "\<And>e g x. project zone e = Some (g, x) \<Longrightarrow> instant_of g = e + x" and real: "fields_of (instant_of f) = f"
  shows "case resolve_local project f zone of
      Inr c \<Rightarrow> (\<exists>x. reads_as project zone c f x) \<and> (\<forall>e x. reads_as project zone e f x \<and> x \<in> sampled_offsets project zone f \<longrightarrow> c \<le> e)
    | Inl err \<Rightarrow> err = InvalidRule \<longrightarrow> (\<nexists>e x. reads_as project zone e f x \<and> x \<in> sampled_offsets project zone f)"
proof (cases "resolve_local project f zone = Inl InvalidTimeZone")
  case False
  obtain cs out where r: "resolve_local project f zone = (case sort cs of c # _ \<Rightarrow> Inr c | [] \<Rightarrow> if out then Inl TimeOutOfRange else Inl InvalidRule)"
    and cs: "set cs = {e. four_digit_year e \<and> (\<exists>x y. x \<in> sampled_offsets project zone f \<and> e = instant_of f - x \<and> project zone e = Some (f, y))}"
    by (rule resolve_local_candidates [OF real refl False])
  have inst: "e \<in> set cs" if "reads_as project zone e f x" "x \<in> sampled_offsets project zone f" for e x
    using that lawful [of e f x] by (auto simp: cs reads_as_def intro!: exI [of _ x])
  show ?thesis
  proof (cases "sort cs")
    case Nil
    then have "cs = []" by (metis set_empty set_sort)
    then show ?thesis using r inst by fastforce
  next
    case (Cons c rest)
    then have c: "c \<in> set cs" by (metis list.set_intros(1) set_sort)
    have "sorted (c # rest)" "set cs = set (c # rest)" using sorted_sort [of cs] set_sort [of "\<lambda>x. x" cs] Cons by simp_all
    then have least: "c \<le> e" if "e \<in> set cs" for e using that by auto
    have "\<exists>x. reads_as project zone c f x" using c by (auto simp: cs reads_as_def)
    moreover have "resolve_local project f zone = Inr c" using r Cons by simp
    ultimately show ?thesis using least inst by auto
  qed
qed simp

section \<open>Samples\<close>

definition sample_after :: schedule_record where
  "sample_after = \<lparr>sr_id = ''schedule-1'', sr_prompt = ''stretch'', sr_rule = AfterRule 60, sr_at = 60000\<rparr>"

definition sample_every :: schedule_record where
  "sample_every = \<lparr>sr_id = ''schedule-2'', sr_prompt = ''check the build'', sr_rule = EveryRule 300, sr_at = 300000\<rparr>"

definition sample_changes :: "schedule_change list" where
  "sample_changes = [ChangeCreate sample_after, ChangeCreate sample_every, ChangeDispatch ''schedule-2'' (Some 1000000), ChangeDelete ''schedule-1'']"

definition sample_schedule_log :: "unit schedule_payload event list" where
  "sample_schedule_log = map (\<lambda>c. log_event 0 0 (PluginEvent (ScheduleChange (change_json c)))) sample_changes"

lemma sample_changes_ok: "list_all change_ok sample_changes" "record_ok sample_after" "record_ok sample_every"
  by code_simp+

lemma sample_changes_decode: "c \<in> set sample_changes \<Longrightarrow> decode_change (change_json c) = Inr c"
  using sample_changes_ok(1) decode_change_json by (metis list_all_iff)

lemma sample_schedule_fold:
  "fold_schedules sample_schedule_log 0 = Inr \<lparr>sc_active = [(''schedule-2'', sample_every\<lparr>sr_at := 1200000\<rparr>)], sc_seen = [''schedule-1'', ''schedule-2'']\<rparr>"
proof -
  have "replay apply_change no_schedules sample_changes =
      Inr \<lparr>sc_active = [(''schedule-2'', sample_every\<lparr>sr_at := 1200000\<rparr>)], sc_seen = [''schedule-1'', ''schedule-2'']\<rparr>"
    by code_simp
  moreover have "replay schedule_event st (map (\<lambda>c. log_event 0 0 (PluginEvent (ScheduleChange (change_json c)))) cs :: unit schedule_payload event list) = replay apply_change st cs"
    if "set cs \<subseteq> set sample_changes" for st :: schedules and cs
    using that by (induction cs arbitrary: st) (simp_all add: sample_changes_decode del: change_json.simps)
  ultimately show ?thesis by (simp add: fold_schedules_def sample_schedule_log_def safe_int_def max_safe_def)
qed

lemma sample_changes_of: "changes_of sample_schedule_log = sample_changes"
proof -
  have "List.map_filter decoded_change (map (\<lambda>c. log_event 0 0 (PluginEvent (ScheduleChange (change_json c)))) cs :: unit schedule_payload event list) = cs"
    if "set cs \<subseteq> set sample_changes" for cs
    using that by (induction cs) (simp_all add: map_filter_Cons sample_changes_decode List.map_filter_simps del: change_json.simps)
  then show ?thesis by (simp add: changes_of_def sample_schedule_log_def)
qed

theorem every_decision_takes_the_latest_occurrence_witness:
  "\<exists>d k. resolve_every 300000 300 1000000 = Inr d \<and> 0 \<le> k \<and> eo_at d = 300000 + k * 300000 \<and> eo_at d \<le> 1000000 \<and> 1000000 < eo_at d + 300000"
proof -
  have "sr_rule sample_every = EveryRule 300" "four_digit_year 1000000" "sr_at sample_every \<le> 1000000" by code_simp+
  from every_decision_takes_the_latest_occurrence [OF sample_changes_ok(3) this] show ?thesis
    by (auto simp: sample_every_def)
qed

theorem schedule_fold_tells_each_life_witness:
  "filter (\<lambda>i. is_live (fate i sample_changes)) (created sample_changes) = [''schedule-2'']"
  using schedule_fold_tells_each_life [OF sample_schedule_fold] sample_changes_of
  by (simp add: active_schedules_def sample_every_def)

text \<open>London at the end of summer time 2024: until 01:00 UTC the offset is one hour, then none.\<close>

definition london :: zone_projection where
  "london zone e = (let x = if e < 1729990800000 then 3600000 else 0 in Some (fields_of (e + x), x))"

definition half_past_one :: utc_fields where
  "half_past_one = \<lparr>uf_year = 2024, uf_month = 10, uf_day = 27, uf_hour = 1, uf_minute = 30, uf_second = 0, uf_milli = 0\<rparr>"

lemma half_past_one_twice:
  "resolve_local london half_past_one ''Europe/London'' = Inr 1729989000000" "fields_of (instant_of half_past_one) = half_past_one"
  "reads_as london ''Europe/London'' 1729992600000 half_past_one 0" "0 \<in> sampled_offsets london ''Europe/London'' half_past_one"
  by (code_simp, code_simp, code_simp, simp add: sampled_offsets_def sample_points_def london_def Let_def instant_of_def make_day_def
      start_of_def half_past_one_def DAY_MS_def MAX_FOUR_DIGIT_YEAR_MS_def MIN_FOUR_DIGIT_YEAR_MS_def exI [of _ "1729992600000 :: int"])

theorem local_time_resolves_to_its_first_instant_witness:
  "resolve_local london half_past_one ''Europe/London'' = Inr 1729989000000 \<and> (1729989000000 :: int) \<le> 1729992600000"
proof -
  have "instant_of g = e + x" if "london ''Europe/London'' e = Some (g, x)" for e g x
    using that by (auto simp: london_def Let_def instant_of_fields split: if_splits)
  from local_time_resolves_to_its_first_instant [where project = london and f = half_past_one and zone = "''Europe/London''", OF this half_past_one_twice(2)] half_past_one_twice
  show ?thesis by auto
qed

end
