(* ===== verification/Schedule_Tools.thy ===== *)
theory Schedule_Tools
  imports Schedule_Framing Agent_Log
begin

text \<open>
  The management tools of reminders (\<open>packages/schedule/schedule/src/tools.ts\<close>). A tool runs as one transaction of its
  agent: a durability barrier, the fold of the log, the mutation, a second barrier. Between the first barrier and the
  append nothing is awaited, so the body is one step on the session; the outcomes of the barriers, the clock and the
  cancellation signal are inputs.
\<close>

section \<open>Inputs and values\<close>

record create_args =
  ca_keys :: "string list"
  ca_prompt :: string
  ca_after :: "rat option"
  ca_at :: "json option"
  ca_every :: "rat option"

record tool_env =
  te_owner :: bool
  te_cancelled :: bool
  te_flushed :: bool
  te_now :: int
  te_late :: bool
  te_tick :: int
  te_barrier :: bool
  te_after :: int

datatype schedule_operation = CreateOp | ListOp | DeleteOp

datatype schedule_tool_error =
    InputError schedule_input_error | InvalidSelector | CorruptScheduleLog | PersistenceUncertain schedule_operation "schedule_id option" | InternalError

datatype delete_result = Deleted schedule_id | ScheduleNotFound schedule_id

section \<open>The session's reminders\<close>

definition own_seed :: "'x schedule_payload session \<Rightarrow> int" where
  "own_seed s = (case sh_seed_length (ses_header s) of None \<Rightarrow> 0 | Some n \<Rightarrow> n)"

definition session_schedules :: "'x schedule_payload session \<Rightarrow> schedule_log_error + schedules" where
  "session_schedules s = fold_schedules (ses_log s) (own_seed s)"

definition fold_for_tool :: "'x schedule_payload session \<Rightarrow> schedule_tool_error + schedules" where
  "fold_for_tool s = (case session_schedules s of Inl _ \<Rightarrow> Inl CorruptScheduleLog | Inr st \<Rightarrow> Inr st)"

definition append_change :: "int \<Rightarrow> schedule_change \<Rightarrow> 'x schedule_payload session \<Rightarrow>
    'x schedule_payload session \<times> (session_error + 'x schedule_payload event)" where
  "append_change tick c s = session_append tick (PluginEvent (ScheduleChange (change_json c))) no_intent s"

section \<open>\<open>schedule_create\<close>\<close>

definition CREATE_KEYS :: "string list" where
  "CREATE_KEYS = [''prompt'', ''after_seconds'', ''at'', ''every_seconds'']"

definition selectors :: "create_args \<Rightarrow> nat" where
  "selectors a = of_bool (ca_after a \<noteq> None) + of_bool (ca_at a \<noteq> None) + of_bool (ca_every a \<noteq> None)"

definition validate_create_args :: "create_args \<Rightarrow> schedule_tool_error option" where
  "validate_create_args a =
     (if list_ex (\<lambda>k. k \<notin> set CREATE_KEYS) (ca_keys a) \<or> selectors a \<noteq> 1 then Some InvalidSelector
      else if js_trim (ca_prompt a) = [] then Some (InputError InvalidPrompt)
      else if (case ca_after a of None \<Rightarrow> False | Some n \<Rightarrow> \<not> safe_integer n \<or> n \<le> 0) then Some (InputError InvalidRule)
      else if (case ca_every a of None \<Rightarrow> False | Some n \<Rightarrow> \<not> safe_integer n) then Some (InputError InvalidRule)
      else if (case ca_every a of None \<Rightarrow> False | Some n \<Rightarrow> n < of_int MIN_EVERY_INTERVAL_SECONDS) then Some (InputError FrequencyTooHigh)
      else None)"

definition new_record ::
    "(string \<Rightarrow> string option) \<Rightarrow> zone_projection \<Rightarrow> schedule_id \<Rightarrow> create_args \<Rightarrow> int \<Rightarrow> schedule_input_error + schedule_record" where
  "new_record canon project i a now =
     (case ca_at a of
        Some sel \<Rightarrow> create_at canon project i (ca_prompt a) sel now
      | None \<Rightarrow> (case ca_after a of
          Some n \<Rightarrow> create_after i (ca_prompt a) n now
        | None \<Rightarrow> create_every i (ca_prompt a) (case ca_every a of Some n \<Rightarrow> n | None \<Rightarrow> 0) now))"

definition create_body ::
    "(string \<Rightarrow> string option) \<Rightarrow> zone_projection \<Rightarrow> create_args \<Rightarrow> tool_env \<Rightarrow> 'x schedule_payload session \<Rightarrow>
      'x schedule_payload session \<times> (schedule_tool_error + schedule_record \<times> schedule_state)" where
  "create_body canon project a env s =
     (case fold_for_tool s of
        Inl err \<Rightarrow> (s, Inl err)
      | Inr st \<Rightarrow> (case allocate_id st of
          None \<Rightarrow> (s, Inl InternalError)
        | Some i \<Rightarrow> (case new_record canon project i a (te_now env) of
            Inl err \<Rightarrow> (s, Inl (InputError err))
          | Inr r \<Rightarrow>
              if te_late env then (s, Inl InternalError)
              else case append_change (te_tick env) (ChangeCreate r) s of
                  (s', Inl _) \<Rightarrow> (s', Inl InternalError)
                | (s', Inr _) \<Rightarrow>
                    if \<not> te_barrier env then (s', Inl (PersistenceUncertain CreateOp (Some i)))
                    else (s', Inr (schedule_view r (te_after env))))))"

definition schedule_create ::
    "(string \<Rightarrow> string option) \<Rightarrow> zone_projection \<Rightarrow> create_args \<Rightarrow> tool_env \<Rightarrow> 'x schedule_payload session \<Rightarrow>
      'x schedule_payload session \<times> (schedule_tool_error + schedule_record \<times> schedule_state)" where
  "schedule_create canon project a env s =
     (if \<not> te_owner env then (s, Inl InternalError)
      else case validate_create_args a of Some err \<Rightarrow> (s, Inl err)
        | None \<Rightarrow>
            if te_cancelled env then (s, Inl InternalError)
            else if \<not> te_flushed env then (s, Inl (PersistenceUncertain CreateOp None))
            else create_body canon project a env s)"

section \<open>\<open>schedule_list\<close> and \<open>schedule_delete\<close>\<close>

definition schedule_list :: "tool_env \<Rightarrow> 'x schedule_payload session \<Rightarrow> schedule_tool_error + (schedule_record \<times> schedule_state) list" where
  "schedule_list env s =
     (if \<not> te_owner env \<or> te_cancelled env then Inl InternalError
      else if \<not> te_flushed env then Inl (PersistenceUncertain ListOp None)
      else rbind (fold_for_tool s) (\<lambda>st. Inr (map (\<lambda>r. schedule_view r (te_now env)) (active_schedules st))))"

definition delete_body ::
    "schedule_id \<Rightarrow> tool_env \<Rightarrow> 'x schedule_payload session \<Rightarrow> 'x schedule_payload session \<times> (schedule_tool_error + delete_result)" where
  "delete_body i env s =
     (case fold_for_tool s of
        Inl err \<Rightarrow> (s, Inl err)
      | Inr st \<Rightarrow>
          if \<not> list_ex (\<lambda>r. sr_id r = i) (active_schedules st) then (s, Inr (ScheduleNotFound i))
          else if te_late env then (s, Inl InternalError)
          else case append_change (te_tick env) (ChangeDelete i) s of
              (s', Inl _) \<Rightarrow> (s', Inl InternalError)
            | (s', Inr _) \<Rightarrow> if \<not> te_barrier env then (s', Inl (PersistenceUncertain DeleteOp (Some i))) else (s', Inr (Deleted i)))"

definition schedule_delete ::
    "schedule_id \<Rightarrow> tool_env \<Rightarrow> 'x schedule_payload session \<Rightarrow> 'x schedule_payload session \<times> (schedule_tool_error + delete_result)" where
  "schedule_delete i env s =
     (if i = [] \<or> js_trim i \<noteq> i then (s, Inl (InputError InvalidRule))
      else if \<not> te_owner env \<or> te_cancelled env then (s, Inl InternalError)
      else if \<not> te_flushed env then (s, Inl (PersistenceUncertain DeleteOp (Some i)))
      else delete_body i env s)"

section \<open>What the tools do to the log\<close>

lemma append_change_cases:
  assumes "append_change tick c s = (s', r)"
  obtains (failed) err where "r = Inl err" "ses_log s' = ses_log s" "ses_header s' = ses_header s"
  | (appended) e where "r = Inr e" "ses_log s' = ses_log s @ [e]" "ses_header s' = ses_header s" "ev_data e = PluginEvent (ScheduleChange (change_json c))"
  using session_append_effect [OF assms [unfolded append_change_def]] session_append_frame(1) [OF assms [unfolded append_change_def]] that
  by (cases r) (auto simp: append_candidate_def)

lemma session_schedules_appended:
  assumes "session_schedules s = Inr st" "ses_log s' = ses_log s @ [e]" "ses_header s' = ses_header s"
    "ev_data e = PluginEvent (ScheduleChange (change_json c))" "change_ok c"
  shows "session_schedules s' = apply_change st c"
  using assms by (simp add: session_schedules_def own_seed_def fold_schedules_snoc decode_change_json del: change_json.simps)

lemma session_schedules_ok:
  assumes "session_schedules s = Inr st" shows "schedules_ok st"
  using fold_schedules_history [OF assms [unfolded session_schedules_def]] by (simp add: change_history_def)

lemma new_record_ok:
  assumes "new_record canon project i a now = Inr r" "stripped i" "four_digit_year now"
  shows "record_ok r" "sr_id r = i" "now < sr_at r"
  using assms create_at_ok create_after_ok create_every_ok by (auto simp: new_record_def split: option.splits)

text \<open>The two ways a tool leaves the session, with what it returns.\<close>

lemma schedule_create_effect:
  assumes run: "schedule_create canon project a env s = (s', v)" and now: "four_digit_year (te_now env)"
  shows "s' = s \<and> (\<exists>err. v = Inl err \<and> (\<forall>i. err \<noteq> PersistenceUncertain CreateOp (Some i))) \<or>
    (\<exists>st r. session_schedules s = Inr st \<and> record_ok r \<and> sr_id r \<notin> set (sc_seen st) \<and> te_now env < sr_at r \<and>
      (ses_log s' = ses_log s \<and> ses_header s' = ses_header s \<and> v = Inl InternalError \<or>
       (\<exists>e. ses_log s' = ses_log s @ [e] \<and> ses_header s' = ses_header s \<and> ev_data e = PluginEvent (ScheduleChange (change_json (ChangeCreate r))) \<and>
        v = (if te_barrier env then Inr (schedule_view r (te_after env)) else Inl (PersistenceUncertain CreateOp (Some (sr_id r)))))))"
proof (cases "te_owner env \<and> validate_create_args a = None \<and> \<not> te_cancelled env \<and> te_flushed env")
  case False
  have "\<forall>i. err \<noteq> PersistenceUncertain CreateOp (Some i)" if "validate_create_args a = Some err" for err
    using that by (auto simp: validate_create_args_def split: if_splits option.splits)
  then show ?thesis using run False by (auto simp: schedule_create_def split: option.splits if_splits)
next
  case True
  then have body: "create_body canon project a env s = (s', v)" using run by (simp add: schedule_create_def)
  show ?thesis
  proof (cases "session_schedules s")
    case (Inl err)
    then show ?thesis using body by (auto simp: create_body_def fold_for_tool_def)
  next
    case (Inr st)
    obtain i where i: "allocate_id st = Some i" "i \<notin> set (sc_seen st)" "stripped i" by (rule allocate_id_fresh)
    show ?thesis
    proof (cases "new_record canon project i a (te_now env)")
      case (Inl err)
      then show ?thesis using body Inr i by (auto simp: create_body_def fold_for_tool_def)
    next
      case r: (Inr r)
      note ok = new_record_ok [OF r i(3) now]
      obtain s1 x where a: "append_change (te_tick env) (ChangeCreate r) s = (s1, x)" by fastforce
      show ?thesis
      proof (cases "te_late env")
        case True
        then show ?thesis using body Inr i r by (auto simp: create_body_def fold_for_tool_def)
      next
        case False
        have b: "(case x of Inl _ \<Rightarrow> (s1, Inl InternalError)
            | Inr _ \<Rightarrow> if \<not> te_barrier env then (s1, Inl (PersistenceUncertain CreateOp (Some i))) else (s1, Inr (schedule_view r (te_after env)))) = (s', v)"
          using body False by (simp add: create_body_def fold_for_tool_def Inr i r a)
        show ?thesis using a
        proof (cases rule: append_change_cases)
          case (failed err)
          then show ?thesis using b Inr ok i by (intro disjI2 exI [of _ st] exI [of _ r]) simp
        next
          case (appended e)
          then have "s' = s1" "v = (if te_barrier env then Inr (schedule_view r (te_after env)) else Inl (PersistenceUncertain CreateOp (Some i)))"
            using b by (simp_all split: if_splits)
          then show ?thesis using appended Inr ok i by (intro disjI2 exI [of _ st] exI [of _ r] conjI exI [of _ e]) simp_all
        qed
      qed
    qed
  qed
qed

lemma schedule_delete_effect:
  assumes run: "schedule_delete i env s = (s', v)"
  shows "s' = s \<and> (v = Inr (ScheduleNotFound i) \<and> (\<exists>st. session_schedules s = Inr st \<and> (\<forall>r\<in>set (active_schedules st). sr_id r \<noteq> i)) \<or>
        (\<exists>err. v = Inl err \<and> (err = PersistenceUncertain DeleteOp (Some i) \<longrightarrow> \<not> te_flushed env))) \<or>
    (\<exists>st. session_schedules s = Inr st \<and> stripped i \<and> (\<exists>r\<in>set (active_schedules st). sr_id r = i) \<and>
      (ses_log s' = ses_log s \<and> ses_header s' = ses_header s \<and> v = Inl InternalError \<or>
       (\<exists>e. ses_log s' = ses_log s @ [e] \<and> ses_header s' = ses_header s \<and> ev_data e = PluginEvent (ScheduleChange (change_json (ChangeDelete i))) \<and>
        v = (if te_barrier env then Inr (Deleted i) else Inl (PersistenceUncertain DeleteOp (Some i))))))"
proof (cases "stripped i \<and> te_owner env \<and> \<not> te_cancelled env \<and> te_flushed env")
  case False
  then show ?thesis using run by (auto simp: schedule_delete_def stripped_def split: if_splits)
next
  case True
  then have body: "delete_body i env s = (s', v)" using run by (simp add: schedule_delete_def stripped_def)
  show ?thesis
  proof (cases "session_schedules s")
    case (Inl err)
    then show ?thesis using body by (auto simp: delete_body_def fold_for_tool_def)
  next
    case (Inr st)
    show ?thesis
    proof (cases "list_ex (\<lambda>r. sr_id r = i) (active_schedules st) \<and> \<not> te_late env")
      case False
      then show ?thesis using body Inr by (auto simp: delete_body_def fold_for_tool_def list_ex_iff split: if_splits)
    next
      case live: True
      obtain s1 x where a: "append_change (te_tick env) (ChangeDelete i) s = (s1, x)" by fastforce
      have b: "(case x of Inl _ \<Rightarrow> (s1, Inl InternalError)
          | Inr _ \<Rightarrow> if \<not> te_barrier env then (s1, Inl (PersistenceUncertain DeleteOp (Some i))) else (s1, Inr (Deleted i))) = (s', v)"
        using body live by (simp add: delete_body_def fold_for_tool_def Inr a)
      have r: "\<exists>r\<in>set (active_schedules st). sr_id r = i" using live by (auto simp: list_ex_iff)
      show ?thesis using a
      proof (cases rule: append_change_cases)
        case (failed err)
        then show ?thesis using b Inr r True by simp
      next
        case (appended e)
        then have "s' = s1" "v = (if te_barrier env then Inr (Deleted i) else Inl (PersistenceUncertain DeleteOp (Some i)))"
          using b by (simp_all split: if_splits)
        then show ?thesis using appended Inr r True by (intro disjI2 exI [of _ st] conjI exI [of _ e]) simp_all
      qed
    qed
  qed
qed

lemma om_set_new: "om_get m k = None \<Longrightarrow> om_set k v m = m @ [(k, v)]"
  by (induction k v m rule: om_set.induct) (auto split: if_splits)

lemma active_entry:
  assumes "schedules_ok st" "(i, r) \<in> set (sc_active st)" shows "sr_id r = i" "om_get (sc_active st) i = Some r"
proof -
  have wf: "om_wf (sc_active st)" using assms(1) by (simp add: schedules_ok_def)
  show g: "om_get (sc_active st) i = Some r" using om_set_in [OF wf] assms(2) by blast
  then show "sr_id r = i" using assms(1) by (simp add: schedules_ok_def)
qed

lemma active_record:
  assumes "schedules_ok st"
  shows "r \<in> set (active_schedules st) \<longleftrightarrow> om_get (sc_active st) (sr_id r) = Some r"
proof
  assume "r \<in> set (active_schedules st)"
  then obtain i where "(i, r) \<in> set (sc_active st)" by (auto simp: active_schedules_def)
  then show "om_get (sc_active st) (sr_id r) = Some r" using active_entry [OF assms] by blast
next
  assume "om_get (sc_active st) (sr_id r) = Some r"
  then have "(sr_id r, r) \<in> set (sc_active st)" by (rule map_of_SomeD)
  then show "r \<in> set (active_schedules st)" by (force simp: active_schedules_def)
qed

lemma active_delete:
  assumes "schedules_ok st"
  shows "active_schedules (st\<lparr>sc_active := om_del i (sc_active st)\<rparr>) = filter (\<lambda>r. sr_id r \<noteq> i) (active_schedules st)"
proof -
  have "filter (\<lambda>p. fst p \<noteq> i) (sc_active st) = filter (\<lambda>p. sr_id (snd p) \<noteq> i) (sc_active st)"
    using active_entry(1) [OF assms] by (intro filter_cong) auto
  then show ?thesis by (simp add: active_schedules_def om_del_def filter_map o_def)
qed

lemma apply_create:
  assumes "schedules_ok st" "sr_id r \<notin> set (sc_seen st)"
  obtains st' where "apply_change st (ChangeCreate r) = Inr st'" "active_schedules st' = active_schedules st @ [r]"
proof -
  have "om_get (sc_active st) (sr_id r) = None" using assms seen_active by (metis option.exhaust)
  then show ?thesis using assms(2) that by (simp add: active_schedules_def om_set_new)
qed

lemma apply_delete:
  assumes "schedules_ok st" "\<exists>r\<in>set (active_schedules st). sr_id r = i"
  obtains st' where "apply_change st (ChangeDelete i) = Inr st'" "active_schedules st' = filter (\<lambda>r. sr_id r \<noteq> i) (active_schedules st)"
  using assms that active_delete [OF assms(1)] by (auto simp: active_record)

text \<open>What a tool's answer says about the session it leaves.\<close>

definition create_reported :: "schedules \<Rightarrow> tool_env \<Rightarrow> 'x schedule_payload session \<Rightarrow> 'x schedule_payload session \<Rightarrow>
    schedule_tool_error + schedule_record \<times> schedule_state \<Rightarrow> bool" where
  "create_reported st env s s' v \<longleftrightarrow>
     (\<exists>r st'. session_schedules s' = Inr st' \<and> active_schedules st' = active_schedules st @ [r] \<and> sr_id r \<notin> set (sc_seen st) \<and>
        te_now env < sr_at r \<and> v = (if te_barrier env then Inr (schedule_view r (te_after env)) else Inl (PersistenceUncertain CreateOp (Some (sr_id r))))) \<or>
     (session_schedules s' = Inr st \<and> ses_log s' = ses_log s \<and> (\<exists>err. v = Inl err \<and> (\<forall>i. err \<noteq> PersistenceUncertain CreateOp (Some i))))"

definition delete_reported :: "schedule_id \<Rightarrow> schedules \<Rightarrow> tool_env \<Rightarrow> 'x schedule_payload session \<Rightarrow> 'x schedule_payload session \<Rightarrow>
    schedule_tool_error + delete_result \<Rightarrow> bool" where
  "delete_reported i st env s s' v \<longleftrightarrow>
     (\<exists>st'. session_schedules s' = Inr st' \<and> active_schedules st' = filter (\<lambda>r. sr_id r \<noteq> i) (active_schedules st) \<and>
        active_schedules st' \<noteq> active_schedules st \<and> v = (if te_barrier env then Inr (Deleted i) else Inl (PersistenceUncertain DeleteOp (Some i)))) \<or>
     (session_schedules s' = Inr st \<and> ses_log s' = ses_log s \<and>
        (v = Inr (ScheduleNotFound i) \<and> (\<forall>r\<in>set (active_schedules st). sr_id r \<noteq> i) \<or>
         (\<exists>err. v = Inl err \<and> (err = PersistenceUncertain DeleteOp (Some i) \<longrightarrow> \<not> te_flushed env))))"

lemma schedules_same: "session_schedules s = Inr st \<Longrightarrow> ses_log s' = ses_log s \<Longrightarrow> ses_header s' = ses_header s \<Longrightarrow> session_schedules s' = Inr st"
  by (simp add: session_schedules_def own_seed_def)

lemma create_is_reported:
  assumes st: "session_schedules s = Inr st" and now: "four_digit_year (te_now env)" and run: "schedule_create canon project a env s = (s', v)"
  shows "create_reported st env s s' v"
  using schedule_create_effect [OF run now]
proof (elim disjE exE conjE)
  fix u r e
  assume u: "session_schedules s = Inr u" "record_ok r" "sr_id r \<notin> set (sc_seen u)" "te_now env < sr_at r" "ses_log s' = ses_log s @ [e]"
    "ses_header s' = ses_header s" "ev_data e = PluginEvent (ScheduleChange (change_json (ChangeCreate r)))"
    "v = (if te_barrier env then Inr (schedule_view r (te_after env)) else Inl (PersistenceUncertain CreateOp (Some (sr_id r))))"
  have [simp]: "u = st" using u(1) st by simp
  obtain st' where "apply_change st (ChangeCreate r) = Inr st'" "active_schedules st' = active_schedules st @ [r]"
    using apply_create [OF session_schedules_ok [OF st]] u(3) by (metis \<open>u = st\<close>)
  moreover have "session_schedules s' = apply_change st (ChangeCreate r)" using session_schedules_appended [OF st u(5-7)] u(2) by simp
  ultimately show ?thesis using u(3,4,8) by (auto simp: create_reported_def)
qed (use st schedules_same in \<open>auto simp: create_reported_def\<close>)

lemma delete_is_reported:
  assumes st: "session_schedules s = Inr st" and run: "schedule_delete i env s = (s', v)"
  shows "delete_reported i st env s s' v"
  using schedule_delete_effect [OF run]
proof (elim disjE exE conjE)
  fix u e
  assume u: "session_schedules s = Inr u" "stripped i" "\<exists>r\<in>set (active_schedules u). sr_id r = i" "ses_log s' = ses_log s @ [e]"
    "ses_header s' = ses_header s" "ev_data e = PluginEvent (ScheduleChange (change_json (ChangeDelete i)))"
    "v = (if te_barrier env then Inr (Deleted i) else Inl (PersistenceUncertain DeleteOp (Some i)))"
  have [simp]: "u = st" using u(1) st by simp
  obtain st' where d: "apply_change st (ChangeDelete i) = Inr st'" "active_schedules st' = filter (\<lambda>r. sr_id r \<noteq> i) (active_schedules st)"
    using apply_delete [OF session_schedules_ok [OF st]] u(3) by (metis \<open>u = st\<close>)
  moreover have "session_schedules s' = apply_change st (ChangeDelete i)" using session_schedules_appended [OF st u(4-6)] u(2) by simp
  moreover have "filter (\<lambda>r. sr_id r \<noteq> i) (active_schedules st) \<noteq> active_schedules st" using u(3) by (auto simp: filter_id_conv)
  ultimately show ?thesis using u(7) by (auto simp: delete_reported_def)
qed (use st schedules_same in \<open>auto simp: delete_reported_def\<close>)

text \<open>
  The management tools report exactly what they did: a created reminder, or one whose durability is uncertain, is
  the last of the session's reminders under an identifier never used before and lies in the future; a deleted one is
  gone and nothing else changed; every other answer leaves the log as it was.
\<close>

theorem schedule_tools_report_what_they_did:
  assumes "session_schedules s = Inr st" and "four_digit_year (te_now env)"
  shows "(case schedule_create canon project a env s of (s', v) \<Rightarrow> create_reported st env s s' v) \<and>
    (case schedule_delete i env s of (s', v) \<Rightarrow> delete_reported i st env s s' v)"
  using create_is_reported [OF assms] delete_is_reported [OF assms(1)] by (auto split: prod.splits)

definition sample_schedule_session :: "unit schedule_payload session" where
  "sample_schedule_session = empty_session ''s'' (blank_header ''s'')"

definition sample_args :: create_args where
  "sample_args = \<lparr>ca_keys = [''prompt'', ''after_seconds''], ca_prompt = ''stretch '', ca_after = Some 60, ca_at = None, ca_every = None\<rparr>"

definition sample_env :: tool_env where
  "sample_env = \<lparr>te_owner = True, te_cancelled = False, te_flushed = True, te_now = 0, te_late = False, te_tick = 0, te_barrier = True, te_after = 0\<rparr>"

lemma sample_tools_run:
  "session_schedules sample_schedule_session = Inr no_schedules"
  "snd (schedule_create Some london sample_args sample_env sample_schedule_session) = Inr (sample_after, Scheduled)"
  "snd (schedule_delete ''schedule-1'' sample_env sample_schedule_session) = Inr (ScheduleNotFound ''schedule-1'')"
  by code_simp+

theorem schedule_tools_report_what_they_did_witness:
  "\<exists>s' st'. schedule_create Some london sample_args sample_env sample_schedule_session = (s', Inr (sample_after, Scheduled)) \<and>
     session_schedules s' = Inr st' \<and> length (active_schedules st') = 1"
proof -
  obtain s' where s': "schedule_create Some london sample_args sample_env sample_schedule_session = (s', Inr (sample_after, Scheduled))"
    using sample_tools_run(2) by (metis prod.collapse)
  have "four_digit_year (te_now sample_env)" by code_simp
  from schedule_tools_report_what_they_did [OF sample_tools_run(1) this, of Some london sample_args "''schedule-1''"] s'
  have "\<exists>r st'. session_schedules s' = Inr st' \<and> active_schedules st' = active_schedules no_schedules @ [r]"
    by (auto simp: create_reported_def)
  then show ?thesis using s' by (auto simp: active_schedules_def no_schedules_def)
qed

end
