(* ===== verification/Schedule_Runtime.thy ===== *)
theory Schedule_Runtime
  imports Schedule_Tools
begin

text \<open>
  The live reminders of one agent (\<open>packages/schedule/schedule/src/runtime.ts\<close>): the decision what is due, the armed
  timer, and the claim inside the agent's maintenance phase that hands a framing to the agent and records the dispatch.
  Every await is a control point; what the durability barrier, the follow-up and the clock return, and whether the agent
  is still registered (\<open>live\<close>), are inputs. The framings handed to \<open>followup\<close> are kept in \<open>rr_sent\<close>.
\<close>

section \<open>What is due\<close>

definition MAX_SEGMENT_MS :: int where
  "MAX_SEGMENT_MS = 2147483647"

datatype due = DueOne schedule_record | DueEvery "(schedule_record \<times> int) list" int | DueWait "int option"

definition is_every :: "schedule_record \<Rightarrow> bool" where
  "is_every r \<longleftrightarrow> (case sr_rule r of EveryRule _ \<Rightarrow> True | _ \<Rightarrow> False)"

definition every_seconds :: "schedule_record \<Rightarrow> int" where
  "every_seconds r = (case sr_rule r of EveryRule n \<Rightarrow> n | _ \<Rightarrow> 0)"

definition later_target :: "int \<Rightarrow> int option \<Rightarrow> schedule_record \<Rightarrow> int option" where
  "later_target now selected r =
     (if now < sr_at r \<and> (case selected of None \<Rightarrow> True | Some t \<Rightarrow> sr_at r < t) then Some (sr_at r) else selected)"

text \<open>The sort by target and then by index is the stable sort by target.\<close>

definition due_decision :: "schedules \<Rightarrow> int \<Rightarrow> schedule_log_error + due" where
  "due_decision st now =
     (let rs = active_schedules st in
      case sort_key sr_at (filter (\<lambda>r. \<not> is_every r \<and> sr_at r \<le> now) rs) of
        r # _ \<Rightarrow> Inr (DueOne r)
      | [] \<Rightarrow>
        (let every = sort_key sr_at (filter (\<lambda>r. is_every r \<and> sr_at r \<le> now) rs) in
         if every \<noteq> [] then
           rbind (traverse (\<lambda>r. rbind (resolve_every (sr_at r) (every_seconds r) now) (\<lambda>d. Inr (r, eo_at d))) every) (\<lambda>reminders.
           Inr (DueEvery reminders now))
         else Inr (DueWait (foldl (later_target now) None rs))))"

section \<open>One drive\<close>

datatype drive_point = DriveIdle | DriveQueued | DrivePreflight | DriveClaiming | DriveBarrier

record 'x reminder_runtime =
  rr_session :: "'x schedule_payload session"
  rr_point :: drive_point
  rr_timer :: "int option"
  rr_idle_wait :: bool
  rr_requested :: bool
  rr_stopping :: bool
  rr_faulted :: bool
  rr_sent :: "string list"

definition start_runtime :: "'x schedule_payload session \<Rightarrow> 'x reminder_runtime" where
  "start_runtime s = \<lparr>rr_session = s, rr_point = DriveQueued, rr_timer = None, rr_idle_wait = False, rr_requested = False, rr_stopping = False,
     rr_faulted = False, rr_sent = []\<rparr>"

text \<open>The timer is kept as the time it is set to fire at.\<close>

definition arm :: "int option \<Rightarrow> int \<Rightarrow> 'x reminder_runtime \<Rightarrow> 'x reminder_runtime" where
  "arm target now rt = (case target of None \<Rightarrow> rt | Some t \<Rightarrow> rt\<lparr>rr_timer := Some (now + min (t - now) MAX_SEGMENT_MS)\<rparr>)"

text \<open>\<open>requestDrive\<close>: a run in progress keeps the request for its next round.\<close>

definition request_drive :: "'x reminder_runtime \<Rightarrow> 'x reminder_runtime" where
  "request_drive rt =
     (if rr_stopping rt \<or> rr_faulted rt then rt
      else if rr_point rt = DriveIdle then rt\<lparr>rr_timer := None, rr_requested := False, rr_point := DriveQueued\<rparr>
      else rt\<lparr>rr_timer := None, rr_requested := True\<rparr>)"

text \<open>The end of \<open>driveOnce\<close>: the loop of \<open>runRequested\<close> starts over or the run retires.\<close>

definition end_drive :: "'x reminder_runtime \<Rightarrow> 'x reminder_runtime" where
  "end_drive rt =
     (if rr_requested rt \<and> \<not> rr_stopping rt \<and> \<not> rr_faulted rt then rt\<lparr>rr_requested := False, rr_point := DriveQueued\<rparr>
      else rt\<lparr>rr_point := DriveIdle\<rparr>)"

definition begin_drive :: "bool \<Rightarrow> 'x reminder_runtime \<Rightarrow> 'x reminder_runtime" where
  "begin_drive live rt =
     (let rt1 = rt\<lparr>rr_timer := None\<rparr> in if rr_stopping rt \<or> \<not> live then end_drive rt1 else rt1\<lparr>rr_point := DrivePreflight\<rparr>)"

text \<open>\<open>readFolded\<close> and \<open>decide\<close>\<close>

definition read_and_decide :: "int \<Rightarrow> 'x reminder_runtime \<Rightarrow> 'x reminder_runtime \<times> due option" where
  "read_and_decide now rt =
     (case session_schedules (rr_session rt) of
        Inl _ \<Rightarrow> (rt\<lparr>rr_faulted := True\<rparr>, None)
      | Inr st \<Rightarrow> (case due_decision st now of Inl _ \<Rightarrow> (rt, None) | Inr d \<Rightarrow> (rt, Some d)))"

text \<open>After the preflight: \<open>busy\<close> says whether another activity owns the agent's idle phase.\<close>

definition after_preflight :: "bool \<Rightarrow> bool \<Rightarrow> int \<Rightarrow> bool \<Rightarrow> 'x reminder_runtime \<Rightarrow> 'x reminder_runtime" where
  "after_preflight live flushed now busy rt =
     (if \<not> flushed \<or> rr_stopping rt \<or> \<not> live then end_drive rt
      else case read_and_decide now rt of
          (rt1, None) \<Rightarrow> end_drive rt1
        | (rt1, Some (DueWait t)) \<Rightarrow> end_drive (arm t now rt1)
        | (rt1, Some _) \<Rightarrow> if busy then end_drive (rt1\<lparr>rr_idle_wait := True\<rparr>) else rt1\<lparr>rr_point := DriveClaiming\<rparr>)"

definition due_framing :: "due \<Rightarrow> string" where
  "due_framing d = (case d of DueOne r \<Rightarrow> reminder_framing r | DueEvery ps _ \<Rightarrow> batch_framing ps | DueWait _ \<Rightarrow> [])"

definition dispatches :: "due \<Rightarrow> schedule_change list" where
  "dispatches d = (case d of
     DueOne r \<Rightarrow> [ChangeDispatch (sr_id r) None]
   | DueEvery ps now \<Rightarrow> map (\<lambda>p. ChangeDispatch (sr_id (fst p)) (Some now)) ps
   | DueWait _ \<Rightarrow> [])"

fun append_changes :: "int \<Rightarrow> schedule_change list \<Rightarrow> 'x schedule_payload session \<Rightarrow> 'x schedule_payload session \<times> bool" where
  "append_changes tick [] s = (s, True)"
| "append_changes tick (c # cs) s = (case append_change tick c s of (s', Inl _) \<Rightarrow> (s', False) | (s', Inr _) \<Rightarrow> append_changes tick cs s')"

text \<open>The events other owners append, such as those of the follow-up's inbox.\<close>

fun append_foreign :: "(int \<times> 'x schedule_payload event_data \<times> surface_intent) list \<Rightarrow> 'x schedule_payload session \<Rightarrow> 'x schedule_payload session" where
  "append_foreign [] s = s"
| "append_foreign ((tick, d, i) # es) s = append_foreign es (fst (session_append tick d i s))"

text \<open>The follow-up appends \<open>shown\<close> and may throw; then nothing is recorded. A failing append stops the dispatch.\<close>

definition hand_over :: "int \<Rightarrow> (int \<times> 'x schedule_payload event_data \<times> surface_intent) list \<Rightarrow> bool \<Rightarrow> due \<Rightarrow>
    'x reminder_runtime \<Rightarrow> 'x reminder_runtime \<times> bool" where
  "hand_over tick shown threw d rt =
     (let rt1 = rt\<lparr>rr_session := append_foreign shown (rr_session rt)\<rparr> in
      if threw then (rt1, False)
      else let rt2 = rt1\<lparr>rr_sent := rr_sent rt @ [due_framing d]\<rparr> in
        case append_changes tick (dispatches d) (rr_session rt1) of
          (s, True) \<Rightarrow> (rt2\<lparr>rr_session := s\<rparr>, True)
        | (s, False) \<Rightarrow> (rt2\<lparr>rr_session := s, rr_faulted := True, rr_timer := None\<rparr>, False))"

text \<open>The maintenance job.\<close>

definition claim_due :: "bool \<Rightarrow> int \<Rightarrow> int \<Rightarrow> (int \<times> 'x schedule_payload event_data \<times> surface_intent) list \<Rightarrow> bool \<Rightarrow>
    'x reminder_runtime \<Rightarrow> 'x reminder_runtime \<times> bool" where
  "claim_due live now tick shown threw rt =
     (if rr_stopping rt \<or> \<not> live then (rt, False)
      else case read_and_decide now rt of
          (rt1, None) \<Rightarrow> (rt1, False)
        | (rt1, Some (DueWait t)) \<Rightarrow> (arm t now rt1, False)
        | (rt1, Some d) \<Rightarrow> hand_over tick shown threw d rt1)"

definition claim_step :: "bool \<Rightarrow> int \<Rightarrow> int \<Rightarrow> (int \<times> 'x schedule_payload event_data \<times> surface_intent) list \<Rightarrow> bool \<Rightarrow>
    'x reminder_runtime \<Rightarrow> 'x reminder_runtime" where
  "claim_step live now tick shown threw rt =
     (case claim_due live now tick shown threw rt of (rt1, True) \<Rightarrow> rt1\<lparr>rr_point := DriveBarrier\<rparr> | (rt1, False) \<Rightarrow> end_drive rt1)"

definition after_barrier :: "bool \<Rightarrow> bool \<Rightarrow> 'x reminder_runtime \<Rightarrow> 'x reminder_runtime" where
  "after_barrier live flushed rt = end_drive (if flushed \<and> \<not> rr_stopping rt \<and> live then request_drive rt else rt)"

definition timer_fires :: "'x reminder_runtime \<Rightarrow> 'x reminder_runtime" where
  "timer_fires rt = (if rr_timer rt = None then rt else request_drive (rt\<lparr>rr_timer := None\<rparr>))"

definition idle_wait_ends :: "'x reminder_runtime \<Rightarrow> 'x reminder_runtime" where
  "idle_wait_ends rt = (if rr_idle_wait rt then request_drive (rt\<lparr>rr_idle_wait := False\<rparr>) else rt)"

definition stop_runtime :: "'x reminder_runtime \<Rightarrow> 'x reminder_runtime" where
  "stop_runtime rt = rt\<lparr>rr_stopping := True, rr_requested := False, rr_timer := None\<rparr>"

section \<open>Runs\<close>

text \<open>Events other owners append are no reminder changes.\<close>

definition foreign_data :: "'x schedule_payload event_data \<Rightarrow> bool" where
  "foreign_data d \<longleftrightarrow> (case d of PluginEvent (ScheduleChange _) \<Rightarrow> False | _ \<Rightarrow> True)"

inductive reminder_step :: "'x reminder_runtime \<Rightarrow> 'x reminder_runtime \<Rightarrow> bool" where
  step_request: "reminder_step rt (request_drive rt)"
| step_begin: "rr_point rt = DriveQueued \<Longrightarrow> reminder_step rt (begin_drive live rt)"
| step_preflight: "rr_point rt = DrivePreflight \<Longrightarrow> four_digit_year now \<Longrightarrow> reminder_step rt (after_preflight live flushed now busy rt)"
| step_claim: "rr_point rt = DriveClaiming \<Longrightarrow> four_digit_year now \<Longrightarrow> list_all (\<lambda>(_, d, _). foreign_data d) shown \<Longrightarrow>
    reminder_step rt (claim_step live now tick shown threw rt)"
| step_barrier: "rr_point rt = DriveBarrier \<Longrightarrow> reminder_step rt (after_barrier live flushed rt)"
| step_timer: "reminder_step rt (timer_fires rt)"
| step_idle: "reminder_step rt (idle_wait_ends rt)"
| step_stop: "reminder_step rt (stop_runtime rt)"
| step_foreign: "foreign_data d \<Longrightarrow> reminder_step rt (rt\<lparr>rr_session := fst (session_append tick d intent (rr_session rt))\<rparr>)"
| step_create: "four_digit_year (te_now env) \<Longrightarrow> reminder_step rt (rt\<lparr>rr_session := fst (schedule_create canon project a env (rr_session rt))\<rparr>)"
| step_delete: "reminder_step rt (rt\<lparr>rr_session := fst (schedule_delete i env (rr_session rt))\<rparr>)"

inductive reminder_reach :: "'x schedule_payload session \<Rightarrow> 'x reminder_runtime \<Rightarrow> bool" for s where
  reach_start: "reminder_reach s (start_runtime s)"
| reach_step: "reminder_reach s rt \<Longrightarrow> reminder_step rt rt' \<Longrightarrow> reminder_reach s rt'"

section \<open>What a decision says\<close>

lemma sorted_head: "sort_key f xs = x # ys \<Longrightarrow> x \<in> set xs \<and> (\<forall>y\<in>set xs. f x \<le> f y)"
proof -
  assume e: "sort_key f xs = x # ys"
  have "set xs = set (x # ys)" "sorted (map f (x # ys))" using set_sort [of f xs] sorted_sort_key [of f xs] by (simp_all only: e)
  then show ?thesis by auto
qed

lemma targets_from: "foldl (later_target now) (Some t) rs = Some (Min (insert t (sr_at ` {r \<in> set rs. now < sr_at r})))"
proof (induction rs arbitrary: t)
  case (Cons r rs)
  have split: "{q. (q = r \<or> q \<in> set rs) \<and> now < sr_at q} = (if now < sr_at r then insert r {q \<in> set rs. now < sr_at q} else {q \<in> set rs. now < sr_at q})"
    by auto
  have fin: "finite (sr_at ` {q \<in> set rs. now < sr_at q})" by simp
  show ?case
  proof (cases "now < sr_at r")
    case True
    have step: "later_target now (Some t) r = Some (min t (sr_at r))" using True by (simp add: later_target_def min_def)
    have "Min (insert (min t a) X) = Min (insert t (insert a X))" if "finite X" for a X
      using that by (cases "X = {}") (simp_all add: min.assoc)
    then show ?thesis using Cons.IH [of "min t (sr_at r)"] True fin step by (simp add: split)
  next
    case False
    then show ?thesis using Cons.IH by (simp add: later_target_def split)
  qed
qed simp

lemma first_target:
  assumes "\<forall>r\<in>set rs. now < sr_at r"
  shows "foldl (later_target now) None rs = (if rs = [] then None else Some (Min (sr_at ` set rs)))"
proof (cases rs)
  case (Cons r qs)
  have "{q \<in> set qs. now < sr_at q} = set qs" using assms Cons by auto
  then show ?thesis using targets_from [of now "sr_at r" qs] assms Cons by (simp add: later_target_def)
qed simp

lemma due_one:
  assumes "due_decision st now = Inr (DueOne r)"
  shows "r \<in> set (active_schedules st)" "\<not> is_every r" "sr_at r \<le> now"
    "\<forall>q\<in>set (active_schedules st). \<not> is_every q \<longrightarrow> sr_at r \<le> sr_at q"
proof -
  obtain ys where "sort_key sr_at (filter (\<lambda>r. \<not> is_every r \<and> sr_at r \<le> now) (active_schedules st)) = r # ys"
    using assms by (auto simp: due_decision_def Let_def rbind_Inr_iff split: list.splits if_splits)
  from sorted_head [OF this] show "r \<in> set (active_schedules st)" "\<not> is_every r" "sr_at r \<le> now"
    "\<forall>q\<in>set (active_schedules st). \<not> is_every q \<longrightarrow> sr_at r \<le> sr_at q" by (auto intro: order_trans [of _ now])
qed

lemma due_every:
  assumes "due_decision st now = Inr (DueEvery ps t)"
  shows "t = now" "ps \<noteq> []" "\<forall>q\<in>set (active_schedules st). sr_at q \<le> now \<longrightarrow> is_every q"
    "map fst ps = sort_key sr_at (filter (\<lambda>r. is_every r \<and> sr_at r \<le> now) (active_schedules st))"
    "\<forall>p\<in>set ps. \<exists>d. resolve_every (sr_at (fst p)) (every_seconds (fst p)) now = Inr d \<and> snd p = eo_at d"
proof -
  let ?ones = "filter (\<lambda>r. \<not> is_every r \<and> sr_at r \<le> now) (active_schedules st)"
  let ?every = "sort_key sr_at (filter (\<lambda>r. is_every r \<and> sr_at r \<le> now) (active_schedules st))"
  have ones: "sort_key sr_at ?ones = []" using assms by (auto simp: due_decision_def Let_def split: list.splits)
  have e: "?every \<noteq> []" "traverse (\<lambda>r. rbind (resolve_every (sr_at r) (every_seconds r) now) (\<lambda>d. Inr (r, eo_at d))) ?every = Inr ps" "t = now"
    using assms by (auto simp: due_decision_def Let_def ones rbind_Inr_iff split: if_splits)
  have "?ones = []" using ones by (metis set_empty set_sort)
  then show "\<forall>q\<in>set (active_schedules st). sr_at q \<le> now \<longrightarrow> is_every q" by (auto simp: filter_empty_conv)
  have all: "list_all2 (\<lambda>r p. rbind (resolve_every (sr_at r) (every_seconds r) now) (\<lambda>d. Inr (r, eo_at d)) = Inr p) ?every ps"
    using e(2) by (simp add: traverse_Inr)
  then show "map fst ps = ?every" by (induction rule: list_all2_induct) (auto simp: rbind_Inr_iff)
  then show "ps \<noteq> []" using e(1) by auto
  show "t = now" by (fact e(3))
  show "\<forall>p\<in>set ps. \<exists>d. resolve_every (sr_at (fst p)) (every_seconds (fst p)) now = Inr d \<and> snd p = eo_at d"
    using all by (induction rule: list_all2_induct) (auto simp: rbind_Inr_iff)
qed

lemma due_wait:
  assumes "due_decision st now = Inr (DueWait t)"
  shows "\<forall>r\<in>set (active_schedules st). now < sr_at r"
    "t = (if active_schedules st = [] then None else Some (Min (sr_at ` set (active_schedules st))))"
proof -
  let ?ones = "filter (\<lambda>r. \<not> is_every r \<and> sr_at r \<le> now) (active_schedules st)"
  let ?every = "filter (\<lambda>r. is_every r \<and> sr_at r \<le> now) (active_schedules st)"
  have ones: "sort_key sr_at ?ones = []" using assms by (auto simp: due_decision_def Let_def split: list.splits)
  have every: "sort_key sr_at ?every = []" "t = foldl (later_target now) None (active_schedules st)"
    using assms by (auto simp: due_decision_def Let_def ones rbind_Inr_iff split: if_splits)
  have "?ones = []" "?every = []" using ones every(1) by (metis set_empty set_sort)+
  then show all: "\<forall>r\<in>set (active_schedules st). now < sr_at r" by (auto simp: filter_empty_conv not_le [symmetric])
  show "t = (if active_schedules st = [] then None else Some (Min (sr_at ` set (active_schedules st))))"
    unfolding every(2) by (rule first_target [OF all])
qed

lemma every_rule: "record_ok r \<Longrightarrow> is_every r \<Longrightarrow> sr_rule r = EveryRule (every_seconds r) \<and> rule_ok (EveryRule (every_seconds r))"
  by (cases "sr_rule r") (simp_all add: is_every_def every_seconds_def record_ok_def)

lemma active_ok: "schedules_ok st \<Longrightarrow> r \<in> set (active_schedules st) \<Longrightarrow> record_ok r"
  by (simp add: active_record) (simp add: schedules_ok_def)

lemma due_every_resolves:
  assumes "record_ok r" "is_every r" "four_digit_year now" "sr_at r \<le> now"
  obtains d where "resolve_every (sr_at r) (every_seconds r) now = Inr d"
  using resolve_every_defined [of now "every_seconds r" "sr_at r"] every_rule assms by (auto simp: ok_iff record_ok_def)

lemma decision_is_made:
  assumes "schedules_ok st" "four_digit_year now" shows "ok (due_decision st now)"
proof -
  have r: "\<exists>p. rbind (resolve_every (sr_at r) (every_seconds r) now) (\<lambda>d. Inr (r, eo_at d)) = Inr p"
    if "r \<in> set (sort_key sr_at (filter (\<lambda>r. is_every r \<and> sr_at r \<le> now) (active_schedules st)))" for r
    using that due_every_resolves [of r now] active_ok [OF assms(1)] assms(2) by (auto simp: rbind_Inr_iff)
  have "\<exists>ps. traverse f xs = Inr ps" if "\<And>x. x \<in> set xs \<Longrightarrow> \<exists>p. f x = Inr p" for f :: "schedule_record \<Rightarrow> schedule_log_error + schedule_record \<times> int" and xs
    using that by (induction xs) (simp, force simp: rbind_Inr_iff)
  note all = this
  have "\<exists>ps. traverse (\<lambda>r. rbind (resolve_every (sr_at r) (every_seconds r) now) (\<lambda>d. Inr (r, eo_at d)))
      (sort_key sr_at (filter (\<lambda>r. is_every r \<and> sr_at r \<le> now) (active_schedules st))) = Inr ps"
    by (rule all) (rule r)
  then show ?thesis by (auto simp: due_decision_def Let_def split: list.splits)
qed

section \<open>What a dispatch does\<close>

definition advance :: "int \<Rightarrow> schedule_record \<Rightarrow> schedule_record option" where
  "advance now r = (case resolve_every (sr_at r) (every_seconds r) now of
     Inr d \<Rightarrow> map_option (\<lambda>t. r\<lparr>sr_at := t\<rparr>) (eo_next d) | Inl _ \<Rightarrow> None)"

text \<open>What becomes of an active record when a decision is dispatched.\<close>

definition after_dispatch :: "due \<Rightarrow> schedule_record \<Rightarrow> schedule_record option" where
  "after_dispatch d r = (case d of
     DueOne q \<Rightarrow> if r = q then None else Some r
   | DueEvery ps now \<Rightarrow> if r \<in> fst ` set ps then advance now r else Some r
   | DueWait _ \<Rightarrow> Some r)"

lemma map_filter_const: "List.map_filter (\<lambda>r. if p r then None else Some r) xs = filter (\<lambda>r. \<not> p r) xs"
  by (induction xs) (simp_all add: map_filter_Cons List.map_filter_simps)

lemma map_filter_compose: "List.map_filter g (List.map_filter f xs) = List.map_filter (\<lambda>x. case f x of None \<Rightarrow> None | Some y \<Rightarrow> g y) xs"
  by (induction xs) (auto simp: map_filter_Cons List.map_filter_simps split: option.splits)

lemma map_filter_cong: "(\<And>x. x \<in> set xs \<Longrightarrow> f x = g x) \<Longrightarrow> List.map_filter f xs = List.map_filter g xs"
proof (induction xs)
  case (Cons x xs)
  then have "f x = g x" "List.map_filter f xs = List.map_filter g xs" by auto
  then show ?case by (simp only: map_filter_Cons)
qed (simp add: List.map_filter_simps)

lemma om_set_values: "om_wf m \<Longrightarrow> om_get m k \<noteq> None \<Longrightarrow> om_set k v m = map (\<lambda>p. if fst p = k then (k, v) else p) m"
proof (induction k v m rule: om_set.induct)
  case (2 k v k' v' m)
  show ?case
  proof (cases "k = k'")
    case True
    then have "k \<notin> fst ` set m" using 2(2) by (simp add: om_wf_def om_keys_def)
    then have "map (\<lambda>p. if fst p = k then (k, v) else p) m = m" by (intro map_idI) auto
    then show ?thesis using True by simp
  next
    case False
    then show ?thesis using 2 by (simp add: om_wf_def om_keys_def)
  qed
qed simp

lemma active_put:
  assumes "schedules_ok st" "om_get (sc_active st) i = Some r" "sr_id r' = i"
  shows "active_schedules (st\<lparr>sc_active := om_set i r' (sc_active st)\<rparr>) = map (\<lambda>x. if sr_id x = i then r' else x) (active_schedules st)"
proof -
  have "om_set i r' (sc_active st) = map (\<lambda>p. if fst p = i then (i, r') else p) (sc_active st)"
    using assms by (intro om_set_values) (simp_all add: schedules_ok_def)
  moreover have "snd (if fst p = i then (i, r') else p) = (if sr_id (snd p) = i then r' else snd p)" if "p \<in> set (sc_active st)" for p
    using active_entry(1) [OF assms(1), of "fst p" "snd p"] that by simp
  ultimately show ?thesis by (simp add: active_schedules_def)
qed

lemma active_unique: "schedules_ok st \<Longrightarrow> r \<in> set (active_schedules st) \<Longrightarrow> q \<in> set (active_schedules st) \<Longrightarrow> sr_id r = sr_id q \<Longrightarrow> r = q"
  by (simp add: active_record)

lemma apply_dispatch:
  assumes ok: "schedules_ok st" and r: "r \<in> set (active_schedules st)" and d: "dispatched r t = Inr nx"
  obtains st' where "apply_change st (ChangeDispatch (sr_id r) t) = Inr st'" "schedules_ok st'"
    "active_schedules st' = List.map_filter (\<lambda>x. if x = r then nx else Some x) (active_schedules st)"
proof -
  have get: "om_get (sc_active st) (sr_id r) = Some r" using ok r by (simp add: active_record)
  have same: "x = r \<longleftrightarrow> sr_id x = sr_id r" if "x \<in> set (active_schedules st)" for x using active_unique [OF ok that r] by blast
  show ?thesis
  proof (cases nx)
    case None
    have "List.map_filter (\<lambda>x. if x = r then nx else Some x) (active_schedules st) = filter (\<lambda>x. sr_id x \<noteq> sr_id r) (active_schedules st)"
      unfolding None map_filter_const using same by (intro filter_cong) auto
    then show ?thesis
      by (intro that [of "st\<lparr>sc_active := om_del (sr_id r) (sc_active st)\<rparr>"])
        (use get d None keys_del [OF ok] active_delete [OF ok] in simp_all)
  next
    case (Some r')
    note dr = dispatched_Inr [OF d [unfolded Some] active_ok [OF ok r]]
    have "List.map_filter (\<lambda>x. if x = r then nx else Some x) xs = map (\<lambda>x. if x = r then r' else x) xs" for xs
      unfolding Some by (induction xs) (simp_all add: map_filter_Cons List.map_filter_simps)
    moreover have "map (\<lambda>x. if x = r then r' else x) (active_schedules st) = map (\<lambda>x. if sr_id x = sr_id r then r' else x) (active_schedules st)"
      using same by auto
    ultimately show ?thesis
      by (intro that [of "st\<lparr>sc_active := om_set (sr_id r) r' (sc_active st)\<rparr>"])
        (use get d Some keys_put [OF ok get dr(2) dr(1)] active_put [OF ok get dr(2)] in simp_all)
  qed
qed

lemma dispatched_every:
  assumes "record_ok r" "is_every r" "four_digit_year now" "sr_at r \<le> now"
  shows "dispatched r (Some now) = Inr (advance now r)"
proof -
  obtain d where "resolve_every (sr_at r) (every_seconds r) now = Inr d" by (rule due_every_resolves [OF assms])
  then show ?thesis using every_rule [OF assms(1,2)] by (simp add: dispatched_def advance_def)
qed

lemma advance_later:
  assumes "advance now r = Some q" shows "sr_id q = sr_id r" "now < sr_at q"
proof -
  obtain d t where d: "resolve_every (sr_at r) (every_seconds r) now = Inr d" "eo_next d = Some t" "q = r\<lparr>sr_at := t\<rparr>"
    using assms by (auto simp: advance_def split: sum.splits)
  show "sr_id q = sr_id r" "now < sr_at q" using resolve_every_Inr(5,7) [OF d(1)] d(2,3) by (auto split: if_splits)
qed

lemma dispatch_batch:
  assumes "schedules_ok st" "distinct (map fst ps)" "four_digit_year now"
    "\<forall>p\<in>set ps. fst p \<in> set (active_schedules st) \<and> is_every (fst p) \<and> sr_at (fst p) \<le> now"
  shows "\<exists>st'. replay apply_change st (dispatches (DueEvery ps now)) = Inr st' \<and>
    active_schedules st' = List.map_filter (after_dispatch (DueEvery ps now)) (active_schedules st)"
  using assms
proof (induction ps arbitrary: st)
  case Nil
  have "List.map_filter (after_dispatch (DueEvery [] now)) xs = xs" for xs
    by (induction xs) (simp_all add: map_filter_Cons List.map_filter_simps after_dispatch_def)
  then show ?case by (simp add: dispatches_def)
next
  case (Cons p ps)
  let ?r = "fst p"
  have r: "?r \<in> set (active_schedules st)" "is_every ?r" "sr_at ?r \<le> now" "?r \<notin> set (map fst ps)" using Cons.prems by simp_all
  note d = dispatched_every [OF active_ok [OF Cons.prems(1) r(1)] r(2) Cons.prems(3) r(3)]
  obtain st1 where st1: "apply_change st (ChangeDispatch (sr_id ?r) (Some now)) = Inr st1" "schedules_ok st1"
    "active_schedules st1 = List.map_filter (\<lambda>x. if x = ?r then advance now ?r else Some x) (active_schedules st)"
    by (rule apply_dispatch [OF Cons.prems(1) r(1) d])
  have keep: "q \<in> set (active_schedules st1)" if "q \<in> set (map fst ps)" for q
  proof -
    have "q \<in> set (active_schedules st)" "q \<noteq> ?r" using that Cons.prems(4) r(4) by (fastforce, metis)
    then show ?thesis unfolding st1(3) by (auto simp: List.map_filter_def)
  qed
  obtain st' where st': "replay apply_change st1 (dispatches (DueEvery ps now)) = Inr st'"
    "active_schedules st' = List.map_filter (after_dispatch (DueEvery ps now)) (active_schedules st1)"
    using Cons.IH [OF st1(2)] Cons.prems(2-4) keep by auto
  have fresh: "y \<notin> fst ` set ps" if "advance now ?r = Some y" for y
  proof
    assume "y \<in> fst ` set ps"
    then obtain z where "z \<in> set ps" "y = fst z" by blast
    then have "sr_at y \<le> now" using Cons.prems(4) by simp
    then show False using advance_later(2) [OF that] by simp
  qed
  have "active_schedules st' = List.map_filter (after_dispatch (DueEvery (p # ps) now)) (active_schedules st)"
    unfolding st'(2) st1(3) map_filter_compose
    by (rule map_filter_cong) (use r(4) fresh in \<open>auto simp: after_dispatch_def split: option.splits\<close>)
  then show ?case using st1(1) st'(1) by (simp add: dispatches_def)
qed

lemma active_distinct: "schedules_ok st \<Longrightarrow> distinct (active_schedules st)"
proof -
  assume ok: "schedules_ok st"
  have "map sr_id (active_schedules st) = om_keys (sc_active st)"
    using active_entry(1) [OF ok] by (auto simp: active_schedules_def om_keys_def)
  then show ?thesis using ok by (metis distinct_map om_wf_def schedules_ok_def)
qed

lemma dispatch_decision:
  assumes ok: "schedules_ok st" and now: "four_digit_year now" and d: "due_decision st now = Inr d"
  obtains st' where "replay apply_change st (dispatches d) = Inr st'" "active_schedules st' = List.map_filter (after_dispatch d) (active_schedules st)"
    "list_all change_ok (dispatches d)"
proof (cases d)
  case (DueOne r)
  note r = due_one [OF d [unfolded DueOne]]
  have x: "dispatched r None = Inr None" using r(2) by (simp add: dispatched_def is_every_def split: schedule_rule.splits)
  obtain st' where st': "apply_change st (ChangeDispatch (sr_id r) None) = Inr st'"
    "active_schedules st' = List.map_filter (\<lambda>x. if x = r then None else Some x) (active_schedules st)"
    by (rule apply_dispatch [OF ok r(1) x])
  have "after_dispatch d = (\<lambda>x. if x = r then None else Some x)" by (simp add: after_dispatch_def DueOne fun_eq_iff)
  moreover have "stripped (sr_id r)" using active_ok [OF ok r(1)] by (simp add: record_ok_def)
  ultimately show ?thesis using that [of st'] st' by (simp add: DueOne dispatches_def del: apply_change.simps)
next
  case (DueEvery ps t)
  note e = due_every [OF d [unfolded DueEvery]]
  have "distinct (map fst ps)" using active_distinct [OF ok] by (simp add: e(4))
  have "set (map fst ps) = {r \<in> set (active_schedules st). is_every r \<and> sr_at r \<le> now}" by (simp add: e(4))
  then have ps: "fst p \<in> set (active_schedules st) \<and> is_every (fst p) \<and> sr_at (fst p) \<le> now" if "p \<in> set ps" for p
    using that by fastforce
  from dispatch_batch [OF ok \<open>distinct (map fst ps)\<close> now] this obtain st' where
    "replay apply_change st (dispatches d) = Inr st'" "active_schedules st' = List.map_filter (after_dispatch d) (active_schedules st)"
    unfolding DueEvery e(1) by blast
  moreover have "list_all change_ok (dispatches d)"
    using ps active_ok [OF ok] now by (auto simp: DueEvery e(1) dispatches_def list_all_iff record_ok_def)
  ultimately show ?thesis by (rule that)
next
  case (DueWait t)
  have "List.map_filter (after_dispatch (DueWait t)) xs = xs" for xs
    by (induction xs) (simp_all add: map_filter_Cons List.map_filter_simps after_dispatch_def)
  then show ?thesis using that [of st] by (simp add: DueWait dispatches_def)
qed

section \<open>What a run does to the log\<close>

lemma append_changes_effect:
  assumes "session_schedules s = Inr st" "list_all change_ok cs" "replay apply_change st cs = Inr st'" "append_changes tick cs s = (s', done')"
  shows "\<exists>u. session_schedules s' = Inr u \<and> (done' \<longrightarrow> u = st')"
  using assms
proof (induction cs arbitrary: s st)
  case (Cons c cs)
  obtain s1 x where a: "append_change tick c s = (s1, x)" by fastforce
  obtain st1 where st1: "apply_change st c = Inr st1" "replay apply_change st1 cs = Inr st'" using Cons.prems(3) by (auto simp: rbind_Inr_iff)
  show ?case using a
  proof (cases rule: append_change_cases)
    case (failed err)
    then have "s' = s1" "\<not> done'" using Cons.prems(4) a by simp_all
    then show ?thesis using schedules_same [OF Cons.prems(1)] failed by blast
  next
    case (appended e)
    have "session_schedules s1 = Inr st1" using session_schedules_appended [OF Cons.prems(1) appended(2-4)] Cons.prems(2) st1(1) by simp
    moreover have "append_changes tick cs s1 = (s', done')" using Cons.prems(4) a appended(1) by simp
    ultimately show ?thesis using Cons.IH [of s1 st1] Cons.prems(2) st1(2) by simp
  qed
qed simp

lemma foreign_append:
  assumes "session_schedules s = Inr st" "foreign_data d"
  shows "session_schedules (fst (session_append tick d intent s)) = Inr st"
proof -
  obtain s' r where a: "session_append tick d intent s = (s', r)" by fastforce
  note h = session_append_frame(1) [OF a]
  show ?thesis
  proof (cases r)
    case (Inl err)
    then show ?thesis using session_append_effect [OF a] h schedules_same [OF assms(1), of s'] by (simp add: a)
  next
    case (Inr e)
    then have e: "ev_data e = d" "ses_log s' = ses_log s @ [e]" using session_append_effect [OF a] by (simp_all add: append_candidate_def)
    have f: "fold_schedules (ses_log s) (own_seed s) = Inr st" using assms(1) by (simp add: session_schedules_def)
    have "schedule_event st e = Inr st" using assms(2) e(1) by (auto simp: foreign_data_def split: event_data.splits schedule_payload.splits)
    then have "fold_schedules (ses_log s @ [e]) (own_seed s) = Inr st" by (simp only: fold_schedules_snoc [OF f])
    then show ?thesis using e h by (simp add: a session_schedules_def own_seed_def)
  qed
qed

lemma foreign_appends:
  "session_schedules s = Inr st \<Longrightarrow> list_all (\<lambda>(_, d, _). foreign_data d) es \<Longrightarrow> session_schedules (append_foreign es s) = Inr st"
  by (induction es s rule: append_foreign.induct) (simp_all add: foreign_append)

text \<open>What a claim does, when the log replays.\<close>

lemma claim_due_effect:
  assumes st: "session_schedules (rr_session rt) = Inr st" and now: "four_digit_year now" and shown: "list_all (\<lambda>(_, d, _). foreign_data d) shown"
    and run: "claim_due live now tick shown threw rt = (rt', claimed)"
  obtains d u where "due_decision st now = Inr d" "session_schedules (rr_session rt') = Inr u"
    "claimed \<longrightarrow> active_schedules u = List.map_filter (after_dispatch d) (active_schedules st) \<and> rr_sent rt' = rr_sent rt @ [due_framing d] \<and> (\<forall>t. d \<noteq> DueWait t)"
    "rr_sent rt' = rr_sent rt \<or> rr_sent rt' = rr_sent rt @ [due_framing d] \<and> (claimed \<or> rr_faulted rt')"
proof -
  obtain d where d: "due_decision st now = Inr d" using decision_is_made [OF session_schedules_ok [OF st] now] by (auto simp: ok_iff)
  have read: "read_and_decide now rt = (rt, Some d)" by (simp add: read_and_decide_def st d)
  show ?thesis
  proof (cases "rr_stopping rt \<or> \<not> live \<or> (\<exists>t. d = DueWait t)")
    case True
    then have "\<not> claimed" "rr_session rt' = rr_session rt" "rr_sent rt' = rr_sent rt"
      using run by (auto simp: claim_due_def read arm_def split: if_splits option.splits)
    then show ?thesis using that [OF d, of st] st by simp
  next
    case False
    define s1 where "s1 = append_foreign shown (rr_session rt)"
    have s1: "session_schedules s1 = Inr st" unfolding s1_def by (rule foreign_appends [OF st shown])
    have hand: "hand_over tick shown threw d rt = (rt', claimed)"
      using run False by (cases d) (simp_all add: claim_due_def read)
    show ?thesis
    proof (cases threw)
      case True
      then have "\<not> claimed" "rr_session rt' = s1" "rr_sent rt' = rr_sent rt"
        using hand by (auto simp: hand_over_def Let_def s1_def)
      then show ?thesis using that [OF d, of st] s1 by simp
    next
      case handed: False
      obtain st' where st': "replay apply_change st (dispatches d) = Inr st'" "active_schedules st' = List.map_filter (after_dispatch d) (active_schedules st)"
        "list_all change_ok (dispatches d)"
        by (rule dispatch_decision [OF session_schedules_ok [OF st] now d])
      obtain s2 b where a: "append_changes tick (dispatches d) s1 = (s2, b)" by fastforce
      obtain u where u: "session_schedules s2 = Inr u" "b \<Longrightarrow> u = st'" using append_changes_effect [OF s1 st'(3) st'(1) a] by blast
      have "claimed = b" "rr_session rt' = s2" "rr_sent rt' = rr_sent rt @ [due_framing d]" "b \<or> rr_faulted rt'"
        using hand handed a by (auto simp: hand_over_def Let_def s1_def [symmetric] split: bool.splits)
      then show ?thesis using that [OF d, of u] u st'(2) False by auto
    qed
  qed
qed

lemma frame_of_drives [simp]:
  "rr_session (request_drive rt) = rr_session rt" "rr_session (end_drive rt) = rr_session rt" "rr_session (begin_drive live rt) = rr_session rt"
  "rr_session (arm t now rt) = rr_session rt" "rr_session (after_barrier live flushed rt) = rr_session rt"
  "rr_session (timer_fires rt) = rr_session rt" "rr_session (idle_wait_ends rt) = rr_session rt" "rr_session (stop_runtime rt) = rr_session rt"
  by (simp_all add: request_drive_def end_drive_def begin_drive_def arm_def after_barrier_def timer_fires_def idle_wait_ends_def stop_runtime_def Let_def
      split: option.split)

lemma preflight_session [simp]: "rr_session (after_preflight live flushed now busy rt) = rr_session rt"
  by (auto simp: after_preflight_def read_and_decide_def split: sum.split due.split option.split prod.split)

lemma reminder_step_replays:
  assumes "reminder_step rt rt'" "session_schedules (rr_session rt) = Inr st"
  shows "\<exists>st'. session_schedules (rr_session rt') = Inr st'"
  using assms
proof (cases rule: reminder_step.cases)
  case (step_claim now shown live tick threw)
  obtain rt1 claimed where c: "claim_due live now tick shown threw rt = (rt1, claimed)" by fastforce
  obtain d u where "session_schedules (rr_session rt1) = Inr u"
    using claim_due_effect [OF assms(2) step_claim(3,4) c] by blast
  moreover have "rr_session rt' = rr_session rt1" unfolding step_claim(1) by (cases claimed) (simp_all add: claim_step_def c)
  ultimately show ?thesis by simp
next
  case (step_foreign d tick intent)
  then show ?thesis using foreign_append [OF assms(2)] by simp
next
  case (step_create env canon project a)
  obtain s' v where run: "schedule_create canon project a env (rr_session rt) = (s', v)" by fastforce
  show ?thesis using create_is_reported [OF assms(2) step_create(2) run] by (auto simp: step_create(1) run create_reported_def)
next
  case (step_delete i env)
  obtain s' v where run: "schedule_delete i env (rr_session rt) = (s', v)" by fastforce
  show ?thesis using delete_is_reported [OF assms(2) run] by (auto simp: step_delete run delete_reported_def)
qed (use assms(2) in simp_all)

lemma reminder_reach_replays:
  assumes "reminder_reach s rt" "session_schedules s = Inr st"
  shows "\<exists>st'. session_schedules (rr_session rt) = Inr st'"
  using assms
proof (induction rule: reminder_reach.induct)
  case reach_start
  then show ?case by (simp add: start_runtime_def)
next
  case (reach_step rt rt')
  then show ?case using reminder_step_replays by blast
qed

section \<open>Properties\<close>

definition due_records :: "int \<Rightarrow> schedules \<Rightarrow> schedule_record list" where
  "due_records now st = filter (\<lambda>r. sr_at r \<le> now) (active_schedules st)"

text \<open>What a decision may present.\<close>

definition decision_ok :: "schedules \<Rightarrow> int \<Rightarrow> due \<Rightarrow> bool" where
  "decision_ok st now d = (case d of
     DueOne r \<Rightarrow> r \<in> set (due_records now st) \<and> \<not> is_every r \<and> (\<forall>q\<in>set (active_schedules st). \<not> is_every q \<longrightarrow> sr_at r \<le> sr_at q)
   | DueEvery ps t \<Rightarrow> t = now \<and> ps \<noteq> [] \<and> list_all is_every (due_records now st) \<and> map fst ps = sort_key sr_at (due_records now st) \<and>
       list_all (\<lambda>(r, e). sr_at r \<le> e \<and> e \<le> now \<and> now < e + every_seconds r * 1000) ps
   | DueWait t \<Rightarrow> False)"

lemma decision_is_ok:
  assumes "due_decision st now = Inr d" "\<forall>t. d \<noteq> DueWait t" shows "decision_ok st now d"
proof (cases d)
  case (DueOne r)
  then show ?thesis using due_one [of st now r] assms(1) by (simp add: decision_ok_def due_records_def)
next
  case (DueEvery ps t)
  note e = due_every [OF assms(1) [unfolded DueEvery]]
  have due: "due_records now st = filter (\<lambda>r. is_every r \<and> sr_at r \<le> now) (active_schedules st)"
    unfolding due_records_def using e(3) by (intro filter_cong) auto
  have "sr_at r \<le> x \<and> x \<le> now \<and> now < x + every_seconds r * 1000" if "(r, x) \<in> set ps" for r x
    using e(5) that resolve_every_Inr(3-5) by fastforce
  then show ?thesis using e by (auto simp: decision_ok_def DueEvery due list_all_iff)
qed (use assms in simp)

lemma map_filter_length: "length (filter p (List.map_filter f xs)) = length (filter (\<lambda>x. case f x of None \<Rightarrow> False | Some y \<Rightarrow> p y) xs)"
  by (induction xs) (auto simp: map_filter_Cons List.map_filter_simps split: option.splits)

lemma filter_shorter: "(\<And>x. x \<in> set xs \<Longrightarrow> q x \<Longrightarrow> p x) \<Longrightarrow> x \<in> set xs \<Longrightarrow> p x \<Longrightarrow> \<not> q x \<Longrightarrow> length (filter q xs) < length (filter p xs)"
proof -
  assume a: "\<And>x. x \<in> set xs \<Longrightarrow> q x \<Longrightarrow> p x" "x \<in> set xs" "p x" "\<not> q x"
  have "filter q xs = filter q (filter p xs)" using a(1) by (simp add: filter_filter) (metis (mono_tags, lifting) filter_cong)
  moreover have "length (filter q (filter p xs)) < length (filter p xs)" by (rule length_filter_less [of x]) (use a in simp_all)
  ultimately show ?thesis by simp
qed

lemma append_change_succeeds:
  assumes "session_ok s" obtains s' e where "append_change tick c s = (s', Inr e)" "session_ok s'" "ses_header s' = ses_header s"
    "ses_log s' = ses_log s @ [e]" "ev_data e = PluginEvent (ScheduleChange (change_json c))"
  by (rule append_log_only [OF assms, of "PluginEvent (ScheduleChange (change_json c))" tick])
    (simp_all add: append_change_def that del: change_json.simps)

lemma append_changes_succeed: "session_ok s \<Longrightarrow> snd (append_changes tick cs s)"
proof (induction cs arbitrary: s)
  case (Cons c cs)
  obtain s' e where "append_change tick c s = (s', Inr e)" "session_ok s'" by (rule append_change_succeeds [OF Cons.prems])
  then show ?case using Cons.IH by simp
qed simp

lemma foreign_appends_ok: "session_ok s \<Longrightarrow> session_ok (append_foreign es s)"
proof (induction es s rule: append_foreign.induct)
  case (2 tick d i es s)
  then show ?case using session_append_ok [OF "2.prems", of tick d i] by (cases "session_append tick d i s") simp
qed simp

lemma backlog_shrinks:
  assumes d: "decision_ok st now d" and u: "active_schedules u = List.map_filter (after_dispatch d) (active_schedules st)"
  shows "length (due_records now u) < length (due_records now st)"
proof -
  let ?left = "\<lambda>r. case after_dispatch d r of None \<Rightarrow> False | Some q \<Rightarrow> sr_at q \<le> now"
  have kept: "sr_at r \<le> now" if "?left r" for r
    using that d by (cases d) (auto simp: after_dispatch_def decision_ok_def split: if_splits option.splits dest!: advance_later(2))
  have "\<exists>r. r \<in> set (active_schedules st) \<and> sr_at r \<le> now \<and> \<not> ?left r"
  proof (cases d)
    case (DueOne r)
    then show ?thesis using d by (intro exI [of _ r]) (simp add: decision_ok_def due_records_def after_dispatch_def)
  next
    case (DueEvery ps t)
    then obtain p where p: "p \<in> set ps" using d by (cases ps) (auto simp: decision_ok_def)
    have "set (map fst ps) = set (due_records now st)" using d DueEvery by (simp add: decision_ok_def del: set_map)
    then have "fst p \<in> set (due_records now st)" using p by auto
    moreover have "after_dispatch d (fst p) = advance now (fst p)" using d DueEvery p by (simp add: after_dispatch_def decision_ok_def)
    ultimately show ?thesis using advance_later(2) [of now "fst p"] by (intro exI [of _ "fst p"]) (auto simp: due_records_def split: option.splits)
  qed (use d in \<open>simp add: decision_ok_def\<close>)
  then obtain r where r: "r \<in> set (active_schedules st)" "sr_at r \<le> now" "\<not> ?left r" by blast
  have "length (filter ?left (active_schedules st)) < length (filter (\<lambda>r. sr_at r \<le> now) (active_schedules st))"
    by (rule filter_shorter [where x = r]) (use kept r in blast)+
  then show ?thesis by (simp add: due_records_def u map_filter_length)
qed

lemma claim_succeeds:
  assumes ok: "session_ok (rr_session rt)" and st: "session_schedules (rr_session rt) = Inr st" and now: "four_digit_year now"
    and shown: "list_all (\<lambda>(_, d, _). foreign_data d) shown" and live: "\<not> rr_stopping rt" and due: "due_records now st \<noteq> []"
  obtains rt' where "claim_due True now tick shown False rt = (rt', True)"
proof -
  obtain rt' claimed where run: "claim_due True now tick shown False rt = (rt', claimed)" by fastforce
  obtain d where d: "due_decision st now = Inr d" using decision_is_made [OF session_schedules_ok [OF st] now] by (auto simp: ok_iff)
  have wait: "d \<noteq> DueWait t" for t using due_wait(1) [of st now t] d due by (force simp: due_records_def filter_empty_conv)
  have hand: "hand_over tick shown False d rt = (rt', claimed)"
    using run live wait by (cases d) (simp_all add: claim_due_def read_and_decide_def st d, metis)
  have "snd (append_changes tick (dispatches d) (append_foreign shown (rr_session rt)))"
    using append_changes_succeed foreign_appends_ok [OF ok] by blast
  then have claimed using hand by (auto simp: hand_over_def Let_def split: prod.splits bool.splits)
  then show ?thesis using run that by simp
qed

text \<open>
  However the runtime, the management tools and everything else that appends to the session interleave, the log stays
  replayable as reminders, and every active reminder stays well formed.
\<close>

theorem reminder_runs_keep_the_log_replayable:
  assumes "session_schedules s = Inr st" and "reminder_reach s rt"
  shows "\<exists>st'. session_schedules (rr_session rt) = Inr st' \<and> distinct (sc_seen st') \<and> list_all record_ok (active_schedules st')"
proof -
  obtain st' where st': "session_schedules (rr_session rt) = Inr st'" using reminder_reach_replays [OF assms(2,1)] by blast
  then show ?thesis using session_schedules_ok [OF st'] active_ok by (auto simp: schedules_ok_def list_all_iff)
qed

text \<open>
  C17: A claim presents what is due and records exactly that: the earliest due one-shot reminder, or, when none is due,
  one latest occurrence of every due fixed-rate reminder in target order. A one-shot reminder is gone afterwards, a
  fixed-rate one waits for its next occurrence, and no other reminder changes; without a presented framing nothing is
  recorded, and one whose record is incomplete faults the runtime.
\<close>

theorem claims_record_what_they_present:
  assumes st: "session_schedules (rr_session rt) = Inr st" and now: "four_digit_year now" and shown: "list_all (\<lambda>(_, d, _). foreign_data d) shown"
    and run: "claim_due live now tick shown threw rt = (rt', claimed)"
  shows "if claimed then \<exists>d u. decision_ok st now d \<and> rr_sent rt' = rr_sent rt @ [due_framing d] \<and> session_schedules (rr_session rt') = Inr u \<and>
      active_schedules u = List.map_filter (after_dispatch d) (active_schedules st)
    else rr_sent rt' = rr_sent rt \<or> rr_faulted rt'"
proof -
  obtain d u where d: "due_decision st now = Inr d" "session_schedules (rr_session rt') = Inr u"
    "claimed \<longrightarrow> active_schedules u = List.map_filter (after_dispatch d) (active_schedules st) \<and> rr_sent rt' = rr_sent rt @ [due_framing d] \<and> (\<forall>t. d \<noteq> DueWait t)"
    "rr_sent rt' = rr_sent rt \<or> rr_sent rt' = rr_sent rt @ [due_framing d] \<and> (claimed \<or> rr_faulted rt')"
    by (rule claim_due_effect [OF st now shown run])
  then show ?thesis using decision_is_ok [OF d(1)] by auto
qed

text \<open>
  Claims make progress: whenever something is due, a claim of a running runtime whose follow-up does not throw
  succeeds and leaves fewer due reminders than it found, so at one reading of the clock the backlog is dispatched after
  at most as many claims as there are due reminders.
\<close>

theorem claims_work_off_the_backlog:
  assumes ok: "session_ok (rr_session rt)" and st: "session_schedules (rr_session rt) = Inr st" and now: "four_digit_year now"
    and shown: "list_all (\<lambda>(_, d, _). foreign_data d) shown" and live: "\<not> rr_stopping rt" and due: "due_records now st \<noteq> []"
  shows "\<exists>rt' u. claim_due True now tick shown False rt = (rt', True) \<and> session_schedules (rr_session rt') = Inr u \<and>
    length (due_records now u) < length (due_records now st)"
proof -
  obtain rt' where run: "claim_due True now tick shown False rt = (rt', True)" by (rule claim_succeeds [OF ok st now shown live due])
  obtain d u where d: "due_decision st now = Inr d" "session_schedules (rr_session rt') = Inr u"
    "True \<longrightarrow> active_schedules u = List.map_filter (after_dispatch d) (active_schedules st) \<and> rr_sent rt' = rr_sent rt @ [due_framing d] \<and> (\<forall>t. d \<noteq> DueWait t)"
    "rr_sent rt' = rr_sent rt \<or> rr_sent rt' = rr_sent rt @ [due_framing d] \<and> (True \<or> rr_faulted rt')"
    by (rule claim_due_effect [OF st now shown run])
  then show ?thesis using run backlog_shrinks [OF decision_is_ok [OF d(1)]] by blast
qed

text \<open>
  A drive that finds nothing due arms the timer for no later than the first target and no more than one segment
  ahead, and leaves it unarmed only when there is no reminder.
\<close>

theorem timer_meets_the_next_target:
  assumes st: "session_schedules (rr_session rt) = Inr st" and now: "four_digit_year now" and live: "\<not> rr_stopping rt" and none: "due_records now st = []"
  shows "case rr_timer (after_preflight True True now busy (rt\<lparr>rr_timer := None\<rparr>)) of
      None \<Rightarrow> active_schedules st = []
    | Some t \<Rightarrow> now < t \<and> t \<le> now + MAX_SEGMENT_MS \<and> list_all (\<lambda>r. t \<le> sr_at r) (active_schedules st) \<and>
        (t = now + MAX_SEGMENT_MS \<or> t \<in> sr_at ` set (active_schedules st))"
proof -
  obtain d where d: "due_decision st now = Inr d" using decision_is_made [OF session_schedules_ok [OF st] now] by (auto simp: ok_iff)
  have "\<not> decision_ok st now d" using none by (auto simp: decision_ok_def split: due.splits)
  then obtain t where t: "d = DueWait t" using decision_is_ok [OF d] by blast
  note w = due_wait [OF d [unfolded t]]
  have timer: "rr_timer (after_preflight True True now busy (rt\<lparr>rr_timer := None\<rparr>)) = map_option (\<lambda>t. now + min (t - now) MAX_SEGMENT_MS) t"
    using live by (simp add: after_preflight_def read_and_decide_def st d t end_drive_def arm_def split: option.split)
  show ?thesis
  proof (cases "active_schedules st")
    case Nil
    then show ?thesis using w(2) by (simp add: timer)
  next
    case (Cons r rs)
    define m where "m = Min (sr_at ` set (active_schedules st))"
    have m: "m \<in> sr_at ` set (active_schedules st)" "list_all (\<lambda>r. m \<le> sr_at r) (active_schedules st)"
      unfolding m_def by (rule Min_in) (simp_all add: Cons list_all_iff)
    then have "now < m" using w(1) by auto
    moreover have "t = Some m" using w(2) Cons by (simp add: m_def)
    ultimately show ?thesis using m by (auto simp: timer list_all_iff min_def MAX_SEGMENT_MS_def)
  qed
qed

section \<open>Samples\<close>

definition sample_folded :: schedules where
  "sample_folded = \<lparr>sc_active = [(''schedule-1'', sample_after), (''schedule-2'', sample_every)], sc_seen = [''schedule-1'', ''schedule-2'']\<rparr>"

lemma sample_reminders:
  obtains s :: "unit schedule_payload session" where "session_ok s" "session_schedules s = Inr sample_folded"
proof -
  have s0: "session_ok sample_schedule_session" "session_schedules sample_schedule_session = Inr no_schedules"
    using sample_tools_run(1) by (simp_all add: sample_schedule_session_def empty_session_ok)
  obtain s1 e1 where s1: "session_ok s1" "ses_header s1 = ses_header sample_schedule_session" "ses_log s1 = ses_log sample_schedule_session @ [e1]"
    "ev_data e1 = PluginEvent (ScheduleChange (change_json (ChangeCreate sample_after)))" by (rule append_change_succeeds [OF s0(1), of 0])
  obtain s2 e2 where s2: "session_ok s2" "ses_header s2 = ses_header s1" "ses_log s2 = ses_log s1 @ [e2]"
    "ev_data e2 = PluginEvent (ScheduleChange (change_json (ChangeCreate sample_every)))" by (rule append_change_succeeds [OF s1(1), of 0])
  have ok: "change_ok (ChangeCreate sample_after)" "change_ok (ChangeCreate sample_every)" using sample_changes_ok by simp_all
  have "rbind (apply_change no_schedules (ChangeCreate sample_after)) (\<lambda>st. apply_change st (ChangeCreate sample_every)) = Inr sample_folded" by code_simp
  then have "session_schedules s2 = Inr sample_folded"
    using session_schedules_appended [OF s0(2) s1(3,2,4) ok(1)] session_schedules_appended [OF _ s2(3,2,4) ok(2)] by (auto simp: rbind_Inr_iff)
  then show ?thesis using s2(1) that by blast
qed

lemma sample_due: "due_records 1000000 sample_folded = [sample_after, sample_every]" "due_records 1000 sample_folded = []"
  "four_digit_year 1000000" "four_digit_year 1000" "active_schedules sample_folded = [sample_after, sample_every]"
  by code_simp+

theorem reminder_runs_keep_the_log_replayable_witness:
  "\<exists>(s :: unit schedule_payload session) st'. session_schedules (rr_session (timer_fires (start_runtime s))) = Inr st' \<and> distinct (sc_seen st')"
proof -
  obtain s :: "unit schedule_payload session" where s: "session_schedules s = Inr sample_folded" by (rule sample_reminders)
  have "reminder_reach s (timer_fires (start_runtime s))" by (intro reach_step [OF reach_start] step_timer)
  from reminder_runs_keep_the_log_replayable [OF s this] show ?thesis by blast
qed

theorem claims_record_what_they_present_witness:
  "\<exists>(s :: unit schedule_payload session) rt' d. claim_due True 1000000 0 [] False (start_runtime s) = (rt', True) \<and>
     decision_ok sample_folded 1000000 d \<and> rr_sent rt' = [due_framing d]"
proof -
  obtain s :: "unit schedule_payload session" where s: "session_ok s" "session_schedules s = Inr sample_folded" by (rule sample_reminders)
  then have st: "session_ok (rr_session (start_runtime s))" "session_schedules (rr_session (start_runtime s)) = Inr sample_folded" "\<not> rr_stopping (start_runtime s)"
    by (simp_all add: start_runtime_def)
  obtain rt' where run: "claim_due True 1000000 0 [] False (start_runtime s) = (rt', True)"
    by (rule claim_succeeds [OF st(1,2) sample_due(3) _ st(3), of "[]" 0]) (simp_all add: sample_due(1))
  from claims_record_what_they_present [OF st(2) sample_due(3) _ run] have
    "\<exists>d. decision_ok sample_folded 1000000 d \<and> rr_sent rt' = [due_framing d]" by (auto simp: start_runtime_def)
  then show ?thesis using run by blast
qed

theorem claims_work_off_the_backlog_witness:
  "\<exists>(s :: unit schedule_payload session) rt' u. claim_due True 1000000 0 [] False (start_runtime s) = (rt', True) \<and>
     session_schedules (rr_session rt') = Inr u \<and> length (due_records 1000000 u) < 2"
proof -
  obtain s :: "unit schedule_payload session" where s: "session_ok s" "session_schedules s = Inr sample_folded" by (rule sample_reminders)
  then have "session_ok (rr_session (start_runtime s))" "session_schedules (rr_session (start_runtime s)) = Inr sample_folded" "\<not> rr_stopping (start_runtime s)"
    by (simp_all add: start_runtime_def)
  from claims_work_off_the_backlog [OF this(1,2) sample_due(3) _ this(3), of "[]" 0] show ?thesis
    by (intro exI [of _ s]) (simp add: sample_due(1) numeral_2_eq_2)
qed

theorem timer_meets_the_next_target_witness:
  "\<exists>s :: unit schedule_payload session. rr_timer (after_preflight True True 1000 False ((start_runtime s)\<lparr>rr_timer := None\<rparr>)) = Some 60000"
proof -
  obtain s :: "unit schedule_payload session" where s: "session_schedules s = Inr sample_folded" by (rule sample_reminders)
  then have "session_schedules (rr_session (start_runtime s)) = Inr sample_folded" "\<not> rr_stopping (start_runtime s)" by (simp_all add: start_runtime_def)
  from timer_meets_the_next_target [OF this(1) sample_due(4) this(2) sample_due(2), of False] show ?thesis
    by (intro exI [of _ s]) (auto simp: sample_due(5) sample_after_def sample_every_def MAX_SEGMENT_MS_def split: option.splits)
qed

end
