(* ===== verification/Jsonl_Format.thy ===== *)
theory Jsonl_Format
  imports Chunk_Rows Session_Envelope Utf8
begin

text \<open>
  The stored form of a session (\<open>packages/session/session-persistence-jsonl/src/format.ts\<close>): path segments, the header
  record, the lines of an appended batch and the scanner that reads a log back, complete or torn. \<open>parse\<close> stands for
  \<open>JSON.parse\<close> of the UTF-8 text of a line, \<open>None\<close> where it throws, and \<open>stringify\<close> for the UTF-8 bytes of
  \<open>JSON.stringify\<close>. A JSON number is a rational, so there is no negative zero. A scanner that has thrown is not used again.
\<close>

section \<open>Path segments\<close>

text \<open>A path is given by its UTF-16 code units; an encoded segment is ASCII.\<close>

type_synonym code_unit = "16 word"

text \<open>\<open>/^[A-Za-z0-9._-]$/\<close>, on ASCII characters\<close>

definition segment_char :: "char \<Rightarrow> bool" where
  "segment_char c \<longleftrightarrow> (CHR ''A'' \<le> c \<and> c \<le> CHR ''Z'') \<or> (CHR ''a'' \<le> c \<and> c \<le> CHR ''z'') \<or> (CHR ''0'' \<le> c \<and> c \<le> CHR ''9'') \<or>
     c = CHR ''.'' \<or> c = CHR ''_'' \<or> c = CHR ''-''"

definition plain_unit :: "code_unit \<Rightarrow> bool" where
  "plain_unit u \<longleftrightarrow> unat u < 128 \<and> segment_char (char_of (unat u))"

definition hex_char :: "nat \<Rightarrow> char" where
  "hex_char n = (if n < 10 then char_of (48 + n) else char_of (55 + n))"

text \<open>\<open>code.toString(16).toUpperCase().padStart(4, '0')\<close>\<close>

definition hex4 :: "code_unit \<Rightarrow> string" where
  "hex4 u = map (\<lambda>i. hex_char (unat u div 16 ^ i mod 16)) [3, 2, 1, 0]"

definition escape_unit :: "code_unit \<Rightarrow> string" where
  "escape_unit u = (if plain_unit u then [char_of (unat u)] else CHR ''~'' # hex4 u)"

definition units_of :: "string \<Rightarrow> code_unit list" where
  "units_of s = map (\<lambda>c. of_nat (of_char c)) s"

datatype path_error = EmptySegment | EmptyProject

definition encode_segment :: "code_unit list \<Rightarrow> path_error + string" where
  "encode_segment us =
     (if us = [] then Inl EmptySegment
      else if us = units_of ''.'' then Inr ''~002E''
      else if us = units_of ''..'' then Inr ''~002E~002E''
      else Inr (concat (map escape_unit us)))"

definition separator_unit :: "code_unit \<Rightarrow> bool" where
  "separator_unit u \<longleftrightarrow> u \<in> set (units_of [CHR ''/'', CHR 0x5C, CHR '':''])"

fun readable_path :: "bool \<Rightarrow> code_unit list \<Rightarrow> string" where
  "readable_path run [] = []"
| "readable_path run (u # us) =
     (if separator_unit u then (if run then [] else ''-'') @ readable_path True us
      else escape_unit u @ readable_path False us)"

definition project_key :: "code_unit list \<Rightarrow> path_error + string" where
  "project_key us =
     (if us = [] then Inl EmptyProject
      else let slug = dropWhile (\<lambda>c. c = CHR ''-'') (readable_path False us);
               slug = (if slug = [] then ''root'' else slug)
        in Inr (''--'' @ take 251 slug @ ''--''))"

datatype compression = Zstd | NoCompression

definition log_suffix :: "compression \<Rightarrow> string" where
  "log_suffix c = (case c of Zstd \<Rightarrow> ''.jsonl.zstd'' | NoCompression \<Rightarrow> ''.jsonl'')"

text \<open>The segments that \<open>join\<close> puts below the root, for \<open>projectDir\<close>, \<open>sessionDir\<close> and \<open>logPath\<close>.\<close>

definition project_dir :: "code_unit list option \<Rightarrow> path_error + string list" where
  "project_dir cwd = (case cwd of None \<Rightarrow> Inr [''_no-cwd''] | Some us \<Rightarrow> rbind (project_key us) (\<lambda>k. Inr [k]))"

definition session_dir :: "code_unit list option \<Rightarrow> code_unit list \<Rightarrow> path_error + string list" where
  "session_dir cwd i = rbind (project_dir cwd) (\<lambda>d. rbind (encode_segment i) (\<lambda>s. Inr (d @ [s])))"

definition log_path :: "code_unit list option \<Rightarrow> code_unit list \<Rightarrow> compression \<Rightarrow> path_error + string list" where
  "log_path cwd i c = rbind (session_dir cwd i) (\<lambda>d. Inr (d @ [''session'' @ log_suffix c]))"

section \<open>The header record\<close>

text \<open>The fields that the type guard does not check are whatever JSON value the line holds.\<close>

record stored_header =
  th_version :: rat
  th_id :: string
  th_created :: rat
  th_cwd :: "json option"
  th_parent :: "json option"
  th_seed :: "json option"
  th_origin :: "json option"
  th_depth :: "rat option"
  th_preset :: "json option"

definition stored_field :: "string \<Rightarrow> json option \<Rightarrow> (string \<times> json) list" where
  "stored_field k v = (case v of None \<Rightarrow> [] | Some x \<Rightarrow> [(k, x)])"

definition to_header_line :: "stored_header \<Rightarrow> json" where
  "to_header_line h = JObj ([(''type'', JStr ''session''), (''version'', JNum (th_version h)), (''id'', JStr (th_id h)),
     (''createdAt'', JNum (th_created h))] @ stored_field ''cwd'' (th_cwd h) @ stored_field ''parentSession'' (th_parent h) @
     stored_field ''seedLength'' (th_seed h) @ stored_field ''origin'' (th_origin h) @
     [(''delegationDepth'', JNum (case th_depth h of None \<Rightarrow> 0 | Some d \<Rightarrow> d))] @ stored_field ''agentPreset'' (th_preset h))"

datatype scan_error =
    HeaderMissing
  | HeaderNotJson
  | HeaderForeign "json option" rat
  | HeaderShape
  | HeaderRetired
  | Unparsable nat
  | SeqGap nat nat "json option"
  | NullRow
  | WriteAfterFinish

definition safe_count :: "json option \<Rightarrow> rat option" where
  "safe_count v = (case num_value v of Some r \<Rightarrow> if safe_integer r \<and> 0 \<le> r then Some r else None | None \<Rightarrow> None)"

text \<open>\<open>isHeaderLine\<close>\<close>

definition is_header_line :: "json \<Rightarrow> bool" where
  "is_header_line v \<longleftrightarrow> jget v ''type'' = Some (JStr ''session'') \<and> num_value (jget v ''version'') \<noteq> None \<and>
     str_value (jget v ''id'') \<noteq> None \<and> safe_count (jget v ''createdAt'') \<noteq> None \<and>
     safe_count (jget v ''delegationDepth'') \<noteq> None \<and>
     (jget v ''origin'' = None \<or> jget v ''origin'' = Some (JStr ''subagent'')) \<and>
     (jget v ''agentPreset'' = None \<or> str_value (jget v ''agentPreset'') \<noteq> None)"

definition from_header_line :: "json \<Rightarrow> scan_error + stored_header" where
  "from_header_line v =
     (if jget v ''sandboxMode'' \<noteq> None \<or> jget v ''approvalPolicy'' \<noteq> None then Inl HeaderRetired
      else case (num_value (jget v ''version''), str_value (jget v ''id''), num_value (jget v ''createdAt''),
          num_value (jget v ''delegationDepth'')) of
        (Some ver, Some i, Some created, Some depth) \<Rightarrow>
          Inr \<lparr>th_version = ver, th_id = i, th_created = created, th_cwd = jget v ''cwd'', th_parent = jget v ''parentSession'',
            th_seed = jget v ''seedLength'', th_origin = jget v ''origin'', th_depth = Some depth, th_preset = jget v ''agentPreset''\<rparr>
      | _ \<Rightarrow> Inl HeaderShape)"

text \<open>\<open>refuseForeignFormatVersion\<close>\<close>

definition foreign_version :: "json \<Rightarrow> scan_error option" where
  "foreign_version v = (case num_value (jget v ''version'') of
      Some ver \<Rightarrow> if ver = of_int SESSION_FORMAT_VERSION then None else Some (HeaderForeign (jget v ''id'') ver)
    | None \<Rightarrow> None)"

text \<open>A header that a session can have is read back as it was written.\<close>

definition header_storable :: "stored_header \<Rightarrow> bool" where
  "header_storable h \<longleftrightarrow> th_version h = of_int SESSION_FORMAT_VERSION \<and> safe_count (Some (JNum (th_created h))) \<noteq> None \<and>
     (case th_depth h of None \<Rightarrow> True | Some d \<Rightarrow> safe_count (Some (JNum d)) \<noteq> None) \<and>
     (th_origin h = None \<or> th_origin h = Some (JStr ''subagent'')) \<and> (th_preset h = None \<or> str_value (th_preset h) \<noteq> None)"

lemma stored_field_simps [simp]: "stored_field k None = []" "stored_field k (Some v) = [(k, v)]"
  by (simp_all add: stored_field_def)

lemma header_line_fields:
  "jget (to_header_line h) ''type'' = Some (JStr ''session'')" "jget (to_header_line h) ''version'' = Some (JNum (th_version h))"
  "jget (to_header_line h) ''id'' = Some (JStr (th_id h))" "jget (to_header_line h) ''createdAt'' = Some (JNum (th_created h))"
  "jget (to_header_line h) ''cwd'' = th_cwd h" "jget (to_header_line h) ''parentSession'' = th_parent h"
  "jget (to_header_line h) ''seedLength'' = th_seed h" "jget (to_header_line h) ''origin'' = th_origin h"
  "jget (to_header_line h) ''delegationDepth'' = Some (JNum (case th_depth h of None \<Rightarrow> 0 | Some d \<Rightarrow> d))"
  "jget (to_header_line h) ''agentPreset'' = th_preset h" "jget (to_header_line h) ''sandboxMode'' = None"
  "jget (to_header_line h) ''approvalPolicy'' = None"
  by (cases "th_cwd h"; cases "th_parent h"; cases "th_seed h"; cases "th_origin h"; cases "th_preset h"; simp add: to_header_line_def)+

lemma header_line_round_trip:
  assumes "header_storable h"
  shows "foreign_version (to_header_line h) = None" and "is_header_line (to_header_line h)"
    and "from_header_line (to_header_line h) = Inr (h\<lparr>th_depth := Some (case th_depth h of None \<Rightarrow> 0 | Some d \<Rightarrow> d)\<rparr>)"
proof -
  have "safe_count (Some (JNum 0)) = Some 0" by code_simp
  then show "is_header_line (to_header_line h)"
    using assms by (auto simp: header_storable_def is_header_line_def header_line_fields split: option.splits)
qed (use assms in \<open>simp_all add: header_storable_def foreign_version_def from_header_line_def header_line_fields\<close>)

type_synonym line_parser = "byte list \<Rightarrow> json option"

definition lf :: byte where
  "lf = 10"

definition parse_header_record :: "line_parser \<Rightarrow> byte list \<Rightarrow> scan_error + stored_header" where
  "parse_header_record parse record =
     (if record = [] \<or> last record \<noteq> lf \<or> lf \<in> set (butlast record) then Inl HeaderMissing
      else case parse (butlast record) of
        None \<Rightarrow> Inl HeaderNotJson
      | Some v \<Rightarrow> (case foreign_version v of
          Some e \<Rightarrow> Inl e
        | None \<Rightarrow> if \<not> is_header_line v then Inl HeaderShape else from_header_line v))"

text \<open>The listing reads only the first line, given without its newline; here a retired field still throws.\<close>

definition parse_header_meta :: "line_parser \<Rightarrow> byte list \<Rightarrow> scan_error + stored_header option" where
  "parse_header_meta parse line = (case parse line of
      None \<Rightarrow> Inr None
    | Some v \<Rightarrow> if \<not> is_header_line v then Inr None else rbind (from_header_line v) (\<lambda>h. Inr (Some h)))"

section \<open>Writing\<close>

fun join_lines :: "byte list list \<Rightarrow> byte list" where
  "join_lines [] = []"
| "join_lines [l] = l"
| "join_lines (l # m # ls) = l @ lf # join_lines (m # ls)"

definition event_lines :: "(json \<Rightarrow> byte list) \<Rightarrow> json list \<Rightarrow> bool \<Rightarrow> byte list" where
  "event_lines stringify events pack = join_lines (map stringify (if pack then pack_chunk_runs events else events))"

section \<open>The scanner\<close>

record scanner =
  ls_meta :: stored_header
  ls_events :: "json list"
  ls_fragments :: "byte list list"
  ls_fragment_bytes :: nat
  ls_input :: nat
  ls_committed :: nat
  ls_line :: nat
  ls_issue :: "scan_error option"
  ls_finished :: bool

definition new_scanner :: "line_parser \<Rightarrow> byte list \<Rightarrow> scan_error + scanner" where
  "new_scanner parse record = rbind (parse_header_record parse record) (\<lambda>h.
     Inr \<lparr>ls_meta = h, ls_events = [], ls_fragments = [], ls_fragment_bytes = 0, ls_input = length record,
       ls_committed = length record, ls_line = 0, ls_issue = None, ls_finished = False\<rparr>)"

text \<open>\<open>decoded.some(event => event.type === 'turn/end')\<close>: a property of \<open>null\<close> throws.\<close>

fun some_turn_end :: "json list \<Rightarrow> scan_error + bool" where
  "some_turn_end [] = Inr False"
| "some_turn_end (e # es) =
     (if e = JNull then Inl NullRow
      else if jget e ''type'' = Some (JStr ''turn/end'') then Inr True else some_turn_end es)"

text \<open>\<open>decodeStorageRecord(JSON.parse(line.toString('utf8')))\<close>; any throw is the same issue.\<close>

definition decode_line :: "line_parser \<Rightarrow> byte list \<Rightarrow> json list option" where
  "decode_line parse line = (case parse line of
      None \<Rightarrow> None
    | Some v \<Rightarrow> (case decode_storage_record v of Inl _ \<Rightarrow> None | Inr es \<Rightarrow> Some es))"

text \<open>The loop over the decoded events; \<open>rest\<close> is what is left of them.\<close>

fun take_row :: "json list \<Rightarrow> nat \<Rightarrow> nat \<Rightarrow> json list \<Rightarrow> scanner \<Rightarrow> scan_error + scanner" where
  "take_row decoded row_start end_byte [] st = Inr (st\<lparr>ls_committed := end_byte\<rparr>)"
| "take_row decoded row_start end_byte (e # rest) st =
     (if e = JNull then Inl NullRow
      else let expected = length (ls_events st) in
        if jget e ''seq'' \<noteq> Some (JInt (int expected)) then
          (let issue = SeqGap (ls_line st) expected (jget e ''seq'') in
           rbind (some_turn_end decoded) (\<lambda>ended.
             if ended then Inl issue
             else Inr (st\<lparr>ls_events := take row_start (ls_events st), ls_issue := Some issue\<rparr>)))
        else take_row decoded row_start end_byte rest (st\<lparr>ls_events := ls_events st @ [e]\<rparr>))"

definition consume_event_line :: "line_parser \<Rightarrow> byte list \<Rightarrow> nat \<Rightarrow> scanner \<Rightarrow> scan_error + scanner" where
  "consume_event_line parse line end_byte st0 =
     (let st = st0\<lparr>ls_line := ls_line st0 + 1\<rparr> in
      case decode_line parse line of
        None \<Rightarrow> Inr (st\<lparr>ls_issue := (case ls_issue st of None \<Rightarrow> Some (Unparsable (ls_line st)) | Some e \<Rightarrow> Some e)\<rparr>)
      | Some decoded \<Rightarrow> (case ls_issue st of
          Some issue \<Rightarrow> rbind (some_turn_end decoded) (\<lambda>ended. if ended then Inl issue else Inr st)
        | None \<Rightarrow> take_row decoded (length (ls_events st)) end_byte decoded st))"

text \<open>\<open>chunk.indexOf(0x0A, from)\<close>\<close>

definition index_from :: "'a \<Rightarrow> 'a list \<Rightarrow> nat \<Rightarrow> nat option" where
  "index_from x xs k = map_option ((+) k) (index_of (drop k xs) x)"

lemma index_of_less: "index_of xs x = Some i \<Longrightarrow> i < length xs"
  by (induction xs arbitrary: i) (auto split: if_splits)

lemma index_from_bounds: "index_from x xs k = Some i \<Longrightarrow> k \<le> i \<and> i < length xs"
  by (auto simp: index_from_def dest: index_of_less)

definition subarray :: "nat \<Rightarrow> nat \<Rightarrow> 'a list \<Rightarrow> 'a list" where
  "subarray i j xs = drop i (take j xs)"

text \<open>\<open>Buffer.concat(list, length)\<close> cuts or fills up with zeros.\<close>

definition buffer_concat :: "byte list list \<Rightarrow> nat \<Rightarrow> byte list" where
  "buffer_concat parts n = take n (concat parts @ replicate n 0)"

text \<open>The line that ends at a newline of the chunk, with the fragments kept from earlier chunks.\<close>

definition close_line :: "byte list \<Rightarrow> scanner \<Rightarrow> byte list \<times> scanner" where
  "close_line fragment st =
     (if ls_fragments st = [] then (fragment, st)
      else let parts = (if fragment = [] then ls_fragments st else ls_fragments st @ [fragment]) in
        (buffer_concat parts (ls_fragment_bytes st + length fragment),
         st\<lparr>ls_fragments := [], ls_fragment_bytes := 0\<rparr>))"

function write_loop :: "line_parser \<Rightarrow> nat \<Rightarrow> byte list \<Rightarrow> nat \<Rightarrow> scanner \<Rightarrow> scan_error + scanner" where
  "write_loop parse chunk_start chunk line_start st =
     (case index_from lf chunk line_start of
        Some nl \<Rightarrow>
          (let (line, st) = close_line (subarray line_start nl chunk) st in
           rbind (consume_event_line parse line (chunk_start + nl + 1) st) (\<lambda>st.
             write_loop parse chunk_start chunk (nl + 1) st))
      | None \<Rightarrow>
          if line_start < length chunk then
            (let fragment = drop line_start chunk in
             Inr (st\<lparr>ls_fragments := ls_fragments st @ [fragment], ls_fragment_bytes := ls_fragment_bytes st + length fragment\<rparr>))
          else Inr st)"
  by pat_completeness auto
termination
  by (relation "measure (\<lambda>(parse, s, chunk, k, st). length chunk - k)") (auto dest!: index_from_bounds)

declare write_loop.simps [simp del]

definition write_chunk :: "line_parser \<Rightarrow> byte list \<Rightarrow> scanner \<Rightarrow> scan_error + scanner" where
  "write_chunk parse chunk st =
     (if ls_finished st then Inl WriteAfterFinish
      else write_loop parse (ls_input st) chunk 0 (st\<lparr>ls_input := ls_input st + length chunk\<rparr>))"

record log_scan =
  lg_meta :: stored_header
  lg_events :: "json list"
  lg_committed :: nat

definition scanner_finish :: "scanner \<Rightarrow> log_scan \<times> scanner" where
  "scanner_finish st = (\<lparr>lg_meta = ls_meta st, lg_events = ls_events st, lg_committed = ls_committed st\<rparr>, st\<lparr>ls_finished := True\<rparr>)"

definition checkpoint :: "scanner \<Rightarrow> nat \<times> nat \<times> nat" where
  "checkpoint st = (ls_input st, ls_committed st, length (ls_events st))"

definition scan_stored :: "line_parser \<Rightarrow> byte list \<Rightarrow> scan_error + log_scan" where
  "scan_stored parse buffer = (case index_of buffer lf of
      None \<Rightarrow> Inl HeaderMissing
    | Some k \<Rightarrow> rbind (new_scanner parse (subarray 0 (k + 1) buffer)) (\<lambda>st.
        rbind (write_chunk parse (drop (k + 1) buffer) st) (\<lambda>st. Inr (fst (scanner_finish st)))))"


section \<open>Lines of a buffer\<close>

text \<open>The reference reading of a buffer: its complete lines, and what follows the last newline.\<close>

fun split_lines :: "byte list \<Rightarrow> byte list list \<times> byte list" where
  "split_lines [] = ([], [])"
| "split_lines (b # bs) = (case split_lines bs of (ls, t) \<Rightarrow>
     if b = lf then ([] # ls, t) else (case ls of [] \<Rightarrow> ([], b # t) | l # ls \<Rightarrow> ((b # l) # ls, t)))"

definition stored_lines :: "byte list list \<Rightarrow> byte list" where
  "stored_lines ls = concat (map (\<lambda>l. l @ [lf]) ls)"

lemma stored_lines_simps [simp]:
  "stored_lines [] = []" "stored_lines (l # ls) = l @ lf # stored_lines ls"
  "stored_lines (ls @ ms) = stored_lines ls @ stored_lines ms"
  by (simp_all add: stored_lines_def)

lemma split_no_lf: "lf \<notin> set l \<Longrightarrow> split_lines l = ([], l)"
  by (induction l) auto

lemma split_first: "lf \<notin> set l \<Longrightarrow> split_lines (l @ lf # r) = (l # fst (split_lines r), snd (split_lines r))"
  by (induction l) (auto split: prod.splits)

lemma split_stored:
  "list_all (\<lambda>l. lf \<notin> set l) ls \<Longrightarrow> split_lines (stored_lines ls @ r) = (ls @ fst (split_lines r), snd (split_lines r))"
  by (induction ls) (simp_all add: split_first)

lemma split_parts:
  "split_lines bs = (ls, t) \<Longrightarrow> bs = stored_lines ls @ t \<and> list_all (\<lambda>l. lf \<notin> set l) ls \<and> lf \<notin> set t"
proof (induction bs arbitrary: ls t)
  case (Cons b bs)
  obtain ls' t' where s: "split_lines bs = (ls', t')" by fastforce
  with Cons.IH have "bs = stored_lines ls' @ t' \<and> list_all (\<lambda>l. lf \<notin> set l) ls' \<and> lf \<notin> set t'" .
  with Cons.prems s show ?case by (cases ls') (auto split: if_splits)
qed simp

lemma split_append:
  "split_lines (xs @ ys) = (fst (split_lines xs) @ fst (split_lines (snd (split_lines xs) @ ys)), snd (split_lines (snd (split_lines xs) @ ys)))"
proof -
  obtain ls t where s: "split_lines xs = (ls, t)" by fastforce
  from split_parts [OF s] show ?thesis by (simp add: s split_stored split_no_lf)
qed

lemma index_of_first: "index_of xs x = Some i \<longleftrightarrow> i < length xs \<and> xs ! i = x \<and> x \<notin> set (take i xs)"
proof (induction xs arbitrary: i)
  case (Cons y ys)
  then show ?case by (cases i) auto
qed simp

section \<open>Scanning line by line\<close>

fun scan_lines :: "line_parser \<Rightarrow> nat \<Rightarrow> byte list list \<Rightarrow> scanner \<Rightarrow> scan_error + scanner" where
  "scan_lines parse start [] st = Inr st"
| "scan_lines parse start (l # ls) st =
     rbind (consume_event_line parse l (start + length l + 1) st) (scan_lines parse (start + length l + 1) ls)"

lemma scan_lines_append:
  "scan_lines parse start (ls @ ms) st =
     rbind (scan_lines parse start ls st) (scan_lines parse (start + length (stored_lines ls)) ms)"
proof (induction ls arbitrary: start st)
  case (Cons l ls)
  show ?case by (cases "consume_event_line parse l (start + length l + 1) st") (simp_all add: Cons.IH algebra_simps)
qed simp

definition unread :: "scanner \<Rightarrow> byte list" where
  "unread st = concat (ls_fragments st)"

definition bare :: "scanner \<Rightarrow> scanner" where
  "bare st = st\<lparr>ls_fragments := [], ls_fragment_bytes := 0, ls_input := 0\<rparr>"

definition fragments_ok :: "scanner \<Rightarrow> bool" where
  "fragments_ok st \<longleftrightarrow> ls_fragment_bytes st = length (unread st) \<and> [] \<notin> set (ls_fragments st) \<and> lf \<notin> set (unread st) \<and>
     length (unread st) \<le> ls_input st"

lemma close_line_spec:
  assumes "fragments_ok st"
  shows "close_line l st = (unread st @ l, st\<lparr>ls_fragments := [], ls_fragment_bytes := 0\<rparr>)"
proof (cases "ls_fragments st = []")
  case True
  then show ?thesis using assms by (simp add: close_line_def unread_def fragments_ok_def)
next
  case False
  then show ?thesis using assms by (auto simp: close_line_def unread_def fragments_ok_def buffer_concat_def Let_def)
qed

text \<open>A consumed line leaves the buffering of the scanner alone and does not depend on it.\<close>

definition same_buffers :: "scanner \<Rightarrow> scanner \<Rightarrow> bool" where
  "same_buffers st st' \<longleftrightarrow> ls_fragments st' = ls_fragments st \<and> ls_fragment_bytes st' = ls_fragment_bytes st \<and>
     ls_input st' = ls_input st \<and> ls_finished st' = ls_finished st \<and> ls_meta st' = ls_meta st"

lemma take_row_buffers:
  "take_row decoded k end_byte es (bare st) = map_sum id bare (take_row decoded k end_byte es st)"
  "take_row decoded k end_byte es st = Inr st' \<Longrightarrow> same_buffers st st'"
proof (induction es arbitrary: st)
  case (Cons e es)
  have b: "(bare st)\<lparr>ls_events := v\<rparr> = bare (st\<lparr>ls_events := v\<rparr>)" "ls_events (bare st) = ls_events st" "ls_line (bare st) = ls_line st"
    "(bare st)\<lparr>ls_events := v, ls_issue := i\<rparr> = bare (st\<lparr>ls_events := v, ls_issue := i\<rparr>)" "(bare st)\<lparr>ls_issue := i\<rparr> = bare (st\<lparr>ls_issue := i\<rparr>)" for v i st
    by (simp_all add: bare_def)
  { case 1
    show ?case by (cases "some_turn_end decoded") (simp_all add: b Cons.IH(1) Let_def)
  next
    case 2
    then show ?case using Cons.IH(2) [of "st\<lparr>ls_events := ls_events st @ [e]\<rparr>"]
      by (auto simp: Let_def same_buffers_def rbind_Inr_iff split: if_splits)
  }
qed (auto simp: bare_def same_buffers_def)

lemma consume_line_buffers:
  "consume_event_line parse l end_byte (bare st) = map_sum id bare (consume_event_line parse l end_byte st)"
proof -
  have b: "(bare st)\<lparr>ls_line := n\<rparr> = bare (st\<lparr>ls_line := n\<rparr>)" "(bare st)\<lparr>ls_issue := i\<rparr> = bare (st\<lparr>ls_issue := i\<rparr>)"
    "ls_line (bare st) = ls_line st" "ls_issue (bare st) = ls_issue st" "ls_events (bare st) = ls_events st" for n i st
    by (simp_all add: bare_def)
  show ?thesis unfolding consume_event_line_def Let_def b take_row_buffers(1)
    by (cases "decode_line parse l"; cases "ls_issue st"; cases "some_turn_end (the (decode_line parse l))") simp_all
qed

lemma consume_line_same: "consume_event_line parse l end_byte st = Inr st' \<Longrightarrow> same_buffers st st'"
  by (auto simp: consume_event_line_def Let_def same_buffers_def rbind_Inr_iff split: option.splits if_splits
      dest!: take_row_buffers(2))

lemma write_loop_spec:
  assumes "fragments_ok st" and "k \<le> length chunk" and "base + length (unread st) = start + k"
    and "start + length chunk \<le> ls_input st" and "split_lines (unread st @ drop k chunk) = (ls, t)"
  shows "case write_loop parse start chunk k st of
      Inl e \<Rightarrow> scan_lines parse base ls (bare st) = Inl e
    | Inr st' \<Rightarrow> scan_lines parse base ls (bare st) = Inr (bare st') \<and> fragments_ok st' \<and> unread st' = t \<and>
        ls_input st' = ls_input st \<and> ls_finished st' = ls_finished st"
  using assms
proof (induction parse start chunk k st arbitrary: base ls t rule: write_loop.induct)
  case (1 parse start chunk k st)
  show ?case
  proof (cases "index_from lf chunk k")
    case None
    then have n: "lf \<notin> set (drop k chunk)" by (simp add: index_from_def index_of_None)
    then have "split_lines (unread st @ drop k chunk) = ([], unread st @ drop k chunk)"
      using "1.prems"(1) by (intro split_no_lf) (auto simp: fragments_ok_def)
    then show ?thesis using None n "1.prems" by (subst write_loop.simps) (auto simp: Let_def bare_def fragments_ok_def unread_def split: if_splits)
  next
    case (Some nl)
    let ?f = "subarray k nl chunk" and ?r = "drop (nl + 1) chunk"
    let ?st = "st\<lparr>ls_fragments := [], ls_fragment_bytes := 0\<rparr>"
    from Some obtain i where i: "nl = k + i" "i < length chunk - k" "drop k chunk ! i = lf" "lf \<notin> set (take i (drop k chunk))"
      by (auto simp: index_from_def index_of_first)
    have f: "?f = take i (drop k chunk)" by (simp add: subarray_def i(1) take_drop add.commute)
    then have "drop k chunk = ?f @ lf # ?r" using i id_take_nth_drop [of i "drop k chunk"] by (simp add: add.commute)
    moreover have nf: "lf \<notin> set (unread st @ ?f)" using i(4) f "1.prems"(1) by (auto simp: fragments_ok_def)
    ultimately have ls: "ls = (unread st @ ?f) # fst (split_lines ?r)" "t = snd (split_lines ?r)"
      using "1.prems"(5) split_first [OF nf, of ?r] by simp_all
    have c: "close_line ?f st = (unread st @ ?f, ?st)" using close_line_spec [OF "1.prems"(1)] .
    have lf: "length ?f = i" using i(1,2) f by simp
    have e: "base + length (unread st @ ?f) + 1 = start + nl + 1" using "1.prems"(3) lf i(1) by simp
    have w: "write_loop parse start chunk k st =
        rbind (consume_event_line parse (unread st @ ?f) (start + nl + 1) ?st) (write_loop parse start chunk (nl + 1))"
      by (subst write_loop.simps) (simp add: Some c)
    show ?thesis
    proof (cases "consume_event_line parse (unread st @ ?f) (start + nl + 1) ?st")
      case (Inl err)
      then show ?thesis using w e consume_line_buffers [of parse "unread st @ ?f" "start + nl + 1" ?st]
        by (simp add: ls bare_def)
    next
      case (Inr st1)
      have s1: "same_buffers ?st st1" using consume_line_same [OF Inr] .
      then have ok1: "fragments_ok st1" "unread st1 = []" by (auto simp: same_buffers_def fragments_ok_def unread_def)
      have "scan_lines parse base ls (bare st) = scan_lines parse (start + nl + 1) (fst (split_lines ?r)) (bare st1)"
        using e consume_line_buffers [of parse "unread st @ ?f" "start + nl + 1" ?st] Inr by (simp add: ls bare_def)
      moreover have "case write_loop parse start chunk (nl + 1) st1 of
          Inl e \<Rightarrow> scan_lines parse (start + nl + 1) (fst (split_lines ?r)) (bare st1) = Inl e
        | Inr st' \<Rightarrow> scan_lines parse (start + nl + 1) (fst (split_lines ?r)) (bare st1) = Inr (bare st') \<and> fragments_ok st' \<and>
            unread st' = t \<and> ls_input st' = ls_input st1 \<and> ls_finished st' = ls_finished st1"
        using "1.IH" [OF Some c [symmetric] refl, of st1] ok1 i(1,2) s1 "1.prems"(4) Inr c
        by (simp add: ls(2) same_buffers_def)
      ultimately show ?thesis using w Inr s1 by (simp add: same_buffers_def split: sum.splits)
    qed
  qed
qed

section \<open>Scanning chunk by chunk\<close>

fun feed_chunks :: "line_parser \<Rightarrow> byte list list \<Rightarrow> scanner \<Rightarrow> scan_error + scanner" where
  "feed_chunks parse [] st = Inr st"
| "feed_chunks parse (c # cs) st = rbind (write_chunk parse c st) (feed_chunks parse cs)"

abbreviation scanned :: "scanner \<Rightarrow> scan_error + log_scan" where
  "scanned st \<equiv> Inr (fst (scanner_finish st))"

lemma finish_bare [simp]: "fst (scanner_finish (bare st)) = fst (scanner_finish st)"
  by (simp add: scanner_finish_def bare_def)

lemma write_chunk_spec:
  assumes "fragments_ok st" and "\<not> ls_finished st" and "base + length (unread st) = ls_input st"
    and "split_lines (unread st @ chunk) = (ls, t)"
  shows "case write_chunk parse chunk st of
      Inl e \<Rightarrow> scan_lines parse base ls (bare st) = Inl e
    | Inr st' \<Rightarrow> scan_lines parse base ls (bare st) = Inr (bare st') \<and> fragments_ok st' \<and> unread st' = t \<and>
        ls_input st' = ls_input st + length chunk \<and> \<not> ls_finished st'"
proof -
  let ?st = "st\<lparr>ls_input := ls_input st + length chunk\<rparr>"
  have "fragments_ok ?st" "unread ?st = unread st" "bare ?st = bare st" using assms(1) by (auto simp: fragments_ok_def unread_def bare_def)
  with write_loop_spec [of ?st 0 chunk base "ls_input st" ls t parse] assms show ?thesis
    by (simp add: write_chunk_def split: sum.splits)
qed

lemma feed_spec:
  assumes "fragments_ok st" and "\<not> ls_finished st" and "base + length (unread st) = ls_input st"
  shows "rbind (feed_chunks parse cs st) scanned = rbind (scan_lines parse base (fst (split_lines (unread st @ concat cs))) (bare st)) scanned"
  using assms
proof (induction cs arbitrary: st base)
  case Nil
  then show ?case by (simp add: split_no_lf fragments_ok_def)
next
  case (Cons c cs)
  obtain ls1 t1 where s1: "split_lines (unread st @ c) = (ls1, t1)" by fastforce
  have len: "length (unread st @ c) = length (stored_lines ls1) + length t1" using split_parts [OF s1] by simp
  have ls: "fst (split_lines (unread st @ concat (c # cs))) = ls1 @ fst (split_lines (t1 @ concat cs))"
    using split_append [of "unread st @ c" "concat cs"] by (simp add: s1)
  note w = write_chunk_spec [OF Cons.prems s1, of parse]
  show ?case
  proof (cases "write_chunk parse c st")
    case (Inl e)
    with w show ?thesis by (simp add: ls scan_lines_append del: concat.simps)
  next
    case (Inr st1)
    with w have st1: "scan_lines parse base ls1 (bare st) = Inr (bare st1)" "fragments_ok st1" "unread st1 = t1"
      "ls_input st1 = ls_input st + length c" "\<not> ls_finished st1" by simp_all
    have "base + length (stored_lines ls1) + length (unread st1) = ls_input st1" using st1(3,4) len Cons.prems(3) by simp
    from Cons.IH [OF st1(2,5) this] show ?thesis
      using Inr st1(1,3) by (simp add: ls scan_lines_append del: concat.simps)
  qed
qed

definition start_scanner :: "stored_header \<Rightarrow> nat \<Rightarrow> scanner" where
  "start_scanner h n = \<lparr>ls_meta = h, ls_events = [], ls_fragments = [], ls_fragment_bytes = 0, ls_input = n,
     ls_committed = n, ls_line = 0, ls_issue = None, ls_finished = False\<rparr>"

lemma start_scanner_simps [simp]:
  "fragments_ok (start_scanner h n)" "\<not> ls_finished (start_scanner h n)" "unread (start_scanner h n) = []"
  "ls_input (start_scanner h n) = n" "ls_events (start_scanner h n) = []" "ls_committed (start_scanner h n) = n"
  "ls_issue (start_scanner h n) = None" "ls_meta (start_scanner h n) = h" 
  by (simp_all add: start_scanner_def fragments_ok_def unread_def)

lemma new_scanner_start: "new_scanner parse record = rbind (parse_header_record parse record) (\<lambda>h. Inr (start_scanner h (length record)))"
  by (simp add: new_scanner_def start_scanner_def)

lemma feed_new:
  "rbind (rbind (new_scanner parse record) (feed_chunks parse cs)) scanned =
     rbind (parse_header_record parse record) (\<lambda>h.
       rbind (scan_lines parse (length record) (fst (split_lines (concat cs))) (bare (start_scanner h (length record)))) scanned)"
  using feed_spec [of "start_scanner _ (length record)" "length record" parse cs]
  by (cases "parse_header_record parse record") (simp_all add: new_scanner_start)

lemma scan_stored_feed:
  assumes "lf \<notin> set x"
  shows "scan_stored parse (x @ lf # body) = rbind (rbind (new_scanner parse (x @ [lf])) (feed_chunks parse [body])) scanned"
proof -
  have i: "index_of (x @ lf # body) lf = Some (length x)" using assms by (simp add: index_of_first)
  have "rbind (write_chunk parse body st) scanned = rbind (feed_chunks parse [body] st) scanned" for st
    by (cases "write_chunk parse body st") simp_all
  then show ?thesis by (cases "new_scanner parse (x @ [lf])") (simp_all add: scan_stored_def i subarray_def)
qed

lemma scan_stored_lines:
  assumes "lf \<notin> set x"
  shows "scan_stored parse (x @ lf # body) = rbind (parse_header_record parse (x @ [lf])) (\<lambda>h.
    rbind (scan_lines parse (length x + 1) (fst (split_lines body)) (bare (start_scanner h (length x + 1)))) scanned)"
  unfolding scan_stored_feed [OF assms] feed_new by simp

text \<open>
  However the bytes of a log arrive, in chunks that split lines anywhere, the scanner ends as a scan of the whole
  buffer does: with the same header, events and committed offset, or with the same error.
\<close>

theorem scanning_is_chunk_independent:
  assumes "lf \<notin> set x"
  shows "rbind (rbind (new_scanner parse (x @ [lf])) (feed_chunks parse chunks)) scanned = scan_stored parse (x @ lf # concat chunks)"
  unfolding scan_stored_lines [OF assms] feed_new by simp

section \<open>What a scan keeps\<close>

fun in_order :: "nat \<Rightarrow> json list \<Rightarrow> bool" where
  "in_order n [] = True"
| "in_order n (e # es) = (jget e ''seq'' = Some (JInt (int n)) \<and> in_order (Suc n) es)"

lemma in_order_append: "in_order n (es @ fs) \<longleftrightarrow> in_order n es \<and> in_order (n + length es) fs"
  by (induction es arbitrary: n) auto

text \<open>The rows of a log as far as they continue each other: the reference for the preserved prefix.\<close>

fun readable_rows :: "line_parser \<Rightarrow> nat \<Rightarrow> byte list list \<Rightarrow> json list list" where
  "readable_rows parse n [] = []"
| "readable_rows parse n (l # ls) = (case decode_line parse l of
     Some es \<Rightarrow> if in_order n es then es # readable_rows parse (n + length es) ls else []
   | None \<Rightarrow> [])"

text \<open>A line that may be dropped: it cannot be read, or its events end no turn (and none is \<open>null\<close>).\<close>

definition droppable :: "json \<Rightarrow> bool" where
  "droppable e \<longleftrightarrow> e \<noteq> JNull \<and> jget e ''type'' \<noteq> Some (JStr ''turn/end'')"

definition droppable_line :: "line_parser \<Rightarrow> byte list \<Rightarrow> bool" where
  "droppable_line parse l = (case decode_line parse l of None \<Rightarrow> True | Some es \<Rightarrow> list_all droppable es)"

lemma some_turn_end_droppable: "some_turn_end es = Inr False \<longleftrightarrow> list_all droppable es"
  by (induction es) (auto simp: droppable_def)

text \<open>Where a row leads: on, to a stop, or to an error.\<close>

lemma take_row_on:
  "in_order (length (ls_events st)) es \<Longrightarrow>
     take_row decoded k end_byte es st = Inr (st\<lparr>ls_events := ls_events st @ es, ls_committed := end_byte\<rparr>)"
  by (induction es arbitrary: st) auto

lemma take_row_stops:
  assumes "list_all droppable decoded" and "set es \<subseteq> set decoded" and "k \<le> length (ls_events st)"
    and "\<not> in_order (length (ls_events st)) es"
  shows "\<exists>i. take_row decoded k end_byte es st = Inr (st\<lparr>ls_events := take k (ls_events st), ls_issue := Some i\<rparr>)"
  using assms(2-4)
proof (induction es arbitrary: st)
  case (Cons e es)
  then have "e \<noteq> JNull" using assms(1) by (auto simp: list_all_iff droppable_def)
  with Cons.prems Cons.IH [of "st\<lparr>ls_events := ls_events st @ [e]\<rparr>"] assms(1) show ?case
    by (cases "jget e ''seq'' = Some (JInt (int (length (ls_events st))))") (auto simp: some_turn_end_droppable [THEN iffD2])
qed simp

lemma take_row_throws:
  assumes "\<not> list_all droppable decoded" and "\<not> in_order (length (ls_events st)) es"
  shows "\<exists>e. take_row decoded k end_byte es st = Inl e"
  using assms(2)
proof (induction es arbitrary: st)
  case (Cons e es)
  have "some_turn_end decoded \<noteq> Inr False" using assms(1) some_turn_end_droppable by blast
  then have t: "\<exists>e. rbind (some_turn_end decoded) (\<lambda>ended. if ended then Inl i else r) = Inl e" for i and r :: "scan_error + scanner"
    by (cases "some_turn_end decoded") auto
  with Cons.prems Cons.IH [of "st\<lparr>ls_events := ls_events st @ [e]\<rparr>"] show ?case
    by (cases "jget e ''seq'' = Some (JInt (int (length (ls_events st))))") (simp_all add: Let_def)
qed simp

lemma scan_lines_after_issue:
  "ls_issue st \<noteq> None \<Longrightarrow>
     (if list_all (droppable_line parse) ls
      then \<exists>st'. scan_lines parse start ls st = Inr st' \<and> fst (scanner_finish st') = fst (scanner_finish st)
      else \<exists>e. scan_lines parse start ls st = Inl e)"
proof (induction ls arbitrary: start st)
  case (Cons l ls)
  then obtain i where i: "ls_issue st = Some i" by auto
  show ?case
  proof (cases "droppable_line parse l")
    case True
    then have "consume_event_line parse l (start + length l + 1) st = Inr (st\<lparr>ls_line := ls_line st + 1\<rparr>) \<or>
        consume_event_line parse l (start + length l + 1) st = Inr (st\<lparr>ls_line := ls_line st + 1, ls_issue := Some i\<rparr>)"
      by (auto simp: droppable_line_def consume_event_line_def i some_turn_end_droppable [THEN iffD2] split: option.splits)
    then show ?thesis
      using True i Cons.IH [of "st\<lparr>ls_line := ls_line st + 1\<rparr>" "start + length l + 1"]
        Cons.IH [of "st\<lparr>ls_line := ls_line st + 1, ls_issue := Some i\<rparr>" "start + length l + 1"]
      by (auto simp: scanner_finish_def)
  next
    case False
    then obtain es where es: "decode_line parse l = Some es" "\<not> list_all droppable es"
      by (auto simp: droppable_line_def split: option.splits)
    then have "some_turn_end es \<noteq> Inr False" using some_turn_end_droppable by blast
    then have "\<exists>e. consume_event_line parse l (start + length l + 1) st = Inl e"
      by (cases "some_turn_end es") (auto simp: consume_event_line_def es(1) i)
    then show ?thesis using False by auto
  qed
qed simp

lemma scan_lines_spec:
  assumes "ls_issue st = None"
  shows "let rows = readable_rows parse (length (ls_events st)) ls in
    if list_all (droppable_line parse) (drop (length rows) ls)
    then \<exists>st'. scan_lines parse start ls st = Inr st' \<and> ls_events st' = ls_events st @ concat rows \<and>
      ls_committed st' = (if rows = [] then ls_committed st else start + length (stored_lines (take (length rows) ls))) \<and>
      ls_meta st' = ls_meta st
    else \<exists>e. scan_lines parse start ls st = Inl e"
  using assms
proof (induction ls arbitrary: start st)
  case (Cons l ls)
  let ?e = "start + length l + 1" and ?st = "st\<lparr>ls_line := ls_line st + 1\<rparr>"
  show ?case
  proof (cases "\<exists>es. decode_line parse l = Some es \<and> in_order (length (ls_events st)) es")
    case True
    then obtain es where es: "decode_line parse l = Some es" "in_order (length (ls_events st)) es" by blast
    let ?st1 = "?st\<lparr>ls_events := ls_events st @ es, ls_committed := ?e\<rparr>"
    have "consume_event_line parse l ?e st = Inr ?st1"
      using take_row_on [of ?st es es "length (ls_events st)" ?e] es Cons.prems(1) by (simp add: consume_event_line_def)
    with Cons.IH [of ?st1 ?e] Cons.prems(1) es show ?thesis by (auto simp: Let_def algebra_simps split: if_splits)
  next
    case False
    then have rows: "readable_rows parse (length (ls_events st)) (l # ls) = []" by (auto split: option.splits)
    show ?thesis
    proof (cases "droppable_line parse l")
      case True
      have "\<exists>i st1. consume_event_line parse l ?e st = Inr st1 \<and> ls_issue st1 = Some i \<and> fst (scanner_finish st1) = fst (scanner_finish st)"
      proof (cases "decode_line parse l")
        case None
        then show ?thesis using Cons.prems(1) by (simp add: consume_event_line_def scanner_finish_def)
      next
        case (Some es)
        with True False take_row_stops [of es es "length (ls_events st)" ?st ?e] show ?thesis
          using Cons.prems(1) by (auto simp: droppable_line_def consume_event_line_def scanner_finish_def)
      qed
      then obtain i st1 where st1: "consume_event_line parse l ?e st = Inr st1" "ls_issue st1 = Some i"
        "fst (scanner_finish st1) = fst (scanner_finish st)" by blast
      with True scan_lines_after_issue [of st1 parse ls ?e] show ?thesis
        unfolding rows Let_def by (auto simp: scanner_finish_def)
    next
      case False': False
      then obtain es where es: "decode_line parse l = Some es" "\<not> list_all droppable es"
        by (auto simp: droppable_line_def split: option.splits)
      with False take_row_throws [of es ?st es "length (ls_events st)" ?e] have "\<exists>e. consume_event_line parse l ?e st = Inl e"
        using Cons.prems(1) by (simp add: consume_event_line_def)
      with False' show ?thesis unfolding rows Let_def by auto
    qed
  qed
qed simp

lemma scan_never_drops:
  assumes "lf \<notin> set x" and header: "parse_header_record parse (x @ [lf]) = Inr h" and s: "split_lines body = (ls, t)"
  shows "let rows = readable_rows parse 0 ls in in_order 0 (concat rows) \<and>
    (if list_all (droppable_line parse) (drop (length rows) ls)
     then scan_stored parse (x @ lf # body) = Inr \<lparr>lg_meta = h, lg_events = concat rows,
       lg_committed = length (x @ [lf]) + length (stored_lines (take (length rows) ls))\<rparr>
     else \<exists>e. scan_stored parse (x @ lf # body) = Inl e)"
proof -
  have i: "in_order n (concat (readable_rows parse n ms))" for n and ms :: "byte list list"
    by (induction ms arbitrary: n) (auto simp: in_order_append split: option.split)
  let ?st = "bare (start_scanner h (length x + 1))"
  have st: "ls_issue ?st = None" "ls_events ?st = []" "ls_committed ?st = length x + 1" "ls_meta ?st = h"
    by (simp_all add: bare_def start_scanner_def)
  show ?thesis
    using scan_lines_spec [OF st(1), of parse ls "length x + 1", unfolded st Let_def] i [of 0 ls] header s
    unfolding scan_stored_lines [OF assms(1)] Let_def by (auto simp: scanner_finish_def split: if_splits)
qed

text \<open>
  C8: Which logs can be read and what is read from them: the rows that continue each other from the first on are kept, and
  the log is committed up to the last of them; the scan throws exactly when a line behind them holds the end of a turn (or
  \<open>null\<close>), so a finished turn is never dropped.
\<close>

theorem scan_never_drops_a_finished_turn:
  assumes "lf \<notin> set x" and header: "parse_header_record parse (x @ [lf]) = Inr h" and s: "split_lines body = (ls, t)"
  shows "let rows = readable_rows parse 0 ls in in_order 0 (concat rows) \<and>
    (if list_all (droppable_line parse) (drop (length rows) ls)
     then scan_stored parse (x @ lf # body) = Inr \<lparr>lg_meta = h, lg_events = concat rows,
       lg_committed = length (x @ [lf]) + length (stored_lines (take (length rows) ls))\<rparr>
     else \<exists>e. scan_stored parse (x @ lf # body) = Inl e)"
  using assms by (rule scan_never_drops)

section \<open>A written log\<close>

definition log_body :: "(json \<Rightarrow> byte list) \<Rightarrow> (json list \<times> bool) list \<Rightarrow> byte list" where
  "log_body stringify batches = concat (map (\<lambda>(events, pack). event_lines stringify events pack @ [lf]) batches)"

definition stored_records :: "(json list \<times> bool) list \<Rightarrow> json list" where
  "stored_records batches = concat (map (\<lambda>(events, pack). if pack then pack_chunk_runs events else events) batches)"

definition storable :: "line_parser \<Rightarrow> (json \<Rightarrow> byte list) \<Rightarrow> (json list \<times> bool) list \<Rightarrow> bool" where
  "storable parse stringify batches \<longleftrightarrow>
     list_all (\<lambda>(events, pack). events \<noteq> [] \<and> list_all (\<lambda>e. json_wf e \<and> \<not> row_tagged e) events) batches \<and>
     list_all (\<lambda>v. parse (stringify v) = Some v \<and> lf \<notin> set (stringify v)) (stored_records batches)"

lemma join_stored: "ls \<noteq> [] \<Longrightarrow> join_lines ls @ [lf] = stored_lines ls"
  by (induction ls rule: join_lines.induct) simp_all

lemma stored_records_simps [simp]:
  "stored_records [] = []"
  "stored_records ((events, pack) # bs) = (if pack then pack_chunk_runs events else events) @ stored_records bs"
  "stored_records (bs @ cs) = stored_records bs @ stored_records cs"
  by (simp_all add: stored_records_def)

lemma storable_append: "storable parse stringify (bs @ cs) \<longleftrightarrow> storable parse stringify bs \<and> storable parse stringify cs"
  by (auto simp: storable_def)

lemma storable_decodes:
  "storable parse stringify batches \<Longrightarrow>
     \<exists>ds. decode_all (stored_records batches) = Inr ds \<and> list_all2 json_deep_eq (concat (map fst batches)) ds \<and>
       log_body stringify batches = stored_lines (map stringify (stored_records batches))"
proof (induction batches)
  case (Cons b bs)
  obtain es pack where b: "b = (es, pack)" by fastforce
  let ?rs = "if pack then pack_chunk_runs es else es"
  from Cons.prems have wf: "es \<noteq> []" "\<forall>e \<in> set es. json_wf e \<and> \<not> row_tagged e" and st: "storable parse stringify bs"
    by (auto simp: storable_def b list_all_iff)
  from Cons.IH [OF st] obtain ds where ds: "decode_all (stored_records bs) = Inr ds" "list_all2 json_deep_eq (concat (map fst bs)) ds"
    "log_body stringify bs = stored_lines (map stringify (stored_records bs))" by blast
  have "\<exists>ds. decode_all ?rs = Inr ds \<and> list_all2 json_deep_eq es ds"
    using pack_decodes [OF wf(2)] decode_all_plain [of es] wf(2) by (auto simp: list_all2_same json_deep_eq_refl)
  then obtain ds1 where d1: "decode_all ?rs = Inr ds1" "list_all2 json_deep_eq es ds1" by blast
  then have "?rs \<noteq> []" using wf(1) by auto
  then have "event_lines stringify es pack @ [lf] = stored_lines (map stringify ?rs)"
    using join_stored [of "map stringify ?rs"] by (simp add: event_lines_def)
  then show ?case using d1 ds by (auto simp: b log_body_def decode_all_append intro: list_all2_appendI)
qed (simp add: log_body_def)

lemma deep_eq_seq: "json_deep_eq e d \<Longrightarrow> jget e k = Some (JNum q) \<Longrightarrow> jget d k = Some (JNum q)"
  by (cases e; cases d) (fastforce simp: list_all_iff dest: map_of_SomeD split: option.splits)+

lemma deep_eq_in_order: "list_all2 json_deep_eq es ds \<Longrightarrow> in_order n es \<Longrightarrow> in_order n ds"
  by (induction es ds arbitrary: n rule: list_all2_induct) (auto intro: deep_eq_seq)

text \<open>Every row of a written log is read.\<close>

lemma written_rows:
  "decode_all rs = Inr ds \<Longrightarrow> in_order n ds \<Longrightarrow> list_all (\<lambda>v. parse (stringify v) = Some v) rs \<Longrightarrow>
     concat (readable_rows parse n (map stringify rs)) = ds \<and> length (readable_rows parse n (map stringify rs)) = length rs"
proof (induction rs arbitrary: n ds)
  case (Cons v rs)
  then obtain es fs where d: "decode_storage_record v = Inr es" "decode_all rs = Inr fs" "ds = es @ fs"
    by (auto simp: rbind_Inr_iff)
  with Cons.IH [of fs "n + length es"] Cons.prems show ?case by (simp add: decode_line_def in_order_append)
qed simp

lemma scan_written:
  assumes "lf \<notin> set x" and "parse_header_record parse (x @ [lf]) = Inr h"
    and "decode_all rs = Inr ds" and "in_order 0 ds"
    and laws: "list_all (\<lambda>v. parse (stringify v) = Some v \<and> lf \<notin> set (stringify v)) rs" and t: "lf \<notin> set t"
  shows "scan_stored parse (x @ lf # stored_lines (map stringify rs) @ t) = Inr \<lparr>lg_meta = h, lg_events = ds,
    lg_committed = length (x @ [lf]) + length (stored_lines (map stringify rs))\<rparr>"
proof -
  have "list_all (\<lambda>l. lf \<notin> set l) (map stringify rs)" using laws by (simp add: list_all_iff)
  then have s: "split_lines (stored_lines (map stringify rs) @ t) = (map stringify rs, t)"
    by (simp add: split_stored split_no_lf [OF t])
  have "concat (readable_rows parse 0 (map stringify rs)) = ds" "length (readable_rows parse 0 (map stringify rs)) = length rs"
    using written_rows [OF assms(3,4), of parse stringify] laws by (auto simp: list_all_iff)
  with scan_never_drops [OF assms(1,2) s] show ?thesis by (simp add: Let_def)
qed

lemma torn_lines:
  "list_all (\<lambda>l. lf \<notin> set l) ls \<Longrightarrow> \<exists>k t. take n (stored_lines ls) = stored_lines (take k ls) @ t \<and> lf \<notin> set t \<and>
     (length (stored_lines ls) \<le> n \<longrightarrow> k = length ls \<and> t = [])"
proof (induction ls arbitrary: n)
  case (Cons l ls)
  show ?case
  proof (cases "n \<le> length l")
    case True
    then show ?thesis using Cons.prems by (intro exI [of _ 0] exI [of _ "take n l"]) (auto dest: in_set_takeD)
  next
    case False
    then obtain m where m: "n = Suc (length l) + m" using less_eq_Suc_le le_iff_add by (metis not_le)
    from Cons.IH [of m] Cons.prems obtain k t where "take m (stored_lines ls) = stored_lines (take k ls) @ t" "lf \<notin> set t"
      "length (stored_lines ls) \<le> m \<longrightarrow> k = length ls \<and> t = []" by auto
    then show ?thesis by (intro exI [of _ "Suc k"] exI [of _ t]) (simp add: m)
  qed
qed simp

lemma seed_records:
  assumes "storable parse stringify batches" and "in_order 0 (concat (map fst batches))"
  obtains ds where "decode_all (stored_records batches) = Inr ds" and "list_all2 json_deep_eq (concat (map fst batches)) ds"
    and "in_order 0 ds" and "log_body stringify batches = stored_lines (map stringify (stored_records batches))"
  using storable_decodes [OF assms(1)] deep_eq_in_order assms(2) by blast

lemma decode_all_take:
  assumes "decode_all rs = Inr ds"
  obtains es fs where "decode_all (take k rs) = Inr es" and "ds = es @ fs"
proof -
  have "rbind (decode_all (take k rs)) (\<lambda>es. rbind (decode_all (drop k rs)) (\<lambda>fs. Inr (es @ fs))) = Inr ds"
    using assms decode_all_append by (metis append_take_drop_id)
  then show thesis using that by (auto simp: rbind_Inr_iff)
qed

text \<open>A torn log keeps the records that are complete, whatever is left of the next one.\<close>

lemma scan_torn:
  assumes "lf \<notin> set x" and "parse_header_record parse (x @ [lf]) = Inr h" and "length x < n"
    and d: "decode_all rs = Inr ds" "in_order 0 ds"
    and laws: "list_all (\<lambda>v. parse (stringify v) = Some v \<and> lf \<notin> set (stringify v)) rs"
  obtains k es t where "scan_stored parse (take n (x @ lf # stored_lines (map stringify rs))) = Inr \<lparr>lg_meta = h, lg_events = es,
      lg_committed = length (x @ [lf]) + length (stored_lines (map stringify (take k rs)))\<rparr>"
    and "decode_all (take k rs) = Inr es" and "\<exists>fs. ds = es @ fs" and "lf \<notin> set t"
    and "take n (x @ lf # stored_lines (map stringify rs)) = x @ lf # stored_lines (map stringify (take k rs)) @ t"
    and "length (x @ lf # stored_lines (map stringify rs)) \<le> n \<longrightarrow> k = length rs \<and> t = []"
proof -
  obtain m where m: "n = Suc (length x) + m" using assms(3) less_eq_Suc_le le_iff_add by metis
  have "list_all (\<lambda>l. lf \<notin> set l) (map stringify rs)" using laws by (simp add: list_all_iff)
  then obtain k t where k: "take m (stored_lines (map stringify rs)) = stored_lines (take k (map stringify rs)) @ t"
    "lf \<notin> set t" "length (stored_lines (map stringify rs)) \<le> m \<longrightarrow> k = length (map stringify rs) \<and> t = []"
    using torn_lines [of "map stringify rs" m] by blast
  obtain es fs where es: "decode_all (take k rs) = Inr es" "ds = es @ fs" using d(1) by (rule decode_all_take)
  have "in_order 0 es" using d(2) es(2) by (simp add: in_order_append)
  moreover have "list_all (\<lambda>v. parse (stringify v) = Some v \<and> lf \<notin> set (stringify v)) (take k rs)"
    using laws by (auto simp: list_all_iff dest: in_set_takeD)
  ultimately have "scan_stored parse (x @ lf # stored_lines (map stringify (take k rs)) @ t) = Inr \<lparr>lg_meta = h, lg_events = es,
      lg_committed = length (x @ [lf]) + length (stored_lines (map stringify (take k rs)))\<rparr>"
    using scan_written [OF assms(1,2) es(1) _ _ k(2)] by blast
  then show thesis using k es that [of es k t] by (simp add: m take_map)
qed

text \<open>
  C7: A log torn anywhere behind its header is read back as a prefix of the events written, each equal up to the order of
  object keys; everything before the last newline that survived is kept, and an untorn log is read back whole.
\<close>

theorem torn_log_keeps_its_complete_records:
  assumes "lf \<notin> set x" and "parse_header_record parse (x @ [lf]) = Inr h" and "length x < n"
    and "storable parse stringify batches" and "in_order 0 (concat (map fst batches))"
  shows "\<exists>r. scan_stored parse (take n (x @ lf # log_body stringify batches)) = Inr r \<and> lg_meta r = h \<and>
    list_all2 json_deep_eq (take (length (lg_events r)) (concat (map fst batches))) (lg_events r) \<and>
    lf \<notin> set (drop (lg_committed r) (take n (x @ lf # log_body stringify batches))) \<and>
    (length (x @ lf # log_body stringify batches) \<le> n \<longrightarrow> length (lg_events r) = length (concat (map fst batches)))"
proof -
  obtain ds where ds: "decode_all (stored_records batches) = Inr ds" "list_all2 json_deep_eq (concat (map fst batches)) ds" "in_order 0 ds"
    "log_body stringify batches = stored_lines (map stringify (stored_records batches))"
    using assms(4,5) by (rule seed_records)
  have laws: "list_all (\<lambda>v. parse (stringify v) = Some v \<and> lf \<notin> set (stringify v)) (stored_records batches)"
    using assms(4) by (simp add: storable_def)
  show ?thesis unfolding ds(4) using assms(1-3) ds(1,3) laws
  proof (rule scan_torn, goal_cases)
    case (1 k es t)
    then obtain fs where "ds = es @ fs" by blast
    then have "list_all2 json_deep_eq (take (length es) (concat (map fst batches))) es"
      using ds(2) by (auto simp: list_all2_append2 dest: list_all2_lengthD)
    moreover have "length (x @ lf # stored_lines (map stringify (stored_records batches))) \<le> n \<Longrightarrow> length es = length (concat (map fst batches))"
      using 1 ds(1) list_all2_lengthD [OF ds(2)] by auto
    ultimately show ?case using 1 by simp
  qed
qed

text \<open>
  C40: A torn log that is cut to its committed length and appended to goes on as if the lost records had never been
  written: it is read back as the events that were kept and the new ones behind them.
\<close>

theorem repaired_log_continues:
  assumes "lf \<notin> set x" and "parse_header_record parse (x @ [lf]) = Inr h" and "length x < n"
    and "storable parse stringify batches" and "in_order 0 (concat (map fst batches))"
    and r: "scan_stored parse (take n (x @ lf # log_body stringify batches)) = Inr r"
    and more: "storable parse stringify later" "in_order (length (lg_events r)) (concat (map fst later))"
  shows "\<exists>r'. scan_stored parse (take (lg_committed r) (x @ lf # log_body stringify batches) @ log_body stringify later) = Inr r' \<and>
    list_all2 json_deep_eq (take (length (lg_events r)) (concat (map fst batches)) @ concat (map fst later)) (lg_events r')"
proof -
  obtain ds where ds: "decode_all (stored_records batches) = Inr ds" "list_all2 json_deep_eq (concat (map fst batches)) ds" "in_order 0 ds"
    "log_body stringify batches = stored_lines (map stringify (stored_records batches))"
    using assms(4,5) by (rule seed_records)
  obtain fs where fs: "decode_all (stored_records later) = Inr fs" "list_all2 json_deep_eq (concat (map fst later)) fs"
    "log_body stringify later = stored_lines (map stringify (stored_records later))"
    using storable_decodes [OF more(1)] by blast
  have laws: "list_all (\<lambda>v. parse (stringify v) = Some v \<and> lf \<notin> set (stringify v)) (stored_records batches)"
    "list_all (\<lambda>v. parse (stringify v) = Some v \<and> lf \<notin> set (stringify v)) (stored_records later)"
    using assms(4) more(1) by (simp_all add: storable_def)
  show ?thesis unfolding ds(4) fs(3) using assms(1-3) ds(1,3) laws(1)
  proof (rule scan_torn, goal_cases)
    case (1 k es t)
    let ?rs = "take k (stored_records batches)" and ?log = "x @ lf # stored_lines (map stringify (stored_records batches))"
    from 1 r ds(4) have r': "lg_events r = es" "lg_committed r = length (x @ lf # stored_lines (map stringify ?rs))" by auto
    have "stored_lines (map stringify (stored_records batches)) =
        stored_lines (map stringify ?rs) @ stored_lines (map stringify (drop k (stored_records batches)))"
      by (metis append_take_drop_id map_append stored_lines_simps(3))
    then have cut: "take (lg_committed r) ?log = x @ lf # stored_lines (map stringify ?rs)" by (simp add: r'(2))
    from 1 obtain gs where gs: "ds = es @ gs" by blast
    have "list_all2 json_deep_eq (take (length es) (concat (map fst batches))) es"
      using ds(2) gs by (auto simp: list_all2_append2 dest: list_all2_lengthD)
    moreover have "in_order 0 (es @ fs)"
      using ds(3) gs more(2) deep_eq_in_order [OF fs(2)] by (simp add: in_order_append r')
    moreover have "list_all (\<lambda>v. parse (stringify v) = Some v \<and> lf \<notin> set (stringify v)) (?rs @ stored_records later)"
      using laws by (auto simp: list_all_iff dest: in_set_takeD)
    ultimately show ?case
      using scan_written [OF assms(1,2), of "?rs @ stored_records later" "es @ fs" stringify "[]"] 1(2) fs(1,2)
      unfolding cut r'(1) by (auto simp: decode_all_append intro: list_all2_appendI)
  qed
qed

section \<open>Path segments are safe\<close>

text \<open>A decoder of escaped segments, to state that encoding loses nothing.\<close>

definition hex_value :: "char \<Rightarrow> nat" where
  "hex_value c = (if c \<le> CHR ''9'' then of_char c - 48 else of_char c - 55)"

function decode_segment :: "string \<Rightarrow> code_unit list" where
  "decode_segment [] = []"
| "decode_segment (c # cs) =
     (if c = CHR ''~'' then of_nat (foldl (\<lambda>n d. n * 16 + hex_value d) 0 (take 4 cs)) # decode_segment (drop 4 cs)
      else of_nat (of_char c) # decode_segment cs)"
  by pat_completeness auto
termination by (relation "measure length") auto

lemma hex_char_value: "n < 16 \<Longrightarrow> hex_value (hex_char n) = n"
proof -
  assume "n < 16"
  moreover have "list_all (\<lambda>n. hex_value (hex_char n) = n) [0..<16]" by code_simp
  ultimately show ?thesis by (simp add: list_all_iff)
qed

lemma hex_char_segment: "n < 16 \<Longrightarrow> segment_char (hex_char n)"
proof -
  assume "n < 16"
  moreover have "list_all (\<lambda>n. segment_char (hex_char n)) [0..<16]" by code_simp
  ultimately show ?thesis by (simp add: list_all_iff)
qed

lemma hex4_decodes: "length (hex4 u) = 4" "(of_nat (foldl (\<lambda>n d. n * 16 + hex_value d) 0 (hex4 u)) :: code_unit) = u"
proof -
  have u: "unat u < 65536" using unsigned_less [of u, where ?'a = nat] by simp
  then have "unat u div 4096 mod 16 = unat u div 256 div 16" by (simp add: div_mult2_eq [symmetric] less_mult_imp_div_less)
  moreover have "unat u div 256 = unat u div 16 div 16" by (simp add: div_mult2_eq [symmetric])
  ultimately have "((unat u div 4096 mod 16 * 16 + unat u div 256 mod 16) * 16 + unat u div 16 mod 16) * 16 + unat u mod 16 = unat u"
    by (simp only: div_mult_mod_eq)
  then have "foldl (\<lambda>n d. n * 16 + hex_value d) 0 (hex4 u) = unat u"
    using u by (simp add: hex4_def hex_char_value less_mult_imp_div_less)
  then show "(of_nat (foldl (\<lambda>n d. n * 16 + hex_value d) 0 (hex4 u)) :: code_unit) = u" by simp
qed (simp add: hex4_def)

lemma plain_unit_char: "plain_unit u \<Longrightarrow> of_nat (of_char (char_of (unat u) :: char)) = u \<and> char_of (unat u) \<noteq> CHR ''~'' \<and> segment_char (char_of (unat u))"
  by (auto simp: plain_unit_def segment_char_def of_char_of)

lemma decode_escape: "decode_segment (escape_unit u @ r) = u # decode_segment r"
  using plain_unit_char [of u] hex4_decodes [of u] by (simp add: escape_unit_def)

lemma decode_encoded: "encode_segment us = Inr s \<Longrightarrow> decode_segment s = us"
proof -
  have "decode_segment (concat (map escape_unit us)) = us" by (induction us) (simp_all add: decode_escape)
  moreover have "decode_segment ''~002E'' = units_of ''.''" "decode_segment ''~002E~002E'' = units_of ''..''" by code_simp+
  ultimately show "encode_segment us = Inr s \<Longrightarrow> ?thesis" by (auto simp: encode_segment_def split: if_splits)
qed

definition safe_segment :: "string \<Rightarrow> bool" where
  "safe_segment s \<longleftrightarrow> s \<noteq> [] \<and> s \<noteq> ''.'' \<and> s \<noteq> ''..'' \<and> list_all (\<lambda>c. segment_char c \<or> c = CHR ''~'') s"

abbreviation segment_text :: "string \<Rightarrow> bool" where
  "segment_text \<equiv> list_all (\<lambda>c. segment_char c \<or> c = CHR ''~'')"

lemma escape_text: "segment_text (escape_unit u)"
  by (auto simp: escape_unit_def hex4_def hex_char_segment plain_unit_char)

lemma encoded_safe:
  assumes e: "encode_segment us = Inr s"
  shows "safe_segment s"
proof -
  have t: "segment_text (concat (map escape_unit us))" by (induction us) (simp_all add: escape_text)
  have l: "segment_text ''~002E''" "segment_text ''~002E~002E''" by code_simp+
  have "us \<noteq> []" using e by (auto simp: encode_segment_def)
  moreover have d: "decode_segment s = us" using e by (rule decode_encoded)
  ultimately have "s \<noteq> []" by auto
  moreover have "s \<noteq> ''.''" "s \<noteq> ''..''"
  proof -
    have "decode_segment ''.'' = units_of ''.''" "decode_segment ''..'' = units_of ''..''" by code_simp+
    with d e show "s \<noteq> ''.''" "s \<noteq> ''..''" by (auto simp: encode_segment_def split: if_splits)
  qed
  moreover have "segment_text s" using e t l by (auto simp: encode_segment_def split: if_splits)
  ultimately show ?thesis by (simp add: safe_segment_def)
qed

lemma readable_text: "segment_text (readable_path run us)"
proof -
  have "segment_char CHR ''-''" by code_simp
  then show ?thesis by (induction us arbitrary: run) (simp_all add: escape_text)
qed

lemma project_key_safe:
  assumes "project_key us = Inr k"
  shows "safe_segment k" and "length k \<le> 255" and "k \<noteq> ''_no-cwd''"
proof -
  let ?slug = "dropWhile (\<lambda>c. c = CHR ''-'') (readable_path False us)"
  have "segment_text ?slug" using readable_text [of False us] by (auto simp: list_all_iff dest: set_dropWhileD)
  moreover have "segment_text ''root''" "segment_text ''--''" by code_simp+
  ultimately have "segment_text (take 251 (if ?slug = [] then ''root'' else ?slug))" by (auto simp: list_all_iff dest: in_set_takeD)
  moreover obtain t where t: "k = ''--'' @ t @ ''--''" "t = take 251 (if ?slug = [] then ''root'' else ?slug)"
    using assms by (simp add: project_key_def Let_def split: if_splits)
  ultimately have "segment_text t" by simp
  then show "safe_segment k" using \<open>segment_text ''--''\<close> by (simp add: safe_segment_def t(1))
  show "k \<noteq> ''_no-cwd''" by (simp add: t(1))
  have "length t \<le> 251" unfolding t(2) by simp
  then show "length k \<le> 255" by (simp add: t(1))
qed

lemma project_dir_safe:
  assumes "project_dir cwd = Inr d"
  obtains k where "d = [k]" and "safe_segment k" and "length k \<le> 255" and "k = ''_no-cwd'' \<longleftrightarrow> cwd = None"
proof -
  have "safe_segment ''_no-cwd''" by code_simp
  then show thesis using assms that project_key_safe
    by (cases cwd) (auto simp: project_dir_def rbind_Inr_iff)
qed

text \<open>
  C39: The path of a stored session stays below the root, whatever its identifier and project directory are: three
  segments of plain file-name characters, none of them \<open>.\<close> or \<open>..\<close>, the project's within the length limit of file
  systems; and two sessions of a project have different paths.
\<close>

theorem session_paths_are_safe_and_distinct:
  assumes "log_path cwd i c = Inr path"
  shows "length path = 3 \<and> list_all safe_segment path \<and> length (hd path) \<le> 255 \<and> (hd path = ''_no-cwd'' \<longleftrightarrow> cwd = None) \<and>
    (\<forall>j. log_path cwd j c = Inr path \<longrightarrow> j = i)"
proof -
  from assms obtain d s where d: "project_dir cwd = Inr d" "encode_segment i = Inr s" "path = d @ [s, ''session'' @ log_suffix c]"
    by (auto simp: log_path_def session_dir_def rbind_Inr_iff)
  obtain k where k: "d = [k]" "safe_segment k" "length k \<le> 255" "k = ''_no-cwd'' \<longleftrightarrow> cwd = None"
    using d(1) by (rule project_dir_safe)
  have "safe_segment (''session'' @ log_suffix Zstd)" "safe_segment (''session'' @ log_suffix NoCompression)" by code_simp+
  then have "safe_segment (''session'' @ log_suffix c)" by (cases c) simp_all
  moreover have "j = i" if "log_path cwd j c = Inr path" for j
    using that d k(1) decode_encoded [of i s] decode_encoded [of j s] by (auto simp: log_path_def session_dir_def rbind_Inr_iff)
  ultimately show ?thesis using d k encoded_safe [OF d(2)] by simp
qed

theorem session_paths_are_safe_and_distinct_witness:
  "log_path (Some (units_of ''/home/a'')) (units_of ''../b'') NoCompression = Inr [''--home-a--'', ''..~002Fb'', ''session.jsonl''] \<and>
   log_path (Some (units_of ''/home/a'')) (units_of ''..'') NoCompression \<noteq> Inr [''--home-a--'', ''..~002Fb'', ''session.jsonl'']"
proof -
  have p: "log_path (Some (units_of ''/home/a'')) (units_of ''../b'') NoCompression = Inr [''--home-a--'', ''..~002Fb'', ''session.jsonl'']"
    by code_simp
  moreover have "units_of ''..'' \<noteq> units_of ''../b''" by code_simp
  ultimately show ?thesis using session_paths_are_safe_and_distinct [OF p] by blast
qed

section \<open>Samples\<close>

definition sample_stored :: stored_header where
  "sample_stored = \<lparr>th_version = 0, th_id = ''s'', th_created = 5, th_cwd = None, th_parent = None, th_seed = None, th_origin = None,
     th_depth = Some 0, th_preset = None\<rparr>"

definition sample_user :: json where
  "sample_user = JObj [(''type'', JStr ''turn/end''), (''seq'', JInt 3)]"

definition sample_batches :: "(json list \<times> bool) list" where
  "sample_batches = [([sample_delta 0 ''a'', sample_delta 1 ''b'', sample_delta 2 ''c''], True), ([sample_user], False)]"

text \<open>One byte for each record of the sample log.\<close>

definition sample_bytes :: "(json \<times> byte list) list" where
  "sample_bytes = [(to_header_line sample_stored, [65]), (sample_user, [66]), (JNull, [67])]"

definition sample_stringify :: "json \<Rightarrow> byte list" where
  "sample_stringify v = (case map_of sample_bytes v of None \<Rightarrow> [70] | Some l \<Rightarrow> l)"

definition sample_parse :: line_parser where
  "sample_parse l = (if l = [70] then Some (hd (stored_records sample_batches)) else map_of (map (\<lambda>(v, l). (l, v)) sample_bytes) l)"

lemma sample_log:
  "parse_header_record sample_parse ([65] @ [lf]) = Inr sample_stored" 
  "lf \<notin> set [65 :: byte]"
  by code_simp+

lemma sample_storable: "storable sample_parse sample_stringify sample_batches" "in_order 0 (concat (map fst sample_batches))"
  "log_body sample_stringify sample_batches = [70, lf, 66, lf]"
  by code_simp+

text \<open>The log, then a line that cannot be read before the end of the turn, and a line \<open>null\<close>.\<close>

lemma sample_scans:
  "map_sum id (\<lambda>r. length (lg_events r)) (scan_stored sample_parse [65, lf, 70, lf, 66, lf]) = Inr 4"
  "length (concat (readable_rows sample_parse 0 [[70], [1]])) = 3 \<and> length (readable_rows sample_parse 0 [[70], [1]]) = 1"
  "map_sum id lg_committed (scan_stored sample_parse [65, lf, 70, lf, 66]) = Inr 4"
  "scan_stored sample_parse [65, lf, 70, lf, 1, lf, 66, lf] = Inl (Unparsable 2)"
  "scan_stored sample_parse [65, lf, 70, lf, 67, lf] = Inl NullRow"
  by code_simp+

theorem scanning_is_chunk_independent_witness:
  "map_sum id (\<lambda>r. length (lg_events r))
     (rbind (rbind (new_scanner sample_parse ([65] @ [lf])) (feed_chunks sample_parse [[70], [lf, 66], [lf]])) scanned) = Inr 4"
  using scanning_is_chunk_independent [OF sample_log(2), of sample_parse "[[70], [lf, 66], [lf]]"] sample_scans(1) by simp

theorem scan_never_drops_a_finished_turn_witness:
  "\<exists>r e. scan_stored sample_parse ([65] @ lf # [70, lf, 1, lf]) = Inr r \<and> length (lg_events r) = 3 \<and>
     scan_stored sample_parse ([65] @ lf # [70, lf, 1, lf, 66, lf]) = Inl e"
proof -
  have s: "split_lines [70, lf, 1, lf] = ([[70], [1]], [])" "split_lines [70, lf, 1, lf, 66, lf] = ([[70], [1], [66]], [])"
    by code_simp+
  have d: "list_all (droppable_line sample_parse) (drop (length (readable_rows sample_parse 0 [[70], [1]])) [[70], [1]])"
    "\<not> list_all (droppable_line sample_parse) (drop (length (readable_rows sample_parse 0 [[70], [1], [66]])) [[70], [1], [66]])"
    by code_simp+
  note spec = scan_never_drops_a_finished_turn [OF sample_log(2,1)]
  have "scan_stored sample_parse ([65] @ lf # [70, lf, 1, lf]) = Inr \<lparr>lg_meta = sample_stored,
      lg_events = concat (readable_rows sample_parse 0 [[70], [1]]), lg_committed = length ([65] @ [lf]) +
      length (stored_lines (take (length (readable_rows sample_parse 0 [[70], [1]])) [[70], [1]]))\<rparr>"
    using spec [OF s(1)] d(1) by (simp only: Let_def if_True)
  moreover have "\<exists>e. scan_stored sample_parse ([65] @ lf # [70, lf, 1, lf, 66, lf]) = Inl e"
    using spec [OF s(2)] d(2) by (simp only: Let_def if_False)
  ultimately show ?thesis using sample_scans(2) by auto
qed

theorem torn_log_keeps_its_complete_records_witness:
  "\<exists>r. scan_stored sample_parse (take 5 ([65] @ lf # log_body sample_stringify sample_batches)) = Inr r \<and>
     lf \<notin> set (drop (lg_committed r) [65, lf, 70, lf, 66])"
proof -
  have "length [65 :: byte] < 5" by simp
  from torn_log_keeps_its_complete_records [OF sample_log(2,1) this sample_storable(1,2)]
  show ?thesis by (auto simp: sample_storable(3))
qed

definition sample_later :: "(json list \<times> bool) list" where
  "sample_later = [([sample_user], True)]"

theorem repaired_log_continues_witness:
  "\<exists>r r'. scan_stored sample_parse (take 5 ([65] @ lf # log_body sample_stringify sample_batches)) = Inr r \<and>
     scan_stored sample_parse (take (lg_committed r) ([65] @ lf # log_body sample_stringify sample_batches) @ log_body sample_stringify sample_later) = Inr r' \<and>
     length (lg_events r') = 4"
proof -
  have n: "length [65 :: byte] < 5" by simp
  have "map_sum id (\<lambda>r. length (lg_events r)) (scan_stored sample_parse (take 5 ([65] @ lf # log_body sample_stringify sample_batches))) = Inr 3"
    by code_simp
  then obtain r where r: "scan_stored sample_parse (take 5 ([65] @ lf # log_body sample_stringify sample_batches)) = Inr r" "length (lg_events r) = 3"
    by (cases "scan_stored sample_parse (take 5 ([65] @ lf # log_body sample_stringify sample_batches))") auto
  have l: "storable sample_parse sample_stringify sample_later" by code_simp
  have "in_order 3 (concat (map fst sample_later))" "length (concat (map fst sample_batches)) = 4" "length (concat (map fst sample_later)) = 1"
    by code_simp+
  with repaired_log_continues [OF sample_log(2,1) n sample_storable(1,2) r(1) l] r show ?thesis
    by (auto dest!: list_all2_lengthD)
qed

text \<open>
  A complete line \<open>null\<close> is not one of the recoverable issues: reading a property of the decoded value throws outside of
  the guarded parse, even when the turn it stands in was never finished.
\<close>

lemma null_line_breaks_the_scan: "parse l = Some JNull \<Longrightarrow> consume_event_line parse l end_byte st = Inl NullRow"
  by (simp add: consume_event_line_def decode_line_def decode_storage_record_def Let_def split: option.split)

end
