(* ===== verification/Zstd_Log.thy ===== *)
theory Zstd_Log
  imports Jsonl_Format
begin

text \<open>
  Compressed session logs: a stored log is a sequence of Zstandard frames, one for the header and one for each batch. The
  structural scan that finds the frames and the torn last one (\<open>scanZstdFrames\<close> of
  \<open>packages/session/session-persistence-jsonl/src/zstd.ts\<close>) reads only frame and block headers; the reading of a log
  (\<open>readZstdPrefix\<close> of \<open>index.ts\<close>) feeds the decompressed frames to the line scanner. Decompression is a parameter:
  \<open>inflate\<close> of a complete frame, \<open>None\<close> where it throws, and \<open>inflate_prefix\<close> of a torn one, empty where it throws.
\<close>

unbundle bit_operations_syntax

section \<open>Frames\<close>

datatype frame_error = BadMagic nat | ReservedBit nat | ReservedBlock nat

record frame_scan =
  fs_frames :: "(nat \<times> nat) list"
  fs_torn :: "nat option"

definition ZSTD_MAGIC :: int where
  "ZSTD_MAGIC = 0xFD2FB528"

fun le_value :: "byte list \<Rightarrow> int" where
  "le_value [] = 0"
| "le_value (b # bs) = uint b + 256 * le_value bs"

text \<open>\<open>buffer.readUIntLE(offset, n)\<close> within the buffer\<close>

definition read_le :: "nat \<Rightarrow> byte list \<Rightarrow> nat \<Rightarrow> int" where
  "read_le n buffer offset = le_value (take n (drop offset buffer))"

text \<open>The fields of a block header.\<close>

definition last_block :: "int \<Rightarrow> bool" where
  "last_block header \<longleftrightarrow> header AND 1 \<noteq> 0"

definition block_kind :: "int \<Rightarrow> int" where
  "block_kind header = drop_bit 1 header AND 3"

definition payload_bytes :: "int \<Rightarrow> nat" where
  "payload_bytes header = (if block_kind header = 1 then 1 else nat (drop_bit 3 header))"

text \<open>The loop over the blocks of a frame: the offset behind the last block, or \<open>None\<close> at the end of the buffer.\<close>

function scan_blocks :: "byte list \<Rightarrow> nat \<Rightarrow> frame_error + nat option" where
  "scan_blocks buffer offset =
     (if length buffer - offset < 3 then Inr None
      else let header = read_le 3 buffer offset; offset = offset + 3 in
        if block_kind header = 3 then Inl (ReservedBlock (offset - 3))
        else if length buffer - offset < payload_bytes header then Inr None
        else if last_block header then Inr (Some (offset + payload_bytes header))
        else scan_blocks buffer (offset + payload_bytes header))"
  by pat_completeness auto
termination by (relation "measure (\<lambda>(buffer, offset). length buffer - offset)") auto

declare scan_blocks.simps [simp del]

text \<open>The fields of a frame descriptor, and the bytes of the frame header behind it.\<close>

definition reserved_bits :: "byte \<Rightarrow> bool" where
  "reserved_bits descriptor \<longleftrightarrow> descriptor AND 0x18 \<noteq> 0"

definition has_checksum :: "byte \<Rightarrow> bool" where
  "has_checksum descriptor \<longleftrightarrow> descriptor AND 4 \<noteq> 0"


definition header_bytes :: "byte \<Rightarrow> nat" where
  "header_bytes descriptor =
     (let content_flag = unat (drop_bit 6 descriptor); single = descriptor AND 0x20 \<noteq> 0; dictionary_flag = unat (descriptor AND 3);
        dictionary = (if dictionary_flag = 3 then 4 else dictionary_flag);
        content = (if content_flag = 0 then if single then 1 else 0 else push_bit content_flag 1)
      in (if single then 0 else 1) + dictionary + content)"

text \<open>One round of the loop over the frames: the end of the frame at \<open>start\<close>, or \<open>None\<close> when the buffer ends in it.\<close>

definition scan_frame :: "byte list \<Rightarrow> nat \<Rightarrow> frame_error + nat option" where
  "scan_frame buffer start =
     (if length buffer - start < 4 then Inr None
      else if read_le 4 buffer start \<noteq> ZSTD_MAGIC then Inl (BadMagic start)
      else let offset = start + 4 in
        if offset = length buffer then Inr None
        else let descriptor = buffer ! offset; offset = offset + 1 in
          if reserved_bits descriptor then Inl (ReservedBit (offset - 1))
          else if length buffer - offset < header_bytes descriptor then Inr None
          else rbind (scan_blocks buffer (offset + header_bytes descriptor)) (\<lambda>last. case last of
              None \<Rightarrow> Inr None
            | Some offset \<Rightarrow>
                if has_checksum descriptor then (if length buffer - offset < 4 then Inr None else Inr (Some (offset + 4)))
                else Inr (Some offset)))"

lemma scan_blocks_Some:
  "scan_blocks buffer offset = Inr (Some e) \<longleftrightarrow>
     \<not> length buffer - offset < 3 \<and> block_kind (read_le 3 buffer offset) \<noteq> 3 \<and>
     \<not> length buffer - (offset + 3) < payload_bytes (read_le 3 buffer offset) \<and>
     (if last_block (read_le 3 buffer offset) then e = offset + 3 + payload_bytes (read_le 3 buffer offset)
      else scan_blocks buffer (offset + 3 + payload_bytes (read_le 3 buffer offset)) = Inr (Some e))"
  by (subst scan_blocks.simps) (auto simp: Let_def)

lemma scan_blocks_bounds: "scan_blocks buffer offset = Inr (Some e) \<Longrightarrow> offset < e \<and> e \<le> length buffer"
proof (induction buffer offset rule: scan_blocks.induct)
  case (1 buffer offset)
  note step = "1.prems" [unfolded scan_blocks_Some [of buffer offset]]
  show ?case
  proof (cases "last_block (read_le 3 buffer offset)")
    case False
    with step "1.IH" [OF _ refl refl] show ?thesis by auto
  qed (use step in auto)
qed

lemma scan_frame_Some:
  assumes "scan_frame buffer start = Inr (Some e)"
  defines "d \<equiv> buffer ! (start + 4)"
  obtains l where "\<not> length buffer - start < 4" and "read_le 4 buffer start = ZSTD_MAGIC" and "start + 4 \<noteq> length buffer"
    and "\<not> reserved_bits d" and "\<not> length buffer - (start + 4 + 1) < header_bytes d"
    and "scan_blocks buffer (start + 4 + 1 + header_bytes d) = Inr (Some l)"
    and "if has_checksum d then \<not> length buffer - l < 4 \<and> e = l + 4 else e = l"
proof -
  have c: "\<not> length buffer - start < 4" "read_le 4 buffer start = ZSTD_MAGIC" "start + 4 \<noteq> length buffer" "\<not> reserved_bits d"
    "\<not> length buffer - (start + 4 + 1) < header_bytes d"
    using assms by (simp_all add: scan_frame_def Let_def split: if_splits)
  then have "scan_frame buffer start = rbind (scan_blocks buffer (start + 4 + 1 + header_bytes d)) (\<lambda>last. case last of
      None \<Rightarrow> Inr None
    | Some offset \<Rightarrow> if has_checksum d then (if length buffer - offset < 4 then Inr None else Inr (Some (offset + 4))) else Inr (Some offset))"
    unfolding scan_frame_def Let_def d_def by (simp only: if_False not_not simp_thms)
  with assms(1) obtain l where l: "scan_blocks buffer (start + 4 + 1 + header_bytes d) = Inr (Some l)"
    "(if has_checksum d then (if length buffer - l < 4 then Inr None else Inr (Some (l + 4))) else Inr (Some l)) = (Inr (Some e) :: frame_error + nat option)"
    by (auto simp: rbind_Inr_iff split: option.splits)
  then have "if has_checksum d then \<not> length buffer - l < 4 \<and> e = l + 4 else e = l" by (auto split: if_splits)
  with c l(1) show thesis by (rule that)
qed

lemma scan_frame_bounds: "scan_frame buffer start = Inr (Some e) \<Longrightarrow> start < e \<and> e \<le> length buffer"
  by (erule scan_frame_Some) (auto split: if_splits dest!: scan_blocks_bounds)

function scan_frames :: "byte list \<Rightarrow> nat option \<Rightarrow> nat \<Rightarrow> (nat \<times> nat) list \<Rightarrow> frame_error + frame_scan" where
  "scan_frames buffer max_frames start frames =
     (if length buffer \<le> start then Inr \<lparr>fs_frames = frames, fs_torn = None\<rparr>
      else case scan_frame buffer start of
        Inl e \<Rightarrow> Inl e
      | Inr None \<Rightarrow> Inr \<lparr>fs_frames = frames, fs_torn = Some start\<rparr>
      | Inr (Some e) \<Rightarrow>
          if Some (length frames + 1) = max_frames then Inr \<lparr>fs_frames = frames @ [(start, e)], fs_torn = None\<rparr>
          else scan_frames buffer max_frames e (frames @ [(start, e)]))"
  by pat_completeness auto
termination
  by (relation "measure (\<lambda>(buffer, m, start, fs). length buffer - start)") (auto dest!: scan_frame_bounds)

declare scan_frames.simps [simp del]

definition scan_zstd_frames :: "byte list \<Rightarrow> nat option \<Rightarrow> frame_error + frame_scan" where
  "scan_zstd_frames buffer max_frames = scan_frames buffer max_frames 0 []"

section \<open>Reading a compressed log\<close>

datatype stored_error =
    LineError scan_error
  | FrameError frame_error
  | NoFrames
  | InflateFailed
  | HeaderFrame
  | TornRecord

definition lift_lines :: "scan_error + 'a \<Rightarrow> stored_error + 'a" where
  "lift_lines r = map_sum LineError id r"

definition inflated :: "(byte list \<Rightarrow> byte list option) \<Rightarrow> byte list \<Rightarrow> nat \<times> nat \<Rightarrow> stored_error + byte list" where
  "inflated inflate buffer f = (case inflate (subarray (fst f) (snd f) buffer) of None \<Rightarrow> Inl InflateFailed | Some p \<Rightarrow> Inr p)"

fun write_frames ::
  "line_parser \<Rightarrow> (byte list \<Rightarrow> byte list option) \<Rightarrow> byte list \<Rightarrow> (nat \<times> nat) list \<Rightarrow> scanner \<Rightarrow> stored_error + scanner" where
  "write_frames parse inflate buffer [] st = Inr st"
| "write_frames parse inflate buffer (f # fs) st =
     rbind (inflated inflate buffer f) (\<lambda>p. rbind (lift_lines (write_chunk parse p st)) (write_frames parse inflate buffer fs))"

record stored_prefix =
  sp_meta :: stored_header
  sp_events :: "json list"
  sp_truncate_to :: "nat option"
  sp_recovered :: "json list"

definition read_zstd_prefix ::
  "line_parser \<Rightarrow> (byte list \<Rightarrow> byte list option) \<Rightarrow> (byte list \<Rightarrow> byte list) \<Rightarrow> byte list \<Rightarrow> stored_error + stored_prefix" where
  "read_zstd_prefix parse inflate inflate_prefix buffer =
     rbind (map_sum FrameError id (scan_zstd_frames buffer None)) (\<lambda>s. case fs_frames s of
         [] \<Rightarrow> Inl NoFrames
       | f # fs \<Rightarrow>
           rbind (inflated inflate buffer f) (\<lambda>header.
             if header = [] \<or> index_of header lf \<noteq> Some (length header - 1) then Inl HeaderFrame
             else rbind (lift_lines (new_scanner parse header)) (\<lambda>st.
               rbind (write_frames parse inflate buffer fs st) (\<lambda>st.
                 if ls_committed st \<noteq> ls_input st then Inl TornRecord
                 else case fs_torn s of
                     None \<Rightarrow> (let r = fst (scanner_finish st) in
                       Inr \<lparr>sp_meta = lg_meta r, sp_events = lg_events r, sp_truncate_to = None, sp_recovered = []\<rparr>)
                   | Some torn \<Rightarrow>
                       rbind (lift_lines (write_chunk parse (inflate_prefix (drop torn buffer)) st)) (\<lambda>st'.
                         let r = fst (scanner_finish st') in
                         Inr \<lparr>sp_meta = lg_meta r, sp_events = lg_events r, sp_truncate_to = Some torn,
                           sp_recovered = drop (length (ls_events st)) (lg_events r)\<rparr>)))))"

section \<open>Torn buffers\<close>

lemma read_le_take: "offset + k \<le> n \<Longrightarrow> read_le k (take n buffer) offset = read_le k buffer offset"
  by (simp add: read_le_def take_drop min_absorb1)

lemma scan_blocks_take:
  assumes "scan_blocks buffer offset = Inr (Some e)" and "offset \<le> n" and "n \<le> length buffer"
  shows "scan_blocks (take n buffer) offset = (if e \<le> n then Inr (Some e) else Inr None)"
  using assms
proof (induction buffer offset rule: scan_blocks.induct)
  case (1 buffer offset)
  let ?h = "read_le 3 buffer offset"
  let ?p = "payload_bytes ?h"
  have [simp]: "length (take n buffer) = n" using "1.prems"(3) by simp
  have e: "offset < e" using "1.prems"(1) scan_blocks_bounds by blast
  from "1.prems"(1) [unfolded scan_blocks_Some [of buffer offset]] have full: "\<not> length buffer - offset < 3" "block_kind ?h \<noteq> 3" "\<not> length buffer - (offset + 3) < ?p"
    "if last_block ?h then e = offset + 3 + ?p else scan_blocks buffer (offset + 3 + ?p) = Inr (Some e)"
    by auto
  have ge: "offset + 3 + ?p \<le> e"
    using full(4) scan_blocks_bounds [of buffer "offset + 3 + ?p" e] by (auto split: if_splits)
  show ?case
  proof (cases "offset + 3 + ?p \<le> n")
    case False
    then have "\<not> e \<le> n" using ge by linarith
    moreover have "scan_blocks (take n buffer) offset = Inr None"
    proof (cases "n - offset < 3")
      case True
      then show ?thesis by (subst scan_blocks.simps) (simp del: length_take)
    next
      case False': False
      then have "read_le 3 (take n buffer) offset = ?h" by (intro read_le_take) linarith
      moreover have "n - (offset + 3) < ?p" using False False' by linarith
      ultimately show ?thesis using False' full(2) by (subst scan_blocks.simps) (simp add: Let_def del: length_take)
    qed
    ultimately show ?thesis by simp
  next
    case True
    then have r: "read_le 3 (take n buffer) offset = ?h" by (intro read_le_take) linarith
    have "scan_blocks (take n buffer) offset =
        (if last_block ?h then Inr (Some (offset + 3 + ?p)) else scan_blocks (take n buffer) (offset + 3 + ?p))"
    proof -
      have "\<not> n - offset < 3" "\<not> n - (offset + 3) < ?p" using True by linarith+
      then show ?thesis using full(2) r by (subst scan_blocks.simps) (simp add: Let_def del: length_take)
    qed
    then show ?thesis
      using full(4) True "1.IH" [OF full(1) refl refl full(2,3)] "1.prems"(3) by (cases "last_block ?h") simp_all
  qed
qed

lemma scan_frame_take:
  assumes "scan_frame buffer start = Inr (Some e)" and "start \<le> n" and "n \<le> length buffer"
  shows "scan_frame (take n buffer) start = (if e \<le> n then Inr (Some e) else Inr None)"
proof -
  have len [simp]: "length (take n buffer) = n" using assms(3) by simp
  let ?d = "buffer ! (start + 4)"
  let ?o = "start + 4 + 1 + header_bytes ?d"
  from assms(1) obtain l where full: "\<not> length buffer - start < 4" "read_le 4 buffer start = ZSTD_MAGIC" "start + 4 \<noteq> length buffer"
    "\<not> reserved_bits ?d" "\<not> length buffer - (start + 4 + 1) < header_bytes ?d" "scan_blocks buffer ?o = Inr (Some l)"
    "if has_checksum ?d then \<not> length buffer - l < 4 \<and> e = l + 4 else e = l"
    by (rule scan_frame_Some)
  have l: "?o < l" "l \<le> length buffer" "l \<le> e" using scan_blocks_bounds [OF full(6)] full(7) by (auto split: if_splits)
  show ?thesis
  proof (cases "?o \<le> n")
    case False
    then have "\<not> e \<le> n" using l by linarith
    moreover have "scan_frame (take n buffer) start = Inr None"
    proof (cases "start + 5 \<le> n")
      case True
      then have "read_le 4 (take n buffer) start = ZSTD_MAGIC" "take n buffer ! (start + 4) = ?d"
        using full(2) by (simp_all add: read_le_take)
      then show ?thesis using False True full(4) assms(3) by (simp add: scan_frame_def Let_def del: length_take)
    next
      case False
      then consider "n - start < 4" | "n = start + 4" by linarith
      then show ?thesis
      proof cases
        case 2
        then have "read_le 4 (take n buffer) start = ZSTD_MAGIC" "start + 4 = length (take n buffer)"
          using full(2) assms(3) by (simp_all add: read_le_take)
        then show ?thesis by (simp add: scan_frame_def Let_def del: length_take)
      qed (use assms(3) in \<open>simp add: scan_frame_def min_def\<close>)
    qed
    ultimately show ?thesis by simp
  next
    case True
    then have m: "read_le 4 (take n buffer) start = ZSTD_MAGIC" "take n buffer ! (start + 4) = ?d"
      using full(2) by (simp_all add: read_le_take)
    have "scan_frame (take n buffer) start = rbind (scan_blocks (take n buffer) ?o) (\<lambda>last. case last of None \<Rightarrow> Inr None
        | Some offset \<Rightarrow> if has_checksum ?d then (if n - offset < 4 then Inr None else Inr (Some (offset + 4))) else Inr (Some offset))"
    proof -
      have "\<not> n - start < 4" "start + 4 \<noteq> n" "\<not> n - (start + 4 + 1) < header_bytes ?d" using True by linarith+
      then show ?thesis using full(4) m unfolding scan_frame_def Let_def len by (simp only: if_False not_not simp_thms)
    qed
    then show ?thesis using scan_blocks_take [OF full(6) True assms(3)] full(7) l by (auto split: if_splits)
  qed
qed

lemma scan_frames_extends: "scan_frames buffer m start frames = Inr s \<Longrightarrow> \<exists>fs. fs_frames s = frames @ fs"
proof (induction buffer m start frames rule: scan_frames.induct)
  case (1 buffer m start frames)
  from "1.prems" show ?case
    by (subst (asm) scan_frames.simps) (auto split: if_splits sum.splits option.splits dest!: "1.IH")
qed

text \<open>How far the kept frames reach.\<close>

definition covered :: "nat \<Rightarrow> (nat \<times> nat) list \<Rightarrow> nat" where
  "covered start fs = (if fs = [] then start else snd (last fs))"

lemma scan_frames_take:
  assumes "m = None" and "scan_frames buffer m start frames = Inr \<lparr>fs_frames = frames @ fs, fs_torn = None\<rparr>" and "start \<le> n" and "n \<le> length buffer"
  shows "scan_frames (take n buffer) m start frames = Inr \<lparr>fs_frames = frames @ takeWhile (\<lambda>f. snd f \<le> n) fs,
    fs_torn = (let c = covered start (takeWhile (\<lambda>f. snd f \<le> n) fs) in if c = n then None else Some c)\<rparr>"
  using assms
proof (induction buffer m start frames arbitrary: fs rule: scan_frames.induct)
  case (1 buffer m start frames)
  have len: "length (take n buffer) = n" using "1.prems"(4) by simp
  show ?case
  proof (cases "length buffer \<le> start")
    case True
    with "1.prems" show ?thesis by (auto simp: scan_frames.simps [of buffer] covered_def)
  next
    case False
    with "1.prems"(1,2) obtain e where e: "scan_frame buffer start = Inr (Some e)"
      "scan_frames buffer m e (frames @ [(start, e)]) = Inr \<lparr>fs_frames = frames @ fs, fs_torn = None\<rparr>"
      by (subst (asm) scan_frames.simps) (auto split: sum.splits option.splits)
    obtain gs where gs: "fs = (start, e) # gs" using scan_frames_extends [OF e(2)] by auto
    note t = scan_frame_take [OF e(1) "1.prems"(3,4)]
    show ?thesis
    proof (cases "e \<le> n")
      case True
      have "start < n" using True scan_frame_bounds [OF e(1)] by simp
      then have "scan_frames (take n buffer) m start frames = scan_frames (take n buffer) m e (frames @ [(start, e)])"
        using t True len "1.prems"(1) by (subst scan_frames.simps) simp
      with "1.IH" [OF False e(1) refl _ "1.prems"(1) _ True "1.prems"(4), of gs] e(2) "1.prems"(1) show ?thesis
        unfolding gs using True by (simp add: covered_def)
    next
      case e': False
      then show ?thesis unfolding gs using t len "1.prems"(1,3) by (subst scan_frames.simps) (auto simp: covered_def)
    qed
  qed
qed

text \<open>
  C37: A crash can only tear the last frame of a compressed log: of a log of complete frames, the scan of any prefix finds
  exactly the frames that lie within the prefix and reports the start of the first that does not, and it never takes the
  prefix for a corrupt log.
\<close>

theorem truncation_tears_only_the_last_frame:
  assumes "scan_zstd_frames buffer None = Inr \<lparr>fs_frames = frames, fs_torn = None\<rparr>" and "n \<le> length buffer"
  defines "kept \<equiv> takeWhile (\<lambda>f. snd f \<le> n) frames"
  shows "scan_zstd_frames (take n buffer) None =
    Inr \<lparr>fs_frames = kept, fs_torn = (if covered 0 kept = n then None else Some (covered 0 kept))\<rparr>"
  using scan_frames_take [of None buffer 0 "[]" frames n] assms by (simp add: scan_zstd_frames_def Let_def)

text \<open>Two checksummed frames of one byte each.\<close>

definition sample_frame :: "byte \<Rightarrow> byte list" where
  "sample_frame b = [0x28, 0xB5, 0x2F, 0xFD, 0x04, 0x58, 0x09, 0, 0, b, 0, 0, 0, 0]"

theorem truncation_tears_only_the_last_frame_witness:
  "scan_zstd_frames (take 20 (sample_frame 65 @ sample_frame 66)) None = Inr \<lparr>fs_frames = [(0, 14)], fs_torn = Some 14\<rparr>"
proof -
  have s: "scan_zstd_frames (sample_frame 65 @ sample_frame 66) None = Inr \<lparr>fs_frames = [(0, 14), (14, 28)], fs_torn = None\<rparr>"
    by code_simp
  have "20 \<le> length (sample_frame 65 @ sample_frame 66)" by (simp add: sample_frame_def)
  from truncation_tears_only_the_last_frame [OF s this] show ?thesis by (simp add: covered_def)
qed

section \<open>The plaintext of a compressed log\<close>

lemma feed_append: "feed_chunks parse (cs @ ds) st = rbind (feed_chunks parse cs st) (feed_chunks parse ds)"
proof (induction cs arbitrary: st)
  case (Cons c cs)
  then show ?case by (cases "write_chunk parse c st") simp_all
qed simp

lemma write_frames_feed:
  "write_frames parse inflate buffer fs st = Inr st' \<Longrightarrow>
     \<exists>ps. map (\<lambda>f. inflate (subarray (fst f) (snd f) buffer)) fs = map Some ps \<and> feed_chunks parse ps st = Inr st'"
proof (induction fs arbitrary: st)
  case (Cons f fs)
  from Cons.prems obtain p st1 where p: "inflate (subarray (fst f) (snd f) buffer) = Some p" "write_chunk parse p st = Inr st1"
    "write_frames parse inflate buffer fs st1 = Inr st'"
    by (auto simp: rbind_Inr_iff inflated_def lift_lines_def map_sum_def split: option.splits sum.splits)
  from Cons.IH [OF p(3)] obtain ps where "map (\<lambda>f. inflate (subarray (fst f) (snd f) buffer)) fs = map Some ps" "feed_chunks parse ps st1 = Inr st'"
    by blast
  then show ?case using p by (intro exI [of _ "p # ps"]) simp
qed simp

lemma scan_lines_extends:
  "scan_lines parse start ls st = Inr st' \<Longrightarrow> \<exists>fs. ls_events st' = ls_events st @ fs"
proof (cases "ls_issue st")
  case None
  assume "scan_lines parse start ls st = Inr st'"
  with scan_lines_spec [OF None, of parse ls start] show ?thesis by (auto simp: Let_def split: if_splits)
next
  case (Some i)
  assume "scan_lines parse start ls st = Inr st'"
  with Some scan_lines_after_issue [of st parse ls start] show ?thesis by (auto simp: scanner_finish_def split: if_splits)
qed

text \<open>What has been fed to a scanner since its header.\<close>

definition fed :: "line_parser \<Rightarrow> byte list \<Rightarrow> byte list list \<Rightarrow> scanner \<Rightarrow> bool" where
  "fed parse header ps st \<longleftrightarrow> rbind (new_scanner parse header) (feed_chunks parse ps) = Inr st"

lemma fed_step: "fed parse header ps st \<Longrightarrow> write_chunk parse p st = Inr st' \<Longrightarrow> fed parse header (ps @ [p]) st'"
  by (auto simp: fed_def rbind_Inr_iff feed_append)

lemma fed_scan:
  assumes "fed parse (x @ [lf]) ps st" and "lf \<notin> set x"
  shows "scan_stored parse (x @ lf # concat ps) = scanned st"
proof -
  have "rbind (rbind (new_scanner parse (x @ [lf])) (feed_chunks parse ps)) scanned = scanned st" using assms(1) by (simp add: fed_def)
  then show ?thesis unfolding scan_stored_lines [OF assms(2)] feed_new by simp
qed

lemma feed_ok:
  "feed_chunks parse ps st = Inr st' \<Longrightarrow> fragments_ok st \<Longrightarrow> \<not> ls_finished st \<Longrightarrow>
     fragments_ok st' \<and> \<not> ls_finished st' \<and> ls_input st' = ls_input st + length (concat ps) \<and> (\<exists>es. ls_events st' = ls_events st @ es)"
proof (induction ps arbitrary: st)
  case (Cons p ps)
  then obtain st1 where st1: "write_chunk parse p st = Inr st1" "feed_chunks parse ps st1 = Inr st'" by (auto simp: rbind_Inr_iff)
  obtain ls t where s: "split_lines (unread st @ p) = (ls, t)" by fastforce
  have "ls_input st - length (unread st) + length (unread st) = ls_input st" using Cons.prems(2) by (simp add: fragments_ok_def)
  from write_chunk_spec [OF Cons.prems(2,3) this s, of parse] st1(1)
  have st1': "scan_lines parse (ls_input st - length (unread st)) ls (bare st) = Inr (bare st1)" "fragments_ok st1" "\<not> ls_finished st1"
    "ls_input st1 = ls_input st + length p" by simp_all
  obtain es where "ls_events st1 = ls_events st @ es"
    using scan_lines_extends [OF st1'(1)] by (auto simp: bare_def)
  then show ?case using Cons.IH [OF st1(2) st1'(2,3)] st1'(4) by auto
qed simp

lemma fed_ok:
  assumes "fed parse header ps st"
  shows "fragments_ok st" and "\<not> ls_finished st" and "ls_input st = length (header @ concat ps)"
  using assms feed_ok [of parse ps "start_scanner _ (length header)" st]
  by (auto simp: fed_def rbind_Inr_iff new_scanner_start)

lemma read_zstd_prefix_steps:
  assumes "read_zstd_prefix parse inflate inflate_prefix buffer = Inr p"
  obtains s f fs header st0 st where "scan_zstd_frames buffer None = Inr s" and "fs_frames s = f # fs"
    and "inflate (subarray (fst f) (snd f) buffer) = Some header" and "index_of header lf = Some (length header - 1)"
    and "new_scanner parse header = Inr st0" and "write_frames parse inflate buffer fs st0 = Inr st" and "ls_committed st = ls_input st"
    and "case fs_torn s of
        None \<Rightarrow> p = \<lparr>sp_meta = ls_meta st, sp_events = ls_events st, sp_truncate_to = None, sp_recovered = []\<rparr>
      | Some torn \<Rightarrow> \<exists>st'. write_chunk parse (inflate_prefix (drop torn buffer)) st = Inr st' \<and>
          p = \<lparr>sp_meta = ls_meta st', sp_events = ls_events st', sp_truncate_to = Some torn,
            sp_recovered = drop (length (ls_events st)) (ls_events st')\<rparr>"
proof -
  note read = assms [unfolded read_zstd_prefix_def]
  obtain s where s: "scan_zstd_frames buffer None = Inr s" using read by (cases "scan_zstd_frames buffer None") simp_all
  note read = read [unfolded s, simplified]
  obtain f fs where f: "fs_frames s = f # fs" using read by (cases "fs_frames s") simp_all
  note read = read [unfolded f, simplified]
  obtain header where h: "inflate (subarray (fst f) (snd f) buffer) = Some header"
    using read by (cases "inflate (subarray (fst f) (snd f) buffer)") (simp_all add: inflated_def)
  note read = read [unfolded inflated_def h, simplified]
  have i: "header \<noteq> []" "index_of header lf = Some (length header - 1)" using read by (auto split: if_splits)
  note read = read [simplified i, simplified]
  obtain st0 where st0: "new_scanner parse header = Inr st0" using read by (cases "new_scanner parse header") (simp_all add: i lift_lines_def)
  obtain st where st: "write_frames parse inflate buffer fs st0 = Inr st"
    using read by (cases "write_frames parse inflate buffer fs st0") (simp_all add: i st0 lift_lines_def)
  have c: "ls_committed st = ls_input st" using read by (simp add: i st0 st lift_lines_def split: if_splits)
  show thesis
  proof (rule that [OF s f h i(2) st0 st c], cases "fs_torn s")
    case (Some torn)
    then show "case fs_torn s of
        None \<Rightarrow> p = \<lparr>sp_meta = ls_meta st, sp_events = ls_events st, sp_truncate_to = None, sp_recovered = []\<rparr>
      | Some torn \<Rightarrow> \<exists>st'. write_chunk parse (inflate_prefix (drop torn buffer)) st = Inr st' \<and>
          p = \<lparr>sp_meta = ls_meta st', sp_events = ls_events st', sp_truncate_to = Some torn,
            sp_recovered = drop (length (ls_events st)) (ls_events st')\<rparr>"
      using read by (cases "write_chunk parse (inflate_prefix (drop torn buffer)) st")
        (simp_all add: i st0 st c lift_lines_def Let_def scanner_finish_def)
  qed (use read in \<open>simp add: i st0 st c lift_lines_def Let_def scanner_finish_def\<close>)
qed

text \<open>
  C38: A compressed log reads as its plaintext: the header and events are those that a scan of the decompressed frames, one
  after the other, and of what could be decompressed of the torn one finds; the complete frames are committed as a whole;
  and the events to be written again after the torn frame is cut off are exactly those behind the complete frames.
\<close>

theorem compressed_log_reads_as_its_plaintext:
  assumes "read_zstd_prefix parse inflate inflate_prefix buffer = Inr p"
  shows "\<exists>s header ps r0 r. scan_zstd_frames buffer None = Inr s \<and> sp_truncate_to p = fs_torn s \<and>
    map (\<lambda>f. inflate (subarray (fst f) (snd f) buffer)) (fs_frames s) = map Some (header # ps) \<and>
    scan_stored parse (header @ concat ps) = Inr r0 \<and> lg_committed r0 = length (header @ concat ps) \<and>
    scan_stored parse (header @ concat ps @ (case fs_torn s of None \<Rightarrow> [] | Some torn \<Rightarrow> inflate_prefix (drop torn buffer))) = Inr r \<and>
    sp_meta p = lg_meta r \<and> sp_events p = lg_events r \<and> sp_events p = lg_events r0 @ sp_recovered p"
proof -
  from assms obtain s f fs header st0 st where s: "scan_zstd_frames buffer None = Inr s" "fs_frames s = f # fs"
    and h: "inflate (subarray (fst f) (snd f) buffer) = Some header" "index_of header lf = Some (length header - 1)"
    and st: "new_scanner parse header = Inr st0" "write_frames parse inflate buffer fs st0 = Inr st" "ls_committed st = ls_input st"
    and p: "case fs_torn s of
        None \<Rightarrow> p = \<lparr>sp_meta = ls_meta st, sp_events = ls_events st, sp_truncate_to = None, sp_recovered = []\<rparr>
      | Some torn \<Rightarrow> \<exists>st'. write_chunk parse (inflate_prefix (drop torn buffer)) st = Inr st' \<and>
          p = \<lparr>sp_meta = ls_meta st', sp_events = ls_events st', sp_truncate_to = Some torn,
            sp_recovered = drop (length (ls_events st)) (ls_events st')\<rparr>"
    by (rule read_zstd_prefix_steps)
  from h(2) have hd: "header = take (length header - 1) header @ [lf]" "lf \<notin> set (take (length header - 1) header)"
    using id_take_nth_drop [of "length header - 1" header] by (auto simp: index_of_first)
  let ?x = "take (length header - 1) header"
  obtain ps where ps: "map (\<lambda>f. inflate (subarray (fst f) (snd f) buffer)) fs = map Some ps" "feed_chunks parse ps st0 = Inr st"
    using write_frames_feed [OF st(2)] by blast
  have fed: "fed parse (?x @ [lf]) ps st" using st(1) ps(2) hd(1) by (simp add: fed_def)
  have scan: "scan_stored parse (header @ concat qs) = scanned st'" if "fed parse (?x @ [lf]) qs st'" for qs st'
    using fed_scan [OF that hd(2)] hd(1) by (metis append.assoc append_Cons append_Nil)
  have c: "lg_committed (fst (scanner_finish st)) = length (header @ concat ps)"
    using fed_ok(3) [OF fed [folded hd(1)]] st(3) by (simp add: scanner_finish_def)
  show ?thesis
  proof (cases "fs_torn s")
    case None
    with p have "p = \<lparr>sp_meta = ls_meta st, sp_events = ls_events st, sp_truncate_to = None, sp_recovered = []\<rparr>" by simp
    then show ?thesis using s h(1) ps(1) scan [OF fed] c None
      by (intro exI [of _ s] exI [of _ header] exI [of _ ps] exI [of _ "fst (scanner_finish st)"]) (simp add: scanner_finish_def)
  next
    case (Some torn)
    let ?q = "inflate_prefix (drop torn buffer)"
    from p Some obtain st' where st': "write_chunk parse ?q st = Inr st'" "p = \<lparr>sp_meta = ls_meta st', sp_events = ls_events st',
        sp_truncate_to = Some torn, sp_recovered = drop (length (ls_events st)) (ls_events st')\<rparr>" by auto
    have "scan_stored parse (header @ concat ps @ ?q) = scanned st'" using scan [OF fed_step [OF fed st'(1)]] by simp
    moreover obtain es where "ls_events st' = ls_events st @ es"
      using feed_ok [of parse "[?q]" st st'] st'(1) fed_ok(1,2) [OF fed] by auto
    ultimately show ?thesis using s h(1) ps(1) scan [OF fed] c Some st'(2)
      by (intro exI [of _ s] exI [of _ header] exI [of _ ps] exI [of _ "fst (scanner_finish st)"] exI [of _ "fst (scanner_finish st')"])
        (simp add: scanner_finish_def)
  qed
qed

text \<open>The log of \<open>sample_batches\<close> in three frames, whose payload byte tells what they hold; the last one is torn.\<close>

definition sample_inflate :: "byte list \<Rightarrow> byte list option" where
  "sample_inflate b = (if length b \<noteq> 14 then None else if b ! 9 = 1 then Some [65, lf] else Some [70, lf])"

definition sample_inflate_prefix :: "byte list \<Rightarrow> byte list" where
  "sample_inflate_prefix b = (if length b < 10 then [] else [66, lf])"

theorem compressed_log_reads_as_its_plaintext_witness:
  "\<exists>p (r :: log_scan). read_zstd_prefix sample_parse sample_inflate sample_inflate_prefix (take 40 (sample_frame 1 @ sample_frame 2 @ sample_frame 3)) = Inr p \<and>
     length (sp_events p) = 4 \<and> length (sp_recovered p) = 1 \<and> sp_events p = lg_events r @ sp_recovered p"
proof -
  let ?b = "take 40 (sample_frame 1 @ sample_frame 2 @ sample_frame 3)"
  have "map_sum id (\<lambda>p. (length (sp_events p), length (sp_recovered p))) (read_zstd_prefix sample_parse sample_inflate sample_inflate_prefix ?b) = Inr (4, 1)"
    by code_simp
  then obtain p where p: "read_zstd_prefix sample_parse sample_inflate sample_inflate_prefix ?b = Inr p"
    "length (sp_events p) = 4" "length (sp_recovered p) = 1"
    by (cases "read_zstd_prefix sample_parse sample_inflate sample_inflate_prefix ?b") auto
  from compressed_log_reads_as_its_plaintext [OF p(1)] obtain r :: log_scan where "sp_events p = lg_events r @ sp_recovered p"
    by (elim exE conjE)
  with p show ?thesis by blast
qed

end
