(* ===== verification/Spec2Isabelle.thy ===== *)
theory Spec2Isabelle
  imports Session_Store Chunk_Rows Consumed_Work Goal_Service Result_Pruner Team_Outcome Agent_Wake Output_Retention Llm_Retry Schedule_Runtime Zstd_Log
begin

text \<open>
  Verification of the agent harness of this repository. The harness runs model-driven agents whose whole
  state is an append-only log of typed events: an agent owns a session, every component records what it does as
  events of that session, and every component's state is a fold of the log. The development models this core, that is
  the session, the components that read and write its log, and the agent driver that ties them together.

  \<^bold>\<open>How the parts interact.\<close> A session (\<open>packages/core/session\<close>) checks each appended event against the
  surface fold and lets companions veto it; the store publishes sessions to listeners, and repair closes the turn
  that a crash left open. Messages for an agent wait in its inbox (\<open>packages/core/agent\<close>). The driver
  (\<open>packages/core/agent-loop\<close>) claims them into a turn, composes a request from the surface, assembles the
  answer's chunk stream into a message (\<open>packages/llm/llm\<close>), runs the tool calls in it, and goes on until the model
  stops. Around a request, the retry plugin (\<open>packages/llm/llm-retry\<close>) records and delays new attempts; around a
  step, the token meter (\<open>packages/llm/token-meter\<close>) prices the surface, and compaction and the tool-result pruner
  (\<open>packages/compaction\<close>) rewrite parts of it. Goals (\<open>packages/goal/goal\<close>), team tasks
  (\<open>packages/experimental/agent-team\<close>) and reminders (\<open>packages/schedule/schedule\<close>) are domains of their own that
  keep their records in the same log. Long tool output is bounded by \<open>packages/util/output-retention\<close>.

  \<^bold>\<open>The theories, in the order of the imports, and the code they model.\<close>

  Foundations.
  \<^item> \<open>Prelude\<close>: numbers, JSON values, insertion-ordered maps, results of fallible code, and the locales the components
    interpret: \<open>replayed\<close> (a fallible step run over a log, with what its state says of the history), \<open>cached_fold\<close> (a fold
    brought up to date by its unseen suffix) and \<open>js_map\<close> (an insertion-ordered map).
  \<^item> \<open>Js_Double\<close>, \<open>Utf8\<close>, \<open>Utc_Time\<close>: what the sources use of the language's standard library: rounding to binary64,
    \<open>TextEncoder\<close> and \<open>TextDecoder\<close>, and the calendar, printing and parsing of \<open>Date\<close>.

  The session.
  \<^item> \<open>Session_Types\<close>: messages, chunks and events (\<open>llm/src/types.ts\<close>, \<open>message.ts\<close>, \<open>session/src/types.ts\<close>). A
    source interface is a record, a tagged union a datatype with a constructor per tag.
  \<^item> \<open>Surface\<close>, \<open>Surface_Edit\<close> (\<open>session/src/surface.ts\<close>): the surface is the list of nodes the model sees. Every
    message is a node or shadowed by exactly one replacement; the incremental \<open>SurfaceManager\<close> refines the fold.
  \<^item> \<open>Session_Trace\<close> (\<open>invariant.ts\<close>): which events may follow which, and the grammar \<open>closed_turns\<close> the accepted logs
    have.
  \<^item> \<open>Session_Repair\<close> (\<open>repair.ts\<close>): the synthetic closers, accepted and closing.
  \<^item> \<open>Session_Envelope\<close>, \<open>Session_Log\<close>, \<open>Session_Store\<close> (\<open>index.ts\<close>, \<open>request-header.ts\<close>): the checks on stored JSON,
    the class \<open>Session\<close> (construction, append, cached folds, fork seeds) and the class \<open>SessionStore\<close>, whose
    listeners may call back, so its operations are split into interleaved steps of a transition relation.
  \<^item> \<open>Chunk_Rows\<close> (\<open>chunk-rows.ts\<close>): the storage packing of delta runs and its decoder on JSON values.
  \<^item> \<open>Jsonl_Format\<close>, \<open>Zstd_Log\<close> (\<open>session-persistence-jsonl/src/format.ts\<close>, \<open>zstd.ts\<close>, \<open>index.ts\<close>): the stored log, its path,
    its lines and its frames. However a log is torn, its complete records are read back and it can be appended to; a
    finished turn is never dropped; a compressed log reads as its plaintext.

  The agent.
  \<^item> \<open>Inbox\<close>, \<open>Consumed_Work\<close> (\<open>agent/src/inbox.ts\<close>, \<open>consumed-work.ts\<close>): the pending lists as durable splices, equal to
    their replay and losing no message, and the one-pass account of consumed work against its declarative reading.
  \<^item> \<open>Assembler\<close> (\<open>llm/src/assembler.ts\<close>): chunk interleavings against the index-by-index reading of the stream.
  \<^item> \<open>Agent_Log\<close>: which appends a session accepts, shared by all components that write.
  \<^item> \<open>Runtime_Context\<close>, \<open>Request_Header\<close>, \<open>Agent_Request\<close> (\<open>agent-loop/src/runtime-context.ts\<close>, \<open>agent.ts\<close>): the context
    snapshots and the records of a request.
  \<^item> \<open>Tool_Schedule\<close>, \<open>Tool_Outcome\<close> (\<open>agent-loop/src/tool-calls.ts\<close>): the pool of concurrent calls as a transition
    function over the inputs of the tool runtime; order, bounds, and a measure that every move decreases.
  \<^item> \<open>Agent_Loop\<close>, \<open>Agent_Outcome\<close>, \<open>Agent_Wake\<close> (\<open>agent-loop/src/agent.ts\<close>): the class \<open>ReactLoopAgent\<close>, one control point per
    \<open>await\<close>; the log at every moment of every run, the latched wakes, and the gap in which a wake is not heard.
  \<^item> \<open>Retry_Policy\<close>, \<open>Llm_Retry\<close> (\<open>llm/src/retry-policy.ts\<close>, \<open>llm-retry/src\<close>): the delays with their rounding, and the
    plugin interleaved with foreign appends, whose records always pass its companion's checks.

  What rewrites the surface.
  \<^item> \<open>Tool_Pairing\<close>, \<open>Compaction_Log\<close>, \<open>Compaction_Region\<close>, \<open>Compaction_Outcome\<close>
    (\<open>compaction/src\<close>, \<open>compaction-basic/src\<close>): the cached count of open calls at every cut, the brackets of
    compaction events, and the transaction in two synchronous halves around the summarizer.
  \<^item> \<open>Token_Meter\<close>, \<open>Token_Projection\<close> (\<open>token-meter/src\<close>): heuristic prices, the measurement, and the constant-size
    projections that track it.
  \<^item> \<open>Result_Pruner\<close> (\<open>compaction-tool-result-pruner/src\<close>): the pass that shortens tool results.

  The domains.
  \<^item> \<open>Goal_Fold\<close>, \<open>Goal_Service\<close> (\<open>goal/src/fold.ts\<close>, \<open>index.ts\<close>): the strict decoder and replay, and the
    compare-and-set operations, whose records the replay accepts.
  \<^item> \<open>Team_Graph\<close>, \<open>Team_Fold\<close>, \<open>Team_Board\<close>, \<open>Team_Outcome\<close> (\<open>agent-team/src/task-graph.ts\<close>, \<open>fold.ts\<close>, \<open>task-board.ts\<close>):
    the dependency graph, the replay and the board's commands.
  \<^item> \<open>Schedule_Domain\<close>, \<open>Schedule_Framing\<close>, \<open>Schedule_Tools\<close>, \<open>Schedule_Runtime\<close> (\<open>schedule/src/domain.ts\<close>,
    \<open>tools.ts\<close>, \<open>runtime.ts\<close>): durable reminders, the text they are presented with, the tools, and the timer and claims.
  \<^item> \<open>Output_Retention\<close> (\<open>output-retention/src/index.ts\<close>): the streaming head-and-tail retainer against one cut of the
    whole stream.

  \<^bold>\<open>How code becomes a definition.\<close> A \<open>throw\<close> is an \<open>Inl\<close> with one constructor per message, tested in the source's
  order; a synchronous function is a HOL function on explicit states. Code between two awaits runs without interruption
  in JavaScript and is one transition; an \<open>await\<close> is a control point, and what it delivers is an input. A transaction of a
  queue that is held across no \<open>await\<close>, or whose barrier outcomes are inputs, is one operation. The interfaces
  are locales: the operations a client calls are their \<open>fixes\<close> and the provider's laws their \<open>assumes\<close>; each is
  interpreted on the code's own model. The rewriting components see the token meter through \<open>surface_meter\<close> of
  \<open>Surface_Edit\<close>, which \<open>Token_Meter\<close> interprets.

  \<^bold>\<open>Parameters.\<close> Code that is not in the repository is an argument of the definitions: the length of a JSON text (\<open>jl\<close>),
  \<open>JSON.stringify\<close> of a payload, the clock, fresh identities (message ids, UUIDs), the random sample of a delay, the
  summarizer and the model adapter, the reading and writing of one stored JSON line (\<open>parse\<close>, \<open>stringify\<close>, which are inverse
  on the records of a log), decompression (\<open>inflate\<close>), the outcome of a flush, the text of an error's cause chain, and the time zone database
  (\<open>canon\<close>, \<open>project\<close>). Where a law of such a parameter is needed it is a hypothesis that a witness discharges.

  \<^bold>\<open>Numbers, strings, bounds and fuel.\<close> A counter that only the program writes is an \<open>int\<close>, with \<open>max_safe\<close> checked where
  the source checks it; a number read from JSON is a \<open>rat\<close>, because JSON holds only finite doubles, and sums that can
  leave the safe range are rounded as the language does. The quotients of the reminder arithmetic are exact floors:
  two instants of the years 0 to 9999 are less than 2 to the 49 apart, and the quotient of two integers below 2 to the 53
  does not round across an integer.
  Strings are lists of code units below 256, 16-bit words in the paths of \<open>Jsonl_Format\<close>, and code points in \<open>Utf8\<close> and \<open>Output_Retention\<close>. The loops that draw
  an identifier until it is unused have as fuel the number of used identifiers and one more; the drawn identifiers are
  distinct, so one of them is free. The depth-first search of the task graph terminates by the measure of unvisited
  tasks. The scheduler of tool calls needs no fuel: the number of its moves is bounded by a theorem.

  \<^bold>\<open>Assumptions that the properties name.\<close> Of the tool calls: the ids of the calls of one message are distinct
  (\<open>clean_run\<close>), which a well-behaved provider guarantees. Of goals: the clock is a safe integer, the UUID of a new goal is fresh and the revision counter is below the safe limit
  (\<open>admissible_request\<close>). Session listeners run between the commit and the return of an append; where a
  component's model takes an append as one step, a listener that appends to the same session is one more step of
  another component after it. The companions' vetoes are separate from \<open>session_append\<close>: properties state that the events a
  component writes are accepted by them.

  \<^bold>\<open>Not modelled.\<close> Plugin registration and scopes (a framework that is not in the repository), file, database, process and
  network input and output (of the stored logs: listing, creation, append with rollback, locking), prompts and tool descriptions, JSON schemas checked by libraries, client and browser
  code, generated catalogues, and tests. Of modelled packages: the emission of status events and promise joins of the
  driver, the dispatch plumbing of companions (a check before the publish and its effect after it are one step), freezing and
  cloning of JavaScript objects (model values cannot be shared), the request side of the default summarizer, and the
  team's roster and mailbox, which drive agents through services of other packages.
\<close>

end
